(* ===== verification/Prelude.thy ===== *)
theory Prelude
  imports Main
begin

text \<open>
  Shared vocabulary of the development: Python exceptions as values, the Python string
  operations the sources use, decimal printing and parsing of integers, ordered
  dictionaries, and the generic lemmas the component theories share.

  A Python \<open>str\<close> is a \<^typ>\<open>string\<close>: the code points the model covers are those below 256,
  for which \<open>\<backslash>d\<close>, \<open>str.isdigit\<close> on ASCII digits and the character classes of the patterns
  agree with the functions below. A Python \<open>int\<close> is an \<^typ>\<open>int\<close>. A raised exception is
  \<open>Inl\<close> of its class, a returned value is \<open>Inr\<close>.
\<close>

section \<open>Results\<close>

datatype exn =
    WrongTagFormat     \<comment> \<open>\<open>WrongTagFormatException\<close> of core/utils.py\<close>
  | RuntimeErr
  | ValueErr
  | TypeErr
  | KeyErr
  | IndexErr
  | AssertionErr
  | OSErr
  | AttributeErr
  | OverflowErr
  | StructErr        \<comment> \<open>\<open>struct.error\<close>\<close>

type_synonym 'a res = "exn + 'a"

definition bind_res :: "'a res \<Rightarrow> ('a \<Rightarrow> 'b res) \<Rightarrow> 'b res" where
  "bind_res r f = (case r of Inl e \<Rightarrow> Inl e | Inr x \<Rightarrow> f x)"

definition is_ok :: "'a res \<Rightarrow> bool" where
  "is_ok r = (case r of Inl _ \<Rightarrow> False | Inr _ \<Rightarrow> True)"

lemma bind_res_simps [simp]:
  "bind_res (Inl e) f = Inl e"
  "bind_res (Inr x) f = f x"
  by (simp_all add: bind_res_def)

lemma bind_res_eq_Inr [simp]:
  "bind_res r f = Inr y \<longleftrightarrow> (\<exists>x. r = Inr x \<and> f x = Inr y)"
  by (cases r) simp_all

lemma is_ok_simps [simp]: "\<not> is_ok (Inl e)" "is_ok (Inr x)"
  by (simp_all add: is_ok_def)

lemma is_ok_iff: "is_ok r \<longleftrightarrow> (\<exists>x. r = Inr x)"
  by (cases r) simp_all

named_theorems version_defs
named_theorems step_defs

section \<open>Characters\<close>

definition code :: "char \<Rightarrow> nat" where
  "code c = of_char c"

definition in_range :: "char \<Rightarrow> char \<times> char \<Rightarrow> bool" where
  "in_range c r = (code (fst r) \<le> code c \<and> code c \<le> code (snd r))"

definition is_digit :: "char \<Rightarrow> bool" where
  "is_digit c = (48 \<le> code c \<and> code c \<le> 57)"

definition is_space :: "char \<Rightarrow> bool" where
  \<comment> \<open>\<open>str.isspace\<close> below 256\<close>
  "is_space c = (code c = 32 \<or> (9 \<le> code c \<and> code c \<le> 13)
                 \<or> (28 \<le> code c \<and> code c \<le> 31) \<or> code c = 133 \<or> code c = 160)"

definition to_lower :: "char \<Rightarrow> char" where
  \<comment> \<open>\<open>str.lower\<close> on ASCII\<close>
  "to_lower c = (if 65 \<le> code c \<and> code c \<le> 90 then char_of (code c + 32) else c)"

definition str_lower :: "string \<Rightarrow> string" where
  "str_lower s = map to_lower s"

section \<open>Decimal integers\<close>

definition digit_char :: "nat \<Rightarrow> char" where
  "digit_char d = char_of (48 + d)"

definition digit_val :: "char \<Rightarrow> nat" where
  "digit_val c = code c - 48"

fun nat_str :: "nat \<Rightarrow> string" where
  "nat_str n = (if n < 10 then [digit_char n] else nat_str (n div 10) @ [digit_char (n mod 10)])"

declare nat_str.simps [simp del]

definition int_str :: "int \<Rightarrow> string" where
  "int_str i = (if i < 0 then CHR ''-'' # nat_str (nat (- i)) else nat_str (nat i))"

definition str_nat :: "string \<Rightarrow> nat" where
  "str_nat s = foldl (\<lambda>a c. 10 * a + digit_val c) 0 s"

definition all_digits :: "string \<Rightarrow> bool" where
  \<comment> \<open>\<open>str.isdigit()\<close>: non-empty and only digits\<close>
  "all_digits s = (s \<noteq> [] \<and> list_all is_digit s)"

definition canonical_num :: "string \<Rightarrow> bool" where
  \<comment> \<open>the strings of the pattern \<open>0|[1-9]\<backslash>d*\<close>\<close>
  "canonical_num s = (all_digits s \<and> (hd s = CHR ''0'' \<longrightarrow> s = ''0''))"

lemma code_char_of [simp]: "n < 256 \<Longrightarrow> code (char_of n) = n"
  by (simp add: code_def)

lemma code_inject: "code c = code d \<longleftrightarrow> c = d"
  by (simp add: code_def)

lemma digit_char_digit: "d < 10 \<Longrightarrow> is_digit (digit_char d)"
  by (simp add: is_digit_def digit_char_def)

lemma digit_val_digit_char [simp]: "d < 10 \<Longrightarrow> digit_val (digit_char d) = d"
  by (simp add: digit_val_def digit_char_def)

lemma digit_val_less: "is_digit c \<Longrightarrow> digit_val c < 10"
  by (auto simp: is_digit_def digit_val_def)

lemma digit_char_digit_val [simp]: "is_digit c \<Longrightarrow> digit_char (digit_val c) = c"
  by (auto simp: is_digit_def digit_val_def digit_char_def code_def)

lemma code_Char [simp]:
  "code (Char b0 b1 b2 b3 b4 b5 b6 b7) = horner_sum of_bool 2 [b0, b1, b2, b3, b4, b5, b6, b7]"
  by (simp only: code_def of_char_Char)

lemma code_zero: "code (CHR ''0'') = 48"
  by simp

lemma digit_char_zero_iff [simp]:
  assumes "d < 10" shows "digit_char d = CHR ''0'' \<longleftrightarrow> d = 0"
proof -
  have "digit_char d = CHR ''0'' \<longleftrightarrow> code (digit_char d) = 48"
    by (metis code_inject code_zero)
  then show ?thesis using assms by (simp add: digit_char_def)
qed

lemma digit_char_0 [simp]: "digit_char 0 = CHR ''0''"
  by simp

lemma nat_str_0 [simp]: "nat_str 0 = ''0''"
  by (subst nat_str.simps) simp

lemma nat_str_nonempty [simp]: "nat_str n \<noteq> []"
  by (subst nat_str.simps) simp

lemma nat_str_digits: "list_all is_digit (nat_str n)"
proof (induction n rule: nat_str.induct)
  case (1 n)
  then show ?case
    by (subst nat_str.simps) (auto simp: digit_char_digit)
qed

lemma str_nat_append: "str_nat (s @ [c]) = 10 * str_nat s + digit_val c"
  by (simp add: str_nat_def)

lemma str_nat_nat_str [simp]: "str_nat (nat_str n) = n"
proof (induction n rule: nat_str.induct)
  case (1 n)
  show ?case
  proof (cases "n < 10")
    case True
    then show ?thesis by (subst nat_str.simps) (simp add: str_nat_def)
  next
    case False
    then show ?thesis using 1 by (subst nat_str.simps) (simp add: str_nat_append)
  qed
qed

lemma hd_nat_str: "hd (nat_str n) = CHR ''0'' \<longleftrightarrow> n = 0"
proof (induction n rule: nat_str.induct)
  case (1 n)
  show ?case
  proof (cases "n < 10")
    case True
    then show ?thesis by (subst nat_str.simps) simp
  next
    case False
    then show ?thesis using 1 by (subst nat_str.simps) (simp add: hd_append)
  qed
qed

lemma all_digits_nat_str [simp]: "all_digits (nat_str n)"
  by (simp add: all_digits_def nat_str_digits)

lemma canonical_num_nat_str [simp]: "canonical_num (nat_str n)"
proof -
  show ?thesis using hd_nat_str[of n] by (auto simp: canonical_num_def)
qed

lemma canonical_zero [simp]: "canonical_num ''0''"
  by (metis canonical_num_nat_str nat_str_0)

lemma int_str_of_nat [simp]: "int_str (int n) = nat_str n"
  by (simp add: int_str_def)

section \<open>Python string operations\<close>

fun str_join :: "string \<Rightarrow> string list \<Rightarrow> string" where
  "str_join sep [] = []"
| "str_join sep [x] = x"
| "str_join sep (x # y # ys) = x @ sep @ str_join sep (y # ys)"

fun starts_with :: "string \<Rightarrow> string \<Rightarrow> bool" where
  \<comment> \<open>\<open>starts_with p s\<close> is \<open>s.startswith(p)\<close>\<close>
  "starts_with [] s = True"
| "starts_with (p # ps) [] = False"
| "starts_with (p # ps) (c # cs) = (p = c \<and> starts_with ps cs)"

definition ends_with :: "string \<Rightarrow> string \<Rightarrow> bool" where
  "ends_with p s = starts_with (rev p) (rev s)"

fun split_char :: "char \<Rightarrow> string \<Rightarrow> string list" where
  \<comment> \<open>\<open>s.split(c)\<close> for a one-character separator\<close>
  "split_char c [] = [[]]"
| "split_char c (x # xs) =
     (if x = c then [] # split_char c xs
      else (case split_char c xs of [] \<Rightarrow> [[x]] | y # ys \<Rightarrow> (x # y) # ys))"

function split_str_from :: "string \<Rightarrow> string \<Rightarrow> string \<Rightarrow> string list" where
  \<comment> \<open>\<open>s.split(sep)\<close> for a non-empty separator; the first argument accumulates the part\<close>
  "split_str_from acc sep s =
     (case s of [] \<Rightarrow> [rev acc]
      | c # cs \<Rightarrow>
         (if sep \<noteq> [] \<and> starts_with sep s
          then rev acc # split_str_from [] sep (drop (length sep) s)
          else split_str_from (c # acc) sep cs))"
  by pat_completeness auto
termination
  by (relation "measure (\<lambda>(acc, sep, s). length s)") auto

declare split_str_from.simps [simp del]

definition split_str :: "string \<Rightarrow> string \<Rightarrow> string list" where
  "split_str sep s = split_str_from [] sep s"

fun contains_str :: "string \<Rightarrow> string \<Rightarrow> bool" where
  \<comment> \<open>\<open>sub in s\<close>\<close>
  "contains_str sub [] = (sub = [])"
| "contains_str sub (c # cs) = (starts_with sub (c # cs) \<or> contains_str sub cs)"

definition replace_char :: "char \<Rightarrow> char \<Rightarrow> string \<Rightarrow> string" where
  \<comment> \<open>\<open>s.replace(a, b)\<close> for one-character strings\<close>
  "replace_char a b s = map (\<lambda>c. if c = a then b else c) s"

definition strip_left :: "string \<Rightarrow> string" where
  "strip_left s = dropWhile is_space s"

definition strip_right :: "string \<Rightarrow> string" where
  "strip_right s = rev (dropWhile is_space (rev s))"

definition str_strip :: "string \<Rightarrow> string" where
  "str_strip s = strip_left (strip_right s)"

definition partition_char :: "char \<Rightarrow> string \<Rightarrow> string \<times> bool \<times> string" where
  \<comment> \<open>\<open>s.partition(c)\<close>; the middle component says whether the separator was found\<close>
  "partition_char c s =
     (let h = takeWhile (\<lambda>x. x \<noteq> c) s; t = dropWhile (\<lambda>x. x \<noteq> c) s
      in (case t of [] \<Rightarrow> (s, False, []) | _ # r \<Rightarrow> (h, True, r)))"

definition rpartition_char :: "char \<Rightarrow> string \<Rightarrow> string \<times> bool \<times> string" where
  \<comment> \<open>\<open>s.rpartition(c)\<close>: the text before the last separator, found, the text after it\<close>
  "rpartition_char c s =
     (let r = rev s; h = takeWhile (\<lambda>x. x \<noteq> c) r; t = dropWhile (\<lambda>x. x \<noteq> c) r
      in (case t of [] \<Rightarrow> ([], False, s) | _ # q \<Rightarrow> (rev q, True, rev h)))"

lemma starts_with_iff: "starts_with p s \<longleftrightarrow> (\<exists>t. s = p @ t)"
  by (induction p s rule: starts_with.induct) auto

lemma starts_with_append [simp]: "starts_with p (p @ t)"
  by (auto simp: starts_with_iff)

lemma ends_with_iff: "ends_with p s \<longleftrightarrow> (\<exists>t. s = t @ p)"
proof
  assume "ends_with p s"
  then obtain t where "rev s = rev p @ t" by (auto simp: ends_with_def starts_with_iff)
  then have "s = rev t @ p" by (metis rev_append rev_rev_ident)
  then show "\<exists>t. s = t @ p" by blast
qed (auto simp: ends_with_def)

lemma contains_str_iff: "contains_str sub s \<longleftrightarrow> (\<exists>a b. s = a @ sub @ b)"
proof (induction s)
  case Nil
  then show ?case by auto
next
  case (Cons c cs)
  show ?case
  proof
    assume "contains_str sub (c # cs)"
    then consider "starts_with sub (c # cs)" | "contains_str sub cs" by auto
    then show "\<exists>a b. c # cs = a @ sub @ b"
    proof cases
      case 1
      then show ?thesis by (metis append_Nil starts_with_iff)
    next
      case 2
      then show ?thesis using Cons.IH by (metis append_Cons)
    qed
  next
    assume "\<exists>a b. c # cs = a @ sub @ b"
    then obtain a b where ab: "c # cs = a @ sub @ b" by blast
    show "contains_str sub (c # cs)"
    proof (cases a)
      case Nil
      then have "starts_with sub (c # cs)" using ab by simp
      then show ?thesis by simp
    next
      case (Cons x xs)
      then show ?thesis using ab Cons.IH by auto
    qed
  qed
qed

lemma split_char_nonempty [simp]: "split_char c s \<noteq> []"
  by (induction s) (auto split: list.splits)

lemma join_split_char: "str_join [c] (split_char c s) = s"
proof (induction s)
  case (Cons x xs)
  obtain y ys where ys: "split_char c xs = y # ys"
    by (meson list.exhaust split_char_nonempty)
  show ?case
    using Cons ys by (cases ys) auto
qed simp

lemma split_char_notin: "c \<notin> set s \<Longrightarrow> split_char c s = [s]"
  by (induction s) auto

lemma set_split_char: "w \<in> set (split_char c s) \<Longrightarrow> c \<notin> set w"
proof (induction s arbitrary: w)
  case (Cons x xs)
  then show ?case by (fastforce split: if_splits list.splits)
qed simp

lemma split_char_append: "c \<notin> set a \<Longrightarrow> split_char c (a @ c # b) = a # split_char c b"
  by (induction a) auto

lemma split_str_head: "sep \<noteq> [] \<Longrightarrow> split_str sep (sep @ t) = [] # split_str sep t"
proof -
  assume ne: "sep \<noteq> []"
  then obtain c cs where s: "sep @ t = c # cs" by (cases sep) auto
  have "starts_with sep (c # cs)" and "drop (length sep) (c # cs) = t"
    by (simp_all flip: s)
  then show ?thesis
    using ne unfolding split_str_def s
    by (subst split_str_from.simps) simp
qed

lemma split_str_from_none:
  "\<not> contains_str sep s \<Longrightarrow> sep \<noteq> [] \<Longrightarrow> split_str_from acc sep s = [rev acc @ s]"
proof (induction s arbitrary: acc)
  case Nil
  then show ?case by (simp add: split_str_from.simps)
next
  case (Cons c cs)
  then show ?case by (subst split_str_from.simps) auto
qed

lemma split_str_none: "\<not> contains_str sep s \<Longrightarrow> sep \<noteq> [] \<Longrightarrow> split_str sep s = [s]"
  by (simp add: split_str_def split_str_from_none)

lemma replace_char_id: "a \<notin> set s \<Longrightarrow> replace_char a b s = s"
  unfolding replace_char_def by (rule map_idI) auto

lemma replace_char_replace_char:
  "replace_char b a (replace_char a b s) = replace_char b a s"
  by (simp add: replace_char_def)

lemma set_replace_char: "a \<noteq> b \<Longrightarrow> a \<notin> set (replace_char a b s)"
  by (auto simp: replace_char_def)

section \<open>Ordered dictionaries\<close>

text \<open>
  A Python \<open>dict\<close> whose iteration order matters is an association list with distinct
  keys: an insertion keeps the position of a key already there and appends a new one.
\<close>

type_synonym ('k, 'v) odict = "('k \<times> 'v) list"

fun od_put :: "'k \<Rightarrow> 'v \<Rightarrow> ('k, 'v) odict \<Rightarrow> ('k, 'v) odict" where
  "od_put k v [] = [(k, v)]"
| "od_put k v ((a, b) # xs) = (if a = k then (k, v) # xs else (a, b) # od_put k v xs)"

definition od_del :: "'k \<Rightarrow> ('k, 'v) odict \<Rightarrow> ('k, 'v) odict" where
  "od_del k xs = filter (\<lambda>p. fst p \<noteq> k) xs"

definition od_has :: "('k, 'v) odict \<Rightarrow> 'k \<Rightarrow> bool" where
  "od_has xs k = (map_of xs k \<noteq> None)"

definition od_wf :: "('k, 'v) odict \<Rightarrow> bool" where
  "od_wf xs = distinct (map fst xs)"

lemma map_of_od_put [simp]: "map_of (od_put k v xs) = (map_of xs)(k \<mapsto> v)"
  by (induction k v xs rule: od_put.induct) (auto simp: fun_eq_iff)

lemma fst_od_put: "fst ` set (od_put k v xs) = insert k (fst ` set xs)"
  by (induction k v xs rule: od_put.induct) auto

lemma od_wf_put: "od_wf xs \<Longrightarrow> od_wf (od_put k v xs)"
  unfolding od_wf_def
proof (induction k v xs rule: od_put.induct)
  case (2 k v a b xs)
  then show ?case using fst_od_put[of k v xs] by (auto simp: image_iff)
qed simp

lemma map_of_od_del [simp]: "map_of (od_del k xs) = (map_of xs)(k := None)"
  by (induction xs) (auto simp: od_del_def fun_eq_iff)

lemma od_wf_del: "od_wf xs \<Longrightarrow> od_wf (od_del k xs)"
  by (simp add: od_wf_def od_del_def distinct_map_filter)

lemma od_wf_Nil [simp]: "od_wf []"
  by (simp add: od_wf_def)

section \<open>Generic lemmas\<close>

lemma concat_map_single: "concat (map (\<lambda>x. [f x]) xs) = map f xs"
  by (induction xs) auto

lemma takeWhile_run:
  "list_all P a \<Longrightarrow> (b = [] \<or> \<not> P (hd b)) \<Longrightarrow> takeWhile P (a @ b) = a"
  by (induction a) (auto simp: takeWhile_eq_Nil_iff)

lemma append_single_split:
  assumes "a @ x # b = c @ x # d" "x \<notin> set b" "x \<notin> set d"
  shows "a = c \<and> b = d"
  using assms by (auto simp: append_eq_append_conv2 Cons_eq_append_conv append_eq_Cons_conv)

lemma append_first_split:
  assumes "a @ x # b = c @ x # d" "x \<notin> set a" "x \<notin> set c"
  shows "a = c \<and> b = d"
  using assms by (auto simp: append_eq_append_conv2 Cons_eq_append_conv append_eq_Cons_conv)

end
