(* ===== verification/Effects.thy ===== *)
theory Effects
imports Prelude
begin

text \<open>
  Effectful code as functions of the state: an action returns a value or an exception together
  with the state it leaves, so that an exception keeps the effects made before it, as in Python.
\<close>

type_synonym ('w, 'a) act = "'w \<Rightarrow> 'a res \<times> 'w"

definition ret :: "'a \<Rightarrow> ('w, 'a) act" where
  "ret x = (\<lambda>w. (Inr x, w))"

definition raise_act :: "exn \<Rightarrow> ('w, 'a) act" where
  "raise_act e = (\<lambda>w. (Inl e, w))"

definition bind_act :: "('w, 'a) act \<Rightarrow> ('a \<Rightarrow> ('w, 'b) act) \<Rightarrow> ('w, 'b) act" where
  "bind_act m f = (\<lambda>w. case m w of (Inl e, w') \<Rightarrow> (Inl e, w') | (Inr x, w') \<Rightarrow> f x w')"

definition then_act :: "('w, 'a) act \<Rightarrow> ('w, 'b) act \<Rightarrow> ('w, 'b) act" where
  "then_act m n = bind_act m (\<lambda>_. n)"

definition catch_act :: "('w, 'a) act \<Rightarrow> (exn \<Rightarrow> ('w, 'a) act) \<Rightarrow> ('w, 'a) act" where
  \<comment> \<open>\<open>try: m except Exception as e: h\<close>\<close>
  "catch_act m h = (\<lambda>w. case m w of (Inl e, w') \<Rightarrow> h e w' | (Inr x, w') \<Rightarrow> (Inr x, w'))"

definition finally_act :: "('w, 'a) act \<Rightarrow> ('w, unit) act \<Rightarrow> ('w, 'a) act" where
  \<comment> \<open>\<open>try: m finally: n\<close>\<close>
  "finally_act m n = (\<lambda>w. case m w of (r, w') \<Rightarrow> (case n w' of (Inl e, w'') \<Rightarrow> (Inl e, w'') | (Inr _, w'') \<Rightarrow> (r, w'')))"

definition gets_act :: "('w \<Rightarrow> 'a) \<Rightarrow> ('w, 'a) act" where
  "gets_act f = (\<lambda>w. (Inr (f w), w))"

definition swallow :: "('w, 'a) act \<Rightarrow> ('w, unit) act" where
  \<comment> \<open>\<open>try: m except Exception: pass\<close>\<close>
  "swallow m = (\<lambda>w. (Inr (), snd (m w)))"

definition when_act :: "bool \<Rightarrow> ('w, unit) act \<Rightarrow> ('w, unit) act" where
  "when_act b m = (if b then m else ret ())"

fun each_act :: "('a \<Rightarrow> ('w, unit) act) \<Rightarrow> 'a list \<Rightarrow> ('w, unit) act" where
  "each_act f [] = ret ()"
| "each_act f (x # xs) = then_act (f x) (each_act f xs)"

text \<open>A relation between states that holds across every outcome of an action.\<close>

definition keeps :: "('w \<Rightarrow> bool) \<Rightarrow> ('w, 'a) act \<Rightarrow> bool" where
  "keeps I m = (\<forall>w. I w \<longrightarrow> I (snd (m w)))"

named_theorems keeps_rules

lemma keepsI: "(\<And>w. I w \<Longrightarrow> I (snd (m w))) \<Longrightarrow> keeps I m"
  by (simp add: keeps_def)

lemma keepsD: "keeps I m \<Longrightarrow> I w \<Longrightarrow> I (snd (m w))"
  by (simp add: keeps_def)

lemma keeps_ret [keeps_rules]: "keeps I (ret x)"
  by (simp add: keeps_def ret_def)

lemma keeps_raise [keeps_rules]: "keeps I (raise_act e)"
  by (simp add: keeps_def raise_act_def)

lemma keeps_gets [keeps_rules]: "keeps I (gets_act f)"
  by (simp add: keeps_def gets_act_def)

lemma keeps_bind [keeps_rules]:
  assumes "keeps I m" "\<And>x. keeps I (f x)"
  shows "keeps I (bind_act m f)"
proof (rule keepsI)
  fix w assume "I w"
  then have "I (snd (m w))" using assms(1) by (simp add: keeps_def)
  then show "I (snd (bind_act m f w))"
    using assms(2) unfolding keeps_def bind_act_def
    by (cases "m w"; cases "fst (m w)") (simp_all add: case_prod_beta)
qed

lemma keeps_then [keeps_rules]: "keeps I m \<Longrightarrow> keeps I n \<Longrightarrow> keeps I (then_act m n)"
  unfolding then_act_def by (rule keeps_bind)

lemma keeps_catch [keeps_rules]:
  assumes "keeps I m" "\<And>e. keeps I (h e)"
  shows "keeps I (catch_act m h)"
proof (rule keepsI)
  fix w assume "I w"
  then have "I (snd (m w))" using assms(1) by (simp add: keeps_def)
  then show "I (snd (catch_act m h w))"
    using assms(2) unfolding keeps_def catch_act_def
    by (cases "m w"; cases "fst (m w)") (simp_all add: case_prod_beta)
qed

lemma keeps_finally [keeps_rules]:
  assumes "keeps I m" "keeps I n"
  shows "keeps I (finally_act m n)"
proof (rule keepsI)
  fix w assume "I w"
  then have "I (snd (n (snd (m w))))" using assms by (simp add: keeps_def)
  then show "I (snd (finally_act m n w))"
    unfolding finally_act_def
    by (cases "n (snd (m w))"; cases "fst (n (snd (m w)))") (simp_all add: case_prod_beta)
qed

lemma keeps_swallow [keeps_rules]: "keeps I m \<Longrightarrow> keeps I (swallow m)"
  by (simp add: keeps_def swallow_def)

lemma keeps_when [keeps_rules]: "(b \<Longrightarrow> keeps I m) \<Longrightarrow> keeps I (when_act b m)"
  by (simp add: when_act_def keeps_ret)

lemma keeps_each [keeps_rules]: "(\<And>x. x \<in> set xs \<Longrightarrow> keeps I (f x)) \<Longrightarrow> keeps I (each_act f xs)"
  by (induction xs) (simp_all add: keeps_ret keeps_then)

lemma act_simps [simp]:
  "ret x w = (Inr x, w)" "raise_act e w = (Inl e, w)" "gets_act f w = (Inr (f w), w)"
  "when_act True m = m" "when_act False m = ret ()"
  by (simp_all add: ret_def raise_act_def gets_act_def when_act_def)

lemma swallow_apply: "swallow m w = (Inr (), snd (m w))"
  by (simp add: swallow_def)

end
