(* ===== verification/Py_Regex.thy ===== *)
theory Py_Regex
  imports Prelude
begin

text \<open>
  The part of Python's \<open>re\<close> module the sources rely on: a backtracking matcher that
  tries the alternatives of a pattern in Python's order (left branch first, greedy
  repetitions longest first, lazy ones shortest first) and records what each named group
  last matched. \<open>rm n r s e\<close> lists, in the order the engine would find them, every way
  to match \<open>r\<close> at the front of the remaining text \<open>s\<close> of a subject of length \<open>n\<close>, as the
  text left over and the group environment. \<open>re_search\<close> takes the first success at the
  leftmost position. The second half relates the matcher to the language of the pattern.
\<close>

section \<open>Patterns and the matcher\<close>

type_synonym genv = "string \<rightharpoonup> string"

datatype re =
    Eps
  | Cls bool "(char \<times> char) list"   \<comment> \<open>a class; \<open>True\<close> negates it\<close>
  | Seq re re
  | Alt re re
  | Star re
  | LStar re                          \<comment> \<open>\<open>r*?\<close>\<close>
  | Grp string re                     \<comment> \<open>\<open>(?P<name>r)\<close>\<close>
  | Bol                               \<comment> \<open>\<open>^\<close> without \<open>re.MULTILINE\<close>\<close>
  | Eol                               \<comment> \<open>\<open>$\<close>: the end, or before a final newline\<close>

definition cls_mem :: "bool \<Rightarrow> (char \<times> char) list \<Rightarrow> char \<Rightarrow> bool" where
  "cls_mem neg rs c = (neg \<noteq> list_ex (in_range c) rs)"

function (sequential) rm :: "nat \<Rightarrow> re \<Rightarrow> string \<Rightarrow> genv \<Rightarrow> (string \<times> genv) list" where
  "rm n Eps s e = [(s, e)]"
| "rm n (Cls neg rs) s e =
     (case s of [] \<Rightarrow> [] | c # t \<Rightarrow> if cls_mem neg rs c then [(t, e)] else [])"
| "rm n (Seq a b) s e = concat (map (\<lambda>(t, f). rm n b t f) (rm n a s e))"
| "rm n (Alt a b) s e = rm n a s e @ rm n b s e"
| "rm n (Star a) s e =
     concat (map (\<lambda>(t, f). if length t < length s then rm n (Star a) t f else []) (rm n a s e))
     @ [(s, e)]"
| "rm n (LStar a) s e =
     (s, e) # concat (map (\<lambda>(t, f). if length t < length s then rm n (LStar a) t f else [])
                       (rm n a s e))"
| "rm n (Grp g a) s e =
     map (\<lambda>(t, f). (t, f(g \<mapsto> take (length s - length t) s))) (rm n a s e)"
| "rm n Bol s e = (if length s = n then [(s, e)] else [])"
| "rm n Eol s e = (if s = [] \<or> s = [CHR 0x0A] then [(s, e)] else [])"
  by pat_completeness auto
termination
  by (relation "measures [\<lambda>(n, r, s, e). size r, \<lambda>(n, r, s, e). length s]") auto

text \<open>
  The repetitions unfold to themselves, so their equations are used one step at a time,
  through the membership rules below.
\<close>

declare rm.simps(5,6) [simp del]

lemma set_concat_map_pair:
  "p \<in> set (concat (map (\<lambda>(u, g). h u g) xs)) \<longleftrightarrow> (\<exists>u g. (u, g) \<in> set xs \<and> p \<in> set (h u g))"
  by fastforce

lemma set_if_nil: "p \<in> set (if b then xs else []) \<longleftrightarrow> b \<and> p \<in> set xs"
  by simp

lemma rm_Star_iff: "(t, f) \<in> set (rm n (Star a) s e) \<longleftrightarrow>
    (t = s \<and> f = e) \<or> (\<exists>u g. (u, g) \<in> set (rm n a s e) \<and> length u < length s
                          \<and> (t, f) \<in> set (rm n (Star a) u g))"
  by (subst rm.simps(5)) (simp only: set_append Un_iff set_concat_map_pair set_if_nil, auto)

lemma rm_LStar_iff: "(t, f) \<in> set (rm n (LStar a) s e) \<longleftrightarrow>
    (t = s \<and> f = e) \<or> (\<exists>u g. (u, g) \<in> set (rm n a s e) \<and> length u < length s
                          \<and> (t, f) \<in> set (rm n (LStar a) u g))"
  by (subst rm.simps(6))
    (simp only: list.set insert_iff set_concat_map_pair set_if_nil prod.inject)

text \<open>Derived forms.\<close>

definition Lit :: "char \<Rightarrow> re" where
  "Lit c = Cls False [(c, c)]"

fun Lits :: "string \<Rightarrow> re" where
  "Lits [] = Eps"
| "Lits [c] = Lit c"
| "Lits (c # d # cs) = Seq (Lit c) (Lits (d # cs))"

definition Opt :: "re \<Rightarrow> re" where   \<comment> \<open>\<open>(?:r)?\<close>\<close>
  "Opt r = Alt r Eps"

definition LOpt :: "re \<Rightarrow> re" where  \<comment> \<open>\<open>(?:r)??\<close>\<close>
  "LOpt r = Alt Eps r"

definition Plus1 :: "re \<Rightarrow> re" where  \<comment> \<open>\<open>r+\<close>\<close>
  "Plus1 r = Seq r (Star r)"

fun Upto :: "nat \<Rightarrow> re \<Rightarrow> re" where  \<comment> \<open>\<open>r{0,k}\<close>\<close>
  "Upto 0 r = Eps"
| "Upto (Suc k) r = Opt (Seq r (Upto k r))"

fun Rep :: "nat \<Rightarrow> nat \<Rightarrow> re \<Rightarrow> re" where  \<comment> \<open>\<open>Rep lo k r\<close> is \<open>r{lo,lo+k}\<close>\<close>
  "Rep 0 k r = Upto k r"
| "Rep (Suc lo) k r = Seq r (Rep lo k r)"

fun Seqs :: "re list \<Rightarrow> re" where
  "Seqs [] = Eps"
| "Seqs [r] = r"
| "Seqs (r # q # rs) = Seq r (Seqs (q # rs))"

text \<open>
  The first success, as the start offset, the text after the match and the groups.
\<close>

record re_match =
  m_start :: nat
  m_text :: string
  m_rest :: string
  m_env :: genv

fun search_from :: "nat \<Rightarrow> re \<Rightarrow> string \<Rightarrow> re_match option" where
  "search_from n r s =
     (case rm n r s Map.empty of
        (t, f) # _ \<Rightarrow> Some \<lparr>m_start = n - length s, m_text = take (length s - length t) s,
                         m_rest = t, m_env = f\<rparr>
      | [] \<Rightarrow> (case s of [] \<Rightarrow> None | _ # t \<Rightarrow> search_from n r t))"

declare search_from.simps [simp del]

definition re_search :: "re \<Rightarrow> string \<Rightarrow> re_match option" where
  "re_search r s = search_from (length s) r s"

definition re_match_at_start :: "re \<Rightarrow> string \<Rightarrow> re_match option" where
  \<comment> \<open>\<open>re.match\<close>: at offset 0 only\<close>
  "re_match_at_start r s =
     (case rm (length s) r s Map.empty of
        (t, f) # _ \<Rightarrow> Some \<lparr>m_start = 0, m_text = take (length s - length t) s,
                         m_rest = t, m_env = f\<rparr>
      | [] \<Rightarrow> None)"

section \<open>The matcher only consumes\<close>

lemma rm_suffix: "(t, f) \<in> set (rm n r s e) \<Longrightarrow> \<exists>u. s = u @ t"
proof (induction n r s e arbitrary: t f rule: rm.induct)
  case (3 n a b s e)
  then show ?case by fastforce
next
  case (5 n a s e)
  from "5.prems" show ?case
    unfolding rm_Star_iff [of t f n a s e] using "5.IH" by fastforce
next
  case (6 n a s e)
  from "6.prems" show ?case
    unfolding rm_LStar_iff [of t f n a s e] using "6.IH" by fastforce
qed (auto split: list.splits if_splits)

lemma rm_length: "(t, f) \<in> set (rm n r s e) \<Longrightarrow> length t \<le> length s"
  using rm_suffix by fastforce

section \<open>Membership, one rule per constructor\<close>

lemma rm_Eps_iff: "(t, f) \<in> set (rm n Eps s e) \<longleftrightarrow> t = s \<and> f = e"
  by auto

lemma rm_Cls_iff: "(t, f) \<in> set (rm n (Cls neg rs) s e) \<longleftrightarrow>
    (\<exists>c. s = c # t \<and> cls_mem neg rs c \<and> f = e)"
  by (cases s) auto

lemma rm_Seq_iff: "(t, f) \<in> set (rm n (Seq a b) s e) \<longleftrightarrow>
    (\<exists>u g. (u, g) \<in> set (rm n a s e) \<and> (t, f) \<in> set (rm n b u g))"
  by fastforce

lemma rm_Alt_iff: "(t, f) \<in> set (rm n (Alt a b) s e) \<longleftrightarrow>
    (t, f) \<in> set (rm n a s e) \<or> (t, f) \<in> set (rm n b s e)"
  by auto

lemma rm_Opt_iff: "(t, f) \<in> set (rm n (Opt a) s e) \<longleftrightarrow>
    (t, f) \<in> set (rm n a s e) \<or> (t = s \<and> f = e)"
  by (auto simp: Opt_def)

lemma rm_LOpt_iff: "(t, f) \<in> set (rm n (LOpt a) s e) \<longleftrightarrow>
    (t, f) \<in> set (rm n a s e) \<or> (t = s \<and> f = e)"
  by (auto simp: LOpt_def)

lemma rm_Grp_iff: "(t, f) \<in> set (rm n (Grp g a) s e) \<longleftrightarrow>
    (\<exists>h u. s = u @ t \<and> (t, h) \<in> set (rm n a s e) \<and> f = h(g \<mapsto> u))"
proof
  assume "(t, f) \<in> set (rm n (Grp g a) s e)"
  then obtain h where h: "(t, h) \<in> set (rm n a s e)"
      and f: "f = h(g \<mapsto> take (length s - length t) s)" by auto
  obtain u where "s = u @ t" using rm_suffix[OF h] by blast
  then show "\<exists>h u. s = u @ t \<and> (t, h) \<in> set (rm n a s e) \<and> f = h(g \<mapsto> u)"
    using h f by auto
next
  assume "\<exists>h u. s = u @ t \<and> (t, h) \<in> set (rm n a s e) \<and> f = h(g \<mapsto> u)"
  then show "(t, f) \<in> set (rm n (Grp g a) s e)" by force
qed

lemma rm_Bol_iff: "(t, f) \<in> set (rm n Bol s e) \<longleftrightarrow> length s = n \<and> t = s \<and> f = e"
  by auto

lemma rm_Eol_iff: "(t, f) \<in> set (rm n Eol s e) \<longleftrightarrow>
    (s = [] \<or> s = [CHR 0x0A]) \<and> t = s \<and> f = e"
  by auto

lemma in_range_single [simp]: "in_range c (d, d) \<longleftrightarrow> c = d"
  by (auto simp: in_range_def code_inject[symmetric])

lemma rm_Lit_iff: "(t, f) \<in> set (rm n (Lit c) s e) \<longleftrightarrow> s = c # t \<and> f = e"
  unfolding Lit_def rm_Cls_iff by (auto simp: cls_mem_def)

lemma rm_Lits_iff: "(t, f) \<in> set (rm n (Lits w) s e) \<longleftrightarrow> s = w @ t \<and> f = e"
  by (induction w arbitrary: s rule: Lits.induct) (auto simp: rm_Lit_iff rm_Seq_iff simp del: rm.simps, auto)

lemmas rm_iffs = rm_Eps_iff rm_Cls_iff rm_Seq_iff rm_Alt_iff rm_Opt_iff rm_LOpt_iff rm_Grp_iff
  rm_Bol_iff rm_Eol_iff rm_Lit_iff rm_Lits_iff

section \<open>The language of a plain pattern\<close>

text \<open>
  A plain pattern has no groups and no anchors. Its language is the usual one; a lazy
  repetition has the language of the greedy one.
\<close>

fun plain :: "re \<Rightarrow> bool" where
  "plain Eps = True"
| "plain (Cls neg rs) = True"
| "plain (Seq a b) = (plain a \<and> plain b)"
| "plain (Alt a b) = (plain a \<and> plain b)"
| "plain (Star a) = plain a"
| "plain (LStar a) = plain a"
| "plain (Grp g a) = False"
| "plain Bol = False"
| "plain Eol = False"

inductive_set kstar :: "string set \<Rightarrow> string set" for A where
  kstar_Nil: "[] \<in> kstar A"
| kstar_app: "u \<in> A \<Longrightarrow> v \<in> kstar A \<Longrightarrow> u @ v \<in> kstar A"

fun lang :: "re \<Rightarrow> string set" where
  "lang Eps = {[]}"
| "lang (Cls neg rs) = {[c] |c. cls_mem neg rs c}"
| "lang (Seq a b) = {u @ v |u v. u \<in> lang a \<and> v \<in> lang b}"
| "lang (Alt a b) = lang a \<union> lang b"
| "lang (Star a) = kstar (lang a)"
| "lang (LStar a) = kstar (lang a)"
| "lang (Grp g a) = lang a"
| "lang Bol = {[]}"
| "lang Eol = {[]}"

lemma plain_env: "plain r \<Longrightarrow> (t, f) \<in> set (rm n r s e) \<Longrightarrow> f = e"
proof (induction n r s e arbitrary: t f rule: rm.induct)
  case (3 n a b s e)
  then show ?case by fastforce
next
  case (5 n a s e)
  from "5.prems" show ?case
    unfolding rm_Star_iff [of t f n a s e] using "5.IH" by fastforce
next
  case (6 n a s e)
  from "6.prems" show ?case
    unfolding rm_LStar_iff [of t f n a s e] using "6.IH" by fastforce
qed (auto split: list.splits if_splits)

lemma rm_lang: "(t, f) \<in> set (rm n r s e) \<Longrightarrow> \<exists>u \<in> lang r. s = u @ t"
proof (induction n r s e arbitrary: t f rule: rm.induct)
  case (3 n a b s e)
  from "3.prems" obtain u g where ug: "(u, g) \<in> set (rm n a s e)" "(t, f) \<in> set (rm n b u g)"
    unfolding rm_Seq_iff by blast
  obtain x where x: "x \<in> lang a" "s = x @ u" using "3.IH"(1)[OF ug(1)] by blast
  obtain y where y: "y \<in> lang b" "u = y @ t" using "3.IH"(2)[OF ug(1) refl ug(2)] by blast
  have "x @ y \<in> lang (Seq a b)" using x y by auto
  moreover have "s = (x @ y) @ t" using x y by simp
  ultimately show ?case by blast
next
  case (5 n a s e)
  show ?case
  proof (cases "t = s")
    case True
    then show ?thesis by (auto intro: kstar_Nil)
  next
    case False
    then obtain u g where ug: "(u, g) \<in> set (rm n a s e)" "length u < length s"
        "(t, f) \<in> set (rm n (Star a) u g)"
      using "5.prems" unfolding rm_Star_iff [of t f n a s e] by blast
    obtain x where x: "x \<in> lang a" "s = x @ u" using "5.IH"(1)[OF ug(1)] by blast
    obtain y where y: "y \<in> lang (Star a)" "u = y @ t"
      using "5.IH"(2)[OF ug(1) refl ug(2) ug(3)] by blast
    have "x @ y \<in> lang (Star a)" using x y by (auto intro: kstar_app)
    moreover have "s = (x @ y) @ t" using x y by simp
    ultimately show ?thesis by blast
  qed
next
  case (6 n a s e)
  show ?case
  proof (cases "t = s")
    case True
    then show ?thesis by (auto intro: kstar_Nil)
  next
    case False
    then obtain u g where ug: "(u, g) \<in> set (rm n a s e)" "length u < length s"
        "(t, f) \<in> set (rm n (LStar a) u g)"
      using "6.prems" unfolding rm_LStar_iff [of t f n a s e] by blast
    obtain x where x: "x \<in> lang a" "s = x @ u" using "6.IH"(1)[OF ug(1)] by blast
    obtain y where y: "y \<in> lang (LStar a)" "u = y @ t"
      using "6.IH"(2)[OF ug(1) refl ug(2) ug(3)] by blast
    have "x @ y \<in> lang (LStar a)" using x y by (auto intro: kstar_app)
    moreover have "s = (x @ y) @ t" using x y by simp
    ultimately show ?thesis by blast
  qed
next
  case (4 n a b s e)
  then show ?case unfolding rm_Alt_iff by fastforce
qed (auto split: list.splits if_splits)

text \<open>Every word of a plain pattern's language is found, with the environment unchanged.\<close>

lemma rm_Star_complete:
  assumes body: "\<And>u s. u \<in> lang a \<Longrightarrow> (s, e) \<in> set (rm n a (u @ s) e)"
    and w: "w \<in> kstar (lang a)"
  shows "(t, e) \<in> set (rm n (Star a) (w @ t) e)" "(t, e) \<in> set (rm n (LStar a) (w @ t) e)"
  using w
proof (induction w rule: kstar.induct)
  case kstar_Nil
  {
    case 1 show ?case by (subst rm_Star_iff) simp
  next
    case 2 show ?case by (subst rm_LStar_iff) simp
  }
next
  case (kstar_app u v)
  have u: "(v @ t, e) \<in> set (rm n a (u @ v @ t) e)" using body[OF kstar_app.hyps(1)] .
  {
    case 1
    show ?case
    proof (cases "u = []")
      case True then show ?thesis using kstar_app.IH by simp
    next
      case False
      then have "length (v @ t) < length ((u @ v) @ t)" by simp
      then show ?thesis using u kstar_app.IH(1) unfolding rm_Star_iff [of t e n a "(u @ v) @ t"]
        by (metis append.assoc)
    qed
  next
    case 2
    show ?case
    proof (cases "u = []")
      case True then show ?thesis using kstar_app.IH by simp
    next
      case False
      then have "length (v @ t) < length ((u @ v) @ t)" by simp
      then show ?thesis using u kstar_app.IH(2) unfolding rm_LStar_iff [of t e n a "(u @ v) @ t"]
        by (metis append.assoc)
    qed
  }
qed

lemma rm_complete: "plain r \<Longrightarrow> w \<in> lang r \<Longrightarrow> (t, e) \<in> set (rm n r (w @ t) e)"
proof (induction r arbitrary: w t)
  case (Seq a b)
  then obtain u v where w: "w = u @ v" "u \<in> lang a" "v \<in> lang b" by auto
  have "(v @ t, e) \<in> set (rm n a (u @ v @ t) e)" using Seq w by auto
  moreover have "(t, e) \<in> set (rm n b (v @ t) e)" using Seq w by auto
  ultimately show ?case using w unfolding rm_Seq_iff by auto
next
  case (Star a)
  then show ?case using rm_Star_complete(1)[of a e n w t] by simp
next
  case (LStar a)
  then show ?case using rm_Star_complete(2)[of a e n w t] by simp
qed auto

lemma rm_plain_iff: "plain r \<Longrightarrow>
    (t, f) \<in> set (rm n r s e) \<longleftrightarrow> f = e \<and> (\<exists>u \<in> lang r. s = u @ t)"
  using plain_env rm_lang rm_complete by metis

lemma rm_Grp_plain_iff: "plain r \<Longrightarrow>
    (t, f) \<in> set (rm n (Grp g r) s e) \<longleftrightarrow> (\<exists>u \<in> lang r. s = u @ t \<and> f = e(g \<mapsto> u))"
  unfolding rm_Grp_iff by (auto simp: rm_plain_iff)

text \<open>Right-nested sequences, one piece at a time.\<close>

lemma rm_Seq_assoc:
  "(t, f) \<in> set (rm n (Seq (Seq a b) c) s e) \<longleftrightarrow> (t, f) \<in> set (rm n (Seq a (Seq b c)) s e)"
  unfolding rm_Seq_iff by blast

lemma rm_Seq_Lit_iff: "(t, f) \<in> set (rm n (Seq (Lit c) b) s e) \<longleftrightarrow>
    (\<exists>u. s = c # u \<and> (t, f) \<in> set (rm n b u e))"
  unfolding rm_Seq_iff rm_Lit_iff by auto

lemma rm_Seq_Lits_iff: "(t, f) \<in> set (rm n (Seq (Lits w) b) s e) \<longleftrightarrow>
    (\<exists>u. s = w @ u \<and> (t, f) \<in> set (rm n b u e))"
  unfolding rm_Seq_iff rm_Lits_iff by auto

lemma rm_Seq_Grp_iff: "plain r \<Longrightarrow> (t, f) \<in> set (rm n (Seq (Grp g r) b) s e) \<longleftrightarrow>
    (\<exists>w u. w \<in> lang r \<and> s = w @ u \<and> (t, f) \<in> set (rm n b u (e(g \<mapsto> w))))"
proof -
  assume pl: "plain r"
  show ?thesis unfolding rm_Seq_iff rm_Grp_plain_iff [OF pl] by blast
qed

lemmas rm_seq_iffs = rm_Seq_assoc rm_Seq_Lit_iff rm_Seq_Lits_iff

lemma rm_Seq_LitI: "(t, f) \<in> set (rm n b u e) \<Longrightarrow> (t, f) \<in> set (rm n (Seq (Lit c) b) (c # u) e)"
  unfolding rm_Seq_Lit_iff by blast

lemma rm_Seq_LitsI: "(t, f) \<in> set (rm n b u e) \<Longrightarrow> (t, f) \<in> set (rm n (Seq (Lits w) b) (w @ u) e)"
  unfolding rm_Seq_Lits_iff by blast

lemma rm_Seq_GrpI: "plain r \<Longrightarrow> w \<in> lang r \<Longrightarrow> (t, f) \<in> set (rm n b u (e(g \<mapsto> w))) \<Longrightarrow>
    (t, f) \<in> set (rm n (Seq (Grp g r) b) (w @ u) e)"
  by (subst rm_Seq_Grp_iff) auto

lemma rm_GrpI: "plain r \<Longrightarrow> w \<in> lang r \<Longrightarrow> (t, e(g \<mapsto> w)) \<in> set (rm n (Grp g r) (w @ t) e)"
  by (subst rm_Grp_plain_iff) auto

lemma rm_OptI: "(t, f) \<in> set (rm n r s e) \<Longrightarrow> (t, f) \<in> set (rm n (Opt r) s e)"
  and rm_Opt_skip: "(s, e) \<in> set (rm n (Opt r) s e)"
  by (simp_all add: rm_Opt_iff)

lemma rm_SeqI: "(u, g) \<in> set (rm n a s e) \<Longrightarrow> (t, f) \<in> set (rm n b u g) \<Longrightarrow>
    (t, f) \<in> set (rm n (Seq a b) s e)"
  unfolding rm_Seq_iff by blast

lemmas rm_intros = rm_Seq_LitI rm_Seq_LitsI rm_Seq_GrpI rm_GrpI

section \<open>Searching anchored patterns\<close>

lemma search_from_anchored:
  assumes "\<And>s e. length s \<noteq> n \<Longrightarrow> rm n r s e = []" "length s < n"
  shows "search_from n r s = None"
  using assms(2)
proof (induction s)
  case Nil
  then show ?case using assms(1) by (simp add: search_from.simps)
next
  case (Cons c cs)
  then show ?case using assms(1) by (subst search_from.simps) simp
qed

lemma re_search_anchored:
  "re_search (Seq Bol r) s =
     (case rm (length s) r s Map.empty of
        (t, f) # _ \<Rightarrow> Some \<lparr>m_start = 0, m_text = take (length s - length t) s,
                         m_rest = t, m_env = f\<rparr>
      | [] \<Rightarrow> None)"
proof -
  have none: "search_from (length s) (Seq Bol r) t = None" if "length t < length s" for t
    by (rule search_from_anchored) (use that in auto)
  show ?thesis
  proof (cases s)
    case Nil
    then show ?thesis by (simp add: re_search_def search_from.simps split: list.splits)
  next
    case (Cons c cs)
    then show ?thesis using none[of cs]
      unfolding re_search_def by (subst search_from.simps) (auto split: list.splits)
  qed
qed

text \<open>
  When all the successes of an anchored pattern agree on the groups, the search returns
  them, whatever the order of the alternatives.
\<close>

lemma re_search_unique:
  assumes "(t, f) \<in> set (rm (length s) r s Map.empty)"
    and "\<And>u g. (u, g) \<in> set (rm (length s) r s Map.empty) \<Longrightarrow> g = f"
  shows "\<exists>m. re_search (Seq Bol r) s = Some m \<and> m_env m = f"
proof -
  obtain u g xs where x: "rm (length s) r s Map.empty = (u, g) # xs"
    using assms(1) by (cases "rm (length s) r s Map.empty") auto
  then have "g = f" using assms(2)[of u g] by simp
  then show ?thesis unfolding re_search_anchored x by simp
qed

lemma re_search_None:
  assumes "\<And>u g. (u, g) \<notin> set (rm (length s) r s Map.empty)"
  shows "re_search (Seq Bol r) s = None"
proof -
  have "rm (length s) r s Map.empty = []" using assms by (metis list.set_intros(1) neq_Nil_conv surj_pair)
  then show ?thesis unfolding re_search_anchored by simp
qed

lemma re_search_anchored_SomeD:
  "re_search (Seq Bol r) s = Some m \<Longrightarrow>
     (m_rest m, m_env m) \<in> set (rm (length s) r s Map.empty)"
  unfolding re_search_anchored by (auto split: list.splits)

lemma re_search_anchored_None_iff:
  "re_search (Seq Bol r) s = None \<longleftrightarrow> rm (length s) r s Map.empty = []"
  unfolding re_search_anchored by (auto split: list.splits)

section \<open>Character classes and their repetition\<close>

lemma kstar_single: "w \<in> kstar {[c] |c. P c} \<longleftrightarrow> list_all P w"
proof
  show "w \<in> kstar {[c] |c. P c} \<Longrightarrow> list_all P w"
    by (induction w rule: kstar.induct) auto
  show "list_all P w \<Longrightarrow> w \<in> kstar {[c] |c. P c}"
  proof (induction w)
    case (Cons c w)
    then have "[c] @ w \<in> kstar {[c] |c. P c}" by (intro kstar.kstar_app) auto
    then show ?case by simp
  qed (auto intro: kstar.kstar_Nil)
qed

lemma Cons_split_iff:
  "(\<exists>u v. w = u @ v \<and> (\<exists>c. u = [c] \<and> P c) \<and> Q v) \<longleftrightarrow> (\<exists>c v. w = c # v \<and> P c \<and> Q v)"
  by (metis append_Cons append_Nil)

lemma lang_Star_Cls: "lang (Star (Cls neg rs)) = {w. list_all (cls_mem neg rs) w}"
  by (auto simp: kstar_single)

lemma lang_Plus_Cls:
  "lang (Plus1 (Cls neg rs)) = {w. w \<noteq> [] \<and> list_all (cls_mem neg rs) w}"
proof (rule set_eqI)
  fix w
  show "w \<in> lang (Plus1 (Cls neg rs)) \<longleftrightarrow> w \<in> {w. w \<noteq> [] \<and> list_all (cls_mem neg rs) w}"
    by (cases w) (simp_all add: Plus1_def kstar_single Cons_split_iff)
qed

lemma lang_Lit [simp]: "lang (Lit c) = {[c]}"
  by (auto simp: Lit_def cls_mem_def)

lemma plain_Lit [simp]: "plain (Lit c)"
  by (simp add: Lit_def)

lemma plain_Plus [simp]: "plain (Plus1 r) = plain r"
  by (simp add: Plus1_def)

lemma lang_Opt [simp]: "lang (Opt r) = insert [] (lang r)"
  by (auto simp: Opt_def)

lemma plain_Opt [simp]: "plain (Opt r) = plain r"
  by (simp add: Opt_def)

lemma plain_Upto [simp]: "plain r \<Longrightarrow> plain (Upto k r)"
  by (induction k) auto

lemma plain_Rep [simp]: "plain r \<Longrightarrow> plain (Rep lo k r)"
  by (induction lo) auto

lemma lang_Upto_Cls:
  "lang (Upto k (Cls neg rs)) = {w. length w \<le> k \<and> list_all (cls_mem neg rs) w}"
proof (induction k)
  case (Suc k)
  show ?case
  proof (rule set_eqI)
    fix w show "w \<in> lang (Upto (Suc k) (Cls neg rs)) \<longleftrightarrow>
        w \<in> {w. length w \<le> Suc k \<and> list_all (cls_mem neg rs) w}"
      by (cases w) (auto simp: Suc Cons_split_iff)
  qed
qed auto

lemma lang_Rep_Cls:
  "lang (Rep lo k (Cls neg rs)) =
     {w. lo \<le> length w \<and> length w \<le> lo + k \<and> list_all (cls_mem neg rs) w}"
proof (induction lo)
  case 0
  then show ?case by (simp add: lang_Upto_Cls)
next
  case (Suc lo)
  show ?case
  proof (rule set_eqI)
    fix w show "w \<in> lang (Rep (Suc lo) k (Cls neg rs)) \<longleftrightarrow>
        w \<in> {w. Suc lo \<le> length w \<and> length w \<le> Suc lo + k \<and> list_all (cls_mem neg rs) w}"
      by (cases w) (auto simp: Suc Cons_split_iff)
  qed
qed

end
