(* ===== verification/Version_Grammar.thy ===== *)
theory Version_Grammar
  imports Py_Regex
begin

text \<open>
  The version, tag, template and commit patterns of core/constants.py, each one a value of
  the pattern type, built from the same parts the source builds it from, and the shape of
  the texts they accept. \<open>Bol\<close> opens every anchored pattern, as \<open>^\<close> does in the source.
\<close>

section \<open>Classes\<close>

definition DIGIT :: re where "DIGIT = Cls False [(CHR ''0'', CHR ''9'')]"
definition NONZERO :: re where "NONZERO = Cls False [(CHR ''1'', CHR ''9'')]"
definition ALPHA_DASH :: re where
  "ALPHA_DASH = Cls False [(CHR ''a'', CHR ''z''), (CHR ''A'', CHR ''Z''), (CHR ''-'', CHR ''-'')]"
definition ALNUM_DASH :: re where
  "ALNUM_DASH = Cls False [(CHR ''0'', CHR ''9''), (CHR ''a'', CHR ''z''), (CHR ''A'', CHR ''Z''),
                           (CHR ''-'', CHR ''-'')]"
definition HEX :: re where "HEX = Cls False [(CHR ''0'', CHR ''9''), (CHR ''a'', CHR ''f'')]"
definition NOT_SLASH :: re where "NOT_SLASH = Cls True [(CHR ''/'', CHR ''/'')]"
definition ANY :: re where "ANY = Cls True []"
definition NOT_BRACES :: re where
  "NOT_BRACES = Cls True [(CHR ''{'', CHR ''{''), (CHR ''}'', CHR ''}'')]"
definition NOT_BRACKETS :: re where
  "NOT_BRACKETS = Cls True [(CHR ''['', CHR ''[''), (CHR '']'', CHR '']'')]"
definition NEWLINE :: char where "NEWLINE = CHR 0x0A"
definition NOT_NEWLINE :: re where "NOT_NEWLINE = Cls True [(NEWLINE, NEWLINE)]"
definition WS :: re where   \<comment> \<open>\<open>\<backslash>s\<close> below 256\<close>
  "WS = Cls False [(CHR 0x09, CHR 0x0D), (CHR 0x1C, CHR 0x20), (CHR 0x85, CHR 0x85),
                   (CHR 0xA0, CHR 0xA0)]"
definition WORD_DASH :: re where   \<comment> \<open>\<open>[\<backslash>w-]\<close> below 256\<close>
  "WORD_DASH = Cls False [(CHR ''a'', CHR ''z''), (CHR ''A'', CHR ''Z''), (CHR ''0'', CHR ''9''),
     (CHR ''_'', CHR ''_''), (CHR ''-'', CHR ''-''), (CHR 0xAA, CHR 0xAA), (CHR 0xB2, CHR 0xB3),
     (CHR 0xB5, CHR 0xB5), (CHR 0xB9, CHR 0xBA), (CHR 0xBC, CHR 0xBE), (CHR 0xC0, CHR 0xD6),
     (CHR 0xD8, CHR 0xF6), (CHR 0xF8, CHR 0xFF)]"

lemmas class_defs = DIGIT_def NONZERO_def ALPHA_DASH_def ALNUM_DASH_def HEX_def NOT_SLASH_def
  ANY_def NOT_BRACES_def NOT_BRACKETS_def NOT_NEWLINE_def WS_def WORD_DASH_def NEWLINE_def

section \<open>Version patterns\<close>

definition DIGIT_REGEX :: re where
  "DIGIT_REGEX = Alt (Lit CHR ''0'') (Seq NONZERO (Star DIGIT))"

definition SEMVER_BASE_VER_REGEX :: re where
  "SEMVER_BASE_VER_REGEX = Seqs [Grp ''major'' DIGIT_REGEX, Lit CHR ''.'',
     Grp ''minor'' DIGIT_REGEX, Lit CHR ''.'', Grp ''patch'' DIGIT_REGEX]"

definition PRERELEASE_IDENT :: re where
  "PRERELEASE_IDENT = Alt (Lit CHR ''0'') (Alt (Seq NONZERO (Star DIGIT))
     (Seqs [Star DIGIT, ALPHA_DASH, Star ALNUM_DASH]))"

definition PRERELEASE_BODY :: re where
  "PRERELEASE_BODY = Seq PRERELEASE_IDENT (Star (Seq (Lit CHR ''.'') PRERELEASE_IDENT))"

definition SEMVER_PRERELEASE_REGEX :: re where
  "SEMVER_PRERELEASE_REGEX = Opt (Seq (Lit CHR ''-'') (Grp ''prerelease'' PRERELEASE_BODY))"

definition VMN_PRERELEASE_REGEX :: re where
  "VMN_PRERELEASE_REGEX = Opt (Seqs [Lit CHR ''-'', Grp ''prerelease'' PRERELEASE_BODY,
     Lit CHR ''.'', Grp ''rcn'' DIGIT_REGEX])"

definition BUILDMETADATA_BODY :: re where
  "BUILDMETADATA_BODY =
     Seq (Plus1 ALNUM_DASH) (Star (Seq (Lit CHR ''.'') (Plus1 ALNUM_DASH)))"

definition SEMVER_BUILDMETADATA_REGEX :: re where
  "SEMVER_BUILDMETADATA_REGEX = Opt (Seq (Lit CHR ''+'') (Grp ''buildmetadata'' BUILDMETADATA_BODY))"

definition VMN_HOTFIX_REGEX :: re where
  "VMN_HOTFIX_REGEX = Opt (Seq (Lit CHR ''.'') (Grp ''hotfix'' DIGIT_REGEX))"

definition VMN_BASE_VER_REGEX :: re where
  "VMN_BASE_VER_REGEX = Seq SEMVER_BASE_VER_REGEX VMN_HOTFIX_REGEX"

definition VMN_OLD_BODY :: re where
  "VMN_OLD_BODY = Seqs [VMN_BASE_VER_REGEX, SEMVER_PRERELEASE_REGEX, SEMVER_BUILDMETADATA_REGEX]"

definition VMN_OLD_REGEX :: re where
  "VMN_OLD_REGEX = Seq Bol (Seq VMN_OLD_BODY Eol)"

definition APP_NAME_PREFIX :: re where
  "APP_NAME_PREFIX = Seq (Grp ''app_name'' (Plus1 NOT_SLASH)) (Lit CHR ''_'')"

definition VMN_OLD_TAG_REGEX :: re where
  "VMN_OLD_TAG_REGEX = Seq Bol (Seq APP_NAME_PREFIX (Seq VMN_OLD_BODY Eol))"

definition VMN_VERSTR_REGEX :: re where
  "VMN_VERSTR_REGEX = Seq VMN_BASE_VER_REGEX VMN_PRERELEASE_REGEX"

definition DEV_RUN_REGEX :: re where
  "DEV_RUN_REGEX = Opt (Seq (Lits ''.r'') (Grp ''dev_run'' (Plus1 DIGIT)))"

definition VMN_DEV_REGEX :: re where
  "VMN_DEV_REGEX = Opt (Seqs [Lits ''-dev.'', Grp ''dev_commit'' (Rep 7 0 HEX), Lit CHR ''.'',
     Grp ''dev_diff_hash'' (Rep 7 57 HEX),
     DEV_RUN_REGEX])"

definition VMN_VERSION_BODY :: re where
  "VMN_VERSION_BODY = Seqs [VMN_VERSTR_REGEX, VMN_DEV_REGEX, SEMVER_BUILDMETADATA_REGEX]"

definition VMN_VERSION_REGEX :: re where
  "VMN_VERSION_REGEX = Seq Bol (Seq VMN_VERSION_BODY Eol)"

definition VMN_TAG_REGEX :: re where
  "VMN_TAG_REGEX = Seq Bol (Seq APP_NAME_PREFIX (Seq VMN_VERSION_BODY Eol))"

definition VMN_ROOT_BODY :: re where
  "VMN_ROOT_BODY = Grp ''version'' DIGIT_REGEX"

definition VMN_ROOT_VERSION_REGEX :: re where
  "VMN_ROOT_VERSION_REGEX = Seq Bol (Seq VMN_ROOT_BODY Eol)"

definition VMN_ROOT_TAG_REGEX :: re where
  "VMN_ROOT_TAG_REGEX = Seq Bol (Seq APP_NAME_PREFIX (Seq VMN_ROOT_BODY Eol))"

section \<open>Template and commit patterns\<close>

definition TEMPLATE_PART :: "string \<Rightarrow> re \<Rightarrow> re" where
  "TEMPLATE_PART nm cls = Opt (Seqs [Lit CHR ''['',
     Grp (nm @ ''_template'') (Seqs [Star cls, Lit CHR ''{'', Lits nm, Lit CHR ''}'', Star cls]),
     Lit CHR '']''])"

definition VMN_TEMPLATE_REGEX :: re where
  "VMN_TEMPLATE_REGEX = Seq Bol (Seqs
     [TEMPLATE_PART ''major'' NOT_BRACES, TEMPLATE_PART ''minor'' NOT_BRACES,
      TEMPLATE_PART ''patch'' NOT_BRACES, TEMPLATE_PART ''hotfix'' NOT_BRACES,
      TEMPLATE_PART ''prerelease'' NOT_BRACES, TEMPLATE_PART ''rcn'' NOT_BRACES,
      TEMPLATE_PART ''dev_commit'' NOT_BRACKETS, TEMPLATE_PART ''buildmetadata'' NOT_BRACES, Eol])"

definition COMMIT_TYPE :: re where
  "COMMIT_TYPE = Cls False [(CHR ''a'', CHR ''z''), (CHR ''A'', CHR ''Z''), (CHR ''0'', CHR ''9''),
                            (CHR '' '', CHR '' '')]"

definition COMMIT_SCOPE :: re where
  "COMMIT_SCOPE = Cls False [(CHR ''a'', CHR ''z''), (CHR ''A'', CHR ''Z''), (CHR ''0'', CHR ''9''),
                             (CHR ''-'', CHR ''-'')]"

definition CONVENTIONAL_COMMIT_PATTERN :: re where
  "CONVENTIONAL_COMMIT_PATTERN = Seqs
     [Bol, Grp ''type'' (Plus1 COMMIT_TYPE),
      Opt (Seqs [Lit CHR ''('', Grp ''scope'' (Plus1 COMMIT_SCOPE), Lit CHR '')'']),
      Opt (Grp ''bc'' (Lit CHR ''!'')),
      Lit CHR '':'', Star WS, Grp ''description'' (Plus1 NOT_NEWLINE),
      LOpt (Seq (Plus1 (Lit NEWLINE)) (Grp ''body'' (LStar ANY))),
      Opt (Seq (Plus1 (Lit NEWLINE)) (Grp ''footer'' (Seqs
        [Alt (Lits ''BREAKING CHANGE'') (Plus1 WORD_DASH),
         Alt (Lits '': '') (Lits '' #''), LStar ANY]))),
      Star WS, Eol]"

definition JINJA_TAG_RE :: re where
  "JINJA_TAG_RE = Alt (Seqs [Lits ''{{'', LStar ANY, Lits ''}}''])
                      (Seqs [Lits ''{%'', LStar ANY, Lits ''%}''])"

section \<open>The words of the parts\<close>

lemma cls_digit: "cls_mem False [(CHR ''0'', CHR ''9'')] c = is_digit c"
  by (simp add: cls_mem_def in_range_def is_digit_def)

lemma plain_parts [simp]:
  "plain DIGIT_REGEX" "plain PRERELEASE_IDENT" "plain PRERELEASE_BODY" "plain BUILDMETADATA_BODY"
  "plain (Plus1 NOT_SLASH)" "plain (Rep lo k HEX)" "plain (Plus1 DIGIT)"
  by (simp_all add: DIGIT_REGEX_def PRERELEASE_IDENT_def PRERELEASE_BODY_def
      BUILDMETADATA_BODY_def class_defs)

lemma nonzero_digit: "cls_mem False [(CHR ''1'', CHR ''9'')] c \<longleftrightarrow> is_digit c \<and> c \<noteq> CHR ''0''"
proof -
  have "c = CHR ''0'' \<longleftrightarrow> code c = 48" by (metis code_inject code_zero)
  then show ?thesis by (auto simp: cls_mem_def in_range_def is_digit_def)
qed

lemma lang_DIGIT_REGEX: "lang DIGIT_REGEX = {w. canonical_num w}"
proof (rule set_eqI)
  fix w
  have "is_digit (CHR ''0'')" by (simp add: is_digit_def)
  then show "w \<in> lang DIGIT_REGEX \<longleftrightarrow> w \<in> {w. canonical_num w}"
    by (cases w) (auto simp: DIGIT_REGEX_def DIGIT_def NONZERO_def lang_Star_Cls cls_digit
        nonzero_digit kstar_single Cons_split_iff canonical_num_def all_digits_def)
qed

lemma lang_Plus_DIGIT: "lang (Plus1 DIGIT) = {w. all_digits w}"
  by (auto simp: DIGIT_def lang_Plus_Cls cls_digit all_digits_def list_all_def)

declare Lits.simps [simp del]

text \<open>Words over the characters a pattern mentions.\<close>

fun classes :: "re \<Rightarrow> (bool \<times> (char \<times> char) list) list" where
  "classes (Cls neg rs) = [(neg, rs)]"
| "classes (Seq a b) = classes a @ classes b"
| "classes (Alt a b) = classes a @ classes b"
| "classes (Star a) = classes a"
| "classes (LStar a) = classes a"
| "classes (Grp g a) = classes a"
| "classes _ = []"

lemma kstar_chars: "w \<in> kstar A \<Longrightarrow> (\<And>u. u \<in> A \<Longrightarrow> list_all P u) \<Longrightarrow> list_all P w"
  by (induction w rule: kstar.induct) auto

lemma lang_chars:
  "w \<in> lang r \<Longrightarrow> (\<forall>(neg, rs) \<in> set (classes r). \<forall>c. cls_mem neg rs c \<longrightarrow> P c) \<Longrightarrow> list_all P w"
proof (induction r arbitrary: w)
  case (Star r)
  then show ?case by (auto intro: kstar_chars)
next
  case (LStar r)
  then show ?case by (auto intro: kstar_chars)
qed fastforce+

definition ident_char :: "char \<Rightarrow> bool" where
  "ident_char c = list_ex (in_range c)
     [(CHR ''0'', CHR ''9''), (CHR ''a'', CHR ''z''), (CHR ''A'', CHR ''Z''), (CHR ''-'', CHR ''-'')]"

definition dotted_char :: "char \<Rightarrow> bool" where
  "dotted_char c = (ident_char c \<or> c = CHR ''.'')"

lemma code_eq_dot: "code c = 46 \<Longrightarrow> c = CHR ''.''"
  by (rule code_inject [THEN iffD1]) simp

lemma prerelease_chars: "w \<in> lang PRERELEASE_BODY \<Longrightarrow> list_all dotted_char w"
  by (erule lang_chars)
    (auto simp: PRERELEASE_BODY_def PRERELEASE_IDENT_def class_defs Lit_def cls_mem_def
      dotted_char_def ident_char_def in_range_def code_eq_dot)

lemma buildmetadata_chars: "w \<in> lang BUILDMETADATA_BODY \<Longrightarrow> list_all dotted_char w"
  by (erule lang_chars)
    (auto simp: BUILDMETADATA_BODY_def Plus1_def class_defs Lit_def cls_mem_def
      dotted_char_def ident_char_def in_range_def code_eq_dot)

lemma prerelease_nonempty: "w \<in> lang PRERELEASE_BODY \<Longrightarrow> w \<noteq> []"
  by (auto simp: PRERELEASE_BODY_def PRERELEASE_IDENT_def NONZERO_def ALPHA_DASH_def)

lemma is_digit_dotted: "is_digit c \<Longrightarrow> dotted_char c"
  by (simp add: is_digit_def dotted_char_def ident_char_def in_range_def)

lemma ex_option: "(\<exists>x. P x) \<longleftrightarrow> P None \<or> (\<exists>w. P (Some w))"
  by (metis not_None_eq)

section \<open>What an accepted version looks like\<close>

text \<open>Each optional part of a version, as the text it consumes and its effect on the groups.\<close>

definition opt_part :: "(string \<Rightarrow> string) \<Rightarrow> string option \<Rightarrow> string" where
  "opt_part f x = (case x of None \<Rightarrow> [] | Some w \<Rightarrow> f w)"

definition opt_grp :: "string \<Rightarrow> string option \<Rightarrow> genv \<Rightarrow> genv" where
  "opt_grp g x e = (case x of None \<Rightarrow> e | Some w \<Rightarrow> e(g \<mapsto> w))"

lemma opt_simps [simp]:
  "opt_part f None = []" "opt_part f (Some w) = f w"
  "opt_grp g None e = e" "opt_grp g (Some w) e = e(g \<mapsto> w)"
  by (simp_all add: opt_part_def opt_grp_def)

lemma opt_grp_other [simp]: "g \<noteq> h \<Longrightarrow> opt_grp g x e h = e h"
  by (simp add: opt_grp_def split: option.splits)

lemma opt_grp_same [simp]: "opt_grp g x e g = (case x of None \<Rightarrow> e g | Some w \<Rightarrow> Some w)"
  by (simp add: opt_grp_def split: option.splits)

definition base_env :: "string \<Rightarrow> string \<Rightarrow> string \<Rightarrow> string option \<Rightarrow> genv \<Rightarrow> genv" where
  "base_env a b c h e =
     opt_grp ''hotfix'' h (e(''major'' \<mapsto> a, ''minor'' \<mapsto> b, ''patch'' \<mapsto> c))"

definition base_text :: "string \<Rightarrow> string \<Rightarrow> string \<Rightarrow> string option \<Rightarrow> string" where
  "base_text a b c h = a @ ''.'' @ b @ ''.'' @ c @ opt_part (\<lambda>w. CHR ''.'' # w) h"

lemma rm_opt_grp_iff: "plain r \<Longrightarrow>
   (t, f) \<in> set (rm n (Opt (Seq (Lit c) (Grp g r))) s e) \<longleftrightarrow>
     (\<exists>x. (\<forall>w. x = Some w \<longrightarrow> w \<in> lang r) \<and> s = opt_part (\<lambda>w. c # w) x @ t \<and> f = opt_grp g x e)"
  (is "_ \<Longrightarrow> ?L \<longleftrightarrow> ?R")
proof -
  assume pl: "plain r"
  have "?L \<longleftrightarrow> (\<exists>w \<in> lang r. s = c # w @ t \<and> f = e(g \<mapsto> w)) \<or> (s = t \<and> f = e)"
    unfolding rm_Opt_iff rm_Seq_iff rm_Lit_iff rm_Grp_plain_iff [OF pl] by auto
  also have "\<dots> \<longleftrightarrow> ?R"
    by (subst ex_option) auto
  finally show ?thesis .
qed

lemma rm_base_iff: "(t, f) \<in> set (rm n VMN_BASE_VER_REGEX s e) \<longleftrightarrow>
   (\<exists>a b c h. canonical_num a \<and> canonical_num b \<and> canonical_num c
      \<and> (\<forall>w. h = Some w \<longrightarrow> canonical_num w)
      \<and> s = base_text a b c h @ t \<and> f = base_env a b c h e)"
  (is "?L \<longleftrightarrow> ?R")
proof -
  have "?L \<longleftrightarrow> (t, f) \<in> set (rm n (Seq (Grp ''major'' DIGIT_REGEX) (Seq (Lit CHR ''.'')
      (Seq (Grp ''minor'' DIGIT_REGEX) (Seq (Lit CHR ''.'')
      (Seq (Grp ''patch'' DIGIT_REGEX) VMN_HOTFIX_REGEX))))) s e)" (is "_ \<longleftrightarrow> ?M")
    unfolding VMN_BASE_VER_REGEX_def SEMVER_BASE_VER_REGEX_def Seqs.simps rm_seq_iffs
      rm_Seq_Grp_iff [OF plain_parts(1)] by simp
  also have "?M \<longleftrightarrow> ?R"
  proof
    assume ?M
    then show ?R
      unfolding VMN_HOTFIX_REGEX_def rm_seq_iffs rm_Seq_Grp_iff [OF plain_parts(1)]
        rm_opt_grp_iff [OF plain_parts(1)] lang_DIGIT_REGEX base_text_def base_env_def
      by auto
  next
    assume ?R
    then obtain a b c h where "canonical_num a" "canonical_num b" "canonical_num c"
      "\<forall>w. h = Some w \<longrightarrow> canonical_num w" and s: "s = base_text a b c h @ t"
      and f: "f = base_env a b c h e" by blast
    moreover from this have "(t, f) \<in> set (rm n VMN_HOTFIX_REGEX (opt_part (\<lambda>w. CHR ''.'' # w) h @ t)
        (e(''major'' \<mapsto> a, ''minor'' \<mapsto> b, ''patch'' \<mapsto> c)))"
      unfolding VMN_HOTFIX_REGEX_def rm_opt_grp_iff [OF plain_parts(1)] lang_DIGIT_REGEX
      by (auto simp: base_env_def)
    ultimately show ?M
      by (simp only: base_text_def append.assoc append_Cons append_Nil)
        (intro rm_intros plain_parts; simp add: lang_DIGIT_REGEX)
  qed
  finally show ?thesis .
qed

definition is_hex :: "char \<Rightarrow> bool" where
  "is_hex c = cls_mem False [(CHR ''0'', CHR ''9''), (CHR ''a'', CHR ''f'')] c"

lemma lang_HEX7: "lang (Rep 7 0 HEX) = {w. length w = 7 \<and> list_all is_hex w}"
  by (auto simp: HEX_def lang_Rep_Cls is_hex_def [abs_def])

lemma lang_HEX64: "lang (Rep 7 57 HEX) = {w. 7 \<le> length w \<and> length w \<le> 64 \<and> list_all is_hex w}"
  by (auto simp: HEX_def lang_Rep_Cls is_hex_def [abs_def])

text \<open>
  The pieces of a version text. \<open>p_pre\<close> is the prerelease and its counter, \<open>p_dev\<close> the
  commit, the diff hash and the optional run number of a dev snapshot.
\<close>

record parts =
  p_major :: string
  p_minor :: string
  p_patch :: string
  p_hotfix :: "string option"
  p_pre :: "(string \<times> string) option"
  p_dev :: "(string \<times> string \<times> string option) option"
  p_meta :: "string option"

definition dev_ok :: "string \<times> string \<times> string option \<Rightarrow> bool" where
  "dev_ok d = (case d of (c, h, r) \<Rightarrow> length c = 7 \<and> list_all is_hex c
     \<and> 7 \<le> length h \<and> length h \<le> 64 \<and> list_all is_hex h \<and> (\<forall>x. r = Some x \<longrightarrow> all_digits x))"

definition parts_ok :: "parts \<Rightarrow> bool" where
  "parts_ok p = (canonical_num (p_major p) \<and> canonical_num (p_minor p) \<and> canonical_num (p_patch p)
     \<and> (\<forall>w. p_hotfix p = Some w \<longrightarrow> canonical_num w)
     \<and> (\<forall>x r. p_pre p = Some (x, r) \<longrightarrow> x \<in> lang PRERELEASE_BODY \<and> canonical_num r)
     \<and> (\<forall>d. p_dev p = Some d \<longrightarrow> dev_ok d)
     \<and> (\<forall>w. p_meta p = Some w \<longrightarrow> w \<in> lang BUILDMETADATA_BODY))"

definition pre_text :: "(string \<times> string) option \<Rightarrow> string" where
  "pre_text x = (case x of None \<Rightarrow> [] | Some (p, r) \<Rightarrow> CHR ''-'' # p @ CHR ''.'' # r)"

definition run_text :: "string option \<Rightarrow> string" where
  "run_text r = opt_part (\<lambda>w. ''.r'' @ w) r"

definition dev_text :: "(string \<times> string \<times> string option) option \<Rightarrow> string" where
  "dev_text x = (case x of None \<Rightarrow> []
     | Some (c, h, r) \<Rightarrow> ''-dev.'' @ c @ CHR ''.'' # h @ run_text r)"

definition meta_text :: "string option \<Rightarrow> string" where
  "meta_text x = opt_part (\<lambda>w. CHR ''+'' # w) x"

definition parts_text :: "parts \<Rightarrow> string" where
  "parts_text p = base_text (p_major p) (p_minor p) (p_patch p) (p_hotfix p)
     @ pre_text (p_pre p) @ dev_text (p_dev p) @ meta_text (p_meta p)"

definition pre_env :: "(string \<times> string) option \<Rightarrow> genv \<Rightarrow> genv" where
  "pre_env x e = (case x of None \<Rightarrow> e | Some (p, r) \<Rightarrow> e(''prerelease'' \<mapsto> p, ''rcn'' \<mapsto> r))"

definition dev_env :: "(string \<times> string \<times> string option) option \<Rightarrow> genv \<Rightarrow> genv" where
  "dev_env x e = (case x of None \<Rightarrow> e
     | Some (c, h, r) \<Rightarrow> opt_grp ''dev_run'' r (e(''dev_commit'' \<mapsto> c, ''dev_diff_hash'' \<mapsto> h)))"

definition parts_env :: "parts \<Rightarrow> genv \<Rightarrow> genv" where
  "parts_env p e = opt_grp ''buildmetadata'' (p_meta p) (dev_env (p_dev p) (pre_env (p_pre p)
     (base_env (p_major p) (p_minor p) (p_patch p) (p_hotfix p) e)))"

lemma rm_pre_iff: "(t, f) \<in> set (rm n VMN_PRERELEASE_REGEX s e) \<longleftrightarrow>
   (\<exists>x. (\<forall>p r. x = Some (p, r) \<longrightarrow> p \<in> lang PRERELEASE_BODY \<and> canonical_num r)
      \<and> s = pre_text x @ t \<and> f = pre_env x e)" (is "?L \<longleftrightarrow> (\<exists>x. ?R x)")
proof
  assume ?L
  then show "\<exists>x. ?R x"
    unfolding VMN_PRERELEASE_REGEX_def rm_Opt_iff Seqs.simps rm_seq_iffs
      rm_Seq_Grp_iff [OF plain_parts(3)] rm_Grp_plain_iff [OF plain_parts(1)] lang_DIGIT_REGEX ex_option
    by (auto simp: pre_text_def pre_env_def)
next
  assume "\<exists>x. ?R x"
  then obtain x where x: "?R x" by blast
  show ?L
  proof (cases x)
    case None
    then show ?thesis using x by (simp add: VMN_PRERELEASE_REGEX_def rm_Opt_iff pre_text_def pre_env_def)
  next
    case (Some y)
    obtain p r where y: "y = (p, r)" by (cases y)
    show ?thesis
      using x unfolding Some y VMN_PRERELEASE_REGEX_def Seqs.simps
      by (simp add: pre_text_def pre_env_def)
        (intro rm_OptI rm_intros plain_parts; simp add: lang_DIGIT_REGEX)
  qed
qed

lemma rm_dev_iff: "(t, f) \<in> set (rm n VMN_DEV_REGEX s e) \<longleftrightarrow>
   (\<exists>x. (\<forall>d. x = Some d \<longrightarrow> dev_ok d) \<and> s = dev_text x @ t \<and> f = dev_env x e)"
  (is "?L \<longleftrightarrow> (\<exists>x. ?R x)")
proof -
  have run: "(t, f) \<in> set (rm n DEV_RUN_REGEX s e) \<longleftrightarrow>
      (\<exists>r. (\<forall>x. r = Some x \<longrightarrow> all_digits x) \<and> s = run_text r @ t \<and> f = opt_grp ''dev_run'' r e)"
    for t f s e
    unfolding DEV_RUN_REGEX_def rm_Opt_iff rm_seq_iffs rm_Grp_plain_iff [OF plain_parts(7)]
      lang_Plus_DIGIT ex_option run_text_def
    by auto
  show ?thesis
  proof
    assume ?L
    then consider "t = s" "f = e" | "(t, f) \<in> set (rm n (Seq (Lits ''-dev.'')
        (Seq (Grp ''dev_commit'' (Rep 7 0 HEX)) (Seq (Lit CHR ''.'')
          (Seq (Grp ''dev_diff_hash'' (Rep 7 57 HEX)) DEV_RUN_REGEX)))) s e)"
      unfolding VMN_DEV_REGEX_def rm_Opt_iff Seqs.simps by blast
    then show "\<exists>x. ?R x"
    proof cases
      case 1
      then have "?R None" by (simp add: dev_text_def dev_env_def)
      then show ?thesis ..
    next
      case 2
      then obtain c h r where "dev_ok (c, h, r)"
          "s = ''-dev.'' @ c @ CHR ''.'' # h @ run_text r @ t"
          "f = opt_grp ''dev_run'' r (e(''dev_commit'' \<mapsto> c, ''dev_diff_hash'' \<mapsto> h))"
        unfolding rm_seq_iffs rm_Seq_Grp_iff [OF plain_parts(6)] run lang_HEX7 lang_HEX64 dev_ok_def
        by blast
      then have "?R (Some (c, h, r))" by (simp add: dev_text_def dev_env_def)
      then show ?thesis ..
    qed
  next
    assume "\<exists>x. ?R x"
    then obtain x where x: "?R x" by blast
    show ?L
    proof (cases x)
      case None
      then show ?thesis using x by (simp add: VMN_DEV_REGEX_def rm_Opt_iff dev_text_def dev_env_def)
    next
      case (Some y)
      obtain c h r where y: "y = (c, h, r)" by (cases y)
      have "(t, f) \<in> set (rm n DEV_RUN_REGEX (run_text r @ t)
          (e(''dev_commit'' \<mapsto> c, ''dev_diff_hash'' \<mapsto> h)))"
        using x unfolding run Some y by (auto simp: dev_env_def dev_ok_def)
      moreover have ok: "dev_ok (c, h, r)" and st: "s = ''-dev.'' @ (c @ (CHR ''.'' # (h @ (run_text r @ t))))"
          and f: "f = dev_env (Some (c, h, r)) e"
        using x Some y by (auto simp: dev_text_def)
      ultimately show ?thesis
        unfolding VMN_DEV_REGEX_def Seqs.simps st f
        by (intro rm_OptI rm_intros plain_parts) (auto simp: lang_HEX7 lang_HEX64 dev_ok_def)
    qed
  qed
qed

lemma rm_version_iff: "(t, f) \<in> set (rm n VMN_VERSION_BODY s e) \<longleftrightarrow>
   (\<exists>p. parts_ok p \<and> s = parts_text p @ t \<and> f = parts_env p e)" (is "?L \<longleftrightarrow> (\<exists>p. ?R p)")
proof
  assume ?L
  then obtain a b c h x d m where
    "canonical_num a" "canonical_num b" "canonical_num c" "\<forall>w. h = Some w \<longrightarrow> canonical_num w"
    "\<forall>p r. x = Some (p, r) \<longrightarrow> p \<in> lang PRERELEASE_BODY \<and> canonical_num r"
    "\<forall>y. d = Some y \<longrightarrow> dev_ok y" "\<forall>w. m = Some w \<longrightarrow> w \<in> lang BUILDMETADATA_BODY"
    "s = base_text a b c h @ pre_text x @ dev_text d @ meta_text m @ t"
    "f = opt_grp ''buildmetadata'' m (dev_env d (pre_env x (base_env a b c h e)))"
    unfolding VMN_VERSION_BODY_def VMN_VERSTR_REGEX_def Seqs.simps rm_Seq_assoc
      rm_Seq_iff rm_base_iff rm_pre_iff rm_dev_iff SEMVER_BUILDMETADATA_REGEX_def
      rm_opt_grp_iff [OF plain_parts(4)] meta_text_def
    by auto
  then have "?R \<lparr>p_major = a, p_minor = b, p_patch = c, p_hotfix = h, p_pre = x, p_dev = d, p_meta = m\<rparr>"
    by (simp add: parts_ok_def parts_text_def parts_env_def)
  then show "\<exists>p. ?R p" by blast
next
  assume "\<exists>p. ?R p"
  then obtain p where p: "?R p" by blast
  let ?e1 = "base_env (p_major p) (p_minor p) (p_patch p) (p_hotfix p) e"
  let ?t1 = "pre_text (p_pre p) @ dev_text (p_dev p) @ meta_text (p_meta p) @ t"
  have "(?t1, ?e1) \<in> set (rm n VMN_BASE_VER_REGEX s e)"
    unfolding rm_base_iff using p by (auto simp: parts_ok_def parts_text_def)
  moreover have "(dev_text (p_dev p) @ meta_text (p_meta p) @ t, pre_env (p_pre p) ?e1)
      \<in> set (rm n VMN_PRERELEASE_REGEX ?t1 ?e1)"
    unfolding rm_pre_iff using p by (auto simp: parts_ok_def)
  moreover have "(meta_text (p_meta p) @ t, dev_env (p_dev p) (pre_env (p_pre p) ?e1))
      \<in> set (rm n VMN_DEV_REGEX (dev_text (p_dev p) @ meta_text (p_meta p) @ t) (pre_env (p_pre p) ?e1))"
    unfolding rm_dev_iff using p by (auto simp: parts_ok_def)
  moreover have "(t, f) \<in> set (rm n SEMVER_BUILDMETADATA_REGEX (meta_text (p_meta p) @ t)
      (dev_env (p_dev p) (pre_env (p_pre p) ?e1)))"
    unfolding SEMVER_BUILDMETADATA_REGEX_def rm_opt_grp_iff [OF plain_parts(4)]
    using p by (auto simp: parts_ok_def meta_text_def parts_env_def)
  ultimately show ?L
    unfolding VMN_VERSION_BODY_def VMN_VERSTR_REGEX_def Seqs.simps rm_Seq_assoc
    by (blast intro: rm_SeqI)
qed

text \<open>The text of a version is accepted with an optional final newline, as \<open>$\<close> allows.\<close>

definition eol_ok :: "string \<Rightarrow> bool" where
  "eol_ok t = (t = [] \<or> t = [NEWLINE])"

lemma rm_SeqEol_iff:
  "(t, f) \<in> set (rm n (Seq r Eol) s e) \<longleftrightarrow> (t, f) \<in> set (rm n r s e) \<and> eol_ok t"
  unfolding rm_Seq_iff rm_Eol_iff by (auto simp: eol_ok_def NEWLINE_def)

lemma version_search_Some:
  assumes "re_search VMN_VERSION_REGEX s = Some m"
  obtains p where "parts_ok p" "s = parts_text p @ m_rest m" "eol_ok (m_rest m)"
    "m_env m = parts_env p Map.empty"
  using re_search_anchored_SomeD [OF assms [unfolded VMN_VERSION_REGEX_def]]
  unfolding rm_SeqEol_iff rm_version_iff by blast

lemma version_search_exists:
  assumes "parts_ok p" "eol_ok t"
  shows "\<exists>m. re_search VMN_VERSION_REGEX (parts_text p @ t) = Some m"
proof -
  have "(t, parts_env p Map.empty) \<in> set (rm n (Seq VMN_VERSION_BODY Eol) (parts_text p @ t) Map.empty)" for n
    unfolding rm_SeqEol_iff rm_version_iff using assms by blast
  then have "rm n (Seq VMN_VERSION_BODY Eol) (parts_text p @ t) Map.empty \<noteq> []" for n
    by (metis list.set(1) empty_iff)
  then show ?thesis
    unfolding VMN_VERSION_REGEX_def by (metis not_None_eq re_search_anchored_None_iff)
qed

lemma root_search_iff: "re_search VMN_ROOT_VERSION_REGEX s = None \<longleftrightarrow>
   \<not> (\<exists>w t. canonical_num w \<and> eol_ok t \<and> s = w @ t)"
proof -
  have "(\<exists>t f. (t, f) \<in> set (rm n (Seq VMN_ROOT_BODY Eol) s Map.empty)) \<longleftrightarrow>
      (\<exists>w t. canonical_num w \<and> eol_ok t \<and> s = w @ t)" for n
    unfolding rm_SeqEol_iff VMN_ROOT_BODY_def rm_Grp_plain_iff [OF plain_parts(1)] lang_DIGIT_REGEX
    by blast
  then have "rm n (Seq VMN_ROOT_BODY Eol) s Map.empty = [] \<longleftrightarrow>
      \<not> (\<exists>w t. canonical_num w \<and> eol_ok t \<and> s = w @ t)" for n
    by (metis empty_iff list.set(1) list.set_intros(1) neq_Nil_conv surj_pair)
  then show ?thesis unfolding VMN_ROOT_VERSION_REGEX_def re_search_anchored_None_iff .
qed

lemma root_search_Some:
  assumes "re_search VMN_ROOT_VERSION_REGEX s = Some m"
  obtains w where "canonical_num w" "s = w @ m_rest m" "eol_ok (m_rest m)"
    "m_env m = [''version'' \<mapsto> w]"
  using re_search_anchored_SomeD [OF assms [unfolded VMN_ROOT_VERSION_REGEX_def]]
  unfolding rm_SeqEol_iff VMN_ROOT_BODY_def rm_Grp_plain_iff [OF plain_parts(1)] lang_DIGIT_REGEX
  by blast

end
