(* ===== verification/Version_Math.thy ===== *)
theory Version_Math
  imports Version_Grammar
begin

text \<open>
  core/version_math.py and the version records of core/models.py: parsing a version or a
  tag into its properties, printing them back, the display template, and the order on
  release modes. Groups the pattern did not match read as \<open>None\<close>, as \<open>groupdict\<close> gives
  them; \<open>int(None)\<close> raises, and the lemmas show that no accepted text reaches that.
\<close>

section \<open>Records\<close>

record version_props =
  vp_types :: "string set"
  vp_root_version :: "string option"
  vp_major :: "int option"
  vp_minor :: "int option"
  vp_patch :: "int option"
  vp_hotfix :: "int option"
  vp_prerelease :: string
  vp_rcn :: "int option"
  vp_buildmetadata :: "string option"
  vp_dev_commit :: "string option"
  vp_dev_diff_hash :: "string option"
  vp_dev_run :: "int option"
  vp_old_ver_format :: bool

record tag_props = version_props +
  tp_app_name :: "string option"
  tp_old_tag_format :: bool
  tp_verstr :: "string option"

definition VersionProps :: version_props where
  "VersionProps = \<lparr>vp_types = {''version''}, vp_root_version = None, vp_major = None,
     vp_minor = None, vp_patch = None, vp_hotfix = None, vp_prerelease = ''release'',
     vp_rcn = None, vp_buildmetadata = None, vp_dev_commit = None, vp_dev_diff_hash = None,
     vp_dev_run = None, vp_old_ver_format = False\<rparr>"

section \<open>Names\<close>

definition app_name_to_tag_name :: "string \<Rightarrow> string" where
  "app_name_to_tag_name app_name = replace_char CHR ''/'' CHR ''-'' app_name"

definition tag_name_to_app_name :: "string \<Rightarrow> string" where
  "tag_name_to_app_name tag_app_name = replace_char CHR ''-'' CHR ''/'' tag_app_name"

definition gen_unique_id :: "string \<Rightarrow> string \<Rightarrow> string" where
  "gen_unique_id verstr h = verstr @ ''+'' @ h"

definition get_root_app_name_from_name :: "string \<Rightarrow> string option" where
  "get_root_app_name_from_name name =
     (let root_app_name = split_char CHR ''/'' name
      in if length root_app_name = 1 then None else Some (str_join ''/'' (butlast root_app_name)))"

section \<open>Parsing versions\<close>

definition int_group :: "genv \<Rightarrow> string \<Rightarrow> int res" where
  \<comment> \<open>\<open>int(gdict[g])\<close>\<close>
  "int_group e g = (case e g of None \<Rightarrow> Inl TypeErr | Some w \<Rightarrow> Inr (int (str_nat w)))"

definition fill_base :: "genv \<Rightarrow> version_props \<Rightarrow> version_props res" where
  "fill_base gdict ret =
     bind_res (int_group gdict ''major'') (\<lambda>mj.
     bind_res (int_group gdict ''minor'') (\<lambda>mn.
     bind_res (int_group gdict ''patch'') (\<lambda>pt.
     bind_res (case gdict ''hotfix'' of None \<Rightarrow> Inr 0 | Some _ \<Rightarrow> int_group gdict ''hotfix'') (\<lambda>hf.
       Inr (ret\<lparr>vp_major := Some mj, vp_minor := Some mn, vp_patch := Some pt,
                vp_hotfix := Some hf\<rparr>)))))"

definition fill_prerelease :: "bool \<Rightarrow> genv \<Rightarrow> version_props \<Rightarrow> version_props res" where
  "fill_prerelease old_ver_format gdict ret =
     (case gdict ''prerelease'' of
        None \<Rightarrow> Inr ret
      | Some p \<Rightarrow>
          bind_res (if old_ver_format then Inr (-1) else int_group gdict ''rcn'') (\<lambda>rcn.
            Inr (ret\<lparr>vp_prerelease := p, vp_rcn := Some rcn,
                     vp_types := insert ''prerelease'' (vp_types ret)\<rparr>)))"

definition fill_dev :: "genv \<Rightarrow> version_props \<Rightarrow> version_props res" where
  "fill_dev gdict ret =
     (case gdict ''dev_commit'' of
        None \<Rightarrow> Inr ret
      | Some c \<Rightarrow>
          bind_res (case gdict ''dev_run'' of None \<Rightarrow> Inr None
                    | Some _ \<Rightarrow> bind_res (int_group gdict ''dev_run'') (\<lambda>r. Inr (Some r))) (\<lambda>run.
            Inr (ret\<lparr>vp_dev_commit := Some c, vp_dev_diff_hash := gdict ''dev_diff_hash'',
                     vp_dev_run := run, vp_types := insert ''dev'' (vp_types ret)\<rparr>)))"

definition fill_buildmetadata :: "genv \<Rightarrow> version_props \<Rightarrow> version_props" where
  "fill_buildmetadata gdict ret =
     (case gdict ''buildmetadata'' of
        None \<Rightarrow> ret
      | Some b \<Rightarrow> ret\<lparr>vp_buildmetadata := Some b,
                     vp_types := insert ''buildmetadata'' (vp_types ret)\<rparr>)"

definition fill_props :: "bool \<Rightarrow> genv \<Rightarrow> version_props res" where
  "fill_props old_ver_format gdict =
     bind_res (fill_base gdict (VersionProps\<lparr>vp_old_ver_format := old_ver_format\<rparr>)) (\<lambda>r1.
     bind_res (fill_prerelease old_ver_format gdict r1) (\<lambda>r2.
     bind_res (fill_dev gdict r2) (\<lambda>r3. Inr (fill_buildmetadata gdict r3))))"

definition deserialize_vmn_version :: "string \<Rightarrow> version_props res" where
  "deserialize_vmn_version verstr =
     (case re_search VMN_ROOT_VERSION_REGEX verstr of
        Some m \<Rightarrow>
          bind_res (int_group (m_env m) ''version'') (\<lambda>_.
            Inr (VersionProps\<lparr>vp_root_version := m_env m ''version'',
                              vp_types := insert ''root'' (vp_types VersionProps)\<rparr>))
      | None \<Rightarrow>
          (case re_search VMN_VERSION_REGEX verstr of
             Some m \<Rightarrow> fill_props False (m_env m)
           | None \<Rightarrow>
               (case re_search VMN_OLD_REGEX verstr of
                  None \<Rightarrow> Inl WrongTagFormat
                | Some m \<Rightarrow> fill_props True (m_env m))))"

definition is_dev_version :: "string \<Rightarrow> bool" where
  "is_dev_version verstr =
     (case deserialize_vmn_version verstr of Inl _ \<Rightarrow> False | Inr p \<Rightarrow> ''dev'' \<in> vp_types p)"

section \<open>Printing versions\<close>

definition fmt_int :: "int option \<Rightarrow> string" where
  \<comment> \<open>an \<open>Optional[int]\<close> inside an f-string\<close>
  "fmt_int x = (case x of None \<Rightarrow> ''None'' | Some i \<Rightarrow> int_str i)"

definition fmt_str :: "string option \<Rightarrow> string" where
  "fmt_str x = (case x of None \<Rightarrow> ''None'' | Some s \<Rightarrow> s)"

definition serialize_vmn_base_version ::
    "int option \<Rightarrow> int option \<Rightarrow> int option \<Rightarrow> int option \<Rightarrow> bool \<Rightarrow> string" where
  "serialize_vmn_base_version major minor patch hotfix hide_zero_hotfix =
     (let hotfix = (if hide_zero_hotfix \<and> hotfix = Some 0 then None else hotfix);
          vmn_version = fmt_int major @ ''.'' @ fmt_int minor @ ''.'' @ fmt_int patch
      in (case hotfix of None \<Rightarrow> vmn_version | Some h \<Rightarrow> vmn_version @ ''.'' @ int_str h))"

definition get_base_vmn_version :: "string \<Rightarrow> bool \<Rightarrow> string res" where
  "get_base_vmn_version some_verstr hide_zero_hotfix =
     bind_res (deserialize_vmn_version some_verstr) (\<lambda>props.
       Inr (serialize_vmn_base_version (vp_major props) (vp_minor props) (vp_patch props)
              (vp_hotfix props) hide_zero_hotfix))"

definition print_props :: "version_props \<Rightarrow> string option \<Rightarrow> int option \<Rightarrow> string option \<Rightarrow> bool
    \<Rightarrow> string option \<Rightarrow> string option \<Rightarrow> string" where
  "print_props props prerelease rcn buildmetadata hide_zero_hotfix dev_commit dev_diff_hash =
     (let vmn_version = serialize_vmn_base_version (vp_major props) (vp_minor props)
            (vp_patch props) (vp_hotfix props) hide_zero_hotfix;
          (prerelease, rcn) =
            (if vp_prerelease props \<noteq> ''release''
             then (Some (vp_prerelease props), if vp_old_ver_format props then rcn else vp_rcn props)
             else (prerelease, rcn));
          buildmetadata =
            (if vp_buildmetadata props \<noteq> None then vp_buildmetadata props else buildmetadata);
          vmn_version =
            (case prerelease of None \<Rightarrow> vmn_version
             | Some p \<Rightarrow> (case rcn of None \<Rightarrow> vmn_version @ ''-'' @ p
                         | Some r \<Rightarrow> vmn_version @ ''-'' @ p @ ''.'' @ int_str r));
          (dev_commit, dev_diff_hash) =
            (if vp_dev_commit props \<noteq> None
             then (vp_dev_commit props, vp_dev_diff_hash props)
             else (dev_commit, dev_diff_hash));
          vmn_version =
            (case dev_commit of None \<Rightarrow> vmn_version
             | Some c \<Rightarrow> vmn_version @ ''-dev.'' @ c @ ''.'' @ fmt_str dev_diff_hash)
      in (case buildmetadata of None \<Rightarrow> vmn_version | Some b \<Rightarrow> vmn_version @ ''+'' @ b))"

definition serialize_vmn_version :: "string \<Rightarrow> string option \<Rightarrow> int option \<Rightarrow> string option \<Rightarrow> bool
    \<Rightarrow> string option \<Rightarrow> string option \<Rightarrow> string res" where
  "serialize_vmn_version base_verstr prerelease rcn buildmetadata hide_zero_hotfix dev_commit
       dev_diff_hash =
     bind_res (deserialize_vmn_version base_verstr) (\<lambda>props.
       Inr (print_props props prerelease rcn buildmetadata hide_zero_hotfix dev_commit
              dev_diff_hash))"

abbreviation reserialize :: "string \<Rightarrow> bool \<Rightarrow> string res" where
  "reserialize v hide \<equiv> serialize_vmn_version v None None None hide None None"

section \<open>Tags\<close>

definition deserialize_tag_name :: "string \<Rightarrow> tag_props res" where
  "deserialize_tag_name some_tag =
     bind_res
       (case re_search VMN_ROOT_TAG_REGEX some_tag of
          Some m \<Rightarrow> Inr (m_env m ''app_name'', False)
        | None \<Rightarrow>
            (case re_search VMN_TAG_REGEX some_tag of
               Some m \<Rightarrow> Inr (m_env m ''app_name'', False)
             | None \<Rightarrow>
                 (case re_search VMN_OLD_TAG_REGEX some_tag of
                    None \<Rightarrow> Inl WrongTagFormat
                  | Some m \<Rightarrow> Inr (m_env m ''app_name'', True)))) (\<lambda>(grp, old_tag_format).
     bind_res (case grp of None \<Rightarrow> Inl TypeErr | Some g \<Rightarrow> Inr (tag_name_to_app_name g)) (\<lambda>app_name.
       let res = app_name_to_tag_name app_name;
           pieces = split_str (res @ ''_'') some_tag
       in if length pieces \<le> 1 then Inl IndexErr
          else bind_res (deserialize_vmn_version (pieces ! 1)) (\<lambda>v.
            Inr (version_props.extend (v\<lparr>vp_dev_run := None\<rparr>)
                   \<lparr>tp_app_name = Some app_name, tp_old_tag_format = old_tag_format,
                    tp_verstr = Some (pieces ! 1)\<rparr>))))"

text \<open>\<open>TagProps\<close> is built without \<open>dev_run\<close>, which keeps its default.\<close>

definition serialize_vmn_tag_name :: "string \<Rightarrow> string \<Rightarrow> string res" where
  "serialize_vmn_tag_name app_name verstr =
     (let tag_app_name = app_name_to_tag_name app_name;
          tag_name = tag_app_name @ ''_'' @ verstr;
          attempt =
            bind_res (deserialize_tag_name tag_name) (\<lambda>props.
              if vp_hotfix props = Some 0
              then bind_res (reserialize verstr True) (\<lambda>v.
                     bind_res (deserialize_tag_name (tag_app_name @ ''_'' @ v)) (\<lambda>_.
                       Inr (tag_app_name @ ''_'' @ v)))
              else Inr tag_name)
      in (case attempt of Inl _ \<Rightarrow> Inl RuntimeErr | Inr t \<Rightarrow> Inr t))"

section \<open>The display template\<close>

text \<open>
  \<open>str.format\<close> with named fields: doubled braces are literal braces, a field name that is
  not an argument raises \<open>KeyError\<close>, an empty or numeric one \<open>IndexError\<close>, an unbalanced
  brace \<open>ValueError\<close>. Conversions, format specifications and attribute access inside a
  field are not modelled; they raise \<open>ValueError\<close> here.
\<close>

definition field_char_bad :: "char \<Rightarrow> bool" where
  "field_char_bad c = (c \<in> set ''!:.[{'')"

function py_format :: "(string \<rightharpoonup> string) \<Rightarrow> string \<Rightarrow> string res" where
  "py_format d s =
     (case s of
        [] \<Rightarrow> Inr []
      | c # t \<Rightarrow>
          if c = CHR ''{'' then
            (if t \<noteq> [] \<and> hd t = CHR ''{''
             then bind_res (py_format d (tl t)) (\<lambda>r. Inr (CHR ''{'' # r))
             else (let name = takeWhile (\<lambda>x. x \<noteq> CHR ''}'') t;
                       rest = dropWhile (\<lambda>x. x \<noteq> CHR ''}'') t
                   in if rest = [] \<or> list_ex field_char_bad name then Inl ValueErr
                      else if name = [] \<or> all_digits name then Inl IndexErr
                      else (case d name of
                              None \<Rightarrow> Inl KeyErr
                            | Some v \<Rightarrow> bind_res (py_format d (tl rest)) (\<lambda>r. Inr (v @ r)))))
          else if c = CHR ''}'' then
            (if t \<noteq> [] \<and> hd t = CHR ''}''
             then bind_res (py_format d (tl t)) (\<lambda>r. Inr (CHR ''}'' # r))
             else Inl ValueErr)
          else bind_res (py_format d t) (\<lambda>r. Inr (c # r)))"
  by pat_completeness auto
termination
  by (relation "measure (\<lambda>(d, s). length s)")
    (auto simp: less_Suc_eq_le intro: le_trans [OF _ length_dropWhile_le] diff_le_self)

declare py_format.simps [simp del]

type_synonym template = "string \<rightharpoonup> string"

definition octat_val :: "version_props \<Rightarrow> string \<Rightarrow> string option" where
  \<comment> \<open>\<open>getattr(props, octat)\<close>, printed\<close>
  "octat_val props octat =
     (if octat = ''major'' then map_option int_str (vp_major props)
      else if octat = ''minor'' then map_option int_str (vp_minor props)
      else if octat = ''patch'' then map_option int_str (vp_patch props)
      else if octat = ''hotfix'' then map_option int_str (vp_hotfix props)
      else if octat = ''prerelease'' then Some (vp_prerelease props)
      else if octat = ''rcn'' then map_option int_str (vp_rcn props)
      else if octat = ''buildmetadata'' then vp_buildmetadata props
      else None)"

fun format_octats :: "version_props \<Rightarrow> template \<Rightarrow> string list \<Rightarrow> string \<Rightarrow> string res" where
  "format_octats props template [] acc = Inr acc"
| "format_octats props template (octat # octats) acc =
     (case octat_val props octat of
        None \<Rightarrow> format_octats props template octats acc
      | Some val \<Rightarrow>
          (case template (octat @ ''_template'') of
             None \<Rightarrow> format_octats props template octats acc
           | Some tmpl \<Rightarrow>
               if octat = ''rcn'' \<and> vp_old_ver_format props
               then format_octats props template octats acc
               else if octat = ''prerelease'' \<and> val = ''release''
               then format_octats props template octats acc
               else bind_res (py_format [octat \<mapsto> val] tmpl) (\<lambda>f.
                      format_octats props template octats (acc @ f))))"

definition OCTATS :: "string list" where
  "OCTATS = [''major'', ''minor'', ''patch'', ''hotfix'', ''prerelease'', ''rcn'', ''buildmetadata'']"

definition get_utemplate_formatted_version :: "string \<Rightarrow> template \<Rightarrow> bool \<Rightarrow> string res" where
  "get_utemplate_formatted_version raw_vmn_version template hide_zero_hotfix =
     bind_res (deserialize_vmn_version raw_vmn_version) (\<lambda>props.
     let props = (if vp_hotfix props = Some 0 \<and> hide_zero_hotfix
                  then props\<lparr>vp_hotfix := None\<rparr> else props)
     in bind_res (format_octats props template OCTATS []) (\<lambda>formatted_version.
          case (vp_dev_commit props, template ''dev_commit_template'') of
            (Some c, Some tmpl) \<Rightarrow>
              bind_res (py_format [''dev_commit'' \<mapsto> c,
                                   ''dev_diff_hash'' \<mapsto> fmt_str (vp_dev_diff_hash props)] tmpl)
                (\<lambda>f. Inr (formatted_version @ f))
          | _ \<Rightarrow> Inr formatted_version))"

definition parse_template :: "string \<Rightarrow> template res" where
  "parse_template template =
     (case re_search VMN_TEMPLATE_REGEX template of
        None \<Rightarrow> Inl RuntimeErr
      | Some m \<Rightarrow> Inr (m_env m))"

section \<open>Commits and release modes\<close>

definition parse_conventional_commit_message :: "string \<Rightarrow> genv res" where
  "parse_conventional_commit_message message =
     (case re_match_at_start CONVENTIONAL_COMMIT_PATTERN message of
        Some m \<Rightarrow> Inr (m_env m)
      | None \<Rightarrow> Inl ValueErr)"

definition version_map :: "string \<rightharpoonup> nat" where
  "version_map = [''major'' \<mapsto> 3, ''minor'' \<mapsto> 2, ''patch'' \<mapsto> 1, ''hotfix'' \<mapsto> 0, ''micro'' \<mapsto> 0]"

definition compare_release_modes :: "string \<Rightarrow> string \<Rightarrow> bool res" where
  "compare_release_modes r1 r2 =
     (case (version_map r1, version_map r2) of
        (Some a, Some b) \<Rightarrow> Inr (b \<le> a)
      | _ \<Rightarrow> Inl KeyErr)"

end
