(* ===== verification/Data_Values.thy ===== *)
theory Data_Values
imports Prelude
begin

text \<open>
  The untyped values the program reads from and writes to YAML and JSON files and keeps in its
  nested dictionaries: tag messages, conf files, records. A dictionary is an association list in
  insertion order. Reading a missing key raises, as \<open>d[k]\<close> does, and indexing something that is
  not a dictionary raises a type error.
\<close>

datatype yv =
    YNull
  | YBool bool
  | YInt int
  | YStr string
  | YList "yv list"
  | YMap "(string \<times> yv) list"

definition yget :: "yv \<Rightarrow> string \<Rightarrow> yv res" where
  \<comment> \<open>\<open>d[k]\<close>\<close>
  "yget d k = (case d of
       YMap m \<Rightarrow> (case map_of m k of None \<Rightarrow> Inl KeyErr | Some v \<Rightarrow> Inr v)
     | _ \<Rightarrow> Inl TypeErr)"

definition yfind :: "yv \<Rightarrow> string \<Rightarrow> yv option" where
  \<comment> \<open>\<open>d.get(k)\<close> guarded by \<open>isinstance(d, dict)\<close>: nothing for any other value\<close>
  "yfind d k = (case d of YMap m \<Rightarrow> map_of m k | _ \<Rightarrow> None)"

definition is_map :: "yv \<Rightarrow> bool" where
  "is_map d = (case d of YMap _ \<Rightarrow> True | _ \<Rightarrow> False)"

definition yput :: "yv \<Rightarrow> string \<Rightarrow> yv \<Rightarrow> yv res" where
  \<comment> \<open>\<open>d[k] = v\<close>\<close>
  "yput d k v = (case d of YMap m \<Rightarrow> Inr (YMap (od_put k v m)) | _ \<Rightarrow> Inl TypeErr)"

fun ypath :: "yv \<Rightarrow> string list \<Rightarrow> yv res" where
  \<comment> \<open>\<open>d[k1][k2]...\<close>\<close>
  "ypath d [] = Inr d"
| "ypath d (k # ks) = bind_res (yget d k) (\<lambda>v. ypath v ks)"

fun yput_path :: "yv \<Rightarrow> string list \<Rightarrow> yv \<Rightarrow> yv res" where
  \<comment> \<open>\<open>d[k1]...[kn] = v\<close>: every inner dictionary has to exist\<close>
  "yput_path d [] v = Inr v"
| "yput_path d [k] v = yput d k v"
| "yput_path d (k # l # ks) v =
     bind_res (yget d k) (\<lambda>i. bind_res (yput_path i (l # ks) v) (\<lambda>j. yput d k j))"

definition truthy :: "yv \<Rightarrow> bool" where
  \<comment> \<open>\<open>bool(v)\<close>\<close>
  "truthy v = (case v of YNull \<Rightarrow> False | YBool b \<Rightarrow> b | YInt i \<Rightarrow> i \<noteq> 0 | YStr s \<Rightarrow> s \<noteq> []
     | YList xs \<Rightarrow> xs \<noteq> [] | YMap m \<Rightarrow> m \<noteq> [])"

definition ystr :: "yv \<Rightarrow> string option" where
  "ystr v = (case v of YStr s \<Rightarrow> Some s | _ \<Rightarrow> None)"

lemma yget_simps [simp]:
  "yget (YMap m) k = (case map_of m k of None \<Rightarrow> Inl KeyErr | Some v \<Rightarrow> Inr v)"
  "yput (YMap m) k v = Inr (YMap (od_put k v m))"
  "yfind (YMap m) k = map_of m k"
  "is_map (YMap m)"
  by (simp_all add: yget_def yput_def yfind_def is_map_def)

lemma yget_Inr_iff: "yget d k = Inr v \<longleftrightarrow> (\<exists>m. d = YMap m \<and> map_of m k = Some v)"
  by (cases d) (auto simp: yget_def split: option.splits)

lemma yput_Inr_iff: "yput d k v = Inr e \<longleftrightarrow> (\<exists>m. d = YMap m \<and> e = YMap (od_put k v m))"
  by (cases d) (auto simp: yput_def)

lemma yget_yput: "yput d k v = Inr e \<Longrightarrow> yget e l = (if l = k then Inr v else yget d l)"
  by (auto simp: yput_Inr_iff)

text \<open>Reading along a path after writing along one.\<close>

lemma ypath_yput_path: "yput_path d ks v = Inr e \<Longrightarrow> ypath e ks = Inr v"
proof (induction d ks v arbitrary: e rule: yput_path.induct)
  case (2 d k v)
  then show ?case by (auto simp: yput_Inr_iff)
next
  case (3 d k l ks v)
  from 3(2) obtain i j where "yget d k = Inr i" "yput_path i (l # ks) v = Inr j" "yput d k j = Inr e"
    by auto
  then show ?case using 3(1) yget_yput by fastforce
qed simp

lemma ypath_yput_path_other:
  "yput_path d (k # ks) v = Inr e \<Longrightarrow> l \<noteq> k \<Longrightarrow> ypath e (l # ls) = ypath d (l # ls)"
proof -
  assume "yput_path d (k # ks) v = Inr e" "l \<noteq> k"
  then obtain j where "yput d k j = Inr e" by (cases ks) auto
  then show ?thesis using yget_yput [of d k j e l] \<open>l \<noteq> k\<close> by simp
qed

end
