(* ===== verification/Core_Utils.thy ===== *)
theory Core_Utils
imports Data_Values
begin

text \<open>
  The pure helpers of core/utils.py: credentials in remote URLs, path components, managed
  marker blocks, branch names and the layouts of branch configuration files.
\<close>

section \<open>Credentials in URLs\<close>

definition is_alpha :: "char \<Rightarrow> bool" where
  "is_alpha c = (in_range c (CHR ''A'', CHR ''Z'') \<or> in_range c (CHR ''a'', CHR ''z''))"

definition scheme_char :: "char \<Rightarrow> bool" where
  "scheme_char c = (is_alpha c \<or> is_digit c \<or> c \<in> {CHR ''+'', CHR ''.'', CHR ''-''})"

definition authority_char :: "char \<Rightarrow> bool" where
  "authority_char c = (c \<notin> {CHR ''/'', CHR ''?'', CHR ''#''})"

definition url_match :: "string \<Rightarrow> (string \<times> string \<times> string) option" where
  \<comment> \<open>\<open>_URL_RE.match\<close>: the scheme cannot hold a colon and the authority stops at the first
    delimiter, so the pattern has one reading at most\<close>
  "url_match url =
     (let scheme = takeWhile scheme_char url; r = dropWhile scheme_char url
      in if scheme \<noteq> [] \<and> is_alpha (hd scheme) \<and> starts_with ''://'' r
         then Some (scheme, takeWhile authority_char (drop 3 r), dropWhile authority_char (drop 3 r))
         else None)"

definition ssh_schemes :: "string set" where
  "ssh_schemes = {''ssh'', ''git+ssh'', ''ssh+git''}"

definition is_ssh :: "string \<Rightarrow> bool" where
  "is_ssh scheme = (str_lower scheme \<in> ssh_schemes)"

definition strip_url_credentials :: "string \<Rightarrow> string" where
  "strip_url_credentials url =
     (case url_match url of
        None \<Rightarrow> url
      | Some (scheme, authority, rest) \<Rightarrow>
          if CHR ''@'' \<notin> set authority then url
          else (case rpartition_char CHR ''@'' authority of (userinfo, _, host) \<Rightarrow>
             let user = fst (partition_char CHR '':'' userinfo);
                 host = (if user \<noteq> [] \<and> is_ssh scheme then user @ ''@'' @ host else host)
             in scheme @ ''://'' @ host @ rest))"

definition borrow_credentials :: "string \<Rightarrow> string \<Rightarrow> string" where
  "borrow_credentials url donor =
     (case (url_match url, url_match donor) of
        (Some (scheme, host, rest), Some (donor_scheme, donor_authority, _)) \<Rightarrow>
          if CHR ''@'' \<in> set host then url
          else (case rpartition_char CHR ''@'' donor_authority of (userinfo, at, donor_host) \<Rightarrow>
             if \<not> at \<or> userinfo = [] \<or> str_lower scheme \<noteq> str_lower donor_scheme
                \<or> is_ssh scheme \<or> str_lower host \<noteq> str_lower donor_host
             then url
             else scheme @ ''://'' @ userinfo @ ''@'' @ host @ rest)
      | _ \<Rightarrow> url)"

definition strip_value :: "yv \<Rightarrow> yv" where
  \<comment> \<open>\<open>strip_url_credentials\<close> on any value: only a string changes\<close>
  "strip_value v = (case v of YStr s \<Rightarrow> YStr (strip_url_credentials s) | _ \<Rightarrow> v)"

definition redact_remote :: "yv \<Rightarrow> yv" where
  "redact_remote entry =
     (case entry of
        YMap m \<Rightarrow> (case map_of m ''remote'' of
                     None \<Rightarrow> entry
                   | Some r \<Rightarrow> YMap (od_put ''remote'' (strip_value r) m))
      | _ \<Rightarrow> entry)"

definition redact_changesets :: "(string \<times> yv) list \<Rightarrow> (string \<times> yv) list" where
  "redact_changesets changesets = map (\<lambda>(path, info). (path, redact_remote info)) changesets"

definition redact_record_remotes :: "yv \<Rightarrow> yv" where
  "redact_record_remotes metadata =
     (case metadata of
        YMap m \<Rightarrow>
          (let redacted = redact_remote metadata
           in (case (map_of m ''changesets'', redacted) of
                 (Some (YMap cs), YMap r) \<Rightarrow> YMap (od_put ''changesets'' (YMap (redact_changesets cs)) r)
               | _ \<Rightarrow> redacted))
      | _ \<Rightarrow> metadata)"

definition parse_record_metadata :: "(string \<Rightarrow> yv option) \<Rightarrow> string option \<Rightarrow> yv option" where
  \<comment> \<open>the first argument is the YAML loader, \<open>None\<close> where it raises \<open>YAMLError\<close>\<close>
  "parse_record_metadata yaml_load raw =
     (case raw of
        None \<Rightarrow> None
      | Some text \<Rightarrow>
          if text = [] then None
          else (case yaml_load text of
                  None \<Rightarrow> None
                | Some meta \<Rightarrow> if yfind meta ''verstr'' = None then None
                               else Some (redact_record_remotes meta)))"

definition conf_mapping :: "yv \<Rightarrow> (string \<times> yv) list" where
  "conf_mapping data = (case yfind data ''conf'' of Some (YMap conf) \<Rightarrow> conf | _ \<Rightarrow> [])"

section \<open>Path components\<close>

definition valid_path_component :: "string \<Rightarrow> bool" where
  "valid_path_component name =
     (name \<noteq> [] \<and> name \<noteq> ''.''
      \<and> \<not> list_ex (\<lambda>bad. contains_str bad name) [''/'', [CHR 0x5C], ''/'', [CHR 0x00], ''..''])"

definition valid_app_path :: "string \<Rightarrow> bool" where
  "valid_app_path app_name =
     (app_name \<noteq> [] \<and> list_all valid_path_component (split_char CHR ''/'' app_name))"

definition path_join :: "string \<Rightarrow> string \<Rightarrow> string" where
  \<comment> \<open>\<open>os.path.join(a, b)\<close> on POSIX\<close>
  "path_join a b =
     (if starts_with ''/'' b then b
      else if a = [] \<or> last a = CHR ''/'' then a @ b else a @ ''/'' @ b)"

section \<open>Managed marker blocks\<close>

function str_count :: "string \<Rightarrow> string \<Rightarrow> nat" where
  \<comment> \<open>\<open>s.count(sub)\<close> for a non-empty \<open>sub\<close>: occurrences that do not overlap\<close>
  "str_count sub s =
     (case s of [] \<Rightarrow> 0
      | c # cs \<Rightarrow> if sub \<noteq> [] \<and> starts_with sub s then Suc (str_count sub (drop (length sub) s))
                  else str_count sub cs)"
  by pat_completeness auto
termination
  by (relation "measure (\<lambda>(sub, s). length s)") auto

declare str_count.simps [simp del]

fun str_index :: "string \<Rightarrow> string \<Rightarrow> nat option" where
  \<comment> \<open>\<open>s.index(sub)\<close>, \<open>None\<close> where it raises\<close>
  "str_index sub [] = (if sub = [] then Some 0 else None)"
| "str_index sub (c # cs) =
     (if starts_with sub (c # cs) then Some 0 else map_option Suc (str_index sub cs))"

definition marked_block_span :: "string \<Rightarrow> string \<Rightarrow> string \<Rightarrow> (nat \<times> nat) option res" where
  "marked_block_span content begin end =
     (let counts = (str_count begin content, str_count end content)
      in if counts = (0, 0) then Inr None
         else if counts \<noteq> (1, 1) then Inl ValueErr
         else (case (str_index begin content, str_index end content) of
                 (Some start, Some end_start) \<Rightarrow>
                   if end_start < start then Inl ValueErr
                   else Inr (Some (start, end_start + length end))
               | _ \<Rightarrow> Inl ValueErr))"

definition rstrip_newlines :: "string \<Rightarrow> string" where
  \<comment> \<open>\<open>s.rstrip("\<backslash>n")\<close>\<close>
  "rstrip_newlines s = rev (dropWhile (\<lambda>c. c = CHR 0x0A) (rev s))"

definition upsert_marked_block :: "string \<Rightarrow> string \<Rightarrow> string \<Rightarrow> string \<Rightarrow> (string \<times> string) res" where
  "upsert_marked_block content begin end block =
     bind_res (marked_block_span content begin end) (\<lambda>span.
       let (new, verb) =
         (case span of
            Some (a, b) \<Rightarrow> (take a content @ block @ drop b content, ''Updated'')
          | None \<Rightarrow>
              if str_strip content \<noteq> []
              then (strip_right content @ [CHR 0x0A, CHR 0x0A] @ block, ''Appended'')
              else (block, ''Wrote''))
       in Inr (rstrip_newlines new @ [CHR 0x0A], verb))"

definition clean_split_result :: "string list \<Rightarrow> string list" where
  "clean_split_result items = (if items = [[]] then [] else items)"

section \<open>Branches\<close>

definition branch_to_conf_prefix :: "string \<Rightarrow> string" where
  "branch_to_conf_prefix branch_name = replace_char CHR ''/'' CHR ''-'' branch_name"

definition conf_basename :: "bool \<Rightarrow> string" where
  "conf_basename root = (if root then ''root_conf.yml'' else ''conf.yml'')"

definition is_island_branch :: "string \<Rightarrow> bool" where
  "is_island_branch branch = (branch \<noteq> [] \<and> starts_with ''island/'' branch)"

definition is_legacy_tracking_branch :: "string \<Rightarrow> bool" where
  "is_legacy_tracking_branch branch = (branch \<noteq> [] \<and> starts_with ''vmn_tracking_remote__'' branch)"

definition legacy_tracking_branch_name :: "string \<Rightarrow> string \<Rightarrow> string" where
  "legacy_tracking_branch_name remote_ref hexsha =
     ''vmn_tracking_remote__'' @ replace_char CHR ''/'' CHR ''_'' remote_ref @ ''__from_'' @ take 5 hexsha"

definition one_line_reason :: "string \<Rightarrow> string" where
  "one_line_reason msg = str_strip (replace_char (CHR 0x0A) CHR '' '' msg)"

definition branch_conf_canonical_path :: "string \<Rightarrow> string \<Rightarrow> bool \<Rightarrow> string" where
  "branch_conf_canonical_path app_dir_path branch root =
     path_join (path_join (path_join app_dir_path ''branch_conf'') branch) (conf_basename root)"

definition branch_conf_flat_path :: "string \<Rightarrow> string \<Rightarrow> bool \<Rightarrow> string" where
  "branch_conf_flat_path app_dir_path branch root =
     path_join app_dir_path (branch_to_conf_prefix branch @ ''_'' @ conf_basename root)"

definition branch_conf_legacy_path :: "string \<Rightarrow> string \<Rightarrow> bool \<Rightarrow> string" where
  "branch_conf_legacy_path app_dir_path branch root =
     (let segments = split_char CHR ''/'' branch
      in path_join (foldl path_join app_dir_path (butlast segments))
           (last segments @ ''_'' @ conf_basename root))"

definition resolve_branch_conf_path ::
    "(string \<Rightarrow> bool) \<Rightarrow> string \<Rightarrow> string \<Rightarrow> bool \<Rightarrow> string \<times> string option" where
  \<comment> \<open>the first argument is \<open>os.path.isfile\<close>\<close>
  "resolve_branch_conf_path isfile app_dir_path branch root =
     (let default = (path_join app_dir_path (conf_basename root), None);
          c = branch_conf_canonical_path app_dir_path branch root;
          f = branch_conf_flat_path app_dir_path branch root;
          l = branch_conf_legacy_path app_dir_path branch root
      in if branch = [] then default
         else if isfile c then (c, Some ''canonical'')
         else if isfile f then (f, Some ''flat'')
         else if isfile l then (l, Some ''legacy'')
         else default)"

section \<open>Lemmas about URLs\<close>

lemma url_match_Some_iff: "url_match url = Some (s, a, r) \<longleftrightarrow>
    url = s @ ''://'' @ a @ r \<and> s \<noteq> [] \<and> is_alpha (hd s) \<and> list_all scheme_char s
    \<and> list_all authority_char a \<and> (r = [] \<or> \<not> authority_char (hd r))" (is "?L \<longleftrightarrow> ?R")
proof
  assume ?L
  then have s: "s = takeWhile scheme_char url" "s \<noteq> []" "is_alpha (hd s)"
    and st: "starts_with ''://'' (dropWhile scheme_char url)"
    and a: "a = takeWhile authority_char (drop 3 (dropWhile scheme_char url))"
    and r: "r = dropWhile authority_char (drop 3 (dropWhile scheme_char url))"
    by (auto simp: url_match_def Let_def split: if_splits)
  from st obtain t where t: "dropWhile scheme_char url = ''://'' @ t" by (auto simp: starts_with_iff)
  then have ar: "a = takeWhile authority_char t" "r = dropWhile authority_char t" using a r by simp_all
  have "url = s @ ''://'' @ a @ r"
    using takeWhile_dropWhile_id [of scheme_char url] t unfolding s(1) ar by simp
  moreover have "list_all scheme_char s" "list_all authority_char a"
    unfolding s(1) ar(1) by (auto simp: list_all_iff dest: set_takeWhileD)
  moreover have "r = [] \<or> \<not> authority_char (hd r)" unfolding ar(2) using hd_dropWhile by blast
  ultimately show ?R using s by blast
next
  assume R: ?R
  have sc: "\<not> scheme_char CHR '':''" by (simp add: scheme_char_def is_alpha_def in_range_def is_digit_def)
  have u: "url = s @ CHR '':'' # ''//'' @ a @ r" using R by simp
  have "takeWhile scheme_char url = s" "dropWhile scheme_char url = ''://'' @ a @ r"
    using R sc unfolding u by (auto simp: takeWhile_append dropWhile_append list_all_iff)
  moreover have "takeWhile authority_char (a @ r) = a" "dropWhile authority_char (a @ r) = r"
    using R by (cases r; auto simp: takeWhile_append dropWhile_append list_all_iff)+
  ultimately show ?L using R by (simp add: url_match_def)
qed

lemma rpartition_char_found:
  assumes "c \<in> set w"
  obtains u h where "rpartition_char c w = (u, True, h)" "w = u @ c # h" "c \<notin> set h"
proof -
  obtain u h where w: "w = u @ c # h" "c \<notin> set h" using assms by (metis split_list_last)
  then have "takeWhile (\<lambda>x. x \<noteq> c) (rev w) = rev h" "dropWhile (\<lambda>x. x \<noteq> c) (rev w) = c # rev u"
    by (auto simp: takeWhile_append dropWhile_append)
  then have "rpartition_char c w = (u, True, h)" by (simp add: rpartition_char_def)
  then show ?thesis using that w by blast
qed

lemma rpartition_char_at: "c \<notin> set h \<Longrightarrow> rpartition_char c (u @ c # h) = (u, True, h)"
proof -
  assume h: "c \<notin> set h"
  obtain u' h' where r: "rpartition_char c (u @ c # h) = (u', True, h')"
      "u @ c # h = u' @ c # h'" "c \<notin> set h'"
    by (rule rpartition_char_found [of c "u @ c # h"]) simp
  then show ?thesis using append_single_split [OF r(2) h r(3)] by simp
qed

lemma rpartition_char_none: "c \<notin> set w \<Longrightarrow> rpartition_char c w = ([], False, w)"
proof -
  assume "c \<notin> set w"
  then have "dropWhile (\<lambda>x. x \<noteq> c) (rev w) = []" by (auto simp: dropWhile_eq_Nil_conv)
  then show ?thesis unfolding rpartition_char_def Let_def by (simp only: list.case)
qed

definition kept_user :: "string \<Rightarrow> string \<Rightarrow> string" where
  "kept_user scheme userinfo = (let user = takeWhile (\<lambda>c. c \<noteq> CHR '':'') userinfo
     in if user \<noteq> [] \<and> is_ssh scheme then user @ ''@'' else [])"

lemma partition_char_fst: "fst (partition_char c s) = takeWhile (\<lambda>x. x \<noteq> c) s"
proof (cases "dropWhile (\<lambda>x. x \<noteq> c) s")
  case Nil
  then have "takeWhile (\<lambda>x. x \<noteq> c) s = s" by (metis append_Nil2 takeWhile_dropWhile_id)
  then show ?thesis unfolding partition_char_def Let_def Nil list.case fst_conv by (rule sym)
qed (simp add: partition_char_def)

lemma strip_at:
  assumes "url_match url = Some (s, u @ CHR ''@'' # h, r)" "CHR ''@'' \<notin> set h"
  shows "strip_url_credentials url = s @ ''://'' @ kept_user s u @ h @ r"
  using assms by (simp add: strip_url_credentials_def rpartition_char_at partition_char_fst
      kept_user_def Let_def)

lemma strip_none: "url_match url = None \<Longrightarrow> strip_url_credentials url = url"
  by (simp add: strip_url_credentials_def)

lemma strip_no_at: "url_match url = Some (s, a, r) \<Longrightarrow> CHR ''@'' \<notin> set a \<Longrightarrow> strip_url_credentials url = url"
  by (simp add: strip_url_credentials_def)

lemma authority_at [simp]: "authority_char CHR ''@''" by (simp add: authority_char_def)

lemma kept_user_authority: "list_all authority_char u \<Longrightarrow> list_all authority_char (kept_user s u)"
  by (auto simp: kept_user_def Let_def list_all_iff dest: set_takeWhileD)

lemma url_match_cases:
  obtains (none) "url_match url = None"
  | (plain) s a r where "url_match url = Some (s, a, r)" "CHR ''@'' \<notin> set a"
  | (user) s u h r where "url_match url = Some (s, u @ CHR ''@'' # h, r)" "CHR ''@'' \<notin> set h"
proof (cases "url_match url")
  case (Some x)
  then obtain s a r where x: "url_match url = Some (s, a, r)" by (cases x) auto
  show ?thesis
  proof (cases "CHR ''@'' \<in> set a")
    case True
    then show ?thesis using x that(3) by (metis split_list_last)
  qed (use x that(2) in blast)
qed (rule that(1))

lemma strip_matches:
  assumes "url_match url = Some (s, u @ CHR ''@'' # h, r)" "CHR ''@'' \<notin> set h"
  shows "url_match (strip_url_credentials url) = Some (s, kept_user s u @ h, r)"
  using assms kept_user_authority unfolding strip_at [OF assms] by (auto simp: url_match_Some_iff)

lemma kept_user_again: "kept_user s (takeWhile (\<lambda>c. c \<noteq> CHR '':'') u) = kept_user s u"
  by (simp add: kept_user_def takeWhile_idem)


text \<open>
  A URL stripped of its credentials holds no password and, unless it is an ssh URL, no
  user information at all; stripping it once more changes nothing.
\<close>

theorem strip_url_credentials_safe:
  "strip_url_credentials (strip_url_credentials url) = strip_url_credentials url
   \<and> (case url_match (strip_url_credentials url) of
        None \<Rightarrow> True
      | Some (s, a, r) \<Rightarrow> if is_ssh s then CHR '':'' \<notin> set (fst (rpartition_char CHR ''@'' a))
                          else CHR ''@'' \<notin> set a)"
proof (cases url rule: url_match_cases)
  case none
  then show ?thesis by (simp add: strip_none)
next
  case (plain s a r)
  then show ?thesis by (simp add: strip_no_at rpartition_char_none)
next
  case (user s u h r)
  let ?v = "strip_url_credentials url"
  note m = strip_matches [OF user]
  show ?thesis
  proof (cases "kept_user s u = []")
    case True
    then have "url_match ?v = Some (s, h, r)" using m by simp
    then show ?thesis using user(2) strip_no_at [of ?v] by (simp add: rpartition_char_none)
  next
    case False
    let ?u = "takeWhile (\<lambda>c. c \<noteq> CHR '':'') u"
    have k: "kept_user s u = ?u @ ''@''" "is_ssh s"
      using False by (auto simp: kept_user_def Let_def split: if_splits)
    then have m': "url_match ?v = Some (s, ?u @ CHR ''@'' # h, r)" using m by simp
    have "strip_url_credentials ?v = ?v"
      using strip_at [OF m' user(2)] strip_at [OF user] by (simp add: kept_user_again)
    moreover have "CHR '':'' \<notin> set ?u" by (auto dest: set_takeWhileD)
    ultimately show ?thesis using m' k(2) user(2) by (simp add: rpartition_char_at)
  qed
qed

text \<open>
  Borrowing the credentials of a remote never changes what a URL denotes: stripped again, it
  is the stripped original, whatever the donor was.
\<close>

theorem strip_borrowed_credentials:
  "strip_url_credentials (borrow_credentials url donor) = strip_url_credentials url"
proof (cases "borrow_credentials url donor = url")
  case False
  then obtain s h r t a q where m: "url_match url = Some (s, h, r)" "url_match donor = Some (t, a, q)"
    by (auto simp: borrow_credentials_def split: option.splits)
  with False have h: "CHR ''@'' \<notin> set h" by (auto simp: borrow_credentials_def)
  have a: "CHR ''@'' \<in> set a"
  proof (rule ccontr)
    assume "CHR ''@'' \<notin> set a"
    then have "borrow_credentials url donor = url" using m h by (simp add: borrow_credentials_def rpartition_char_none)
    then show False using False by simp
  qed
  obtain u d where ud: "rpartition_char CHR ''@'' a = (u, True, d)" "a = u @ CHR ''@'' # d"
    using a by (metis rpartition_char_found)
  with m False h have b: "borrow_credentials url donor = s @ ''://'' @ u @ ''@'' @ h @ r" "\<not> is_ssh s"
    by (auto simp: borrow_credentials_def split: if_splits)
  have "list_all authority_char u" using m(2) ud(2) by (simp add: url_match_Some_iff)
  then have "url_match (borrow_credentials url donor) = Some (s, u @ CHR ''@'' # h, r)"
    using m(1) b(1) by (auto simp: url_match_Some_iff)
  then have "strip_url_credentials (borrow_credentials url donor) = s @ ''://'' @ kept_user s u @ h @ r"
    using h by (rule strip_at)
  also have "\<dots> = url" using m(1) b(2) by (simp add: kept_user_def Let_def url_match_Some_iff)
  finally show ?thesis using strip_no_at [OF m(1) h] by simp
qed simp


section \<open>Marker blocks\<close>

lemma starts_with_cut: "c \<notin> set p \<Longrightarrow> starts_with p (x @ c # y) = starts_with p x"
  by (induction p x rule: starts_with.induct) auto

lemma starts_with_drop: "starts_with p x \<Longrightarrow> drop (length p) (x @ y) = drop (length p) x @ y"
  by (auto simp: starts_with_iff)

text \<open>A character the searched text does not hold cuts every occurrence in two.\<close>

lemma str_count_Nil [simp]: "str_count sub [] = 0"
  by (simp add: str_count.simps)

lemma str_count_hit: "sub \<noteq> [] \<Longrightarrow> starts_with sub s \<Longrightarrow> str_count sub s = Suc (str_count sub (drop (length sub) s))"
  by (cases s) (auto simp: str_count.simps [of sub "_ # _"] starts_with_iff)

lemma str_count_miss: "\<not> starts_with sub (c # cs) \<Longrightarrow> str_count sub (c # cs) = str_count sub cs"
  by (simp add: str_count.simps [of sub "_ # _"])

lemma str_count_cut:
  assumes "c \<notin> set sub" "sub \<noteq> []"
  shows "str_count sub (x @ c # y) = str_count sub x + str_count sub y"
proof (induction "length x" arbitrary: x rule: less_induct)
  case less
  show ?case
  proof (cases x)
    case Nil
    have "\<not> starts_with sub (c # y)" using assms by (cases sub) auto
    then show ?thesis using Nil by (simp add: str_count_miss)
  next
    case (Cons a xs)
    show ?thesis
    proof (cases "starts_with sub x")
      case True
      have "length (drop (length sub) x) < length x" using Cons assms(2) by (cases sub) auto
      note IH = less [OF this]
      have "starts_with sub (x @ c # y)" using True starts_with_cut [OF assms(1), of x y] by simp
      then have "str_count sub (x @ c # y) = Suc (str_count sub (drop (length sub) x @ c # y))"
        unfolding starts_with_drop [OF True, symmetric] by (rule str_count_hit [OF assms(2)])
      then show ?thesis using IH str_count_hit [OF assms(2) True] by simp
    next
      case False
      then have "\<not> starts_with sub (a # xs @ c # y)"
        using starts_with_cut [OF assms(1), of x y] Cons by simp
      then show ?thesis using less False Cons by (simp add: str_count_miss)
    qed
  qed
qed

lemma str_index_cut:
  assumes "c \<notin> set sub" "sub \<noteq> []"
  shows "str_index sub (x @ c # y) = (case str_index sub x of Some i \<Rightarrow> Some i
    | None \<Rightarrow> map_option (\<lambda>i. Suc (length x) + i) (str_index sub y))"
proof (induction x)
  case Nil
  have "\<not> starts_with sub (c # y)" using assms by (cases sub) auto
  then show ?case using assms by (cases "str_index sub y") auto
next
  case (Cons a x)
  have "starts_with sub (a # x @ c # y) = starts_with sub (a # x)"
    using starts_with_cut [OF assms(1), of "a # x" y] by simp
  then show ?case using Cons
    by (cases "str_index sub x"; cases "str_index sub y") (auto simp: starts_with_cut [OF assms(1)])
qed

lemma str_index_None: "str_index sub s = None \<longleftrightarrow> \<not> contains_str sub s"
  by (induction s) auto

lemma str_count_0: "sub \<noteq> [] \<Longrightarrow> str_count sub s = 0 \<longleftrightarrow> \<not> contains_str sub s"
proof (induction sub s rule: str_count.induct)
  case (1 sub s)
  show ?case
  proof (cases s)
    case (Cons c cs)
    then show ?thesis using 1 by (cases "starts_with sub s") (auto simp: str_count_hit str_count_miss)
  qed (use 1 in simp)
qed

lemma str_index_Some: "str_index sub s = Some i \<Longrightarrow> s = take i s @ sub @ drop (i + length sub) s"
proof (induction s arbitrary: i)
  case (Cons c cs)
  show ?case
  proof (cases "starts_with sub (c # cs)")
    case True
    then show ?thesis using Cons.prems by (auto simp: starts_with_iff simp del: starts_with.simps)
  next
    case False
    then obtain j where j: "str_index sub cs = Some j" "i = Suc j" using Cons.prems by auto
    then show ?thesis using Cons.IH [OF j(1)] by simp
  qed
qed (auto split: if_splits)

lemma rstrip_newlines_snoc [simp]: "rstrip_newlines (s @ [CHR 0x0A]) = rstrip_newlines s"
  by (simp add: rstrip_newlines_def)

lemma rstrip_newlines_id: "s \<noteq> [] \<Longrightarrow> last s \<noteq> CHR 0x0A \<Longrightarrow> rstrip_newlines s = s"
  by (cases s rule: rev_cases) (auto simp: rstrip_newlines_def)

definition well_marked :: "string \<Rightarrow> string \<Rightarrow> string \<Rightarrow> bool" where
  "well_marked begin end block = (marked_block_span block begin end = Inr (Some (0, length block)))"

lemma well_markedD:
  assumes "well_marked begin end block"
  obtains e where "str_count begin block = 1" "str_count end block = 1" "str_index begin block = Some 0"
    "str_index end block = Some e" "e + length end = length block"
  using assms by (auto simp: well_marked_def marked_block_span_def Let_def split: if_splits option.splits)

lemma well_marked_last:
  assumes "well_marked begin end block" "CHR 0x0A \<notin> set end" "end \<noteq> []"
  shows "block \<noteq> [] \<and> last block \<noteq> CHR 0x0A"
proof -
  obtain e where e: "str_index end block = Some e" "e + length end = length block"
    using assms(1) by (rule well_markedD)
  then have "block = take e block @ end" using str_index_Some [OF e(1)] by simp
  then show ?thesis using assms(2,3) by (metis append_is_Nil_conv last_appendR last_in_set)
qed

lemma span_None_iff: "begin \<noteq> [] \<Longrightarrow> end \<noteq> [] \<Longrightarrow> marked_block_span c begin end = Inr None \<longleftrightarrow>
    \<not> contains_str begin c \<and> \<not> contains_str end c"
  by (auto simp: marked_block_span_def Let_def str_count_0 split: option.splits if_splits)

lemma contains_prefix: "\<not> contains_str p (x @ y) \<Longrightarrow> \<not> contains_str p x"
  unfolding contains_str_iff by (metis append.assoc)

text \<open>What a fresh block leaves behind, whatever stood before it.\<close>

lemma marked_after:
  assumes b: "well_marked begin end block" "CHR 0x0A \<notin> set begin" "CHR 0x0A \<notin> set end" "begin \<noteq> []" "end \<noteq> []"
    and x: "\<not> contains_str begin x" "\<not> contains_str end x"
  shows "marked_block_span (x @ [CHR 0x0A, CHR 0x0A] @ block @ [CHR 0x0A]) begin end
    = Inr (Some (length x + 2, length x + 2 + length block))"
proof -
  obtain e where e: "str_count begin block = 1" "str_count end block = 1" "str_index begin block = Some 0"
    "str_index end block = Some e" "e + length end = length block"
    using b(1) by (rule well_markedD)
  have n: "contains_str begin [] = False" "contains_str end [] = False" using b by simp_all
  let ?c = "x @ CHR 0x0A # [] @ CHR 0x0A # block @ CHR 0x0A # []"
  have cnt: "str_count begin ?c = 1" "str_count end ?c = 1"
    using e x b unfolding str_count_cut [OF b(2,4)] str_count_cut [OF b(3,5)]
    by (simp_all add: str_count_0 [THEN iffD2])
  have i: "str_index begin x = None" "str_index end x = None" "str_index begin [] = None" "str_index end [] = None"
    using x n b by (simp_all add: str_index_None)
  have idx: "str_index begin ?c = Some (length x + 2)" "str_index end ?c = Some (length x + 2 + e)"
    unfolding str_index_cut [OF b(2,4)] str_index_cut [OF b(3,5)] i e by simp_all
  have "x @ [CHR 0x0A, CHR 0x0A] @ block @ [CHR 0x0A] = ?c" by simp
  then show ?thesis using cnt idx e(5) unfolding marked_block_span_def by simp
qed

lemma marked_alone:
  assumes b: "well_marked begin end block" "CHR 0x0A \<notin> set begin" "CHR 0x0A \<notin> set end" "begin \<noteq> []" "end \<noteq> []"
  shows "marked_block_span (block @ [CHR 0x0A]) begin end = Inr (Some (0, length block))"
proof -
  obtain e where e: "str_count begin block = 1" "str_count end block = 1" "str_index begin block = Some 0"
    "str_index end block = Some e" "e + length end = length block"
    using b(1) by (rule well_markedD)
  let ?c = "block @ CHR 0x0A # []"
  have "str_count begin ?c = 1" "str_count end ?c = 1"
    using e unfolding str_count_cut [OF b(2,4)] str_count_cut [OF b(3,5)] by simp_all
  moreover have "str_index begin ?c = Some 0" "str_index end ?c = Some e"
    unfolding str_index_cut [OF b(2,4)] str_index_cut [OF b(3,5)] e by simp_all
  ultimately show ?thesis using e(5) unfolding marked_block_span_def by simp
qed

text \<open>
  The last managed block written wins and nothing else changes: after a block was written into
  a file that held none, writing another one gives exactly the file that writing only the second
  would have given.
\<close>

theorem upsert_last_block_wins:
  assumes "marked_block_span content begin end = Inr None"
    and "well_marked begin end block" "well_marked begin end block'"
    and "CHR 0x0A \<notin> set begin" "CHR 0x0A \<notin> set end" "begin \<noteq> []" "end \<noteq> []"
  shows "\<exists>c1 c2 verb. upsert_marked_block content begin end block = Inr (c1, verb)
    \<and> upsert_marked_block content begin end block' = Inr (c2, verb)
    \<and> upsert_marked_block c1 begin end block' = Inr (c2, ''Updated'')"
proof -
  note bk = well_marked_last [OF assms(2,5,7)] well_marked_last [OF assms(3,5,7)]
  show ?thesis
  proof (cases "str_strip content = []")
    case True
    then show ?thesis using marked_alone [OF assms(2,4-7)] bk assms(1)
      by (simp add: upsert_marked_block_def rstrip_newlines_id)
  next
    case False
    obtain w where w: "content = strip_right content @ w"
      by (metis append_Nil2 rev_append rev_rev_ident strip_right_def takeWhile_dropWhile_id)
    have x: "\<not> contains_str begin (strip_right content)" "\<not> contains_str end (strip_right content)"
      using assms(1,6,7) contains_prefix w by (metis span_None_iff)+
    have r: "rstrip_newlines (strip_right content @ CHR 0x0A # CHR 0x0A # b)
        = strip_right content @ CHR 0x0A # CHR 0x0A # b" if "b \<noteq> [] \<and> last b \<noteq> CHR 0x0A" for b
      using that by (intro rstrip_newlines_id) auto
    have r': "rstrip_newlines (strip_right content @ CHR 0x0A # CHR 0x0A # b @ [CHR 0x0A])
        = strip_right content @ CHR 0x0A # CHR 0x0A # b" if "b \<noteq> [] \<and> last b \<noteq> CHR 0x0A" for b
      using r [OF that] rstrip_newlines_snoc [of "strip_right content @ CHR 0x0A # CHR 0x0A # b"] by simp
    show ?thesis using marked_after [OF assms(2,4-7) x] bk assms(1) False
      by (simp add: upsert_marked_block_def r r')
  qed
qed

theorem upsert_last_block_wins_witness:
  "\<exists>c1 c2 verb. upsert_marked_block ''keep'' ''<a>'' ''</a>'' ''<a>x</a>'' = Inr (c1, verb)
    \<and> upsert_marked_block ''keep'' ''<a>'' ''</a>'' ''<a>yy</a>'' = Inr (c2, verb)
    \<and> upsert_marked_block c1 ''<a>'' ''</a>'' ''<a>yy</a>'' = Inr (c2, ''Updated'')"
  by (rule upsert_last_block_wins) code_simp+

section \<open>Paths\<close>

text \<open>\<open>os.path.normpath\<close> on the components of a relative path.\<close>

fun norm_components :: "string list \<Rightarrow> string list \<Rightarrow> string list" where
  "norm_components acc [] = rev acc"
| "norm_components acc (c # cs) =
     (if c = [] \<or> c = ''.'' then norm_components acc cs
      else if c = ''..'' then (if acc = [] \<or> hd acc = ''..'' then norm_components (c # acc) cs
                               else norm_components (tl acc) cs)
      else norm_components (c # acc) cs)"

lemma valid_component_plain: "valid_path_component c \<Longrightarrow> c \<noteq> [] \<and> c \<noteq> ''.'' \<and> c \<noteq> ''..''"
  by (auto simp: valid_path_component_def)

lemma norm_components_valid:
  "list_all valid_path_component cs \<Longrightarrow> norm_components acc cs = rev acc @ cs"
  by (induction cs arbitrary: acc) (auto dest: valid_component_plain)

text \<open>
  A valid application path stays inside the directory it is joined to: normalising the
  components of a directory followed by those of the application leaves the directory's
  normalised components and the application's, unchanged.
\<close>

theorem valid_app_path_inside:
  assumes "valid_app_path app"
  shows "norm_components [] (dir @ split_char CHR ''/'' app)
    = norm_components [] dir @ split_char CHR ''/'' app"
proof -
  have v: "list_all valid_path_component (split_char CHR ''/'' app)" using assms by (simp add: valid_app_path_def)
  have "norm_components acc (dir @ cs) = norm_components acc dir @ cs"
    if "list_all valid_path_component cs" for acc cs
    using that by (induction acc dir rule: norm_components.induct) (auto simp: norm_components_valid)
  then show ?thesis using v by blast
qed

theorem valid_app_path_inside_witness:
  "norm_components [] ([''.vmn''] @ split_char CHR ''/'' ''root/svc'')
    = norm_components [] [''.vmn''] @ split_char CHR ''/'' ''root/svc''"
  by (rule valid_app_path_inside) code_simp

end
