(* ===== verification/Git_Tags.thy ===== *)
theory Git_Tags
imports Version_Math Core_Utils
begin

text \<open>
  Tags of the repository: backends/git_tag_parse.py, backends/git_tags.py (lookup by commit, by tag
  and by name filter), compat/tag_format_039.py and the tag operations of backends/local_file.py.
  Git itself and the YAML loader are the record \<open>git\<close> of functions the code calls.
\<close>

section \<open>Git as the code sees it\<close>

record tag_data =
  tg_author :: string    \<comment> \<open>author of the commit the tag points at\<close>
  tg_commit :: string
  tg_annotated :: bool   \<comment> \<open>\<open>o.tag\<close> is not \<open>None\<close>\<close>
  tg_date :: int
  tg_message :: string

record commit_data =
  cm_author :: string
  cm_message :: string

record git =
  g_tag_list :: "bool \<Rightarrow> string \<Rightarrow> string"        \<comment> \<open>\<open>git tag [--sort taggerdate] --list P\<close>\<close>
  g_points_at :: "string \<Rightarrow> string"              \<comment> \<open>\<open>git tag --points-at C\<close>\<close>
  g_tag :: "string \<Rightarrow> tag_data option option"
    \<comment> \<open>\<open>repo.tag(refs/tags/N)\<close>: \<open>None\<close> where the call raises, \<open>Some None\<close> for a reference
      whose use raises because no such tag exists\<close>
  g_rev :: "string \<Rightarrow> string option"             \<comment> \<open>\<open>repo.commit(R)\<close>\<close>
  g_commit :: "string \<Rightarrow> commit_data option"
  g_log :: "string \<Rightarrow> string \<Rightarrow> nat \<Rightarrow> string list"  \<comment> \<open>\<open>git log --grep F --author=vmn -nK S\<close>, one line per commit\<close>
  g_yaml :: "string \<Rightarrow> yv res"

definition VMN_USER_NAME :: string where "VMN_USER_NAME = ''vmn''"

definition NL :: char where "NL = CHR 0x0A"

section \<open>Listing\<close>

definition list_tags :: "git \<Rightarrow> bool \<Rightarrow> string \<Rightarrow> string list" where
  "list_tags g by_date pattern =
     clean_split_result (split_char NL (g_tag_list g by_date pattern))"

definition list_tag_names :: "git \<Rightarrow> string \<Rightarrow> string list" where
  "list_tag_names g tag_prefix_filter = list_tags g False tag_prefix_filter"

definition get_latest_available_tags :: "git \<Rightarrow> string \<Rightarrow> string list option" where
  "get_latest_available_tags g f =
     (let ts = list_tags g True f in if ts = [] then None else Some ts)"

definition get_latest_available_tag :: "git \<Rightarrow> string \<Rightarrow> string option" where
  "get_latest_available_tag g f = map_option last (get_latest_available_tags g f)"

section \<open>Reading a tag\<close>

record ver_info_c =
  vi_ver_info :: "yv option"
  vi_tag :: "tag_data option"
  vi_commit :: "string option"
  vi_date :: "int option"

definition try_tag_with_dot_zero_suffix :: "git \<Rightarrow> string \<Rightarrow> string \<times> tag_data option option" where
  "try_tag_with_dot_zero_suffix g tag_name =
     (case g_tag g (tag_name @ ''.0'') of
        None \<Rightarrow> (tag_name, None)
      | Some o' \<Rightarrow> (tag_name @ ''.0'', Some o'))"

definition get_tag_object_from_tag_name :: "git \<Rightarrow> string \<Rightarrow> string \<times> tag_data option" where
  "get_tag_object_from_tag_name g tname =
     (let (tname, found) = (case g_tag g tname of
            Some o' \<Rightarrow> (tname, Some o') | None \<Rightarrow> try_tag_with_dot_zero_suffix g tname)
      in (case Option.bind found id of
            None \<Rightarrow> (tname, None)
          | Some o' \<Rightarrow> if tg_author o' \<noteq> VMN_USER_NAME then (tname, None)
                      else if \<not> tg_annotated o' then (tname, None)
                      else (tname, Some o')))"

definition parse_automatic_tag_message :: "git \<Rightarrow> string \<Rightarrow> yv \<Rightarrow> yv option res" where
  \<comment> \<open>only a string can start with \<open>Automatic\<close>\<close>
  "parse_automatic_tag_message g tag_name ver_info =
     (case ver_info of
        YStr s \<Rightarrow>
          if \<not> starts_with ''Automatic'' s then Inr None
          else (case Option.bind (g_rev g tag_name) (g_commit g) of
                  None \<Rightarrow> Inl ValueErr
                | Some c \<Rightarrow> bind_res (g_yaml g (cm_message c)) (\<lambda>commit_msg.
                    if commit_msg = YNull then Inr None
                    else if yfind commit_msg ''stamping'' = None then Inr (Some commit_msg)
                    else bind_res (yput_path commit_msg [''stamping'', ''app'', ''prerelease''] (YStr ''release'')) (\<lambda>m.
                         bind_res (yput_path m [''stamping'', ''app'', ''prerelease_count''] (YMap [])) (\<lambda>m'.
                         Inr (Some m')))))
      | _ \<Rightarrow> Inr None)"

definition parse_tag_message :: "git \<Rightarrow> string \<Rightarrow> (string \<times> ver_info_c) res" where
  "parse_tag_message g tag_name =
     (let (tag_name, tag_obj) = get_tag_object_from_tag_name g tag_name;
          none = \<lparr>vi_ver_info = None, vi_tag = tag_obj, vi_commit = None, vi_date = None\<rparr>
      in (case tag_obj of
            None \<Rightarrow> Inr (tag_name, none)
          | Some t \<Rightarrow>
              let dated = none\<lparr>vi_date := Some (tg_date t)\<rparr>;
                  ret = dated\<lparr>vi_commit := Some (tg_commit t)\<rparr>
              in bind_res (g_yaml g (tg_message t)) (\<lambda>ver_info.
                 if ver_info = YNull then Inr (tag_name, ret)
                 else bind_res (if is_map ver_info then Inr ver_info
                     else bind_res (parse_automatic_tag_message g tag_name ver_info) (\<lambda>old.
                            Inr (case old of None \<Rightarrow> ver_info | Some v \<Rightarrow> v))) (\<lambda>ver_info.
                   if \<not> is_map ver_info then Inr (tag_name, ret)
                   else if yfind ver_info ''vmn_info'' = None then Inr (tag_name, ret)
                   else Inr (tag_name, ret\<lparr>vi_ver_info := Some ver_info\<rparr>)))))"

text \<open>A dictionary of version infos keeps the order of insertion.\<close>

type_synonym ver_infos = "(string \<times> ver_info_c) list"

fun parse_vmn_tags_from :: "git \<Rightarrow> ver_infos \<Rightarrow> string list \<Rightarrow> ver_infos res" where
  "parse_vmn_tags_from g acc [] = Inr acc"
| "parse_vmn_tags_from g acc (t # ts) =
     bind_res (parse_tag_message g t) (\<lambda>(tname, c).
       if vi_ver_info c = None then parse_vmn_tags_from g acc ts
       else parse_vmn_tags_from g (od_put tname c acc) ts)"

definition parse_vmn_tags :: "git \<Rightarrow> string list \<Rightarrow> ver_infos res" where
  "parse_vmn_tags g tag_names = parse_vmn_tags_from g [] tag_names"

section \<open>The tags of a commit\<close>

definition get_all_commit_tags :: "git \<Rightarrow> string \<Rightarrow> ver_infos res" where
  "get_all_commit_tags g hexsha =
     parse_vmn_tags g (clean_split_result (split_char NL (g_points_at g hexsha)))"

definition changeset_of_tag :: "git \<Rightarrow> string \<Rightarrow> string option" where
  "changeset_of_tag g tag = map_option tg_commit (Option.bind (g_tag g tag) id)"

definition get_all_brother_tags :: "git \<Rightarrow> string \<Rightarrow> ver_infos" where
  \<comment> \<open>every exception is swallowed\<close>
  "get_all_brother_tags g tag_name =
     (case changeset_of_tag g tag_name of
        None \<Rightarrow> []
      | Some sha \<Rightarrow> (case get_all_commit_tags g sha of Inl _ \<Rightarrow> [] | Inr v \<Rightarrow> v))"

definition try_commit_with_dot_zero_suffix :: "git \<Rightarrow> string \<Rightarrow> string \<times> string option" where
  "try_commit_with_dot_zero_suffix g tag_name =
     (case g_rev g (tag_name @ ''.0'') of
        None \<Rightarrow> (tag_name, None)
      | Some c \<Rightarrow> (tag_name @ ''.0'', Some c))"

definition get_commit_object_from_tag_name :: "git \<Rightarrow> string \<Rightarrow> string \<times> string option" where
  "get_commit_object_from_tag_name g tag_name =
     (case g_rev g tag_name of
        Some c \<Rightarrow> (tag_name, Some c)
      | None \<Rightarrow> try_commit_with_dot_zero_suffix g tag_name)"

definition get_tag_version_info :: "git \<Rightarrow> string \<Rightarrow> string \<times> ver_infos" where
  "get_tag_version_info g tag_name =
     (let (tag_name, commit) = get_commit_object_from_tag_name g tag_name
      in (case Option.bind commit (g_commit g) of
            None \<Rightarrow> (tag_name, [])
          | Some c \<Rightarrow>
              if cm_author c \<noteq> VMN_USER_NAME then (tag_name, [])
              else let ver_infos = get_all_brother_tags g tag_name
                   in if od_has ver_infos tag_name then (tag_name, ver_infos) else (tag_name, [])))"

section \<open>Searching back through the stamp commits\<close>

definition parse_vmn_commit_line :: "string \<Rightarrow> (string \<times> string list) res" where
  "parse_vmn_commit_line line =
     (case split_str '',,,'' line of
        commit_hex # d # ds \<Rightarrow>
          Inr (commit_hex, clean_split_result (split_char CHR '','' (str_join '',,,'' (d # ds))))
      | _ \<Rightarrow> Inl ValueErr)"

definition decoration_tags :: "string list \<Rightarrow> string list" where
  "decoration_tags tags =
     map (\<lambda>t. str_strip (split_str ''tag:'' t ! 1)) (filter (contains_str ''tag:'') tags)"

definition tag_of_stamp_message :: "git \<Rightarrow> string \<Rightarrow> string \<Rightarrow> ver_infos \<times> string list" where
  \<comment> \<open>a rebased stamp commit carries no tag of its own: the version in its message names one\<close>
  "tag_of_stamp_message g hexsha app_name =
     (case g_commit g hexsha of
        None \<Rightarrow> ([], [])
      | Some c \<Rightarrow>
          (case split_str '' version '' (cm_message c) of
             _ # v # _ \<Rightarrow>
               (case serialize_vmn_tag_name app_name (str_strip v) of
                  Inl _ \<Rightarrow> ([], [])
                | Inr tagname \<Rightarrow>
                    (case parse_tag_message g tagname of
                       Inl _ \<Rightarrow> ([], [])
                     | Inr (tagname, ver_info_c) \<Rightarrow>
                         if vi_tag ver_info_c = None then ([], [])
                         else let brothers = get_all_brother_tags g tagname
                              in if od_has brothers tagname
                                 then ([(tagname, ver_info_c)], map fst (od_del tagname brothers))
                                 else ([(tagname, ver_info_c)], map fst brothers)))
           | _ \<Rightarrow> ([], [])))"

text \<open>
  When the popped tag is missing from its brothers, \<open>pop\<close> raises after the brothers were bound
  to \<open>cleaned_tags\<close>, so iterating the dictionary still yields their names.
\<close>

fun od_update :: "('k, 'v) odict \<Rightarrow> ('k \<times> 'v) list \<Rightarrow> ('k, 'v) odict" where
  "od_update d [] = d"
| "od_update d ((k, v) # xs) = od_update (od_put k v d) xs"

definition get_all_commit_tags_log_impl :: "git \<Rightarrow> string \<Rightarrow> string list \<Rightarrow> string \<Rightarrow> ver_infos res" where
  "get_all_commit_tags_log_impl g hexsha tags app_name =
     (let cleaned_tags = decoration_tags tags;
          (ver_infos, cleaned_tags) =
            (if cleaned_tags = [] then tag_of_stamp_message g hexsha app_name else ([], cleaned_tags))
      in bind_res (parse_vmn_tags g cleaned_tags) (\<lambda>more. Inr (od_update ver_infos more)))"

definition MAX_COMMIT_SEARCH_ITERATIONS :: nat where "MAX_COMMIT_SEARCH_ITERATIONS = 1000"

fun walk_lines :: "git \<Rightarrow> string \<Rightarrow> nat \<Rightarrow> string option \<Rightarrow> string list \<Rightarrow> (string option \<times> ver_infos) res" where
  "walk_lines g app_name searched commit_hex [] =
     Inr (if searched < MAX_COMMIT_SEARCH_ITERATIONS then (None, []) else (commit_hex, []))"
| "walk_lines g app_name searched commit_hex (raw # lines) =
     (let line = str_strip raw
      in if line = [] then walk_lines g app_name searched commit_hex lines
         else bind_res (parse_vmn_commit_line line) (\<lambda>(commit_hex, tags).
              bind_res (get_all_commit_tags_log_impl g commit_hex tags app_name) (\<lambda>ver_infos.
                if ver_infos \<noteq> [] then Inr (Some commit_hex, ver_infos)
                else walk_lines g app_name (Suc searched) (Some commit_hex) lines)))"

definition walk_back_to_tagged_vmn_commit ::
    "git \<Rightarrow> string \<Rightarrow> string \<Rightarrow> string \<Rightarrow> (string option \<times> ver_infos) res" where
  "walk_back_to_tagged_vmn_commit g app_name start msg_filter =
     walk_lines g app_name 0 None (g_log g msg_filter start MAX_COMMIT_SEARCH_ITERATIONS)"

definition get_top_vmn_commit ::
    "git \<Rightarrow> string \<Rightarrow> string \<Rightarrow> string \<Rightarrow> (string option \<times> ver_infos) res" where
  "get_top_vmn_commit g app_name cmd_suffix msg_filter =
     (case g_log g msg_filter cmd_suffix 1 of
        [] \<Rightarrow> Inr (None, [])
      | line # _ \<Rightarrow>
          bind_res (parse_vmn_commit_line line) (\<lambda>(commit_hex, tags).
          bind_res (get_all_commit_tags_log_impl g commit_hex tags app_name) (\<lambda>ver_infos.
            Inr (Some commit_hex, ver_infos))))"

definition tagged_date :: "ver_info_c \<Rightarrow> int" where
  "tagged_date c = (case vi_date c of None \<Rightarrow> 0 | Some d \<Rightarrow> d)"

definition sorted_tag_names_from_ver_infos :: "ver_infos \<Rightarrow> string list" where
  \<comment> \<open>newest first; Python's sort is stable also with \<open>reverse\<close>\<close>
  "sorted_tag_names_from_ver_infos ver_infos =
     map fst (sort_key (\<lambda>(_, c). - tagged_date c) ver_infos)"

definition get_first_reachable_vmn_stamp_tag_list ::
    "git \<Rightarrow> string \<Rightarrow> string \<Rightarrow> string \<Rightarrow> (string list \<times> string option \<times> ver_infos) res" where
  "get_first_reachable_vmn_stamp_tag_list g app_name cmd_suffix msg_filter =
     bind_res (get_top_vmn_commit g app_name cmd_suffix msg_filter) (\<lambda>(cobj, ver_infos).
     bind_res (case cobj of
         Some c \<Rightarrow> if ver_infos = [] then walk_back_to_tagged_vmn_commit g app_name (c @ ''~1'') msg_filter
                   else Inr (cobj, ver_infos)
       | None \<Rightarrow> Inr (cobj, ver_infos)) (\<lambda>(cobj, ver_infos).
       Inr (sorted_tag_names_from_ver_infos ver_infos, cobj, ver_infos)))"

definition get_latest_stamp_tags ::
    "git \<Rightarrow> string \<Rightarrow> bool \<Rightarrow> string \<Rightarrow> (string list \<times> string option \<times> ver_infos) res" where
  \<comment> \<open>for a full clone; the last argument is the revision range the position type stands for\<close>
  "get_latest_stamp_tags g app_name root_context cmd_suffix =
     get_first_reachable_vmn_stamp_tag_list g app_name cmd_suffix
       (if root_context then ''^'' @ app_name @ ''/.*: Stamped'' else ''^'' @ app_name @ '': Stamped'')"

section \<open>The local file backend\<close>

definition local_list_tag_names :: "string \<Rightarrow> string list" where
  "local_list_tag_names tag_prefix_filter = []"

definition local_get_latest_available_tag :: "string \<Rightarrow> string option" where
  "local_get_latest_available_tag tag_prefix_filter = None"

end
