(* ===== verification/Stamp_Advance.thy ===== *)
theory Stamp_Advance
imports Git_Tags
begin

text \<open>
  The version arithmetic of stamping/base.py: the next version of an application from the version
  it is stamped from, the release mode and the tags of the repository; the next state of its root
  application; and the lookups of version infos these use.
\<close>

section \<open>The stamper and its backend\<close>

record stamper =
  st_name :: string
  st_hide_zero_hotfix :: bool
  st_prerelease :: "string option"
  st_release_mode :: "string option"

record backend =
  be_list_tag_names :: "string \<Rightarrow> string list"
  be_latest_tag :: "string \<Rightarrow> string option"
  be_parse_tag :: "string \<Rightarrow> (string \<times> ver_info_c) res"
  be_tag_version_info :: "string \<Rightarrow> (string \<times> ver_infos) res"
  be_latest_stamp_tags :: "string \<Rightarrow> bool \<Rightarrow> string \<Rightarrow> (string list \<times> string option \<times> ver_infos) res"

definition git_backend :: "git \<Rightarrow> backend" where
  "git_backend g =
     \<lparr>be_list_tag_names = list_tag_names g, be_latest_tag = get_latest_available_tag g,
      be_parse_tag = parse_tag_message g, be_tag_version_info = (\<lambda>t. Inr (get_tag_version_info g t)),
      be_latest_stamp_tags = get_latest_stamp_tags g\<rparr>"

section \<open>Numbers\<close>

definition py_int_str :: "string \<Rightarrow> int res" where
  \<comment> \<open>\<open>int(s)\<close>: white space around, a sign, digits with single underscores between them\<close>
  "py_int_str s =
     (let t = str_strip s;
          neg = starts_with ''-'' t;
          d = (if neg \<or> starts_with ''+'' t then tl t else t);
          ps = split_char CHR ''_'' d
      in if list_all all_digits ps
         then Inr ((if neg then -1 else 1) * int (str_nat (concat ps)))
         else Inl ValueErr)"

definition py_int :: "yv \<Rightarrow> int res" where
  \<comment> \<open>\<open>int(v)\<close>\<close>
  "py_int v = (case v of
       YInt i \<Rightarrow> Inr i
     | YBool b \<Rightarrow> Inr (if b then 1 else 0)
     | YStr s \<Rightarrow> py_int_str s
     | _ \<Rightarrow> Inl TypeErr)"

definition count_int :: "yv \<Rightarrow> int res" where
  \<comment> \<open>a value used as a number: a boolean counts as one, anything else that is no number raises\<close>
  "count_int v = (case v of
       YInt i \<Rightarrow> Inr i | YBool b \<Rightarrow> Inr (if b then 1 else 0) | _ \<Rightarrow> Inl TypeErr)"

section \<open>Incrementing an octet\<close>

fun own_tag_props_from :: "string \<Rightarrow> string list \<Rightarrow> tag_props list res" where
  "own_tag_props_from own_name [] = Inr []"
| "own_tag_props_from own_name (t # ts) =
     (case deserialize_tag_name t of
        Inl e \<Rightarrow> if e = WrongTagFormat then own_tag_props_from own_name ts else Inl e
      | Inr props \<Rightarrow>
          bind_res (own_tag_props_from own_name ts) (\<lambda>rest.
            if map_option app_name_to_tag_name (tp_app_name props) = Some own_name
            then Inr (props # rest) else Inr rest))"

definition own_tag_props :: "backend \<Rightarrow> stamper \<Rightarrow> string \<Rightarrow> tag_props list res" where
  "own_tag_props be self tag_name_prefix =
     own_tag_props_from (app_name_to_tag_name (st_name self)) (be_list_tag_names be tag_name_prefix)"

definition octet_of :: "string \<Rightarrow> ('a version_props_scheme) \<Rightarrow> int res" where
  \<comment> \<open>\<open>int(getattr(props, release_mode))\<close>\<close>
  "octet_of release_mode props =
     (case (if release_mode = ''major'' then vp_major props
            else if release_mode = ''minor'' then vp_minor props
            else if release_mode = ''patch'' then vp_patch props
            else vp_hotfix props) of
        None \<Rightarrow> Inl TypeErr | Some i \<Rightarrow> Inr i)"

fun max_octet :: "string \<Rightarrow> int \<Rightarrow> tag_props list \<Rightarrow> int res" where
  "max_octet release_mode m [] = Inr m"
| "max_octet release_mode m (p # ps) =
     bind_res (octet_of release_mode p) (\<lambda>i. max_octet release_mode (max m i) ps)"

definition increase_octet :: "backend \<Rightarrow> stamper \<Rightarrow> string \<Rightarrow> int \<Rightarrow> string \<Rightarrow> bool \<Rightarrow> int res" where
  "increase_octet be self tag_name_prefix version_number_oct release_mode globally =
     bind_res (if globally
         then bind_res (own_tag_props be self tag_name_prefix) (max_octet release_mode version_number_oct)
         else Inr version_number_oct) (\<lambda>m. Inr (m + 1))"

definition get_tag_name :: "stamper \<Rightarrow> string \<Rightarrow> string" where
  "get_tag_name self verstr = app_name_to_tag_name (st_name self) @ ''_'' @ verstr"

section \<open>Advancing\<close>

type_synonym octets = "int option \<times> int option \<times> int option \<times> int option"

definition need_int :: "int option \<Rightarrow> int res" where
  \<comment> \<open>an octet used as a number: the properties of a root version have none\<close>
  "need_int x = (case x of None \<Rightarrow> Inl TypeErr | Some i \<Rightarrow> Inr i)"

definition advance_octets :: "backend \<Rightarrow> stamper \<Rightarrow> octets \<Rightarrow> string option \<Rightarrow> bool \<Rightarrow> octets res" where
  "advance_octets be self v release_mode globally =
     (case v of (major, minor, patch, hotfix) \<Rightarrow>
        let app = app_name_to_tag_name (st_name self);
            up = (\<lambda>suffix oct mode. bind_res (need_int oct) (\<lambda>i.
                    increase_octet be self (app @ ''_'' @ suffix) i mode globally))
        in if release_mode = Some ''major'' then
             bind_res (up ''*'' major ''major'') (\<lambda>m. Inr (Some m, Some 0, Some 0, Some 0))
           else if release_mode = Some ''minor'' then
             bind_res (up (fmt_int major @ ''.*'') minor ''minor'') (\<lambda>m. Inr (major, Some m, Some 0, Some 0))
           else if release_mode = Some ''patch'' then
             bind_res (up (fmt_int major @ ''.'' @ fmt_int minor @ ''.*'') patch ''patch'')
               (\<lambda>m. Inr (major, minor, Some m, Some 0))
           else if release_mode = Some ''hotfix'' then
             bind_res (up (fmt_int major @ ''.'' @ fmt_int minor @ ''.'' @ fmt_int patch @ ''.*'') hotfix ''hotfix'')
               (\<lambda>m. Inr (major, minor, patch, Some m))
           else Inr (major, minor, patch, hotfix))"

type_synonym counts = "(string \<times> yv) list"

definition existing_counts :: "backend \<Rightarrow> stamper \<Rightarrow> string \<Rightarrow> counts res" where
  "existing_counts be self base_version =
     (case be_latest_tag be (get_tag_name self base_version @ ''-*'') of
        None \<Rightarrow> Inr []
      | Some tag \<Rightarrow>
          bind_res (be_parse_tag be tag) (\<lambda>(t, c).
          bind_res (case vi_ver_info c of
               None \<Rightarrow> Inl TypeErr
             | Some vi \<Rightarrow> ypath vi [''stamping'', ''app'', ''prerelease_count'']) (\<lambda>d.
            case d of YMap m \<Rightarrow> Inr m | _ \<Rightarrow> Inl TypeErr)))"

definition bump_count :: "counts \<Rightarrow> string \<Rightarrow> int \<Rightarrow> (counts \<times> int) res" where
  "bump_count counts prerelease rcn =
     (let counts = (if od_has counts prerelease then counts else od_put prerelease (YInt rcn) counts)
      in bind_res (case map_of counts prerelease of None \<Rightarrow> Inl KeyErr | Some v \<Rightarrow> count_int v) (\<lambda>c.
           let n = max c rcn + 1 in Inr (od_put prerelease (YInt n) counts, n)))"

definition advance_version ::
    "backend \<Rightarrow> stamper \<Rightarrow> string \<Rightarrow> string option \<Rightarrow> bool \<Rightarrow> (string \<times> counts) res" where
  "advance_version be self version release_mode globally =
     bind_res (deserialize_vmn_version version) (\<lambda>props.
     bind_res (advance_octets be self (vp_major props, vp_minor props, vp_patch props, vp_hotfix props)
                 release_mode globally) (\<lambda>(major, minor, patch, hotfix).
     let hide = st_hide_zero_hotfix self;
         base_version = serialize_vmn_base_version major minor patch hotfix hide;
         initialprerelease = vp_prerelease props;
         prerelease = (case st_prerelease self of
             Some p \<Rightarrow> p
           | None \<Rightarrow> if release_mode \<noteq> None then ''release'' else initialprerelease)
     in if prerelease = ''release''
        then bind_res (serialize_vmn_version base_version None None None hide None None) (\<lambda>v. Inr (v, []))
        else bind_res (existing_counts be self base_version) (\<lambda>initial.
             let props_rcn = (case vp_rcn props of None \<Rightarrow> 0 | Some r \<Rightarrow> r);
                 rcn = (if prerelease = initialprerelease then props_rcn else 0)
             in bind_res (bump_count initial prerelease rcn) (\<lambda>(counts, n).
                let (counts, n) = (if release_mode \<noteq> None then ([(prerelease, YInt 1)], 1) else (counts, n))
                in bind_res (serialize_vmn_version base_version (Some prerelease) (Some n) None hide None None)
                     (\<lambda>v. Inr (v, counts))))))"

section \<open>Version infos of tags\<close>

fun pick_tags :: "string option \<times> string option \<Rightarrow> string list \<Rightarrow> (string option \<times> string option) res" where
  \<comment> \<open>the last root tag and the last plain version tag among the names\<close>
  "pick_tags acc [] = Inr acc"
| "pick_tags (root_tag, ver_tag) (t # ts) =
     bind_res (deserialize_tag_name t) (\<lambda>props.
       pick_tags
         (if ''buildmetadata'' \<in> vp_types props then (root_tag, ver_tag)
          else if ''root'' \<in> vp_types props then (Some t, ver_tag)
          else if vp_types props = {''version''} then (root_tag, Some t)
          else (root_tag, ver_tag)) ts)"

definition vi_get :: "ver_infos \<Rightarrow> string \<Rightarrow> string list \<Rightarrow> yv res" where
  "vi_get ver_infos tag path =
     (case map_of ver_infos tag of
        None \<Rightarrow> Inl KeyErr
      | Some c \<Rightarrow> (case vi_ver_info c of None \<Rightarrow> Inl TypeErr | Some v \<Rightarrow> ypath v path))"

definition vi_put :: "ver_infos \<Rightarrow> string \<Rightarrow> string list \<Rightarrow> yv \<Rightarrow> ver_infos res" where
  "vi_put ver_infos tag path x =
     (case map_of ver_infos tag of
        None \<Rightarrow> Inl KeyErr
      | Some c \<Rightarrow> (case vi_ver_info c of
            None \<Rightarrow> Inl TypeErr
          | Some v \<Rightarrow> bind_res (yput_path v path x) (\<lambda>v'.
              Inr (od_put tag (c\<lparr>vi_ver_info := Some v'\<rparr>) ver_infos))))"

definition enhance_ver_info :: "ver_infos \<Rightarrow> ver_infos res" where
  "enhance_ver_info ver_infos =
     bind_res (pick_tags (None, None) (map fst ver_infos)) (\<lambda>(root_tag, ver_tag).
       case (root_tag, ver_tag) of
         (Some r, Some v) \<Rightarrow>
           bind_res (vi_get ver_infos r [''stamping'', ''root_app'']) (\<lambda>root_app.
           bind_res (vi_put ver_infos v [''stamping'', ''root_app''] root_app) (\<lambda>vis.
           bind_res (vi_get vis v [''stamping'', ''app'']) (\<lambda>app.
             vi_put vis r [''stamping'', ''app''] app)))
       | _ \<Rightarrow> Inr ver_infos)"

fun first_own_tag :: "string \<Rightarrow> string list \<Rightarrow> string option res" where
  "first_own_tag app_name [] = Inr None"
| "first_own_tag app_name (t # ts) =
     (if CHR ''+'' \<in> set t then first_own_tag app_name ts
      else bind_res (deserialize_tag_name t) (\<lambda>props.
             if tp_app_name props \<noteq> Some app_name then first_own_tag app_name ts else Inr (Some t)))"

definition get_first_reachable_version_info ::
    "backend \<Rightarrow> string \<Rightarrow> bool \<Rightarrow> string \<Rightarrow> (string option \<times> ver_infos) res" where
  "get_first_reachable_version_info be app_name root_context type =
     bind_res (be_latest_stamp_tags be app_name root_context type) (\<lambda>(app_tags, cobj, ver_infos).
     bind_res (first_own_tag app_name app_tags) (\<lambda>cleaned.
       case cleaned of
         None \<Rightarrow> Inr (None, [])
       | Some t \<Rightarrow> if \<not> od_has ver_infos t then Inr (None, [])
                   else bind_res (enhance_ver_info ver_infos) (\<lambda>vis. Inr (Some t, vis))))"

definition get_version_info_from_verstr ::
    "backend \<Rightarrow> stamper \<Rightarrow> string \<Rightarrow> (string \<times> ver_infos) res" where
  "get_version_info_from_verstr be self verstr =
     (let actual_tag = get_tag_name self verstr
      in case deserialize_vmn_version verstr of
           Inl _ \<Rightarrow> Inr (actual_tag, [])
         | Inr _ \<Rightarrow>
             bind_res (be_tag_version_info be actual_tag) (\<lambda>(actual_tag, ver_infos).
               case map_of ver_infos actual_tag of
                 None \<Rightarrow> Inr (actual_tag, [])
               | Some c \<Rightarrow>
                   if vi_ver_info c = None then Inr (actual_tag, [])
                   else bind_res (enhance_ver_info ver_infos) (\<lambda>vis. Inr (actual_tag, vis))))"

definition tag_info :: "backend \<Rightarrow> string \<Rightarrow> (string \<times> ver_infos) res" where
  "tag_info be tag =
     bind_res (be_tag_version_info be tag) (\<lambda>(tag, ver_infos).
     bind_res (enhance_ver_info ver_infos) (\<lambda>vis. Inr (tag, vis)))"

definition release_tag_info :: "backend \<Rightarrow> stamper \<Rightarrow> string \<Rightarrow> (string \<times> ver_infos) res" where
  "release_tag_info be self verstr =
     bind_res (get_base_vmn_version verstr (st_hide_zero_hotfix self)) (\<lambda>base_verstr.
       tag_info be (get_tag_name self base_verstr))"

section \<open>The root application\<close>

definition next_root_state ::
    "backend \<Rightarrow> stamper \<Rightarrow> string \<Rightarrow> string \<Rightarrow> bool \<Rightarrow> yv option \<Rightarrow> yv \<Rightarrow> (int \<times> yv) res" where
  \<comment> \<open>the last argument is this application's current version\<close>
  "next_root_state be self root_app_name type allow_missing override_version current =
     bind_res (get_first_reachable_version_info be root_app_name True type) (\<lambda>(tag_name, ver_infos).
     bind_res
       (case Option.bind (Option.bind tag_name (map_of ver_infos)) vi_ver_info of
          None \<Rightarrow> if \<not> allow_missing then Inl RuntimeErr else Inr (0, YMap [])
        | Some vi \<Rightarrow>
            bind_res (ypath vi [''stamping'', ''root_app'']) (\<lambda>root_app.
              if yfind root_app ''version'' = None then Inl RuntimeErr
              else bind_res (case override_version of
                       None \<Rightarrow> bind_res (yget root_app ''version'') py_int
                     | Some v \<Rightarrow> py_int v) (\<lambda>n.
                   bind_res (yget root_app ''services'') (\<lambda>services. Inr (n + 1, services)))))
       (\<lambda>(root_version, services).
     bind_res (yput services (st_name self) current) (\<lambda>services. Inr (root_version, services))))"

end
