(* ===== verification/Publish.thy ===== *)
theory Publish
imports Effects Stamp_Advance
begin

text \<open>
  Publishing a stamp, from stamping/publisher.py and the git operations of backends/git_ops.py and
  backends/git_history.py it runs: writing the files of the stamp commit, committing, tagging,
  pushing, and undoing all of it when a step raises. Git and the file system are the record
  \<open>repo_ops\<close> of actions the code calls; every one of them may raise.
\<close>

section \<open>The repository as the code sees it\<close>

record 'w repo_ops =
  ro_head :: "'w \<Rightarrow> string"                       \<comment> \<open>\<open>head.commit.hexsha\<close>\<close>
  ro_author :: "'w \<Rightarrow> string"                     \<comment> \<open>author of the branch's commit\<close>
  ro_exists :: "'w \<Rightarrow> string \<Rightarrow> bool"
  ro_walk :: "'w \<Rightarrow> string \<Rightarrow> string list"         \<comment> \<open>the files below a directory\<close>
  ro_status :: "'w \<Rightarrow> string list \<Rightarrow> string list"  \<comment> \<open>the given paths \<open>git status\<close> lists\<close>
  ro_write :: "string \<Rightarrow> string \<Rightarrow> ('w, unit) act"
  ro_unlink :: "string \<Rightarrow> ('w, unit) act"
  ro_git_rm :: "string \<Rightarrow> ('w, unit) act"          \<comment> \<open>\<open>git rm -f\<close>\<close>
  ro_index_remove :: "string \<Rightarrow> ('w, unit) act"    \<comment> \<open>from the index and the working tree\<close>
  ro_rm_cached :: "string \<Rightarrow> ('w, unit) act"
  ro_index_add :: "string \<Rightarrow> ('w, unit) act"
  ro_index_commit :: "string \<Rightarrow> string \<Rightarrow> ('w, unit) act"  \<comment> \<open>message, author\<close>
  ro_create_tag :: "string \<Rightarrow> string \<Rightarrow> ('w, unit) act"
  ro_delete_tag :: "string \<Rightarrow> ('w, unit) act"
  ro_push :: "string list \<Rightarrow> ('w, unit) act"
  ro_outgoing :: "('w, bool) act"
  ro_ls_tree :: "string \<Rightarrow> string list \<Rightarrow> ('w, string list) act"
  ro_reset_path :: "string \<Rightarrow> ('w, unit) act"
  ro_checkout :: "string list \<Rightarrow> ('w, unit) act"
  ro_reset_hard_parent :: "('w, unit) act"
  ro_fetch_tags :: "('w, unit) act"

section \<open>What the stamper knows\<close>

record 'w publish_env =
  pe_dry_run :: bool
  pe_should_publish :: bool
  pe_name :: string
  pe_release_mode :: string
  pe_extra_message :: string
  pe_migrate_confs :: "('w, (string \<times> string) list) act"  \<comment> \<open>\<open>migrate_branch_confs\<close>\<close>
  pe_app_conf :: string
  pe_conf_existed :: bool
  pe_root_conf :: "string option"      \<comment> \<open>none for an application without a root\<close>
  pe_root_existed :: bool
  pe_version_files :: "string list"
  pe_backend_files :: "string list"
  pe_changelog_path :: "string option"
  pe_branch_conf_root :: string
  pe_keep_prefix :: string
  pe_conf_rewrite :: "'w \<Rightarrow> string \<Rightarrow> string option"  \<comment> \<open>a conf file with deprecated keys, rewritten\<close>
  pe_version_writes :: "(string \<times> string) list"   \<comment> \<open>the version file and the version backends' files\<close>
  pe_snapshot :: "(string \<times> string) option"
  pe_root_snapshot :: "(string \<times> string) option"
  pe_changelog_text :: "'w \<Rightarrow> string option"       \<comment> \<open>the changelog with the new entry\<close>

record 'w pub =
  pb_world :: 'w
  pb_paths :: "(string \<times> bool) list"   \<comment> \<open>\<open>_stamp_paths\<close>\<close>
  pb_added :: "string list"             \<comment> \<open>\<open>version_files_to_add\<close>\<close>

definition lift :: "('w, 'a) act \<Rightarrow> ('w pub, 'a) act" where
  "lift m = (\<lambda>s. case m (pb_world s) of (r, w) \<Rightarrow> (r, s\<lparr>pb_world := w\<rparr>))"

definition add_files :: "string list \<Rightarrow> ('w pub, unit) act" where
  "add_files fs = (\<lambda>s. (Inr (), s\<lparr>pb_added := pb_added s @ fs\<rparr>))"

fun record_paths :: "('w \<Rightarrow> string \<Rightarrow> bool) \<Rightarrow> bool option \<Rightarrow> string list \<Rightarrow> ('w pub, unit) act" where
  \<comment> \<open>the first record of a path wins\<close>
  "record_paths exists existed [] = ret ()"
| "record_paths exists existed (p # ps) = then_act
     (\<lambda>s. (Inr (), if od_has (pb_paths s) p then s
        else s\<lparr>pb_paths := pb_paths s @ [(p, case existed of None \<Rightarrow> exists (pb_world s) p | Some b \<Rightarrow> b)]\<rparr>))
     (record_paths exists existed ps)"

section \<open>Writing the files of the stamp\<close>

definition remap :: "(string \<times> string) list \<Rightarrow> string \<Rightarrow> string" where
  "remap moves p = (case map_of moves p of None \<Rightarrow> p | Some q \<Rightarrow> q)"

definition remap_env :: "(string \<times> string) list \<Rightarrow> 'w publish_env \<Rightarrow> 'w publish_env" where
  "remap_env moves env =
     env\<lparr>pe_app_conf := remap moves (pe_app_conf env),
         pe_root_conf := map_option (remap moves) (pe_root_conf env),
         pe_version_files := map (remap moves) (pe_version_files env)\<rparr>"

definition migrate_branch_confs :: "'w publish_env \<Rightarrow> ('w pub, (string \<times> string) list \<times> 'w publish_env) act" where
  "migrate_branch_confs env =
     bind_act (lift (pe_migrate_confs env)) (\<lambda>moves.
       if pe_dry_run env \<or> moves = [] then ret ([], env) else ret (moves, remap_env moves env))"

definition collect_stale_branch_confs :: "'w repo_ops \<Rightarrow> 'w publish_env \<Rightarrow> 'w \<Rightarrow> string list" where
  "collect_stale_branch_confs ops env w =
     filter (\<lambda>p. \<not> starts_with (pe_keep_prefix env) p) (ro_walk ops w (pe_branch_conf_root env))"

definition write_file :: "'w repo_ops \<Rightarrow> 'w publish_env \<Rightarrow> string \<times> string \<Rightarrow> ('w pub, unit) act" where
  "write_file ops env pc = when_act (\<not> pe_dry_run env) (lift (ro_write ops (fst pc) (snd pc)))"

definition migrate_deprecated_conf_keys :: "'w repo_ops \<Rightarrow> 'w publish_env \<Rightarrow> ('w pub, unit) act" where
  "migrate_deprecated_conf_keys ops env = (\<lambda>s.
     case pe_conf_rewrite env (pb_world s) (pe_app_conf env) of
       None \<Rightarrow> (Inr (), s)
     | Some text \<Rightarrow> write_file ops env (pe_app_conf env, text) s)"

definition files_to_add_to_index :: "'w repo_ops \<Rightarrow> string list \<Rightarrow> ('w pub, unit) act" where
  "files_to_add_to_index ops paths =
     (\<lambda>s. add_files (ro_status ops (pb_world s) paths) s)"

definition write_snapshot_file :: "'w repo_ops \<Rightarrow> 'w publish_env \<Rightarrow> (string \<times> string) option \<Rightarrow> ('w pub, unit) act" where
  "write_snapshot_file ops env snap =
     (case snap of
        None \<Rightarrow> ret ()
      | Some (path, text) \<Rightarrow>
          if pe_dry_run env then ret ()
          else then_act (lift (ro_write ops path text)) (add_files [path]))"

definition generate_changelog :: "'w repo_ops \<Rightarrow> 'w publish_env \<Rightarrow> ('w pub, unit) act" where
  \<comment> \<open>a failing write is logged and ignored\<close>
  "generate_changelog ops env = (\<lambda>s.
     case (pe_changelog_path env, pe_changelog_text env (pb_world s)) of
       (Some path, Some text) \<Rightarrow>
         if pe_dry_run env then (Inr (), s)
         else swallow (then_act (lift (ro_write ops path text)) (add_files [path])) s
     | _ \<Rightarrow> (Inr (), s))"

definition write_stamp_body :: "'w repo_ops \<Rightarrow> 'w publish_env \<Rightarrow> ('w pub, unit) act" where
  "write_stamp_body ops env =
     then_act (migrate_deprecated_conf_keys ops env)
    (then_act (each_act (write_file ops env) (pe_version_writes env))
    (then_act (files_to_add_to_index ops (pe_version_files env))
    (then_act (add_files (pe_backend_files env))
    (then_act (write_snapshot_file ops env (pe_snapshot env))
    (then_act (case pe_root_conf env of
         None \<Rightarrow> ret ()
       | Some rc \<Rightarrow> then_act (files_to_add_to_index ops [rc])
                     (write_snapshot_file ops env (pe_root_snapshot env)))
      (generate_changelog ops env))))))"

definition opt_list :: "'a option \<Rightarrow> 'a list" where
  "opt_list x = (case x of None \<Rightarrow> [] | Some y \<Rightarrow> [y])"

definition record_expected :: "'w repo_ops \<Rightarrow> (string \<times> string) list \<Rightarrow> 'w publish_env \<Rightarrow> ('w pub, unit) act" where
  "record_expected ops moves env =
     then_act (each_act (\<lambda>(src, dst). then_act (record_paths (ro_exists ops) (Some True) [src])
                                        (record_paths (ro_exists ops) (Some False) [dst])) moves)
    (then_act (record_paths (ro_exists ops) (Some (pe_conf_existed env)) [pe_app_conf env])
    (then_act (record_paths (ro_exists ops) (Some (pe_root_existed env)) (opt_list (pe_root_conf env)))
    (then_act (record_paths (ro_exists ops) None
                 (pe_version_files env @ pe_backend_files env @ opt_list (pe_changelog_path env)))
      (\<lambda>s. record_paths (ro_exists ops) (Some False) (collect_stale_branch_confs ops env (pb_world s)) s))))"

definition write_stamp_files :: "'w repo_ops \<Rightarrow> 'w publish_env \<Rightarrow> ('w pub, 'w publish_env) act" where
  "write_stamp_files ops env =
     bind_act (migrate_branch_confs env) (\<lambda>(moves, env).
     then_act (record_expected ops moves env)
    (then_act (finally_act (write_stamp_body ops env)
                 (\<lambda>s. record_paths (ro_exists ops) (Some False) (pb_added s) s))
      (ret env)))"

section \<open>Committing, tagging, pushing\<close>

definition stamp_commit_msg :: "'w publish_env \<Rightarrow> string \<Rightarrow> string" where
  "stamp_commit_msg env app_version =
     (if pe_release_mode env = ''init''
      then pe_name env @ '': Stamped initial version '' @ app_version @ [NL, NL]
      else pe_name env @ '': Stamped version '' @ app_version @ [NL] @ pe_extra_message env @ [NL])"

definition remove_stale_conf :: "'w repo_ops \<Rightarrow> string \<Rightarrow> ('w, unit) act" where
  "remove_stale_conf ops f =
     catch_act (ro_git_rm ops f) (\<lambda>_.
       then_act (swallow (ro_index_remove ops f)) (swallow (ro_unlink ops f)))"

definition backend_commit :: "'w repo_ops \<Rightarrow> string \<Rightarrow> string \<Rightarrow> string list \<Rightarrow> ('w, unit) act" where
  "backend_commit ops message user files =
     then_act (each_act (ro_index_add ops) files) (ro_index_commit ops message user)"

definition publish_commit :: "'w repo_ops \<Rightarrow> 'w publish_env \<Rightarrow> string \<Rightarrow> ('w pub, unit) act" where
  "publish_commit ops env msg = (\<lambda>s.
     let stale = collect_stale_branch_confs ops env (pb_world s)
     in if pe_dry_run env then (Inr (), s)
        else then_act (lift (each_act (remove_stale_conf ops) stale))
               (lift (backend_commit ops msg VMN_USER_NAME (pb_added s))) s)"

definition create_tags :: "'w repo_ops \<Rightarrow> 'w publish_env \<Rightarrow> (string \<times> string) list \<Rightarrow> ('w pub, unit) act" where
  "create_tags ops env tags =
     each_act (\<lambda>(t, m). when_act (\<not> pe_dry_run env) (lift (ro_create_tag ops t m))) tags"

definition push_published_refs :: "'w repo_ops \<Rightarrow> string list \<Rightarrow> ('w, unit) act" where
  "push_published_refs ops tags =
     then_act (ro_push ops tags)
       (bind_act (ro_outgoing ops) (\<lambda>e. if e then raise_act RuntimeErr else ret ()))"

definition push_tags :: "'w repo_ops \<Rightarrow> 'w publish_env \<Rightarrow> string list \<Rightarrow> ('w pub, unit) act" where
  "push_tags ops env tags = when_act (\<not> pe_dry_run env) (lift (push_published_refs ops tags))"

section \<open>Undoing\<close>

definition revert_local_changes :: "'w repo_ops \<Rightarrow> string list \<Rightarrow> ('w, unit) act" where
  "revert_local_changes ops files =
     (if files = [] then ret ()
      else swallow (then_act (swallow (each_act (ro_reset_path ops) files)) (ro_checkout ops files)))"

definition drop_vmn_commit :: "'w repo_ops \<Rightarrow> string \<Rightarrow> string list \<Rightarrow> ('w, unit) act" where
  "drop_vmn_commit ops prev_changeset tags = (\<lambda>w.
     if ro_head ops w = prev_changeset then (Inr (), w)
     else if ro_author ops w \<noteq> VMN_USER_NAME then (Inl RuntimeErr, w)
     else then_act (ro_reset_hard_parent ops)
            (then_act (each_act (\<lambda>t. swallow (ro_delete_tag ops t)) tags)
               (swallow (ro_fetch_tags ops))) w)"

definition drop_new_file :: "'w repo_ops \<Rightarrow> bool \<Rightarrow> string \<Rightarrow> ('w, unit) act" where
  "drop_new_file ops keep path =
     then_act (swallow (ro_rm_cached ops path))
       (\<lambda>w. if \<not> keep \<and> ro_exists ops w path then ro_unlink ops path w else (Inr (), w))"

definition revert_vmn_commit ::
    "'w repo_ops \<Rightarrow> string \<Rightarrow> string list \<Rightarrow> string list \<Rightarrow> string list \<Rightarrow> ('w, unit) act" where
  "revert_vmn_commit ops prev_changeset paths tags preexisting =
     bind_act (if paths = [] then ret [] else ro_ls_tree ops prev_changeset paths) (\<lambda>listed.
     let committed = filter (\<lambda>p. p \<in> set paths) listed
     in then_act (revert_local_changes ops committed)
       (then_act (drop_vmn_commit ops prev_changeset tags)
         (each_act (\<lambda>p. drop_new_file ops (p \<in> set preexisting) p)
            (filter (\<lambda>p. p \<notin> set committed) paths))))"

definition revert_publish :: "'w repo_ops \<Rightarrow> 'w publish_env \<Rightarrow> string \<Rightarrow> string list \<Rightarrow> ('w pub, unit) act" where
  "revert_publish ops env prev_changeset tags = (\<lambda>s.
     if pe_dry_run env then (Inr (), s)
     else lift (revert_vmn_commit ops prev_changeset (map fst (pb_paths s)) tags
                  (map fst (filter snd (pb_paths s)))) s)"

section \<open>Publishing\<close>

definition publish_tag_names :: "stamper \<Rightarrow> string option \<Rightarrow> string \<Rightarrow> string \<Rightarrow> string list option" where
  "publish_tag_names self root_app_name app_version root_app_version =
     (let tags = (get_tag_name self app_version, VMN_TAG_REGEX)
            # (case root_app_name of None \<Rightarrow> []
               | Some r \<Rightarrow> [(app_name_to_tag_name r @ ''_'' @ root_app_version, VMN_ROOT_TAG_REGEX)])
      in if list_all (\<lambda>(t, re). re_search re t \<noteq> None) tags then Some (map fst tags) else None)"

text \<open>
  The body of the \<open>try\<close>: the error code a failing step leaves is the one set before it, so each
  step returns its own.
\<close>

definition step_code :: "int \<Rightarrow> ('w, unit) act \<Rightarrow> ('w, int) act \<Rightarrow> ('w, int) act" where
  "step_code err m rest = (\<lambda>w. case m w of (Inl e, w') \<Rightarrow> (Inr err, w') | (Inr _, w') \<Rightarrow> rest w')"

definition publish_body :: "'w repo_ops \<Rightarrow> 'w publish_env \<Rightarrow> string \<Rightarrow> (string \<times> string) list \<Rightarrow> ('w pub, int) act" where
  "publish_body ops env app_version tags = (\<lambda>s.
     case write_stamp_files ops env s of
       (Inl e, s') \<Rightarrow> (Inr (-1), s')
     | (Inr env', s') \<Rightarrow>
         step_code 3 (publish_commit ops env' (stamp_commit_msg env' app_version))
        (step_code 1 (create_tags ops env' tags)
        (step_code 2 (push_tags ops env' (map fst tags)) (ret 0))) s')"

definition publish_stamp ::
    "'w repo_ops \<Rightarrow> 'w publish_env \<Rightarrow> string \<Rightarrow> string list option \<Rightarrow> string list \<Rightarrow> ('w, int) act" where
  \<comment> \<open>the tag names are the result of \<open>publish_tag_names\<close>; one message to a tag\<close>
  "publish_stamp ops env app_version tag_names msgs = (\<lambda>w.
     if \<not> pe_should_publish env then (Inr 0, w)
     else (case tag_names of
        None \<Rightarrow> (Inr 3, w)
      | Some tags \<Rightarrow>
          let prev_changeset = ro_head ops w
          in (case publish_body ops env app_version (zip tags msgs) \<lparr>pb_world = w, pb_paths = [], pb_added = []\<rparr> of
                (Inl e, s) \<Rightarrow> (Inl e, pb_world s)
              | (Inr err, s) \<Rightarrow>
                  if err = 0 then (Inr 0, pb_world s)
                  else (case revert_publish ops env prev_changeset (if err = 1 \<or> err = 2 then tags else []) s of
                          (Inl e, s') \<Rightarrow> (Inl e, pb_world s')
                        | (Inr _, s') \<Rightarrow> (Inr err, pb_world s')))))"

end
