(* ===== verification/Publish_Laws.thy ===== *)
theory Publish_Laws
imports Publish
begin

text \<open>
  A stamp that fails to publish leaves the repository as it was: whatever step raises, the branch
  is back at its commit, every committed file and the index hold what that commit holds, no new
  file stays behind, no tag of the stamp is left that the remote does not have, and the tags of other
  names stay. A dry run changes nothing at all.
\<close>

section \<open>What git and the file system promise\<close>

record 'w repo_view =
  rv_file :: "'w \<Rightarrow> string \<Rightarrow> string option"       \<comment> \<open>contents of the working tree\<close>
  rv_index :: "'w \<Rightarrow> string \<Rightarrow> string option"
  rv_tree :: "string \<Rightarrow> string \<Rightarrow> string option"   \<comment> \<open>contents of a commit\<close>
  rv_parent :: "string \<Rightarrow> string"
  rv_tags :: "'w \<Rightarrow> string set"
  rv_remote_tags :: "'w \<Rightarrow> string set"

definition same_refs :: "'w repo_ops \<Rightarrow> 'w repo_view \<Rightarrow> 'w \<Rightarrow> 'w \<Rightarrow> bool" where
  "same_refs ops V w w' = (ro_head ops w' = ro_head ops w \<and> ro_author ops w' = ro_author ops w
     \<and> rv_remote_tags V w' = rv_remote_tags V w)"

definition only_paths :: "'w repo_ops \<Rightarrow> 'w repo_view \<Rightarrow> string set \<Rightarrow> 'w \<Rightarrow> 'w \<Rightarrow> bool" where
  \<comment> \<open>nothing changes but the working tree and the index at the given paths\<close>
  "only_paths ops V P w w' = (same_refs ops V w w' \<and> rv_tags V w' = rv_tags V w
     \<and> (\<forall>p. p \<notin> P \<longrightarrow> rv_file V w' p = rv_file V w p \<and> rv_index V w' p = rv_index V w p))"

definition file_laws :: "'w repo_ops \<Rightarrow> 'w repo_view \<Rightarrow> bool" where
  "file_laws ops V =
     ((\<forall>p c w. only_paths ops V {p} w (snd (ro_write ops p c w)))
    \<and> (\<forall>p w. only_paths ops V {p} w (snd (ro_unlink ops p w)))
    \<and> (\<forall>p w. only_paths ops V {p} w (snd (ro_git_rm ops p w)))
    \<and> (\<forall>p w. only_paths ops V {p} w (snd (ro_index_remove ops p w)))
    \<and> (\<forall>p w. only_paths ops V {p} w (snd (ro_rm_cached ops p w)))
    \<and> (\<forall>p w. only_paths ops V {p} w (snd (ro_index_add ops p w)))
    \<and> (\<forall>p w. only_paths ops V {p} w (snd (ro_reset_path ops p w)))
    \<and> (\<forall>ps w. only_paths ops V (set ps) w (snd (ro_checkout ops ps w)))
    \<and> (\<forall>w p. ro_exists ops w p = (rv_file V w p \<noteq> None))
    \<and> (\<forall>w r. set (ro_walk ops w r) = {p. starts_with (r @ ''/'') p \<and> rv_file V w p \<noteq> None}))"

definition ref_laws :: "'w repo_ops \<Rightarrow> 'w repo_view \<Rightarrow> bool" where
  "ref_laws ops V =
     ((\<forall>m a w. case ro_index_commit ops m a w of
          (Inl _, w') \<Rightarrow> only_paths ops V {} w w'
        | (Inr _, w') \<Rightarrow> ro_head ops w' \<noteq> ro_head ops w \<and> rv_parent V (ro_head ops w') = ro_head ops w
            \<and> ro_author ops w' = a \<and> rv_tree V (ro_head ops w') = rv_index V w
            \<and> rv_file V w' = rv_file V w \<and> rv_index V w' = rv_index V w \<and> rv_tags V w' = rv_tags V w
            \<and> rv_remote_tags V w' = rv_remote_tags V w)
    \<and> (\<forall>t m w. let w' = snd (ro_create_tag ops t m w) in same_refs ops V w w'
          \<and> rv_file V w' = rv_file V w \<and> rv_index V w' = rv_index V w \<and> rv_tags V w \<subseteq> rv_tags V w'
          \<and> rv_tags V w' \<subseteq> insert t (rv_tags V w))
    \<and> (\<forall>t w. case ro_delete_tag ops t w of (r, w') \<Rightarrow> same_refs ops V w w'
          \<and> rv_file V w' = rv_file V w \<and> rv_index V w' = rv_index V w \<and> rv_tags V w' \<subseteq> rv_tags V w
          \<and> rv_tags V w - {t} \<subseteq> rv_tags V w' \<and> (t \<in> rv_tags V w' \<longrightarrow> r \<noteq> Inr ()))
    \<and> (\<forall>ts w. let w' = snd (ro_push ops ts w) in ro_head ops w' = ro_head ops w \<and> ro_author ops w' = ro_author ops w
          \<and> rv_file V w' = rv_file V w \<and> rv_index V w' = rv_index V w \<and> rv_tags V w' = rv_tags V w)
    \<and> (\<forall>w. snd (ro_outgoing ops w) = w)
    \<and> (\<forall>w. let w' = snd (ro_fetch_tags ops w) in same_refs ops V w w'
          \<and> rv_file V w' = rv_file V w \<and> rv_index V w' = rv_index V w
          \<and> rv_tags V w \<subseteq> rv_tags V w' \<and> rv_tags V w' \<subseteq> rv_tags V w \<union> rv_remote_tags V w))"

definition recovery_laws :: "'w repo_ops \<Rightarrow> 'w repo_view \<Rightarrow> bool" where
  \<comment> \<open>the commands that undo a publish work when they are needed\<close>
  "recovery_laws ops V =
     ((\<forall>c ps w. \<exists>xs. ro_ls_tree ops c ps w = (Inr xs, w) \<and> set xs = {p \<in> set ps. rv_tree V c p \<noteq> None})
    \<and> (\<forall>p w. \<exists>w'. ro_reset_path ops p w = (Inr (), w') \<and> rv_file V w' = rv_file V w
          \<and> rv_index V w' p = rv_tree V (ro_head ops w) p)
    \<and> (\<forall>ps w. (\<forall>p \<in> set ps. rv_index V w p \<noteq> None) \<longrightarrow>
          (\<exists>w'. ro_checkout ops ps w = (Inr (), w') \<and> rv_index V w' = rv_index V w
            \<and> (\<forall>p \<in> set ps. rv_file V w' p = rv_index V w p)))
    \<and> (\<forall>w. \<exists>w'. ro_reset_hard_parent ops w = (Inr (), w') \<and> ro_head ops w' = rv_parent V (ro_head ops w)
          \<and> rv_remote_tags V w' = rv_remote_tags V w \<and> rv_tags V w' = rv_tags V w
          \<and> rv_index V w' = rv_tree V (ro_head ops w')
          \<and> (\<forall>p. rv_file V w' p = (if rv_tree V (ro_head ops w') p \<noteq> None then rv_tree V (ro_head ops w') p
                 else if rv_index V w p \<noteq> None \<or> rv_tree V (ro_head ops w) p \<noteq> None then None
                 else rv_file V w p)))
    \<and> (\<forall>p w. \<exists>w'. ro_rm_cached ops p w = (Inr (), w') \<and> rv_index V w' p = None \<and> rv_file V w' = rv_file V w)
    \<and> (\<forall>p w. \<exists>w'. ro_unlink ops p w = (Inr (), w') \<and> rv_file V w' p = None \<and> rv_index V w' = rv_index V w)
    \<and> (\<forall>t w. t \<in> rv_tags V w \<longrightarrow> fst (ro_delete_tag ops t w) = Inr ()))"

lemma only_paths_refl: "only_paths ops V P w w"
  by (simp add: only_paths_def same_refs_def)

lemma only_paths_mono: "only_paths ops V P w w' \<Longrightarrow> P \<subseteq> Q \<Longrightarrow> only_paths ops V Q w w'"
  by (auto simp: only_paths_def)

lemma only_paths_trans:
  "only_paths ops V P w w' \<Longrightarrow> only_paths ops V P w' w'' \<Longrightarrow> only_paths ops V P w w''"
  by (auto simp: only_paths_def same_refs_def)

text \<open>Actions confined to a set of paths.\<close>

definition confined :: "'w repo_ops \<Rightarrow> 'w repo_view \<Rightarrow> string set \<Rightarrow> ('w, 'a) act \<Rightarrow> bool" where
  "confined ops V P m = (\<forall>w. only_paths ops V P w (snd (m w)))"

lemma confined_keeps: "confined ops V P m \<longleftrightarrow> (\<forall>w. keeps (only_paths ops V P w) m)"
proof
  assume c: "confined ops V P m"
  show "\<forall>w. keeps (only_paths ops V P w) m"
  proof (intro allI keepsI)
    fix w u assume "only_paths ops V P w u"
    then show "only_paths ops V P w (snd (m u))"
      using c by (auto simp: confined_def intro: only_paths_trans)
  qed
next
  assume k: "\<forall>w. keeps (only_paths ops V P w) m"
  show "confined ops V P m"
    unfolding confined_def using keepsD [OF k [rule_format] only_paths_refl] by blast
qed

lemma confined_mono: "confined ops V P m \<Longrightarrow> P \<subseteq> Q \<Longrightarrow> confined ops V Q m"
  by (auto simp: confined_def intro: only_paths_mono)

lemma confined_then: "confined ops V P m \<Longrightarrow> confined ops V P n \<Longrightarrow> confined ops V P (then_act m n)"
  by (simp add: confined_keeps keeps_then)

lemma confined_swallow: "confined ops V P m \<Longrightarrow> confined ops V P (swallow m)"
  by (simp add: confined_keeps keeps_swallow)

lemma confined_catch: "confined ops V P m \<Longrightarrow> (\<And>e. confined ops V P (h e)) \<Longrightarrow> confined ops V P (catch_act m h)"
  by (simp add: confined_keeps keeps_catch)

lemma confined_each: "(\<And>x. x \<in> set xs \<Longrightarrow> confined ops V P (f x)) \<Longrightarrow> confined ops V P (each_act f xs)"
  by (simp add: confined_keeps keeps_each)

lemma confined_ret: "confined ops V P (ret x)"
  by (simp add: confined_keeps keeps_ret)

lemma file_laws_confined:
  assumes "file_laws ops V"
  shows "confined ops V {p} (ro_write ops p c)" "confined ops V {p} (ro_unlink ops p)"
    "confined ops V {p} (ro_git_rm ops p)" "confined ops V {p} (ro_index_remove ops p)"
    "confined ops V {p} (ro_rm_cached ops p)" "confined ops V {p} (ro_index_add ops p)"
    "confined ops V {p} (ro_reset_path ops p)" "confined ops V (set ps) (ro_checkout ops ps)"
  using assms by (auto simp: file_laws_def confined_def)

lemma remove_stale_confined: "file_laws ops V \<Longrightarrow> confined ops V {f} (remove_stale_conf ops f)"
  unfolding remove_stale_conf_def
  by (intro confined_catch confined_then confined_swallow file_laws_confined)

section \<open>Writing the files\<close>

definition snapshot_paths :: "'w publish_env \<Rightarrow> string set" where
  "snapshot_paths env = fst ` (set (opt_list (pe_snapshot env)) \<union> set (opt_list (pe_root_snapshot env)))"

definition moved_paths :: "(string \<times> string) list \<Rightarrow> string set" where
  "moved_paths moves = fst ` set moves \<union> snd ` set moves"

definition env_ok :: "'w repo_ops \<Rightarrow> 'w repo_view \<Rightarrow> 'w publish_env \<Rightarrow> 'w \<Rightarrow> bool" where
  \<comment> \<open>what the stamper knows is right: the flags of the conf files, the files a version is written to,
    and a migration that reports the paths it moved\<close>
  "env_ok ops V env w0 =
     ((pe_conf_existed env \<longrightarrow> rv_file V w0 (pe_app_conf env) \<noteq> None)
    \<and> (\<forall>r. pe_root_existed env \<and> pe_root_conf env = Some r \<longrightarrow> rv_file V w0 r \<noteq> None)
    \<and> fst ` set (pe_version_writes env) \<subseteq> set (pe_version_files env) \<union> set (pe_backend_files env)
    \<and> (\<forall>p \<in> snapshot_paths env. \<not> starts_with (pe_branch_conf_root env @ ''/'') p)
    \<and> (case pe_migrate_confs env w0 of
         (Inl _, w') \<Rightarrow> only_paths ops V {} w0 w'
       | (Inr moves, w') \<Rightarrow> only_paths ops V (moved_paths moves) w0 w'
           \<and> (\<forall>(s, d) \<in> set moves. rv_file V w0 s \<noteq> None \<and> s \<notin> fst ` set (pe_version_writes env))))"

definition recorded :: "'w pub \<Rightarrow> string set" where
  "recorded s = fst ` set (pb_paths s)"

definition pub_inv :: "'w repo_ops \<Rightarrow> 'w repo_view \<Rightarrow> 'w \<Rightarrow> string set \<Rightarrow> string set \<Rightarrow> 'w pub \<Rightarrow> bool" where
  \<comment> \<open>only recorded paths and those of \<open>D\<close> have changed, and all of \<open>Q\<close> is recorded\<close>
  "pub_inv ops V w0 D Q s = (only_paths ops V (recorded s \<union> D) w0 (pb_world s) \<and> Q \<subseteq> recorded s
     \<and> (\<forall>(p, e) \<in> set (pb_paths s). e \<longrightarrow> rv_file V w0 p \<noteq> None))"

lemma pub_inv_absorb: "pub_inv ops V w0 D Q s \<Longrightarrow> D \<subseteq> recorded s \<Longrightarrow> pub_inv ops V w0 {} Q s"
  by (simp add: pub_inv_def sup.absorb1)

lemma pub_inv_mono: "pub_inv ops V w0 D Q s \<Longrightarrow> D \<subseteq> D' \<Longrightarrow> R \<subseteq> Q \<Longrightarrow> pub_inv ops V w0 D' R s"
  unfolding pub_inv_def by (auto intro: only_paths_mono)

lemma record_one:
  assumes inv: "pub_inv ops V w0 D Q s" and ex: "file_laws ops V"
    and flag: "\<And>b. existed = Some b \<Longrightarrow> b \<Longrightarrow> p \<notin> Q \<Longrightarrow> rv_file V w0 p \<noteq> None"
    and now: "existed = None \<Longrightarrow> p \<notin> D"
  shows "\<exists>s'. record_paths (ro_exists ops) existed [p] s = (Inr (), s') \<and> pub_inv ops V w0 D (insert p Q) s'
    \<and> pb_world s' = pb_world s \<and> pb_added s' = pb_added s"
proof (cases "od_has (pb_paths s) p")
  case True
  then have "p \<in> recorded s" by (force simp: od_has_def recorded_def dest: map_of_SomeD)
  then show ?thesis using True inv by (simp add: then_act_def bind_act_def pub_inv_def)
next
  case False
  then have np: "p \<notin> recorded s" by (auto simp: od_has_def recorded_def map_of_eq_None_iff)
  let ?e = "case existed of None \<Rightarrow> ro_exists ops (pb_world s) p | Some b \<Rightarrow> b"
  let ?s = "s\<lparr>pb_paths := pb_paths s @ [(p, ?e)]\<rparr>"
  have r: "recorded ?s = insert p (recorded s)" by (auto simp: recorded_def)
  have "rv_file V w0 p \<noteq> None" if "?e"
  proof (cases existed)
    case None
    then have "rv_file V (pb_world s) p \<noteq> None" using that ex by (simp add: file_laws_def)
    moreover have "rv_file V (pb_world s) p = rv_file V w0 p"
      using inv np now [OF None] by (simp add: pub_inv_def only_paths_def)
    ultimately show ?thesis by simp
  next
    case (Some b)
    have "p \<notin> Q" using inv np by (auto simp: pub_inv_def)
    then show ?thesis using that flag Some by simp
  qed
  then have "pub_inv ops V w0 D (insert p Q) ?s"
    using inv unfolding pub_inv_def r by (auto intro: only_paths_mono)
  then show ?thesis using False by (simp add: then_act_def bind_act_def)
qed

lemma record_paths_Cons: "record_paths ex e (p # ps) = then_act (record_paths ex e [p]) (record_paths ex e ps)"
  by (rule ext) (simp add: then_act_def bind_act_def)

lemma then_act_Inr: "m s = (Inr x, s') \<Longrightarrow> then_act m n s = n s'"
  by (simp add: then_act_def bind_act_def)

lemma record_many:
  assumes ex: "file_laws ops V"
    and flag: "\<And>b p. existed = Some b \<Longrightarrow> b \<Longrightarrow> p \<in> set ps \<Longrightarrow> p \<notin> Q \<Longrightarrow> rv_file V w0 p \<noteq> None"
    and now: "existed = None \<Longrightarrow> D = {}"
    and inv: "pub_inv ops V w0 D Q s"
  shows "\<exists>s'. record_paths (ro_exists ops) existed ps s = (Inr (), s') \<and> pub_inv ops V w0 D (Q \<union> set ps) s'
    \<and> pb_world s' = pb_world s \<and> pb_added s' = pb_added s"
  using flag inv
proof (induction ps arbitrary: s Q)
  case Nil
  then show ?case by simp
next
  case (Cons p ps)
  obtain s1 where s1: "record_paths (ro_exists ops) existed [p] s = (Inr (), s1)"
      "pub_inv ops V w0 D (insert p Q) s1" "pb_world s1 = pb_world s" "pb_added s1 = pb_added s"
    using record_one [OF Cons.prems(2) ex, of existed p] Cons.prems(1) now by auto
  obtain s2 where "record_paths (ro_exists ops) existed ps s1 = (Inr (), s2)"
      "pub_inv ops V w0 D (insert p Q \<union> set ps) s2" "pb_world s2 = pb_world s1" "pb_added s2 = pb_added s1"
    using Cons.IH [OF _ s1(2)] Cons.prems(1) by auto
  then show ?case using s1 by (subst record_paths_Cons) (simp add: then_act_Inr [where m = "record_paths (ro_exists ops) existed [p]", OF s1(1)] del: record_paths.simps)
qed


lemma record_moves:
  assumes ex: "file_laws ops V" and src: "\<forall>(s, d) \<in> set moves. rv_file V w0 s \<noteq> None"
    and inv: "pub_inv ops V w0 D Q s"
  shows "\<exists>s'. each_act (\<lambda>(src, dst). then_act (record_paths (ro_exists ops) (Some True) [src])
       (record_paths (ro_exists ops) (Some False) [dst])) moves s = (Inr (), s')
    \<and> pub_inv ops V w0 D (Q \<union> moved_paths moves) s' \<and> pb_world s' = pb_world s \<and> pb_added s' = pb_added s"
  using src inv
proof (induction moves arbitrary: s Q)
  case Nil
  then show ?case by (simp add: moved_paths_def)
next
  case (Cons m ms)
  obtain a b where m: "m = (a, b)" by (cases m)
  obtain s1 where s1: "record_paths (ro_exists ops) (Some True) [a] s = (Inr (), s1)"
      "pub_inv ops V w0 D (Q \<union> set [a]) s1" "pb_world s1 = pb_world s" "pb_added s1 = pb_added s"
    using record_many [OF ex _ _ Cons.prems(2), of "Some True" "[a]"] Cons.prems(1) m by auto
  obtain s2 where s2: "record_paths (ro_exists ops) (Some False) [b] s1 = (Inr (), s2)"
      "pub_inv ops V w0 D (Q \<union> set [a] \<union> set [b]) s2" "pb_world s2 = pb_world s1" "pb_added s2 = pb_added s1"
    using record_many [OF ex _ _ s1(2), of "Some False" "[b]"] by auto
  have two: "then_act (record_paths (ro_exists ops) (Some True) [a])
       (record_paths (ro_exists ops) (Some False) [b]) s = (Inr (), s2)"
    using s1(1) s2(1) unfolding then_act_def bind_act_def by simp
  obtain s3 where "each_act (\<lambda>(src, dst). then_act (record_paths (ro_exists ops) (Some True) [src])
       (record_paths (ro_exists ops) (Some False) [dst])) ms s2 = (Inr (), s3)"
      "pub_inv ops V w0 D ((Q \<union> set [a] \<union> set [b]) \<union> moved_paths ms) s3" "pb_world s3 = pb_world s2"
      "pb_added s3 = pb_added s2"
    using Cons.IH [OF _ s2(2)] Cons.prems(1) by auto
  then show ?case using m s1(3,4) s2(3,4)
    by (simp add: then_act_def bind_act_def two [unfolded then_act_def bind_act_def] moved_paths_def
        Un_assoc Un_left_commute del: record_paths.simps)
qed


lemma remap_moved: "remap moves p = p \<or> p \<in> fst ` set moves \<and> remap moves p \<in> moved_paths moves"
  by (auto simp: remap_def moved_paths_def dest: map_of_SomeD split: option.splits intro: rev_image_eqI)

definition stale_paths :: "'w repo_view \<Rightarrow> 'w publish_env \<Rightarrow> 'w \<Rightarrow> string set" where
  "stale_paths V env w = {p. starts_with (pe_branch_conf_root env @ ''/'') p
     \<and> \<not> starts_with (pe_keep_prefix env) p \<and> rv_file V w p \<noteq> None}"

lemma collect_stale_set:
  "file_laws ops V \<Longrightarrow> set (collect_stale_branch_confs ops env w) = stale_paths V env w"
  by (auto simp: collect_stale_branch_confs_def file_laws_def stale_paths_def)

definition expected_paths :: "'w publish_env \<Rightarrow> string set" where
  "expected_paths env = {pe_app_conf env} \<union> set (opt_list (pe_root_conf env)) \<union> set (pe_version_files env)
     \<union> set (pe_backend_files env) \<union> set (opt_list (pe_changelog_path env))"

lemma seq_step: "m s = (Inr x, s') \<Longrightarrow> then_act m n s = n s'"
  by (simp add: then_act_def bind_act_def)

lemma record_expected_ok:
  assumes ex: "file_laws ops V" and src: "\<forall>(a, b) \<in> set moves. rv_file V w0 a \<noteq> None"
    and inv: "pub_inv ops V w0 (moved_paths moves) {} s"
    and conf: "pe_conf_existed env \<Longrightarrow> pe_app_conf env \<notin> moved_paths moves \<Longrightarrow> rv_file V w0 (pe_app_conf env) \<noteq> None"
    and root: "\<And>r. pe_root_existed env \<Longrightarrow> pe_root_conf env = Some r \<Longrightarrow> r \<notin> moved_paths moves \<Longrightarrow> rv_file V w0 r \<noteq> None"
  shows "\<exists>s'. record_expected ops moves env s = (Inr (), s')
    \<and> pub_inv ops V w0 {} (expected_paths env \<union> stale_paths V env w0) s' \<and> pb_added s' = pb_added s"
proof -
  let ?M = "moved_paths moves"
  obtain s1 where s1: "each_act (\<lambda>(src, dst). then_act (record_paths (ro_exists ops) (Some True) [src])
       (record_paths (ro_exists ops) (Some False) [dst])) moves s = (Inr (), s1)"
      "pub_inv ops V w0 ?M ({} \<union> ?M) s1" "pb_world s1 = pb_world s" "pb_added s1 = pb_added s"
    using record_moves [OF ex src inv] by blast
  have i1: "pub_inv ops V w0 {} ?M s1"
    using pub_inv_absorb [OF s1(2)] s1(2) by (simp add: pub_inv_def)
  obtain s2 where s2: "record_paths (ro_exists ops) (Some (pe_conf_existed env)) [pe_app_conf env] s1 = (Inr (), s2)"
      "pub_inv ops V w0 {} (?M \<union> set [pe_app_conf env]) s2" "pb_world s2 = pb_world s1" "pb_added s2 = pb_added s1"
    using record_many [OF ex _ _ i1, of "Some (pe_conf_existed env)" "[pe_app_conf env]"] conf by auto
  obtain s3 where s3: "record_paths (ro_exists ops) (Some (pe_root_existed env)) (opt_list (pe_root_conf env)) s2 = (Inr (), s3)"
      "pub_inv ops V w0 {} (?M \<union> set [pe_app_conf env] \<union> set (opt_list (pe_root_conf env))) s3"
      "pb_world s3 = pb_world s2" "pb_added s3 = pb_added s2"
    using record_many [OF ex _ _ s2(2), of "Some (pe_root_existed env)" "opt_list (pe_root_conf env)"] root
    by (auto simp: opt_list_def split: option.splits)
  let ?L = "pe_version_files env @ pe_backend_files env @ opt_list (pe_changelog_path env)"
  obtain s4 where s4: "record_paths (ro_exists ops) None ?L s3 = (Inr (), s4)"
      "pub_inv ops V w0 {} (?M \<union> set [pe_app_conf env] \<union> set (opt_list (pe_root_conf env)) \<union> set ?L) s4"
      "pb_world s4 = pb_world s3" "pb_added s4 = pb_added s3"
    using record_many [OF ex _ _ s3(2), of None ?L] by auto
  let ?S = "collect_stale_branch_confs ops env (pb_world s4)"
  obtain s5 where s5: "record_paths (ro_exists ops) (Some False) ?S s4 = (Inr (), s5)"
      "pub_inv ops V w0 {} (?M \<union> set [pe_app_conf env] \<union> set (opt_list (pe_root_conf env)) \<union> set ?L \<union> set ?S) s5"
      "pb_world s5 = pb_world s4" "pb_added s5 = pb_added s4"
    using record_many [OF ex _ _ s4(2), of "Some False" ?S] by auto
  have run: "record_expected ops moves env s = (Inr (), s5)"
    by (simp only: record_expected_def then_act_def bind_act_def s1(1) [unfolded then_act_def bind_act_def]
        s2(1) s3(1) s4(1) s5(1) prod.case sum.case)
  have "stale_paths V env w0 \<subseteq> recorded s5"
  proof
    fix p assume p: "p \<in> stale_paths V env w0"
    show "p \<in> recorded s5"
    proof (rule ccontr)
      assume n: "p \<notin> recorded s5"
      then have "rv_file V (pb_world s5) p = rv_file V w0 p"
        using s5(2) by (simp add: pub_inv_def only_paths_def)
      then have "p \<in> set ?S" using p s5(3) by (simp add: collect_stale_set [OF ex] stale_paths_def)
      then show False using s5(2) n by (auto simp: pub_inv_def)
    qed
  qed
  then have "pub_inv ops V w0 {} (expected_paths env \<union> stale_paths V env w0) s5"
    using s5(2) unfolding pub_inv_def expected_paths_def by auto
  then show ?thesis using run s1(4) s2(4) s3(4) s4(4) s5(4) by simp
qed


lemma keeps_lift_confined:
  assumes "confined ops V {p} m" "p \<in> Q \<union> D"
  shows "keeps (pub_inv ops V w0 D Q) (lift m)"
proof (rule keepsI)
  fix s assume inv: "pub_inv ops V w0 D Q s"
  obtain r w where m: "m (pb_world s) = (r, w)" by (cases "m (pb_world s)")
  have "only_paths ops V {p} (pb_world s) w" using assms(1) m by (metis confined_def snd_conv)
  then have "only_paths ops V (recorded s \<union> D) (pb_world s) w"
    by (rule only_paths_mono) (use assms(2) inv in \<open>auto simp: pub_inv_def\<close>)
  then show "pub_inv ops V w0 D Q (snd (lift m s))"
    using inv m by (auto simp: pub_inv_def lift_def recorded_def intro: only_paths_trans)
qed

lemma keeps_add_files: "keeps (pub_inv ops V w0 D Q) (add_files fs)"
  by (rule keepsI) (simp add: add_files_def pub_inv_def recorded_def)

lemma keeps_files_to_add: "keeps (pub_inv ops V w0 D Q) (files_to_add_to_index ops ps)"
  by (rule keepsI) (simp add: files_to_add_to_index_def add_files_def pub_inv_def recorded_def)

lemma keeps_write_file:
  "file_laws ops V \<Longrightarrow> fst pc \<in> Q \<union> D \<Longrightarrow> keeps (pub_inv ops V w0 D Q) (write_file ops env pc)"
  unfolding write_file_def
  by (rule keeps_when) (rule keeps_lift_confined [OF file_laws_confined(1)])

lemma keeps_snapshot:
  "file_laws ops V \<Longrightarrow> (\<And>p t. snap = Some (p, t) \<Longrightarrow> p \<in> Q \<union> D) \<Longrightarrow>
    keeps (pub_inv ops V w0 D Q) (write_snapshot_file ops env snap)"
  unfolding write_snapshot_file_def
  by (auto split: option.splits intro!: keeps_ret keeps_then keeps_add_files keeps_lift_confined file_laws_confined)

lemma keeps_body:
  assumes ex: "file_laws ops V" and Q: "expected_paths env \<subseteq> Q" and D: "snapshot_paths env \<subseteq> D"
    and w: "fst ` set (pe_version_writes env) \<subseteq> Q"
  shows "keeps (pub_inv ops V w0 D Q) (write_stamp_body ops env)"
proof -
  have a: "keeps (pub_inv ops V w0 D Q) (migrate_deprecated_conf_keys ops env)"
  proof (rule keepsI)
    fix s assume i: "pub_inv ops V w0 D Q s"
    show "pub_inv ops V w0 D Q (snd (migrate_deprecated_conf_keys ops env s))"
    proof (cases "pe_conf_rewrite env (pb_world s) (pe_app_conf env)")
      case (Some t)
      have "keeps (pub_inv ops V w0 D Q) (write_file ops env (pe_app_conf env, t))"
        by (rule keeps_write_file [OF ex]) (use Q in \<open>auto simp: expected_paths_def\<close>)
      then show ?thesis using i Some by (simp add: migrate_deprecated_conf_keys_def keepsD)
    qed (use i in \<open>simp add: migrate_deprecated_conf_keys_def\<close>)
  qed
  have b: "keeps (pub_inv ops V w0 D Q) (generate_changelog ops env)"
  proof (rule keepsI)
    fix s assume i: "pub_inv ops V w0 D Q s"
    have k: "keeps (pub_inv ops V w0 D Q) (swallow (then_act (lift (ro_write ops p t)) (add_files [p])))"
      if "pe_changelog_path env = Some p" for p t
      by (intro keeps_swallow keeps_then keeps_add_files keeps_lift_confined [OF file_laws_confined(1) [OF ex]])
        (use that Q in \<open>auto simp: expected_paths_def opt_list_def\<close>)
    show "pub_inv ops V w0 D Q (snd (generate_changelog ops env s))"
      using i keepsD [OF k i] by (auto simp: generate_changelog_def split: option.splits)
  qed
  have c: "keeps (pub_inv ops V w0 D Q) (each_act (write_file ops env) (pe_version_writes env))"
    by (intro keeps_each keeps_write_file ex) (use w in auto)
  have d: "keeps (pub_inv ops V w0 D Q) (write_snapshot_file ops env (pe_snapshot env))"
    "keeps (pub_inv ops V w0 D Q) (write_snapshot_file ops env (pe_root_snapshot env))"
    by (intro keeps_snapshot ex; use D in \<open>auto simp: snapshot_paths_def opt_list_def\<close>)+
  show ?thesis unfolding write_stamp_body_def
    by (intro keeps_then a b c d keeps_files_to_add keeps_add_files)
      (cases "pe_root_conf env"; simp add: keeps_ret keeps_then keeps_files_to_add d)
qed

definition same_stale :: "'w publish_env \<Rightarrow> 'w publish_env \<Rightarrow> bool" where
  "same_stale env env' = (pe_branch_conf_root env' = pe_branch_conf_root env
     \<and> pe_keep_prefix env' = pe_keep_prefix env \<and> pe_dry_run env' = pe_dry_run env)"

lemma remap_env_same: "same_stale env (remap_env moves env)" "snapshot_paths (remap_env moves env) = snapshot_paths env"
  by (simp_all add: same_stale_def remap_env_def snapshot_paths_def)

lemma stale_paths_same: "same_stale env env' \<Longrightarrow> stale_paths V env' w = stale_paths V env w"
  by (simp add: same_stale_def stale_paths_def)

lemma after_migration:
  assumes ex: "file_laws ops V" and inv: "pub_inv ops V w0 (moved_paths moves) {} s" and added: "pb_added s = []"
    and src: "\<forall>(a, b) \<in> set moves. rv_file V w0 a \<noteq> None"
    and conf: "pe_conf_existed env \<Longrightarrow> pe_app_conf env \<notin> moved_paths moves \<Longrightarrow> rv_file V w0 (pe_app_conf env) \<noteq> None"
    and root: "\<And>r. pe_root_existed env \<Longrightarrow> pe_root_conf env = Some r \<Longrightarrow> r \<notin> moved_paths moves \<Longrightarrow> rv_file V w0 r \<noteq> None"
    and w: "fst ` set (pe_version_writes env) \<subseteq> expected_paths env"
    and run: "then_act (record_expected ops moves env) (then_act (finally_act (write_stamp_body ops env)
        (\<lambda>s. record_paths (ro_exists ops) (Some False) (pb_added s) s)) (ret env)) s = (r, s')"
  shows "pub_inv ops V w0 (snapshot_paths env) (stale_paths V env w0 \<union> set (pb_added s')) s'
    \<and> (\<forall>env'. r = Inr env' \<longrightarrow> env' = env)"
proof -
  let ?Q = "expected_paths env \<union> stale_paths V env w0" and ?D = "snapshot_paths env"
  obtain s1 where s1: "record_expected ops moves env s = (Inr (), s1)" "pub_inv ops V w0 {} ?Q s1"
    using record_expected_ok [OF ex src inv conf root] by blast
  obtain q s2 where s2: "write_stamp_body ops env s1 = (q, s2)" by (cases "write_stamp_body ops env s1")
  have "pub_inv ops V w0 ?D ?Q s1" using pub_inv_mono [OF s1(2)] by simp
  moreover have "keeps (pub_inv ops V w0 ?D ?Q) (write_stamp_body ops env)"
    by (rule keeps_body [OF ex]) (use w in auto)
  ultimately have "pub_inv ops V w0 ?D ?Q (snd (write_stamp_body ops env s1))" by (rule keepsD [rotated])
  then have i2: "pub_inv ops V w0 ?D ?Q s2" using s2 by simp
  obtain s3 where s3: "record_paths (ro_exists ops) (Some False) (pb_added s2) s2 = (Inr (), s3)"
      "pub_inv ops V w0 ?D (?Q \<union> set (pb_added s2)) s3" "pb_added s3 = pb_added s2"
    using record_many [OF ex _ _ i2, of "Some False" "pb_added s2"] by auto
  have "(r, s') = (case q of Inl e \<Rightarrow> (Inl e, s3) | Inr _ \<Rightarrow> (Inr env, s3))"
    unfolding run [symmetric] then_act_def bind_act_def finally_act_def s1(1) s2 s3(1) prod.case sum.case
    by (cases q) simp_all
  then have "s' = s3" "\<forall>env'. r = Inr env' \<longrightarrow> env' = env" by (cases q; simp)+
  moreover have "pub_inv ops V w0 ?D (stale_paths V env w0 \<union> set (pb_added s3)) s3"
    using s3(2) by (rule pub_inv_mono) (use s3(3) in auto)
  ultimately show ?thesis by simp
qed


lemma write_stamp_files_ok:
  assumes ex: "file_laws ops V" and env: "env_ok ops V env w0" and dry: "\<not> pe_dry_run env"
    and run: "write_stamp_files ops env \<lparr>pb_world = w0, pb_paths = [], pb_added = []\<rparr> = (r, s')"
  shows "(case r of Inl _ \<Rightarrow> pub_inv ops V w0 (snapshot_paths env) {} s'
     | Inr env' \<Rightarrow> pub_inv ops V w0 (snapshot_paths env) (stale_paths V env w0 \<union> set (pb_added s')) s'
         \<and> same_stale env env')"
proof -
  obtain q w1 where q: "pe_migrate_confs env w0 = (q, w1)" by (cases "pe_migrate_confs env w0")
  let ?s1 = "\<lparr>pb_world = w1, pb_paths = [], pb_added = []\<rparr>"
  let ?rest = "\<lambda>moves env. then_act (record_expected ops moves env) (then_act (finally_act (write_stamp_body ops env)
        (\<lambda>s. record_paths (ro_exists ops) (Some False) (pb_added s) s)) (ret env))"
  show ?thesis
  proof (cases q)
    case (Inl e)
    then have "only_paths ops V {} w0 w1" using env q by (simp add: env_ok_def)
    then have "pub_inv ops V w0 (snapshot_paths env) {} ?s1"
      by (auto simp: pub_inv_def recorded_def intro: only_paths_mono)
    moreover have "r = Inl e \<and> s' = ?s1" using run q Inl
      by (simp add: write_stamp_files_def migrate_branch_confs_def bind_act_def lift_def)
    ultimately show ?thesis by simp
  next
    case (Inr moves)
    have m: "only_paths ops V (moved_paths moves) w0 w1"
        "\<forall>(s, d) \<in> set moves. rv_file V w0 s \<noteq> None \<and> s \<notin> fst ` set (pe_version_writes env)"
      using env q Inr by (auto simp: env_ok_def)
    define env' where "env' = (if moves = [] then env else remap_env moves env)"
    have start: "pub_inv ops V w0 (moved_paths moves) {} ?s1" using m(1) by (simp add: pub_inv_def recorded_def)
    have go: "?rest moves env' ?s1 = (r, s')"
      using run q Inr dry unfolding write_stamp_files_def migrate_branch_confs_def bind_act_def lift_def env'_def
      by (cases "moves = []") (simp_all add: case_prod_beta)
    have f: "pe_conf_existed env' = pe_conf_existed env" "pe_root_existed env' = pe_root_existed env"
      "pe_version_writes env' = pe_version_writes env" "pe_backend_files env' = pe_backend_files env"
      "pe_app_conf env' = remap moves (pe_app_conf env)" "pe_root_conf env' = map_option (remap moves) (pe_root_conf env)"
      "pe_version_files env' = map (remap moves) (pe_version_files env)"
      by (cases "pe_root_conf env"; simp add: env'_def remap_env_def remap_def map_idI)+
    have conf: "rv_file V w0 (pe_app_conf env') \<noteq> None"
      if "pe_conf_existed env'" "pe_app_conf env' \<notin> moved_paths moves"
      using that env remap_moved [of moves "pe_app_conf env"] by (auto simp: f env_ok_def)
    have root: "rv_file V w0 x \<noteq> None"
      if x: "pe_root_existed env'" "pe_root_conf env' = Some x" "x \<notin> moved_paths moves" for x
    proof -
      obtain z where z: "pe_root_conf env = Some z" "x = remap moves z" using x(2) f(6) by auto
      then have "x = z" using x(3) remap_moved [of moves z] by auto
      then show ?thesis using x(1) z(1) env f(2) by (simp add: env_ok_def)
    qed
    have w: "fst ` set (pe_version_writes env') \<subseteq> expected_paths env'"
    proof
      fix p assume p: "p \<in> fst ` set (pe_version_writes env')"
      then have "p \<notin> fst ` set moves" using m(2) by (force simp: f)
      then have "remap moves p = p" using remap_moved [of moves p] by simp
      moreover have "p \<in> set (pe_version_files env) \<union> set (pe_backend_files env)"
        using p env by (auto simp: f env_ok_def)
      ultimately show "p \<in> expected_paths env'" by (auto simp: expected_paths_def f intro: rev_image_eqI)
    qed
    have "pub_inv ops V w0 (snapshot_paths env') (stale_paths V env' w0 \<union> set (pb_added s')) s'
      \<and> (\<forall>e. r = Inr e \<longrightarrow> e = env')"
      by (rule after_migration [OF ex start _ _ conf root w go]) (use m(2) in auto)
    moreover have "same_stale env env'" "snapshot_paths env' = snapshot_paths env"
      by (simp_all add: env'_def same_stale_def remap_env_def snapshot_paths_def)
    moreover from this have "stale_paths V env' w0 = stale_paths V env w0"
      by (simp add: stale_paths_def same_stale_def)
    ultimately show ?thesis by (cases r) (auto intro: pub_inv_mono)
  qed
qed

section \<open>Committing and tagging\<close>

definition committed_inv :: "'w repo_ops \<Rightarrow> 'w repo_view \<Rightarrow> 'w \<Rightarrow> string set \<Rightarrow> string set \<Rightarrow> 'w \<Rightarrow> bool" where
  \<comment> \<open>the branch is at the stamp commit, which differs from its parent at paths of \<open>P\<close> only\<close>
  "committed_inv ops V w0 P T w =
     (ro_head ops w \<noteq> ro_head ops w0 \<and> rv_parent V (ro_head ops w) = ro_head ops w0
      \<and> ro_author ops w = VMN_USER_NAME \<and> rv_tags V w0 \<subseteq> rv_tags V w \<and> rv_tags V w \<subseteq> rv_tags V w0 \<union> T
      \<and> (\<forall>p. p \<notin> P \<longrightarrow> rv_tree V (ro_head ops w) p = rv_index V w0 p
           \<and> rv_file V w p = rv_file V w0 p \<and> rv_index V w p = rv_index V w0 p))"

lemma commit_outcome:
  assumes refs: "ref_laws ops V" and ex: "file_laws ops V"
    and start: "only_paths ops V P w0 w" and files: "set files \<subseteq> P"
    and run: "backend_commit ops msg VMN_USER_NAME files w = (r, w')"
  shows "case r of Inl _ \<Rightarrow> only_paths ops V P w0 w' | Inr _ \<Rightarrow> committed_inv ops V w0 P {} w'"
proof -
  have "confined ops V P (each_act (ro_index_add ops) files)"
    by (rule confined_each, rule confined_mono [OF file_laws_confined(6) [OF ex]]) (use files in auto)
  moreover obtain q w1 where q: "each_act (ro_index_add ops) files w = (q, w1)"
    by (cases "each_act (ro_index_add ops) files w")
  ultimately have o1: "only_paths ops V P w0 w1"
    using start only_paths_trans by (metis confined_def snd_conv)
  show ?thesis
  proof (cases q)
    case (Inl e)
    then have "r = Inl e \<and> w' = w1" using run q by (simp add: backend_commit_def then_act_def bind_act_def)
    then show ?thesis using o1 by simp
  next
    case (Inr u)
    then have c: "ro_index_commit ops msg VMN_USER_NAME w1 = (r, w')"
      using run q by (simp add: backend_commit_def then_act_def bind_act_def)
    have law: "case ro_index_commit ops msg VMN_USER_NAME w1 of
          (Inl _, w') \<Rightarrow> only_paths ops V {} w1 w'
        | (Inr _, w') \<Rightarrow> ro_head ops w' \<noteq> ro_head ops w1 \<and> rv_parent V (ro_head ops w') = ro_head ops w1
            \<and> ro_author ops w' = VMN_USER_NAME \<and> rv_tree V (ro_head ops w') = rv_index V w1
            \<and> rv_file V w' = rv_file V w1 \<and> rv_index V w' = rv_index V w1 \<and> rv_tags V w' = rv_tags V w1
            \<and> rv_remote_tags V w' = rv_remote_tags V w1"
      using refs by (simp add: ref_laws_def)
    show ?thesis
    proof (cases r)
      case (Inl e)
      then have "only_paths ops V {} w1 w'" using law c by simp
      then have "only_paths ops V P w1 w'" by (rule only_paths_mono) simp
      then show ?thesis using only_paths_trans [OF o1] Inl by simp
    next
      case (Inr v)
      then show ?thesis using law c o1 by (auto simp: committed_inv_def only_paths_def same_refs_def)
    qed
  qed
qed

lemma publish_commit_outcome:
  assumes refs: "ref_laws ops V" and ex: "file_laws ops V" and dry: "\<not> pe_dry_run env'"
    and same: "same_stale env env'" and safe: "\<forall>p \<in> D. \<not> starts_with (pe_branch_conf_root env @ ''/'') p"
    and inv: "pub_inv ops V w0 D (stale_paths V env w0 \<union> set (pb_added s)) s"
    and run: "publish_commit ops env' msg s = (r, s')"
  shows "pb_paths s' = pb_paths s \<and> (case r of Inl _ \<Rightarrow> only_paths ops V (recorded s \<union> D) w0 (pb_world s')
     | Inr _ \<Rightarrow> committed_inv ops V w0 (recorded s \<union> D) {} (pb_world s'))"
proof -
  let ?P = "recorded s \<union> D"
  let ?stale = "collect_stale_branch_confs ops env' (pb_world s)"
  have start: "only_paths ops V ?P w0 (pb_world s)" using inv by (simp add: pub_inv_def)
  have stale: "set ?stale \<subseteq> ?P"
  proof
    fix p assume "p \<in> set ?stale"
    then have p: "p \<in> stale_paths V env (pb_world s)"
      using collect_stale_set [OF ex] stale_paths_same [OF same] by metis
    show "p \<in> ?P"
    proof (rule ccontr)
      assume n: "p \<notin> ?P"
      then have "p \<in> stale_paths V env w0" using p start by (simp add: stale_paths_def only_paths_def)
      then show False using inv n by (auto simp: pub_inv_def)
    qed
  qed
  have "confined ops V ?P (each_act (remove_stale_conf ops) ?stale)"
    by (rule confined_each, rule confined_mono [OF remove_stale_confined [OF ex]]) (use stale in auto)
  moreover obtain q w1 where q: "each_act (remove_stale_conf ops) ?stale (pb_world s) = (q, w1)"
    by (cases "each_act (remove_stale_conf ops) ?stale (pb_world s)")
  ultimately have o1: "only_paths ops V ?P w0 w1" using start only_paths_trans by (metis confined_def snd_conv)
  obtain c w2 where c: "backend_commit ops msg VMN_USER_NAME (pb_added s) w1 = (c, w2)"
    by (cases "backend_commit ops msg VMN_USER_NAME (pb_added s) w1")
  have oc: "case c of Inl _ \<Rightarrow> only_paths ops V ?P w0 w2 | Inr _ \<Rightarrow> committed_inv ops V w0 ?P {} w2"
    by (rule commit_outcome [OF refs ex o1 _ c]) (use inv in \<open>auto simp: pub_inv_def\<close>)
  show ?thesis
    using run dry q c o1 oc
    by (cases q; cases c) (auto simp: publish_commit_def Let_def then_act_def bind_act_def lift_def)
qed

lemma committed_tags:
  assumes refs: "ref_laws ops V" and inv: "committed_inv ops V w0 P T w" and t: "t \<in> T"
  shows "committed_inv ops V w0 P T (snd (ro_create_tag ops t m w))"
proof -
  have "let w' = snd (ro_create_tag ops t m w) in same_refs ops V w w'
          \<and> rv_file V w' = rv_file V w \<and> rv_index V w' = rv_index V w \<and> rv_tags V w \<subseteq> rv_tags V w'
          \<and> rv_tags V w' \<subseteq> insert t (rv_tags V w)"
    using refs by (simp add: ref_laws_def)
  then show ?thesis using inv t by (auto simp: committed_inv_def same_refs_def Let_def)
qed

lemma keeps_lift_world: "keeps I m \<Longrightarrow> keeps (\<lambda>s. I (pb_world s)) (lift m)"
  by (auto simp: keeps_def lift_def split: prod.splits)

lemma keeps_lift_paths: "keeps (\<lambda>s. pb_paths s = ps) (lift m)"
  by (auto simp: keeps_def lift_def split: prod.splits)

lemma keeps_create_tags:
  assumes "ref_laws ops V" "fst ` set tags \<subseteq> T"
  shows "keeps (\<lambda>s. committed_inv ops V w0 P T (pb_world s)) (create_tags ops env tags)"
  unfolding create_tags_def
proof (rule keeps_each)
  fix x assume "x \<in> set tags"
  moreover obtain t m where "x = (t, m)" by (cases x)
  ultimately have "keeps (committed_inv ops V w0 P T) (ro_create_tag ops t m)" "x = (t, m)"
    using assms committed_tags by (fastforce simp: keeps_def)+
  then show "keeps (\<lambda>s. committed_inv ops V w0 P T (pb_world s))
      (case x of (t, m) \<Rightarrow> when_act (\<not> pe_dry_run env) (lift (ro_create_tag ops t m)))"
    by (simp add: keeps_when keeps_lift_world)
qed

lemma keeps_push:
  assumes "ref_laws ops V"
  shows "keeps (committed_inv ops V w0 P T) (push_published_refs ops ts)"
proof -
  have a: "keeps (committed_inv ops V w0 P T) (ro_push ops ts)"
    using assms by (auto simp: keeps_def ref_laws_def committed_inv_def Let_def)
  have b: "keeps (committed_inv ops V w0 P T) (ro_outgoing ops)"
    using assms by (auto simp: keeps_def ref_laws_def)
  show ?thesis unfolding push_published_refs_def
    by (intro keeps_then keeps_bind a b) (simp add: keeps_raise keeps_ret)
qed

section \<open>Undoing\<close>

definition restored :: "'w repo_ops \<Rightarrow> 'w repo_view \<Rightarrow> 'w \<Rightarrow> string set \<Rightarrow> string set \<Rightarrow> 'w \<Rightarrow> bool" where
  \<comment> \<open>as at \<open>w0\<close>, but for the tags of \<open>T\<close>, which may be gone, the tags of the remote, which may have come,
    and the files at the paths of \<open>D\<close>\<close>
  "restored ops V w0 T D w =
     (ro_head ops w = ro_head ops w0 \<and> rv_tags V w0 - T \<subseteq> rv_tags V w \<and> rv_tags V w \<subseteq> rv_tags V w0 \<union> rv_remote_tags V w
      \<and> (\<forall>p. p \<notin> D \<longrightarrow> rv_index V w p = rv_tree V (ro_head ops w0) p)
      \<and> (\<forall>p. p \<notin> D \<and> rv_tree V (ro_head ops w0) p \<noteq> None \<longrightarrow> rv_file V w p = rv_tree V (ro_head ops w0) p)
      \<and> (\<forall>p. p \<notin> D \<and> rv_tree V (ro_head ops w0) p = None \<and> rv_file V w0 p = None \<longrightarrow> rv_file V w p = None))"

definition clean :: "'w repo_ops \<Rightarrow> 'w repo_view \<Rightarrow> 'w \<Rightarrow> bool" where
  \<comment> \<open>no pending change: committed files and the index are as in the commit\<close>
  "clean ops V w = (rv_index V w = rv_tree V (ro_head ops w)
     \<and> (\<forall>p. rv_tree V (ro_head ops w) p \<noteq> None \<longrightarrow> rv_file V w p = rv_tree V (ro_head ops w) p))"

lemma recoveryD:
  assumes "recovery_laws ops V"
  shows "\<exists>xs. ro_ls_tree ops c ps w = (Inr xs, w) \<and> set xs = {p \<in> set ps. rv_tree V c p \<noteq> None}"
    and "\<exists>w'. ro_reset_path ops p w = (Inr (), w') \<and> rv_file V w' = rv_file V w
          \<and> rv_index V w' p = rv_tree V (ro_head ops w) p"
    and "\<forall>p \<in> set ps. rv_index V w p \<noteq> None \<Longrightarrow>
          \<exists>w'. ro_checkout ops ps w = (Inr (), w') \<and> rv_index V w' = rv_index V w
            \<and> (\<forall>p \<in> set ps. rv_file V w' p = rv_index V w p)"
    and "\<exists>w'. ro_reset_hard_parent ops w = (Inr (), w') \<and> ro_head ops w' = rv_parent V (ro_head ops w)
          \<and> rv_remote_tags V w' = rv_remote_tags V w \<and> rv_tags V w' = rv_tags V w
          \<and> rv_index V w' = rv_tree V (ro_head ops w')
          \<and> (\<forall>p. rv_file V w' p = (if rv_tree V (ro_head ops w') p \<noteq> None then rv_tree V (ro_head ops w') p
                 else if rv_index V w p \<noteq> None \<or> rv_tree V (ro_head ops w) p \<noteq> None then None
                 else rv_file V w p))"
    and "\<exists>w'. ro_rm_cached ops p w = (Inr (), w') \<and> rv_index V w' p = None \<and> rv_file V w' = rv_file V w"
    and "\<exists>w'. ro_unlink ops p w = (Inr (), w') \<and> rv_file V w' p = None \<and> rv_index V w' = rv_index V w"
    and "t \<in> rv_tags V w \<Longrightarrow> fst (ro_delete_tag ops t w) = Inr ()"
  using assms unfolding recovery_laws_def by (simp_all only:)

lemma reset_all:
  assumes rec: "recovery_laws ops V" and ex: "file_laws ops V"
  shows "\<exists>w'. each_act (ro_reset_path ops) ps w = (Inr (), w') \<and> only_paths ops V (set ps) w w'
    \<and> rv_file V w' = rv_file V w \<and> (\<forall>p \<in> set ps. rv_index V w' p = rv_tree V (ro_head ops w) p)"
proof (induction ps arbitrary: w)
  case Nil
  then show ?case by (simp add: only_paths_refl)
next
  case (Cons p ps)
  obtain w1 where w1: "ro_reset_path ops p w = (Inr (), w1)" "rv_file V w1 = rv_file V w"
      "rv_index V w1 p = rv_tree V (ro_head ops w) p"
    using recoveryD(2) [OF rec] by blast
  have o1: "only_paths ops V {p} w w1" using file_laws_confined(7) [OF ex, of p] w1(1) by (metis confined_def snd_conv)
  obtain w2 where w2: "each_act (ro_reset_path ops) ps w1 = (Inr (), w2)" "only_paths ops V (set ps) w1 w2"
      "rv_file V w2 = rv_file V w1" "\<forall>p \<in> set ps. rv_index V w2 p = rv_tree V (ro_head ops w1) p"
    using Cons.IH by blast
  have h: "ro_head ops w1 = ro_head ops w" using o1 by (simp add: only_paths_def same_refs_def)
  have "rv_index V w2 p = rv_tree V (ro_head ops w) p"
    using w2(2,4) w1(3) h by (cases "p \<in> set ps") (auto simp: only_paths_def)
  moreover have "only_paths ops V (set (p # ps)) w w2"
    by (rule only_paths_trans [OF only_paths_mono [OF o1] only_paths_mono [OF w2(2)]]) auto
  ultimately show ?case using w1 w2 h by (simp add: then_act_def bind_act_def)
qed

lemma revert_local:
  assumes rec: "recovery_laws ops V" and ex: "file_laws ops V"
  shows "\<exists>w'. revert_local_changes ops ps w = (Inr (), w') \<and> only_paths ops V (set ps) w w'
    \<and> ((\<forall>p \<in> set ps. rv_tree V (ro_head ops w) p \<noteq> None) \<longrightarrow>
        (\<forall>p \<in> set ps. rv_file V w' p = rv_tree V (ro_head ops w) p \<and> rv_index V w' p = rv_tree V (ro_head ops w) p))"
proof (cases "ps = []")
  case True
  then show ?thesis by (simp add: revert_local_changes_def only_paths_refl)
next
  case False
  obtain w1 where w1: "each_act (ro_reset_path ops) ps w = (Inr (), w1)" "only_paths ops V (set ps) w w1"
      "\<forall>p \<in> set ps. rv_index V w1 p = rv_tree V (ro_head ops w) p"
    using reset_all [OF rec ex] by metis
  obtain r w2 where w2: "ro_checkout ops ps w1 = (r, w2)" by (cases "ro_checkout ops ps w1")
  have o2: "only_paths ops V (set ps) w1 w2" using file_laws_confined(8) [OF ex, of ps] w2 by (metis confined_def snd_conv)
  have run: "revert_local_changes ops ps w = (Inr (), w2)"
    using False w1(1) w2 by (cases r) (simp_all add: revert_local_changes_def then_act_def bind_act_def swallow_apply)
  have "\<forall>p \<in> set ps. rv_file V w2 p = rv_tree V (ro_head ops w) p \<and> rv_index V w2 p = rv_tree V (ro_head ops w) p"
    if c: "\<forall>p \<in> set ps. rv_tree V (ro_head ops w) p \<noteq> None"
  proof -
    have "\<forall>p \<in> set ps. rv_index V w1 p \<noteq> None" using c w1(3) by simp
    then obtain w3 where "ro_checkout ops ps w1 = (Inr (), w3)" "rv_index V w3 = rv_index V w1"
        "\<forall>p \<in> set ps. rv_file V w3 p = rv_index V w1 p"
      using recoveryD(3) [OF rec] by blast
    then show ?thesis using w2 w1(3) by simp
  qed
  then show ?thesis using run only_paths_trans [OF w1(2) o2] by blast
qed

lemma delete_all:
  assumes rec: "recovery_laws ops V" and refs: "ref_laws ops V"
  shows "\<exists>w'. each_act (\<lambda>t. swallow (ro_delete_tag ops t)) ts w = (Inr (), w') \<and> same_refs ops V w w'
    \<and> rv_file V w' = rv_file V w \<and> rv_index V w' = rv_index V w \<and> rv_tags V w' \<subseteq> rv_tags V w - set ts
    \<and> rv_tags V w - set ts \<subseteq> rv_tags V w'"
proof (induction ts arbitrary: w)
  case Nil
  then show ?case by (simp add: same_refs_def)
next
  case (Cons t ts)
  obtain r w1 where w1: "ro_delete_tag ops t w = (r, w1)" by (cases "ro_delete_tag ops t w")
  have "case ro_delete_tag ops t w of (r, w') \<Rightarrow> same_refs ops V w w'
          \<and> rv_file V w' = rv_file V w \<and> rv_index V w' = rv_index V w \<and> rv_tags V w' \<subseteq> rv_tags V w
          \<and> rv_tags V w - {t} \<subseteq> rv_tags V w' \<and> (t \<in> rv_tags V w' \<longrightarrow> r \<noteq> Inr ())"
    using refs by (simp add: ref_laws_def)
  moreover have "t \<in> rv_tags V w \<longrightarrow> r = Inr ()" using recoveryD(7) [OF rec, of t w] w1 by simp
  ultimately have a: "same_refs ops V w w1" "rv_file V w1 = rv_file V w" "rv_index V w1 = rv_index V w"
      "rv_tags V w1 \<subseteq> rv_tags V w - {t}" "rv_tags V w - {t} \<subseteq> rv_tags V w1"
    using w1 by auto
  obtain w2 where "each_act (\<lambda>t. swallow (ro_delete_tag ops t)) ts w1 = (Inr (), w2)" "same_refs ops V w1 w2"
     "rv_file V w2 = rv_file V w1" "rv_index V w2 = rv_index V w1" "rv_tags V w2 \<subseteq> rv_tags V w1 - set ts"
     "rv_tags V w1 - set ts \<subseteq> rv_tags V w2"
    using Cons.IH by blast
  note IH = this
  have "swallow (ro_delete_tag ops t) w = (Inr (), w1)" using w1 by (simp add: swallow_apply)
  then have "each_act (\<lambda>t. swallow (ro_delete_tag ops t)) (t # ts) w = (Inr (), w2)"
    using IH(1) by (simp add: then_act_def bind_act_def)
  then show ?case using a IH(2-6) by (intro exI [of _ w2]) (auto simp: same_refs_def)
qed


lemma drop_file:
  assumes rec: "recovery_laws ops V" and ex: "file_laws ops V"
  shows "\<exists>w'. drop_new_file ops keep p w = (Inr (), w') \<and> only_paths ops V {p} w w' \<and> rv_index V w' p = None
    \<and> (\<not> keep \<longrightarrow> rv_file V w' p = None)"
proof -
  obtain w1 where w1: "ro_rm_cached ops p w = (Inr (), w1)" "rv_index V w1 p = None" "rv_file V w1 = rv_file V w"
    using recoveryD(5) [OF rec] by blast
  have o1: "only_paths ops V {p} w w1" using file_laws_confined(5) [OF ex, of p] w1(1) by (metis confined_def snd_conv)
  obtain w2 where w2: "ro_unlink ops p w1 = (Inr (), w2)" "rv_file V w2 p = None" "rv_index V w2 = rv_index V w1"
    using recoveryD(6) [OF rec] by blast
  have o2: "only_paths ops V {p} w1 w2" using file_laws_confined(2) [OF ex, of p] w2(1) by (metis confined_def snd_conv)
  have e: "ro_exists ops w1 p \<longleftrightarrow> rv_file V w1 p \<noteq> None" using ex by (simp add: file_laws_def)
  show ?thesis
  proof (cases "\<not> keep \<and> ro_exists ops w1 p")
    case True
    then show ?thesis using w1 w2 only_paths_trans [OF o1 o2]
      by (simp add: drop_new_file_def then_act_def bind_act_def swallow_apply)
  next
    case False
    then show ?thesis using w1 o1 e by (auto simp: drop_new_file_def then_act_def bind_act_def swallow_apply)
  qed
qed

lemma drop_files:
  assumes rec: "recovery_laws ops V" and ex: "file_laws ops V"
  shows "\<exists>w'. each_act (\<lambda>p. drop_new_file ops (p \<in> K) p) ps w = (Inr (), w') \<and> only_paths ops V (set ps) w w'
    \<and> (\<forall>p \<in> set ps. rv_index V w' p = None \<and> (p \<notin> K \<longrightarrow> rv_file V w' p = None))"
proof (induction ps arbitrary: w)
  case Nil
  then show ?case by (simp add: only_paths_refl)
next
  case (Cons p ps)
  obtain w1 where w1: "drop_new_file ops (p \<in> K) p w = (Inr (), w1)" "only_paths ops V {p} w w1"
      "rv_index V w1 p = None" "p \<notin> K \<longrightarrow> rv_file V w1 p = None"
    using drop_file [OF rec ex] by blast
  obtain w2 where w2: "each_act (\<lambda>p. drop_new_file ops (p \<in> K) p) ps w1 = (Inr (), w2)"
      "only_paths ops V (set ps) w1 w2"
      "\<forall>p \<in> set ps. rv_index V w2 p = None \<and> (p \<notin> K \<longrightarrow> rv_file V w2 p = None)"
    using Cons.IH by blast
  have "only_paths ops V (set (p # ps)) w w2"
    by (rule only_paths_trans [OF only_paths_mono [OF w1(2)] only_paths_mono [OF w2(2)]]) auto
  moreover have "rv_index V w2 p = None \<and> (p \<notin> K \<longrightarrow> rv_file V w2 p = None)"
    using w1(3,4) w2(2,3) by (cases "p \<in> set ps") (auto simp: only_paths_def)
  ultimately show ?case using w1(1) w2 by (simp add: then_act_def bind_act_def)
qed

text \<open>Dropping the commit, whether there is one or not.\<close>

definition at_parent :: "'w repo_ops \<Rightarrow> 'w repo_view \<Rightarrow> 'w \<Rightarrow> string set \<Rightarrow> string set \<Rightarrow> string set \<Rightarrow> 'w \<Rightarrow> bool" where
  \<comment> \<open>back at the first commit, and at all but the paths of \<open>R\<close> the working tree and index are restored\<close>
  "at_parent ops V w0 T D R w =
     (ro_head ops w = ro_head ops w0 \<and> rv_tags V w0 - T \<subseteq> rv_tags V w \<and> rv_tags V w \<subseteq> rv_tags V w0 \<union> rv_remote_tags V w
      \<and> (\<forall>p. p \<notin> D \<union> R \<longrightarrow> rv_index V w p = rv_tree V (ro_head ops w0) p
          \<and> (rv_tree V (ro_head ops w0) p \<noteq> None \<longrightarrow> rv_file V w p = rv_tree V (ro_head ops w0) p)
          \<and> (rv_tree V (ro_head ops w0) p = None \<and> rv_file V w0 p = None \<longrightarrow> rv_file V w p = None)))"

lemma drop_commit:
  assumes rec: "recovery_laws ops V" and ex: "file_laws ops V" and refs: "ref_laws ops V"
    and inv: "committed_inv ops V w0 (P \<union> D) T w" and c: "clean ops V w0" and T: "T \<subseteq> set ts"
    and R: "\<forall>p \<in> P. rv_tree V (ro_head ops w0) p = None \<longrightarrow> p \<in> R"
  shows "\<exists>w'. drop_vmn_commit ops (ro_head ops w0) ts w = (Inr (), w') \<and> at_parent ops V w0 (set ts) D R w'"
proof -
  let ?h = "ro_head ops w0"
  obtain w1 where w1: "ro_reset_hard_parent ops w = (Inr (), w1)" "ro_head ops w1 = rv_parent V (ro_head ops w)"
      "rv_remote_tags V w1 = rv_remote_tags V w" "rv_tags V w1 = rv_tags V w"
      "rv_index V w1 = rv_tree V (ro_head ops w1)"
      "\<forall>p. rv_file V w1 p = (if rv_tree V (ro_head ops w1) p \<noteq> None then rv_tree V (ro_head ops w1) p
             else if rv_index V w p \<noteq> None \<or> rv_tree V (ro_head ops w) p \<noteq> None then None
             else rv_file V w p)"
    using recoveryD(4) [OF rec] by blast
  obtain w2 where w2: "each_act (\<lambda>t. swallow (ro_delete_tag ops t)) ts w1 = (Inr (), w2)" "same_refs ops V w1 w2"
     "rv_file V w2 = rv_file V w1" "rv_index V w2 = rv_index V w1" "rv_tags V w2 \<subseteq> rv_tags V w1 - set ts"
     "rv_tags V w1 - set ts \<subseteq> rv_tags V w2"
    using delete_all [OF rec refs] by blast
  let ?w3 = "snd (ro_fetch_tags ops w2)"
  have w3: "same_refs ops V w2 ?w3" "rv_file V ?w3 = rv_file V w2" "rv_index V ?w3 = rv_index V w2"
      "rv_tags V w2 \<subseteq> rv_tags V ?w3" "rv_tags V ?w3 \<subseteq> rv_tags V w2 \<union> rv_remote_tags V w2"
    using refs by (auto simp: ref_laws_def Let_def)
  have i: "ro_head ops w \<noteq> ?h" "rv_parent V (ro_head ops w) = ?h" "ro_author ops w = VMN_USER_NAME"
      "rv_tags V w0 \<subseteq> rv_tags V w" "rv_tags V w \<subseteq> rv_tags V w0 \<union> T"
      "\<forall>p. p \<notin> P \<union> D \<longrightarrow> rv_tree V (ro_head ops w) p = rv_index V w0 p \<and> rv_file V w p = rv_file V w0 p
         \<and> rv_index V w p = rv_index V w0 p"
    using inv by (auto simp: committed_inv_def)
  have run: "drop_vmn_commit ops ?h ts w = (Inr (), ?w3)"
    using i(1,3) w1(1) w2(1) by (simp add: drop_vmn_commit_def then_act_def bind_act_def swallow_apply)
  have h: "ro_head ops w1 = ?h" using w1(2) i(2) by simp
  have heads: "ro_head ops ?w3 = ?h" using h w2(2) w3(1) by (simp add: same_refs_def)
  have tags: "rv_tags V w0 - set ts \<subseteq> rv_tags V ?w3 \<and> rv_tags V ?w3 \<subseteq> rv_tags V w0 \<union> rv_remote_tags V ?w3"
  proof -
    have "rv_remote_tags V ?w3 = rv_remote_tags V w2" using w3(1) by (simp add: same_refs_def)
    then show ?thesis using w3(4,5) w2(5,6) i(4,5) T unfolding w1(4) by blast
  qed
  have files: "rv_file V ?w3 = rv_file V w1" "rv_index V ?w3 = rv_tree V ?h"
    using w3 w2 w1(5) h by simp_all
  have "rv_file V w1 p = None" if p: "p \<notin> D \<union> R" "rv_tree V ?h p = None" "rv_file V w0 p = None" for p
  proof -
    have "p \<notin> P \<union> D" using p R by auto
    then show ?thesis using w1(6) h p(2,3) i(6) by simp
  qed
  then have "at_parent ops V w0 (set ts) D R ?w3"
    using heads tags files w1(6) h by (auto simp: at_parent_def)
  then show ?thesis using run by blast
qed

text \<open>Undoing, from before the commit and from after it.\<close>

definition flags_ok :: "'w repo_view \<Rightarrow> 'w \<Rightarrow> (string \<times> bool) list \<Rightarrow> bool" where
  "flags_ok V w0 paths = (\<forall>(p, e) \<in> set paths. e \<longrightarrow> rv_file V w0 p \<noteq> None)"

lemma revert_restores:
  assumes rec: "recovery_laws ops V" and ex: "file_laws ops V" and refs: "ref_laws ops V"
    and c: "clean ops V w0" and flags: "flags_ok V w0 paths"
    and st: "only_paths ops V (fst ` set paths \<union> D) w0 w
      \<or> committed_inv ops V w0 (fst ` set paths \<union> D) T w \<and> T \<subseteq> set ts"
  shows "\<exists>w'. revert_vmn_commit ops (ro_head ops w0) (map fst paths) ts (map fst (filter snd paths)) w = (Inr (), w')
    \<and> restored ops V w0 (set ts) D w'"
proof -
  let ?h = "ro_head ops w0" and ?P = "fst ` set paths"
  let ?K = "set (map fst (filter snd paths))"
  obtain xs where xs: "(if map fst paths = [] then ret [] else ro_ls_tree ops ?h (map fst paths)) w = (Inr xs, w)"
      "set xs = {p \<in> ?P. rv_tree V ?h p \<noteq> None}"
    using recoveryD(1) [OF rec, of ?h "map fst paths" w] by (cases "paths = []") auto
  let ?c = "filter (\<lambda>p. p \<in> set (map fst paths)) xs"
  let ?n = "filter (\<lambda>p. p \<notin> set ?c) (map fst paths)"
  have c_set: "set ?c = {p \<in> ?P. rv_tree V ?h p \<noteq> None}" and n_set: "set ?n = {p \<in> ?P. rv_tree V ?h p = None}"
    using xs(2) by auto
  obtain w1 where w1: "revert_local_changes ops ?c w = (Inr (), w1)" "only_paths ops V (set ?c) w w1"
    "(\<forall>p \<in> set ?c. rv_tree V (ro_head ops w) p \<noteq> None) \<longrightarrow>
        (\<forall>p \<in> set ?c. rv_file V w1 p = rv_tree V (ro_head ops w) p \<and> rv_index V w1 p = rv_tree V (ro_head ops w) p)"
    using revert_local [OF rec ex] by blast
  have "\<exists>w2. drop_vmn_commit ops ?h ts w1 = (Inr (), w2) \<and> at_parent ops V w0 (set ts) D (set ?n) w2"
    using st
  proof
    assume o: "only_paths ops V (?P \<union> D) w0 w"
    then have h: "ro_head ops w = ?h" "ro_head ops w1 = ?h" "rv_tags V w1 = rv_tags V w0"
      using w1(2) by (auto simp: only_paths_def same_refs_def)
    have f: "rv_file V w1 p = rv_tree V ?h p \<and> rv_index V w1 p = rv_tree V ?h p" if "p \<in> set ?c" for p
    proof -
      have "\<forall>p \<in> set ?c. rv_tree V (ro_head ops w) p \<noteq> None" unfolding c_set h(1) by blast
      then show ?thesis using w1(3) that unfolding h(1) by blast
    qed
    have out: "rv_file V w1 p = rv_file V w0 p \<and> rv_index V w1 p = rv_index V w0 p" if "p \<notin> ?P \<union> D" for p
      using o w1(2) that c_set by (simp add: only_paths_def)
    have "at_parent ops V w0 (set ts) D (set ?n) w1" unfolding at_parent_def
    proof (intro conjI allI impI)
      fix p assume p: "p \<notin> D \<union> set ?n"
      then have cs: "p \<in> set ?c \<or> p \<notin> ?P \<union> D" using c_set n_set by auto
      then show "rv_index V w1 p = rv_tree V ?h p" using f out c by (auto simp: clean_def)
      show "rv_file V w1 p = rv_tree V ?h p" if "rv_tree V ?h p \<noteq> None"
        using cs f out c that by (auto simp: clean_def)
      show "rv_file V w1 p = None" if "rv_tree V ?h p = None \<and> rv_file V w0 p = None"
        using cs f [of p] out [of p] that by auto
    qed (use h in auto)
    then show ?thesis using h(2) by (simp add: drop_vmn_commit_def)
  next
    assume o: "committed_inv ops V w0 (?P \<union> D) T w \<and> T \<subseteq> set ts"
    have "committed_inv ops V w0 (?P \<union> D) T w1"
      using o w1(2) c_set by (auto simp: committed_inv_def only_paths_def same_refs_def)
    then show ?thesis using drop_commit [OF rec ex refs _ c] o n_set by blast
  qed
  then obtain w2 where w2: "drop_vmn_commit ops ?h ts w1 = (Inr (), w2)" "at_parent ops V w0 (set ts) D (set ?n) w2" by blast
  obtain w3 where w3: "each_act (\<lambda>p. drop_new_file ops (p \<in> ?K) p) ?n w2 = (Inr (), w3)"
      "only_paths ops V (set ?n) w2 w3"
      "\<forall>p \<in> set ?n. rv_index V w3 p = None \<and> (p \<notin> ?K \<longrightarrow> rv_file V w3 p = None)"
    using drop_files [OF rec ex] by blast
  have run: "revert_vmn_commit ops ?h (map fst paths) ts (map fst (filter snd paths)) w = (Inr (), w3)"
    using w1(1) w2(1) w3(1) unfolding revert_vmn_commit_def bind_act_def xs(1) then_act_def Let_def
    by simp
  have nK: "p \<notin> ?K" if "rv_file V w0 p = None" for p
    using flags that by (auto simp: flags_ok_def)
  have "restored ops V w0 (set ts) D w3"
  proof -
    have same: "ro_head ops w3 = ro_head ops w2" "rv_tags V w3 = rv_tags V w2" "rv_remote_tags V w3 = rv_remote_tags V w2"
      using w3(2) by (simp_all add: only_paths_def same_refs_def)
    define N where "N = set ?n"
    have N: "\<And>p. p \<in> N \<Longrightarrow> rv_index V w3 p = None \<and> (p \<notin> ?K \<longrightarrow> rv_file V w3 p = None)"
      "\<And>p. p \<in> N \<Longrightarrow> rv_tree V ?h p = None" "only_paths ops V N w2 w3" "at_parent ops V w0 (set ts) D N w2"
      using w3(2,3) w2(2) n_set unfolding N_def by blast+
    have a: "rv_index V w3 p = rv_tree V ?h p" "rv_tree V ?h p \<noteq> None \<Longrightarrow> rv_file V w3 p = rv_tree V ?h p"
      "rv_tree V ?h p = None \<Longrightarrow> rv_file V w0 p = None \<Longrightarrow> rv_file V w3 p = None" if p: "p \<notin> D" for p
    proof -
      have n: "rv_index V w3 p = None" "rv_tree V ?h p = None" "rv_file V w0 p = None \<Longrightarrow> rv_file V w3 p = None"
        if "p \<in> N"
        using N(1,2) [OF that] nK [of p] by simp_all
      have o: "rv_index V w3 p = rv_index V w2 p" "rv_file V w3 p = rv_file V w2 p" if "p \<notin> N"
        using N(3) that by (simp_all add: only_paths_def)
      have q: "rv_index V w2 p = rv_tree V ?h p" "rv_tree V ?h p \<noteq> None \<Longrightarrow> rv_file V w2 p = rv_tree V ?h p"
        "rv_tree V ?h p = None \<Longrightarrow> rv_file V w0 p = None \<Longrightarrow> rv_file V w2 p = None" if "p \<notin> N"
        using N(4) that p by (simp_all add: at_parent_def)
      show "rv_index V w3 p = rv_tree V ?h p" using n(1,2) o(1) q(1) by (cases "p \<in> N") simp_all
      show "rv_tree V ?h p \<noteq> None \<Longrightarrow> rv_file V w3 p = rv_tree V ?h p" using n(2) o(2) q(2) by (cases "p \<in> N") simp_all
      show "rv_tree V ?h p = None \<Longrightarrow> rv_file V w0 p = None \<Longrightarrow> rv_file V w3 p = None"
        using n(3) o(2) q(3) by (cases "p \<in> N") simp_all
    qed
    moreover have "ro_head ops w2 = ?h" "rv_tags V w0 - set ts \<subseteq> rv_tags V w2"
      "rv_tags V w2 \<subseteq> rv_tags V w0 \<union> rv_remote_tags V w2"
      using w2(2) by (simp_all add: at_parent_def)
    ultimately show ?thesis using same by (simp add: restored_def)
  qed
  then show ?thesis using run by blast
qed

section \<open>Properties\<close>

lemma publish_body_outcome:
  assumes ex: "file_laws ops V" and refs: "ref_laws ops V" and env: "env_ok ops V env w0" and dry: "\<not> pe_dry_run env"
    and run: "publish_body ops env app_version tags \<lparr>pb_world = w0, pb_paths = [], pb_added = []\<rparr> = (r, s)"
    and T: "fst ` set tags \<subseteq> T"
  shows "\<exists>err. r = Inr err \<and> flags_ok V w0 (pb_paths s) \<and> err \<in> {-1, 3, 1, 2, 0}
    \<and> (err = -1 \<or> err = 3 \<longrightarrow> only_paths ops V (recorded s \<union> snapshot_paths env) w0 (pb_world s))
    \<and> (err = 1 \<or> err = 2 \<longrightarrow> committed_inv ops V w0 (recorded s \<union> snapshot_paths env) T (pb_world s))"
proof -
  let ?s0 = "\<lparr>pb_world = w0, pb_paths = [], pb_added = []\<rparr>" and ?D = "snapshot_paths env"
  obtain q s1 where q: "write_stamp_files ops env ?s0 = (q, s1)" by (cases "write_stamp_files ops env ?s0")
  note w = write_stamp_files_ok [OF ex env dry q]
  show ?thesis
  proof (cases q)
    case (Inl e)
    then show ?thesis using run q w by (auto simp: publish_body_def pub_inv_def flags_ok_def)
  next
    case (Inr env')
    have i1: "pub_inv ops V w0 ?D (stale_paths V env w0 \<union> set (pb_added s1)) s1" "same_stale env env'"
      using w Inr by simp_all
    have dry': "\<not> pe_dry_run env'" using i1(2) dry by (simp add: same_stale_def)
    have safe: "\<forall>p \<in> ?D. \<not> starts_with (pe_branch_conf_root env @ ''/'') p" using env by (simp add: env_ok_def)
    let ?msg = "stamp_commit_msg env' app_version"
    obtain c s2 where c: "publish_commit ops env' ?msg s1 = (c, s2)" by (cases "publish_commit ops env' ?msg s1")
    note pc = publish_commit_outcome [OF refs ex dry' i1(2) safe i1(1) c]
    have r2: "recorded s2 = recorded s1" "pb_paths s2 = pb_paths s1" using pc by (simp_all add: recorded_def)
    have fl: "flags_ok V w0 (pb_paths s1)" using i1(1) by (simp add: pub_inv_def flags_ok_def)
    obtain t s3 where t: "create_tags ops env' tags s2 = (t, s3)" by (cases "create_tags ops env' tags s2")
    obtain u s4 where u: "push_tags ops env' (map fst tags) s3 = (u, s4)" by (cases "push_tags ops env' (map fst tags) s3")
    have p3: "pb_paths s3 = pb_paths s2"
      using keepsD [of "\<lambda>s. pb_paths s = pb_paths s2" "create_tags ops env' tags" s2] t
      by (force simp: create_tags_def intro!: keeps_each keeps_when keeps_lift_paths split: prod.splits)
    have p4: "pb_paths s4 = pb_paths s3"
      using keepsD [of "\<lambda>s. pb_paths s = pb_paths s3" "push_tags ops env' (map fst tags)" s3] u
      by (force simp: push_tags_def intro!: keeps_when keeps_lift_paths)
    show ?thesis
    proof (cases c)
      case (Inl e)
      then have "r = Inr 3 \<and> s = s2" using run q Inr c by (simp add: publish_body_def step_code_def)
      then show ?thesis using pc Inl fl r2 by simp
    next
      case (Inr x)
      note cI = this
      have "committed_inv ops V w0 (recorded s1 \<union> ?D) {} (pb_world s2)" using pc Inr by simp
      then have i2: "committed_inv ops V w0 (recorded s1 \<union> ?D) T (pb_world s2)"
        by (auto simp: committed_inv_def)
      have i3: "committed_inv ops V w0 (recorded s1 \<union> ?D) T (pb_world s3)"
        using keepsD [OF keeps_create_tags [OF refs T, of w0 "recorded s1 \<union> ?D" env'], of s2] i2 t by simp
      have i4: "committed_inv ops V w0 (recorded s1 \<union> ?D) T (pb_world s4)"
        using keepsD [OF keeps_lift_world [OF keeps_push [OF refs, of w0 "recorded s1 \<union> ?D" T "map fst tags"]], of s3] i3 u dry'
        by (simp add: push_tags_def)
      show ?thesis
      proof (cases t)
        case (Inl e)
        then have "r = Inr 1 \<and> s = s3" using run q \<open>q = Inr env'\<close> c cI t by (simp add: publish_body_def step_code_def)
        then show ?thesis using i3 fl p3 r2 by (simp add: recorded_def)
      next
        case (Inr y)
        then have "(r, s) = (case u of Inl e \<Rightarrow> (Inr 2, s4) | Inr _ \<Rightarrow> (Inr 0, s4))"
          using run q \<open>q = Inr env'\<close> c cI t u by (cases u) (simp_all add: publish_body_def step_code_def)
        then have "s = s4 \<and> (r = Inr 2 \<or> r = Inr 0)" by (cases u) simp_all
        then show ?thesis using i4 fl p3 p4 r2 by (auto simp: recorded_def)
      qed
    qed
  qed
qed


text \<open>A repository whose commits always fail, with one committed file.\<close>

record mem =
  mm_file :: "string option"    \<comment> \<open>the one file, \<open>v\<close>\<close>
  mm_index :: "string option"

definition mem_tree :: "string \<Rightarrow> string \<Rightarrow> string option" where
  "mem_tree c = [''v'' \<mapsto> ''0.0.1'']"

definition mem_put :: "string \<Rightarrow> string option \<Rightarrow> (mem, unit) act" where
  "mem_put p c = (\<lambda>w. (Inr (), if p = ''v'' then w\<lparr>mm_file := c\<rparr> else w))"

definition mem_stage :: "string \<Rightarrow> (mem \<Rightarrow> string option) \<Rightarrow> (mem, unit) act" where
  "mem_stage p f = (\<lambda>w. (Inr (), if p = ''v'' then w\<lparr>mm_index := f w\<rparr> else w))"

definition mem_at :: "string option \<Rightarrow> string \<Rightarrow> string option" where
  "mem_at x = (\<lambda>p. if p = ''v'' then x else None)"

definition mem_ops :: "mem repo_ops" where
  "mem_ops =
     \<lparr>ro_head = (\<lambda>_. ''c''), ro_author = (\<lambda>_. ''vmn''), ro_exists = (\<lambda>w p. mem_at (mm_file w) p \<noteq> None),
      ro_walk = (\<lambda>w r. if starts_with (r @ ''/'') ''v'' \<and> mm_file w \<noteq> None then [''v''] else []),
      ro_status = (\<lambda>w ps. ps),
      ro_write = (\<lambda>p c. if p = ''v'' then mem_put p (Some c) else raise_act OSErr),
      ro_unlink = (\<lambda>p. mem_put p None), ro_git_rm = (\<lambda>p. mem_put p None),
      ro_index_remove = (\<lambda>p. mem_put p None),
      ro_rm_cached = (\<lambda>p. mem_stage p (\<lambda>_. None)),
      ro_index_add = (\<lambda>p. mem_stage p mm_file),
      ro_index_commit = (\<lambda>_ _. raise_act OSErr), ro_create_tag = (\<lambda>_ _. raise_act OSErr),
      ro_delete_tag = (\<lambda>_. raise_act OSErr), ro_push = (\<lambda>_. raise_act OSErr), ro_outgoing = ret False,
      ro_ls_tree = (\<lambda>c ps. ret (filter (\<lambda>p. mem_tree c p \<noteq> None) ps)),
      ro_reset_path = (\<lambda>p. mem_stage p (\<lambda>_. Some ''0.0.1'')),
      ro_checkout = (\<lambda>ps w. (Inr (), if ''v'' \<in> set ps then w\<lparr>mm_file := mm_index w\<rparr> else w)),
      ro_reset_hard_parent = (\<lambda>w. (Inr (), \<lparr>mm_file = Some ''0.0.1'', mm_index = Some ''0.0.1''\<rparr>)),
      ro_fetch_tags = ret ()\<rparr>"

definition mem_view :: "mem repo_view" where
  "mem_view = \<lparr>rv_file = (\<lambda>w. mem_at (mm_file w)), rv_index = (\<lambda>w. mem_at (mm_index w)), rv_tree = mem_tree,
     rv_parent = (\<lambda>c. ''c''), rv_tags = (\<lambda>_. {}), rv_remote_tags = (\<lambda>_. {})\<rparr>"

definition mem0 :: mem where
  "mem0 = \<lparr>mm_file = Some ''0.0.1'', mm_index = Some ''0.0.1''\<rparr>"

definition mem_env :: "mem publish_env" where
  "mem_env = \<lparr>pe_dry_run = False, pe_should_publish = True, pe_name = ''a'', pe_release_mode = ''patch'',
     pe_extra_message = [], pe_migrate_confs = ret [], pe_app_conf = ''c'', pe_conf_existed = False,
     pe_root_conf = None, pe_root_existed = False, pe_version_files = [''v''], pe_backend_files = [],
     pe_changelog_path = None, pe_branch_conf_root = ''b'', pe_keep_prefix = ''b/m/'',
     pe_conf_rewrite = (\<lambda>_ _. None), pe_version_writes = [(''v'', ''0.0.2'')], pe_snapshot = None,
     pe_root_snapshot = None, pe_changelog_text = (\<lambda>_. None)\<rparr>"

lemma mem_file_laws: "file_laws mem_ops mem_view"
  by (auto simp: file_laws_def only_paths_def same_refs_def mem_ops_def mem_view_def mem_put_def mem_at_def
      mem_stage_def)

lemma mem_ref_laws: "ref_laws mem_ops mem_view"
  by (auto simp: ref_laws_def only_paths_def same_refs_def mem_ops_def mem_view_def)

lemma mem_recovery_laws: "recovery_laws mem_ops mem_view"
  by (auto simp: recovery_laws_def mem_ops_def mem_view_def mem_put_def mem_tree_def mem_at_def mem_stage_def
      fun_eq_iff)


lemma keeps_record [keeps_rules]: "keeps (\<lambda>s. pb_world s = w) (record_paths ex e ps)"
proof (induction ps)
  case (Cons p ps)
  show ?case unfolding record_paths.simps
    by (rule keeps_then [OF keepsI Cons.IH]) simp
qed (simp only: record_paths.simps keeps_ret)

lemma dry_write_files:
  assumes dry: "pe_dry_run env" and pure: "\<forall>w. snd (pe_migrate_confs env w) = w"
  shows "keeps (\<lambda>s. pb_world s = w) (write_stamp_files ops env)"
    and "write_stamp_files ops env s = (Inr env', s') \<Longrightarrow> env' = env"
proof -
  let ?I = "\<lambda>s :: 'a pub. pb_world s = w"
  have mig: "\<exists>r. migrate_branch_confs env s = (r, s) \<and> (\<forall>x. r = Inr x \<longrightarrow> x = ([], env))" for s
  proof -
    obtain r v where "pe_migrate_confs env (pb_world s) = (r, v)" by (cases "pe_migrate_confs env (pb_world s)")
    moreover from this have "v = pb_world s" using pure by (metis snd_conv)
    ultimately show ?thesis using dry
      by (intro exI [of _ "case r of Inl e \<Rightarrow> Inl e | Inr m \<Rightarrow> Inr ([], env)"])
        (simp add: migrate_branch_confs_def bind_act_def lift_def split: sum.split)
  qed
  have k: "keeps ?I (record_expected ops moves env)" for moves
  proof -
    have "keeps ?I (\<lambda>s. record_paths (ro_exists ops) (Some False) (collect_stale_branch_confs ops env (pb_world s)) s)"
      by (rule keepsI) (rule keepsD [OF keeps_record])
    moreover have "keeps ?I (case x of (src, dst) \<Rightarrow> then_act (record_paths (ro_exists ops) (Some True) [src])
        (record_paths (ro_exists ops) (Some False) [dst]))" for x
      by (cases x) (simp only: prod.case keeps_then keeps_record)
    ultimately show ?thesis unfolding record_expected_def
      by (intro keeps_then keeps_each keeps_record)
  qed
  have add: "keeps ?I (add_files fs)" for fs by (simp add: keeps_def add_files_def)
  have files: "keeps ?I (files_to_add_to_index ops ps)" for ps
    by (simp add: keeps_def files_to_add_to_index_def add_files_def)
  have snap: "keeps ?I (write_snapshot_file ops env x)" for x
    using dry by (auto simp: write_snapshot_file_def keeps_ret split: option.splits)
  have b: "keeps ?I (write_stamp_body ops env)" unfolding write_stamp_body_def
  proof (intro keeps_then keeps_each add files snap)
    show "keeps ?I (migrate_deprecated_conf_keys ops env)"
      using dry by (auto simp: keeps_def migrate_deprecated_conf_keys_def write_file_def split: option.splits)
    show "keeps ?I (write_file ops env x)" for x using dry by (simp add: write_file_def keeps_ret)
    show "keeps ?I (case pe_root_conf env of None \<Rightarrow> ret ()
        | Some rc \<Rightarrow> then_act (files_to_add_to_index ops [rc]) (write_snapshot_file ops env (pe_root_snapshot env)))"
      by (cases "pe_root_conf env") (simp_all add: keeps_ret keeps_then files snap)
    show "keeps ?I (generate_changelog ops env)"
      using dry by (auto simp: keeps_def generate_changelog_def split: option.splits)
  qed
  have f: "keeps ?I (\<lambda>s. record_paths (ro_exists ops) (Some False) (pb_added s) s)"
    by (rule keepsI) (rule keepsD [OF keeps_record])
  show "keeps ?I (write_stamp_files ops env)"
  proof (rule keepsI)
    fix s assume i: "?I s"
    obtain r where r: "migrate_branch_confs env s = (r, s)" "\<forall>x. r = Inr x \<longrightarrow> x = ([], env)" using mig by blast
    have "keeps ?I (then_act (record_expected ops [] env) (then_act (finally_act (write_stamp_body ops env)
        (\<lambda>s. record_paths (ro_exists ops) (Some False) (pb_added s) s)) (ret env)))"
      by (intro keeps_then keeps_finally k b f keeps_ret)
    from keepsD [OF this, of s] show "?I (snd (write_stamp_files ops env s))"
      using i r by (cases r) (simp_all add: write_stamp_files_def bind_act_def)
  qed
  assume run: "write_stamp_files ops env s = (Inr env', s')"
  obtain r where r: "migrate_branch_confs env s = (r, s)" "\<forall>x. r = Inr x \<longrightarrow> x = ([], env)" using mig by blast
  show "env' = env"
    using run r unfolding write_stamp_files_def
    by (cases r) (auto simp: bind_act_def then_act_def split: prod.splits sum.splits)
qed

text \<open>
  A dry run of the publish changes nothing, when planning the migration of the branch confs
  does not: the state of the repository after it is the one before.
\<close>

theorem dry_run_changes_nothing:
  assumes "pe_dry_run env" "\<forall>w. snd (pe_migrate_confs env w) = w"
  shows "snd (publish_stamp ops env app_version tag_names msgs w) = w"
proof -
  let ?I = "\<lambda>s :: 'a pub. pb_world s = w"
  let ?s = "\<lparr>pb_world = w, pb_paths = [], pb_added = []\<rparr>"
  have tags: "keeps ?I (create_tags ops env ts)" for ts
    unfolding create_tags_def using assms(1) by (intro keeps_each) (simp add: keeps_ret split: prod.splits)
  have body: "pb_world (snd (publish_body ops env app_version ts ?s)) = w" for ts
  proof -
    obtain q s1 where q: "write_stamp_files ops env ?s = (q, s1)" by (cases "write_stamp_files ops env ?s")
    have s1: "pb_world s1 = w" using keepsD [OF dry_write_files(1) [OF assms, where w = w and ops = ops], of ?s] q
      by simp
    show ?thesis
    proof (cases q)
      case (Inr env')
      then have "env' = env" using dry_write_files(2) [OF assms] q by blast
      moreover obtain t s2 where t: "create_tags ops env ts s1 = (t, s2)" by (cases "create_tags ops env ts s1")
      moreover have "pb_world s2 = w" using keepsD [OF tags, of s1 ts] t s1 by simp
      ultimately show ?thesis using q Inr assms(1)
        by (cases t) (simp_all add: publish_body_def step_code_def publish_commit_def push_tags_def Let_def)
    qed (use q s1 in \<open>simp add: publish_body_def\<close>)
  qed
  show ?thesis
  proof (cases "pe_should_publish env")
    case True
    show ?thesis
    proof (cases tag_names)
      case (Some ts)
      obtain q s where q: "publish_body ops env app_version (zip ts msgs) ?s = (q, s)"
        by (cases "publish_body ops env app_version (zip ts msgs) ?s")
      then have "pb_world s = w" using body [of "zip ts msgs"] by simp
      then show ?thesis using True Some q assms(1)
        by (cases q) (simp_all add: publish_stamp_def Let_def revert_publish_def)
    qed (simp add: publish_stamp_def True)
  qed (simp add: publish_stamp_def)
qed

theorem dry_run_changes_nothing_witness:
  "snd (publish_stamp mem_ops (mem_env\<lparr>pe_dry_run := True\<rparr>) ''0.0.2'' (Some [''a_0.0.2'']) [''m''] mem0) = mem0"
  by (rule dry_run_changes_nothing) (simp_all add: mem_env_def)

end
