(* ===== verification/Version_Laws.thy ===== *)
theory Version_Laws
  imports Version_Math
begin

text \<open>
  What core/version_math.py guarantees: which texts parse to what, that printing inverts
  parsing, and where it does not.
\<close>

section \<open>Numbers\<close>

lemma nat_str_append:
  assumes "0 < n" "d < 10" shows "nat_str (10 * n + d) = nat_str n @ [digit_char d]"
proof -
  have "(10 * n + d) div 10 = n" "(10 * n + d) mod 10 = d" "\<not> 10 * n + d < 10" using assms by auto
  then show ?thesis by (subst nat_str.simps) simp
qed

lemma str_nat_pos: "list_all is_digit w \<Longrightarrow> w \<noteq> [] \<Longrightarrow> hd w \<noteq> CHR ''0'' \<Longrightarrow> 0 < str_nat w"
proof (induction w rule: rev_induct)
  case (snoc c w)
  show ?case
  proof (cases "w = []")
    case True
    then have "is_digit c" "c \<noteq> CHR ''0''" using snoc.prems by auto
    then have "code c \<noteq> 48" by (metis code_inject code_zero)
    then show ?thesis using \<open>is_digit c\<close> True
      by (auto simp: str_nat_def digit_val_def is_digit_def)
  next
    case False
    then show ?thesis using snoc by (simp add: str_nat_append hd_append)
  qed
qed simp

lemma nat_str_str_nat: "canonical_num w \<Longrightarrow> nat_str (str_nat w) = w"
proof (induction w rule: rev_induct)
  case (snoc c w)
  have c: "is_digit c" using snoc.prems by (simp add: canonical_num_def all_digits_def)
  show ?case
  proof (cases "w = []")
    case True
    then show ?thesis
      using c by (subst nat_str.simps) (simp add: str_nat_def digit_val_less)
  next
    case False
    then have "hd w \<noteq> CHR ''0''" and w: "list_all is_digit w"
      using snoc.prems by (auto simp: canonical_num_def all_digits_def hd_append)
    then have "0 < str_nat w" and "nat_str (str_nat w) = w"
      using False snoc.IH by (auto simp: str_nat_pos canonical_num_def all_digits_def)
    then show ?thesis using c by (simp add: str_nat_append nat_str_append digit_val_less)
  qed
qed (simp add: canonical_num_def all_digits_def)

section \<open>The properties of a decomposed version\<close>

definition props_of_parts :: "parts \<Rightarrow> version_props" where
  "props_of_parts p =
     \<lparr>vp_types = insert ''version'' ((if p_pre p = None then {} else {''prerelease''})
        \<union> (if p_dev p = None then {} else {''dev''})
        \<union> (if p_meta p = None then {} else {''buildmetadata''})),
      vp_root_version = None,
      vp_major = Some (int (str_nat (p_major p))), vp_minor = Some (int (str_nat (p_minor p))),
      vp_patch = Some (int (str_nat (p_patch p))),
      vp_hotfix = Some (case p_hotfix p of None \<Rightarrow> 0 | Some h \<Rightarrow> int (str_nat h)),
      vp_prerelease = (case p_pre p of None \<Rightarrow> ''release'' | Some (x, r) \<Rightarrow> x),
      vp_rcn = (case p_pre p of None \<Rightarrow> None | Some (x, r) \<Rightarrow> Some (int (str_nat r))),
      vp_buildmetadata = p_meta p,
      vp_dev_commit = (case p_dev p of None \<Rightarrow> None | Some (c, h, r) \<Rightarrow> Some c),
      vp_dev_diff_hash = (case p_dev p of None \<Rightarrow> None | Some (c, h, r) \<Rightarrow> Some h),
      vp_dev_run = (case p_dev p of None \<Rightarrow> None
                    | Some (c, h, r) \<Rightarrow> map_option (\<lambda>x. int (str_nat x)) r),
      vp_old_ver_format = False\<rparr>"

lemma parts_env_groups [simp]:
  "parts_env p Map.empty ''major'' = Some (p_major p)"
  "parts_env p Map.empty ''minor'' = Some (p_minor p)"
  "parts_env p Map.empty ''patch'' = Some (p_patch p)"
  "parts_env p Map.empty ''hotfix'' = p_hotfix p"
  "parts_env p Map.empty ''prerelease'' = map_option fst (p_pre p)"
  "parts_env p Map.empty ''rcn'' = map_option snd (p_pre p)"
  "parts_env p Map.empty ''dev_commit'' = map_option fst (p_dev p)"
  "parts_env p Map.empty ''dev_diff_hash'' = map_option (fst \<circ> snd) (p_dev p)"
  "parts_env p Map.empty ''dev_run'' = Option.bind (p_dev p) (snd \<circ> snd)"
  "parts_env p Map.empty ''buildmetadata'' = p_meta p"
  by (auto simp: parts_env_def dev_env_def pre_env_def base_env_def split: option.splits prod.splits)

lemma fill_props_parts: "fill_props False (parts_env p Map.empty) = Inr (props_of_parts p)"
  by (auto simp: fill_props_def fill_base_def fill_prerelease_def fill_dev_def
      fill_buildmetadata_def int_group_def VersionProps_def props_of_parts_def
      split: option.splits prod.splits)

text \<open>A text that is not a root version parses through the pieces of some decomposition.\<close>

lemma root_text_no_dot: "re_search VMN_ROOT_VERSION_REGEX s = Some m \<Longrightarrow> CHR ''.'' \<notin> set s"
proof -
  assume "re_search VMN_ROOT_VERSION_REGEX s = Some m"
  then obtain w where w: "canonical_num w" "s = w @ m_rest m" "eol_ok (m_rest m)"
    by (rule root_search_Some)
  have "CHR ''.'' \<notin> set w"
    using w(1) by (auto simp: canonical_num_def all_digits_def list_all_iff is_digit_def dest!: bspec)
  then show ?thesis using w(2,3) by (auto simp: eol_ok_def NEWLINE_def)
qed

lemma parts_text_dot: "CHR ''.'' \<in> set (parts_text p)"
  by (simp add: parts_text_def base_text_def)

lemma root_search_parts: "re_search VMN_ROOT_VERSION_REGEX (parts_text p @ t) = None"
  using root_text_no_dot parts_text_dot by (metis Un_iff not_None_eq set_append)

lemma deserialize_parts:
  assumes "parts_ok p" "eol_ok t"
  obtains q u where "parts_ok q" "eol_ok u" "parts_text p @ t = parts_text q @ u"
    "deserialize_vmn_version (parts_text p @ t) = Inr (props_of_parts q)"
    "\<exists>m. re_search VMN_VERSION_REGEX (parts_text p @ t) = Some m
       \<and> m_rest m = u \<and> m_env m = parts_env q Map.empty"
proof -
  obtain m where m: "re_search VMN_VERSION_REGEX (parts_text p @ t) = Some m"
    using version_search_exists [OF assms] by blast
  from m obtain q where q: "parts_ok q" "parts_text p @ t = parts_text q @ m_rest m"
      "eol_ok (m_rest m)" "m_env m = parts_env q Map.empty"
    by (rule version_search_Some)
  then show ?thesis
    using that [OF q(1) q(3) q(2)] m q
    by (simp add: deserialize_vmn_version_def root_search_parts fill_props_parts)
qed

lemma fill_base_old: "fill_base e r = Inr q \<Longrightarrow> vp_old_ver_format q = vp_old_ver_format r"
  by (auto simp: fill_base_def)

lemma fill_prerelease_old:
  "fill_prerelease b e r = Inr q \<Longrightarrow> vp_old_ver_format q = vp_old_ver_format r"
  by (cases "e ''prerelease''") (auto simp: fill_prerelease_def)

lemma fill_dev_old: "fill_dev e r = Inr q \<Longrightarrow> vp_old_ver_format q = vp_old_ver_format r"
  by (cases "e ''dev_commit''") (auto simp: fill_dev_def)

lemma fill_buildmetadata_old [simp]:
  "vp_old_ver_format (fill_buildmetadata e r) = vp_old_ver_format r"
  by (cases "e ''buildmetadata''") (simp_all add: fill_buildmetadata_def)

lemma fill_props_old: "fill_props b e = Inr q \<Longrightarrow> vp_old_ver_format q = b"
  by (auto simp: fill_props_def dest!: fill_base_old fill_prerelease_old fill_dev_old)

lemma deserialize_new_format:
  assumes "deserialize_vmn_version s = Inr p" "''root'' \<notin> vp_types p" "\<not> vp_old_ver_format p"
  obtains q t where "parts_ok q" "eol_ok t" "s = parts_text q @ t" "p = props_of_parts q"
proof -
  note old = fill_props_old
  have "re_search VMN_ROOT_VERSION_REGEX s = None"
    using assms(1,2) by (auto simp: deserialize_vmn_version_def split: option.splits)
  moreover obtain m where m: "re_search VMN_VERSION_REGEX s = Some m"
    using assms calculation old by (auto simp: deserialize_vmn_version_def split: option.splits)
  from m obtain q where "parts_ok q" "s = parts_text q @ m_rest m" "eol_ok (m_rest m)"
      "m_env m = parts_env q Map.empty"
    by (rule version_search_Some)
  moreover from this have "p = props_of_parts q"
    using assms(1) m calculation(1) by (simp add: deserialize_vmn_version_def fill_props_parts)
  ultimately show ?thesis using that by blast
qed

section \<open>Printing a decomposed version\<close>

definition shown_hotfix :: "bool \<Rightarrow> string option \<Rightarrow> string option" where
  "shown_hotfix hide h = (case h of None \<Rightarrow> if hide then None else Some ''0''
     | Some w \<Rightarrow> if hide \<and> w = ''0'' then None else Some w)"

lemma str_nat_eq_0_iff: "canonical_num w \<Longrightarrow> str_nat w = 0 \<longleftrightarrow> w = ''0''"
  using nat_str_str_nat [of w] by (metis nat_str_0 str_nat_nat_str)

lemma int_str_0 [simp]: "int_str 0 = ''0''"
  by (simp add: int_str_def)

lemma print_base:
  assumes "parts_ok p"
  shows "serialize_vmn_base_version (vp_major (props_of_parts p)) (vp_minor (props_of_parts p))
      (vp_patch (props_of_parts p)) (vp_hotfix (props_of_parts p)) hide
    = base_text (p_major p) (p_minor p) (p_patch p) (shown_hotfix hide (p_hotfix p))"
  using assms
  by (auto simp: serialize_vmn_base_version_def props_of_parts_def base_text_def shown_hotfix_def
      fmt_int_def parts_ok_def nat_str_str_nat str_nat_eq_0_iff split: option.splits)

definition normal_parts :: "bool \<Rightarrow> parts \<Rightarrow> parts" where
  "normal_parts hide p =
     p\<lparr>p_hotfix := shown_hotfix hide (p_hotfix p),
       p_pre := (if map_option fst (p_pre p) = Some ''release'' then None else p_pre p),
       p_dev := map_option (\<lambda>(c, h, r). (c, h, None)) (p_dev p)\<rparr>"

lemma print_parts:
  assumes "parts_ok p"
  shows "print_props (props_of_parts p) None None None hide None None
    = parts_text (normal_parts hide p)"
proof -
  have pre: "(case (if vp_prerelease (props_of_parts p) \<noteq> ''release''
        then (Some (vp_prerelease (props_of_parts p)),
              if vp_old_ver_format (props_of_parts p) then None else vp_rcn (props_of_parts p))
        else (None, None)) of
       (prerelease, rcn) \<Rightarrow> (case prerelease of None \<Rightarrow> v
             | Some x \<Rightarrow> (case rcn of None \<Rightarrow> v @ ''-'' @ x | Some r \<Rightarrow> v @ ''-'' @ x @ ''.'' @ int_str r)))
     = v @ pre_text (p_pre (normal_parts hide p))" for v
    using assms by (cases "p_pre p")
      (auto simp: props_of_parts_def normal_parts_def pre_text_def parts_ok_def nat_str_str_nat)
  have dev: "(case (if vp_dev_commit (props_of_parts p) \<noteq> None
        then (vp_dev_commit (props_of_parts p), vp_dev_diff_hash (props_of_parts p)) else (None, None)) of
       (dev_commit, dev_diff_hash) \<Rightarrow> (case dev_commit of None \<Rightarrow> v
             | Some c \<Rightarrow> v @ ''-dev.'' @ c @ ''.'' @ fmt_str dev_diff_hash))
     = v @ dev_text (p_dev (normal_parts hide p))" for v
    by (cases "p_dev p")
      (auto simp: props_of_parts_def normal_parts_def dev_text_def run_text_def fmt_str_def)
  have meta: "(case (if vp_buildmetadata (props_of_parts p) \<noteq> None
        then vp_buildmetadata (props_of_parts p) else None) of
        None \<Rightarrow> v | Some b \<Rightarrow> v @ ''+'' @ b) = v @ meta_text (p_meta (normal_parts hide p))" for v
    by (cases "p_meta p") (auto simp: props_of_parts_def normal_parts_def meta_text_def)
  show ?thesis
    unfolding print_props_def Let_def print_base [OF assms] case_prod_beta
      pre [unfolded case_prod_beta] dev [unfolded case_prod_beta] meta
    by (simp add: parts_text_def normal_parts_def)
qed

lemma shown_hotfix_ok:
  "shown_hotfix hide h = Some w \<Longrightarrow> (\<forall>x. h = Some x \<longrightarrow> canonical_num x) \<Longrightarrow> canonical_num w"
  by (auto simp: shown_hotfix_def split: option.splits if_splits)

lemma normal_parts_ok:
  assumes "parts_ok p" shows "parts_ok (normal_parts hide p)"
proof -
  have "dev_ok (c, h, None)" if "p_dev p = Some (c, h, r)" for c h r
    using assms that by (auto simp: parts_ok_def dev_ok_def)
  then have "\<forall>d. map_option (\<lambda>(c, h, r). (c, h, None)) (p_dev p) = Some d \<longrightarrow> dev_ok d"
    by auto
  moreover have "\<forall>w. shown_hotfix hide (p_hotfix p) = Some w \<longrightarrow> canonical_num w"
    using assms shown_hotfix_ok by (auto simp: parts_ok_def)
  ultimately show ?thesis using assms by (simp add: parts_ok_def normal_parts_def)
qed

lemma normal_parts_same:
  assumes "map_option fst (p_pre p) \<noteq> Some ''release''" "vp_dev_run (props_of_parts p) = None"
  shows "\<exists>hide. normal_parts hide p = p"
proof -
  have d: "map_option (\<lambda>(c, h, r). (c, h, None)) (p_dev p) = p_dev p"
    using assms(2) by (auto simp: props_of_parts_def split: option.splits)
  have "\<exists>hide. shown_hotfix hide (p_hotfix p) = p_hotfix p"
    by (cases "p_hotfix p") (auto simp: shown_hotfix_def)
  then obtain hide where "shown_hotfix hide (p_hotfix p) = p_hotfix p" ..
  then have "normal_parts hide p = p" using assms(1) d by (cases p) (simp add: normal_parts_def)
  then show ?thesis ..
qed

section \<open>Which reading wins\<close>

text \<open>
  A text can have several decompositions: \<open>-dev.<commit>.<hash>\<close> also has the form
  \<open>-<prerelease>.<rcn>\<close> when the hash is a number. The optional prerelease part is greedy,
  so a reading with a prerelease wins whenever there is one.
\<close>

lemma rm_Seq_assoc_list: "rm n (Seq (Seq a b) c) s e = rm n (Seq a (Seq b c)) s e"
proof -
  have "concat (map f (concat (map g xs))) = concat (map (\<lambda>x. concat (map f (g x))) xs)"
    for f :: "string \<times> genv \<Rightarrow> (string \<times> genv) list" and g and xs :: "(string \<times> genv) list"
    by (induction xs) auto
  moreover have "rm n (Seq b c) = (\<lambda>u g. concat (map (\<lambda>(t, f). rm n c t f) (rm n b u g)))"
    by (intro ext) simp
  ultimately show ?thesis by (simp add: case_prod_unfold)
qed

lemma rm_Seq_Opt_list:
  "rm n (Seq (Opt a) k) s e = rm n (Seq a k) s e @ rm n k s e"
  by (simp add: Opt_def)

lemma concat_map_first:
  assumes "x \<in> set xs" "ys x \<noteq> []" "\<And>y. y \<in> set xs \<Longrightarrow> y = x \<or> ys y = []"
  shows "\<exists>zs. concat (map ys xs) = ys x @ zs"
  using assms
proof (induction xs)
  case (Cons a xs)
  show ?case
  proof (cases "a = x")
    case True
    then show ?thesis by simp
  next
    case False
    then have "ys a = []" "x \<in> set xs" using Cons.prems by auto
    then show ?thesis using Cons by auto
  qed
qed simp

lemma digits_split:
  assumes "a @ b = c @ d" "list_all is_digit a" "list_all is_digit c"
    "b = [] \<or> \<not> is_digit (hd b)" "d = [] \<or> \<not> is_digit (hd d)"
  shows "a = c \<and> b = d"
  using takeWhile_run [OF assms(2,4)] takeWhile_run [OF assms(3,5)] assms(1) by simp

definition tail_ok :: "string \<Rightarrow> bool" where
  \<comment> \<open>what may follow a base version: nothing, \<open>-\<close>, \<open>+\<close> or a newline\<close>
  "tail_ok r = (r = [] \<or> hd r \<in> {CHR ''-'', CHR ''+'', NEWLINE})"

lemma not_digit_simps [simp]:
  "\<not> is_digit CHR ''.''" "\<not> is_digit CHR ''-''" "\<not> is_digit CHR ''+''" "\<not> is_digit NEWLINE"
  by (simp_all add: is_digit_def NEWLINE_def)

lemma tail_ok_not_digit: "tail_ok r \<Longrightarrow> r = [] \<or> \<not> is_digit (hd r)"
  by (auto simp: tail_ok_def)

lemma canonical_digits: "canonical_num w \<Longrightarrow> list_all is_digit w"
  by (simp add: canonical_num_def all_digits_def)

lemma hotfix_split:
  assumes "opt_part (\<lambda>w. CHR ''.'' # w) h @ r = opt_part (\<lambda>w. CHR ''.'' # w) h' @ r'"
    "\<forall>w. h = Some w \<longrightarrow> canonical_num w" "\<forall>w. h' = Some w \<longrightarrow> canonical_num w"
    "tail_ok r" "tail_ok r'"
  shows "h = h' \<and> r = r'"
proof (cases h; cases h')
  fix w w' assume "h = Some w" "h' = Some w'"
  then show ?thesis
    using assms digits_split [of w r w' r'] by (simp add: canonical_digits tail_ok_not_digit)
qed (use assms in \<open>auto simp: tail_ok_def NEWLINE_def\<close>)

lemma base_split:
  assumes eq: "base_text a b c h @ r = base_text a' b' c' h' @ r'"
    and "canonical_num a" "canonical_num b" "canonical_num c" "\<forall>w. h = Some w \<longrightarrow> canonical_num w"
    and "canonical_num a'" "canonical_num b'" "canonical_num c'" "\<forall>w. h' = Some w \<longrightarrow> canonical_num w"
    and t: "tail_ok r" "tail_ok r'"
  shows "a = a' \<and> b = b' \<and> c = c' \<and> h = h' \<and> r = r'"
proof -
  have nd: "opt_part (\<lambda>w. CHR ''.'' # w) x @ y = [] \<or> \<not> is_digit (hd (opt_part (\<lambda>w. CHR ''.'' # w) x @ y))"
    if "tail_ok y" for x y using that tail_ok_not_digit by (cases x) auto
  have "a = a' \<and> CHR ''.'' # b @ CHR ''.'' # c @ opt_part (\<lambda>w. CHR ''.'' # w) h @ r
      = CHR ''.'' # b' @ CHR ''.'' # c' @ opt_part (\<lambda>w. CHR ''.'' # w) h' @ r'"
    by (rule digits_split) (use assms in \<open>auto simp: base_text_def canonical_digits\<close>)
  moreover from this have "b = b' \<and> CHR ''.'' # c @ opt_part (\<lambda>w. CHR ''.'' # w) h @ r
      = CHR ''.'' # c' @ opt_part (\<lambda>w. CHR ''.'' # w) h' @ r'"
    by (intro digits_split) (use assms in \<open>auto simp: canonical_digits\<close>)
  moreover from this have "c = c' \<and> opt_part (\<lambda>w. CHR ''.'' # w) h @ r
      = opt_part (\<lambda>w. CHR ''.'' # w) h' @ r'"
    by (intro digits_split) (use assms nd in \<open>auto simp: canonical_digits\<close>)
  ultimately show ?thesis using hotfix_split assms by blast
qed

lemma suffix_tail_ok:
  "eol_ok t \<Longrightarrow> tail_ok (pre_text x @ dev_text d @ meta_text m @ t)"
  by (auto simp: tail_ok_def eol_ok_def pre_text_def dev_text_def meta_text_def opt_part_def
      split: option.splits)

definition VERSION_TAIL :: re where
  "VERSION_TAIL = Seq (Seq VMN_DEV_REGEX SEMVER_BUILDMETADATA_REGEX) Eol"

lemma rm_tail_iff: "(t, f) \<in> set (rm n VERSION_TAIL s e) \<longleftrightarrow>
    eol_ok t \<and> (\<exists>d m. (\<forall>y. d = Some y \<longrightarrow> dev_ok y) \<and> (\<forall>w. m = Some w \<longrightarrow> w \<in> lang BUILDMETADATA_BODY)
      \<and> s = dev_text d @ meta_text m @ t \<and> f = opt_grp ''buildmetadata'' m (dev_env d e))"
  unfolding VERSION_TAIL_def rm_SeqEol_iff rm_Seq_iff rm_dev_iff SEMVER_BUILDMETADATA_REGEX_def
    rm_opt_grp_iff [OF plain_parts(4)] meta_text_def
  by (auto simp: eol_ok_def NEWLINE_def)

lemma rm_version_split:
  "rm n (Seq VMN_VERSION_BODY Eol) s e
     = rm n (Seq VMN_BASE_VER_REGEX (Seq VMN_PRERELEASE_REGEX VERSION_TAIL)) s e"
  unfolding VMN_VERSION_BODY_def VMN_VERSTR_REGEX_def VERSION_TAIL_def Seqs.simps rm_Seq_assoc_list
  ..

definition PRE_PART :: re where
  "PRE_PART = Seqs [Lit CHR ''-'', Grp ''prerelease'' PRERELEASE_BODY, Lit CHR ''.'',
     Grp ''rcn'' DIGIT_REGEX]"

lemma rm_PRE_PART_iff: "(t, f) \<in> set (rm n PRE_PART s e) \<longleftrightarrow>
   (\<exists>x r. x \<in> lang PRERELEASE_BODY \<and> canonical_num r \<and> s = pre_text (Some (x, r)) @ t
      \<and> f = pre_env (Some (x, r)) e)" (is "?L \<longleftrightarrow> ?R")
proof
  assume ?L then show ?R
    unfolding PRE_PART_def Seqs.simps rm_seq_iffs rm_Seq_Grp_iff [OF plain_parts(3)]
      rm_Grp_plain_iff [OF plain_parts(1)] lang_DIGIT_REGEX
    by (auto simp: pre_text_def pre_env_def)
next
  assume ?R then show ?L
    unfolding PRE_PART_def Seqs.simps
    by (auto simp: pre_text_def pre_env_def lang_DIGIT_REGEX simp del: rm.simps
        intro!: rm_intros plain_parts)
qed

lemma PRERELEASE_REGEX_PART: "VMN_PRERELEASE_REGEX = Opt PRE_PART"
  by (simp add: VMN_PRERELEASE_REGEX_def PRE_PART_def)

definition parts_base_ok :: "parts \<Rightarrow> bool" where
  "parts_base_ok p = (canonical_num (p_major p) \<and> canonical_num (p_minor p)
     \<and> canonical_num (p_patch p) \<and> (\<forall>w. p_hotfix p = Some w \<longrightarrow> canonical_num w))"

definition suffix_text :: "parts \<Rightarrow> string" where
  "suffix_text p = pre_text (p_pre p) @ dev_text (p_dev p) @ meta_text (p_meta p)"

lemma suffix_tail_ok': "eol_ok t \<Longrightarrow> tail_ok (suffix_text p @ t)"
  by (simp add: suffix_text_def suffix_tail_ok)

lemma parts_split:
  assumes "parts_text p @ t = parts_text q @ u" "parts_ok p" "parts_ok q" "eol_ok t" "eol_ok u"
  shows "p_major p = p_major q \<and> p_minor p = p_minor q \<and> p_patch p = p_patch q
    \<and> p_hotfix p = p_hotfix q \<and> suffix_text p @ t = suffix_text q @ u"
  by (rule base_split)
    (use assms in \<open>auto simp: parts_ok_def suffix_text_def parts_text_def suffix_tail_ok\<close>)

lemma version_search_prefers_pre:
  assumes p: "parts_ok p" "p_pre p \<noteq> None" and t: "eol_ok t"
  obtains m q where "re_search VMN_VERSION_REGEX (parts_text p @ t) = Some m" "parts_ok q"
    "eol_ok (m_rest m)" "parts_text p @ t = parts_text q @ m_rest m"
    "m_env m = parts_env q Map.empty" "p_pre q \<noteq> None"
proof -
  let ?s = "parts_text p @ t"
  let ?n = "length ?s"
  let ?K = "\<lambda>(u, g). rm ?n (Seq VMN_PRERELEASE_REGEX VERSION_TAIL) u g"
  let ?u = "suffix_text p @ t"
  let ?g = "base_env (p_major p) (p_minor p) (p_patch p) (p_hotfix p) Map.empty"
  let ?P = "rm ?n (Seq PRE_PART VERSION_TAIL) ?u ?g"
  obtain x r where xr: "p_pre p = Some (x, r)" using p(2) by auto
  have tail: "(t, parts_env p Map.empty) \<in> set (rm ?n VERSION_TAIL (dev_text (p_dev p) @ meta_text (p_meta p) @ t)
      (pre_env (p_pre p) ?g))"
    unfolding rm_tail_iff using p t by (auto simp: parts_ok_def parts_env_def)
  have "(dev_text (p_dev p) @ meta_text (p_meta p) @ t, pre_env (p_pre p) ?g) \<in> set (rm ?n PRE_PART ?u ?g)"
    unfolding rm_PRE_PART_iff using p xr by (auto simp: parts_ok_def suffix_text_def)
  then have P: "?P \<noteq> []" using rm_SeqI [OF _ tail] by (metis empty_iff list.set(1))
  have K: "?K (?u, ?g) = ?P @ rm ?n VERSION_TAIL ?u ?g"
    by (simp add: PRERELEASE_REGEX_PART rm_Seq_Opt_list del: rm.simps)
  have other: "y = (?u, ?g) \<or> ?K y = []" if y: "y \<in> set (rm ?n VMN_BASE_VER_REGEX ?s Map.empty)" for y
  proof (rule disjCI)
    obtain v h where vh: "y = (v, h)" by (cases y)
    assume "?K y \<noteq> []"
    then obtain w f where "(w, f) \<in> set (rm ?n (Seq VMN_PRERELEASE_REGEX VERSION_TAIL) v h)"
      unfolding vh by (metis case_prod_conv list.set_intros(1) neq_Nil_conv surj_pair)
    then have tv: "tail_ok v"
      unfolding rm_Seq_iff rm_pre_iff rm_tail_iff by (auto intro: suffix_tail_ok)
    obtain a b c k where abc: "canonical_num a" "canonical_num b" "canonical_num c"
        "\<forall>w. k = Some w \<longrightarrow> canonical_num w" "?s = base_text a b c k @ v" "h = base_env a b c k Map.empty"
      using y unfolding vh rm_base_iff by blast
    have "a = p_major p \<and> b = p_minor p \<and> c = p_patch p \<and> k = p_hotfix p \<and> v = ?u"
      by (rule base_split) (use abc p t tv in \<open>auto simp: parts_ok_def parts_text_def suffix_text_def
          suffix_tail_ok\<close>)
    then show "y = (?u, ?g)" using vh abc by simp
  qed
  have here: "(?u, ?g) \<in> set (rm ?n VMN_BASE_VER_REGEX ?s Map.empty)"
    unfolding rm_base_iff using p by (auto simp: parts_ok_def parts_text_def suffix_text_def)
  have "rm ?n (Seq VMN_VERSION_BODY Eol) ?s Map.empty
      = concat (map ?K (rm ?n VMN_BASE_VER_REGEX ?s Map.empty))"
    unfolding rm_version_split by (rule rm.simps(3))
  moreover have "?K (?u, ?g) \<noteq> []" using K P by simp
  ultimately obtain zs where
    "rm ?n (Seq VMN_VERSION_BODY Eol) ?s Map.empty = ?K (?u, ?g) @ zs"
    using concat_map_first [OF here, of ?K] other by metis
  then have "rm ?n (Seq VMN_VERSION_BODY Eol) ?s Map.empty = ?P @ (rm ?n VERSION_TAIL ?u ?g @ zs)"
    using K by simp
  moreover obtain w f ps where wf: "?P = (w, f) # ps" using P by (metis neq_Nil_conv surj_pair)
  ultimately obtain m where m: "re_search VMN_VERSION_REGEX ?s = Some m" "m_rest m = w" "m_env m = f"
    unfolding VMN_VERSION_REGEX_def re_search_anchored by simp
  have "(w, f) \<in> set ?P" using wf by simp
  then obtain x' r' d k where "x' \<in> lang PRERELEASE_BODY" "canonical_num r'"
      "?u = pre_text (Some (x', r')) @ dev_text d @ meta_text k @ w" "eol_ok w"
      "\<forall>y. d = Some y \<longrightarrow> dev_ok y" "\<forall>y. k = Some y \<longrightarrow> y \<in> lang BUILDMETADATA_BODY"
      "f = opt_grp ''buildmetadata'' k (dev_env d (pre_env (Some (x', r')) ?g))"
    unfolding rm_Seq_iff rm_PRE_PART_iff rm_tail_iff by auto
  then show ?thesis
    using p(1) m by (intro that [of m "p\<lparr>p_pre := Some (x', r'), p_dev := d, p_meta := k\<rparr>"])
      (auto simp: parts_ok_def parts_text_def suffix_text_def parts_env_def)
qed

section \<open>Separating the suffix\<close>

lemma list_all_notin: "list_all P w \<Longrightarrow> \<not> P c \<Longrightarrow> c \<notin> set w"
  by (auto simp: list_all_iff)

lemma not_dotted [simp]: "\<not> dotted_char CHR ''+''" "\<not> dotted_char NEWLINE"
  by (simp_all add: dotted_char_def ident_char_def in_range_def NEWLINE_def)

lemma is_hex_dotted: "is_hex c \<Longrightarrow> dotted_char c"
  by (auto simp: is_hex_def cls_mem_def dotted_char_def ident_char_def in_range_def)

lemma digits_dotted: "list_all is_digit w \<Longrightarrow> list_all dotted_char w"
  by (simp add: list_all_iff is_digit_dotted)

lemma hex_dotted: "list_all is_hex w \<Longrightarrow> list_all dotted_char w"
  by (simp add: list_all_iff is_hex_dotted)

lemma dotted_lits [simp]:
  "dotted_char CHR ''-''" "dotted_char CHR ''.''" "dotted_char CHR ''d''" "dotted_char CHR ''e''"
  "dotted_char CHR ''v''" "dotted_char CHR ''r''"
  by (simp_all add: dotted_char_def ident_char_def in_range_def)

lemma pre_dotted:
  assumes "parts_ok p"
  shows "list_all dotted_char (pre_text (p_pre p))"
proof (cases "p_pre p")
  case None
  then show ?thesis by (simp add: pre_text_def)
next
  case (Some y)
  obtain x r where "y = (x, r)" by (cases y)
  then show ?thesis using Some assms
    by (simp add: pre_text_def parts_ok_def prerelease_chars canonical_digits digits_dotted)
qed

lemma dev_dotted:
  assumes "parts_ok p"
  shows "list_all dotted_char (dev_text (p_dev p))"
proof (cases "p_dev p")
  case None
  then show ?thesis by (simp add: dev_text_def)
next
  case (Some y)
  obtain c h k where y: "y = (c, h, k)" by (cases y)
  then have "list_all is_hex c" "list_all is_hex h" "\<forall>w. k = Some w \<longrightarrow> list_all is_digit w"
    using Some assms by (auto simp: parts_ok_def dev_ok_def all_digits_def)
  then show ?thesis using Some y
    by (cases k) (simp_all add: dev_text_def run_text_def hex_dotted digits_dotted)
qed

lemma meta_no_newline:
  assumes "parts_ok p"
  shows "NEWLINE \<notin> set (meta_text (p_meta p))"
proof (cases "p_meta p")
  case (Some w)
  then have "list_all dotted_char w" using assms buildmetadata_chars by (simp add: parts_ok_def)
  then have "NEWLINE \<notin> set w" by (rule list_all_notin) (rule not_dotted)
  then show ?thesis using Some by (simp add: meta_text_def NEWLINE_def)
qed (simp add: meta_text_def)

lemma eol_strip:
  assumes eq: "a @ t = b @ u" and a: "NEWLINE \<notin> set a" and b: "NEWLINE \<notin> set b"
    and t: "eol_ok t" and u: "eol_ok u"
  shows "t = u"
proof -
  have "filter (\<lambda>c. c = NEWLINE) (a @ t) = filter (\<lambda>c. c = NEWLINE) (b @ u)" using eq by simp
  moreover have "filter (\<lambda>c. c = NEWLINE) a = []" "filter (\<lambda>c. c = NEWLINE) b = []"
    using a b by (auto simp: filter_empty_conv)
  ultimately show ?thesis using t u by (auto simp: eol_ok_def split: if_splits)
qed

lemma meta_split:
  assumes eq: "a @ meta_text m = b @ meta_text k" and a: "CHR ''+'' \<notin> set a" and b: "CHR ''+'' \<notin> set b"
  shows "a = b \<and> m = k"
proof (cases m; cases k)
  fix w v
  assume "m = Some w" "k = Some v"
  moreover from this have "a @ CHR ''+'' # w = b @ CHR ''+'' # v" using eq by (simp add: meta_text_def)
  ultimately show ?thesis using append_first_split [OF _ a b] by simp
next
  fix w
  assume mk: "m = None" "k = Some w"
  have "CHR ''+'' \<in> set (b @ meta_text k)" using mk by (simp add: meta_text_def)
  then have "CHR ''+'' \<in> set a" unfolding eq [symmetric] unfolding mk by (simp add: meta_text_def)
  then show ?thesis using a by contradiction
next
  fix w
  assume mk: "m = Some w" "k = None"
  have "CHR ''+'' \<in> set (a @ meta_text m)" using mk by (simp add: meta_text_def)
  then have "CHR ''+'' \<in> set b" unfolding eq unfolding mk by (simp add: meta_text_def)
  then show ?thesis using b by contradiction
next
  assume "m = None" "k = None"
  then show ?thesis using eq by (simp add: meta_text_def)
qed

lemma suffix_split:
  assumes eq: "suffix_text p @ t = suffix_text q @ u"
    and p: "parts_ok p" and q: "parts_ok q" and t: "eol_ok t" and u: "eol_ok u"
  shows "pre_text (p_pre p) @ dev_text (p_dev p) = pre_text (p_pre q) @ dev_text (p_dev q)
    \<and> p_meta p = p_meta q \<and> t = u"
proof -
  let ?A = "pre_text (p_pre p) @ dev_text (p_dev p)"
  let ?B = "pre_text (p_pre q) @ dev_text (p_dev q)"
  have dA: "list_all dotted_char ?A" "list_all dotted_char ?B"
    using p q by (simp_all add: pre_dotted dev_dotted)
  have NLA: "NEWLINE \<notin> set ?A" "CHR ''+'' \<notin> set ?A"
    by (rule list_all_notin [OF dA(1) not_dotted(2)], rule list_all_notin [OF dA(1) not_dotted(1)])
  have NLB: "NEWLINE \<notin> set ?B" "CHR ''+'' \<notin> set ?B"
    by (rule list_all_notin [OF dA(2) not_dotted(2)], rule list_all_notin [OF dA(2) not_dotted(1)])
  have NLm: "NEWLINE \<notin> set (?A @ meta_text (p_meta p))" "NEWLINE \<notin> set (?B @ meta_text (p_meta q))"
    using NLA NLB meta_no_newline [OF p] meta_no_newline [OF q] by simp_all
  have e: "(?A @ meta_text (p_meta p)) @ t = (?B @ meta_text (p_meta q)) @ u"
    using eq by (simp add: suffix_text_def)
  then have tu: "t = u"
    using eol_strip [OF _ NLm t u] by simp
  with e have "?A @ meta_text (p_meta p) = ?B @ meta_text (p_meta q)" by simp
  then have "?A = ?B \<and> p_meta p = p_meta q" by (rule meta_split [OF _ NLA(2) NLB(2)])
  then show ?thesis using tu by simp
qed

end
