(* ===== verification/Version_Properties.thy ===== *)
theory Version_Properties
imports Version_Laws
begin

text \<open>
  What the version grammar promises its callers: printing and parsing are inverse to each
  other where they are, which texts are accepted, when a development version is read as a
  prerelease, and how tags carry an application name.
\<close>

section \<open>The dotted parts as predicates on strings\<close>

definition prerelease_ident :: "string \<Rightarrow> bool" where
  "prerelease_ident w = (canonical_num w
     \<or> (w \<noteq> [] \<and> list_all ident_char w \<and> \<not> list_all is_digit w))"

definition prerelease_ok :: "string \<Rightarrow> bool" where
  "prerelease_ok w = list_all prerelease_ident (split_char CHR ''.'' w)"

definition metadata_ok :: "string \<Rightarrow> bool" where
  "metadata_ok w = list_all (\<lambda>x. x \<noteq> [] \<and> list_all ident_char x) (split_char CHR ''.'' w)"

lemma cls_alnum_dash: "cls_mem False [(CHR ''0'', CHR ''9''), (CHR ''a'', CHR ''z''),
    (CHR ''A'', CHR ''Z''), (CHR ''-'', CHR ''-'')] c = ident_char c"
  by (auto simp: cls_mem_def ident_char_def)

lemma cls_alpha_dash: "cls_mem False [(CHR ''a'', CHR ''z''), (CHR ''A'', CHR ''Z''),
    (CHR ''-'', CHR ''-'')] c \<longleftrightarrow> ident_char c \<and> \<not> is_digit c"
  by (auto simp: cls_mem_def ident_char_def is_digit_def in_range_def)

lemma digit_ident: "is_digit c \<Longrightarrow> ident_char c"
  by (simp add: is_digit_def ident_char_def in_range_def)

lemma first_non_digit:
  "(\<exists>u c v. w = u @ c # v \<and> list_all is_digit u \<and> ident_char c \<and> \<not> is_digit c \<and> list_all ident_char v)
   \<longleftrightarrow> list_all ident_char w \<and> \<not> list_all is_digit w"
proof
  assume "\<exists>u c v. w = u @ c # v \<and> list_all is_digit u \<and> ident_char c \<and> \<not> is_digit c \<and> list_all ident_char v"
  then show "list_all ident_char w \<and> \<not> list_all is_digit w"
    using digit_ident by (auto simp: list_all_iff)
next
  assume w: "list_all ident_char w \<and> \<not> list_all is_digit w"
  then have "dropWhile is_digit w \<noteq> []" by (simp add: list_all_iff dropWhile_eq_Nil_conv)
  then obtain c v where cv: "dropWhile is_digit w = c # v" by (cases "dropWhile is_digit w") auto
  then have "\<not> is_digit c" by (simp add: dropWhile_eq_Cons_conv)
  moreover have "w = takeWhile is_digit w @ c # v" using cv by (metis takeWhile_dropWhile_id)
  moreover from this have "ident_char c \<and> list_all ident_char v"
    using w by (metis list.pred_inject(2) list_all_append)
  moreover have "list_all is_digit (takeWhile is_digit w)" by (auto simp: list_all_iff dest: set_takeWhileD)
  ultimately show "\<exists>u c v. w = u @ c # v \<and> list_all is_digit u \<and> ident_char c \<and> \<not> is_digit c
      \<and> list_all ident_char v" by blast
qed

lemma lang_PRERELEASE_IDENT: "lang PRERELEASE_IDENT = {w. prerelease_ident w}"
proof (rule set_eqI)
  fix w
  have num: "w \<in> lang (Alt (Lit CHR ''0'') (Seq NONZERO (Star DIGIT))) \<longleftrightarrow> canonical_num w"
    using lang_DIGIT_REGEX by (auto simp: DIGIT_REGEX_def)
  have "w \<in> lang (Seqs [Star DIGIT, ALPHA_DASH, Star ALNUM_DASH])
      \<longleftrightarrow> (\<exists>u c v. w = u @ c # v \<and> list_all is_digit u \<and> ident_char c \<and> \<not> is_digit c
          \<and> list_all ident_char v)"
  proof -
    have star: "lang (Star DIGIT) = {u. list_all is_digit u}"
      "lang (Star ALNUM_DASH) = {u. list_all ident_char u}"
      unfolding DIGIT_def ALNUM_DASH_def lang_Star_Cls
      by (simp_all add: cls_digit cls_alnum_dash list_all_def)
    have one: "lang ALPHA_DASH = {[c] |c. ident_char c \<and> \<not> is_digit c}"
      by (simp add: ALPHA_DASH_def cls_alpha_dash)
    show ?thesis
    proof
      assume "w \<in> lang (Seqs [Star DIGIT, ALPHA_DASH, Star ALNUM_DASH])"
      then obtain u x v where "w = u @ x @ v" "list_all is_digit u" "x \<in> lang ALPHA_DASH"
          "list_all ident_char v"
        unfolding Seqs.simps lang.simps(3) star by blast
      then show "\<exists>u c v. w = u @ c # v \<and> list_all is_digit u \<and> ident_char c \<and> \<not> is_digit c
          \<and> list_all ident_char v"
        unfolding one by force
    next
      assume "\<exists>u c v. w = u @ c # v \<and> list_all is_digit u \<and> ident_char c \<and> \<not> is_digit c
          \<and> list_all ident_char v"
      then obtain u c v where "w = u @ [c] @ v" "list_all is_digit u" "ident_char c \<and> \<not> is_digit c"
          "list_all ident_char v"
        by auto
      moreover from this have "[c] \<in> lang ALPHA_DASH" unfolding one by blast
      ultimately show "w \<in> lang (Seqs [Star DIGIT, ALPHA_DASH, Star ALNUM_DASH])"
        unfolding Seqs.simps lang.simps(3) star by blast
    qed
  qed
  then show "w \<in> lang PRERELEASE_IDENT \<longleftrightarrow> w \<in> {w. prerelease_ident w}"
    using num unfolding first_non_digit PRERELEASE_IDENT_def prerelease_ident_def by auto
qed

text \<open>Pieces of one kind separated by a character none of them holds.\<close>

lemma lang_separated:
  assumes none: "\<And>w. w \<in> lang r \<Longrightarrow> c \<notin> set w"
  shows "lang (Seq r (Star (Seq (Lit c) r))) = {w. list_all (\<lambda>x. x \<in> lang r) (split_char c w)}"
proof -
  have tail: "list_all (\<lambda>x. x \<in> lang r) (split_char c (u @ v))"
    if "v \<in> kstar (lang (Seq (Lit c) r))" "u \<in> lang r" for u v
    using that
  proof (induction v arbitrary: u rule: kstar.induct)
    case kstar_Nil
    then show ?case using none by (simp add: split_char_notin)
  next
    case (kstar_app x v)
    then obtain y where "x = c # y" "y \<in> lang r" by auto
    then show ?case using kstar_app none by (simp add: split_char_append)
  qed
  have "w \<in> lang (Seq r (Star (Seq (Lit c) r)))" if "list_all (\<lambda>x. x \<in> lang r) (split_char c w)" for w
  proof -
    have "str_join [c] xs \<in> lang (Seq r (Star (Seq (Lit c) r)))"
      if "xs \<noteq> []" "list_all (\<lambda>x. x \<in> lang r) xs" for xs
      using that
    proof (induction xs)
      case (Cons x xs)
      show ?case
      proof (cases xs)
        case Nil
        have "x @ [] \<in> lang (Seq r (Star (Seq (Lit c) r)))"
          using Cons by (auto intro: kstar.intros)
        then show ?thesis using Nil by simp
      next
        case (Cons y ys)
        then obtain u v where uv: "str_join [c] xs = u @ v" "u \<in> lang r"
            "v \<in> kstar (lang (Seq (Lit c) r))"
          using Cons.IH Cons.prems by auto
        then have "(c # u) @ v \<in> kstar (lang (Seq (Lit c) r))" by (intro kstar_app) auto
        moreover have "str_join [c] (x # xs) = x @ (c # u) @ v" using Cons uv(1) by simp
        ultimately show ?thesis using Cons.prems by auto
      qed
    qed simp
    then show ?thesis using that join_split_char by (metis split_char_nonempty)
  qed
  then show ?thesis using tail by fastforce
qed

lemma dot_not_ident [simp]: "\<not> ident_char CHR ''.''" "\<not> is_digit CHR ''.''" "\<not> ident_char CHR ''+''"
  by (simp_all add: ident_char_def in_range_def is_digit_def)

lemma prerelease_ident_chars: "prerelease_ident w \<Longrightarrow> list_all ident_char w"
  by (auto simp: prerelease_ident_def canonical_num_def all_digits_def list_all_iff digit_ident)

lemma lang_PRERELEASE_BODY: "lang PRERELEASE_BODY = {w. prerelease_ok w}"
proof -
  have "CHR ''.'' \<notin> set w" if "w \<in> lang PRERELEASE_IDENT" for w
    using that list_all_notin [of ident_char w "CHR ''.''"]
    by (simp add: lang_PRERELEASE_IDENT prerelease_ident_chars)
  from lang_separated [of PRERELEASE_IDENT, OF this] show ?thesis
    by (simp add: PRERELEASE_BODY_def prerelease_ok_def lang_PRERELEASE_IDENT)
qed

lemma lang_BUILDMETADATA_BODY: "lang BUILDMETADATA_BODY = {w. metadata_ok w}"
proof -
  have piece: "lang (Plus1 ALNUM_DASH) = {w. w \<noteq> [] \<and> list_all ident_char w}"
    unfolding ALNUM_DASH_def lang_Plus_Cls by (simp add: cls_alnum_dash list_all_def)
  have "CHR ''.'' \<notin> set w" if "w \<in> lang (Plus1 ALNUM_DASH)" for w
    using that list_all_notin [of ident_char w "CHR ''.''"] by (simp add: piece)
  from lang_separated [of "Plus1 ALNUM_DASH", OF this] show ?thesis
    by (simp add: BUILDMETADATA_BODY_def metadata_ok_def piece)
qed

section \<open>The suffix of a version is read alike after every base\<close>

fun anywhere :: "re \<Rightarrow> bool" where
  \<comment> \<open>a pattern without \<open>^\<close>\<close>
  "anywhere (Seq a b) = (anywhere a \<and> anywhere b)"
| "anywhere (Alt a b) = (anywhere a \<and> anywhere b)"
| "anywhere (Star a) = anywhere a"
| "anywhere (LStar a) = anywhere a"
| "anywhere (Grp g a) = anywhere a"
| "anywhere Bol = False"
| "anywhere r = True"

definition over :: "genv \<Rightarrow> (string \<times> genv) list \<Rightarrow> (string \<times> genv) list" where
  "over e xs = map (\<lambda>(t, f). (t, e ++ f)) xs"

lemma over_concat: "over e (concat xss) = concat (map (over e) xss)"
  by (induction xss) (simp_all add: over_def)

lemma over_over: "over e (over f xs) = over (e ++ f) xs"
  by (simp add: over_def comp_def case_prod_unfold map_add_assoc)

lemma over_empty [simp]: "over Map.empty xs = xs"
  by (simp add: over_def)

lemma over_bind:
  assumes "\<And>t f. k t (e ++ f) = over e (h t f)"
  shows "concat (map (\<lambda>(t, f). k t f) (over e xs)) = over e (concat (map (\<lambda>(t, f). h t f) xs))"
  using assms by (simp add: over_concat) (simp add: over_def comp_def case_prod_unfold)

lemma rm_over: "anywhere r \<Longrightarrow> rm n r s (e ++ f) = over e (rm m r s f)"
proof (induction r arbitrary: s e f)
  case (Seq a b)
  have "rm n a s (e ++ f) = over e (rm m a s f)" using Seq by simp
  then show ?case unfolding rm.simps
    by (simp only:) (rule over_bind, use Seq in simp)
next
  case (Star a)
  have IH: "rm n a s (e ++ f) = over e (rm m a s f)" for s e f using Star by simp
  show ?case
  proof (induction "length s" arbitrary: s f rule: less_induct)
    case less
    let ?k = "\<lambda>n t f. if length t < length s then rm n (Star a) t f else []"
    have "concat (map (\<lambda>(t, f). ?k n t f) (over e (rm m a s f))) = over e (concat (map (\<lambda>(t, f). ?k m t f) (rm m a s f)))"
      by (rule over_bind) (use less in \<open>auto simp: over_def\<close>)
    then show ?case
      by (subst (1 2) rm.simps(5)) (simp add: IH [symmetric], simp add: over_def IH)
  qed
next
  case (LStar a)
  have IH: "rm n a s (e ++ f) = over e (rm m a s f)" for s e f using LStar by simp
  show ?case
  proof (induction "length s" arbitrary: s f rule: less_induct)
    case less
    let ?k = "\<lambda>n t f. if length t < length s then rm n (LStar a) t f else []"
    have "concat (map (\<lambda>(t, f). ?k n t f) (over e (rm m a s f))) = over e (concat (map (\<lambda>(t, f). ?k m t f) (rm m a s f)))"
      by (rule over_bind) (use less in \<open>auto simp: over_def\<close>)
    then show ?case
      by (subst (1 2) rm.simps(6)) (simp add: IH [symmetric], simp add: over_def IH)
  qed
next
  case (Grp g a)
  have "rm n a s (e ++ f) = over e (rm m a s f)" using Grp by simp
  then show ?case by (simp add: over_def comp_def case_prod_unfold)
qed (auto simp: over_def split: list.splits)

lemma rm_from_empty: "anywhere r \<Longrightarrow> rm n r s e = over e (rm m r s Map.empty)"
  using rm_over [of r n s e Map.empty m] by simp

lemma anywhere_simps [simp]:
  "anywhere (Lit c)" "anywhere (Opt r) = anywhere r" "anywhere (Plus1 r) = anywhere r"
  by (simp_all add: Lit_def Opt_def Plus1_def)

lemma anywhere_Lits [simp]: "anywhere (Lits w)"
  by (induction w rule: Lits.induct) (simp_all add: Lits.simps)

lemma anywhere_Upto [simp]: "anywhere r \<Longrightarrow> anywhere (Upto k r)"
  by (induction k) simp_all

lemma anywhere_Rep [simp]: "anywhere r \<Longrightarrow> anywhere (Rep lo k r)"
  by (induction lo) simp_all

definition VERSION_SUFFIX :: re where
  "VERSION_SUFFIX = Seq VMN_PRERELEASE_REGEX VERSION_TAIL"

lemma anywhere_suffix: "anywhere VERSION_SUFFIX"
  by (simp add: VERSION_SUFFIX_def VERSION_TAIL_def VMN_PRERELEASE_REGEX_def VMN_DEV_REGEX_def
      SEMVER_BUILDMETADATA_REGEX_def PRERELEASE_BODY_def PRERELEASE_IDENT_def BUILDMETADATA_BODY_def
      DEV_RUN_REGEX_def DIGIT_REGEX_def NONZERO_def DIGIT_def ALPHA_DASH_def ALNUM_DASH_def HEX_def)

lemma rm_suffix_iff: "(t, f) \<in> set (rm n VERSION_SUFFIX s e) \<longleftrightarrow>
    eol_ok t \<and> (\<exists>x d m. (\<forall>y r. x = Some (y, r) \<longrightarrow> y \<in> lang PRERELEASE_BODY \<and> canonical_num r)
      \<and> (\<forall>y. d = Some y \<longrightarrow> dev_ok y) \<and> (\<forall>w. m = Some w \<longrightarrow> w \<in> lang BUILDMETADATA_BODY)
      \<and> s = pre_text x @ dev_text d @ meta_text m @ t
      \<and> f = opt_grp ''buildmetadata'' m (dev_env d (pre_env x e)))"
  unfolding VERSION_SUFFIX_def rm_Seq_iff rm_pre_iff rm_tail_iff by auto

lemma env_over:
  "opt_grp g w (b ++ e) = b ++ opt_grp g w e" "dev_env d (b ++ e) = b ++ dev_env d e"
  "pre_env x (b ++ e) = b ++ pre_env x e"
  by (auto simp: opt_grp_def dev_env_def pre_env_def split: option.splits)

lemma version_search_suffix:
  assumes p: "parts_ok p" and t: "eol_ok t"
  obtains m w f rest where "re_search VMN_VERSION_REGEX (parts_text p @ t) = Some m"
    "rm 0 VERSION_SUFFIX (suffix_text p @ t) Map.empty = (w, f) # rest"
    "m_rest m = w" "m_env m = base_env (p_major p) (p_minor p) (p_patch p) (p_hotfix p) Map.empty ++ f"
proof -
  let ?s = "parts_text p @ t"
  let ?n = "length ?s"
  let ?K = "\<lambda>(u, g). rm ?n VERSION_SUFFIX u g"
  let ?u = "suffix_text p @ t"
  let ?g = "base_env (p_major p) (p_minor p) (p_patch p) (p_hotfix p) Map.empty"
  have "(t, opt_grp ''buildmetadata'' (p_meta p) (dev_env (p_dev p) (pre_env (p_pre p) ?g))) \<in> set (?K (?u, ?g))"
    using p t unfolding prod.case rm_suffix_iff by (auto simp: parts_ok_def suffix_text_def)
  then have K: "?K (?u, ?g) \<noteq> []" by (metis empty_iff list.set(1))
  have other: "y = (?u, ?g) \<or> ?K y = []" if y: "y \<in> set (rm ?n VMN_BASE_VER_REGEX ?s Map.empty)" for y
  proof (rule disjCI)
    obtain v h where vh: "y = (v, h)" by (cases y)
    assume "?K y \<noteq> []"
    then obtain w f where "(w, f) \<in> set (rm ?n VERSION_SUFFIX v h)"
      unfolding vh by (metis case_prod_conv list.set_intros(1) neq_Nil_conv surj_pair)
    then have tv: "tail_ok v" unfolding rm_suffix_iff by (auto intro: suffix_tail_ok)
    obtain a b c k where abc: "canonical_num a" "canonical_num b" "canonical_num c"
        "\<forall>w. k = Some w \<longrightarrow> canonical_num w" "?s = base_text a b c k @ v" "h = base_env a b c k Map.empty"
      using y unfolding vh rm_base_iff by blast
    have "a = p_major p \<and> b = p_minor p \<and> c = p_patch p \<and> k = p_hotfix p \<and> v = ?u"
      by (rule base_split) (use abc p t tv in \<open>auto simp: parts_ok_def parts_text_def suffix_text_def
          suffix_tail_ok\<close>)
    then show "y = (?u, ?g)" using vh abc by simp
  qed
  have here: "(?u, ?g) \<in> set (rm ?n VMN_BASE_VER_REGEX ?s Map.empty)"
    unfolding rm_base_iff using p by (auto simp: parts_ok_def parts_text_def suffix_text_def)
  have "rm ?n (Seq VMN_VERSION_BODY Eol) ?s Map.empty = concat (map ?K (rm ?n VMN_BASE_VER_REGEX ?s Map.empty))"
    unfolding rm_version_split VERSION_SUFFIX_def by (rule rm.simps(3))
  then obtain zs where zs: "rm ?n (Seq VMN_VERSION_BODY Eol) ?s Map.empty = ?K (?u, ?g) @ zs"
    using concat_map_first [OF here, of ?K] K other by metis
  have o: "?K (?u, ?g) = over ?g (rm 0 VERSION_SUFFIX ?u Map.empty)"
    unfolding prod.case by (rule rm_from_empty [OF anywhere_suffix])
  then have "rm 0 VERSION_SUFFIX ?u Map.empty \<noteq> []" using K by (auto simp: over_def)
  then obtain w f ps where wf: "rm 0 VERSION_SUFFIX ?u Map.empty = (w, f) # ps" by (metis neq_Nil_conv surj_pair)
  then have "rm ?n (Seq VMN_VERSION_BODY Eol) ?s Map.empty = (w, ?g ++ f) # (over ?g ps @ zs)"
    using zs o by (simp add: over_def)
  then show ?thesis using wf that unfolding VMN_VERSION_REGEX_def re_search_anchored by simp
qed

lemma deserialize_other_base:
  assumes q: "parts_ok q" "eol_ok t" and d: "deserialize_vmn_version (parts_text q @ t) = Inr (props_of_parts q)"
    and q': "parts_ok q'" "suffix_text q' = suffix_text q"
  shows "\<exists>q2. deserialize_vmn_version (parts_text q' @ t) = Inr (props_of_parts q2)
    \<and> parts_ok q2 \<and> p_major q2 = p_major q' \<and> p_minor q2 = p_minor q' \<and> p_patch q2 = p_patch q'
    \<and> p_hotfix q2 = p_hotfix q' \<and> props_of_parts q = props_of_parts (q2\<lparr>p_major := p_major q, p_minor := p_minor q,
       p_patch := p_patch q, p_hotfix := p_hotfix q\<rparr>)"
proof -
  obtain m w f rest where m: "re_search VMN_VERSION_REGEX (parts_text q @ t) = Some m"
    "rm 0 VERSION_SUFFIX (suffix_text q @ t) Map.empty = (w, f) # rest"
    "m_rest m = w" "m_env m = base_env (p_major q) (p_minor q) (p_patch q) (p_hotfix q) Map.empty ++ f"
    by (rule version_search_suffix [OF q])
  obtain m' where m': "re_search VMN_VERSION_REGEX (parts_text q' @ t) = Some m'"
    "m_rest m' = w" "m_env m' = base_env (p_major q') (p_minor q') (p_patch q') (p_hotfix q') Map.empty ++ f"
    using version_search_suffix [OF q'(1) q(2)] m(2) unfolding q'(2) by (metis list.inject prod.inject)
  have "(w, f) \<in> set (rm 0 VERSION_SUFFIX (suffix_text q @ t) Map.empty)" by (simp add: m(2))
  then obtain x e k where x: "\<forall>y r. x = Some (y, r) \<longrightarrow> y \<in> lang PRERELEASE_BODY \<and> canonical_num r"
      "\<forall>y. e = Some y \<longrightarrow> dev_ok y" "\<forall>w. k = Some w \<longrightarrow> w \<in> lang BUILDMETADATA_BODY"
      "f = opt_grp ''buildmetadata'' k (dev_env e (pre_env x Map.empty))"
    unfolding rm_suffix_iff by blast
  have env: "base_env a b c h Map.empty ++ f
      = parts_env \<lparr>p_major = a, p_minor = b, p_patch = c, p_hotfix = h, p_pre = x, p_dev = e, p_meta = k\<rparr> Map.empty"
    for a b c h
    unfolding x(4) parts_env_def parts.simps by (simp add: env_over [symmetric])
  let ?q2 = "\<lambda>a b c h. \<lparr>p_major = a, p_minor = b, p_patch = c, p_hotfix = h, p_pre = x, p_dev = e, p_meta = k\<rparr>"
  have "deserialize_vmn_version (parts_text q @ t)
      = Inr (props_of_parts (?q2 (p_major q) (p_minor q) (p_patch q) (p_hotfix q)))"
    using m(1,4) unfolding env by (simp add: deserialize_vmn_version_def root_search_parts fill_props_parts)
  moreover have "deserialize_vmn_version (parts_text q' @ t)
      = Inr (props_of_parts (?q2 (p_major q') (p_minor q') (p_patch q') (p_hotfix q')))"
    using m'(1,3) unfolding env by (simp add: deserialize_vmn_version_def root_search_parts fill_props_parts)
  ultimately show ?thesis using d q'(1) x(1-3)
    by (intro exI [of _ "?q2 (p_major q') (p_minor q') (p_patch q') (p_hotfix q')"]) (auto simp: parts_ok_def)
qed

section \<open>Reading back what was written\<close>

definition num_parts :: "nat \<Rightarrow> nat \<Rightarrow> nat \<Rightarrow> nat \<Rightarrow> bool \<Rightarrow> parts" where
  "num_parts a b c h hide =
     \<lparr>p_major = nat_str a, p_minor = nat_str b, p_patch = nat_str c,
      p_hotfix = (if hide \<and> h = 0 then None else Some (nat_str h)),
      p_pre = None, p_dev = None, p_meta = None\<rparr>"

abbreviation base_verstr :: "nat \<Rightarrow> nat \<Rightarrow> nat \<Rightarrow> nat \<Rightarrow> bool \<Rightarrow> string" where
  "base_verstr a b c h hide \<equiv>
     serialize_vmn_base_version (Some (int a)) (Some (int b)) (Some (int c)) (Some (int h)) hide"

definition num_props :: "nat \<Rightarrow> nat \<Rightarrow> nat \<Rightarrow> nat \<Rightarrow> version_props" where
  "num_props a b c h = VersionProps\<lparr>vp_major := Some (int a), vp_minor := Some (int b),
     vp_patch := Some (int c), vp_hotfix := Some (int h)\<rparr>"

lemma num_parts_text: "parts_text (num_parts a b c h hide) = base_verstr a b c h hide"
  by (simp add: num_parts_def parts_text_def base_text_def serialize_vmn_base_version_def
      fmt_int_def pre_text_def dev_text_def meta_text_def)

lemma num_parts_ok: "parts_ok (num_parts a b c h hide)"
  by (simp add: parts_ok_def num_parts_def)

lemma num_parts_props: "props_of_parts (num_parts a b c h hide) = num_props a b c h"
  by (simp add: props_of_parts_def num_parts_def num_props_def VersionProps_def)

lemma pre_text_dash: "p_pre p \<noteq> None \<Longrightarrow> CHR ''-'' \<in> set (pre_text (p_pre p))"
  by (cases "p_pre p") (auto simp: pre_text_def)

lemma dev_text_empty [simp]: "dev_text d = [] \<longleftrightarrow> d = None"
  by (cases d) (auto simp: dev_text_def)

lemma pre_text_empty [simp]: "pre_text x = [] \<longleftrightarrow> x = None"
  by (cases x) (auto simp: pre_text_def)

lemma dev_text_dash: "d \<noteq> None \<Longrightarrow> CHR ''-'' \<in> set (dev_text d)"
  by (cases d) (auto simp: dev_text_def)

lemma canonical_no_dash: "canonical_num r \<Longrightarrow> CHR ''-'' \<notin> set r \<and> CHR ''.'' \<notin> set r"
  using canonical_digits list_all_notin not_digit_simps by (metis dot_not_ident(2))

lemma same_pieces:
  assumes "parts_ok p" "parts_ok q" "eol_ok t" "eol_ok u" "parts_text p @ t = parts_text q @ u"
  shows "pre_text (p_pre p) @ dev_text (p_dev p) = pre_text (p_pre q) @ dev_text (p_dev q)"
    "p_major p = p_major q" "p_minor p = p_minor q" "p_patch p = p_patch q"
    "p_hotfix p = p_hotfix q" "p_meta p = p_meta q" "t = u"
  using parts_split [OF assms(5,1,2,3,4)] suffix_split [OF _ assms(1-4)] by auto

lemma same_parts:
  assumes "parts_ok p" "parts_ok q" "eol_ok t" "eol_ok u" "parts_text p @ t = parts_text q @ u"
    and "p_pre p = p_pre q" "p_dev p = p_dev q"
  shows "p = q"
  using same_pieces [OF assms(1-5)] assms(6,7) by (cases p; cases q) simp

lemma deserialize_plain:
  assumes p: "parts_ok p" "p_pre p = None" "p_dev p = None" and t: "eol_ok t"
  shows "deserialize_vmn_version (parts_text p @ t) = Inr (props_of_parts p)"
proof -
  obtain q u where q: "parts_ok q" "eol_ok u" "parts_text p @ t = parts_text q @ u"
      "deserialize_vmn_version (parts_text p @ t) = Inr (props_of_parts q)"
    using deserialize_parts [OF p(1) t] by metis
  have "pre_text (p_pre q) @ dev_text (p_dev q) = []"
    using same_pieces(1) [OF p(1) q(1) t q(2,3)] p by (simp add: pre_text_def dev_text_def)
  then have "p = q" using same_parts [OF p(1) q(1) t q(2,3)] p by simp
  then show ?thesis using q(4) by simp
qed

lemma deserialize_pre:
  assumes p: "parts_ok p" "p_pre p = Some (x, r)" "p_dev p = None" "CHR ''-'' \<notin> set x"
    and t: "eol_ok t"
  shows "deserialize_vmn_version (parts_text p @ t) = Inr (props_of_parts p)"
proof -
  obtain m q where q: "re_search VMN_VERSION_REGEX (parts_text p @ t) = Some m" "parts_ok q"
    "eol_ok (m_rest m)" "parts_text p @ t = parts_text q @ m_rest m"
    "m_env m = parts_env q Map.empty" "p_pre q \<noteq> None"
    using version_search_prefers_pre [OF p(1) _ t] p(2) by blast
  obtain x' r' where x': "p_pre q = Some (x', r')" using q(6) by auto
  have r: "canonical_num r" "canonical_num r'" using p(1,2) q(2) x' by (auto simp: parts_ok_def)
  have eq: "x @ CHR ''.'' # r = x' @ CHR ''.'' # r' @ dev_text (p_dev q)"
    using same_pieces(1) [OF p(1) q(2) t q(3,4)] p(2,3) x' by (simp add: pre_text_def dev_text_def)
  have "CHR ''-'' \<notin> set (x @ CHR ''.'' # r)" using p(4) canonical_no_dash [OF r(1)] by simp
  then have "CHR ''-'' \<notin> set (dev_text (p_dev q))" unfolding eq by simp
  then have d: "p_dev q = None" using dev_text_dash by blast
  then have "x = x' \<and> r = r'"
    using eq append_single_split [of x "CHR ''.''" r x' r'] canonical_no_dash r by (simp add: dev_text_def)
  then have "p = q" using same_parts [OF p(1) q(2) t q(3,4)] p(2,3) x' d by simp
  then show ?thesis using q(1,5)
    by (simp add: deserialize_vmn_version_def root_search_parts fill_props_parts)
qed

lemma deserialize_base:
  "deserialize_vmn_version (base_verstr a b c h hide) = Inr (num_props a b c h)"
proof -
  have "p_pre (num_parts a b c h hide) = None" "p_dev (num_parts a b c h hide) = None"
    by (simp_all add: num_parts_def)
  from deserialize_plain [OF num_parts_ok this, of "[]"] show ?thesis
    by (simp add: num_parts_text num_parts_props eol_ok_def)
qed

text \<open>A development suffix, and when it is also a prerelease with a release candidate number.\<close>

lemma hex_no_dot: "list_all is_hex w \<Longrightarrow> CHR ''-'' \<notin> set w \<and> CHR ''.'' \<notin> set w"
proof -
  have "\<not> is_hex CHR ''-''" "\<not> is_hex CHR ''.''" by (simp_all add: is_hex_def cls_mem_def in_range_def)
  then show "list_all is_hex w \<Longrightarrow> ?thesis" using list_all_notin by metis
qed

lemma is_hex_ident: "is_hex c \<Longrightarrow> ident_char c"
  by (auto simp: is_hex_def cls_mem_def ident_char_def in_range_def)

definition dev_reads_as_prerelease :: "string \<Rightarrow> string \<Rightarrow> bool" where
  "dev_reads_as_prerelease c h =
     (canonical_num h \<and> (canonical_num c \<or> \<not> list_all is_digit c))"

lemma dev_commit_prerelease:
  assumes "list_all is_hex c" "c \<noteq> []"
  shows "prerelease_ok (''dev.'' @ c) \<longleftrightarrow> canonical_num c \<or> \<not> list_all is_digit c"
proof -
  have c: "CHR ''.'' \<notin> set c" using hex_no_dot [OF assms(1)] by simp
  have i: "list_all ident_char c" using assms(1) is_hex_ident by (auto simp: list_all_iff)
  have d: "prerelease_ident ''dev''"
    by (simp add: prerelease_ident_def ident_char_def in_range_def is_digit_def)
  have "split_char CHR ''.'' (''dev'' @ CHR ''.'' # c) = [''dev'', c]"
    by (subst split_char_append) (use c in \<open>auto simp: split_char_notin\<close>)
  then show ?thesis
    using i assms(2) d by (auto simp: prerelease_ok_def prerelease_ident_def)
qed

lemma deserialize_dev:
  assumes p: "parts_ok p" "p_pre p = None" "p_dev p = Some (c, h, None)" and t: "eol_ok t"
  shows "is_dev_version (parts_text p @ t) \<longleftrightarrow> \<not> dev_reads_as_prerelease c h"
proof -
  have ch: "list_all is_hex c" "list_all is_hex h" "c \<noteq> []"
    using p by (auto simp: parts_ok_def dev_ok_def)
  have dc: "prerelease_ok (''dev.'' @ c) \<longleftrightarrow> canonical_num c \<or> \<not> list_all is_digit c"
    using dev_commit_prerelease ch by blast
  have dash: "CHR ''-'' \<notin> set (''dev.'' @ c @ CHR ''.'' # h)" using hex_no_dot ch by simp
  have pieces: "pre_text (p_pre q) @ dev_text (p_dev q) = CHR ''-'' # ''dev.'' @ c @ CHR ''.'' # h"
    if "parts_ok q" "eol_ok u" "parts_text p @ t = parts_text q @ u" for q u
    using same_pieces(1) [OF p(1) that(1) t that(2,3)] p(2,3) by (simp add: pre_text_def dev_text_def run_text_def)
  have pre_q: "p_dev q = None \<and> x = ''dev.'' @ c \<and> r = h"
    if q: "parts_ok q" "eol_ok u" "parts_text p @ t = parts_text q @ u" "p_pre q = Some (x, r)" for q u x r
  proof -
    have e: "x @ CHR ''.'' # r @ dev_text (p_dev q) = ''dev.'' @ c @ CHR ''.'' # h"
      using pieces [OF q(1-3)] q(4) by (simp add: pre_text_def)
    then have "CHR ''-'' \<notin> set (dev_text (p_dev q))" using dash by (metis Un_iff list.set_intros(2) set_append)
    then have d: "p_dev q = None" using dev_text_dash by blast
    have "canonical_num r" using q by (auto simp: parts_ok_def)
    then have "x = ''dev.'' @ c \<and> r = h"
      using e d canonical_no_dash hex_no_dot [OF ch(2)] append_single_split [of x "CHR ''.''" r "''dev.'' @ c" h]
      by (simp add: dev_text_def)
    then show ?thesis using d by simp
  qed
  show ?thesis
  proof (cases "dev_reads_as_prerelease c h")
    case True
    let ?q = "p\<lparr>p_pre := Some (''dev.'' @ c, h), p_dev := None\<rparr>"
    have q: "parts_ok ?q" "parts_text p = parts_text ?q" "p_pre ?q \<noteq> None"
      using True p dc by (auto simp: parts_ok_def dev_reads_as_prerelease_def lang_PRERELEASE_BODY
          parts_text_def pre_text_def dev_text_def run_text_def)
    obtain m r where r: "re_search VMN_VERSION_REGEX (parts_text ?q @ t) = Some m" "parts_ok r"
      "eol_ok (m_rest m)" "parts_text ?q @ t = parts_text r @ m_rest m"
      "m_env m = parts_env r Map.empty" "p_pre r \<noteq> None"
      by (rule version_search_prefers_pre [OF q(1,3) t])
    have "p_dev r = None" using pre_q [OF r(2,3)] r(4,6) q(2) by auto
    then have "\<not> is_dev_version (parts_text ?q @ t)" using r(1,5)
      by (simp add: is_dev_version_def deserialize_vmn_version_def root_search_parts fill_props_parts
          props_of_parts_def)
    then show ?thesis using True q(2) by simp
  next
    case False
    obtain q u where q: "parts_ok q" "eol_ok u" "parts_text p @ t = parts_text q @ u"
      "deserialize_vmn_version (parts_text p @ t) = Inr (props_of_parts q)"
      using deserialize_parts [OF p(1) t] by metis
    have "p_pre q = None"
    proof (rule ccontr)
      assume "p_pre q \<noteq> None"
      then obtain x r where xr: "p_pre q = Some (x, r)" by auto
      then have "prerelease_ok (''dev.'' @ c)" "canonical_num h"
        using pre_q [OF q(1-3) xr] q(1) by (auto simp: parts_ok_def lang_PRERELEASE_BODY)
      then show False using False dc by (simp add: dev_reads_as_prerelease_def)
    qed
    then have "p_dev q \<noteq> None" using pieces [OF q(1-3)]
      by (cases "p_dev q") (simp_all add: pre_text_def dev_text_def)
    then obtain d where "p_dev q = Some d" by blast
    then show ?thesis using False q(4) by (simp add: is_dev_version_def props_of_parts_def)
  qed
qed

section \<open>What parsing can return\<close>

lemma old_search_Some:
  assumes "re_search VMN_OLD_REGEX s = Some m"
  obtains a b c h x k where "canonical_num a" "canonical_num b" "canonical_num c"
    "\<forall>w. h = Some w \<longrightarrow> canonical_num w"
    "m_env m = opt_grp ''buildmetadata'' k (opt_grp ''prerelease'' x (base_env a b c h Map.empty))"
proof -
  have "(m_rest m, m_env m) \<in> set (rm (length s) (Seq VMN_OLD_BODY Eol) s Map.empty)"
    by (rule re_search_anchored_SomeD) (use assms in \<open>simp add: VMN_OLD_REGEX_def\<close>)
  then obtain u g where u: "(u, g) \<in> set (rm (length s) VMN_BASE_VER_REGEX s Map.empty)"
      "\<exists>t. (t, m_env m) \<in> set (rm (length s) (Seq SEMVER_PRERELEASE_REGEX SEMVER_BUILDMETADATA_REGEX) u g)"
    unfolding rm_SeqEol_iff VMN_OLD_BODY_def Seqs.simps rm_Seq_iff rm_Eol_iff by blast
  then obtain a b c h where abc: "canonical_num a" "canonical_num b" "canonical_num c"
      "\<forall>w. h = Some w \<longrightarrow> canonical_num w" "g = base_env a b c h Map.empty"
    unfolding rm_base_iff by blast
  from u(2) obtain x k where "m_env m = opt_grp ''buildmetadata'' k (opt_grp ''prerelease'' x g)"
    unfolding SEMVER_PRERELEASE_REGEX_def SEMVER_BUILDMETADATA_REGEX_def rm_Seq_iff
      rm_opt_grp_iff [OF plain_parts(3)] rm_opt_grp_iff [OF plain_parts(4)] by blast
  then show ?thesis using that abc by blast
qed

definition numbers_set :: "version_props \<Rightarrow> bool" where
  "numbers_set p = (\<exists>a b c h. vp_major p = Some (int a) \<and> vp_minor p = Some (int b)
     \<and> vp_patch p = Some (int c) \<and> vp_hotfix p = Some (int h))"

lemma numbers_set_parts: "numbers_set (props_of_parts p) \<and> ''root'' \<notin> vp_types (props_of_parts p)"
  by (auto simp: numbers_set_def props_of_parts_def split: option.splits
      intro: exI [of _ "0::nat"])

lemma fill_props_old_env:
  "\<exists>p. fill_props True (opt_grp ''buildmetadata'' k (opt_grp ''prerelease'' x
      (base_env a b c h Map.empty))) = Inr p \<and> numbers_set p \<and> ''root'' \<notin> vp_types p"
  by (cases h; cases x; cases k)
    (auto simp: fill_props_def fill_base_def fill_prerelease_def fill_dev_def base_env_def
      fill_buildmetadata_def int_group_def numbers_set_def VersionProps_def
      intro: exI [of _ "0::nat"])

section \<open>Tags\<close>

lemma parts_env_app [simp]: "parts_env p e ''app_name'' = e ''app_name''"
  by (simp add: parts_env_def base_env_def dev_env_def pre_env_def split: option.splits prod.splits)

lemma dotted_not_underscore: "\<not> dotted_char CHR ''_''" "\<not> is_digit CHR ''_''"
  by (simp_all add: dotted_char_def ident_char_def in_range_def is_digit_def)

lemma canonical_no_underscore: "canonical_num r \<Longrightarrow> CHR ''_'' \<notin> set r"
  using canonical_digits list_all_notin dotted_not_underscore(2) by metis

lemma parts_no_underscore:
  assumes "parts_ok p"
  shows "CHR ''_'' \<notin> set (parts_text p)"
proof -
  have "CHR ''_'' \<notin> set (opt_part (\<lambda>w. CHR ''.'' # w) (p_hotfix p))"
    using assms by (cases "p_hotfix p") (auto simp: parts_ok_def canonical_no_underscore)
  then have "CHR ''_'' \<notin> set (base_text (p_major p) (p_minor p) (p_patch p) (p_hotfix p))"
    using assms by (simp add: base_text_def parts_ok_def canonical_no_underscore)
  moreover have "CHR ''_'' \<notin> set (pre_text (p_pre p))" "CHR ''_'' \<notin> set (dev_text (p_dev p))"
    by (rule list_all_notin [OF pre_dotted [OF assms] dotted_not_underscore(1)],
        rule list_all_notin [OF dev_dotted [OF assms] dotted_not_underscore(1)])
  moreover have "CHR ''_'' \<notin> set (meta_text (p_meta p))"
  proof (cases "p_meta p")
    case (Some w)
    then have "list_all dotted_char w" using assms buildmetadata_chars by (simp add: parts_ok_def)
    then have "CHR ''_'' \<notin> set w" by (rule list_all_notin) (rule dotted_not_underscore)
    then show ?thesis using Some by (simp add: meta_text_def)
  qed (simp add: meta_text_def)
  ultimately show ?thesis by (simp add: parts_text_def)
qed

lemma eol_no_underscore: "eol_ok t \<Longrightarrow> CHR ''_'' \<notin> set t"
  by (auto simp: eol_ok_def NEWLINE_def)

lemma cls_not_slash: "cls_mem True [(CHR ''/'', CHR ''/'')] c \<longleftrightarrow> c \<noteq> CHR ''/''"
proof -
  have "in_range c (CHR ''/'', CHR ''/'') \<longleftrightarrow> c = CHR ''/''"
    by (auto simp: in_range_def intro: code_inject [THEN iffD1])
  then show ?thesis by (simp add: cls_mem_def)
qed

lemma lang_app_name: "lang (Plus1 NOT_SLASH) = {w. w \<noteq> [] \<and> CHR ''/'' \<notin> set w}"
  unfolding NOT_SLASH_def lang_Plus_Cls by (auto simp: cls_not_slash list_all_iff)

lemma rm_prefixed_iff: "(t, f) \<in> set (rm n (Seq APP_NAME_PREFIX (Seq r Eol)) s e) \<longleftrightarrow>
    (\<exists>w u. w \<noteq> [] \<and> CHR ''/'' \<notin> set w \<and> s = w @ CHR ''_'' # u
       \<and> (t, f) \<in> set (rm n r u (e(''app_name'' \<mapsto> w))) \<and> eol_ok t)"
proof -
  have "(t, f) \<in> set (rm n (Seq APP_NAME_PREFIX (Seq r Eol)) s e) \<longleftrightarrow>
    (\<exists>w u. w \<in> lang (Plus1 NOT_SLASH) \<and> s = w @ CHR ''_'' # u
       \<and> (t, f) \<in> set (rm n (Seq r Eol) u (e(''app_name'' \<mapsto> w))))"
    unfolding APP_NAME_PREFIX_def rm_Seq_iff [of t f n "Seq _ _" "Seq r Eol"]
      rm_Seq_Grp_iff [OF plain_parts(5)] rm_Lit_iff by blast
  then show ?thesis unfolding rm_SeqEol_iff lang_app_name by auto
qed

lemma tag_search_Some:
  assumes p: "parts_ok p" "eol_ok t" and n: "n \<noteq> []" "CHR ''/'' \<notin> set n"
  obtains m where "re_search VMN_TAG_REGEX (n @ CHR ''_'' # parts_text p @ t) = Some m"
    "m_env m ''app_name'' = Some n"
proof -
  let ?s = "n @ CHR ''_'' # parts_text p @ t"
  let ?r = "Seq APP_NAME_PREFIX (Seq VMN_VERSION_BODY Eol)"
  have "(t, parts_env p (Map.empty(''app_name'' \<mapsto> n))) \<in> set (rm (length ?s) ?r ?s Map.empty)"
    unfolding rm_prefixed_iff rm_version_iff using p n by blast
  then have "rm (length ?s) ?r ?s Map.empty \<noteq> []" by (metis empty_iff list.set(1))
  then obtain m where m: "re_search (Seq Bol ?r) ?s = Some m"
    using re_search_anchored_None_iff [of ?r ?s] by (meson not_Some_eq)
  from re_search_anchored_SomeD [OF this] obtain w u q where
    w: "?s = w @ CHR ''_'' # parts_text q @ m_rest m" "parts_ok q" "eol_ok (m_rest m)"
      "m_env m = parts_env q (Map.empty(''app_name'' \<mapsto> w))"
    unfolding rm_prefixed_iff rm_version_iff by blast
  have "n = w"
    by (rule append_single_split [OF w(1), THEN conjunct1])
      (simp_all add: parts_no_underscore eol_no_underscore p w(2,3))
  then show ?thesis using that [OF m [folded VMN_TAG_REGEX_def]] w(4) by simp
qed

lemma root_tag_search_None:
  assumes p: "parts_ok p" "eol_ok t"
  shows "re_search VMN_ROOT_TAG_REGEX (n @ CHR ''_'' # parts_text p @ t) = None"
proof (rule ccontr)
  assume "re_search VMN_ROOT_TAG_REGEX (n @ CHR ''_'' # parts_text p @ t) \<noteq> None"
  then obtain m where "re_search VMN_ROOT_TAG_REGEX (n @ CHR ''_'' # parts_text p @ t) = Some m" by blast
  from re_search_anchored_SomeD [OF this [unfolded VMN_ROOT_TAG_REGEX_def]]
  obtain w x where w: "n @ CHR ''_'' # parts_text p @ t = w @ CHR ''_'' # x @ m_rest m"
      "canonical_num x" "eol_ok (m_rest m)"
    unfolding rm_prefixed_iff VMN_ROOT_BODY_def rm_Grp_plain_iff [OF plain_parts(1)] lang_DIGIT_REGEX
    by blast
  have "parts_text p @ t = x @ m_rest m"
    by (rule append_single_split [OF w(1), THEN conjunct2])
      (simp_all add: parts_no_underscore eol_no_underscore canonical_no_underscore p w(2,3))
  then have "CHR ''.'' \<in> set (x @ m_rest m)" using parts_text_dot by (metis Un_iff set_append)
  then show False using canonical_no_dash [OF w(2)] w(3) by (auto simp: eol_ok_def NEWLINE_def)
qed

lemma deserialize_cases:
  "case deserialize_vmn_version s of
     Inl e \<Rightarrow> e = WrongTagFormat
   | Inr p \<Rightarrow> if ''root'' \<in> vp_types p then vp_root_version p \<noteq> None \<and> vp_major p = None \<and> vp_minor p = None
               \<and> vp_patch p = None \<and> vp_hotfix p = None
             else (\<exists>a b c h. vp_major p = Some (int a) \<and> vp_minor p = Some (int b)
                     \<and> vp_patch p = Some (int c) \<and> vp_hotfix p = Some (int h))"
proof (cases "re_search VMN_ROOT_VERSION_REGEX s")
  case (Some m)
  then obtain w where "m_env m = [''version'' \<mapsto> w]" by (rule root_search_Some)
  then show ?thesis using Some
    by (simp add: deserialize_vmn_version_def int_group_def VersionProps_def)
next
  case None
  note root = None
  show ?thesis
  proof (cases "re_search VMN_VERSION_REGEX s")
    case (Some m)
    then obtain p where "m_env m = parts_env p Map.empty" by (rule version_search_Some)
    then show ?thesis using Some root numbers_set_parts [of p]
      by (simp add: deserialize_vmn_version_def fill_props_parts numbers_set_def)
  next
    case None
    note new = None
    show ?thesis
    proof (cases "re_search VMN_OLD_REGEX s")
      case (Some m)
      then obtain a b c h x k where
        "m_env m = opt_grp ''buildmetadata'' k (opt_grp ''prerelease'' x (base_env a b c h Map.empty))"
        by (rule old_search_Some)
      then show ?thesis using Some root new fill_props_old_env [of k x a b c h]
        by (auto simp: deserialize_vmn_version_def numbers_set_def)
    qed (use root new in \<open>simp add: deserialize_vmn_version_def\<close>)
  qed
qed

lemma deserialize_own_tag:
  assumes v: "deserialize_vmn_version v = Inr p" "''root'' \<notin> vp_types p" "\<not> vp_old_ver_format p"
    and app: "app \<noteq> []"
  shows "deserialize_tag_name (app_name_to_tag_name app @ ''_'' @ v)
    = Inr (version_props.extend (p\<lparr>vp_dev_run := None\<rparr>)
        \<lparr>tp_app_name = Some (tag_name_to_app_name (app_name_to_tag_name app)),
         tp_old_tag_format = False, tp_verstr = Some v\<rparr>)"
proof -
  let ?n = "app_name_to_tag_name app"
  obtain q t where q: "parts_ok q" "eol_ok t" "v = parts_text q @ t" "p = props_of_parts q"
    by (rule deserialize_new_format [OF v])
  have n: "?n \<noteq> []" "CHR ''/'' \<notin> set ?n"
    using app by (auto simp: app_name_to_tag_name_def replace_char_def split: if_splits)
  obtain m where m: "re_search VMN_TAG_REGEX (?n @ CHR ''_'' # v) = Some m" "m_env m ''app_name'' = Some ?n"
    unfolding q(3) by (rule tag_search_Some [OF q(1,2) n])
  have root: "re_search VMN_ROOT_TAG_REGEX (?n @ CHR ''_'' # v) = None"
    unfolding q(3) by (rule root_tag_search_None [OF q(1,2)])
  have again: "app_name_to_tag_name (tag_name_to_app_name ?n) = ?n"
    using n(2) by (simp add: app_name_to_tag_name_def tag_name_to_app_name_def replace_char_def)
  have "CHR ''_'' \<notin> set v" using q parts_no_underscore eol_no_underscore by simp
  then have "\<not> contains_str (?n @ ''_'') v" by (auto simp: contains_str_iff)
  then have "split_str (?n @ ''_'') ((?n @ ''_'') @ v) = [[], v]"
    by (subst split_str_head) (simp_all add: split_str_none)
  then have pieces: "split_str (?n @ ''_'') (?n @ CHR ''_'' # v) = [[], v]" by simp
  show ?thesis
    using m root v(1) pieces again by (simp add: deserialize_tag_name_def Let_def)
qed

lemma serialize_plain:
  "serialize_vmn_version (base_verstr a b c h hide) None None None hide' None None
    = Inr (base_verstr a b c h hide')"
  unfolding serialize_vmn_version_def deserialize_base
  by (simp add: print_props_def num_props_def VersionProps_def)

lemma deserialize_written_pre:
  assumes "prerelease_ok x" "CHR ''-'' \<notin> set x" "\<forall>w. k = Some w \<longrightarrow> metadata_ok w"
  shows "bind_res (serialize_vmn_version (base_verstr a b c h hide) (Some x) (Some (int r)) k
        hide' None None) deserialize_vmn_version
    = Inr ((num_props a b c h)\<lparr>vp_types := {''version'', ''prerelease''} \<union> (if k = None then {} else {''buildmetadata''}),
             vp_prerelease := x, vp_rcn := Some (int r), vp_buildmetadata := k\<rparr>)"
proof -
  let ?p = "(num_parts a b c h hide')\<lparr>p_pre := Some (x, nat_str r), p_meta := k\<rparr>"
  have written: "serialize_vmn_version (base_verstr a b c h hide) (Some x) (Some (int r)) k hide' None None
    = Inr (parts_text ?p)"
    unfolding serialize_vmn_version_def deserialize_base
    by (cases k) (simp_all add: print_props_def num_props_def VersionProps_def parts_text_def
        num_parts_def pre_text_def dev_text_def meta_text_def base_text_def fmt_int_def
        serialize_vmn_base_version_def)
  have "parts_ok ?p" using assms
    by (simp add: parts_ok_def num_parts_def lang_PRERELEASE_BODY lang_BUILDMETADATA_BODY)
  then have "deserialize_vmn_version (parts_text ?p @ []) = Inr (props_of_parts ?p)"
    by (rule deserialize_pre) (use assms in \<open>simp_all add: num_parts_def eol_ok_def\<close>)
  then show ?thesis unfolding written
    by (cases k) (auto simp: props_of_parts_def num_parts_def num_props_def VersionProps_def)
qed

section \<open>Printing what was read\<close>

definition three_numbers :: "string \<Rightarrow> bool" where
  \<comment> \<open>the digits and dots a version begins with are three numbers, not four\<close>
  "three_numbers v = (length (split_char CHR ''.'' (takeWhile (\<lambda>c. is_digit c \<or> c = CHR ''.'') v)) = 3)"

lemma three_numbers_text:
  assumes p: "parts_ok p" and t: "eol_ok t"
  shows "three_numbers (parts_text p @ t) \<longleftrightarrow> p_hotfix p = None"
proof -
  let ?P = "\<lambda>c. is_digit c \<or> c = CHR ''.''"
  let ?b = "base_text (p_major p) (p_minor p) (p_patch p) (p_hotfix p)"
  have d: "list_all is_digit (p_major p)" "list_all is_digit (p_minor p)" "list_all is_digit (p_patch p)"
      "\<And>h. p_hotfix p = Some h \<Longrightarrow> list_all is_digit h"
    using p canonical_digits by (auto simp: parts_ok_def)
  have dig: "list_all ?P w" if "list_all is_digit w" for w using that by (auto simp: list_all_iff)
  have "list_all ?P ?b" using d dig by (cases "p_hotfix p") (simp_all add: base_text_def)
  moreover have "suffix_text p @ t = [] \<or> \<not> ?P (hd (suffix_text p @ t))"
    using suffix_tail_ok' [OF t, of p] by (auto simp: tail_ok_def NEWLINE_def is_digit_def)
  moreover have "parts_text p @ t = ?b @ (suffix_text p @ t)" by (simp add: parts_text_def suffix_text_def)
  ultimately have "takeWhile ?P (parts_text p @ t) = ?b" using takeWhile_run [of ?P ?b] by metis
  moreover have "CHR ''.'' \<notin> set w" if "list_all is_digit w" for w
    using list_all_notin [OF that, of "CHR ''.''"] by simp
  ultimately show ?thesis using d
    by (cases "p_hotfix p") (simp_all add: three_numbers_def base_text_def split_char_append split_char_notin)
qed

lemma current_format_parts:
  assumes "deserialize_vmn_version v = Inr p" "''root'' \<notin> vp_types p" "\<not> vp_old_ver_format p"
    and "vp_dev_run p = None" "''prerelease'' \<in> vp_types p \<longrightarrow> vp_prerelease p \<noteq> ''release''"
    and "last v \<noteq> NEWLINE"
  obtains q where "parts_ok q" "v = parts_text q" "p = props_of_parts q" "normal_parts (p_hotfix q = None) q = q"
proof -
  obtain q t where q: "parts_ok q" "eol_ok t" "v = parts_text q @ t" "p = props_of_parts q"
    by (rule deserialize_new_format [OF assms(1-3)])
  have v: "v = parts_text q" using q(2,3) assms(6) by (auto simp: eol_ok_def)
  have "map_option fst (p_pre q) \<noteq> Some ''release''"
    using assms(5) q(4) by (auto simp: props_of_parts_def split: if_splits option.splits)
  moreover have "map_option (\<lambda>(c, h, r). (c, h, None)) (p_dev q) = p_dev q"
    using assms(4) q(4) by (auto simp: props_of_parts_def split: option.splits)
  moreover have "shown_hotfix (p_hotfix q = None) (p_hotfix q) = p_hotfix q"
    by (cases "p_hotfix q") (simp_all add: shown_hotfix_def)
  ultimately have "normal_parts (p_hotfix q = None) q = q" by (simp add: normal_parts_def)
  then show ?thesis using that q(1,4) v by blast
qed

text \<open>A version with a zero hotfix, printed without it, still means the same.\<close>

lemma hide_zero_hotfix_keeps:
  assumes q: "parts_ok q" "normal_parts (p_hotfix q = None) q = q"
    and v: "deserialize_vmn_version (parts_text q) = Inr (props_of_parts q)"
    and zero: "vp_hotfix (props_of_parts q) = Some 0"
  shows "\<exists>w. reserialize (parts_text q) True = Inr w \<and> deserialize_vmn_version w = Inr (props_of_parts q)"
proof -
  let ?q = "normal_parts True q"
  have h: "\<forall>h. p_hotfix q = Some h \<longrightarrow> canonical_num h" using q(1) by (simp add: parts_ok_def)
  have e: "?q = q\<lparr>p_hotfix := None\<rparr>"
  proof -
    have "shown_hotfix True (p_hotfix q) = None"
      using zero h by (cases "p_hotfix q") (auto simp: shown_hotfix_def props_of_parts_def str_nat_eq_0_iff)
    moreover have "normal_parts True q = (normal_parts (p_hotfix q = None) q)\<lparr>p_hotfix := shown_hotfix True (p_hotfix q)\<rparr>"
      by (simp add: normal_parts_def)
    ultimately show ?thesis using q(2) by simp
  qed
  have "suffix_text ?q = suffix_text q" by (simp add: e suffix_text_def)
  from deserialize_other_base [OF q(1) _ _ normal_parts_ok [OF q(1), of True] this, of "[]"] v
  obtain q2 where q2: "deserialize_vmn_version (parts_text ?q) = Inr (props_of_parts q2)"
    "p_major q2 = p_major ?q" "p_minor q2 = p_minor ?q" "p_patch q2 = p_patch ?q" "p_hotfix q2 = p_hotfix ?q"
    "props_of_parts q = props_of_parts (q2\<lparr>p_major := p_major q, p_minor := p_minor q,
       p_patch := p_patch q, p_hotfix := p_hotfix q\<rparr>)"
    by (auto simp: eol_ok_def)
  have "props_of_parts q2 = props_of_parts q"
  proof -
    have put: "props_of_parts (x\<lparr>p_hotfix := k\<rparr>)
        = (props_of_parts x)\<lparr>vp_hotfix := Some (case k of None \<Rightarrow> 0 | Some h \<Rightarrow> int (str_nat h))\<rparr>" for x k
      by (simp add: props_of_parts_def)
    have "q2\<lparr>p_major := p_major q, p_minor := p_minor q, p_patch := p_patch q, p_hotfix := p_hotfix q\<rparr>
        = q2\<lparr>p_hotfix := p_hotfix q\<rparr>"
      using q2(2-4) unfolding e by (cases q2) simp
    then obtain X where X: "props_of_parts q = (props_of_parts q2)\<lparr>vp_hotfix := X\<rparr>"
      using q2(6) put by metis
    then have "X = Some 0" using zero by (metis version_props.select_convs(6) version_props.surjective version_props.update_convs(6))
    have "vp_hotfix (props_of_parts q2) = Some 0" using q2(5) unfolding e by (simp add: props_of_parts_def)
    then have "(props_of_parts q2)\<lparr>vp_hotfix := Some 0\<rparr> = props_of_parts q2" by (cases "props_of_parts q2") simp
    then show ?thesis using X \<open>X = Some 0\<close> by simp
  qed
  then show ?thesis using q2(1) v print_parts [OF q(1), of True] by (simp add: serialize_vmn_version_def)
qed

section \<open>Properties\<close>

text \<open>
  C3. Printing is the inverse of parsing on versions of the current format: a text read as such a
  version, not a bare root number, not the old format, without a development run number (which is
  not printed), not a prerelease called \<open>release\<close> (which is not printed either) and without a
  trailing newline, is printed back unchanged by the serializer, told to hide a zero hotfix exactly
  when the text has three numbers.
\<close>

theorem print_parse:
  assumes "deserialize_vmn_version v = Inr p" "''root'' \<notin> vp_types p" "\<not> vp_old_ver_format p"
    and "vp_dev_run p = None" "''prerelease'' \<in> vp_types p \<longrightarrow> vp_prerelease p \<noteq> ''release''"
    and "last v \<noteq> NEWLINE"
  shows "reserialize v (three_numbers v) = Inr v"
proof -
  obtain q where q: "parts_ok q" "v = parts_text q" "p = props_of_parts q" "normal_parts (p_hotfix q = None) q = q"
    by (rule current_format_parts [OF assms])
  have "three_numbers v \<longleftrightarrow> p_hotfix q = None" using three_numbers_text [OF q(1), of "[]"] q(2) by (simp add: eol_ok_def)
  then show ?thesis
    using print_parts [OF q(1), of "p_hotfix q = None"] assms(1) q by (simp add: serialize_vmn_version_def)
qed

theorem print_parse_witness: "reserialize ''1.2.3'' (three_numbers ''1.2.3'') = Inr ''1.2.3''"
proof (rule print_parse)
  have v: "''1.2.3'' = base_verstr 1 2 3 0 True"
    by code_simp
  show "deserialize_vmn_version ''1.2.3'' = Inr (num_props 1 2 3 0)"
    unfolding v by (rule deserialize_base)
qed (simp_all add: num_props_def VersionProps_def NEWLINE_def)

text \<open>
  A base version, printed from its four numbers with or without a zero hotfix, parses to
  exactly these numbers, with no prerelease, build metadata, development or root part.
\<close>

theorem parse_base_version:
  "deserialize_vmn_version (base_verstr a b c h hide) = Inr (num_props a b c h)"
  by (rule deserialize_base)

text \<open>
  The version the publisher writes for a prerelease, from a base version, a prerelease
  name without a dash, a release candidate number and optional build metadata, is read back with
  the same numbers, name, candidate number and metadata.
\<close>

theorem parse_written_prerelease:
  assumes "prerelease_ok x" "CHR ''-'' \<notin> set x" "\<forall>w. k = Some w \<longrightarrow> metadata_ok w"
  shows "bind_res (serialize_vmn_version (base_verstr a b c h hide) (Some x) (Some (int r)) k
        hide' None None) deserialize_vmn_version
    = Inr ((num_props a b c h)\<lparr>vp_types := {''version'', ''prerelease''} \<union> (if k = None then {} else {''buildmetadata''}),
             vp_prerelease := x, vp_rcn := Some (int r), vp_buildmetadata := k\<rparr>)"
  using assms by (rule deserialize_written_pre)

theorem parse_written_prerelease_witness:
  "bind_res (serialize_vmn_version (base_verstr 1 2 3 0 True) (Some ''rc'') (Some (int 4)) None
        True None None) deserialize_vmn_version
    = Inr ((num_props 1 2 3 0)\<lparr>vp_types := {''version'', ''prerelease''} \<union> (if (None :: string option) = None then {} else {''buildmetadata''}),
             vp_prerelease := ''rc'', vp_rcn := Some (int 4), vp_buildmetadata := None\<rparr>)"
  by (rule parse_written_prerelease)
    (simp_all add: prerelease_ok_def prerelease_ident_def ident_char_def in_range_def is_digit_def)

text \<open>
  A development version \<open><base>-dev.<commit>.<diff hash>\<close> is recognised as one exactly when
  the diff hash is not a decimal number without leading zeros, or the commit is a decimal
  number with one. In the other case the greedy prerelease pattern takes the whole suffix, with
  the diff hash as release candidate number.
\<close>

theorem dev_version_recognised:
  assumes "length c = 7" "list_all is_hex c" "7 \<le> length d" "length d \<le> 64" "list_all is_hex d"
  shows "is_dev_version (base_verstr x y z h hide @ ''-dev.'' @ c @ ''.'' @ d)
    \<longleftrightarrow> \<not> (canonical_num d \<and> (canonical_num c \<or> \<not> list_all is_digit c))"
proof -
  let ?p = "(num_parts x y z h hide)\<lparr>p_dev := Some (c, d, None)\<rparr>"
  have "parts_ok ?p" using assms by (simp add: parts_ok_def num_parts_def dev_ok_def)
  then have "is_dev_version (parts_text ?p @ []) \<longleftrightarrow> \<not> dev_reads_as_prerelease c d"
    by (rule deserialize_dev) (simp_all add: num_parts_def eol_ok_def)
  moreover have "parts_text ?p = base_verstr x y z h hide @ ''-dev.'' @ c @ ''.'' @ d"
    unfolding num_parts_text [symmetric]
    by (simp add: parts_text_def num_parts_def base_text_def pre_text_def dev_text_def meta_text_def run_text_def)
  ultimately show ?thesis by (simp add: dev_reads_as_prerelease_def)
qed

theorem dev_version_recognised_witness:
  "\<not> is_dev_version (base_verstr 1 2 3 0 True @ ''-dev.'' @ ''abcdef0'' @ ''.'' @ ''1234567'')
   \<and> is_dev_version (base_verstr 1 2 3 0 True @ ''-dev.'' @ ''abcdef0'' @ ''.'' @ ''0123456'')"
  by (subst (1 2) dev_version_recognised)
    (simp_all add: is_hex_def cls_mem_def in_range_def canonical_num_def all_digits_def is_digit_def)

text \<open>
  C4. A tag is written for every application with a name and every version of the current format
  (not a bare root number, not the old format, without a development run number, not a prerelease
  called \<open>release\<close>, no trailing newline): it is the application's name and the version, the latter
  printed without its hotfix when that is zero; and it parses back to the properties of that version,
  with the application's name up to the identification of slashes and dashes, which the tag form does
  not keep apart.
\<close>

theorem tag_roundtrip:
  assumes "deserialize_vmn_version v = Inr p" "''root'' \<notin> vp_types p" "\<not> vp_old_ver_format p"
    and "vp_dev_run p = None" "''prerelease'' \<in> vp_types p \<longrightarrow> vp_prerelease p \<noteq> ''release''"
    and "last v \<noteq> NEWLINE" and app: "app \<noteq> []"
  shows "\<exists>w tag. (if vp_hotfix p = Some 0 then reserialize v True = Inr w else w = v)
    \<and> tag = app_name_to_tag_name app @ ''_'' @ w \<and> serialize_vmn_tag_name app v = Inr tag
    \<and> deserialize_tag_name tag = Inr (version_props.extend p
        \<lparr>tp_app_name = Some (tag_name_to_app_name (app_name_to_tag_name app)),
         tp_old_tag_format = False, tp_verstr = Some w\<rparr>)"
proof -
  obtain q where q: "parts_ok q" "v = parts_text q" "p = props_of_parts q" "normal_parts (p_hotfix q = None) q = q"
    by (rule current_format_parts [OF assms(1-6)])
  have p: "p\<lparr>vp_dev_run := None\<rparr> = p" using assms(4) by (cases p) simp
  note own = deserialize_own_tag [OF _ assms(2,3) app, unfolded p]
  show ?thesis
  proof (cases "vp_hotfix p = Some 0")
    case True
    obtain w where w: "reserialize v True = Inr w" "deserialize_vmn_version w = Inr p"
      using hide_zero_hotfix_keeps [OF q(1,4)] assms(1) True q(2,3) by auto
    show ?thesis using own [OF assms(1)] own [OF w(2)] True w(1)
      by (intro exI [of _ w] exI [of _ "app_name_to_tag_name app @ ''_'' @ w"])
        (simp add: serialize_vmn_tag_name_def Let_def version_props.extend_def)
  next
    case False
    then show ?thesis using own [OF assms(1)]
      by (intro exI [of _ v] exI [of _ "app_name_to_tag_name app @ ''_'' @ v"])
        (simp add: serialize_vmn_tag_name_def Let_def version_props.extend_def)
  qed
qed

theorem tag_roundtrip_witness:
  "\<exists>w tag. (if vp_hotfix (num_props 1 2 3 0) = Some 0 then reserialize ''1.2.3.0'' True = Inr w else w = ''1.2.3.0'')
    \<and> tag = app_name_to_tag_name ''a/b'' @ ''_'' @ w \<and> serialize_vmn_tag_name ''a/b'' ''1.2.3.0'' = Inr tag
    \<and> deserialize_tag_name tag = Inr (version_props.extend (num_props 1 2 3 0)
        \<lparr>tp_app_name = Some (tag_name_to_app_name (app_name_to_tag_name ''a/b'')),
         tp_old_tag_format = False, tp_verstr = Some w\<rparr>)"
proof (rule tag_roundtrip)
  have v: "''1.2.3.0'' = base_verstr 1 2 3 0 False" by code_simp
  show "deserialize_vmn_version ''1.2.3.0'' = Inr (num_props 1 2 3 0)"
    unfolding v by (rule deserialize_base)
qed (simp_all add: num_props_def VersionProps_def NEWLINE_def)


end
