(* ===== verification/Advance_Laws.thy ===== *)
theory Advance_Laws
imports Stamp_Advance Version_Properties
begin

text \<open>
  What advancing a version guarantees: the new version is larger than the one it comes from and
  larger than every version of the application tagged in the same line, so a stamped base version
  is never issued twice; a prerelease counter never goes back; and a stamp fails on a root tag
  that carries the application's own tag name.
\<close>

section \<open>Tag listings as an interface\<close>

text \<open>
  The one law the code relies on: asking for the tags that match a text followed by a star gives
  the tags of the repository that begin with the text.
\<close>

locale tag_index =
  fixes tags :: "string set" and listing :: "string \<Rightarrow> string list"
  assumes listing: "set (listing (p @ ''*'')) = {t \<in> tags. starts_with p t}"
begin

lemma listed: "t \<in> tags \<Longrightarrow> starts_with p t \<Longrightarrow> t \<in> set (listing (p @ ''*''))"
  by (simp add: listing)

lemma only_tags: "t \<in> set (listing (p @ ''*'')) \<Longrightarrow> t \<in> tags"
  by (simp add: listing)

lemma narrower: "set (listing ((p @ q) @ ''*'')) \<subseteq> set (listing (p @ ''*''))"
  unfolding listing by (auto simp: starts_with_iff)

end

interpretation local: tag_index "{}" local_list_tag_names
  by unfold_locales (simp add: local_list_tag_names_def)

text \<open>A repository that holds the tags of a list, one name to a line in git's output.\<close>

definition git_of_names :: "string list \<Rightarrow> git" where
  "git_of_names names =
     \<lparr>g_tag_list = (\<lambda>by_date pat. str_join [NL]
        (filter (\<lambda>t. t \<noteq> [] \<and> NL \<notin> set t \<and>
            (if pat \<noteq> [] \<and> last pat = CHR ''*'' then starts_with (butlast pat) t else t = pat)) names)),
      g_points_at = (\<lambda>_. []), g_tag = (\<lambda>_. Some None), g_rev = (\<lambda>_. None), g_commit = (\<lambda>_. None),
      g_log = (\<lambda>_ _ _. []), g_yaml = (\<lambda>_. Inr YNull)\<rparr>"

lemma split_join: "ts \<noteq> [] \<Longrightarrow> \<forall>t \<in> set ts. c \<notin> set t \<Longrightarrow> split_char c (str_join [c] ts) = ts"
proof (induction ts)
  case (Cons t ts)
  then show ?case
    by (cases ts) (simp_all add: split_char_notin split_char_append)
qed simp

lemma clean_split_join:
  assumes "\<forall>t \<in> set ts. c \<notin> set t \<and> t \<noteq> []"
  shows "clean_split_result (split_char c (str_join [c] ts)) = ts"
proof (cases ts)
  case Nil
  then show ?thesis by (simp add: clean_split_result_def)
next
  case (Cons t us)
  then have "split_char c (str_join [c] ts) = ts" using assms by (intro split_join) auto
  then show ?thesis using assms Cons by (simp add: clean_split_result_def)
qed

lemma list_tags_git_of_names:
  "list_tag_names (git_of_names names) (p @ ''*'')
    = filter (\<lambda>t. t \<noteq> [] \<and> NL \<notin> set t \<and> starts_with p t) names"
  unfolding list_tag_names_def list_tags_def git_of_names_def
  by (simp add: clean_split_join)

interpretation mem: tag_index "{t \<in> set names. t \<noteq> [] \<and> NL \<notin> set t}" "list_tag_names (git_of_names names)"
  for names
  by unfold_locales (auto simp: list_tags_git_of_names)

section \<open>Octets\<close>

lemma max_octet_bounds:
  "max_octet mode m ps = Inr r \<Longrightarrow> m \<le> r \<and> (\<forall>p \<in> set ps. \<exists>i. octet_of mode p = Inr i \<and> i \<le> r)"
proof (induction mode m ps rule: max_octet.induct)
  case (2 mode m p ps)
  then show ?case by fastforce
qed simp

lemma max_octet_attained:
  "max_octet mode m ps = Inr r \<Longrightarrow> r = m \<or> (\<exists>p \<in> set ps. octet_of mode p = Inr r)"
proof (induction mode m ps rule: max_octet.induct)
  case (2 mode m p ps)
  then show ?case by (fastforce simp: max_def split: if_splits)
qed simp

lemma own_tag_props_member:
  "own_tag_props_from own ts = Inr ps \<Longrightarrow> t \<in> set ts \<Longrightarrow> deserialize_tag_name t = Inr p \<Longrightarrow>
    map_option app_name_to_tag_name (tp_app_name p) = Some own \<Longrightarrow> p \<in> set ps"
  by (induction own ts arbitrary: ps rule: own_tag_props_from.induct)
    (auto split: sum.splits if_splits)

lemma increase_octet_bounds:
  assumes idx: "tag_index tags (be_list_tag_names be)"
    and inc: "increase_octet be self (pre @ ''*'') n mode True = Inr i"
  shows "n < i"
    "\<lbrakk>t \<in> tags; starts_with pre t; deserialize_tag_name t = Inr p;
      map_option app_name_to_tag_name (tp_app_name p) = Some (app_name_to_tag_name (st_name self))\<rbrakk>
     \<Longrightarrow> \<exists>j. octet_of mode p = Inr j \<and> j < i"
proof -
  obtain ps m where ps: "own_tag_props be self (pre @ ''*'') = Inr ps" "max_octet mode n ps = Inr m" "i = m + 1"
    using inc by (auto simp: increase_octet_def)
  show "n < i" using max_octet_bounds [OF ps(2)] ps(3) by simp
  assume t: "t \<in> tags" "starts_with pre t" "deserialize_tag_name t = Inr p"
    "map_option app_name_to_tag_name (tp_app_name p) = Some (app_name_to_tag_name (st_name self))"
  have "t \<in> set (be_list_tag_names be (pre @ ''*''))" by (rule tag_index.listed [OF idx t(1,2)])
  then have "p \<in> set ps" using own_tag_props_member [OF ps(1) [unfolded own_tag_props_def]] t by blast
  then show "\<exists>j. octet_of mode p = Inr j \<and> j < i" using max_octet_bounds [OF ps(2)] ps(3) by fastforce
qed

section \<open>A version of the application's own\<close>

definition own_version :: "stamper \<Rightarrow> string \<Rightarrow> parts \<Rightarrow> bool" where
  \<comment> \<open>\<open>w\<close> is a version of the current format with the given parts\<close>
  "own_version self w p = (parts_ok p \<and> (\<exists>t. eol_ok t \<and> w = parts_text p @ t)
     \<and> deserialize_vmn_version w = Inr (props_of_parts p))"

definition nat_octets :: "parts \<Rightarrow> nat \<times> nat \<times> nat \<times> nat" where
  "nat_octets p = (str_nat (p_major p), str_nat (p_minor p), str_nat (p_patch p),
     case p_hotfix p of None \<Rightarrow> 0 | Some h \<Rightarrow> str_nat h)"

lemma own_version_tag:
  assumes "own_version self w p" "st_name self \<noteq> []"
  obtains q where "deserialize_tag_name (get_tag_name self w) = Inr q"
    "map_option app_name_to_tag_name (tp_app_name q) = Some (app_name_to_tag_name (st_name self))"
    "vp_major q = Some (int (fst (nat_octets p)))" "vp_minor q = Some (int (fst (snd (nat_octets p))))"
    "vp_patch q = Some (int (fst (snd (snd (nat_octets p)))))"
    "vp_hotfix q = Some (int (snd (snd (snd (nat_octets p)))))"
proof -
  have d: "deserialize_vmn_version w = Inr (props_of_parts p)" using assms(1) by (simp add: own_version_def)
  have r: "''root'' \<notin> vp_types (props_of_parts p)" "\<not> vp_old_ver_format (props_of_parts p)"
    by (auto simp: props_of_parts_def)
  have again: "app_name_to_tag_name (tag_name_to_app_name (app_name_to_tag_name n)) = app_name_to_tag_name n" for n
    by (simp add: app_name_to_tag_name_def tag_name_to_app_name_def replace_char_def)
  show ?thesis
    by (rule that [OF deserialize_own_tag [OF d r assms(2), folded get_tag_name_def]])
      (auto simp: again props_of_parts_def nat_octets_def version_props.extend_def split: option.splits)
qed

lemma own_version_prefix:
  assumes "own_version self w p"
  shows "starts_with (app_name_to_tag_name (st_name self) @ ''_'') (get_tag_name self w)"
    "starts_with (app_name_to_tag_name (st_name self) @ ''_'' @ p_major p @ ''.'') (get_tag_name self w)"
    "starts_with (app_name_to_tag_name (st_name self) @ ''_'' @ p_major p @ ''.'' @ p_minor p @ ''.'') (get_tag_name self w)"
    "p_hotfix p \<noteq> None \<Longrightarrow> starts_with (app_name_to_tag_name (st_name self) @ ''_'' @ p_major p @ ''.''
        @ p_minor p @ ''.'' @ p_patch p @ ''.'') (get_tag_name self w)"
  using assms by (auto simp: own_version_def get_tag_name_def starts_with_iff parts_text_def base_text_def)

lemma octet_of_simps [simp]:
  "octet_of ''major'' q = (case vp_major q of None \<Rightarrow> Inl TypeErr | Some i \<Rightarrow> Inr i)"
  "octet_of ''minor'' q = (case vp_minor q of None \<Rightarrow> Inl TypeErr | Some i \<Rightarrow> Inr i)"
  "octet_of ''patch'' q = (case vp_patch q of None \<Rightarrow> Inl TypeErr | Some i \<Rightarrow> Inr i)"
  "octet_of ''hotfix'' q = (case vp_hotfix q of None \<Rightarrow> Inl TypeErr | Some i \<Rightarrow> Inr i)"
  by (simp_all add: octet_of_def)

lemma fmt_int_nat [simp]: "fmt_int (Some (int n)) = nat_str n"
  by (simp add: fmt_int_def)

lemma p_text_nat: "canonical_num w \<Longrightarrow> str_nat w = n \<Longrightarrow> w = nat_str n"
  using nat_str_str_nat by metis

text \<open>The octets of an advanced version, against the version it comes from and any own tag.\<close>

definition release_modes :: "string set" where
  "release_modes = {''major'', ''minor'', ''patch'', ''hotfix''}"

definition lex_less :: "nat \<times> nat \<times> nat \<times> nat \<Rightarrow> nat \<times> nat \<times> nat \<times> nat \<Rightarrow> bool" where
  \<comment> \<open>the order of versions\<close>
  "lex_less x y = (case (x, y) of ((a, b, c, d), (a', b', c', d')) \<Rightarrow>
     a < a' \<or> a = a' \<and> (b < b' \<or> b = b' \<and> (c < c' \<or> c = c' \<and> d < d')))"

lemma nat_of_less: "int n < i \<Longrightarrow> i = int (nat i) \<and> n < nat i"
  by linarith

lemma advance_octets_fresh:
  assumes idx: "tag_index tags (be_list_tag_names be)" and name: "st_name self \<noteq> []"
    and mode: "mode \<in> release_modes"
    and adv: "advance_octets be self (Some (int a), Some (int b), Some (int c), Some (int h)) (Some mode) True = Inr v"
  obtains a' b' c' h' where "v = (Some (int a'), Some (int b'), Some (int c'), Some (int h'))"
    "lex_less (a, b, c, h) (a', b', c', h')"
    "\<And>w p. own_version self w p \<Longrightarrow> get_tag_name self w \<in> tags \<Longrightarrow> nat_octets p \<noteq> (a', b', c', h')"
proof -
  let ?app = "app_name_to_tag_name (st_name self)"
  note bounds = increase_octet_bounds [OF idx]
  have canon: "canonical_num (p_major p)" "canonical_num (p_minor p)" "canonical_num (p_patch p)"
      if "own_version self w p" for w p
    using that by (auto simp: own_version_def parts_ok_def)
  consider "mode = ''major''" | "mode = ''minor''" | "mode = ''patch''" | "mode = ''hotfix''"
    using mode by (auto simp: release_modes_def)
  then show ?thesis
  proof cases
    case 1
    then obtain i where i: "increase_octet be self ((?app @ ''_'') @ ''*'') (int a) ''major'' True = Inr i"
        "v = (Some i, Some 0, Some 0, Some 0)"
      using adv by (auto simp: advance_octets_def need_int_def Let_def)
    note n = nat_of_less [OF bounds(1) [OF i(1)]]
    show ?thesis
    proof (rule that [of "nat i" 0 0 0])
      fix w p assume w: "own_version self w p" "get_tag_name self w \<in> tags"
      obtain q where q: "deserialize_tag_name (get_tag_name self w) = Inr q"
        "map_option app_name_to_tag_name (tp_app_name q) = Some ?app"
        "vp_major q = Some (int (fst (nat_octets p)))"
        by (rule own_version_tag [OF w(1) name])
      show "nat_octets p \<noteq> (nat i, 0, 0, 0)"
        using bounds(2) [OF i(1) w(2) own_version_prefix(1) [OF w(1)] q(1,2)] q(3) n
        by (auto split: if_splits)
    qed (use i n in \<open>auto simp: lex_less_def\<close>)
  next
    case 2
    then obtain i where i: "increase_octet be self ((?app @ ''_'' @ nat_str a @ ''.'') @ ''*'') (int b) ''minor'' True = Inr i"
        "v = (Some (int a), Some i, Some 0, Some 0)"
      using adv by (auto simp: advance_octets_def need_int_def Let_def)
    note n = nat_of_less [OF bounds(1) [OF i(1)]]
    show ?thesis
    proof (rule that [of a "nat i" 0 0])
      fix w p assume w: "own_version self w p" "get_tag_name self w \<in> tags"
      obtain q where q: "deserialize_tag_name (get_tag_name self w) = Inr q"
        "map_option app_name_to_tag_name (tp_app_name q) = Some ?app"
        "vp_minor q = Some (int (fst (snd (nat_octets p))))"
        by (rule own_version_tag [OF w(1) name])
      show "nat_octets p \<noteq> (a, nat i, 0, 0)"
      proof
        assume e: "nat_octets p = (a, nat i, 0, 0)"
        then have "p_major p = nat_str a" using canon [OF w(1)] p_text_nat by (auto simp: nat_octets_def)
        then show False
          using bounds(2) [OF i(1) w(2) _ q(1,2)] own_version_prefix(2) [OF w(1)] q(3) n e by auto
      qed
    qed (use i n in \<open>auto simp: lex_less_def\<close>)
  next
    case 3
    then obtain i where i: "increase_octet be self ((?app @ ''_'' @ nat_str a @ ''.'' @ nat_str b @ ''.'') @ ''*'')
          (int c) ''patch'' True = Inr i" "v = (Some (int a), Some (int b), Some i, Some 0)"
      using adv by (auto simp: advance_octets_def need_int_def Let_def)
    note n = nat_of_less [OF bounds(1) [OF i(1)]]
    show ?thesis
    proof (rule that [of a b "nat i" 0])
      fix w p assume w: "own_version self w p" "get_tag_name self w \<in> tags"
      obtain q where q: "deserialize_tag_name (get_tag_name self w) = Inr q"
        "map_option app_name_to_tag_name (tp_app_name q) = Some ?app"
        "vp_patch q = Some (int (fst (snd (snd (nat_octets p)))))"
        by (rule own_version_tag [OF w(1) name])
      show "nat_octets p \<noteq> (a, b, nat i, 0)"
      proof
        assume e: "nat_octets p = (a, b, nat i, 0)"
        then have "p_major p = nat_str a" "p_minor p = nat_str b"
          using canon [OF w(1)] p_text_nat by (auto simp: nat_octets_def)
        then show False
          using bounds(2) [OF i(1) w(2) _ q(1,2)] own_version_prefix(3) [OF w(1)] q(3) n e by auto
      qed
    qed (use i n in \<open>auto simp: lex_less_def\<close>)
  next
    case 4
    then obtain i where i: "increase_octet be self ((?app @ ''_'' @ nat_str a @ ''.'' @ nat_str b @ ''.''
          @ nat_str c @ ''.'') @ ''*'') (int h) ''hotfix'' True = Inr i"
        "v = (Some (int a), Some (int b), Some (int c), Some i)"
      using adv by (auto simp: advance_octets_def need_int_def Let_def)
    note n = nat_of_less [OF bounds(1) [OF i(1)]]
    show ?thesis
    proof (rule that [of a b c "nat i"])
      fix w p assume w: "own_version self w p" "get_tag_name self w \<in> tags"
      obtain q where q: "deserialize_tag_name (get_tag_name self w) = Inr q"
        "map_option app_name_to_tag_name (tp_app_name q) = Some ?app"
        "vp_hotfix q = Some (int (snd (snd (snd (nat_octets p)))))"
        by (rule own_version_tag [OF w(1) name])
      show "nat_octets p \<noteq> (a, b, c, nat i)"
      proof
        assume e: "nat_octets p = (a, b, c, nat i)"
        then have eq: "p_major p = nat_str a" "p_minor p = nat_str b" "p_patch p = nat_str c"
          using canon [OF w(1)] p_text_nat by (auto simp: nat_octets_def)
        have "p_hotfix p \<noteq> None" using e n by (cases "p_hotfix p") (auto simp: nat_octets_def)
        then show False
          using bounds(2) [OF i(1) w(2) _ q(1,2)] own_version_prefix(4) [OF w(1)] eq q(3) n e by auto
      qed
    qed (use i n in \<open>auto simp: lex_less_def\<close>)
  qed
qed

definition bump_octets :: "string \<Rightarrow> nat \<times> nat \<times> nat \<times> nat \<Rightarrow> nat \<times> nat \<times> nat \<times> nat" where
  \<comment> \<open>the very next version of a release mode, whatever is tagged\<close>
  "bump_octets mode x = (case x of (a, b, c, h) \<Rightarrow>
     if mode = ''major'' then (Suc a, 0, 0, 0) else if mode = ''minor'' then (a, Suc b, 0, 0)
     else if mode = ''patch'' then (a, b, Suc c, 0) else (a, b, c, Suc h))"

definition int_octets :: "nat \<times> nat \<times> nat \<times> nat \<Rightarrow> octets" where
  "int_octets x = (case x of (a, b, c, h) \<Rightarrow> (Some (int a), Some (int b), Some (int c), Some (int h)))"

lemma bump_octets_less: "lex_less x (bump_octets mode x)"
  by (cases x) (simp add: lex_less_def bump_octets_def)

lemma advance_octets_locally:
  assumes "mode \<in> release_modes"
  shows "advance_octets be self (int_octets x) (Some mode) False = Inr (int_octets (bump_octets mode x))"
  using assms by (cases x) (auto simp: release_modes_def advance_octets_def int_octets_def bump_octets_def
      need_int_def increase_octet_def Let_def)

section \<open>Advancing a version\<close>

definition prerelease_valid :: "string option \<Rightarrow> bool" where
  "prerelease_valid x = (case x of None \<Rightarrow> True
     | Some p \<Rightarrow> prerelease_ok p \<and> CHR ''-'' \<notin> set p)"

definition base_octets :: "version_props \<Rightarrow> (nat \<times> nat \<times> nat \<times> nat) option" where
  "base_octets p = (case (vp_major p, vp_minor p, vp_patch p, vp_hotfix p) of
     (Some a, Some b, Some c, Some h) \<Rightarrow> Some (nat a, nat b, nat c, nat h) | _ \<Rightarrow> None)"

lemma advance_parses:
  assumes adv: "advance_version be self v (Some mode) globally = Inr (v', counts)"
    and p: "deserialize_vmn_version v = Inr p" and pre: "prerelease_valid (st_prerelease self)"
    and oct: "advance_octets be self (vp_major p, vp_minor p, vp_patch p, vp_hotfix p) (Some mode) globally
      = Inr (Some (int a), Some (int b), Some (int c), Some (int h))"
  shows "\<exists>q. deserialize_vmn_version v' = Inr q \<and> base_octets q = Some (a, b, c, h)
    \<and> vp_prerelease q = (case st_prerelease self of None \<Rightarrow> ''release'' | Some x \<Rightarrow> x)
    \<and> (vp_prerelease q = ''release'' \<or> vp_rcn q = Some 1)"
proof (cases "(case st_prerelease self of None \<Rightarrow> ''release'' | Some x \<Rightarrow> x) = ''release''")
  case True
  then have "v' = base_verstr a b c h (st_hide_zero_hotfix self)"
    using adv p oct serialize_plain by (auto simp: advance_version_def Let_def split: option.splits if_splits)
  then have "deserialize_vmn_version v' = Inr (num_props a b c h)" by (simp add: deserialize_base)
  then show ?thesis using True
    by (intro exI [of _ "num_props a b c h"]) (simp add: base_octets_def num_props_def VersionProps_def)
next
  case False
  then obtain x where x: "st_prerelease self = Some x" "x \<noteq> ''release''" by (auto split: option.splits)
  let ?hide = "st_hide_zero_hotfix self"
  have v': "serialize_vmn_version (base_verstr a b c h ?hide) (Some x) (Some (int 1)) None ?hide None None = Inr v'"
    using adv p oct x by (auto simp: advance_version_def Let_def)
  have "bind_res (serialize_vmn_version (base_verstr a b c h ?hide) (Some x) (Some (int 1)) None ?hide None None)
      deserialize_vmn_version = Inr ((num_props a b c h)\<lparr>vp_types := {''version'', ''prerelease''} \<union>
        (if (None :: string option) = None then {} else {''buildmetadata''}),
        vp_prerelease := x, vp_rcn := Some (int 1), vp_buildmetadata := None\<rparr>)"
    by (rule deserialize_written_pre) (use pre x in \<open>auto simp: prerelease_valid_def\<close>)
  then have "deserialize_vmn_version v' = Inr ((num_props a b c h)\<lparr>vp_types := {''version'', ''prerelease''},
        vp_prerelease := x, vp_rcn := Some 1, vp_buildmetadata := None\<rparr>)"
    unfolding v' by simp
  then show ?thesis using x by (simp add: base_octets_def num_props_def VersionProps_def)
qed

text \<open>
  C2. Advancing by a release mode (major, minor, patch or hotfix), when the prerelease name asked for,
  if any, is a valid one without a dash, the application has a name and the listing of tags gives
  those with the asked prefix, gives a version whose four numbers are larger, in the order of
  versions, than those of the version it comes from. Advanced globally, as a stamp is, its numbers
  differ from those of every version of the current format that is tagged for the application;
  advanced not globally, as the command that looks ahead does before it searches the tags itself,
  they are the next ones of the mode, whatever is tagged.
\<close>

theorem advance_version_fresh:
  assumes "tag_index tags (be_list_tag_names be)" "st_name self \<noteq> []" "mode \<in> release_modes"
    and "prerelease_valid (st_prerelease self)"
    and "advance_version be self v (Some mode) globally = Inr (v', counts)"
  shows "\<exists>p q x y. deserialize_vmn_version v = Inr p \<and> deserialize_vmn_version v' = Inr q
    \<and> base_octets p = Some x \<and> base_octets q = Some y \<and> lex_less x y
    \<and> (if globally then \<forall>w r. own_version self w r \<and> get_tag_name self w \<in> tags \<longrightarrow> nat_octets r \<noteq> y
       else y = bump_octets mode x)"
proof -
  obtain p o' where p: "deserialize_vmn_version v = Inr p"
      "advance_octets be self (vp_major p, vp_minor p, vp_patch p, vp_hotfix p) (Some mode) globally = Inr o'"
    using assms(5) by (auto simp: advance_version_def)
  have "''root'' \<notin> vp_types p"
    using deserialize_cases [of v] p assms(3)
    by (auto simp: advance_octets_def need_int_def release_modes_def Let_def split: if_splits)
  then obtain a b c h where n: "vp_major p = Some (int a)" "vp_minor p = Some (int b)"
      "vp_patch p = Some (int c)" "vp_hotfix p = Some (int h)"
    using deserialize_cases [of v] p(1) by auto
  have "\<exists>y. o' = int_octets y \<and> lex_less (a, b, c, h) y
    \<and> (if globally then \<forall>w r. own_version self w r \<and> get_tag_name self w \<in> tags \<longrightarrow> nat_octets r \<noteq> y
       else y = bump_octets mode (a, b, c, h))"
  proof (cases globally)
    case True
    then have adv: "advance_octets be self (Some (int a), Some (int b), Some (int c), Some (int h)) (Some mode) True
        = Inr o'" using p(2) n by simp
    show ?thesis
      by (rule advance_octets_fresh [OF assms(1-3) adv], rule exI) (use True in \<open>auto simp: int_octets_def\<close>)
  next
    case False
    have "(Some (int a), Some (int b), Some (int c), Some (int h)) = int_octets (a, b, c, h)"
      by (simp add: int_octets_def)
    then have "o' = int_octets (bump_octets mode (a, b, c, h))"
      using p(2) False advance_octets_locally [OF assms(3), of be self "(a, b, c, h)"] by (simp add: n)
    then show ?thesis using False bump_octets_less [of "(a, b, c, h)" mode]
      by (intro exI [of _ "bump_octets mode (a, b, c, h)"]) simp
  qed
  then obtain y where y: "o' = int_octets y" "lex_less (a, b, c, h) y"
    "if globally then \<forall>w r. own_version self w r \<and> get_tag_name self w \<in> tags \<longrightarrow> nat_octets r \<noteq> y
     else y = bump_octets mode (a, b, c, h)" by blast
  obtain a' b' c' h' where e: "y = (a', b', c', h')" by (cases y)
  obtain q where "deserialize_vmn_version v' = Inr q" "base_octets q = Some y"
    using advance_parses [OF assms(5) p(1) assms(4) p(2) [unfolded y(1) e int_octets_def prod.case]] e by blast
  then show ?thesis using p(1) n y(2,3)
    by (intro exI [of _ p] exI [of _ q] exI [of _ "(a, b, c, h)"] exI [of _ y]) (auto simp: base_octets_def)
qed

theorem advance_version_fresh_witness:
  "\<exists>p q x y. deserialize_vmn_version ''1.2.3'' = Inr p \<and> deserialize_vmn_version ''1.5.0'' = Inr q
    \<and> base_octets p = Some x \<and> base_octets q = Some y \<and> lex_less x y
    \<and> (if True then \<forall>w r. own_version \<lparr>st_name = ''a'', st_hide_zero_hotfix = True, st_prerelease = None,
           st_release_mode = Some ''minor''\<rparr> w r
         \<and> get_tag_name \<lparr>st_name = ''a'', st_hide_zero_hotfix = True, st_prerelease = None,
             st_release_mode = Some ''minor''\<rparr> w \<in> {t \<in> set [''a_1.4.0'']. t \<noteq> [] \<and> NL \<notin> set t}
         \<longrightarrow> nat_octets r \<noteq> y
       else y = bump_octets ''minor'' x)"
proof (rule advance_version_fresh)
  show "tag_index {t \<in> set [''a_1.4.0'']. t \<noteq> [] \<and> NL \<notin> set t}
      (be_list_tag_names (git_backend (git_of_names [''a_1.4.0''])))"
    unfolding git_backend_def backend.simps by (rule mem.tag_index_axioms)
  show "advance_version (git_backend (git_of_names [''a_1.4.0'']))
      \<lparr>st_name = ''a'', st_hide_zero_hotfix = True, st_prerelease = None, st_release_mode = Some ''minor''\<rparr>
      ''1.2.3'' (Some ''minor'') True = Inr (''1.5.0'', [])"
    by code_simp
qed (simp_all add: release_modes_def prerelease_valid_def)

lemma fill_prerelease_rcn:
  "fill_prerelease b e r = Inr q \<Longrightarrow> vp_rcn r = None \<Longrightarrow> vp_rcn q = Some n \<Longrightarrow> -1 \<le> n"
  by (auto simp: fill_prerelease_def int_group_def split: option.splits if_splits)

lemma fill_dev_rcn [simp]: "fill_dev e r = Inr q \<Longrightarrow> vp_rcn q = vp_rcn r"
  by (auto simp: fill_dev_def split: option.splits)

lemma fill_base_rcn [simp]: "fill_base e r = Inr q \<Longrightarrow> vp_rcn q = vp_rcn r"
  by (auto simp: fill_base_def)

lemma fill_buildmetadata_rcn [simp]: "vp_rcn (fill_buildmetadata e r) = vp_rcn r"
  by (simp add: fill_buildmetadata_def split: option.split)

lemma fill_props_rcn:
  assumes "fill_props b e = Inr q" "vp_rcn q = Some n"
  shows "-1 \<le> n"
proof -
  obtain r1 r2 r3 where r: "fill_base e (VersionProps\<lparr>vp_old_ver_format := b\<rparr>) = Inr r1"
      "fill_prerelease b e r1 = Inr r2" "fill_dev e r2 = Inr r3" "q = fill_buildmetadata e r3"
    using assms(1) by (auto simp: fill_props_def)
  have "vp_rcn r1 = None" using fill_base_rcn [OF r(1)] by (simp add: VersionProps_def)
  moreover have "vp_rcn r2 = Some n" using assms(2) r by simp
  ultimately show ?thesis using fill_prerelease_rcn [OF r(2)] by blast
qed

lemma deserialize_rcn: "deserialize_vmn_version v = Inr p \<Longrightarrow> vp_rcn p = Some n \<Longrightarrow> -1 \<le> n"
  by (auto simp: deserialize_vmn_version_def VersionProps_def dest: fill_props_rcn split: option.splits)

lemma bump_count_bounds:
  assumes "bump_count counts x rcn = Inr (counts', n)"
  shows "rcn < n" "map_of counts' x = Some (YInt n)" "map_of counts x = Some (YInt c) \<Longrightarrow> c < n"
  using assms by (auto simp: bump_count_def Let_def count_int_def od_has_def split: if_splits option.splits)

definition chosen_prerelease :: "stamper \<Rightarrow> version_props \<Rightarrow> string" where
  "chosen_prerelease self p = (case st_prerelease self of None \<Rightarrow> vp_prerelease p | Some x \<Rightarrow> x)"

text \<open>
  A prerelease stamp without a release mode keeps the four numbers, and its release candidate
  number is larger than the one of the version it comes from, when that has the same prerelease
  name, and than the count recorded in the newest tag of this base version; the new count is
  what the next stamp will read.
\<close>

theorem prerelease_count_grows:
  assumes p: "deserialize_vmn_version v = Inr p" "''root'' \<notin> vp_types p"
    and x: "chosen_prerelease self p = x" "x \<noteq> ''release''" "prerelease_ok x" "CHR ''-'' \<notin> set x"
    and adv: "advance_version be self v None globally = Inr (v', counts)"
  shows "\<exists>q n. deserialize_vmn_version v' = Inr q \<and> base_octets q = base_octets p
    \<and> vp_prerelease q = x \<and> vp_rcn q = Some n \<and> map_of counts x = Some (YInt n)
    \<and> (\<forall>r. vp_prerelease p = x \<and> vp_rcn p = Some r \<longrightarrow> r < n)
    \<and> (\<forall>recorded c. existing_counts be self (serialize_vmn_base_version (vp_major p) (vp_minor p)
          (vp_patch p) (vp_hotfix p) (st_hide_zero_hotfix self)) = Inr recorded
        \<and> map_of recorded x = Some (YInt c) \<longrightarrow> c < n)"
proof -
  let ?hide = "st_hide_zero_hotfix self"
  let ?base = "serialize_vmn_base_version (vp_major p) (vp_minor p) (vp_patch p) (vp_hotfix p) ?hide"
  obtain a b c h where o: "vp_major p = Some (int a)" "vp_minor p = Some (int b)"
      "vp_patch p = Some (int c)" "vp_hotfix p = Some (int h)"
    using deserialize_cases [of v] p by auto
  let ?rcn = "if x = vp_prerelease p then case vp_rcn p of None \<Rightarrow> 0 | Some r \<Rightarrow> r else 0"
  have pre: "(case st_prerelease self of None \<Rightarrow> vp_prerelease p | Some x \<Rightarrow> x) = x"
    using x(1) by (simp add: chosen_prerelease_def)
  obtain recorded n where n: "existing_counts be self ?base = Inr recorded"
      "bump_count recorded x ?rcn = Inr (counts, n)"
      "serialize_vmn_version ?base (Some x) (Some n) None ?hide None None = Inr v'"
    using adv p(1) x(2) pre by (cases "st_prerelease self") (auto simp: advance_version_def advance_octets_def Let_def)
  have "-1 \<le> ?rcn" using deserialize_rcn [OF p(1)] by (auto split: option.splits)
  then obtain m where m: "n = int m" using bump_count_bounds(1) [OF n(2)] nonneg_int_cases [of n] by force
  have "bind_res (serialize_vmn_version (base_verstr a b c h ?hide) (Some x) (Some (int m)) None ?hide None None)
      deserialize_vmn_version = Inr ((num_props a b c h)\<lparr>vp_types := {''version'', ''prerelease''} \<union>
        (if (None :: string option) = None then {} else {''buildmetadata''}),
        vp_prerelease := x, vp_rcn := Some (int m), vp_buildmetadata := None\<rparr>)"
    by (rule deserialize_written_pre) (use x in auto)
  then have q: "deserialize_vmn_version v' = Inr ((num_props a b c h)\<lparr>vp_types := {''version'', ''prerelease''},
        vp_prerelease := x, vp_rcn := Some n, vp_buildmetadata := None\<rparr>)"
    using n(3) unfolding o m by simp
  show ?thesis
    using q bump_count_bounds [OF n(2)] n(1) o
    by (intro exI [of _ "(num_props a b c h)\<lparr>vp_types := {''version'', ''prerelease''},
          vp_prerelease := x, vp_rcn := Some n, vp_buildmetadata := None\<rparr>"] exI [of _ n])
      (auto simp: base_octets_def num_props_def VersionProps_def)
qed

theorem prerelease_count_grows_witness:
  "\<exists>q n. deserialize_vmn_version ''1.2.3-rc.2'' = Inr q
    \<and> base_octets q = base_octets ((num_props 1 2 3 0)\<lparr>vp_types := {''version'', ''prerelease''},
        vp_prerelease := ''rc'', vp_rcn := Some 1\<rparr>)
    \<and> vp_prerelease q = ''rc'' \<and> vp_rcn q = Some n \<and> map_of [(''rc'', YInt 2)] ''rc'' = Some (YInt n)
    \<and> (\<forall>r. vp_prerelease ((num_props 1 2 3 0)\<lparr>vp_types := {''version'', ''prerelease''},
          vp_prerelease := ''rc'', vp_rcn := Some 1\<rparr>) = ''rc''
        \<and> vp_rcn ((num_props 1 2 3 0)\<lparr>vp_types := {''version'', ''prerelease''},
          vp_prerelease := ''rc'', vp_rcn := Some 1\<rparr>) = Some r \<longrightarrow> r < n)
    \<and> (\<forall>recorded c. existing_counts (git_backend (git_of_names []))
          \<lparr>st_name = ''a'', st_hide_zero_hotfix = True, st_prerelease = None, st_release_mode = None\<rparr>
          (serialize_vmn_base_version
            (vp_major ((num_props 1 2 3 0)\<lparr>vp_types := {''version'', ''prerelease''}, vp_prerelease := ''rc'', vp_rcn := Some 1\<rparr>))
            (vp_minor ((num_props 1 2 3 0)\<lparr>vp_types := {''version'', ''prerelease''}, vp_prerelease := ''rc'', vp_rcn := Some 1\<rparr>))
            (vp_patch ((num_props 1 2 3 0)\<lparr>vp_types := {''version'', ''prerelease''}, vp_prerelease := ''rc'', vp_rcn := Some 1\<rparr>))
            (vp_hotfix ((num_props 1 2 3 0)\<lparr>vp_types := {''version'', ''prerelease''}, vp_prerelease := ''rc'', vp_rcn := Some 1\<rparr>))
            (st_hide_zero_hotfix \<lparr>st_name = ''a'', st_hide_zero_hotfix = True, st_prerelease = None, st_release_mode = None\<rparr>))
          = Inr recorded
        \<and> map_of recorded ''rc'' = Some (YInt c) \<longrightarrow> c < n)"
proof (rule prerelease_count_grows)
  show "deserialize_vmn_version ''1.2.3-rc.1'' = Inr ((num_props 1 2 3 0)\<lparr>vp_types := {''version'', ''prerelease''},
      vp_prerelease := ''rc'', vp_rcn := Some 1\<rparr>)"
    by code_simp
  show "advance_version (git_backend (git_of_names []))
      \<lparr>st_name = ''a'', st_hide_zero_hotfix = True, st_prerelease = None, st_release_mode = None\<rparr>
      ''1.2.3-rc.1'' None True = Inr (''1.2.3-rc.2'', [(''rc'', YInt 2)])"
    by code_simp
qed (simp_all add: chosen_prerelease_def num_props_def VersionProps_def prerelease_ok_def
    prerelease_ident_def ident_char_def in_range_def is_digit_def)

text \<open>
  A root application's tags can carry the tag name of an application: \<open>a/b\<close> and the root \<open>a-b\<close>
  of \<open>a-b/svc\<close> both write \<open>a-b_...\<close>. A root tag among an application's own tags has no octets, so
  every stamp that increments the major version raises.
\<close>

lemma advance_fails_on_root_tag:
  "advance_version (git_backend (git_of_names [''a-b_1.2.3'', ''a-b_7'']))
      \<lparr>st_name = ''a/b'', st_hide_zero_hotfix = True, st_prerelease = None, st_release_mode = Some ''major''\<rparr>
      ''1.2.3'' (Some ''major'') True = Inl TypeErr"
  by code_simp

end
