(* ===== verification/Changelog.thy ===== *)
theory Changelog
imports Version_Math "HOL-Library.List_Lexorder" "HOL-Library.Char_ord"
begin

text \<open>
  Conventional commits: the sections of core/changelog.py, the changelog entry and the release
  notes of stamping/publisher.py built from them. The dictionary of sections is an association
  list in insertion order; a parsed commit is the group environment of its pattern.
\<close>

section \<open>The labels\<close>

definition TYPE_LABELS :: "(string \<times> string) list" where
  "TYPE_LABELS =
     [(''feat'', ''Features''), (''fix'', ''Bug Fixes''), (''perf'', ''Performance Improvements''),
      (''refactor'', ''Refactoring''), (''docs'', ''Documentation''), (''style'', ''Style''),
      (''test'', ''Tests''), (''build'', ''Build''), (''ci'', ''CI''), (''chore'', ''Chores''),
      (''revert'', ''Reverts'')]"

definition PRIORITY_LABELS :: "string list" where
  "PRIORITY_LABELS = [''Features'', ''Bug Fixes'']"

definition OTHER_LABEL :: string where
  "OTHER_LABEL = ''Other Changes''"

definition LABEL_ORDER :: "string list" where
  "LABEL_ORDER =
     PRIORITY_LABELS @ filter (\<lambda>l. l \<notin> set PRIORITY_LABELS) (map snd TYPE_LABELS) @ [OTHER_LABEL]"

section \<open>One commit\<close>

definition is_breaking :: "genv \<Rightarrow> bool" where
  "is_breaking parsed =
     (parsed ''bc'' = Some ''!''
      \<or> (let footer = (case parsed ''footer'' of None \<Rightarrow> [] | Some f \<Rightarrow> f)
         in contains_str ''BREAKING CHANGE'' footer \<or> contains_str ''BREAKING-CHANGE'' footer))"

definition TYPE_RELEASE_MODES :: "string \<rightharpoonup> string" where
  "TYPE_RELEASE_MODES = [''fix'' \<mapsto> ''patch'', ''feat'' \<mapsto> ''minor'', ''breaking change'' \<mapsto> ''major'',
     ''BREAKING CHANGE'' \<mapsto> ''major'', ''micro'' \<mapsto> ''hotfix'']"

definition release_mode_for_commit :: "genv \<Rightarrow> string option" where
  "release_mode_for_commit parsed =
     (if is_breaking parsed then Some ''major''
      else Option.bind (parsed ''type'') TYPE_RELEASE_MODES)"

record entry =
  ce_type :: "string option"
  ce_scope :: "string option"
  ce_description :: string
  ce_hash :: string

definition commit_entry :: "genv \<Rightarrow> string \<Rightarrow> entry" where
  \<comment> \<open>the description group is part of every match\<close>
  "commit_entry parsed short_hash =
     \<lparr>ce_type = Some (str_strip (case parsed ''type'' of None \<Rightarrow> [] | Some t \<Rightarrow> t)),
      ce_scope = (case parsed ''scope'' of None \<Rightarrow> None | Some s \<Rightarrow> if s = [] then None else Some s),
      ce_description = (case parsed ''description'' of None \<Rightarrow> [] | Some d \<Rightarrow> str_strip d),
      ce_hash = short_hash\<rparr>"

definition line_end :: "char \<Rightarrow> bool" where
  \<comment> \<open>the characters \<open>str.splitlines\<close> ends a line at\<close>
  "line_end c = ((10 \<le> code c \<and> code c \<le> 13) \<or> (28 \<le> code c \<and> code c \<le> 30) \<or> code c = 133)"

definition plain_entry :: "string \<Rightarrow> string \<Rightarrow> entry" where
  "plain_entry message short_hash =
     \<lparr>ce_type = None, ce_scope = None,
      ce_description = (if str_strip message \<noteq> [] then str_strip (takeWhile (\<lambda>c. \<not> line_end c) message) else []),
      ce_hash = short_hash\<rparr>"

section \<open>Grouping\<close>

record group =
  cg_label :: string
  cg_type :: "string option"
  cg_commits :: "entry list"

record grouped =
  gr_breaking :: "entry list"
  gr_groups :: "group list"

type_synonym by_label = "(string \<times> string option \<times> entry list) list"

datatype section_of = Breaking entry | Labelled string entry

definition section_of_commit :: "string \<times> string \<Rightarrow> section_of" where
  "section_of_commit c =
     (case c of (message, short_hash) \<Rightarrow>
        (case parse_conventional_commit_message message of
           Inl _ \<Rightarrow> Labelled OTHER_LABEL (plain_entry message short_hash)
         | Inr parsed \<Rightarrow>
             let entry = commit_entry parsed short_hash
             in if is_breaking parsed then Breaking entry
                else Labelled (case Option.bind (ce_type entry) (map_of TYPE_LABELS) of
                                 None \<Rightarrow> OTHER_LABEL | Some l \<Rightarrow> l) entry))"

definition append_commit :: "string \<Rightarrow> entry \<Rightarrow> by_label \<Rightarrow> by_label" where
  \<comment> \<open>\<open>setdefault\<close>, then \<open>append\<close>\<close>
  "append_commit label e by_label =
     (let (t, cs) = (case map_of by_label label of None \<Rightarrow> (ce_type e, []) | Some g \<Rightarrow> g)
      in od_put label (t, cs @ [e]) by_label)"

fun group_loop :: "(string \<times> string) list \<Rightarrow> entry list \<Rightarrow> by_label \<Rightarrow> entry list \<times> by_label" where
  "group_loop [] breaking by_label = (breaking, by_label)"
| "group_loop (c # cs) breaking by_label =
     (case section_of_commit c of
        Breaking e \<Rightarrow> group_loop cs (breaking @ [e]) by_label
      | Labelled label e \<Rightarrow> group_loop cs breaking (append_commit label e by_label))"

definition group_commits :: "(string \<times> string) list \<Rightarrow> grouped" where
  "group_commits commits =
     (let (breaking, by_label) = group_loop commits [] []
      in \<lparr>gr_breaking = breaking,
          gr_groups = map (\<lambda>l. case the (map_of by_label l) of (t, cs) \<Rightarrow>
              \<lparr>cg_label = l, cg_type = t, cg_commits = cs\<rparr>) (filter (od_has by_label) LABEL_ORDER)\<rparr>)"

section \<open>The changelog file\<close>

definition CHANGELOG_PRIORITY_LABELS :: "string list" where
  "CHANGELOG_PRIORITY_LABELS = [''Features'', ''Bug Fixes'']"

definition typed_groups :: "grouped \<Rightarrow> (string \<times> entry list) list" where
  \<comment> \<open>\<open>by_label\<close> of \<open>_changelog_sections\<close>: the labels of the groups are distinct\<close>
  "typed_groups grouped =
     filter (\<lambda>(l, es). es \<noteq> [])
       (map (\<lambda>g. (cg_label g, filter (\<lambda>e. ce_type e \<noteq> None) (cg_commits g))) (gr_groups grouped))"

definition changelog_sections :: "grouped \<Rightarrow> (string \<times> entry list) list" where
  "changelog_sections grouped =
     (let by_label = typed_groups grouped;
          rest = sort (filter (\<lambda>l. l \<notin> set CHANGELOG_PRIORITY_LABELS) (remdups (map fst by_label)))
      in (if gr_breaking grouped \<noteq> [] then [(''Breaking Changes'', gr_breaking grouped)] else [])
         @ map (\<lambda>l. (l, the (map_of by_label l)))
             (filter (\<lambda>l. map_of by_label l \<noteq> None) (CHANGELOG_PRIORITY_LABELS @ rest)))"

definition changelog_line :: "entry \<Rightarrow> string" where
  "changelog_line e =
     ''- '' @ (case ce_scope e of None \<Rightarrow> [] | Some s \<Rightarrow> ''**'' @ s @ '':** '')
     @ ce_description e @ '' ('' @ ce_hash e @ '')''"

definition changelog_entry :: "string \<Rightarrow> string \<Rightarrow> (string \<times> entry list) list \<Rightarrow> string" where
  "changelog_entry app_version today sections =
     str_join [NEWLINE]
       ([''## ['' @ app_version @ ''] - '' @ today, []]
        @ concat (map (\<lambda>(label, entries). (''### '' @ label) # map changelog_line entries @ [[]]) sections))"

definition HEADER_RE :: re where
  \<comment> \<open>\<open>^(# .+\<backslash>n(?:\<backslash>n)?)\<close>\<close>
  "HEADER_RE = Seqs [Bol, Grp ''1'' (Seqs [Lits ''# '', Plus1 NOT_NEWLINE, Lit NEWLINE, Opt (Lit NEWLINE)])]"

definition changelog_updated :: "string \<Rightarrow> string \<Rightarrow> string" where
  \<comment> \<open>the new text of the file from the existing one, which is empty when there is no file\<close>
  "changelog_updated existing new_entry =
     (if existing \<noteq> []
      then (case re_match_at_start HEADER_RE existing of
              Some m \<Rightarrow>
                let header = m_text m; rest = drop (length header) existing
                in header @ [NEWLINE] @ new_entry @ [NEWLINE] @ rest
            | None \<Rightarrow> new_entry @ [NEWLINE, NEWLINE] @ existing)
      else ''# Changelog'' @ [NEWLINE, NEWLINE] @ new_entry @ [NEWLINE])"

definition generate_changelog_text ::
    "bool \<Rightarrow> string option \<Rightarrow> (string \<times> string) list option \<Rightarrow> string \<Rightarrow> string \<Rightarrow> string \<Rightarrow> string option" where
  \<comment> \<open>no text when the changelog is off, nothing was selected, the commits cannot be read, or
      there is no section\<close>
  "generate_changelog_text changelog_on selected_tag commits app_version today existing =
     (if \<not> changelog_on \<or> selected_tag = None then None
      else (case commits of
              None \<Rightarrow> None
            | Some cs \<Rightarrow>
                let sections = changelog_sections (group_commits cs)
                in if sections = [] then None
                   else Some (changelog_updated existing (changelog_entry app_version today sections))))"

section \<open>The release notes\<close>

fun find_str :: "string \<Rightarrow> string \<Rightarrow> nat option" where
  \<comment> \<open>where a literal text first occurs\<close>
  "find_str w [] = (if w = [] then Some 0 else None)"
| "find_str w (c # cs) = (if starts_with w (c # cs) then Some 0 else map_option Suc (find_str w cs))"

definition section_pattern :: "string \<Rightarrow> re" where
  "section_pattern app_version =
     Seqs [Lits ''## ['', Opt (Lit CHR ''v''), Lits app_version, Lit CHR '']'', Star NOT_NEWLINE, Lit NEWLINE]"

definition section_body :: "string \<Rightarrow> string \<Rightarrow> string option" where
  "section_body content app_version =
     (case re_search (section_pattern app_version) content of
        None \<Rightarrow> None
      | Some m \<Rightarrow>
          let rest = m_rest m;
              body = str_strip (case find_str (NEWLINE # ''## ['') rest of None \<Rightarrow> rest | Some n \<Rightarrow> take n rest)
          in if body = [] then None else Some body)"

definition build_release_body ::
    "string option \<Rightarrow> string option \<Rightarrow> string list option \<Rightarrow> string \<Rightarrow> string" where
  \<comment> \<open>the changelog file's content (none when it cannot be read), the previous tag, the messages of
      the commits since it (none when they cannot be read)\<close>
  "build_release_body content prev_tag messages app_version =
     (case Option.bind content (\<lambda>c. section_body c app_version) of
        Some body \<Rightarrow> body
      | None \<Rightarrow>
          (case (prev_tag, messages) of
             (Some t, Some ms) \<Rightarrow>
               if t \<noteq> [] \<and> ms \<noteq> []
               then str_join [NEWLINE] (map (\<lambda>m. ''- '' @ takeWhile (\<lambda>c. c \<noteq> NEWLINE) m) ms)
               else ''Release '' @ app_version
           | _ \<Rightarrow> ''Release '' @ app_version))"

section \<open>What the grouping computes\<close>

definition breaking_of :: "(string \<times> string) list \<Rightarrow> entry list" where
  "breaking_of commits =
     List.map_filter (\<lambda>c. case section_of_commit c of Breaking e \<Rightarrow> Some e | Labelled l e \<Rightarrow> None) commits"

definition labelled :: "string \<Rightarrow> (string \<times> string) list \<Rightarrow> entry list" where
  "labelled label commits =
     List.map_filter (\<lambda>c. case section_of_commit c of Breaking e \<Rightarrow> None
       | Labelled l e \<Rightarrow> if l = label then Some e else None) commits"

lemma labelled_simps [simp]:
  "labelled l [] = []" "breaking_of [] = []"
  "labelled l (c # cs) = (case section_of_commit c of Breaking e \<Rightarrow> labelled l cs
     | Labelled k e \<Rightarrow> if k = l then e # labelled l cs else labelled l cs)"
  "breaking_of (c # cs) = (case section_of_commit c of Breaking e \<Rightarrow> e # breaking_of cs
     | Labelled k e \<Rightarrow> breaking_of cs)"
  by (auto simp: labelled_def breaking_of_def List.map_filter_def split: section_of.split)

definition commits_under :: "by_label \<Rightarrow> string \<Rightarrow> entry list" where
  "commits_under bl l = (case map_of bl l of None \<Rightarrow> [] | Some (t, cs) \<Rightarrow> cs)"

definition no_empty :: "by_label \<Rightarrow> bool" where
  "no_empty bl = (\<forall>l t. map_of bl l \<noteq> Some (t, []))"

lemma append_commit_under:
  "commits_under (append_commit k e bl) l = commits_under bl l @ (if l = k then [e] else [])"
  by (simp add: commits_under_def append_commit_def Let_def split: option.split prod.split)

lemma append_commit_no_empty: "no_empty bl \<Longrightarrow> no_empty (append_commit k e bl)"
  by (simp add: no_empty_def append_commit_def Let_def split: option.split prod.split)

lemma group_loop_spec:
  "group_loop cs br bl = (br', bl') \<Longrightarrow> no_empty bl \<Longrightarrow>
     br' = br @ breaking_of cs \<and> no_empty bl' \<and> (\<forall>l. commits_under bl' l = commits_under bl l @ labelled l cs)"
proof (induction cs arbitrary: br bl)
  case (Cons c cs)
  show ?case
  proof (cases "section_of_commit c")
    case (Breaking e)
    then have "group_loop cs (br @ [e]) bl = (br', bl')" using Cons.prems by simp
    from Cons.IH [OF this Cons.prems(2)] Breaking show ?thesis by simp
  next
    case (Labelled k e)
    then have "group_loop cs br (append_commit k e bl) = (br', bl')" using Cons.prems by simp
    from Cons.IH [OF this append_commit_no_empty [OF Cons.prems(2)]] Labelled
    show ?thesis by (simp add: append_commit_under)
  qed
qed simp

lemma od_has_under: "no_empty bl \<Longrightarrow> od_has bl l \<longleftrightarrow> commits_under bl l \<noteq> []"
  by (auto simp: od_has_def commits_under_def no_empty_def split: option.split prod.split)

lemma group_commits_sections:
  "gr_breaking (group_commits cs) = breaking_of cs"
  "map (\<lambda>g. (cg_label g, cg_commits g)) (gr_groups (group_commits cs))
     = map (\<lambda>l. (l, labelled l cs)) (filter (\<lambda>l. labelled l cs \<noteq> []) LABEL_ORDER)"
proof -
  obtain br bl where g: "group_loop cs [] [] = (br, bl)" by (cases "group_loop cs [] []")
  have n: "no_empty []" by (simp add: no_empty_def)
  have s: "br = breaking_of cs" "no_empty bl" "commits_under bl l = labelled l cs" for l
    using group_loop_spec [OF g n] by (simp_all add: commits_under_def)
  show "gr_breaking (group_commits cs) = breaking_of cs" by (simp add: group_commits_def g s(1))
  have "filter (od_has bl) LABEL_ORDER = filter (\<lambda>l. labelled l cs \<noteq> []) LABEL_ORDER"
    by (rule filter_cong [OF refl]) (simp add: od_has_under [OF s(2)] s(3))
  moreover have "labelled l cs \<noteq> [] \<Longrightarrow> (case the (map_of bl l) of (t, es) \<Rightarrow> es) = labelled l cs" for l
    using s(3) [of l] by (auto simp: commits_under_def split: option.splits)
  ultimately show "map (\<lambda>g. (cg_label g, cg_commits g)) (gr_groups (group_commits cs))
     = map (\<lambda>l. (l, labelled l cs)) (filter (\<lambda>l. labelled l cs \<noteq> []) LABEL_ORDER)"
    by (auto simp: group_commits_def g split_def)
qed

lemma section_label: "section_of_commit c = Labelled l e \<Longrightarrow> l \<in> set LABEL_ORDER"
proof -
  have "map_of TYPE_LABELS t = Some k \<Longrightarrow> k \<in> set LABEL_ORDER" for t k
    by (drule map_of_SomeD) (auto simp: TYPE_LABELS_def LABEL_ORDER_def PRIORITY_LABELS_def)
  moreover have "OTHER_LABEL \<in> set LABEL_ORDER" by (simp add: LABEL_ORDER_def)
  ultimately show "section_of_commit c = Labelled l e \<Longrightarrow> l \<in> set LABEL_ORDER"
    by (auto simp: section_of_commit_def Let_def bind_eq_Some_conv split: prod.splits sum.splits option.splits if_splits)
qed

lemma distinct_LABEL_ORDER: "distinct LABEL_ORDER"
  by code_simp

lemma sum_list_add_one:
  "distinct xs \<Longrightarrow> x \<in> set xs \<Longrightarrow> sum_list (map (\<lambda>l. f l + (if l = x then 1 else 0)) xs) = sum_list (map f xs) + (1 :: nat)"
proof (induction xs)
  case (Cons a xs)
  have "x \<notin> set xs \<Longrightarrow> sum_list (map (\<lambda>l. f l + (if l = x then 1 else 0)) xs) = sum_list (map f xs)"
    by (intro arg_cong [where f = sum_list] map_cong refl) auto
  then show ?case using Cons by (cases "a = x") simp_all
qed simp

lemma sections_count: "length (breaking_of cs) + sum_list (map (\<lambda>l. length (labelled l cs)) LABEL_ORDER) = length cs"
proof (induction cs)
  case Nil
  have "sum_list (map (\<lambda>l. 0) xs) = (0 :: nat)" for xs :: "string list" by (induction xs) auto
  then show ?case by simp
next
  case (Cons c cs)
  show ?case
  proof (cases "section_of_commit c")
    case (Labelled k e)
    have "(\<lambda>l. length (labelled l (c # cs))) = (\<lambda>l. length (labelled l cs) + (if l = k then 1 else 0))"
      using Labelled by (auto simp: fun_eq_iff)
    then show ?thesis
      using Cons Labelled sum_list_add_one [OF distinct_LABEL_ORDER section_label [OF Labelled]] by simp
  qed (use Cons in simp)
qed

text \<open>
  Every commit lands in exactly one section: the breaking ones, in order, and for each label,
  in the order of the labels, the commits with that label in order, leaving out the labels
  without commits; together they are as many as the commits.
\<close>

theorem group_commits_partitions:
  "gr_breaking (group_commits cs) = breaking_of cs
   \<and> map (\<lambda>g. (cg_label g, cg_commits g)) (gr_groups (group_commits cs))
       = map (\<lambda>l. (l, labelled l cs)) (filter (\<lambda>l. labelled l cs \<noteq> []) LABEL_ORDER)
   \<and> length (gr_breaking (group_commits cs)) + sum_list (map (length \<circ> cg_commits) (gr_groups (group_commits cs)))
       = length cs"
proof -
  have "map (length \<circ> cg_commits) (gr_groups (group_commits cs))
      = map (length \<circ> snd) (map (\<lambda>g. (cg_label g, cg_commits g)) (gr_groups (group_commits cs)))"
    by simp
  also have "\<dots> = map (\<lambda>l. length (labelled l cs)) (filter (\<lambda>l. labelled l cs \<noteq> []) LABEL_ORDER)"
    unfolding group_commits_sections(2) by simp
  finally have "sum_list (map (length \<circ> cg_commits) (gr_groups (group_commits cs)))
      = sum_list (map (\<lambda>l. length (labelled l cs)) (filter (\<lambda>l. labelled l cs \<noteq> []) LABEL_ORDER))"
    by simp
  also have "\<dots> = sum_list (map (\<lambda>l. length (labelled l cs)) LABEL_ORDER)"
    by (rule sum_list_map_filter) simp
  finally show ?thesis using group_commits_sections [of cs] sections_count [of cs] by simp
qed

section \<open>The release notes are the changelog section\<close>

definition entry_text :: "(string \<times> entry list) list \<Rightarrow> string" where
  \<comment> \<open>the lines of an entry below its heading\<close>
  "entry_text sections =
     str_join [NEWLINE] (concat (map (\<lambda>(label, entries). (''### '' @ label) # map changelog_line entries @ [[]]) sections))"

lemma find_str_None: "find_str w s = None \<longleftrightarrow> \<not> contains_str w s"
  by (induction s) auto

lemma starts_with_short:
  assumes "starts_with w (a @ c # s)" "c \<notin> set w"
  shows "starts_with w a"
proof -
  obtain t where "a @ c # s = w @ t" using assms(1) by (auto simp: starts_with_iff)
  then show ?thesis using assms(2) unfolding starts_with_iff
    by (auto simp: append_eq_append_conv2 append_eq_Cons_conv Cons_eq_append_conv)
qed

lemma find_str_first:
  "\<not> contains_str (c # w) a \<Longrightarrow> c \<notin> set w \<Longrightarrow> find_str (c # w) (a @ c # w @ z) = Some (length a)"
proof (induction a)
  case (Cons x a)
  have "\<not> starts_with (c # w) ((x # a) @ c # w @ z)"
    using Cons.prems starts_with_short [of w a c "w @ z"] by auto
  then show ?case using Cons by simp
qed simp

lemma strip_left_space: "is_space c \<Longrightarrow> strip_left (c # s) = strip_left s"
  by (simp add: strip_left_def)

lemma str_strip_outer:
  "is_space c \<Longrightarrow> str_strip (s @ [c]) = str_strip s"
  "is_space c \<Longrightarrow> str_strip (c # s) = str_strip s"
proof -
  show "is_space c \<Longrightarrow> str_strip (s @ [c]) = str_strip s" by (simp add: str_strip_def strip_right_def)
  assume c: "is_space c"
  show "str_strip (c # s) = str_strip s"
  proof (cases "\<forall>x \<in> set s. is_space x")
    case True
    then have "strip_right (c # s) = []" "strip_right s = []"
      using c by (simp_all add: strip_right_def dropWhile_eq_Nil_conv)
    then show ?thesis by (simp only: str_strip_def)
  next
    case False
    then have "dropWhile is_space (rev s @ [c]) = dropWhile is_space (rev s) @ [c]"
      by (auto simp: dropWhile_append)
    then show ?thesis using c by (simp add: str_strip_def strip_right_def strip_left_def)
  qed
qed

lemma space_newline [simp]: "is_space NEWLINE"
  by code_simp

lemma NOT_NEWLINE_run: "u \<in> lang (Star NOT_NEWLINE) \<Longrightarrow> NEWLINE \<notin> set u"
proof -
  have "u \<in> kstar (lang NOT_NEWLINE) \<Longrightarrow> NEWLINE \<notin> set u"
    by (induction u rule: kstar.induct) (auto simp: NOT_NEWLINE_def cls_mem_def)
  then show "u \<in> lang (Star NOT_NEWLINE) \<Longrightarrow> NEWLINE \<notin> set u" by simp
qed

text \<open>The heading is found where it was put, and the match ends with its line.\<close>

lemma section_pattern_rest:
  assumes "(t, f) \<in> set (rm n (section_pattern v) (''## ['' @ v @ '']'' @ x @ NEWLINE # y) e)"
    and v: "v \<noteq> []" "hd v \<noteq> CHR ''v''" and x: "NEWLINE \<notin> set x"
  shows "t = y"
proof -
  from assms(1) obtain s1 g1 s2 where
    s1: "(s1, g1) \<in> set (rm n (Opt (Lit CHR ''v'')) (v @ '']'' @ x @ NEWLINE # y) e)" and
    s2: "s1 = v @ CHR '']'' # s2" and
    st: "(NEWLINE # t, f) \<in> set (rm n (Star NOT_NEWLINE) s2 g1)"
    unfolding section_pattern_def Seqs.simps rm_Seq_iff rm_Lits_iff rm_Lit_iff by auto
  from s1 have "s1 = v @ '']'' @ x @ NEWLINE # y" using v s2
    unfolding rm_Opt_iff rm_Lit_iff by (cases v) auto
  then have "s2 = x @ NEWLINE # y" using s2 by simp
  moreover obtain u where "u \<in> lang (Star NOT_NEWLINE)" "s2 = u @ NEWLINE # t" using rm_lang [OF st] by blast
  ultimately show ?thesis using append_first_split [of x NEWLINE y u t] x NOT_NEWLINE_run by auto
qed

lemma NOT_NEWLINE_star:
  assumes "NEWLINE \<notin> set x"
  shows "(s, e) \<in> set (rm n (Star NOT_NEWLINE) (x @ s) e)"
proof (rule rm_Star_complete(1))
  show "x \<in> kstar (lang NOT_NEWLINE)" using assms
  proof (induction x)
    case (Cons c x)
    have "[c] \<in> lang NOT_NEWLINE" using Cons.prems by (auto simp: NOT_NEWLINE_def cls_mem_def)
    from kstar_app [OF this] Cons show ?case by simp
  qed (rule kstar_Nil)
qed (auto simp: NOT_NEWLINE_def)

lemma section_pattern_some:
  assumes "NEWLINE \<notin> set x"
  shows "rm n (section_pattern v) (''## ['' @ v @ '']'' @ x @ NEWLINE # y) e \<noteq> []"
proof -
  have "(y, e) \<in> set (rm n (section_pattern v) (''## ['' @ v @ '']'' @ x @ NEWLINE # y) e)"
    using NOT_NEWLINE_star [OF assms, of "NEWLINE # y" e n]
    unfolding section_pattern_def Seqs.simps rm_Seq_iff rm_Lits_iff rm_Lit_iff rm_Opt_iff by auto
  then show ?thesis by auto
qed

lemma section_pattern_elsewhere:
  assumes "rm n (section_pattern v) s e \<noteq> []"
  shows "starts_with ''## ['' s"
proof -
  obtain t f where "(t, f) \<in> set (rm n (section_pattern v) s e)"
    using assms by (cases "rm n (section_pattern v) s e") auto
  then show ?thesis unfolding section_pattern_def Seqs.simps rm_Seq_iff rm_Lits_iff starts_with_iff by auto
qed

text \<open>Nothing before it matches: a line of the prefix holds no bracket.\<close>

lemma search_from_skip: "rm n r (c # s) Map.empty = [] \<Longrightarrow> search_from n r (c # s) = search_from n r s"
  by (subst search_from.simps) simp

lemma search_from_hit:
  "rm n r s Map.empty = (t, f) # q \<Longrightarrow> \<exists>m. search_from n r s = Some m \<and> m_rest m = t"
  by (subst search_from.simps) simp

lemma search_heading:
  assumes "CHR ''['' \<notin> set p" "NEWLINE \<notin> set x" "v \<noteq> []" "hd v \<noteq> CHR ''v''"
  shows "\<exists>m. search_from n (section_pattern v) (p @ NEWLINE # ''## ['' @ v @ '']'' @ x @ NEWLINE # y) = Some m \<and> m_rest m = y"
  using assms(1)
proof (induction p)
  case Nil
  let ?s = "''## ['' @ v @ '']'' @ x @ NEWLINE # y"
  have none: "rm n (section_pattern v) (NEWLINE # ?s) Map.empty = []"
    using section_pattern_elsewhere [of n v "NEWLINE # ?s"] by (auto simp: NEWLINE_def)
  obtain t f r where hit: "rm n (section_pattern v) ?s Map.empty = (t, f) # r"
    using section_pattern_some [OF assms(2)] by (metis list.exhaust surj_pair)
  have "t = y" by (rule section_pattern_rest [of t f n v x y Map.empty]) (simp only: hit list.set insertI1, (rule assms)+)
  then show ?case using search_from_hit [OF hit] by (simp only: append_Nil search_from_skip [OF none])
next
  case (Cons c p)
  let ?s = "p @ NEWLINE # ''## ['' @ v @ '']'' @ x @ NEWLINE # y"
  have "\<not> starts_with ''## ['' (c # ?s)"
    using Cons.prems by (cases p; cases "tl p"; cases "tl (tl p)") (simp_all add: NEWLINE_def)
  then have "rm n (section_pattern v) (c # ?s) Map.empty = []" using section_pattern_elsewhere by blast
  then have "search_from n (section_pattern v) (c # ?s) = search_from n (section_pattern v) ?s"
    by (rule search_from_skip)
  moreover have "\<exists>m. search_from n (section_pattern v) ?s = Some m \<and> m_rest m = y"
    by (rule Cons.IH) (use Cons.prems in simp)
  ultimately show ?case by (simp only: append_Cons)
qed

lemma entry_text_Cons:
  "\<exists>t. entry_text ((l, es) # ss) = ''### '' @ l @ NEWLINE # t"
proof -
  have "\<exists>t. str_join [NEWLINE] (x # xs @ [] # ys) = x @ NEWLINE # t" for x xs ys
    by (cases "xs @ [] # ys") auto
  from this [of "''### '' @ l" "map changelog_line es"] show ?thesis by (simp add: entry_text_def)
qed

lemma changelog_entry_text:
  assumes "sections \<noteq> []"
  shows "changelog_entry v today sections = ''## ['' @ v @ '']'' @ ('' - '' @ today) @ NEWLINE # NEWLINE # entry_text sections"
proof -
  have "str_join [NEWLINE] ([a, []] @ L) = a @ NEWLINE # NEWLINE # str_join [NEWLINE] L" if "L \<noteq> []" for a L
    using that by (cases L) auto
  moreover have "concat (map (\<lambda>(label, entries). (''### '' @ label) # map changelog_line entries @ [[]]) sections) \<noteq> []"
    using assms by (cases sections) auto
  ultimately show ?thesis by (simp add: changelog_entry_def entry_text_def)
qed

lemma str_strip_nonempty: "c \<in> set s \<Longrightarrow> \<not> is_space c \<Longrightarrow> str_strip s \<noteq> []"
proof -
  assume c: "c \<in> set s" "\<not> is_space c"
  have drop: "c \<in> set xs \<Longrightarrow> c \<in> set (dropWhile is_space xs)" for xs
    using c(2) by (induction xs) auto
  have "c \<in> set (str_strip s)" using c(1) by (simp add: str_strip_def strip_left_def strip_right_def drop)
  then show "str_strip s \<noteq> []" by auto
qed

definition changelog_header :: "string \<Rightarrow> string \<Rightarrow> bool" where
  \<comment> \<open>a changelog the tool wrote before: a title, an empty line, and nothing or an entry\<close>
  "changelog_header title rest =
     (title \<noteq> [] \<and> NEWLINE \<notin> set title \<and> CHR ''['' \<notin> set title \<and> (rest = [] \<or> starts_with ''## ['' rest))"

lemma header_match:
  assumes "(t, f) \<in> set (rm n HEADER_RE (''# '' @ title @ [NEWLINE, NEWLINE] @ rest) e)" "NEWLINE \<notin> set title"
  shows "t = rest \<or> t = NEWLINE # rest"
proof -
  from assms(1) obtain u1 u2 h where st: "(u1, h) \<in> set (rm n (Plus1 NOT_NEWLINE) (title @ [NEWLINE, NEWLINE] @ rest) e)"
    and u: "u1 = NEWLINE # u2" "u2 = NEWLINE # t \<or> t = u2"
    unfolding HEADER_RE_def Seqs.simps rm_Seq_iff rm_Lits_iff rm_Lit_iff rm_Opt_iff rm_Grp_iff rm_Bol_iff by auto
  obtain x where x: "x \<in> lang (Plus1 NOT_NEWLINE)" "title @ [NEWLINE, NEWLINE] @ rest = x @ u1" using rm_lang [OF st] by blast
  then obtain a y where "x = a @ y" "a \<in> lang NOT_NEWLINE" "y \<in> lang (Star NOT_NEWLINE)" by (auto simp: Plus1_def)
  then have "NEWLINE \<notin> set x" using NOT_NEWLINE_run by (auto simp: NOT_NEWLINE_def cls_mem_def)
  then have "NEWLINE # rest = u2" using append_first_split [of title NEWLINE "NEWLINE # rest" x u2] x(2) u(1) assms(2) by auto
  then show ?thesis using u(2) by auto
qed

lemma header_match_some:
  assumes "changelog_header title rest" and that: "s = ''# '' @ title @ [NEWLINE, NEWLINE] @ rest"
  shows "rm (length s) HEADER_RE s Map.empty \<noteq> []"
proof -
  obtain c x where t: "title = c # x" "c \<noteq> NEWLINE" "NEWLINE \<notin> set x"
    using assms by (cases title) (auto simp: changelog_header_def)
  have "(NEWLINE # NEWLINE # rest, Map.empty) \<in> set (rm (length s) (Plus1 NOT_NEWLINE) (title @ [NEWLINE, NEWLINE] @ rest) Map.empty)"
    using NOT_NEWLINE_star [OF t(3), of "[NEWLINE, NEWLINE] @ rest" Map.empty "length s"] t(2)
    unfolding Plus1_def rm_Seq_iff NOT_NEWLINE_def rm_Cls_iff t(1) by (auto simp: cls_mem_def)
  then have "\<exists>f. (rest, f) \<in> set (rm (length s) HEADER_RE s Map.empty)"
    unfolding HEADER_RE_def Seqs.simps rm_Seq_iff rm_Lits_iff rm_Lit_iff rm_Opt_iff rm_Grp_iff rm_Bol_iff that by auto
  then show ?thesis by auto
qed

lemma changelog_updated_shape:
  assumes "existing = [] \<or> (\<exists>title rest. existing = ''# '' @ title @ [NEWLINE, NEWLINE] @ rest \<and> changelog_header title rest)"
  shows "\<exists>p post. changelog_updated existing e = p @ NEWLINE # e @ NEWLINE # post \<and> CHR ''['' \<notin> set p
    \<and> (post = [] \<or> post = [NEWLINE] \<or> starts_with ''## ['' post \<or> (\<exists>r. post = NEWLINE # r \<and> starts_with ''## ['' r))"
proof (cases "existing = []")
  case True
  then have "changelog_updated existing e = (''# Changelog'' @ [NEWLINE]) @ NEWLINE # e @ NEWLINE # []"
    by (simp add: changelog_updated_def)
  moreover have "CHR ''['' \<notin> set (''# Changelog'' @ [NEWLINE])" by (simp add: NEWLINE_def)
  ultimately show ?thesis by blast
next
  case False
  with assms obtain title rest where ex: "existing = ''# '' @ title @ [NEWLINE, NEWLINE] @ rest"
    and h: "changelog_header title rest" by blast
  obtain t f q where rm: "rm (length existing) HEADER_RE existing Map.empty = (t, f) # q"
    using header_match_some [OF h ex] by (metis list.exhaust surj_pair)
  have "(t, f) \<in> set (rm (length existing) HEADER_RE existing Map.empty)" by (simp add: rm)
  then have t: "t = rest \<or> t = NEWLINE # rest"
    using header_match [of t f "length existing" title rest Map.empty] h ex by (simp add: changelog_header_def)
  then obtain p where p: "existing = p @ t" "CHR ''['' \<notin> set p"
    using ex h by (auto simp: changelog_header_def NEWLINE_def intro: that)
  have "changelog_updated existing e = p @ NEWLINE # e @ NEWLINE # t"
    using False p(1) rm by (simp add: changelog_updated_def re_match_at_start_def Let_def)
  then show ?thesis using p(2) t h unfolding changelog_header_def by blast
qed

lemma contains_str_snoc:
  assumes "\<not> contains_str w a" "w \<noteq> []" "last w \<noteq> c"
  shows "\<not> contains_str w (a @ [c])"
proof
  assume "contains_str w (a @ [c])"
  then obtain x y where eq: "a @ [c] = x @ w @ y" unfolding contains_str_iff by blast
  show False
  proof (cases y rule: rev_cases)
    case Nil
    then have "last (a @ [c]) = last w" using eq assms(2) by simp
    then show False using assms(3) by simp
  next
    case (snoc z d)
    then have "a = x @ w @ z" using eq by simp
    then show False using assms(1) unfolding contains_str_iff by blast
  qed
qed

lemma contains_str_butlast: "\<not> contains_str w (a @ b) \<Longrightarrow> \<not> contains_str w a"
  unfolding contains_str_iff by force

lemma notes_body:
  assumes no: "\<not> contains_str (NEWLINE # ''## ['') (NEWLINE # t @ [NEWLINE])"
    and post: "post = [] \<or> post = [NEWLINE] \<or> starts_with ''## ['' post \<or> (\<exists>r. post = NEWLINE # r \<and> starts_with ''## ['' r)"
  shows "str_strip (case find_str (NEWLINE # ''## ['') (NEWLINE # t @ NEWLINE # post) of
      None \<Rightarrow> NEWLINE # t @ NEWLINE # post | Some n \<Rightarrow> take n (NEWLINE # t @ NEWLINE # post)) = str_strip t"
proof -
  let ?w = "NEWLINE # ''## [''"
  have nl: "NEWLINE \<notin> set ''## [''" by (simp add: NEWLINE_def)
  have strip: "str_strip (NEWLINE # t) = str_strip t" "str_strip (NEWLINE # t @ [NEWLINE]) = str_strip t"
    "str_strip (NEWLINE # t @ [NEWLINE, NEWLINE]) = str_strip t"
    using str_strip_outer(1) [of NEWLINE "t @ [NEWLINE]"]
    by (simp_all add: str_strip_outer)
  consider "post = []" | "post = [NEWLINE]" | z where "post = ''## ['' @ z" | z where "post = NEWLINE # ''## ['' @ z"
    using post unfolding starts_with_iff by blast
  then show ?thesis
  proof cases
    case 1
    then have "find_str ?w (NEWLINE # t @ NEWLINE # post) = None" using no unfolding find_str_None by simp
    then show ?thesis using 1 strip(2) by (simp only: option.case)
  next
    case 2
    then have "\<not> contains_str ?w (NEWLINE # t @ NEWLINE # post)"
      using contains_str_snoc [OF no, of NEWLINE] by (simp add: NEWLINE_def)
    then have "find_str ?w (NEWLINE # t @ NEWLINE # post) = None" unfolding find_str_None .
    then show ?thesis using 2 strip(3) by (simp only: option.case)
  next
    case 3
    have "find_str ?w ((NEWLINE # t) @ NEWLINE # ''## ['' @ z) = Some (length (NEWLINE # t))"
      using no by (intro find_str_first nl) (metis append_Cons contains_str_butlast)
    then show ?thesis using 3 strip(1) by (simp del: find_str.simps)
  next
    case 4
    have "find_str ?w ((NEWLINE # t @ [NEWLINE]) @ NEWLINE # ''## ['' @ z) = Some (length (NEWLINE # t @ [NEWLINE]))"
      using no by (intro find_str_first nl)
    then show ?thesis using 4 strip(2) by (simp del: find_str.simps)
  qed
qed

text \<open>
  The release notes of a version are the section the changelog just got for it, whether the
  file is new or has entries of earlier versions below its title.
\<close>

theorem release_notes_of_changelog:
  assumes "sections \<noteq> []" and v: "v \<noteq> []" "hd v \<noteq> CHR ''v''" and today: "NEWLINE \<notin> set today"
    and no_heading: "\<not> contains_str (NEWLINE # ''## ['') (NEWLINE # entry_text sections @ [NEWLINE])"
    and ex: "existing = [] \<or> (\<exists>title rest. existing = ''# '' @ title @ [NEWLINE, NEWLINE] @ rest \<and> changelog_header title rest)"
  shows "build_release_body (Some (changelog_updated existing (changelog_entry v today sections))) prev_tag messages v
    = str_strip (entry_text sections)"
proof -
  let ?e = "changelog_entry v today sections" and ?x = "'' - '' @ today" and ?t = "entry_text sections"
  obtain p post where c: "changelog_updated existing ?e = p @ NEWLINE # ?e @ NEWLINE # post" "CHR ''['' \<notin> set p"
    and post: "post = [] \<or> post = [NEWLINE] \<or> starts_with ''## ['' post \<or> (\<exists>r. post = NEWLINE # r \<and> starts_with ''## ['' r)"
    using changelog_updated_shape [OF ex] by metis
  have x: "NEWLINE \<notin> set ?x" using today by (simp add: NEWLINE_def)
  have cont: "changelog_updated existing ?e = p @ NEWLINE # ''## ['' @ v @ '']'' @ ?x @ NEWLINE # NEWLINE # ?t @ NEWLINE # post"
    using c(1) by (simp add: changelog_entry_text [OF assms(1)])
  obtain m where m: "re_search (section_pattern v) (changelog_updated existing ?e) = Some m" "m_rest m = NEWLINE # ?t @ NEWLINE # post"
    using search_heading [OF c(2) x v] unfolding re_search_def cont by blast
  define body where "body = (case find_str (NEWLINE # ''## ['') (m_rest m) of None \<Rightarrow> m_rest m | Some n \<Rightarrow> take n (m_rest m))"
  have body: "str_strip body = str_strip ?t"
    unfolding body_def m(2) by (rule notes_body [OF no_heading post])
  obtain s ss where "sections = s # ss" using assms(1) by (cases sections) auto
  then obtain u where "?t = CHR ''#'' # u" using entry_text_Cons [of "fst s" "snd s" ss] by auto
  then have "str_strip ?t \<noteq> []" using str_strip_nonempty [of "CHR ''#''" ?t] by (simp add: is_space_def code_def)
  then show ?thesis using m(1) body by (simp add: build_release_body_def section_body_def body_def Let_def)
qed

theorem release_notes_of_changelog_witness:
  "build_release_body (Some (changelog_updated (''# Changelog'' @ [NEWLINE, NEWLINE] @ ''## [0.0.1] - then'')
       (changelog_entry ''0.1.0'' ''now'' (changelog_sections (group_commits [(''feat: x'', ''ab'')]))))) None None ''0.1.0''
     = str_strip (entry_text (changelog_sections (group_commits [(''feat: x'', ''ab'')])))"
proof (rule release_notes_of_changelog)
  show "changelog_sections (group_commits [(''feat: x'', ''ab'')]) \<noteq> []" by code_simp
  show "NEWLINE \<notin> set ''now''" by (simp add: NEWLINE_def)
  show "\<not> contains_str (NEWLINE # ''## ['')
     (NEWLINE # entry_text (changelog_sections (group_commits [(''feat: x'', ''ab'')])) @ [NEWLINE])" by code_simp
  have "changelog_header ''Changelog'' ''## [0.0.1] - then''" by (simp add: changelog_header_def NEWLINE_def)
  then show "''# Changelog'' @ [NEWLINE, NEWLINE] @ ''## [0.0.1] - then'' = []
    \<or> (\<exists>title rest. ''# Changelog'' @ [NEWLINE, NEWLINE] @ ''## [0.0.1] - then'' = ''# '' @ title @ [NEWLINE, NEWLINE] @ rest
        \<and> changelog_header title rest)"
    by (intro disjI2 exI [of _ "''Changelog''"] exI [of _ "''## [0.0.1] - then''"]) simp
qed simp_all

end
