(* ===== verification/Stamping.thy ===== *)
theory Stamping
imports Effects Stamp_Advance
begin

text \<open>
  The operations of stamping/publisher.py on versions: finding the version the working copy is at,
  releasing a version, adding build metadata to one, and stamping the application and its root.
  The record \<open>app\<close> is what the stamper loaded; the record \<open>tagger\<close> holds the effects, which may
  raise. A version info is an untyped value, updated in place as the code does.
\<close>

section \<open>Equality of values\<close>

lemma size_in_list: "x \<in> set xs \<Longrightarrow> f x \<le> size_list f xs"
  by (induction xs) auto

function yeq :: "yv \<Rightarrow> yv \<Rightarrow> bool" where
  \<comment> \<open>\<open>==\<close>: booleans are numbers, dictionaries have no order\<close>
  "yeq a b = (case (a, b) of
       (YMap m, YMap n) \<Rightarrow> length m = length n
         \<and> list_all (\<lambda>kv. case map_of n (fst kv) of None \<Rightarrow> False | Some w \<Rightarrow> yeq (snd kv) w) m
     | (YList xs, YList ys) \<Rightarrow> length xs = length ys \<and> list_all (\<lambda>xy. yeq (fst xy) (snd xy)) (zip xs ys)
     | (YBool x, YInt i) \<Rightarrow> i = (if x then 1 else 0)
     | (YInt i, YBool x) \<Rightarrow> i = (if x then 1 else 0)
     | _ \<Rightarrow> a = b)"
  by pat_completeness auto
termination
  by (relation "measure (\<lambda>(a, b). size a)")
    (auto simp: less_Suc_eq_le dest!: set_zip_leftD dest: size_in_list [where f = size]
        size_in_list [where f = "size_prod (\<lambda>x. 0) size"])

declare yeq.simps [simp del]

section \<open>What the stamper loaded\<close>

record app =
  ap_stamper :: stamper
  ap_selected_tag :: "string option"
  ap_ver_infos :: ver_infos             \<comment> \<open>\<open>ver_infos_from_repo\<close>\<close>
  ap_repo_name :: string
  ap_deps_state :: "(string \<times> yv) list"
  ap_last_user_changeset :: yv
  ap_whitelist :: "string list option"  \<comment> \<open>\<open>policies['whitelist_release_branches']\<close>\<close>
  ap_template :: template
  ap_root_app_name :: "string option"
  ap_extra_info :: bool
  ap_environ :: yv
  ap_active_branch :: yv
  ap_remote_active_branch :: yv

abbreviation ap_hide :: "app \<Rightarrow> bool" where
  "ap_hide app \<equiv> st_hide_zero_hotfix (ap_stamper app)"

record 'w tagger =
  tg_changeset :: "string \<Rightarrow> string option"               \<comment> \<open>\<open>backend.changeset(tag=...)\<close>\<close>
  tg_branches_containing :: "string option \<Rightarrow> string list res"
  tg_tag :: "string \<Rightarrow> yv \<Rightarrow> string option \<Rightarrow> ('w, unit) act"  \<comment> \<open>create at a commit and push\<close>
  tg_load_yaml :: "string \<Rightarrow> yv res"

definition of_res :: "'a res \<Rightarrow> ('w, 'a) act" where
  "of_res r = (\<lambda>w. (r, w))"

definition yputs :: "yv \<Rightarrow> (string list \<times> yv) list \<Rightarrow> yv res" where
  \<comment> \<open>a sequence of assignments along paths\<close>
  "yputs v ups = foldl (\<lambda>r (path, x). bind_res r (\<lambda>u. yput_path u path x)) (Inr v) ups"

section \<open>The version the working copy is at\<close>

fun match_changesets :: "app \<Rightarrow> (string \<times> yv) list \<Rightarrow> bool res" where
  "match_changesets app [] = Inr True"
| "match_changesets app ((k, v) # rest) =
     (case map_of (ap_deps_state app) k of
        None \<Rightarrow> Inr False
      | Some state \<Rightarrow>
          bind_res (yget v ''hash'') (\<lambda>h.
          bind_res (if ap_repo_name app = k then Inr (ap_last_user_changeset app) else yget state ''hash'') (\<lambda>own.
            if yeq h own then match_changesets app rest else Inr False)))"

definition find_matching_version :: "backend \<Rightarrow> app \<Rightarrow> string option \<Rightarrow> yv option res" where
  "find_matching_version be app verstr =
     (case verstr of None \<Rightarrow> Inr None | Some verstr \<Rightarrow>
      bind_res (get_base_vmn_version verstr (ap_hide app)) (\<lambda>base_verstr.
      let tag = get_tag_name (ap_stamper app) verstr;
          release_tag = get_tag_name (ap_stamper app) base_verstr
      in bind_res
           (if ap_selected_tag app \<noteq> Some tag then tag_info be tag else Inr (tag, ap_ver_infos app))
           (\<lambda>(tag, ver_infos).
         case map_of ver_infos tag of
           None \<Rightarrow> Inr None
         | Some c \<Rightarrow>
             (case (case map_of ver_infos release_tag of None \<Rightarrow> vi_ver_info c | Some r \<Rightarrow> vi_ver_info r) of
                None \<Rightarrow> Inl TypeErr
              | Some tmp \<Rightarrow>
                  bind_res (ypath tmp [''stamping'', ''app'']) (\<lambda>stamped.
                  bind_res (yget stamped ''name'') (\<lambda>name.
                  if \<not> yeq name (YStr (st_name (ap_stamper app))) then Inr None
                  else bind_res (yget stamped ''release_mode'') (\<lambda>mode.
                  if yeq mode (YStr ''init'') then Inr None
                  else bind_res (yget stamped ''changesets'') (\<lambda>cs.
                    case cs of
                      YMap changesets \<Rightarrow>
                        bind_res (match_changesets app changesets) (\<lambda>found.
                          Inr (if found then Some tmp else None))
                    | _ \<Rightarrow> Inl TypeErr))))))))"

section \<open>Releasing and adding metadata\<close>

definition yv_string :: "yv \<Rightarrow> string res" where
  \<comment> \<open>a value passed to \<open>re.search\<close>\<close>
  "yv_string v = (case v of YStr s \<Rightarrow> Inr s | _ \<Rightarrow> Inl TypeErr)"

definition whitelist_ok :: "'w tagger \<Rightarrow> app \<Rightarrow> string \<Rightarrow> bool res" where
  "whitelist_ok tg app tag_name =
     (case ap_whitelist app of
        None \<Rightarrow> Inr True
      | Some policy \<Rightarrow>
          bind_res (tg_branches_containing tg (tg_changeset tg tag_name)) (\<lambda>bs.
            Inr (set bs \<inter> set policy \<noteq> {})))"

definition release_ver_info :: "app \<Rightarrow> yv \<Rightarrow> yv \<Rightarrow> (string \<times> yv) res" where
  \<comment> \<open>the base version, and the info of the release tag\<close>
  "release_ver_info app cur ver_info =
     bind_res (ypath ver_info [''stamping'', ''app'', ''_version'']) (\<lambda>v.
     bind_res (yv_string v) (\<lambda>verstr.
     bind_res (get_base_vmn_version verstr (ap_hide app)) (\<lambda>base_verstr.
     bind_res (yget cur ''vmn_info'') (\<lambda>vmn_info.
     bind_res (get_utemplate_formatted_version base_verstr (ap_template app) (ap_hide app)) (\<lambda>shown.
     bind_res (yputs ver_info
        [([''vmn_info''], vmn_info),
         ([''stamping'', ''app'', ''_version''], YStr base_verstr),
         ([''stamping'', ''app'', ''version''], YStr shown),
         ([''stamping'', ''app'', ''prerelease''], YStr ''release''),
         ([''stamping'', ''app'', ''release_mode''], YStr ''release'')]) (\<lambda>info.
       Inr (base_verstr, info)))))))"

definition release_app_version ::
    "'w tagger \<Rightarrow> app \<Rightarrow> yv \<Rightarrow> string \<Rightarrow> yv option \<Rightarrow> ('w, string) act" where
  "release_app_version tg app cur tag_name ver_info =
     (case ver_info of
        None \<Rightarrow> raise_act RuntimeErr
      | Some vi \<Rightarrow>
          bind_act (of_res (whitelist_ok tg app tag_name)) (\<lambda>ok.
          if \<not> ok then raise_act RuntimeErr
          else bind_act (of_res (release_ver_info app cur vi)) (\<lambda>(base_verstr, info).
               then_act (tg_tag tg (get_tag_name (ap_stamper app) base_verstr) info (tg_changeset tg tag_name))
                 (ret base_verstr))))"

record add_params =
  bm_buildmetadata :: "string option"
  bm_url :: "string option"
  bm_path :: "string option"

definition metadata_ver_info :: "'w tagger \<Rightarrow> app \<Rightarrow> add_params \<Rightarrow> yv \<Rightarrow> yv option \<Rightarrow> string \<Rightarrow> yv res" where
  "metadata_ver_info tg app params cur ver_info res_ver =
     (case ver_info of None \<Rightarrow> Inl TypeErr | Some vi \<Rightarrow>
      bind_res (yget cur ''vmn_info'') (\<lambda>vmn_info.
      bind_res (get_utemplate_formatted_version res_ver (ap_template app) (ap_hide app)) (\<lambda>shown.
      bind_res (case bm_path params of None \<Rightarrow> Inr [] | Some p \<Rightarrow>
          bind_res (tg_load_yaml tg p) (\<lambda>d. Inr [([''stamping'', ''app'', ''version_metadata''], d)])) (\<lambda>meta.
        yputs vi
          ([([''vmn_info''], vmn_info),
            ([''stamping'', ''app'', ''_version''], YStr res_ver),
            ([''stamping'', ''app'', ''version''], YStr shown),
            ([''stamping'', ''app'', ''prerelease''], YStr ''metadata'')]
           @ (case bm_url params of None \<Rightarrow> []
              | Some u \<Rightarrow> [([''stamping'', ''app'', ''version_metadata_url''], YStr u)])
           @ meta)))))"

definition tag_verstr :: "tag_props \<Rightarrow> string res" where
  "tag_verstr props = (case tp_verstr props of None \<Rightarrow> Inl TypeErr | Some v \<Rightarrow> Inr v)"

definition add_metadata_to_version ::
    "backend \<Rightarrow> 'w tagger \<Rightarrow> app \<Rightarrow> add_params \<Rightarrow> yv \<Rightarrow> string \<Rightarrow> yv option \<Rightarrow> ('w, string) act" where
  "add_metadata_to_version be tg app params cur tag_name ver_info =
     bind_act (of_res (bind_res (deserialize_tag_name tag_name) (\<lambda>props.
        bind_res (tag_verstr props) (\<lambda>v.
          serialize_vmn_version v None None (bm_buildmetadata params) (ap_hide app) None None)))) (\<lambda>res_ver.
     let meta_tag = get_tag_name (ap_stamper app) res_ver
     in if re_search VMN_TAG_REGEX meta_tag = None then raise_act RuntimeErr
        else bind_act (of_res (metadata_ver_info tg app params cur ver_info res_ver)) (\<lambda>info.
          bind_act (of_res (tag_info be meta_tag)) (\<lambda>(meta_tag, tag_ver_infos).
          case map_of tag_ver_infos meta_tag of
            Some c \<Rightarrow>
              if (case vi_ver_info c of None \<Rightarrow> True | Some old \<Rightarrow> \<not> yeq old info)
              then raise_act RuntimeErr else ret res_ver
          | None \<Rightarrow>
              then_act (tg_tag tg meta_tag info (tg_changeset tg tag_name)) (ret res_ver))))"

section \<open>Stamping\<close>

definition update_stamping_info ::
    "app \<Rightarrow> yv \<Rightarrow> yv \<Rightarrow> string \<Rightarrow> string \<Rightarrow> yv \<Rightarrow> counts \<Rightarrow> yv res" where
  "update_stamping_info app cur info initial_version current_version release_mode prerelease_count =
     bind_res (deserialize_vmn_version current_version) (\<lambda>props.
       yputs cur
         [([''stamping'', ''app'', ''_version''], YStr current_version),
          ([''stamping'', ''app'', ''prerelease''], YStr (vp_prerelease props)),
          ([''stamping'', ''app'', ''previous_version''], YStr initial_version),
          ([''stamping'', ''app'', ''release_mode''], release_mode),
          ([''stamping'', ''app'', ''info''], info),
          ([''stamping'', ''app'', ''stamped_on_branch''], ap_active_branch app),
          ([''stamping'', ''app'', ''stamped_on_remote_branch''], ap_remote_active_branch app),
          ([''stamping'', ''app'', ''prerelease_count''], YMap prerelease_count)])"

definition already_released :: "backend \<Rightarrow> app \<Rightarrow> string \<Rightarrow> bool res" where
  "already_released be app from_verstr =
     bind_res (release_tag_info be (ap_stamper app) from_verstr) (\<lambda>(tag, ver_infos).
       case map_of ver_infos tag of
         None \<Rightarrow> Inr False
       | Some c \<Rightarrow> bind_res (vi_get ver_infos tag [''stamping'', ''app'', ''_version'']) (\<lambda>_. Inr True))"

definition stamp_app_version :: "backend \<Rightarrow> app \<Rightarrow> yv \<Rightarrow> string \<Rightarrow> (string \<times> yv) res" where
  \<comment> \<open>the new version, and the current version info with it\<close>
  "stamp_app_version be app cur from_verstr =
     bind_res (deserialize_vmn_version from_verstr) (\<lambda>props.
     let mode = st_release_mode (ap_stamper app)
     in if vp_prerelease props = ''release'' \<and> mode = None then Inl RuntimeErr
        else bind_res (if vp_prerelease props \<noteq> ''release'' \<and> mode = None
                       then already_released be app from_verstr else Inr False) (\<lambda>released.
          if released then Inl RuntimeErr
          else bind_res (advance_version be (ap_stamper app) from_verstr mode True) (\<lambda>(current_version, counts).
               let info = YMap (if ap_extra_info app then [(''env'', ap_environ app)] else [])
               in bind_res (deserialize_vmn_version current_version) (\<lambda>cur_props.
                  let mode = (if vp_prerelease cur_props \<noteq> ''release'' then YStr ''prerelease''
                              else (case mode of None \<Rightarrow> YNull | Some m \<Rightarrow> YStr m))
                  in if (case ap_whitelist app of None \<Rightarrow> False
                         | Some policy \<Rightarrow> \<not> yeq mode (YStr ''prerelease'')
                             \<and> \<not> list_ex (\<lambda>b. yeq (ap_active_branch app) (YStr b)) policy)
                     then Inl RuntimeErr
                     else bind_res (update_stamping_info app cur info from_verstr current_version mode counts)
                            (\<lambda>cur'. Inr (current_version, cur'))))))"

definition stamp_root_app_version :: "backend \<Rightarrow> app \<Rightarrow> yv \<Rightarrow> yv option \<Rightarrow> (string option \<times> yv) res" where
  \<comment> \<open>the version \<open>_next_root_state\<close> records for this application is its current one\<close>
  "stamp_root_app_version be app cur override_version =
     (case ap_root_app_name app of
        None \<Rightarrow> Inr (None, cur)
      | Some root \<Rightarrow>
          bind_res (ypath cur [''stamping'', ''app'', ''_version'']) (\<lambda>own.
          bind_res (next_root_state be (ap_stamper app) root ''current'' False override_version own) (\<lambda>(v, services).
          bind_res (yputs cur [([''stamping'', ''root_app'', ''version''], YInt v),
                               ([''stamping'', ''root_app'', ''services''], services)]) (\<lambda>cur'.
            Inr (Some (int_str v), cur')))))"

end
