(* ===== verification/Repo_Status.thy ===== *)
theory Repo_Status
imports Stamping
begin

text \<open>
  The state of the repository a command demands before it acts, from stamping/repo_status.py and
  stamping/dep_pins.py. What git reports of the repository and of each dependency is the record
  the stamper queried. The messages are only logged and are not modelled; neither is the order in
  which Python walks the set of dependencies, which only orders these messages.
\<close>

section \<open>Pins of dependencies\<close>

record dep_repo =
  dr_pending :: bool                    \<comment> \<open>\<open>check_for_pending_changes\<close> reports something\<close>
  dr_outgoing :: bool                   \<comment> \<open>\<open>check_for_outgoing_changes\<close> reports something\<close>
  dr_detached :: bool
  dr_active_branch :: "string option res"
  dr_remote_active_branch :: "string option"
  dr_changeset :: "string option \<Rightarrow> string option res"

definition after_first_slash :: "string \<Rightarrow> string" where
  \<comment> \<open>\<open>s.split('/', 1)[-1]\<close>\<close>
  "after_first_slash s = (case partition_char CHR ''/'' s of (_, found, t) \<Rightarrow> if found then t else s)"

definition on_configured_branch :: "dep_repo \<Rightarrow> string option \<Rightarrow> string \<Rightarrow> bool" where
  "on_configured_branch d branch_name configured_branch =
     (branch_name = Some configured_branch
      \<or> (after_first_slash (case dr_remote_active_branch d of None \<Rightarrow> [] | Some b \<Rightarrow> b) = configured_branch
         \<and> \<not> dr_outgoing d))"

definition branch_pin_ok :: "dep_repo \<Rightarrow> string \<Rightarrow> bool res" where
  "branch_pin_ok d branch =
     bind_res (dr_active_branch d) (\<lambda>b. Inr (on_configured_branch d b branch))"

definition tag_pin_ok :: "dep_repo \<Rightarrow> string \<Rightarrow> bool res" where
  "tag_pin_ok d tag =
     bind_res (dr_changeset d (Some tag)) (\<lambda>a. bind_res (dr_changeset d None) (\<lambda>b. Inr (a = b)))"

definition hash_pin_ok :: "dep_repo \<Rightarrow> string \<Rightarrow> bool res" where
  "hash_pin_ok d changeset = bind_res (dr_changeset d None) (\<lambda>b. Inr (Some changeset = b))"

definition dep_pin_ok :: "string \<Rightarrow> dep_repo \<Rightarrow> string \<Rightarrow> bool" where
  \<comment> \<open>a check that raises counts as off the pin\<close>
  "dep_pin_ok pin d value =
     ((if pin = ''branch'' then branch_pin_ok d value
       else if pin = ''tag'' then tag_pin_ok d value
       else hash_pin_ok d value) = Inr True)"

definition DEP_PIN_CHECKS :: "string list" where
  "DEP_PIN_CHECKS = [''branch'', ''tag'', ''hash'']"

section \<open>The status\<close>

record dep_status =
  ds_pending :: bool
  ds_detached :: bool
  ds_outgoing :: bool
  ds_state :: "string set"
  ds_unsynced :: "string list"          \<comment> \<open>the pins with a \<open>..._synced_error\<close> entry\<close>

record repo_status =
  rs_pending :: bool
  rs_detached :: bool
  rs_outgoing :: bool
  rs_state :: "string set"
  rs_error :: bool
  rs_repos_exist_locally :: bool
  rs_deps_synced_with_conf :: bool
  rs_repo_tracked :: bool
  rs_app_tracked :: bool
  rs_version_not_matched :: bool
  rs_dirty_deps :: bool
  rs_repos :: "(string \<times> dep_status) list"
  rs_matched_version_info :: "yv option"
  rs_local_repos_diff :: "string list"

type_synonym dep_conf = "(string \<times> string) list"

record repo_view =
  rp_tracked :: bool
  rp_repo_initialized :: bool
  rp_pending :: bool
  rp_outgoing_kind :: string            \<comment> \<open>\<open>''detached''\<close>, \<open>''outgoing''\<close> or neither\<close>
  rp_named :: bool                      \<comment> \<open>the current version info has a name\<close>
  rp_matched :: "yv option res"         \<comment> \<open>\<open>find_matching_version(verstr_from_file)\<close>\<close>
  rp_configured_deps :: "(string \<times> dep_conf) list"
  rp_local_repos :: "string list"
  rp_dep :: "string \<Rightarrow> dep_repo res"     \<comment> \<open>\<open>dep_backend\<close>\<close>

definition initial_status :: repo_status where
  "initial_status =
     \<lparr>rs_pending = False, rs_detached = False, rs_outgoing = False,
      rs_state = {''repos_exist_locally'', ''deps_synced_with_conf'', ''repo_tracked'', ''app_tracked''},
      rs_error = False, rs_repos_exist_locally = True, rs_deps_synced_with_conf = True,
      rs_repo_tracked = True, rs_app_tracked = True, rs_version_not_matched = False,
      rs_dirty_deps = False, rs_repos = [], rs_matched_version_info = None, rs_local_repos_diff = []\<rparr>"

definition tracked_status :: "repo_view \<Rightarrow> repo_status \<Rightarrow> repo_status" where
  "tracked_status v st =
     (if rp_tracked v then st
      else let st = st\<lparr>rs_app_tracked := False, rs_state := rs_state st - {''app_tracked''}\<rparr>
           in if rp_repo_initialized v then st
              else st\<lparr>rs_repo_tracked := False, rs_state := rs_state st - {''repo_tracked''}\<rparr>)"

definition changes_status :: "repo_view \<Rightarrow> repo_status \<Rightarrow> repo_status" where
  "changes_status v st =
     (let st = (if rp_pending v then st\<lparr>rs_pending := True, rs_state := insert ''pending'' (rs_state st)\<rparr> else st)
      in if rp_outgoing_kind v = ''detached''
         then st\<lparr>rs_detached := True, rs_state := insert ''detached'' (rs_state st)\<rparr>
         else if rp_outgoing_kind v = ''outgoing''
         then st\<lparr>rs_outgoing := True, rs_state := insert ''outgoing'' (rs_state st)\<rparr>
         else st)"

definition mark_unsynced :: "string \<Rightarrow> repo_status \<times> dep_status \<Rightarrow> repo_status \<times> dep_status" where
  "mark_unsynced pin sd =
     (case sd of (st, ds) \<Rightarrow>
        (st\<lparr>rs_deps_synced_with_conf := False, rs_state := rs_state st - {''deps_synced_with_conf''}\<rparr>,
         ds\<lparr>ds_unsynced := ds_unsynced ds @ [pin], ds_state := insert ''not_synced_with_conf'' (ds_state ds)\<rparr>))"

definition check_pins :: "dep_repo \<Rightarrow> dep_conf \<Rightarrow> repo_status \<times> dep_status \<Rightarrow> repo_status \<times> dep_status" where
  "check_pins d conf sd =
     fold (\<lambda>pin sd. case map_of conf pin of
              None \<Rightarrow> sd
            | Some value \<Rightarrow> if dep_pin_ok pin d value then sd else mark_unsynced pin sd)
       DEP_PIN_CHECKS sd"

definition mark_dirty :: "repo_status \<Rightarrow> repo_status" where
  "mark_dirty st = st\<lparr>rs_dirty_deps := True, rs_state := insert ''dirty_deps'' (rs_state st)\<rparr>"

definition check_dep_pending :: "dep_repo \<Rightarrow> repo_status \<times> dep_status \<Rightarrow> repo_status \<times> dep_status" where
  "check_dep_pending d sd =
     (if dr_pending d
      then (mark_dirty (fst sd), (snd sd)\<lparr>ds_pending := True, ds_state := insert ''pending'' (ds_state (snd sd))\<rparr>)
      else sd)"

definition check_dep_outgoing :: "string set \<Rightarrow> dep_repo \<Rightarrow> repo_status \<times> dep_status \<Rightarrow> repo_status \<times> dep_status" where
  "check_dep_outgoing optional_status d sd =
     (case sd of (st, ds) \<Rightarrow>
        if dr_detached d then (st, ds\<lparr>ds_detached := True, ds_state := insert ''detached'' (ds_state ds)\<rparr>)
        else if dr_outgoing d
        then (if ''outgoing'' \<in> optional_status then st else mark_dirty st,
              ds\<lparr>ds_outgoing := True, ds_state := insert ''outgoing'' (ds_state ds)\<rparr>)
        else (st, ds))"

definition dep_check :: "string set \<Rightarrow> string \<Rightarrow> dep_repo \<Rightarrow> dep_conf \<Rightarrow> repo_status \<Rightarrow> repo_status" where
  "dep_check optional_status repo d conf st =
     (let ds = \<lparr>ds_pending = False, ds_detached = False, ds_outgoing = False, ds_state = {}, ds_unsynced = []\<rparr>;
          (st, ds) = check_dep_outgoing optional_status d (check_pins d conf (check_dep_pending d (st, ds)))
      in st\<lparr>rs_repos := rs_repos st @ [(repo, ds)]\<rparr>)"

fun check_deps :: "repo_view \<Rightarrow> string set \<Rightarrow> (string \<times> dep_conf) list \<Rightarrow> repo_status \<Rightarrow> repo_status res" where
  "check_deps v optional_status [] st = Inr st"
| "check_deps v optional_status ((repo, conf) # deps) st =
     (if repo \<notin> set (rp_local_repos v) \<or> repo = ''.'' then check_deps v optional_status deps st
      else bind_res (rp_dep v repo) (\<lambda>d.
             check_deps v optional_status deps (dep_check optional_status repo d conf st)))"

definition matched_status :: "yv option \<Rightarrow> repo_status \<Rightarrow> repo_status" where
  "matched_status matched st =
     (case matched of
        None \<Rightarrow> st\<lparr>rs_version_not_matched := True, rs_state := insert ''version_not_matched'' (rs_state st)\<rparr>
      | Some m \<Rightarrow> st\<lparr>rs_matched_version_info := Some m\<rparr>)"

definition missing_deps :: "repo_view \<Rightarrow> string list" where
  "missing_deps v = filter (\<lambda>r. r \<notin> set (rp_local_repos v)) (map fst (rp_configured_deps v))"

definition missing_status :: "string list \<Rightarrow> repo_status \<Rightarrow> repo_status" where
  "missing_status missing st =
     (if missing \<noteq> []
      then st\<lparr>rs_repos_exist_locally := False, rs_local_repos_diff := missing,
              rs_state := rs_state st - {''repos_exist_locally''}\<rparr>
      else st)"

definition deps_status :: "repo_view \<Rightarrow> string set \<Rightarrow> repo_status \<Rightarrow> repo_status res" where
  "deps_status v optional_status st =
     (if \<not> rp_named v then Inr st
      else bind_res (rp_matched v) (\<lambda>matched.
        check_deps v optional_status (rp_configured_deps v)
          (missing_status (missing_deps v) (matched_status matched st))))"

definition get_repo_status :: "repo_view \<Rightarrow> string set \<Rightarrow> string set \<Rightarrow> repo_status res" where
  "get_repo_status v expected_status optional_status =
     bind_res (deps_status v optional_status (changes_status v (tracked_status v initial_status))) (\<lambda>st.
       if \<not> expected_status \<subseteq> rs_state st then Inr (st\<lparr>rs_error := True\<rparr>)
       else if \<not> rs_state st - expected_status \<subseteq> optional_status then Inr (st\<lparr>rs_error := True\<rparr>)
       else Inr st)"

definition status_or_fail :: "repo_view \<Rightarrow> string set \<Rightarrow> string set \<Rightarrow> repo_status option res" where
  "status_or_fail v expected_status optional_status =
     bind_res (get_repo_status v expected_status optional_status) (\<lambda>st.
       Inr (if rs_error st then None else Some st))"

definition get_dirty_states :: "string set \<Rightarrow> repo_status \<Rightarrow> string set" where
  "get_dirty_states optional_status st =
     (rs_state st \<inter> optional_status) - {''detached'', ''repos_exist_locally'', ''deps_synced_with_conf''}"

section \<open>What the status says\<close>

text \<open>
  The part of the status the dependencies decide: each dependency can only make it worse.
\<close>

definition dep_clean :: "string set \<Rightarrow> dep_repo \<Rightarrow> bool" where
  "dep_clean optional_status d \<longleftrightarrow>
     \<not> dr_pending d \<and> (dr_detached d \<or> \<not> dr_outgoing d \<or> ''outgoing'' \<in> optional_status)"

definition pins_ok :: "dep_repo \<Rightarrow> dep_conf \<Rightarrow> bool" where
  "pins_ok d conf \<longleftrightarrow> (\<forall>pin \<in> set DEP_PIN_CHECKS. \<forall>value. map_of conf pin = Some value \<longrightarrow> dep_pin_ok pin d value)"

lemma check_pins_state:
  "rs_state (fst (check_pins d conf (st, ds))) = rs_state st - (if pins_ok d conf then {} else {''deps_synced_with_conf''})"
proof -
  have step: "rs_state (fst (case map_of conf pin of None \<Rightarrow> sd
        | Some value \<Rightarrow> if dep_pin_ok pin d value then sd else mark_unsynced pin sd))
      = rs_state (fst sd) - (if \<forall>value. map_of conf pin = Some value \<longrightarrow> dep_pin_ok pin d value then {}
          else {''deps_synced_with_conf''})" for pin sd
    by (cases sd) (simp add: mark_unsynced_def split: option.split)
  show ?thesis
    unfolding check_pins_def DEP_PIN_CHECKS_def pins_ok_def by (simp add: step del: option.case) blast
qed

definition checked_deps :: "repo_view \<Rightarrow> (string \<times> dep_conf) list \<Rightarrow> (dep_repo \<times> dep_conf) set" where
  \<comment> \<open>the dependencies that are cloned, this repository left out\<close>
  "checked_deps v deps =
     {(d, conf). \<exists>repo. (repo, conf) \<in> set deps \<and> repo \<in> set (rp_local_repos v) \<and> repo \<noteq> ''.'' \<and> rp_dep v repo = Inr d}"

definition dep_faults :: "string set \<Rightarrow> (dep_repo \<times> dep_conf) set \<Rightarrow> string set \<Rightarrow> string set" where
  "dep_faults optional_status deps state =
     (state - (if \<forall>(d, conf) \<in> deps. pins_ok d conf then {} else {''deps_synced_with_conf''}))
     \<union> (if \<forall>(d, conf) \<in> deps. dep_clean optional_status d then {} else {''dirty_deps''})"

lemma dep_check_state:
  "rs_state (dep_check optional_status repo d conf st) = dep_faults optional_status {(d, conf)} (rs_state st)"
proof -
  have pend: "rs_state (fst (check_dep_pending d sd)) = rs_state (fst sd) \<union> (if dr_pending d then {''dirty_deps''} else {})" for sd
    by (simp add: check_dep_pending_def mark_dirty_def)
  have pins: "rs_state (fst (check_pins d conf sd))
      = rs_state (fst sd) - (if pins_ok d conf then {} else {''deps_synced_with_conf''})" for sd
    using check_pins_state [of d conf "fst sd" "snd sd"] by simp
  have out: "rs_state (fst (check_dep_outgoing optional_status d sd)) = rs_state (fst sd)
      \<union> (if dr_detached d \<or> \<not> dr_outgoing d \<or> ''outgoing'' \<in> optional_status then {} else {''dirty_deps''})" for sd
    by (cases sd) (simp add: check_dep_outgoing_def mark_dirty_def)
  have "rs_state (dep_check optional_status repo d conf st)
      = (rs_state st \<union> (if dr_pending d then {''dirty_deps''} else {})
          - (if pins_ok d conf then {} else {''deps_synced_with_conf''}))
        \<union> (if dr_detached d \<or> \<not> dr_outgoing d \<or> ''outgoing'' \<in> optional_status then {} else {''dirty_deps''})"
    by (simp add: dep_check_def Let_def split_def out pins pend)
  also have "\<dots> = dep_faults optional_status {(d, conf)} (rs_state st)"
    by (auto simp: dep_faults_def dep_clean_def)
  finally show ?thesis .
qed

lemma faults_compose:
  "x \<noteq> y \<Longrightarrow> ((s - (if P then {} else {x}) \<union> (if Q then {} else {y})) - (if R then {} else {x})) \<union> (if T then {} else {y})
     = (s - (if P \<and> R then {} else {x})) \<union> (if Q \<and> T then {} else {y})"
  by auto

lemma dep_faults_union: "dep_faults opt b (dep_faults opt a s) = dep_faults opt (a \<union> b) s"
proof -
  have "''deps_synced_with_conf'' \<noteq> ''dirty_deps''" by simp
  from faults_compose [OF this] show ?thesis unfolding dep_faults_def ball_Un .
qed

lemma check_deps_state:
  "check_deps v opt deps st = Inr st' \<Longrightarrow> rs_state st' = dep_faults opt (checked_deps v deps) (rs_state st)
    \<and> (\<forall>(repo, conf) \<in> set deps. repo \<in> set (rp_local_repos v) \<longrightarrow> repo \<noteq> ''.'' \<longrightarrow> (\<exists>d. rp_dep v repo = Inr d))"
proof (induction v opt deps st rule: check_deps.induct)
  case (1 v opt st)
  then show ?case by (simp add: dep_faults_def checked_deps_def)
next
  case (2 v opt repo conf deps st)
  show ?case
  proof (cases "repo \<notin> set (rp_local_repos v) \<or> repo = ''.''")
    case True
    then have "checked_deps v ((repo, conf) # deps) = checked_deps v deps" by (auto simp: checked_deps_def)
    then show ?thesis using 2 True by auto
  next
    case False
    then obtain d where d: "rp_dep v repo = Inr d"
      and r: "check_deps v opt deps (dep_check opt repo d conf st) = Inr st'"
      using 2(3) by auto
    have "checked_deps v ((repo, conf) # deps) = {(d, conf)} \<union> checked_deps v deps"
      using d False by (auto simp: checked_deps_def)
    moreover have "rs_state st' = dep_faults opt (checked_deps v deps) (dep_faults opt {(d, conf)} (rs_state st))"
      using 2(2) [OF _ r] False by (simp add: dep_check_state)
    ultimately show ?thesis using 2(2) [OF _ r] False d by (auto simp: dep_faults_union)
  qed
qed

definition deps_present :: "repo_view \<Rightarrow> bool" where
  "deps_present v \<longleftrightarrow> (\<forall>(repo, conf) \<in> set (rp_configured_deps v). repo \<in> set (rp_local_repos v))"

lemma deps_status_state:
  assumes "deps_status v opt st = Inr st'" "rp_named v"
  shows "\<exists>matched. rp_matched v = Inr matched
    \<and> rs_state st' = dep_faults opt (checked_deps v (rp_configured_deps v))
        ((rs_state st \<union> (if matched = None then {''version_not_matched''} else {}))
         - (if deps_present v then {} else {''repos_exist_locally''}))
    \<and> (\<forall>(repo, conf) \<in> set (rp_configured_deps v). repo \<in> set (rp_local_repos v) \<longrightarrow> repo \<noteq> ''.'' \<longrightarrow> (\<exists>d. rp_dep v repo = Inr d))"
proof -
  have miss: "missing_deps v = [] \<longleftrightarrow> deps_present v"
    by (auto simp: missing_deps_def deps_present_def filter_empty_conv)
  obtain matched where m: "rp_matched v = Inr matched"
    using assms by (cases "rp_matched v") (simp_all add: deps_status_def)
  let ?st = "missing_status (missing_deps v) (matched_status matched st)"
  have "check_deps v opt (rp_configured_deps v) ?st = Inr st'"
    using assms m by (simp add: deps_status_def)
  note c = check_deps_state [OF this]
  have "rs_state (matched_status matched st) = rs_state st \<union> (if matched = None then {''version_not_matched''} else {})"
    by (cases matched) (simp_all add: matched_status_def)
  then have "rs_state ?st = rs_state st \<union> (if matched = None then {''version_not_matched''} else {})
      - (if deps_present v then {} else {''repos_exist_locally''})"
    by (simp add: missing_status_def miss)
  then show ?thesis using m c by (intro exI [of _ matched]) simp
qed

definition STAMP_EXPECTED :: "string set" where
  "STAMP_EXPECTED = {''repos_exist_locally'', ''repo_tracked'', ''app_tracked'', ''deps_synced_with_conf''}"

definition STAMP_OPTIONAL :: "string set" where
  "STAMP_OPTIONAL = {''version_not_matched'', ''detached''}"

definition dep_ready :: "repo_view \<Rightarrow> string \<Rightarrow> dep_conf \<Rightarrow> bool" where
  \<comment> \<open>cloned, without changes of its own, and on what the conf pins\<close>
  "dep_ready v repo conf \<longleftrightarrow>
     repo \<in> set (rp_local_repos v)
     \<and> (repo = ''.'' \<or> (\<exists>d. rp_dep v repo = Inr d \<and> \<not> dr_pending d \<and> (dr_detached d \<or> \<not> dr_outgoing d) \<and> pins_ok d conf))"

lemma first_state:
  "rs_state (changes_status v (tracked_status v initial_status)) =
     {''repos_exist_locally'', ''deps_synced_with_conf''}
     \<union> (if rp_tracked v then {''app_tracked''} else {})
     \<union> (if rp_tracked v \<or> rp_repo_initialized v then {''repo_tracked''} else {})
     \<union> (if rp_pending v then {''pending''} else {})
     \<union> (if rp_outgoing_kind v = ''detached'' then {''detached''}
        else if rp_outgoing_kind v = ''outgoing'' then {''outgoing''} else {})"
proof -
  have "rs_state (changes_status v st) = rs_state st \<union> (if rp_pending v then {''pending''} else {})
     \<union> (if rp_outgoing_kind v = ''detached'' then {''detached''}
        else if rp_outgoing_kind v = ''outgoing'' then {''outgoing''} else {})" for st
    by (simp add: changes_status_def Let_def)
  moreover have "rs_state (tracked_status v initial_status) =
     {''repos_exist_locally'', ''deps_synced_with_conf''}
     \<union> (if rp_tracked v then {''app_tracked''} else {})
     \<union> (if rp_tracked v \<or> rp_repo_initialized v then {''repo_tracked''} else {})"
    by (simp add: tracked_status_def initial_status_def Let_def insert_commute)
  ultimately show ?thesis by simp
qed

lemma set_cases_ready:
  "(\<forall>(repo, conf) \<in> set (rp_configured_deps v). dep_ready v repo conf) \<longleftrightarrow>
     deps_present v \<and> (\<forall>(d, conf) \<in> C. pins_ok d conf) \<and> (\<forall>(d, conf) \<in> C. dep_clean STAMP_OPTIONAL d)"
  if "C = checked_deps v (rp_configured_deps v)"
    "\<forall>(repo, conf) \<in> set (rp_configured_deps v). repo \<in> set (rp_local_repos v) \<longrightarrow> repo \<noteq> ''.'' \<longrightarrow> (\<exists>d. rp_dep v repo = Inr d)"
proof -
  have "''outgoing'' \<notin> STAMP_OPTIONAL" by (simp add: STAMP_OPTIONAL_def)
  then have clean: "dep_clean STAMP_OPTIONAL d \<longleftrightarrow> \<not> dr_pending d \<and> (dr_detached d \<or> \<not> dr_outgoing d)" for d
    by (simp add: dep_clean_def)
  show ?thesis
  proof (intro iffI conjI)
    assume all: "\<forall>(repo, conf) \<in> set (rp_configured_deps v). dep_ready v repo conf"
    then show "deps_present v" by (auto simp: deps_present_def dep_ready_def)
    show "\<forall>(d, conf) \<in> C. pins_ok d conf" "\<forall>(d, conf) \<in> C. dep_clean STAMP_OPTIONAL d"
      using all unfolding that(1) checked_deps_def dep_ready_def clean by fastforce+
  next
    assume "deps_present v \<and> (\<forall>(d, conf) \<in> C. pins_ok d conf) \<and> (\<forall>(d, conf) \<in> C. dep_clean STAMP_OPTIONAL d)"
    then show "\<forall>(repo, conf) \<in> set (rp_configured_deps v). dep_ready v repo conf"
      using that unfolding deps_present_def dep_ready_def checked_deps_def clean by fastforce
  qed
qed

lemma dep_check_error: "rs_error (dep_check opt repo d conf st) = rs_error st"
proof -
  have "rs_error (fst (check_dep_pending d sd)) = rs_error (fst sd)" for sd
    by (simp add: check_dep_pending_def mark_dirty_def)
  moreover have "rs_error (fst (check_pins d conf sd)) = rs_error (fst sd)" for sd
    by (cases sd) (simp add: check_pins_def DEP_PIN_CHECKS_def mark_unsynced_def split_def split: option.split)
  moreover have "rs_error (fst (check_dep_outgoing opt d sd)) = rs_error (fst sd)" for sd
    by (cases sd) (simp add: check_dep_outgoing_def mark_dirty_def)
  ultimately show ?thesis by (simp add: dep_check_def Let_def split_def)
qed

lemma check_deps_error: "check_deps v opt deps st = Inr st' \<Longrightarrow> rs_error st' = rs_error st"
  by (induction v opt deps st rule: check_deps.induct) (auto simp: dep_check_error split: if_splits)

lemma deps_status_error:
  assumes "deps_status v opt (changes_status v (tracked_status v initial_status)) = Inr st"
  shows "\<not> rs_error st"
proof -
  have "rs_error (changes_status v (tracked_status v initial_status)) = False"
    by (simp add: changes_status_def tracked_status_def initial_status_def Let_def)
  moreover have "rs_error (missing_status m (matched_status x s)) = rs_error s" for m x s
    by (simp add: missing_status_def matched_status_def split: option.split)
  ultimately show ?thesis using assms by (auto simp: deps_status_def dest!: check_deps_error split: if_splits)
qed

lemma final_state:
  assumes "deps_status v opt (changes_status v (tracked_status v initial_status)) = Inr st" "rp_named v"
    and C: "C = checked_deps v (rp_configured_deps v)"
  shows "''app_tracked'' \<in> rs_state st \<longleftrightarrow> rp_tracked v"
    and "''repo_tracked'' \<in> rs_state st \<longleftrightarrow> rp_tracked v \<or> rp_repo_initialized v"
    and "''repos_exist_locally'' \<in> rs_state st \<longleftrightarrow> deps_present v"
    and "''deps_synced_with_conf'' \<in> rs_state st \<longleftrightarrow> (\<forall>(d, conf) \<in> C. pins_ok d conf)"
    and "''pending'' \<in> rs_state st \<longleftrightarrow> rp_pending v"
    and "''outgoing'' \<in> rs_state st \<longleftrightarrow> rp_outgoing_kind v = ''outgoing''"
    and "''dirty_deps'' \<in> rs_state st \<longleftrightarrow> \<not> (\<forall>(d, conf) \<in> C. dep_clean opt d)"
    and "rs_state st \<subseteq> {''app_tracked'', ''repo_tracked'', ''repos_exist_locally'', ''deps_synced_with_conf'',
      ''pending'', ''outgoing'', ''dirty_deps'', ''detached'', ''version_not_matched''}"
proof -
  obtain matched :: "yv option" where s: "rs_state st = dep_faults opt C
        ((rs_state (changes_status v (tracked_status v initial_status)) \<union> (if matched = None then {''version_not_matched''} else {}))
         - (if deps_present v then {} else {''repos_exist_locally''}))"
    using deps_status_state [OF assms(1,2)] C by blast
  note simps = s dep_faults_def first_state Un_iff Diff_iff insert_iff empty_iff
  show "''app_tracked'' \<in> rs_state st \<longleftrightarrow> rp_tracked v" by (simp add: simps)
  show "''repo_tracked'' \<in> rs_state st \<longleftrightarrow> rp_tracked v \<or> rp_repo_initialized v" by (simp add: simps)
  show "''repos_exist_locally'' \<in> rs_state st \<longleftrightarrow> deps_present v" by (simp add: simps)
  show "''deps_synced_with_conf'' \<in> rs_state st \<longleftrightarrow> (\<forall>(d, conf) \<in> C. pins_ok d conf)" by (simp add: simps)
  show "''pending'' \<in> rs_state st \<longleftrightarrow> rp_pending v" by (simp add: simps)
  show "''outgoing'' \<in> rs_state st \<longleftrightarrow> rp_outgoing_kind v = ''outgoing''" by (simp add: simps)
  show "''dirty_deps'' \<in> rs_state st \<longleftrightarrow> \<not> (\<forall>(d, conf) \<in> C. dep_clean opt d)" by (simp add: simps)
  show "rs_state st \<subseteq> {''app_tracked'', ''repo_tracked'', ''repos_exist_locally'', ''deps_synced_with_conf'',
      ''pending'', ''outgoing'', ''dirty_deps'', ''detached'', ''version_not_matched''}"
    unfolding s dep_faults_def first_state by (intro Un_least subset_trans [OF Diff_subset]) simp_all
qed

text \<open>
  The status accepts a stamp exactly when the application is tracked, nothing is uncommitted
  or unpushed, and every configured dependency is cloned, has no uncommitted changes, is pushed
  unless its HEAD is detached, and is on the branch, tag and hash the conf pins.
\<close>

theorem stamp_status_accepts:
  assumes "get_repo_status v STAMP_EXPECTED STAMP_OPTIONAL = Inr st" "rp_named v"
  shows "\<not> rs_error st \<longleftrightarrow>
    rp_tracked v \<and> \<not> rp_pending v \<and> rp_outgoing_kind v \<noteq> ''outgoing''
    \<and> (\<forall>(repo, conf) \<in> set (rp_configured_deps v). dep_ready v repo conf)"
proof -
  obtain st0 where st0: "deps_status v STAMP_OPTIONAL (changes_status v (tracked_status v initial_status)) = Inr st0"
    and st: "st = (if \<not> STAMP_EXPECTED \<subseteq> rs_state st0 then st0\<lparr>rs_error := True\<rparr>
        else if \<not> rs_state st0 - STAMP_EXPECTED \<subseteq> STAMP_OPTIONAL then st0\<lparr>rs_error := True\<rparr> else st0)"
    using assms(1) unfolding get_repo_status_def
    by (cases "deps_status v STAMP_OPTIONAL (changes_status v (tracked_status v initial_status))") (auto split: if_splits)
  define C where "C = checked_deps v (rp_configured_deps v)"
  note f = final_state [OF st0 assms(2) C_def]
  have deps: "\<forall>(repo, conf) \<in> set (rp_configured_deps v). repo \<in> set (rp_local_repos v) \<longrightarrow> repo \<noteq> ''.'' \<longrightarrow> (\<exists>d. rp_dep v repo = Inr d)"
    using deps_status_state [OF st0 assms(2)] by blast
  have no_err: "\<not> rs_error st0" by (rule deps_status_error [OF st0])
  have exp: "STAMP_EXPECTED \<subseteq> rs_state st0 \<longleftrightarrow> rp_tracked v \<and> deps_present v \<and> (\<forall>(d, conf) \<in> C. pins_ok d conf)"
    unfolding STAMP_EXPECTED_def insert_subset using f(1-4) by auto
  have opt: "rs_state st0 - STAMP_EXPECTED \<subseteq> STAMP_OPTIONAL \<longleftrightarrow>
      \<not> rp_pending v \<and> rp_outgoing_kind v \<noteq> ''outgoing'' \<and> (\<forall>(d, conf) \<in> C. dep_clean STAMP_OPTIONAL d)"
  proof -
    have "rs_state st0 - STAMP_EXPECTED \<subseteq> STAMP_OPTIONAL \<longleftrightarrow>
        ''pending'' \<notin> rs_state st0 \<and> ''outgoing'' \<notin> rs_state st0 \<and> ''dirty_deps'' \<notin> rs_state st0"
    proof
      assume "rs_state st0 - STAMP_EXPECTED \<subseteq> STAMP_OPTIONAL"
      moreover have "x \<notin> STAMP_EXPECTED \<union> STAMP_OPTIONAL" if "x \<in> {''pending'', ''outgoing'', ''dirty_deps''}" for x
        using that by (elim insertE emptyE) (simp_all add: STAMP_EXPECTED_def STAMP_OPTIONAL_def)
      ultimately have "x \<notin> rs_state st0" if "x \<in> {''pending'', ''outgoing'', ''dirty_deps''}" for x
        using that by fast
      then show "''pending'' \<notin> rs_state st0 \<and> ''outgoing'' \<notin> rs_state st0 \<and> ''dirty_deps'' \<notin> rs_state st0"
        by (simp only: insertI1 insertI2 simp_thms)
    next
      assume none: "''pending'' \<notin> rs_state st0 \<and> ''outgoing'' \<notin> rs_state st0 \<and> ''dirty_deps'' \<notin> rs_state st0"
      show "rs_state st0 - STAMP_EXPECTED \<subseteq> STAMP_OPTIONAL"
      proof
        fix x assume x: "x \<in> rs_state st0 - STAMP_EXPECTED"
        then have "x \<in> {''app_tracked'', ''repo_tracked'', ''repos_exist_locally'', ''deps_synced_with_conf'',
            ''pending'', ''outgoing'', ''dirty_deps'', ''detached'', ''version_not_matched''}"
          by (intro subsetD [OF f(8)]) (rule DiffD1)
        then show "x \<in> STAMP_OPTIONAL" using x none
          by (elim insertE emptyE) (simp_all add: STAMP_EXPECTED_def STAMP_OPTIONAL_def)
      qed
    qed
    then show ?thesis using f(5-7) by simp
  qed
  have "\<not> rs_error st \<longleftrightarrow> STAMP_EXPECTED \<subseteq> rs_state st0 \<and> rs_state st0 - STAMP_EXPECTED \<subseteq> STAMP_OPTIONAL"
    using st no_err by simp
  then show ?thesis unfolding exp opt set_cases_ready [OF C_def deps] by blast
qed

lemma check_deps_total: "\<forall>repo. \<exists>d. rp_dep v repo = Inr d \<Longrightarrow> \<exists>st'. check_deps v opt deps st = Inr st'"
proof (induction v opt deps st rule: check_deps.induct)
  case (2 v opt repo conf deps st)
  obtain d where "rp_dep v repo = Inr d" using 2(3) by blast
  then show ?case using 2(1) [OF _ 2(3)] 2(2) [OF _ 2(3)] by simp
qed simp

lemma get_repo_status_total:
  assumes "rp_matched v = Inr m" "\<forall>repo. \<exists>d. rp_dep v repo = Inr d"
  shows "\<exists>st. get_repo_status v e opt = Inr st"
proof -
  obtain st where "deps_status v opt (changes_status v (tracked_status v initial_status)) = Inr st"
  proof (cases "rp_named v")
    case True
    obtain st where "check_deps v opt (rp_configured_deps v) (missing_status (missing_deps v)
        (matched_status m (changes_status v (tracked_status v initial_status)))) = Inr st"
      using check_deps_total [OF assms(2)] by blast
    then show ?thesis using True assms(1) by (intro that) (simp add: deps_status_def)
  qed (simp add: deps_status_def)
  then show ?thesis by (simp add: get_repo_status_def)
qed

definition sample_dep :: dep_repo where
  "sample_dep = \<lparr>dr_pending = False, dr_outgoing = True, dr_detached = True, dr_active_branch = Inr (Some ''main''),
     dr_remote_active_branch = None, dr_changeset = (\<lambda>_. Inr (Some ''c''))\<rparr>"

definition sample_view :: repo_view where
  "sample_view = \<lparr>rp_tracked = True, rp_repo_initialized = True, rp_pending = False, rp_outgoing_kind = ''detached'',
     rp_named = True, rp_matched = Inr None, rp_configured_deps = [(''.'', []), (''../d'', [(''branch'', ''main'')])],
     rp_local_repos = [''.'', ''../d''], rp_dep = (\<lambda>_. Inr sample_dep)\<rparr>"

theorem stamp_status_accepts_witness:
  "\<exists>st. get_repo_status sample_view STAMP_EXPECTED STAMP_OPTIONAL = Inr st \<and> \<not> rs_error st"
proof -
  have dep: "rp_matched sample_view = Inr None" "\<forall>repo. \<exists>d. rp_dep sample_view repo = Inr d"
    by (simp_all add: sample_view_def)
  obtain st where st: "get_repo_status sample_view STAMP_EXPECTED STAMP_OPTIONAL = Inr st"
    using get_repo_status_total [OF dep] by blast
  have "dep_ready sample_view ''../d'' [(''branch'', ''main'')]"
    by (simp add: dep_ready_def sample_view_def sample_dep_def pins_ok_def DEP_PIN_CHECKS_def dep_pin_ok_def
        branch_pin_ok_def on_configured_branch_def)
  then have "\<not> rs_error st"
    using stamp_status_accepts [OF st] by (simp add: sample_view_def dep_ready_def)
  then show ?thesis using st by blast
qed

end
