(* ===== verification/Stamp_Command.thy ===== *)
theory Stamp_Command
imports Changelog Repo_Status
begin

text \<open>
  The command handlers of cli/commands.py that change versions: \<open>vmn stamp\<close>, \<open>vmn release\<close> and
  \<open>vmn add\<close>, with the choice of the release mode and the retry loop around publishing. What the
  stamper loaded from the repository is the record \<open>loaded\<close>, read again after an automatic
  initialisation; the record \<open>vcs\<close> holds what the handlers call, each of which may raise. A handler
  returns its exit code.
\<close>

section \<open>The release mode\<close>

definition normalize_release_mode :: "string option \<Rightarrow> string option" where
  "normalize_release_mode mode = (if mode = Some ''micro'' then Some ''hotfix'' else mode)"

definition normalize_prerelease :: "string option \<Rightarrow> string option" where
  "normalize_prerelease pr =
     (case pr of None \<Rightarrow> None | Some p \<Rightarrow> if p \<noteq> [] \<and> last p = CHR ''.'' then Some (butlast p) else Some p)"

fun commits_mode :: "string option \<Rightarrow> string list \<Rightarrow> string option res" where
  "commits_mode max_release_mode [] = Inr max_release_mode"
| "commits_mode max_release_mode (m # ms) =
     (case parse_conventional_commit_message m of
        Inl e \<Rightarrow> if e = ValueErr then commits_mode max_release_mode ms else Inl e
      | Inr parsed \<Rightarrow>
          (case release_mode_for_commit parsed of
             None \<Rightarrow> commits_mode max_release_mode ms
           | Some mode \<Rightarrow>
               (case max_release_mode of
                  None \<Rightarrow> commits_mode (Some mode) ms
                | Some old \<Rightarrow>
                    bind_res (compare_release_modes mode old) (\<lambda>higher.
                      commits_mode (Some (if higher then mode else old)) ms))))"

record mode_conf =
  mc_conventional_commits :: bool
  mc_policy :: string
  mc_default :: "string option"

type_synonym modes = "string option \<times> string option"  \<comment> \<open>release mode, optional release mode\<close>

definition set_mode :: "mode_conf \<Rightarrow> string option \<Rightarrow> modes \<Rightarrow> modes" where
  "set_mode mc mode ms =
     (if mc_policy mc = ''optional'' then (fst ms, mode) else (mode, snd ms))"

definition resolve_release_modes :: "mode_conf \<Rightarrow> string list res \<Rightarrow> modes \<Rightarrow> modes res" where
  "resolve_release_modes mc commits ms =
     bind_res
       (if mc_conventional_commits mc \<and> ms = (None, None)
        then bind_res commits (\<lambda>cs. bind_res (commits_mode None cs) (\<lambda>mode. Inr (set_mode mc mode ms)))
        else Inr ms) (\<lambda>ms.
     let ms = (if ms = (None, None)
               then (case mc_default mc of
                       Some d \<Rightarrow> if d \<noteq> [] then set_mode mc (Some d) ms else ms
                     | None \<Rightarrow> ms)
               else ms)
     in if fst ms = None \<or> snd ms = None then Inr ms else Inl AssertionErr)"

section \<open>What the handlers work on\<close>

record loaded =
  lo_app :: app
  lo_tracked :: bool
  lo_verstr_from_file :: string
  lo_current :: yv                       \<comment> \<open>\<open>current_version_info\<close>\<close>
  lo_modes :: mode_conf

record 'w vcs =
  vc_load :: "'w \<Rightarrow> loaded"
  vc_backend :: "'w \<Rightarrow> backend"
  vc_commits :: "'w \<Rightarrow> string list res"  \<comment> \<open>the messages of the commits since the selected tag\<close>
  vc_status :: "'w \<Rightarrow> string set \<Rightarrow> string set \<Rightarrow> repo_status res"
  vc_auto_init :: "('w, int \<times> bool) act"
  vc_fetch :: "('w, unit) act"           \<comment> \<open>\<open>perform_cached_fetch\<close>\<close>
  vc_force_fetch :: "('w, unit) act"
  vc_retrieve :: "('w, unit) act"
  vc_publish :: "app \<Rightarrow> yv \<Rightarrow> string \<Rightarrow> string option \<Rightarrow> ('w, int) act"
  vc_tagger :: "'w \<Rightarrow> 'w tagger"

definition with_modes :: "string option \<Rightarrow> string option \<Rightarrow> app \<Rightarrow> app" where
  \<comment> \<open>the prerelease and the release mode the handler sets on the stamper\<close>
  "with_modes pr mode app =
     app\<lparr>ap_stamper := (ap_stamper app)\<lparr>st_prerelease := pr, st_release_mode := mode\<rparr>\<rparr>"

section \<open>The retry loop\<close>

fun stamp_attempts ::
    "nat \<Rightarrow> 'w vcs \<Rightarrow> app \<Rightarrow> bool \<Rightarrow> yv \<Rightarrow> string \<Rightarrow> yv option \<Rightarrow> ('w, string) act" where
  "stamp_attempts 0 vcs app pull cur override_verstr override_root = raise_act RuntimeErr"
| "stamp_attempts (Suc retries) vcs app pull cur override_verstr override_root = (\<lambda>w.
     case stamp_app_version (vc_backend vcs w) app cur override_verstr of
       Inl e \<Rightarrow> (Inl e, w)
     | Inr (current_version, cur) \<Rightarrow>
     (case stamp_root_app_version (vc_backend vcs w) app cur override_root of
       Inl e \<Rightarrow> (Inl e, w)
     | Inr (main_ver, cur) \<Rightarrow>
     (case vc_publish vcs app cur current_version main_ver w of
       (r, w') \<Rightarrow>
         let err = (case r of Inl e \<Rightarrow> -1 | Inr n \<Rightarrow> n)
         in if err = 0 then (Inr current_version, w')
            else if err = 1 then
              (case advance_version (vc_backend vcs w') (ap_stamper app) current_version
                      (st_release_mode (ap_stamper app)) True of
                 Inl e \<Rightarrow> (Inl e, w')
               | Inr _ \<Rightarrow> stamp_attempts retries vcs app pull cur current_version (map_option YStr main_ver) w')
            else if err = 2 \<and> pull then
              stamp_attempts retries vcs app pull cur override_verstr override_root (snd (vc_retrieve vcs w'))
            else (Inl RuntimeErr, w'))))"

definition MAX_RETRIES :: nat where
  "MAX_RETRIES = 3"

definition stamp_version ::
    "'w vcs \<Rightarrow> app \<Rightarrow> bool \<Rightarrow> bool \<Rightarrow> yv \<Rightarrow> string \<Rightarrow> yv option \<Rightarrow> ('w, string) act" where
  \<comment> \<open>\<open>newer\<close>: the version is to be checked and the repository was stamped by a newer vmn\<close>
  "stamp_version vcs app newer pull cur verstr override_root =
     (if newer then raise_act RuntimeErr
      else stamp_attempts MAX_RETRIES vcs app pull cur verstr override_root)"

section \<open>vmn stamp\<close>

record stamp_args =
  sa_pr :: "string option"
  sa_release_mode :: "string option"
  sa_orm :: "string option"
  sa_ov :: "string option"
  sa_orv :: "yv option"
  sa_pull :: bool
  sa_newer :: bool

definition is_root_version :: "string option \<Rightarrow> bool res" where
  "is_root_version verstr =
     (case verstr of None \<Rightarrow> Inr False
      | Some v \<Rightarrow> bind_res (deserialize_vmn_version v) (\<lambda>props. Inr (''root'' \<in> vp_types props)))"

definition determine_initial_version :: "loaded \<Rightarrow> string option \<Rightarrow> string res" where
  "determine_initial_version lo ov =
     (let app = lo_app lo; initial_version = lo_verstr_from_file lo
      in bind_res (get_base_vmn_version initial_version (ap_hide app)) (\<lambda>base_ver.
         let initial_version =
               (if Some (get_tag_name (ap_stamper app) base_ver) = ap_selected_tag app then base_ver else initial_version)
         in Inr (case ov of Some v \<Rightarrow> if v \<noteq> [] then v else initial_version | None \<Rightarrow> initial_version)))"

definition count_before :: "counts \<Rightarrow> string \<Rightarrow> int res" where
  \<comment> \<open>\<open>prerelease_count[p] - 1\<close>\<close>
  "count_before counts p =
     (case map_of counts p of None \<Rightarrow> Inl KeyErr | Some v \<Rightarrow> bind_res (count_int v) (\<lambda>n. Inr (n - 1)))"

definition optional_start :: "backend \<Rightarrow> stamper \<Rightarrow> string \<Rightarrow> string \<Rightarrow> (string option \<times> string) option res" where
  \<comment> \<open>the release mode and the version to start from; no value is exit code 1\<close>
  "optional_start be self orm initial_version =
     bind_res (advance_version be self initial_version (Some orm) False) (\<lambda>(verstr, prerelease_count).
     case get_base_vmn_version verstr (st_hide_zero_hotfix self) of
       Inl e \<Rightarrow> if e = WrongTagFormat then Inr None else Inl e
     | Inr base_verstr \<Rightarrow>
         let tag = be_latest_tag be (get_tag_name self base_verstr @ ''*'')
         in bind_res (release_tag_info be self verstr) (\<lambda>(_, ver_infos).
            if ver_infos \<noteq> [] \<or> tag = None then Inr (Some (Some orm, initial_version))
            else bind_res (deserialize_vmn_version verstr) (\<lambda>props.
                 bind_res (count_before prerelease_count (vp_prerelease props)) (\<lambda>rcn.
                 bind_res (serialize_vmn_version base_verstr (Some (vp_prerelease props)) (Some rcn) None
                             (st_hide_zero_hotfix self) None None) (\<lambda>v.
                   Inr (Some (None, v)))))))"

definition stamp_start :: "backend \<Rightarrow> app \<Rightarrow> string option \<Rightarrow> string \<Rightarrow> (string option \<times> string) option res" where
  \<comment> \<open>the optional release mode only advances a released version\<close>
  "stamp_start be app orm initial_version =
     bind_res (deserialize_vmn_version initial_version) (\<lambda>props.
       case orm of
         Some m \<Rightarrow>
           if m \<noteq> [] \<and> vp_prerelease props = ''release''
           then bind_res (optional_start be (ap_stamper app) m initial_version) (\<lambda>r.
                  Inr (map_option (\<lambda>(mode, v). (if mode = None then st_release_mode (ap_stamper app) else mode, v)) r))
           else Inr (Some (st_release_mode (ap_stamper app), initial_version))
       | None \<Rightarrow> Inr (Some (st_release_mode (ap_stamper app), initial_version)))"

definition inherit_release_mode :: "loaded \<Rightarrow> string option \<Rightarrow> yv res" where
  \<comment> \<open>without a release mode the recorded one is that of the selected tag\<close>
  "inherit_release_mode lo mode =
     (if lo_tracked lo \<and> mode = None
      then (case ap_selected_tag (lo_app lo) of
              None \<Rightarrow> Inl KeyErr
            | Some t \<Rightarrow>
                bind_res (vi_get (ap_ver_infos (lo_app lo)) t [''stamping'', ''app'', ''release_mode'']) (\<lambda>m.
                  yput_path (lo_current lo) [''stamping'', ''app'', ''release_mode''] m))
      else Inr (lo_current lo))"

definition get_be_formatted_version :: "app \<Rightarrow> string \<Rightarrow> string res" where
  "get_be_formatted_version app version = get_utemplate_formatted_version version (ap_template app) (ap_hide app)"

definition checked_status :: "'w vcs \<Rightarrow> ('w, repo_status option) act" where
  \<comment> \<open>the status, after an automatic initialisation when it is an error; no value is exit code 1\<close>
  "checked_status vcs =
     bind_act (\<lambda>w. (vc_status vcs w STAMP_EXPECTED STAMP_OPTIONAL, w)) (\<lambda>st.
       if \<not> rs_error st then ret (Some st)
       else bind_act (vc_auto_init vcs) (\<lambda>(err, initialized).
            if err \<noteq> 0 \<or> \<not> initialized then ret None
            else bind_act (\<lambda>w. (vc_status vcs w STAMP_EXPECTED STAMP_OPTIONAL, w)) (\<lambda>st.
                 ret (if rs_error st then None else Some st))))"

definition stamp_now :: "'w vcs \<Rightarrow> stamp_args \<Rightarrow> modes \<Rightarrow> loaded \<Rightarrow> ('w, int) act" where
  \<comment> \<open>from the fetch to the exit code\<close>
  "stamp_now vcs args ms lo =
     then_act (vc_fetch vcs) (\<lambda>w.
       case (if sa_pull args then then_act (vc_force_fetch vcs) (vc_retrieve vcs) w else (Inr (), w)) of
         (Inl e, w) \<Rightarrow> (Inr 1, w)
       | (Inr _, w) \<Rightarrow>
           bind_act (of_res (determine_initial_version lo (sa_ov args))) (\<lambda>initial_version.
           let app = with_modes (normalize_prerelease (sa_pr args)) (fst ms) (lo_app lo)
           in bind_act (\<lambda>w. (stamp_start (vc_backend vcs w) app (snd ms) initial_version, w)) (\<lambda>start.
              case start of
                None \<Rightarrow> ret 1
              | Some (mode, initial_version) \<Rightarrow>
                  let app = with_modes (normalize_prerelease (sa_pr args)) mode app
                  in bind_act (of_res (inherit_release_mode lo mode)) (\<lambda>cur. (\<lambda>w.
                     case stamp_version vcs app (sa_newer args) (sa_pull args) cur initial_version (sa_orv args) w of
                       (Inl e, w) \<Rightarrow> (Inr 1, w)
                     | (Inr version, w) \<Rightarrow>
                         bind_act (of_res (get_be_formatted_version app version)) (\<lambda>_. ret 0) w)))) w)"

definition handle_stamp :: "'w vcs \<Rightarrow> stamp_args \<Rightarrow> ('w, int) act" where
  "handle_stamp vcs args = (\<lambda>w.
     bind_act (of_res (resolve_release_modes (lo_modes (vc_load vcs w)) (vc_commits vcs w)
                 (normalize_release_mode (sa_release_mode args), sa_orm args))) (\<lambda>ms.
     bind_act (of_res (is_root_version (sa_ov args))) (\<lambda>root.
     if root then ret 1
     else bind_act (checked_status vcs) (\<lambda>status.
       case status of
         None \<Rightarrow> ret 1
       | Some st \<Rightarrow>
           (case rs_matched_version_info st of
              Some info \<Rightarrow>
                bind_act (of_res (bind_res (ypath info [''stamping'', ''app'', ''_version'']) yv_string)) (\<lambda>v. (\<lambda>w.
                  bind_act (of_res (get_be_formatted_version (lo_app (vc_load vcs w)) v)) (\<lambda>_. ret 0) w))
            | None \<Rightarrow>
                if ''detached'' \<in> rs_state st then ret 1
                else (\<lambda>w. stamp_now vcs args ms (vc_load vcs w) w))))) w)"

section \<open>vmn release and vmn add\<close>

definition VERSION_OP_EXPECTED :: "string set" where
  "VERSION_OP_EXPECTED = {''repos_exist_locally'', ''repo_tracked'', ''app_tracked''}"

definition VERSION_OP_OPTIONAL :: "string set" where
  "VERSION_OP_OPTIONAL = {''detached'', ''version_not_matched'', ''dirty_deps'', ''deps_synced_with_conf''}"

definition validate_and_resolve_version :: "string option \<Rightarrow> repo_status \<Rightarrow> string option res" where
  \<comment> \<open>no value is exit code 1\<close>
  "validate_and_resolve_version ver st =
     bind_res (case ver of
         Some v \<Rightarrow> if v = [] then Inr False
                   else bind_res (deserialize_vmn_version v) (\<lambda>p. Inr (vp_buildmetadata p \<noteq> None))
       | None \<Rightarrow> Inr False) (\<lambda>bad.
     if bad then Inr None
     else (case (ver, rs_matched_version_info st) of
             (Some v, _) \<Rightarrow> Inr (Some v)
           | (None, Some info) \<Rightarrow>
               bind_res (ypath info [''stamping'', ''app'', ''_version'']) (\<lambda>v.
               bind_res (yv_string v) (\<lambda>s. Inr (Some s)))
           | (None, None) \<Rightarrow> Inr None))"

definition extract_ver_info :: "backend \<Rightarrow> app \<Rightarrow> string \<Rightarrow> (string \<times> ver_infos \<times> yv option) res" where
  "extract_ver_info be app ver =
     bind_res (get_version_info_from_verstr be (ap_stamper app) ver) (\<lambda>(tag_name, ver_infos).
       Inr (tag_name, ver_infos, Option.bind (map_of ver_infos tag_name) vi_ver_info))"

definition release_stamp_refused :: "repo_status \<Rightarrow> bool" where
  "release_stamp_refused st =
     (''detached'' \<in> rs_state st \<or> rs_dirty_deps st \<or> ''deps_synced_with_conf'' \<notin> rs_state st
      \<or> rs_matched_version_info st = None)"

definition release_version :: "'w vcs \<Rightarrow> loaded \<Rightarrow> bool \<Rightarrow> string \<Rightarrow> ('w, int) act" where
  \<comment> \<open>the body of the \<open>try\<close>\<close>
  "release_version vcs lo stamp ver = (\<lambda>w.
     (let app = lo_app lo in
     bind_act (of_res (extract_ver_info (vc_backend vcs w) app ver)) (\<lambda>(tag_name, ver_infos, ver_info).
     bind_act (of_res (get_base_vmn_version ver (ap_hide app))) (\<lambda>base_ver.
     if od_has ver_infos (get_tag_name (ap_stamper app) base_ver) then ret 0
     else if stamp then
       then_act (vc_fetch vcs) (\<lambda>w.
         case stamp_version vcs (with_modes (Some ''release'') None app) False False (lo_current lo) ver None w of
           (Inl e, w) \<Rightarrow> (Inr 1, w)
         | (Inr version, w) \<Rightarrow> bind_act (of_res (get_be_formatted_version app version)) (\<lambda>_. ret 0) w)
     else bind_act (release_app_version (vc_tagger vcs w) app (lo_current lo) tag_name ver_info) (\<lambda>_. ret 0)))) w)"

definition handle_release :: "'w vcs \<Rightarrow> bool \<Rightarrow> string option \<Rightarrow> ('w, int) act" where
  "handle_release vcs stamp version =
     bind_act (\<lambda>w. (vc_status vcs w VERSION_OP_EXPECTED VERSION_OP_OPTIONAL, w)) (\<lambda>st.
       if rs_error st then ret 1
       else if stamp \<and> release_stamp_refused st then ret 1
       else bind_act (of_res (validate_and_resolve_version version st)) (\<lambda>ver.
         case ver of
           None \<Rightarrow> ret 1
         | Some ver \<Rightarrow>
             bind_act (of_res (deserialize_vmn_version ver)) (\<lambda>props.
               if stamp \<and> vp_prerelease props = ''release'' then ret 1
               else (\<lambda>w. catch_act (release_version vcs (vc_load vcs w) stamp ver) (\<lambda>_. ret 1) w))))"

definition handle_add :: "'w vcs \<Rightarrow> add_params \<Rightarrow> string option \<Rightarrow> ('w, int) act" where
  "handle_add vcs params version =
     bind_act (\<lambda>w. (vc_status vcs w VERSION_OP_EXPECTED VERSION_OP_OPTIONAL, w)) (\<lambda>st.
       if rs_error st then ret 1
       else bind_act (of_res (validate_and_resolve_version version st)) (\<lambda>ver.
         case ver of
           None \<Rightarrow> ret 1
         | Some ver \<Rightarrow> (\<lambda>w.
             let lo = vc_load vcs w in
             catch_act
               (bind_act (of_res (extract_ver_info (vc_backend vcs w) (lo_app lo) ver)) (\<lambda>(tag_name, ver_infos, ver_info).
                bind_act (add_metadata_to_version (vc_backend vcs w) (vc_tagger vcs w) (lo_app lo) params
                            (lo_current lo) tag_name ver_info) (\<lambda>_. ret 0)))
               (\<lambda>_. ret 1) w)))"

section \<open>Which release mode is chosen\<close>

definition commit_mode :: "string \<Rightarrow> string option" where
  \<comment> \<open>the release mode one commit asks for\<close>
  "commit_mode m = (case parse_conventional_commit_message m of Inl _ \<Rightarrow> None | Inr p \<Rightarrow> release_mode_for_commit p)"

definition mode_rank :: "string \<Rightarrow> nat" where
  "mode_rank m = (case version_map m of None \<Rightarrow> 0 | Some n \<Rightarrow> n)"

lemma parse_commit_error: "parse_conventional_commit_message m = Inl e \<Longrightarrow> e = ValueErr"
  by (simp add: parse_conventional_commit_message_def split: option.splits)

lemma commit_mode_known: "release_mode_for_commit p = Some m \<Longrightarrow> version_map m \<noteq> None"
  by (auto simp: release_mode_for_commit_def TYPE_RELEASE_MODES_def version_map_def bind_eq_Some_conv
      split: if_splits)

lemma commits_mode_spec:
  "(\<forall>x. old = Some x \<longrightarrow> version_map x \<noteq> None) \<Longrightarrow>
   \<exists>m. commits_mode old cs = Inr m \<and> (m = None \<longleftrightarrow> old = None \<and> (\<forall>c \<in> set cs. commit_mode c = None))
     \<and> (\<forall>x. m = Some x \<longrightarrow> (old = Some x \<or> (\<exists>c \<in> set cs. commit_mode c = Some x))
          \<and> (\<forall>y. old = Some y \<longrightarrow> mode_rank y \<le> mode_rank x)
          \<and> (\<forall>c \<in> set cs. \<forall>y. commit_mode c = Some y \<longrightarrow> mode_rank y \<le> mode_rank x))"
proof (induction cs arbitrary: old)
  case (Cons c cs)
  show ?case
  proof (cases "commit_mode c")
    case None
    then have "commits_mode old (c # cs) = commits_mode old cs"
      by (auto simp: commit_mode_def dest: parse_commit_error split: sum.splits)
    then show ?thesis using Cons.IH [OF Cons.prems] None by (simp only: list.set ball_simps bex_simps option.distinct) simp
  next
    case (Some mode)
    then obtain p where p: "parse_conventional_commit_message c = Inr p" "release_mode_for_commit p = Some mode"
      by (auto simp: commit_mode_def split: sum.splits)
    have known: "version_map mode \<noteq> None" by (rule commit_mode_known [OF p(2)])
    show ?thesis
    proof (cases old)
      case None
      then have "commits_mode old (c # cs) = commits_mode (Some mode) cs" using p by simp
      then show ?thesis using Cons.IH [of "Some mode"] known None Some by auto
    next
      case old: (Some o')
      define new where "new = (if mode_rank o' \<le> mode_rank mode then mode else o')"
      have ko: "version_map o' \<noteq> None" using Cons.prems old by simp
      have "compare_release_modes mode o' = Inr (mode_rank o' \<le> mode_rank mode)"
        using known ko by (auto simp: compare_release_modes_def mode_rank_def)
      then have run: "commits_mode old (c # cs) = commits_mode (Some new) cs" using p old by (simp add: new_def)
      have new: "version_map new \<noteq> None" "new = mode \<or> new = o'" "mode_rank mode \<le> mode_rank new" "mode_rank o' \<le> mode_rank new"
        using known ko by (auto simp: new_def)
      obtain m where m: "commits_mode (Some new) cs = Inr m" "m \<noteq> None"
        "\<And>x. m = Some x \<Longrightarrow> (new = x \<or> (\<exists>c \<in> set cs. commit_mode c = Some x)) \<and> mode_rank new \<le> mode_rank x
           \<and> (\<forall>c \<in> set cs. \<forall>y. commit_mode c = Some y \<longrightarrow> mode_rank y \<le> mode_rank x)"
        using Cons.IH [of "Some new"] new(1) by auto
      obtain x where x: "m = Some x" using m(2) by auto
      show ?thesis
        unfolding run m(1) x using m(3) [OF x] new(2-4) old Some by (auto intro: order_trans)
    qed
  qed
qed auto

text \<open>
  With conventional commits the release mode is the highest one any commit since the selected
  tag asks for, and none exactly when no commit asks for one; commits that do not follow the
  convention are passed over and nothing raises.
\<close>

theorem commits_mode_highest:
  "\<exists>m. commits_mode None cs = Inr m \<and> (m = None \<longleftrightarrow> (\<forall>c \<in> set cs. commit_mode c = None))
     \<and> (\<forall>x. m = Some x \<longrightarrow> (\<exists>c \<in> set cs. commit_mode c = Some x)
          \<and> (\<forall>c \<in> set cs. \<forall>y. commit_mode c = Some y \<longrightarrow> mode_rank y \<le> mode_rank x))"
  using commits_mode_spec [of None cs] by simp

theorem commits_mode_highest_witness:
  "\<exists>x. commits_mode None [''fix: a'', ''feat: b'', ''just text''] = Inr (Some x)
     \<and> mode_rank ''minor'' \<le> mode_rank x"
proof -
  have feat: "commit_mode ''feat: b'' = Some ''minor''" by code_simp
  obtain m where m: "commits_mode None [''fix: a'', ''feat: b'', ''just text''] = Inr m"
    "m = None \<longleftrightarrow> (\<forall>c \<in> set [''fix: a'', ''feat: b'', ''just text'']. commit_mode c = None)"
    "\<And>x y. m = Some x \<Longrightarrow> commit_mode ''feat: b'' = Some y \<Longrightarrow> mode_rank y \<le> mode_rank x"
    using commits_mode_highest [of "[''fix: a'', ''feat: b'', ''just text'']"] by (auto simp del: commits_mode.simps)
  have "m \<noteq> None" using m(2) feat by auto
  then show ?thesis using m(1) m(3) [OF _ feat] by auto
qed

definition chosen_mode :: "mode_conf \<Rightarrow> string option \<Rightarrow> string option" where
  "chosen_mode mc highest =
     (if mc_conventional_commits mc \<and> highest \<noteq> None then highest
      else (case mc_default mc of Some d \<Rightarrow> if d \<noteq> [] then Some d else None | None \<Rightarrow> None))"

text \<open>
  The command line decides the release mode; without one the commits do, when conventional
  commits are on and one of them asks for a mode, and the configured default otherwise. The
  policy says whether the result is a strict or an optional mode, never both.
\<close>

theorem release_mode_resolution:
  assumes "commits_mode None cs = Inr highest"
  shows "resolve_release_modes mc (Inr cs) ms =
    (if fst ms \<noteq> None \<and> snd ms \<noteq> None then Inl AssertionErr
     else if ms \<noteq> (None, None) then Inr ms
     else Inr (set_mode mc (chosen_mode mc highest) (None, None)))"
proof (cases "ms = (None, None)")
  case True
  have none: "set_mode mc None (None, None) = (None, None)" by (simp add: set_mode_def)
  have one: "fst (set_mode mc m (None, None)) = None \<or> snd (set_mode mc m (None, None)) = None" for m
    by (simp add: set_mode_def)
  have again: "set_mode mc m (set_mode mc None (None, None)) = set_mode mc m (None, None)" for m
    by (simp add: set_mode_def)
  have some: "set_mode mc (Some m) (None, None) \<noteq> (None, None)" for m
    by (simp add: set_mode_def)
  let ?d = "case mc_default mc of Some d \<Rightarrow> if d \<noteq> [] then Some d else None | None \<Rightarrow> None"
  have default: "(case mc_default mc of Some d \<Rightarrow> if d \<noteq> [] then set_mode mc (Some d) (None, None) else (None, None)
      | None \<Rightarrow> (None, None)) = set_mode mc ?d (None, None)"
    by (auto simp: none split: option.split)
  show ?thesis
  proof (cases "mc_conventional_commits mc \<and> highest \<noteq> None")
    case conv: True
    then obtain h where "highest = Some h" by auto
    then show ?thesis using True conv assms some one [of "Some h"]
      by (simp add: resolve_release_modes_def chosen_mode_def Let_def)
  next
    case conv: False
    have "resolve_release_modes mc (Inr cs) ms = (let ms = set_mode mc ?d (None, None)
        in if fst ms = None \<or> snd ms = None then Inr ms else Inl AssertionErr)"
      using True conv assms default by (auto simp: resolve_release_modes_def none simp del: prod.inject)
    moreover have "chosen_mode mc highest = ?d" using conv by (auto simp: chosen_mode_def)
    ultimately show ?thesis using True one [of ?d] by (simp add: Let_def)
  qed
next
  case False
  then have "resolve_release_modes mc (Inr cs) ms = (if fst ms = None \<or> snd ms = None then Inr ms else Inl AssertionErr)"
    by (simp add: resolve_release_modes_def)
  then show ?thesis using False by simp
qed

theorem release_mode_resolution_witness:
  "resolve_release_modes \<lparr>mc_conventional_commits = True, mc_policy = ''optional'', mc_default = Some ''patch''\<rparr>
     (Inr [''docs: a'', ''chore: b'']) (None, None) = Inr (None, Some ''patch'')"
proof -
  have "commits_mode None [''docs: a'', ''chore: b''] = Inr None" by code_simp
  from release_mode_resolution [OF this] show ?thesis by (simp add: chosen_mode_def set_mode_def)
qed

section \<open>The attempts of one stamp\<close>

text \<open>
  The runs of the loop as a relation: the last argument but one lists, in order, the version each
  attempt published and the code the publisher returned for it.
\<close>

definition publish_code :: "int res \<Rightarrow> int" where
  "publish_code r = (case r of Inl e \<Rightarrow> -1 | Inr n \<Rightarrow> n)"

inductive attempts ::
    "'w vcs \<Rightarrow> app \<Rightarrow> bool \<Rightarrow> nat \<Rightarrow> yv \<Rightarrow> string \<Rightarrow> yv option \<Rightarrow> 'w \<Rightarrow> (string \<times> int) list \<Rightarrow> string res \<times> 'w \<Rightarrow> bool"
  for vcs app pull where
  exhausted: "attempts vcs app pull 0 cur ov orv w [] (Inl RuntimeErr, w)"
| no_version: "stamp_app_version (vc_backend vcs w) app cur ov = Inl e \<Longrightarrow>
    attempts vcs app pull (Suc n) cur ov orv w [] (Inl e, w)"
| no_root: "stamp_app_version (vc_backend vcs w) app cur ov = Inr (v, cur1) \<Longrightarrow>
    stamp_root_app_version (vc_backend vcs w) app cur1 orv = Inl e \<Longrightarrow>
    attempts vcs app pull (Suc n) cur ov orv w [] (Inl e, w)"
| stamped: "stamp_app_version (vc_backend vcs w) app cur ov = Inr (v, cur1) \<Longrightarrow>
    stamp_root_app_version (vc_backend vcs w) app cur1 orv = Inr (m, cur2) \<Longrightarrow>
    vc_publish vcs app cur2 v m w = (r, w') \<Longrightarrow> publish_code r = 0 \<Longrightarrow>
    attempts vcs app pull (Suc n) cur ov orv w [(v, 0)] (Inr v, w')"
| no_next: "stamp_app_version (vc_backend vcs w) app cur ov = Inr (v, cur1) \<Longrightarrow>
    stamp_root_app_version (vc_backend vcs w) app cur1 orv = Inr (m, cur2) \<Longrightarrow>
    vc_publish vcs app cur2 v m w = (r, w') \<Longrightarrow> publish_code r = 1 \<Longrightarrow>
    advance_version (vc_backend vcs w') (ap_stamper app) v (st_release_mode (ap_stamper app)) True = Inl e \<Longrightarrow>
    attempts vcs app pull (Suc n) cur ov orv w [(v, 1)] (Inl e, w')"
| tag_taken: "stamp_app_version (vc_backend vcs w) app cur ov = Inr (v, cur1) \<Longrightarrow>
    stamp_root_app_version (vc_backend vcs w) app cur1 orv = Inr (m, cur2) \<Longrightarrow>
    vc_publish vcs app cur2 v m w = (r, w') \<Longrightarrow> publish_code r = 1 \<Longrightarrow>
    advance_version (vc_backend vcs w') (ap_stamper app) v (st_release_mode (ap_stamper app)) True = Inr nx \<Longrightarrow>
    attempts vcs app pull n cur2 v (map_option YStr m) w' tr res \<Longrightarrow>
    attempts vcs app pull (Suc n) cur ov orv w ((v, 1) # tr) res"
| rejected: "stamp_app_version (vc_backend vcs w) app cur ov = Inr (v, cur1) \<Longrightarrow>
    stamp_root_app_version (vc_backend vcs w) app cur1 orv = Inr (m, cur2) \<Longrightarrow>
    vc_publish vcs app cur2 v m w = (r, w') \<Longrightarrow> publish_code r = 2 \<Longrightarrow> pull \<Longrightarrow>
    attempts vcs app pull n cur2 ov orv (snd (vc_retrieve vcs w')) tr res \<Longrightarrow>
    attempts vcs app pull (Suc n) cur ov orv w ((v, 2) # tr) res"
| gave_up: "stamp_app_version (vc_backend vcs w) app cur ov = Inr (v, cur1) \<Longrightarrow>
    stamp_root_app_version (vc_backend vcs w) app cur1 orv = Inr (m, cur2) \<Longrightarrow>
    vc_publish vcs app cur2 v m w = (r, w') \<Longrightarrow> publish_code r \<notin> {0, 1} \<Longrightarrow> \<not> (publish_code r = 2 \<and> pull) \<Longrightarrow>
    attempts vcs app pull (Suc n) cur ov orv w [(v, publish_code r)] (Inl RuntimeErr, w')"

lemma attempts_run: "\<exists>tr. attempts vcs app pull n cur ov orv w tr (stamp_attempts n vcs app pull cur ov orv w)"
proof (induction n arbitrary: cur ov orv w)
  case 0
  have "stamp_attempts 0 vcs app pull cur ov orv w = (Inl RuntimeErr, w)" by simp
  then show ?case using attempts.exhausted by metis
next
  case (Suc n)
  show ?case
  proof (cases "stamp_app_version (vc_backend vcs w) app cur ov")
    case (Inl e)
    then have "stamp_attempts (Suc n) vcs app pull cur ov orv w = (Inl e, w)" by simp
    then show ?thesis using attempts.no_version [OF Inl] by metis
  next
    case (Inr a)
    then obtain v cur1 where s: "stamp_app_version (vc_backend vcs w) app cur ov = Inr (v, cur1)" by (cases a) auto
    show ?thesis
    proof (cases "stamp_root_app_version (vc_backend vcs w) app cur1 orv")
      case (Inl e)
      then have "stamp_attempts (Suc n) vcs app pull cur ov orv w = (Inl e, w)" using s by simp
      then show ?thesis using attempts.no_root [OF s Inl] by metis
    next
      case (Inr b)
      then obtain m cur2 where t: "stamp_root_app_version (vc_backend vcs w) app cur1 orv = Inr (m, cur2)"
        by (cases b) auto
      obtain r w' where p: "vc_publish vcs app cur2 v m w = (r, w')" by (cases "vc_publish vcs app cur2 v m w")
      note run = stamp_attempts.simps(2) s t p publish_code_def [symmetric]
      consider "publish_code r = 0" | "publish_code r = 1" | "publish_code r = 2" "pull"
        | "publish_code r \<notin> {0, 1}" "\<not> (publish_code r = 2 \<and> pull)" by auto
      then show ?thesis
      proof cases
        case 1
        then have "stamp_attempts (Suc n) vcs app pull cur ov orv w = (Inr v, w')" by (simp add: run Let_def)
        then show ?thesis using attempts.stamped [OF s t p 1] by auto
      next
        case 2
        show ?thesis
        proof (cases "advance_version (vc_backend vcs w') (ap_stamper app) v (st_release_mode (ap_stamper app)) True")
          case (Inl e)
          then have "stamp_attempts (Suc n) vcs app pull cur ov orv w = (Inl e, w')" using 2 by (simp add: run Let_def)
          then show ?thesis using attempts.no_next [OF s t p 2 Inl] by auto
        next
          case (Inr nx)
          then have "stamp_attempts (Suc n) vcs app pull cur ov orv w
              = stamp_attempts n vcs app pull cur2 v (map_option YStr m) w'" using 2 by (simp add: run Let_def)
          then show ?thesis using attempts.tag_taken [OF s t p 2 Inr] Suc.IH [of cur2 v "map_option YStr m" w'] by metis
        qed
      next
        case 3
        then have "stamp_attempts (Suc n) vcs app pull cur ov orv w
            = stamp_attempts n vcs app pull cur2 ov orv (snd (vc_retrieve vcs w'))" by (simp add: run Let_def)
        then show ?thesis using attempts.rejected [OF s t p 3] Suc.IH [of cur2 ov orv "snd (vc_retrieve vcs w')"] by metis
      next
        case 4
        then have "stamp_attempts (Suc n) vcs app pull cur ov orv w = (Inl RuntimeErr, w')" by (auto simp: run Let_def)
        then show ?thesis using attempts.gave_up [OF s t p 4] by auto
      qed
    qed
  qed
qed

lemma attempts_trace:
  "attempts vcs app pull n cur ov orv w tr res \<Longrightarrow> length tr \<le> n
    \<and> (\<forall>(v, c) \<in> set (butlast tr). c = 1 \<or> c = 2 \<and> pull)
    \<and> (case fst res of Inr v \<Rightarrow> tr \<noteq> [] \<and> last tr = (v, 0) \<and> (\<forall>(u, c) \<in> set (butlast tr). c \<noteq> 0)
       | Inl _ \<Rightarrow> \<forall>(v, c) \<in> set tr. c \<noteq> 0)"
proof (induction rule: attempts.induct)
  case (tag_taken w cur ov v cur1 orv m cur2 r w' nx n tr res)
  then show ?case by (cases tr) (auto split: sum.splits)
next
  case (rejected w cur ov v cur1 orv m cur2 r w' n tr res)
  then show ?case by (cases tr) (auto split: sum.splits)
qed auto

text \<open>
  C6. One stamp publishes at most three times, goes on only after a taken tag or, when it may
  pull, after a rejected push, and returns a version exactly when its last publish of that very
  version succeeded; when it raises, none did.
\<close>

theorem stamp_version_attempts:
  assumes "stamp_version vcs app newer pull cur verstr orv w = res" "\<not> newer"
  shows "\<exists>tr. attempts vcs app pull MAX_RETRIES cur verstr orv w tr res \<and> length tr \<le> 3
    \<and> (\<forall>(v, c) \<in> set (butlast tr). c = 1 \<or> c = 2 \<and> pull)
    \<and> (case fst res of Inr v \<Rightarrow> tr \<noteq> [] \<and> last tr = (v, 0) | Inl _ \<Rightarrow> \<forall>(v, c) \<in> set tr. c \<noteq> 0)"
proof -
  obtain tr where tr: "attempts vcs app pull MAX_RETRIES cur verstr orv w tr res"
    using attempts_run assms by (fastforce simp: stamp_version_def)
  show ?thesis
    using tr attempts_trace [OF tr] by (intro exI [of _ tr]) (auto simp: MAX_RETRIES_def split: sum.splits)
qed

text \<open>A small repository: the first push is rejected, the second goes through.\<close>

definition demo_backend :: backend where
  "demo_backend = \<lparr>be_list_tag_names = (\<lambda>_. []), be_latest_tag = (\<lambda>_. None), be_parse_tag = (\<lambda>_. Inl RuntimeErr),
     be_tag_version_info = (\<lambda>_. Inl RuntimeErr), be_latest_stamp_tags = (\<lambda>_ _ _. Inr ([], None, []))\<rparr>"

definition demo_app :: app where
  "demo_app = \<lparr>ap_stamper = \<lparr>st_name = ''a'', st_hide_zero_hotfix = True, st_prerelease = None, st_release_mode = Some ''patch''\<rparr>,
     ap_selected_tag = None, ap_ver_infos = [], ap_repo_name = ''.'', ap_deps_state = [], ap_last_user_changeset = YNull,
     ap_whitelist = None, ap_template = Map.empty, ap_root_app_name = None, ap_extra_info = False, ap_environ = YNull,
     ap_active_branch = YNull, ap_remote_active_branch = YNull\<rparr>"

definition demo_cur :: yv where
  "demo_cur = YMap [(''stamping'', YMap [(''app'', YMap [])])]"

definition demo_vcs :: "nat vcs" where
  "demo_vcs = \<lparr>vc_load = (\<lambda>_. \<lparr>lo_app = demo_app, lo_tracked = True, lo_verstr_from_file = ''0.0.1'', lo_current = demo_cur,
       lo_modes = \<lparr>mc_conventional_commits = False, mc_policy = ''strict'', mc_default = None\<rparr>\<rparr>),
     vc_backend = (\<lambda>_. demo_backend), vc_commits = (\<lambda>_. Inr []), vc_status = (\<lambda>_ _ _. Inl RuntimeErr),
     vc_auto_init = ret (0, False), vc_fetch = ret (), vc_force_fetch = ret (), vc_retrieve = ret (),
     vc_publish = (\<lambda>_ _ _ _ w. (Inr (if w = 0 then 2 else 0), Suc w)),
     vc_tagger = (\<lambda>_. \<lparr>tg_changeset = (\<lambda>_. None), tg_branches_containing = (\<lambda>_. Inr []),
        tg_tag = (\<lambda>_ _ _. ret ()), tg_load_yaml = (\<lambda>_. Inl OSErr)\<rparr>)\<rparr>"

theorem stamp_version_attempts_witness:
  "\<exists>tr. attempts demo_vcs demo_app True MAX_RETRIES demo_cur ''0.0.1'' None 0 tr (Inr ''0.0.2'', 2) \<and> length tr \<le> 3
     \<and> last tr = (''0.0.2'', 0)"
proof -
  have "stamp_version demo_vcs demo_app False True demo_cur ''0.0.1'' None 0 = (Inr ''0.0.2'', 2)"
    by code_simp
  from stamp_version_attempts [OF this] show ?thesis by auto
qed

text \<open>
  With an optional release mode, no prerelease name and a prerelease of the next version tagged,
  the lookup of the count of the prerelease called \<open>release\<close> raises.
\<close>

lemma orm_next_to_prerelease_raises:
  "optional_start (demo_backend\<lparr>be_latest_tag := (\<lambda>_. Some ''a_0.1.0-rc.1''), be_tag_version_info := (\<lambda>t. Inr (t, []))\<rparr>)
     \<lparr>st_name = ''a'', st_hide_zero_hotfix = True, st_prerelease = None, st_release_mode = None\<rparr> ''minor'' ''0.0.1''
   = Inl KeyErr"
  by code_simp

end
