(* ===== verification/Url_Quote.thy ===== *)
theory Url_Quote
imports Core_Utils
begin

text \<open>
  Percent encoding as \<open>urllib.parse\<close> does it, shared by the push targets and the keys of the change
  journal: of code points below 256 as their UTF-8 bytes, and of strings that are UTF-8 bytes already,
  with the decoding that undoes it.
\<close>

section \<open>Encoding\<close>

definition hex_digit :: "nat \<Rightarrow> char" where
  "hex_digit n = (if n < 10 then char_of (48 + n) else char_of (55 + n))"

definition percent :: "nat \<Rightarrow> string" where
  "percent b = [CHR ''%'', hex_digit (b div 16), hex_digit (b mod 16)]"

definition unreserved :: "char \<Rightarrow> bool" where
  "unreserved c = (is_alpha c \<or> is_digit c \<or> c \<in> set ''_.-~'')"

definition quote_char :: "char \<Rightarrow> string" where
  \<comment> \<open>the UTF-8 bytes of a code point below 256, percent-encoded unless unreserved\<close>
  "quote_char c =
     (if unreserved c then [c]
      else if code c < 128 then percent (code c)
      else percent (192 + code c div 64) @ percent (128 + code c mod 64))"

definition urlquote :: "string \<Rightarrow> string" where
  \<comment> \<open>\<open>urllib.parse.quote(s, safe='')\<close>\<close>
  "urlquote s = concat (map quote_char s)"

definition quote_byte :: "char \<Rightarrow> string" where
  "quote_byte c = (if unreserved c then [c] else percent (code c))"

definition quote_bytes :: "string \<Rightarrow> string" where
  \<comment> \<open>\<open>quote(s, safe='')\<close> of a string given by its UTF-8 bytes\<close>
  "quote_bytes s = concat (map quote_byte s)"

section \<open>Decoding\<close>

definition hex_val :: "char \<Rightarrow> nat option" where
  "hex_val c =
     (if is_digit c then Some (code c - 48)
      else if 65 \<le> code c \<and> code c \<le> 70 then Some (code c - 55)
      else if 97 \<le> code c \<and> code c \<le> 102 then Some (code c - 87)
      else None)"

fun unquote_bytes :: "string \<Rightarrow> string" where
  \<comment> \<open>\<open>unquote(s)\<close>, as the bytes of its result\<close>
  "unquote_bytes (c # a # b # s) =
     (if c = CHR ''%'' \<and> hex_val a \<noteq> None \<and> hex_val b \<noteq> None
      then char_of (16 * the (hex_val a) + the (hex_val b)) # unquote_bytes s
      else c # unquote_bytes (a # b # s))"
| "unquote_bytes s = s"

section \<open>Lemmas\<close>

lemma hex_digit_unreserved: "n < 16 \<Longrightarrow> unreserved (hex_digit n)"
  by (auto simp: hex_digit_def unreserved_def is_digit_def is_alpha_def in_range_def)

lemma code_less: "code c < 256"
  unfolding code_def by (rule nat_of_char_less_256)

lemma quote_char_set: "set (quote_char c) \<subseteq> {x. unreserved x} \<union> {CHR ''%''}"
proof -
  have p: "b < 256 \<Longrightarrow> set (percent b) \<subseteq> {x. unreserved x} \<union> {CHR ''%''}" for b
    using hex_digit_unreserved [of "b div 16"] hex_digit_unreserved [of "b mod 16"] by (auto simp: percent_def)
  show ?thesis
    using code_less [of c] p [of "code c"] p [of "192 + code c div 64"] p [of "128 + code c mod 64"]
    by (auto simp: quote_char_def)
qed

lemma urlquote_set: "x \<in> set (urlquote s) \<Longrightarrow> unreserved x \<or> x = CHR ''%''"
  using quote_char_set by (fastforce simp: urlquote_def)

lemma hex_val_digit: "n < 16 \<Longrightarrow> hex_val (hex_digit n) = Some n"
  by (simp add: hex_digit_def hex_val_def is_digit_def)

lemma unquote_percent: "b < 256 \<Longrightarrow> unquote_bytes (percent b @ s) = char_of b # unquote_bytes s"
proof -
  assume "b < 256"
  then have "hex_val (hex_digit (b div 16)) = Some (b div 16)" "hex_val (hex_digit (b mod 16)) = Some (b mod 16)"
    by (auto intro!: hex_val_digit)
  then show ?thesis by (simp add: percent_def)
qed

lemma unquote_plain: "c \<noteq> CHR ''%'' \<Longrightarrow> unquote_bytes (c # s) = c # unquote_bytes s"
  by (cases "(c # s)" rule: unquote_bytes.cases) simp_all

lemma unreserved_percent: "\<not> unreserved CHR ''%''"
  by code_simp

lemma unquote_quote_byte: "unquote_bytes (quote_byte c @ s) = c # unquote_bytes s"
  using unquote_plain [of c s] unreserved_percent code_less [of c]
  by (auto simp: quote_byte_def unquote_percent) (simp add: code_def)

lemma unquote_quote_bytes: "unquote_bytes (quote_bytes s) = s"
  by (induction s) (simp_all add: quote_bytes_def unquote_quote_byte)

lemma quote_bytes_set: "x \<in> set (quote_bytes s) \<Longrightarrow> unreserved x \<or> x = CHR ''%''"
proof -
  have "b < 256 \<Longrightarrow> set (percent b) \<subseteq> {x. unreserved x} \<union> {CHR ''%''}" for b
    using hex_digit_unreserved [of "b div 16"] hex_digit_unreserved [of "b mod 16"] by (auto simp: percent_def)
  then show "x \<in> set (quote_bytes s) \<Longrightarrow> ?thesis"
    using code_less by (fastforce simp: quote_bytes_def quote_byte_def split: if_splits)
qed

end
