(* ===== verification/Run_Status.thy ===== *)
theory Run_Status
imports Prelude Complex_Main
begin

text \<open>
  What a run of an experiment is doing, derived from its state file and two clocks, from
  core/status.py of the experiment SDK. An instant is a whole number of microseconds (the
  resolution of \<open>datetime\<close>), a duration in seconds a rational; a timestamp of the file is what
  \<open>parse_iso\<close> makes of it, an unreadable one kept apart from a missing one. The heartbeat cadence
  and the floor of the environment variable are the finite numbers \<open>float\<close> reads.
\<close>

section \<open>Statuses and run states\<close>

datatype run_status =
    Created | Running | Stuck | Succeeded | Failed
  | Released                                  \<comment> \<open>a waiting run its process handed back\<close>

type_synonym instant = int

datatype stamp = Unreadable | At instant

record run_state =
  exit_code :: "int option"
  end_reason :: "string option"
  state_name :: "string option"
  heartbeat :: "stamp option"
  started_at :: "stamp option"
  finished_at :: "stamp option"
  duration_sec :: "rat option"
  heartbeat_interval :: "rat option"         \<comment> \<open>None: missing, or no number\<close>

definition settle_status :: "run_status \<Rightarrow> string option \<Rightarrow> run_status" where
  "settle_status status reason =
     (if status = Created \<and> reason = Some ''released'' then Released else status)"

section \<open>Staleness\<close>

definition DEFAULT_HEARTBEAT_INTERVAL_SEC :: rat where "DEFAULT_HEARTBEAT_INTERVAL_SEC = 30"
definition STALE_MULTIPLIER :: rat where "STALE_MULTIPLIER = 3"
definition MIN_STALE_SEC :: rat where "MIN_STALE_SEC = 60"

definition positive_env_sec :: "rat option \<Rightarrow> rat \<Rightarrow> rat" where
  \<comment> \<open>the argument is the variable's value when \<open>float\<close> reads it as a finite number\<close>
  "positive_env_sec value fallback =
     (case value of Some x \<Rightarrow> if x > 0 then x else fallback | None \<Rightarrow> fallback)"

definition min_stale_sec :: "rat option \<Rightarrow> rat" where
  "min_stale_sec env = positive_env_sec env MIN_STALE_SEC"

definition heartbeat_interval_sec :: "run_state option \<Rightarrow> rat" where
  "heartbeat_interval_sec rs =
     (case Option.bind rs heartbeat_interval of Some x \<Rightarrow> x | None \<Rightarrow> DEFAULT_HEARTBEAT_INTERVAL_SEC)"

definition stale_after_sec :: "rat option \<Rightarrow> run_state option \<Rightarrow> rat" where
  "stale_after_sec env rs = max (heartbeat_interval_sec rs * STALE_MULTIPLIER) (min_stale_sec env)"

section \<open>Proofs of life\<close>

definition parse_iso :: "stamp option \<Rightarrow> instant option" where
  "parse_iso ts = (case ts of Some (At t) \<Rightarrow> Some t | _ \<Rightarrow> None)"

definition seconds :: "int \<Rightarrow> rat" where
  \<comment> \<open>\<open>timedelta.total_seconds\<close>\<close>
  "seconds us = of_int us / 1000000"

definition writer_alive_at :: "run_state \<Rightarrow> instant option" where
  "writer_alive_at rs = parse_iso (if heartbeat rs = None then started_at rs else heartbeat rs)"

definition last_alive_at :: "run_state \<Rightarrow> instant \<Rightarrow> instant option \<Rightarrow> instant option" where
  "last_alive_at rs now observed_at =
     (case observed_at of
        None \<Rightarrow> writer_alive_at rs
      | Some obs \<Rightarrow>
          (case writer_alive_at rs of
             None \<Rightarrow> Some obs
           | Some writer \<Rightarrow> if writer > now then Some obs else Some (max writer obs)))"

definition liveness_age_sec :: "run_state \<Rightarrow> instant \<Rightarrow> instant option \<Rightarrow> rat option" where
  "liveness_age_sec rs now observed_at =
     map_option (\<lambda>alive. seconds (now - alive)) (last_alive_at rs now observed_at)"

definition derive_status :: "rat option \<Rightarrow> run_state option \<Rightarrow> instant \<Rightarrow> instant option \<Rightarrow> run_status" where
  "derive_status env state now observed_at =
     (case state of
        None \<Rightarrow> Created
      | Some rs \<Rightarrow>
          (case exit_code rs of
             Some n \<Rightarrow> if n = 0 \<or> end_reason rs = Some ''stopped'' then Succeeded else Failed
           | None \<Rightarrow>
               if state_name rs \<noteq> Some ''running'' then Created
               else (case liveness_age_sec rs now observed_at of
                       None \<Rightarrow> Stuck
                     | Some age \<Rightarrow> if age \<le> stale_after_sec env state then Running else Stuck)))"

section \<open>Durations\<close>

definition seconds_between :: "instant option \<Rightarrow> instant option \<Rightarrow> rat option" where
  \<comment> \<open>before the rounding to milliseconds\<close>
  "seconds_between start stop =
     (case (start, stop) of (Some a, Some b) \<Rightarrow> Some (seconds (b - a)) | _ \<Rightarrow> None)"

definition non_negative :: "rat option \<Rightarrow> rat option" where
  "non_negative s = map_option (\<lambda>x. max x 0) s"

definition queue_sec :: "stamp option \<Rightarrow> stamp option \<Rightarrow> rat option" where
  "queue_sec created started = non_negative (seconds_between (parse_iso created) (parse_iso started))"

definition durations :: "run_state \<Rightarrow> run_status \<Rightarrow> instant \<Rightarrow> instant option \<Rightarrow> rat option \<times> rat option" where
  "durations rs status now observed_at =
     (case duration_sec rs of
        Some d \<Rightarrow> (Some d, None)
      | None \<Rightarrow>
          let started = parse_iso (started_at rs) in
          (case parse_iso (finished_at rs) of
             Some f \<Rightarrow> (seconds_between started (Some f), None)
           | None \<Rightarrow>
               if status = Running then (seconds_between started (Some now), None)
               else (None, non_negative (seconds_between started (last_alive_at rs now observed_at)))))"

section \<open>Laws\<close>

lemma seconds_le: "seconds (now - a) \<le> s \<longleftrightarrow> of_int now \<le> of_int a + s * 1000000"
  by (simp add: seconds_def field_simps)

lemma seconds_mono [simp]: "seconds a \<le> seconds b \<longleftrightarrow> a \<le> b"
  by (simp add: seconds_def divide_le_cancel)

lemma stale_after_floor: "0 < stale_after_sec env rs"
  by (auto simp: stale_after_sec_def min_stale_sec_def positive_env_sec_def MIN_STALE_SEC_def
      less_max_iff_disj split: option.splits)

definition live :: "run_state option \<Rightarrow> bool" where
  \<comment> \<open>an attempt claims to be running\<close>
  "live st = (case st of None \<Rightarrow> False | Some rs \<Rightarrow> exit_code rs = None \<and> state_name rs = Some ''running'')"

lemma derive_status_settled:
  "\<not> live st \<Longrightarrow> derive_status env st now obs = derive_status env st now' obs'"
  by (auto simp: live_def derive_status_def split: option.splits)

definition fresh :: "rat option \<Rightarrow> run_state option \<Rightarrow> instant \<Rightarrow> instant \<Rightarrow> bool" where
  \<comment> \<open>a proof of life at an instant still counts\<close>
  "fresh env st now t = (seconds (now - t) \<le> stale_after_sec env st)"

lemma fresh_later: "a \<le> b \<Longrightarrow> fresh env st now a \<Longrightarrow> fresh env st now b"
  unfolding fresh_def by (rule order_trans [of "seconds (now - b)" "seconds (now - a)"]) simp_all

lemma fresh_max: "fresh env st now (max a b) \<longleftrightarrow> fresh env st now a \<or> fresh env st now b"
  using fresh_later [of a b] fresh_later [of b a] by (cases "a \<le> b") (auto simp: max_def)

lemma fresh_antimono: "now \<le> now' \<Longrightarrow> fresh env st now' t \<Longrightarrow> fresh env st now t"
  unfolding fresh_def by (rule order_trans) simp_all

lemma derive_status_live:
  assumes "live st" "st = Some rs"
  shows "derive_status env st now obs =
     (case last_alive_at rs now obs of None \<Rightarrow> Stuck | Some t \<Rightarrow> if fresh env st now t then Running else Stuck)"
  using assms by (auto simp: live_def derive_status_def liveness_age_sec_def fresh_def split: option.splits)

text \<open>
  With the write time of the state file known, a run that claims to be running is stuck
  exactly when both clocks say so: the store saw no write within the stale bound, and the writer's
  own last beat is older than it too, or lies in the future, or is not readable.
\<close>

theorem stuck_needs_both_clocks:
  assumes "live (Some rs)"
  shows "derive_status env (Some rs) now (Some obs) = Stuck \<longleftrightarrow>
      seconds (now - obs) > stale_after_sec env (Some rs) \<and>
      (\<forall>w. writer_alive_at rs = Some w \<longrightarrow> w > now \<or> seconds (now - w) > stale_after_sec env (Some rs))"
proof -
  have stale: "seconds (now - t) > stale_after_sec env (Some rs) \<longleftrightarrow> \<not> fresh env (Some rs) now t" for t
    by (simp add: fresh_def not_le)
  show ?thesis unfolding stale derive_status_live [OF assms refl] last_alive_at_def
    by (auto simp: fresh_max split: option.split)
qed

definition example_state :: run_state where
  "example_state = \<lparr>exit_code = None, end_reason = None, state_name = Some ''running'',
     heartbeat = Some (At 0), started_at = Some (At 0), finished_at = None, duration_sec = None,
     heartbeat_interval = None\<rparr>"

lemmas example_status_defs = derive_status_def liveness_age_sec_def last_alive_at_def writer_alive_at_def
  parse_iso_def example_state_def stale_after_sec_def min_stale_sec_def positive_env_sec_def
  heartbeat_interval_sec_def DEFAULT_HEARTBEAT_INTERVAL_SEC_def STALE_MULTIPLIER_def MIN_STALE_SEC_def
  seconds_def

theorem stuck_needs_both_clocks_witness:
  "derive_status None (Some example_state) 100000000 (Some 5000000) = Stuck"
proof -
  have l: "live (Some example_state)" by (simp add: live_def example_state_def)
  have "stale_after_sec None (Some example_state) = 90"
    by (simp add: example_status_defs)
  moreover have "writer_alive_at example_state = Some 0"
    by (simp add: writer_alive_at_def parse_iso_def example_state_def)
  ultimately show ?thesis using stuck_needs_both_clocks [OF l, of None 100000000 5000000]
    by (simp add: seconds_def)
qed

text \<open>
  A status never comes back to life by itself: of a state file that is not written again, a
  run seen stuck is still stuck at every later reading, provided its last beat was not dated
  ahead of the reader's clock at the earlier one.
\<close>

theorem stuck_stays_stuck:
  assumes "derive_status env st now obs = Stuck" "now \<le> now'"
    and "\<And>rs w. st = Some rs \<Longrightarrow> writer_alive_at rs = Some w \<Longrightarrow> w \<le> now"
  shows "derive_status env st now' obs = Stuck"
proof (cases "live st")
  case False
  then show ?thesis using assms(1) derive_status_settled by metis
next
  case True
  then obtain rs where st: "st = Some rs" by (auto simp: live_def split: option.splits)
  have same: "last_alive_at rs now' obs = last_alive_at rs now obs"
    using assms(2) assms(3) [OF st] by (fastforce simp: last_alive_at_def split: option.split)
  show ?thesis using assms(1) fresh_antimono [OF assms(2)]
    by (auto simp: derive_status_live [OF True st] same split: option.splits if_splits)
qed

theorem stuck_stays_stuck_witness:
  "derive_status None (Some example_state) 200000000 (Some 5000000) = Stuck"
proof (rule stuck_stays_stuck [where now = 100000000])
  show "derive_status None (Some example_state) 100000000 (Some 5000000) = Stuck"
    by (simp add: example_status_defs)
  show "w \<le> 100000000" if "Some example_state = Some rs" "writer_alive_at rs = Some w" for rs w
    using that by (auto simp: example_status_defs)
qed simp

text \<open>
  The proviso is needed. A beat dated an hour ahead is ignored until the reader's clock reaches
  it; the run then reads as running again, long after the store saw its last write.
\<close>

lemma stuck_run_revives:
  assumes "rs = example_state\<lparr>heartbeat := Some (At 3600000000)\<rparr>"
  shows "derive_status None (Some rs) 3000000000 (Some 0) = Stuck"
    and "derive_status None (Some rs) 3610000000 (Some 0) = Running"
  by (simp_all add: assms example_status_defs)

end
