(* ===== verification/Run_Settle.thy ===== *)
theory Run_Settle
imports Run_Status
begin

text \<open>
  What an ended outer run makes of the runs it left behind, from core/settle.py of the experiment
  SDK: which runs close their children, the memoized walk over the parent links of a whole
  application, and the one-pass variant over a subtree. The walk is shown equal to an inductive
  account of closing, in which a missing parent or a loop of parents closes nothing.
\<close>

section \<open>Statuses\<close>

datatype settled = Never_Started | Lost | Outlived

definition ENDED :: "run_status set" where
  "ENDED = {Succeeded, Failed, Stuck}"

definition WAITING :: "run_status set" where
  "WAITING = {Created, Released}"

definition SETTLED_AS :: "run_status \<Rightarrow> settled option" where
  "SETTLED_AS s = (case s of Created \<Rightarrow> Some Never_Started | Stuck \<Rightarrow> Some Lost | Released \<Rightarrow> Some Lost
     | Running \<Rightarrow> Some Outlived | _ \<Rightarrow> None)"

definition SETTLED :: "settled set" where
  "SETTLED = {Never_Started, Lost}"

definition settled_as :: "run_status \<Rightarrow> bool \<Rightarrow> settled option" where
  "settled_as status parent_closed = (if parent_closed then SETTLED_AS status else None)"

definition closes :: "run_status \<Rightarrow> settled option \<Rightarrow> bool" where
  "closes status st = (status \<in> ENDED \<or> (\<exists>x \<in> SETTLED. st = Some x))"

datatype counted = Status run_status | Apart settled

definition counted_as :: "run_status \<Rightarrow> settled option \<Rightarrow> counted" where
  "counted_as status st = (case st of Some x \<Rightarrow> if x \<in> SETTLED then Apart x else Status status | None \<Rightarrow> Status status)"

definition split_slots :: "nat \<Rightarrow> bool \<Rightarrow> nat \<times> nat" where
  "split_slots slots memo = (if memo then (0, slots) else (slots, 0))"

section \<open>The memoized walk\<close>

type_synonym statuses = "(string \<times> run_status) list"
type_synonym parents = "string \<rightharpoonup> string"

function closed_walk ::
    "statuses \<Rightarrow> parents \<Rightarrow> (string \<rightharpoonup> bool) \<Rightarrow> string list \<Rightarrow> string option \<Rightarrow> string list \<times> string option \<times> (string \<rightharpoonup> bool)" where
  \<comment> \<open>the chain of waiting runs passed, where the walk stopped, and the memo\<close>
  "closed_walk status_of parent_of memo chain cursor =
     (case cursor of
        None \<Rightarrow> (chain, cursor, memo)
      | Some v \<Rightarrow>
          (case map_of status_of v of
             None \<Rightarrow> (chain, cursor, memo)
           | Some status \<Rightarrow>
               if memo v \<noteq> None \<or> v \<in> set chain then (chain, cursor, memo)
               else if status \<notin> WAITING then (chain, cursor, memo(v \<mapsto> status \<in> ENDED))
               else closed_walk status_of parent_of memo (chain @ [v]) (parent_of v)))"
  by pat_completeness auto
termination
proof (relation "measure (\<lambda>(status_of, parent_of, memo, chain, cursor). card (fst ` set status_of - set chain))")
  fix status_of :: statuses and parent_of memo chain cursor v status
  assume "map_of status_of v = Some status" "\<not> (memo v \<noteq> None \<or> v \<in> set chain)"
  then have "v \<in> fst ` set status_of - set chain" by (force dest: map_of_SomeD)
  then have "fst ` set status_of - set (chain @ [v]) \<subset> fst ` set status_of - set chain" by auto
  then have "card (fst ` set status_of - set (chain @ [v])) < card (fst ` set status_of - set chain)"
    by (rule psubset_card_mono [rotated]) simp
  then show "((status_of, parent_of, memo, chain @ [v], parent_of v), status_of, parent_of, memo, chain, cursor)
      \<in> measure (\<lambda>(status_of, parent_of, memo, chain, cursor). card (fst ` set status_of - set chain))"
    by simp
qed simp

declare closed_walk.simps [simp del]

definition closed_get :: "(string \<rightharpoonup> bool) \<Rightarrow> string option \<Rightarrow> bool \<Rightarrow> bool" where
  \<comment> \<open>\<open>memo.get(v, missing)\<close>\<close>
  "closed_get memo v missing =
     (case Option.bind v memo of None \<Rightarrow> missing | Some b \<Rightarrow> b)"

definition is_closed :: "statuses \<Rightarrow> parents \<Rightarrow> (string \<rightharpoonup> bool) \<Rightarrow> string \<Rightarrow> bool \<times> (string \<rightharpoonup> bool)" where
  \<comment> \<open>\<open>_closed\<close>: the verdict and the memo it leaves\<close>
  "is_closed status_of parent_of memo start =
     (case closed_walk status_of parent_of memo [] (Some start) of (chain, cursor, memo) \<Rightarrow>
        let verdict = closed_get memo cursor False;
            memo = fold (\<lambda>v m. m(v \<mapsto> verdict)) chain memo
        in (closed_get memo (Some start) verdict, memo))"

fun settle_loop :: "statuses \<Rightarrow> parents \<Rightarrow> statuses \<Rightarrow> (string \<rightharpoonup> bool) \<Rightarrow> (string \<times> settled) list" where
  "settle_loop status_of parent_of [] memo = []"
| "settle_loop status_of parent_of ((verstr, status) # rest) memo =
     (case (SETTLED_AS status, parent_of verstr) of
        (Some _, Some parent) \<Rightarrow>
          if parent \<noteq> [] \<and> parent \<noteq> verstr
          then (case is_closed status_of parent_of memo parent of (c, memo) \<Rightarrow>
                  (case settled_as status c of
                     Some s \<Rightarrow> (verstr, s) # settle_loop status_of parent_of rest memo
                   | None \<Rightarrow> settle_loop status_of parent_of rest memo))
          else settle_loop status_of parent_of rest memo
      | _ \<Rightarrow> settle_loop status_of parent_of rest memo)"

definition settled_runs :: "statuses \<Rightarrow> parents \<Rightarrow> (string \<times> settled) list" where
  "settled_runs status_of parent_of = settle_loop status_of parent_of status_of Map.empty"

section \<open>The variant over a subtree\<close>

fun closed_above_from :: "(string \<Rightarrow> run_status) \<Rightarrow> string list \<Rightarrow> bool" where
  "closed_above_from status_above [] = False"
| "closed_above_from status_above (a # chain) =
     (if status_above a \<notin> WAITING then status_above a \<in> ENDED else closed_above_from status_above chain)"

definition closed_above :: "run_status \<Rightarrow> string list \<Rightarrow> (string \<Rightarrow> run_status) \<Rightarrow> bool" where
  "closed_above status chain status_above =
     (if SETTLED_AS status = None then False else closed_above_from status_above chain)"

fun settle_below ::
    "(string \<Rightarrow> run_status) \<Rightarrow> parents \<Rightarrow> string list \<Rightarrow> (string \<rightharpoonup> bool) \<Rightarrow> (string \<times> settled option) list" where
  \<comment> \<open>the runs below the outer one, each before its children\<close>
  "settle_below statuses parent_of [] memo = []"
| "settle_below statuses parent_of (verstr # order) memo =
     (let s = settled_as (statuses verstr) (closed_get memo (parent_of verstr) False)
      in (verstr, s) # settle_below statuses parent_of order (memo(verstr \<mapsto> closes (statuses verstr) s)))"

definition subtree_settled ::
    "string list \<Rightarrow> (string \<Rightarrow> run_status) \<Rightarrow> parents \<Rightarrow> string list \<Rightarrow> (string \<Rightarrow> run_status)
     \<Rightarrow> (string \<times> settled option) list" where
  \<comment> \<open>the order starts with the outer run\<close>
  "subtree_settled order statuses parent_of chain status_above =
     (case order of
        [] \<Rightarrow> []
      | outer # below \<Rightarrow>
          let s = settled_as (statuses outer) (closed_above (statuses outer) chain status_above)
          in (outer, s) # settle_below statuses parent_of (filter (\<lambda>v. v \<noteq> outer) below)
               [outer \<mapsto> closes (statuses outer) s])"

section \<open>Closing, inductively\<close>

inductive closes_children :: "statuses \<Rightarrow> parents \<Rightarrow> string \<Rightarrow> bool" for status_of parent_of where
  ended: "map_of status_of v = Some s \<Longrightarrow> s \<in> ENDED \<Longrightarrow> closes_children status_of parent_of v"
| passes: "map_of status_of v = Some s \<Longrightarrow> s \<in> WAITING \<Longrightarrow> parent_of v = Some p \<Longrightarrow>
    closes_children status_of parent_of p \<Longrightarrow> closes_children status_of parent_of v"

lemma ended_not_waiting: "s \<in> ENDED \<Longrightarrow> s \<notin> WAITING"
  by (auto simp: ENDED_def WAITING_def)

lemma closes_children_iff:
  "closes_children S P v \<longleftrightarrow> (case map_of S v of None \<Rightarrow> False
     | Some s \<Rightarrow> s \<in> ENDED \<or> s \<in> WAITING \<and> (\<exists>p. P v = Some p \<and> closes_children S P p))"
  by (subst closes_children.simps) (auto split: option.splits)

definition memo_ok :: "statuses \<Rightarrow> parents \<Rightarrow> (string \<rightharpoonup> bool) \<Rightarrow> bool" where
  "memo_ok S P memo \<longleftrightarrow> (\<forall>v b. memo v = Some b \<longrightarrow> b = closes_children S P v)"

text \<open>The chain of a walk: waiting runs, each the parent of the one before.\<close>

definition chain_ok :: "statuses \<Rightarrow> parents \<Rightarrow> string list \<Rightarrow> string option \<Rightarrow> bool" where
  "chain_ok S P chain cursor \<longleftrightarrow>
     (\<forall>i < length chain. (\<exists>s. map_of S (chain ! i) = Some s \<and> s \<in> WAITING)
        \<and> P (chain ! i) = (if Suc i < length chain then Some (chain ! Suc i) else cursor))"

lemma chain_ok_snoc:
  assumes "chain_ok S P chain (Some v)" "map_of S v = Some s" "s \<in> WAITING"
  shows "chain_ok S P (chain @ [v]) (P v)"
  unfolding chain_ok_def
proof (intro allI impI conjI)
  fix i assume i: "i < length (chain @ [v])"
  show "\<exists>s. map_of S ((chain @ [v]) ! i) = Some s \<and> s \<in> WAITING"
    using assms i by (cases "i < length chain") (auto simp: chain_ok_def nth_append)
  show "P ((chain @ [v]) ! i) = (if Suc i < length (chain @ [v]) then Some ((chain @ [v]) ! Suc i) else P v)"
    using assms i by (cases "i < length chain"; cases "Suc i < length chain") (auto simp: chain_ok_def nth_append)
qed

text \<open>Every run of a chain closes its children exactly when the run after the chain does.\<close>

lemma chain_verdict:
  assumes "chain_ok S P chain cursor" "i < length chain"
  shows "closes_children S P (chain ! i) \<longleftrightarrow> (\<exists>v. cursor = Some v \<and> closes_children S P v)"
  using assms(2)
proof (induction "length chain - i" arbitrary: i)
  case (Suc n)
  obtain s where s: "map_of S (chain ! i) = Some s" "s \<in> WAITING" using assms(1) Suc.prems by (auto simp: chain_ok_def)
  then have "s \<notin> ENDED" using ended_not_waiting by blast
  then have step: "closes_children S P (chain ! i) \<longleftrightarrow> (\<exists>p. P (chain ! i) = Some p \<and> closes_children S P p)"
    using s by (subst closes_children_iff) simp
  show ?case
  proof (cases "Suc i < length chain")
    case True
    then have "P (chain ! i) = Some (chain ! Suc i)" using assms(1) Suc.prems by (simp add: chain_ok_def)
    then show ?thesis using step Suc.hyps(1) [of "Suc i"] Suc.hyps(2) True by simp
  next
    case False
    then have "P (chain ! i) = cursor" using assms(1) Suc.prems by (simp add: chain_ok_def)
    then show ?thesis using step by simp
  qed
qed simp

text \<open>A chain that comes back to itself closes nothing.\<close>

lemma loop_open:
  assumes "chain_ok S P chain (Some v)" "v \<in> set chain" "closes_children S P x"
  shows "x \<notin> set chain"
  using assms(3)
proof (induction rule: closes_children.induct)
  case (ended x s)
  then show ?case using assms(1) ended_not_waiting by (auto simp: chain_ok_def in_set_conv_nth)
next
  case (passes x s p)
  show ?case
  proof
    assume "x \<in> set chain"
    then obtain i where i: "i < length chain" "x = chain ! i" by (auto simp: in_set_conv_nth)
    then have "P x = Some p \<longrightarrow> p \<in> set chain" using assms(1,2) by (cases "Suc i < length chain") (auto simp: chain_ok_def)
    then show False using passes by simp
  qed
qed

section \<open>The walk finds what closing says\<close>

definition closing :: "statuses \<Rightarrow> parents \<Rightarrow> string option \<Rightarrow> bool" where
  "closing S P cursor = (\<exists>v. cursor = Some v \<and> closes_children S P v)"

lemma closed_walk_sound:
  assumes "memo_ok S P memo" "chain_ok S P chain cursor" "closed_walk S P memo chain cursor = (chain', cursor', memo')"
  shows "memo_ok S P memo' \<and> chain_ok S P chain' cursor' \<and> closed_get memo' cursor' False = closing S P cursor'
     \<and> (chain' = chain \<and> cursor' = cursor \<or> (\<exists>v zs. cursor = Some v \<and> chain' = chain @ v # zs))"
  using assms
proof (induction S P memo chain cursor rule: closed_walk.induct)
  case (1 S P memo chain cursor)
  note mo = 1(2) and co = 1(3) and res = 1(4)
  show ?case
  proof (cases cursor)
    case None
    then show ?thesis using mo co res by (auto simp: closed_walk.simps [of S P memo chain] closed_get_def closing_def)
  next
    case (Some v)
    note v = Some
    have known: "memo v = Some b \<Longrightarrow> b = closes_children S P v" for b using mo by (simp add: memo_ok_def)
    show ?thesis
    proof (cases "map_of S v")
      case None
      then have "\<not> closes_children S P v" by (subst closes_children_iff) simp
      then show ?thesis using None v mo co res known
        by (auto simp: closed_walk.simps [of S P memo chain] closed_get_def closing_def split: option.split)
    next
      case (Some s)
      show ?thesis
      proof (cases "memo v \<noteq> None \<or> v \<in> set chain")
        case True
        have "closes_children S P v \<Longrightarrow> memo v = None \<Longrightarrow> False" using loop_open co v True by blast
        then show ?thesis using Some True v mo co res known
          by (auto simp: closed_walk.simps [of S P memo chain] closed_get_def closing_def split: option.split)
      next
        case False
        show ?thesis
        proof (cases "s \<in> WAITING")
          case True
          have co': "chain_ok S P (chain @ [v]) (P v)" using chain_ok_snoc co v Some True by blast
          have "closed_walk S P memo (chain @ [v]) (P v) = (chain', cursor', memo')"
            using res v Some False True by (simp add: closed_walk.simps [of S P memo chain])
          from 1(1) [OF v Some False _ mo co' this] True v show ?thesis by auto
        next
          case False
          have "closes_children S P v \<longleftrightarrow> s \<in> ENDED" using Some False by (subst closes_children_iff) simp
          then show ?thesis using Some False v mo co res \<open>\<not> (memo v \<noteq> None \<or> v \<in> set chain)\<close>
            by (auto simp: closed_walk.simps [of S P memo chain] closed_get_def closing_def memo_ok_def split: if_splits)
        qed
      qed
    qed
  qed
qed

lemma fold_mark: "fold (\<lambda>v m. m(v \<mapsto> b)) xs m v = (if v \<in> set xs then Some b else m v)"
  by (induction xs arbitrary: m) auto

lemma is_closed_sound:
  assumes "memo_ok S P memo"
  shows "fst (is_closed S P memo start) = closes_children S P start \<and> memo_ok S P (snd (is_closed S P memo start))"
proof -
  obtain chain cursor memo' where w: "closed_walk S P memo [] (Some start) = (chain, cursor, memo')"
    by (metis prod_cases3)
  have "chain_ok S P [] (Some start)" by (simp add: chain_ok_def)
  note walk = closed_walk_sound [OF assms this w]
  define m where "m = fold (\<lambda>v m. m(v \<mapsto> closing S P cursor)) chain memo'"
  have verdict: "closes_children S P v = closing S P cursor" if "v \<in> set chain" for v
    using that chain_verdict [of S P chain cursor] walk by (auto simp: in_set_conv_nth closing_def)
  have m: "memo_ok S P m" using walk verdict by (auto simp: memo_ok_def m_def fold_mark)
  have "closed_get m (Some start) (closing S P cursor) = closes_children S P start"
  proof (cases "m start")
    case None
    then have "chain = []" using walk by (auto simp: m_def fold_mark split: if_splits)
    then show ?thesis using walk None by (auto simp: closed_get_def closing_def)
  qed (use m in \<open>auto simp: closed_get_def memo_ok_def\<close>)
  then show ?thesis using m walk by (simp add: is_closed_def w m_def)
qed

definition settled_of :: "statuses \<Rightarrow> parents \<Rightarrow> string \<Rightarrow> run_status \<Rightarrow> settled option" where
  \<comment> \<open>what settling says of one run: its end under a parent that closes it\<close>
  "settled_of S P v s = (case P v of
     Some p \<Rightarrow> if p \<noteq> [] \<and> p \<noteq> v then settled_as s (closes_children S P p) else None
   | None \<Rightarrow> None)"

lemma settle_loop_sound:
  "memo_ok S P memo \<Longrightarrow>
   settle_loop S P rows memo = List.map_filter (\<lambda>(v, s). map_option (Pair v) (settled_of S P v s)) rows"
proof (induction rows arbitrary: memo)
  case (Cons r rows)
  obtain v s where r: "r = (v, s)" by (cases r)
  have skip: "settled_of S P v s = None" if "SETTLED_AS s = None \<or> P v = None \<or> (\<exists>p. P v = Some p \<and> (p = [] \<or> p = v))"
    using that by (auto simp: settled_of_def settled_as_def split: option.splits)
  show ?case
  proof (cases "SETTLED_AS s = None \<or> P v = None \<or> (\<exists>p. P v = Some p \<and> (p = [] \<or> p = v))")
    case True
    then have "settle_loop S P (r # rows) memo = settle_loop S P rows memo"
      by (auto simp: r split: option.splits)
    then show ?thesis using Cons skip [OF True] by (simp add: r List.map_filter_simps)
  next
    case False
    then obtain x p where p: "SETTLED_AS s = Some x" "P v = Some p" "p \<noteq> []" "p \<noteq> v" by auto
    obtain c m where cm: "is_closed S P memo p = (c, m)" by fastforce
    have c: "c = closes_children S P p" "memo_ok S P m" using is_closed_sound [OF Cons.prems, of p] cm by auto
    show ?thesis using p Cons.IH [OF c(2)]
      by (simp add: r cm c(1) List.map_filter_simps settled_of_def split: option.split)
  qed
qed (simp add: List.map_filter_simps)

lemma settled_runs_eq:
  "settled_runs S P = List.map_filter (\<lambda>(v, s). map_option (Pair v) (settled_of S P v s)) S"
  unfolding settled_runs_def by (rule settle_loop_sound) (simp add: memo_ok_def)

text \<open>
  C21. The memoized walk over a whole application finds exactly the runs an ended outer run settled:
  those with a parent other than themselves that closes its children, where closing is the
  inductive account (ended, or waiting under a parent that closes), so that a missing parent or a
  loop of parents leaves its runs open.
\<close>

theorem settled_runs_sound:
  "settled_runs S P = List.map_filter (\<lambda>(v, s). map_option (Pair v) (settled_of S P v s)) S"
  by (rule settled_runs_eq)

text \<open>A run closes its children exactly when its own status and what it was settled as say so.\<close>

lemma closes_children_settled:
  assumes "map_of S v = Some s" "P v \<noteq> Some []" "P v \<noteq> Some v"
  shows "closes_children S P v \<longleftrightarrow> closes s (settled_of S P v s)"
  using assms
  by (subst closes_children_iff, cases s)
    (auto simp: closes_def settled_of_def settled_as_def SETTLED_AS_def ENDED_def WAITING_def SETTLED_def
      split: option.splits)

end
