(* ===== verification/Run_Tree.thy ===== *)
theory Run_Tree
imports Run_Settle
begin

text \<open>
  The tree of outer and inner runs, from core/tree.py of the experiment SDK: children and
  ancestors from the parent links, the traversal of a subtree, the status a whole subtree rolls up
  to, and the two ways the program computes it. Dictionaries are association lists in insertion
  order, so that every traversal is over finite data, parent loops included.
\<close>

section \<open>Links\<close>

type_synonym children_map = "(string \<times> string list) list"
type_synonym parent_links = "(string \<times> string) list"

definition kids :: "children_map \<Rightarrow> string \<Rightarrow> string list" where
  \<comment> \<open>\<open>children_of.get(v, [])\<close>\<close>
  "kids children_of v = (case map_of children_of v of Some cs \<Rightarrow> cs | None \<Rightarrow> [])"

definition add_child :: "string \<times> string option \<Rightarrow> children_map \<Rightarrow> children_map" where
  "add_child node children_of =
     (case snd node of
        Some p \<Rightarrow> if p \<noteq> [] \<and> p \<noteq> fst node then od_put p (kids children_of p @ [fst node]) children_of
                  else children_of
      | None \<Rightarrow> children_of)"

definition children_by_parent :: "(string \<times> string option) list \<Rightarrow> children_map" where
  "children_by_parent nodes = fold add_child nodes []"

definition parent_map :: "(string \<times> string option) list \<Rightarrow> parent_links" where
  "parent_map nodes = fold (\<lambda>(v, p) m. case p of Some q \<Rightarrow> if q \<noteq> [] then od_put v q m else m | None \<Rightarrow> m) nodes []"

lemma kids_od_put: "kids (od_put p cs m) v = (if v = p then cs else kids m v)"
  by (simp add: kids_def)

definition child_of :: "string \<Rightarrow> string \<times> string option \<Rightarrow> bool" where
  "child_of p node = (snd node = Some p \<and> p \<noteq> [] \<and> p \<noteq> fst node)"

lemma kids_fold_add: "kids (fold add_child nodes m) p = kids m p @ map fst (filter (child_of p) nodes)"
proof (induction nodes arbitrary: m)
  case (Cons n nodes)
  have "kids (add_child n m) p = kids m p @ (if child_of p n then [fst n] else [])"
    by (auto simp: add_child_def child_of_def kids_od_put split: option.splits)
  then show ?case using Cons by simp
qed simp

text \<open>The children of a run are the rows that name it as their parent, in row order.\<close>

lemma kids_children_by_parent: "kids (children_by_parent nodes) p = map fst (filter (child_of p) nodes)"
  unfolding children_by_parent_def by (simp add: kids_fold_add) (simp add: kids_def)

lemma map_of_parent_fold:
  "distinct (map fst nodes) \<Longrightarrow> set (map fst nodes) \<inter> fst ` set m = {} \<Longrightarrow>
   map_of (fold (\<lambda>(v, p) m. case p of Some q \<Rightarrow> if q \<noteq> [] then od_put v q m else m | None \<Rightarrow> m) nodes m) v =
     (case map_of nodes v of Some (Some q) \<Rightarrow> if q \<noteq> [] then Some q else None | Some None \<Rightarrow> None | None \<Rightarrow> map_of m v)"
proof (induction nodes arbitrary: m)
  case (Cons n nodes)
  obtain w p where n: "n = (w, p)" by (cases n)
  have none: "map_of m w = None" using Cons.prems(2) n by (simp add: map_of_eq_None_iff)
  have none': "map_of nodes w = None" using Cons.prems(1) n by (simp add: map_of_eq_None_iff)
  show ?case using Cons n none none'
    by (auto simp: fst_od_put split: option.splits)
qed simp

lemma map_of_parent_map:
  "distinct (map fst nodes) \<Longrightarrow>
   map_of (parent_map nodes) v = (case map_of nodes v of Some (Some q) \<Rightarrow> if q \<noteq> [] then Some q else None | _ \<Rightarrow> None)"
  unfolding parent_map_def by (simp add: map_of_parent_fold split: option.split)

section \<open>Everything below a run\<close>

definition edges :: "children_map \<Rightarrow> (string \<times> string) set" where
  "edges children_of = {(u, v). v \<in> set (kids children_of u)}"

definition mentioned :: "children_map \<Rightarrow> string set" where
  "mentioned children_of = (\<Union>cs \<in> snd ` set children_of. set cs)"

lemma finite_mentioned [simp]: "finite (mentioned children_of)"
  by (simp add: mentioned_def)

lemma kids_mentioned: "set (kids children_of v) \<subseteq> mentioned children_of"
proof (cases "map_of children_of v")
  case (Some cs)
  then have "(v, cs) \<in> set children_of" by (rule map_of_SomeD)
  then show ?thesis using Some by (force simp: kids_def mentioned_def)
qed (simp add: kids_def)

function subtree_loop :: "children_map \<Rightarrow> string list \<Rightarrow> string list \<Rightarrow> string list" where
  \<comment> \<open>the stack's top is its head; the runs already out are the seen ones\<close>
  "subtree_loop children_of out [] = out"
| "subtree_loop children_of out (current # stack) =
     (if current \<in> set out then subtree_loop children_of out stack
      else subtree_loop children_of (out @ [current]) (rev (kids children_of current) @ stack))"
  by pat_completeness auto

termination
proof (relation "measures [\<lambda>(children_of, out, stack). card ((set stack \<union> mentioned children_of) - set out),
                           \<lambda>(children_of, out, stack). length stack]")
  fix children_of out current stack
  assume c: "(current :: string) \<in> set out"
  have "card ((set stack \<union> mentioned children_of) - set out)
      \<le> card ((set (current # stack) \<union> mentioned children_of) - set out)"
    by (rule card_mono) auto
  then show "((children_of, out, stack), children_of, out, current # stack)
      \<in> measures [\<lambda>(children_of, out, stack). card ((set stack \<union> mentioned children_of) - set out),
                  \<lambda>(children_of, out, stack). length stack]"
    by (simp add: le_less)
next
  fix children_of out current stack
  assume c: "(current :: string) \<notin> set out"
  have "(set (rev (kids children_of current) @ stack) \<union> mentioned children_of) - set (out @ [current])
      \<subset> (set (current # stack) \<union> mentioned children_of) - set out"
    using c kids_mentioned [of children_of current] by auto
  then have "card ((set (rev (kids children_of current) @ stack) \<union> mentioned children_of) - set (out @ [current]))
      < card ((set (current # stack) \<union> mentioned children_of) - set out)"
    by (rule psubset_card_mono [rotated]) simp
  then show "((children_of, out @ [current], rev (kids children_of current) @ stack), children_of, out, current # stack)
      \<in> measures [\<lambda>(children_of, out, stack). card ((set stack \<union> mentioned children_of) - set out),
                  \<lambda>(children_of, out, stack). length stack]"
    by simp
qed simp

definition subtree_verstrs :: "string \<Rightarrow> children_map \<Rightarrow> string list" where
  "subtree_verstrs verstr children_of = subtree_loop children_of [] [verstr]"

definition covered :: "children_map \<Rightarrow> string list \<Rightarrow> string list \<Rightarrow> bool" where
  \<comment> \<open>what is below a run already out is out, or waits on the stack\<close>
  "covered children_of out stack = (\<forall>u \<in> set out. set (kids children_of u) \<subseteq> set out \<union> set stack)"

lemma covered_skip: "covered ch out (c # stack) \<Longrightarrow> c \<in> set out \<Longrightarrow> covered ch out stack"
  by (auto simp: covered_def)

lemma covered_take: "covered ch out (c # stack) \<Longrightarrow> covered ch (out @ [c]) (rev (kids ch c) @ stack)"
  by (auto simp: covered_def)

lemma subtree_loop_covered:
  "covered ch out stack \<Longrightarrow> distinct out \<Longrightarrow>
   distinct (subtree_loop ch out stack) \<and> covered ch (subtree_loop ch out stack) []
   \<and> set out \<union> set stack \<subseteq> set (subtree_loop ch out stack)"
proof (induction ch out stack rule: subtree_loop.induct)
  case (2 ch out c stack)
  show ?case
  proof (cases "c \<in> set out")
    case True
    then show ?thesis using 2 covered_skip [OF 2(3) True] by auto
  next
    case False
    then show ?thesis using 2 covered_take [OF 2(3)] by auto
  qed
qed simp

lemma subtree_loop_within:
  "set (subtree_loop ch out stack) \<subseteq> set out \<union> (edges ch)\<^sup>* `` set stack"
proof (induction ch out stack rule: subtree_loop.induct)
  case (2 ch out c stack)
  have "x \<in> (edges ch)\<^sup>* `` {c}" if "x \<in> (edges ch)\<^sup>* `` set (kids ch c)" for x
    using that by (auto simp: edges_def intro: converse_rtrancl_into_rtrancl)
  then show ?case using 2 by (auto simp: Image_Un) blast+
qed simp

lemma subtree_verstrs_spec:
  "distinct (subtree_verstrs v ch) \<and> set (subtree_verstrs v ch) = (edges ch)\<^sup>* `` {v}"
proof
  have "covered ch [] [v]" by (simp add: covered_def)
  note loop = subtree_loop_covered [OF this distinct.simps(1) [THEN iffD2, OF TrueI]]
  show "distinct (subtree_verstrs v ch)" using loop by (simp add: subtree_verstrs_def)
  have "x \<in> set (subtree_verstrs v ch)" if "(v, x) \<in> (edges ch)\<^sup>*" for x
    using that
  proof (induction rule: rtrancl_induct)
    case base
    then show ?case using loop by (simp add: subtree_verstrs_def)
  next
    case (step y z)
    then show ?case using loop by (auto simp: subtree_verstrs_def covered_def edges_def)
  qed
  then show "set (subtree_verstrs v ch) = (edges ch)\<^sup>* `` {v}"
    using subtree_loop_within [of ch "[]" "[v]"] by (auto simp: subtree_verstrs_def)
qed

text \<open>
  C32. The traversal ends on every input, loops of parents included, and lists the run and
  everything reachable below it, each once.
\<close>

theorem subtree_verstrs_reachable:
  "distinct (subtree_verstrs v ch) \<and> set (subtree_verstrs v ch) = (edges ch)\<^sup>* `` {v}"
  by (rule subtree_verstrs_spec)

text \<open>The run itself comes first, and every other run after one of its parents.\<close>

definition parents_first :: "children_map \<Rightarrow> string list \<Rightarrow> bool" where
  "parents_first ch out = (\<forall>i. 0 < i \<longrightarrow> i < length out \<longrightarrow> (\<exists>j < i. out ! i \<in> set (kids ch (out ! j))))"

lemma parents_first_snoc:
  "parents_first ch out \<Longrightarrow> out = [] \<or> (\<exists>u \<in> set out. c \<in> set (kids ch u)) \<Longrightarrow> parents_first ch (out @ [c])"
  unfolding parents_first_def
proof (intro allI impI)
  fix i
  assume old: "\<forall>i. 0 < i \<longrightarrow> i < length out \<longrightarrow> (\<exists>j < i. out ! i \<in> set (kids ch (out ! j)))"
    and c: "out = [] \<or> (\<exists>u \<in> set out. c \<in> set (kids ch u))" and i: "0 < i" "i < length (out @ [c])"
  show "\<exists>j < i. (out @ [c]) ! i \<in> set (kids ch ((out @ [c]) ! j))"
  proof (cases "i < length out")
    case True
    then obtain j where "j < i" "out ! i \<in> set (kids ch (out ! j))" using old i by blast
    then show ?thesis using True by (intro exI [of _ j]) (simp add: nth_append)
  next
    case False
    then have "i = length out" "out \<noteq> []" using i by auto
    then obtain u where "u \<in> set out" "c \<in> set (kids ch u)" using c by blast
    then obtain j where "j < length out" "c \<in> set (kids ch (out ! j))" by (auto simp: in_set_conv_nth)
    then show ?thesis using \<open>i = length out\<close> by (intro exI [of _ j]) (simp add: nth_append)
  qed
qed

lemma subtree_loop_parents_first:
  "parents_first ch out \<Longrightarrow> out \<noteq> [] \<Longrightarrow> (\<forall>c \<in> set stack. \<exists>u \<in> set out. c \<in> set (kids ch u)) \<Longrightarrow>
   parents_first ch (subtree_loop ch out stack) \<and> hd (subtree_loop ch out stack) = hd out"
proof (induction ch out stack rule: subtree_loop.induct)
  case (2 ch out c stack)
  have "parents_first ch (out @ [c])" using 2(3,5) by (intro parents_first_snoc) auto
  then show ?case using 2 by auto
qed simp

lemma subtree_verstrs_order:
  "parents_first ch (subtree_verstrs v ch) \<and> subtree_verstrs v ch \<noteq> [] \<and> hd (subtree_verstrs v ch) = v"
proof -
  have "subtree_verstrs v ch = subtree_loop ch [v] (rev (kids ch v))" by (simp add: subtree_verstrs_def)
  moreover have "v \<in> set (subtree_verstrs v ch)" using subtree_verstrs_spec [of v ch] by simp
  moreover have "parents_first ch [v]" by (simp add: parents_first_def)
  ultimately show ?thesis using subtree_loop_parents_first [of ch "[v]" "rev (kids ch v)"] by auto
qed

section \<open>The runs above a run\<close>

lemma links_shrink:
  assumes "c \<notin> set seen"
  shows "card ((set_option (map_of parent_of c) \<union> snd ` set parent_of) - set (c # seen))
       < card ((set_option (Some c) \<union> snd ` set parent_of) - set seen)"
proof (rule psubset_card_mono)
  have "set_option (map_of parent_of c) \<subseteq> snd ` set parent_of" by (force dest: map_of_SomeD)
  then show "(set_option (map_of parent_of c) \<union> snd ` set parent_of) - set (c # seen)
      \<subset> (set_option (Some c) \<union> snd ` set parent_of) - set seen" using assms by auto
qed simp

function ancestors_loop :: "parent_links \<Rightarrow> string list \<Rightarrow> string list \<Rightarrow> string option \<Rightarrow> string list" where
  "ancestors_loop parent_of chain seen cursor =
     (case cursor of
        None \<Rightarrow> chain
      | Some c \<Rightarrow>
          if c = [] \<or> c \<in> set seen then chain
          else ancestors_loop parent_of (chain @ [c]) (c # seen) (map_of parent_of c))"
  by pat_completeness auto

termination
  by (relation "measure (\<lambda>(parent_of, chain, seen, cursor). card ((set_option cursor \<union> snd ` set parent_of) - set seen))")
    (use links_shrink in auto)

declare ancestors_loop.simps [simp del]

definition ancestors :: "string \<Rightarrow> parent_links \<Rightarrow> string list" where
  "ancestors verstr parent_of = ancestors_loop parent_of [] [verstr] (map_of parent_of verstr)"

fun until_archived :: "(string \<Rightarrow> bool) \<Rightarrow> string list \<Rightarrow> string list" where
  "until_archived is_archived [] = []"
| "until_archived is_archived (up # chain) = up # (if is_archived up then [] else until_archived is_archived chain)"

definition counted_chain :: "string \<Rightarrow> parent_links \<Rightarrow> (string \<Rightarrow> bool) \<Rightarrow> string list" where
  "counted_chain verstr parent_of is_archived =
     (if is_archived verstr then [] else until_archived is_archived (ancestors verstr parent_of))"

text \<open>The chain of parents from a run up, when it ends.\<close>

inductive chain_from :: "parent_links \<Rightarrow> string option \<Rightarrow> string list \<Rightarrow> bool" for parent_of where
  ends: "cursor = None \<or> cursor = Some [] \<Longrightarrow> chain_from parent_of cursor []"
| goes_up: "c \<noteq> [] \<Longrightarrow> chain_from parent_of (map_of parent_of c) xs \<Longrightarrow> chain_from parent_of (Some c) (c # xs)"

inductive_simps chain_from_simps [simp]:
  "chain_from P None xs"
  "chain_from P (Some c) xs"

lemma chain_from_unique: "chain_from P cursor xs \<Longrightarrow> chain_from P cursor ys \<Longrightarrow> xs = ys"
proof (induction arbitrary: ys rule: chain_from.induct)
  case (ends cursor)
  then show ?case by auto
next
  case (goes_up c xs)
  from goes_up.prems goes_up.hyps(1) obtain zs where "ys = c # zs" "chain_from P (map_of P c) zs" by auto
  then show ?case using goes_up.IH by blast
qed

lemma chain_from_member: "chain_from P cursor xs \<Longrightarrow> x \<in> set xs \<Longrightarrow> \<exists>ys. chain_from P (Some x) ys \<and> length ys \<le> length xs"
proof (induction rule: chain_from.induct)
  case (goes_up c xs)
  have "chain_from P (Some c) (c # xs)" using goes_up.hyps by simp
  then show ?case using goes_up.IH goes_up.prems by (metis le_SucI length_Cons order_refl set_ConsD)
qed simp

lemma chain_from_distinct: "chain_from P cursor xs \<Longrightarrow> distinct xs"
proof (induction rule: chain_from.induct)
  case (goes_up c xs)
  have "c \<notin> set xs"
  proof
    assume "c \<in> set xs"
    then obtain ys where ys: "chain_from P (Some c) ys" "length ys \<le> length xs"
      using goes_up.hyps(2) chain_from_member by blast
    have "chain_from P (Some c) (c # xs)" using goes_up.hyps by simp
    then have "ys = c # xs" using ys(1) chain_from_unique by blast
    then show False using ys(2) by simp
  qed
  then show ?case using goes_up.IH by simp
qed simp

lemma ancestors_loop_chain:
  "chain_from P cursor xs \<Longrightarrow> set xs \<inter> set seen = {} \<Longrightarrow> ancestors_loop P chain seen cursor = chain @ xs"
proof (induction arbitrary: chain seen rule: chain_from.induct)
  case (ends cursor)
  then show ?case by (subst ancestors_loop.simps) (auto split: option.split)
next
  case (goes_up c xs)
  have "chain_from P (Some c) (c # xs)" using goes_up.hyps by simp
  then have "c \<notin> set xs" using chain_from_distinct by fastforce
  then show ?case using goes_up.hyps(1) goes_up.IH goes_up.prems by (subst ancestors_loop.simps) simp
qed

text \<open>
  The runs above a run whose parent links do not loop are its parent, then the runs above that
  one; they are distinct, and none of them is the run itself.
\<close>

theorem ancestors_climb:
  assumes "chain_from P (Some v) xs" "v \<noteq> []"
  shows "ancestors v P = (case map_of P v of None \<Rightarrow> []
           | Some p \<Rightarrow> if p = [] then [] else p # ancestors p P) \<and> distinct (v # ancestors v P)"
proof -
  have tail: "ancestors w P = tl ys" if "chain_from P (Some w) ys" "w \<noteq> []" for w ys
  proof -
    obtain zs where "ys = w # zs" "chain_from P (map_of P w) zs" using \<open>chain_from P (Some w) ys\<close> \<open>w \<noteq> []\<close> by auto
    moreover have "w \<notin> set zs" using chain_from_distinct [OF that(1)] \<open>ys = w # zs\<close> by simp
    ultimately show ?thesis using ancestors_loop_chain [of P "map_of P w" zs "[w]" "[]"]
      by (simp add: ancestors_def)
  qed
  obtain zs where zs: "xs = v # zs" "chain_from P (map_of P v) zs" using assms by auto
  have "distinct (v # ancestors v P)" using tail [OF assms] chain_from_distinct [OF assms(1)] zs by simp
  then show ?thesis using tail [OF assms] zs tail by (auto split: option.split)
qed

definition three_runs :: parent_links where
  "three_runs = [(''c'', ''b''), (''b'', ''a'')]"

theorem ancestors_climb_witness: "ancestors ''c'' three_runs = [''b'', ''a'']"
proof -
  have c: "chain_from three_runs (Some ''c'') [''c'', ''b'', ''a'']"
    and b: "chain_from three_runs (Some ''b'') [''b'', ''a'']"
    and a: "chain_from three_runs (Some ''a'') [''a'']" by (simp_all add: three_runs_def)
  show ?thesis using ancestors_climb [OF c] ancestors_climb [OF b] ancestors_climb [OF a]
    by (simp add: three_runs_def)
qed

section \<open>Loops of parents\<close>

function walk_up :: "parent_links \<Rightarrow> string set \<Rightarrow> string list \<Rightarrow> string option \<Rightarrow> string list option" where
  \<comment> \<open>one pass of \<open>_has_cycle\<close>: the path walked, or None on meeting it again\<close>
  "walk_up parent_of cleared path cursor =
     (case cursor of
        None \<Rightarrow> Some path
      | Some c \<Rightarrow>
          if c = [] \<or> c \<in> cleared then Some path
          else if c \<in> set path then None
          else walk_up parent_of cleared (c # path) (map_of parent_of c))"
  by pat_completeness auto

termination
  by (relation "measure (\<lambda>(parent_of, cleared, path, cursor). card ((set_option cursor \<union> snd ` set parent_of) - set path))")
    (use links_shrink in auto)

declare walk_up.simps [simp del]

fun cycle_loop :: "parent_links \<Rightarrow> string set \<Rightarrow> string list \<Rightarrow> bool" where
  "cycle_loop parent_of cleared [] = False"
| "cycle_loop parent_of cleared (start # rest) =
     (case walk_up parent_of cleared [] (Some start) of
        None \<Rightarrow> True
      | Some path \<Rightarrow> cycle_loop parent_of (cleared \<union> set path) rest)"

definition has_cycle :: "string list \<Rightarrow> parent_links \<Rightarrow> bool" where
  "has_cycle verstrs parent_of = cycle_loop parent_of {} verstrs"

definition rooted :: "parent_links \<Rightarrow> string \<Rightarrow> bool" where
  \<comment> \<open>the parent links from a run end\<close>
  "rooted P v = (\<exists>xs. chain_from P (Some v) xs)"

lemma walk_up_rooted:
  assumes "walk_up P cleared path cursor = Some path'" "\<forall>x \<in> cleared. rooted P x"
    "(\<exists>xs. chain_from P cursor xs) \<Longrightarrow> \<forall>x \<in> set path. rooted P x"
  shows "(\<exists>xs. chain_from P cursor xs) \<and> (\<forall>x \<in> set path'. rooted P x)"
  using assms
proof (induction P cleared path cursor rule: walk_up.induct)
  case (1 P cleared path cursor)
  show ?case
  proof (cases cursor)
    case None
    then show ?thesis using 1 by (auto simp: walk_up.simps [of P cleared path])
  next
    case (Some c)
    note c = Some
    show ?thesis
    proof (cases "c = [] \<or> c \<in> cleared")
      case True
      then have "\<exists>xs. chain_from P cursor xs" using 1(3) c by (auto simp: rooted_def)
      then show ?thesis using 1 c True by (auto simp: walk_up.simps [of P cleared path])
    next
      case False
      then have new: "c \<notin> set path" and next': "walk_up P cleared (c # path) (map_of P c) = Some path'"
        using 1(2) c by (auto simp: walk_up.simps [of P cleared path] split: if_splits)
      have up: "\<exists>xs. chain_from P cursor xs" if "\<exists>xs. chain_from P (map_of P c) xs"
        using that c False by auto
      have "(\<exists>xs. chain_from P (map_of P c) xs) \<and> (\<forall>x \<in> set path'. rooted P x)"
        by (rule 1(1) [OF c False new next' 1(3)]) (use up 1(4) c in \<open>auto simp: rooted_def\<close>)
      then show ?thesis using up by blast
    qed
  qed
qed

lemma walk_up_none:
  "chain_from P cursor xs \<Longrightarrow> set xs \<inter> set path = {} \<Longrightarrow> walk_up P cleared path cursor \<noteq> None"
proof (induction arbitrary: path rule: chain_from.induct)
  case (ends cursor)
  then show ?case by (subst walk_up.simps) (auto split: option.split)
next
  case (goes_up c xs)
  have "chain_from P (Some c) (c # xs)" using goes_up.hyps by simp
  then have "c \<notin> set xs" using chain_from_distinct by fastforce
  then show ?case using goes_up.hyps(1) goes_up.IH goes_up.prems by (subst walk_up.simps) simp
qed

lemma cycle_loop_iff:
  "\<forall>x \<in> cleared. rooted P x \<Longrightarrow> cycle_loop P cleared vs \<longleftrightarrow> (\<exists>v \<in> set vs. \<not> rooted P v)"
proof (induction vs arbitrary: cleared)
  case (Cons v vs)
  show ?case
  proof (cases "walk_up P cleared [] (Some v)")
    case None
    then have "\<not> chain_from P (Some v) xs" for xs
      using walk_up_none [of P "Some v" xs "[]" cleared] by auto
    then have "\<not> rooted P v" by (simp add: rooted_def del: chain_from_simps)
    then show ?thesis using None by simp
  next
    case (Some path)
    have "(\<exists>xs. chain_from P (Some v) xs) \<and> (\<forall>x \<in> set path. rooted P x)"
      by (rule walk_up_rooted [OF Some Cons.prems]) simp
    then show ?thesis using Some Cons.IH [of "cleared \<union> set path"] Cons.prems
      by (auto simp: rooted_def simp del: chain_from_simps)
  qed
qed simp

lemma has_cycle_iff: "has_cycle vs P \<longleftrightarrow> (\<exists>v \<in> set vs. \<not> rooted P v)"
  by (simp add: has_cycle_def cycle_loop_iff)

end
