(* ===== verification/Run_Rollup.thy ===== *)
theory Run_Rollup
imports Run_Tree
begin

text \<open>
  The status a tree of runs rolls up to, from core/tree.py of the experiment SDK: what one run adds,
  the precedence of statuses, and the linear post-order pass over a whole application, shown to
  return, with no missing key, exactly the rollup over each run's subtree.
\<close>

section \<open>Rolling up\<close>

definition PRECEDENCE :: "run_status list" where
  "PRECEDENCE = [Failed, Stuck, Running, Created, Succeeded]"

definition rollup_status :: "run_status option list \<Rightarrow> run_status option" where
  "rollup_status statuses = find (\<lambda>c. Some c \<in> set statuses) PRECEDENCE"

definition unclaimed :: "bool \<Rightarrow> run_status option \<Rightarrow> settled option \<Rightarrow> bool" where
  "unclaimed incomplete status settled =
     (incomplete \<and> status \<notin> Some ` ENDED \<and> settled \<notin> Some ` SETTLED)"

definition own_rollup_status :: "run_status option \<Rightarrow> bool \<Rightarrow> bool \<Rightarrow> settled option \<Rightarrow> run_status option" where
  "own_rollup_status status has_children incomplete settled =
     (if settled = Some Lost then Some Failed
      else if settled = Some Never_Started then None
      else let own = (if has_children \<and> status = Some Created then None else status)
           in if unclaimed incomplete status settled then rollup_status [own, Some Created] else own)"

definition rank :: "run_status option \<Rightarrow> nat" where
  \<comment> \<open>\<open>rank.get(own, len(rank))\<close>\<close>
  "rank own = length (takeWhile (\<lambda>c. Some c \<noteq> own) PRECEDENCE)"

definition ranked :: "nat \<Rightarrow> run_status option" where
  \<comment> \<open>\<open>(_PRECEDENCE + (None,))[i]\<close>\<close>
  "ranked i = (map Some PRECEDENCE @ [None]) ! i"

definition lookups :: "(string \<rightharpoonup> nat) \<Rightarrow> string list \<Rightarrow> nat list res" where
  \<comment> \<open>\<open>[best[v] for v in ...]\<close>\<close>
  "lookups best vs = (case those (map best vs) of Some rs \<Rightarrow> Inr rs | None \<Rightarrow> Inl KeyErr)"

fun post_step ::
    "children_map \<Rightarrow> (string \<Rightarrow> run_status option) \<Rightarrow> (string \<rightharpoonup> nat) \<Rightarrow> (string \<times> bool) list
     \<Rightarrow> (string \<rightharpoonup> nat) res + (string \<rightharpoonup> nat) \<times> (string \<times> bool) list" where
  \<comment> \<open>one round of the stack loop: its end (or a missing key), or the next ranks and stack\<close>
  "post_step children_of own best [] = Inl (Inr best)"
| "post_step children_of own best ((node, expanded) # rest) =
     (if best node \<noteq> None then Inr (best, rest)
      else if \<not> expanded
      then Inr (best, rev (map (\<lambda>c. (c, False)) (filter (\<lambda>c. best c = None) (kids children_of node)))
                      @ (node, True) # rest)
      else (case lookups best (kids children_of node) of
              Inl e \<Rightarrow> Inl (Inl e)
            | Inr rs \<Rightarrow> Inr (best(node \<mapsto> foldl min (rank (own node)) rs), rest)))"

partial_function (option) post_loop ::
    "children_map \<Rightarrow> (string \<Rightarrow> run_status option) \<Rightarrow> (string \<rightharpoonup> nat) \<Rightarrow> (string \<times> bool) list
     \<Rightarrow> ((string \<rightharpoonup> nat) res) option" where
  "post_loop children_of own best stack =
     (case post_step children_of own best stack of
        Inl res \<Rightarrow> Some res
      | Inr s \<Rightarrow> post_loop children_of own (fst s) (snd s))"

fun rank_loop :: "children_map \<Rightarrow> (string \<Rightarrow> run_status option) \<Rightarrow> (string \<rightharpoonup> nat) \<Rightarrow> string list
    \<Rightarrow> ((string \<rightharpoonup> nat) res) option" where
  "rank_loop children_of own best [] = Some (Inr best)"
| "rank_loop children_of own best (r # roots) =
     (case post_loop children_of own best [(r, False)] of
        Some (Inr best') \<Rightarrow> rank_loop children_of own best' roots
      | other \<Rightarrow> other)"

definition subtree_statuses :: "string \<Rightarrow> children_map \<Rightarrow> (string \<Rightarrow> run_status option) \<Rightarrow> run_status option list" where
  "subtree_statuses verstr children_of own = map own (subtree_verstrs verstr children_of)"

definition tree_statuses :: "string list \<Rightarrow> children_map \<Rightarrow> (string \<Rightarrow> run_status option) \<Rightarrow> parent_links
    \<Rightarrow> ((string \<times> run_status option) list res) option" where
  \<comment> \<open>None: the pass does not return; \<open>own\<close> is what \<open>_own\<close> says of a run's row\<close>
  "tree_statuses verstrs children_of own parent_of =
     (if has_cycle verstrs parent_of
      then Some (Inr (map (\<lambda>v. (v, rollup_status (subtree_statuses v children_of own))) verstrs))
      else (case rank_loop children_of own Map.empty verstrs of
              None \<Rightarrow> None
            | Some (Inl e) \<Rightarrow> Some (Inl e)
            | Some (Inr best) \<Rightarrow> Some (bind_res (lookups best verstrs) (\<lambda>rs. Inr (zip verstrs (map ranked rs))))))"

section \<open>Ranks\<close>

lemma rank_simps [simp]:
  "rank (Some Failed) = 0" "rank (Some Stuck) = 1" "rank (Some Running) = 2" "rank (Some Created) = 3"
  "rank (Some Succeeded) = 4" "rank (Some Released) = 5" "rank None = 5"
  by (simp_all add: rank_def PRECEDENCE_def)

lemma rank_le [simp]: "rank s \<le> 5"
  by (cases s; cases "the s") simp_all

lemma rollup_status_unfold:
  "rollup_status xs =
     (if Some Failed \<in> set xs then Some Failed else if Some Stuck \<in> set xs then Some Stuck
      else if Some Running \<in> set xs then Some Running else if Some Created \<in> set xs then Some Created
      else if Some Succeeded \<in> set xs then Some Succeeded else None)"
  by (simp add: rollup_status_def PRECEDENCE_def)

lemma ranked_rollup: "ranked (rank (rollup_status xs)) = rollup_status xs"
  by (simp add: rollup_status_unfold ranked_def PRECEDENCE_def)

lemma rank_rollup_lower: "x \<in> set xs \<Longrightarrow> rank (rollup_status xs) \<le> rank x"
  by (cases x; cases "the x") (auto simp: rollup_status_unfold)

lemma le_rank_rollup: "n \<le> rank (rollup_status xs) \<longleftrightarrow> n \<le> 5 \<and> (\<forall>x \<in> set xs. n \<le> rank x)"
proof
  assume "n \<le> rank (rollup_status xs)"
  then show "n \<le> 5 \<and> (\<forall>x \<in> set xs. n \<le> rank x)" using rank_rollup_lower order_trans rank_le by metis
next
  assume *: "n \<le> 5 \<and> (\<forall>x \<in> set xs. n \<le> rank x)"
  then have "Some s \<in> set xs \<Longrightarrow> n \<le> rank (Some s)" for s by blast
  then show "n \<le> rank (rollup_status xs)" using * by (simp add: rollup_status_unfold del: rank_simps) simp
qed

lemma le_foldl_min: "n \<le> foldl min a rs \<longleftrightarrow> n \<le> (a :: nat) \<and> (\<forall>r \<in> set rs. n \<le> r)"
  by (induction rs arbitrary: a) auto

lemma eq_by_lower_bounds: "(\<And>n. n \<le> a \<longleftrightarrow> n \<le> b) \<Longrightarrow> a = (b :: nat)"
  by (meson le_antisym order_refl)

definition tree_rank :: "children_map \<Rightarrow> (string \<Rightarrow> run_status option) \<Rightarrow> string \<Rightarrow> nat" where
  "tree_rank ch own v = rank (rollup_status (subtree_statuses v ch own))"

lemma le_tree_rank: "n \<le> tree_rank ch own v \<longleftrightarrow> n \<le> 5 \<and> (\<forall>x. (v, x) \<in> (edges ch)\<^sup>* \<longrightarrow> n \<le> rank (own x))"
  using subtree_verstrs_spec [of v ch] by (auto simp: tree_rank_def le_rank_rollup subtree_statuses_def)

lemma tree_rank_step:
  "tree_rank ch own v = foldl min (rank (own v)) (map (tree_rank ch own) (kids ch v))"
proof (rule eq_by_lower_bounds)
  fix n
  have "(\<forall>x. (v, x) \<in> (edges ch)\<^sup>* \<longrightarrow> n \<le> rank (own x)) \<longleftrightarrow>
      n \<le> rank (own v) \<and> (\<forall>c \<in> set (kids ch v). \<forall>x. (c, x) \<in> (edges ch)\<^sup>* \<longrightarrow> n \<le> rank (own x))"
    by (auto simp: edges_def elim: converse_rtranclE intro: converse_rtrancl_into_rtrancl)
  moreover have "n \<le> rank (own v) \<Longrightarrow> n \<le> 5" using rank_le order_trans by blast
  ultimately show "n \<le> tree_rank ch own v \<longleftrightarrow> n \<le> foldl min (rank (own v)) (map (tree_rank ch own) (kids ch v))"
    unfolding le_tree_rank le_foldl_min using le_tree_rank by auto
qed

section \<open>The post-order pass\<close>

definition best_ok :: "children_map \<Rightarrow> (string \<Rightarrow> run_status option) \<Rightarrow> (string \<rightharpoonup> nat) \<Rightarrow> bool" where
  "best_ok ch own best = (\<forall>v r. best v = Some r \<longrightarrow> r = tree_rank ch own v)"

definition passes_node :: "children_map \<Rightarrow> (string \<Rightarrow> run_status option) \<Rightarrow> (string \<rightharpoonup> nat) \<Rightarrow> string set
    \<Rightarrow> (string \<times> bool) list \<Rightarrow> (string \<times> bool) list \<Rightarrow> bool" where
  \<comment> \<open>the pass gets from one stack to a lower one, having ranked the given runs\<close>
  "passes_node ch own best vs stack rest = (\<exists>best'. best_ok ch own best' \<and> dom best \<union> vs \<subseteq> dom best'
     \<and> post_loop ch own best stack = post_loop ch own best' rest)"

lemma post_loop_Cons:
  "post_loop ch own best ((v, e) # rest) =
     (if best v \<noteq> None then post_loop ch own best rest
      else if \<not> e
      then post_loop ch own best
             (rev (map (\<lambda>c. (c, False)) (filter (\<lambda>c. best c = None) (kids ch v))) @ (v, True) # rest)
      else (case lookups best (kids ch v) of
              Inl e \<Rightarrow> Some (Inl e)
            | Inr rs \<Rightarrow> post_loop ch own (best(v \<mapsto> foldl min (rank (own v)) rs)) rest))"
  by (subst post_loop.simps) (simp split: sum.split)

lemma passes_nodeE:
  assumes "passes_node ch own best vs stack rest"
  obtains best' where "best_ok ch own best'" "dom best \<union> vs \<subseteq> dom best'"
    "post_loop ch own best stack = post_loop ch own best' rest"
  using assms unfolding passes_node_def by auto

lemma passes_nodeI:
  "best_ok ch own best' \<Longrightarrow> dom best \<union> vs \<subseteq> dom best' \<Longrightarrow>
   post_loop ch own best stack = post_loop ch own best' rest \<Longrightarrow> passes_node ch own best vs stack rest"
  unfolding passes_node_def by auto

lemma passes_list:
  assumes "\<And>c best rest. c \<in> set cs \<Longrightarrow> best_ok ch own best \<Longrightarrow> passes_node ch own best {c} ((c, False) # rest) rest"
    and "best_ok ch own best"
  shows "passes_node ch own best (set cs) (map (\<lambda>c. (c, False)) cs @ rest) rest"
  using assms
proof (induction cs arbitrary: best)
  case Nil
  show ?case by (rule passes_nodeI [OF Nil(2)]) simp_all
next
  case (Cons c cs)
  have "passes_node ch own best {c} (map (\<lambda>c. (c, False)) (c # cs) @ rest) (map (\<lambda>c. (c, False)) cs @ rest)"
    using Cons.prems(1) [OF _ Cons.prems(2), of c] by simp
  then obtain b1 where b1: "best_ok ch own b1" "dom best \<union> {c} \<subseteq> dom b1"
    "post_loop ch own best (map (\<lambda>c. (c, False)) (c # cs) @ rest) = post_loop ch own b1 (map (\<lambda>c. (c, False)) cs @ rest)"
    by (rule passes_nodeE)
  have "passes_node ch own b1 (set cs) (map (\<lambda>c. (c, False)) cs @ rest) rest"
    by (rule Cons.IH [OF Cons.prems(1) b1(1)]) simp
  then obtain b2 where b2: "best_ok ch own b2" "dom b1 \<union> set cs \<subseteq> dom b2"
    "post_loop ch own b1 (map (\<lambda>c. (c, False)) cs @ rest) = post_loop ch own b2 rest"
    by (rule passes_nodeE)
  have "dom best \<union> set (c # cs) \<subseteq> dom b2" using b1(2) b2(2) unfolding list.set(2) by blast
  then show ?case using b1(3) b2(3) by (intro passes_nodeI [OF b2(1)]) simp_all
qed

lemma lookups_ok:
  "best_ok ch own best \<Longrightarrow> set vs \<subseteq> dom best \<Longrightarrow> lookups best vs = Inr (map (tree_rank ch own) vs)"
proof (induction vs)
  case (Cons v vs)
  then obtain r where r: "best v = Some r" by auto
  then have "r = tree_rank ch own v" using Cons.prems(1) by (simp add: best_ok_def)
  moreover have "lookups best vs = Inr (map (tree_rank ch own) vs)" using Cons by simp
  ultimately show ?case using r by (simp add: lookups_def split: option.splits)
qed (simp add: lookups_def)

lemma passes_run:
  assumes "wf ((edges ch)\<inverse>)" "best_ok ch own best"
  shows "passes_node ch own best {v} ((v, False) # rest) rest"
  using assms
proof (induction v arbitrary: best rest rule: wf_induct_rule)
  case (less v)
  show ?case
  proof (cases "best v")
    case (Some r)
    then show ?thesis by (intro passes_nodeI [OF less.prems]) (auto simp: post_loop_Cons)
  next
    case None
    define cs where "cs = rev (filter (\<lambda>c. best c = None) (kids ch v))"
    have "passes_node ch own best (set cs) (map (\<lambda>c. (c, False)) cs @ (v, True) # rest) ((v, True) # rest)"
      by (rule passes_list [OF less.IH less.prems]) (auto simp: cs_def edges_def)
    moreover have "post_loop ch own best ((v, False) # rest) = post_loop ch own best (map (\<lambda>c. (c, False)) cs @ (v, True) # rest)"
      using None by (simp add: post_loop_Cons [of ch own best v False] cs_def rev_map)
    ultimately obtain b where b: "best_ok ch own b" "dom best \<union> set cs \<subseteq> dom b"
      "post_loop ch own best ((v, False) # rest) = post_loop ch own b ((v, True) # rest)"
      by (metis passes_nodeE)
    have kids: "set (kids ch v) \<subseteq> dom b"
    proof
      fix c assume "c \<in> set (kids ch v)"
      then show "c \<in> dom b" using b(2) by (cases "best c") (auto simp: cs_def)
    qed
    show ?thesis
    proof (cases "b v")
      case (Some r)
      then have "post_loop ch own b ((v, True) # rest) = post_loop ch own b rest" by (simp add: post_loop_Cons)
      then show ?thesis using b Some by (intro passes_nodeI [OF b(1)]) auto
    next
      case None
      then have "post_loop ch own b ((v, True) # rest) = post_loop ch own (b(v \<mapsto> tree_rank ch own v)) rest"
        using lookups_ok [OF b(1) kids] by (simp add: post_loop_Cons tree_rank_step [of ch own v])
      moreover have "best_ok ch own (b(v \<mapsto> tree_rank ch own v))" using b(1) by (simp add: best_ok_def)
      moreover have "dom best \<union> {v} \<subseteq> dom (b(v \<mapsto> tree_rank ch own v))" using b(2) by auto
      ultimately show ?thesis using b(3) by (intro passes_nodeI) simp_all
    qed
  qed
qed

lemma rank_loop_ok:
  assumes "wf ((edges ch)\<inverse>)" "best_ok ch own best"
  shows "\<exists>best'. rank_loop ch own best roots = Some (Inr best') \<and> best_ok ch own best' \<and> dom best \<union> set roots \<subseteq> dom best'"
  using assms(2)
proof (induction roots arbitrary: best)
  case (Cons r roots)
  obtain b where b: "best_ok ch own b" "dom best \<union> {r} \<subseteq> dom b"
    "post_loop ch own best [(r, False)] = post_loop ch own b []"
    using passes_run [OF assms(1) Cons.prems] by (rule passes_nodeE)
  have done_: "post_loop ch own b [] = Some (Inr b)" by (subst post_loop.simps) simp
  from Cons.IH [OF b(1)] obtain b' where b': "rank_loop ch own b roots = Some (Inr b')" "best_ok ch own b'"
    "dom b \<union> set roots \<subseteq> dom b'" by blast
  have "dom best \<union> set (r # roots) \<subseteq> dom b'" using b(2) b'(3) unfolding list.set(2) by blast
  then show ?case using b b' done_ by simp
qed simp

section \<open>Forests\<close>

lemma edges_up:
  assumes "distinct (map fst nodes)" "(u, v) \<in> edges (children_by_parent nodes)"
  shows "map_of (parent_map nodes) v = Some u \<and> u \<noteq> [] \<and> u \<noteq> v \<and> v \<in> set (map fst nodes)"
proof -
  obtain q where "(v, q) \<in> set nodes" "child_of u (v, q)"
    using assms(2) by (auto simp: edges_def kids_children_by_parent)
  then show ?thesis using assms(1) by (force simp: map_of_parent_map child_of_def)
qed

lemma no_cycle_wf:
  assumes "distinct (map fst nodes)" "\<not> has_cycle (map fst nodes) (parent_map nodes)"
  shows "wf ((edges (children_by_parent nodes))\<inverse>)"
proof (rule finite_acyclic_wf_converse)
  let ?E = "edges (children_by_parent nodes)" and ?P = "parent_map nodes"
  have "?E \<subseteq> (\<Union>v \<in> set (map fst nodes). set_option (map_of ?P v) \<times> {v})"
    using edges_up [OF assms(1)] by fastforce
  then show "finite ?E" by (rule finite_subset) simp
  define depth where "depth v = length (SOME xs. chain_from ?P (map_of ?P v) xs)" for v
  have depth: "chain_from ?P (map_of ?P v) xs \<Longrightarrow> depth v = length xs" for v xs
    unfolding depth_def using chain_from_unique by (metis someI)
  have step: "depth u < depth v" if "(u, v) \<in> ?E" for u v
  proof -
    note up = edges_up [OF assms(1) that]
    have "rooted ?P u"
    proof (cases "u \<in> set (map fst nodes)")
      case False
      then have "map_of nodes u = None" by (simp add: map_of_eq_None_iff)
      then have "map_of ?P u = None" using assms(1) by (simp add: map_of_parent_map)
      then show ?thesis using up by (simp add: rooted_def)
    qed (use assms(2) in \<open>auto simp: has_cycle_iff\<close>)
    then obtain xs where xs: "chain_from ?P (Some u) xs" by (auto simp: rooted_def simp del: chain_from_simps)
    then obtain ys where "xs = u # ys" "chain_from ?P (map_of ?P u) ys" using up by auto
    then show ?thesis using depth xs up by (metis length_Cons lessI)
  qed
  have "depth u < depth v" if "(u, v) \<in> ?E\<^sup>+" for u v
    using that by (induction rule: trancl_induct) (auto dest: step)
  then show "acyclic ?E" by (auto simp: acyclic_def)
qed

lemma tree_statuses_total:
  assumes "distinct (map fst nodes)"
  shows "tree_statuses (map fst nodes) (children_by_parent nodes) own (parent_map nodes) =
     Some (Inr (map (\<lambda>v. (v, rollup_status (subtree_statuses v (children_by_parent nodes) own))) (map fst nodes)))"
proof (cases "has_cycle (map fst nodes) (parent_map nodes)")
  case False
  let ?ch = "children_by_parent nodes"
  have "best_ok ?ch own Map.empty" by (simp add: best_ok_def)
  from rank_loop_ok [OF no_cycle_wf [OF assms False] this, of "map fst nodes"]
  obtain best where best: "rank_loop ?ch own Map.empty (map fst nodes) = Some (Inr best)" "best_ok ?ch own best"
    "set (map fst nodes) \<subseteq> dom best" by auto
  have "zip vs (map ranked (map (tree_rank ?ch own) vs)) = map (\<lambda>v. (v, rollup_status (subtree_statuses v ?ch own))) vs" for vs
    by (induction vs) (simp_all add: tree_rank_def ranked_rollup)
  then show ?thesis using False best lookups_ok [OF best(2,3)] by (simp add: tree_statuses_def del: map_map List.map.compositionality)
qed (simp add: tree_statuses_def)

text \<open>
  C20. Over the rows of an application, loops of parents included, the tree statuses are computed: the
  pass returns, meets no missing key, and gives every run the rollup of the statuses of its whole
  subtree.
\<close>

theorem tree_statuses_rollup:
  assumes "distinct (map fst nodes)"
  shows "tree_statuses (map fst nodes) (children_by_parent nodes) own (parent_map nodes) =
     Some (Inr (map (\<lambda>v. (v, rollup_status (subtree_statuses v (children_by_parent nodes) own))) (map fst nodes)))"
  using assms by (rule tree_statuses_total)

definition looped_rows :: "(string \<times> string option) list" where
  "looped_rows = [(''a'', Some ''b''), (''b'', Some ''a''), (''c'', None)]"

theorem tree_statuses_rollup_witness:
  "has_cycle [''a'', ''b'', ''c''] (parent_map looped_rows) \<and>
   tree_statuses [''a'', ''b'', ''c''] (children_by_parent looped_rows) (\<lambda>v. Some (if v = ''b'' then Failed else Succeeded))
     (parent_map looped_rows) = Some (Inr [(''a'', Some Failed), (''b'', Some Failed), (''c'', Some Succeeded)])"
proof -
  have "has_cycle [''a'', ''b'', ''c''] (parent_map looped_rows)" by code_simp
  moreover have "map (\<lambda>v. (v, rollup_status (subtree_statuses v (children_by_parent looped_rows)
      (\<lambda>v. Some (if v = ''b'' then Failed else Succeeded))))) [''a'', ''b'', ''c'']
      = [(''a'', Some Failed), (''b'', Some Failed), (''c'', Some Succeeded)]" by code_simp
  ultimately show ?thesis
    using tree_statuses_rollup [of looped_rows "\<lambda>v. Some (if v = ''b'' then Failed else Succeeded)"]
    by (simp add: looped_rows_def)
qed

end
