(* ===== verification/Run_Annotate.thy ===== *)
theory Run_Annotate
imports Run_Rollup
begin

text \<open>
  The tree fields of the rows of an application and of one run read alone, from core/tree.py of the
  experiment SDK: sweeps and their missing trials, the annotation of all rows, the status of a
  subtree, and the fleet summary of an outer run. The two ways of annotating a run are compared.
\<close>

section \<open>Rows\<close>

datatype kind = Outer | Inner | Single

record run_row =
  verstr :: string
  parent :: "string option"
  row_status :: run_status                  \<comment> \<open>already derived from the run's state\<close>
  ended_for :: "string option"              \<comment> \<open>its end reason\<close>
  sweep_planned :: "nat option"
  sweep_trial :: "string option"            \<comment> \<open>the tag of that name\<close>

record tree_fields =
  children :: "string list"
  row_kind :: kind
  depth :: nat
  settled_field :: "settled option"
  tree_status :: "run_status option"
  child_counts :: "(run_status \<times> nat) list"
  sweep_trials :: "nat option"

definition node_of :: "run_row \<Rightarrow> string \<times> string option" where
  "node_of r = (verstr r, parent r)"

definition by_verstr :: "run_row list \<Rightarrow> (string \<times> run_row) list" where
  "by_verstr rows = fold (\<lambda>r. od_put (verstr r) r) rows []"

definition settle_key :: "run_row \<Rightarrow> run_status" where
  "settle_key r = settle_status (row_status r) (ended_for r)"

definition sweep_trial_count :: "run_row list \<Rightarrow> nat" where
  "sweep_trial_count rows =
     length (remdups (map (\<lambda>r. case sweep_trial r of Some t \<Rightarrow> t | None \<Rightarrow> verstr r) rows))"

definition sweep_incomplete :: "nat option \<Rightarrow> nat option \<Rightarrow> bool" where
  "sweep_incomplete planned trials =
     (case planned of None \<Rightarrow> False | Some n \<Rightarrow> (case trials of Some t \<Rightarrow> t | None \<Rightarrow> 0) < n)"

definition trials_of :: "run_row list \<Rightarrow> children_map \<Rightarrow> run_row \<Rightarrow> nat option" where
  "trials_of rows children_of r =
     (case sweep_planned r of None \<Rightarrow> None
      | Some _ \<Rightarrow> Some (sweep_trial_count (List.map_filter (map_of (by_verstr rows)) (kids children_of (verstr r)))))"

definition count_statuses :: "'s list \<Rightarrow> ('s \<times> nat) list" where
  \<comment> \<open>\<open>dict(Counter(statuses))\<close>\<close>
  "count_statuses ss = fold (\<lambda>s m. od_put s (Suc (case map_of m s of Some n \<Rightarrow> n | None \<Rightarrow> 0)) m) ss []"

definition kind_of :: "string list \<Rightarrow> string option \<Rightarrow> kind" where
  "kind_of cs up =
     (if cs \<noteq> [] then Outer else if up \<noteq> None \<and> up \<noteq> Some [] then Inner else Single)"

section \<open>All rows\<close>

definition settled_of_rows :: "run_row list \<Rightarrow> string \<Rightarrow> settled option" where
  "settled_of_rows rows =
     map_of (settled_runs (map (\<lambda>(v, r). (v, settle_key r)) (by_verstr rows)) (map_of (parent_map (map node_of rows))))"

definition own_status :: "run_row list \<Rightarrow> string \<Rightarrow> run_status option" where
  \<comment> \<open>\<open>_own\<close>, over rows that carry their \<open>settled\<close> and \<open>sweep_trials\<close>\<close>
  "own_status rows v =
     (let children_of = children_by_parent (map node_of rows) in
      case map_of (by_verstr rows) v of
        None \<Rightarrow> own_rollup_status None (kids children_of v \<noteq> []) False None
      | Some r \<Rightarrow> own_rollup_status (Some (row_status r)) (kids children_of v \<noteq> [])
                    (sweep_incomplete (sweep_planned r) (trials_of rows children_of r)) (settled_of_rows rows v))"

definition fields_of_row :: "run_row list \<Rightarrow> (string \<times> run_status option) list \<Rightarrow> run_row \<Rightarrow> tree_fields" where
  "fields_of_row rows tree r =
     (let children_of = children_by_parent (map node_of rows); cs = kids children_of (verstr r) in
      \<lparr>children = cs, row_kind = kind_of cs (parent r),
       depth = length (ancestors (verstr r) (parent_map (map node_of rows))),
       settled_field = settled_of_rows rows (verstr r),
       tree_status = Option.bind (map_of tree (verstr r)) id,
       child_counts = count_statuses (map row_status (List.map_filter (map_of (by_verstr rows)) cs)),
       sweep_trials = trials_of rows children_of r\<rparr>)"

definition top_run :: "run_row list \<Rightarrow> run_row \<Rightarrow> string option" where
  \<comment> \<open>the \<open>root\<close> field: the last of the ancestors\<close>
  "top_run rows r =
     (let chain = ancestors (verstr r) (parent_map (map node_of rows))
      in if chain = [] then None else Some (last chain))"

definition annotate_rows :: "run_row list \<Rightarrow> ((string option \<times> tree_fields) list res) option" where
  "annotate_rows rows =
     (let nodes = map node_of rows in
      case tree_statuses (map fst (by_verstr rows)) (children_by_parent nodes) (own_status rows) (parent_map nodes) of
        None \<Rightarrow> None
      | Some (Inl e) \<Rightarrow> Some (Inl e)
      | Some (Inr tree) \<Rightarrow> Some (Inr (map (\<lambda>r. (top_run rows r, fields_of_row rows tree r)) rows)))"

lemma by_verstr_fold:
  "distinct (map verstr rows) \<Longrightarrow> set (map verstr rows) \<inter> fst ` set m = {} \<Longrightarrow>
   fold (\<lambda>r. od_put (verstr r) r) rows m = m @ map (\<lambda>r. (verstr r, r)) rows"
proof (induction rows arbitrary: m)
  case (Cons r rows)
  have new: "od_put v x m = m @ [(v, x)]" if "v \<notin> fst ` set m" for v and x :: "'a run_row_scheme" and m
    using that by (induction m) auto
  show ?case using Cons by (simp add: new)
qed simp

lemma by_verstr_distinct:
  "distinct (map verstr rows) \<Longrightarrow> by_verstr rows = map (\<lambda>r. (verstr r, r)) rows"
  unfolding by_verstr_def by (simp add: by_verstr_fold)

lemma map_of_tabulate: "v \<in> set vs \<Longrightarrow> map_of (map (\<lambda>v. (v, f v)) vs) v = Some (f v)"
  by (induction vs) auto

lemma fst_node_of [simp]: "fst \<circ> node_of = verstr"
  by (auto simp: node_of_def)

definition tree_of :: "run_row list \<Rightarrow> (string \<times> run_status option) list" where
  \<comment> \<open>the rollup of every row's subtree\<close>
  "tree_of rows = map (\<lambda>v. (v, rollup_status (map (own_status rows)
     (subtree_verstrs v (children_by_parent (map node_of rows)))))) (map verstr rows)"

lemma annotate_rows_eq:
  assumes "distinct (map verstr rows)"
  shows "annotate_rows rows = Some (Inr (map (\<lambda>r. (top_run rows r, fields_of_row rows (tree_of rows) r)) rows))"
proof -
  let ?ns = "map node_of rows"
  have keys: "map fst (by_verstr rows) = map fst ?ns"
    using by_verstr_distinct [OF assms] by (simp add: comp_def node_of_def)
  have d: "distinct (map fst ?ns)" using assms by simp
  show ?thesis
    unfolding annotate_rows_def keys tree_statuses_total [OF d] Let_def tree_of_def subtree_statuses_def by simp
qed

lemma tree_of_lookup:
  "r \<in> set rows \<Longrightarrow> map_of (tree_of rows) (verstr r) =
     Some (rollup_status (map (own_status rows) (subtree_verstrs (verstr r) (children_by_parent (map node_of rows)))))"
  unfolding tree_of_def by (rule map_of_tabulate) simp

text \<open>
  Annotating the rows of an application returns a row of fields for each, whatever the parent
  links: the children are the rows naming the run, and the tree status is the rollup of the run and
  everything reachable below it.
\<close>

theorem annotate_rows_total:
  assumes "distinct (map verstr rows)"
  shows "\<exists>fs. annotate_rows rows = Some (Inr fs) \<and> length fs = length rows \<and>
     (\<forall>i < length rows. children (snd (fs ! i)) = map verstr (filter (\<lambda>r. child_of (verstr (rows ! i)) (node_of r)) rows)
        \<and> tree_status (snd (fs ! i)) = rollup_status (map (own_status rows)
              (subtree_verstrs (verstr (rows ! i)) (children_by_parent (map node_of rows)))))"
proof -
  let ?ch = "children_by_parent (map node_of rows)"
  have "children (fields_of_row rows t r) = map verstr (filter (\<lambda>q. child_of (verstr r) (node_of q)) rows)" for r t
    by (simp add: fields_of_row_def Let_def kids_children_by_parent filter_map comp_def node_of_def)
  moreover have "tree_status (fields_of_row rows (tree_of rows) (rows ! i)) =
      rollup_status (map (own_status rows) (subtree_verstrs (verstr (rows ! i)) ?ch))" if "i < length rows" for i
    using tree_of_lookup [OF nth_mem [OF that]] by (simp add: fields_of_row_def Let_def)
  ultimately show ?thesis using annotate_rows_eq [OF assms] by simp
qed

section \<open>One run\<close>

definition sweep_fields :: "run_row list \<Rightarrow> children_map \<Rightarrow> string \<Rightarrow> nat option \<times> nat option" where
  \<comment> \<open>the planned size and the trials of a sweep row\<close>
  "sweep_fields rows children_of v =
     (case map_of (by_verstr rows) v of
        None \<Rightarrow> (None, None)
      | Some r \<Rightarrow>
          (case sweep_planned r of
             None \<Rightarrow> (None, None)
           | Some n \<Rightarrow> (Some n, Some (sweep_trial_count
               (map (\<lambda>c. case map_of (by_verstr rows) c of Some row \<Rightarrow> row
                         | None \<Rightarrow> \<lparr>verstr = c, parent = None, row_status = Created, ended_for = None,
                                    sweep_planned = None, sweep_trial = None\<rparr>)
                    (kids children_of v))))))"

definition subtree_status ::
    "string \<Rightarrow> parent_links \<Rightarrow> (string \<Rightarrow> run_status) \<Rightarrow> (string \<Rightarrow> string option) \<Rightarrow> children_map \<Rightarrow> run_row list \<Rightarrow> tree_fields" where
  \<comment> \<open>the status and end reason of a run are what its state, read alone, says; the rows are those
     \<open>row_of\<close> knows\<close>
  "subtree_status v parent_of status_of reason_of children_of rows =
     (let order = subtree_verstrs v children_of;
          cs = kids children_of v;
          chain = ancestors v parent_of;
          settled = map_of (subtree_settled order (\<lambda>w. settle_status (status_of w) (reason_of w))
                              (map_of parent_of) chain status_of);
          sweep = sweep_fields rows children_of v;
          own = own_rollup_status (Some (status_of v)) (cs \<noteq> []) (sweep_incomplete (fst sweep) (snd sweep))
                  (Option.bind (settled v) id);
          below = map (\<lambda>w. own_rollup_status (Some (status_of w)) False False (Option.bind (settled w) id)) (tl order)
      in \<lparr>children = cs, row_kind = kind_of cs (map_of parent_of v), depth = length chain,
          settled_field = Option.bind (settled v) id, tree_status = rollup_status (own # below),
          child_counts = count_statuses (map status_of cs), sweep_trials = snd sweep\<rparr>)"

section \<open>Settling one subtree and settling all rows\<close>

lemma settle_status_kinds [simp]:
  "settle_status s r \<in> WAITING \<longleftrightarrow> s \<in> WAITING" "settle_status s r \<in> ENDED \<longleftrightarrow> s \<in> ENDED"
  by (auto simp: settle_status_def WAITING_def ENDED_def)

lemma map_of_map_filter:
  "distinct (map fst xs) \<Longrightarrow>
   map_of (List.map_filter (\<lambda>(v, s). map_option (Pair v) (f v s)) xs) v = Option.bind (map_of xs v) (f v)"
proof (induction xs)
  case (Cons x xs)
  have none: "map_of xs v = None" if "v = fst x" using Cons.prems that by (simp add: map_of_eq_None_iff)
  show ?case using Cons none by (cases x) (auto simp: List.map_filter_simps split: option.split)
qed (simp add: List.map_filter_simps)

text \<open>
  What both computations know: the rows, the status each is settled by, and their parent links. A
  run that is no row is read as waiting.
\<close>

definition known_rows :: "statuses \<Rightarrow> parent_links \<Rightarrow> (string \<Rightarrow> run_status) \<Rightarrow> bool" where
  "known_rows S P key \<longleftrightarrow> (\<forall>x. map_of P x \<noteq> Some []) \<and>
     (\<forall>x. map_of S x = Some (key x) \<or> map_of S x = None \<and> map_of P x = None \<and> key x \<in> WAITING)"

lemma closed_above_chain:
  assumes "known_rows S P (\<lambda>w. settle_status (st w) (rs w))" "chain_from P cursor xs" "cursor \<noteq> Some []"
  shows "closed_above_from st xs = closing S (map_of P) cursor"
  using assms(2,3)
proof (induction rule: chain_from.induct)
  case (goes_up c xs)
  have up: "map_of P c \<noteq> Some []" using assms(1) by (simp add: known_rows_def)
  have c: "map_of S c = Some (settle_status (st c) (rs c)) \<or> map_of S c = None \<and> map_of P c = None \<and> st c \<in> WAITING"
    using assms(1) by (simp add: known_rows_def)
  have "closes_children S (map_of P) c \<longleftrightarrow> closed_above_from st (c # xs)"
    using c ended_not_waiting goes_up.IH [OF up] goes_up.hyps(2)
    by (subst closes_children_iff) (auto simp: closing_def)
  then show ?case by (simp add: closing_def)
qed (auto simp: closing_def)

fun after_parents :: "parents \<Rightarrow> string set \<Rightarrow> string list \<Rightarrow> bool" where
  "after_parents P D [] = True"
| "after_parents P D (w # ws) =
     ((\<exists>p \<in> D. P w = Some p \<and> p \<noteq> [] \<and> p \<noteq> w) \<and> after_parents P (insert w D) ws)"

lemma settle_below_agrees:
  assumes "memo_ok S P memo" "after_parents P (dom memo) ws" "\<forall>w \<in> set ws. map_of S w = Some (key w)"
  shows "settle_below key P ws memo = map (\<lambda>w. (w, settled_of S P w (key w))) ws"
  using assms
proof (induction ws arbitrary: memo)
  case (Cons w ws)
  then obtain p b where p: "P w = Some p" "p \<noteq> []" "p \<noteq> w" "memo p = Some b" by auto
  then have b: "b = closes_children S P p" using Cons.prems(1) by (simp add: memo_ok_def)
  have s: "settled_as (key w) (closed_get memo (P w) False) = settled_of S P w (key w)"
    using p b by (simp add: closed_get_def settled_of_def)
  have "closes (key w) (settled_of S P w (key w)) = closes_children S P w"
    using closes_children_settled [of S w "key w" P] Cons.prems(3) p by simp
  then have "memo_ok S P (memo(w \<mapsto> closes (key w) (settled_of S P w (key w))))"
    using Cons.prems(1) by (simp add: memo_ok_def)
  then have "settle_below key P ws (memo(w \<mapsto> closes (key w) (settled_of S P w (key w))))
      = map (\<lambda>w. (w, settled_of S P w (key w))) ws"
  proof (rule Cons.IH)
    show "after_parents P (dom (memo(w \<mapsto> closes (key w) (settled_of S P w (key w))))) ws"
      using Cons.prems(2) unfolding dom_fun_upd by simp
  qed (use Cons.prems(3) in simp)
  then show ?case by (simp add: s Let_def)
qed simp

lemma after_parents_of_order:
  assumes "\<forall>i < length ws. \<exists>p. P (ws ! i) = Some p \<and> p \<noteq> [] \<and> p \<noteq> ws ! i \<and> (p \<in> D \<or> p \<in> set (take i ws))"
  shows "after_parents P D ws"
  using assms
proof (induction ws arbitrary: D)
  case (Cons w ws)
  have "\<exists>p \<in> D. P w = Some p \<and> p \<noteq> [] \<and> p \<noteq> w" using Cons.prems by force
  moreover have "after_parents P (insert w D) ws"
  proof (rule Cons.IH, intro allI impI)
    fix i assume "i < length ws"
    then show "\<exists>p. P (ws ! i) = Some p \<and> p \<noteq> [] \<and> p \<noteq> ws ! i \<and> (p \<in> insert w D \<or> p \<in> set (take i ws))"
      using Cons.prems [rule_format, of "Suc i"] by auto
  qed
  ultimately show ?case by simp
qed simp

lemma order_after_parents:
  assumes "distinct (map fst nodes)" "subtree_verstrs v (children_by_parent nodes) = v # ws"
  shows "after_parents (map_of (parent_map nodes)) {v} ws \<and> set ws \<subseteq> set (map fst nodes)"
proof -
  let ?ch = "children_by_parent nodes"
  have first: "\<exists>j \<le> i. (v # ws) ! j \<in> set (v # take i ws) \<and> ((v # ws) ! j, ws ! i) \<in> edges ?ch" if i: "i < length ws" for i
  proof -
    have "parents_first ?ch (v # ws)" using subtree_verstrs_order [of ?ch v] assms(2) by simp
    then obtain j where j: "j < Suc i" "ws ! i \<in> set (kids ?ch ((v # ws) ! j))"
      using i unfolding parents_first_def by (metis Suc_less_eq length_Cons nth_Cons_Suc zero_less_Suc)
    have "(v # ws) ! j \<in> set (v # take i ws)"
    proof -
      have "(v # ws) ! j = (v # take i ws) ! j" using j(1) by (cases j) simp_all
      then show ?thesis using nth_mem [of j "v # take i ws"] j(1) i by simp
    qed
    moreover have "((v # ws) ! j, ws ! i) \<in> edges ?ch" using j(2) by (simp add: edges_def)
    ultimately show ?thesis using j(1) by (metis less_Suc_eq_le)
  qed
  have "after_parents (map_of (parent_map nodes)) {v} ws"
  proof (rule after_parents_of_order, intro allI impI)
    fix i assume "i < length ws"
    from first [OF this] obtain u where "u \<in> set (v # take i ws)" "(u, ws ! i) \<in> edges ?ch" by blast
    with edges_up [OF assms(1) this(2)]
    show "\<exists>p. map_of (parent_map nodes) (ws ! i) = Some p \<and> p \<noteq> [] \<and> p \<noteq> ws ! i \<and> (p \<in> {v} \<or> p \<in> set (take i ws))"
      by auto
  qed
  moreover have "set ws \<subseteq> set (map fst nodes)"
  proof
    fix w assume "w \<in> set ws"
    then obtain i where "i < length ws" "w = ws ! i" by (auto simp: in_set_conv_nth)
    then show "w \<in> set (map fst nodes)" using first edges_up [OF assms(1)] by blast
  qed
  ultimately show ?thesis ..
qed

lemma subtree_settled_eq:
  assumes "distinct (map fst nodes)" "v \<in> set (map fst nodes)" "v \<noteq> []" "rooted (parent_map nodes) v"
    and "known_rows S (parent_map nodes) (\<lambda>w. settle_status (st w) (rs w))"
    and "\<forall>w \<in> set (map fst nodes). map_of S w \<noteq> None"
  shows "subtree_settled (subtree_verstrs v (children_by_parent nodes)) (\<lambda>w. settle_status (st w) (rs w))
           (map_of (parent_map nodes)) (ancestors v (parent_map nodes)) st =
         map (\<lambda>w. (w, settled_of S (map_of (parent_map nodes)) w (settle_status (st w) (rs w))))
           (subtree_verstrs v (children_by_parent nodes))"
proof -
  let ?P = "parent_map nodes" and ?ch = "children_by_parent nodes" and ?key = "\<lambda>w. settle_status (st w) (rs w)"
  obtain ws where ws: "subtree_verstrs v ?ch = v # ws" using subtree_verstrs_order [of ?ch v]
    by (cases "subtree_verstrs v ?ch") auto
  have "v \<notin> set ws" using subtree_verstrs_spec [of v ?ch] ws by simp
  then have below: "filter (\<lambda>w. w \<noteq> v) ws = ws" by (auto simp: filter_id_conv)
  have known: "map_of S w = Some (?key w)" if "w \<in> set (map fst nodes)" for w
    using assms(5,6) that unfolding known_rows_def by metis
  have nonempty: "map_of ?P v \<noteq> Some []" using assms(5) by (simp add: known_rows_def)
  obtain xs where xs: "chain_from ?P (Some v) xs" using assms(4) by (auto simp: rooted_def simp del: chain_from_simps)
  then obtain ys where ys: "xs = v # ys" "chain_from ?P (map_of ?P v) ys" using assms(3) by auto
  have new: "v \<notin> set ys" using chain_from_distinct [OF xs] ys(1) by simp
  then have anc: "ancestors v ?P = ys" using ancestors_loop_chain [OF ys(2), of "[v]" "[]"] by (simp add: ancestors_def)
  have self: "map_of ?P v \<noteq> Some v"
  proof
    assume "map_of ?P v = Some v"
    then have "chain_from ?P (Some v) ys" using ys(2) by metis
    then have "xs = ys" using chain_from_unique [OF xs] by blast
    then show False using ys(1) by simp
  qed
  have above_v: "closed_above_from st ys = closing S (map_of ?P) (map_of ?P v)"
    by (rule closed_above_chain [OF assms(5) ys(2) nonempty])
  have outer: "settled_as (?key v) (closed_above (?key v) (ancestors v ?P) st) = settled_of S (map_of ?P) v (?key v)"
    using nonempty self by (auto simp: closed_above_def anc above_v settled_of_def settled_as_def closing_def split: option.split)
  have "memo_ok S (map_of ?P) [v \<mapsto> closes (?key v) (settled_of S (map_of ?P) v (?key v))]"
    using closes_children_settled [of S v "?key v" "map_of ?P"] known [OF assms(2)] nonempty self
    by (simp add: memo_ok_def)
  from settle_below_agrees [OF this, of ws ?key] order_after_parents [OF assms(1) ws] known
  show ?thesis by (auto simp: subtree_settled_def ws below outer Let_def subset_iff)
qed

text \<open>
  Reading one subtree settles the same runs as settling the whole application: whenever the
  parent links above the outer run do not loop, the one-pass variant over the subtree and its
  ancestors gives each of its runs what the memoized walk over all rows gives it.
\<close>

theorem subtree_settled_agrees:
  assumes "distinct (map fst nodes)" "v \<in> set (map fst nodes)" "v \<noteq> []" "rooted (parent_map nodes) v"
    and "known_rows S (parent_map nodes) (\<lambda>w. settle_status (st w) (rs w))"
    and "\<forall>w \<in> set (map fst nodes). map_of S w \<noteq> None"
  shows "subtree_settled (subtree_verstrs v (children_by_parent nodes)) (\<lambda>w. settle_status (st w) (rs w))
           (map_of (parent_map nodes)) (ancestors v (parent_map nodes)) st =
         map (\<lambda>w. (w, settled_of S (map_of (parent_map nodes)) w (settle_status (st w) (rs w))))
           (subtree_verstrs v (children_by_parent nodes))"
  using assms by (rule subtree_settled_eq)

theorem subtree_settled_agrees_witness:
  "subtree_settled [''a'', ''b''] (\<lambda>w. if w = ''a'' then Succeeded else Created) [''b'' \<mapsto> ''a''] [] (\<lambda>w. if w = ''a'' then Succeeded else Created)
     = [(''a'', None), (''b'', Some Never_Started)]"
proof -
  let ?nodes = "[(''a'', None), (''b'', Some ''a'')] :: (string \<times> string option) list"
  let ?st = "\<lambda>w. if w = ''a'' then Succeeded else Created"
  let ?S = "[(''a'', Succeeded), (''b'', Created)]"
  have P: "parent_map ?nodes = [(''b'', ''a'')]" by (simp add: parent_map_def)
  have ch: "children_by_parent ?nodes = [(''a'', [''b''])]"
    by (simp add: children_by_parent_def add_child_def kids_def)
  have order: "subtree_verstrs ''a'' (children_by_parent ?nodes) = [''a'', ''b'']"
    unfolding ch subtree_verstrs_def by (simp add: kids_def)
  have a: "settled_of ?S [''b'' \<mapsto> ''a''] ''a'' Succeeded = None" by (simp add: settled_of_def)
  have "closes_children ?S [''b'' \<mapsto> ''a''] ''a''" by (rule closes_children.ended [where s = Succeeded]) (simp_all add: ENDED_def)
  then have b: "settled_of ?S [''b'' \<mapsto> ''a''] ''b'' Created = Some Never_Started"
    by (simp add: settled_of_def settled_as_def SETTLED_AS_def)
  have rooted: "rooted (parent_map ?nodes) ''a''" unfolding rooted_def P by (rule exI [of _ "[''a'']"]) simp
  have known: "known_rows ?S (parent_map ?nodes) (\<lambda>w. settle_status (?st w) None)"
    unfolding known_rows_def P by (simp add: settle_status_def WAITING_def)
  have anc: "ancestors ''a'' (parent_map ?nodes) = []" unfolding P ancestors_def by (simp add: ancestors_loop.simps)
  have key: "(\<lambda>w. settle_status (?st w) None) = ?st" by (auto simp: settle_status_def)
  have m: "map_of (parent_map ?nodes) = [''b'' \<mapsto> ''a'']" unfolding P by simp
  show ?thesis
    using subtree_settled_agrees [of ?nodes "''a''" ?S ?st "\<lambda>w. None"] rooted known
    unfolding order anc key m by (simp add: a b settle_status_def)
qed

section \<open>One run and all rows\<close>

lemma settled_of_rows_eq:
  assumes "distinct (map verstr rows)" "r \<in> set rows"
  shows "settled_of_rows rows (verstr r) =
     settled_of (map (\<lambda>(v, r). (v, settle_key r)) (by_verstr rows)) (map_of (parent_map (map node_of rows))) (verstr r) (settle_key r)"
proof -
  let ?S = "map (\<lambda>(v, r). (v, settle_key r)) (by_verstr rows)"
  have S: "?S = map (\<lambda>r. (verstr r, settle_key r)) rows" by (simp add: by_verstr_distinct [OF assms(1)])
  have "distinct (map fst ?S)" using assms(1) unfolding S by (simp add: comp_def)
  moreover have "map_of ?S (verstr r) = Some (settle_key r)"
    using assms unfolding S by (simp add: map_of_eq_Some_iff comp_def)
  ultimately show ?thesis unfolding settled_of_rows_def settled_runs_eq by (simp add: map_of_map_filter)
qed

lemma row_lookup: "distinct (map verstr rows) \<Longrightarrow> r \<in> set rows \<Longrightarrow> map_of (by_verstr rows) (verstr r) = Some r"
  by (simp add: by_verstr_distinct map_of_eq_Some_iff comp_def)

lemma kids_are_rows:
  "c \<in> set (kids (children_by_parent (map node_of rows)) v) \<Longrightarrow> \<exists>r \<in> set rows. c = verstr r"
  by (auto simp: kids_children_by_parent node_of_def)

lemma lookup_kids:
  assumes "distinct (map verstr rows)" "set cs \<subseteq> verstr ` set rows"
  shows "List.map_filter (map_of (by_verstr rows)) cs =
     map (\<lambda>c. case map_of (by_verstr rows) c of Some row \<Rightarrow> row | None \<Rightarrow> other c) cs"
  using assms(2) row_lookup [OF assms(1)] by (induction cs) (auto simp: List.map_filter_simps)

abbreviation links_of :: "run_row list \<Rightarrow> parent_links" where
  "links_of rows \<equiv> parent_map (map node_of rows)"

abbreviation children_map_of :: "run_row list \<Rightarrow> children_map" where
  "children_map_of rows \<equiv> children_by_parent (map node_of rows)"

definition reads_rows :: "run_row list \<Rightarrow> (string \<Rightarrow> run_status) \<Rightarrow> (string \<Rightarrow> string option) \<Rightarrow> bool" where
  \<comment> \<open>the states read one by one are those the rows carry; a run without a row has none\<close>
  "reads_rows rows status_of reason_of \<longleftrightarrow>
     (\<forall>r \<in> set rows. status_of (verstr r) = row_status r \<and> reason_of (verstr r) = ended_for r) \<and>
     (\<forall>w. w \<notin> verstr ` set rows \<longrightarrow> status_of w = Created)"

definition plain_below :: "run_row list \<Rightarrow> children_map \<Rightarrow> string list \<Rightarrow> bool" where
  \<comment> \<open>no container and no sweep among the given runs\<close>
  "plain_below rows children_of below = (\<forall>r \<in> set rows. verstr r \<in> set below \<longrightarrow>
     sweep_planned r = None \<and> (row_status r = Created \<longrightarrow> kids children_of (verstr r) = []))"

abbreviation keyed_rows :: "run_row list \<Rightarrow> statuses" where
  "keyed_rows rows \<equiv> map (\<lambda>(v, r). (v, settle_key r)) (by_verstr rows)"

lemma keyed_rows_lookup:
  assumes "distinct (map verstr rows)" "reads_rows rows status_of reason_of" "q \<in> set rows"
  shows "map_of (keyed_rows rows) (verstr q) = Some (settle_status (status_of (verstr q)) (reason_of (verstr q)))"
  using assms
  by (simp add: by_verstr_distinct comp_def map_of_eq_Some_iff settle_key_def image_iff reads_rows_def) metis

lemma rows_known:
  assumes "distinct (map verstr rows)" "reads_rows rows status_of reason_of"
  shows "known_rows (keyed_rows rows) (links_of rows) (\<lambda>w. settle_status (status_of w) (reason_of w))"
proof (unfold known_rows_def, intro conjI allI)
  fix x
  have d: "distinct (map fst (map node_of rows))" using assms(1) by simp
  show "map_of (links_of rows) x \<noteq> Some []" using map_of_parent_map [OF d, of x] by (auto split: option.splits if_splits)
  show "map_of (keyed_rows rows) x = Some (settle_status (status_of x) (reason_of x)) \<or>
      map_of (keyed_rows rows) x = None \<and> map_of (links_of rows) x = None \<and>
        settle_status (status_of x) (reason_of x) \<in> WAITING"
  proof (cases "x \<in> verstr ` set rows")
    case False
    then have "map_of (map node_of rows) x = None" "map_of (keyed_rows rows) x = None"
      by (auto simp: map_of_eq_None_iff by_verstr_distinct [OF assms(1)] node_of_def)
    then show ?thesis using map_of_parent_map [OF d, of x] assms(2) False
      by (simp add: WAITING_def settle_status_def reads_rows_def)
  qed (use keyed_rows_lookup [OF assms] in auto)
qed

lemma members_are_rows:
  assumes "distinct (map verstr rows)" "r \<in> set rows" "w \<in> set (subtree_verstrs (verstr r) (children_map_of rows))"
  shows "w \<in> verstr ` set rows"
proof -
  obtain ws where ws: "subtree_verstrs (verstr r) (children_map_of rows) = verstr r # ws"
    using subtree_verstrs_order [of "children_map_of rows" "verstr r"]
    by (cases "subtree_verstrs (verstr r) (children_map_of rows)") auto
  then show ?thesis using order_after_parents [of "map node_of rows" "verstr r" ws] assms by auto
qed

lemma settled_alone:
  assumes "distinct (map verstr rows)" "reads_rows rows status_of reason_of" "r \<in> set rows" "verstr r \<noteq> []"
    "rooted (links_of rows) (verstr r)" "q \<in> set rows" "verstr q \<in> set (subtree_verstrs (verstr r) (children_map_of rows))"
  shows "Option.bind (map_of (subtree_settled (subtree_verstrs (verstr r) (children_map_of rows))
      (\<lambda>w. settle_status (status_of w) (reason_of w)) (map_of (links_of rows)) (ancestors (verstr r) (links_of rows)) status_of)
      (verstr q)) id = settled_of_rows rows (verstr q)"
proof -
  define f where "f w = settled_of (keyed_rows rows) (map_of (links_of rows)) w (settle_status (status_of w) (reason_of w))" for w
  have "subtree_settled (subtree_verstrs (verstr r) (children_map_of rows)) (\<lambda>w. settle_status (status_of w) (reason_of w))
      (map_of (links_of rows)) (ancestors (verstr r) (links_of rows)) status_of
      = map (\<lambda>w. (w, f w)) (subtree_verstrs (verstr r) (children_map_of rows))"
    unfolding f_def
  proof (rule subtree_settled_eq [OF _ _ assms(4,5) rows_known [OF assms(1,2)]])
    show "\<forall>w \<in> set (map fst (map node_of rows)). map_of (keyed_rows rows) w \<noteq> None"
      using keyed_rows_lookup [OF assms(1,2)] by auto
  qed (use assms in auto)
  moreover have "f (verstr q) = settled_of_rows rows (verstr q)"
    using settled_of_rows_eq [OF assms(1,6)] assms(2,6) by (simp add: f_def settle_key_def reads_rows_def)
  ultimately show ?thesis by (simp add: map_of_tabulate [OF assms(7)])
qed

lemma trials_alone:
  assumes "distinct (map verstr rows)" "r \<in> set rows"
  shows "sweep_fields rows (children_map_of rows) (verstr r) = (sweep_planned r, trials_of rows (children_map_of rows) r)"
proof -
  have "set (kids (children_map_of rows) (verstr r)) \<subseteq> verstr ` set rows" using kids_are_rows by blast
  from lookup_kids [OF assms(1) this] show ?thesis using row_lookup [OF assms]
    by (auto simp: sweep_fields_def trials_of_def split: option.split)
qed

lemma own_of_row:
  assumes "distinct (map verstr rows)" "reads_rows rows status_of reason_of" "q \<in> set rows"
  shows "own_status rows (verstr q) = own_rollup_status (Some (status_of (verstr q)))
      (kids (children_map_of rows) (verstr q) \<noteq> [])
      (sweep_incomplete (sweep_planned q) (trials_of rows (children_map_of rows) q)) (settled_of_rows rows (verstr q))"
  using row_lookup [OF assms(1,3)] assms(2,3) by (simp add: own_status_def Let_def reads_rows_def)

lemma plain_own:
  assumes "distinct (map verstr rows)" "reads_rows rows status_of reason_of"
    "plain_below rows (children_map_of rows) ws" "q \<in> set rows" "verstr q \<in> set ws"
  shows "own_status rows (verstr q) =
    own_rollup_status (Some (status_of (verstr q))) False False (settled_of_rows rows (verstr q))"
proof -
  have "sweep_planned q = None" "row_status q = Created \<longrightarrow> kids (children_map_of rows) (verstr q) = []"
    using assms(3-5) by (auto simp: plain_below_def)
  then show ?thesis using own_of_row [OF assms(1,2,4)] assms(2,4)
    by (auto simp: own_rollup_status_def sweep_incomplete_def unclaimed_def Let_def reads_rows_def)
qed

lemma kind_alone:
  assumes "distinct (map verstr rows)" "r \<in> set rows"
  shows "kind_of cs (map_of (links_of rows) (verstr r)) = kind_of cs (parent r)"
proof -
  have d: "distinct (map fst (map node_of rows))" using assms(1) by simp
  have "map_of (map node_of rows) (verstr r) = Some (parent r)" using d assms(2)
    by (simp add: map_of_eq_Some_iff) (force simp: node_of_def)
  then show ?thesis using map_of_parent_map [OF d, of "verstr r"] by (auto simp: kind_of_def split: option.split)
qed

lemma tally_alone:
  assumes "distinct (map verstr rows)" "reads_rows rows status_of reason_of"
  shows "map status_of (kids (children_map_of rows) v) =
    map row_status (List.map_filter (map_of (by_verstr rows)) (kids (children_map_of rows) v))"
proof -
  have "map status_of cs = map row_status (List.map_filter (map_of (by_verstr rows)) cs)"
    if "set cs \<subseteq> verstr ` set rows" for cs
    using that row_lookup [OF assms(1)] assms(2)
    by (induction cs) (auto simp: List.map_filter_simps reads_rows_def)
  then show ?thesis using kids_are_rows by blast
qed

text \<open>
  C22. A run read alone shows the tree fields it has among all rows (children, kind, depth, settled,
  tree status, tally and trials), when the rows have distinct names, the run's own is not empty, the
  states read one by one are those the rows carry, the parent links from the run do not loop (in a loop
  of two a stuck run is lost among all rows and unsettled alone), and no run below it is a sweep or has
  both children and the status \<open>created\<close>, be it a container that never ran or one that ran
  and was released.
\<close>

theorem run_alone_agrees:
  assumes rows: "distinct (map verstr rows)" "i < length rows" "verstr (rows ! i) \<noteq> []"
    and links: "rooted (links_of rows) (verstr (rows ! i))"
    and reads: "reads_rows rows status_of reason_of"
    and plain: "plain_below rows (children_map_of rows) (tl (subtree_verstrs (verstr (rows ! i)) (children_map_of rows)))"
    and all: "annotate_rows rows = Some (Inr fs)"
  shows "subtree_status (verstr (rows ! i)) (links_of rows) status_of reason_of (children_map_of rows) rows = snd (fs ! i)"
proof -
  define r where "r = rows ! i"
  define v where "v = verstr r"
  define order where "order = subtree_verstrs v (children_map_of rows)"
  define settled where "settled w = Option.bind (map_of (subtree_settled order (\<lambda>w. settle_status (status_of w) (reason_of w))
      (map_of (links_of rows)) (ancestors v (links_of rows)) status_of) w) id" for w
  have r: "r \<in> set rows" using rows(2) by (simp add: r_def)
  obtain ws where ws: "order = v # ws" using subtree_verstrs_order [of "children_map_of rows" v] unfolding order_def
    by (cases "subtree_verstrs v (children_map_of rows)") auto
  have settled_eq: "settled (verstr q) = settled_of_rows rows (verstr q)" if "q \<in> set rows" "verstr q \<in> set order" for q
    unfolding settled_def order_def v_def
    by (rule settled_alone [OF rows(1) reads r]) (use that rows links in \<open>simp_all add: r_def v_def order_def\<close>)
  have below: "map (own_status rows) ws = map (\<lambda>w. own_rollup_status (Some (status_of w)) False False (settled w)) ws"
  proof (rule map_cong [OF refl])
    fix w assume w: "w \<in> set ws"
    then obtain q where q: "q \<in> set rows" "w = verstr q"
      using members_are_rows [OF rows(1) r, of w] ws by (auto simp: order_def v_def)
    have "plain_below rows (children_map_of rows) ws" using plain ws by (simp add: order_def v_def r_def)
    from plain_own [OF rows(1) reads this q(1)] show
      "own_status rows w = own_rollup_status (Some (status_of w)) False False (settled w)"
      using settled_eq [OF q(1)] q(2) w ws by simp
  qed
  have "tree_status (fields_of_row rows (tree_of rows) r) = rollup_status (own_status rows v # map (own_status rows) ws)"
    using tree_of_lookup [OF r] ws by (simp add: fields_of_row_def Let_def order_def v_def)
  moreover have "snd (fs ! i) = fields_of_row rows (tree_of rows) r"
    using all annotate_rows_eq [OF rows(1)] rows(2) by (auto simp: r_def)
  ultimately show ?thesis
    using settled_eq [OF r] own_of_row [OF rows(1) reads r] trials_alone [OF rows(1) r] ws below
      kind_alone [OF rows(1) r] tally_alone [OF rows(1) reads, of v]
    unfolding subtree_status_def r_def [symmetric] v_def [symmetric] order_def [symmetric] settled_def [symmetric] Let_def
    by (simp add: fields_of_row_def Let_def v_def [symmetric])
qed

definition row :: "string \<Rightarrow> string option \<Rightarrow> run_status \<Rightarrow> run_row" where
  "row v p s = \<lparr>verstr = v, parent = p, row_status = s, ended_for = None, sweep_planned = None, sweep_trial = None\<rparr>"

definition two_rows :: "run_row list" where
  "two_rows = [row ''a'' None Created, row ''b'' (Some ''a'') Succeeded]"

definition states_of :: "run_row list \<Rightarrow> string \<Rightarrow> run_status" where
  "states_of rows v = (case map_of (by_verstr rows) v of Some r \<Rightarrow> row_status r | None \<Rightarrow> Created)"

lemmas row_evaluation = row_def node_of_def by_verstr_def parent_map_def children_by_parent_def add_child_def kids_def

theorem annotate_rows_total_witness:
  "\<exists>fs. annotate_rows two_rows = Some (Inr fs) \<and> children (snd (fs ! 0)) = [''b'']"
proof -
  have "distinct (map verstr two_rows)" by (simp add: two_rows_def row_def)
  from annotate_rows_total [OF this] obtain fs where fs: "annotate_rows two_rows = Some (Inr fs)"
    "children (snd (fs ! 0)) = map verstr (filter (\<lambda>r. child_of (verstr (two_rows ! 0)) (node_of r)) two_rows)"
    by (auto simp: two_rows_def)
  then show ?thesis by (simp add: two_rows_def row_def node_of_def child_of_def)
qed

theorem run_alone_agrees_witness:
  "\<exists>fs. annotate_rows two_rows = Some (Inr fs) \<and>
     subtree_status ''a'' [(''b'', ''a'')] (states_of two_rows) (\<lambda>w. None) [(''a'', [''b''])] two_rows = snd (fs ! 0)"
proof -
  have d: "distinct (map verstr two_rows)" by (simp add: two_rows_def row_def)
  obtain fs where fs: "annotate_rows two_rows = Some (Inr fs)" using annotate_rows_eq [OF d] by blast
  have P: "parent_map (map node_of two_rows) = [(''b'', ''a'')]" and ch: "children_by_parent (map node_of two_rows) = [(''a'', [''b''])]"
    by (simp_all add: two_rows_def row_evaluation)
  have v: "verstr (two_rows ! 0) = ''a''" by (simp add: two_rows_def row_def)
  have reads: "reads_rows two_rows (states_of two_rows) (\<lambda>w. None)"
    by (auto simp: reads_rows_def states_of_def two_rows_def row_evaluation)
  have rooted: "rooted [(''b'', ''a'')] ''a''" unfolding rooted_def by (rule exI [of _ "[''a'']"]) simp
  have plain: "plain_below two_rows [(''a'', [''b''])] (tl (subtree_verstrs ''a'' [(''a'', [''b''])]))"
    by (simp add: plain_below_def two_rows_def row_def subtree_verstrs_def kids_def)
  show ?thesis
    using run_alone_agrees [of two_rows 0 "states_of two_rows" "\<lambda>w. None" fs] d reads rooted plain fs
    unfolding P ch v by (auto simp: two_rows_def)
qed

text \<open>
  The proviso on the runs below is needed. A container whose only child is itself a container, with
  every run at the bottom succeeded, is \<open>succeeded\<close> among all rows, where a container adds
  nothing to a rollup; read alone, the inner container counts as a run that was never started and
  the same tree is \<open>created\<close>.
\<close>

definition nested_rows :: "run_row list" where
  "nested_rows = [row ''a'' None Created, row ''b'' (Some ''a'') Created, row ''c'' (Some ''b'') Succeeded]"

lemma run_alone_misses_containers:
  shows "map_of (tree_of nested_rows) ''a'' = Some (Some Succeeded)"
    and "tree_status (subtree_status ''a'' (parent_map (map node_of nested_rows)) (states_of nested_rows) (\<lambda>w. None)
           (children_by_parent (map node_of nested_rows)) nested_rows) = Some Created"
  by code_simp+

section \<open>The fleet summary\<close>

record fleet =
  expected :: nat
  running :: nat
  succeeded :: nat
  failed :: nat
  stuck :: nat
  created :: nat
  waiting :: nat
  never_started :: nat
  lost :: nat
  shown :: "string list"                     \<comment> \<open>the children detailed\<close>

definition FLEET_MAX_CHILDREN_DETAIL :: nat where
  "FLEET_MAX_CHILDREN_DETAIL = 50"

definition count_of :: "(counted \<times> nat) list \<Rightarrow> counted \<Rightarrow> nat" where
  "count_of counts c = (case map_of counts c of Some n \<Rightarrow> n | None \<Rightarrow> 0)"

definition fleet_summary ::
    "string \<Rightarrow> children_map \<Rightarrow> (string \<Rightarrow> run_status) \<Rightarrow> (string \<Rightarrow> string option) \<Rightarrow> nat option \<Rightarrow> bool \<Rightarrow> fleet option" where
  "fleet_summary v children_of status_of reason_of declared ended =
     (let cs = kids children_of v in
      if cs = [] then None
      else
        let counted = map (\<lambda>c. counted_as (status_of c)
                        (settled_as (settle_status (status_of c) (reason_of c)) ended)) cs;
            total = (case declared of None \<Rightarrow> length cs | Some n \<Rightarrow> max n (length cs));
            counts = count_statuses counted;
            known = sum_list (map snd counts);
            slots = split_slots (total - known) ended
        in Some \<lparr>expected = total, running = count_of counts (Status Running),
             succeeded = count_of counts (Status Succeeded), failed = count_of counts (Status Failed),
             stuck = count_of counts (Status Stuck), created = count_of counts (Status Created),
             waiting = fst slots, never_started = count_of counts (Apart Never_Started) + snd slots,
             lost = count_of counts (Apart Lost), shown = take FLEET_MAX_CHILDREN_DETAIL cs\<rparr>)"

lemma count_fold:
  "count_of (fold (\<lambda>s m. od_put s (Suc (case map_of m s of Some n \<Rightarrow> n | None \<Rightarrow> 0)) m) ss m) c
     = count_of m c + count_list ss c"
  by (induction ss arbitrary: m) (auto simp: count_of_def)

lemma count_statuses_count: "count_of (count_statuses ss) c = count_list ss c"
  unfolding count_statuses_def by (simp add: count_fold) (simp add: count_of_def)

lemma sum_od_put_count:
  "od_wf m \<Longrightarrow> sum_list (map snd (od_put s (Suc (case map_of m s of Some n \<Rightarrow> n | None \<Rightarrow> 0)) m)) = Suc (sum_list (map snd m))"
  by (induction m) (auto simp: od_wf_def)

lemma sum_count_fold:
  "od_wf m \<Longrightarrow> sum_list (map snd (fold (\<lambda>s m. od_put s (Suc (case map_of m s of Some n \<Rightarrow> n | None \<Rightarrow> 0)) m) ss m))
     = sum_list (map snd m) + length ss"
  by (induction ss arbitrary: m) (simp_all add: sum_od_put_count od_wf_put)

lemma sum_count_statuses: "sum_list (map snd (count_statuses ss)) = length ss"
  unfolding count_statuses_def by (simp add: sum_count_fold)

lemma counted_as_kinds:
  "s \<noteq> Released \<Longrightarrow> counted_as s (settled_as k c) \<in> {Status Running, Status Succeeded, Status Failed, Status Stuck,
     Status Created, Apart Never_Started, Apart Lost}"
  by (cases s; cases "settled_as k c") (auto simp: counted_as_def SETTLED_def)

lemma counted_partition:
  assumes "\<forall>x \<in> set xs. x \<in> {Status Running, Status Succeeded, Status Failed, Status Stuck, Status Created,
      Apart Never_Started, Apart Lost}"
  shows "count_list xs (Status Running) + count_list xs (Status Succeeded) + count_list xs (Status Failed)
      + count_list xs (Status Stuck) + count_list xs (Status Created) + count_list xs (Apart Never_Started)
      + count_list xs (Apart Lost) = length xs"
  using assms by (induction xs) auto

text \<open>
  C33. The fleet summary accounts for every expected run exactly once: the statuses, the lost and the
  never started runs and the waiting slots add up to the declared number (or the number of
  children when that is larger), and no more than fifty children are detailed.
\<close>

theorem fleet_adds_up:
  assumes "fleet_summary v ch status_of reason_of declared c = Some f"
    and "\<forall>w \<in> set (kids ch v). status_of w \<noteq> Released"
  shows "running f + succeeded f + failed f + stuck f + created f + waiting f + never_started f + lost f = expected f
     \<and> length (kids ch v) \<le> expected f \<and> (\<forall>n. declared = Some n \<longrightarrow> n \<le> expected f) \<and> length (shown f) \<le> 50"
proof -
  let ?cs = "kids ch v"
  let ?counted = "map (\<lambda>w. counted_as (status_of w) (settled_as (settle_status (status_of w) (reason_of w)) c)) ?cs"
  define total where "total = (case declared of None \<Rightarrow> length ?cs | Some n \<Rightarrow> max n (length ?cs))"
  have f: "f = \<lparr>expected = total, running = count_list ?counted (Status Running),
             succeeded = count_list ?counted (Status Succeeded), failed = count_list ?counted (Status Failed),
             stuck = count_list ?counted (Status Stuck), created = count_list ?counted (Status Created),
             waiting = fst (split_slots (total - length ?cs) c),
             never_started = count_list ?counted (Apart Never_Started) + snd (split_slots (total - length ?cs) c),
             lost = count_list ?counted (Apart Lost), shown = take FLEET_MAX_CHILDREN_DETAIL ?cs\<rparr>"
    using assms(1) by (simp add: fleet_summary_def Let_def sum_count_statuses count_statuses_count total_def split: if_splits)
  have enough: "length ?cs \<le> total" by (simp add: total_def split: option.split)
  have "count_list ?counted (Status Running) + count_list ?counted (Status Succeeded) + count_list ?counted (Status Failed)
      + count_list ?counted (Status Stuck) + count_list ?counted (Status Created)
      + count_list ?counted (Apart Never_Started) + count_list ?counted (Apart Lost) = length ?counted"
    by (rule counted_partition) (use assms(2) counted_as_kinds in auto)
  moreover have "fst (split_slots n c) + snd (split_slots n c) = n" for n by (simp add: split_slots_def)
  ultimately show ?thesis using enough
    by (auto simp: f total_def FLEET_MAX_CHILDREN_DETAIL_def algebra_simps)
qed

theorem fleet_adds_up_witness:
  "\<exists>f. fleet_summary ''a'' [(''a'', [''b'', ''c''])] (\<lambda>w. Running) (\<lambda>w. None) (Some 5) False = Some f
     \<and> running f + succeeded f + failed f + stuck f + created f + waiting f + never_started f + lost f = expected f"
proof -
  obtain f where f: "fleet_summary ''a'' [(''a'', [''b'', ''c''])] (\<lambda>w. Running) (\<lambda>w. None) (Some 5) False = Some f"
    by (simp add: fleet_summary_def Let_def kids_def)
  show ?thesis using fleet_adds_up [OF f] f by simp
qed

end
