(* ===== verification/State_CAS.thy ===== *)
theory State_CAS
imports Prelude
begin

text \<open>
  Ending a run exactly once, from core/state_cas.py and the local store's conditional write
  (storage/local.py), with the updates of sdk/state_publisher.py. The interface is a file with
  version tokens; the local store provides it, its token being the content's hash, taken to be free
  of collisions. Any number of processes interleave at their reads and their conditional writes.
\<close>

section \<open>The local store's state file\<close>

datatype 'd token = No_File | Hash 'd          \<comment> \<open>\<open>NO_FILE\<close>, or the hash of a content\<close>

record 'd state_file =
  record_exists :: bool
  content :: "'d option"

definition content_token :: "'d option \<Rightarrow> 'd token" where
  "content_token d = (case d of None \<Rightarrow> No_File | Some x \<Rightarrow> Hash x)"

definition load_file_with_token :: "'d state_file \<Rightarrow> 'd option \<times> 'd token option" where
  "load_file_with_token f = (content f, Some (content_token (content f)))"

definition save_file_if_match :: "'d state_file \<Rightarrow> 'd \<Rightarrow> 'd token option \<Rightarrow> 'd state_file \<times> bool \<times> 'd token option" where
  "save_file_if_match f d etag =
     (if \<not> record_exists f then (f, True, None)
      else if etag \<noteq> None \<and> Some (content_token (content f)) \<noteq> etag then (f, False, None)
      else (f\<lparr>content := Some d\<rparr>, True, Some (content_token (Some d))))"

section \<open>Compare and save\<close>

definition ROUNDS :: nat where "ROUNDS = 8"

datatype ('d, 't) outcome = Saved 'd "'t option" | Refused | Contended

definition cas_read :: "('s \<Rightarrow> 'd option \<times> 't option) \<Rightarrow> ('d option \<times> 't option) option \<Rightarrow> 's \<Rightarrow> 'd option \<times> 't option" where
  \<comment> \<open>\<open>seed or _load(...)\<close>\<close>
  "cas_read load seed s = (case seed of Some x \<Rightarrow> x | None \<Rightarrow> load s)"

definition cas_write ::
    "('s \<Rightarrow> 'd \<Rightarrow> 't option \<Rightarrow> 's \<times> bool \<times> 't option) \<Rightarrow> ('d option \<Rightarrow> 'd option) \<Rightarrow> 'd option \<times> 't option \<Rightarrow> 's
     \<Rightarrow> 's \<times> ('d, 't) outcome option" where
  \<comment> \<open>the rest of a round; no outcome: the write was refused, and the next round reads again\<close>
  "cas_write save update read s =
     (case update (fst read) of
        None \<Rightarrow> (s, Some Refused)
      | Some d \<Rightarrow>
          (case save s d (snd read) of (s', written, token) \<Rightarrow>
             if written then (s', Some (Saved d token)) else (s', None)))"

fun compare_and_save_rounds ::
    "('s \<Rightarrow> 'd option \<times> 't option) \<Rightarrow> ('s \<Rightarrow> 'd \<Rightarrow> 't option \<Rightarrow> 's \<times> bool \<times> 't option)
     \<Rightarrow> (nat \<Rightarrow> 's \<Rightarrow> 's) \<Rightarrow> ('d option \<Rightarrow> 'd option) \<Rightarrow> nat \<Rightarrow> ('d option \<times> 't option) option \<Rightarrow> 's
     \<Rightarrow> 's \<times> ('d, 't) outcome" where
  \<comment> \<open>what other processes do between a round's read and its write is the argument \<open>others\<close>\<close>
  "compare_and_save_rounds load save others update 0 seed s = (s, Contended)"
| "compare_and_save_rounds load save others update (Suc n) seed s =
     (case cas_write save update (cas_read load seed s) (others n s) of
        (s', Some out) \<Rightarrow> (s', out)
      | (s', None) \<Rightarrow> compare_and_save_rounds load save others update n None s')"

definition compare_and_save_token ::
    "('s \<Rightarrow> 'd option \<times> 't option) \<Rightarrow> ('s \<Rightarrow> 'd \<Rightarrow> 't option \<Rightarrow> 's \<times> bool \<times> 't option)
     \<Rightarrow> (nat \<Rightarrow> 's \<Rightarrow> 's) \<Rightarrow> ('d option \<Rightarrow> 'd option) \<Rightarrow> ('d option \<times> 't option) option \<Rightarrow> 's
     \<Rightarrow> 's \<times> ('d, 't) outcome" where
  "compare_and_save_token load save others update seed = compare_and_save_rounds load save others update ROUNDS seed"

section \<open>Interleaved processes\<close>

datatype ('d, 't) phase =
    Reading "('d option \<times> 't option) option"  \<comment> \<open>about to start a round, with a seed or none\<close>
  | Writing "'d option \<times> 't option"           \<comment> \<open>what the round read\<close>
  | Idle

record ('d, 't) client =
  phase :: "('d, 't) phase"
  rounds_left :: nat
  update_of :: "'d option \<Rightarrow> 'd option"

definition seed_valid :: "('s \<Rightarrow> 'd option \<times> 't option) \<Rightarrow> ('d option \<Rightarrow> 'd option) \<Rightarrow> 'd option \<times> 't option \<Rightarrow> bool" where
  \<comment> \<open>while the token is current, the update decides as it would on the stored content\<close>
  "seed_valid load u x = (\<forall>s. snd (load s) = snd x \<longrightarrow> u (fst x) = u (fst (load s)))"

inductive cas_step ::
    "('s \<Rightarrow> 'd option \<times> 't option) \<Rightarrow> ('s \<Rightarrow> 'd \<Rightarrow> 't option \<Rightarrow> 's \<times> bool \<times> 't option)
     \<Rightarrow> (nat \<Rightarrow> ('d option \<Rightarrow> 'd option) set) \<Rightarrow> 's \<times> (nat \<Rightarrow> ('d, 't) client) \<Rightarrow> 's \<times> (nat \<Rightarrow> ('d, 't) client) \<Rightarrow> bool"
  for load save updates where
  call: "phase (C i) = Idle \<Longrightarrow> u \<in> updates i \<Longrightarrow>
     (\<forall>x. seed = Some x \<longrightarrow> snd x \<noteq> None \<and> seed_valid load u x) \<Longrightarrow>
     cas_step load save updates (s, C)
       (s, C(i := \<lparr>phase = Reading seed, rounds_left = ROUNDS, update_of = u\<rparr>))"
| read: "phase (C i) = Reading seed \<Longrightarrow> rounds_left (C i) = Suc n \<Longrightarrow>
     cas_step load save updates (s, C)
       (s, C(i := (C i)\<lparr>phase := Writing (cas_read load seed s), rounds_left := n\<rparr>))"
| give_up: "phase (C i) = Reading seed \<Longrightarrow> rounds_left (C i) = 0 \<Longrightarrow>
     cas_step load save updates (s, C) (s, C(i := (C i)\<lparr>phase := Idle\<rparr>))"
| finish: "phase (C i) = Writing x \<Longrightarrow> cas_write save (update_of (C i)) x s = (s', Some out) \<Longrightarrow>
     cas_step load save updates (s, C) (s', C(i := (C i)\<lparr>phase := Idle\<rparr>))"
| again: "phase (C i) = Writing x \<Longrightarrow> cas_write save (update_of (C i)) x s = (s', None) \<Longrightarrow>
     cas_step load save updates (s, C) (s', C(i := (C i)\<lparr>phase := Reading None\<rparr>))"

inductive reachable_from ::
    "('s \<Rightarrow> 'd option \<times> 't option) \<Rightarrow> ('s \<Rightarrow> 'd \<Rightarrow> 't option \<Rightarrow> 's \<times> bool \<times> 't option)
     \<Rightarrow> (nat \<Rightarrow> ('d option \<Rightarrow> 'd option) set) \<Rightarrow> 's \<Rightarrow> 's \<times> (nat \<Rightarrow> ('d, 't) client) \<Rightarrow> bool"
  for load save updates s\<^sub>0 where
  start: "(\<And>i. phase (C i) = Idle) \<Longrightarrow> reachable_from load save updates s\<^sub>0 (s\<^sub>0, C)"
| steps: "reachable_from load save updates s\<^sub>0 \<sigma> \<Longrightarrow> cas_step load save updates \<sigma> \<sigma>' \<Longrightarrow> reachable_from load save updates s\<^sub>0 \<sigma>'"

section \<open>The interface\<close>

locale versioned_file =
  fixes load :: "'s \<Rightarrow> 'd option \<times> 't option"
    and save :: "'s \<Rightarrow> 'd \<Rightarrow> 't option \<Rightarrow> 's \<times> bool \<times> 't option"
  assumes token: "snd (load s) \<noteq> None"
    and token_identifies: "snd (load s) = snd (load s') \<Longrightarrow> fst (load s) = fst (load s')"
    and save_current: "save s d (snd (load s)) = (s', w, t) \<Longrightarrow> w \<and> (load s' = (Some d, t) \<or> s' = s \<and> t = None)"
    and save_stale: "t \<noteq> None \<Longrightarrow> t \<noteq> snd (load s) \<Longrightarrow> save s d t = (s', w, t') \<Longrightarrow> s' = s"
begin

definition client_ok :: "('d, 't) client \<Rightarrow> bool" where
  "client_ok c = (case phase c of
       Reading (Some x) \<Rightarrow> snd x \<noteq> None \<and> seed_valid load (update_of c) x
     | Writing x \<Rightarrow> snd x \<noteq> None \<and> seed_valid load (update_of c) x
     | _ \<Rightarrow> True)"

lemma read_valid: "snd (load s) \<noteq> None \<and> seed_valid load u (load s)"
proof -
  have "fst (load s') = fst (load s)" if "snd (load s') = snd (load s)" for s'
    using token_identifies [of s' s] that by simp
  then have "seed_valid load u (load s)" unfolding seed_valid_def by metis
  then show ?thesis using token by blast
qed

lemma write_atomic:
  assumes "snd x \<noteq> None" "seed_valid load u x" "cas_write save u x s = (s', out)"
  shows "fst (load s') = fst (load s) \<or> (\<exists>d. u (fst (load s)) = Some d \<and> fst (load s') = Some d)"
proof (cases "u (fst x)")
  case (Some d)
  obtain t w t' where sv: "save s d (snd x) = (t, w, t')" by (metis prod_cases3)
  have s': "s' = t" using assms(3) Some sv by (auto simp: cas_write_def split: if_splits)
  show ?thesis
  proof (cases "snd x = snd (load s)")
    case True
    then have "u (fst (load s)) = Some d" using assms(2) Some by (auto simp: seed_valid_def)
    moreover have "load t = (Some d, t') \<or> t = s" using save_current [of s d] sv True by auto
    ultimately show ?thesis using s' by auto
  next
    case False
    then show ?thesis using save_stale [OF assms(1) False sv] s' by simp
  qed
qed (use assms(3) in \<open>simp add: cas_write_def\<close>)

lemma clients_stay_ok:
  assumes "cas_step load save updates (s, C) (s', C')" "\<And>i. client_ok (C i)"
  shows "client_ok (C' i)"
  using assms
proof cases
  case (read j seed n)
  have "client_ok (C j)" using assms(2) .
  then show ?thesis using read assms(2) [of i] read_valid
    by (auto simp: client_ok_def cas_read_def split: option.splits)
qed (use assms(2) [of i] in \<open>auto simp: client_ok_def split: option.splits\<close>)

lemma updates_stay:
  assumes "cas_step load save updates (s, C) (s', C')" "\<And>i. phase (C i) \<noteq> Idle \<Longrightarrow> update_of (C i) \<in> updates i"
    "phase (C' i) \<noteq> Idle"
  shows "update_of (C' i) \<in> updates i"
  using assms by cases (auto split: if_splits)

lemma reachable_ok:
  assumes "reachable_from load save updates s\<^sub>0 \<sigma>"
  shows "(\<forall>i. client_ok (snd \<sigma> i)) \<and> (\<forall>i. phase (snd \<sigma> i) \<noteq> Idle \<longrightarrow> update_of (snd \<sigma> i) \<in> updates i)"
  using assms
proof (induction rule: reachable_from.induct)
  case (start C)
  then show ?case by (simp add: client_ok_def)
next
  case (steps \<sigma> \<sigma>')
  then show ?case using clients_stay_ok [of updates "fst \<sigma>" "snd \<sigma>" "fst \<sigma>'" "snd \<sigma>'"]
      updates_stay [of updates "fst \<sigma>" "snd \<sigma>" "fst \<sigma>'" "snd \<sigma>'"] by auto
qed

text \<open>Every step of the interleaved processes changes the content as one atomic update would.\<close>

lemma step_by_client:
  assumes "reachable_from load save updates s\<^sub>0 (s, C)" "cas_step load save updates (s, C) (s', C')"
  shows "fst (load s') = fst (load s) \<or>
     (\<exists>i d. update_of (C i) \<in> updates i \<and> update_of (C i) (fst (load s)) = Some d \<and> fst (load s') = Some d)"
  using assms(2)
proof cases
  case (finish i x out)
  then have "client_ok (C i)" "update_of (C i) \<in> updates i" using reachable_ok [OF assms(1)] by auto
  then show ?thesis using finish write_atomic [of x "update_of (C i)" s s'] by (auto simp: client_ok_def)
next
  case (again i x)
  then have "client_ok (C i)" "update_of (C i) \<in> updates i" using reachable_ok [OF assms(1)] by auto
  then show ?thesis using again write_atomic [of x "update_of (C i)" s s'] by (auto simp: client_ok_def)
qed simp_all

lemma step_atomic:
  assumes "reachable_from load save updates s\<^sub>0 (s, C)" "cas_step load save updates (s, C) (s', C')"
  shows "fst (load s') = fst (load s) \<or>
     (\<exists>i. \<exists>u \<in> updates i. \<exists>d. u (fst (load s)) = Some d \<and> fst (load s') = Some d)"
  using step_by_client [OF assms] by blast

lemma content_invariant:
  assumes "reachable_from load save updates s\<^sub>0 (s, C)" "I (fst (load s\<^sub>0))"
    and "\<And>i u c d. u \<in> updates i \<Longrightarrow> I c \<Longrightarrow> u c = Some d \<Longrightarrow> I (Some d)"
  shows "I (fst (load s))"
proof -
  have "I (fst (load (fst \<sigma>)))" if "reachable_from load save updates s\<^sub>0 \<sigma>" for \<sigma>
    using that
  proof (induction rule: reachable_from.induct)
    case (steps \<sigma> \<sigma>')
    then show ?case using step_atomic [of updates s\<^sub>0 "fst \<sigma>" "snd \<sigma>" "fst \<sigma>'" "snd \<sigma>'"] assms(3) by fastforce
  qed (use assms(2) in simp)
  from this [OF assms(1)] show ?thesis by simp
qed

text \<open>A round in which nobody else writes lands, unless the update itself refuses.\<close>

lemma quiet_round_ends:
  assumes "others n s = s" "seed = None"
  shows "snd (compare_and_save_rounds load save others u (Suc n) seed s) \<noteq> Contended"
proof (cases "u (fst (load s))")
  case None
  then show ?thesis using assms by (simp add: cas_read_def cas_write_def)
next
  case (Some d)
  obtain t w t' where sv: "save s d (snd (load s)) = (t, w, t')" by (metis prod_cases3)
  then have w using save_current by blast
  then show ?thesis using assms Some sv by (simp add: cas_read_def cas_write_def)
qed

lemma contended_rounds:
  "snd (compare_and_save_rounds load save others u n seed s) = Contended \<Longrightarrow>
   m < (if seed = None then n else n - 1) \<Longrightarrow> \<exists>s. others m s \<noteq> s"
proof (induction n arbitrary: seed s)
  case (Suc n)
  show ?case
  proof (cases "m = n")
    case True
    then have "seed = None" using Suc.prems(2) by (auto split: if_splits)
    then have "others n s \<noteq> s" using quiet_round_ends [of others n s seed u] Suc.prems(1) by metis
    then show ?thesis using True by blast
  next
    case False
    then have m: "m < n" using Suc.prems(2) by (auto split: if_splits)
    obtain s' o' where r: "cas_write save u (cas_read load seed s) (others n s) = (s', o')" by fastforce
    show ?thesis
    proof (cases o')
      case None
      then have "snd (compare_and_save_rounds load save others u n None s') = Contended" using Suc.prems(1) r by simp
      from Suc.IH [OF this] m show ?thesis by simp
    next
      case (Some out)
      then have "out = Contended" using Suc.prems(1) r by simp
      then show ?thesis using r Some by (auto simp: cas_write_def split: option.splits prod.splits if_splits)
    qed
  qed
qed (simp split: if_splits)

end

interpretation local_file: versioned_file load_file_with_token save_file_if_match
proof unfold_locales
  show "fst (load_file_with_token s) = fst (load_file_with_token s')"
    if "snd (load_file_with_token s) = snd (load_file_with_token s')" for s s' :: "'d state_file"
    using that by (auto simp: load_file_with_token_def content_token_def split: option.splits)
qed (auto simp: load_file_with_token_def save_file_if_match_def split: if_splits)

section \<open>Run states\<close>

record run_doc =
  doc_state :: string                        \<comment> \<open>\<open>running\<close>, \<open>finished\<close>, \<open>released\<close>\<close>
  doc_attempt :: "string option"
  doc_exit :: "int option"

definition finished_by_another :: "run_doc option \<Rightarrow> string option \<Rightarrow> bool" where
  "finished_by_another stored attempt =
     (case stored of None \<Rightarrow> False | Some d \<Rightarrow> doc_state d = ''finished'' \<and> doc_attempt d \<noteq> attempt)"

record publisher =
  resumes_final :: bool                      \<comment> \<open>it resumes a run whose state is final\<close>
  resumed_attempt :: "string option"
  resuming :: bool
  last_token :: "run_doc token option"       \<comment> \<open>of its last write to the file\<close>

definition unless_lost :: "publisher \<Rightarrow> run_doc \<Rightarrow> run_doc option \<Rightarrow> run_doc option" where
  "unless_lost p st stored =
     (let resumed = resumes_final p \<and> Option.bind stored doc_attempt = resumed_attempt p;
          lost = finished_by_another stored (doc_attempt st) \<and> \<not> (last_token p = None \<and> resumed)
      in if lost then None else Some st)"

definition publisher_seed :: "publisher \<Rightarrow> (run_doc option \<times> run_doc token option) option" where
  \<comment> \<open>\<open>_seed\<close>: the stored state it names is the empty mapping\<close>
  "publisher_seed p =
     (if last_token p \<noteq> None \<or> resuming p
      then (case last_token p of Some t \<Rightarrow> Some (None, Some t) | None \<Rightarrow> None)
      else Some (None, Some No_File))"

definition refuse_unfinishable :: "bool \<Rightarrow> bool \<Rightarrow> (run_doc option \<Rightarrow> bool) \<Rightarrow> run_doc option \<Rightarrow> bool" where
  \<comment> \<open>whether \<open>finish_run\<close> refuses: a live run unless that is overridden, an ended one unless that is\<close>
  "refuse_unfinishable force_live force_finished live prior =
     (if force_live \<and> force_finished then False
      else (case Option.bind prior doc_exit of
              Some _ \<Rightarrow> \<not> force_finished
            | None \<Rightarrow> live prior \<and> \<not> force_live))"

definition finish_update :: "bool \<Rightarrow> bool \<Rightarrow> (run_doc option \<Rightarrow> bool) \<Rightarrow> string \<Rightarrow> int \<Rightarrow> run_doc option \<Rightarrow> run_doc option" where
  \<comment> \<open>the final state, under a new attempt id; refusing raises in the code\<close>
  "finish_update force_live force_finished live new_attempt exit prior =
     (if refuse_unfinishable force_live force_finished live prior then None
      else Some \<lparr>doc_state = ''finished'', doc_attempt = Some new_attempt, doc_exit = Some exit\<rparr>)"

text \<open>
  A publisher's seed names the empty mapping instead of its own last state; while the token is
  current that decides alike.
\<close>

lemma publisher_seed_valid:
  assumes "last_token p = None \<or> last_token p = Some (Hash own) \<and> doc_attempt own = doc_attempt st"
    "publisher_seed p = Some x"
  shows "snd x \<noteq> None \<and> seed_valid load_file_with_token (unless_lost p st) x"
  using assms
  by (auto simp: publisher_seed_def seed_valid_def unless_lost_def finished_by_another_def
      load_file_with_token_def content_token_def Let_def split: option.splits if_splits)

definition attempt_updates :: "(nat \<Rightarrow> string) \<Rightarrow> nat \<Rightarrow> (run_doc option \<Rightarrow> run_doc option) set" where
  \<comment> \<open>what process \<open>i\<close>, a publisher of the attempt \<open>ids i\<close>, resuming or not, or a \<open>finish_run\<close>, forced or
     not, that ends the run under the new attempt \<open>ids i\<close>, may ask for\<close>
  "attempt_updates ids i =
     {unless_lost p st | p st. doc_attempt st = Some (ids i) \<and> (doc_state st = ''finished'' \<longrightarrow> doc_exit st \<noteq> None)}
     \<union> {finish_update fl ff live (ids i) n | fl ff live n. True}"

definition final_of :: "string \<Rightarrow> run_doc option \<Rightarrow> bool" where
  \<comment> \<open>the content is this attempt's\<close>
  "final_of a c = (\<exists>d. c = Some d \<and> doc_state d = ''finished'' \<and> doc_attempt d = Some a \<and> doc_exit d \<noteq> None)"

definition resumes_ended :: "string \<Rightarrow> (run_doc option \<Rightarrow> run_doc option) \<Rightarrow> bool" where
  \<comment> \<open>the first write of a publisher that resumes the run from this attempt's final state\<close>
  "resumes_ended a u = (\<exists>p st. u = unless_lost p st \<and> resumes_final p \<and> resumed_attempt p = Some a \<and> last_token p = None)"

definition forced_finish :: "(run_doc option \<Rightarrow> run_doc option) \<Rightarrow> bool" where
  \<comment> \<open>\<open>finish_run\<close> with \<open>force=True\<close>, which overrides a finished run too\<close>
  "forced_finish u = (\<exists>fl live b n. u = finish_update fl True live b n)"

lemma winner_keeps:
  assumes "u \<in> attempt_updates ids i" "final_of a c" "u c = Some d"
  shows "doc_attempt d = Some (ids i) \<and> (ids i = a \<or> resumes_ended a u \<or> forced_finish u)"
proof -
  consider p st where "u = unless_lost p st" "doc_attempt st = Some (ids i)"
    | fl ff live n where "u = finish_update fl ff live (ids i) n"
    using assms(1) by (auto simp: attempt_updates_def)
  then show ?thesis
  proof cases
    case 1
    then show ?thesis using assms(2,3)
      by (auto simp: final_of_def unless_lost_def finished_by_another_def resumes_ended_def Let_def split: if_splits)
  next
    case 2
    then show ?thesis using assms(2,3)
      by (cases ff) (auto simp: final_of_def finish_update_def refuse_unfinishable_def forced_finish_def split: if_splits)
  qed
qed

text \<open>
  C18. A run is ended once, unless it is resumed or forced. However many publishers of attempts,
  resuming ones among them, and calls of \<open>finish_run\<close>, forced ones among them, interleave
  their reads and conditional writes of the run's state (unconditional writes, like those of the
  command-line runner, are not among them), once it holds the final state of one attempt a step leaves
  it as it is, or is a write of a process under its own attempt, and that is the attempt that ended the
  run, or a publisher in its first write that resumes the run from just this final state, or a
  \<open>finish_run\<close> with \<open>force=True\<close>: nobody else's end, release or heartbeat
  replaces it.
\<close>

theorem first_final_state_stays:
  assumes "reachable_from load_file_with_token save_file_if_match (attempt_updates ids) s\<^sub>0 (s, C)"
    and "final_of a (content s)"
    and "cas_step load_file_with_token save_file_if_match (attempt_updates ids) (s, C) (s', C')"
  shows "content s' = content s \<or> (\<exists>i d. content s' = Some d \<and> doc_attempt d = Some (ids i)
    \<and> (ids i = a \<or> resumes_ended a (update_of (C i)) \<or> forced_finish (update_of (C i))))"
proof -
  from local_file.step_by_client [OF assms(1,3)]
  consider "content s' = content s" | i d where "update_of (C i) \<in> attempt_updates ids i"
      "update_of (C i) (content s) = Some d" "content s' = Some d"
    by (auto simp: load_file_with_token_def)
  then show ?thesis
  proof cases
    case 2
    then show ?thesis using winner_keeps [OF 2(1) assms(2) 2(2)] by blast
  qed simp
qed

text \<open>
  C19. Conditional writes are atomic: a step of any process, taken in any reachable interleaving,
  leaves the content as it is or replaces it by what one of the processes' updates makes of exactly
  the content it replaces, so that the system refines one that updates atomically.
\<close>

theorem cas_refines_atomic:
  assumes "reachable_from load_file_with_token save_file_if_match updates s\<^sub>0 (s, C)"
    and "cas_step load_file_with_token save_file_if_match updates (s, C) (s', C')"
  shows "content s' = content s \<or> (\<exists>i. \<exists>u \<in> updates i. \<exists>d. u (content s) = Some d \<and> content s' = Some d)"
  using local_file.step_atomic [OF assms] by (simp add: load_file_with_token_def)

text \<open>
  A compare-and-save gives up only under contention: when it does, another process wrote the
  file in each of its eight rounds, or, when it started from a seed, in each after the first.
\<close>

theorem contended_only_by_others:
  assumes "snd (compare_and_save_token load_file_with_token save_file_if_match others u seed s) = Contended"
    and "m < (if seed = None then 8 else 7)"
  shows "\<exists>s. others m s \<noteq> s"
  using local_file.contended_rounds [of others u ROUNDS seed s m] assms
  by (simp add: compare_and_save_token_def ROUNDS_def split: if_splits)

section \<open>Witnesses\<close>

definition ended :: "string \<Rightarrow> run_doc" where
  "ended a = \<lparr>doc_state = ''finished'', doc_attempt = Some a, doc_exit = Some 0\<rparr>"

definition running_doc :: "string \<Rightarrow> run_doc" where
  "running_doc a = \<lparr>doc_state = ''running'', doc_attempt = Some a, doc_exit = None\<rparr>"

definition two_attempts :: "nat \<Rightarrow> string" where
  "two_attempts i = (if i = 0 then ''a'' else ''b'')"

definition ended_file :: "run_doc state_file" where
  "ended_file = \<lparr>record_exists = True, content = Some (ended ''a'')\<rparr>"

definition late_update :: "run_doc option \<Rightarrow> run_doc option" where
  \<comment> \<open>the other attempt's own end\<close>
  "late_update = finish_update False False (\<lambda>c. False) ''b'' 1"

text \<open>The other attempt reads the ended run and is about to write.\<close>

lemma late_run:
  defines "D \<equiv> \<lambda>i :: nat. \<lparr>phase = Idle, rounds_left = 0, update_of = Map.empty\<rparr> :: (run_doc, run_doc token) client"
  shows "\<exists>C. reachable_from load_file_with_token save_file_if_match (attempt_updates two_attempts) ended_file (ended_file, C)
     \<and> cas_step load_file_with_token save_file_if_match (attempt_updates two_attempts) (ended_file, C)
         (ended_file, C(1 := (C 1)\<lparr>phase := Idle\<rparr>))
     \<and> phase (C 1) = Writing (Some (ended ''a''), Some (Hash (ended ''a'')))"
proof -
  let ?step = "cas_step load_file_with_token save_file_if_match (attempt_updates two_attempts)"
  let ?reach = "reachable_from load_file_with_token save_file_if_match (attempt_updates two_attempts) ended_file"
  define C1 where "C1 = D(1 := \<lparr>phase = Reading None, rounds_left = ROUNDS, update_of = late_update\<rparr>)"
  define C2 where "C2 = C1(1 := (C1 1)\<lparr>phase := Writing (cas_read load_file_with_token None ended_file), rounds_left := 7\<rparr>)"
  have "late_update = finish_update False False (\<lambda>c. False) (two_attempts 1) 1"
    by (simp add: late_update_def two_attempts_def)
  then have u: "late_update \<in> attempt_updates two_attempts 1" unfolding attempt_updates_def by blast
  have s1: "?step (ended_file, D) (ended_file, C1)" unfolding C1_def
    by (rule cas_step.call [where i = 1 and u = late_update]) (use u in \<open>simp_all add: D_def\<close>)
  have s2: "?step (ended_file, C1) (ended_file, C2)" unfolding C2_def
    by (rule cas_step.read) (simp_all add: C1_def ROUNDS_def)
  have "phase (C2 1) = Writing (cas_read load_file_with_token None ended_file)" by (simp add: C2_def)
  moreover have "update_of (C2 1) = late_update" by (simp add: C2_def C1_def)
  moreover have "cas_write save_file_if_match late_update (cas_read load_file_with_token None ended_file) ended_file
      = (ended_file, Some Refused)"
    by (simp add: cas_write_def late_update_def finish_update_def refuse_unfinishable_def cas_read_def
        load_file_with_token_def ended_file_def ended_def)
  ultimately have s3: "?step (ended_file, C2) (ended_file, C2(1 := (C2 1)\<lparr>phase := Idle\<rparr>))"
    by (intro cas_step.finish) simp_all
  have "?reach (ended_file, D)" by (rule reachable_from.start) (simp add: D_def)
  then have "?reach (ended_file, C2)" using s1 s2 reachable_from.steps by metis
  moreover have "phase (C2 1) = Writing (Some (ended ''a''), Some (Hash (ended ''a'')))"
    by (simp add: C2_def cas_read_def load_file_with_token_def ended_file_def content_token_def)
  ultimately show ?thesis using s3 by blast
qed

theorem first_final_state_stays_witness:
  "\<exists>(C :: nat \<Rightarrow> (run_doc, run_doc token) client) (s' :: run_doc state_file). phase (C 1) = Writing (Some (ended ''a''), Some (Hash (ended ''a'')))
     \<and> (content s' = content ended_file \<or> (\<exists>i d. content s' = Some d \<and> doc_attempt d = Some (two_attempts i)
       \<and> (two_attempts i = ''a'' \<or> resumes_ended ''a'' (update_of (C i)) \<or> forced_finish (update_of (C i)))))"
proof -
  obtain C where C: "reachable_from load_file_with_token save_file_if_match (attempt_updates two_attempts) ended_file (ended_file, C)"
    "cas_step load_file_with_token save_file_if_match (attempt_updates two_attempts) (ended_file, C)
         (ended_file, C(1 := (C 1)\<lparr>phase := Idle\<rparr>))"
    "phase (C 1) = Writing (Some (ended ''a''), Some (Hash (ended ''a'')))" using late_run by blast
  have "final_of ''a'' (content ended_file)" by (simp add: final_of_def ended_file_def ended_def)
  from first_final_state_stays [OF C(1) this C(2)] C(3) show ?thesis by blast
qed

theorem cas_refines_atomic_witness:
  "\<exists>(C :: nat \<Rightarrow> (run_doc, run_doc token) client) (s' :: run_doc state_file). phase (C 1) = Writing (Some (ended ''a''), Some (Hash (ended ''a'')))
     \<and> (content s' = content ended_file \<or>
        (\<exists>i. \<exists>u \<in> attempt_updates two_attempts i. \<exists>d. u (content ended_file) = Some d \<and> content s' = Some d))"
proof -
  obtain C where C: "reachable_from load_file_with_token save_file_if_match (attempt_updates two_attempts) ended_file (ended_file, C)"
    "cas_step load_file_with_token save_file_if_match (attempt_updates two_attempts) (ended_file, C)
         (ended_file, C(1 := (C 1)\<lparr>phase := Idle\<rparr>))"
    "phase (C 1) = Writing (Some (ended ''a''), Some (Hash (ended ''a'')))" using late_run by blast
  from cas_refines_atomic [OF C(1,2)] C(3) show ?thesis by blast
qed

text \<open>A busy neighbour: in every round it writes a beat that changes the file.\<close>

definition busy :: "nat \<Rightarrow> nat state_file \<Rightarrow> nat state_file" where
  "busy n s = s\<lparr>content := Some (case content s of Some k \<Rightarrow> Suc k | None \<Rightarrow> 0)\<rparr>"

theorem contended_only_by_others_witness:
  "snd (compare_and_save_token load_file_with_token save_file_if_match busy (\<lambda>c. Some 0) None
     \<lparr>record_exists = True, content = None\<rparr>) = Contended \<and> (\<exists>s. busy 3 s \<noteq> s)"
proof -
  have "snd (compare_and_save_token load_file_with_token save_file_if_match busy (\<lambda>c. Some 0) None
     \<lparr>record_exists = True, content = None\<rparr>) = Contended" by code_simp
  then show ?thesis using contended_only_by_others [where m = 3] by fastforce
qed

end
