(* ===== verification/Sweep_Claims.thy ===== *)
theory Sweep_Claims
imports Data_Values
begin

text \<open>
  Trial slots of a sweep, claimed without a server, from core/sweep/claims.py of the experiment SDK.
  The interface is an area whose records are created exclusively; the local store provides it (one
  directory per record, made by one creator only). Listings may lag behind other agents' claims, and
  other agents act between a listing and a claim: both are arguments of the model.
\<close>

section \<open>Slot names\<close>

definition record_name :: "nat \<Rightarrow> nat \<Rightarrow> string" where
  \<comment> \<open>\<open>_record\<close>\<close>
  "record_name trial attempt =
     (if attempt \<noteq> 0 then ''t'' @ nat_str trial @ ''.a'' @ nat_str attempt else ''t'' @ nat_str trial)"

definition end_of_name :: "string \<Rightarrow> bool" where
  \<comment> \<open>\<open>$\<close>\<close>
  "end_of_name s = (s = [] \<or> s = [CHR 0x0A])"

definition slot_of :: "string \<Rightarrow> (nat \<times> nat) option" where
  \<comment> \<open>a match of \<open>^t(\d+)(?:\.a(\d+))?$\<close>\<close>
  "slot_of name =
     (case name of
        [] \<Rightarrow> None
      | c # rest \<Rightarrow>
          let digits = takeWhile is_digit rest; more = dropWhile is_digit rest in
          if c \<noteq> CHR ''t'' \<or> digits = [] then None
          else if end_of_name more then Some (str_nat digits, 0)
          else if starts_with ''.a'' more
          then (let digits2 = takeWhile is_digit (drop 2 more) in
                if digits2 \<noteq> [] \<and> end_of_name (dropWhile is_digit (drop 2 more))
                then Some (str_nat digits, str_nat digits2) else None)
          else None)"

lemma span_nat_str:
  assumes "b = [] \<or> \<not> is_digit (hd b)"
  shows "takeWhile is_digit (nat_str n @ b) = nat_str n" "dropWhile is_digit (nat_str n @ b) = b"
proof -
  show "takeWhile is_digit (nat_str n @ b) = nat_str n" using assms nat_str_digits by (intro takeWhile_run)
  then show "dropWhile is_digit (nat_str n @ b) = b" by (metis append_eq_append_conv takeWhile_dropWhile_id)
qed

lemma span_nat_str_end [simp]: "takeWhile is_digit (nat_str n) = nat_str n" "dropWhile is_digit (nat_str n) = []"
  using span_nat_str [of "[]" n] unfolding append_Nil2 by blast+

lemma dot_no_digit: "\<not> is_digit (CHR ''.'')"
  by (simp add: is_digit_def)

text \<open>
  The slot of a trial's attempt is read back from its record name, so distinct slots have
  distinct names.
\<close>

theorem slot_of_record_name: "slot_of (record_name trial attempt) = Some (trial, attempt)"
proof (cases "attempt = 0")
  case True
  then show ?thesis
    by (simp add: slot_of_def record_name_def end_of_name_def Let_def)
next
  case False
  have "takeWhile is_digit (nat_str trial @ ''.a'' @ nat_str attempt) = nat_str trial"
    "dropWhile is_digit (nat_str trial @ ''.a'' @ nat_str attempt) = ''.a'' @ nat_str attempt"
    using span_nat_str [of "''.a'' @ nat_str attempt" trial] dot_no_digit by simp_all
  then show ?thesis using False
    by (simp add: slot_of_def record_name_def end_of_name_def Let_def del: takeWhile_append dropWhile_append)
qed

lemma record_name_inject [simp]: "record_name t a = record_name u b \<longleftrightarrow> t = u \<and> a = b"
  by (metis option.inject prod.inject slot_of_record_name)

section \<open>Claims\<close>

record claim =
  trial :: nat
  attempt :: nat
  params :: yv
  agent :: string

type_synonym area = "(string \<times> claim) list"   \<comment> \<open>the records of one sweep's scope\<close>

definition create_exclusive :: "(string \<times> 'c) list \<Rightarrow> string \<Rightarrow> 'c \<Rightarrow> (string \<times> 'c) list \<times> bool" where
  \<comment> \<open>the local store's: the exclusive mkdir and the record written behind it, as one step. The cached
    store's, which makes the record locally and takes it back when the remote refuses it, is not
    modelled (there a record can vanish).\<close>
  "create_exclusive a name c = (if map_of a name \<noteq> None then (a, False) else (a @ [(name, c)], True))"

definition claim_slot :: "area \<Rightarrow> nat \<Rightarrow> nat \<Rightarrow> yv \<Rightarrow> string \<Rightarrow> area \<times> claim option" where
  \<comment> \<open>\<open>_claim\<close>\<close>
  "claim_slot a t n ps who =
     (let c = \<lparr>trial = t, attempt = n, params = ps, agent = who\<rparr> in
      case create_exclusive a (record_name t n) c of (a', made) \<Rightarrow> (a', if made then Some c else None))"

definition slots :: "string list \<Rightarrow> (nat \<times> nat) list" where
  "slots names = List.map_filter slot_of names"

definition claimed_trials :: "string list \<Rightarrow> nat list" where
  "claimed_trials names = map fst (slots names)"

definition next_free :: "nat list \<Rightarrow> nat" where
  \<comment> \<open>\<open>max(taken, default=-1) + 1\<close>\<close>
  "next_free taken = foldr (\<lambda>t m. max (Suc t) m) taken 0"

definition MAX_ATTEMPTS :: nat where "MAX_ATTEMPTS = 1000"

definition at_limit :: "nat option \<Rightarrow> nat \<Rightarrow> bool" where
  "at_limit limit n = (case limit of None \<Rightarrow> False | Some l \<Rightarrow> l \<le> n)"

fun claim_rounds ::
    "(nat \<Rightarrow> area \<Rightarrow> string list) \<Rightarrow> (nat \<Rightarrow> area \<Rightarrow> area) \<Rightarrow> nat option \<Rightarrow> (nat \<Rightarrow> yv) \<Rightarrow> string \<Rightarrow> nat \<Rightarrow> nat \<Rightarrow> area
     \<Rightarrow> area \<times> claim option res" where
  \<comment> \<open>what a listing shows and what other agents do after it, by round; \<open>n\<close> is past every index lost\<close>
  "claim_rounds listing others limit suggest who 0 n a = (a, Inl RuntimeErr)"
| "claim_rounds listing others limit suggest who (Suc k) n a =
     (let n' = max (next_free (claimed_trials (listing k a))) n in
      if at_limit limit n' then (a, Inr None)
      else (case claim_slot (others k a) n' 0 (suggest n') who of
              (a', Some c) \<Rightarrow> (a', Inr (Some c))
            | (a', None) \<Rightarrow> claim_rounds listing others limit suggest who k (Suc n') a'))"

definition claim_next_trial ::
    "(nat \<Rightarrow> area \<Rightarrow> string list) \<Rightarrow> (nat \<Rightarrow> area \<Rightarrow> area) \<Rightarrow> nat option \<Rightarrow> (nat \<Rightarrow> yv) \<Rightarrow> string \<Rightarrow> area
     \<Rightarrow> area \<times> claim option res" where
  "claim_next_trial listing others limit suggest who a =
     claim_rounds listing others limit suggest who MAX_ATTEMPTS 0 a"

fun retry_rounds ::
    "(nat \<Rightarrow> area \<Rightarrow> string list) \<Rightarrow> (nat \<Rightarrow> area \<Rightarrow> area) \<Rightarrow> nat \<Rightarrow> yv \<Rightarrow> string \<Rightarrow> nat \<Rightarrow> area \<Rightarrow> area \<times> claim option res" where
  "retry_rounds listing others t ps who 0 a = (a, Inl RuntimeErr)"
| "retry_rounds listing others t ps who (Suc k) a =
     (let attempts = map snd (filter (\<lambda>s. fst s = t) (slots (listing k a))) in
      if attempts = [] then (a, Inl ValueErr)   \<comment> \<open>\<open>max\<close> of an empty list\<close>
      else (case claim_slot (others k a) t (next_free attempts) ps who of
              (a', Some c) \<Rightarrow> (a', Inr (Some c))
            | (a', None) \<Rightarrow> retry_rounds listing others t ps who k a'))"

definition claim_retry ::
    "(nat \<Rightarrow> area \<Rightarrow> string list) \<Rightarrow> (nat \<Rightarrow> area \<Rightarrow> area) \<Rightarrow> nat \<Rightarrow> string \<Rightarrow> nat option \<Rightarrow> area \<Rightarrow> area \<times> claim option res" where
  "claim_retry listing others t who wanted a =
     (case map_of a (record_name t 0) of
        None \<Rightarrow> (a, Inr None)
      | Some original \<Rightarrow>
          (case wanted of
             Some n \<Rightarrow> (case claim_slot a t n (params original) who of (a', c) \<Rightarrow> (a', Inr c))
           | None \<Rightarrow> retry_rounds listing others t (params original) who MAX_ATTEMPTS a))"

section \<open>The interface\<close>

locale exclusive_area =
  fixes create :: "'a \<Rightarrow> string \<Rightarrow> 'c \<Rightarrow> 'a \<times> bool"
    and records :: "'a \<Rightarrow> string \<rightharpoonup> 'c"
  assumes create_free: "records a n = None \<Longrightarrow> create a n c = (a', made) \<Longrightarrow> made \<and> records a' = (records a)(n \<mapsto> c)"
    and create_taken: "records a n \<noteq> None \<Longrightarrow> create a n c = (a, False)"
begin

lemma create_keeps: "create a n c = (a', made) \<Longrightarrow> records a \<subseteq>\<^sub>m records a'"
  using create_free [of a n c a' made] create_taken [of a n c] by (cases "records a n") (auto simp: map_le_def)

lemma create_granted: "create a n c = (a', True) \<Longrightarrow> records a n = None \<and> records a' = (records a)(n \<mapsto> c)"
  using create_free [of a n c a' True] create_taken [of a n c] by (cases "records a n") auto

lemma grant_held: "create a n c = (a', True) \<Longrightarrow> records a' \<subseteq>\<^sub>m records z \<Longrightarrow> records z n = Some c"
  by (metis create_granted domI fun_upd_same map_le_def)

end

interpretation sweeps: exclusive_area create_exclusive map_of
proof unfold_locales
  fix a :: "(string \<times> 'c) list" and n c a' made
  assume "map_of a n = None" "create_exclusive a n c = (a', made)"
  then show "made \<and> map_of a' = (map_of a)(n \<mapsto> c)"
    by (auto simp: create_exclusive_def map_add_def fun_eq_iff split: option.split)
qed (simp add: create_exclusive_def)

section \<open>The claims a call is given\<close>

definition in_area :: "area \<Rightarrow> nat \<Rightarrow> nat \<Rightarrow> bool" where
  "in_area a t n = (map_of a (record_name t n) \<noteq> None)"

definition only_adds :: "(nat \<Rightarrow> area \<Rightarrow> area) \<Rightarrow> bool" where
  \<comment> \<open>other agents add records; none is deleted, and none changes in a field that claims hold\<close>
  "only_adds others \<longleftrightarrow> (\<forall>m a. map_of a \<subseteq>\<^sub>m map_of (others m a))"

definition claims_new :: "string \<Rightarrow> area \<Rightarrow> area \<Rightarrow> claim option res \<Rightarrow> bool" where
  \<comment> \<open>a call keeps every record, and a claim it returns is the caller's, in a slot that was free\<close>
  "claims_new who a a' r \<longleftrightarrow> map_of a \<subseteq>\<^sub>m map_of a' \<and>
     (\<forall>c. r = Inr (Some c) \<longrightarrow> agent c = who \<and> \<not> in_area a (trial c) (attempt c)
        \<and> map_of a' (record_name (trial c) (attempt c)) = Some c)"

lemma map_le_Some: "m \<subseteq>\<^sub>m n \<Longrightarrow> m k = Some v \<Longrightarrow> n k = Some v"
  by (metis domI map_le_def)

lemma claims_new_none: "claims_new who a a (Inl e)" "claims_new who a a (Inr None)"
  by (simp_all add: claims_new_def)

lemma claims_new_after: "map_of a \<subseteq>\<^sub>m map_of b \<Longrightarrow> claims_new who b a' r \<Longrightarrow> claims_new who a a' r"
  unfolding claims_new_def in_area_def by (metis domIff map_le_def map_le_trans)

lemma claims_new_slot:
  assumes "claim_slot a t n ps who = (a', r)"
  shows "claims_new who a a' (Inr r)"
proof -
  define c where "c = \<lparr>trial = t, attempt = n, params = ps, agent = who\<rparr>"
  obtain made where m: "create_exclusive a (record_name t n) c = (a', made)" "r = (if made then Some c else None)"
    using assms by (auto simp: claim_slot_def Let_def c_def split: prod.splits)
  show ?thesis
  proof (cases made)
    case True
    then have "create_exclusive a (record_name t n) c = (a', True)" using m(1) by simp
    from sweeps.create_keeps [OF this] sweeps.create_granted [OF this] sweeps.grant_held [OF this map_le_refl]
    show ?thesis using m(2) True by (simp add: claims_new_def in_area_def c_def)
  next
    case False
    then show ?thesis using m sweeps.create_keeps [OF m(1)] by (simp add: claims_new_def)
  qed
qed

lemmas claims_new_step = claims_new_after [OF _ claims_new_slot]

lemma claims_new_retry: "claims_new who a b (Inr None) \<Longrightarrow> claims_new who b a' r \<Longrightarrow> claims_new who a a' r"
  using claims_new_after claims_new_def by blast

lemma claim_rounds_new:
  assumes adds: "only_adds others"
  shows "claim_rounds listing others limit suggest who k n a = (a', r) \<Longrightarrow> claims_new who a a' r"
proof (induction k arbitrary: n a)
  case (Suc k)
  define m where "m = max (next_free (claimed_trials (listing k a))) n"
  obtain b o' where cl: "claim_slot (others k a) m 0 (suggest m) who = (b, o')" by fastforce
  have "map_of a \<subseteq>\<^sub>m map_of (others k a)" using adds only_adds_def by blast
  from claims_new_step [OF this cl] show ?case
    using Suc.prems Suc.IH [of "Suc m" b] cl claims_new_retry
    by (auto simp: m_def [symmetric] Let_def claims_new_none split: if_splits option.splits)
qed (auto simp: claims_new_none)

lemma retry_rounds_new:
  assumes adds: "only_adds others"
  shows "retry_rounds listing others t ps who k a = (a', r) \<Longrightarrow> claims_new who a a' r"
proof (induction k arbitrary: a)
  case (Suc k)
  define m where "m = next_free (map snd (filter (\<lambda>s. fst s = t) (slots (listing k a))))"
  obtain b o' where cl: "claim_slot (others k a) t m ps who = (b, o')" by fastforce
  have "map_of a \<subseteq>\<^sub>m map_of (others k a)" using adds only_adds_def by blast
  from claims_new_step [OF this cl] show ?case
    using Suc.prems Suc.IH [of b] cl claims_new_retry
    by (auto simp: m_def [symmetric] Let_def claims_new_none split: if_splits option.splits)
qed (auto simp: claims_new_none)

lemma claim_next_trial_new:
  "only_adds others \<Longrightarrow> claim_next_trial listing others limit suggest who a = (a', r) \<Longrightarrow> claims_new who a a' r"
  unfolding claim_next_trial_def by (rule claim_rounds_new)

lemma claim_retry_new:
  assumes "only_adds others" "claim_retry listing others t who wanted a = (a', r)"
  shows "claims_new who a a' r"
proof (cases "map_of a (record_name t 0)")
  case (Some original)
  show ?thesis
  proof (cases wanted)
    case None
    then have "retry_rounds listing others t (params original) who MAX_ATTEMPTS a = (a', r)"
      using assms(2) Some by (simp add: claim_retry_def)
    then show ?thesis by (rule retry_rounds_new [OF assms(1)])
  next
    case (Some n)
    then show ?thesis using assms(2) \<open>map_of a (record_name t 0) = _\<close> claims_new_slot
      by (auto simp: claim_retry_def split: prod.splits)
  qed
qed (use assms(2) claims_new_none in \<open>simp add: claim_retry_def\<close>)

datatype call = Next_trial "nat option" "nat \<Rightarrow> yv" | Retry_trial nat "nat option"

fun run_call :: "(nat \<Rightarrow> area \<Rightarrow> string list) \<Rightarrow> (nat \<Rightarrow> area \<Rightarrow> area) \<Rightarrow> string \<Rightarrow> call \<Rightarrow> area \<Rightarrow> area \<times> claim option res" where
  "run_call listing others who (Next_trial limit suggest) a = claim_next_trial listing others limit suggest who a"
| "run_call listing others who (Retry_trial t wanted) a = claim_retry listing others t who wanted a"

lemma run_call_new:
  "only_adds others \<Longrightarrow> run_call listing others who x a = (a', r) \<Longrightarrow> claims_new who a a' r"
  by (cases x) (simp_all add: claim_next_trial_new claim_retry_new)

text \<open>
  C26. No slot is handed out twice. Take two calls of claim_next_trial or claim_retry that each return a
  claim, by two agents, overlapping in any way, or one after the other, whoever makes them. Listings may
  show anything, and between the calls' own steps other agents only add records. Then the two claims
  have different slots (trial and attempt); each slot was free when its call began; and any later state
  of the area, with nothing removed, holds each claim under the name of its slot. (The store is the
  local one, whose exclusive create is one step.)
\<close>

theorem slots_granted_once:
  assumes "run_call listing others who x a = (a', Inr (Some c))" "only_adds others" "map_of a' \<subseteq>\<^sub>m map_of z"
    and "run_call listing2 others2 who2 y b = (b', Inr (Some d))" "only_adds others2" "map_of b' \<subseteq>\<^sub>m map_of z"
    and "who \<noteq> who2 \<or> map_of a' \<subseteq>\<^sub>m map_of b"
  shows "(trial c, attempt c) \<noteq> (trial d, attempt d)
    \<and> map_of a (record_name (trial c) (attempt c)) = None \<and> map_of b (record_name (trial d) (attempt d)) = None
    \<and> map_of z (record_name (trial c) (attempt c)) = Some c \<and> map_of z (record_name (trial d) (attempt d)) = Some d"
proof -
  note new = run_call_new [OF assms(2,1), unfolded claims_new_def] run_call_new [OF assms(5,4), unfolded claims_new_def]
  have free: "map_of a (record_name (trial c) (attempt c)) = None" "map_of b (record_name (trial d) (attempt d)) = None"
    using new by (simp_all add: in_area_def)
  have held: "map_of z (record_name (trial c) (attempt c)) = Some c" "map_of z (record_name (trial d) (attempt d)) = Some d"
    using new map_le_Some [OF assms(3)] map_le_Some [OF assms(6)] by simp_all
  have "(trial c, attempt c) \<noteq> (trial d, attempt d)"
  proof
    assume eq: "(trial c, attempt c) = (trial d, attempt d)"
    then have slot: "trial d = trial c" "attempt d = attempt c" by simp_all
    have "Some d = Some c" by (rule trans [OF held(2) [symmetric, unfolded slot] held(1)])
    then have "c = d" by simp
    moreover have "agent c = who" "agent d = who2" using new by simp_all
    ultimately have "map_of a' \<subseteq>\<^sub>m map_of b" using assms(7) by blast
    moreover have "map_of a' (record_name (trial c) (attempt c)) = Some c" using new(1) by simp
    ultimately have "map_of b (record_name (trial c) (attempt c)) = Some c" by (rule map_le_Some)
    then show False using free(2) \<open>c = d\<close> by simp
  qed
  then show ?thesis using free held by blast
qed

section \<open>Claiming the next trial\<close>

definition contiguous :: "area \<Rightarrow> bool" where
  \<comment> \<open>the trials claimed are an initial segment, and only claimed trials are retried\<close>
  "contiguous a \<longleftrightarrow> (\<forall>t u. u < t \<longrightarrow> in_area a t 0 \<longrightarrow> in_area a u 0) \<and> (\<forall>t n. in_area a t n \<longrightarrow> in_area a t 0)"

definition agents_behave :: "(nat \<Rightarrow> area \<Rightarrow> string list) \<Rightarrow> (nat \<Rightarrow> area \<Rightarrow> area) \<Rightarrow> bool" where
  \<comment> \<open>listings show claims only, claims are never deleted, and other agents claim by the same rule\<close>
  "agents_behave listing others \<longleftrightarrow>
     (\<forall>m a n. n \<in> set (listing m a) \<longrightarrow> map_of a n \<noteq> None) \<and>
     (\<forall>m a. contiguous a \<longrightarrow> contiguous (others m a) \<and> map_of a \<subseteq>\<^sub>m map_of (others m a))"

lemma next_free_iff: "t < next_free taken \<longleftrightarrow> (\<exists>u \<in> set taken. t \<le> u)"
  by (induction taken) (auto simp: next_free_def less_Suc_eq_le)

lemma claimed_trials_listed:
  assumes "agents_behave listing others" "t \<in> set (claimed_trials (listing m a))"
  shows "\<exists>n. map_of a n \<noteq> None \<and> (\<exists>k. slot_of n = Some (t, k))"
proof -
  obtain n k where n: "n \<in> set (listing m a)" "slot_of n = Some (t, k)"
    using assms(2) by (auto simp: claimed_trials_def slots_def List.map_filter_def)
  then have "map_of a n \<noteq> None" using assms(1) unfolding agents_behave_def by blast
  then show ?thesis using n(2) by blast
qed

definition named_slots :: "area \<Rightarrow> bool" where
  \<comment> \<open>every record of the scope is named as claims name theirs\<close>
  "named_slots a \<longleftrightarrow> (\<forall>n. map_of a n \<noteq> None \<longrightarrow> (\<exists>t k. n = record_name t k))"

lemma below_next_free:
  assumes "agents_behave listing others" "contiguous a" "named_slots a" "t < next_free (claimed_trials (listing m a))"
  shows "in_area a t 0"
proof -
  obtain u where "u \<in> set (claimed_trials (listing m a))" "t \<le> u" using assms(4) next_free_iff by blast
  then obtain n k where n: "map_of a n \<noteq> None" "slot_of n = Some (u, k)" using claimed_trials_listed [OF assms(1)] by blast
  then obtain v j where "n = record_name v j" using assms(3) named_slots_def by blast
  then have "in_area a u k" using n slot_of_record_name [of v j] by (simp add: in_area_def)
  then show ?thesis using assms(2) \<open>t \<le> u\<close> unfolding contiguous_def by (metis le_neq_implies_less)
qed

lemma in_area_mono: "map_of a \<subseteq>\<^sub>m map_of b \<Longrightarrow> in_area a t n \<Longrightarrow> in_area b t n"
  unfolding in_area_def by (metis domIff map_le_def)

lemma claim_slot_cases:
  assumes "claim_slot a t n ps who = (a', r)"
  shows "in_area a t n \<and> r = None \<and> a' = a \<or>
     \<not> in_area a t n \<and> (\<exists>c. r = Some c \<and> trial c = t \<and> attempt c = n \<and> a' = a @ [(record_name t n, c)])"
  using assms by (auto simp: claim_slot_def create_exclusive_def in_area_def Let_def split: if_splits)

lemma in_area_snoc: "in_area (a @ [(record_name t n, c)]) u k \<longleftrightarrow> in_area a u k \<or> (u = t \<and> k = n)"
  by (auto simp: in_area_def map_add_def split: option.split)

lemma contiguous_snoc:
  "contiguous a \<Longrightarrow> (\<And>u. u < t \<Longrightarrow> in_area a u 0) \<Longrightarrow> contiguous (a @ [(record_name t 0, c)])"
  unfolding contiguous_def in_area_snoc by (metis nat_neq_iff)

lemma claim_rounds_sound:
  assumes behave: "agents_behave listing others" "\<And>m a. named_slots a \<Longrightarrow> named_slots (others m a)"
    and "contiguous a" "named_slots a" "\<And>t. t < n \<Longrightarrow> in_area a t 0"
    and "claim_rounds listing others limit suggest who k n a = (a', r)"
  shows "contiguous a' \<and> map_of a \<subseteq>\<^sub>m map_of a' \<and>
     (\<forall>c. r = Inr (Some c) \<longrightarrow> attempt c = 0 \<and> map_of a' (record_name (trial c) 0) = Some c
        \<and> \<not> in_area a (trial c) 0 \<and> (\<forall>u < trial c. in_area a' u 0) \<and> (\<forall>l. limit = Some l \<longrightarrow> trial c < l))"
  using assms(3-)
proof (induction k arbitrary: n a)
  case (Suc k)
  define m where "m = max (next_free (claimed_trials (listing k a))) n"
  have low: "in_area a t 0" if "t < m" for t
    using that below_next_free [OF behave(1) Suc.prems(1,2), of t k] Suc.prems(3) by (auto simp: m_def less_max_iff_disj)
  show ?case
  proof (cases "at_limit limit m")
    case True
    then have "(a', r) = (a, Inr None)" using Suc.prems(4) by (simp add: m_def Let_def)
    then show ?thesis using Suc.prems(1) by simp
  next
    case False
    define b where "b = others k a"
    have b: "contiguous b" "map_of a \<subseteq>\<^sub>m map_of b" "named_slots b"
      using behave Suc.prems(1,2) by (auto simp: agents_behave_def b_def)
    have low': "in_area b t 0" if "t < m" for t using low [OF that] in_area_mono b(2) by blast
    obtain b' o' where cl: "claim_slot b m 0 (suggest m) who = (b', o')" by fastforce
    consider (taken) "in_area b m 0" "o' = None" "b' = b"
      | (made) c where "\<not> in_area b m 0" "o' = Some c" "trial c = m" "attempt c = 0" "b' = b @ [(record_name m 0, c)]"
      using claim_slot_cases [OF cl] by blast
    then show ?thesis
    proof cases
      case taken
      have "in_area b t 0" if "t < Suc m" for t using that low' taken(1) by (auto simp: less_Suc_eq)
      moreover have "claim_rounds listing others limit suggest who k (Suc m) b = (a', r)"
        using Suc.prems(4) False cl taken by (simp add: m_def [symmetric] b_def [symmetric] Let_def)
      ultimately have ih: "contiguous a' \<and> map_of b \<subseteq>\<^sub>m map_of a' \<and>
         (\<forall>c. r = Inr (Some c) \<longrightarrow> attempt c = 0 \<and> map_of a' (record_name (trial c) 0) = Some c
            \<and> \<not> in_area b (trial c) 0 \<and> (\<forall>u < trial c. in_area a' u 0) \<and> (\<forall>l. limit = Some l \<longrightarrow> trial c < l))"
        using Suc.IH [OF b(1,3)] by blast
      then show ?thesis using b(2) map_le_trans in_area_mono by blast
    next
      case made
      have r: "r = Inr (Some c)" "a' = b'"
        using Suc.prems(4) False cl made by (simp_all add: m_def [symmetric] b_def [symmetric] Let_def)
      have "contiguous a'" using contiguous_snoc [OF b(1) low'] r made by simp
      moreover have "map_of b \<subseteq>\<^sub>m map_of a'" "map_of a' (record_name m 0) = Some c"
        using made(1) by (auto simp: r made map_le_def in_area_def map_add_def split: option.split)
      moreover have "in_area a' u 0" if "u < m" for u using low' [OF that] in_area_mono calculation(2) by blast
      moreover have "\<not> in_area a m 0" using made(1) b(2) in_area_mono by blast
      moreover have "\<forall>l. limit = Some l \<longrightarrow> m < l" using False by (auto simp: at_limit_def)
      moreover have "map_of a \<subseteq>\<^sub>m map_of a'" using b(2) calculation(2) map_le_trans by blast
      ultimately show ?thesis using made(3,4) by (simp add: r(1))
    qed
  qed
qed auto

text \<open>
  C27. Trials are claimed in order and without gaps: when other agents follow the same rule and
  listings show no more than exists (they may show less), a claim returned is a new record holding
  exactly that claim, below the sweep's limit, with every lower trial already claimed; no claim is
  lost, and the claimed trials remain an initial segment.
\<close>

theorem trials_claimed_in_order:
  assumes "agents_behave listing others" "\<And>m a. named_slots a \<Longrightarrow> named_slots (others m a)"
    and "contiguous a" "named_slots a"
    and "claim_next_trial listing others limit suggest who a = (a', r)"
  shows "contiguous a' \<and> map_of a \<subseteq>\<^sub>m map_of a' \<and>
     (\<forall>c. r = Inr (Some c) \<longrightarrow> attempt c = 0 \<and> map_of a' (record_name (trial c) 0) = Some c
        \<and> \<not> in_area a (trial c) 0 \<and> (\<forall>u < trial c. in_area a' u 0) \<and> (\<forall>l. limit = Some l \<longrightarrow> trial c < l))"
proof (rule claim_rounds_sound [OF assms(1-4) _ assms(5) [unfolded claim_next_trial_def]])
  show "in_area a t 0" if "t < 0" for t using that by simp
qed

lemma claim_rounds_progress:
  assumes behave: "agents_behave listing others" "\<And>m a. named_slots a \<Longrightarrow> named_slots (others m a)"
    and quiet: "\<And>a. set (listing m a) = fst ` set a" "\<And>a. others m a = a"
    and "contiguous a" "named_slots a" "\<And>t. t < n \<Longrightarrow> in_area a t 0" "m < k"
  shows "is_ok (snd (claim_rounds listing others limit suggest who k n a))"
  using assms(5-)
proof (induction k arbitrary: n a)
  case (Suc k)
  define p where "p = max (next_free (claimed_trials (listing k a))) n"
  have low: "in_area a t 0" if "t < p" for t
    using that below_next_free [OF behave(1) Suc.prems(1,2), of t k] Suc.prems(3) by (auto simp: p_def less_max_iff_disj)
  define b where "b = others k a"
  have b: "contiguous b" "map_of a \<subseteq>\<^sub>m map_of b" "named_slots b"
    using behave Suc.prems(1,2) by (auto simp: agents_behave_def b_def)
  obtain b' o' where cl: "claim_slot b p 0 (suggest p) who = (b', o')" by fastforce
  consider (over) "at_limit limit p"
    | (made) c where "\<not> at_limit limit p" "o' = Some c"
    | (taken) "\<not> at_limit limit p" "o' = None" "in_area b p 0" "b' = b"
    using claim_slot_cases [OF cl] by blast
  then show ?case
  proof cases
    case taken
    show ?thesis
    proof (cases "m = k")
      case True
      then have "in_area a p 0" using taken(3) quiet(2) by (simp add: b_def)
      then have "record_name p 0 \<in> set (listing k a)" using quiet(1) [of a] True
        by (force simp: in_area_def dest: map_of_SomeD)
      then have "p \<in> set (claimed_trials (listing k a))"
        by (force simp: claimed_trials_def slots_def List.map_filter_def slot_of_record_name)
      then have "p < next_free (claimed_trials (listing k a))" using next_free_iff by blast
      then show ?thesis by (simp add: p_def)
    next
      case False
      have "in_area b t 0" if "t < Suc p" for t
        using that low in_area_mono b(2) taken(3) by (auto simp: less_Suc_eq)
      then show ?thesis using Suc.IH [OF b(1,3), of "Suc p"] Suc.prems(4) False taken cl
        by (simp add: p_def [symmetric] b_def [symmetric] Let_def)
    qed
  qed (use cl in \<open>simp_all add: p_def [symmetric] b_def [symmetric] Let_def\<close>)
qed simp

text \<open>
  Claiming makes progress: if in one of its thousand rounds the listing is complete and no other
  agent claims between it and the claim, the call does not give up; it returns a claim, or nothing
  because the limit is reached.
\<close>

theorem claiming_progresses:
  assumes "agents_behave listing others" "\<And>m a. named_slots a \<Longrightarrow> named_slots (others m a)"
    and "\<And>a. set (listing m a) = fst ` set a" "\<And>a. others m a = a" "m < 1000"
    and "contiguous a" "named_slots a"
  shows "\<exists>a' c. claim_next_trial listing others limit suggest who a = (a', Inr c)"
proof -
  have "is_ok (snd (claim_next_trial listing others limit suggest who a))"
    unfolding claim_next_trial_def
    by (rule claim_rounds_progress [where m = m]) (use assms in \<open>simp_all add: MAX_ATTEMPTS_def\<close>)
  then show ?thesis by (cases "claim_next_trial listing others limit suggest who a") (auto simp: is_ok_iff)
qed

text \<open>Nothing left to claim means that every trial below the limit has been claimed.\<close>

lemma claim_rounds_exhausted:
  assumes behave: "agents_behave listing others" "\<And>m a. named_slots a \<Longrightarrow> named_slots (others m a)"
    and "contiguous a" "named_slots a" "\<And>t. t < n \<Longrightarrow> in_area a t 0"
    and "claim_rounds listing others (Some l) suggest who k n a = (a', Inr None)" "t < l"
  shows "in_area a' t 0"
  using assms(3-)
proof (induction k arbitrary: n a)
  case (Suc k)
  define m where "m = max (next_free (claimed_trials (listing k a))) n"
  have low: "in_area a u 0" if "u < m" for u
    using that below_next_free [OF behave(1) Suc.prems(1,2), of u k] Suc.prems(3) by (auto simp: m_def less_max_iff_disj)
  show ?case
  proof (cases "at_limit (Some l) m")
    case True
    then show ?thesis using Suc.prems(4,5) low by (auto simp: m_def [symmetric] Let_def at_limit_def)
  next
    case False
    define b where "b = others k a"
    have b: "contiguous b" "map_of a \<subseteq>\<^sub>m map_of b" "named_slots b"
      using behave Suc.prems(1,2) by (auto simp: agents_behave_def b_def)
    obtain b' o' where cl: "claim_slot b m 0 (suggest m) who = (b', o')" by fastforce
    then have o': "o' = None" "claim_rounds listing others (Some l) suggest who k (Suc m) b' = (a', Inr None)"
      using Suc.prems(4) False by (auto simp: m_def [symmetric] b_def [symmetric] Let_def split: option.splits)
    then have b': "in_area b m 0" "b' = b" using claim_slot_cases [OF cl] by auto
    have "in_area b u 0" if "u < Suc m" for u
      using that low in_area_mono b(2) b'(1) by (auto simp: less_Suc_eq)
    then show ?thesis using Suc.IH [OF b(1,3)] o'(2) b'(2) Suc.prems(5) by blast
  qed
qed simp

text \<open>Claims record the params their trial was suggested, if the other agents' do.\<close>

definition as_suggested :: "(nat \<Rightarrow> yv) \<Rightarrow> area \<Rightarrow> bool" where
  "as_suggested suggest a \<longleftrightarrow> (\<forall>t c. map_of a (record_name t 0) = Some c \<longrightarrow> params c = suggest t)"

lemma claim_slot_suggested:
  assumes "as_suggested suggest a" "claim_slot a t 0 (suggest t) who = (a', r)"
  shows "as_suggested suggest a'"
proof (cases "in_area a t 0")
  case True
  then show ?thesis using claim_slot_cases [OF assms(2)] assms(1) by auto
next
  case False
  define c where "c = \<lparr>trial = t, attempt = 0, params = suggest t, agent = who\<rparr>"
  have c: "params c = suggest t" "a' = a @ [(record_name t 0, c)]"
    using assms(2) False
    by (auto simp: claim_slot_def create_exclusive_def in_area_def Let_def c_def split: if_splits)
  have "u = t" if "record_name u 0 = record_name t 0" for u
    using arg_cong [OF that, of slot_of] by (simp add: slot_of_record_name)
  then show ?thesis using assms(1) c
    by (fastforce simp: as_suggested_def map_add_def split: option.splits if_splits)
qed

lemma claim_rounds_suggested:
  assumes others: "\<And>m a. as_suggested suggest a \<Longrightarrow> as_suggested suggest (others m a)"
    and "as_suggested suggest a" "claim_rounds listing others limit suggest who k n a = (a', r)"
  shows "as_suggested suggest a'"
  using assms(2-)
proof (induction k arbitrary: n a)
  case (Suc k)
  define m where "m = max (next_free (claimed_trials (listing k a))) n"
  obtain b' o' where cl: "claim_slot (others k a) m 0 (suggest m) who = (b', o')" by fastforce
  have "as_suggested suggest b'" using claim_slot_suggested [OF others cl] Suc.prems(1) by blast
  then show ?case using Suc.IH [of b'] Suc.prems cl
    by (auto simp: m_def [symmetric] Let_def split: if_splits option.splits)
qed simp

section \<open>Witnesses\<close>

definition claim_a :: claim where "claim_a = \<lparr>trial = 0, attempt = 0, params = YNull, agent = ''a''\<rparr>"
definition claim_b :: claim where "claim_b = \<lparr>trial = 0, attempt = 0, params = YNull, agent = ''b''\<rparr>"
definition claim_b1 :: claim where "claim_b1 = \<lparr>trial = 1, attempt = 0, params = YNull, agent = ''b''\<rparr>"

definition a_was_faster :: "nat \<Rightarrow> area \<Rightarrow> area" where
  \<comment> \<open>agent a's claim of the first trial comes between b's listing and b's claim\<close>
  "a_was_faster m a = (if map_of a (record_name 0 0) = None then a @ [(record_name 0 0, claim_a)] else a)"

lemma a_claims: "run_call (\<lambda>m. map fst) (\<lambda>m a. a) ''a'' (Next_trial (Some 3) (\<lambda>n. YNull)) []
    = ([(record_name 0 0, claim_a)], Inr (Some claim_a))"
proof -
  have max: "MAX_ATTEMPTS = Suc 999" by (simp add: MAX_ATTEMPTS_def)
  show ?thesis unfolding run_call.simps claim_next_trial_def max claim_rounds.simps
    by (simp add: claimed_trials_def slots_def List.map_filter_simps next_free_def at_limit_def
        claim_slot_def create_exclusive_def claim_a_def Let_def)
qed

lemma b_claims: "run_call (\<lambda>m. map fst) a_was_faster ''b'' (Next_trial (Some 3) (\<lambda>n. YNull)) []
    = ([(record_name 0 0, claim_a), (record_name 1 0, claim_b1)], Inr (Some claim_b1))"
proof -
  have max: "MAX_ATTEMPTS = Suc (Suc 998)" by (simp add: MAX_ATTEMPTS_def)
  show ?thesis unfolding run_call.simps claim_next_trial_def max claim_rounds.simps
    by (simp add: claimed_trials_def slots_def List.map_filter_simps next_free_def at_limit_def
        claim_slot_def create_exclusive_def a_was_faster_def claim_a_def claim_b1_def slot_of_record_name Let_def)
qed

theorem slots_granted_once_witness:
  "trial claim_a \<noteq> trial claim_b1
     \<and> map_of [(record_name 0 0, claim_a), (record_name 1 0, claim_b1)] (record_name 1 0) = Some claim_b1"
proof -
  have "only_adds (\<lambda>m a. a)" "only_adds a_was_faster"
    by (auto simp: only_adds_def a_was_faster_def map_le_def map_add_def dom_def split: option.splits)
  from slots_granted_once [OF a_claims this(1) _ b_claims this(2) map_le_refl]
  show ?thesis by (simp add: claim_a_def claim_b1_def map_le_def)
qed

definition one_other :: "nat \<Rightarrow> area \<Rightarrow> area" where
  \<comment> \<open>another agent claims the next trial, in the first round only\<close>
  "one_other m a = (if m = 999 \<and> a = [] then [(record_name 0 0, claim_b)] else a)"

lemma one_other_behaves:
  "agents_behave (\<lambda>m. map fst) one_other" "named_slots a \<Longrightarrow> named_slots (one_other m a)"
  "contiguous []" "named_slots []"
proof -
  show "contiguous []" "named_slots []" by (simp_all add: contiguous_def in_area_def named_slots_def)
  have "contiguous ([] @ [(record_name 0 0, claim_b)])" by (rule contiguous_snoc) (simp_all add: \<open>contiguous []\<close>)
  then show "agents_behave (\<lambda>m. map fst) one_other"
    by (auto simp: agents_behave_def one_other_def map_of_eq_None_iff)
  show "named_slots a \<Longrightarrow> named_slots (one_other m a)"
    by (auto simp: named_slots_def one_other_def)
qed

theorem trials_claimed_in_order_witness:
  "\<exists>a' r. claim_next_trial (\<lambda>m. map fst) one_other (Some 3) (\<lambda>n. YNull) ''a'' [] = (a', r)
     \<and> contiguous a' \<and> (\<forall>c. r = Inr (Some c) \<longrightarrow> trial c < 3)"
proof -
  obtain a' r where r: "claim_next_trial (\<lambda>m. map fst) one_other (Some 3) (\<lambda>n. YNull) ''a'' [] = (a', r)" by fastforce
  from trials_claimed_in_order [OF one_other_behaves this] r show ?thesis by blast
qed

theorem claiming_progresses_witness:
  "\<exists>a' c. claim_next_trial (\<lambda>m. map fst) (\<lambda>m a. a) (Some 3) (\<lambda>n. YNull) ''a'' [] = (a', Inr c)"
proof (rule claiming_progresses [where m = 0])
  show "agents_behave (\<lambda>m. map fst) (\<lambda>m a. a)" by (auto simp: agents_behave_def map_of_eq_None_iff)
qed (simp_all add: one_other_behaves)

text \<open>A retry finds no attempt at all in a listing that lags behind the trial's own claim, and raises.\<close>

lemma retry_on_lagging_listing:
  "claim_retry (\<lambda>m a. []) (\<lambda>m a. a) 0 ''a'' None [(record_name 0 0, claim_b)] = ([(record_name 0 0, claim_b)], Inl ValueErr)"
  by (simp add: claim_retry_def MAX_ATTEMPTS_def numeral_eq_Suc slots_def List.map_filter_simps)

end
