(* ===== verification/Registry_Names.thy ===== *)
theory Registry_Names
imports Sweep_Claims
begin

text \<open>
  Names of the model registry, from registry/names.py: model and alias names, version record names,
  references and the pinned registry URI. A pattern ending in \<open>$\<close> also accepts one trailing line
  feed, as \<open>re.match\<close> does.
\<close>

definition NL :: char where "NL = CHR 0x0A"

definition chomp :: "string \<Rightarrow> string" where
  \<comment> \<open>where \<open>$\<close> may match: before one trailing line feed\<close>
  "chomp s = (if s \<noteq> [] \<and> last s = NL then butlast s else s)"

definition word_char :: "char \<Rightarrow> bool" where
  \<comment> \<open>\<open>[A-Za-z0-9_]\<close>\<close>
  "word_char c = (65 \<le> code c \<and> code c \<le> 90 \<or> 97 \<le> code c \<and> code c \<le> 122 \<or> is_digit c \<or> c = CHR ''_'')"

definition model_chars :: "string \<Rightarrow> bool" where
  \<comment> \<open>\<open>^[A-Za-z0-9_][A-Za-z0-9_.]*$\<close>\<close>
  "model_chars s = (case chomp s of [] \<Rightarrow> False
     | c # cs \<Rightarrow> word_char c \<and> list_all (\<lambda>d. word_char d \<or> d = CHR ''.'') cs)"

definition version_suffix :: "string \<Rightarrow> bool" where
  \<comment> \<open>\<open>\.v\d+$\<close>, searched\<close>
  "version_suffix s =
     (let r = rev (chomp s); digits = takeWhile is_digit r in
      digits \<noteq> [] \<and> starts_with ''v.'' (dropWhile is_digit r))"

definition valid_model_name :: "string \<Rightarrow> bool" where
  "valid_model_name name = (model_chars name \<and> \<not> version_suffix name)"

definition valid_alias_name :: "string \<Rightarrow> bool" where
  "valid_alias_name name =
     (if name = [] then False
      else if name = ''latest'' \<or> all_digits name then False
      else chomp name \<noteq> [] \<and> list_all (\<lambda>c. word_char c \<or> c = CHR ''.'' \<or> c = CHR ''-'') (chomp name))"

definition positive_num :: "string \<Rightarrow> bool" where
  \<comment> \<open>\<open>[1-9]\d*\<close>\<close>
  "positive_num s = (all_digits s \<and> hd s \<noteq> CHR ''0'')"

definition version_record_name :: "nat \<Rightarrow> string" where
  "version_record_name n = ''v'' @ nat_str n"

definition parse_version_record :: "string \<Rightarrow> nat option" where
  "parse_version_record name =
     (case name of [] \<Rightarrow> None
      | c # cs \<Rightarrow> if c = CHR ''v'' \<and> positive_num (chomp cs) then Some (str_nat (chomp cs)) else None)"

datatype ref_kind = By_Alias string | By_Version nat | Latest

definition parse_ref :: "string \<Rightarrow> string \<times> ref_kind" where
  "parse_ref ref =
     (if CHR ''@'' \<in> set ref
      then (case partition_char CHR ''@'' ref of (model, _, qualifier) \<Rightarrow>
              (model, if qualifier = ''latest'' then Latest
                      else if all_digits qualifier then By_Version (str_nat qualifier)
                      else By_Alias qualifier))
      else (ref, Latest))"

definition REGISTRY_SCHEME :: string where "REGISTRY_SCHEME = ''vmn-registry://''"

definition registry_uri :: "string \<Rightarrow> nat \<Rightarrow> string" where
  "registry_uri name n = REGISTRY_SCHEME @ name @ ''@'' @ nat_str n"

definition parse_registry_uri :: "string \<Rightarrow> (string \<times> nat) option" where
  \<comment> \<open>the greedy \<open>(.+)\<close> ends at the last at-sign, and \<open>.\<close> is no line feed\<close>
  "parse_registry_uri uri =
     (if \<not> starts_with REGISTRY_SCHEME uri then None
      else (case rpartition_char CHR ''@'' (drop (length REGISTRY_SCHEME) uri) of
              (name, found, num) \<Rightarrow>
                if \<not> found \<or> name = [] \<or> NL \<in> set name \<or> \<not> positive_num (chomp num) then None
                else if \<not> valid_model_name name then None
                else Some (name, str_nat (chomp num))))"

section \<open>Laws\<close>

lemma chomp_nat_str [simp]: "chomp (nat_str n) = nat_str n"
proof -
  have "is_digit (last (nat_str n))" using nat_str_digits [of n] by (simp add: list_all_iff)
  then show ?thesis by (auto simp: chomp_def NL_def is_digit_def)
qed

lemma positive_num_nat_str [simp]: "positive_num (nat_str n) \<longleftrightarrow> n \<noteq> 0"
  by (simp add: positive_num_def hd_nat_str)

lemma chomp_id: "NL \<notin> set s \<Longrightarrow> chomp s = s"
  by (metis chomp_def last_in_set)

text \<open>The number of a version record is read back from its name.\<close>

lemma parse_version_record_name [simp]:
  "parse_version_record (version_record_name n) = (if n = 0 then None else Some n)"
  by (simp add: parse_version_record_def version_record_name_def)

lemma version_record_name_inject [simp]: "version_record_name m = version_record_name n \<longleftrightarrow> m = n"
  unfolding version_record_name_def by (metis append_same_eq str_nat_nat_str same_append_eq)

lemma word_char_not: "word_char c \<Longrightarrow> c \<noteq> CHR ''@'' \<and> c \<noteq> CHR ''/'' \<and> c \<noteq> CHR ''-'' \<and> c \<noteq> NL"
  by (auto simp: word_char_def is_digit_def NL_def)

lemma valid_model_name_chars:
  assumes "valid_model_name name" "NL \<notin> set name"
  shows "name \<noteq> []" "CHR ''@'' \<notin> set name" "CHR ''/'' \<notin> set name" "CHR ''-'' \<notin> set name"
proof -
  obtain c cs where n: "name = c # cs" "word_char c" "list_all (\<lambda>d. word_char d \<or> d = CHR ''.'') cs"
    using assms by (auto simp: valid_model_name_def model_chars_def chomp_id split: list.splits)
  have "x \<noteq> CHR ''@'' \<and> x \<noteq> CHR ''/'' \<and> x \<noteq> CHR ''-''" if "x \<in> set name" for x
    using that n word_char_not by (auto simp: list_all_iff)
  then show "name \<noteq> []" "CHR ''@'' \<notin> set name" "CHR ''/'' \<notin> set name" "CHR ''-'' \<notin> set name"
    using n(1) by auto
qed

lemma model_name_with_line_feed: "valid_model_name (''m'' @ [NL])"
  by (simp add: valid_model_name_def model_chars_def version_suffix_def chomp_def NL_def word_char_def is_digit_def)

lemma rpartition_append: "c \<notin> set b \<Longrightarrow> rpartition_char c (a @ c # b) = (a, True, b)"
proof -
  assume c: "c \<notin> set b"
  have "takeWhile (\<lambda>x. x \<noteq> c) (rev b @ c # rev a) = rev b" "dropWhile (\<lambda>x. x \<noteq> c) (rev b @ c # rev a) = c # rev a"
    using c by (simp_all add: takeWhile_append dropWhile_append takeWhile_eq_all_conv [THEN iffD2])
  then show ?thesis by (simp add: rpartition_char_def Let_def)
qed

lemma at_not_digit: "CHR ''@'' \<notin> set (nat_str n)"
  using nat_str_digits [of n] by (auto simp: list_all_iff is_digit_def)

text \<open>
  A registry URI names its model and version: for every valid model name without a line feed and
  every version from 1 on, the URI parses back to exactly them.
\<close>

theorem registry_uri_roundtrip:
  assumes "valid_model_name name" "NL \<notin> set name" "1 \<le> n"
  shows "parse_registry_uri (registry_uri name n) = Some (name, n)"
proof -
  have "rpartition_char CHR ''@'' (name @ ''@'' @ nat_str n) = (name, True, nat_str n)"
    using rpartition_append [OF at_not_digit, of name n] by simp
  then show ?thesis using assms valid_model_name_chars(1) [OF assms(1,2)]
    by (simp add: parse_registry_uri_def registry_uri_def)
qed

theorem registry_uri_roundtrip_witness:
  "parse_registry_uri (registry_uri ''resnet.v2a'' 12) = Some (''resnet.v2a'', 12)"
proof (rule registry_uri_roundtrip)
  show "valid_model_name ''resnet.v2a''" by code_simp
  show "NL \<notin> set ''resnet.v2a''" by code_simp
qed simp

text \<open>A name that is valid because of its trailing line feed has a URI that does not parse.\<close>

lemma line_feed_breaks_uri: "parse_registry_uri (registry_uri (''m'' @ [NL]) 1) = None"
  by code_simp

lemma valid_alias_no_number: "valid_alias_name a \<Longrightarrow> \<not> all_digits a \<and> a \<noteq> ''latest'' \<and> a \<noteq> []"
  by (auto simp: valid_alias_name_def split: if_splits)

text \<open>A reference with a valid alias, a number or \<open>latest\<close> means what it says.\<close>

lemma partition_append: "c \<notin> set a \<Longrightarrow> partition_char c (a @ c # b) = (a, True, b)"
  by (simp add: partition_char_def Let_def takeWhile_append dropWhile_append)

lemma parse_ref_forms:
  assumes "valid_model_name m" "NL \<notin> set m"
  shows "valid_alias_name a \<Longrightarrow> parse_ref (m @ ''@'' @ a) = (m, By_Alias a)"
    and "parse_ref (m @ ''@'' @ nat_str n) = (m, By_Version n)"
    and "parse_ref (m @ ''@latest'') = (m, Latest)" and "parse_ref m = (m, Latest)"
proof -
  have at: "CHR ''@'' \<notin> set m" using valid_model_name_chars [OF assms] by blast
  show "parse_ref (m @ ''@'' @ a) = (m, By_Alias a)" if "valid_alias_name a"
    using partition_append [OF at, of a] valid_alias_no_number [OF that] by (simp add: parse_ref_def)
  have "nat_str n \<noteq> ''latest''" using nat_str_digits [of n] by (auto simp: is_digit_def)
  then show "parse_ref (m @ ''@'' @ nat_str n) = (m, By_Version n)"
    using partition_append [OF at, of "nat_str n"] by (simp add: parse_ref_def)
  show "parse_ref (m @ ''@latest'') = (m, Latest)"
    using partition_append [OF at, of "''latest''"] by (simp add: parse_ref_def)
  show "parse_ref m = (m, Latest)" using at by (simp add: parse_ref_def)
qed

end
