(* ===== verification/Registry_Fold.thy ===== *)
theory Registry_Fold
imports Registry_Names "HOL-Library.List_Lexorder" "HOL-Library.Char_ord" "HOL-Library.Product_Lexorder"
  "HOL-Library.Multiset"
begin

text \<open>
  The registry log and its fold, from registry/fold.py: alias moves, status changes and uses, written
  by several writers and read in any order; the entry with the greatest time, writer and position
  wins. Strings compare by code points and tuples lexicographically, as in Python. An entry with
  missing or ill-typed fields, which the fold skips, is \<open>Other_Entry\<close>.
\<close>

section \<open>Entries and the fold\<close>

datatype entry_body =
    Alias_Move string "nat option"           \<comment> \<open>None: a tombstone\<close>
  | Status_Change nat string
  | Use_Of nat string string                 \<comment> \<open>version, app, run\<close>
  | Other_Entry

record entry =
  e_ts :: string
  e_writer :: string
  e_pos :: int
  body :: entry_body

type_synonym key = "string \<times> string \<times> int"

definition entry_key :: "entry \<Rightarrow> key" where
  \<comment> \<open>\<open>_sort_key\<close>\<close>
  "entry_key e = (e_ts e, e_writer e, e_pos e)"

definition keep_latest ::
    "'f \<Rightarrow> 'v \<Rightarrow> 'k :: linorder \<Rightarrow> ('f \<times> 'v \<times> 'k) list \<Rightarrow> ('f \<times> 'v \<times> 'k) list" where
  "keep_latest field v k bucket =
     (case map_of bucket field of
        None \<Rightarrow> od_put field (v, k) bucket
      | Some cur \<Rightarrow> if k \<ge> snd cur then od_put field (v, k) bucket else bucket)"

definition alias_update :: "entry \<Rightarrow> (string \<times> nat option \<times> key) option" where
  "alias_update e = (case body e of Alias_Move a v \<Rightarrow> Some (a, v, entry_key e) | _ \<Rightarrow> None)"

definition status_update :: "entry \<Rightarrow> (nat \<times> string \<times> key) option" where
  "status_update e = (case body e of Status_Change n st \<Rightarrow> Some (n, st, entry_key e) | _ \<Rightarrow> None)"

definition apply_update ::
    "('f \<times> 'v \<times> 'k :: linorder) option \<Rightarrow> ('f \<times> 'v \<times> 'k) list \<Rightarrow> ('f \<times> 'v \<times> 'k) list" where
  "apply_update u bucket = (case u of None \<Rightarrow> bucket | Some (f, v, k) \<Rightarrow> keep_latest f v k bucket)"

record registry =
  aliases :: "(string \<times> nat) list"
  version_status :: "(nat \<times> string) list"
  audit :: "entry list"

definition fold_registry :: "entry list \<Rightarrow> registry" where
  "fold_registry entries =
     (let al = fold (\<lambda>e. apply_update (alias_update e)) entries [];
          st = fold (\<lambda>e. apply_update (status_update e)) entries []
      in \<lparr>aliases = List.map_filter (\<lambda>(a, v, k). map_option (Pair a) v) al,
          version_status = map (\<lambda>(n, s, k). (n, s)) st,
          audit = sort_key entry_key entries\<rparr>)"

section \<open>The greatest key wins\<close>

definition updates :: "('e \<Rightarrow> ('f \<times> 'v \<times> 'k :: linorder) option) \<Rightarrow> 'e list \<Rightarrow> ('f \<times> 'v \<times> 'k) set" where
  "updates u es = {x. \<exists>e \<in> set es. u e = Some x}"

lemma updates_simps [simp]:
  "updates u [] = {}"
  "updates u (es @ [e]) = (case u e of None \<Rightarrow> updates u es | Some x \<Rightarrow> insert x (updates u es))"
  by (auto simp: updates_def split: option.splits)

lemma od_wf_keep_latest: "od_wf b \<Longrightarrow> od_wf (keep_latest f v k b)"
  by (auto simp: keep_latest_def od_wf_put split: option.split)

lemma od_wf_fold: "od_wf b \<Longrightarrow> od_wf (fold (\<lambda>e. apply_update (u e)) es b)"
  by (induction es arbitrary: b) (auto simp: apply_update_def od_wf_keep_latest split: option.split)

text \<open>What the fold keeps of a field is one of its updates, and none of them has a greater key.\<close>

lemma fold_latest:
  "(map_of (fold (\<lambda>e. apply_update (u e)) es []) f = None \<longleftrightarrow> (\<forall>v k. (f, v, k) \<notin> updates u es)) \<and>
   (\<forall>v k. map_of (fold (\<lambda>e. apply_update (u e)) es []) f = Some (v, k) \<longrightarrow>
      (f, v, k) \<in> updates u es \<and> (\<forall>v' k'. (f, v', k') \<in> updates u es \<longrightarrow> k' \<le> k))"
proof (induction es rule: rev_induct)
  case (snoc e es)
  define b where "b = fold (\<lambda>e. apply_update (u e)) es []"
  show ?case
  proof (cases "u e")
    case None
    then show ?thesis using snoc by (simp add: apply_update_def)
  next
    case (Some x)
    obtain g w l where x: "x = (g, w, l)" by (metis prod_cases3)
    have step: "fold (\<lambda>e. apply_update (u e)) (es @ [e]) [] = keep_latest g w l b"
      using Some x by (simp add: b_def apply_update_def)
    show ?thesis
    proof (cases "g = f")
      case False
      then have "map_of (keep_latest g w l b) f = map_of b f" by (auto simp: keep_latest_def split: option.split)
      then show ?thesis using snoc False Some x unfolding step b_def by auto
    next
      case True
      show ?thesis
      proof (cases "map_of b f")
        case None
        then show ?thesis using snoc True Some x unfolding step b_def [symmetric]
          by (auto simp: keep_latest_def)
      next
        case (Some cur)
        obtain cv ck where cur: "cur = (cv, ck)" by (cases cur)
        have old: "(f, cv, ck) \<in> updates u es" "\<And>v' k'. (f, v', k') \<in> updates u es \<Longrightarrow> k' \<le> ck"
          using snoc Some cur unfolding b_def by auto
        show ?thesis
        proof (cases "l \<ge> ck")
          case True
          then have "map_of (keep_latest g w l b) f = Some (w, l)" using Some cur \<open>g = f\<close> by (simp add: keep_latest_def)
          then show ?thesis using old True \<open>u e = Some x\<close> x \<open>g = f\<close> unfolding step
            by (auto dest: old(2))
        next
          case False
          then have "map_of (keep_latest g w l b) f = Some (cv, ck)" using Some cur \<open>g = f\<close> by (simp add: keep_latest_def)
          then show ?thesis using old False \<open>u e = Some x\<close> x \<open>g = f\<close> unfolding step by auto
        qed
      qed
    qed
  qed
qed simp

definition keys_decide :: "('e \<Rightarrow> ('f \<times> 'v \<times> 'k :: linorder) option) \<Rightarrow> 'e list \<Rightarrow> bool" where
  \<comment> \<open>no two updates of a field have the same key\<close>
  "keys_decide u es = (\<forall>f v k v'. (f, v, k) \<in> updates u es \<longrightarrow> (f, v', k) \<in> updates u es \<longrightarrow> v = v')"

lemma fold_latest_unique:
  assumes "keys_decide u es"
  shows "map_of (fold (\<lambda>e. apply_update (u e)) es []) f = Some (v, k) \<longleftrightarrow>
     (f, v, k) \<in> updates u es \<and> (\<forall>v' k'. (f, v', k') \<in> updates u es \<longrightarrow> k' \<le> k)"
proof
  assume *: "(f, v, k) \<in> updates u es \<and> (\<forall>v' k'. (f, v', k') \<in> updates u es \<longrightarrow> k' \<le> k)"
  then obtain v1 k1 where 1: "map_of (fold (\<lambda>e. apply_update (u e)) es []) f = Some (v1, k1)"
    using fold_latest [of u es f] by (metis not_None_eq surj_pair)
  then have "(f, v1, k1) \<in> updates u es" "k \<le> k1" using fold_latest [of u es f] * by blast+
  then have "k1 = k" using * by (simp add: antisym)
  then show "map_of (fold (\<lambda>e. apply_update (u e)) es []) f = Some (v, k)"
    using 1 assms * \<open>(f, v1, k1) \<in> updates u es\<close> unfolding keys_decide_def by metis
qed (use fold_latest [of u es f] in blast)

lemma fold_latest_permute:
  assumes "keys_decide u es" "set es = set es'"
  shows "map_of (fold (\<lambda>e. apply_update (u e)) es []) = map_of (fold (\<lambda>e. apply_update (u e)) es' [])"
proof
  fix f
  have same: "updates u es' = updates u es" using assms(2) by (simp add: updates_def)
  then have kd: "keys_decide u es'" using assms(1) by (simp add: keys_decide_def)
  show "map_of (fold (\<lambda>e. apply_update (u e)) es []) f = map_of (fold (\<lambda>e. apply_update (u e)) es' []) f"
  proof (cases "map_of (fold (\<lambda>e. apply_update (u e)) es' []) f")
    case None
    then show ?thesis using fold_latest [of u es' f] fold_latest [of u es f] same by simp
  next
    case (Some x)
    obtain v k where x: "x = (v, k)" by (cases x)
    have "(f, v, k) \<in> updates u es \<and> (\<forall>v' k'. (f, v', k') \<in> updates u es \<longrightarrow> k' \<le> k)"
      using fold_latest_unique [OF kd, of f v k] Some x same by simp
    then have "map_of (fold (\<lambda>e. apply_update (u e)) es []) f = Some (v, k)"
      using fold_latest_unique [OF assms(1), of f v k] by simp
    then show ?thesis using Some x by simp
  qed
qed

lemma distinct_keys_decide:
  assumes "distinct (map entry_key es)"
  shows "keys_decide alias_update es" "keys_decide status_update es"
proof -
  have inj: "e = e'" if "e \<in> set es" "e' \<in> set es" "entry_key e = entry_key e'" for e e'
    using that assms by (meson distinct_map inj_onD)
  show "keys_decide alias_update es" "keys_decide status_update es"
    unfolding keys_decide_def updates_def using inj
    by (fastforce simp: alias_update_def status_update_def split: entry_body.splits)+
qed

lemma map_of_aliases:
  "map_of (aliases (fold_registry es)) a =
     Option.bind (map_of (fold (\<lambda>e. apply_update (alias_update e)) es []) a) fst"
proof -
  have "map_of (List.map_filter (\<lambda>(a, v, k). map_option (Pair a) v) al) a = Option.bind (map_of al a) fst"
    if "od_wf al" for al :: "(string \<times> nat option \<times> key) list"
    using that
  proof (induction al)
    case (Cons x al)
    have "map_of al (fst x) = None" using Cons.prems by (simp add: od_wf_def map_of_eq_None_iff)
    then show ?case using Cons by (cases x) (auto simp: List.map_filter_simps od_wf_def split: option.split)
  qed (simp add: List.map_filter_simps)
  then show ?thesis by (simp add: fold_registry_def Let_def od_wf_fold)
qed

lemma map_of_version_status:
  "map_of (version_status (fold_registry es)) n =
     map_option fst (map_of (fold (\<lambda>e. apply_update (status_update e)) es []) n)"
proof -
  have "map_of (map (\<lambda>(n, s, k). (n, s)) st) n = map_option fst (map_of st n)" for st :: "(nat \<times> string \<times> key) list"
    by (induction st) auto
  then show ?thesis by (simp add: fold_registry_def Let_def)
qed

lemma filter_single: "distinct xs \<Longrightarrow> e \<in> set xs \<Longrightarrow> filter (\<lambda>y. y = e) xs = [e]"
proof (induction xs)
  case (Cons x xs)
  have "filter (\<lambda>y. y = e) xs = []" if "e \<notin> set xs" using that by (auto simp: filter_empty_conv)
  then show ?case using Cons by auto
qed simp

lemma sort_key_permute:
  assumes "mset xs = mset ys" "distinct xs" "inj_on f (set xs)"
  shows "sort_key f xs = sort_key f ys"
proof (rule properties_for_sort_key)
  show "mset (sort_key f ys) = mset xs" using assms(1) by simp
  have one: "filter (\<lambda>y. f x = f y) zs = [x]" if "mset zs = mset xs" "x \<in> set xs" for x zs
  proof -
    have s: "set zs = set xs" using that(1) by (metis set_mset_mset)
    have d: "distinct zs" using that(1) assms(2) mset_eq_imp_distinct_iff by blast
    have "filter (\<lambda>y. f x = f y) zs = filter (\<lambda>y. y = x) zs"
      using assms(3) that(2) s by (intro filter_cong) (auto dest: inj_onD)
    also have "\<dots> = [x]" using d s that(2) by (simp add: filter_single)
    finally show ?thesis .
  qed
  fix x assume "x \<in> set (sort_key f ys)"
  then have "x \<in> set xs" using assms(1) by (metis set_mset_mset set_sort)
  then show "filter (\<lambda>y. f x = f y) (sort_key f ys) = filter (\<lambda>y. f x = f y) xs"
    using one [of "sort_key f ys" x] one [of xs x] assms(1) by simp
qed simp

text \<open>
  C29. The registry's state does not depend on how its log arrives: permuting or re-chunking entries
  with distinct keys changes neither an alias, nor a version's status, nor the audit trail.
\<close>

theorem fold_registry_permutes:
  assumes "mset es = mset es'" "distinct (map entry_key es)"
  shows "map_of (aliases (fold_registry es)) = map_of (aliases (fold_registry es'))
     \<and> map_of (version_status (fold_registry es)) = map_of (version_status (fold_registry es'))
     \<and> audit (fold_registry es) = audit (fold_registry es')"
proof -
  have set: "set es = set es'" using assms(1) by (metis set_mset_mset)
  note kd = distinct_keys_decide [OF assms(2)]
  have "sort_key entry_key es = sort_key entry_key es'"
    using assms by (intro sort_key_permute) (auto simp: distinct_map)
  then have "audit (fold_registry es) = audit (fold_registry es')" by (simp add: fold_registry_def Let_def)
  moreover have "map_of (aliases (fold_registry es)) = map_of (aliases (fold_registry es'))"
    by (rule ext) (simp add: map_of_aliases fold_latest_permute [OF kd(1) set])
  moreover have "map_of (version_status (fold_registry es)) = map_of (version_status (fold_registry es'))"
    by (rule ext) (simp add: map_of_version_status fold_latest_permute [OF kd(2) set])
  ultimately show ?thesis by blast
qed

definition move :: "string \<Rightarrow> int \<Rightarrow> string \<Rightarrow> nat option \<Rightarrow> entry" where
  "move t p a v = \<lparr>e_ts = t, e_writer = ''w'', e_pos = p, body = Alias_Move a v\<rparr>"

theorem fold_registry_permutes_witness:
  "map_of (aliases (fold_registry [move ''1'' 0 ''prod'' (Some 3), move ''2'' 1 ''prod'' (Some 4)])) =
   map_of (aliases (fold_registry [move ''2'' 1 ''prod'' (Some 4), move ''1'' 0 ''prod'' (Some 3)]))"
proof -
  have "mset [move ''1'' 0 ''prod'' (Some 3), move ''2'' 1 ''prod'' (Some 4)]
      = mset [move ''2'' 1 ''prod'' (Some 4), move ''1'' 0 ''prod'' (Some 3)]" by simp
  moreover have "distinct (map entry_key [move ''1'' 0 ''prod'' (Some 3), move ''2'' 1 ''prod'' (Some 4)])"
    by (simp add: move_def entry_key_def)
  ultimately show ?thesis using fold_registry_permutes by blast
qed

text \<open>The keys have to be distinct: of two entries with the same key the later one in the log wins.\<close>

lemma equal_keys_depend_on_order:
  "map_of (aliases (fold_registry [move ''1'' 0 ''prod'' (Some 3), move ''1'' 0 ''prod'' (Some 4)])) ''prod'' = Some 4"
  "map_of (aliases (fold_registry [move ''1'' 0 ''prod'' (Some 4), move ''1'' 0 ''prod'' (Some 3)])) ''prod'' = Some 3"
  by (simp_all add: fold_registry_def Let_def apply_update_def alias_update_def move_def keep_latest_def entry_key_def
      List.map_filter_simps)

section \<open>Uses\<close>

definition use_of :: "entry \<Rightarrow> (nat \<times> string \<times> string) option" where
  "use_of e = (case body e of Use_Of n app v \<Rightarrow> if app \<noteq> [] \<and> v \<noteq> [] then Some (n, app, v) else None | _ \<Rightarrow> None)"

definition keep_earliest :: "'f \<Rightarrow> 'k :: linorder \<Rightarrow> ('f \<times> 'k) list \<Rightarrow> ('f \<times> 'k) list" where
  "keep_earliest use k earliest =
     (case map_of earliest use of
        None \<Rightarrow> od_put use k earliest
      | Some cur \<Rightarrow> if k < cur then od_put use k earliest else earliest)"

definition use_update :: "entry \<Rightarrow> ((nat \<times> string \<times> string) \<times> key) option" where
  "use_update e = map_option (\<lambda>u. (u, entry_key e)) (use_of e)"

definition apply_earliest :: "('f \<times> 'k :: linorder) option \<Rightarrow> ('f \<times> 'k) list \<Rightarrow> ('f \<times> 'k) list" where
  "apply_earliest u earliest = (case u of None \<Rightarrow> earliest | Some (f, k) \<Rightarrow> keep_earliest f k earliest)"

definition earliest_uses :: "entry list \<Rightarrow> ((nat \<times> string \<times> string) \<times> key) list" where
  "earliest_uses entries = fold (\<lambda>e. apply_earliest (use_update e)) entries []"

definition append_row :: "'n \<Rightarrow> 'r \<Rightarrow> ('n \<times> 'r list) list \<Rightarrow> ('n \<times> 'r list) list" where
  \<comment> \<open>\<open>uses.setdefault(n, []).append(row)\<close>\<close>
  "append_row n r m = od_put n ((case map_of m n of Some rs \<Rightarrow> rs | None \<Rightarrow> []) @ [r]) m"

definition fold_uses :: "entry list \<Rightarrow> (nat \<times> (string \<times> string \<times> string) list) list" where
  \<comment> \<open>by version, the rows of app, run and time\<close>
  "fold_uses entries =
     fold (\<lambda>((n, app, v), k). append_row n (app, v, fst k)) (sort_key (\<lambda>(u, k). (k, u)) (earliest_uses entries)) []"

definition seen_uses :: "('e \<Rightarrow> ('f \<times> 'k :: linorder) option) \<Rightarrow> 'e list \<Rightarrow> ('f \<times> 'k) set" where
  "seen_uses u es = {x. \<exists>e \<in> set es. u e = Some x}"

lemma seen_uses_simps [simp]:
  "seen_uses u [] = {}"
  "seen_uses u (es @ [e]) = (case u e of None \<Rightarrow> seen_uses u es | Some x \<Rightarrow> insert x (seen_uses u es))"
  by (auto simp: seen_uses_def split: option.splits)

lemma od_wf_earliest: "od_wf b \<Longrightarrow> od_wf (fold (\<lambda>e. apply_earliest (u e)) es b)"
  by (induction es arbitrary: b) (auto simp: apply_earliest_def keep_earliest_def od_wf_put split: option.split)

lemma fold_earliest:
  "(map_of (fold (\<lambda>e. apply_earliest (u e)) es []) f = None \<longleftrightarrow> (\<forall>k. (f, k) \<notin> seen_uses u es)) \<and>
   (\<forall>k. map_of (fold (\<lambda>e. apply_earliest (u e)) es []) f = Some k \<longrightarrow>
      (f, k) \<in> seen_uses u es \<and> (\<forall>k'. (f, k') \<in> seen_uses u es \<longrightarrow> k \<le> k'))"
proof (induction es rule: rev_induct)
  case (snoc e es)
  define b where "b = fold (\<lambda>e. apply_earliest (u e)) es []"
  show ?case
  proof (cases "u e")
    case None
    then show ?thesis using snoc by (simp add: apply_earliest_def)
  next
    case (Some x)
    obtain g l where x: "x = (g, l)" by (cases x)
    have step: "fold (\<lambda>e. apply_earliest (u e)) (es @ [e]) [] = keep_earliest g l b"
      using Some x by (simp add: b_def apply_earliest_def)
    show ?thesis
    proof (cases "g = f")
      case False
      then have "map_of (keep_earliest g l b) f = map_of b f" by (auto simp: keep_earliest_def split: option.split)
      then show ?thesis using snoc False Some x unfolding step b_def by auto
    next
      case True
      show ?thesis
      proof (cases "map_of b f")
        case None
        then show ?thesis using snoc True Some x unfolding step b_def [symmetric]
          by (auto simp: keep_earliest_def)
      next
        case (Some ck)
        have old: "(f, ck) \<in> seen_uses u es" "\<And>k'. (f, k') \<in> seen_uses u es \<Longrightarrow> ck \<le> k'"
          using snoc Some unfolding b_def by auto
        have "map_of (keep_earliest g l b) f = Some (min l ck)" using Some \<open>g = f\<close> by (auto simp: keep_earliest_def min_def)
        then show ?thesis using old \<open>u e = Some x\<close> x \<open>g = f\<close> unfolding step
          by (auto simp: min_def dest: old(2))
      qed
    qed
  qed
qed simp

lemma fold_earliest_permute:
  assumes "set es = set es'"
  shows "map_of (fold (\<lambda>e. apply_earliest (u e)) es []) = map_of (fold (\<lambda>e. apply_earliest (u e)) es' [])"
proof
  fix f
  have same: "seen_uses u es' = seen_uses u es" using assms by (simp add: seen_uses_def)
  show "map_of (fold (\<lambda>e. apply_earliest (u e)) es []) f = map_of (fold (\<lambda>e. apply_earliest (u e)) es' []) f"
  proof (cases "map_of (fold (\<lambda>e. apply_earliest (u e)) es' []) f")
    case None
    then show ?thesis using fold_earliest [of u es' f] fold_earliest [of u es f] same by simp
  next
    case (Some k)
    then have "(f, k) \<in> seen_uses u es" "\<And>k'. (f, k') \<in> seen_uses u es \<Longrightarrow> k \<le> k'"
      using fold_earliest [of u es' f] same by auto
    moreover from this(1) obtain k1 where k1: "map_of (fold (\<lambda>e. apply_earliest (u e)) es []) f = Some k1"
      using fold_earliest [of u es f] by fastforce
    ultimately have "k = k1" using fold_earliest [of u es f] by (meson antisym)
    then show ?thesis using Some k1 by simp
  qed
qed

lemma od_wf_distinct: "od_wf m \<Longrightarrow> distinct m \<and> set m = {(k, v). map_of m k = Some v}"
  by (auto simp: od_wf_def distinct_map intro: map_of_SomeD)

text \<open>
  The uses of a model do not depend on how its usage log arrives: any reordering of any entries
  gives the same versions, in the same order, with the same rows.
\<close>

theorem fold_uses_permutes:
  assumes "mset es = mset es'"
  shows "fold_uses es = fold_uses es'"
proof -
  have set: "set es = set es'" using assms by (metis set_mset_mset)
  let ?m = "earliest_uses es" and ?m' = "earliest_uses es'"
  have wf: "od_wf ?m" "od_wf ?m'" by (simp_all add: earliest_uses_def od_wf_earliest)
  have "map_of ?m = map_of ?m'" unfolding earliest_uses_def by (rule fold_earliest_permute [OF set])
  then have "set ?m = set ?m'" using od_wf_distinct [OF wf(1)] od_wf_distinct [OF wf(2)] by simp
  moreover have "inj_on (\<lambda>(u, k). (k, u)) (set ?m)" by (auto simp: inj_on_def)
  ultimately have "sort_key (\<lambda>(u, k). (k, u)) ?m = sort_key (\<lambda>(u, k). (k, u)) ?m'"
    using od_wf_distinct [OF wf(1)] od_wf_distinct [OF wf(2)]
    by (intro sort_key_permute) (simp_all add: set_eq_iff_mset_eq_distinct [symmetric])
  then show ?thesis by (simp add: fold_uses_def)
qed

definition used :: "string \<Rightarrow> nat \<Rightarrow> string \<Rightarrow> entry" where
  "used t n v = \<lparr>e_ts = t, e_writer = ''w'', e_pos = 0, body = Use_Of n ''app'' v\<rparr>"

theorem fold_uses_permutes_witness:
  "fold_uses [used ''2'' 1 ''r1'', used ''1'' 1 ''r1'', used ''1'' 2 ''r2''] =
   fold_uses [used ''1'' 2 ''r2'', used ''1'' 1 ''r1'', used ''2'' 1 ''r1'']"
  by (rule fold_uses_permutes) simp

end
