(* ===== verification/Registry_Log.thy ===== *)
theory Registry_Log
imports Registry_Fold
begin

text \<open>
  Writing and reading the model registry, from registry/log.py, registry/store.py and
  registry/view.py: alias moves with their expectation, status changes, recorded uses, claiming the
  next version number, and resolving a reference. Reading a clock and printing a time are parameters,
  and so is what other writers append between a read of the log and a write to it.
\<close>

section \<open>Timestamps\<close>

definition next_ts :: "(string \<Rightarrow> nat option) \<Rightarrow> (nat \<Rightarrow> string) \<Rightarrow> string option \<Rightarrow> string \<Rightarrow> string" where
  \<comment> \<open>the parameters read and print an instant, in microseconds; instants are unbounded here, where the
    code's overflow (OverflowError) one microsecond past the end of the year 9999\<close>
  "next_ts parse_ts print_ts prev_ts now =
     (case prev_ts of
        None \<Rightarrow> now
      | Some prev \<Rightarrow>
          (case parse_ts prev of
             None \<Rightarrow> now
           | Some prev_dt \<Rightarrow>
               (case parse_ts now of
                  None \<Rightarrow> now
                | Some now_dt \<Rightarrow> print_ts (max (prev_dt + 1) now_dt))))"

definition max_ts :: "entry list \<Rightarrow> string option" where
  "max_ts entries = (if entries = [] then None else Some (fold max (map e_ts entries) []))"

definition writer_pos :: "entry list \<Rightarrow> string \<Rightarrow> int" where
  "writer_pos entries w = int (length (filter (\<lambda>e. e_writer e = w) entries))"

record clock =
  parse_ts :: "string \<Rightarrow> nat option"
  print_ts :: "nat \<Rightarrow> string"
  now_ts :: string
  writer_id :: string

definition build_entry :: "clock \<Rightarrow> entry list \<Rightarrow> entry_body \<Rightarrow> entry" where
  "build_entry c entries b =
     \<lparr>e_ts = next_ts (parse_ts c) (print_ts c) (max_ts entries) (now_ts c), e_writer = writer_id c,
      e_pos = writer_pos entries (writer_id c), body = b\<rparr>"

section \<open>Writes\<close>

datatype expectation = Anything | Absent | Points_To nat

definition check_expect :: "string \<Rightarrow> expectation \<Rightarrow> registry \<Rightarrow> bool" where
  \<comment> \<open>whether the expectation holds; a mismatch raises\<close>
  "check_expect a ex reg =
     (let current = map_of (aliases reg) a in
      case ex of Anything \<Rightarrow> True | Absent \<Rightarrow> current = None | Points_To n \<Rightarrow> current = Some n)"

definition set_alias :: "clock \<Rightarrow> string \<Rightarrow> nat option \<Rightarrow> expectation \<Rightarrow> entry list \<Rightarrow> (entry list \<Rightarrow> entry list) \<Rightarrow> entry list res" where
  \<comment> \<open>\<open>others\<close>: what other writers append after the log was read\<close>
  "set_alias c a v ex entries others =
     (if \<not> check_expect a ex (fold_registry entries) then Inl ValueErr
      else Inr (others entries @ [build_entry c entries (Alias_Move a v)]))"

definition remove_alias :: "clock \<Rightarrow> string \<Rightarrow> expectation \<Rightarrow> entry list \<Rightarrow> (entry list \<Rightarrow> entry list) \<Rightarrow> entry list res" where
  "remove_alias c a ex entries others = set_alias c a None ex entries others"

definition set_version_status :: "clock \<Rightarrow> nat \<Rightarrow> string \<Rightarrow> entry list \<Rightarrow> (entry list \<Rightarrow> entry list) \<Rightarrow> entry list res" where
  "set_version_status c n st entries others =
     (let pointing = map fst (filter (\<lambda>(a, v). v = n) (aliases (fold_registry entries))) in
      if st = ''deleted'' \<and> pointing \<noteq> [] then Inl ValueErr
      else Inr (others entries @ [build_entry c entries (Status_Change n st)]))"

definition record_use :: "clock \<Rightarrow> nat \<Rightarrow> string \<Rightarrow> string \<Rightarrow> entry list \<Rightarrow> entry list" where
  "record_use c n app v entries =
     (if \<exists>e \<in> set entries. body e = Use_Of n app v then entries
      else entries @ [build_entry c entries (Use_Of n app v)])"

section \<open>Version numbers\<close>

definition MAX_REGISTER_RETRIES :: nat where "MAX_REGISTER_RETRIES = 200"

definition taken_version_numbers :: "string list \<Rightarrow> nat list" where
  "taken_version_numbers names = List.map_filter parse_version_record names"

fun register_rounds ::
    "(nat \<Rightarrow> (string \<times> 'm) list \<Rightarrow> (string \<times> 'm) list) \<Rightarrow> (nat \<Rightarrow> 'm) \<Rightarrow> nat \<Rightarrow> nat \<Rightarrow> (string \<times> 'm) list
     \<Rightarrow> (string \<times> 'm) list \<times> nat res" where
  \<comment> \<open>\<open>others k\<close>: what other writers do before the attempt of that round\<close>
  "register_rounds others meta 0 n area = (area, Inl RuntimeErr)"
| "register_rounds others meta (Suc k) n area =
     (case create_exclusive (others k area) (version_record_name n) (meta n) of
        (area', made) \<Rightarrow>
          if made then (area', Inr n)
          else register_rounds others meta k
                 (max (fold max (taken_version_numbers (map fst area')) 0 + 1) (n + 1)) area')"

definition register_version ::
    "(nat \<Rightarrow> (string \<times> 'm) list \<Rightarrow> (string \<times> 'm) list) \<Rightarrow> (nat \<Rightarrow> 'm) \<Rightarrow> (string \<times> 'm) list \<Rightarrow> (string \<times> 'm) list \<times> nat res" where
  "register_version others meta area =
     register_rounds others meta MAX_REGISTER_RETRIES
       (fold max (taken_version_numbers (map fst area)) 0 + 1) area"

section \<open>Resolving a reference\<close>

record 'm model =
  log_entries :: "entry list"
  versions :: "nat list"                     \<comment> \<open>of the complete records, ascending\<close>
  version_meta :: "nat \<Rightarrow> 'm option"

definition version_or_raise :: "'m model \<Rightarrow> registry \<Rightarrow> nat \<Rightarrow> 'm res" where
  "version_or_raise m reg n =
     (if map_of (version_status reg) n = Some ''deleted'' then Inl KeyErr
      else case version_meta m n of None \<Rightarrow> Inl KeyErr | Some x \<Rightarrow> Inr x)"

definition live_versions :: "'m model \<Rightarrow> registry \<Rightarrow> nat list" where
  "live_versions m reg = filter (\<lambda>n. map_of (version_status reg) n \<noteq> Some ''deleted'') (versions m)"

definition resolve_kind :: "'m model \<Rightarrow> registry \<Rightarrow> ref_kind \<Rightarrow> 'm res" where
  "resolve_kind m reg kind =
     (case kind of
        By_Alias a \<Rightarrow> (case map_of (aliases reg) a of None \<Rightarrow> Inl KeyErr | Some n \<Rightarrow> version_or_raise m reg n)
      | By_Version n \<Rightarrow> version_or_raise m reg n
      | Latest \<Rightarrow> if live_versions m reg = [] then Inl KeyErr else version_or_raise m reg (fold max (live_versions m reg) 0))"

definition resolve_ref :: "(string \<Rightarrow> 'm model) \<Rightarrow> string \<Rightarrow> 'm res" where
  "resolve_ref models ref =
     (case parse_ref ref of (name, kind) \<Rightarrow>
        resolve_kind (models name) (fold_registry (log_entries (models name))) kind)"

section \<open>An alias move wins\<close>

lemma fold_max_start: "a \<le> fold max xs (a :: 'a :: linorder)"
proof (induction xs arbitrary: a)
  case (Cons x xs)
  have "a \<le> max x a" by simp
  also have "\<dots> \<le> fold max xs (max x a)" by (rule Cons)
  finally show ?case by simp
qed simp

lemma fold_max_ge: "x \<in> set xs \<Longrightarrow> x \<le> fold max xs (a :: 'a :: linorder)"
proof (induction xs arbitrary: a)
  case (Cons y xs)
  show ?case
  proof (cases "x = y")
    case True
    have "x \<le> max x a" by simp
    also have "\<dots> \<le> fold max xs (max x a)" by (rule fold_max_start)
    finally show ?thesis using True by simp
  qed (use Cons in simp)
qed simp

lemma fold_max_in: "fold max xs a = a \<or> fold max xs (a :: 'a :: linorder) \<in> set xs"
proof (induction xs arbitrary: a)
  case (Cons x xs)
  have "max x a = x \<or> max x a = a" by (simp add: max_def)
  then show ?case using Cons [of "max x a"] by auto
qed simp

definition well_timed :: "clock \<Rightarrow> entry list \<Rightarrow> bool" where
  \<comment> \<open>printed instants are read back and compare as the instants do, and every time at hand is printed\<close>
  "well_timed c entries \<longleftrightarrow>
     (\<forall>t. parse_ts c (print_ts c t) = Some t) \<and> (\<forall>t u. t < u \<longrightarrow> print_ts c t < print_ts c u) \<and>
     (\<forall>e \<in> set entries. e_ts e \<in> range (print_ts c)) \<and> now_ts c \<in> range (print_ts c)"

lemma build_entry_newest:
  assumes "well_timed c entries" "e \<in> set entries"
  shows "entry_key e < entry_key (build_entry c entries b)"
proof -
  define m where "m = fold max (map e_ts entries) []"
  have le: "e_ts e \<le> m" using assms(2) by (auto simp: m_def intro: fold_max_ge)
  have "m \<in> range (print_ts c)"
  proof (cases "m \<in> set (map e_ts entries)")
    case True
    then show ?thesis using assms(1) by (auto simp: well_timed_def)
  next
    case False
    then have "m = []" using fold_max_in [of "map e_ts entries" "[]"] by (auto simp: m_def)
    then have "e_ts e = m" using le by simp
    then show ?thesis using assms by (auto simp: well_timed_def)
  qed
  then obtain t where t: "m = print_ts c t" by blast
  obtain u where u: "now_ts c = print_ts c u" using assms(1) by (auto simp: well_timed_def)
  have "max_ts entries = Some m" using assms(2) by (auto simp: max_ts_def m_def)
  moreover have "\<And>t. parse_ts c (print_ts c t) = Some t" using assms(1) by (simp add: well_timed_def)
  ultimately have "e_ts (build_entry c entries b) = print_ts c (max (t + 1) u)"
    by (simp add: build_entry_def next_ts_def t u)
  moreover have "print_ts c t < print_ts c (max (t + 1) u)" using assms(1) by (auto simp: well_timed_def)
  ultimately have "e_ts e < e_ts (build_entry c entries b)" using le t by simp
  then show ?thesis by (simp add: entry_key_def)
qed

text \<open>
  C30. An alias move takes effect: when its expectation holds and no other writer moved the alias
  since the log was read, the folded registry maps the alias to the version moved to, or to nothing
  for a removal, however far ahead the clocks of the earlier entries ran.
\<close>

theorem set_alias_wins:
  assumes "set_alias c a v ex entries others = Inr log" "well_timed c entries"
    and "set (others entries) = set entries \<union> extra" "\<And>e w. e \<in> extra \<Longrightarrow> body e \<noteq> Alias_Move a w"
  shows "map_of (aliases (fold_registry log)) a = v"
proof -
  let ?new = "build_entry c entries (Alias_Move a v)"
  have log: "log = others entries @ [?new]" using assms(1) by (simp add: set_alias_def split: if_splits)
  have new: "alias_update ?new = Some (a, v, entry_key ?new)" by (simp add: alias_update_def build_entry_def)
  then have here: "(a, v, entry_key ?new) \<in> updates alias_update log" by (simp add: log)
  have older: "k < entry_key ?new" if u: "(a, w, k) \<in> updates alias_update (others entries)" for w k
  proof -
    obtain e where e: "e \<in> set (others entries)" "alias_update e = Some (a, w, k)" using u unfolding updates_def by blast
    then have "body e = Alias_Move a w" "k = entry_key e" by (auto simp: alias_update_def split: entry_body.splits)
    then show ?thesis using e(1) assms(3,4) build_entry_newest [OF assms(2)] by auto
  qed
  obtain w k where wk: "map_of (fold (\<lambda>e. apply_update (alias_update e)) log []) a = Some (w, k)"
    using fold_latest [of alias_update log a] here by (metis not_None_eq surj_pair)
  then have "(a, w, k) \<in> updates alias_update log" "entry_key ?new \<le> k"
    using fold_latest [of alias_update log a] here by blast+
  then have "(a, w, k) = (a, v, entry_key ?new)" using older new by (fastforce simp: log)
  then show ?thesis by (simp add: map_of_aliases wk)
qed

text \<open>
  A reference resolves only to a version that exists and is not deleted, and \<open>latest\<close> to the
  highest such version.
\<close>

theorem resolve_ref_live:
  assumes "resolve_ref models ref = Inr x"
  shows "\<exists>n. version_meta (models (fst (parse_ref ref))) n = Some x
     \<and> map_of (version_status (fold_registry (log_entries (models (fst (parse_ref ref)))))) n \<noteq> Some ''deleted''
     \<and> (snd (parse_ref ref) = Latest \<longrightarrow> n \<in> set (versions (models (fst (parse_ref ref)))) \<and>
          (\<forall>k \<in> set (versions (models (fst (parse_ref ref)))).
             map_of (version_status (fold_registry (log_entries (models (fst (parse_ref ref)))))) k \<noteq> Some ''deleted'' \<longrightarrow> k \<le> n))"
proof -
  obtain name kind where ref: "parse_ref ref = (name, kind)" by fastforce
  define m where "m = models name"
  define reg where "reg = fold_registry (log_entries m)"
  have res: "resolve_kind m reg kind = Inr x" using assms by (simp add: resolve_ref_def ref m_def reg_def)
  have ok: "version_meta m n = Some x \<and> map_of (version_status reg) n \<noteq> Some ''deleted''" if "version_or_raise m reg n = Inr x" for n
    using that by (auto simp: version_or_raise_def split: if_splits option.splits)
  have "\<exists>n. version_meta m n = Some x \<and> map_of (version_status reg) n \<noteq> Some ''deleted'' \<and>
     (kind = Latest \<longrightarrow> n \<in> set (versions m) \<and>
       (\<forall>k \<in> set (versions m). map_of (version_status reg) k \<noteq> Some ''deleted'' \<longrightarrow> k \<le> n))"
  proof (cases kind)
    case (By_Alias a)
    then show ?thesis using res ok by (auto simp: resolve_kind_def split: option.splits)
  next
    case (By_Version n)
    then show ?thesis using res ok by (auto simp: resolve_kind_def)
  next
    case Latest
    define live where "live = live_versions m reg"
    have l: "live \<noteq> []" "version_or_raise m reg (fold max live 0) = Inr x"
      using res Latest by (auto simp: live_def resolve_kind_def split: if_splits)
    have "fold max live 0 \<in> set live"
    proof (cases "fold max live 0 \<in> set live")
      case False
      then have "fold max live 0 = 0" using fold_max_in by blast
      moreover obtain y where "y \<in> set live" using l(1) by (cases live) auto
      ultimately have "y = 0" using fold_max_ge [of y live 0] by simp
      then show ?thesis using \<open>y \<in> set live\<close> \<open>fold max live 0 = 0\<close> by simp
    qed
    then have "fold max live 0 \<in> set (versions m)" by (simp add: live_def live_versions_def)
    moreover have "k \<le> fold max live 0" if "k \<in> set (versions m)" "map_of (version_status reg) k \<noteq> Some ''deleted''" for k
      using that by (intro fold_max_ge) (simp add: live_def live_versions_def)
    ultimately show ?thesis using ok [OF l(2)] by blast
  qed
  then show ?thesis by (simp add: ref m_def reg_def)
qed

section \<open>Claiming a version number\<close>

lemma register_rounds_fresh:
  assumes "\<And>k a. map_of a \<subseteq>\<^sub>m map_of (others k a)"
  shows "register_rounds others meta k n area = (area', Inr v) \<Longrightarrow>
     (\<exists>b. map_of area \<subseteq>\<^sub>m map_of b \<and> map_of b (version_record_name v) = None \<and>
        area' = b @ [(version_record_name v, meta v)])"
proof (induction k arbitrary: n area)
  case (Suc k)
  obtain b made where c: "create_exclusive (others k area) (version_record_name n) (meta n) = (b, made)" by fastforce
  show ?case
  proof (cases made)
    case True
    then have "map_of (others k area) (version_record_name n) = None" "b = others k area @ [(version_record_name n, meta n)]"
      using c by (auto simp: create_exclusive_def split: if_splits)
    then show ?thesis using Suc.prems c True assms by auto
  next
    case False
    then have "b = others k area" using c by (auto simp: create_exclusive_def split: if_splits)
    then show ?thesis using Suc.IH [of _ b] Suc.prems c False assms map_le_trans by fastforce
  qed
qed simp

lemma next_version_free: "map_of area (version_record_name (max (fold max (taken_version_numbers (map fst area)) 0 + 1) n)) = None"
proof (rule ccontr)
  let ?v = "max (fold max (taken_version_numbers (map fst area)) 0 + 1) n"
  assume "\<not> ?thesis"
  then have "version_record_name ?v \<in> set (map fst area)" by (metis map_of_eq_None_iff set_map)
  then have "?v \<in> set (taken_version_numbers (map fst area))"
    unfolding taken_version_numbers_def List.map_filter_def by (force simp: max_def)
  then have "?v \<le> fold max (taken_version_numbers (map fst area)) 0" by (rule fold_max_ge)
  then show False by simp
qed

lemma register_rounds_quiet:
  assumes "\<And>a. others m a = a"
  shows "m < k \<Longrightarrow> map_of area (version_record_name n) = None \<Longrightarrow> is_ok (snd (register_rounds others meta k n area))"
proof (induction k arbitrary: n area)
  case (Suc k)
  obtain b made where c: "create_exclusive (others k area) (version_record_name n) (meta n) = (b, made)" by fastforce
  show ?case
  proof (cases made)
    case False
    then have "m \<noteq> k" using c Suc.prems(2) assms by (auto simp: create_exclusive_def)
    then show ?thesis
      using Suc.IH [OF _ next_version_free, of b "n + 1"] Suc.prems(1) c False by simp
  qed (use c in simp)
qed simp

text \<open>
  C31. A version number is claimed once and never reused: other writers only adding records, the
  number returned had no record, its record is now the caller's, and no record is lost; and the claim
  succeeds if nobody else writes before one of its two hundred attempts.
\<close>

theorem register_version_claims:
  assumes "\<And>k a. map_of a \<subseteq>\<^sub>m map_of (others k a)"
  shows "(register_version others meta area = (area', Inr v) \<longrightarrow>
      map_of area (version_record_name v) = None \<and> map_of area' (version_record_name v) = Some (meta v)
        \<and> map_of area \<subseteq>\<^sub>m map_of area')
    \<and> (m < 200 \<longrightarrow> (\<forall>a. others m a = a) \<longrightarrow> is_ok (snd (register_version others meta area)))"
proof (intro conjI impI)
  assume "register_version others meta area = (area', Inr v)"
  from register_rounds_fresh [OF assms this [unfolded register_version_def]] obtain b where
    b: "map_of area \<subseteq>\<^sub>m map_of b" "map_of b (version_record_name v) = None" "area' = b @ [(version_record_name v, meta v)]"
    by blast
  show "map_of area (version_record_name v) = None" using b(1,2) by (metis domIff map_le_def)
  show "map_of area' (version_record_name v) = Some (meta v)" using b(2,3) by (simp add: map_add_def)
  have "map_of b \<subseteq>\<^sub>m map_of area'" unfolding b(3) by (auto simp: map_le_def map_add_def)
  then show "map_of area \<subseteq>\<^sub>m map_of area'" using b(1) map_le_trans by blast
next
  assume "m < 200" "\<forall>a. others m a = a"
  then show "is_ok (snd (register_version others meta area))"
    using register_rounds_quiet [of others m MAX_REGISTER_RETRIES area] next_version_free [of area 0]
    by (simp add: register_version_def MAX_REGISTER_RETRIES_def max_def)
qed

section \<open>Witnesses\<close>

definition ticks :: clock where
  \<comment> \<open>an instant printed as that many marks\<close>
  "ticks = \<lparr>parse_ts = (\<lambda>s. Some (length s)), print_ts = (\<lambda>t. replicate t CHR ''|''), now_ts = ''|'', writer_id = ''w''\<rparr>"

lemma replicate_less: "t < u \<Longrightarrow> replicate t c < replicate u (c :: char)"
  by (induction t arbitrary: u) (auto simp: gr0_conv_Suc Suc_less_eq2)

theorem set_alias_wins_witness:
  "\<exists>log. set_alias ticks ''prod'' (Some 2) (Points_To 1) [move ''|||'' 0 ''prod'' (Some 1)] (\<lambda>es. es) = Inr log
     \<and> map_of (aliases (fold_registry log)) ''prod'' = Some 2"
proof -
  let ?es = "[move ''|||'' 0 ''prod'' (Some 1)]"
  have "map_of (aliases (fold_registry ?es)) ''prod'' = Some 1"
    by (simp add: fold_registry_def Let_def apply_update_def alias_update_def move_def keep_latest_def entry_key_def
        List.map_filter_simps)
  then obtain log where log: "set_alias ticks ''prod'' (Some 2) (Points_To 1) ?es (\<lambda>es. es) = Inr log"
    by (simp add: set_alias_def check_expect_def Let_def)
  have "replicate (Suc 0) CHR ''|'' = ''|''" "replicate 3 CHR ''|'' = ''|||''" by (simp_all add: numeral_eq_Suc)
  then have range: "''|'' \<in> range (\<lambda>t. replicate t CHR ''|'')" "''|||'' \<in> range (\<lambda>t. replicate t CHR ''|'')"
    by (metis rangeI)+
  have timed: "well_timed ticks ?es"
    using range by (auto simp: well_timed_def ticks_def move_def replicate_less)
  have "map_of (aliases (fold_registry log)) ''prod'' = Some 2"
    by (rule set_alias_wins [OF log timed, of "{}"]) simp_all
  then show ?thesis using log by blast
qed

definition one_model :: "string \<Rightarrow> nat model" where
  \<comment> \<open>three versions, the newest deleted\<close>
  "one_model m = \<lparr>log_entries = [\<lparr>e_ts = ''1'', e_writer = ''w'', e_pos = 0, body = Status_Change 3 ''deleted''\<rparr>],
     versions = [1, 2, 3], version_meta = Some\<rparr>"

theorem resolve_ref_live_witness: "resolve_ref one_model ''m'' = Inr 2 \<and>
  (\<exists>n. version_meta (one_model ''m'') n = Some (2 :: nat) \<and>
     map_of (version_status (fold_registry (log_entries (one_model ''m'')))) n \<noteq> Some ''deleted'')"
proof -
  have st: "map_of (version_status (fold_registry (log_entries (one_model ''m'')))) = [3 \<mapsto> ''deleted'']"
    by (simp add: one_model_def fold_registry_def Let_def apply_update_def status_update_def alias_update_def
        keep_latest_def entry_key_def)
  have ref: "parse_ref ''m'' = (''m'', Latest)" by (simp add: parse_ref_def)
  have r: "resolve_ref one_model ''m'' = Inr 2"
    unfolding resolve_ref_def ref by (simp add: resolve_kind_def live_versions_def version_or_raise_def st) (simp add: one_model_def)
  show ?thesis using r resolve_ref_live [OF r] unfolding ref by auto
qed

theorem register_version_claims_witness:
  "\<exists>area'. register_version (\<lambda>k a. a) (\<lambda>n. n) [(''v1'', 1), (''header'', 0)] = (area', Inr (2 :: nat))
     \<and> map_of area' ''v2'' = Some (2 :: nat)"
proof -
  have v: "version_record_name 2 = ''v2''" by code_simp
  have r: "register_version (\<lambda>k a. a) (\<lambda>n. n) [(''v1'', 1), (''header'', 0)]
      = ([(''v1'', 1), (''header'', 0), (''v2'', 2)], Inr (2 :: nat))" by code_simp
  show ?thesis
    using register_version_claims [of "\<lambda>k a. a" "\<lambda>n. n" "[(''v1'', 1), (''header'', 0)]" _ 2] r v by fastforce
qed

end
