(* ===== verification/Query_Lexer.thy ===== *)
theory Query_Lexer
imports Prelude Complex_Main
begin

text \<open>
  The lexer of the experiment query language, from core/query.py of the experiment SDK: a query's
  text becomes a list of tokens with their offsets, or the offset a \<open>QueryError\<close> names. Texts are
  over the code points below 256. A number is the rational its decimal notation denotes, where the
  program rounds it to a float.
\<close>

section \<open>Character classes\<close>

definition py_isdigit :: "char \<Rightarrow> bool" where
  \<comment> \<open>\<open>str.isdigit\<close>: also the superscripts, which \<open>int\<close> does not read\<close>
  "py_isdigit c = (is_digit c \<or> code c \<in> {178, 179, 185})"

definition py_isalpha :: "char \<Rightarrow> bool" where
  "py_isalpha c =
     ((65 \<le> code c \<and> code c \<le> 90) \<or> (97 \<le> code c \<and> code c \<le> 122) \<or> code c \<in> {170, 181, 186}
      \<or> (192 \<le> code c \<and> code c \<noteq> 215 \<and> code c \<noteq> 247))"

definition py_isalnum :: "char \<Rightarrow> bool" where
  \<comment> \<open>letters, digits and the vulgar fractions\<close>
  "py_isalnum c = (py_isalpha c \<or> py_isdigit c \<or> code c \<in> {188, 189, 190})"

definition py_lower_char :: "char \<Rightarrow> char" where
  "py_lower_char c =
     (if (65 \<le> code c \<and> code c \<le> 90) \<or> (192 \<le> code c \<and> code c \<le> 222 \<and> code c \<noteq> 215)
      then char_of (code c + 32) else c)"

definition py_lower :: "string \<Rightarrow> string" where
  "py_lower s = map py_lower_char s"

definition is_quote :: "char \<Rightarrow> bool" where
  "is_quote c = (c = CHR 0x27 \<or> c = CHR 0x22)"

section \<open>Tokens\<close>

datatype lit = Null | Bool bool | Num rat | Str string

datatype field_name = Plain string | Quoted string string | Quoted_Sub string string string

datatype tok =
    Punct char                                 \<comment> \<open>one of the brackets and the comma\<close>
  | Lit lit
  | Kw string
  | Name field_name
  | Dot field_name                             \<comment> \<open>after the closing bracket of \<open>up(...)\<close>\<close>
  | Op string
  | End

type_synonym token = "tok \<times> nat"

datatype query_exn =
    Query_Error nat                            \<comment> \<open>the offset its message names\<close>
  | Empty_Query
  | Index_Error
  | Overflow_Error                           \<comment> \<open>of the clock\<close>

type_synonym 'a qres = "query_exn + 'a"

definition bind_qres :: "'a qres \<Rightarrow> ('a \<Rightarrow> 'b qres) \<Rightarrow> 'b qres" where
  "bind_qres m f = (case m of Inl e \<Rightarrow> Inl e | Inr x \<Rightarrow> f x)"

definition KEYWORDS :: "string list" where
  "KEYWORDS = [''and'', ''or'', ''not'', ''in'', ''contains'', ''true'', ''false'', ''null'']"

definition OPERATORS :: "string list" where
  "OPERATORS = [''=='', ''!='', ''<='', ''>='', ''!~'', ''='', ''<'', ''>'', ''~'']"

section \<open>Numbers\<close>

definition split_sign :: "string \<Rightarrow> bool \<times> string" where
  "split_sign s = (case s of c # cs \<Rightarrow> if c = CHR ''-'' then (True, cs) else (False, s) | [] \<Rightarrow> (False, s))"

definition signed :: "bool \<Rightarrow> rat \<Rightarrow> rat" where
  "signed neg x = (if neg then - x else x)"

definition split_exponent :: "string \<Rightarrow> string \<times> string option" where
  "split_exponent s = (case dropWhile (\<lambda>c. c \<noteq> CHR ''e'' \<and> c \<noteq> CHR ''E'') s of
     [] \<Rightarrow> (s, None)
   | _ # ex \<Rightarrow> (takeWhile (\<lambda>c. c \<noteq> CHR ''e'' \<and> c \<noteq> CHR ''E'') s, Some ex))"

definition read_exponent :: "string \<Rightarrow> rat option" where
  \<comment> \<open>the factor \<open>[+-]digits\<close> stands for\<close>
  "read_exponent ex =
     (case ex of
        [] \<Rightarrow> None
      | c # ds \<Rightarrow>
          if c = CHR ''-'' then (if all_digits ds then Some (1 / 10 ^ str_nat ds) else None)
          else if c = CHR ''+'' then (if all_digits ds then Some (10 ^ str_nat ds) else None)
          else (if all_digits ex then Some (10 ^ str_nat ex) else None))"

definition read_mantissa :: "string \<Rightarrow> rat option" where
  "read_mantissa s =
     (case partition_char (CHR ''.'') s of (whole, dot, fraction) \<Rightarrow>
        if list_all is_digit whole \<and> list_all is_digit fraction \<and> (whole \<noteq> [] \<or> fraction \<noteq> [])
        then Some (of_nat (str_nat (whole @ fraction)) / 10 ^ length fraction) else None)"

definition read_number :: "string \<Rightarrow> rat option" where
  \<comment> \<open>\<open>int(raw)\<close>, or \<open>float(raw)\<close> of a notation with a dot or an exponent; none on a \<open>ValueError\<close>\<close>
  "read_number raw =
     (case split_sign raw of (neg, s) \<Rightarrow>
      case split_exponent s of (mantissa, ex) \<Rightarrow>
      case read_mantissa mantissa of
        None \<Rightarrow> None
      | Some m \<Rightarrow> (case ex of
            None \<Rightarrow> Some (signed neg m)
          | Some e \<Rightarrow> map_option (\<lambda>f. signed neg (m * f)) (read_exponent e)))"

section \<open>One token\<close>

text \<open>Each of these reads a token at the head of a text and says how many characters it took.\<close>

definition lex_string :: "string \<Rightarrow> nat \<Rightarrow> (string \<times> nat) qres" where
  "lex_string s pos =
     (case s of
        [] \<Rightarrow> Inl Index_Error
      | q # cs \<Rightarrow>
          if q \<in> set cs then (let t = takeWhile (\<lambda>c. c \<noteq> q) cs in Inr (t, length t + 2))
          else Inl (Query_Error pos))"

definition lex_exponent :: "string \<Rightarrow> nat option" where
  \<comment> \<open>the length of \<open>[+-]digits\<close> at the head of the text; none without a digit\<close>
  "lex_exponent s =
     (case s of
        [] \<Rightarrow> None
      | c # cs \<Rightarrow>
          let n = (if c = CHR ''+'' \<or> c = CHR ''-'' then 1 else 0);
              ds = takeWhile py_isdigit (drop n s)
          in if ds = [] then None else Some (n + length ds))"

definition lex_number :: "string \<Rightarrow> nat \<Rightarrow> (tok \<times> nat) qres" where
  "lex_number s pos =
     (let n = Suc (length (takeWhile (\<lambda>c. py_isdigit c \<or> c = CHR ''.'') (tl s)));
          ended = (case drop n s of
             e # r \<Rightarrow> if e = CHR ''e'' \<or> e = CHR ''E'' then map_option (\<lambda>k. n + 1 + k) (lex_exponent r) else Some n
           | [] \<Rightarrow> Some n)
      in (case ended of
            None \<Rightarrow> Inl (Query_Error pos)
          | Some k \<Rightarrow> (case read_number (take k s) of
                None \<Rightarrow> Inl (Query_Error pos)
              | Some x \<Rightarrow> Inr (Lit (Num x), k))))"

definition name_char :: "char \<Rightarrow> bool" where
  "name_char c = (py_isalnum c \<or> c = CHR ''_'' \<or> c = CHR ''.'')"

definition sub_char :: "char \<Rightarrow> bool" where
  "sub_char c = (py_isalnum c \<or> c = CHR ''_'')"

definition lex_subfield :: "string \<Rightarrow> string \<Rightarrow> string \<Rightarrow> field_name \<times> nat" where
  \<comment> \<open>a quoted key and what follows it\<close>
  "lex_subfield s prefix key =
     (case s of
        c # cs \<Rightarrow> if c = CHR ''.'' then (let sub = takeWhile sub_char cs in (Quoted_Sub prefix key sub, Suc (length sub)))
                  else (Quoted prefix key, 0)
      | [] \<Rightarrow> (Quoted prefix key, 0))"

definition lex_name :: "string \<Rightarrow> nat \<Rightarrow> (tok \<times> nat) qres" where
  "lex_name s pos =
     (let raw = takeWhile name_char s; n = length raw; rest = drop n s
      in if raw \<noteq> [] \<and> last raw = CHR ''.'' \<and> rest \<noteq> [] \<and> is_quote (hd rest)
         then (case lex_string rest (pos + n) of
                 Inl e \<Rightarrow> Inl e
               | Inr (key, k) \<Rightarrow>
                   (case lex_subfield (drop k rest) (butlast raw) key of (name, j) \<Rightarrow> Inr (Name name, n + k + j)))
         else if py_lower raw \<in> set KEYWORDS then Inr (Kw (py_lower raw), n)
         else Inr (Name (Plain raw), n))"

definition dotted :: "tok \<Rightarrow> tok" where
  \<comment> \<open>the value of a name or keyword token, as a field\<close>
  "dotted t = (case t of Name n \<Rightarrow> Dot n | Kw k \<Rightarrow> Dot (Plain k) | _ \<Rightarrow> t)"

definition find_operator :: "string \<Rightarrow> string option" where
  "find_operator s = find (\<lambda>o'. starts_with o' s) OPERATORS"

definition dot_starts_name :: "string \<Rightarrow> bool" where
  "dot_starts_name cs = (cs \<noteq> [] \<and> (py_isalpha (hd cs) \<or> hd cs = CHR ''_''))"

definition starts_number :: "string \<Rightarrow> bool" where
  "starts_number s =
     (case s of [] \<Rightarrow> False | c # cs \<Rightarrow> py_isdigit c \<or> (c = CHR ''-'' \<and> cs \<noteq> [] \<and> py_isdigit (hd cs)))"

text \<open>
  The token at the head of a text, none for a space, its offset and its length. The offset of a
  dotted field is the one after it, as the program has it.
\<close>

definition lex_one :: "string \<Rightarrow> nat \<Rightarrow> (token option \<times> nat) qres" where
  "lex_one s pos =
     (case s of
        [] \<Rightarrow> Inl Index_Error
      | c # cs \<Rightarrow>
          if is_space c then Inr (None, 1)
          else if c \<in> set ''(),'' then Inr (Some (Punct c, pos), 1)
          else if is_quote c then map_sum id (\<lambda>(t, n). (Some (Lit (Str t), pos), n)) (lex_string s pos)
          else if starts_number s then map_sum id (\<lambda>(t, n). (Some (t, pos), n)) (lex_number s pos)
          else if py_isalpha c \<or> c = CHR ''_'' then map_sum id (\<lambda>(t, n). (Some (t, pos), n)) (lex_name s pos)
          else if c = CHR ''.'' \<and> dot_starts_name cs
          then map_sum id (\<lambda>(t, n). (Some (dotted t, pos + 1 + n), n + 1)) (lex_name cs (pos + 1))
          else (case find_operator s of
                  None \<Rightarrow> Inl (Query_Error pos)
                | Some p \<Rightarrow> Inr (Some (Op p, pos), length p)))"

section \<open>The whole text\<close>

lemma find_operator_nonempty: "find_operator s = Some p \<Longrightarrow> p \<noteq> []"
  by (auto simp: find_operator_def find_Some_iff OPERATORS_def nth_Cons' split: if_splits)

lemma find_operator_Some: "find_operator s = Some p \<Longrightarrow> p \<in> set OPERATORS \<and> starts_with p s"
  by (auto simp: find_operator_def find_Some_iff)

lemma length_takeWhile_tl: "s \<noteq> [] \<Longrightarrow> Suc (length (takeWhile P (tl s))) \<le> length s"
  using length_takeWhile_le [of P "tl s"] by (cases s) auto

lemma lex_string_length: "lex_string s pos = Inr (t, n) \<Longrightarrow> 2 \<le> n \<and> n \<le> length s"
proof -
  assume *: "lex_string s pos = Inr (t, n)"
  then obtain q cs where s: "s = q # cs" "q \<in> set cs" "n = length (takeWhile (\<lambda>c. c \<noteq> q) cs) + 2"
    by (auto simp: lex_string_def Let_def split: list.splits if_splits)
  from s(2) have "takeWhile (\<lambda>c. c \<noteq> q) cs \<noteq> cs" by (auto simp: takeWhile_eq_all_conv)
  then have "length (takeWhile (\<lambda>c. c \<noteq> q) cs) < length cs"
    by (metis le_neq_implies_less length_takeWhile_le takeWhile_eq_take take_all_iff order_refl)
  then show ?thesis using s by simp
qed

lemma lex_exponent_length: "lex_exponent s = Some k \<Longrightarrow> 0 < k \<and> k \<le> length s"
proof (cases s)
  case (Cons c cs)
  define n :: nat where "n = (if c = CHR ''+'' \<or> c = CHR ''-'' then 1 else 0)"
  assume "lex_exponent s = Some k"
  then have k: "k = n + length (takeWhile py_isdigit (drop n s))" "takeWhile py_isdigit (drop n s) \<noteq> []"
    unfolding lex_exponent_def Cons list.case n_def [symmetric] Let_def by (metis option.discI option.inject)+
  have "n \<le> length s" by (simp add: n_def Cons)
  then show ?thesis using k length_takeWhile_le [of py_isdigit "drop n s"] by fastforce
qed (simp add: lex_exponent_def)

lemma lex_number_length: "s \<noteq> [] \<Longrightarrow> lex_number s pos = Inr (t, n) \<Longrightarrow> 0 < n \<and> n \<le> length s"
proof -
  assume ne: "s \<noteq> []" and *: "lex_number s pos = Inr (t, n)"
  define m where "m = Suc (length (takeWhile (\<lambda>c. py_isdigit c \<or> c = CHR ''.'') (tl s)))"
  have m: "0 < m" "m \<le> length s" using ne length_takeWhile_tl by (simp_all add: m_def)
  have rest: "length s = m + Suc (length r)" if "drop m s = e # r" for e r
    using that m(2) by (metis append_take_drop_id length_Cons length_append length_take min.absorb2)
  show ?thesis using * m unfolding lex_number_def m_def [symmetric] Let_def
    by (auto split: list.splits option.splits if_splits dest!: lex_exponent_length rest)
qed

lemma lex_subfield_length: "lex_subfield s p k = (t, n) \<Longrightarrow> n \<le> length s"
  by (auto simp: lex_subfield_def Let_def length_takeWhile_le split: list.splits if_splits)

lemma lex_name_length:
  assumes "lex_name s pos = Inr (t, n)"
  shows "n \<le> length s \<and> (s \<noteq> [] \<and> name_char (hd s) \<longrightarrow> 0 < n)"
proof -
  define raw where "raw = takeWhile name_char s"
  have r: "length raw \<le> length s" "s \<noteq> [] \<and> name_char (hd s) \<longrightarrow> 0 < length raw"
    by (auto simp: raw_def length_takeWhile_le takeWhile_eq_Nil_iff)
  show ?thesis using assms r unfolding lex_name_def raw_def [symmetric] Let_def
    by (auto split: sum.splits prod.splits if_splits dest!: lex_string_length lex_subfield_length)
qed

lemma map_sum_Inr_iff: "map_sum id f r = Inr x \<longleftrightarrow> (\<exists>y. r = Inr y \<and> x = f y)"
  by (cases r) auto

lemma lex_one_cases:
  assumes "lex_one (c # cs) pos = Inr (t, n)"
  obtains "t = None" "n = 1" "is_space c"
  | "t = Some (Punct c, pos)" "n = 1" "c \<in> set ''(),''"
  | v where "lex_string (c # cs) pos = Inr (v, n)" "t = Some (Lit (Str v), pos)" "is_quote c"
  | u where "lex_number (c # cs) pos = Inr (u, n)" "t = Some (u, pos)" "starts_number (c # cs)"
  | u where "lex_name (c # cs) pos = Inr (u, n)" "t = Some (u, pos)" "py_isalpha c \<or> c = CHR ''_''"
  | u m where "lex_name cs (pos + 1) = Inr (u, m)" "t = Some (dotted u, pos + n)" "n = m + 1"
      "c = CHR ''.''" "dot_starts_name cs"
  | p where "find_operator (c # cs) = Some p" "t = Some (Op p, pos)" "n = length p"
proof -
  note r = assms [unfolded lex_one_def list.case]
  note use = that
  show thesis
  proof (cases "is_space c \<or> c \<in> set ''(),''")
    case True
    then show ?thesis using r use(1,2) by (cases "is_space c") (auto simp only: if_True if_False simp_thms de_Morgan_disj de_Morgan_conj sum.inject Pair_inject)
  next
    case f1: False
    show ?thesis
    proof (cases "is_quote c")
      case True
      then show ?thesis using r f1 use(3) by (auto simp only: map_sum_Inr_iff if_True if_False simp_thms de_Morgan_disj de_Morgan_conj split: prod.splits)
    next
      case f2: False
      show ?thesis
      proof (cases "starts_number (c # cs) \<or> py_isalpha c \<or> c = CHR ''_''")
        case True
        then show ?thesis using r f1 f2 use(4,5)
          by (auto simp only: map_sum_Inr_iff if_True if_False simp_thms de_Morgan_disj de_Morgan_conj split: prod.splits if_split_asm)
      next
        case f3: False
        show ?thesis
        proof (cases "c = CHR ''.'' \<and> dot_starts_name cs")
          case True
          then have "map_sum id (\<lambda>(t, n). (Some (dotted t, pos + 1 + n), n + 1)) (lex_name cs (pos + 1)) = Inr (t, n)"
            using r f1 f2 f3 by (simp only: if_True if_False simp_thms de_Morgan_disj)
          then obtain u m where "lex_name cs (pos + 1) = Inr (u, m)" "t = Some (dotted u, pos + 1 + m)" "n = m + 1"
            by (auto simp only: map_sum_Inr_iff split: prod.splits)
          then show ?thesis using use(6) True by (simp add: add.assoc)
        next
          case False
          then show ?thesis using r f1 f2 f3 use(7)
            by (auto simp only: if_True if_False simp_thms de_Morgan_disj de_Morgan_conj sum.inject Pair_inject split: option.splits)
        qed
      qed
    qed
  qed
qed

lemma lex_one_length: "lex_one s pos = Inr (t, n) \<Longrightarrow> 0 < n \<and> n \<le> length s"
proof -
  assume *: "lex_one s pos = Inr (t, n)"
  then obtain c cs where s: "s = c # cs" by (cases s) (auto simp: lex_one_def)
  from * [unfolded s] show ?thesis
  proof (cases rule: lex_one_cases)
    case 4 then show ?thesis using lex_number_length s by blast
  next
    case (5 u)
    then show ?thesis using lex_name_length [OF 5(1)] by (auto simp: s name_char_def py_isalnum_def)
  next
    case (7 p)
    obtain r where "c # cs = p @ r" using find_operator_Some [OF 7(1)] by (auto simp: starts_with_iff)
    then show ?thesis using find_operator_nonempty [OF 7(1)] 7(3) s by simp
  qed (use s in \<open>auto dest: lex_string_length lex_name_length\<close>)
qed

function tokenize_from :: "string \<Rightarrow> nat \<Rightarrow> token list qres" where
  "tokenize_from s pos =
     (if s = [] then Inr [(End, pos)]
      else (case lex_one s pos of
              Inl e \<Rightarrow> Inl e
            | Inr (t, n) \<Rightarrow> map_sum id (\<lambda>ts. (case t of None \<Rightarrow> ts | Some u \<Rightarrow> u # ts)) (tokenize_from (drop n s) (pos + n))))"
  by pat_completeness auto

termination
  by (relation "measure (\<lambda>(s, pos). length s)") (auto dest: lex_one_length)

declare tokenize_from.simps [simp del]

definition tokenize :: "string \<Rightarrow> token list qres" where
  "tokenize text = tokenize_from text 0"

end
