(* ===== verification/Query_Parser.thy ===== *)
theory Query_Parser
imports Query_Lexer
begin

text \<open>
  The parser of the experiment query language, from core/query.py, core/query_up.py and
  core/query_ago.py: recursive descent over the tokens. A parser takes the tokens left and the
  \<open>ago(...)\<close> calls met, and returns a result with both, or an exception. The recursion is on the
  nesting levels left, at most \<open>MAX_NESTING\<close>.
\<close>

section \<open>Trees\<close>

datatype field =
    Path "string list"
  | Env_Packages string
  | Up "(string list \<times> lit) option" "string list"

datatype cmp_op = Eq | Ne | Lt | Le | Gt | Ge | Like | Unlike

datatype node =
    Or "node list"
  | And "node list"
  | Not node
  | In field "lit list"
  | Cmp field cmp_op lit
  | Under string
  | Similar string

section \<open>Fields\<close>

definition LIVE_BELOW_FIELDS :: "string list" where
  "LIVE_BELOW_FIELDS = [''live_below'', ''running_below'', ''stuck_below'']"

definition FAILED_BELOW_FIELDS :: "string list" where
  "FAILED_BELOW_FIELDS = [''failed_below'', ''failed_pct'']"

definition ROW_FIELDS :: "string list" where
  "ROW_FIELDS = LIVE_BELOW_FIELDS @ FAILED_BELOW_FIELDS @
     [''idx'', ''verstr'', ''code_verstr'', ''timestamp'', ''note'', ''branch'', ''base_version'', ''parent'',
      ''name'', ''archived'', ''tags'', ''last_metric_at'', ''status'', ''exit_code'', ''started_at'',
      ''finished_at'', ''heartbeat'', ''duration_sec'', ''duration_at_least_sec'', ''pid'', ''host'',
      ''command'', ''stale_sec'', ''heartbeat_interval_sec'', ''children'', ''kind'', ''depth'',
      ''tree_status'', ''settled'', ''imported_from'', ''forked_from'', ''forked_from_step'', ''rerun_of'',
      ''author'', ''has_intent'', ''intent'', ''keywords'', ''notes'', ''end_reason'', ''error_summary'',
      ''signal'', ''root'', ''failure_sig'', ''released_at'', ''resume_count'', ''queue_sec'', ''duration_ratio'']"

definition DICT_PREFIXES :: "string list" where
  "DICT_PREFIXES = [''metrics'', ''params'', ''tags'', ''env'', ''comments'']"

definition NESTED_SUBFIELDS :: "(string \<times> string list) list" where
  "NESTED_SUBFIELDS = [(''inputs'', [''uri'', ''digest'', ''kind'']), (''outputs'', [''path'', ''digest'', ''size''])]"

definition UP_PREFIXES :: "string list" where
  "UP_PREFIXES = [''params'', ''tags'']"

definition up_readable :: "string list \<Rightarrow> bool" where
  \<comment> \<open>\<open>readable\<close>\<close>
  "up_readable keys =
     (case keys of [p, k] \<Rightarrow> p \<in> set UP_PREFIXES | [k] \<Rightarrow> k = ''name'' | _ \<Rightarrow> False)"

definition nested_field :: "string \<Rightarrow> string \<Rightarrow> string \<Rightarrow> nat \<Rightarrow> field qres" where
  "nested_field prefix key sub pos =
     (case map_of NESTED_SUBFIELDS prefix of
        None \<Rightarrow> Inl (Query_Error pos)
      | Some allowed \<Rightarrow> if sub \<in> set allowed then Inr (Path [prefix, key, sub]) else Inl (Query_Error pos))"

definition plain_field :: "field_name \<Rightarrow> nat \<Rightarrow> field qres" where
  \<comment> \<open>a field without an \<open>up.\<close> prefix\<close>
  "plain_field name pos =
     (case name of
        Quoted_Sub prefix key sub \<Rightarrow> nested_field prefix key sub pos
      | Quoted prefix key \<Rightarrow> if prefix \<in> set DICT_PREFIXES then Inr (Path [prefix, key]) else Inl (Query_Error pos)
      | Plain s \<Rightarrow>
          (case split_char (CHR ''.'') s of
             [n] \<Rightarrow> if n \<in> set ROW_FIELDS then Inr (Path [n]) else Inl (Query_Error pos)
           | [p, k] \<Rightarrow> if p \<in> set DICT_PREFIXES then Inr (Path [p, k]) else Inl (Query_Error pos)
           | [p0, p1, p2] \<Rightarrow>
               if p0 \<in> fst ` set NESTED_SUBFIELDS then nested_field p0 p1 p2 pos
               else if p0 = ''env'' \<and> p1 = ''packages'' then Inr (Env_Packages p2)
               else Inl (Query_Error pos)
           | _ \<Rightarrow> Inl (Query_Error pos)))"

fun name_head :: "field_name \<Rightarrow> string" where
  "name_head (Plain s) = s"
| "name_head (Quoted s k) = s"
| "name_head (Quoted_Sub s k sub) = s"

fun with_head :: "string \<Rightarrow> field_name \<Rightarrow> field_name" where
  "with_head r (Plain s) = Plain r"
| "with_head r (Quoted s k) = Quoted r k"
| "with_head r (Quoted_Sub s k sub) = Quoted_Sub r k sub"

definition without_up :: "field_name \<Rightarrow> field_name option" where
  "without_up name =
     (case partition_char (CHR ''.'') (name_head name) of (head, dot, rest) \<Rightarrow>
        if head \<noteq> ''up'' \<or> \<not> dot \<or> rest = [] then None else Some (with_head rest name))"

definition readable_path :: "nat \<Rightarrow> field \<Rightarrow> string list qres" where
  "readable_path pos f =
     (case f of Path keys \<Rightarrow> if up_readable keys then Inr keys else Inl (Query_Error pos) | _ \<Rightarrow> Inl (Query_Error pos))"

lemma name_head_with_head [simp]: "name_head (with_head r name) = r"
  by (cases name) simp_all

lemma without_up_shorter: "without_up name = Some inner \<Longrightarrow> length (name_head inner) < length (name_head name)"
proof -
  assume "without_up name = Some inner"
  then obtain h r where "partition_char (CHR ''.'') (name_head name) = (h, True, r)" "inner = with_head r name"
    by (auto simp: without_up_def split: prod.splits if_splits)
  moreover have "length (c # r) \<le> length s" if "dropWhile P s = c # r" for c and r s :: string and P
    using length_dropWhile_le [of P s] that by simp
  ultimately show ?thesis by (fastforce simp: partition_char_def Let_def split: list.splits)
qed

function field_node :: "field_name \<Rightarrow> nat \<Rightarrow> field qres" where
  \<comment> \<open>\<open>_field\<close>; without Python's recursion limit, which a name of hundreds of \<open>up.\<close> prefixes exceeds\<close>
  "field_node name pos =
     (case without_up name of
        None \<Rightarrow> plain_field name pos
      | Some inner \<Rightarrow> map_sum id (Up None) (bind_qres (field_node inner pos) (readable_path pos)))"
  by pat_completeness auto

termination
  by (relation "measure (\<lambda>(name, pos). length (name_head name))") (auto dest: without_up_shorter)

declare field_node.simps [simp del]

definition readable_keys :: "field_name \<Rightarrow> nat \<Rightarrow> string list qres" where
  "readable_keys name pos = bind_qres (field_node name pos) (readable_path pos)"

definition up_field :: "(string list \<times> lit) option \<Rightarrow> field_name \<Rightarrow> nat \<Rightarrow> field qres" where
  "up_field selector name pos = map_sum id (Up selector) (readable_keys name pos)"

section \<open>Parsers\<close>

record ago =
  ago_start :: nat
  ago_end :: nat
  ago_seconds :: int

type_synonym pst = "token list \<times> ago list"
type_synonym 'a parser = "pst \<Rightarrow> ('a \<times> pst) qres"

definition p_ret :: "'a \<Rightarrow> 'a parser" where
  "p_ret x = (\<lambda>st. Inr (x, st))"

definition p_fail :: "nat \<Rightarrow> 'a parser" where
  "p_fail pos = (\<lambda>st. Inl (Query_Error pos))"

definition p_bind :: "'a parser \<Rightarrow> ('a \<Rightarrow> 'b parser) \<Rightarrow> 'b parser" where
  "p_bind p f = (\<lambda>st. case p st of Inl e \<Rightarrow> Inl e | Inr (x, st') \<Rightarrow> f x st')"

definition p_lift :: "'a qres \<Rightarrow> 'a parser" where
  "p_lift r = (\<lambda>st. map_sum id (\<lambda>x. (x, st)) r)"

definition peek :: "token parser" where
  "peek = (\<lambda>st. case fst st of [] \<Rightarrow> Inl Index_Error | t # ts \<Rightarrow> Inr (t, st))"

definition next_token :: "token parser" where
  "next_token = (\<lambda>st. case fst st of [] \<Rightarrow> Inl Index_Error | t # ts \<Rightarrow> Inr (t, (ts, snd st)))"

definition p_accept :: "tok \<Rightarrow> bool parser" where
  "p_accept t = p_bind peek (\<lambda>u. if fst u = t then p_bind next_token (\<lambda>_. p_ret True) else p_ret False)"

definition p_expect :: "tok \<Rightarrow> nat parser" where
  \<comment> \<open>the offset of the token\<close>
  "p_expect t = p_bind peek (\<lambda>u. if fst u = t then p_bind next_token (\<lambda>_. p_ret (snd u)) else p_fail (snd u))"

fun p_chain :: "nat \<Rightarrow> tok \<Rightarrow> 'a parser \<Rightarrow> 'a list parser" where
  \<comment> \<open>\<open>while accept(sep): ...\<close>; each round takes a token, so there are no more rounds than tokens\<close>
  "p_chain 0 sep p = (\<lambda>st. Inl Index_Error)"
| "p_chain (Suc n) sep p =
     p_bind (p_accept sep) (\<lambda>b. if b then p_bind p (\<lambda>x. p_bind (p_chain n sep p) (\<lambda>xs. p_ret (x # xs))) else p_ret [])"

definition p_separated :: "tok \<Rightarrow> 'a parser \<Rightarrow> 'a list parser" where
  "p_separated sep p =
     p_bind p (\<lambda>x. p_bind (\<lambda>st. p_chain (length (fst st)) sep p st) (\<lambda>xs. p_ret (x # xs)))"

section \<open>Literals and calls\<close>

definition parse_literal :: "lit parser" where
  "parse_literal = p_bind next_token (\<lambda>(t, pos). case t of
      Lit l \<Rightarrow> p_ret l
    | Kw k \<Rightarrow> if k = ''true'' then p_ret (Bool True) else if k = ''false'' then p_ret (Bool False)
              else if k = ''null'' then p_ret Null else p_fail pos
    | _ \<Rightarrow> p_fail pos)"

definition parse_literal_list :: "lit list parser" where
  "parse_literal_list =
     p_bind (p_expect (Punct (CHR ''('')))
       (\<lambda>_. p_bind (p_separated (Punct (CHR '','')) parse_literal)
       (\<lambda>xs. p_bind (p_expect (Punct (CHR '')''))) (\<lambda>_. p_ret xs)))"

definition has_words :: "string \<Rightarrow> bool" where
  "has_words text = list_ex py_isalnum (py_lower text)"

definition parse_call :: "string \<Rightarrow> node parser" where
  "parse_call name =
     p_bind next_token (\<lambda>_. p_bind next_token (\<lambda>(t, pos). case t of
        Lit (Str s) \<Rightarrow>
          if name = ''similar'' \<and> \<not> has_words s then p_fail pos
          else p_bind (p_expect (Punct (CHR '')'')))
                 (\<lambda>_. p_ret (if name = ''similar'' then Similar s else Under s))
      | _ \<Rightarrow> p_fail pos))"

definition UNITS :: "(char \<times> int) list" where
  "UNITS = [(CHR ''m'', 60), (CHR ''h'', 3600), (CHR ''d'', 86400)]"

definition duration_sec :: "lit \<Rightarrow> int option" where
  \<comment> \<open>without the 4300 digits past which Python's \<open>int\<close> raises a plain \<open>ValueError\<close>\<close>
  "duration_sec l =
     (case l of
        Str s \<Rightarrow> if s \<noteq> [] \<and> all_digits (butlast s) then map_option (\<lambda>u. int (str_nat (butlast s)) * u) (map_of UNITS (last s))
                 else None
      | _ \<Rightarrow> None)"

definition ORDERED :: "string list" where
  "ORDERED = [''<'', ''<='', ''>'', ''>='']"

definition note_ago :: "ago \<Rightarrow> unit parser" where
  "note_ago a = (\<lambda>st. Inr ((), (fst st, snd st @ [a])))"

definition parse_ago :: "string \<Rightarrow> int parser" where
  "parse_ago operator =
     p_bind next_token (\<lambda>(_, start).
       if operator \<notin> set ORDERED then p_fail start
       else p_bind (p_expect (Punct (CHR ''(''))) (\<lambda>_. p_bind next_token (\<lambda>(t, pos).
         case (case t of Lit l \<Rightarrow> duration_sec l | _ \<Rightarrow> None) of
           None \<Rightarrow> p_fail pos
         | Some seconds \<Rightarrow>
             p_bind (p_expect (Punct (CHR '')''))) (\<lambda>e.
             p_bind (note_ago \<lparr>ago_start = start, ago_end = e + 1, ago_seconds = seconds\<rparr>) (\<lambda>_. p_ret seconds)))))"

definition parse_up :: "field parser" where
  "parse_up =
     p_bind next_token (\<lambda>_. p_bind next_token (\<lambda>(t, pos). case t of
        Name n \<Rightarrow>
          p_bind (p_lift (readable_keys n pos)) (\<lambda>selector.
          p_bind next_token (\<lambda>(op, op_pos).
            if op \<noteq> Op ''='' \<and> op \<noteq> Op ''=='' then p_fail op_pos
            else p_bind parse_literal (\<lambda>l.
              if l = Null then p_fail op_pos
              else p_bind (p_expect (Punct (CHR '')''))) (\<lambda>_. p_bind next_token (\<lambda>(d, d_pos). case d of
                  Dot m \<Rightarrow> p_lift (up_field (Some (selector, l)) m d_pos)
                | _ \<Rightarrow> p_fail d_pos)))))
      | _ \<Rightarrow> p_fail pos))"

definition field_of :: "field_name \<Rightarrow> nat \<Rightarrow> field parser" where
  "field_of name pos =
     p_bind peek (\<lambda>u. if name = Plain ''up'' \<and> fst u = Punct (CHR ''('') then parse_up
                      else p_lift (field_node name pos))"

section \<open>Comparisons\<close>

definition COMPARISONS :: "(string \<times> cmp_op) list" where
  \<comment> \<open>the operators, each as its canonical one\<close>
  "COMPARISONS = [(''='', Eq), (''=='', Eq), (''!='', Ne), (''<'', Lt), (''<='', Le), (''>'', Gt), (''>='', Ge),
                  (''~'', Like), (''contains'', Like), (''!~'', Unlike)]"

definition operator_of :: "tok \<Rightarrow> (string \<times> cmp_op) option" where
  "operator_of t =
     (case t of Op s \<Rightarrow> map_option (Pair s) (map_of COMPARISONS s) | Kw s \<Rightarrow> map_option (Pair s) (map_of COMPARISONS s)
      | _ \<Rightarrow> None)"

fun is_str :: "lit \<Rightarrow> bool" where
  "is_str (Str s) = True"
| "is_str l = False"

definition parse_operand :: "field \<Rightarrow> string \<Rightarrow> cmp_op \<Rightarrow> nat \<Rightarrow> node parser" where
  \<comment> \<open>the right of an operator\<close>
  "parse_operand f s op op_pos =
     p_bind peek (\<lambda>u.
       if fst u = Name (Plain ''ago'') then p_bind (parse_ago s) (\<lambda>sec. p_ret (Cmp f op (Num (of_int sec))))
       else p_bind parse_literal (\<lambda>l.
         if op \<in> {Like, Unlike} \<and> \<not> is_str l then p_fail op_pos else p_ret (Cmp f op l)))"

definition parse_relation :: "field \<Rightarrow> node parser" where
  \<comment> \<open>what follows a field\<close>
  "parse_relation f =
     p_bind (p_accept (Kw ''not'')) (\<lambda>negate.
     p_bind (p_accept (Kw ''in'')) (\<lambda>isin.
       if isin then p_bind parse_literal_list (\<lambda>ls. p_ret (if negate then Not (In f ls) else In f ls))
       else p_bind peek (\<lambda>(t, pos).
         if negate then p_fail pos
         else (case operator_of t of
                 None \<Rightarrow> p_fail pos
               | Some (s, op) \<Rightarrow> p_bind next_token (\<lambda>_. parse_operand f s op pos)))))"

definition CALLS :: "string list" where
  "CALLS = [''under'', ''similar'']"

definition call_of :: "field_name \<Rightarrow> string option" where
  "call_of name = (case name of Plain s \<Rightarrow> if s \<in> set CALLS then Some s else None | _ \<Rightarrow> None)"

definition parse_comparison :: "node parser" where
  "parse_comparison =
     p_bind peek (\<lambda>(t, pos). case t of
        Name name \<Rightarrow>
          p_bind next_token (\<lambda>_. p_bind peek (\<lambda>u.
            case (if fst u = Punct (CHR ''('') then call_of name else None) of
              Some call \<Rightarrow> parse_call call
            | None \<Rightarrow> p_bind (field_of name pos) parse_relation))
      | _ \<Rightarrow> p_fail pos)"

section \<open>Combinations\<close>

definition flat :: "(node list \<Rightarrow> node) \<Rightarrow> node list \<Rightarrow> node" where
  "flat C ts = (if length ts = 1 then hd ts else C ts)"

definition parse_and :: "node parser \<Rightarrow> node parser" where
  "parse_and inner = p_bind (p_separated (Kw ''and'') inner) (\<lambda>ts. p_ret (flat And ts))"

definition parse_or :: "node parser \<Rightarrow> node parser" where
  "parse_or inner = p_bind (p_separated (Kw ''or'') (parse_and inner)) (\<lambda>ts. p_ret (flat Or ts))"

definition parse_nested :: "node parser \<Rightarrow> node parser" where
  \<comment> \<open>\<open>inner\<close> is \<open>parse_not\<close> one level down\<close>
  "parse_nested inner =
     p_bind (p_accept (Kw ''not'')) (\<lambda>b.
       if b then p_bind inner (\<lambda>t. p_ret (Not t))
       else p_bind (p_expect (Punct (CHR ''(''))) (\<lambda>_. p_bind (parse_or inner) (\<lambda>t.
            p_bind (p_expect (Punct (CHR '')''))) (\<lambda>_. p_ret t))))"

definition opens_level :: "tok \<Rightarrow> bool" where
  "opens_level t = (t = Kw ''not'' \<or> t = Punct (CHR ''(''))"

primrec parse_not :: "nat \<Rightarrow> node parser" where
  \<comment> \<open>with that many levels left\<close>
  "parse_not 0 = p_bind peek (\<lambda>(t, pos). if opens_level t then p_fail pos else parse_comparison)"
| "parse_not (Suc k) =
     p_bind peek (\<lambda>(t, pos). if opens_level t then parse_nested (parse_not k) else parse_comparison)"

definition MAX_NESTING :: nat where
  "MAX_NESTING = 100"

definition parse_tokens :: "node parser" where
  \<comment> \<open>\<open>parse\<close>\<close>
  "parse_tokens =
     p_bind (parse_or (parse_not MAX_NESTING)) (\<lambda>tree.
     p_bind peek (\<lambda>(t, pos). if t = End then p_ret tree else p_fail pos))"

section \<open>The public functions\<close>

definition parsed :: "string \<Rightarrow> (node \<times> ago list) qres" where
  "parsed text =
     bind_qres (tokenize text) (\<lambda>ts. map_sum id (\<lambda>(tree, st). (tree, snd st)) (parse_tokens (ts, [])))"

fun pin_spans :: "(int \<Rightarrow> string qres) \<Rightarrow> string \<Rightarrow> ago list \<Rightarrow> nat \<Rightarrow> string qres" where
  \<comment> \<open>the text from an offset on, each call replaced\<close>
  "pin_spans iso_before text [] off = Inr (drop off text)"
| "pin_spans iso_before text (a # as) off =
     bind_qres (iso_before (ago_seconds a)) (\<lambda>iso.
       map_sum id (\<lambda>r. take (ago_start a - off) (drop off text) @ CHR 0x22 # iso @ CHR 0x22 # r)
         (pin_spans iso_before text as (ago_end a)))"

definition pin_ago :: "(int \<Rightarrow> string qres) \<Rightarrow> string \<Rightarrow> string qres" where
  \<comment> \<open>\<open>iso_before\<close>, of the clock, says the time that many seconds ago, or overflows\<close>
  "pin_ago iso_before text =
     (if \<not> contains_str ''ago'' text then Inr text
      else bind_qres (parsed text) (\<lambda>(_, agos). pin_spans iso_before text agos 0))"

definition parse_query :: "(int \<Rightarrow> string qres) \<Rightarrow> string \<Rightarrow> node qres" where
  "parse_query iso_before text =
     (if str_strip text = [] then Inl Empty_Query
      else bind_qres (pin_ago iso_before text) (\<lambda>pinned. map_sum id fst (parsed pinned)))"

definition parse_field :: "string \<Rightarrow> field qres" where
  "parse_field text =
     bind_qres (tokenize text) (\<lambda>ts. map_sum id fst
       (p_bind next_token (\<lambda>(t, pos). case t of
          Name name \<Rightarrow> p_bind (field_of name pos) (\<lambda>f.
            p_bind peek (\<lambda>(e, e_pos). if e = End then p_ret f else p_fail e_pos))
        | _ \<Rightarrow> p_fail pos) (ts, [])))"

definition root_of :: "tok \<Rightarrow> string option" where
  "root_of t =
     (case t of
        Name n \<Rightarrow> (let r = hd (split_char (CHR ''.'') (name_head n)) in Some (if r = ''under'' then ''ancestors'' else r))
      | _ \<Rightarrow> None)"

definition query_roots :: "string \<Rightarrow> string set qres" where
  "query_roots text = map_sum id (\<lambda>ts. set (List.map_filter (root_of \<circ> fst) ts)) (tokenize text)"

definition metric_of :: "field_name \<Rightarrow> string" where
  "metric_of name =
     (case name of
        Plain s \<Rightarrow> (case partition_char (CHR ''.'') s of (r, _, key) \<Rightarrow> if r = ''metrics'' then key else [])
      | Quoted p k \<Rightarrow> if p = ''metrics'' then k else []
      | Quoted_Sub p k s \<Rightarrow> [])"

definition reads_system_metrics :: "string \<Rightarrow> bool qres" where
  "reads_system_metrics text =
     map_sum id (list_ex (\<lambda>(t, pos). case t of Name n \<Rightarrow> starts_with ''sys_'' (metric_of n) | _ \<Rightarrow> False)) (tokenize text)"

end
