(* ===== verification/Query_Laws.thy ===== *)
theory Query_Laws
imports Query_Parser
begin

text \<open>
  What the parser of the query language guarantees: it never reads past the end of its tokens, its
  errors name an offset of the text, its trees are well formed and bounded in height. Each parser
  gets one rule, stated with \<open>sound\<close> and collected in \<open>sound_rules\<close>.
\<close>

named_theorems sound_rules

section \<open>Well-formed trees\<close>

definition wf_path :: "string list \<Rightarrow> bool" where
  "wf_path keys =
     (case keys of
        [n] \<Rightarrow> n \<in> set ROW_FIELDS
      | [p, k] \<Rightarrow> p \<in> set DICT_PREFIXES
      | [p, k, s] \<Rightarrow> (case map_of NESTED_SUBFIELDS p of Some allowed \<Rightarrow> s \<in> set allowed | None \<Rightarrow> False)
      | _ \<Rightarrow> False)"

fun wf_field :: "field \<Rightarrow> bool" where
  "wf_field (Path keys) = wf_path keys"
| "wf_field (Env_Packages k) = (CHR ''.'' \<notin> set k)"
| "wf_field (Up selector keys) =
     (up_readable keys \<and> (case selector of None \<Rightarrow> True | Some (ks, l) \<Rightarrow> up_readable ks \<and> l \<noteq> Null))"

fun wf_node :: "node \<Rightarrow> bool" where
  "wf_node (Or ts) = (2 \<le> length ts \<and> list_all wf_node ts)"
| "wf_node (And ts) = (2 \<le> length ts \<and> list_all wf_node ts)"
| "wf_node (Not t) = wf_node t"
| "wf_node (In f ls) = (wf_field f \<and> ls \<noteq> [])"
| "wf_node (Cmp f op l) = (wf_field f \<and> (op \<in> {Like, Unlike} \<longrightarrow> is_str l))"
| "wf_node (Under v) = True"
| "wf_node (Similar s) = has_words s"

fun height :: "node \<Rightarrow> nat" where
  "height (Or ts) = Suc (Max (set (map height ts) \<union> {0}))"
| "height (And ts) = Suc (Max (set (map height ts) \<union> {0}))"
| "height (Not t) = Suc (height t)"
| "height t = 0"

definition shallow :: "nat \<Rightarrow> node \<Rightarrow> bool" where
  "shallow h t = (wf_node t \<and> height t \<le> h)"

lemma shallow_simps [simp]:
  "shallow h (In f ls) = (wf_field f \<and> ls \<noteq> [])"
  "shallow h (Cmp f op l) = (wf_field f \<and> (op \<in> {Like, Unlike} \<longrightarrow> is_str l))"
  "shallow h (Under v)"
  "shallow h (Similar v) = has_words v"
  "shallow (Suc h) (Not t) = shallow h t"
  by (auto simp: shallow_def)

lemma shallow_mono: "shallow g t \<Longrightarrow> g \<le> h \<Longrightarrow> shallow h t"
  by (auto simp: shallow_def)

lemma shallow_Suc: "shallow h t \<Longrightarrow> shallow (Suc h) t"
  by (auto simp: shallow_def)

lemma shallow_flat:
  assumes "C = And \<or> C = Or" "ts \<noteq> []" "list_all (shallow h) ts"
  shows "shallow (Suc h) (flat C ts)"
proof (cases "length ts = 1")
  case True
  then show ?thesis using assms by (cases ts) (auto simp: flat_def intro: shallow_mono)
next
  case False
  then have "2 \<le> length ts" using assms(2) by (cases ts) (auto simp: neq_Nil_conv Suc_le_eq)
  then show ?thesis using assms False by (auto simp: flat_def shallow_def list_all_iff)
qed

section \<open>Sound parsers\<close>

definition closed_by_end :: "nat \<Rightarrow> token list \<Rightarrow> bool" where
  \<comment> \<open>one end token, the last; offsets up to a bound\<close>
  "closed_by_end len ts =
     (ts \<noteq> [] \<and> fst (last ts) = End \<and> End \<notin> fst ` set (butlast ts) \<and> (\<forall>t \<in> set ts. snd t \<le> len))"

definition good :: "nat \<Rightarrow> nat \<Rightarrow> ('a \<Rightarrow> bool) \<Rightarrow> ('a \<times> pst) qres \<Rightarrow> bool" where
  \<comment> \<open>a query error inside the text, or a result that meets \<open>P\<close>, with no more than \<open>n\<close> tokens left\<close>
  "good len n P r =
     (case r of
        Inl e \<Rightarrow> (\<exists>pos \<le> len. e = Query_Error pos)
      | Inr (x, st) \<Rightarrow> closed_by_end len (fst st) \<and> length (fst st) \<le> n \<and> P x)"

lemma good_simps [simp]:
  "good len n P (Inl e) = (\<exists>pos \<le> len. e = Query_Error pos)"
  "good len n P (Inr (x, st)) = (closed_by_end len (fst st) \<and> length (fst st) \<le> n \<and> P x)"
  by (simp_all add: good_def)

lemma good_weaken: "good len m Q r \<Longrightarrow> m \<le> n \<Longrightarrow> (\<And>x. Q x \<Longrightarrow> P x) \<Longrightarrow> good len n P r"
  by (fastforce simp: good_def split: sum.splits)

definition sound :: "nat \<Rightarrow> (token \<Rightarrow> bool) \<Rightarrow> ('a \<Rightarrow> bool) \<Rightarrow> 'a parser \<Rightarrow> bool" where
  \<comment> \<open>from tokens whose head meets \<open>H\<close>\<close>
  "sound len H P p =
     (\<forall>ts as. closed_by_end len ts \<longrightarrow> H (hd ts) \<longrightarrow> good len (length ts) P (p (ts, as)))"

lemma soundI:
  "(\<And>ts as. closed_by_end len ts \<Longrightarrow> H (hd ts) \<Longrightarrow> good len (length ts) P (p (ts, as))) \<Longrightarrow> sound len H P p"
  by (simp add: sound_def)

lemma soundD: "sound len H P p \<Longrightarrow> closed_by_end len ts \<Longrightarrow> H (hd ts) \<Longrightarrow> good len (length ts) P (p (ts, as))"
  by (simp add: sound_def)

lemma sound_weaken: "sound len (\<lambda>_. True) Q p \<Longrightarrow> (\<And>x. Q x \<Longrightarrow> P x) \<Longrightarrow> sound len H P p"
  by (auto intro!: soundI intro: good_weaken dest: soundD)

lemma sound_mono: "sound len H Q p \<Longrightarrow> (\<And>x. Q x \<Longrightarrow> P x) \<Longrightarrow> sound len H P p"
  by (auto intro!: soundI intro: good_weaken dest: soundD)

lemma sound_head: "sound len H P p \<Longrightarrow> (\<And>u. K u \<Longrightarrow> H u) \<Longrightarrow> sound len K P p"
  unfolding sound_def by blast

lemma sound_ret [sound_rules]: "P x \<Longrightarrow> sound len H P (p_ret x)"
  by (simp add: sound_def p_ret_def)

lemma sound_fail [sound_rules]: "pos \<le> len \<Longrightarrow> sound len H P (p_fail pos)"
  by (simp add: sound_def p_fail_def)

lemma sound_lift:
  assumes "\<And>e. r = Inl e \<Longrightarrow> \<exists>pos \<le> len. e = Query_Error pos" "\<And>x. r = Inr x \<Longrightarrow> P x"
  shows "sound len H P (p_lift r)"
  using assms by (cases r) (auto simp: sound_def p_lift_def)

lemma sound_bind:
  assumes "sound len H Q p" "\<And>x. Q x \<Longrightarrow> sound len (\<lambda>_. True) P (f x)"
  shows "sound len H P (p_bind p f)"
proof (rule soundI)
  fix ts as assume ts: "closed_by_end len ts" "H (hd ts)"
  show "good len (length ts) P (p_bind p f (ts, as))"
  proof (cases "p (ts, as)")
    case (Inl e)
    then show ?thesis using soundD [OF assms(1) ts, of as] by (simp add: p_bind_def)
  next
    case (Inr y)
    obtain x us bs where y: "y = (x, us, bs)" by (metis prod.collapse)
    have us: "closed_by_end len us" "length us \<le> length ts" "Q x"
      using soundD [OF assms(1) ts, of as] Inr y by auto
    show ?thesis
      using good_weaken [OF soundD [OF assms(2) [OF us(3)] us(1) TrueI] us(2)] by (simp add: p_bind_def Inr y)
  qed
qed

lemma closed_cases:
  assumes "closed_by_end len ts"
  obtains u us where "ts = u # us" "snd u \<le> len" "fst u = End \<longleftrightarrow> us = []" "us \<noteq> [] \<Longrightarrow> closed_by_end len us"
proof (cases ts)
  case (Cons u us)
  show thesis
    using assms by (intro that [of u us]) (auto simp: closed_by_end_def Cons split: if_splits)
qed (use assms in \<open>simp add: closed_by_end_def\<close>)

lemma sound_peek_bind:
  assumes "\<And>t pos. H (t, pos) \<Longrightarrow> pos \<le> len \<Longrightarrow> sound len (\<lambda>v. v = (t, pos)) P (f (t, pos))"
  shows "sound len H P (p_bind peek f)"
proof (rule soundI)
  fix ts as assume ts: "closed_by_end len ts" "H (hd ts)"
  from ts(1) obtain t pos us where u: "ts = (t, pos) # us" "pos \<le> len"
    by (rule closed_cases) auto
  have "sound len (\<lambda>v. v = (t, pos)) P (f (t, pos))" using assms ts(2) u by simp
  then have "good len (length ts) P (f (t, pos) (ts, as))" using ts(1) u by (intro soundD [where H = "\<lambda>v. v = (t, pos)"]) auto
  then show "good len (length ts) P (p_bind peek f (ts, as))" by (simp add: p_bind_def peek_def u)
qed

text \<open>A token taken is not the end, or the parser fails on it.\<close>

lemma sound_next_bind:
  assumes "\<And>t pos. t \<noteq> End \<Longrightarrow> H (t, pos) \<Longrightarrow> pos \<le> len \<Longrightarrow> sound len (\<lambda>_. True) P (f (t, pos))"
    and "\<And>pos. H (End, pos) \<Longrightarrow> pos \<le> len \<Longrightarrow> \<exists>pos' \<le> len. f (End, pos) = p_fail pos'"
  shows "sound len H P (p_bind next_token f)"
proof (rule soundI)
  fix ts as assume ts: "closed_by_end len ts" "H (hd ts)"
  from ts(1) obtain t pos us where u: "ts = (t, pos) # us" "pos \<le> len" "t = End \<longleftrightarrow> us = []"
    "us \<noteq> [] \<Longrightarrow> closed_by_end len us"
    by (rule closed_cases) auto
  have step: "p_bind next_token f (ts, as) = f (t, pos) (us, as)"
    by (simp add: p_bind_def next_token_def u)
  show "good len (length ts) P (p_bind next_token f (ts, as))"
  proof (cases "t = End")
    case True
    then show ?thesis using assms(2) [of pos] ts(2) u step by (auto simp: p_fail_def)
  next
    case False
    then have "good len (length us) P (f (t, pos) (us, as))" using assms(1) ts(2) u by (auto intro: soundD)
    then show ?thesis unfolding step by (rule good_weaken) (simp_all add: u)
  qed
qed

lemma sound_accept [sound_rules]: "t \<noteq> End \<Longrightarrow> sound len H (\<lambda>_. True) (p_accept t)"
  unfolding p_accept_def
  by (rule sound_peek_bind) (auto intro!: sound_next_bind sound_ret)

lemma sound_expect [sound_rules]: "t \<noteq> End \<Longrightarrow> sound len H (\<lambda>pos. pos \<le> len) (p_expect t)"
  unfolding p_expect_def
  by (rule sound_peek_bind) (auto intro!: sound_next_bind sound_ret sound_fail)

lemma length_accept:
  "closed_by_end len ts \<Longrightarrow> t \<noteq> End \<Longrightarrow> p_accept t (ts, as) = Inr (True, (us, bs)) \<Longrightarrow> length us < length ts"
  by (cases ts) (auto simp: p_accept_def p_bind_def peek_def next_token_def p_ret_def split: if_splits)

lemma sound_chain:
  assumes p: "sound len (\<lambda>_. True) P p" and sep: "sep \<noteq> End"
  shows "closed_by_end len ts \<Longrightarrow> length ts \<le> n \<Longrightarrow> good len (length ts) (list_all P) (p_chain n sep p (ts, as))"
proof (induction n arbitrary: ts as)
  case (Suc n)
  have acc: "good len (length ts) (\<lambda>_. True) (p_accept sep (ts, as))"
    using sound_accept [OF sep] Suc.prems(1) by (rule soundD) simp
  show ?case
  proof (cases "p_accept sep (ts, as)")
    case (Inr y)
    obtain b us bs where y: "y = (b, us, bs)" by (metis prod.collapse)
    show ?thesis
    proof (cases b)
      case True
      have us: "closed_by_end len us" "length us \<le> n" "length us < length ts"
        using acc Inr y True length_accept [OF Suc.prems(1) sep] Suc.prems(2) by fastforce+
      have item: "good len (length us) P (p (us, bs))" using p us(1) by (rule soundD) simp
      show ?thesis
      proof (cases "p (us, bs)")
        case (Inr z)
        obtain x vs cs where z: "z = (x, vs, cs)" by (metis prod.collapse)
        have vs: "closed_by_end len vs" "length vs \<le> length us" "P x" using item Inr z by auto
        have "good len (length vs) (list_all P) (p_chain n sep p (vs, cs))"
          using Suc.IH vs us(2) by fastforce
        then show ?thesis using \<open>p_accept sep (ts, as) = Inr y\<close> y True Inr z vs us
          by (auto simp: p_bind_def p_ret_def good_def split: sum.splits)
      qed (use item \<open>p_accept sep (ts, as) = Inr y\<close> y True in \<open>simp add: p_bind_def\<close>)
    qed (use acc Inr y in \<open>simp add: p_bind_def p_ret_def\<close>)
  qed (use acc in \<open>simp add: p_bind_def\<close>)
qed (use closed_by_end_def in auto)

lemma sound_separated:
  assumes "sound len H P p" "sound len (\<lambda>_. True) P p" "sep \<noteq> End"
  shows "sound len H (\<lambda>xs. xs \<noteq> [] \<and> list_all P xs) (p_separated sep p)"
  unfolding p_separated_def
proof (rule sound_bind [OF assms(1)], rule sound_bind [where Q = "list_all P"])
  show "sound len (\<lambda>_. True) (list_all P) (\<lambda>st. p_chain (length (fst st)) sep p st)"
    using sound_chain [OF assms(2,3)] by (auto intro: soundI)
qed (auto intro: sound_ret)

lemma fail_inside: "pos \<le> len \<Longrightarrow> \<exists>pos' \<le> len. p_fail pos = p_fail pos'"
  by blast

section \<open>Literals\<close>

lemma sound_literal [sound_rules]: "sound len H (\<lambda>_. True) parse_literal"
  unfolding parse_literal_def
  by (rule sound_next_bind) (auto split: tok.splits intro: sound_ret sound_fail)

lemma sound_literal_list: "sound len H (\<lambda>ls. ls \<noteq> []) parse_literal_list"
  unfolding parse_literal_list_def
  by (rule sound_bind [OF sound_expect] sound_bind [OF sound_separated [OF sound_literal sound_literal]]
      sound_ret | simp)+

text \<open>The bracket, seen already, is taken first.\<close>

lemma sound_skip:
  assumes "\<And>v. H v \<Longrightarrow> fst v \<noteq> End" "sound len (\<lambda>_. True) P q"
  shows "sound len H P (p_bind next_token (\<lambda>_. q))"
proof (rule sound_next_bind)
  show "\<exists>pos' \<le> len. q = p_fail pos'" if "H (End, pos)" for pos
    using assms(1) [OF that] by simp
qed (use assms in auto)

lemma sound_call:
  assumes "\<And>v. H v \<Longrightarrow> fst v \<noteq> End" "name \<in> set CALLS"
  shows "sound len H (shallow 0) (parse_call name)"
  unfolding parse_call_def
  using assms
  by (intro sound_skip sound_next_bind)
    (auto split: tok.splits lit.splits intro!: sound_fail sound_ret sound_bind [OF sound_expect])

lemma sound_ago:
  assumes "\<And>v. H v \<Longrightarrow> fst v \<noteq> End"
  shows "sound len H (\<lambda>_. s \<in> set ORDERED) (parse_ago s)"
proof -
  have note_ago: "sound len (\<lambda>_. True) (\<lambda>_. True) (note_ago a)" for a
    by (auto intro!: soundI simp: note_ago_def)
  have not_end: "\<not> H (End, pos)" for pos using assms [of "(End, pos)"] by auto
  show ?thesis
    unfolding parse_ago_def
    by (rule sound_next_bind)
      (auto intro!: sound_fail sound_ret sound_bind [OF sound_expect] sound_next_bind sound_bind [OF note_ago]
         simp: not_end split: option.splits)
qed

section \<open>Fields\<close>

lemma nested_field_result:
  "nested_field p k s pos = Inl (Query_Error pos) \<or> (\<exists>f. nested_field p k s pos = Inr f \<and> wf_field f)"
  by (auto simp: nested_field_def wf_path_def split: option.splits)

lemma plain_field_result:
  "plain_field name pos = Inl (Query_Error pos) \<or> (\<exists>f. plain_field name pos = Inr f \<and> wf_field f)"
proof (cases name)
  case (Plain s)
  show ?thesis
    using nested_field_result set_split_char [of _ "CHR ''.''" s]
    by (auto simp: plain_field_def Plain wf_path_def split: list.splits)
qed (use nested_field_result in \<open>auto simp: plain_field_def wf_path_def\<close>)

lemma field_node_result:
  "field_node name pos = Inl (Query_Error pos) \<or> (\<exists>f. field_node name pos = Inr f \<and> wf_field f)"
proof (induction name pos rule: field_node.induct)
  case (1 name pos)
  show ?case
  proof (cases "without_up name")
    case (Some inner)
    have step: "field_node name pos = map_sum id (Up None) (bind_qres (field_node inner pos) (readable_path pos))"
      by (subst field_node.simps) (simp add: Some)
    from 1 [OF Some] show ?thesis unfolding step by (auto simp: bind_qres_def readable_path_def split: field.splits)
  next
    case None
    have step: "field_node name pos = plain_field name pos" by (subst field_node.simps) (simp add: None)
    show ?thesis unfolding step by (rule plain_field_result)
  qed
qed

lemma readable_path_result:
  "readable_path pos f = Inl (Query_Error pos) \<or> (\<exists>ks. readable_path pos f = Inr ks \<and> up_readable ks)"
  by (cases f) (simp_all add: readable_path_def)

lemma readable_keys_result:
  "readable_keys name pos = Inl (Query_Error pos) \<or> (\<exists>ks. readable_keys name pos = Inr ks \<and> up_readable ks)"
  using field_node_result [of name pos] readable_path_result
  by (elim disjE exE conjE) (simp_all add: readable_keys_def bind_qres_def)

lemma sound_readable: "pos \<le> len \<Longrightarrow> sound len H up_readable (p_lift (readable_keys n pos))"
  using readable_keys_result [of n pos] by (intro sound_lift) auto

lemma sound_up:
  assumes "\<And>v. H v \<Longrightarrow> fst v \<noteq> End"
  shows "sound len H wf_field parse_up"
proof -
  have field: "sound len (\<lambda>_. True) wf_field (p_lift (up_field (Some (ks, l)) m pos))"
    if "up_readable ks" "l \<noteq> Null" "pos \<le> len" for ks l m pos
    using that readable_keys_result [of m pos] by (intro sound_lift) (auto simp: up_field_def)
  show ?thesis
    unfolding parse_up_def
    by (rule sound_skip [OF assms], assumption, rule sound_next_bind)
      (auto intro!: sound_fail sound_next_bind sound_bind [OF sound_expect] sound_bind [OF sound_literal]
        sound_bind [OF sound_readable] field fail_inside split: tok.splits)
qed

lemma sound_field_of: "pos \<le> len \<Longrightarrow> sound len H wf_field (field_of name pos)"
  unfolding field_of_def
  using field_node_result [of name pos]
  by (intro sound_peek_bind) (auto intro!: sound_up sound_lift split: if_splits)

section \<open>Comparisons\<close>

lemma ordered_operators: "map_of COMPARISONS s = Some op \<Longrightarrow> s \<in> set ORDERED \<Longrightarrow> op \<notin> {Like, Unlike}"
  by (auto simp: COMPARISONS_def ORDERED_def split: if_splits)

lemma sound_operand:
  assumes "wf_field f" "pos \<le> len" "map_of COMPARISONS s = Some op"
  shows "sound len H (shallow 0) (parse_operand f s op pos)"
  unfolding parse_operand_def
  using assms ordered_operators [OF assms(3)]
  by (intro sound_peek_bind)
    (auto intro!: sound_fail sound_ret sound_bind [OF sound_literal] sound_bind [OF sound_ago])

lemma operator_of_Some: "operator_of t = Some (s, op) \<Longrightarrow> map_of COMPARISONS s = Some op"
  by (auto simp: operator_of_def split: tok.splits)

lemma operator_of_End [simp]: "operator_of End = None"
  by (simp add: operator_of_def)

lemma sound_relation: "wf_field f \<Longrightarrow> sound len H (shallow (Suc 0)) (parse_relation f)"
  unfolding parse_relation_def
  by (auto intro!: sound_bind [OF sound_accept] sound_bind [OF sound_literal_list] sound_peek_bind sound_fail
      sound_ret sound_skip sound_mono [OF sound_operand [OF _ _ operator_of_Some]] split: option.splits)
    (auto intro: shallow_Suc)

lemma call_of_Some: "call_of name = Some c \<Longrightarrow> c \<in> set CALLS"
  by (auto simp: call_of_def split: field_name.splits if_splits)

lemma sound_call_1:
  "(\<And>v. H v \<Longrightarrow> fst v \<noteq> End) \<Longrightarrow> name \<in> set CALLS \<Longrightarrow> sound len H (shallow (Suc 0)) (parse_call name)"
  by (rule sound_mono [OF sound_call]) (auto intro: shallow_mono)

lemma sound_comparison: "sound len H (shallow (Suc 0)) parse_comparison"
proof -
  have rest: "sound len (\<lambda>_. True) (shallow (Suc 0)) (p_bind peek (\<lambda>u.
      case (if fst u = Punct (CHR ''('') then call_of name else None) of
        Some call \<Rightarrow> parse_call call | None \<Rightarrow> p_bind (field_of name pos) parse_relation))"
    if "pos \<le> len" for name pos
    using that
    by (intro sound_peek_bind)
      (auto intro!: sound_call_1 sound_bind [OF sound_field_of] sound_relation dest: call_of_Some
        split: option.splits if_splits)
  show ?thesis
    unfolding parse_comparison_def
    by (rule sound_peek_bind) (auto intro!: sound_skip rest sound_fail split: tok.splits)
qed

section \<open>Combinations\<close>

lemma sound_flat:
  assumes "C = And \<or> C = Or" "\<And>H. sound len H (shallow h) p" "sep \<noteq> End"
  shows "sound len H (shallow (Suc h)) (p_bind (p_separated sep p) (\<lambda>ts. p_ret (flat C ts)))"
  using shallow_flat [OF assms(1)]
  by (intro sound_bind [OF sound_separated [OF assms(2,2,3)]] sound_ret) auto

lemma sound_or:
  assumes "\<And>H. sound len H (shallow h) p"
  shows "sound len H (shallow (Suc (Suc h))) (parse_or p)"
  unfolding parse_or_def parse_and_def using assms by (intro sound_flat) auto

lemma sound_nested:
  assumes "\<And>H. sound len H (shallow h) p"
  shows "sound len H (shallow (Suc (Suc h))) (parse_nested p)"
  unfolding parse_nested_def
  by (auto intro!: sound_bind [OF sound_accept] sound_bind [OF sound_expect] sound_bind [OF assms]
      sound_bind [OF sound_or [OF assms]] sound_ret)
    (auto intro: shallow_Suc)

lemma sound_not: "sound len H (shallow (2 * k + 1)) (parse_not k)"
proof (induction k arbitrary: H)
  case 0
  show ?case by (auto intro!: sound_peek_bind sound_fail sound_comparison)
next
  case (Suc k)
  have "sound len K (shallow (2 * Suc k + 1)) (parse_nested (parse_not k))"
    "sound len K (shallow (2 * Suc k + 1)) parse_comparison" for K
    using sound_nested [OF Suc] sound_mono [OF sound_comparison shallow_mono] by simp_all
  then show ?case by (auto intro!: sound_peek_bind)
qed

lemma sound_tokens: "sound len H (shallow (2 * MAX_NESTING + 3)) parse_tokens"
proof -
  have "sound len H (shallow (2 * MAX_NESTING + 3)) (parse_or (parse_not MAX_NESTING))"
    by (rule sound_mono [OF sound_or [OF sound_not]]) (simp add: numeral_3_eq_3)
  then show ?thesis unfolding parse_tokens_def
    by (rule sound_bind) (auto intro!: sound_peek_bind sound_ret sound_fail)
qed

section \<open>Tokens\<close>

lemma lex_string_error: "lex_string (c # cs) pos = Inl e \<Longrightarrow> e = Query_Error pos"
  by (auto simp: lex_string_def Let_def split: if_splits)

lemma lex_number_tok: "lex_number s pos = Inr (t, n) \<Longrightarrow> \<exists>x. t = Lit (Num x)"
  by (auto simp: lex_number_def Let_def split: option.splits)

lemma lex_number_error: "lex_number s pos = Inl e \<Longrightarrow> e = Query_Error pos"
  by (auto simp: lex_number_def Let_def split: option.splits)

lemma lex_name_tok: "lex_name s pos = Inr (t, n) \<Longrightarrow> (\<exists>f. t = Name f) \<or> (\<exists>k \<in> set KEYWORDS. t = Kw k)"
  by (auto simp: lex_name_def Let_def split: sum.splits prod.splits if_splits)

lemma lex_name_error:
  assumes "lex_name s pos = Inl e"
  shows "\<exists>pos' \<le> pos + length s. e = Query_Error pos'"
proof -
  define raw where "raw = takeWhile name_char s"
  have "drop (length raw) s \<noteq> []" "lex_string (drop (length raw) s) (pos + length raw) = Inl e"
    using assms unfolding lex_name_def raw_def [symmetric] Let_def
    by (auto split: sum.splits prod.splits if_splits)
  then have "e = Query_Error (pos + length raw)" by (metis lex_string_error neq_Nil_conv)
  then show ?thesis using length_takeWhile_le [of name_char s] by (auto simp: raw_def)
qed

lemma map_sum_Inl_iff: "map_sum id f r = Inl e \<longleftrightarrow> r = Inl e"
  by (cases r) auto

lemma lex_one_outcome:
  assumes "s \<noteq> []"
  shows "case lex_one s pos of Inl e \<Rightarrow> \<exists>pos' \<le> pos + length s. e = Query_Error pos'
    | Inr (t, n) \<Rightarrow> (\<forall>u off. t = Some (u, off) \<longrightarrow> u \<noteq> End \<and> off \<le> pos + n)"
proof (cases "lex_one s pos")
  case (Inl e)
  obtain c cs where s: "s = c # cs" using assms by (cases s) auto
  have name: "\<exists>pos' \<le> Suc (pos + length cs). e = Query_Error pos'" if "lex_name cs (Suc pos) = Inl e"
    using lex_name_error [OF that] by auto
  have "\<exists>pos' \<le> pos + length s. e = Query_Error pos'"
    using Inl name lex_name_error [of "c # cs" pos e] lex_string_error lex_number_error
    by (fastforce simp: lex_one_def s map_sum_Inl_iff simp del: set_simps split: if_split_asm option.splits)
  then show ?thesis by (simp add: Inl)
next
  case (Inr y)
  obtain t n where y: "y = (t, n)" by fastforce
  obtain c cs where s: "s = c # cs" using assms by (cases s) auto
  show ?thesis
    using Inr unfolding y s
    by (auto elim!: lex_one_cases dest!: lex_number_tok lex_name_tok simp: dotted_def)
qed

lemma tokenize_from_outcome:
  "case tokenize_from s pos of Inl e \<Rightarrow> \<exists>pos' \<le> pos + length s. e = Query_Error pos'
   | Inr ts \<Rightarrow> closed_by_end (pos + length s) ts"
proof (induction s pos rule: tokenize_from.induct)
  case (1 s pos)
  show ?case
  proof (cases "s = []")
    case True
    then show ?thesis by (simp add: tokenize_from.simps closed_by_end_def)
  next
    case False
    show ?thesis
    proof (cases "lex_one s pos")
      case (Inl e)
      then show ?thesis using lex_one_outcome [OF False, of pos] False by (simp add: tokenize_from.simps [of s pos])
    next
      case (Inr y)
      obtain t n where y: "y = (t, n)" by fastforce
      have n: "0 < n" "n \<le> length s" using lex_one_length Inr y by blast+
      have len: "pos + n + length (drop n s) = pos + length s" using n by simp
      have t: "u \<noteq> End \<and> off \<le> pos + length s" if "t = Some (u, off)" for u off
        using lex_one_outcome [OF False, of pos] Inr y that n(2) by fastforce
      show ?thesis using 1 [OF False Inr y [symmetric]] t unfolding len
        by (subst tokenize_from.simps)
          (auto simp: False Inr y closed_by_end_def split: sum.splits option.splits)
    qed
  qed
qed

lemma tokenize_outcome:
  "case tokenize text of Inl e \<Rightarrow> \<exists>pos \<le> length text. e = Query_Error pos
   | Inr ts \<Rightarrow> closed_by_end (length text) ts"
  using tokenize_from_outcome [where s = "text" and pos = 0] by (simp only: tokenize_def add_0)

lemma parsed_good:
  "case parsed text of
     Inl e \<Rightarrow> \<exists>pos \<le> length text. e = Query_Error pos
   | Inr (tree, agos) \<Rightarrow> wf_node tree \<and> height tree \<le> 2 * MAX_NESTING + 3"
proof (cases "tokenize text")
  case (Inl e)
  then show ?thesis using tokenize_outcome [of "text"] by (simp add: parsed_def bind_qres_def)
next
  case (Inr ts)
  have "closed_by_end (length text) ts" using tokenize_outcome [of "text"] Inr by simp
  from soundD [OF sound_tokens this TrueI, of "[]"] show ?thesis
    by (auto simp: parsed_def bind_qres_def Inr shallow_def good_def split: sum.splits prod.splits)
qed

lemma parse_query_wf: "parse_query iso_before text = Inr tree \<Longrightarrow> wf_node tree"
  using parsed_good
  by (fastforce simp: parse_query_def bind_qres_def map_sum_Inr_iff split: if_splits sum.splits prod.splits)

lemma parse_query_good:
  "case parse_query iso_before text of
     Inl e \<Rightarrow> e = Empty_Query \<or> (\<exists>pos. e = Query_Error pos) \<or> (\<exists>seconds. iso_before seconds = Inl e)
   | Inr tree \<Rightarrow> wf_node tree \<and> height tree \<le> 2 * MAX_NESTING + 3"
proof -
  have spans: "pin_spans iso_before t agos off = Inl e \<Longrightarrow> \<exists>seconds. iso_before seconds = Inl e" for t agos off e
    by (induction iso_before t agos off rule: pin_spans.induct) (auto simp: bind_qres_def map_sum_Inl_iff split: sum.splits)
  have pinned: "pin_ago iso_before text = Inl e \<Longrightarrow> (\<exists>pos. e = Query_Error pos) \<or> (\<exists>seconds. iso_before seconds = Inl e)" for e
    using parsed_good [of "text"] spans
    by (fastforce simp: pin_ago_def bind_qres_def split: if_splits sum.splits prod.splits)
  show ?thesis
  proof (cases "str_strip text = []")
    case False
    show ?thesis
    proof (cases "pin_ago iso_before text")
      case (Inl e)
      then show ?thesis using False pinned by (simp add: parse_query_def bind_qres_def)
    next
      case (Inr t)
      then show ?thesis using False parsed_good [of t]
        by (auto simp: parse_query_def bind_qres_def split: sum.splits prod.splits)
    qed
  qed (simp add: parse_query_def)
qed

definition within_python_limits :: "string \<Rightarrow> bool" where
  \<comment> \<open>no number past the 4300 digits \<open>int\<close> reads, and no run of \<open>up.\<close> prefixes, three frames each, that
    would use up the interpreter's stack\<close>
  "within_python_limits text = (length text \<le> 4300 \<and> \<not> contains_str (concat (replicate 50 ''up.'')) text)"

text \<open>
  C23. For a text of at most 4300 characters without fifty \<open>up.\<close> prefixes in a row (beyond, limits of
  the interpreter that the model does not have raise errors of their own), reading it as a query always
  comes to an end. The parser raises \<open>QueryError\<close> at an offset inside the text or returns a tree; the
  public function, which replaces every \<open>ago(...)\<close> by a time of the clock and reads the result, raises
  the error for an empty query, a \<open>QueryError\<close> or an error of the clock, or returns a tree. In both
  cases the tree is well formed: every field is one that rows have, every substring comparison is with
  a string, every chain has two terms or more; and it is at most 203 levels high.
\<close>

theorem parsed_outcome:
  assumes "within_python_limits text"
  shows "(case parsed text of
     Inl e \<Rightarrow> \<exists>pos \<le> length text. e = Query_Error pos
   | Inr (tree, agos) \<Rightarrow> wf_node tree \<and> height tree \<le> 2 * MAX_NESTING + 3)
   \<and> (case parse_query iso_before text of
     Inl e \<Rightarrow> e = Empty_Query \<or> (\<exists>pos. e = Query_Error pos) \<or> (\<exists>seconds. iso_before seconds = Inl e)
   | Inr tree \<Rightarrow> wf_node tree \<and> height tree \<le> 2 * MAX_NESTING + 3)"
  by (intro conjI parsed_good parse_query_good)

definition still_clock :: "int \<Rightarrow> string qres" where
  "still_clock seconds = Inr ''2026-01-01T00:00:00Z''"

theorem parsed_outcome_witness:
  "(case parsed ''idx < 3'' of
     Inl e \<Rightarrow> \<exists>pos \<le> length ''idx < 3''. e = Query_Error pos
   | Inr (tree, agos) \<Rightarrow> wf_node tree \<and> height tree \<le> 2 * MAX_NESTING + 3)
   \<and> (case parse_query still_clock ''idx < 3'' of
     Inl e \<Rightarrow> e = Empty_Query \<or> (\<exists>pos. e = Query_Error pos) \<or> (\<exists>seconds. still_clock seconds = Inl e)
   | Inr tree \<Rightarrow> wf_node tree \<and> height tree \<le> 2 * MAX_NESTING + 3)"
  by (rule parsed_outcome) (simp add: within_python_limits_def contains_str_iff numeral_eq_Suc)

text \<open>
  Two things the messages and the documentation do not say. The offset of an error in the field
  after \<open>up(...)\<close> is the one past the field; and a duration that the
  clock's arithmetic overflows on, one before the first year, is not a \<open>QueryError\<close>; here with a clock
  that reaches back a week.
\<close>

lemma dotted_offset_is_its_end:
  "parsed ''up(name = 1).status'' = Inl (Query_Error (length ''up(name = 1).status''))"
  by code_simp

lemma ago_overflow_is_no_query_error:
  "parse_query (\<lambda>seconds. if seconds < 600000 then Inr ''2026-01-01T00:00:00Z'' else Inl Overflow_Error)
     ''timestamp < ago(\"9d\")'' = Inl Overflow_Error"
  by code_simp

end
