(* ===== verification/Query_Eval.thy ===== *)
theory Query_Eval
imports Query_Laws "HOL-Library.Char_ord" "HOL-Library.List_Lexorder" "HOL-Library.Multiset"
begin

text \<open>
  Evaluating a query on rows, from core/query.py and core/query_up.py: the values a row holds, the
  comparisons, the predicate a tree compiles to, and the filter over a listing. Reading a field of
  something that is not a dictionary raises, as in the program; the laws show that it does not
  happen on the rows the program builds.
\<close>

section \<open>Values\<close>

datatype pv =
    PNull
  | PBool bool
  | PNum rat
  | PStr string
  | PList "pv list"
  | PDict "(string \<times> pv) list"

definition p_truthy :: "pv \<Rightarrow> bool" where
  "p_truthy v =
     (case v of PNull \<Rightarrow> False | PBool b \<Rightarrow> b | PNum x \<Rightarrow> x \<noteq> 0 | PStr s \<Rightarrow> s \<noteq> [] | PList xs \<Rightarrow> xs \<noteq> []
      | PDict m \<Rightarrow> m \<noteq> [])"

definition p_get :: "pv \<Rightarrow> string \<Rightarrow> pv res" where
  \<comment> \<open>\<open>(v or {}).get(key)\<close>\<close>
  "p_get v key =
     (if \<not> p_truthy v then Inr PNull
      else case v of PDict m \<Rightarrow> Inr (case map_of m key of None \<Rightarrow> PNull | Some w \<Rightarrow> w) | _ \<Rightarrow> Inl AttributeErr)"

fun dig :: "pv \<Rightarrow> string list \<Rightarrow> pv res" where
  "dig v [] = Inr v"
| "dig v (k # ks) = bind_res (p_get v k) (\<lambda>w. dig w ks)"

section \<open>Comparisons\<close>

fun q_equal :: "pv \<Rightarrow> lit \<Rightarrow> bool" where
  \<comment> \<open>None only equals None, a boolean only a boolean\<close>
  "q_equal v Null = (v = PNull)"
| "q_equal v (Bool b) = (v = PBool b)"
| "q_equal v (Num x) = (v = PNum x)"
| "q_equal v (Str s) = (v = PStr s)"

definition q_ordered :: "(rat \<Rightarrow> rat \<Rightarrow> bool) \<Rightarrow> (string \<Rightarrow> string \<Rightarrow> bool) \<Rightarrow> pv \<Rightarrow> lit \<Rightarrow> bool" where
  \<comment> \<open>the comparison, of numbers or of strings; unlike types never order\<close>
  "q_ordered on_num on_str v l =
     (case (v, l) of (PNum x, Num y) \<Rightarrow> on_num x y | (PStr s, Str t) \<Rightarrow> on_str s t | _ \<Rightarrow> False)"

definition str_holds :: "string \<Rightarrow> pv \<Rightarrow> bool" where
  "str_holds sub v = (case v of PStr s \<Rightarrow> contains_str (py_lower sub) (py_lower s) | _ \<Rightarrow> False)"

definition q_contains :: "pv \<Rightarrow> lit \<Rightarrow> bool" where
  \<comment> \<open>lists and dictionaries hold a string if one of their own does; the right side is a string\<close>
  "q_contains v l =
     (case l of
        Str sub \<Rightarrow> (case v of PDict m \<Rightarrow> list_ex (str_holds sub) (map snd m)
                    | PList xs \<Rightarrow> list_ex (str_holds sub) xs
                    | _ \<Rightarrow> str_holds sub v)
      | _ \<Rightarrow> False)"

fun compare :: "cmp_op \<Rightarrow> pv \<Rightarrow> lit \<Rightarrow> bool" where
  "compare Eq v l = q_equal v l"
| "compare Ne v l = (\<not> q_equal v l)"
| "compare Lt v l = q_ordered (<) (<) v l"
| "compare Le v l = q_ordered (\<le>) (\<le>) v l"
| "compare Gt v l = q_ordered (>) (>) v l"
| "compare Ge v l = q_ordered (\<ge>) (\<ge>) v l"
| "compare Like v l = q_contains v l"
| "compare Unlike v l = (\<not> q_contains v l)"

section \<open>Rows\<close>

record query_row =
  row_fields :: "(string \<times> pv) list"
  row_ancestors :: "string list"
  row_similar :: "string list"                          \<comment> \<open>the \<open>similar()\<close> texts it matches\<close>
  row_up :: "(field \<Rightarrow> pv) option"                     \<comment> \<open>its reader of \<open>up\<close> fields\<close>

definition env_packages :: "query_row \<Rightarrow> string \<Rightarrow> pv res" where
  \<comment> \<open>the package of \<open>_env_packages(row)\<close>\<close>
  "env_packages row k =
     bind_res (dig (PDict (row_fields row)) [''env'', ''packages'']) (\<lambda>p.
       if p_truthy p then p_get p k
       else bind_res (dig (PDict (row_fields row)) [''env'', ''key_packages'']) (\<lambda>q. p_get q k))"

definition getter :: "field \<Rightarrow> query_row \<Rightarrow> pv res" where
  "getter f row =
     (case f of
        Up selector keys \<Rightarrow> Inr (case row_up row of None \<Rightarrow> PNull | Some reader \<Rightarrow> reader f)
      | Env_Packages k \<Rightarrow> env_packages row k
      | Path keys \<Rightarrow> dig (PDict (row_fields row)) keys)"

section \<open>The predicate\<close>

fun predicate :: "node \<Rightarrow> query_row \<Rightarrow> bool res"
  and any_of :: "node list \<Rightarrow> query_row \<Rightarrow> bool res"
  and all_of :: "node list \<Rightarrow> query_row \<Rightarrow> bool res" where
  "predicate (Or ts) row = any_of ts row"
| "predicate (And ts) row = all_of ts row"
| "predicate (Not t) row = map_sum id HOL.Not (predicate t row)"
| "predicate (In f ls) row = (if ls = [] then Inr False else map_sum id (\<lambda>v. list_ex (q_equal v) ls) (getter f row))"
| "predicate (Cmp f op l) row = map_sum id (\<lambda>v. compare op v l) (getter f row)"
| "predicate (Under v) row = Inr (v \<in> set (row_ancestors row))"
| "predicate (Similar s) row = Inr (s \<in> set (row_similar row))"
| "any_of [] row = Inr False"
| "any_of (t # ts) row = bind_res (predicate t row) (\<lambda>b. if b then Inr True else any_of ts row)"
| "all_of [] row = Inr True"
| "all_of (t # ts) row = bind_res (predicate t row) (\<lambda>b. if b then all_of ts row else Inr False)"

section \<open>Filtering a listing\<close>

record query_extra =
  ex_ancestors :: "string \<Rightarrow> string list"
  ex_similar :: "string \<Rightarrow> string list"
  ex_up :: "string \<Rightarrow> field \<Rightarrow> pv"
  ex_system :: "(string \<Rightarrow> (string \<times> pv) list) option"
  ex_fields :: "(string \<times> (string \<Rightarrow> pv)) list"      \<comment> \<open>the fields kept off lean rows\<close>

definition put_missing :: "string set \<Rightarrow> string \<Rightarrow> string \<times> (string \<Rightarrow> pv) \<Rightarrow> (string \<times> pv) list \<Rightarrow> (string \<times> pv) list" where
  "put_missing roots verstr kf row =
     (if fst kf \<in> roots \<and> map_of row (fst kf) = None then od_put (fst kf) (snd kf verstr) row else row)"

definition merged_metrics :: "(string \<times> pv) list \<Rightarrow> (string \<times> pv) list \<Rightarrow> pv res" where
  \<comment> \<open>\<open>{**row.get("metrics", {}), **system}\<close>\<close>
  "merged_metrics row system =
     (case map_of row ''metrics'' of
        None \<Rightarrow> Inr (PDict system)
      | Some (PDict m) \<Rightarrow> Inr (PDict (fold (\<lambda>(k, v). od_put k v) system m))
      | Some _ \<Rightarrow> Inl TypeErr)"

definition complete_row :: "string set \<Rightarrow> bool \<Rightarrow> query_extra \<Rightarrow> (string \<times> pv) list \<Rightarrow> query_row res" where
  \<comment> \<open>\<open>_completing\<close>: the row with what the query reads, for evaluating only\<close>
  "complete_row roots systems ex row =
     (case map_of row ''verstr'' of
        Some (PStr verstr) \<Rightarrow>
          (let base = fold (put_missing roots verstr) (ex_fields ex) row;
               system = (if systems then (case ex_system ex of None \<Rightarrow> [] | Some of_run \<Rightarrow> of_run verstr) else [])
           in bind_res (if system = [] then Inr base
                        else map_sum id (\<lambda>m. od_put ''metrics'' m base) (merged_metrics row system)) (\<lambda>fields.
              Inr \<lparr>row_fields = fields, row_ancestors = ex_ancestors ex verstr, row_similar = ex_similar ex verstr,
                   row_up = Some (ex_up ex verstr)\<rparr>))
      | _ \<Rightarrow> Inl KeyErr)"

fun filter_res :: "('a \<Rightarrow> bool res) \<Rightarrow> 'a list \<Rightarrow> 'a list res" where
  "filter_res f [] = Inr []"
| "filter_res f (x # xs) = bind_res (f x) (\<lambda>b. map_sum id (\<lambda>ys. if b then x # ys else ys) (filter_res f xs))"

datatype 'a answer = Bad_Query query_exn | Raised exn | Rows 'a

definition matching_rows :: "string set \<Rightarrow> bool \<Rightarrow> query_extra \<Rightarrow> node \<Rightarrow> (string \<times> pv) list list \<Rightarrow> (string \<times> pv) list list res" where
  "matching_rows roots systems ex tree rows =
     filter_res (\<lambda>row. bind_res (complete_row roots systems ex row) (predicate tree)) rows"

definition filter_rows ::
    "(int \<Rightarrow> string qres) \<Rightarrow> query_extra \<Rightarrow> (string \<times> pv) list list \<Rightarrow> string \<Rightarrow> (string \<times> pv) list list answer" where
  "filter_rows iso_before ex rows text =
     (if str_strip text = [] then Rows rows
      else case bind_qres (parse_query iso_before text) (\<lambda>tree.
             bind_qres (query_roots text) (\<lambda>roots. map_sum id (\<lambda>s. (tree, roots, s)) (reads_system_metrics text))) of
        Inl e \<Rightarrow> Bad_Query e
      | Inr (tree, roots, systems) \<Rightarrow>
          (case matching_rows roots systems ex tree rows of Inl e \<Rightarrow> Raised e | Inr ys \<Rightarrow> Rows ys))"

section \<open>Rows of the program\<close>

definition dict_like :: "pv \<Rightarrow> bool" where
  "dict_like v = (v = PNull \<or> (\<exists>m. v = PDict m))"

definition field_value :: "(string \<times> pv) list \<Rightarrow> string \<Rightarrow> pv" where
  "field_value row k = (case map_of row k of None \<Rightarrow> PNull | Some v \<Rightarrow> v)"

definition ok_field :: "string \<Rightarrow> pv \<Rightarrow> bool" where
  \<comment> \<open>the dotted prefixes hold dictionaries, two of them dictionaries of dictionaries\<close>
  "ok_field k v =
     ((k \<in> set DICT_PREFIXES \<longrightarrow> dict_like v)
      \<and> (k \<in> fst ` set NESTED_SUBFIELDS \<longrightarrow> v = PNull \<or> (\<exists>m. v = PDict m \<and> (\<forall>w \<in> snd ` set m. dict_like w)))
      \<and> (k = ''env'' \<longrightarrow> (\<forall>m. v = PDict m \<longrightarrow>
            dict_like (field_value m ''packages'') \<and> dict_like (field_value m ''key_packages'')))
      \<and> (k = ''metrics'' \<longrightarrow> v \<noteq> PNull)
      \<and> (k = ''verstr'' \<longrightarrow> (\<exists>s. v = PStr s)))"

definition wf_row :: "(string \<times> pv) list \<Rightarrow> bool" where
  "wf_row row = ((\<forall>(k, v) \<in> set row. ok_field k v) \<and> map_of row ''verstr'' \<noteq> None)"

definition wf_extra :: "query_extra \<Rightarrow> bool" where
  "wf_extra ex = (\<forall>(k, f) \<in> set (ex_fields ex). \<forall>v. ok_field k (f v))"

lemma wf_rowD: "wf_row row \<Longrightarrow> map_of row k = Some v \<Longrightarrow> ok_field k v"
  by (auto simp: wf_row_def dest: map_of_SomeD)

lemma set_od_put: "set (od_put k v xs) \<subseteq> insert (k, v) (set xs)"
  by (induction xs) (auto split: if_splits)

lemma wf_row_put: "wf_row row \<Longrightarrow> ok_field k v \<Longrightarrow> wf_row (od_put k v row)"
  using set_od_put [of k v row] by (fastforce simp: wf_row_def)

lemma wf_row_missing: "wf_row row \<Longrightarrow> \<forall>v. ok_field (fst kf) (snd kf v) \<Longrightarrow> wf_row (put_missing roots verstr kf row)"
  by (simp add: put_missing_def wf_row_put)

lemma wf_row_fold:
  "wf_row row \<Longrightarrow> \<forall>(k, f) \<in> set kfs. \<forall>v. ok_field k (f v) \<Longrightarrow> wf_row (fold (put_missing roots verstr) kfs row)"
  by (induction kfs arbitrary: row) (auto simp: wf_row_missing)

lemma p_get_simps [simp]: "p_get PNull k = Inr PNull" "p_get (PDict m) k = Inr (field_value m k)"
  by (auto simp: p_get_def p_truthy_def field_value_def)

lemma p_get_dict_like: "dict_like v \<Longrightarrow> \<exists>w. p_get v k = Inr w"
  by (auto simp: dict_like_def)

lemma complete_row_wf:
  assumes "wf_row row" "wf_extra ex"
  obtains r where "complete_row roots systems ex row = Inr r" "wf_row (row_fields r)"
proof -
  from assms(1) obtain verstr where v: "map_of row ''verstr'' = Some (PStr verstr)"
    using wf_rowD [OF assms(1), of "''verstr''"] by (auto simp: wf_row_def ok_field_def)
  define base where "base = fold (put_missing roots verstr) (ex_fields ex) row"
  define system where "system = (if systems then (case ex_system ex of None \<Rightarrow> [] | Some of_run \<Rightarrow> of_run verstr) else [])"
  have base: "wf_row base" unfolding base_def using wf_row_fold assms by (simp add: wf_extra_def)
  obtain m where m: "merged_metrics row system = Inr (PDict m)"
    using wf_rowD [OF assms(1), of "''metrics''"]
    by (cases "map_of row ''metrics''") (auto simp: merged_metrics_def ok_field_def DICT_PREFIXES_def dict_like_def)
  define fields where "fields = (if system = [] then base else od_put ''metrics'' (PDict m) base)"
  have "wf_row (od_put ''metrics'' (PDict m) base)"
    by (rule wf_row_put [OF base]) (simp add: ok_field_def dict_like_def NESTED_SUBFIELDS_def)
  then have fields: "wf_row fields" using base by (simp add: fields_def)
  have "complete_row roots systems ex row
      = Inr \<lparr>row_fields = fields, row_ancestors = ex_ancestors ex verstr, row_similar = ex_similar ex verstr,
             row_up = Some (ex_up ex verstr)\<rparr>"
    using m by (auto simp: complete_row_def v Let_def base_def system_def fields_def)
  then show thesis by (rule that) (simp add: fields)
qed

section \<open>No row raises\<close>

lemma field_value_ok: "wf_row row \<Longrightarrow> field_value row k = PNull \<or> ok_field k (field_value row k)"
  using wf_rowD by (auto simp: field_value_def split: option.split)

lemma dig_wf_path:
  assumes "wf_row row" "wf_path keys"
  shows "\<exists>v. dig (PDict row) keys = Inr v"
proof -
  consider (field) n where "keys = [n]" | (dotted) p k where "keys = [p, k]" "p \<in> set DICT_PREFIXES"
    | (nested) p k s where "keys = [p, k, s]" "p \<in> fst ` set NESTED_SUBFIELDS"
    using assms(2) by (auto simp: wf_path_def split: list.splits option.splits dest!: map_of_SomeD) force
  then show ?thesis
  proof cases
    case dotted
    then have "dict_like (field_value row p)"
      using field_value_ok [OF assms(1), of p] by (auto simp: ok_field_def dict_like_def)
    then show ?thesis using p_get_dict_like dotted by fastforce
  next
    case nested
    then have "field_value row p = PNull \<or> (\<exists>m. field_value row p = PDict m \<and> (\<forall>w \<in> snd ` set m. dict_like w))"
      using field_value_ok [OF assms(1), of p] by (auto simp: ok_field_def)
    then show ?thesis
    proof
      assume "\<exists>m. field_value row p = PDict m \<and> (\<forall>w \<in> snd ` set m. dict_like w)"
      then obtain m where m: "field_value row p = PDict m" "\<forall>w \<in> snd ` set m. dict_like w" by blast
      have "dict_like (field_value m k)"
        using m(2) by (auto simp: field_value_def dict_like_def split: option.split dest!: map_of_SomeD)
      then show ?thesis using nested m p_get_dict_like by fastforce
    qed (simp add: nested)
  qed simp
qed

lemma getter_total:
  assumes "wf_row (row_fields r)" "wf_field f"
  shows "\<exists>v. getter f r = Inr v"
proof (cases f)
  case (Env_Packages k)
  have "field_value (row_fields r) ''env'' = PNull \<or> (\<exists>m. field_value (row_fields r) ''env'' = PDict m
      \<and> dict_like (field_value m ''packages'') \<and> dict_like (field_value m ''key_packages''))"
    using field_value_ok [OF assms(1), of "''env''"] by (auto simp: ok_field_def DICT_PREFIXES_def dict_like_def)
  then show ?thesis
  proof
    assume "\<exists>m. field_value (row_fields r) ''env'' = PDict m
      \<and> dict_like (field_value m ''packages'') \<and> dict_like (field_value m ''key_packages'')"
    then obtain m where m: "field_value (row_fields r) ''env'' = PDict m"
      "dict_like (field_value m ''packages'')" "dict_like (field_value m ''key_packages'')" by blast
    show ?thesis using m(1) p_get_dict_like [OF m(2), of k] p_get_dict_like [OF m(3), of k]
      by (auto simp: Env_Packages getter_def env_packages_def)
  qed (simp add: Env_Packages getter_def env_packages_def p_truthy_def)
qed (use assms dig_wf_path in \<open>auto simp: getter_def\<close>)

lemma predicate_total:
  "wf_row (row_fields r) \<Longrightarrow> wf_node t \<Longrightarrow> \<exists>b. predicate t r = Inr b"
  "wf_row (row_fields r) \<Longrightarrow> list_all wf_node ts \<Longrightarrow> \<exists>b. any_of ts r = Inr b"
  "wf_row (row_fields r) \<Longrightarrow> list_all wf_node us \<Longrightarrow> \<exists>b. all_of us r = Inr b"
proof (induction t r and ts r and us r rule: predicate_any_of_all_of.induct)
  case (4 f ls row)
  then show ?case using getter_total [of row f] by auto
next
  case (5 f op l row)
  then show ?case using getter_total [of row f] by auto
qed fastforce+

lemma filter_res_split:
  assumes "\<And>x. x \<in> set xs \<Longrightarrow> \<exists>b. f x = Inr b \<and> g x = Inr (\<not> b)"
  shows "\<exists>ys zs. filter_res f xs = Inr ys \<and> filter_res g xs = Inr zs \<and> mset ys + mset zs = mset xs"
  using assms
proof (induction xs)
  case (Cons x xs)
  obtain b where b: "f x = Inr b" "g x = Inr (\<not> b)" using Cons.prems by auto
  obtain ys zs where "filter_res f xs = Inr ys" "filter_res g xs = Inr zs" "mset ys + mset zs = mset xs"
    using Cons by fastforce
  then show ?case using b by (cases b) auto
qed simp

text \<open>
  C25. A query and its negation split the rows of a listing: on rows whose dotted prefixes hold
  dictionaries, as the program builds them, evaluating a query that compiles raises on no row, and
  every row matches either the query or its \<open>not\<close>, missing fields and unlike types included.
\<close>

theorem query_splits_rows:
  assumes "parse_query iso_before text = Inr tree" "\<And>row. row \<in> set rows \<Longrightarrow> wf_row row" "wf_extra ex"
  shows "\<exists>ys zs. matching_rows roots systems ex tree rows = Inr ys
    \<and> matching_rows roots systems ex (Not tree) rows = Inr zs \<and> mset ys + mset zs = mset rows"
  unfolding matching_rows_def
proof (rule filter_res_split)
  fix row assume "row \<in> set rows"
  from assms(2) [OF this] obtain r where r: "complete_row roots systems ex row = Inr r" "wf_row (row_fields r)"
    using assms(3) by (rule complete_row_wf)
  have "wf_node tree" using assms(1) by (rule parse_query_wf)
  then show "\<exists>b. bind_res (complete_row roots systems ex row) (predicate tree) = Inr b
    \<and> bind_res (complete_row roots systems ex row) (predicate (Not tree)) = Inr (\<not> b)"
    using predicate_total(1) [OF r(2)] r(1) by fastforce
qed

definition demo_rows :: "(string \<times> pv) list list" where
  "demo_rows =
     [[(''verstr'', PStr ''0.1.0''), (''status'', PStr ''failed''), (''metrics'', PDict [(''loss'', PNum 2)])],
      [(''verstr'', PStr ''0.1.1''), (''status'', PStr ''running''), (''metrics'', PDict [(''loss'', PStr ''nan'')])],
      [(''verstr'', PStr ''0.1.2''), (''metrics'', PDict [(''loss'', PNum 9)])]]"

definition demo_extra :: query_extra where
  "demo_extra = \<lparr>ex_ancestors = (\<lambda>v. []), ex_similar = (\<lambda>v. []), ex_up = (\<lambda>v f. PNull), ex_system = None, ex_fields = []\<rparr>"

definition no_clock :: "int \<Rightarrow> string qres" where
  "no_clock seconds = Inl Overflow_Error"

lemma demo_rows_wf: "row \<in> set demo_rows \<Longrightarrow> wf_row row" and demo_extra_wf: "wf_extra demo_extra"
  by (auto simp: demo_rows_def demo_extra_def wf_row_def wf_extra_def ok_field_def DICT_PREFIXES_def
      NESTED_SUBFIELDS_def dict_like_def)

theorem query_splits_rows_witness:
  "\<exists>ys zs. matching_rows {} False demo_extra (Cmp (Path [''metrics'', ''loss'']) Lt (Num 5)) demo_rows = Inr ys
    \<and> matching_rows {} False demo_extra (Not (Cmp (Path [''metrics'', ''loss'']) Lt (Num 5))) demo_rows = Inr zs
    \<and> mset ys + mset zs = mset demo_rows"
proof (rule query_splits_rows [OF _ demo_rows_wf demo_extra_wf])
  show "parse_query no_clock ''metrics.loss < 5'' = Inr (Cmp (Path [''metrics'', ''loss'']) Lt (Num 5))"
    by code_simp
qed

end
