(* ===== verification/Query_Print.thy ===== *)
theory Query_Print
imports Query_Laws
begin

text \<open>
  Writing a query and reading it back. A tree is written as tokens, every chain in brackets; a text
  spells a list of tokens when it is made of texts that each lex as one of them, with spaces between.
  Parsing such a text gives the tree back.
\<close>

section \<open>Writing a tree\<close>

fun lit_tok :: "lit \<Rightarrow> tok" where
  "lit_tok Null = Kw ''null''"
| "lit_tok (Bool b) = Kw (if b then ''true'' else ''false'')"
| "lit_tok l = Lit l"

fun path_name :: "string \<Rightarrow> string list \<Rightarrow> field_name" where
  "path_name up [n] = Plain (up @ n)"
| "path_name up [p, k] = Quoted (up @ p) k"
| "path_name up [p, k, s] = Quoted_Sub (up @ p) k s"
| "path_name up keys = Plain []"

fun field_toks :: "field \<Rightarrow> tok list" where
  "field_toks (Path keys) = [Name (path_name [] keys)]"
| "field_toks (Env_Packages k) = [Name (Plain (''env.packages.'' @ k))]"
| "field_toks (Up None keys) = [Name (path_name ''up.'' keys)]"
| "field_toks (Up (Some (sel, l)) keys) =
     [Name (Plain ''up''), Punct (CHR ''(''), Name (path_name [] sel), Op ''='', lit_tok l, Punct (CHR '')''),
      Dot (path_name [] keys)]"

fun op_tok :: "cmp_op \<Rightarrow> tok" where
  "op_tok Eq = Op ''=''"
| "op_tok Ne = Op ''!=''"
| "op_tok Lt = Op ''<''"
| "op_tok Le = Op ''<=''"
| "op_tok Gt = Op ''>''"
| "op_tok Ge = Op ''>=''"
| "op_tok Like = Op ''~''"
| "op_tok Unlike = Op ''!~''"

fun joined :: "tok \<Rightarrow> tok list list \<Rightarrow> tok list" where
  "joined sep [] = []"
| "joined sep [ts] = ts"
| "joined sep (ts # us # tss) = ts @ sep # joined sep (us # tss)"

definition bracketed :: "tok list \<Rightarrow> tok list" where
  "bracketed ts = Punct (CHR ''('') # ts @ [Punct (CHR '')'')]"

fun node_toks :: "node \<Rightarrow> tok list" where
  "node_toks (Or ts) = bracketed (joined (Kw ''or'') (map node_toks ts))"
| "node_toks (And ts) = bracketed (joined (Kw ''and'') (map node_toks ts))"
| "node_toks (Not t) = Kw ''not'' # node_toks t"
| "node_toks (In f ls) = field_toks f @ Kw ''in'' # bracketed (joined (Punct (CHR '','')) (map (\<lambda>l. [lit_tok l]) ls))"
| "node_toks (Cmp f op l) = field_toks f @ [op_tok op, lit_tok l]"
| "node_toks (Under v) = Name (Plain ''under'') # bracketed [Lit (Str v)]"
| "node_toks (Similar v) = Name (Plain ''similar'') # bracketed [Lit (Str v)]"

section \<open>What a parser reads\<close>

definition reads :: "(tok \<Rightarrow> bool) \<Rightarrow> 'a parser \<Rightarrow> tok list \<Rightarrow> 'a \<Rightarrow> bool" where
  \<comment> \<open>before a token that meets \<open>K\<close>, whatever the offsets\<close>
  "reads K p toks x =
     (\<forall>us u ts as. map fst us = toks \<longrightarrow> K (fst u) \<longrightarrow> p (us @ u # ts, as) = Inr (x, (u # ts, as)))"

named_theorems reads_rules

lemma readsI:
  "(\<And>us u ts as. map fst us = toks \<Longrightarrow> K (fst u) \<Longrightarrow> p (us @ u # ts, as) = Inr (x, (u # ts, as))) \<Longrightarrow> reads K p toks x"
  by (simp add: reads_def)

lemma readsD: "reads K p toks x \<Longrightarrow> map fst us = toks \<Longrightarrow> K (fst u) \<Longrightarrow> p (us @ u # ts, as) = Inr (x, (u # ts, as))"
  by (cases u) (simp add: reads_def)

lemma reads_weaken: "reads K p toks x \<Longrightarrow> (\<And>t. L t \<Longrightarrow> K t) \<Longrightarrow> reads L p toks x"
  by (simp add: reads_def)

lemma reads_ret [reads_rules]: "reads K (p_ret x) [] x"
  by (simp add: reads_def p_ret_def)

lemma reads_lift: "r = Inr x \<Longrightarrow> reads K (p_lift r) [] x"
  by (simp add: reads_def p_lift_def)

lemma reads_bind:
  assumes p: "reads J p a x" and f: "reads K (f x) b y"
    and look: "b = [] \<Longrightarrow> (\<And>t. K t \<Longrightarrow> J t)" "b \<noteq> [] \<Longrightarrow> J (hd b)"
  shows "reads K (p_bind p f) (a @ b) y"
proof (rule readsI)
  fix us ts :: "token list" and u :: token and as assume us: "map fst us = a @ b" and u: "K (fst u)"
  define vs where "vs = take (length a) us"
  define ws where "ws = drop (length a) us"
  have split: "us = vs @ ws" "map fst vs = a" "map fst ws = b"
    using us by (simp_all add: vs_def ws_def take_map [symmetric] drop_map [symmetric])
  have "p (vs @ ws @ u # ts, as) = Inr (x, (ws @ u # ts, as))"
  proof (cases ws)
    case Nil
    then show ?thesis using readsD [OF p split(2), of u ts as] look(1) split(3) u by simp
  next
    case (Cons w ws')
    then show ?thesis using readsD [OF p split(2), of w "ws' @ u # ts" as] look(2) split(3) by auto
  qed
  then show "p_bind p f (us @ u # ts, as) = Inr (y, (u # ts, as))"
    using readsD [OF f split(3) u] by (simp add: p_bind_def split(1))
qed

lemma reads_next: "(\<And>pos. reads K (f (t, pos)) b y) \<Longrightarrow> reads K (p_bind next_token f) (t # b) y"
  by (auto simp: reads_def p_bind_def next_token_def Cons_eq_map_conv map_eq_Cons_conv)

lemma reads_peek: "(\<And>pos. reads K (f (t, pos)) (t # b) y) \<Longrightarrow> reads K (p_bind peek f) (t # b) y"
  by (fastforce simp: reads_def p_bind_def peek_def map_eq_Cons_conv)

lemma reads_peek_ahead:
  "(\<And>t pos. K t \<Longrightarrow> reads (\<lambda>u. u = t) (f (t, pos)) [] y) \<Longrightarrow> reads K (p_bind peek f) [] y"
  by (fastforce simp: reads_def p_bind_def peek_def)

lemma reads_accept: "reads K (f True) b y \<Longrightarrow> reads K (p_bind (p_accept t) f) (t # b) y"
  by (auto simp: reads_def p_accept_def p_bind_def peek_def next_token_def p_ret_def map_eq_Cons_conv)

lemma reads_accept_not: "t' \<noteq> t \<Longrightarrow> reads K (f False) (t' # b) y \<Longrightarrow> reads K (p_bind (p_accept t) f) (t' # b) y"
  by (fastforce simp: reads_def p_accept_def p_bind_def peek_def p_ret_def map_eq_Cons_conv)

lemma reads_accept_ahead:
  "(\<And>u. K u \<Longrightarrow> u \<noteq> t) \<Longrightarrow> reads K (f False) [] y \<Longrightarrow> reads K (p_bind (p_accept t) f) [] y"
  by (fastforce simp: reads_def p_accept_def p_bind_def peek_def p_ret_def)

lemma reads_expect: "(\<And>pos. reads K (f pos) b y) \<Longrightarrow> reads K (p_bind (p_expect t) f) (t # b) y"
  by (auto simp: reads_def p_expect_def p_bind_def peek_def next_token_def p_ret_def map_eq_Cons_conv)

section \<open>Fields and literals\<close>

lemma reads_literal: "reads K parse_literal [lit_tok l] l"
  unfolding parse_literal_def by (cases l) (auto intro!: reads_next reads_ret)

lemma row_fields_plain: "n \<in> set ROW_FIELDS \<Longrightarrow> CHR ''.'' \<notin> set n"
  by (auto simp: ROW_FIELDS_def LIVE_BELOW_FIELDS_def FAILED_BELOW_FIELDS_def)

lemma prefixes_plain: "p \<in> set DICT_PREFIXES \<Longrightarrow> CHR ''.'' \<notin> set p" "p \<in> fst ` set NESTED_SUBFIELDS \<Longrightarrow> CHR ''.'' \<notin> set p"
  by (auto simp: DICT_PREFIXES_def NESTED_SUBFIELDS_def)

lemma partition_char_notin: "c \<notin> set s \<Longrightarrow> partition_char c s = (s, False, [])"
proof -
  assume "c \<notin> set s"
  then have d: "dropWhile (\<lambda>x. x \<noteq> c) s = []" by (auto simp: dropWhile_eq_Nil_conv)
  show ?thesis unfolding partition_char_def Let_def d by simp
qed

lemma without_up_plain: "CHR ''.'' \<notin> set (name_head name) \<Longrightarrow> without_up name = None"
  by (simp add: without_up_def partition_char_notin)

lemma field_node_plain: "CHR ''.'' \<notin> set (name_head name) \<Longrightarrow> field_node name pos = plain_field name pos"
  by (subst field_node.simps) (simp add: without_up_plain)

lemma field_node_path: "wf_path keys \<Longrightarrow> field_node (path_name [] keys) pos = Inr (Path keys)"
proof -
  assume wf: "wf_path keys"
  consider (field) n where "keys = [n]" "n \<in> set ROW_FIELDS" | (dotted) p k where "keys = [p, k]" "p \<in> set DICT_PREFIXES"
    | (nested) p k s allowed where "keys = [p, k, s]" "map_of NESTED_SUBFIELDS p = Some allowed" "s \<in> set allowed"
    using wf by (auto simp: wf_path_def split: list.splits option.splits)
  then show ?thesis
  proof cases
    case field
    then show ?thesis using row_fields_plain by (simp add: field_node_plain plain_field_def split_char_notin)
  next
    case dotted
    then show ?thesis using prefixes_plain by (simp add: field_node_plain plain_field_def)
  next
    case nested
    then have "p \<in> fst ` set NESTED_SUBFIELDS" by (force dest: map_of_SomeD)
    then show ?thesis using nested prefixes_plain by (simp add: field_node_plain plain_field_def nested_field_def)
  qed
qed

lemma up_readable_wf: "up_readable keys \<Longrightarrow> wf_path keys"
  by (auto simp: up_readable_def wf_path_def UP_PREFIXES_def DICT_PREFIXES_def ROW_FIELDS_def split: list.splits)

lemma readable_keys_path: "up_readable keys \<Longrightarrow> readable_keys (path_name [] keys) pos = Inr keys"
  by (simp add: readable_keys_def field_node_path up_readable_wf bind_qres_def readable_path_def)

lemma field_node_up: "up_readable keys \<Longrightarrow> field_node (path_name ''up.'' keys) pos = Inr (Up None keys)"
proof -
  assume r: "up_readable keys"
  have "without_up (path_name ''up.'' keys) = Some (path_name [] keys)"
    using r by (auto simp: up_readable_def without_up_def partition_char_def UP_PREFIXES_def split: list.splits)
  then show ?thesis
    using readable_keys_path [OF r] by (subst field_node.simps) (simp add: readable_keys_def)
qed

lemma field_node_packages: "CHR ''.'' \<notin> set k \<Longrightarrow> field_node (Plain (''env.packages.'' @ k)) pos = Inr (Env_Packages k)"
proof -
  assume k: "CHR ''.'' \<notin> set k"
  have "without_up (Plain (''env.packages.'' @ k)) = None" by (simp add: without_up_def partition_char_def)
  moreover have "split_char (CHR ''.'') (''env.packages.'' @ k) = [''env'', ''packages'', k]"
    using k by (simp add: split_char_notin)
  ultimately show ?thesis
    by (subst field_node.simps) (simp add: plain_field_def NESTED_SUBFIELDS_def)
qed

section \<open>Comparisons\<close>

lemma reads_skip: "reads K q b y \<Longrightarrow> reads K (p_bind next_token (\<lambda>_. q)) (t # b) y"
  by (rule reads_next) simp

lemma reads_seq: "reads (\<lambda>_. True) p a x \<Longrightarrow> reads K (f x) b y \<Longrightarrow> reads K (p_bind p f) (a @ b) y"
  by (rule reads_bind) auto

lemma reads_then: "reads (\<lambda>_. True) p [t] x \<Longrightarrow> reads K (f x) b y \<Longrightarrow> reads K (p_bind p f) (t # b) y"
  using reads_seq [of p "[t]" x K f b y] by simp

lemma bind_lift_Inr [simp]: "p_bind (p_lift (Inr x)) f = f x"
  by (simp add: p_bind_def p_lift_def)

lemma reads_up_call:
  assumes "up_readable sel" "l \<noteq> Null" "up_readable keys"
  shows "reads K parse_up
    [Punct (CHR ''(''), Name (path_name [] sel), Op ''='', lit_tok l, Punct (CHR '')''), Dot (path_name [] keys)]
    (Up (Some (sel, l)) keys)"
  unfolding parse_up_def
  using assms
  by (auto intro!: reads_next reads_expect reads_lift reads_then [OF reads_literal]
      simp: up_field_def readable_keys_path)

lemma reads_field:
  assumes "wf_field f"
  obtains n b where "field_toks f = Name n # b" "n \<notin> {Plain ''under'', Plain ''similar''}"
    "\<And>K pos. (\<And>t. K t \<Longrightarrow> t \<noteq> Punct (CHR ''('')) \<Longrightarrow> reads K (field_of n pos) b f"
proof (cases f)
  case (Path keys)
  have r: "reads K (field_of (path_name [] keys) pos) [] f" if "\<And>t. K t \<Longrightarrow> t \<noteq> Punct (CHR ''('')" for K pos
    unfolding field_of_def
    using that assms Path by (intro reads_peek_ahead) (auto intro!: reads_lift simp: field_node_path)
  have "path_name [] keys \<notin> {Plain ''under'', Plain ''similar''}"
    using assms Path
    by (auto simp: wf_path_def ROW_FIELDS_def LIVE_BELOW_FIELDS_def FAILED_BELOW_FIELDS_def split: list.splits)
  then show thesis using r that by (simp add: Path)
next
  case (Env_Packages k)
  have "reads K (field_of (Plain (''env.packages.'' @ k)) pos) [] f" if "\<And>t. K t \<Longrightarrow> t \<noteq> Punct (CHR ''('')" for K pos
    unfolding field_of_def
    using that assms Env_Packages by (intro reads_peek_ahead) (auto intro!: reads_lift simp: field_node_packages [simplified])
  then show thesis using that by (simp add: Env_Packages)
next
  case (Up selector keys)
  show thesis
  proof (cases selector)
    case None
    have "reads K (field_of (path_name ''up.'' keys) pos) [] f" if "\<And>t. K t \<Longrightarrow> t \<noteq> Punct (CHR ''('')" for K pos
      unfolding field_of_def
      using that assms Up None by (intro reads_peek_ahead) (auto intro!: reads_lift simp: field_node_up)
    moreover have "path_name ''up.'' keys \<notin> {Plain ''under'', Plain ''similar''}"
      using assms Up by (auto simp: up_readable_def split: list.splits)
    ultimately show thesis using that by (simp add: Up None)
  next
    case (Some sl)
    obtain sel l where sl: "sl = (sel, l)" by fastforce
    have "reads K (field_of (Plain ''up'') pos)
      [Punct (CHR ''(''), Name (path_name [] sel), Op ''='', lit_tok l, Punct (CHR '')''), Dot (path_name [] keys)] f" for K pos
      unfolding field_of_def using assms Up Some sl by (intro reads_peek) (auto intro!: reads_up_call)
    then show thesis using that by (simp add: Up Some sl)
  qed
qed

lemma reads_comparison_field:
  assumes "wf_field f" "\<And>K. reads K (parse_relation f) (t # b) y" "t \<noteq> Punct (CHR ''('')"
  shows "reads K parse_comparison (field_toks f @ t # b) y"
proof -
  obtain n c where n: "field_toks f = Name n # c" "n \<notin> {Plain ''under'', Plain ''similar''}"
    "\<And>K pos. (\<And>t. K t \<Longrightarrow> t \<noteq> Punct (CHR ''('')) \<Longrightarrow> reads K (field_of n pos) c f"
    using reads_field [OF assms(1)] by metis
  have no_call: "call_of n = None" using n(2) by (auto simp: call_of_def CALLS_def split: field_name.split)
  have "reads (\<lambda>u. u = t) (field_of n pos) c f" for pos
    by (rule n(3)) (use assms(3) in simp)
  then have all: "reads K (p_bind (field_of n pos) parse_relation) (c @ t # b) y" for pos
    using assms(2) by (rule reads_bind) auto
  show ?thesis
    unfolding parse_comparison_def n(1) append_Cons
  proof (rule reads_peek, simp, rule reads_skip)
    fix pos
    show "reads K (p_bind peek (\<lambda>u. case if fst u = Punct CHR ''('' then call_of n else None of
        None \<Rightarrow> p_bind (field_of n pos) parse_relation | Some call \<Rightarrow> parse_call call)) (c @ t # b) y"
      using all [of pos] by (cases c) (auto intro!: reads_peek simp: no_call)
  qed
qed

lemma operator_of_op_tok: "\<exists>s. operator_of (op_tok op) = Some (s, op)"
  by (cases op) (simp_all add: operator_of_def COMPARISONS_def)

lemma op_tok_other [simp]: "op_tok op \<noteq> Kw k" "op_tok op \<noteq> Punct c" "op_tok op \<noteq> Name n"
  by (cases op; simp)+

lemma lit_tok_other [simp]: "lit_tok l \<noteq> Name n" "lit_tok l \<noteq> Punct c"
  by (cases l; simp)+

lemma reads_operand:
  assumes "op \<in> {Like, Unlike} \<longrightarrow> is_str l"
  shows "reads K (parse_operand f s op pos) [lit_tok l] (Cmp f op l)"
  unfolding parse_operand_def
  using assms by (intro reads_peek) (auto intro!: reads_then [OF reads_literal] reads_ret)

lemma reads_relation_cmp:
  assumes "op \<in> {Like, Unlike} \<longrightarrow> is_str l"
  shows "reads K (parse_relation f) [op_tok op, lit_tok l] (Cmp f op l)"
proof -
  obtain s where "operator_of (op_tok op) = Some (s, op)" using operator_of_op_tok by blast
  then show ?thesis
    unfolding parse_relation_def
    by (auto intro!: reads_accept_not reads_peek reads_skip reads_operand [OF assms])
qed

lemma reads_map: "reads K p a x \<Longrightarrow> reads K (p_bind p (\<lambda>x. p_ret (g x))) a (g x)"
  using reads_bind [of K p a x K "\<lambda>x. p_ret (g x)" "[]" "g x"] by (simp add: reads_ret)

lemma hd_concat_seps: "xs \<noteq> [] \<Longrightarrow> hd (concat (map (\<lambda>x. sep # f x) xs)) = sep"
  by (cases xs) simp_all

lemma reads_chain:
  assumes "\<And>x. x \<in> set xs \<Longrightarrow> reads J p (f x) x" "J sep" "length xs < n"
  shows "reads (\<lambda>t. t \<noteq> sep \<and> J t) (p_chain n sep p) (concat (map (\<lambda>x. sep # f x) xs)) xs"
  using assms
proof (induction xs arbitrary: n)
  case Nil
  then obtain m where "n = Suc m" by (cases n) auto
  then show ?case by (auto intro!: reads_accept_ahead reads_ret)
next
  case (Cons x xs)
  then obtain m where m: "n = Suc m" "length xs < m" by (cases n) auto
  let ?K = "\<lambda>t. t \<noteq> sep \<and> J t"
  have rest: "reads ?K (p_bind (p_chain m sep p) (\<lambda>xs. p_ret (x # xs))) (concat (map (\<lambda>x. sep # f x) xs)) (x # xs)"
    by (rule reads_map [OF Cons.IH [OF _ \<open>J sep\<close> m(2)]]) (use Cons.prems(1) in simp)
  have "reads ?K (p_bind p (\<lambda>x. p_bind (p_chain m sep p) (\<lambda>xs. p_ret (x # xs))))
     (f x @ concat (map (\<lambda>x. sep # f x) xs)) (x # xs)"
    by (rule reads_bind [where J = J and x = x]) (use Cons.prems(1,2) rest in \<open>auto simp: hd_concat_seps\<close>)
  then show ?case unfolding m(1) by (auto intro!: reads_accept)
qed

lemma joined_Cons: "joined sep (map f (x # xs)) = f x @ concat (map (\<lambda>x. sep # f x) xs)"
proof (induction xs arbitrary: x)
  case (Cons y ys)
  from Cons [of y] show ?case by simp
qed simp

lemma length_concat_seps: "length xs \<le> length (concat (map (\<lambda>x. sep # f x) xs))"
  by (induction xs) auto

lemma reads_separated:
  assumes "\<And>x. x \<in> set xs \<Longrightarrow> reads J p (f x) x" "J sep" "xs \<noteq> []"
  shows "reads (\<lambda>t. t \<noteq> sep \<and> J t) (p_separated sep p) (joined sep (map f xs)) xs"
proof -
  let ?K = "\<lambda>t. t \<noteq> sep \<and> J t"
  obtain x ys where xs: "xs = x # ys" using assms(3) by (cases xs) auto
  have "reads ?K (\<lambda>st. p_chain (length (fst st)) sep p st) (concat (map (\<lambda>x. sep # f x) ys)) ys"
  proof (rule readsI)
    fix us ts :: "token list" and u :: token and as
    assume us: "map fst us = concat (map (\<lambda>x. sep # f x) ys)" and u: "fst u \<noteq> sep \<and> J (fst u)"
    have "length ys < length (us @ u # ts)"
      using length_concat_seps [of ys sep f] arg_cong [OF us, of length] by simp
    then have "reads ?K (p_chain (length (us @ u # ts)) sep p) (concat (map (\<lambda>x. sep # f x) ys)) ys"
      using assms(1,2) by (intro reads_chain) (auto simp: xs)
    from readsD [OF this us u] show "p_chain (length (fst (us @ u # ts, as))) sep p (us @ u # ts, as) = Inr (ys, u # ts, as)"
      by simp
  qed
  then have rest: "reads ?K (p_bind (\<lambda>st. p_chain (length (fst st)) sep p st) (\<lambda>xs. p_ret (x # xs)))
     (concat (map (\<lambda>x. sep # f x) ys)) (x # ys)" by (rule reads_map)
  show ?thesis
    unfolding p_separated_def xs joined_Cons
    by (rule reads_bind [where J = J and x = x]) (use assms(1,2) xs rest in \<open>auto simp: hd_concat_seps\<close>)
qed

lemma reads_relation_in:
  assumes "ls \<noteq> []"
  shows "reads K (parse_relation f) (Kw ''in'' # bracketed (joined (Punct (CHR '','')) (map (\<lambda>l. [lit_tok l]) ls))) (In f ls)"
proof -
  have "reads (\<lambda>t. t \<noteq> Punct (CHR '','')) (p_separated (Punct (CHR '','')) parse_literal)
      (joined (Punct (CHR '','')) (map (\<lambda>l. [lit_tok l]) ls)) ls"
    using reads_separated [of ls "\<lambda>_. True" parse_literal "\<lambda>l. [lit_tok l]"] assms reads_literal by simp
  then have "reads K parse_literal_list (bracketed (joined (Punct (CHR '','')) (map (\<lambda>l. [lit_tok l]) ls))) ls"
    unfolding parse_literal_list_def bracketed_def
    by (intro reads_expect reads_bind [where J = "\<lambda>t. t \<noteq> Punct (CHR '','')"]) (auto intro!: reads_expect reads_ret)
  then show ?thesis
    unfolding parse_relation_def by (auto intro!: reads_accept_not reads_accept reads_map)
qed

section \<open>Combinations\<close>

lemma reads_and:
  assumes "\<And>t. t \<in> set ts \<Longrightarrow> reads (\<lambda>_. True) p (node_toks t) t" "ts \<noteq> []"
  shows "reads (\<lambda>t. t \<noteq> Kw ''and'') (parse_and p) (joined (Kw ''and'') (map node_toks ts)) (flat And ts)"
  unfolding parse_and_def
  using reads_map [OF reads_separated [of ts "\<lambda>_. True" p node_toks]] assms by simp

lemma reads_or:
  assumes "\<And>t. t \<in> set ts \<Longrightarrow> reads (\<lambda>t. t \<noteq> Kw ''and'') (parse_and p) (f t) t" "ts \<noteq> []"
  shows "reads (\<lambda>t. t = Punct (CHR '')'') \<or> t = End) (parse_or p) (joined (Kw ''or'') (map f ts)) (flat Or ts)"
  unfolding parse_or_def
  by (rule reads_weaken [OF reads_map [OF reads_separated [of ts "\<lambda>t. t \<noteq> Kw ''and''" "parse_and p" f]]])
    (use assms in auto)

lemma flat_one [simp]: "flat C [t] = t"
  by (simp add: flat_def)

lemma flat_more: "2 \<le> length ts \<Longrightarrow> flat C ts = C ts"
  by (simp add: flat_def)

lemma reads_or_one:
  assumes "reads (\<lambda>_. True) p (node_toks t) t"
  shows "reads (\<lambda>t. t = Punct (CHR '')'') \<or> t = End) (parse_or p) (node_toks t) t"
  using reads_or [of "[t]" p node_toks] reads_and [of "[t]" p] assms by simp

lemma reads_brackets:
  assumes "reads (\<lambda>t. t = Punct (CHR '')'') \<or> t = End) (parse_or p) a t"
  shows "reads K (parse_nested p) (bracketed a) t"
  unfolding parse_nested_def bracketed_def
  using assms
  by (intro reads_accept_not) (auto intro!: reads_expect reads_bind [OF assms] reads_ret)

lemma reads_chain_node:
  assumes "\<And>t. t \<in> set ts \<Longrightarrow> reads (\<lambda>_. True) p (node_toks t) t" "2 \<le> length ts"
  shows "reads K (parse_nested p) (node_toks (And ts)) (And ts)" "reads K (parse_nested p) (node_toks (Or ts)) (Or ts)"
proof -
  have ne: "ts \<noteq> []" using assms(2) by auto
  have "reads (\<lambda>t. t \<noteq> Kw ''and'') (parse_and p) (joined (Kw ''and'') (map node_toks ts)) (And ts)"
    using reads_and [OF assms(1) ne] flat_more [OF assms(2)] by simp
  from reads_or [of "[And ts]" p "\<lambda>_. joined (Kw ''and'') (map node_toks ts)"] this
  have "reads (\<lambda>t. t = Punct (CHR '')'') \<or> t = End) (parse_or p) (joined (Kw ''and'') (map node_toks ts)) (And ts)" by simp
  then show "reads K (parse_nested p) (node_toks (And ts)) (And ts)" by (simp add: reads_brackets)
  have "reads (\<lambda>t. t \<noteq> Kw ''and'') (parse_and p) (node_toks t) t" if "t \<in> set ts" for t
    using reads_and [of "[t]" p] assms(1) [OF that] by simp
  then have "reads (\<lambda>t. t = Punct (CHR '')'') \<or> t = End) (parse_or p) (joined (Kw ''or'') (map node_toks ts)) (Or ts)"
    using reads_or [of ts p node_toks] ne flat_more [OF assms(2)] by simp
  then show "reads K (parse_nested p) (node_toks (Or ts)) (Or ts)" by (simp add: reads_brackets)
qed

lemma reads_call:
  assumes "c \<in> set CALLS" "c = ''similar'' \<longrightarrow> has_words v"
  shows "reads K parse_comparison (Name (Plain c) # bracketed [Lit (Str v)]) (if c = ''similar'' then Similar v else Under v)"
proof -
  define y where "y = (if c = ''similar'' then Similar v else Under v)"
  have call: "call_of (Plain c) = Some c" using assms(1) by (simp add: call_of_def)
  have "reads K (parse_call c) (bracketed [Lit (Str v)]) y"
    unfolding parse_call_def bracketed_def y_def
    using assms(2) by (auto intro!: reads_skip reads_next reads_expect reads_ret)
  then have "reads K parse_comparison (Name (Plain c) # bracketed [Lit (Str v)]) y"
    unfolding parse_comparison_def bracketed_def by (auto intro!: reads_peek reads_skip simp: call)
  then show ?thesis by (simp add: y_def)
qed

lemma reads_not_comparison: "reads K parse_comparison (Name n # b) t \<Longrightarrow> reads K (parse_not k) (Name n # b) t"
  by (cases k) (auto intro!: reads_peek simp: opens_level_def)

lemma reads_not_nested:
  "reads K (parse_nested (parse_not k)) (t # b) x \<Longrightarrow> opens_level t \<Longrightarrow> reads K (parse_not (Suc k)) (t # b) x"
  by (auto intro!: reads_peek)

lemma field_toks_Name: "wf_field f \<Longrightarrow> \<exists>n b. field_toks f = Name n # b"
  using reads_field by metis

lemma Max_le_members: "Max (set (map h ts) \<union> {0}) \<le> k \<Longrightarrow> t \<in> set ts \<Longrightarrow> h t \<le> (k :: nat)"
  by simp

lemma reads_node: "wf_node t \<Longrightarrow> height t \<le> k \<Longrightarrow> reads K (parse_not k) (node_toks t) t"
proof (induction t arbitrary: k K rule: node_toks.induct)
  case (1 ts)
  then obtain j where k: "k = Suc j" and j: "Max (set (map height ts) \<union> {0}) \<le> j" by (cases k) auto
  have "reads (\<lambda>_. True) (parse_not j) (node_toks t) t" if "t \<in> set ts" for t
    using "1.IH" [OF that] "1.prems"(1) that Max_le_members [OF j that] by (auto simp: list_all_iff)
  then have "reads K (parse_nested (parse_not j)) (node_toks (Or ts)) (Or ts)"
    using "1.prems"(1) by (intro reads_chain_node) auto
  then show ?case unfolding k node_toks.simps bracketed_def
    by (rule reads_not_nested) (simp add: opens_level_def)
next
  case (2 ts)
  then obtain j where k: "k = Suc j" and j: "Max (set (map height ts) \<union> {0}) \<le> j" by (cases k) auto
  have "reads (\<lambda>_. True) (parse_not j) (node_toks t) t" if "t \<in> set ts" for t
    using "2.IH" [OF that] "2.prems"(1) that Max_le_members [OF j that] by (auto simp: list_all_iff)
  then have "reads K (parse_nested (parse_not j)) (node_toks (And ts)) (And ts)"
    using "2.prems"(1) by (intro reads_chain_node) auto
  then show ?case unfolding k node_toks.simps bracketed_def
    by (rule reads_not_nested) (simp add: opens_level_def)
next
  case (3 t)
  then obtain j where k: "k = Suc j" and j: "height t \<le> j" by (cases k) auto
  have "reads K (parse_not j) (node_toks t) t" using "3.IH" "3.prems"(1) j by simp
  then have "reads K (parse_nested (parse_not j)) (Kw ''not'' # node_toks t) (Not t)"
    unfolding parse_nested_def by (auto intro!: reads_accept reads_map)
  then show ?case unfolding k node_toks.simps by (rule reads_not_nested) (simp add: opens_level_def)
next
  case (4 f ls)
  then have "reads K parse_comparison (node_toks (In f ls)) (In f ls)"
    by (auto intro!: reads_comparison_field reads_relation_in)
  then show ?case using 4 field_toks_Name [of f] by (auto intro!: reads_not_comparison)
next
  case (5 f op l)
  then have "reads K parse_comparison (node_toks (Cmp f op l)) (Cmp f op l)"
    using reads_comparison_field [of f "op_tok op" "[lit_tok l]"] by (auto intro!: reads_relation_cmp)
  then show ?case using 5 field_toks_Name [of f] by (auto intro!: reads_not_comparison)
next
  case (6 v)
  then show ?case using reads_call [of "''under''" v] by (auto intro!: reads_not_comparison simp: CALLS_def)
next
  case (7 v)
  then show ?case using reads_call [of "''similar''" v] by (auto intro!: reads_not_comparison simp: CALLS_def)
qed

lemma parse_node_toks:
  assumes "wf_node t" "height t \<le> MAX_NESTING" "map fst us = node_toks t @ [End]"
  shows "\<exists>u. parse_tokens (us, []) = Inr (t, ([u], [])) \<and> fst u = End"
proof -
  obtain vs u where us: "us = vs @ [u]" "map fst vs = node_toks t" "fst u = End"
    using assms(3) by (auto simp: map_eq_append_conv)
  have "reads (\<lambda>t. t = End) (parse_or (parse_not MAX_NESTING)) (node_toks t) t"
    by (rule reads_weaken [OF reads_or_one [OF reads_node [OF assms(1,2)]]]) simp
  from readsD [OF this us(2), of u "[]" "[]"] us(3)
  have "parse_or (parse_not MAX_NESTING) (us, []) = Inr (t, ([u], []))" by (simp add: us(1))
  then show ?thesis using us(3)
    by (cases u) (simp add: parse_tokens_def p_bind_def peek_def p_ret_def)
qed

section \<open>Spelling tokens\<close>

definition spelled :: "tok \<Rightarrow> string \<Rightarrow> bool" where
  \<comment> \<open>the text alone lexes as the token\<close>
  "spelled t w = (case lex_one w 0 of Inr (Some (u, off), n) \<Rightarrow> u = t \<and> n = length w | _ \<Rightarrow> False)"

definition gap :: "string \<Rightarrow> bool" where
  "gap s = (s = [] \<or> is_space (hd s))"

text \<open>What a space is not, and what a run of name or number characters does before one.\<close>

lemma space_not:
  assumes "is_space c"
  shows "\<not> py_isdigit c" "\<not> py_isalpha c" "\<not> py_isalnum c" "\<not> name_char c" "\<not> sub_char c" "c \<noteq> CHR ''.''"
    "c \<noteq> CHR ''e''" "c \<noteq> CHR ''E''" "\<not> is_quote c" "c \<noteq> CHR ''_''"
proof -
  show *: "\<not> py_isdigit c" "\<not> py_isalpha c" "\<not> py_isalnum c"
    using assms by (auto simp: is_space_def py_isdigit_def py_isalpha_def py_isalnum_def is_digit_def)
  show "c \<noteq> CHR ''.''" "c \<noteq> CHR ''_''" "c \<noteq> CHR ''e''" "c \<noteq> CHR ''E''" "\<not> is_quote c"
    using assms by (auto simp: is_space_def is_quote_def)
  then show "\<not> name_char c" "\<not> sub_char c" using * by (auto simp: name_char_def sub_char_def)
qed

lemma takeWhile_gap:
  "gap s \<Longrightarrow> (\<And>c. is_space c \<Longrightarrow> \<not> P c) \<Longrightarrow> takeWhile P (w @ s) = takeWhile P w"
  by (induction w) (auto simp: gap_def takeWhile_eq_Nil_iff)

lemma lex_string_gap: "lex_string w p = Inr (v, n) \<Longrightarrow> lex_string (w @ s) pos = Inr (v, n)"
  by (auto simp: lex_string_def Let_def split: list.splits if_splits)

lemma lex_exponent_gap: "gap s \<Longrightarrow> lex_exponent w = Some k \<Longrightarrow> lex_exponent (w @ s) = Some k"
  using space_not(1) by (cases w) (auto simp: lex_exponent_def Let_def takeWhile_gap split: if_splits)

lemma lex_number_gap:
  assumes "gap s" "lex_number w p = Inr (t, n)" "w \<noteq> []"
  shows "lex_number (w @ s) pos = Inr (t, n)"
proof -
  let ?P = "\<lambda>c. py_isdigit c \<or> c = CHR ''.''"
  define m where "m = Suc (length (takeWhile ?P (tl w)))"
  have m: "m \<le> length w" using assms(3) length_takeWhile_tl by (simp add: m_def)
  have same: "Suc (length (takeWhile ?P (tl (w @ s)))) = m"
    using assms(1,3) space_not by (simp add: m_def takeWhile_gap)
  have d: "drop m (w @ s) = drop m w @ s" using m by simp
  have n: "n \<le> length w" using lex_number_length assms(2,3) by blast
  obtain e where e: "(case drop m w of e # r \<Rightarrow> if e = CHR ''e'' \<or> e = CHR ''E'' then map_option (\<lambda>k. m + 1 + k) (lex_exponent r) else Some m
      | [] \<Rightarrow> Some m) = Some e" "e = n" "read_number (take n w) = Some (case t of Lit (Num x) \<Rightarrow> x)" "\<exists>x. t = Lit (Num x)"
    using assms(2) unfolding lex_number_def m_def [symmetric] Let_def by (auto split: option.splits)
  have "(case drop m w @ s of e # r \<Rightarrow> if e = CHR ''e'' \<or> e = CHR ''E'' then map_option (\<lambda>k. m + 1 + k) (lex_exponent r) else Some m
      | [] \<Rightarrow> Some m) = Some n"
    using e(1,2) assms(1) space_not(7,8) lex_exponent_gap [OF assms(1)]
    by (cases "drop m w"; cases s) (auto simp: gap_def split: if_splits)
  then show ?thesis
    unfolding lex_number_def same Let_def d using e(3,4) n by auto
qed

lemma lex_subfield_gap: "gap s \<Longrightarrow> lex_subfield (w @ s) p k = lex_subfield w p k"
  using space_not(5,6) by (cases w; cases s) (auto simp: lex_subfield_def Let_def takeWhile_gap gap_def)

lemma lex_name_gap:
  assumes "gap s" "lex_name w p = Inr (t, n)"
  shows "lex_name (w @ s) pos = Inr (t, n)"
proof -
  define raw where "raw = takeWhile name_char w"
  have same: "takeWhile name_char (w @ s) = raw"
    using assms(1) space_not(4) by (simp add: raw_def takeWhile_gap)
  have len: "length raw \<le> length w" by (simp add: raw_def length_takeWhile_le)
  have d: "drop (length raw) (w @ s) = drop (length raw) w @ s" using len by simp
  have quote: "drop (length raw) w @ s \<noteq> [] \<and> is_quote (hd (drop (length raw) w @ s)) \<longleftrightarrow>
      drop (length raw) w \<noteq> [] \<and> is_quote (hd (drop (length raw) w))"
    using assms(1) space_not(9) by (cases "drop (length raw) w"; cases s) (auto simp: gap_def)
  let ?q = "raw \<noteq> [] \<and> last raw = CHR ''.'' \<and> drop (length raw) w \<noteq> [] \<and> is_quote (hd (drop (length raw) w))"
  show ?thesis
  proof (cases ?q)
    case True
    then obtain key k where key: "lex_string (drop (length raw) w) (p + length raw) = Inr (key, k)"
      using assms(2) unfolding lex_name_def raw_def [symmetric] Let_def by (auto split: sum.splits)
    have k: "k \<le> length (drop (length raw) w)" using lex_string_length [OF key] by simp
    then have "drop k (drop (length raw) w @ s) = drop k (drop (length raw) w) @ s" by simp
    then show ?thesis
      using True quote assms(2) lex_subfield_gap [OF assms(1)] lex_string_gap [OF key]
      unfolding lex_name_def same raw_def [symmetric] Let_def d by (simp add: key)
  next
    case False
    then show ?thesis
      using quote assms(2) unfolding lex_name_def same raw_def [symmetric] Let_def d by (auto split: if_splits)
  qed
qed

lemma find_operator_gap:
  assumes "gap s" "find_operator w = Some p" "length p = length w"
  shows "find_operator (w @ s) = Some p"
proof -
  have w: "w = p" using find_operator_Some [OF assms(2)] assms(3) by (auto simp: starts_with_iff)
  have "starts_with o' (w @ s) \<longleftrightarrow> starts_with o' w" if o: "o' \<in> set OPERATORS" for o'
  proof
    assume "starts_with o' (w @ s)"
    then obtain r where r: "w @ s = o' @ r" by (auto simp: starts_with_iff)
    then obtain us where us: "w = o' @ us \<or> (w @ us = o' \<and> s = us @ r)"
      by (auto simp: append_eq_append_conv2)
    have "us = []" if "w @ us = o'" "s = us @ r"
    proof (rule ccontr)
      assume "us \<noteq> []"
      then have "is_space (hd us)" "hd us \<in> set o'" using assms(1) that by (auto simp: gap_def)
      then show False using o by (auto simp: OPERATORS_def is_space_def)
    qed
    then show "starts_with o' w" using us by (auto simp: starts_with_iff)
  qed (auto simp: starts_with_iff)
  then show ?thesis
    using assms(2) unfolding find_operator_def by (metis (mono_tags, lifting) find_cong)
qed

text \<open>The converse of \<open>lex_one_cases\<close>: the kinds of first character exclude one another.\<close>

lemma lex_one_string: "is_quote c \<Longrightarrow> lex_one (c # cs) pos = map_sum id (\<lambda>(t, n). (Some (Lit (Str t), pos), n)) (lex_string (c # cs) pos)"
  by (auto simp: lex_one_def is_quote_def is_space_def)

lemma digit_not: "py_isdigit c \<or> c = CHR ''-'' \<Longrightarrow> \<not> is_space c \<and> c \<notin> set ''(),'' \<and> \<not> is_quote c"
  by (auto simp: py_isdigit_def is_digit_def is_space_def is_quote_def)

lemma lex_one_number:
  "starts_number (c # cs) \<Longrightarrow> lex_one (c # cs) pos = map_sum id (\<lambda>(t, n). (Some (t, pos), n)) (lex_number (c # cs) pos)"
  using digit_not [of c] by (auto simp: lex_one_def starts_number_def simp del: set_simps)

lemma alpha_not:
  "py_isalpha c \<or> c = CHR ''_'' \<Longrightarrow>
   \<not> is_space c \<and> c \<notin> set ''(),'' \<and> \<not> is_quote c \<and> \<not> py_isdigit c \<and> c \<noteq> CHR ''-''"
  by (auto simp: py_isalpha_def py_isdigit_def is_digit_def is_space_def is_quote_def)

lemma lex_one_name:
  "py_isalpha c \<or> c = CHR ''_'' \<Longrightarrow> lex_one (c # cs) pos = map_sum id (\<lambda>(t, n). (Some (t, pos), n)) (lex_name (c # cs) pos)"
  using alpha_not [of c] by (auto simp: lex_one_def starts_number_def simp del: set_simps)

lemma lex_one_dot:
  "dot_starts_name cs \<Longrightarrow>
   lex_one (CHR ''.'' # cs) pos = map_sum id (\<lambda>(t, n). (Some (dotted t, pos + 1 + n), n + 1)) (lex_name cs (pos + 1))"
  by (simp add: lex_one_def is_space_def is_quote_def starts_number_def py_isdigit_def is_digit_def py_isalpha_def)

lemma lex_one_operator:
  assumes "find_operator (c # cs) = Some p"
  shows "lex_one (c # cs) pos = Inr (Some (Op p, pos), length p)"
proof -
  have "c \<in> {CHR ''='', CHR ''!'', CHR ''<'', CHR ''>'', CHR ''~''}"
    using find_operator_Some [OF assms] by (auto simp: OPERATORS_def)
  then have "\<not> is_space c" "c \<notin> set ''(),''" "\<not> is_quote c" "\<not> starts_number (c # cs)" "\<not> (py_isalpha c \<or> c = CHR ''_'')"
    "c \<noteq> CHR ''.''"
    by (auto simp: is_space_def is_quote_def starts_number_def py_isdigit_def is_digit_def py_isalpha_def)
  then show ?thesis using assms by (simp add: lex_one_def del: set_simps)
qed

lemma spelled_lex:
  assumes "spelled t w" "gap s"
  shows "\<exists>off. lex_one (w @ s) pos = Inr (Some (t, off), length w)"
proof -
  obtain off where lex: "lex_one w 0 = Inr (Some (t, off), length w)"
    using assms(1) by (auto simp: spelled_def split: sum.splits option.splits prod.splits)
  then obtain c cs where w: "w = c # cs" by (cases w) (auto simp: lex_one_def)
  from lex [unfolded w] show ?thesis
  proof (cases rule: lex_one_cases)
    case 2
    then show ?thesis by (auto simp: w lex_one_def is_space_def)
  next
    case (3 v)
    then show ?thesis using lex_string_gap [OF 3(1)] by (simp add: w lex_one_string)
  next
    case (4 u)
    have "starts_number (c # cs @ s)"
      using 4(3) by (cases cs) (auto simp: starts_number_def)
    then show ?thesis using lex_number_gap [OF assms(2) 4(1)] 4(2) by (simp add: w lex_one_number)
  next
    case (5 u)
    then show ?thesis using lex_name_gap [OF assms(2) 5(1)] by (simp add: w lex_one_name)
  next
    case (6 u m)
    have "dot_starts_name (cs @ s)" using 6(5) by (simp add: dot_starts_name_def)
    then show ?thesis using lex_name_gap [OF assms(2) 6(1)] 6 by (simp add: w lex_one_dot)
  next
    case (7 p)
    have "find_operator ((c # cs) @ s) = Some p" using find_operator_gap [OF assms(2) 7(1)] 7(3) by simp
    then show ?thesis using lex_one_operator [of c "cs @ s" p] 7 by (simp add: w)
  qed simp
qed

section \<open>How tokens are written\<close>

text \<open>
  The grammar of the tokens, stated without the lexer: brackets, strings in either quote, decimal
  numbers with a sign, a fraction and an exponent, keywords in any capitals, names, and operators.
\<close>

definition number_text :: "bool \<Rightarrow> string \<Rightarrow> string option \<Rightarrow> (char \<times> string \<times> string) option \<Rightarrow> string" where
  "number_text neg w f ex =
     (if neg then ''-'' else []) @ w @ (case f of None \<Rightarrow> [] | Some d \<Rightarrow> CHR ''.'' # d)
       @ (case ex of None \<Rightarrow> [] | Some (e, sg, ds) \<Rightarrow> e # sg @ ds)"

definition number_value :: "bool \<Rightarrow> string \<Rightarrow> string option \<Rightarrow> (char \<times> string \<times> string) option \<Rightarrow> rat" where
  "number_value neg w f ex =
     (if neg then -1 else 1)
       * (of_nat (str_nat w) + (case f of None \<Rightarrow> 0 | Some d \<Rightarrow> of_nat (str_nat d) / 10 ^ length d))
       * (case ex of None \<Rightarrow> 1 | Some (e, sg, ds) \<Rightarrow> if sg = ''-'' then 1 / 10 ^ str_nat ds else 10 ^ str_nat ds)"

definition number_ok :: "string \<Rightarrow> string option \<Rightarrow> (char \<times> string \<times> string) option \<Rightarrow> bool" where
  \<comment> \<open>digits where they belong, and no more than Python's \<open>int\<close> reads\<close>
  "number_ok w f ex =
     (all_digits w \<and> length w \<le> 4300 \<and> (case f of None \<Rightarrow> True | Some d \<Rightarrow> list_all is_digit d)
      \<and> (case ex of None \<Rightarrow> True | Some (e, sg, ds) \<Rightarrow>
            (e = CHR ''e'' \<or> e = CHR ''E'') \<and> sg \<in> {[], ''+'', ''-''} \<and> all_digits ds))"

definition name_text :: "string \<Rightarrow> bool" where
  "name_text s = (s \<noteq> [] \<and> (py_isalpha (hd s) \<or> hd s = CHR ''_'') \<and> list_all name_char s)"

inductive writes :: "tok \<Rightarrow> string \<Rightarrow> bool" where
  punct: "c \<in> set ''(),'' \<Longrightarrow> writes (Punct c) [c]"
| str: "is_quote q \<Longrightarrow> q \<notin> set v \<Longrightarrow> writes (Lit (Str v)) (q # v @ [q])"
| num: "number_ok w f ex \<Longrightarrow> writes (Lit (Num (number_value neg w f ex))) (number_text neg w f ex)"
| kw: "k \<in> set KEYWORDS \<Longrightarrow> py_lower w = k \<Longrightarrow> writes (Kw k) w"
| plain: "name_text s \<Longrightarrow> py_lower s \<notin> set KEYWORDS \<Longrightarrow> writes (Name (Plain s)) s"
| quoted: "name_text p \<Longrightarrow> is_quote q \<Longrightarrow> q \<notin> set key \<Longrightarrow>
    writes (Name (Quoted p key)) (p @ CHR ''.'' # q # key @ [q])"
| quoted_sub: "name_text p \<Longrightarrow> is_quote q \<Longrightarrow> q \<notin> set key \<Longrightarrow> list_all sub_char sub \<Longrightarrow>
    writes (Name (Quoted_Sub p key sub)) (p @ CHR ''.'' # q # key @ q # CHR ''.'' # sub)"
| dotted_name: "writes (Name n) w \<Longrightarrow> writes (Dot n) (CHR ''.'' # w)"
| dotted_kw: "writes (Kw k) w \<Longrightarrow> writes (Dot (Plain k)) (CHR ''.'' # w)"
| op: "p \<in> set OPERATORS \<Longrightarrow> writes (Op p) p"

text \<open>The lexer reads each of them.\<close>

lemma takeWhile_stop: "list_all P a \<Longrightarrow> \<not> P c \<Longrightarrow> takeWhile P (a @ c # b) = a"
  by (induction a) auto

lemma takeWhile_all: "list_all P a \<Longrightarrow> takeWhile P a = a"
  by (induction a) auto

lemma lex_string_written: "q \<notin> set v \<Longrightarrow> lex_string (q # v @ q # r) pos = Inr (v, length v + 2)"
proof -
  assume "q \<notin> set v"
  then have "list_all (\<lambda>c. c \<noteq> q) v" by (auto simp: list_all_iff)
  then have "takeWhile (\<lambda>c. c \<noteq> q) (v @ q # r) = v" by (rule takeWhile_stop) simp
  then show ?thesis by (simp add: lex_string_def Let_def)
qed

lemma digits_read: "list_all is_digit ds \<Longrightarrow> list_all py_isdigit ds"
  by (auto simp: list_all_iff py_isdigit_def)

lemma digit_facts: "is_digit c \<Longrightarrow> c \<noteq> CHR ''e'' \<and> c \<noteq> CHR ''E'' \<and> c \<noteq> CHR ''.'' \<and> c \<noteq> CHR ''-'' \<and> c \<noteq> CHR ''+''"
  by (auto simp: is_digit_def)

lemma lex_exponent_written:
  assumes "sg \<in> {[], ''+'', ''-''}" "all_digits ds"
  shows "lex_exponent (sg @ ds) = Some (length sg + length ds)"
    "read_exponent (sg @ ds) = Some (if sg = ''-'' then 1 / 10 ^ str_nat ds else 10 ^ str_nat ds)"
proof -
  obtain c cs where ds: "ds = c # cs" "is_digit c" using assms(2) by (cases ds) (auto simp: all_digits_def)
  have t: "takeWhile py_isdigit ds = ds" using assms(2) digits_read takeWhile_all by (auto simp: all_digits_def)
  show "lex_exponent (sg @ ds) = Some (length sg + length ds)"
    using assms(1) ds t digit_facts [OF ds(2)] by (auto simp: lex_exponent_def Let_def)
  show "read_exponent (sg @ ds) = Some (if sg = ''-'' then 1 / 10 ^ str_nat ds else 10 ^ str_nat ds)"
    using assms ds digit_facts [OF ds(2)] by (auto simp: read_exponent_def)
qed

definition mantissa_text :: "string \<Rightarrow> string option \<Rightarrow> string" where
  "mantissa_text w f = w @ (case f of None \<Rightarrow> [] | Some d \<Rightarrow> CHR ''.'' # d)"

lemma read_mantissa_written:
  assumes "all_digits w" "case f of None \<Rightarrow> True | Some d \<Rightarrow> list_all is_digit d"
  shows "read_mantissa (mantissa_text w f)
    = Some (of_nat (str_nat w) + (case f of None \<Rightarrow> 0 | Some d \<Rightarrow> of_nat (str_nat d) / 10 ^ length d))"
proof -
  have w: "list_all is_digit w" "w \<noteq> []" "CHR ''.'' \<notin> set w"
    using assms(1) digit_facts by (auto simp: all_digits_def list_all_iff)
  show ?thesis
  proof (cases f)
    case None
    then show ?thesis using w by (simp add: mantissa_text_def read_mantissa_def partition_char_notin)
  next
    case (Some d)
    have "partition_char (CHR ''.'') (w @ CHR ''.'' # d) = (w, True, d)"
    proof -
      have "dropWhile (\<lambda>x. x \<noteq> CHR ''.'') (w @ CHR ''.'' # d) = CHR ''.'' # d"
        by (subst dropWhile_append2) (use w(3) in auto)
      moreover have "takeWhile (\<lambda>x. x \<noteq> CHR ''.'') (w @ CHR ''.'' # d) = w"
        by (rule takeWhile_stop) (use w(3) in \<open>auto simp: list_all_iff\<close>)
      ultimately show ?thesis by (simp add: partition_char_def)
    qed
    moreover have "str_nat (w @ d) = str_nat w * 10 ^ length d + str_nat d"
    proof (induction d rule: rev_induct)
      case (snoc c d)
      then show ?case by (simp add: str_nat_append append_assoc [symmetric] del: append_assoc)
    qed (simp add: str_nat_def)
    ultimately show ?thesis using w assms(2) Some
      by (simp add: mantissa_text_def read_mantissa_def add_divide_distrib)
  qed
qed

lemma number_written:
  assumes ok: "number_ok w f ex"
  shows "read_number (number_text neg w f ex) = Some (number_value neg w f ex)"
proof -
  let ?m = "mantissa_text w f"
  let ?x = "case ex of None \<Rightarrow> [] | Some (e, sg, ds) \<Rightarrow> e # sg @ ds"
  have w: "list_all is_digit w" "w \<noteq> []" and f: "case f of None \<Rightarrow> True | Some d \<Rightarrow> list_all is_digit d"
    and m: "all_digits w" using ok by (auto simp: number_ok_def all_digits_def)
  have no_e: "list_all (\<lambda>c. c \<noteq> CHR ''e'' \<and> c \<noteq> CHR ''E'') ?m"
    using w f digit_facts by (auto simp: mantissa_text_def list_all_iff split: option.splits)
  have text_eq: "number_text neg w f ex = (if neg then ''-'' else []) @ ?m @ ?x"
    by (simp add: number_text_def mantissa_text_def)
  obtain c cs where c: "?m @ ?x = c # cs" "is_digit c"
    using w by (cases w) (auto simp: mantissa_text_def)
  have sign: "split_sign (number_text neg w f ex) = (neg, ?m @ ?x)"
    unfolding text_eq c(1) using digit_facts [OF c(2)] by (simp add: split_sign_def)
  define M :: rat where "M = of_nat (str_nat w) + (case f of None \<Rightarrow> 0 | Some d \<Rightarrow> of_nat (str_nat d) / 10 ^ length d)"
  have mant: "read_mantissa ?m = Some M" using read_mantissa_written [OF m f] by (simp add: M_def)
  have total: "number_value neg w f ex = (if neg then -1 else 1) * M
      * (case ex of None \<Rightarrow> 1 | Some (e, sg, ds) \<Rightarrow> if sg = ''-'' then 1 / 10 ^ str_nat ds else 10 ^ str_nat ds)"
    by (simp add: number_value_def M_def)
  show ?thesis
  proof (cases ex)
    case None
    have "split_exponent ?m = (?m, None)"
      using no_e by (simp add: split_exponent_def dropWhile_eq_Nil_conv [THEN iffD2] list_all_iff)
    then show ?thesis using sign mant total None by (simp add: read_number_def signed_def)
  next
    case (Some x)
    obtain e sg ds where x: "x = (e, sg, ds)" by (metis prod.collapse)
    have e: "e = CHR ''e'' \<or> e = CHR ''E''" "sg \<in> {[], ''+'', ''-''}" "all_digits ds"
      using ok Some x by (auto simp: number_ok_def)
    have "dropWhile (\<lambda>c. c \<noteq> CHR ''e'' \<and> c \<noteq> CHR ''E'') (?m @ e # sg @ ds) = e # sg @ ds"
      using no_e e(1) by (subst dropWhile_append2) (auto simp: list_all_iff)
    moreover have "takeWhile (\<lambda>c. c \<noteq> CHR ''e'' \<and> c \<noteq> CHR ''E'') (?m @ e # sg @ ds) = ?m"
      using no_e e(1) by (intro takeWhile_stop) auto
    ultimately have "split_exponent (?m @ e # sg @ ds) = (?m, Some (sg @ ds))" by (simp add: split_exponent_def)
    then show ?thesis using sign mant total lex_exponent_written(2) [OF e(2,3)] Some x
      by (simp add: read_number_def signed_def)
  qed
qed

lemma lex_number_written:
  assumes ok: "number_ok w f ex"
  shows "lex_number (number_text neg w f ex) pos = Inr (Lit (Num (number_value neg w f ex)), length (number_text neg w f ex))"
    and "starts_number (number_text neg w f ex)"
proof -
  let ?P = "\<lambda>c. py_isdigit c \<or> c = CHR ''.''"
  let ?h = "(if neg then ''-'' else []) @ mantissa_text w f"
  define X where "X = (case ex of None \<Rightarrow> [] | Some (e, sg, ds) \<Rightarrow> e # sg @ ds)"
  have w: "list_all is_digit w" "w \<noteq> []" and f: "case f of None \<Rightarrow> True | Some d \<Rightarrow> list_all is_digit d"
    using ok by (auto simp: number_ok_def all_digits_def)
  have body: "list_all ?P (mantissa_text w f)"
    using w(1) f by (auto simp: mantissa_text_def list_all_iff py_isdigit_def split: option.splits)
  obtain c cs where h: "?h = c # cs" "list_all ?P cs"
    using body w(2) by (cases neg; cases w) (auto simp: mantissa_text_def)
  have text_eq: "number_text neg w f ex = c # cs @ X"
  proof -
    have "number_text neg w f ex = ?h @ X" by (simp add: number_text_def mantissa_text_def X_def)
    then show ?thesis unfolding h(1) by simp
  qed
  have "X = [] \<or> \<not> ?P (hd X)"
    using ok by (auto simp: X_def number_ok_def py_isdigit_def is_digit_def split: option.splits)
  then have run: "takeWhile ?P (cs @ X) = cs" using takeWhile_run [OF h(2)] by blast
  have ended: "(case X of e # r \<Rightarrow> if e = CHR ''e'' \<or> e = CHR ''E'' then map_option (\<lambda>k. Suc (length cs) + 1 + k) (lex_exponent r)
      else Some (Suc (length cs)) | [] \<Rightarrow> Some (Suc (length cs))) = Some (Suc (length cs) + length X)"
  proof (cases ex)
    case (Some x)
    obtain e sg ds where x: "x = (e, sg, ds)" by (metis prod.collapse)
    have e: "e = CHR ''e'' \<or> e = CHR ''E''" "sg \<in> {[], ''+'', ''-''}" "all_digits ds"
      using ok Some x by (auto simp: number_ok_def)
    show ?thesis using lex_exponent_written(1) [OF e(2,3)] e(1) by (simp add: X_def Some x)
  qed (simp add: X_def)
  have tail: "drop (Suc (length cs)) (c # cs @ X) = X" "take (Suc (length cs) + length X) (c # cs @ X) = c # cs @ X"
    by simp_all
  show "lex_number (number_text neg w f ex) pos = Inr (Lit (Num (number_value neg w f ex)), length (number_text neg w f ex))"
    using number_written [OF ok, of neg]
    unfolding text_eq lex_number_def Let_def list.sel run tail(1) ended option.case tail(2) by simp
  show "starts_number (number_text neg w f ex)"
    using w by (cases w) (auto simp: number_text_def starts_number_def py_isdigit_def)
qed

lemma name_char_basic: "name_char CHR ''.''" "is_quote q \<Longrightarrow> \<not> name_char q" "is_quote q \<Longrightarrow> \<not> sub_char q"
  by (auto simp: name_char_def sub_char_def is_quote_def py_isalnum_def py_isalpha_def py_isdigit_def is_digit_def)

lemma lex_name_plain:
  assumes "list_all name_char s" "py_lower s \<notin> set KEYWORDS"
  shows "lex_name s pos = Inr (Name (Plain s), length s)"
  using assms by (simp add: lex_name_def takeWhile_all)

lemma keyword_chars:
  assumes "py_lower w \<in> set KEYWORDS"
  shows "list_all name_char w" "w \<noteq> []" "py_isalpha (hd w)"
proof -
  have "list_all py_isalpha w"
  proof (rule ccontr)
    assume "\<not> list_all py_isalpha w"
    then obtain c where c: "c \<in> set w" "\<not> py_isalpha c" by (auto simp: list_all_iff)
    then have "py_lower_char c \<in> set (py_lower w)" by (simp add: py_lower_def)
    moreover have "py_lower_char c = c" using c(2) by (auto simp: py_lower_char_def py_isalpha_def)
    moreover have "list_all (list_all py_isalpha) KEYWORDS" by code_simp
    ultimately show False using assms c(2) by (auto simp: list_all_iff)
  qed
  moreover show "w \<noteq> []" using assms by (auto simp: KEYWORDS_def py_lower_def)
  ultimately show "list_all name_char w" "py_isalpha (hd w)"
    by (auto simp: list_all_iff name_char_def py_isalnum_def)
qed

lemma lex_name_keyword:
  assumes "py_lower w \<in> set KEYWORDS"
  shows "lex_name w pos = Inr (Kw (py_lower w), length w)"
  using assms keyword_chars [OF assms] by (simp add: lex_name_def takeWhile_all)

lemma lex_name_quoted:
  assumes p: "list_all name_char p" and q: "is_quote q" "q \<notin> set key"
    and sub: "lex_subfield r p key = (n, length r)"
  shows "lex_name (p @ CHR ''.'' # q # key @ q # r) pos = Inr (Name n, length p + length key + length r + 3)"
proof -
  let ?s = "p @ CHR ''.'' # q # key @ q # r"
  have "list_all name_char (p @ ''.'')" using p name_char_basic(1) by simp
  then have "takeWhile name_char ((p @ ''.'') @ q # key @ q # r) = p @ ''.''"
    using name_char_basic(2) [OF q(1)] by (intro takeWhile_stop)
  then have raw: "takeWhile name_char ?s = p @ ''.''" by simp
  show ?thesis
    unfolding lex_name_def raw Let_def using q lex_string_written [OF q(2), of r "Suc (pos + length p)"] sub
    by (simp add: butlast_append)
qed

lemma operator_found: "p \<in> set OPERATORS \<Longrightarrow> find_operator p = Some p"
proof -
  have "list_all (\<lambda>p. find_operator p = Some p) OPERATORS" by code_simp
  then show "p \<in> set OPERATORS \<Longrightarrow> ?thesis" by (simp add: list_all_iff)
qed

lemma name_head_written: "writes t w \<Longrightarrow> (\<exists>n. t = Name n) \<or> (\<exists>k. t = Kw k) \<Longrightarrow>
    w \<noteq> [] \<and> (py_isalpha (hd w) \<or> hd w = CHR ''_'') \<and> (\<forall>pos. lex_name w pos = Inr (t, length w))"
proof (induction rule: writes.induct)
  case (kw k w)
  then show ?case using keyword_chars [of w] lex_name_keyword [of w] by simp
next
  case (plain s)
  then show ?case using lex_name_plain [of s] by (simp add: name_text_def)
next
  case (quoted p q key)
  have "lex_name (p @ CHR ''.'' # q # key @ [q]) pos = Inr (Name (Quoted p key), length p + length key + 3)" for pos
    using lex_name_quoted [of p q key "[]" "Quoted p key" pos] quoted by (simp add: name_text_def lex_subfield_def)
  then show ?case using quoted by (cases p) (simp_all add: name_text_def)
next
  case (quoted_sub p q key sub)
  have "lex_subfield (CHR ''.'' # sub) p key = (Quoted_Sub p key sub, length (CHR ''.'' # sub))"
    using quoted_sub by (simp add: lex_subfield_def takeWhile_all Let_def)
  then have "lex_name (p @ CHR ''.'' # q # key @ q # CHR ''.'' # sub) pos
      = Inr (Name (Quoted_Sub p key sub), length p + length key + length (CHR ''.'' # sub) + 3)" for pos
    by (intro lex_name_quoted) (use quoted_sub in \<open>auto simp: name_text_def\<close>)
  then show ?case using quoted_sub by (cases p) (simp_all add: name_text_def)
qed auto

lemma writes_spelled: "writes t w \<Longrightarrow> spelled t w"
proof (induction rule: writes.induct)
  case (punct c)
  then show ?case by (auto simp: spelled_def lex_one_def is_space_def)
next
  case (str q v)
  then show ?case using lex_string_written [of q v "[]" 0] by (simp add: spelled_def lex_one_string)
next
  case (num w f ex neg)
  note n = lex_number_written [OF num, of neg]
  obtain c cs where c: "number_text neg w f ex = c # cs"
    using n(2) by (cases "number_text neg w f ex") (auto simp: starts_number_def)
  show ?case using n(1) [of 0] lex_one_number [OF n(2) [unfolded c]] unfolding c by (simp add: spelled_def)
next
  case (op p)
  obtain c cs where c: "p = c # cs" using op by (cases p) (auto simp: OPERATORS_def)
  show ?case using lex_one_operator [of c cs p] operator_found [OF op] c by (simp add: spelled_def)
next
  case (dotted_name n w)
  note h = name_head_written [OF dotted_name.hyps]
  have "dot_starts_name w" using h by (auto simp: dot_starts_name_def)
  then show ?case using h by (simp add: spelled_def lex_one_dot dotted_def)
next
  case (dotted_kw k w)
  note h = name_head_written [OF dotted_kw.hyps]
  have "dot_starts_name w" using h by (auto simp: dot_starts_name_def)
  then show ?case using h by (simp add: spelled_def lex_one_dot dotted_def)
next
  case (kw k w)
  note h = name_head_written [OF writes.kw [OF kw]]
  then obtain c cs where "w = c # cs" by (cases w) auto
  then show ?case using h by (simp add: spelled_def lex_one_name)
next
  case (plain s)
  note h = name_head_written [OF writes.plain [OF plain]]
  then obtain c cs where "s = c # cs" by (cases s) auto
  then show ?case using h by (simp add: spelled_def lex_one_name)
next
  case (quoted p q key)
  note h = name_head_written [OF writes.quoted [OF quoted]]
  obtain c cs where "p = c # cs" using quoted by (cases p) (auto simp: name_text_def)
  then show ?case using h by (simp add: spelled_def lex_one_name)
next
  case (quoted_sub p q key sub)
  note h = name_head_written [OF writes.quoted_sub [OF quoted_sub]]
  obtain c cs where "p = c # cs" using quoted_sub by (cases p) (auto simp: name_text_def)
  then show ?case using h by (simp add: spelled_def lex_one_name)
qed

inductive spells :: "tok list \<Rightarrow> string \<Rightarrow> bool" where
  \<comment> \<open>a text that writes the tokens in turn, spaces between them\<close>
  spells_Nil: "spells [] []"
| spells_space: "is_space c \<Longrightarrow> spells ts s \<Longrightarrow> spells ts (c # s)"
| spells_tok: "writes t w \<Longrightarrow> spells ts s \<Longrightarrow> gap s \<Longrightarrow> spells (t # ts) (w @ s)"

lemma spells_tokenize: "spells ts s \<Longrightarrow> \<exists>us. tokenize_from s pos = Inr us \<and> map fst us = ts @ [End]"
proof (induction arbitrary: pos rule: spells.induct)
  case spells_Nil
  then show ?case by (simp add: tokenize_from.simps)
next
  case (spells_space c ts s)
  obtain us where "tokenize_from s (pos + 1) = Inr us" "map fst us = ts @ [End]" using spells_space.IH by blast
  then show ?case
    using spells_space.hyps(1) by (subst tokenize_from.simps) (simp add: lex_one_def)
next
  case (spells_tok t w ts s)
  obtain off where lex: "lex_one (w @ s) pos = Inr (Some (t, off), length w)"
    using spelled_lex [OF writes_spelled] spells_tok.hyps(1,3) by blast
  obtain us where us: "tokenize_from s (pos + length w) = Inr us" "map fst us = ts @ [End]" using spells_tok.IH by blast
  have "w @ s \<noteq> []" using lex by (auto simp: lex_one_def)
  then show ?case using lex us by (subst tokenize_from.simps) auto
qed

section \<open>Reading back\<close>

lemma spells_blank: "spells ts s \<Longrightarrow> list_all is_space s \<Longrightarrow> ts = []"
proof (induction rule: spells.induct)
  case (spells_tok t w ts s)
  have "\<not> (\<exists>c cs. w = c # cs \<and> is_space c)" "w \<noteq> []"
    using writes_spelled [OF spells_tok.hyps(1)] by (auto simp: spelled_def lex_one_def)
  then show ?case using spells_tok.prems by (cases w) auto
qed auto

lemma blank_strip: "str_strip s = [] \<Longrightarrow> list_all is_space s"
proof -
  assume "str_strip s = []"
  then have all: "\<forall>c \<in> set (dropWhile is_space (rev s)). is_space c"
    by (simp add: str_strip_def strip_left_def strip_right_def dropWhile_eq_Nil_conv)
  have "dropWhile is_space (rev s) = []"
    using all hd_dropWhile [of is_space "rev s"] by (metis list.set_sel(1))
  then show ?thesis by (simp add: dropWhile_eq_Nil_conv list_all_iff)
qed

lemma node_toks_nonempty: "wf_node t \<Longrightarrow> node_toks t \<noteq> []"
  using field_toks_Name by (cases t) (auto simp: bracketed_def)

lemma parsed_spelled:
  assumes "wf_node t" "height t \<le> MAX_NESTING" "spells (node_toks t) s"
  shows "parsed s = Inr (t, [])"
proof -
  obtain us where us: "tokenize s = Inr us" "map fst us = node_toks t @ [End]"
    using spells_tokenize [OF assms(3), of 0] by (auto simp: tokenize_def)
  obtain u where "parse_tokens (us, []) = Inr (t, [u], [])"
    using parse_node_toks [OF assms(1,2) us(2)] by blast
  then show ?thesis by (simp add: parsed_def us(1) bind_qres_def)
qed


definition demo_query :: node where
  "demo_query = Or [Cmp (Path [''metrics'', ''train/loss'']) Lt (Num 5), Not (In (Path [''status'']) [Str ''failed'', Null])]"

definition demo_words :: "(tok \<times> string) list" where
  "demo_words =
     [(Punct (CHR ''(''), ''(''), (Name (Quoted ''metrics'' ''train/loss''), ''metrics.\"train/loss\"''), (Op ''<'', ''<''),
      (Lit (Num 5), ''0.5e1''), (Kw ''or'', ''OR''), (Kw ''not'', ''not''), (Name (Plain ''status''), ''status''),
      (Kw ''in'', ''in''), (Punct (CHR ''(''), ''(''), (Lit (Str ''failed''), CHR 0x27 # ''failed'' @ [CHR 0x27]),
      (Punct (CHR '',''), '',''), (Kw ''null'', ''null''), (Punct (CHR '')''), '')''), (Punct (CHR '')''), '')'')]"

lemma spells_words:
  "list_all (\<lambda>(t, w). writes t w) tws \<Longrightarrow> spells (map fst tws) (concat (map (\<lambda>(t, w). w @ '' '') tws))"
proof (induction tws)
  case (Cons tw tws)
  have "spells (map fst tws) ('' '' @ concat (map (\<lambda>(t, w). w @ '' '') tws))"
    using Cons by (auto intro!: spells_space simp: is_space_def)
  then show ?case using Cons.prems by (cases tw) (auto simp: gap_def is_space_def intro!: spells_tok [of _ _ _ "'' '' @ _", simplified])
qed (simp add: spells_Nil)

lemma demo_written: "list_all (\<lambda>(t, w). writes t w) demo_words"
proof -
  have "writes (Lit (Num 5)) ''0.5e1''"
    using writes.num [of "''0''" "Some ''5''" "Some (CHR ''e'', [], ''1'')" False]
    by (simp add: number_ok_def number_value_def number_text_def all_digits_def is_digit_def str_nat_def digit_val_def)
  moreover have "writes (Name (Quoted ''metrics'' ''train/loss'')) ''metrics.\"train/loss\"''"
    using writes.quoted [of "''metrics''" "CHR 0x22" "''train/loss''"] by (simp add: name_text_def is_quote_def py_isalpha_def name_char_def py_isalnum_def)
  moreover have "writes (Name (Plain ''status'')) ''status''"
    by (rule writes.plain) (simp_all add: name_text_def py_isalpha_def name_char_def py_isalnum_def py_lower_def py_lower_char_def KEYWORDS_def)
  moreover have "writes (Lit (Str ''failed'')) (CHR 0x27 # ''failed'' @ [CHR 0x27])"
    by (rule writes.str) (simp_all add: is_quote_def)
  moreover have "writes (Kw ''or'') ''OR''" "writes (Kw ''not'') ''not''" "writes (Kw ''in'') ''in''" "writes (Kw ''null'') ''null''"
    by (rule writes.kw; code_simp)+
  ultimately show ?thesis by (simp add: demo_words_def writes.punct writes.op OPERATORS_def)
qed


end
