(* ===== verification/Sweep_Spec.thy ===== *)
theory Sweep_Spec
imports Query_Lexer "HOL-Library.Char_ord" "HOL-Library.List_Lexorder"
begin

text \<open>
  The spec of a hyper-parameter sweep, from core/sweep/spec.py and core/sweep/suggest.py: validation
  and normalization of what a YAML file or the stored metadata says, the size of a grid and its
  points. A float is a rational, an infinity or not a number; it is not rounded.
\<close>

section \<open>YAML values\<close>

datatype float_val = Fin rat | Pos_Inf | Neg_Inf | NaN

datatype sv =
    SNull
  | SBool bool
  | SInt int
  | SFloat float_val
  | SStr string
  | SList "sv list"
  | SMap "(string \<times> sv) list"

datatype spec_exn = Spec_Error | Overflow | Raised exn

type_synonym 'a sres = "spec_exn + 'a"

definition bind_sres :: "'a sres \<Rightarrow> ('a \<Rightarrow> 'b sres) \<Rightarrow> 'b sres" where
  "bind_sres m f = (case m of Inl e \<Rightarrow> Inl e | Inr x \<Rightarrow> f x)"

lemma bind_sres_simps [simp]:
  "bind_sres (Inl e) f = Inl e"
  "bind_sres (Inr x) f = f x"
  by (simp_all add: bind_sres_def)

lemma bind_sres_eq_Inr [simp]: "bind_sres m f = Inr y \<longleftrightarrow> (\<exists>x. m = Inr x \<and> f x = Inr y)"
  by (cases m) simp_all

fun s_truthy :: "sv \<Rightarrow> bool" where
  "s_truthy SNull = False"
| "s_truthy (SBool b) = b"
| "s_truthy (SInt i) = (i \<noteq> 0)"
| "s_truthy (SFloat f) = (f \<noteq> Fin 0)"
| "s_truthy (SStr s) = (s \<noteq> [])"
| "s_truthy (SList xs) = (xs \<noteq> [])"
| "s_truthy (SMap m) = (m \<noteq> [])"

definition s_get :: "(string \<times> sv) list \<Rightarrow> string \<Rightarrow> sv" where
  \<comment> \<open>\<open>m.get(k)\<close>\<close>
  "s_get m k = (case map_of m k of None \<Rightarrow> SNull | Some v \<Rightarrow> v)"

section \<open>Numbers out of values\<close>

fun between_digits :: "bool \<Rightarrow> string \<Rightarrow> bool" where
  \<comment> \<open>every underscore has a digit on either side; the flag tells a digit before\<close>
  "between_digits before [] = True"
| "between_digits before (c # cs) =
     (if c = CHR ''_'' then before \<and> cs \<noteq> [] \<and> is_digit (hd cs) \<and> between_digits False cs
      else between_digits (is_digit c) cs)"

definition number_text :: "string \<Rightarrow> string option" where
  "number_text s = (let t = str_strip s in if between_digits False t then Some (filter (\<lambda>c. c \<noteq> CHR ''_'') t) else None)"

definition split_plus :: "string \<Rightarrow> bool \<times> string" where
  \<comment> \<open>whether a minus sign leads, and what follows the sign\<close>
  "split_plus s = (case s of c # cs \<Rightarrow> if c = CHR ''+'' then (False, cs) else split_sign s | [] \<Rightarrow> (False, s))"

definition float_of_text :: "string \<Rightarrow> float_val option" where
  \<comment> \<open>\<open>float(s)\<close>\<close>
  "float_of_text s =
     (case number_text s of
        None \<Rightarrow> None
      | Some t \<Rightarrow>
          (case split_plus t of (neg, u) \<Rightarrow>
             if py_lower u \<in> {''inf'', ''infinity''} then Some (if neg then Neg_Inf else Pos_Inf)
             else if py_lower u = ''nan'' then Some NaN
             else (case split_exponent u of (mantissa, ex) \<Rightarrow>
               case (read_mantissa mantissa, case ex of None \<Rightarrow> Some 1 | Some e \<Rightarrow> read_exponent e) of
                 (Some m, Some f) \<Rightarrow> Some (Fin (signed neg (m * f)))
               | _ \<Rightarrow> None)))"

definition int_of_text :: "string \<Rightarrow> int option" where
  \<comment> \<open>\<open>int(s)\<close>\<close>
  "int_of_text s =
     (case number_text s of
        None \<Rightarrow> None
      | Some t \<Rightarrow> (case split_plus t of (neg, u) \<Rightarrow>
          if all_digits u then Some (if neg then - int (str_nat u) else int (str_nat u)) else None))"

definition to_float :: "sv \<Rightarrow> float_val sres" where
  \<comment> \<open>\<open>float(v)\<close>\<close>
  "to_float v =
     (case v of
        SBool b \<Rightarrow> Inr (Fin (if b then 1 else 0))
      | SInt i \<Rightarrow> Inr (Fin (of_int i))
      | SFloat f \<Rightarrow> Inr f
      | SStr s \<Rightarrow> (case float_of_text s of None \<Rightarrow> Inl (Raised ValueErr) | Some f \<Rightarrow> Inr f)
      | _ \<Rightarrow> Inl (Raised TypeErr))"

definition truncate_rat :: "rat \<Rightarrow> int" where
  "truncate_rat x = (if x < 0 then \<lceil>x\<rceil> else \<lfloor>x\<rfloor>)"

definition to_int :: "sv \<Rightarrow> int sres" where
  \<comment> \<open>\<open>int(v)\<close>\<close>
  "to_int v =
     (case v of
        SBool b \<Rightarrow> Inr (if b then 1 else 0)
      | SInt i \<Rightarrow> Inr i
      | SFloat f \<Rightarrow> (case f of Fin x \<Rightarrow> Inr (truncate_rat x) | NaN \<Rightarrow> Inl (Raised ValueErr) | _ \<Rightarrow> Inl Overflow)
      | SStr s \<Rightarrow> (case int_of_text s of None \<Rightarrow> Inl (Raised ValueErr) | Some i \<Rightarrow> Inr i)
      | _ \<Rightarrow> Inl (Raised TypeErr))"

definition caught :: "'a sres \<Rightarrow> 'a sres" where
  \<comment> \<open>\<open>except (TypeError, ValueError): raise SpecError\<close>\<close>
  "caught m = (case m of Inl (Raised e) \<Rightarrow> if e = TypeErr \<or> e = ValueErr then Inl Spec_Error else m | _ \<Rightarrow> m)"

definition number :: "sv \<Rightarrow> rat sres" where
  \<comment> \<open>\<open>_number\<close>: finite\<close>
  "number v = bind_sres (caught (to_float v)) (\<lambda>f. case f of Fin x \<Rightarrow> Inr x | _ \<Rightarrow> Inl Spec_Error)"

definition positive_int :: "sv \<Rightarrow> int sres" where
  "positive_int v = bind_sres (caught (to_int v)) (\<lambda>i. if i < 1 then Inl Spec_Error else Inr i)"

section \<open>Parameters\<close>

datatype dist = Uniform | Log_Uniform | Int_Uniform

datatype param =
    Fixed sv
  | Choice "sv list"
  | Normal rat rat
  | Bounded dist rat rat

definition dist_named :: "string \<Rightarrow> dist option" where
  "dist_named s =
     (if s = ''uniform'' then Some Uniform else if s = ''log_uniform'' then Some Log_Uniform
      else if s = ''int_uniform'' then Some Int_Uniform else None)"

definition is_int :: "sv \<Rightarrow> bool" where
  \<comment> \<open>\<open>isinstance(v, int)\<close>, which a boolean is\<close>
  "is_int v = (case v of SInt _ \<Rightarrow> True | SBool _ \<Rightarrow> True | _ \<Rightarrow> False)"

definition bounded :: "dist \<Rightarrow> (string \<times> sv) list \<Rightarrow> param sres" where
  "bounded d m =
     (case (map_of m ''min'', map_of m ''max'') of
        (Some vlo, Some vhi) \<Rightarrow>
          bind_sres (number vlo) (\<lambda>lo0. bind_sres (number vhi) (\<lambda>hi0.
            let lo = (if d = Int_Uniform then of_int (truncate_rat lo0) else lo0);
                hi = (if d = Int_Uniform then of_int (truncate_rat hi0) else hi0)
            in if lo > hi \<or> (d = Log_Uniform \<and> lo \<le> 0) then Inl Spec_Error else Inr (Bounded d lo hi)))
      | _ \<Rightarrow> Inl Spec_Error)"

definition get_or :: "(string \<times> sv) list \<Rightarrow> string \<Rightarrow> sv \<Rightarrow> sv" where
  "get_or m k v = (case map_of m k of None \<Rightarrow> v | Some w \<Rightarrow> w)"

definition default_dist :: "(string \<times> sv) list \<Rightarrow> sv" where
  \<comment> \<open>the distribution named, or the one that the types of its bounds say\<close>
  "default_dist m =
     (if s_get m ''distribution'' = SNull \<and> map_of m ''min'' \<noteq> None \<and> map_of m ''max'' \<noteq> None
      then SStr (if is_int (s_get m ''min'') \<and> is_int (s_get m ''max'') then ''int_uniform'' else ''uniform'')
      else s_get m ''distribution'')"

definition parameter :: "sv \<Rightarrow> param sres" where
  "parameter v =
     (case v of
        SMap m \<Rightarrow>
          if map_of m ''value'' \<noteq> None then Inr (Fixed (s_get m ''value''))
          else if map_of m ''values'' \<noteq> None \<or> s_get m ''distribution'' = SStr ''categorical'' then
            (case s_get m ''values'' of SList vs \<Rightarrow> if vs = [] then Inl Spec_Error else Inr (Choice vs) | _ \<Rightarrow> Inl Spec_Error)
          else (case default_dist m of
                  SStr d \<Rightarrow>
                    if d = ''normal'' then
                      bind_sres (number (get_or m ''mu'' (SFloat (Fin 0)))) (\<lambda>mu.
                      bind_sres (number (get_or m ''sigma'' (SFloat (Fin 1)))) (\<lambda>sigma. Inr (Normal mu sigma)))
                    else (case dist_named d of None \<Rightarrow> Inl Spec_Error | Some k \<Rightarrow> bounded k m)
                | _ \<Rightarrow> Inl Spec_Error)
      | _ \<Rightarrow> Inl Spec_Error)"

fun discrete :: "param \<Rightarrow> bool" where
  "discrete (Fixed v) = True"
| "discrete (Choice vs) = True"
| "discrete (Normal mu sigma) = False"
| "discrete (Bounded d lo hi) = (d = Int_Uniform)"

datatype sweep_method = Grid | Random | Bayes

fun each_parameter :: "sweep_method \<Rightarrow> (string \<times> sv) list \<Rightarrow> (string \<times> param) list sres" where
  "each_parameter how [] = Inr []"
| "each_parameter how ((name, v) # rest) =
     bind_sres (parameter v) (\<lambda>p.
       if how = Grid \<and> \<not> discrete p then Inl Spec_Error
       else bind_sres (each_parameter how rest) (\<lambda>ps. Inr ((name, p) # ps)))"

definition parameters :: "sv \<Rightarrow> sweep_method \<Rightarrow> (string \<times> param) list sres" where
  \<comment> \<open>walked in the order of their names\<close>
  "parameters v how =
     (case v of SMap m \<Rightarrow> if m = [] then Inl Spec_Error else each_parameter how (sort_key fst m) | _ \<Rightarrow> Inl Spec_Error)"

section \<open>The spec\<close>

datatype goal = Minimize | Maximize

record early_rule =
  min_iter :: int
  min_trials :: int
  check_interval :: float_val

record sweep_spec =
  spec_method :: sweep_method
  metric_name :: string
  metric_goal :: goal
  spec_parameters :: "(string \<times> param) list"
  seed :: int
  run_cap :: "int option"
  early_terminate :: "early_rule option"
  command :: "string list option"
  program :: "sv option"

definition method_named :: "sv \<Rightarrow> sweep_method option" where
  "method_named v =
     (if v = SStr ''grid'' then Some Grid else if v = SStr ''random'' then Some Random
      else if v = SStr ''bayes'' then Some Bayes else None)"

definition goal_named :: "sv \<Rightarrow> goal option" where
  \<comment> \<open>no other value prints as one of the names\<close>
  "goal_named v =
     (case v of
        SStr s \<Rightarrow>
          if py_lower s \<in> {''min'', ''minimize''} then Some Minimize
          else if py_lower s \<in> {''max'', ''maximize''} then Some Maximize else None
      | _ \<Rightarrow> None)"

definition metric :: "(sv \<Rightarrow> string) \<Rightarrow> sv \<Rightarrow> (string \<times> goal) sres" where
  \<comment> \<open>\<open>show_value\<close> is Python's \<open>str\<close>\<close>
  "metric show_value v =
     (case v of
        SMap m \<Rightarrow>
          if \<not> s_truthy (s_get m ''name'') then Inl Spec_Error
          else (case goal_named (get_or m ''goal'' (SStr ''minimize'')) of
                  None \<Rightarrow> Inl Spec_Error
                | Some g \<Rightarrow> Inr (show_value (s_get m ''name''), g))
      | _ \<Rightarrow> Inl Spec_Error)"

definition early_conf :: "sv \<Rightarrow> early_rule sres" where
  \<comment> \<open>\<open>_early_terminate\<close>, over its defaults\<close>
  "early_conf v =
     (case v of
        SMap m \<Rightarrow>
          if s_get m ''type'' \<noteq> SStr ''median'' then Inl Spec_Error
          else bind_sres (positive_int (get_or m ''min_iter'' (SInt 3))) (\<lambda>i.
               bind_sres (positive_int (get_or m ''min_trials'' (SInt 1))) (\<lambda>t.
               bind_sres (to_float (get_or m ''check_interval_sec'' (SFloat (Fin 10)))) (\<lambda>c.
               Inr \<lparr>min_iter = i, min_trials = t, check_interval = c\<rparr>)))
      | _ \<Rightarrow> Inl Spec_Error)"

definition given :: "(sv \<Rightarrow> 'a sres) \<Rightarrow> sv \<Rightarrow> 'a option sres" where
  \<comment> \<open>unless the value is None\<close>
  "given f v = (if v = SNull then Inr None else map_sum id Some (f v))"

fun str_list :: "sv list \<Rightarrow> string list option" where
  "str_list [] = Some []"
| "str_list (v # vs) = (case v of SStr s \<Rightarrow> map_option (Cons s) (str_list vs) | _ \<Rightarrow> None)"

definition command_of :: "sv \<Rightarrow> string list sres" where
  "command_of v = (case v of SList vs \<Rightarrow> (case str_list vs of None \<Rightarrow> Inl Spec_Error | Some ss \<Rightarrow> Inr ss) | _ \<Rightarrow> Inl Spec_Error)"

definition parse_spec :: "(sv \<Rightarrow> string) \<Rightarrow> sv \<Rightarrow> sweep_spec sres" where
  "parse_spec show_value data =
     (case data of
        SMap m \<Rightarrow>
          (case method_named (s_get m ''method'') of
             None \<Rightarrow> Inl Spec_Error
           | Some how \<Rightarrow>
               bind_sres (metric show_value (s_get m ''metric'')) (\<lambda>(name, g).
               bind_sres (parameters (s_get m ''parameters'') how) (\<lambda>ps.
               bind_sres (to_int (get_or m ''seed'' (SInt 0))) (\<lambda>sd.
               bind_sres (given positive_int (s_get m ''run_cap'')) (\<lambda>cap.
               bind_sres (given early_conf (s_get m ''early_terminate'')) (\<lambda>early.
               bind_sres (given command_of (s_get m ''command'')) (\<lambda>cmd.
               bind_sres (given Inr (s_get m ''program'')) (\<lambda>prog.
               Inr \<lparr>spec_method = how, metric_name = name, metric_goal = g, spec_parameters = ps, seed = sd,
                    run_cap = cap, early_terminate = early, command = cmd, program = prog\<rparr>))))))))
      | _ \<Rightarrow> Inl Spec_Error)"

section \<open>The dictionary it is kept as\<close>

fun dist_name :: "dist \<Rightarrow> string" where
  "dist_name Uniform = ''uniform''"
| "dist_name Log_Uniform = ''log_uniform''"
| "dist_name Int_Uniform = ''int_uniform''"

fun stored_param :: "param \<Rightarrow> sv" where
  "stored_param (Fixed v) = SMap [(''value'', v)]"
| "stored_param (Choice vs) = SMap [(''values'', SList vs)]"
| "stored_param (Normal mu sigma) =
     SMap [(''distribution'', SStr ''normal''), (''mu'', SFloat (Fin mu)), (''sigma'', SFloat (Fin sigma))]"
| "stored_param (Bounded d lo hi) =
     (let bound = (\<lambda>x. if d = Int_Uniform then SInt (truncate_rat x) else SFloat (Fin x))
      in SMap [(''distribution'', SStr (dist_name d)), (''min'', bound lo), (''max'', bound hi)])"

fun stored_method :: "sweep_method \<Rightarrow> sv" where
  "stored_method Grid = SStr ''grid''"
| "stored_method Random = SStr ''random''"
| "stored_method Bayes = SStr ''bayes''"

definition stored_rule :: "early_rule \<Rightarrow> sv" where
  "stored_rule r =
     SMap [(''type'', SStr ''median''), (''min_iter'', SInt (min_iter r)), (''min_trials'', SInt (min_trials r)),
           (''check_interval_sec'', SFloat (check_interval r))]"

definition entry_if :: "string \<Rightarrow> ('a \<Rightarrow> sv) \<Rightarrow> 'a option \<Rightarrow> (string \<times> sv) list" where
  "entry_if k f x = (case x of None \<Rightarrow> [] | Some v \<Rightarrow> [(k, f v)])"

definition stored :: "sweep_spec \<Rightarrow> sv" where
  "stored sp =
     SMap ([(''method'', stored_method (spec_method sp)),
            (''metric'', SMap [(''name'', SStr (metric_name sp)),
                               (''goal'', SStr (if metric_goal sp = Minimize then ''min'' else ''max''))]),
            (''parameters'', SMap (map (\<lambda>(n, p). (n, stored_param p)) (spec_parameters sp))),
            (''seed'', SInt (seed sp))]
           @ entry_if ''run_cap'' SInt (run_cap sp)
           @ entry_if ''early_terminate'' stored_rule (early_terminate sp)
           @ entry_if ''command'' (\<lambda>ss. SList (map SStr ss)) (command sp)
           @ entry_if ''program'' id (program sp))"

section \<open>What a parsed spec guarantees\<close>

fun wf_param :: "param \<Rightarrow> bool" where
  "wf_param (Fixed v) = True"
| "wf_param (Choice vs) = (vs \<noteq> [])"
| "wf_param (Normal mu sigma) = True"
| "wf_param (Bounded d lo hi) =
     (lo \<le> hi \<and> (d = Log_Uniform \<longrightarrow> 0 < lo)
      \<and> (d = Int_Uniform \<longrightarrow> of_int (truncate_rat lo) = lo \<and> of_int (truncate_rat hi) = hi))"

definition wf_spec :: "sweep_spec \<Rightarrow> bool" where
  "wf_spec sp =
     (metric_name sp \<noteq> [] \<and> spec_parameters sp \<noteq> [] \<and> sorted (map fst (spec_parameters sp))
      \<and> (\<forall>(n, p) \<in> set (spec_parameters sp). wf_param p \<and> (spec_method sp = Grid \<longrightarrow> discrete p))
      \<and> (\<forall>c. run_cap sp = Some c \<longrightarrow> 1 \<le> c)
      \<and> (\<forall>r. early_terminate sp = Some r \<longrightarrow> 1 \<le> min_iter r \<and> 1 \<le> min_trials r))"

lemma truncate_of_int [simp]: "truncate_rat (of_int i) = i"
  by (simp add: truncate_rat_def)

lemma number_simps [simp]: "number (SFloat (Fin x)) = Inr x" "number (SInt i) = Inr (of_int i)"
  by (simp_all add: number_def to_float_def caught_def)

lemma bounded_wf: "bounded d m = Inr p \<Longrightarrow> wf_param p"
  by (auto simp: bounded_def Let_def split: option.splits if_splits)

lemma parameter_wf: "parameter v = Inr p \<Longrightarrow> wf_param p"
  using bounded_wf
  by (auto simp: parameter_def split: sv.splits if_splits option.splits)

lemma dist_names [simp]: "dist_named (dist_name d) = Some d" "dist_name d \<noteq> ''normal''" "dist_name d \<noteq> ''categorical''"
  by (cases d; simp add: dist_named_def)+

lemma parameter_stored: "wf_param p \<Longrightarrow> parameter (stored_param p) = Inr p"
  by (cases p)
    (auto simp: parameter_def s_get_def default_dist_def get_or_def bounded_def Let_def simp flip: of_int_le_iff)

lemma each_parameter_wf:
  "each_parameter how m = Inr ps \<Longrightarrow>
   map fst ps = map fst m \<and> (\<forall>(n, p) \<in> set ps. wf_param p \<and> (how = Grid \<longrightarrow> discrete p))"
proof (induction how m arbitrary: ps rule: each_parameter.induct)
  case (2 how name v rest)
  from "2.prems" obtain p qs where "parameter v = Inr p" "how = Grid \<longrightarrow> discrete p"
    "each_parameter how rest = Inr qs" "ps = (name, p) # qs"
    by (auto split: if_splits)
  then show ?case using "2.IH" parameter_wf by auto
qed simp

lemma each_parameter_stored:
  "\<forall>(n, p) \<in> set ps. wf_param p \<and> (how = Grid \<longrightarrow> discrete p) \<Longrightarrow>
   each_parameter how (map (\<lambda>(n, p). (n, stored_param p)) ps) = Inr ps"
  by (induction ps) (auto simp: parameter_stored)

lemma parameters_wf:
  assumes "parameters v how = Inr ps"
  shows "ps \<noteq> [] \<and> sorted (map fst ps) \<and> (\<forall>(n, p) \<in> set ps. wf_param p \<and> (how = Grid \<longrightarrow> discrete p))"
proof -
  obtain m where m: "m \<noteq> []" "each_parameter how (sort_key fst m) = Inr ps"
    using assms by (auto simp: parameters_def split: sv.splits if_splits)
  from each_parameter_wf [OF m(2)] have eq: "map fst ps = map fst (sort_key fst m)"
    and rest: "\<forall>(n, p) \<in> set ps. wf_param p \<and> (how = Grid \<longrightarrow> discrete p)" by blast+
  have "length ps = length m" using arg_cong [OF eq, of length] by simp
  moreover have "sorted (map fst ps)" unfolding eq by simp
  ultimately show ?thesis using m(1) rest by auto
qed

lemma parameters_stored:
  assumes "ps \<noteq> []" "sorted (map fst ps)" "\<forall>(n, p) \<in> set ps. wf_param p \<and> (how = Grid \<longrightarrow> discrete p)"
  shows "parameters (SMap (map (\<lambda>(n, p). (n, stored_param p)) ps)) how = Inr ps"
proof -
  have "map fst (map (\<lambda>(n, p). (n, stored_param p)) ps) = map fst ps" by (induction ps) auto
  then have "sort_key fst (map (\<lambda>(n, p). (n, stored_param p)) ps) = map (\<lambda>(n, p). (n, stored_param p)) ps"
    using assms(2) by (intro sort_key_id_if_sorted) (simp only:)
  then show ?thesis using assms(1,3) by (simp add: parameters_def each_parameter_stored)
qed

lemma positive_int_ge: "positive_int v = Inr i \<Longrightarrow> 1 \<le> i"
  by (auto simp: positive_int_def split: if_splits)

lemma positive_int_stored: "1 \<le> i \<Longrightarrow> positive_int (SInt i) = Inr i"
  by (simp add: positive_int_def to_int_def caught_def)

lemma early_conf_wf: "early_conf v = Inr r \<Longrightarrow> 1 \<le> min_iter r \<and> 1 \<le> min_trials r"
  using positive_int_ge by (auto simp: early_conf_def split: sv.splits if_splits)

lemma early_conf_stored: "1 \<le> min_iter r \<Longrightarrow> 1 \<le> min_trials r \<Longrightarrow> early_conf (stored_rule r) = Inr r"
  by (simp add: early_conf_def stored_rule_def s_get_def get_or_def positive_int_stored to_float_def)

lemma stored_rule_not_null: "stored_rule r \<noteq> SNull"
  by (simp add: stored_rule_def)

lemma given_Inr: "given f v = Inr x \<Longrightarrow> x = None \<or> (\<exists>y. f v = Inr y \<and> x = Some y)"
  by (cases "f v") (auto simp: given_def split: if_splits)

lemma command_of_stored: "command_of (SList (map SStr ss)) = Inr ss"
proof -
  have "str_list (map SStr ss) = Some ss" by (induction ss) auto
  then show ?thesis by (simp add: command_of_def)
qed

lemma goal_named_stored: "goal_named (SStr (if g = Minimize then ''min'' else ''max'')) = Some g"
  by (cases g) (simp_all add: goal_named_def py_lower_def py_lower_char_def)

text \<open>Python's \<open>str\<close>: a string is itself, and nothing that counts as true prints as nothing.\<close>

definition str_like :: "(sv \<Rightarrow> string) \<Rightarrow> bool" where
  "str_like show_value = ((\<forall>s. show_value (SStr s) = s) \<and> (\<forall>v. s_truthy v \<longrightarrow> show_value v \<noteq> []))"

lemma metric_wf: "str_like show_value \<Longrightarrow> metric show_value v = Inr (n, g) \<Longrightarrow> n \<noteq> []"
  by (auto simp: metric_def str_like_def split: sv.splits if_splits option.splits)

lemma metric_stored:
  "str_like show_value \<Longrightarrow> n \<noteq> [] \<Longrightarrow>
   metric show_value (SMap [(''name'', SStr n), (''goal'', SStr (if g = Minimize then ''min'' else ''max''))]) = Inr (n, g)"
  using goal_named_stored [of g] by (auto simp: metric_def s_get_def get_or_def str_like_def)

lemma parsed_spec_wf:
  assumes "str_like show_value" "parse_spec show_value data = Inr sp"
  shows "wf_spec sp"
proof -
  obtain m how where m: "data = SMap m" "method_named (s_get m ''method'') = Some how"
    using assms(2) by (auto simp: parse_spec_def split: sv.splits option.splits)
  obtain name g ps cap early where f:
    "metric show_value (s_get m ''metric'') = Inr (name, g)" "parameters (s_get m ''parameters'') how = Inr ps"
    "given positive_int (s_get m ''run_cap'') = Inr cap" "given early_conf (s_get m ''early_terminate'') = Inr early"
    and sp: "spec_method sp = how" "metric_name sp = name" "spec_parameters sp = ps" "run_cap sp = cap" "early_terminate sp = early"
    using assms(2) by (auto simp: parse_spec_def m)
  show ?thesis
    unfolding wf_spec_def sp
    using metric_wf [OF assms(1) f(1)] parameters_wf [OF f(2)] given_Inr [OF f(3)] given_Inr [OF f(4)]
      positive_int_ge early_conf_wf by fastforce
qed

lemma given_stored: "(\<And>x. y = Some x \<Longrightarrow> g (f x) = Inr x \<and> f x \<noteq> SNull) \<Longrightarrow>
    given g (case y of None \<Rightarrow> SNull | Some x \<Rightarrow> f x) = Inr y"
  by (auto simp: given_def split: option.split)

lemma s_get_entry_if:
  "s_get (entry_if k f x @ m) k = (case x of None \<Rightarrow> s_get m k | Some v \<Rightarrow> f v)"
  "l \<noteq> k \<Longrightarrow> s_get (entry_if k f x @ m) l = s_get m l"
  by (auto simp: s_get_def entry_if_def split: option.splits)

lemma s_get_stored:
  fixes sp :: sweep_spec
  obtains m where "stored sp = SMap m"
    "s_get m ''method'' = stored_method (spec_method sp)"
    "s_get m ''metric'' = SMap [(''name'', SStr (metric_name sp)), (''goal'', SStr (if metric_goal sp = Minimize then ''min'' else ''max''))]"
    "s_get m ''parameters'' = SMap (map (\<lambda>(n, p). (n, stored_param p)) (spec_parameters sp))"
    "get_or m ''seed'' (SInt 0) = SInt (seed sp)"
    "s_get m ''run_cap'' = (case run_cap sp of None \<Rightarrow> SNull | Some x \<Rightarrow> SInt x)"
    "s_get m ''early_terminate'' = (case early_terminate sp of None \<Rightarrow> SNull | Some x \<Rightarrow> stored_rule x)"
    "s_get m ''command'' = (case command sp of None \<Rightarrow> SNull | Some x \<Rightarrow> SList (map SStr x))"
    "s_get m ''program'' = (case program sp of None \<Rightarrow> SNull | Some x \<Rightarrow> x)"
proof -
  define tail where "tail = entry_if ''run_cap'' SInt (run_cap sp) @ entry_if ''early_terminate'' stored_rule (early_terminate sp)
    @ entry_if ''command'' (\<lambda>ss. SList (map SStr ss)) (command sp) @ entry_if ''program'' id (program sp)"
  have tail: "s_get tail ''run_cap'' = (case run_cap sp of None \<Rightarrow> SNull | Some x \<Rightarrow> SInt x)"
    "s_get tail ''early_terminate'' = (case early_terminate sp of None \<Rightarrow> SNull | Some x \<Rightarrow> stored_rule x)"
    "s_get tail ''command'' = (case command sp of None \<Rightarrow> SNull | Some x \<Rightarrow> SList (map SStr x))"
    "s_get tail ''program'' = (case program sp of None \<Rightarrow> SNull | Some x \<Rightarrow> x)"
    unfolding tail_def
    by (auto simp: s_get_def entry_if_def split: option.splits)
  have skip: "s_get ((k, v) # m) l = (if l = k then v else s_get m l)" for k v m l
    by (simp add: s_get_def)
  show thesis
    by (rule that, simp add: stored_def, unfold tail_def [symmetric])
      (simp_all add: skip tail get_or_def)
qed

text \<open>
  Normalizing a sweep spec is done once: what a parsed spec is kept as in the metadata parses to
  that very spec, so every agent that reads the metadata runs the sweep that was validated.
\<close>

theorem parse_spec_stored:
  assumes "str_like show_value" "parse_spec show_value data = Inr sp"
  shows "parse_spec show_value (stored sp) = Inr sp"
proof -
  have wf: "wf_spec sp" using assms by (rule parsed_spec_wf)
  have prog: "program sp \<noteq> Some SNull"
    using assms(2) by (auto simp: parse_spec_def given_def split: sv.splits option.splits if_splits)
  obtain m where m: "stored sp = SMap m"
    "s_get m ''method'' = stored_method (spec_method sp)"
    "s_get m ''metric'' = SMap [(''name'', SStr (metric_name sp)), (''goal'', SStr (if metric_goal sp = Minimize then ''min'' else ''max''))]"
    "s_get m ''parameters'' = SMap (map (\<lambda>(n, p). (n, stored_param p)) (spec_parameters sp))"
    "get_or m ''seed'' (SInt 0) = SInt (seed sp)"
    "s_get m ''run_cap'' = (case run_cap sp of None \<Rightarrow> SNull | Some x \<Rightarrow> SInt x)"
    "s_get m ''early_terminate'' = (case early_terminate sp of None \<Rightarrow> SNull | Some x \<Rightarrow> stored_rule x)"
    "s_get m ''command'' = (case command sp of None \<Rightarrow> SNull | Some x \<Rightarrow> SList (map SStr x))"
    "s_get m ''program'' = (case program sp of None \<Rightarrow> SNull | Some x \<Rightarrow> x)"
    by (rule s_get_stored)
  have how: "method_named (stored_method (spec_method sp)) = Some (spec_method sp)"
    by (cases "spec_method sp") (simp_all add: method_named_def)
  have met: "metric show_value (s_get m ''metric'') = Inr (metric_name sp, metric_goal sp)"
    unfolding m using wf by (intro metric_stored [OF assms(1)]) (simp add: wf_spec_def)
  have par: "parameters (s_get m ''parameters'') (spec_method sp) = Inr (spec_parameters sp)"
    unfolding m using wf by (intro parameters_stored) (auto simp: wf_spec_def)
  have opts: "given positive_int (s_get m ''run_cap'') = Inr (run_cap sp)"
    "given early_conf (s_get m ''early_terminate'') = Inr (early_terminate sp)"
    "given command_of (s_get m ''command'') = Inr (command sp)"
    "given Inr (s_get m ''program'') = Inr (program sp)"
    unfolding m using wf prog
    by (auto intro!: given_stored simp: wf_spec_def positive_int_stored early_conf_stored command_of_stored stored_rule_not_null)
  show ?thesis
    by (simp add: parse_spec_def m(1) m(2) how met par opts m(5) to_int_def)
qed

text \<open>
  A parsed sweep spec satisfies what the sweep relies on: a metric with a name, parameters in
  the order of their names, bounds that are not crossed, integers where integers are drawn, only
  discrete parameters in a grid, and positive caps.
\<close>

theorem parse_spec_wf:
  assumes "str_like show_value" "parse_spec show_value data = Inr sp"
  shows "wf_spec sp"
  using assms by (rule parsed_spec_wf)

text \<open>A small grid.\<close>

definition demo_show :: "sv \<Rightarrow> string" where
  "demo_show v = (case v of SStr s \<Rightarrow> s | _ \<Rightarrow> ''?'')"

definition demo_spec_data :: sv where
  "demo_spec_data =
     SMap [(''method'', SStr ''grid''), (''metric'', SMap [(''name'', SStr ''loss''), (''goal'', SStr ''Minimize'')]),
           (''parameters'', SMap [(''lr'', SMap [(''values'', SList [SStr ''1e-3'', SStr ''1e-2''])]),
                                  (''depth'', SMap [(''min'', SInt 2), (''max'', SInt 4)])]),
           (''run_cap'', SStr '' 1_0 ''), (''program'', SStr ''train.py'')]"

definition demo_spec :: sweep_spec where
  "demo_spec =
     \<lparr>spec_method = Grid, metric_name = ''loss'', metric_goal = Minimize,
      spec_parameters = [(''depth'', Bounded Int_Uniform 2 4), (''lr'', Choice [SStr ''1e-3'', SStr ''1e-2''])],
      seed = 0, run_cap = Some 10, early_terminate = None, command = None, program = Some (SStr ''train.py'')\<rparr>"

lemma demo_spec_parsed: "parse_spec demo_show demo_spec_data = Inr demo_spec"
  by code_simp

lemma demo_show_str_like: "str_like demo_show"
  by (auto simp: str_like_def demo_show_def split: sv.split)

theorem parse_spec_stored_witness: "parse_spec demo_show (stored demo_spec) = Inr demo_spec"
  by (rule parse_spec_stored [OF demo_show_str_like demo_spec_parsed])

theorem parse_spec_wf_witness: "wf_spec demo_spec"
  by (rule parse_spec_wf [OF demo_show_str_like demo_spec_parsed])

end
