(* ===== verification/Log_Entry.thy ===== *)
theory Log_Entry
imports Sweep_Spec "HOL-Library.Product_Lexorder"
begin

text \<open>
  The entries of a run's log, from core/values.py (what a writer stores), core/rewind.py (which
  entries a rewind hides) and core/fold_facts.py (what an entry states about its run). An entry is a
  JSON object; a metric's value is a float, which the model neither rounds nor splits into zeros of
  two signs. A log is a list of JSON values, its objects being the entries.
\<close>

section \<open>Numbers\<close>

type_synonym log_entry = "(string \<times> sv) list"

definition get_type :: "log_entry \<Rightarrow> sv" where
  "get_type e = s_get e ''type''"

fun f_less :: "float_val \<Rightarrow> float_val \<Rightarrow> bool" where
  \<comment> \<open>nothing compares with what is not a number\<close>
  "f_less (Fin x) (Fin y) = (x < y)"
| "f_less (Fin x) Pos_Inf = True"
| "f_less Neg_Inf (Fin y) = True"
| "f_less Neg_Inf Pos_Inf = True"
| "f_less _ _ = False"

definition finite_of :: "float_val \<Rightarrow> rat option" where
  \<comment> \<open>\<open>is_finite_number\<close>, of a number\<close>
  "finite_of v = (case v of Fin x \<Rightarrow> Some x | _ \<Rightarrow> None)"

definition as_number :: "sv \<Rightarrow> float_val option" where
  \<comment> \<open>an int or a float, and no boolean\<close>
  "as_number v = (case v of SInt i \<Rightarrow> Some (Fin (of_int i)) | SFloat f \<Rightarrow> Some f | _ \<Rightarrow> None)"

section \<open>What is stored\<close>

definition metric_number :: "sv \<Rightarrow> float_val option" where
  "metric_number v =
     (case v of SBool b \<Rightarrow> None | SList vs \<Rightarrow> None | SMap m \<Rightarrow> None
      | _ \<Rightarrow> (case to_float v of Inl e \<Rightarrow> None | Inr f \<Rightarrow> Some f))"

definition items_or_empty :: "sv \<Rightarrow> (string \<times> sv) list res" where
  \<comment> \<open>\<open>(v or {}).items()\<close>\<close>
  "items_or_empty v = (if \<not> s_truthy v then Inr [] else case v of SMap m \<Rightarrow> Inr m | _ \<Rightarrow> Inl AttributeErr)"

definition coerce_metric_values :: "sv \<Rightarrow> (string \<times> sv) list res" where
  "coerce_metric_values v =
     map_sum id (List.map_filter (\<lambda>(n, x). map_option (\<lambda>f. (n, SFloat f)) (metric_number x))) (items_or_empty v)"

definition sanitize_entry :: "log_entry \<Rightarrow> log_entry option res" where
  \<comment> \<open>the scalars of numpy and torch that \<open>json_safe_params\<close> unwraps are no JSON values\<close>
  "sanitize_entry e =
     (if get_type e = SStr ''metrics'' \<and> map_of e ''values'' \<noteq> None then
        bind_res (coerce_metric_values (s_get e ''values''))
          (\<lambda>vs. Inr (if vs = [] then None else Some (od_put ''values'' (SMap vs) e)))
      else Inr (Some e))"

section \<open>Rewinds\<close>

definition REWIND :: string where "REWIND = ''rewind''"

definition entry_step :: "log_entry \<Rightarrow> float_val option" where
  "entry_step e = as_number (s_get e ''step'')"

definition rewind_step :: "log_entry \<Rightarrow> float_val option" where
  "rewind_step e = (if get_type e = SStr REWIND then entry_step e else None)"

definition is_rewound :: "(float_val \<times> 'k :: linorder) list \<Rightarrow> log_entry \<Rightarrow> 'k \<Rightarrow> bool" where
  "is_rewound rewinds e k =
     (if rewinds = [] \<or> get_type e = SStr REWIND then False
      else case entry_step e of None \<Rightarrow> False | Some s \<Rightarrow> list_ex (\<lambda>(r, l). f_less r s \<and> k < l) rewinds)"

definition dict_of :: "sv \<Rightarrow> log_entry option" where
  \<comment> \<open>\<open>isinstance(e, dict)\<close>\<close>
  "dict_of v = (case v of SMap m \<Rightarrow> Some m | _ \<Rightarrow> None)"

definition marker_of :: "sv \<Rightarrow> float_val option" where
  "marker_of v = (case dict_of v of None \<Rightarrow> None | Some e \<Rightarrow> rewind_step e)"

definition log_markers :: "nat \<Rightarrow> sv list \<Rightarrow> (float_val \<times> nat) list" where
  "log_markers start lg = List.map_filter (\<lambda>(pos, v). map_option (\<lambda>s. (s, pos)) (marker_of v)) (enumerate start lg)"

definition hidden :: "(float_val \<times> 'k :: linorder) list \<Rightarrow> 'k \<times> sv \<Rightarrow> bool" where
  "hidden rewinds pv = (case dict_of (snd pv) of None \<Rightarrow> False | Some e \<Rightarrow> is_rewound rewinds e (fst pv))"

definition drop_rewound :: "sv list \<Rightarrow> sv list" where
  "drop_rewound lg =
     (let markers = log_markers 0 lg
      in if markers = [] then lg else map snd (filter (\<lambda>pv. \<not> hidden markers pv) (enumerate 0 lg)))"

definition rewinds_of :: "sv list \<Rightarrow> (float_val \<times> sv) list" where
  "rewinds_of lg = List.map_filter (\<lambda>v. case dict_of v of None \<Rightarrow> None
     | Some e \<Rightarrow> map_option (\<lambda>s. (s, s_get e ''timestamp'')) (rewind_step e)) lg"

definition count_hidden :: "sv list \<Rightarrow> float_val \<Rightarrow> nat" where
  "count_hidden lg step = length (filter (\<lambda>v. hidden [(step, 1 :: nat)] (0, v)) (drop_rewound lg))"

definition rewind_entry :: "sv \<Rightarrow> int \<Rightarrow> sv" where
  \<comment> \<open>\<open>create_rewind_entry\<close>, at a given time\<close>
  "rewind_entry now step = SMap [(''timestamp'', now), (''type'', SStr REWIND), (''step'', SInt step)]"

section \<open>Facts an entry states\<close>

definition entry_value :: "log_entry \<Rightarrow> log_entry" where
  \<comment> \<open>\<open>_value\<close>: without the bookkeeping\<close>
  "entry_value e = filter (\<lambda>(k, v). k \<notin> {''type'', ''timestamp'', ''_writer''}) e"

definition features_value :: "log_entry \<Rightarrow> (int \<times> log_entry) option" where
  "features_value e = (case s_get e ''features_version'' of SInt i \<Rightarrow> Some (i, entry_value e) | _ \<Rightarrow> None)"

definition intent_value :: "log_entry \<Rightarrow> log_entry option" where
  "intent_value e = (case s_get e ''text'' of SStr s \<Rightarrow> Some (entry_value e) | _ \<Rightarrow> None)"

definition entry_hypothesis :: "log_entry \<Rightarrow> string option" where
  "entry_hypothesis e = (case s_get e ''hypothesis'' of SStr s \<Rightarrow> if str_strip s \<noteq> [] then Some s else None | _ \<Rightarrow> None)"

definition AUTHOR_KEYS :: "string list" where
  "AUTHOR_KEYS = [''git_user_email'', ''os_user'', ''writer'']"

definition author_display :: "sv \<Rightarrow> string option" where
  "author_display author =
     (case author of
        SMap m \<Rightarrow>
          (case List.map_filter (\<lambda>k. case s_get m k of SStr s \<Rightarrow> if str_strip s \<noteq> [] then Some (str_strip s) else None
                                    | _ \<Rightarrow> None) AUTHOR_KEYS of
             [] \<Rightarrow> None
           | s # _ \<Rightarrow> Some s)
      | _ \<Rightarrow> None)"

definition entry_definition :: "log_entry \<Rightarrow> (string \<times> (string \<times> sv) list) option" where
  "entry_definition e =
     (case s_get e ''name'' of
        SStr name \<Rightarrow>
          if name = [] then None
          else (let decl = filter (\<lambda>(k, v). k \<notin> {''type'', ''name'', ''timestamp'', ''_writer''} \<and> v \<noteq> SNull) e
                in if decl = [] then None else Some (name, decl))
      | _ \<Rightarrow> None)"

section \<open>Laws of rewinds\<close>

lemma is_rewound_iff:
  "is_rewound rw e k \<longleftrightarrow> get_type e \<noteq> SStr REWIND
     \<and> (\<exists>s r l. entry_step e = Some s \<and> (r, l) \<in> set rw \<and> f_less r s \<and> k < l)"
  by (auto simp: is_rewound_def list_ex_iff split: option.splits)

lemma is_rewound_set: "set rw = set rw' \<Longrightarrow> is_rewound rw e k = is_rewound rw' e k"
  by (simp add: is_rewound_iff)

lemma rewind_not_rewound: "rewind_step e = Some s \<Longrightarrow> \<not> is_rewound rw e k"
  by (auto simp: rewind_step_def is_rewound_iff split: if_splits)

end
