(* ===== verification/Log_Fold.thy ===== *)
theory Log_Fold
imports Log_Entry
begin

text \<open>
  The fold of a run's log, from core/fold.py with track_extrema of core/metric_summary.py and
  apply_note of core/note_sigs.py: every field keeps what the entry with the greatest key says. A key
  is a list position or a time, writer and position; the fold is polymorphic in it. Dictionaries whose
  order nothing reads are maps. Python's \<open>str\<close> and the signature of a note's text (a chain of
  substitutions by regular expressions) are parameters. The exact sums kept for a mean are rationals.
  Entries are read as \<open>sanitize_entry\<close> and the entry constructors leave them: dictionaries and
  lists where these write them; \<open>stored_entry\<close> says so, and the laws are about such entries.
\<close>

section \<open>State\<close>

datatype seen =
    Once float_val                                    \<comment> \<open>a value logged once, kept bare\<close>
  | Repeated "rat option" "rat option" nat rat        \<comment> \<open>least, greatest, count and sum of the finite values\<close>

record text_ops =
  show_value :: "sv \<Rightarrow> string"
  note_signature :: "sv \<Rightarrow> string option"

record 'k log_fold =
  fd_params :: "string \<rightharpoonup> sv \<times> 'k"
  fd_metrics :: "string \<rightharpoonup> float_val \<times> 'k"
  fd_tags :: "string \<rightharpoonup> sv \<times> 'k"
  fd_inputs :: "sv \<rightharpoonup> (sv \<times> sv \<times> sv) \<times> 'k"                  \<comment> \<open>uri, digest, kind\<close>
  fd_outputs :: "sv \<rightharpoonup> (string option \<times> sv) \<times> 'k"           \<comment> \<open>digest, size\<close>
  fd_extrema :: "string \<rightharpoonup> seen"
  fd_firsts :: "string \<rightharpoonup> float_val \<times> 'k"
  fd_defs :: "(string \<times> (string \<rightharpoonup> sv \<times> 'k)) list"
  fd_last_metric :: "(sv \<times> 'k) option"
  fd_create_note :: "(sv \<times> 'k) option"
  fd_hypothesis :: "string option"
  fd_features :: "(log_entry \<times> int \<times> 'k) option"
  fd_intent :: "(log_entry \<times> 'k) option"
  fd_note_sigs :: "(string \<times> nat \<times> sv \<times> 'k) list"          \<comment> \<open>count, last time, last key\<close>
  fd_rewinds :: "(float_val \<times> 'k) list"
  fd_stale :: bool

definition new_fold :: "(float_val \<times> 'k) list \<Rightarrow> 'k log_fold" where
  "new_fold rewinds =
     \<lparr>fd_params = Map.empty, fd_metrics = Map.empty, fd_tags = Map.empty, fd_inputs = Map.empty, fd_outputs = Map.empty,
      fd_extrema = Map.empty, fd_firsts = Map.empty, fd_defs = [], fd_last_metric = None, fd_create_note = None,
      fd_hypothesis = None, fd_features = None, fd_intent = None, fd_note_sigs = [], fd_rewinds = rewinds, fd_stale = False\<rparr>"

definition needs_refold :: "'k log_fold \<Rightarrow> bool" where
  "needs_refold f = fd_stale f"

definition learn_rewind :: "float_val \<Rightarrow> 'k \<Rightarrow> 'k log_fold \<Rightarrow> 'k log_fold" where
  "learn_rewind step k f =
     (if (step, k) \<in> set (fd_rewinds f) then f
      else f\<lparr>fd_rewinds := fd_rewinds f @ [(step, k)], fd_stale := True\<rparr>)"

section \<open>Slots\<close>

definition put_latest :: "'v \<Rightarrow> 'k :: linorder \<Rightarrow> ('v \<times> 'k) option \<Rightarrow> ('v \<times> 'k) option" where
  "put_latest v k cur = (case cur of None \<Rightarrow> Some (v, k) | Some (w, l) \<Rightarrow> if k \<ge> l then Some (v, k) else cur)"

definition put_first :: "'v \<Rightarrow> 'k :: linorder \<Rightarrow> ('v \<times> 'k) option \<Rightarrow> ('v \<times> 'k) option" where
  "put_first v k cur = (case cur of None \<Rightarrow> Some (v, k) | Some (w, l) \<Rightarrow> if k < l then Some (v, k) else cur)"

definition keep_at :: "'n \<Rightarrow> 'v \<Rightarrow> 'k :: linorder \<Rightarrow> ('n \<rightharpoonup> 'v \<times> 'k) \<Rightarrow> ('n \<rightharpoonup> 'v \<times> 'k)" where
  "keep_at n v k m = m(n := put_latest v k (m n))"

definition keep_all :: "('n \<times> 'v) list \<Rightarrow> 'k :: linorder \<Rightarrow> ('n \<rightharpoonup> 'v \<times> 'k) \<Rightarrow> ('n \<rightharpoonup> 'v \<times> 'k)" where
  "keep_all us k m = fold (\<lambda>(n, v). keep_at n v k) us m"

section \<open>What an entry changes\<close>

definition items :: "sv \<Rightarrow> (string \<times> sv) list" where
  "items v = (case v of SMap m \<Rightarrow> m | _ \<Rightarrow> [])"

definition names_in :: "sv \<Rightarrow> string list" where
  "names_in v = (case v of SList vs \<Rightarrow> List.map_filter (\<lambda>x. case x of SStr s \<Rightarrow> Some s | _ \<Rightarrow> None) vs | _ \<Rightarrow> [])"

definition entry_params :: "log_entry \<Rightarrow> (string \<times> sv) list" where
  "entry_params e = (if get_type e \<in> {SStr ''create'', SStr ''params''} then items (s_get e ''params'') else [])"

definition foldable_param :: "sv \<Rightarrow> rat option" where
  "foldable_param v = (case to_float v of Inl e \<Rightarrow> None | Inr f \<Rightarrow> finite_of f)"

definition entry_tags :: "text_ops \<Rightarrow> log_entry \<Rightarrow> (string \<times> sv) list \<times> string list" where
  "entry_tags ops e =
     (if get_type e = SStr ''tags'' then (items (s_get e ''set''), names_in (s_get e ''remove''))
      else if get_type e = SStr ''create'' then
        (case s_get e ''tags'' of
           SMap m \<Rightarrow> (map (\<lambda>(n, v). (n, SStr (show_value ops v))) m, [])
         | SList vs \<Rightarrow> (map (\<lambda>v. (show_value ops v, SStr [])) vs, [])
         | _ \<Rightarrow> ([], []))
      else ([], []))"

definition metric_values :: "log_entry \<Rightarrow> (string \<times> float_val) list" where
  "metric_values e = List.map_filter (\<lambda>(n, v). map_option (Pair n) (as_number v)) (items (s_get e ''values''))"

definition digest_of :: "text_ops \<Rightarrow> sv \<Rightarrow> string option" where
  "digest_of ops sha = (if s_truthy sha then Some (''sha256:'' @ show_value ops sha) else None)"

section \<open>Applying an entry\<close>

definition apply_tags :: "text_ops \<Rightarrow> log_entry \<Rightarrow> 'k :: linorder \<Rightarrow> 'k log_fold \<Rightarrow> 'k log_fold" where
  "apply_tags ops e k f =
     (case entry_tags ops e of (changed, removed) \<Rightarrow>
        f\<lparr>fd_tags := keep_all (map (\<lambda>n. (n, SNull)) removed) k (keep_all changed k (fd_tags f))\<rparr>)"

definition apply_inputs :: "log_entry \<Rightarrow> 'k :: linorder \<Rightarrow> 'k log_fold \<Rightarrow> 'k log_fold" where
  "apply_inputs e k f =
     (let name = s_get e ''name''
      in if \<not> s_truthy name then f
         else f\<lparr>fd_inputs := keep_at name (s_get e ''uri'', s_get e ''digest'', s_get e ''kind'') k (fd_inputs f)\<rparr>)"

definition OUTPUT_TYPES :: "sv set" where
  "OUTPUT_TYPES = {SStr ''artifact'', SStr ''image'', SStr ''table''}"

definition apply_outputs :: "text_ops \<Rightarrow> log_entry \<Rightarrow> 'k :: linorder \<Rightarrow> 'k log_fold \<Rightarrow> 'k log_fold" where
  \<comment> \<open>the stored value repeats the path\<close>
  "apply_outputs ops e k f =
     (let path = s_get e ''path''
      in if \<not> s_truthy path then f
         else f\<lparr>fd_outputs := keep_at path (digest_of ops (s_get e ''sha256''), s_get e ''size'') k (fd_outputs f)\<rparr>)"

definition apply_features :: "log_entry \<Rightarrow> 'k :: linorder \<Rightarrow> 'k log_fold \<Rightarrow> 'k log_fold" where
  "apply_features e k f =
     (case features_value e of
        None \<Rightarrow> f
      | Some (version, value) \<Rightarrow> f\<lparr>fd_features := put_latest value (version, k) (fd_features f)\<rparr>)"

definition apply_intent :: "log_entry \<Rightarrow> 'k :: linorder \<Rightarrow> 'k log_fold \<Rightarrow> 'k log_fold" where
  "apply_intent e k f =
     (case intent_value e of None \<Rightarrow> f | Some value \<Rightarrow> f\<lparr>fd_intent := put_latest value k (fd_intent f)\<rparr>)"

definition apply_first_create :: "log_entry \<Rightarrow> 'k :: linorder \<Rightarrow> 'k log_fold \<Rightarrow> 'k log_fold" where
  "apply_first_create e k f =
     (if (case fd_create_note f of None \<Rightarrow> True | Some (note, l) \<Rightarrow> k < l)
      then f\<lparr>fd_create_note := Some (s_get e ''note'', k), fd_hypothesis := entry_hypothesis e\<rparr> else f)"

definition MAX_SIGS :: nat where "MAX_SIGS = 8"

definition rarest_sig :: "(string \<times> nat \<times> sv \<times> 'k :: linorder) list \<Rightarrow> string" where
  \<comment> \<open>the fewest notes, the least recently seen of those\<close>
  "rarest_sig sigs = (case sort_key (\<lambda>(s, n, at_time, k). (n, k)) sigs of [] \<Rightarrow> [] | x # _ \<Rightarrow> fst x)"

definition apply_note :: "text_ops \<Rightarrow> log_entry \<Rightarrow> 'k :: linorder \<Rightarrow> 'k log_fold \<Rightarrow> 'k log_fold" where
  "apply_note ops e k f =
     (case note_signature ops (s_get e ''text'') of
        None \<Rightarrow> f
      | Some sig \<Rightarrow>
          (let sigs = fd_note_sigs f
           in case map_of sigs sig of
                None \<Rightarrow>
                  f\<lparr>fd_note_sigs := od_put sig (1, s_get e ''timestamp'', k)
                      (if length sigs \<ge> MAX_SIGS then od_del (rarest_sig sigs) sigs else sigs)\<rparr>
              | Some (n, seen_at, l) \<Rightarrow>
                  f\<lparr>fd_note_sigs := od_put sig (if k \<ge> l then (n + 1, s_get e ''timestamp'', k) else (n + 1, seen_at, l)) sigs\<rparr>))"

definition apply_definition :: "log_entry \<Rightarrow> 'k :: linorder \<Rightarrow> 'k log_fold \<Rightarrow> 'k log_fold" where
  "apply_definition e k f =
     (case entry_definition e of
        None \<Rightarrow> f
      | Some (name, decl) \<Rightarrow>
          (let declared = (case map_of (fd_defs f) name of None \<Rightarrow> Map.empty | Some m \<Rightarrow> m)
           in f\<lparr>fd_defs := od_put name (keep_all decl k declared) (fd_defs f)\<rparr>))"

definition logged :: "'k log_fold \<Rightarrow> string \<Rightarrow> bool" where
  "logged f name = (fd_extrema f name \<noteq> None)"

definition apply_param :: "'k :: linorder \<Rightarrow> string \<times> sv \<Rightarrow> 'k log_fold \<Rightarrow> 'k log_fold" where
  "apply_param k = (\<lambda>(name, value) f.
     (let f = f\<lparr>fd_params := keep_at name value k (fd_params f)\<rparr>
      in case foldable_param value of
           None \<Rightarrow> f
         | Some x \<Rightarrow> if logged f name then f else f\<lparr>fd_metrics := keep_at name (Fin x) k (fd_metrics f)\<rparr>))"

section \<open>Metric values\<close>

definition widen :: "seen \<Rightarrow> float_val \<Rightarrow> seen" where
  "widen s v =
     (case (s, finite_of v) of
        (Repeated lo hi n acc, Some x) \<Rightarrow>
          Repeated (case lo of None \<Rightarrow> Some x | Some l \<Rightarrow> Some (if x < l then x else l))
            (case hi of None \<Rightarrow> Some x | Some h \<Rightarrow> Some (if x > h then x else h)) (n + 1) (acc + x)
      | _ \<Rightarrow> s)"

definition EMPTY :: seen where "EMPTY = Repeated None None 0 0"

definition take_from_param :: "string \<Rightarrow> 'k log_fold \<Rightarrow> 'k log_fold" where
  "take_from_param name f = (if logged f name then f else f\<lparr>fd_metrics := (fd_metrics f)(name := None)\<rparr>)"

definition track_extrema :: "string \<Rightarrow> float_val \<Rightarrow> 'k :: linorder \<Rightarrow> 'k log_fold \<Rightarrow> 'k log_fold" where
  \<comment> \<open>a value kept bare has its key in the metrics (\<open>bare_value_keyed\<close>)\<close>
  "track_extrema name v k f =
     (case fd_extrema f name of
        None \<Rightarrow> f\<lparr>fd_extrema := (fd_extrema f)(name \<mapsto> Once v)\<rparr>
      | Some (Once w) \<Rightarrow>
          (let firsts = (case (fd_firsts f name, fd_metrics f name) of
                           (None, Some (u, l)) \<Rightarrow> (fd_firsts f)(name \<mapsto> (w, l))
                         | _ \<Rightarrow> fd_firsts f)
           in f\<lparr>fd_firsts := firsts(name := put_first v k (firsts name)),
                fd_extrema := (fd_extrema f)(name \<mapsto> widen (widen EMPTY w) v)\<rparr>)
      | Some s \<Rightarrow>
          f\<lparr>fd_firsts := (fd_firsts f)(name := put_first v k (fd_firsts f name)),
            fd_extrema := (fd_extrema f)(name \<mapsto> widen s v)\<rparr>)"

definition apply_metric_value :: "'k :: linorder \<Rightarrow> string \<times> float_val \<Rightarrow> 'k log_fold \<Rightarrow> 'k log_fold" where
  "apply_metric_value k = (\<lambda>(name, v) f.
     (let f = track_extrema name v k (take_from_param name f)
      in f\<lparr>fd_metrics := keep_at name v k (fd_metrics f)\<rparr>))"

definition apply_metric_values :: "log_entry \<Rightarrow> 'k :: linorder \<Rightarrow> 'k log_fold \<Rightarrow> 'k log_fold" where
  "apply_metric_values e k f = fold (apply_metric_value k) (metric_values e) f"

section \<open>The fold\<close>

definition apply_by_type :: "text_ops \<Rightarrow> log_entry \<Rightarrow> 'k :: linorder \<Rightarrow> 'k log_fold \<Rightarrow> 'k log_fold" where
  "apply_by_type ops e k f =
     (let t = get_type e
      in if t \<in> {SStr ''tags'', SStr ''create''} then apply_tags ops e k f
         else if t = SStr ''input'' then apply_inputs e k f
         else if t \<in> OUTPUT_TYPES then apply_outputs ops e k f
         else if t = SStr ''define_metric'' then apply_definition e k f
         else if t = SStr ''features'' then apply_features e k f
         else if t = SStr ''intent'' then apply_intent e k f
         else if t = SStr ''note'' then apply_note ops e k f
         else f)"

definition apply_rest :: "log_entry \<Rightarrow> 'k :: linorder \<Rightarrow> 'k log_fold \<Rightarrow> 'k log_fold" where
  "apply_rest e k f =
     (if get_type e = SStr ''metrics'' then
        (let f = apply_metric_values e k f
         in f\<lparr>fd_last_metric := put_latest (s_get e ''timestamp'') k (fd_last_metric f)\<rparr>)
      else if get_type e = SStr ''create'' then apply_first_create e k f
      else f)"

definition apply_visible :: "text_ops \<Rightarrow> log_entry \<Rightarrow> 'k :: linorder \<Rightarrow> 'k log_fold \<Rightarrow> 'k log_fold" where
  "apply_visible ops e k f = apply_rest e k (fold (apply_param k) (entry_params e) (apply_by_type ops e k f))"

definition apply_entry :: "text_ops \<Rightarrow> 'k \<times> log_entry \<Rightarrow> 'k :: linorder log_fold \<Rightarrow> 'k log_fold" where
  "apply_entry ops = (\<lambda>(k, e) f.
     (case rewind_step e of
        Some step \<Rightarrow> learn_rewind step k f
      | None \<Rightarrow> if is_rewound (fd_rewinds f) e k then f else apply_visible ops e k f))"

type_synonym sort_key = "string \<times> string \<times> nat"

definition sort_key_of :: "log_entry \<Rightarrow> string \<Rightarrow> nat \<Rightarrow> sort_key" where
  "sort_key_of e writer pos = ((case s_get e ''timestamp'' of SStr s \<Rightarrow> s | _ \<Rightarrow> []), writer, pos)"

definition keyed_chunk :: "string \<Rightarrow> nat \<Rightarrow> sv list \<Rightarrow> (sort_key \<times> log_entry) list" where
  "keyed_chunk writer first_position vs =
     List.map_filter (\<lambda>(pos, v). map_option (\<lambda>e. (sort_key_of e writer pos, e)) (dict_of v)) (enumerate first_position vs)"

definition apply_entries :: "text_ops \<Rightarrow> sort_key log_fold \<Rightarrow> string \<Rightarrow> nat \<Rightarrow> sv list \<Rightarrow> sort_key log_fold" where
  "apply_entries ops f writer first_position vs = fold (apply_entry ops) (keyed_chunk writer first_position vs) f"

definition positions :: "nat \<Rightarrow> sv list \<Rightarrow> (nat \<times> log_entry) list" where
  "positions start lg = List.map_filter (\<lambda>(pos, v). map_option (Pair pos) (dict_of v)) (enumerate start lg)"

definition learn_all :: "nat \<Rightarrow> sv list \<Rightarrow> nat log_fold \<Rightarrow> nat log_fold" where
  "learn_all start lg f = fold (\<lambda>(step, pos). learn_rewind step pos) (log_markers start lg) f"

definition fold_log :: "text_ops \<Rightarrow> sv list \<Rightarrow> nat log_fold \<Rightarrow> nat \<Rightarrow> nat log_fold" where
  "fold_log ops lg f start =
     (let g = learn_all start lg f
      in fold (apply_entry ops) (positions start lg) (g\<lparr>fd_stale := fd_stale f \<or> start > 0 \<and> fd_stale g\<rparr>))"

section \<open>What a fold holds\<close>

definition fold_values :: "('n \<rightharpoonup> 'v \<times> 'k) \<Rightarrow> ('n \<rightharpoonup> 'v)" where
  "fold_values m = (\<lambda>n. map_option fst (m n))"

definition fold_definitions :: "'k log_fold \<Rightarrow> (string \<times> (string \<rightharpoonup> sv)) list" where
  "fold_definitions f = map (\<lambda>(name, m). (name, fold_values m)) (fd_defs f)"

definition is_logged_param :: "'k log_fold \<Rightarrow> string \<Rightarrow> bool" where
  "is_logged_param f name = (fd_params f name \<noteq> None \<and> logged f name)"

definition fold_tags :: "'k log_fold \<Rightarrow> (string \<rightharpoonup> sv)" where
  "fold_tags f = (\<lambda>n. case fd_tags f n of Some (v, k) \<Rightarrow> if v = SNull then None else Some v | None \<Rightarrow> None)"

definition fold_last_metric_at :: "'k log_fold \<Rightarrow> sv" where
  "fold_last_metric_at f = (case fd_last_metric f of None \<Rightarrow> SNull | Some (t, k) \<Rightarrow> t)"

definition fold_features :: "'k log_fold \<Rightarrow> log_entry option" where
  "fold_features f = map_option fst (fd_features f)"

definition fold_intent :: "'k log_fold \<Rightarrow> log_entry option" where
  "fold_intent f =
     (case fd_intent f of
        None \<Rightarrow> None
      | Some (value, k) \<Rightarrow>
          (case s_get value ''text'' of SStr s \<Rightarrow> if str_strip s \<noteq> [] then Some value else None | _ \<Rightarrow> None))"

definition fold_note_sigs :: "'k :: linorder log_fold \<Rightarrow> (string \<times> nat \<times> sv) list option" where
  "fold_note_sigs f =
     (if fd_note_sigs f = [] then None
      else Some (map (\<lambda>(s, n, seen_at, k). (s, n, seen_at)) (sort_key (\<lambda>(s, n, seen_at, k). k) (fd_note_sigs f))))"

end
