(* ===== verification/Log_Slots.thy ===== *)
theory Log_Slots
imports Log_Fold "HOL-Library.Multiset"
begin

text \<open>
  The laws of the slots a fold is made of. A slot keeps one of the values it is offered, chosen by
  key: the greatest key (\<open>put_latest\<close>) or the least (\<open>put_first\<close>). What a slot holds in the end depends
  on the offers, not on their order, as long as their keys differ; and it depends on the keys only
  through their order.
\<close>

section \<open>Slots that keep the winner\<close>

definition winner :: "('v \<Rightarrow> 'k \<Rightarrow> ('v \<times> 'k) option \<Rightarrow> ('v \<times> 'k) option) \<Rightarrow> ('v \<times> 'k) list \<Rightarrow> ('v \<times> 'k) option" where
  "winner put xs = fold (\<lambda>(v, k). put v k) xs None"

locale keyed_slot =
  fixes put :: "'v \<Rightarrow> 'k \<Rightarrow> ('v \<times> 'k) option \<Rightarrow> ('v \<times> 'k) option" and beats :: "'k \<Rightarrow> 'k \<Rightarrow> bool"
  assumes put_None: "put v k None = Some (v, k)"
    and put_Some: "put v k (Some (w, l)) = (if beats k l then Some (v, k) else Some (w, l))"
    and beats_total: "k \<noteq> l \<Longrightarrow> beats k l \<longleftrightarrow> \<not> beats l k"
    and beats_trans: "beats k l \<Longrightarrow> beats l m \<Longrightarrow> beats k m"
begin

lemma winner_Nil: "winner put [] = None"
  by (simp add: winner_def)

lemma winner_snoc: "winner put (xs @ [(v, k)]) = put v k (winner put xs)"
  by (simp add: winner_def)

lemma winner_single: "winner put [(v, k)] = Some (v, k)"
  by (simp add: winner_def put_None)

lemma winner_None_iff: "winner put xs = None \<longleftrightarrow> xs = []"
proof (induction xs rule: rev_induct)
  case (snoc x xs)
  then show ?case by (cases x; cases "winner put xs") (auto simp: winner_snoc winner_single put_None put_Some)
qed (simp add: winner_Nil)

lemma winner_wins:
  "winner put xs = Some (v, k) \<Longrightarrow> (v, k) \<in> set xs \<and> (\<forall>(w, l) \<in> set xs. l \<noteq> k \<longrightarrow> beats k l)"
proof (induction xs arbitrary: v k rule: rev_induct)
  case (snoc x xs)
  obtain u m where x: "x = (u, m)" by (cases x)
  show ?case
  proof (cases "winner put xs")
    case None
    then show ?thesis using snoc.prems x by (auto simp: winner_single winner_None_iff)
  next
    case (Some c)
    obtain w l where c: "c = (w, l)" by (cases c)
    have old: "(w, l) \<in> set xs" "\<And>w' l'. (w', l') \<in> set xs \<Longrightarrow> l' \<noteq> l \<Longrightarrow> beats l l'"
      using snoc.IH [of w l] Some c by auto
    show ?thesis
    proof (cases "beats m l")
      case True
      then have "(v, k) = (u, m)" using snoc.prems Some c x by (simp add: winner_snoc put_Some)
      then show ?thesis using True old x by (auto intro: beats_trans)
    next
      case False
      then have vk: "v = w" "k = l" using snoc.prems Some c x by (simp_all add: winner_snoc put_Some)
      have "beats l m" if "m \<noteq> l" using False beats_total [OF that] by simp
      then show ?thesis using old x vk by auto
    qed
  qed
qed (simp add: winner_Nil)

lemma winner_unique:
  assumes "distinct (map snd xs)" "(v, k) \<in> set xs" "\<And>w l. (w, l) \<in> set xs \<Longrightarrow> l \<noteq> k \<Longrightarrow> beats k l"
  shows "winner put xs = Some (v, k)"
proof -
  obtain w l where w: "winner put xs = Some (w, l)" using assms(2) winner_None_iff [of xs] by (cases "winner put xs") auto
  from winner_wins [OF this] have "(w, l) \<in> set xs" "k \<noteq> l \<longrightarrow> beats l k" using assms(2) by auto
  then have "l = k" using assms(3) beats_total by blast
  then have "w = v" using \<open>(w, l) \<in> set xs\<close> assms(1,2) by (force simp: distinct_map inj_on_def)
  then show ?thesis using w \<open>l = k\<close> by simp
qed

lemma winner_perm:
  assumes "distinct (map snd xs)" "mset xs = mset ys"
  shows "winner put xs = winner put ys"
proof (cases "winner put ys")
  case None
  then show ?thesis using assms(2) by (simp add: winner_None_iff)
next
  case (Some c)
  obtain v k where c: "c = (v, k)" by (cases c)
  have same: "set xs = set ys" using assms(2) by (metis set_mset_mset)
  have "(v, k) \<in> set ys" "\<And>w l. (w, l) \<in> set ys \<Longrightarrow> l \<noteq> k \<Longrightarrow> beats k l"
    using winner_wins Some c by blast+
  then have "winner put xs = Some (v, k)" using assms(1) same by (intro winner_unique) auto
  then show ?thesis using Some c by simp
qed

end

interpretation latest: keyed_slot put_latest "\<lambda>k (l :: 'k :: linorder). k \<ge> l"
  by unfold_locales (auto simp: put_latest_def)

interpretation earliest: keyed_slot put_first "\<lambda>k (l :: 'k :: linorder). k < l"
  by unfold_locales (auto simp: put_first_def)

text \<open>Only the order of the keys matters.\<close>

definition order_embedding_on :: "'k set \<Rightarrow> ('k :: linorder \<Rightarrow> 'l :: linorder) \<Rightarrow> bool" where
  "order_embedding_on A g \<longleftrightarrow> (\<forall>k \<in> A. \<forall>l \<in> A. g k \<le> g l \<longleftrightarrow> k \<le> l)"

lemma order_embedding_less: "order_embedding_on A g \<Longrightarrow> k \<in> A \<Longrightarrow> l \<in> A \<Longrightarrow> g k < g l \<longleftrightarrow> k < l"
  by (auto simp: order_embedding_on_def not_le [symmetric])

lemma order_embedding_inj: "order_embedding_on A g \<Longrightarrow> inj_on g A"
  by (rule inj_onI) (metis order_embedding_on_def order_antisym order_refl)

lemma latest_relabel:
  "order_embedding_on (set (map snd xs)) g \<Longrightarrow> winner put_latest (map (apsnd g) xs) = map_option (apsnd g) (winner put_latest xs)"
proof (induction xs rule: rev_induct)
  case (snoc x xs)
  obtain v k where x: "x = (v, k)" by (cases x)
  have IH: "winner put_latest (map (apsnd g) xs) = map_option (apsnd g) (winner put_latest xs)"
    using snoc by (auto simp: order_embedding_on_def)
  show ?case
  proof (cases "winner put_latest xs")
    case (Some c)
    obtain w l where c: "c = (w, l)" by (cases c)
    have "l \<in> set (map snd (xs @ [x]))" using latest.winner_wins [of xs w l] Some c by force
    then have "g l \<le> g k \<longleftrightarrow> l \<le> k" using snoc.prems x by (auto simp: order_embedding_on_def)
    then show ?thesis using IH Some c by (simp add: x latest.winner_snoc latest.put_Some)
  qed (use IH in \<open>simp add: x latest.winner_snoc latest.put_None\<close>)
qed (simp add: latest.winner_Nil)

lemma earliest_relabel:
  "order_embedding_on (set (map snd xs)) g \<Longrightarrow> winner put_first (map (apsnd g) xs) = map_option (apsnd g) (winner put_first xs)"
proof (induction xs rule: rev_induct)
  case (snoc x xs)
  obtain v k where x: "x = (v, k)" by (cases x)
  have IH: "winner put_first (map (apsnd g) xs) = map_option (apsnd g) (winner put_first xs)"
    using snoc by (auto simp: order_embedding_on_def)
  show ?case
  proof (cases "winner put_first xs")
    case (Some c)
    obtain w l where c: "c = (w, l)" by (cases c)
    have "l \<in> set (map snd (xs @ [x]))" using earliest.winner_wins [of xs w l] Some c by force
    then have "g k < g l \<longleftrightarrow> k < l" using snoc.prems x by (intro order_embedding_less) auto
    then show ?thesis using IH Some c by (simp add: x earliest.winner_snoc earliest.put_Some)
  qed (use IH in \<open>simp add: x earliest.winner_snoc earliest.put_None\<close>)
qed (simp add: earliest.winner_Nil)

section \<open>What entries offer to a slot\<close>

type_synonym 'k keyed = "('k \<times> log_entry) list"

definition said :: "(log_entry \<Rightarrow> 'v option) \<Rightarrow> 'k keyed \<Rightarrow> ('v \<times> 'k) list" where
  "said u kes = List.map_filter (\<lambda>(k, e). map_option (\<lambda>v. (v, k)) (u e)) kes"

lemma said_simps [simp]:
  "said u [] = []"
  "said u ((k, e) # kes) = (case u e of None \<Rightarrow> said u kes | Some v \<Rightarrow> (v, k) # said u kes)"
  by (simp_all add: said_def List.map_filter_simps split: option.split)

lemma said_append [simp]: "said u (kes @ kes') = said u kes @ said u kes'"
  by (induction kes) (auto split: option.split)

lemma set_said: "(v, k) \<in> set (said u kes) \<longleftrightarrow> (\<exists>e. (k, e) \<in> set kes \<and> u e = Some v)"
  by (induction kes) (auto split: option.splits)

lemma keys_said: "set (map snd (said u kes)) \<subseteq> set (map fst kes)"
  by (auto simp: set_said image_iff) (metis fst_conv set_said surjective_pairing)

lemma distinct_said: "distinct (map fst kes) \<Longrightarrow> distinct (map snd (said u kes))"
proof (induction kes)
  case (Cons ke kes)
  obtain k e where "ke = (k, e)" by (cases ke)
  then show ?case using Cons keys_said [of u kes] by (auto split: option.split)
qed simp

lemma said_filter: "said u kes = map (\<lambda>(k, e). (the (u e), k)) (filter (\<lambda>(k, e). u e \<noteq> None) kes)"
  by (induction kes) (auto split: option.split)

lemma mset_said: "mset kes = mset kes' \<Longrightarrow> mset (said u kes) = mset (said u kes')"
  by (simp add: said_filter)

lemma said_relabel: "said u (map (apfst g) kes) = map (apsnd g) (said u kes)"
  by (induction kes) (auto split: option.split)

section \<open>The value a slot ends with\<close>

definition latest_said :: "(log_entry \<Rightarrow> 'v option) \<Rightarrow> ('k :: linorder) keyed \<Rightarrow> 'v option" where
  "latest_said u kes = map_option fst (winner put_latest (said u kes))"

definition first_said :: "(log_entry \<Rightarrow> 'v option) \<Rightarrow> ('k :: linorder) keyed \<Rightarrow> 'v option" where
  "first_said u kes = map_option fst (winner put_first (said u kes))"

lemma latest_said_perm: "distinct (map fst kes) \<Longrightarrow> mset kes = mset kes' \<Longrightarrow> latest_said u kes = latest_said u kes'"
  unfolding latest_said_def by (subst latest.winner_perm [OF distinct_said mset_said]) auto

lemma first_said_perm: "distinct (map fst kes) \<Longrightarrow> mset kes = mset kes' \<Longrightarrow> first_said u kes = first_said u kes'"
  unfolding first_said_def by (subst earliest.winner_perm [OF distinct_said mset_said]) auto

lemma embedding_said: "order_embedding_on (set (map fst kes)) g \<Longrightarrow> order_embedding_on (set (map snd (said u kes))) g"
  using keys_said [of u kes] unfolding order_embedding_on_def by blast

lemma latest_said_relabel: "order_embedding_on (set (map fst kes)) g \<Longrightarrow> latest_said u (map (apfst g) kes) = latest_said u kes"
  by (simp add: latest_said_def said_relabel latest_relabel [OF embedding_said] option.map_comp o_def)

lemma first_said_relabel: "order_embedding_on (set (map fst kes)) g \<Longrightarrow> first_said u (map (apfst g) kes) = first_said u kes"
  by (simp add: first_said_def said_relabel earliest_relabel [OF embedding_said] option.map_comp o_def)

text \<open>A part of the state that changes by what entries offer it, and by nothing else.\<close>

lemma fold_said:
  assumes "\<And>k e f. (k, e) \<in> set kes \<Longrightarrow> slot (app (k, e) f) = (case u e of None \<Rightarrow> slot f | Some v \<Rightarrow> put v k (slot f))"
  shows "slot (fold app kes f) = fold (\<lambda>(v, k). put v k) (said u kes) (slot f)"
  using assms
proof (induction kes arbitrary: f)
  case (Cons ke kes)
  obtain k e where "ke = (k, e)" by (cases ke)
  then show ?case using Cons by (auto split: option.split)
qed simp

lemma fold_said_empty:
  assumes "\<And>k e f. (k, e) \<in> set kes \<Longrightarrow> slot (app (k, e) f) = (case u e of None \<Rightarrow> slot f | Some v \<Rightarrow> put v k (slot f))"
    and "slot f = None"
  shows "slot (fold app kes f) = winner put (said u kes)"
proof -
  have "slot (fold app kes f) = fold (\<lambda>(v, k). put v k) (said u kes) (slot f)"
    by (rule fold_said) (rule assms(1))
  then show ?thesis using assms(2) by (simp add: winner_def)
qed

end
