(* ===== verification/Log_Laws.thy ===== *)
theory Log_Laws
imports Log_Slots
begin

text \<open>
  What the fold of a run's log keeps: for every field, a function of what the visible entries say of
  it. From this follow the laws of core/fold.py: entries may arrive in any chunks and any order of the
  writers, a rewind met late asks for one more fold, and the fold by time, writer and position agrees
  with the fold of the merged log by position.
\<close>

section \<open>Entries as they are stored\<close>

definition map_or_null :: "sv \<Rightarrow> bool" where
  "map_or_null v = (case v of SNull \<Rightarrow> True | SMap m \<Rightarrow> distinct (map fst m) | _ \<Rightarrow> False)"

definition strings_or_null :: "sv \<Rightarrow> bool" where
  "strings_or_null v = (case v of SNull \<Rightarrow> True | SList vs \<Rightarrow> list_all (\<lambda>x. case x of SStr s \<Rightarrow> True | _ \<Rightarrow> False) vs | _ \<Rightarrow> False)"

definition string_or_null :: "sv \<Rightarrow> bool" where
  "string_or_null v = (case v of SNull \<Rightarrow> True | SStr s \<Rightarrow> True | _ \<Rightarrow> False)"

definition stored_entry :: "log_entry \<Rightarrow> bool" where
  "stored_entry e =
     (distinct (map fst e) \<and> map_or_null (s_get e ''params'') \<and> map_or_null (s_get e ''set'') \<and> map_or_null (s_get e ''values'')
      \<and> strings_or_null (s_get e ''remove'') \<and> string_or_null (s_get e ''name'') \<and> string_or_null (s_get e ''path'')
      \<and> (get_type e = SStr ''metrics'' \<longrightarrow> list_all (\<lambda>(n, v). as_number v \<noteq> None) (items (s_get e ''values''))))"

definition filter_values :: "('v \<Rightarrow> 'w option) \<Rightarrow> ('n \<times> 'v) list \<Rightarrow> ('n \<times> 'w) list" where
  "filter_values f m = List.map_filter (\<lambda>(n, v). map_option (Pair n) (f v)) m"

lemma filter_values_simps [simp]:
  "filter_values f [] = []"
  "filter_values f ((n, v) # m) = (case f v of None \<Rightarrow> filter_values f m | Some w \<Rightarrow> (n, w) # filter_values f m)"
  by (simp_all add: filter_values_def List.map_filter_simps split: option.split)

lemma filter_values_names: "fst ` set (filter_values f m) \<subseteq> fst ` set m"
  by (force simp: filter_values_def List.map_filter_def)

lemma filter_values_distinct: "distinct (map fst m) \<Longrightarrow> distinct (map fst (filter_values f m))"
proof (induction m)
  case (Cons x m)
  then show ?case using filter_values_names [of f m] by (cases x) (simp split: option.split, blast)
qed simp

lemma stored_distinct:
  assumes "stored_entry e"
  shows "distinct (map fst (entry_params e))" "distinct (map fst (metric_values e))"
proof -
  have items: "distinct (map fst (items v))" if "map_or_null v" for v
    using that by (auto simp: map_or_null_def items_def split: sv.splits)
  show "distinct (map fst (entry_params e))" using assms items by (auto simp: stored_entry_def entry_params_def)
  show "distinct (map fst (metric_values e))"
    using assms items filter_values_distinct
    by (auto simp: stored_entry_def metric_values_def filter_values_def [symmetric])
qed

text \<open>An entry that went through \<open>sanitize_entry\<close> has numbers for its metrics.\<close>

lemma sanitized_values:
  assumes "sanitize_entry e = Inr (Some e')" "get_type e = SStr ''metrics''" "map_of e ''values'' \<noteq> None"
  shows "get_type e' = SStr ''metrics'' \<and> (\<exists>vs. s_get e' ''values'' = SMap vs \<and> vs \<noteq> []
    \<and> list_all (\<lambda>(n, v). \<exists>f. v = SFloat f) vs)"
proof -
  obtain vs where vs: "coerce_metric_values (s_get e ''values'') = Inr vs" "vs \<noteq> []" "e' = od_put ''values'' (SMap vs) e"
    using assms by (auto simp: sanitize_entry_def split: if_splits)
  have "list_all (\<lambda>(n, v). \<exists>f. v = SFloat f) vs"
    using vs(1) by (cases "items_or_empty (s_get e ''values'')")
      (auto simp: coerce_metric_values_def list_all_iff List.map_filter_def)
  moreover have "get_type e' = get_type e" "s_get e' ''values'' = SMap vs"
    by (simp_all add: vs(3) get_type_def s_get_def)
  ultimately show ?thesis using assms(2) vs(2) by simp
qed

section \<open>Names kept together\<close>

definition last_of :: "('n \<times> 'v) list \<Rightarrow> 'n \<Rightarrow> 'v option" where
  "last_of us n = map_of (rev us) n"

lemma last_of_simps [simp]:
  "last_of [] n = None"
  "last_of ((m, v) # us) n = (case last_of us n of None \<Rightarrow> if m = n then Some v else None | Some w \<Rightarrow> Some w)"
  by (auto simp: last_of_def map_add_def split: option.split)

lemma last_of_distinct: "distinct (map fst us) \<Longrightarrow> last_of us = map_of us"
  by (rule ext, induction us) (auto split: option.split, metis image_eqI fst_conv map_of_SomeD)

lemma put_latest_twice: "put_latest w k (put_latest v k c) = put_latest w k c"
  by (auto simp: put_latest_def split: option.split)

lemma keep_all_at: "keep_all us k m n = (case last_of us n of None \<Rightarrow> m n | Some v \<Rightarrow> put_latest v k (m n))"
proof (induction us arbitrary: m)
  case (Cons u us)
  obtain x v where u: "u = (x, v)" by (cases u)
  have "keep_all (u # us) k m n = keep_all us k (keep_at x v k m) n" by (simp add: keep_all_def u)
  then show ?case using Cons by (auto simp: u keep_at_def put_latest_twice split: option.split)
qed (simp add: keep_all_def)

lemma keep_all_append: "keep_all vs k (keep_all us k m) = keep_all (us @ vs) k m"
  by (simp add: keep_all_def)

section \<open>Frames: what a step leaves alone\<close>

lemma fold_frame: "(\<And>x f. part (g x f) = part f) \<Longrightarrow> part (fold g xs f) = part f"
  by (induction xs arbitrary: f) simp_all

lemma param_frame [simp]:
  "fd_extrema (apply_param k p f) = fd_extrema f"
  "fd_firsts (apply_param k p f) = fd_firsts f"
  "fd_tags (apply_param k p f) = fd_tags f"
  "fd_inputs (apply_param k p f) = fd_inputs f"
  "fd_outputs (apply_param k p f) = fd_outputs f"
  "fd_defs (apply_param k p f) = fd_defs f"
  "fd_last_metric (apply_param k p f) = fd_last_metric f"
  "fd_create_note (apply_param k p f) = fd_create_note f"
  "fd_hypothesis (apply_param k p f) = fd_hypothesis f"
  "fd_features (apply_param k p f) = fd_features f"
  "fd_intent (apply_param k p f) = fd_intent f"
  "fd_note_sigs (apply_param k p f) = fd_note_sigs f"
  "fd_rewinds (apply_param k p f) = fd_rewinds f"
  "fd_stale (apply_param k p f) = fd_stale f"
  by (auto simp: apply_param_def Let_def split: prod.splits option.splits if_splits)

lemma params_frame [simp]:
  "fd_extrema (fold (apply_param k) ps f) = fd_extrema f"
  "fd_firsts (fold (apply_param k) ps f) = fd_firsts f"
  "fd_tags (fold (apply_param k) ps f) = fd_tags f"
  "fd_inputs (fold (apply_param k) ps f) = fd_inputs f"
  "fd_outputs (fold (apply_param k) ps f) = fd_outputs f"
  "fd_defs (fold (apply_param k) ps f) = fd_defs f"
  "fd_last_metric (fold (apply_param k) ps f) = fd_last_metric f"
  "fd_create_note (fold (apply_param k) ps f) = fd_create_note f"
  "fd_hypothesis (fold (apply_param k) ps f) = fd_hypothesis f"
  "fd_features (fold (apply_param k) ps f) = fd_features f"
  "fd_intent (fold (apply_param k) ps f) = fd_intent f"
  "fd_note_sigs (fold (apply_param k) ps f) = fd_note_sigs f"
  "fd_rewinds (fold (apply_param k) ps f) = fd_rewinds f"
  "fd_stale (fold (apply_param k) ps f) = fd_stale f"
  by (rule fold_frame, simp)+

lemma fold_apply_param: "fd_params (fold (apply_param k) ps f) = keep_all ps k (fd_params f)"
  by (induction ps arbitrary: f) (auto simp: apply_param_def keep_all_def Let_def split: option.split)

lemma metric_value_frame [simp]:
  "fd_params (apply_metric_value k x f) = fd_params f"
  "fd_tags (apply_metric_value k x f) = fd_tags f"
  "fd_inputs (apply_metric_value k x f) = fd_inputs f"
  "fd_outputs (apply_metric_value k x f) = fd_outputs f"
  "fd_defs (apply_metric_value k x f) = fd_defs f"
  "fd_last_metric (apply_metric_value k x f) = fd_last_metric f"
  "fd_create_note (apply_metric_value k x f) = fd_create_note f"
  "fd_hypothesis (apply_metric_value k x f) = fd_hypothesis f"
  "fd_features (apply_metric_value k x f) = fd_features f"
  "fd_intent (apply_metric_value k x f) = fd_intent f"
  "fd_note_sigs (apply_metric_value k x f) = fd_note_sigs f"
  "fd_rewinds (apply_metric_value k x f) = fd_rewinds f"
  "fd_stale (apply_metric_value k x f) = fd_stale f"
  by (auto simp: apply_metric_value_def track_extrema_def take_from_param_def Let_def
      split: prod.splits option.splits seen.splits if_splits)

lemma metric_values_frame [simp]:
  "fd_params (apply_metric_values e k f) = fd_params f"
  "fd_tags (apply_metric_values e k f) = fd_tags f"
  "fd_inputs (apply_metric_values e k f) = fd_inputs f"
  "fd_outputs (apply_metric_values e k f) = fd_outputs f"
  "fd_defs (apply_metric_values e k f) = fd_defs f"
  "fd_last_metric (apply_metric_values e k f) = fd_last_metric f"
  "fd_create_note (apply_metric_values e k f) = fd_create_note f"
  "fd_hypothesis (apply_metric_values e k f) = fd_hypothesis f"
  "fd_features (apply_metric_values e k f) = fd_features f"
  "fd_intent (apply_metric_values e k f) = fd_intent f"
  "fd_note_sigs (apply_metric_values e k f) = fd_note_sigs f"
  "fd_rewinds (apply_metric_values e k f) = fd_rewinds f"
  "fd_stale (apply_metric_values e k f) = fd_stale f"
  unfolding apply_metric_values_def by (rule fold_frame, simp)+

lemma tags_frame [simp]:
  "fd_params (apply_tags ops e k f) = fd_params f"
  "fd_metrics (apply_tags ops e k f) = fd_metrics f"
  "fd_extrema (apply_tags ops e k f) = fd_extrema f"
  "fd_firsts (apply_tags ops e k f) = fd_firsts f"
  "fd_inputs (apply_tags ops e k f) = fd_inputs f"
  "fd_outputs (apply_tags ops e k f) = fd_outputs f"
  "fd_defs (apply_tags ops e k f) = fd_defs f"
  "fd_last_metric (apply_tags ops e k f) = fd_last_metric f"
  "fd_create_note (apply_tags ops e k f) = fd_create_note f"
  "fd_hypothesis (apply_tags ops e k f) = fd_hypothesis f"
  "fd_features (apply_tags ops e k f) = fd_features f"
  "fd_intent (apply_tags ops e k f) = fd_intent f"
  "fd_note_sigs (apply_tags ops e k f) = fd_note_sigs f"
  "fd_rewinds (apply_tags ops e k f) = fd_rewinds f"
  "fd_stale (apply_tags ops e k f) = fd_stale f"
  by (simp_all add: apply_tags_def Let_def split: prod.split option.split)

lemma inputs_frame [simp]:
  "fd_params (apply_inputs e k f) = fd_params f"
  "fd_metrics (apply_inputs e k f) = fd_metrics f"
  "fd_extrema (apply_inputs e k f) = fd_extrema f"
  "fd_firsts (apply_inputs e k f) = fd_firsts f"
  "fd_tags (apply_inputs e k f) = fd_tags f"
  "fd_outputs (apply_inputs e k f) = fd_outputs f"
  "fd_defs (apply_inputs e k f) = fd_defs f"
  "fd_last_metric (apply_inputs e k f) = fd_last_metric f"
  "fd_create_note (apply_inputs e k f) = fd_create_note f"
  "fd_hypothesis (apply_inputs e k f) = fd_hypothesis f"
  "fd_features (apply_inputs e k f) = fd_features f"
  "fd_intent (apply_inputs e k f) = fd_intent f"
  "fd_note_sigs (apply_inputs e k f) = fd_note_sigs f"
  "fd_rewinds (apply_inputs e k f) = fd_rewinds f"
  "fd_stale (apply_inputs e k f) = fd_stale f"
  by (simp_all add: apply_inputs_def Let_def split: prod.split option.split)

lemma outputs_frame [simp]:
  "fd_params (apply_outputs ops e k f) = fd_params f"
  "fd_metrics (apply_outputs ops e k f) = fd_metrics f"
  "fd_extrema (apply_outputs ops e k f) = fd_extrema f"
  "fd_firsts (apply_outputs ops e k f) = fd_firsts f"
  "fd_tags (apply_outputs ops e k f) = fd_tags f"
  "fd_inputs (apply_outputs ops e k f) = fd_inputs f"
  "fd_defs (apply_outputs ops e k f) = fd_defs f"
  "fd_last_metric (apply_outputs ops e k f) = fd_last_metric f"
  "fd_create_note (apply_outputs ops e k f) = fd_create_note f"
  "fd_hypothesis (apply_outputs ops e k f) = fd_hypothesis f"
  "fd_features (apply_outputs ops e k f) = fd_features f"
  "fd_intent (apply_outputs ops e k f) = fd_intent f"
  "fd_note_sigs (apply_outputs ops e k f) = fd_note_sigs f"
  "fd_rewinds (apply_outputs ops e k f) = fd_rewinds f"
  "fd_stale (apply_outputs ops e k f) = fd_stale f"
  by (simp_all add: apply_outputs_def Let_def split: prod.split option.split)

lemma definition_frame [simp]:
  "fd_params (apply_definition e k f) = fd_params f"
  "fd_metrics (apply_definition e k f) = fd_metrics f"
  "fd_extrema (apply_definition e k f) = fd_extrema f"
  "fd_firsts (apply_definition e k f) = fd_firsts f"
  "fd_tags (apply_definition e k f) = fd_tags f"
  "fd_inputs (apply_definition e k f) = fd_inputs f"
  "fd_outputs (apply_definition e k f) = fd_outputs f"
  "fd_last_metric (apply_definition e k f) = fd_last_metric f"
  "fd_create_note (apply_definition e k f) = fd_create_note f"
  "fd_hypothesis (apply_definition e k f) = fd_hypothesis f"
  "fd_features (apply_definition e k f) = fd_features f"
  "fd_intent (apply_definition e k f) = fd_intent f"
  "fd_note_sigs (apply_definition e k f) = fd_note_sigs f"
  "fd_rewinds (apply_definition e k f) = fd_rewinds f"
  "fd_stale (apply_definition e k f) = fd_stale f"
  by (simp_all add: apply_definition_def Let_def split: prod.split option.split)

lemma features_frame [simp]:
  "fd_params (apply_features e k f) = fd_params f"
  "fd_metrics (apply_features e k f) = fd_metrics f"
  "fd_extrema (apply_features e k f) = fd_extrema f"
  "fd_firsts (apply_features e k f) = fd_firsts f"
  "fd_tags (apply_features e k f) = fd_tags f"
  "fd_inputs (apply_features e k f) = fd_inputs f"
  "fd_outputs (apply_features e k f) = fd_outputs f"
  "fd_defs (apply_features e k f) = fd_defs f"
  "fd_last_metric (apply_features e k f) = fd_last_metric f"
  "fd_create_note (apply_features e k f) = fd_create_note f"
  "fd_hypothesis (apply_features e k f) = fd_hypothesis f"
  "fd_intent (apply_features e k f) = fd_intent f"
  "fd_note_sigs (apply_features e k f) = fd_note_sigs f"
  "fd_rewinds (apply_features e k f) = fd_rewinds f"
  "fd_stale (apply_features e k f) = fd_stale f"
  by (simp_all add: apply_features_def Let_def split: prod.split option.split)

lemma intent_frame [simp]:
  "fd_params (apply_intent e k f) = fd_params f"
  "fd_metrics (apply_intent e k f) = fd_metrics f"
  "fd_extrema (apply_intent e k f) = fd_extrema f"
  "fd_firsts (apply_intent e k f) = fd_firsts f"
  "fd_tags (apply_intent e k f) = fd_tags f"
  "fd_inputs (apply_intent e k f) = fd_inputs f"
  "fd_outputs (apply_intent e k f) = fd_outputs f"
  "fd_defs (apply_intent e k f) = fd_defs f"
  "fd_last_metric (apply_intent e k f) = fd_last_metric f"
  "fd_create_note (apply_intent e k f) = fd_create_note f"
  "fd_hypothesis (apply_intent e k f) = fd_hypothesis f"
  "fd_features (apply_intent e k f) = fd_features f"
  "fd_note_sigs (apply_intent e k f) = fd_note_sigs f"
  "fd_rewinds (apply_intent e k f) = fd_rewinds f"
  "fd_stale (apply_intent e k f) = fd_stale f"
  by (simp_all add: apply_intent_def Let_def split: prod.split option.split)

lemma note_frame [simp]:
  "fd_params (apply_note ops e k f) = fd_params f"
  "fd_metrics (apply_note ops e k f) = fd_metrics f"
  "fd_extrema (apply_note ops e k f) = fd_extrema f"
  "fd_firsts (apply_note ops e k f) = fd_firsts f"
  "fd_tags (apply_note ops e k f) = fd_tags f"
  "fd_inputs (apply_note ops e k f) = fd_inputs f"
  "fd_outputs (apply_note ops e k f) = fd_outputs f"
  "fd_defs (apply_note ops e k f) = fd_defs f"
  "fd_last_metric (apply_note ops e k f) = fd_last_metric f"
  "fd_create_note (apply_note ops e k f) = fd_create_note f"
  "fd_hypothesis (apply_note ops e k f) = fd_hypothesis f"
  "fd_features (apply_note ops e k f) = fd_features f"
  "fd_intent (apply_note ops e k f) = fd_intent f"
  "fd_rewinds (apply_note ops e k f) = fd_rewinds f"
  "fd_stale (apply_note ops e k f) = fd_stale f"
  by (simp_all add: apply_note_def Let_def split: prod.split option.split)

lemma first_create_frame [simp]:
  "fd_params (apply_first_create e k f) = fd_params f"
  "fd_metrics (apply_first_create e k f) = fd_metrics f"
  "fd_extrema (apply_first_create e k f) = fd_extrema f"
  "fd_firsts (apply_first_create e k f) = fd_firsts f"
  "fd_tags (apply_first_create e k f) = fd_tags f"
  "fd_inputs (apply_first_create e k f) = fd_inputs f"
  "fd_outputs (apply_first_create e k f) = fd_outputs f"
  "fd_defs (apply_first_create e k f) = fd_defs f"
  "fd_last_metric (apply_first_create e k f) = fd_last_metric f"
  "fd_features (apply_first_create e k f) = fd_features f"
  "fd_intent (apply_first_create e k f) = fd_intent f"
  "fd_note_sigs (apply_first_create e k f) = fd_note_sigs f"
  "fd_rewinds (apply_first_create e k f) = fd_rewinds f"
  "fd_stale (apply_first_create e k f) = fd_stale f"
  by (simp_all add: apply_first_create_def Let_def split: prod.split option.split)

section \<open>What each field is told\<close>

definition said_tag :: "text_ops \<Rightarrow> string \<Rightarrow> log_entry \<Rightarrow> sv option" where
  "said_tag ops n e =
     (if get_type e \<in> {SStr ''tags'', SStr ''create''}
      then last_of (fst (entry_tags ops e) @ map (\<lambda>n. (n, SNull)) (snd (entry_tags ops e))) n else None)"

definition said_input :: "sv \<Rightarrow> log_entry \<Rightarrow> (sv \<times> sv \<times> sv) option" where
  "said_input n e =
     (if get_type e = SStr ''input'' \<and> s_truthy n \<and> s_get e ''name'' = n
      then Some (s_get e ''uri'', s_get e ''digest'', s_get e ''kind'') else None)"

definition said_output :: "text_ops \<Rightarrow> sv \<Rightarrow> log_entry \<Rightarrow> (string option \<times> sv) option" where
  "said_output ops p e =
     (if get_type e \<in> OUTPUT_TYPES \<and> s_truthy p \<and> s_get e ''path'' = p
      then Some (digest_of ops (s_get e ''sha256''), s_get e ''size'') else None)"

definition defined_by :: "log_entry \<Rightarrow> (string \<times> (string \<times> sv) list) option" where
  "defined_by e = (if get_type e = SStr ''define_metric'' then entry_definition e else None)"

definition said_field :: "string \<Rightarrow> string \<Rightarrow> log_entry \<Rightarrow> sv option" where
  "said_field name field e =
     (case defined_by e of None \<Rightarrow> None | Some (m, decl) \<Rightarrow> if m = name then last_of decl field else None)"

definition said_time :: "log_entry \<Rightarrow> sv option" where
  "said_time e = (if get_type e = SStr ''metrics'' then Some (s_get e ''timestamp'') else None)"

definition said_create :: "log_entry \<Rightarrow> (sv \<times> string option) option" where
  "said_create e = (if get_type e = SStr ''create'' then Some (s_get e ''note'', entry_hypothesis e) else None)"

definition said_features :: "log_entry \<Rightarrow> (int \<times> log_entry) option" where
  "said_features e = (if get_type e = SStr ''features'' then features_value e else None)"

definition said_intent :: "log_entry \<Rightarrow> log_entry option" where
  "said_intent e = (if get_type e = SStr ''intent'' then intent_value e else None)"

definition said_metric :: "string \<Rightarrow> log_entry \<Rightarrow> float_val option" where
  "said_metric n e = (if get_type e = SStr ''metrics'' then map_of (metric_values e) n else None)"

definition said_number :: "string \<Rightarrow> log_entry \<Rightarrow> float_val option" where
  "said_number n e = Option.bind (map_of (entry_params e) n) (\<lambda>v. map_option Fin (foldable_param v))"

definition said_note :: "text_ops \<Rightarrow> log_entry \<Rightarrow> (string \<times> sv) option" where
  "said_note ops e =
     (if get_type e = SStr ''note''
      then map_option (\<lambda>sig. (sig, s_get e ''timestamp'')) (note_signature ops (s_get e ''text'')) else None)"

text \<open>What one slot of the state is after an entry, by the field.\<close>

definition field_at :: "'k log_fold \<Rightarrow> string \<Rightarrow> string \<Rightarrow> (sv \<times> 'k) option" where
  "field_at f name field = Option.bind (map_of (fd_defs f) name) (\<lambda>m. m field)"

definition create_slot :: "'k log_fold \<Rightarrow> ((sv \<times> string option) \<times> 'k) option" where
  "create_slot f = map_option (\<lambda>(note, k). ((note, fd_hypothesis f), k)) (fd_create_note f)"

lemmas visible_defs = apply_visible_def apply_by_type_def apply_rest_def Let_def

lemma visible_rewinds [simp]:
  "fd_rewinds (apply_visible ops e k f) = fd_rewinds f"
  "fd_stale (apply_visible ops e k f) = fd_stale f"
  by (simp_all add: visible_defs)

lemma visible_params:
  "fd_params (apply_visible ops e k f) n = (case last_of (entry_params e) n of None \<Rightarrow> fd_params f n | Some v \<Rightarrow> put_latest v k (fd_params f n))"
  by (simp add: visible_defs fold_apply_param keep_all_at split: option.split)

lemma visible_tags:
  "fd_tags (apply_visible ops e k f) n = (case said_tag ops n e of None \<Rightarrow> fd_tags f n | Some v \<Rightarrow> put_latest v k (fd_tags f n))"
  by (cases "entry_tags ops e") (simp add: visible_defs said_tag_def apply_tags_def keep_all_append keep_all_at split: option.split)

lemma visible_inputs:
  "fd_inputs (apply_visible ops e k f) n = (case said_input n e of None \<Rightarrow> fd_inputs f n | Some v \<Rightarrow> put_latest v k (fd_inputs f n))"
  by (auto simp: visible_defs said_input_def apply_inputs_def keep_at_def)

lemma visible_outputs:
  "fd_outputs (apply_visible ops e k f) p = (case said_output ops p e of None \<Rightarrow> fd_outputs f p | Some v \<Rightarrow> put_latest v k (fd_outputs f p))"
  by (auto simp: visible_defs said_output_def apply_outputs_def keep_at_def OUTPUT_TYPES_def)

lemma visible_field:
  "field_at (apply_visible ops e k f) name field
    = (case said_field name field e of None \<Rightarrow> field_at f name field | Some v \<Rightarrow> put_latest v k (field_at f name field))"
  by (auto simp: visible_defs said_field_def defined_by_def apply_definition_def field_at_def keep_all_at OUTPUT_TYPES_def
      split: option.split)

lemma visible_time:
  "fd_last_metric (apply_visible ops e k f)
    = (case said_time e of None \<Rightarrow> fd_last_metric f | Some v \<Rightarrow> put_latest v k (fd_last_metric f))"
  by (simp add: visible_defs said_time_def)

lemma visible_create:
  "create_slot (apply_visible ops e k f)
    = (case said_create e of None \<Rightarrow> create_slot f | Some v \<Rightarrow> put_first v k (create_slot f))"
  by (auto simp: visible_defs said_create_def create_slot_def apply_first_create_def put_first_def split: option.split)

lemma visible_features:
  "fd_features (apply_visible ops e k f)
    = (case said_features e of None \<Rightarrow> fd_features f | Some v \<Rightarrow> put_latest (snd v) (fst v, k) (fd_features f))"
  by (auto simp: visible_defs said_features_def apply_features_def OUTPUT_TYPES_def split: option.split)

lemma visible_intent:
  "fd_intent (apply_visible ops e k f) = (case said_intent e of None \<Rightarrow> fd_intent f | Some v \<Rightarrow> put_latest v k (fd_intent f))"
  by (auto simp: visible_defs said_intent_def apply_intent_def OUTPUT_TYPES_def split: option.split)

end
