(* ===== verification/Log_Metrics.thy ===== *)
theory Log_Metrics
imports Log_Laws
begin

text \<open>
  What a fold keeps of a metric: the last and the first logged value by key, and the least, greatest,
  count and sum of the finite ones; a number among the params stands in only as long as nothing was
  logged under its name.
\<close>

section \<open>The entries of one metric\<close>

type_synonym 'k metric_slot = "seen option \<times> (float_val \<times> 'k) option \<times> (float_val \<times> 'k) option"

definition metric_slot :: "'k log_fold \<Rightarrow> string \<Rightarrow> 'k metric_slot" where
  "metric_slot f n = (fd_extrema f n, fd_firsts f n, fd_metrics f n)"

fun slot_logged :: "float_val \<Rightarrow> 'k :: linorder \<Rightarrow> 'k metric_slot \<Rightarrow> 'k metric_slot" where
  "slot_logged v k (None, first, cur) = (Some (Once v), first, Some (v, k))"
| "slot_logged v k (Some (Once w), first, cur) =
     (Some (widen (widen EMPTY w) v),
      put_first v k (case (first, cur) of (None, Some (u, l)) \<Rightarrow> Some (w, l) | _ \<Rightarrow> first),
      put_latest v k cur)"
| "slot_logged v k (Some (Repeated lo hi n acc), first, cur) =
     (Some (widen (Repeated lo hi n acc) v), put_first v k first, put_latest v k cur)"

fun slot_number :: "float_val \<Rightarrow> 'k :: linorder \<Rightarrow> 'k metric_slot \<Rightarrow> 'k metric_slot" where
  "slot_number x k (None, first, cur) = (None, first, put_latest x k cur)"
| "slot_number x k (Some s, first, cur) = (Some s, first, cur)"

lemma slot_metric_value:
  "metric_slot (apply_metric_value k (m, v) f) n = (if n = m then slot_logged v k (metric_slot f n) else metric_slot f n)"
  by (auto simp: metric_slot_def apply_metric_value_def take_from_param_def track_extrema_def logged_def keep_at_def
      put_latest_def Let_def split: option.splits seen.splits prod.splits)

lemma slot_metric_values:
  "distinct (map fst vs) \<Longrightarrow> metric_slot (fold (apply_metric_value k) vs f) n
    = (case map_of vs n of None \<Rightarrow> metric_slot f n | Some v \<Rightarrow> slot_logged v k (metric_slot f n))"
proof (induction vs arbitrary: f)
  case (Cons x vs)
  obtain m v where x: "x = (m, v)" by (cases x)
  have "m = n \<Longrightarrow> map_of vs n = None" using Cons.prems x by (simp add: map_of_eq_None_iff)
  then show ?case using Cons x by (cases "m = n") (simp_all add: slot_metric_value split: option.split)
qed simp

lemma slot_param:
  "metric_slot (apply_param k (m, v) f) n
    = (case (if n = m then foldable_param v else None) of None \<Rightarrow> metric_slot f n
       | Some x \<Rightarrow> slot_number (Fin x) k (metric_slot f n))"
  by (cases "fd_extrema f n") (auto simp: metric_slot_def apply_param_def logged_def keep_at_def Let_def split: option.splits)

lemma slot_params:
  "distinct (map fst ps) \<Longrightarrow> metric_slot (fold (apply_param k) ps f) n
    = (case Option.bind (map_of ps n) (\<lambda>v. map_option Fin (foldable_param v)) of None \<Rightarrow> metric_slot f n
       | Some x \<Rightarrow> slot_number x k (metric_slot f n))"
proof (induction ps arbitrary: f)
  case (Cons p ps)
  obtain m v where p: "p = (m, v)" by (cases p)
  have "m = n \<Longrightarrow> map_of ps n = None" using Cons.prems p by (simp add: map_of_eq_None_iff)
  then show ?case using Cons p by (cases "m = n") (simp_all add: slot_param split: option.split)
qed simp

lemma slot_frame [simp]:
  "metric_slot (apply_by_type ops e k f) n = metric_slot f n"
  by (simp add: metric_slot_def apply_by_type_def Let_def)

lemma no_params_in_metrics: "get_type e = SStr ''metrics'' \<Longrightarrow> entry_params e = []"
  by (simp add: entry_params_def)

lemma visible_metric:
  assumes "stored_entry e"
  shows "metric_slot (apply_visible ops e k f) n
    = (case said_metric n e of Some v \<Rightarrow> slot_logged v k (metric_slot f n)
       | None \<Rightarrow> (case said_number n e of Some x \<Rightarrow> slot_number x k (metric_slot f n) | None \<Rightarrow> metric_slot f n))"
proof (cases "get_type e = SStr ''metrics''")
  case True
  have "metric_slot (apply_visible ops e k f) n = metric_slot (apply_metric_values e k (apply_by_type ops e k f)) n"
    using True by (simp add: apply_visible_def apply_rest_def no_params_in_metrics Let_def metric_slot_def)
  then show ?thesis using True stored_distinct [OF assms]
    by (simp add: apply_metric_values_def slot_metric_values said_metric_def said_number_def no_params_in_metrics split: option.split)
next
  case False
  have "metric_slot (apply_visible ops e k f) n = metric_slot (fold (apply_param k) (entry_params e) (apply_by_type ops e k f)) n"
    using False by (simp add: apply_visible_def apply_rest_def metric_slot_def)
  then show ?thesis using False stored_distinct [OF assms]
    by (simp add: slot_params said_metric_def said_number_def split: option.split)
qed

section \<open>What they amount to\<close>

definition finites :: "float_val list \<Rightarrow> rat list" where
  "finites vs = List.map_filter finite_of vs"

definition summary_seen :: "float_val list \<Rightarrow> seen" where
  "summary_seen vs =
     Repeated (if finites vs = [] then None else Some (Min (set (finites vs))))
       (if finites vs = [] then None else Some (Max (set (finites vs)))) (length (finites vs)) (sum_list (finites vs))"

definition slot_spec :: "(float_val \<times> 'k :: linorder) list \<Rightarrow> (float_val \<times> 'k) list \<Rightarrow> 'k metric_slot" where
  "slot_spec pts nums =
     (case pts of
        [] \<Rightarrow> (None, None, winner put_latest nums)
      | [(v, k)] \<Rightarrow> (Some (Once v), None, Some (v, k))
      | _ \<Rightarrow> (Some (summary_seen (map fst pts)), winner put_first pts, winner put_latest pts))"

lemma finites_simps [simp]:
  "finites [] = []"
  "finites (v # vs) = (case finite_of v of None \<Rightarrow> finites vs | Some x \<Rightarrow> x # finites vs)"
  by (simp_all add: finites_def List.map_filter_simps split: option.split)

lemma finites_append [simp]: "finites (vs @ ws) = finites vs @ finites ws"
  by (induction vs) (auto split: option.split)

lemma if_min: "(if x < m then x else m) = min x m" and if_max: "(if x > m then x else m) = max x m" for x m :: rat
  by (simp_all add: min_def max_def)

lemma widen_summary: "widen (summary_seen vs) v = summary_seen (vs @ [v])"
proof (cases "finite_of v")
  case None
  then show ?thesis by (simp add: widen_def summary_seen_def)
next
  case (Some x)
  have sets: "set (finites (vs @ [v])) = insert x (set (finites vs))" using Some by simp
  show ?thesis
  proof (cases "finites vs = []")
    case True
    then show ?thesis using Some by (simp add: widen_def summary_seen_def)
  next
    case False
    then have "set (finites vs) \<noteq> {}" by simp
    then show ?thesis using Some False unfolding summary_seen_def sets
      by (simp add: widen_def if_min if_max del: Min_gr_iff Max_less_iff)
  qed
qed

lemma summary_seen_empty: "summary_seen [] = EMPTY"
  by (simp add: summary_seen_def EMPTY_def)

lemma slot_spec_logged:
  "slot_logged v k (slot_spec pts nums) = slot_spec (pts @ [(v, k)]) nums"
proof (cases pts rule: remdups_adj.cases)
  case (2 p)
  obtain w l where p: "p = (w, l)" by (cases p)
  have "widen (widen EMPTY w) v = summary_seen [w, v]"
    by (simp add: summary_seen_empty [symmetric] widen_summary)
  moreover have "put_first v k (Some (w, l)) = winner put_first [(w, l), (v, k)]"
    using earliest.winner_snoc [of "[(w, l)]" v k] by (simp add: earliest.winner_single)
  moreover have "put_latest v k (Some (w, l)) = winner put_latest [(w, l), (v, k)]"
    using latest.winner_snoc [of "[(w, l)]" v k] by (simp add: latest.winner_single)
  ultimately show ?thesis by (simp add: 2 p slot_spec_def)
next
  case (3 p q ps)
  obtain lo hi c acc where s: "summary_seen (map fst pts) = Repeated lo hi c acc" by (simp add: summary_seen_def)
  have "slot_spec pts nums = (Some (summary_seen (map fst pts)), winner put_first pts, winner put_latest pts)"
    by (simp add: 3 slot_spec_def split: prod.split)
  moreover have "slot_spec (pts @ [(v, k)]) nums
      = (Some (summary_seen (map fst (pts @ [(v, k)]))), winner put_first (pts @ [(v, k)]), winner put_latest (pts @ [(v, k)]))"
    by (simp add: 3 slot_spec_def split: prod.split)
  ultimately show ?thesis
    using widen_summary [of "map fst pts" v] s by (simp add: earliest.winner_snoc latest.winner_snoc)
qed (simp add: slot_spec_def)

lemma slot_spec_number: "slot_number x k (slot_spec pts nums) = slot_spec pts (nums @ [(x, k)])"
  by (auto simp: slot_spec_def latest.winner_snoc split: list.split)

lemma slot_spec_logged_mono: "pts \<noteq> [] \<Longrightarrow> slot_spec pts nums = slot_spec pts nums'"
  by (auto simp: slot_spec_def split: list.split)

lemma metric_and_number: "said_metric n e = Some v \<Longrightarrow> said_number n e = None"
  by (auto simp: said_metric_def said_number_def no_params_in_metrics split: if_splits)

lemma fold_metric_slot:
  assumes "\<forall>(k, e) \<in> set kes. stored_entry e" "metric_slot f n = (None, None, None)"
  shows "metric_slot (fold (\<lambda>(k, e). apply_visible ops e k) kes f) n
    = slot_spec (said (said_metric n) kes) (said (said_number n) kes)"
  using assms(1)
proof (induction kes rule: rev_induct)
  case Nil
  then show ?case using assms(2) by (simp add: slot_spec_def latest.winner_Nil)
next
  case (snoc ke kes)
  obtain k e where ke: "ke = (k, e)" by (cases ke)
  have "stored_entry e" using snoc.prems ke by auto
  moreover have "metric_slot (fold (\<lambda>(k, e). apply_visible ops e k) kes f) n
      = slot_spec (said (said_metric n) kes) (said (said_number n) kes)"
    using snoc by auto
  ultimately show ?case
    by (auto simp: ke visible_metric slot_spec_logged slot_spec_number metric_and_number split: option.split)
qed

end
