(* ===== verification/Log_View.thy ===== *)
theory Log_View
imports Log_Metrics
begin

text \<open>
  A fold without its keys, and what it is of the visible entries. Two logs whose visible entries are
  the same up to their order of arrival, or up to the keys they are given, have the same view.
\<close>

section \<open>Notes\<close>

definition noted :: "text_ops \<Rightarrow> string \<Rightarrow> log_entry \<Rightarrow> sv option" where
  "noted ops sig e = (case said_note ops e of None \<Rightarrow> None | Some (s, t) \<Rightarrow> if s = sig then Some t else None)"

definition signatures :: "text_ops \<Rightarrow> 'k keyed \<Rightarrow> string set" where
  "signatures ops kes = fst ` fst ` set (said (said_note ops) kes)"

definition few_signatures :: "text_ops \<Rightarrow> 'k keyed \<Rightarrow> bool" where
  \<comment> \<open>as many as a fold keeps\<close>
  "few_signatures ops kes = (card (signatures ops kes) \<le> MAX_SIGS)"

lemma visible_notes:
  "fd_note_sigs (apply_visible ops e k f) = (if get_type e = SStr ''note'' then fd_note_sigs (apply_note ops e k f) else fd_note_sigs f)"
  by (auto simp: visible_defs OUTPUT_TYPES_def)

definition notes_are :: "text_ops \<Rightarrow> ('k :: linorder) keyed \<Rightarrow> 'k log_fold \<Rightarrow> bool" where
  "notes_are ops kes f =
     (distinct (map fst (fd_note_sigs f)) \<and> fst ` set (fd_note_sigs f) = signatures ops kes
      \<and> (\<forall>sig. map_of (fd_note_sigs f) sig
           = map_option (\<lambda>(t, k). (length (said (noted ops sig) kes), t, k)) (winner put_latest (said (noted ops sig) kes))))"

lemma finite_signatures: "finite (signatures ops kes)"
  by (simp add: signatures_def)

lemma signatures_snoc:
  "signatures ops (kes @ [(k, e)]) = (case said_note ops e of None \<Rightarrow> signatures ops kes | Some (s, t) \<Rightarrow> insert s (signatures ops kes))"
  by (auto simp: signatures_def split: option.split)

lemma distinct_od_put: "distinct (map fst d) \<Longrightarrow> distinct (map fst (od_put k v d))"
  using od_wf_put by (auto simp: od_wf_def)

lemma notes_snoc:
  assumes "notes_are ops kes f" "few_signatures ops (kes @ [(k, e)])"
  shows "notes_are ops (kes @ [(k, e)]) (apply_visible ops e k f)"
proof (cases "said_note ops e")
  case None
  then have "fd_note_sigs (apply_visible ops e k f) = fd_note_sigs f"
    by (auto simp: visible_notes said_note_def apply_note_def)
  then show ?thesis using assms(1) None by (simp add: notes_are_def signatures_snoc noted_def)
next
  case (Some st)
  obtain s t where st: "st = (s, t)" by (cases st)
  define sigs where "sigs = fd_note_sigs f"
  have is_note: "get_type e = SStr ''note''" "note_signature ops (s_get e ''text'') = Some s" "t = s_get e ''timestamp''"
    using Some st by (auto simp: said_note_def split: if_splits)
  have d: "distinct (map fst sigs)" "fst ` set sigs = signatures ops kes" using assms(1) by (auto simp: notes_are_def sigs_def)
  have held: "map_of sigs sig = map_option (\<lambda>(t, k). (length (said (noted ops sig) kes), t, k)) (winner put_latest (said (noted ops sig) kes))" for sig
    using assms(1) by (auto simp: notes_are_def sigs_def)
  have len: "length sigs = card (signatures ops kes)" using d by (metis distinct_card length_map set_map)
  have "length sigs < MAX_SIGS" if "map_of sigs s = None"
  proof -
    have "s \<notin> signatures ops kes" using that d(2) by (auto simp: map_of_eq_None_iff)
    then show ?thesis using assms(2) Some st len
      by (simp add: few_signatures_def signatures_snoc finite_signatures)
  qed
  then have new: "fd_note_sigs (apply_visible ops e k f)
      = od_put s (case map_of sigs s of None \<Rightarrow> (1, t, k) | Some (n, u, l) \<Rightarrow> if k \<ge> l then (n + 1, t, k) else (n + 1, u, l)) sigs"
    using is_note by (auto simp: visible_notes apply_note_def Let_def sigs_def split: option.split)
  have each: "map_of (fd_note_sigs (apply_visible ops e k f)) sig
      = map_option (\<lambda>(t, l). (length (said (noted ops sig) (kes @ [(k, e)])), t, l)) (winner put_latest (said (noted ops sig) (kes @ [(k, e)])))" for sig
  proof (cases "sig = s")
    case True
    show ?thesis
    proof (cases "winner put_latest (said (noted ops s) kes)")
      case None
      then have "said (noted ops s) kes = []" by (simp add: latest.winner_None_iff)
      then show ?thesis using True None Some st held [of s] by (simp add: new noted_def latest.winner_single)
    next
      case (Some c)
      obtain u l where "c = (u, l)" by (cases c)
      then show ?thesis using True Some \<open>said_note ops e = Some st\<close> st held [of s]
        by (simp add: new noted_def latest.winner_snoc latest.put_Some)
    qed
  next
    case False
    then show ?thesis using held [of sig] Some st by (simp add: new noted_def)
  qed
  have names: "distinct (map fst (fd_note_sigs (apply_visible ops e k f)))" by (simp add: new distinct_od_put d)
  have all: "fst ` set (fd_note_sigs (apply_visible ops e k f)) = signatures ops (kes @ [(k, e)])"
    using d(2) Some st by (simp add: new fst_od_put signatures_snoc)
  show ?thesis unfolding notes_are_def by (intro conjI allI) (rule names, rule all, rule each)
qed

lemma few_signatures_snoc: "few_signatures ops (kes @ [(k, e)]) \<Longrightarrow> few_signatures ops kes"
  using card_mono [OF finite_signatures, of "signatures ops kes" ops "kes @ [(k, e)]"]
  by (auto simp: few_signatures_def signatures_snoc subset_insertI split: option.splits)

lemma fold_notes:
  assumes "few_signatures ops kes" "fd_note_sigs f = []"
  shows "notes_are ops kes (fold (\<lambda>(k, e). apply_visible ops e k) kes f)"
  using assms(1)
proof (induction kes rule: rev_induct)
  case Nil
  then show ?case using assms(2) by (simp add: notes_are_def signatures_def latest.winner_Nil)
next
  case (snoc ke kes)
  then show ?case using few_signatures_snoc notes_snoc by (cases ke) fastforce
qed

section \<open>The view\<close>

record fold_view =
  vw_params :: "string \<rightharpoonup> sv"
  vw_metrics :: "string \<rightharpoonup> float_val"
  vw_extrema :: "string \<rightharpoonup> seen"
  vw_firsts :: "string \<rightharpoonup> float_val"
  vw_tags :: "string \<rightharpoonup> sv"
  vw_inputs :: "sv \<rightharpoonup> sv \<times> sv \<times> sv"
  vw_outputs :: "sv \<rightharpoonup> string option \<times> sv"
  vw_fields :: "string \<Rightarrow> string \<Rightarrow> sv option"
  vw_last_metric :: "sv option"
  vw_create :: "(sv \<times> string option) option"
  vw_features :: "log_entry option"
  vw_intent :: "log_entry option"
  vw_notes :: "string \<rightharpoonup> nat \<times> sv"

definition view_of :: "'k log_fold \<Rightarrow> fold_view" where
  "view_of f =
     \<lparr>vw_params = fold_values (fd_params f), vw_metrics = fold_values (fd_metrics f), vw_extrema = fd_extrema f,
      vw_firsts = fold_values (fd_firsts f), vw_tags = fold_values (fd_tags f), vw_inputs = fold_values (fd_inputs f),
      vw_outputs = fold_values (fd_outputs f), vw_fields = (\<lambda>name field. map_option fst (field_at f name field)),
      vw_last_metric = map_option fst (fd_last_metric f), vw_create = map_option fst (create_slot f),
      vw_features = map_option fst (fd_features f), vw_intent = map_option fst (fd_intent f),
      vw_notes = (\<lambda>sig. map_option (\<lambda>(n, t, k). (n, t)) (map_of (fd_note_sigs f) sig))\<rparr>"

definition metric_view :: "string \<Rightarrow> ('k :: linorder) keyed \<Rightarrow> seen option \<times> float_val option \<times> float_val option" where
  "metric_view n kes =
     (let pts = said (said_metric n) kes
      in (if pts = [] then None else if length pts = 1 then Some (Once (fst (hd pts))) else Some (summary_seen (map fst pts)),
          if length pts < 2 then None else first_said (said_metric n) kes,
          if pts = [] then latest_said (said_number n) kes else latest_said (said_metric n) kes))"

definition features_offers :: "'k keyed \<Rightarrow> (log_entry \<times> int \<times> 'k) list" where
  "features_offers kes = map (\<lambda>((version, v), k). (v, (version, k))) (said said_features kes)"

definition view_spec :: "text_ops \<Rightarrow> ('k :: linorder) keyed \<Rightarrow> fold_view" where
  "view_spec ops kes =
     \<lparr>vw_params = (\<lambda>n. latest_said (\<lambda>e. last_of (entry_params e) n) kes),
      vw_metrics = (\<lambda>n. snd (snd (metric_view n kes))), vw_extrema = (\<lambda>n. fst (metric_view n kes)),
      vw_firsts = (\<lambda>n. fst (snd (metric_view n kes))), vw_tags = (\<lambda>n. latest_said (said_tag ops n) kes),
      vw_inputs = (\<lambda>n. latest_said (said_input n) kes), vw_outputs = (\<lambda>p. latest_said (said_output ops p) kes),
      vw_fields = (\<lambda>name field. latest_said (said_field name field) kes), vw_last_metric = latest_said said_time kes,
      vw_create = first_said said_create kes, vw_features = map_option fst (winner put_latest (features_offers kes)),
      vw_intent = latest_said said_intent kes,
      vw_notes = (\<lambda>sig. map_option (Pair (length (said (noted ops sig) kes))) (latest_said (noted ops sig) kes))\<rparr>"

lemma metric_view_spec:
  "(case slot_spec (said (said_metric n) kes) (said (said_number n) kes) of (ex, first, cur) \<Rightarrow> (ex, map_option fst first, map_option fst cur))
    = metric_view n kes"
proof (cases "said (said_metric n) kes" rule: remdups_adj.cases)
  case (2 p)
  then show ?thesis
    by (cases p) (simp add: slot_spec_def metric_view_def latest_said_def latest.winner_single)
next
  case (3 p q ps)
  then show ?thesis
    by (cases p) (simp add: slot_spec_def metric_view_def latest_said_def first_said_def Let_def)
qed (simp add: slot_spec_def metric_view_def latest_said_def)

abbreviation blank :: "'k log_fold \<Rightarrow> bool" where
  "blank f \<equiv> f\<lparr>fd_rewinds := [], fd_stale := False\<rparr> = new_fold []"

lemma blank_fields:
  assumes "blank f"
  shows "fd_params f = Map.empty" "fd_metrics f = Map.empty" "fd_tags f = Map.empty" "fd_inputs f = Map.empty"
    "fd_outputs f = Map.empty" "fd_extrema f = Map.empty" "fd_firsts f = Map.empty" "fd_defs f = []"
    "fd_last_metric f = None" "fd_create_note f = None" "fd_features f = None" "fd_intent f = None" "fd_note_sigs f = []"
  using assms by (auto simp: new_fold_def intro: log_fold.cases [of f])

lemma fold_features_offers:
  "fold (\<lambda>(v, k). put_latest (snd v) (fst v, k)) (said said_features kes) None = winner put_latest (features_offers kes)"
  by (simp add: winner_def features_offers_def fold_map o_def case_prod_unfold)

lemma view_of_visible:
  assumes "\<forall>(k, e) \<in> set kes. stored_entry e" "few_signatures ops kes" "blank f"
  shows "view_of (fold (\<lambda>(k, e). apply_visible ops e k) kes f) = view_spec ops kes"
proof -
  define g where "g = fold (\<lambda>(k, e). apply_visible ops e k) kes f"
  note start = blank_fields [OF assms(3)]
  have params: "fd_params g n = winner put_latest (said (\<lambda>e. last_of (entry_params e) n) kes)" for n
    unfolding g_def by (rule fold_said_empty) (simp_all add: visible_params start)
  have tags: "fd_tags g n = winner put_latest (said (said_tag ops n) kes)" for n
    unfolding g_def by (rule fold_said_empty) (simp_all add: visible_tags start)
  have inputs: "fd_inputs g n = winner put_latest (said (said_input n) kes)" for n
    unfolding g_def by (rule fold_said_empty) (simp_all add: visible_inputs start)
  have outputs: "fd_outputs g p = winner put_latest (said (said_output ops p) kes)" for p
    unfolding g_def by (rule fold_said_empty) (simp_all add: visible_outputs start)
  have field: "field_at g name field = winner put_latest (said (said_field name field) kes)" for name field
    unfolding g_def by (rule fold_said_empty) (simp_all add: visible_field start, simp add: field_at_def start)
  have time: "fd_last_metric g = winner put_latest (said said_time kes)"
    unfolding g_def by (rule fold_said_empty) (simp_all add: visible_time start)
  have create: "create_slot g = winner put_first (said said_create kes)"
    unfolding g_def by (rule fold_said_empty) (simp_all add: visible_create start, simp add: create_slot_def start)
  have intent: "fd_intent g = winner put_latest (said said_intent kes)"
    unfolding g_def by (rule fold_said_empty) (simp_all add: visible_intent start)
  have "fd_features g = fold (\<lambda>(v, k). put_latest (snd v) (fst v, k)) (said said_features kes) (fd_features f)"
    unfolding g_def by (rule fold_said) (simp add: visible_features)
  then have features: "fd_features g = winner put_latest (features_offers kes)" by (simp add: start fold_features_offers)
  have slots: "metric_slot g n = slot_spec (said (said_metric n) kes) (said (said_number n) kes)" for n
    unfolding g_def by (rule fold_metric_slot [OF assms(1)]) (simp add: metric_slot_def start)
  have metric: "(fd_extrema g n, map_option fst (fd_firsts g n), map_option fst (fd_metrics g n)) = metric_view n kes" for n
    using metric_view_spec [of n kes] by (simp add: slots [symmetric] metric_slot_def)
  have "notes_are ops kes g" unfolding g_def by (rule fold_notes [OF assms(2)]) (simp add: start)
  then have noted_at: "map_of (fd_note_sigs g) sig
      = map_option (\<lambda>(t, k). (length (said (noted ops sig) kes), t, k)) (winner put_latest (said (noted ops sig) kes))" for sig
    by (simp add: notes_are_def)
  show ?thesis unfolding g_def [symmetric]
    by (simp add: view_of_def view_spec_def fold_values_def params tags inputs outputs field time create intent features noted_at
        metric [symmetric] latest_said_def first_said_def option.map_comp o_def case_prod_unfold)
qed

section \<open>Order and keys do not matter\<close>

lemma metric_view_perm:
  assumes "distinct (map fst kes)" "mset kes = mset kes'"
  shows "metric_view n kes = metric_view n kes'"
proof -
  have same: "mset (said (said_metric n) kes) = mset (said (said_metric n) kes')" by (rule mset_said [OF assms(2)])
  then have len: "length (said (said_metric n) kes) = length (said (said_metric n) kes')" by (metis size_mset)
  have fin: "mset (finites (map fst (said (said_metric n) kes))) = mset (finites (map fst (said (said_metric n) kes')))"
  proof -
    have finites: "mset (finites vs) = image_mset (the \<circ> finite_of) (filter_mset (\<lambda>v. finite_of v \<noteq> None) (mset vs))" for vs
      by (induction vs) (auto split: option.split)
    show ?thesis using same by (simp add: finites)
  qed
  have "finites (map fst (said (said_metric n) kes)) = [] \<longleftrightarrow> finites (map fst (said (said_metric n) kes')) = []"
    using mset_eq_length [OF fin] by (metis length_0_conv)
  moreover have "sum_list (finites (map fst (said (said_metric n) kes))) = sum_list (finites (map fst (said (said_metric n) kes')))"
    using arg_cong [OF fin, of sum_mset] by (simp only: sum_mset_sum_list)
  ultimately have summary: "summary_seen (map fst (said (said_metric n) kes)) = summary_seen (map fst (said (said_metric n) kes'))"
    by (simp add: summary_seen_def mset_eq_setD [OF fin] mset_eq_length [OF fin])
  have single: "hd (said (said_metric n) kes) = hd (said (said_metric n) kes')" if "length (said (said_metric n) kes) = 1"
    using same that len by (cases "said (said_metric n) kes"; cases "said (said_metric n) kes'") auto
  show ?thesis
    using single summary len by (auto simp: metric_view_def Let_def latest_said_perm [OF assms] first_said_perm [OF assms])
qed

lemma features_perm:
  assumes "distinct (map fst kes)" "mset kes = mset kes'"
  shows "winner put_latest (features_offers kes) = winner put_latest (features_offers kes')"
proof (rule latest.winner_perm)
  have "map snd (features_offers kes) = map (\<lambda>x. (fst (fst x), snd x)) (said said_features kes)"
    by (simp add: features_offers_def case_prod_unfold)
  moreover have "distinct (map snd (said said_features kes))" by (rule distinct_said [OF assms(1)])
  then have "distinct (map (\<lambda>x. (fst (fst x), snd x)) (said said_features kes))"
    by (induction "said said_features kes") (auto simp: distinct_map inj_on_def)
  ultimately show "distinct (map snd (features_offers kes))" by simp
  show "mset (features_offers kes) = mset (features_offers kes')"
    by (simp only: features_offers_def mset_map mset_said [OF assms(2)])
qed

lemma view_spec_perm:
  assumes "distinct (map fst kes)" "mset kes = mset kes'"
  shows "view_spec ops kes = view_spec ops kes'"
proof -
  have "length (said u kes) = length (said u kes')" for u :: "log_entry \<Rightarrow> sv option"
    using mset_said [OF assms(2)] by (metis size_mset)
  then show ?thesis
    by (simp add: view_spec_def latest_said_perm [OF assms] first_said_perm [OF assms] metric_view_perm [OF assms] features_perm [OF assms])
qed

lemma metric_view_relabel:
  assumes "order_embedding_on (set (map fst kes)) g"
  shows "metric_view n (map (apfst g) kes) = metric_view n kes"
  by (cases "said (said_metric n) kes")
    (simp_all add: metric_view_def Let_def said_relabel latest_said_relabel [OF assms] first_said_relabel [OF assms])

lemma features_relabel:
  assumes "order_embedding_on (set (map fst kes)) g"
  shows "map_option fst (winner put_latest (features_offers (map (apfst g) kes))) = map_option fst (winner put_latest (features_offers kes))"
proof -
  have offers: "features_offers (map (apfst g) kes) = map (apsnd (apsnd g)) (features_offers kes)"
    by (simp add: features_offers_def said_relabel case_prod_unfold)
  have keys: "snd x \<in> set (map fst kes)" if "x \<in> set (map snd (features_offers kes))" for x
    using that keys_said [of said_features kes] by (force simp: features_offers_def)
  have "(apsnd g x \<le> apsnd g y) = (x \<le> y)"
    if "x \<in> set (map snd (features_offers kes))" "y \<in> set (map snd (features_offers kes))" for x y
  proof -
    have "(g (snd x) \<le> g (snd y)) = (snd x \<le> snd y)"
      using assms keys [OF that(1)] keys [OF that(2)] unfolding order_embedding_on_def by blast
    then show ?thesis by (simp add: less_eq_prod_def)
  qed
  then have "order_embedding_on (set (map snd (features_offers kes))) (apsnd g)"
    unfolding order_embedding_on_def by blast
  from latest_relabel [OF this] show ?thesis by (simp add: offers option.map_comp o_def)
qed

lemma view_spec_relabel:
  assumes "order_embedding_on (set (map fst kes)) g"
  shows "view_spec ops (map (apfst g) kes) = view_spec ops kes"
  by (simp add: view_spec_def said_relabel latest_said_relabel [OF assms] first_said_relabel [OF assms]
      metric_view_relabel [OF assms] features_relabel [OF assms])

end
