(* ===== verification/Log_Arrival.thy ===== *)
theory Log_Arrival
imports Log_View
begin

text \<open>
  The laws core/fold.py promises of the fold: the entries of a run's writers may arrive in any chunks
  and in any order of the writers; a rewind that was not known when they were folded asks for one more
  fold, which settles; and the fold agrees with the fold of the merged log.
\<close>

section \<open>Visible entries\<close>

definition counted :: "(float_val \<times> 'k :: linorder) list \<Rightarrow> 'k keyed \<Rightarrow> 'k keyed" where
  "counted rw kes = filter (\<lambda>(k, e). rewind_step e = None \<and> \<not> is_rewound rw e k) kes"

abbreviation fold_visible :: "text_ops \<Rightarrow> ('k :: linorder) keyed \<Rightarrow> 'k log_fold \<Rightarrow> 'k log_fold" where
  "fold_visible ops \<equiv> fold (\<lambda>(k, e). apply_visible ops e k)"

lemma counted_set: "set rw = set rw' \<Longrightarrow> counted rw kes = counted rw' kes"
  unfolding counted_def by (intro filter_cong refl) (auto cong: is_rewound_set)

lemma apply_known:
  "set (said rewind_step kes) \<subseteq> set (fd_rewinds f) \<Longrightarrow>
    fold (apply_entry ops) kes f = fold_visible ops (counted (fd_rewinds f) kes) f"
proof (induction kes arbitrary: f)
  case (Cons ke kes)
  obtain k e where "ke = (k, e)" by (cases ke)
  then show ?case using Cons
    by (auto simp: apply_entry_def counted_def learn_rewind_def rewind_not_rewound split: option.splits)
qed (simp add: counted_def)

lemma rewinds_grow:
  "set (fd_rewinds (fold (apply_entry ops) kes f)) = set (fd_rewinds f) \<union> set (said rewind_step kes)
   \<and> (fd_stale (fold (apply_entry ops) kes f) \<longleftrightarrow> fd_stale f \<or> \<not> set (said rewind_step kes) \<subseteq> set (fd_rewinds f))"
proof (induction kes arbitrary: f)
  case (Cons ke kes)
  obtain k e where ke: "ke = (k, e)" by (cases ke)
  show ?case
  proof (cases "rewind_step e")
    case None
    then show ?thesis using Cons [of "apply_entry ops (k, e) f"] by (auto simp: ke apply_entry_def)
  next
    case (Some s)
    then show ?thesis using Cons [of "learn_rewind s k f"] by (auto simp: ke apply_entry_def learn_rewind_def)
  qed
qed simp

lemma blank_new: "blank (new_fold rw)"
  by (simp add: new_fold_def)

lemma set_counted: "set (counted rw kes) \<subseteq> set kes"
  by (auto simp: counted_def)

lemma few_counted: "few_signatures ops kes \<Longrightarrow> few_signatures ops (counted rw kes)"
proof -
  assume "few_signatures ops kes"
  moreover have "signatures ops (counted rw kes) \<subseteq> signatures ops kes"
    by (force simp: signatures_def set_said counted_def)
  ultimately show ?thesis using card_mono [OF finite_signatures] unfolding few_signatures_def by (meson order_trans)
qed

lemma view_of_known:
  assumes "\<forall>(k, e) \<in> set kes. stored_entry e" "few_signatures ops kes" "blank f" "set (said rewind_step kes) \<subseteq> set (fd_rewinds f)"
  shows "view_of (fold (apply_entry ops) kes f) = view_spec ops (counted (fd_rewinds f) kes)"
proof -
  have "\<forall>(k, e) \<in> set (counted (fd_rewinds f) kes). stored_entry e" using assms(1) set_counted by blast
  from view_of_visible [OF this few_counted [OF assms(2)] assms(3)] show ?thesis by (simp add: apply_known assms(4))
qed

section \<open>Chunks in any order\<close>

type_synonym arrivals = "(string \<times> nat \<times> sv list) list"      \<comment> \<open>writer, first position, entries\<close>

definition fold_arrivals :: "text_ops \<Rightarrow> sort_key log_fold \<Rightarrow> arrivals \<Rightarrow> sort_key log_fold" where
  "fold_arrivals ops f arr = fold (\<lambda>(writer, pos, vs) f. apply_entries ops f writer pos vs) arr f"

fun in_order :: "(string \<Rightarrow> nat) \<Rightarrow> arrivals \<Rightarrow> bool" where
  \<comment> \<open>each chunk continues what its writer has delivered\<close>
  "in_order at_pos [] = True"
| "in_order at_pos ((writer, pos, vs) # arr) = (pos = at_pos writer \<and> in_order (at_pos(writer := pos + length vs)) arr)"

fun received :: "arrivals \<Rightarrow> string \<Rightarrow> sv list" where
  "received [] w = []"
| "received ((writer, pos, vs) # arr) w = (if writer = w then vs @ received arr w else received arr w)"

fun arrived :: "arrivals \<Rightarrow> sort_key keyed" where
  "arrived [] = []"
| "arrived ((writer, pos, vs) # arr) = keyed_chunk writer pos vs @ arrived arr"

lemma fold_arrivals_arrived: "fold_arrivals ops f arr = fold (apply_entry ops) (arrived arr) f"
  by (induction arr arbitrary: f rule: arrived.induct) (simp_all add: fold_arrivals_def apply_entries_def)

lemma keyed_chunk_simps [simp]:
  "keyed_chunk w p [] = []"
  "keyed_chunk w p (v # vs) = (case dict_of v of None \<Rightarrow> [] | Some e \<Rightarrow> [(sort_key_of e w p, e)]) @ keyed_chunk w (Suc p) vs"
  by (simp_all add: keyed_chunk_def List.map_filter_simps split: option.split)

lemma keyed_chunk_append: "keyed_chunk w p (xs @ ys) = keyed_chunk w p xs @ keyed_chunk w (p + length xs) ys"
  by (induction xs arbitrary: p) simp_all

lemma keyed_chunk_keys:
  "((t, w', q), e) \<in> set (keyed_chunk w p vs) \<Longrightarrow> w' = w \<and> p \<le> q \<and> q < p + length vs"
  by (induction vs arbitrary: p) (fastforce simp: sort_key_of_def split: option.splits)+

lemma distinct_chunk: "distinct (map fst (keyed_chunk w p vs))"
proof (induction vs arbitrary: p)
  case (Cons v vs)
  have "(t, w, p) \<notin> fst ` set (keyed_chunk w (Suc p) vs)" for t using keyed_chunk_keys by fastforce
  then show ?case using Cons by (auto simp: sort_key_of_def split: option.split)
qed simp

lemma arrived_keys: "in_order pos arr \<Longrightarrow> ((t, w, q), e) \<in> set (arrived arr) \<Longrightarrow> pos w \<le> q"
proof (induction pos arr rule: in_order.induct)
  case (2 pos writer p vs arr)
  then show ?case using keyed_chunk_keys [of t w q e writer p vs] by (fastforce split: if_splits)
qed simp

lemma distinct_arrived: "in_order pos arr \<Longrightarrow> distinct (map fst (arrived arr))"
proof (induction pos arr rule: in_order.induct)
  case (2 pos writer p vs arr)
  have "fst ` set (keyed_chunk writer p vs) \<inter> fst ` set (arrived arr) = {}"
    using 2 keyed_chunk_keys [of _ _ _ _ writer p vs] arrived_keys [of "pos(writer := p + length vs)" arr]
    by (fastforce simp: disjoint_iff)
  moreover have "distinct (map fst (arrived arr))" using 2 by (auto simp del: fun_upd_apply)
  ultimately show ?case using distinct_chunk by simp
qed simp

lemma chunk_of_writer: "filter (\<lambda>(k, e). fst (snd k) = w) (keyed_chunk writer p vs) = (if writer = w then keyed_chunk writer p vs else [])"
  by (induction vs arbitrary: p) (auto simp: sort_key_of_def split: option.split)

lemma arrived_of_writer: "in_order pos arr \<Longrightarrow> filter (\<lambda>(k, e). fst (snd k) = w) (arrived arr) = keyed_chunk w (pos w) (received arr w)"
  by (induction pos arr rule: in_order.induct) (auto simp: chunk_of_writer keyed_chunk_append)

lemma mset_by_group:
  assumes "\<And>w. mset (filter (\<lambda>x. h x = w) xs) = mset (filter (\<lambda>x. h x = w) ys)"
  shows "mset xs = mset ys"
proof (rule multiset_eqI)
  fix x
  show "count (mset xs) x = count (mset ys) x"
    using arg_cong [OF assms [of "h x"], of "\<lambda>M. count M x"] by simp
qed

lemma mset_arrived:
  assumes "in_order (\<lambda>_. 0) arr" "in_order (\<lambda>_. 0) arr'" "received arr = received arr'"
  shows "mset (arrived arr) = mset (arrived arr')"
proof (rule mset_by_group [where h = "\<lambda>x. fst (snd (fst x))"])
  fix w
  show "mset (filter (\<lambda>x. fst (snd (fst x)) = w) (arrived arr)) = mset (filter (\<lambda>x. fst (snd (fst x)) = w) (arrived arr'))"
    using arrived_of_writer [OF assms(1), of w] arrived_of_writer [OF assms(2), of w] assms(3)
    by (simp add: case_prod_unfold)
qed

section \<open>The merged log\<close>

definition merged_log :: "arrivals \<Rightarrow> sv list" where
  "merged_log arr = map (\<lambda>(k, e). SMap e) (sort_key fst (arrived arr))"

definition rank_in :: "'k :: linorder set \<Rightarrow> 'k \<Rightarrow> nat" where
  "rank_in A k = card {l \<in> A. l < k}"

lemma rank_embeds: "finite A \<Longrightarrow> order_embedding_on A (rank_in A)"
proof -
  assume A: "finite A"
  have "rank_in A k < rank_in A l" if "k < l" "k \<in> A" for k l
    unfolding rank_in_def using A that by (intro psubset_card_mono) auto
  moreover have "rank_in A k \<le> rank_in A l" if "k \<le> l" for k l
    unfolding rank_in_def using A that by (intro card_mono) auto
  ultimately show ?thesis unfolding order_embedding_on_def by (metis not_le)
qed

lemma ranks_of_sorted: "sorted_wrt (<) ks \<Longrightarrow> map (rank_in (set ks)) ks = [0..<length ks]"
proof (rule nth_equalityI)
  fix i assume ks: "sorted_wrt (<) ks" and "i < length (map (rank_in (set ks)) ks)"
  then have i: "i < length ks" by simp
  have "{l \<in> set ks. l < ks ! i} = (\<lambda>j. ks ! j) ` {..<i}"
  proof (rule set_eqI, rule iffI)
    fix l assume "l \<in> {l \<in> set ks. l < ks ! i}"
    then obtain j where j: "j < length ks" "l = ks ! j" "ks ! j < ks ! i" by (auto simp: in_set_conv_nth)
    have "j < i" using j i ks sorted_wrt_nth_less [OF ks, of i j] by (metis less_asym linorder_neqE_nat order_less_irrefl)
    then show "l \<in> (\<lambda>j. ks ! j) ` {..<i}" using j by blast
  next
    fix l assume "l \<in> (\<lambda>j. ks ! j) ` {..<i}"
    then show "l \<in> {l \<in> set ks. l < ks ! i}" using i sorted_wrt_nth_less [OF ks] by auto
  qed
  moreover have "inj_on (\<lambda>j. ks ! j) {..<i}"
    using i ks sorted_wrt_nth_less [OF ks] by (intro linorder_inj_onI) (auto simp: order_less_le)
  ultimately show "map (rank_in (set ks)) ks ! i = [0..<length ks] ! i"
    using i by (simp add: rank_in_def card_image)
qed simp

lemma positions_of_entries: "positions p (map (\<lambda>(k, e). SMap e) kes) = zip [p..<p + length kes] (map snd kes)"
proof (induction kes arbitrary: p)
  case (Cons ke kes)
  have "positions p (map (\<lambda>(k, e). SMap e) (ke # kes)) = (p, snd ke) # positions (Suc p) (map (\<lambda>(k, e). SMap e) kes)"
    by (simp add: positions_def List.map_filter_simps dict_of_def case_prod_unfold)
  moreover have "[p..<p + length (ke # kes)] = p # [Suc p..<Suc p + length kes]" by (simp add: upt_conv_Cons del: upt_Suc)
  ultimately show ?case using Cons by simp
qed (simp add: positions_def List.map_filter_simps)

lemma markers_said: "log_markers p lg = said rewind_step (positions p lg)"
  by (induction lg arbitrary: p)
    (auto simp: log_markers_def positions_def List.map_filter_simps marker_of_def split: option.split)

lemma positions_of_sorted:
  assumes "distinct (map fst kes)" "sorted (map fst kes)"
  shows "positions 0 (map (\<lambda>(k, e). SMap e) kes) = map (apfst (rank_in (set (map fst kes)))) kes"
proof -
  have "sorted_wrt (<) (map fst kes)" using assms by (simp add: strict_sorted_iff)
  from ranks_of_sorted [OF this]
  have "map fst (map (apfst (rank_in (set (map fst kes)))) kes) = [0..<length kes]" by (simp add: o_def)
  moreover have "map snd (map (apfst (rank_in (set (map fst kes)))) kes) = map snd kes" by (simp add: o_def)
  ultimately show ?thesis using positions_of_entries [of 0 kes]
    by (metis add_0 zip_map_fst_snd)
qed

lemma order_embedding_subset: "order_embedding_on B g \<Longrightarrow> A \<subseteq> B \<Longrightarrow> order_embedding_on A g"
  unfolding order_embedding_on_def by blast

lemma counted_relabel:
  assumes "order_embedding_on A g" "set (map fst kes) \<subseteq> A" "set (map snd rw) \<subseteq> A"
  shows "counted (map (apsnd g) rw) (map (apfst g) kes) = map (apfst g) (counted rw kes)"
proof -
  have same: "is_rewound (map (apsnd g) rw) e (g k) = is_rewound rw e k" if "(k, e) \<in> set kes" for k e
  proof -
    have "fst (k, e) \<in> A" using assms(2) that by (metis image_eqI list.set_map subsetD)
    moreover have "snd (r, l) \<in> A" if "(r, l) \<in> set rw" for r l
      using assms(3) that by (metis image_eqI list.set_map subsetD)
    ultimately have "g k < g l \<longleftrightarrow> k < l" if "(r, l) \<in> set rw" for r l
      using order_embedding_less [OF assms(1)] that by simp
    then have "list_ex (\<lambda>(r, l). f_less r s \<and> g k < l) (map (apsnd g) rw) = list_ex (\<lambda>(r, l). f_less r s \<and> k < l) rw" for s
    proof (induction rw)
      case (Cons x rw)
      have "g k < g (snd x) \<longleftrightarrow> k < snd x" using Cons.prems [of "fst x" "snd x"] by simp
      moreover have "list_ex (\<lambda>(r, l). f_less r s \<and> g k < l) (map (apsnd g) rw) = list_ex (\<lambda>(r, l). f_less r s \<and> k < l) rw"
        using Cons.prems by (intro Cons.IH) auto
      ultimately show ?case by (cases x) simp
    qed simp
    then show ?thesis by (simp add: is_rewound_def split: option.split)
  qed
  have "filter (\<lambda>(k, e). rewind_step e = None \<and> \<not> is_rewound (map (apsnd g) rw) e (g k)) kes = counted rw kes"
    unfolding counted_def by (rule filter_cong [OF refl]) (auto simp: same)
  then show ?thesis by (simp add: counted_def filter_map o_def case_prod_unfold)
qed

lemma learn_all_effect:
  "set (fd_rewinds (learn_all p lg f)) = set (fd_rewinds f) \<union> set (log_markers p lg)
   \<and> (learn_all p lg f)\<lparr>fd_rewinds := [], fd_stale := False\<rparr> = f\<lparr>fd_rewinds := [], fd_stale := False\<rparr>
   \<and> (fd_stale (learn_all p lg f) \<longleftrightarrow> fd_stale f \<or> \<not> set (log_markers p lg) \<subseteq> set (fd_rewinds f))"
proof -
  have "set (fd_rewinds (fold (\<lambda>(s, q). learn_rewind s q) ms f)) = set (fd_rewinds f) \<union> set ms
    \<and> (fold (\<lambda>(s, q). learn_rewind s q) ms f)\<lparr>fd_rewinds := [], fd_stale := False\<rparr> = f\<lparr>fd_rewinds := [], fd_stale := False\<rparr>
    \<and> (fd_stale (fold (\<lambda>(s, q). learn_rewind s q) ms f) \<longleftrightarrow> fd_stale f \<or> \<not> set ms \<subseteq> set (fd_rewinds f))" for ms
  proof (induction ms arbitrary: f)
    case (Cons m ms)
    obtain r l where m: "m = (r, l)" by (cases m)
    show ?case
    proof (cases "m \<in> set (fd_rewinds f)")
      case True
      then show ?thesis using Cons [of f] by (simp add: m learn_rewind_def insert_absorb)
    next
      case False
      then show ?thesis using Cons [of "learn_rewind r l f"] by (auto simp: m learn_rewind_def)
    qed
  qed simp
  then show ?thesis unfolding learn_all_def .
qed

section \<open>The laws\<close>

lemma fold_of_merged:
  assumes "distinct (map fst kes)" "\<forall>(k, e) \<in> set kes. stored_entry e" "few_signatures ops kes"
  shows "view_of (fold_log ops (map (\<lambda>(k, e). SMap e) (sort_key fst kes)) (new_fold []) 0)
    = view_spec ops (counted (said rewind_step kes) kes)"
proof -
  define S where "S = sort_key fst kes"
  define rw where "rw = said rewind_step S"
  define g where "g = rank_in (set (map fst S))"
  define P where "P = positions 0 (map (\<lambda>(k, e). SMap e) S)"
  define F where "F = (learn_all 0 (map (\<lambda>(k, e). SMap e) S) (new_fold []))\<lparr>fd_stale := False\<rparr>"
  have S: "mset S = mset kes" "sorted (map fst S)" by (simp_all add: S_def)
  have dist: "distinct (map fst S)" using assms(1) S(1) by (metis mset_eq_imp_distinct_iff mset_map)
  have same: "set S = set kes" using S(1) by (metis set_mset_mset)
  have P: "P = map (apfst g) S" unfolding P_def g_def by (rule positions_of_sorted [OF dist S(2)])
  have emb: "order_embedding_on (set (map fst S)) g" unfolding g_def by (rule rank_embeds) simp
  have F: "set (fd_rewinds F) = set (said rewind_step P)" "blank F"
    using learn_all_effect [of 0 "map (\<lambda>(k, e). SMap e) S" "new_fold []"]
    by (auto simp: F_def P_def markers_said new_fold_def)
  have stored: "\<forall>(k, e) \<in> set P. stored_entry e" using assms(2) same by (force simp: P)
  have few: "few_signatures ops P"
  proof -
    have "set (said (said_note ops) S) = set (said (said_note ops) kes)" using mset_said [OF S(1)] by (metis set_mset_mset)
    then have "signatures ops P = signatures ops kes" by (simp add: P said_relabel signatures_def image_image)
    then show ?thesis using assms(3) by (simp add: few_signatures_def)
  qed
  have "fold_log ops (map (\<lambda>(k, e). SMap e) S) (new_fold []) 0 = fold (apply_entry ops) P F"
    by (simp add: fold_log_def F_def P_def new_fold_def Let_def)
  then have "view_of (fold_log ops (map (\<lambda>(k, e). SMap e) S) (new_fold []) 0) = view_spec ops (counted (fd_rewinds F) P)"
    using view_of_known [OF stored few F(2)] F(1) by simp
  also have "counted (fd_rewinds F) P = counted (map (apsnd g) rw) (map (apfst g) S)"
    unfolding P rw_def by (rule counted_set) (simp add: F(1) P said_relabel)
  also have "\<dots> = map (apfst g) (counted rw S)"
    using counted_relabel [OF emb order_refl] keys_said [of rewind_step S] by (simp add: rw_def)
  also have "view_spec ops \<dots> = view_spec ops (counted rw S)"
    by (rule view_spec_relabel, rule order_embedding_subset [OF emb]) (use set_counted [of rw S] in auto)
  also have "\<dots> = view_spec ops (counted rw kes)"
  proof (rule view_spec_perm)
    show "distinct (map fst (counted rw S))" using dist by (simp add: counted_def distinct_map_filter)
    show "mset (counted rw S) = mset (counted rw kes)" using S(1) by (simp add: counted_def)
  qed
  also have "counted rw kes = counted (said rewind_step kes) kes"
    using mset_said [OF S(1), of rewind_step] by (intro counted_set) (metis rw_def set_mset_mset)
  finally show ?thesis by (simp add: S_def)
qed

lemma settled_view:
  assumes "in_order (\<lambda>_. 0) arr" "\<forall>(k, e) \<in> set (arrived arr). stored_entry e" "few_signatures ops (arrived arr)"
    and "set rw \<subseteq> set (said rewind_step (arrived arr))" "\<not> needs_refold (fold_arrivals ops (new_fold rw) arr)"
  shows "view_of (fold_arrivals ops (new_fold rw) arr) = view_spec ops (counted (said rewind_step (arrived arr)) (arrived arr))"
proof -
  have known: "set (said rewind_step (arrived arr)) \<subseteq> set (fd_rewinds (new_fold rw))"
    using assms(5) rewinds_grow [of ops "arrived arr" "new_fold rw"]
    by (simp add: needs_refold_def fold_arrivals_arrived new_fold_def)
  then have "counted (fd_rewinds (new_fold rw)) (arrived arr) = counted (said rewind_step (arrived arr)) (arrived arr)"
    using assms(4) by (intro counted_set) (auto simp: new_fold_def)
  then show ?thesis
    using view_of_known [OF assms(2,3) blank_new known] by (simp add: fold_arrivals_arrived)
qed

text \<open>
  C8. The fold does not depend on how the log arrives, once it asks for no refold: take chunks of the
  writers' entries, each continuing what its writer delivered before, the writers alternating in any
  way, all entries of the shape the writers store, and notes with at most the number of signatures a
  fold keeps (eight). A fold of them that started from rewinds of the log met earlier and asks for no
  refold (a rewind that comes after entries it may hide makes it ask) agrees with the fold of the merged
  log by position in the latest values of parameters, metrics, tags, inputs and outputs, the extrema and
  first values of metrics, the fields of every metric definition (not the order of the definitions), the
  facts of the run, and the count and time of every note.
\<close>

theorem arrival_order_immaterial:
  assumes "in_order (\<lambda>_. 0) arr" "\<forall>(k, e) \<in> set (arrived arr). stored_entry e" "few_signatures ops (arrived arr)"
    and "set rw \<subseteq> set (said rewind_step (arrived arr))" "\<not> needs_refold (fold_arrivals ops (new_fold rw) arr)"
  shows "view_of (fold_arrivals ops (new_fold rw) arr) = view_of (fold_log ops (merged_log arr) (new_fold []) 0)"
  using settled_view [OF assms] fold_of_merged [OF distinct_arrived [OF assms(1)] assms(2,3)] by (simp add: merged_log_def)

text \<open>Two writers; one of them rewinds to step 2, and the chunk of the other with step 3 comes last.\<close>

definition demo_ops :: text_ops where
  "demo_ops = \<lparr>show_value = (\<lambda>v. case v of SStr s \<Rightarrow> s | _ \<Rightarrow> []), note_signature = (\<lambda>v. None)\<rparr>"

definition loss_at :: "string \<Rightarrow> int \<Rightarrow> rat \<Rightarrow> sv" where
  "loss_at t step x = SMap [(''timestamp'', SStr t), (''type'', SStr ''metrics''), (''step'', SInt step),
     (''values'', SMap [(''loss'', SFloat (Fin x))])]"

definition best_is_least :: sv where
  "best_is_least = SMap [(''timestamp'', SStr ''0''), (''type'', SStr ''define_metric''), (''name'', SStr ''loss''), (''summary'', SStr ''min'')]"

definition demo_arrivals :: arrivals where
  "demo_arrivals = [(''b'', 0, [loss_at ''2'' 2 5, rewind_entry (SStr ''4'') 2]), (''a'', 0, [best_is_least, loss_at ''1'' 1 3]),
     (''a'', 2, [loss_at ''3'' 3 4])]"

definition demo_rewinds :: "(float_val \<times> sort_key) list" where
  "demo_rewinds = [(Fin 2, (''4'', ''b'', 1))]"

lemma demo_arrivals_fine:
  "in_order (\<lambda>_. 0) demo_arrivals" "\<forall>(k, e) \<in> set (arrived demo_arrivals). stored_entry e"
  "few_signatures demo_ops (arrived demo_arrivals)" "set demo_rewinds \<subseteq> set (said rewind_step (arrived demo_arrivals))"
  "\<not> needs_refold (fold_arrivals demo_ops (new_fold demo_rewinds) demo_arrivals)"
  by code_simp+

theorem arrival_order_immaterial_witness:
  "view_of (fold_arrivals demo_ops (new_fold demo_rewinds) demo_arrivals) = view_of (fold_log demo_ops (merged_log demo_arrivals) (new_fold []) 0)
   \<and> vw_metrics (view_of (fold_arrivals demo_ops (new_fold demo_rewinds) demo_arrivals)) ''loss'' = Some (Fin 5)"
proof
  show same: "view_of (fold_arrivals demo_ops (new_fold demo_rewinds) demo_arrivals)
      = view_of (fold_log demo_ops (merged_log demo_arrivals) (new_fold []) 0)"
    by (rule arrival_order_immaterial [OF demo_arrivals_fine])
  show "vw_metrics (view_of (fold_arrivals demo_ops (new_fold demo_rewinds) demo_arrivals)) ''loss'' = Some (Fin 5)"
    unfolding same by code_simp
qed

text \<open>
  One refold settles: when a fold met a rewind it did not know, folding the same log again from
  the rewinds it has now seen asks for no further refold, and knows exactly the rewinds of the log
  and those it was first given.
\<close>

theorem refold_settles:
  "\<not> needs_refold (fold_arrivals ops (new_fold (fd_rewinds (fold_arrivals ops (new_fold rw) arr))) arr)
   \<and> set (fd_rewinds (fold_arrivals ops (new_fold rw) arr)) = set rw \<union> set (said rewind_step (arrived arr))"
  using rewinds_grow [of ops "arrived arr"]
  by (simp add: needs_refold_def fold_arrivals_arrived new_fold_def)

end
