(* ===== verification/Sweep_Grid.thy ===== *)
theory Sweep_Grid
imports Sweep_Spec Sweep_Claims
begin

text \<open>
  The grid of a sweep, from core/sweep/spec.py and core/sweep/suggest.py, and what it means together
  with the claims of Sweep_Claims: agents that claim trials until none is left have been given every
  point of the grid.
\<close>

section \<open>Points\<close>

definition grid_values :: "param \<Rightarrow> sv list res" where
  "grid_values p =
     (case p of
        Fixed v \<Rightarrow> Inr [v]
      | Choice vs \<Rightarrow> Inr vs
      | Normal mu sigma \<Rightarrow> Inl KeyErr                   \<comment> \<open>it has no bounds\<close>
      | Bounded d lo hi \<Rightarrow>
          if d = Int_Uniform then Inr (map SInt [truncate_rat lo .. truncate_rat hi])
          else Inl TypeErr)"                            \<comment> \<open>no range of floats\<close>

fun axes_of :: "param list \<Rightarrow> sv list list res" where
  "axes_of [] = Inr []"
| "axes_of (p # ps) = bind_res (grid_values p) (\<lambda>vs. bind_res (axes_of ps) (\<lambda>vss. Inr (vs # vss)))"

definition grid_axes :: "sweep_spec \<Rightarrow> sv list list res" where
  "grid_axes sp = axes_of (map snd (spec_parameters sp))"

definition grid_size :: "sweep_spec \<Rightarrow> nat res" where
  "grid_size sp = map_sum id (\<lambda>axes. prod_list (map length axes)) (grid_axes sp)"

definition trial_limit :: "sweep_spec \<Rightarrow> nat option res" where
  "trial_limit sp =
     (let cap = map_option nat (run_cap sp)
      in if spec_method sp = Grid
         then map_sum id (\<lambda>size. Some (case cap of None \<Rightarrow> size | Some c \<Rightarrow> min size c)) (grid_size sp)
         else Inr cap)"

definition planned_trials :: "(sv \<Rightarrow> string) \<Rightarrow> sv \<Rightarrow> nat option sres" where
  \<comment> \<open>an unreadable spec plans nothing\<close>
  "planned_trials show_value kept =
     (case parse_spec show_value kept of
        Inl e \<Rightarrow> if e \<in> {Spec_Error, Raised TypeErr, Raised ValueErr} then Inr None else Inl e
      | Inr sp \<Rightarrow> (case trial_limit sp of
            Inl e \<Rightarrow> if e \<in> {TypeErr, ValueErr} then Inr None else Inl (Raised e)
          | Inr limit \<Rightarrow> Inr limit))"

definition grid_point :: "sweep_spec \<Rightarrow> nat \<Rightarrow> (string \<times> sv) list option res" where
  "grid_point sp n =
     map_sum id (\<lambda>axes. if n < length (product_lists axes)
                        then Some (zip (map fst (spec_parameters sp)) (product_lists axes ! n)) else None)
       (grid_axes sp)"

section \<open>A point from its index\<close>

text \<open>The reference: the index in the mixed radix of the axes' lengths, the first digit slowest.\<close>

fun radix_point :: "'a list list \<Rightarrow> nat \<Rightarrow> 'a list" where
  "radix_point [] n = []"
| "radix_point (xs # xss) n =
     (let k = prod_list (map length xss) in xs ! (n div k) # radix_point xss (n mod k))"

lemma nth_concat_blocks:
  assumes "\<And>ys. ys \<in> set yss \<Longrightarrow> length ys = k" "n < k * length yss"
  shows "concat yss ! n = yss ! (n div k) ! (n mod k)"
  using assms
proof (induction yss arbitrary: n)
  case (Cons ys yss)
  have k: "length ys = k" "0 < k" using Cons.prems by (auto intro: Nat.gr0I)
  show ?case
  proof (cases "n < k")
    case True
    then show ?thesis using k by (simp add: nth_append)
  next
    case False
    have "concat yss ! (n - k) = yss ! ((n - k) div k) ! ((n - k) mod k)"
      using Cons.prems False by (intro Cons.IH) auto
    moreover have "n div k = Suc ((n - k) div k)" "n mod k = (n - k) mod k"
      using False k(2) by (simp_all add: le_div_geq le_mod_geq)
    ultimately show ?thesis using False k by (simp add: nth_append)
  qed
qed simp

lemma length_product_lists: "length (product_lists xss) = prod_list (map length xss)"
  by (induction xss) (auto simp: length_concat o_def sum_list_triv)

lemma nth_product_lists: "n < prod_list (map length xss) \<Longrightarrow> product_lists xss ! n = radix_point xss n"
proof (induction xss arbitrary: n)
  case (Cons xs xss)
  define k where "k = prod_list (map length xss)"
  have n: "n < length xs * k" using Cons.prems by (simp add: k_def)
  then have "0 < k" by (cases k) auto
  have "product_lists (xs # xss) ! n = map (\<lambda>x. map (Cons x) (product_lists xss)) xs ! (n div k) ! (n mod k)"
    using n by (subst product_lists.simps, intro nth_concat_blocks) (auto simp: length_product_lists k_def mult.commute)
  moreover have "n div k < length xs" using n \<open>0 < k\<close> by (simp add: less_mult_imp_div_less)
  moreover have "n mod k < length (product_lists xss)" using \<open>0 < k\<close> by (simp add: length_product_lists k_def [symmetric])
  ultimately show ?case using Cons.IH [of "n mod k"] \<open>0 < k\<close> by (simp add: k_def [symmetric] length_product_lists Let_def)
qed simp

lemma radix_point_length: "length (radix_point xss n) = length xss"
  by (induction xss arbitrary: n) (auto simp: Let_def)

lemma axes_of_total: "\<forall>p \<in> set ps. discrete p \<and> wf_param p \<Longrightarrow> \<exists>axes. axes_of ps = Inr axes \<and> length axes = length ps \<and> [] \<notin> set axes"
proof (induction ps)
  case (Cons p ps)
  then obtain axes where "axes_of ps = Inr axes" "length axes = length ps" "[] \<notin> set axes" by auto
  moreover have "\<exists>vs. grid_values p = Inr vs \<and> vs \<noteq> []"
    using Cons.prems by (cases p) (auto simp: grid_values_def of_int_le_iff [where 'a = rat, symmetric] simp del: of_int_le_iff)
  ultimately show ?case by auto
qed simp

lemma wf_grid_axes:
  assumes "wf_spec sp" "spec_method sp = Grid"
  obtains axes where "grid_axes sp = Inr axes" "length axes = length (spec_parameters sp)" "[] \<notin> set axes"
proof -
  have "\<forall>p \<in> set (map snd (spec_parameters sp)). discrete p \<and> wf_param p"
    using assms by (auto simp: wf_spec_def)
  from axes_of_total [OF this] show thesis using that by (auto simp: grid_axes_def)
qed

lemma prod_list_positive: "[] \<notin> set axes \<Longrightarrow> 0 < prod_list (map length axes)"
  by (induction axes) auto

lemma radix_point_covers:
  assumes "list_all2 (\<lambda>v axis. v \<in> set axis) vs axes"
  shows "\<exists>n < prod_list (map length axes). radix_point axes n = vs"
proof -
  have "vs \<in> set (product_lists axes)" using assms by (simp add: product_lists_set)
  then obtain n where "n < length (product_lists axes)" "product_lists axes ! n = vs" by (metis in_set_conv_nth)
  then show ?thesis using nth_product_lists [of n axes] by (auto simp: length_product_lists)
qed

lemma radix_point_inj:
  assumes "list_all distinct axes"
  shows "inj_on (radix_point axes) {..<prod_list (map length axes)}"
proof (rule inj_onI)
  fix m n assume *: "m \<in> {..<prod_list (map length axes)}" "n \<in> {..<prod_list (map length axes)}"
    "radix_point axes m = radix_point axes n"
  have "distinct (product_lists axes)" using assms by (intro distinct_product_lists) (auto simp: list_all_iff)
  moreover have "product_lists axes ! m = product_lists axes ! n"
    using * nth_product_lists [of m axes] nth_product_lists [of n axes] by simp
  ultimately show "m = n" using * by (simp add: nth_eq_iff_index_eq length_product_lists)
qed

text \<open>
  C28. The trials of a grid are its points: of a validated grid spec, trial \<open>n\<close> below the size gets
  the point whose axes are the digits of \<open>n\<close> in the mixed radix of the axes' lengths and a later
  trial gets none; every combination of values is the point of some trial, and of one only when no
  axis repeats a value.
\<close>

theorem grid_points_are_trials:
  assumes "wf_spec sp" "spec_method sp = Grid"
  shows "\<exists>axes size. grid_axes sp = Inr axes \<and> grid_size sp = Inr size \<and> 0 < size
    \<and> (\<forall>n < size. grid_point sp n = Inr (Some (zip (map fst (spec_parameters sp)) (radix_point axes n))))
    \<and> (\<forall>n \<ge> size. grid_point sp n = Inr None)
    \<and> (\<forall>vs. list_all2 (\<lambda>v axis. v \<in> set axis) vs axes \<longrightarrow> (\<exists>n < size. radix_point axes n = vs))
    \<and> (list_all distinct axes \<longrightarrow> inj_on (radix_point axes) {..<size})"
proof -
  obtain axes where axes: "grid_axes sp = Inr axes" "[] \<notin> set axes" by (rule wf_grid_axes [OF assms])
  define size where "size = prod_list (map length axes)"
  have pos: "0 < size" using axes(2) by (simp add: size_def prod_list_positive)
  have point: "grid_point sp n = Inr (if n < size then Some (zip (map fst (spec_parameters sp)) (radix_point axes n)) else None)" for n
    using nth_product_lists [of n axes] by (simp add: grid_point_def axes(1) length_product_lists size_def)
  have "grid_size sp = Inr size" by (simp add: grid_size_def axes(1) size_def)
  moreover have "\<exists>n < size. radix_point axes n = vs" if "list_all2 (\<lambda>v axis. v \<in> set axis) vs axes" for vs
    unfolding size_def using that by (rule radix_point_covers)
  moreover have "inj_on (radix_point axes) {..<size}" if "list_all distinct axes"
    unfolding size_def using that by (rule radix_point_inj)
  ultimately show ?thesis using axes(1) pos point by auto
qed

lemma demo_spec_wf: "wf_spec demo_spec"
  by (rule parsed_spec_wf [OF demo_show_str_like demo_spec_parsed])

theorem grid_points_are_trials_witness:
  "grid_point demo_spec 3 = Inr (Some [(''depth'', SInt 3), (''lr'', SStr ''1e-2'')]) \<and> grid_point demo_spec 6 = Inr None"
proof -
  have axes: "grid_axes demo_spec = Inr [[SInt 2, SInt 3, SInt 4], [SStr ''1e-3'', SStr ''1e-2'']]"
    and size: "grid_size demo_spec = Inr 6" by code_simp+
  have "spec_method demo_spec = Grid" by (simp add: demo_spec_def)
  from grid_points_are_trials [OF demo_spec_wf this]
  have "(\<forall>n < 6. grid_point demo_spec n = Inr (Some (zip (map fst (spec_parameters demo_spec))
      (radix_point [[SInt 2, SInt 3, SInt 4], [SStr ''1e-3'', SStr ''1e-2'']] n))))
    \<and> (\<forall>n \<ge> 6. grid_point demo_spec n = Inr None)"
    unfolding axes size by auto
  moreover have "zip (map fst (spec_parameters demo_spec)) (radix_point [[SInt 2, SInt 3, SInt 4], [SStr ''1e-3'', SStr ''1e-2'']] 3)
      = [(''depth'', SInt 3), (''lr'', SStr ''1e-2'')]"
    by code_simp
  ultimately show ?thesis by auto
qed

section \<open>Running the whole grid\<close>

text \<open>
  A grid sweep that runs to its end runs every point: when agents claim trials with the grid's
  own limit and its points as params, uncapped, and one of them is told that nothing is left, then
  every combination of the grid's values is the params of a claimed trial.
\<close>

theorem grid_sweep_exhausts:
  fixes show_params :: "(string \<times> sv) list option res \<Rightarrow> yv" and sp :: sweep_spec
  assumes "wf_spec sp" "spec_method sp = Grid" "run_cap sp = None" "trial_limit sp = Inr limit"
    and "agents_behave listing others" "\<And>m a. named_slots a \<Longrightarrow> named_slots (others m a)"
    and "\<And>m a. as_suggested (\<lambda>n. show_params (grid_point sp n)) a \<Longrightarrow> as_suggested (\<lambda>n. show_params (grid_point sp n)) (others m a)"
    and "contiguous a" "named_slots a" "as_suggested (\<lambda>n. show_params (grid_point sp n)) a"
    and "claim_next_trial listing others limit (\<lambda>n. show_params (grid_point sp n)) who a = (a', Inr None)"
    and "grid_axes sp = Inr axes" "list_all2 (\<lambda>v axis. v \<in> set axis) vs axes"
  shows "\<exists>t c. map_of a' (record_name t 0) = Some c
    \<and> params c = show_params (Inr (Some (zip (map fst (spec_parameters sp)) vs)))"
proof -
  define suggest where "suggest = (\<lambda>n. show_params (grid_point sp n))"
  define size where "size = prod_list (map length axes)"
  have limit: "limit = Some size"
    using assms(2-4,12) by (simp add: trial_limit_def grid_size_def size_def)
  obtain n where n: "n < size" "radix_point axes n = vs"
    using radix_point_covers [OF assms(13)] by (auto simp: size_def)
  have rounds: "claim_rounds listing others (Some size) suggest who MAX_ATTEMPTS 0 a = (a', Inr None)"
    using assms(11) by (simp add: claim_next_trial_def limit suggest_def)
  have "in_area a' n 0"
    by (rule claim_rounds_exhausted [OF assms(5,6,8,9) _ rounds n(1)]) simp_all
  then obtain c where c: "map_of a' (record_name n 0) = Some c" by (auto simp: in_area_def)
  have "as_suggested suggest a'"
    by (rule claim_rounds_suggested [OF _ _ rounds]) (use assms(7,10) in \<open>simp_all add: suggest_def\<close>)
  then have "params c = suggest n" using c by (simp add: as_suggested_def)
  moreover have "grid_point sp n = Inr (Some (zip (map fst (spec_parameters sp)) vs))"
    using nth_product_lists [of n axes] n by (simp add: grid_point_def assms(12) length_product_lists size_def)
  ultimately show ?thesis using c by (auto simp: suggest_def)
qed

text \<open>Two agents have run a grid of two points.\<close>

definition two_points :: sweep_spec where
  "two_points = demo_spec\<lparr>spec_parameters := [(''lr'', Choice [SStr ''1e-3'', SStr ''1e-2''])], run_cap := None\<rparr>"

definition show_point :: "(string \<times> sv) list option res \<Rightarrow> yv" where
  "show_point r =
     (case r of Inr (Some ps) \<Rightarrow> YMap (map (\<lambda>(n, v). (n, case v of SStr s \<Rightarrow> YStr s | _ \<Rightarrow> YNull)) ps) | _ \<Rightarrow> YNull)"

definition claimed :: "nat \<Rightarrow> string \<Rightarrow> claim" where
  "claimed t who = \<lparr>trial = t, attempt = 0, params = show_point (grid_point two_points t), agent = who\<rparr>"

definition two_claims :: area where
  "two_claims = [] @ [(record_name 0 0, claimed 0 ''a'')] @ [(record_name 1 0, claimed 1 ''b'')]"

lemma two_claims_fine:
  "contiguous two_claims" "named_slots two_claims" "as_suggested (\<lambda>n. show_point (grid_point two_points n)) two_claims"
proof -
  have "contiguous ([] @ [(record_name 0 0, claimed 0 ''a'')])"
    by (rule contiguous_snoc) (simp_all add: one_other_behaves)
  then have "contiguous (([] @ [(record_name 0 0, claimed 0 ''a'')]) @ [(record_name 1 0, claimed 1 ''b'')])"
    by (rule contiguous_snoc) (simp add: in_area_def)
  then show "contiguous two_claims" by (simp add: two_claims_def)
  show "named_slots two_claims" by (auto simp: named_slots_def two_claims_def)
  have slot: "u = t" if "record_name u 0 = record_name t 0" for t u
    using arg_cong [OF that, of slot_of] by (simp add: slot_of_record_name)
  show "as_suggested (\<lambda>n. show_point (grid_point two_points n)) two_claims"
    by (auto simp: as_suggested_def two_claims_def claimed_def split: if_splits dest!: slot)
qed

theorem grid_sweep_exhausts_witness:
  "\<exists>t c. map_of two_claims (record_name t 0) = Some c \<and> params c = YMap [(''lr'', YStr ''1e-2'')]"
proof -
  have "\<exists>t c. map_of two_claims (record_name t 0) = Some c
      \<and> params c = show_point (Inr (Some (zip (map fst (spec_parameters two_points)) [SStr ''1e-2''])))"
  proof (rule grid_sweep_exhausts [where listing = "\<lambda>m. map fst" and others = "\<lambda>m a. a" and a = two_claims
        and limit = "Some 2" and who = "''c''"])
    show "wf_spec two_points" "spec_method two_points = Grid" "run_cap two_points = None"
      by (simp_all add: wf_spec_def two_points_def demo_spec_def)
    show "trial_limit two_points = Inr (Some 2)" "grid_axes two_points = Inr [[SStr ''1e-3'', SStr ''1e-2'']]" by code_simp+
    show "agents_behave (\<lambda>m. map fst) (\<lambda>m a. a)" by (auto simp: agents_behave_def map_of_eq_None_iff)
    show "claim_next_trial (\<lambda>m. map fst) (\<lambda>m a. a) (Some 2) (\<lambda>n. show_point (grid_point two_points n)) ''c'' two_claims
        = (two_claims, Inr None)"
      by (simp add: claim_next_trial_def MAX_ATTEMPTS_def numeral_eq_Suc two_claims_def claimed_trials_def slots_def
          List.map_filter_simps slot_of_record_name next_free_def at_limit_def)
  qed (simp_all add: two_claims_fine)
  then show ?thesis by (simp add: show_point_def two_points_def)
qed

end
