(* ===== verification/Log_Row.thy ===== *)
theory Log_Row
imports Log_Arrival Sweep_Grid
begin

text \<open>
  The leaderboard row of a run, from fold_row of core/fold.py with the summary policies of
  core/metric_summary.py, the lookup of declarations in core/step_metric.py and Python's
  \<open>fnmatchcase\<close>. A mean is the exact quotient. The dictionaries of a row are maps.
\<close>

section \<open>Globs\<close>

fun class_items :: "string \<Rightarrow> (char \<times> char) list" where
  "class_items [] = []"
| "class_items (a # cs) =
     (case cs of h # b # rest \<Rightarrow> if h = CHR ''-'' then (a, b) # class_items rest else (a, a) # class_items cs
      | _ \<Rightarrow> (a, a) # class_items cs)"

definition glob_class :: "string \<Rightarrow> (bool \<times> (char \<times> char) list \<times> string) option" where
  \<comment> \<open>what follows an opening bracket: negated, the ranges, and the pattern after the closing one\<close>
  "glob_class ps =
     (let neg = starts_with ''!'' ps; r = (if neg then tl ps else ps);
          pre = (if starts_with '']'' r then '']'' else []); body = drop (length pre) r;
          rest = dropWhile (\<lambda>c. c \<noteq> CHR '']'') body
      in if rest = [] then None
         else Some (neg, class_items (pre @ takeWhile (\<lambda>c. c \<noteq> CHR '']'') body), tl rest))"

lemma glob_class_shorter: "glob_class ps = Some (neg, ranges, rest) \<Longrightarrow> length rest < length ps"
proof -
  have tl: "length (tl xs) \<le> length xs" for xs :: string by simp
  have drop: "length (dropWhile P xs) \<le> length xs" for P and xs :: string by (rule length_dropWhile_le)
  assume *: "glob_class ps = Some (neg, ranges, rest)"
  define r where "r = (if starts_with ''!'' ps then tl ps else ps)"
  define body where "body = drop (length (if starts_with '']'' r then '']'' else [])) r"
  have "rest = tl (dropWhile (\<lambda>c. c \<noteq> CHR '']'') body)" "dropWhile (\<lambda>c. c \<noteq> CHR '']'') body \<noteq> []"
    using * by (auto simp: glob_class_def Let_def r_def body_def split: if_splits)
  then have "length rest < length (dropWhile (\<lambda>c. c \<noteq> CHR '']'') body)" by simp
  also have "\<dots> \<le> length body" by (rule drop)
  also have "\<dots> \<le> length ps" by (simp add: body_def r_def)
  finally show ?thesis .
qed

function glob_match :: "string \<Rightarrow> string \<Rightarrow> bool" where
  "glob_match [] s = (s = [])"
| "glob_match (p # ps) s =
     (if p = CHR ''*'' then glob_match ps s \<or> (if s = [] then False else glob_match (p # ps) (tl s))
      else if p = CHR ''?'' then s \<noteq> [] \<and> glob_match ps (tl s)
      else case (if p = CHR ''['' then glob_class ps else None) of
             Some (neg, ranges, rest) \<Rightarrow> s \<noteq> [] \<and> list_ex (in_range (hd s)) ranges \<noteq> neg \<and> glob_match rest (tl s)
           | None \<Rightarrow> s \<noteq> [] \<and> hd s = p \<and> glob_match ps (tl s))"
  by pat_completeness auto
termination
  by (relation "measure (\<lambda>(ps, s). length ps + length s)") (auto dest: glob_class_shorter split: if_splits)

section \<open>Declarations\<close>

fun first_match :: "('d \<Rightarrow> 'p option) \<Rightarrow> string \<Rightarrow> (string \<times> 'd) list \<Rightarrow> 'p option" where
  "first_match pick name [] = None"
| "first_match pick name ((pattern, d) # ds) =
     (case pick d of
        Some p \<Rightarrow> if glob_match pattern name then Some p else first_match pick name ds
      | None \<Rightarrow> first_match pick name ds)"

definition lookup_declared :: "('d \<Rightarrow> 'p option) \<Rightarrow> string \<Rightarrow> (string \<times> 'd) list \<Rightarrow> 'p option" where
  \<comment> \<open>\<open>lookup\<close>: the exact name, else the latest-declared pattern\<close>
  "lookup_declared pick name ds =
     (case Option.bind (map_of ds name) pick of
        Some p \<Rightarrow> Some p
      | None \<Rightarrow> first_match pick name (rev ds))"

datatype policy = P_Min | P_Max | P_Last | P_First | P_Mean

definition SUMMARIES :: "(string \<times> policy) list" where
  "SUMMARIES = [(''min'', P_Min), (''max'', P_Max), (''last'', P_Last), (''first'', P_First), (''mean'', P_Mean)]"

definition GOALS :: "(string \<times> policy) list" where
  "GOALS = [(''min'', P_Min), (''max'', P_Max)]"

definition named_in :: "(string \<times> policy) list \<Rightarrow> sv option \<Rightarrow> policy option" where
  "named_in names v = (case v of Some (SStr s) \<Rightarrow> map_of names s | _ \<Rightarrow> None)"

definition policy_of :: "(string \<rightharpoonup> sv) \<Rightarrow> policy option" where
  \<comment> \<open>an explicit summary, else the goal's\<close>
  "policy_of d =
     (case named_in SUMMARIES (d ''summary'') of Some p \<Rightarrow> Some p | None \<Rightarrow> named_in GOALS (d ''goal''))"

definition schema_policy_of :: "sv \<Rightarrow> policy option" where
  "schema_policy_of v = (case v of SMap m \<Rightarrow> policy_of (map_of m) | _ \<Rightarrow> None)"

definition column_policy :: "(string \<times> sv) list \<Rightarrow> string \<Rightarrow> policy" where
  \<comment> \<open>\<open>SchemaPolicies.column\<close>\<close>
  "column_policy schema n = (case lookup_declared schema_policy_of n schema of None \<Rightarrow> P_Last | Some p \<Rightarrow> p)"

definition own_policy :: "(string \<times> sv) list \<Rightarrow> (string \<times> (string \<rightharpoonup> sv)) list \<Rightarrow> string \<Rightarrow> policy" where
  \<comment> \<open>\<open>SchemaPolicies.of\<close>\<close>
  "own_policy schema run_defs n =
     (case lookup_declared policy_of n run_defs of None \<Rightarrow> column_policy schema n | Some p \<Rightarrow> p)"

section \<open>Summaries\<close>

record summary =
  sm_last :: float_val
  sm_min :: "rat option"
  sm_max :: "rat option"
  sm_first :: float_val
  sm_mean :: "rat option"

definition summary_of :: "float_val \<Rightarrow> seen \<Rightarrow> float_val option \<Rightarrow> summary option" where
  "summary_of lastv s first =
     (case s of
        Once v \<Rightarrow> None
      | Repeated lo hi n acc \<Rightarrow>
          Some \<lparr>sm_last = lastv, sm_min = lo, sm_max = hi, sm_first = (case first of None \<Rightarrow> lastv | Some v \<Rightarrow> v),
                sm_mean = (if n = 0 then None else Some (acc / of_nat n))\<rparr>)"

fun summary_value :: "policy \<Rightarrow> summary \<Rightarrow> float_val option" where
  "summary_value P_Min s = map_option Fin (sm_min s)"
| "summary_value P_Max s = map_option Fin (sm_max s)"
| "summary_value P_Last s = Some (sm_last s)"
| "summary_value P_First s = Some (sm_first s)"
| "summary_value P_Mean s = map_option Fin (sm_mean s)"

definition with_schema_policies ::
    "(string \<rightharpoonup> float_val) \<Rightarrow> (string \<rightharpoonup> summary) \<Rightarrow> (string \<times> (string \<rightharpoonup> sv)) list \<Rightarrow> (string \<times> sv) list
     \<Rightarrow> (string \<rightharpoonup> float_val) \<times> (string \<rightharpoonup> policy)" where
  \<comment> \<open>a policy without a value leaves the metric out\<close>
  "with_schema_policies metrics summaries run_defs schema =
     (if run_defs = [] \<and> schema = [] then (metrics, Map.empty)
      else (\<lambda>n. case summaries n of None \<Rightarrow> metrics n | Some s \<Rightarrow> summary_value (own_policy schema run_defs n) s,
            \<lambda>n. case summaries n of None \<Rightarrow> None
              | Some s \<Rightarrow> if summary_value (own_policy schema run_defs n) s \<noteq> None
                            \<and> own_policy schema run_defs n \<noteq> column_policy schema n
                          then Some (own_policy schema run_defs n) else None))"

definition summaries_of :: "'k log_fold \<Rightarrow> (string \<rightharpoonup> summary)" where
  \<comment> \<open>of what was logged more than once, which has a last value\<close>
  "summaries_of f = (\<lambda>n. case (fd_extrema f n, fold_values (fd_metrics f) n) of
     (Some s, Some lastv) \<Rightarrow> summary_of lastv s (fold_values (fd_firsts f) n) | _ \<Rightarrow> None)"

definition fold_metrics ::
    "'k log_fold \<Rightarrow> (string \<times> sv) list \<Rightarrow> (string \<rightharpoonup> float_val) \<times> (string \<rightharpoonup> summary) \<times> (string \<rightharpoonup> policy)" where
  "fold_metrics f schema =
     (case with_schema_policies (fold_values (fd_metrics f)) (summaries_of f) (fold_definitions f) schema of
        (metrics, policies) \<Rightarrow> (metrics, summaries_of f, policies))"

section \<open>The row\<close>

record board_row =
  row_meta :: "(string \<times> sv) list"                 \<comment> \<open>the fields taken over from the metadata\<close>
  row_tags :: "string \<rightharpoonup> sv"
  row_params :: "string \<rightharpoonup> sv"
  row_metrics :: "string \<rightharpoonup> float_val"
  row_summary :: "string \<rightharpoonup> summary"
  row_policy :: "string \<rightharpoonup> policy"
  row_last_metric_at :: sv
  row_inputs :: "sv \<rightharpoonup> sv \<times> sv \<times> sv"
  row_outputs :: "sv \<rightharpoonup> string option \<times> sv"
  row_author :: "string option"
  row_has_intent :: bool
  row_logged_params :: "string \<Rightarrow> bool"
  row_planned :: "nat option"
  row_create_note :: "sv option"

definition fork_fields :: "(string \<times> sv) list \<Rightarrow> (string \<times> sv) list res" where
  "fork_fields meta =
     (let origin = s_get meta ''forked_from''
      in if \<not> s_truthy origin then Inr [(''forked_from'', SNull), (''forked_from_step'', SNull)]
         else case origin of
                SMap m \<Rightarrow> Inr [(''forked_from'', s_get m ''verstr''), (''forked_from_step'', s_get m ''step'')]
              | _ \<Rightarrow> Inl AttributeErr)"

definition meta_fields :: "int \<Rightarrow> (string \<times> sv) list \<Rightarrow> (string \<times> sv) list res" where
  "meta_fields idx meta =
     (case map_of meta ''verstr'' of
        None \<Rightarrow> Inl KeyErr
      | Some verstr \<Rightarrow> bind_res (fork_fields meta) (\<lambda>fork. Inr
          ([(''idx'', SInt idx), (''verstr'', verstr), (''code_verstr'', get_or meta ''code_verstr'' verstr)]
           @ map (\<lambda>k. (k, s_get meta k)) [''timestamp'', ''note'', ''branch'', ''base_version'', ''name'']
           @ [(''archived'', SBool (s_truthy (get_or meta ''archived'' (SBool False))))]
           @ map (\<lambda>k. (k, s_get meta k)) [''parent'', ''env'', ''imported_from'']
           @ fork @ [(''rerun_of'', s_get meta ''rerun_of'')])))"

definition fold_row ::
    "text_ops \<Rightarrow> int \<Rightarrow> (string \<times> sv) list \<Rightarrow> 'k log_fold \<Rightarrow> bool \<Rightarrow> (string \<times> sv) list \<Rightarrow> board_row sres" where
  "fold_row ops idx meta f with_create_note schema =
     (case meta_fields idx meta of
        Inl e \<Rightarrow> Inl (Raised e)
      | Inr fields_of_meta \<Rightarrow>
          bind_sres (if s_truthy (s_get meta ''sweep'') then planned_trials (show_value ops) (s_get meta ''sweep'') else Inr None)
            (\<lambda>planned. case fold_metrics f schema of (metrics, summaries, policies) \<Rightarrow> Inr
              \<lparr>row_meta = fields_of_meta, row_tags = fold_tags f, row_params = fold_values (fd_params f), row_metrics = metrics,
               row_summary = summaries, row_policy = policies, row_last_metric_at = fold_last_metric_at f,
               row_inputs = fold_values (fd_inputs f), row_outputs = fold_values (fd_outputs f),
               row_author = author_display (case fold_features f of None \<Rightarrow> SNull | Some v \<Rightarrow> s_get v ''author''),
               row_has_intent = (fold_intent f \<noteq> None), row_logged_params = is_logged_param f, row_planned = planned,
               row_create_note = (if with_create_note then Some (case fd_create_note f of None \<Rightarrow> SNull | Some (n, k) \<Rightarrow> n)
                                  else None)\<rparr>))"

section \<open>Policies that no order decides\<close>

definition matches :: "string \<Rightarrow> string \<Rightarrow> bool" where
  "matches pattern name = (pattern = name \<or> glob_match pattern name)"

definition unambiguous :: "string set \<Rightarrow> bool" where
  \<comment> \<open>no metric is named or matched by two declarations\<close>
  "unambiguous names = (\<forall>p \<in> names. \<forall>q \<in> names. \<forall>n. matches p n \<longrightarrow> matches q n \<longrightarrow> p = q)"

lemma first_match_iff:
  assumes "distinct (map fst ds)" "unambiguous (fst ` set ds)"
  shows "first_match pick n ds = Some p \<longleftrightarrow> (\<exists>pattern d. (pattern, d) \<in> set ds \<and> glob_match pattern n \<and> pick d = Some p)"
  using assms
proof (induction ds)
  case (Cons x ds)
  obtain pattern d where x: "x = (pattern, d)" by (cases x)
  have IH: "first_match pick n ds = Some p \<longleftrightarrow> (\<exists>pattern d. (pattern, d) \<in> set ds \<and> glob_match pattern n \<and> pick d = Some p)"
    using Cons by (auto simp: unambiguous_def)
  have other: "\<not> glob_match q n" if "(q, d') \<in> set ds" "glob_match pattern n" for q d'
  proof
    assume "glob_match q n"
    have "q \<in> fst ` set ds" using that(1) by force
    moreover have "pattern \<in> fst ` set (x # ds)" "q \<in> fst ` set (x # ds)" using x \<open>q \<in> fst ` set ds\<close> by auto
    then have "q = pattern" using Cons.prems(2) that(2) \<open>glob_match q n\<close> unfolding unambiguous_def matches_def by blast
    ultimately show False using Cons.prems(1) x by simp
  qed
  show ?case
  proof (cases "glob_match pattern n")
    case True
    then show ?thesis using IH other x by (auto split: option.split)
  next
    case False
    then show ?thesis using IH x by (auto split: option.split)
  qed
qed simp

lemma lookup_order_free:
  assumes "distinct (map fst ds)" "distinct (map fst ds')" "set ds = set ds'" "unambiguous (fst ` set ds)"
  shows "lookup_declared pick n ds = lookup_declared pick n ds'"
proof -
  have "map_of ds n = map_of ds' n" using assms(1-3) by (metis map_of_eqI map_of_eq_Some_iff option.exhaust not_None_eq)
  moreover have "first_match pick n (rev ds) = first_match pick n (rev ds')"
  proof (rule option.expand)
    show "first_match pick n (rev ds) = None \<longleftrightarrow> first_match pick n (rev ds') = None"
      using first_match_iff [of "rev ds" pick n] first_match_iff [of "rev ds'" pick n] assms
      by (simp add: rev_map [symmetric] del: not_None_eq) (metis not_None_eq)
    show "the (first_match pick n (rev ds)) = the (first_match pick n (rev ds'))"
      if "first_match pick n (rev ds) \<noteq> None" "first_match pick n (rev ds') \<noteq> None"
      using that first_match_iff [of "rev ds" pick n] first_match_iff [of "rev ds'" pick n] assms
      by (simp add: rev_map [symmetric]) (metis option.sel option.exhaust)
  qed
  ultimately show ?thesis by (simp only: lookup_declared_def)
qed

section \<open>The declarations a fold holds\<close>

lemma visible_defs_distinct:
  "distinct (map fst (fd_defs f)) \<Longrightarrow> distinct (map fst (fd_defs (apply_visible ops e k f)))"
  by (auto simp: visible_defs apply_definition_def distinct_od_put split: option.split)

lemma entry_distinct_defs:
  "distinct (map fst (fd_defs f)) \<Longrightarrow> distinct (map fst (fd_defs (apply_entry ops (k, e) f)))"
  by (auto simp: apply_entry_def learn_rewind_def visible_defs_distinct split: option.split)

lemma fold_defs_distinct:
  "distinct (map fst (fd_defs f)) \<Longrightarrow> distinct (map fst (fd_defs (fold (apply_entry ops) kes f)))"
proof (induction kes arbitrary: f)
  case (Cons ke kes)
  then show ?case by (cases ke) (simp add: entry_distinct_defs)
qed simp

definition declared_somewhere :: "'k log_fold \<Rightarrow> bool" where
  \<comment> \<open>no name is kept without a field\<close>
  "declared_somewhere f = (\<forall>(name, m) \<in> set (fd_defs f). m \<noteq> Map.empty)"

lemma keep_all_nonempty: "us \<noteq> [] \<Longrightarrow> keep_all us k m \<noteq> Map.empty"
proof
  assume "us \<noteq> []" and empty: "keep_all us k m = Map.empty"
  then obtain n v us' where us: "us = (n, v) # us'" by (cases us) auto
  then have "last_of us n \<noteq> None" by (auto split: option.split)
  then obtain w where "last_of us n = Some w" by auto
  then have "keep_all us k m n = put_latest w k (m n)" by (simp add: keep_all_at)
  then show False using empty by (auto simp: put_latest_def split: option.splits if_splits)
qed

lemma od_put_subset: "set (od_put k v d) \<subseteq> insert (k, v) (set d)"
  by (induction k v d rule: od_put.induct) auto

lemma declared_definition:
  assumes "declared_somewhere f"
  shows "declared_somewhere (apply_definition e k f)"
proof (cases "entry_definition e")
  case (Some nd)
  obtain name decl where nd: "nd = (name, decl)" by (cases nd)
  have "decl \<noteq> []" using Some nd by (auto simp: entry_definition_def Let_def split: sv.splits if_splits)
  then have full: "keep_all decl k m \<noteq> Map.empty" for m by (rule keep_all_nonempty)
  obtain m where m: "fd_defs (apply_definition e k f) = od_put name (keep_all decl k m) (fd_defs f)"
    by (simp add: apply_definition_def Some nd Let_def)
  show ?thesis unfolding declared_somewhere_def m
  proof
    fix x assume "x \<in> set (od_put name (keep_all decl k m) (fd_defs f))"
    then have "x = (name, keep_all decl k m) \<or> x \<in> set (fd_defs f)" using od_put_subset by fast
    then show "case x of (name, m) \<Rightarrow> m \<noteq> Map.empty"
    proof
      assume "x = (name, keep_all decl k m)"
      then show ?thesis using full by simp
    qed (use assms in \<open>auto simp: declared_somewhere_def\<close>)
  qed
qed (use assms in \<open>simp add: apply_definition_def\<close>)

lemma declared_frame: "fd_defs g = fd_defs f \<Longrightarrow> declared_somewhere g = declared_somewhere f"
  by (simp add: declared_somewhere_def)

lemma declared_entry: "declared_somewhere f \<Longrightarrow> declared_somewhere (apply_entry ops (k, e) f)"
proof -
  assume f: "declared_somewhere f"
  have "fd_defs (apply_visible ops e k f) = fd_defs f \<or> fd_defs (apply_visible ops e k f) = fd_defs (apply_definition e k f)"
    by (simp add: visible_defs)
  then have "declared_somewhere (apply_visible ops e k f)"
    using f declared_definition [OF f] declared_frame by metis
  moreover have "declared_somewhere (learn_rewind s k f)" for s
    using f by (simp add: learn_rewind_def declared_somewhere_def)
  ultimately show ?thesis using f by (simp add: apply_entry_def split: option.split)
qed

lemma fold_declared: "declared_somewhere f \<Longrightarrow> declared_somewhere (fold (apply_entry ops) kes f)"
proof (induction kes arbitrary: f)
  case (Cons ke kes)
  then show ?case by (cases ke) (simp add: declared_entry)
qed simp

definition well_declared :: "'k log_fold \<Rightarrow> bool" where
  "well_declared f = (distinct (map fst (fd_defs f)) \<and> declared_somewhere f)"

lemma well_declared_fold: "well_declared f \<Longrightarrow> well_declared (fold (apply_entry ops) kes f)"
  by (simp add: well_declared_def fold_defs_distinct fold_declared)

lemma well_declared_blank: "fd_defs f = [] \<Longrightarrow> well_declared f"
  by (simp add: well_declared_def declared_somewhere_def)

lemma definitions_of_view:
  assumes "well_declared f"
  shows "set (fold_definitions f)
    = {(name, m). m = vw_fields (view_of f) name \<and> m \<noteq> Map.empty}"
proof (rule set_eqI)
  fix x :: "string \<times> (string \<rightharpoonup> sv)"
  obtain name m where x: "x = (name, m)" by (cases x)
  have dist: "distinct (map fst (fd_defs f))" using assms by (simp add: well_declared_def)
  have field: "vw_fields (view_of f) name = (case map_of (fd_defs f) name of None \<Rightarrow> Map.empty | Some d \<Rightarrow> fold_values d)" for name
    by (auto simp: view_of_def field_at_def fold_values_def split: option.split)
  have full: "fold_values d \<noteq> Map.empty" if "(name, d) \<in> set (fd_defs f)" for name and d :: "string \<rightharpoonup> sv \<times> 'a"
  proof -
    have "d \<noteq> Map.empty" using bspec [OF _ that] assms by (auto simp: well_declared_def declared_somewhere_def)
    then obtain field where "d field \<noteq> None" by (auto simp: fun_eq_iff)
    then have "fold_values d field \<noteq> None" by (simp add: fold_values_def)
    then show ?thesis by auto
  qed
  show "x \<in> set (fold_definitions f) \<longleftrightarrow> x \<in> {(name, m). m = vw_fields (view_of f) name \<and> m \<noteq> Map.empty}"
  proof
    assume "x \<in> set (fold_definitions f)"
    then obtain d where d: "(name, d) \<in> set (fd_defs f)" "m = fold_values d" by (auto simp: fold_definitions_def x)
    then have "map_of (fd_defs f) name = Some d" using dist by simp
    then show "x \<in> {(name, m). m = vw_fields (view_of f) name \<and> m \<noteq> Map.empty}"
      using d full by (simp add: x field)
  next
    assume "x \<in> {(name, m). m = vw_fields (view_of f) name \<and> m \<noteq> Map.empty}"
    then have m: "m = vw_fields (view_of f) name" "m \<noteq> Map.empty" by (auto simp: x)
    then obtain d where "map_of (fd_defs f) name = Some d" "m = fold_values d" by (auto simp: field split: option.splits)
    then have "(\<lambda>(name, d). (name, fold_values d)) (name, d) \<in> set (fold_definitions f)"
      unfolding fold_definitions_def set_map by (intro imageI) (rule map_of_SomeD)
    then show "x \<in> set (fold_definitions f)" using \<open>m = fold_values d\<close> by (simp add: x)
  qed
qed

section \<open>Rows from views\<close>

lemma view_fields:
  assumes "view_of f = view_of g"
  shows "fold_values (fd_params f) = fold_values (fd_params g)" "fold_values (fd_metrics f) = fold_values (fd_metrics g)"
    "fd_extrema f = fd_extrema g" "fold_values (fd_firsts f) = fold_values (fd_firsts g)" "fold_values (fd_tags f) = fold_values (fd_tags g)"
    "fold_values (fd_inputs f) = fold_values (fd_inputs g)" "fold_values (fd_outputs f) = fold_values (fd_outputs g)"
    "map_option fst (fd_last_metric f) = map_option fst (fd_last_metric g)" "map_option fst (create_slot f) = map_option fst (create_slot g)"
    "map_option fst (fd_features f) = map_option fst (fd_features g)" "map_option fst (fd_intent f) = map_option fst (fd_intent g)"
  using assms by (auto simp: view_of_def)

lemma fold_tags_values: "fold_tags f = (\<lambda>n. Option.bind (fold_values (fd_tags f) n) (\<lambda>v. if v = SNull then None else Some v))"
  by (auto simp: fun_eq_iff fold_tags_def fold_values_def split: option.split)

lemma row_parts_of_view:
  assumes "view_of f = view_of g"
  shows "fold_tags f = fold_tags g" "is_logged_param f = is_logged_param g" "fold_last_metric_at f = fold_last_metric_at g"
    "fold_features f = fold_features g" "fold_intent f = fold_intent g" "summaries_of f = summaries_of g"
    "(case fd_create_note f of None \<Rightarrow> SNull | Some (n, k) \<Rightarrow> n) = (case fd_create_note g of None \<Rightarrow> SNull | Some (n, k) \<Rightarrow> n)"
proof -
  note v = view_fields [OF assms]
  show "fold_tags f = fold_tags g" using v(5) by (simp add: fold_tags_values)
  have "(fd_params f n \<noteq> None) = (fd_params g n \<noteq> None)" for n
    using fun_cong [OF v(1), of n] by (metis fold_values_def map_option_is_None)
  then show "is_logged_param f = is_logged_param g" using v(3) by (simp add: fun_eq_iff is_logged_param_def logged_def)
  show "fold_last_metric_at f = fold_last_metric_at g" using v(8)
    by (auto simp: fold_last_metric_at_def split: option.splits)
  show "fold_features f = fold_features g" using v(10) by (simp add: fold_features_def)
  show "fold_intent f = fold_intent g" using v(11)
    by (auto simp: fold_intent_def split: option.splits)
  show "summaries_of f = summaries_of g" by (simp only: summaries_of_def v(2-4))
  show "(case fd_create_note f of None \<Rightarrow> SNull | Some (n, k) \<Rightarrow> n) = (case fd_create_note g of None \<Rightarrow> SNull | Some (n, k) \<Rightarrow> n)"
    using v(9) by (auto simp: create_slot_def split: option.splits)
qed

lemma lookups_agree:
  assumes "view_of f = view_of g" "well_declared f" "well_declared g" "unambiguous (fst ` set (fd_defs f))"
  shows "lookup_declared pick n (fold_definitions f) = lookup_declared pick n (fold_definitions g)"
    and "fold_definitions f = [] \<longleftrightarrow> fold_definitions g = []"
proof -
  have same: "set (fold_definitions f) = set (fold_definitions g)"
    using assms(1) by (simp add: definitions_of_view [OF assms(2)] definitions_of_view [OF assms(3)])
  have names: "map fst (fold_definitions h) = map fst (fd_defs h)" for h :: "'c log_fold"
    by (simp add: fold_definitions_def o_def case_prod_unfold)
  have "distinct (map fst (fold_definitions f))" "fst ` set (fold_definitions f) = fst ` set (fd_defs f)"
    using assms(2) by (auto simp: well_declared_def fold_definitions_def o_def case_prod_unfold image_image)
  moreover have "distinct (map fst (fold_definitions g))"
    using assms(3) by (auto simp: well_declared_def fold_definitions_def o_def case_prod_unfold)
  ultimately show "lookup_declared pick n (fold_definitions f) = lookup_declared pick n (fold_definitions g)"
    using same assms(4) by (intro lookup_order_free) simp_all
  show "fold_definitions f = [] \<longleftrightarrow> fold_definitions g = []" using same by (metis set_empty)
qed

lemma metrics_agree:
  assumes "view_of f = view_of g" "well_declared f" "well_declared g" "unambiguous (fst ` set (fd_defs f))"
  shows "fold_metrics f schema = fold_metrics g schema"
proof -
  have "own_policy schema (fold_definitions f) = own_policy schema (fold_definitions g)"
    by (rule ext) (simp only: own_policy_def lookups_agree(1) [OF assms])
  then show ?thesis
    by (simp only: fold_metrics_def with_schema_policies_def view_fields(2) [OF assms(1)] row_parts_of_view(6) [OF assms(1)]
        lookups_agree(2) [OF assms])
qed

lemma rows_agree:
  assumes "view_of f = view_of g" "well_declared f" "well_declared g" "unambiguous (fst ` set (fd_defs f))"
  shows "fold_row ops idx meta f w schema = fold_row ops idx meta g w schema"
  by (simp only: fold_row_def metrics_agree [OF assms] row_parts_of_view [OF assms(1)] view_fields [OF assms(1)])

lemma arrivals_declared: "well_declared (fold_arrivals ops (new_fold rw) arr)"
  unfolding fold_arrivals_arrived by (rule well_declared_fold, rule well_declared_blank) (simp add: new_fold_def)

lemma log_declared: "well_declared (fold_log ops lg (new_fold []) 0)"
proof -
  have "fd_defs ((learn_all 0 lg (new_fold []))\<lparr>fd_stale := b\<rparr>) = []" for b
    using arg_cong [OF learn_all_effect [THEN conjunct2, THEN conjunct1], of fd_defs 0 lg "new_fold []"] by (simp add: new_fold_def)
  then show ?thesis unfolding fold_log_def Let_def by (intro well_declared_fold well_declared_blank) simp
qed

text \<open>
  C16. A run's leaderboard row does not depend on how its log arrived: from chunks in any order of the
  writers, each continuing its writer's, a fold that asks for no refold (a rewind that arrives after
  entries it may hide makes it ask), started from rewinds of the log met earlier, gives the very row
  that the merged log gives, with its metrics under their summary policies, provided the entries have
  the stored shape, there are at most eight note signatures, and no metric is named or matched by two of
  the run's own declarations.
\<close>

theorem row_any_arrival:
  assumes "in_order (\<lambda>_. 0) arr" "\<forall>(k, e) \<in> set (arrived arr). stored_entry e" "few_signatures ops (arrived arr)"
    and "set rw \<subseteq> set (said rewind_step (arrived arr))" "\<not> needs_refold (fold_arrivals ops (new_fold rw) arr)"
    and "unambiguous (fst ` set (fd_defs (fold_arrivals ops (new_fold rw) arr)))"
  shows "fold_row ops idx meta (fold_arrivals ops (new_fold rw) arr) with_note schema
    = fold_row ops idx meta (fold_log ops (merged_log arr) (new_fold []) 0) with_note schema"
proof (rule rows_agree [OF _ arrivals_declared log_declared assms(6)])
  show "view_of (fold_arrivals ops (new_fold rw) arr) = view_of (fold_log ops (merged_log arr) (new_fold []) 0)"
    using settled_view [OF assms(1-5)] fold_of_merged [OF distinct_arrived [OF assms(1)] assms(2,3)]
    by (simp add: merged_log_def)
qed

lemma demo_definitions: "map fst (fd_defs (fold_arrivals demo_ops (new_fold demo_rewinds) demo_arrivals)) = [''loss'']"
  by code_simp

definition demo_meta :: "(string \<times> sv) list" where
  "demo_meta = [(''verstr'', SStr ''0.1.2-exp.4''), (''note'', SStr ''baseline'')]"

theorem row_any_arrival_witness:
  "fold_row demo_ops 1 demo_meta (fold_arrivals demo_ops (new_fold demo_rewinds) demo_arrivals) False []
    = fold_row demo_ops 1 demo_meta (fold_log demo_ops (merged_log demo_arrivals) (new_fold []) 0) False []"
proof (rule row_any_arrival [OF demo_arrivals_fine])
  have "fst ` set (fd_defs (fold_arrivals demo_ops (new_fold demo_rewinds) demo_arrivals)) = {''loss''}"
    using demo_definitions by (metis list.set(1) list.set(2) set_map)
  then show "unambiguous (fst ` set (fd_defs (fold_arrivals demo_ops (new_fold demo_rewinds) demo_arrivals)))"
    by (simp add: unambiguous_def)
qed

text \<open>
  What a row ranks on: the value of a metric is the one its policy names over the visible points
  of the log, whatever their order of arrival: the least, greatest or mean of the finite ones (and
  missing when there is none), the first or the last by key.
\<close>

theorem row_metric_is_summary:
  fixes arr :: arrivals
  defines "pts \<equiv> \<lambda>n. said (said_metric n) (counted (said rewind_step (arrived arr)) (arrived arr))"
  assumes "in_order (\<lambda>_. 0) arr" "\<forall>(k, e) \<in> set (arrived arr). stored_entry e" "few_signatures ops (arrived arr)"
    and "set rw \<subseteq> set (said rewind_step (arrived arr))" "\<not> needs_refold (fold_arrivals ops (new_fold rw) arr)"
    and "length (pts n) \<ge> 2"
  shows "fst (fold_metrics (fold_arrivals ops (new_fold rw) arr) schema) n
    = (let fin = finites (map fst (pts n))
       in case own_policy schema (fold_definitions (fold_arrivals ops (new_fold rw) arr)) n of
            P_Min \<Rightarrow> if fin = [] then None else Some (Fin (Min (set fin)))
          | P_Max \<Rightarrow> if fin = [] then None else Some (Fin (Max (set fin)))
          | P_Mean \<Rightarrow> if fin = [] then None else Some (Fin (sum_list fin / of_nat (length fin)))
          | P_First \<Rightarrow> map_option fst (winner put_first (pts n))
          | P_Last \<Rightarrow> map_option fst (winner put_latest (pts n)))"
proof -
  define f where "f = fold_arrivals ops (new_fold rw) arr"
  define kes where "kes = counted (said rewind_step (arrived arr)) (arrived arr)"
  have view: "view_of f = view_spec ops kes" unfolding f_def kes_def by (rule settled_view [OF assms(2-6)])
  have pts: "pts n = said (said_metric n) kes" by (simp add: pts_def kes_def)
  have slot: "metric_view n kes = (Some (summary_seen (map fst (pts n))), map_option fst (winner put_first (pts n)),
      map_option fst (winner put_latest (pts n)))"
    using assms(7) by (auto simp: metric_view_def Let_def pts [symmetric] first_said_def latest_said_def)
  have state: "fd_extrema f n = Some (summary_seen (map fst (pts n)))"
    "fold_values (fd_firsts f) n = map_option fst (winner put_first (pts n))"
    "fold_values (fd_metrics f) n = map_option fst (winner put_latest (pts n))"
    using arg_cong [OF view, of vw_extrema] arg_cong [OF view, of vw_firsts] arg_cong [OF view, of vw_metrics] slot
    by (simp_all add: view_of_def view_spec_def)
  have "pts n \<noteq> []" using assms(7) by auto
  then obtain v k w l where ends: "winner put_latest (pts n) = Some (v, k)" "winner put_first (pts n) = Some (w, l)"
    using latest.winner_None_iff [of "pts n"] earliest.winner_None_iff [of "pts n"] by (metis not_Some_eq surj_pair)
  have plain: "own_policy [] [] n = P_Last"
    by (simp add: own_policy_def column_policy_def lookup_declared_def)
  show ?thesis unfolding f_def [symmetric] using plain
    by (auto simp: fold_metrics_def with_schema_policies_def summaries_of_def state ends summary_of_def summary_seen_def Let_def
        split: policy.split)
qed

theorem row_metric_is_summary_witness:
  "fst (fold_metrics (fold_arrivals demo_ops (new_fold demo_rewinds) demo_arrivals) []) ''loss'' = Some (Fin 3)"
proof -
  have pts: "said (said_metric ''loss'') (counted (said rewind_step (arrived demo_arrivals)) (arrived demo_arrivals))
      = [(Fin 5, (''2'', ''b'', 0)), (Fin 3, (''1'', ''a'', 1))]" by code_simp
  have own: "own_policy [] (fold_definitions (fold_arrivals demo_ops (new_fold demo_rewinds) demo_arrivals)) ''loss'' = P_Min"
    by code_simp
  show ?thesis
    by (subst row_metric_is_summary [OF demo_arrivals_fine])
      (simp_all add: pts own finite_of_def)
qed

text \<open>
  What no name order decides a glob may: two of the run's patterns match a metric, and its policy is
  the later one's in the order their first declarations were folded in, which is the order of arrival.
\<close>

definition pattern_summary :: "string \<Rightarrow> string \<Rightarrow> string \<Rightarrow> sv" where
  "pattern_summary t pattern policy =
     SMap [(''timestamp'', SStr t), (''type'', SStr ''define_metric''), (''name'', SStr pattern), (''summary'', SStr policy)]"

definition from_a :: "string \<times> nat \<times> sv list" where
  "from_a = (''a'', 0, [pattern_summary ''1'' ''lo*'' ''min''])"

definition from_b :: "string \<times> nat \<times> sv list" where
  "from_b = (''b'', 0, [pattern_summary ''2'' ''*ss'' ''max''])"

lemma policy_follows_arrival:
  "received [from_a, from_b] = received [from_b, from_a]"
  "own_policy [] (fold_definitions (fold_arrivals demo_ops (new_fold []) [from_a, from_b])) ''loss'' = P_Max"
  "own_policy [] (fold_definitions (fold_arrivals demo_ops (new_fold []) [from_b, from_a])) ''loss'' = P_Min"
proof -
  show "received [from_a, from_b] = received [from_b, from_a]" by (auto simp: from_a_def from_b_def fun_eq_iff)
qed code_simp+

end
