(* ===== verification/Log_Append.thy ===== *)
theory Log_Append
imports Log_Arrival
begin

text \<open>
  A log that grows: folding the new entries into the fold of the old ones, from core/fold.py, and what
  a rewind appended to a log hides, from core/rewind.py.
\<close>

section \<open>Folding what was appended\<close>

lemma positions_append: "positions p (a @ b) = positions p a @ positions (p + length a) b"
  by (simp add: positions_def enumerate_append_eq List.map_filter_def)

lemma markers_append: "log_markers p (a @ b) = log_markers p a @ log_markers (p + length a) b"
  by (simp add: markers_said positions_append)

lemma marker_positions: "(r, q) \<in> set (log_markers p lg) \<Longrightarrow> p \<le> q \<and> q < p + length lg"
  by (auto simp: log_markers_def List.map_filter_def in_set_enumerate_eq)

lemma markers_none: "log_markers p lg = [] \<longleftrightarrow> (\<forall>v \<in> set lg. marker_of v = None)"
proof (induction lg arbitrary: p)
  case (Cons v lg)
  then show ?case by (auto simp: log_markers_def List.map_filter_simps split: option.split)
qed (simp add: log_markers_def List.map_filter_simps)

lemma learnt_already: "set (log_markers p lg) \<subseteq> set (fd_rewinds f) \<Longrightarrow> learn_all p lg f = f"
proof -
  have "set ms \<subseteq> set (fd_rewinds f) \<Longrightarrow> fold (\<lambda>(s, q). learn_rewind s q) ms f = f" for ms
    by (induction ms arbitrary: f) (auto simp: learn_rewind_def)
  then show "set (log_markers p lg) \<subseteq> set (fd_rewinds f) \<Longrightarrow> ?thesis" by (simp add: learn_all_def)
qed

lemma fold_log_rewinds:
  "set (fd_rewinds (fold_log ops lg f start)) = set (fd_rewinds f) \<union> set (log_markers start lg)
   \<and> (fd_stale (fold_log ops lg f start) \<longleftrightarrow> fd_stale f \<or> start > 0 \<and> \<not> set (log_markers start lg) \<subseteq> set (fd_rewinds f))"
proof -
  define g where "g = (learn_all start lg f)\<lparr>fd_stale := fd_stale f \<or> start > 0 \<and> fd_stale (learn_all start lg f)\<rparr>"
  have "fold_log ops lg f start = fold (apply_entry ops) (positions start lg) g" by (simp add: fold_log_def g_def Let_def)
  moreover have "set (fd_rewinds g) = set (fd_rewinds f) \<union> set (log_markers start lg)"
    "fd_stale g \<longleftrightarrow> fd_stale f \<or> start > 0 \<and> \<not> set (log_markers start lg) \<subseteq> set (fd_rewinds f)"
    using learn_all_effect [of start lg f] by (auto simp: g_def)
  ultimately show ?thesis
    using rewinds_grow [of ops "positions start lg" g] by (auto simp: markers_said)
qed

text \<open>
  The fold of appended entries asks for a refold when there were old entries and one of the new ones is
  a rewind, whether or not that rewind hides anything (the comment in core/fold.py speaks of hiding ones
  only).
\<close>

lemma appended_refold:
  "(let part = fold_log ops new (fold_log ops old (new_fold []) 0) (length old)
    in (needs_refold part \<longleftrightarrow> old \<noteq> [] \<and> (\<exists>v \<in> set new. marker_of v \<noteq> None))
       \<and> (needs_refold part \<or> part = fold_log ops (old @ new) (new_fold []) 0))"
proof -
  define f where "f = fold_log ops old (new_fold []) 0"
  define part where "part = fold_log ops new f (length old)"
  have f: "set (fd_rewinds f) = set (log_markers 0 old)" "\<not> fd_stale f"
    using fold_log_rewinds [of ops old "new_fold []" 0] by (simp_all add: f_def new_fold_def)
  have fresh: "set (log_markers (length old) new) \<subseteq> set (fd_rewinds f) \<longleftrightarrow> log_markers (length old) new = []"
    using marker_positions [of _ _ 0 old] marker_positions [of _ _ "length old" new] unfolding f(1)
    by (cases "log_markers (length old) new") (fastforce+)
  have stale: "needs_refold part \<longleftrightarrow> old \<noteq> [] \<and> (\<exists>v \<in> set new. marker_of v \<noteq> None)"
    using fold_log_rewinds [of ops new f "length old"] f(2) fresh markers_none [of "length old" new]
    by (auto simp: needs_refold_def part_def)
  have "part = fold_log ops (old @ new) (new_fold []) 0" if "\<not> needs_refold part"
  proof (cases "old = []")
    case True
    have "f = new_fold []" by (simp add: f_def True fold_log_def learn_all_def log_markers_def positions_def List.map_filter_simps new_fold_def Let_def)
    then show ?thesis by (simp add: part_def True)
  next
    case False
    then have none: "log_markers (length old) new = []" using that stale markers_none by blast
    have same: "learn_all (length old) new f = f" using none by (intro learnt_already) simp
    have "learn_all 0 (old @ new) (new_fold []) = learn_all 0 old (new_fold [])"
      by (simp add: learn_all_def markers_append none)
    then have "fold_log ops (old @ new) (new_fold []) 0 = fold (apply_entry ops) (positions (length old) new) f"
      by (simp add: fold_log_def f_def positions_append Let_def)
    moreover have "f\<lparr>fd_stale := False\<rparr> = f" using f(2) by (cases f) simp
    moreover have "part = fold (apply_entry ops) (positions (length old) new) (f\<lparr>fd_stale := False\<rparr>)"
      using f(2) by (simp add: part_def fold_log_def same Let_def)
    ultimately show ?thesis by simp
  qed
  then show ?thesis using stale by (auto simp: Let_def part_def f_def)
qed

text \<open>
  C17. Folding only what was appended: when the fold of a log's new entries into the fold of its old
  ones asks for no refold, it is the very fold of the whole log, and the new entries hide none of the
  old ones that was not hidden before. It asks for a refold only if there were old entries and a rewind
  is among the new ones.
\<close>

theorem fold_log_extends:
  "(let part = fold_log ops new (fold_log ops old (new_fold []) 0) (length old)
    in if needs_refold part then old \<noteq> [] \<and> (\<exists>v \<in> set new. marker_of v \<noteq> None)
       else part = fold_log ops (old @ new) (new_fold []) 0
         \<and> filter (hidden (log_markers 0 (old @ new))) (enumerate 0 old) = filter (hidden (log_markers 0 old)) (enumerate 0 old))"
proof (cases "old = [] \<or> log_markers (length old) new = []")
  case True
  then have "filter (hidden (log_markers 0 (old @ new))) (enumerate 0 old) = filter (hidden (log_markers 0 old)) (enumerate 0 old)"
    by (auto simp: markers_append)
  then show ?thesis using appended_refold [of ops new old] by (auto simp only: Let_def split: if_split)
next
  case False
  then show ?thesis using appended_refold [of ops new old] markers_none [of "length old" new] by (auto simp: Let_def)
qed

section \<open>Rewinding a log\<close>

lemma drop_rewound_alt: "drop_rewound lg = map snd (filter (\<lambda>pv. \<not> hidden (log_markers 0 lg) pv) (enumerate 0 lg))"
proof (cases "log_markers 0 lg = []")
  case True
  then have "hidden (log_markers 0 lg) pv = False" for pv :: "nat \<times> sv"
    by (simp add: hidden_def is_rewound_def split: option.split)
  then show ?thesis by (simp add: drop_rewound_def True)
qed (simp add: drop_rewound_def Let_def)

lemma hidden_append: "hidden (rw @ rw') pv \<longleftrightarrow> hidden rw pv \<or> hidden rw' pv"
  by (auto simp: hidden_def is_rewound_iff split: option.split)

lemma hidden_later: "p < n \<Longrightarrow> hidden [(s, n)] (p, v) \<longleftrightarrow> hidden [(s, 1 :: nat)] (0, v)"
  by (simp add: hidden_def is_rewound_iff split: option.split)

lemma marker_of_rewind: "marker_of (rewind_entry now step) = Some (Fin (of_int step))"
  by (simp add: marker_of_def dict_of_def rewind_entry_def rewind_step_def get_type_def s_get_def entry_step_def as_number_def)

lemma rewind_not_hidden: "\<not> hidden rw (p, rewind_entry now step)"
  by (simp add: hidden_def dict_of_def rewind_entry_def is_rewound_def get_type_def s_get_def)

lemma filter_enumerate_hidden:
  "map snd (filter (\<lambda>pv. P pv \<and> Q (snd pv)) xs) = filter Q (map snd (filter P xs))"
  by (induction xs) auto

lemma drop_rewound_rewind:
  "drop_rewound (lg @ [rewind_entry now step])
    = filter (\<lambda>v. \<not> hidden [(Fin (of_int step), 1 :: nat)] (0, v)) (drop_rewound lg) @ [rewind_entry now step]"
proof -
  define s where "s = Fin (of_int step)"
  define ms where "ms = log_markers 0 lg"
  have "log_markers n [rewind_entry now step] = [(s, n)]" for n
    by (simp add: s_def log_markers_def List.map_filter_simps marker_of_rewind)
  then have markers: "log_markers 0 (lg @ [rewind_entry now step]) = ms @ [(s, length lg)]"
    by (simp add: markers_append ms_def)
  have "filter (\<lambda>pv. \<not> hidden (ms @ [(s, length lg)]) pv) (enumerate 0 lg)
      = filter (\<lambda>pv. \<not> hidden ms pv \<and> \<not> hidden [(s, 1 :: nat)] (0, snd pv)) (enumerate 0 lg)"
    by (intro filter_cong refl) (auto simp: hidden_append hidden_later [where n = "length lg"] in_set_enumerate_eq)
  then have "map snd (filter (\<lambda>pv. \<not> hidden (ms @ [(s, length lg)]) pv) (enumerate 0 lg))
      = filter (\<lambda>v. \<not> hidden [(s, 1 :: nat)] (0, v)) (map snd (filter (\<lambda>pv. \<not> hidden ms pv) (enumerate 0 lg)))"
    using filter_enumerate_hidden [where P = "\<lambda>pv. \<not> hidden ms pv" and Q = "\<lambda>v. \<not> hidden [(s, 1 :: nat)] (0, v)"] by simp
  then show ?thesis unfolding drop_rewound_alt markers
    by (simp add: enumerate_append_eq rewind_not_hidden ms_def s_def)
qed

text \<open>
  A rewind hides what it says it would: appending a rewind to a step keeps the visible entries
  that are not past the step, in their order, and adds itself; and \<open>count_hidden\<close>, asked before, is
  the number of entries that disappear.
\<close>

theorem rewind_hides_counted:
  "drop_rewound (lg @ [rewind_entry now step])
     = filter (\<lambda>v. \<not> (case dict_of v of None \<Rightarrow> False | Some e \<Rightarrow>
          (case entry_step e of None \<Rightarrow> False | Some s \<Rightarrow> f_less (Fin (of_int step)) s \<and> get_type e \<noteq> SStr REWIND))) (drop_rewound lg)
       @ [rewind_entry now step]
   \<and> length (drop_rewound (lg @ [rewind_entry now step])) + count_hidden lg (Fin (of_int step)) = length (drop_rewound lg) + 1"
proof -
  have hidden: "hidden [(Fin (of_int step), 1 :: nat)] (0, v) \<longleftrightarrow> (case dict_of v of None \<Rightarrow> False | Some e \<Rightarrow>
      (case entry_step e of None \<Rightarrow> False | Some s \<Rightarrow> f_less (Fin (of_int step)) s \<and> get_type e \<noteq> SStr REWIND))" for v
    by (auto simp: hidden_def is_rewound_def split: option.split)
  have "length (filter (\<lambda>v. \<not> P v) xs) + length (filter P xs) = length xs" for P and xs :: "sv list"
    by (induction xs) auto
  then show ?thesis using drop_rewound_rewind [of lg now step] by (simp add: hidden [symmetric] count_hidden_def)
qed

end
