(* ===== verification/Jsonl_Tail.thy ===== *)
theory Jsonl_Tail
imports Log_Entry
begin

text \<open>
  Reading a growing JSONL file, from core/jsonl_tail.py and parse_json_line of core/logfiles.py: every
  read takes the complete lines past what earlier reads consumed, and an unterminated last line when
  it is a whole JSON object already. Bytes are characters (the writers' JSON is ASCII); the JSON
  scanner is a parameter, which returns the object a line is, if it is one.
\<close>

section \<open>Lines\<close>

type_synonym scanner = "string \<Rightarrow> log_entry option"

definition LF :: char where "LF = char_of (10 :: nat)"

definition CR :: char where "CR = char_of (13 :: nat)"

definition is_break :: "char \<Rightarrow> bool" where
  \<comment> \<open>where \<open>str.splitlines\<close> breaks\<close>
  "is_break c = (10 \<le> code c \<and> code c \<le> 13 \<or> 28 \<le> code c \<and> code c \<le> 30 \<or> code c = 133)"

fun split_lines :: "string \<Rightarrow> string \<Rightarrow> string list" where
  "split_lines acc [] = (if acc = [] then [] else [acc])"
| "split_lines acc (c # cs) =
     (if c = CR \<and> cs \<noteq> [] \<and> hd cs = LF then acc # split_lines [] (tl cs)
      else if is_break c then acc # split_lines [] cs
      else split_lines (acc @ [c]) cs)"

definition parse_json_line :: "scanner \<Rightarrow> string \<Rightarrow> log_entry option" where
  "parse_json_line scan s = (let l = str_strip s in if l = [] then None else scan l)"

definition is_byte_space :: "char \<Rightarrow> bool" where
  "is_byte_space c = (code c = 32 \<or> 9 \<le> code c \<and> code c \<le> 13)"

definition after_last_break :: "string \<Rightarrow> string" where
  \<comment> \<open>\<open>data[data.rfind(b"\n") + 1:]\<close>\<close>
  "after_last_break data = rev (takeWhile (\<lambda>c. c \<noteq> LF) (rev data))"

definition parse_lines :: "scanner \<Rightarrow> string \<Rightarrow> log_entry list" where
  "parse_lines scan s = List.map_filter (parse_json_line scan) (split_lines [] s)"

datatype lines_read = Lines "log_entry list" nat | Unterminated_Entry

definition complete_lines :: "scanner \<Rightarrow> bool \<Rightarrow> string \<Rightarrow> lines_read" where
  "complete_lines scan take_unterminated data =
     (let rest = after_last_break data; cut = length data - length rest; last_entry = parse_json_line scan rest
      in if last_entry \<noteq> None \<and> \<not> take_unterminated then Unterminated_Entry
         else case last_entry of
           None \<Rightarrow> Lines (parse_lines scan (take cut data)) (if list_all is_byte_space rest then length data else cut)
         | Some e \<Rightarrow> Lines (parse_lines scan (take cut data) @ [e]) (length data))"

section \<open>What is read of some data\<close>

definition entries_in :: "scanner \<Rightarrow> string \<Rightarrow> log_entry list" where
  "entries_in scan data =
     (let rest = after_last_break data
      in parse_lines scan (take (length data - length rest) data)
         @ (case parse_json_line scan rest of None \<Rightarrow> [] | Some e \<Rightarrow> [e]))"

definition used_of :: "scanner \<Rightarrow> string \<Rightarrow> nat" where
  "used_of scan data =
     (let rest = after_last_break data
      in if parse_json_line scan rest \<noteq> None \<or> list_all is_byte_space rest then length data else length data - length rest)"

lemma complete_lines_parts: "complete_lines scan True data = Lines (entries_in scan data) (used_of scan data)"
  by (auto simp: complete_lines_def entries_in_def used_of_def Let_def split: option.split)

lemma after_last_break_split:
  obtains h where "data = h @ after_last_break data" "h = [] \<or> last h = LF"
proof -
  have "rev data = takeWhile (\<lambda>c. c \<noteq> LF) (rev data) @ dropWhile (\<lambda>c. c \<noteq> LF) (rev data)" by simp
  then have "data = rev (dropWhile (\<lambda>c. c \<noteq> LF) (rev data)) @ after_last_break data"
    unfolding after_last_break_def by (metis rev_append rev_rev_ident)
  moreover have "dropWhile (\<lambda>c. c \<noteq> LF) (rev data) \<noteq> [] \<Longrightarrow> hd (dropWhile (\<lambda>c. c \<noteq> LF) (rev data)) = LF"
    using hd_dropWhile [of "\<lambda>c. c \<noteq> LF" "rev data"] by simp
  ultimately show thesis using that [of "rev (dropWhile (\<lambda>c. c \<noteq> LF) (rev data))"] by (auto simp: last_rev)
qed

lemma no_break_after: "LF \<notin> set (after_last_break data)"
  by (auto simp: after_last_break_def dest: set_takeWhileD)

lemma after_last_break_append:
  assumes "LF \<notin> set t" "h = [] \<or> last h = LF"
  shows "after_last_break (h @ t) = t"
proof -
  have "takeWhile (\<lambda>c. c \<noteq> LF) (rev t @ rev h) = rev t @ takeWhile (\<lambda>c. c \<noteq> LF) (rev h)"
    using assms(1) by (intro takeWhile_append2) auto
  moreover have "takeWhile (\<lambda>c. c \<noteq> LF) (rev h) = []"
    using assms(2) by (cases h rule: rev_cases) auto
  ultimately show ?thesis by (simp add: after_last_break_def)
qed

lemma entries_of_line:
  assumes "LF \<notin> set t" "h = [] \<or> last h = LF"
  shows "entries_in scan (h @ t) = parse_lines scan h @ (case parse_json_line scan t of None \<Rightarrow> [] | Some e \<Rightarrow> [e])"
  by (simp add: entries_in_def after_last_break_append [OF assms])

lemma split_lines_append: "split_lines acc (a @ LF # b) = split_lines acc (a @ [LF]) @ split_lines [] b"
proof (induction acc a rule: split_lines.induct)
  case (1 acc)
  have "is_break LF" "LF \<noteq> CR" by (simp_all add: is_break_def LF_def CR_def)
  then show ?case by simp
next
  case (2 acc c cs)
  show ?case
  proof (cases cs)
    case Nil
    have "is_break LF" "LF \<noteq> CR" by (simp_all add: is_break_def LF_def CR_def)
    then show ?thesis using Nil by simp
  next
    case (Cons d ds)
    then show ?thesis using 2 by auto
  qed
qed

lemma parse_lines_append: "h = [] \<or> last h = LF \<Longrightarrow> parse_lines scan (h @ b) = parse_lines scan h @ parse_lines scan b"
proof (cases h rule: rev_cases)
  case (snoc a c)
  assume "h = [] \<or> last h = LF"
  then show ?thesis using split_lines_append [of "[]" a b] snoc by (simp add: parse_lines_def List.map_filter_def)
qed (simp add: parse_lines_def List.map_filter_simps)

lemma entries_in_append: "h = [] \<or> last h = LF \<Longrightarrow> entries_in scan (h @ b) = parse_lines scan h @ entries_in scan b"
proof -
  assume h: "h = [] \<or> last h = LF"
  obtain g where g: "b = g @ after_last_break b" "g = [] \<or> last g = LF" by (rule after_last_break_split)
  have "entries_in scan (h @ b) = entries_in scan ((h @ g) @ after_last_break b)" using g(1) by simp
  also have "\<dots> = parse_lines scan (h @ g) @ (case parse_json_line scan (after_last_break b) of None \<Rightarrow> [] | Some e \<Rightarrow> [e])"
    using h g(2) by (intro entries_of_line no_break_after) (auto simp: last_append)
  also have "\<dots> = parse_lines scan h @ entries_in scan (g @ after_last_break b)"
    using entries_of_line [OF no_break_after g(2)] by (simp add: parse_lines_append h)
  finally show ?thesis using g(1) by simp
qed

section \<open>Blanks\<close>

lemma strip_blank_left: "list_all is_space t \<Longrightarrow> str_strip (t @ s) = str_strip s"
proof -
  assume t: "list_all is_space t"
  have "strip_left (strip_right (t @ s)) = strip_left (strip_right s)"
  proof (cases "list_all is_space s")
    case True
    then have "strip_right (t @ s) = []" "strip_right s = []"
      using t by (auto simp: strip_right_def dropWhile_eq_Nil_conv list_all_iff)
    then show ?thesis by simp
  next
    case False
    then have "dropWhile is_space (rev s @ rev t) = dropWhile is_space (rev s) @ rev t"
      by (auto simp: list_all_iff intro!: dropWhile_append1)
    then have "strip_right (t @ s) = t @ strip_right s" by (simp add: strip_right_def)
    then show ?thesis using t by (simp add: strip_left_def dropWhile_append2 list_all_iff)
  qed
  then show ?thesis by (simp add: str_strip_def)
qed

lemma strip_blank_right: "list_all is_space t \<Longrightarrow> str_strip (s @ t) = str_strip s"
proof -
  assume "list_all is_space t"
  then have "dropWhile is_space (rev t @ rev s) = dropWhile is_space (rev s)"
    by (intro dropWhile_append2) (auto simp: list_all_iff)
  then show ?thesis by (simp add: str_strip_def strip_right_def)
qed

lemma strip_blank: "list_all is_space t \<Longrightarrow> str_strip t = []"
  using strip_blank_left [of t "[]"] by (simp add: str_strip_def strip_left_def strip_right_def)

lemma parse_blank_left: "list_all is_space t \<Longrightarrow> parse_json_line scan (t @ s) = parse_json_line scan s"
  by (simp add: parse_json_line_def strip_blank_left)

lemma parse_blank_right: "list_all is_space t \<Longrightarrow> parse_json_line scan (s @ t) = parse_json_line scan s"
  by (simp add: parse_json_line_def strip_blank_right)

lemma parse_blank: "list_all is_space t \<Longrightarrow> parse_json_line scan t = None"
  by (simp add: parse_json_line_def strip_blank)

lemma byte_space: "is_byte_space c \<Longrightarrow> is_space c"
  by (auto simp: is_byte_space_def is_space_def)

lemma byte_blank: "list_all is_byte_space t \<Longrightarrow> list_all is_space t"
  by (auto simp: list_all_iff byte_space)

lemma map_filter_Cons: "List.map_filter f (x # xs) = (case f x of None \<Rightarrow> List.map_filter f xs | Some y \<Rightarrow> y # List.map_filter f xs)"
  by (simp add: List.map_filter_simps)

lemma parse_split_blank:
  "list_all is_space t \<Longrightarrow> List.map_filter (parse_json_line scan) (split_lines (t @ acc) s)
    = List.map_filter (parse_json_line scan) (split_lines acc s)"
proof (induction acc s rule: split_lines.induct)
  case (1 acc)
  then show ?case by (auto simp: map_filter_Cons parse_blank_left parse_blank List.map_filter_simps)
next
  case (2 acc c cs)
  then show ?case by (auto simp: map_filter_Cons parse_blank_left)
qed

lemma parse_lines_blank: "list_all is_space t \<Longrightarrow> LF \<notin> set t \<Longrightarrow> parse_lines scan (t @ s) = parse_lines scan s"
proof (induction t)
  case (Cons c t)
  then have c: "list_all is_space [c]" "c \<noteq> LF" by auto
  have one: "parse_lines scan (c # x) = parse_lines scan x" if "\<not> (c = CR \<and> x \<noteq> [] \<and> hd x = LF)" for x
    using that parse_split_blank [OF c(1), of scan "[]" x]
    by (auto simp: parse_lines_def map_filter_Cons parse_json_line_def str_strip_def strip_left_def strip_right_def)
  have two: "parse_lines scan (c # x) = parse_lines scan x" if cr: "c = CR" "x \<noteq> []" "hd x = LF" for x
  proof -
    obtain y where "x = LF # y" using cr by (cases x) auto
    then show ?thesis using cr by (simp add: parse_lines_def map_filter_Cons parse_json_line_def str_strip_def
          strip_left_def strip_right_def is_break_def LF_def CR_def)
  qed
  have "parse_lines scan (c # t @ s) = parse_lines scan (t @ s)" using one [of "t @ s"] two [of "t @ s"] by blast
  then show ?case using Cons by simp
qed simp

lemma entries_blank: "list_all is_space t \<Longrightarrow> LF \<notin> set t \<Longrightarrow> entries_in scan (t @ s) = entries_in scan s"
proof -
  assume t: "list_all is_space t" "LF \<notin> set t"
  obtain g where g: "s = g @ after_last_break s" "g = [] \<or> last g = LF" by (rule after_last_break_split)
  show ?thesis
  proof (cases "g = []")
    case True
    then have s: "LF \<notin> set s" using g no_break_after [of s] by simp
    then show ?thesis using entries_of_line [of "t @ s" "[]"] entries_of_line [of s "[]"] t by (simp add: parse_blank_left)
  next
    case False
    then have "entries_in scan ((t @ g) @ after_last_break s) = parse_lines scan (t @ g) @
        (case parse_json_line scan (after_last_break s) of None \<Rightarrow> [] | Some e \<Rightarrow> [e])"
      using g(2) by (intro entries_of_line no_break_after) auto
    also have "\<dots> = entries_in scan (g @ after_last_break s)"
      using entries_of_line [OF no_break_after g(2)] by (simp add: parse_lines_blank t)
    finally show ?thesis using g(1) by simp
  qed
qed

section \<open>Reading while it grows\<close>

definition line_rest :: "string \<Rightarrow> string" where
  "line_rest r = takeWhile (\<lambda>c. c \<noteq> LF) r"

lemma line_rest_append: "LF \<notin> set t \<Longrightarrow> line_rest (t @ s) = t @ line_rest s"
  by (induction t) (auto simp: line_rest_def)

lemma line_rest_prefix: "set (line_rest x) \<subseteq> set (line_rest (x @ y))"
  by (induction x) (auto simp: line_rest_def)

definition grows_by_lines :: "scanner \<Rightarrow> string \<Rightarrow> bool" where
  \<comment> \<open>no break but line feeds, and what follows an entry on its line is blank\<close>
  "grows_by_lines scan c =
     ((\<forall>ch \<in> set c. is_break ch \<longrightarrow> ch = LF)
      \<and> (\<forall>a r. c = a @ r \<longrightarrow> parse_json_line scan (after_last_break a) \<noteq> None \<longrightarrow> list_all is_space (line_rest r)))"

definition mid_line :: "scanner \<Rightarrow> string \<Rightarrow> bool" where
  \<comment> \<open>what was consumed of the line a read starts in: blanks, or its entry\<close>
  "mid_line scan a = (list_all is_space (after_last_break a) \<or> parse_json_line scan (after_last_break a) \<noteq> None)"

lemma split_plain_line:
  "(\<forall>c \<in> set w. \<not> is_break c) \<Longrightarrow> split_lines acc (w @ [LF]) = [acc @ w]"
proof (induction w arbitrary: acc)
  case Nil
  have "is_break LF" "LF \<noteq> CR" by (simp_all add: is_break_def LF_def CR_def)
  then show ?case by simp
next
  case (Cons c w)
  moreover have "c \<noteq> CR" using Cons.prems by (auto simp: is_break_def CR_def)
  ultimately show ?case by simp
qed

lemma parse_plain_line:
  "(\<forall>c \<in> set w. \<not> is_break c) \<Longrightarrow>
    parse_lines scan (w @ [LF]) = (case parse_json_line scan w of None \<Rightarrow> [] | Some e \<Rightarrow> [e])"
  by (simp add: parse_lines_def split_plain_line List.map_filter_simps split: option.split)

lemma after_last_break_cases:
  assumes "d = h @ t" "LF \<notin> set t" "h = [] \<or> last h = LF"
  shows "after_last_break (a @ d) = (if h = [] then after_last_break a @ t else t)"
proof (cases "h = []")
  case True
  obtain g where g: "a = g @ after_last_break a" "g = [] \<or> last g = LF" by (rule after_last_break_split)
  have "after_last_break (g @ after_last_break a @ t) = after_last_break a @ t"
    using assms(2) no_break_after g(2) by (intro after_last_break_append) auto
  then show ?thesis using True assms(1) g(1) by (metis append.assoc append_Nil)
next
  case False
  have "after_last_break ((a @ h) @ t) = t" using False assms by (intro after_last_break_append) auto
  then show ?thesis using False assms(1) by simp
qed

lemma entry_ends_line:
  assumes "parse_json_line scan t = Some e" "list_all is_space (line_rest x)" "LF \<notin> set t"
    and "\<forall>ch \<in> set (t @ x). is_break ch \<longrightarrow> ch = LF"
  shows "entries_in scan (t @ x) = e # entries_in scan x"
proof -
  define q where "q = line_rest x"
  have q: "list_all is_space q" "LF \<notin> set q" using assms(2) by (auto simp: q_def line_rest_def dest: set_takeWhileD)
  have x: "x = q @ dropWhile (\<lambda>c. c \<noteq> LF) x" by (simp add: q_def line_rest_def)
  have tq: "parse_json_line scan (t @ q) = Some e" using assms(1) q(1) by (simp add: parse_blank_right)
  show ?thesis
  proof (cases "dropWhile (\<lambda>c. c \<noteq> LF) x")
    case Nil
    then have "x = q" using x by (metis append_Nil2)
    then show ?thesis using entries_of_line [of "t @ q" "[]" scan] entries_of_line [of q "[]" scan] q assms(3) tq
      by (simp add: parse_blank parse_lines_def List.map_filter_simps)
  next
    case (Cons c y)
    then have "c = LF" using hd_dropWhile [of "\<lambda>c. c \<noteq> LF" x] by simp
    then have xy: "x = q @ LF # y" using x Cons by simp
    have plain: "\<forall>ch \<in> set (t @ q). \<not> is_break ch" using assms(3,4) q(2) xy by auto
    have "entries_in scan ((t @ q @ [LF]) @ y) = parse_lines scan (t @ q @ [LF]) @ entries_in scan y"
      by (rule entries_in_append) simp
    moreover have "parse_lines scan ((t @ q) @ [LF]) = [e]" using plain tq by (subst parse_plain_line) auto
    moreover have "entries_in scan ((q @ [LF]) @ y) = parse_lines scan (q @ [LF]) @ entries_in scan y"
      by (rule entries_in_append) simp
    moreover have "parse_lines scan (q @ [LF]) = []" using plain q(1) by (subst parse_plain_line) (auto simp: parse_blank)
    ultimately show ?thesis by (simp add: xy)
  qed
qed

lemma one_read:
  assumes "grows_by_lines scan c" "c = a @ d @ x @ y" "mid_line scan a"
  shows "entries_in scan (d @ x) = entries_in scan d @ entries_in scan (drop (used_of scan d) (d @ x))"
    and "mid_line scan (a @ take (used_of scan d) d)" and "used_of scan d \<le> length d"
proof -
  define t where "t = after_last_break d"
  obtain h where h: "d = h @ t" "h = [] \<or> last h = LF" unfolding t_def by (rule after_last_break_split)
  have t: "LF \<notin> set t" unfolding t_def by (rule no_break_after)
  have d: "entries_in scan d = parse_lines scan h @ (case parse_json_line scan t of None \<Rightarrow> [] | Some e \<Rightarrow> [e])"
    using entries_of_line [OF t h(2)] h(1) by simp
  have dx: "entries_in scan (d @ x) = parse_lines scan h @ entries_in scan (t @ x)"
    using entries_in_append [OF h(2), of scan "t @ x"] h(1) by simp
  have used: "used_of scan d = (if parse_json_line scan t \<noteq> None \<or> list_all is_byte_space t then length d else length h)"
  proof -
    have "length d = length h + length t" by (simp add: h(1))
    then show ?thesis unfolding used_of_def Let_def t_def [symmetric] by simp
  qed
  have line: "after_last_break (a @ d) = (if h = [] then after_last_break a @ t else t)"
    by (rule after_last_break_cases [OF h(1) t h(2)])
  have breaks: "\<forall>ch \<in> set (t @ x). is_break ch \<longrightarrow> ch = LF"
    using assms(1,2) h(1) by (auto simp: grows_by_lines_def)
  have whole: "parse_json_line scan (after_last_break (a @ d)) \<noteq> None" if "parse_json_line scan t = Some e" for e
  proof (cases "h = []")
    case True
    have "list_all is_space (after_last_break a)"
    proof (rule ccontr)
      assume "\<not> list_all is_space (after_last_break a)"
      then have "list_all is_space (line_rest (d @ x @ y))" using assms by (auto simp: mid_line_def grows_by_lines_def)
      moreover have "line_rest (d @ x @ y) = t @ line_rest (x @ y)" using True h(1) t by (simp add: line_rest_append)
      ultimately show False using that by (simp add: parse_blank)
    qed
    then show ?thesis using that True line by (simp add: parse_blank_left)
  qed (use that line in simp)
  show "used_of scan d \<le> length d" using arg_cong [OF h(1), of length] unfolding used by simp
  show "entries_in scan (d @ x) = entries_in scan d @ entries_in scan (drop (used_of scan d) (d @ x))"
  proof (cases "parse_json_line scan t")
    case None
    have "drop (length h) (d @ x) = t @ x" by (simp add: h(1))
    then show ?thesis using None entries_blank [OF byte_blank t, of scan x] unfolding d dx used by simp
  next
    case (Some e)
    have "list_all is_space (line_rest (x @ y))"
      using whole [OF Some] assms(1,2) by (auto simp: grows_by_lines_def)
    then have "list_all is_space (line_rest x)" using line_rest_prefix [of x y] by (auto simp: list_all_iff)
    from entry_ends_line [OF Some this t breaks] show ?thesis by (simp add: d dx used Some)
  qed
  show "mid_line scan (a @ take (used_of scan d) d)"
  proof (cases "parse_json_line scan t \<noteq> None \<or> list_all is_byte_space t")
    case False
    moreover have "take (length h) d = h" by (simp add: h(1))
    ultimately have "a @ take (used_of scan d) d = a @ h" unfolding used by auto
    then show ?thesis using assms(3) h(2) after_last_break_cases [of h h "[]" a] by (auto simp: mid_line_def)
  next
    case True
    then have all: "a @ take (used_of scan d) d = a @ d" by (simp add: used)
    show ?thesis
    proof (cases "parse_json_line scan t")
      case None
      then have "list_all is_space t" using True byte_blank by blast
      then show ?thesis using assms(3) unfolding all mid_line_def line by (auto simp: parse_blank_right)
    qed (use whole all in \<open>auto simp: mid_line_def\<close>)
  qed
qed

definition read_step :: "scanner \<Rightarrow> string \<Rightarrow> nat \<Rightarrow> log_entry list \<times> nat \<Rightarrow> log_entry list \<times> nat" where
  \<comment> \<open>a read of the file when it had \<open>n\<close> bytes, from what was consumed so far\<close>
  "read_step scan content n = (\<lambda>(es, consumed).
     case complete_lines scan True (drop consumed (take n content)) of
       Lines new used \<Rightarrow> (es @ new, consumed + used)
     | Unterminated_Entry \<Rightarrow> (es, consumed))"

definition written :: "string list \<Rightarrow> string" where
  "written ls = concat (map (\<lambda>l. l @ [LF]) ls)"

definition whole_line :: "scanner \<Rightarrow> string \<Rightarrow> bool" where
  \<comment> \<open>one line, of which no proper part but blanks away is an entry of its own\<close>
  "whole_line scan l =
     (list_all (\<lambda>c. \<not> is_break c) l
      \<and> list_all (\<lambda>n. parse_json_line scan (take n l) = None \<or> list_all is_space (drop n l)) [0..<Suc (length l)])"

lemma whole_lineD:
  assumes "whole_line scan l" "l = p @ q" "parse_json_line scan p \<noteq> None"
  shows "list_all is_space q"
proof -
  have "length p \<in> set [0..<Suc (length l)]" using assms(2) by simp
  then have "parse_json_line scan (take (length p) l) = None \<or> list_all is_space (drop (length p) l)"
    using assms(1) unfolding whole_line_def list_all_iff by blast
  then show ?thesis using assms(2,3) by simp
qed

lemma whole_line_no_LF: "whole_line scan l \<Longrightarrow> LF \<notin> set l"
  by (auto simp: whole_line_def list_all_iff is_break_def LF_def)

lemma written_grows:
  assumes "\<forall>l \<in> set ls. whole_line scan l"
  shows "grows_by_lines scan (written ls)"
  unfolding grows_by_lines_def
proof (intro conjI allI impI)
  show "\<forall>ch \<in> set (written ls). is_break ch \<longrightarrow> ch = LF"
    using assms by (auto simp: written_def whole_line_def list_all_iff)
  fix a r assume "written ls = a @ r" "parse_json_line scan (after_last_break a) \<noteq> None"
  then show "list_all is_space (line_rest r)" using assms
  proof (induction ls arbitrary: a)
    case Nil
    then show ?case by (simp add: written_def line_rest_def)
  next
    case (Cons l ls)
    have noLF: "LF \<notin> set l" by (rule whole_line_no_LF [of scan]) (use Cons.prems(3) in simp)
    have eq: "l @ LF # written ls = a @ r" using Cons.prems(1) by (simp add: written_def)
    show ?case
    proof (cases "length a \<le> length l")
      case True
      then have a: "a = take (length a) l" "r = drop (length a) l @ LF # written ls"
        using arg_cong [OF eq, of "take (length a)"] arg_cong [OF eq, of "drop (length a)"] by simp_all
      have "LF \<notin> set a" using noLF a(1) by (metis in_set_takeD)
      then have "after_last_break a = a" using after_last_break_append [of a "[]"] by simp
      moreover have "line_rest r = drop (length a) l"
        using noLF unfolding a(2) line_rest_def by (subst takeWhile_append2) (auto dest: in_set_dropD)
      moreover have "l = a @ drop (length a) l" using a(1) by (metis append_take_drop_id)
      ultimately show ?thesis using whole_lineD [of scan l a] Cons.prems(2,3) by simp
    next
      case False
      then obtain b where b: "a = l @ LF # b" "written ls = b @ r"
        using eq by (auto simp: append_eq_append_conv2 Cons_eq_append_conv)
      have "after_last_break a = after_last_break b"
      proof -
        obtain g where g: "b = g @ after_last_break b" "g = [] \<or> last g = LF" by (rule after_last_break_split)
        have "after_last_break ((l @ LF # g) @ after_last_break b) = after_last_break b"
          using g(2) no_break_after by (intro after_last_break_append) auto
        then show ?thesis using b(1) g(1) by simp
      qed
      then show ?thesis using Cons.IH [OF b(2)] Cons.prems by simp
    qed
  qed
qed

lemma entries_of_written:
  "\<forall>l \<in> set ls. whole_line scan l \<Longrightarrow> entries_in scan (written ls) = List.map_filter (parse_json_line scan) ls"
proof (induction ls)
  case Nil
  then show ?case by (simp add: written_def entries_in_def after_last_break_def parse_lines_def List.map_filter_simps parse_blank)
next
  case (Cons l ls)
  have "entries_in scan ((l @ [LF]) @ written ls) = parse_lines scan (l @ [LF]) @ entries_in scan (written ls)"
    by (rule entries_in_append) simp
  moreover have "parse_lines scan (l @ [LF]) = (case parse_json_line scan l of None \<Rightarrow> [] | Some e \<Rightarrow> [e])"
    using Cons.prems by (intro parse_plain_line) (simp add: whole_line_def list_all_iff)
  ultimately show ?case using Cons by (simp add: written_def map_filter_Cons split: option.split)
qed

definition caught_up :: "scanner \<Rightarrow> string \<Rightarrow> nat \<Rightarrow> log_entry list \<times> nat \<Rightarrow> bool" where
  "caught_up scan c n = (\<lambda>(es, u). u \<le> n \<and> mid_line scan (take u c) \<and> es = entries_in scan (take n c)
     \<and> (\<forall>m. n \<le> m \<longrightarrow> m \<le> length c \<longrightarrow> entries_in scan (take m c) = es @ entries_in scan (drop u (take m c))))"

lemma read_step_catches_up:
  assumes "grows_by_lines scan c" "caught_up scan c n s" "n \<le> m" "m \<le> length c"
  shows "caught_up scan c m (read_step scan c m s)"
proof -
  obtain es u where s: "s = (es, u)" by (cases s)
  define d where "d = drop u (take m c)"
  have u: "u \<le> n" "mid_line scan (take u c)" using assms(2) unfolding s caught_up_def prod.case by blast+
  have before: "entries_in scan (take k c) = es @ entries_in scan (drop u (take k c))" if "n \<le> k" "k \<le> length c" for k
    using assms(2) that unfolding s caught_up_def prod.case by blast
  have later: "drop u (take k c) = d @ drop m (take k c)" "c = take u c @ d @ drop m (take k c) @ drop k c"
    if "m \<le> k" "k \<le> length c" for k
  proof -
    have "take k c = take m c @ drop m (take k c)" using take_add [of m "k - m" c] that by (simp add: drop_take)
    moreover have "take m c = take u c @ d" using take_add [of u "m - u" c] u(1) assms(3,4) by (simp add: d_def drop_take)
    ultimately have *: "take k c = take u c @ d @ drop m (take k c)" by simp
    show "c = take u c @ d @ drop m (take k c) @ drop k c" using arg_cong [OF *, of "\<lambda>z. z @ drop k c"] by simp
    have "length (take u c) = u" using u(1) assms(3,4) by simp
    then show "drop u (take k c) = d @ drop m (take k c)" using arg_cong [OF *, of "drop u"] by simp
  qed
  have step: "read_step scan c m s = (es @ entries_in scan d, u + used_of scan d)"
    by (simp add: read_step_def s complete_lines_parts d_def)
  note read = one_read [OF assms(1) later(2) u(2)]
  have used: "used_of scan d \<le> length d" by (rule read(3) [of "length c"]) (use assms(4) in simp_all)
  have len: "length d = m - u" using assms(4) by (simp add: d_def)
  have "entries_in scan (take k c) = (es @ entries_in scan d) @ entries_in scan (drop (u + used_of scan d) (take k c))"
    if "m \<le> k" "k \<le> length c" for k
  proof -
    have "entries_in scan (take k c) = es @ entries_in scan (d @ drop m (take k c))"
      using before [of k] later(1) [OF that] that assms(3) by simp
    also have "\<dots> = es @ entries_in scan d @ entries_in scan (drop (used_of scan d) (d @ drop m (take k c)))"
      using read(1) [OF that] by simp
    also have "drop (used_of scan d) (d @ drop m (take k c)) = drop (u + used_of scan d) (take k c)"
      using later(1) [OF that] by (metis add.commute drop_drop)
    finally show ?thesis by simp
  qed
  moreover have "take (u + used_of scan d) c = take u c @ take (used_of scan d) d"
  proof -
    have "take (used_of scan d) d = take (used_of scan d) (drop u c)"
      using used len assms(3,4) u(1) by (simp add: d_def drop_take min_absorb1)
    then show ?thesis by (simp add: take_add)
  qed
  then have "mid_line scan (take (u + used_of scan d) c)" using read(2) [of "length c"] assms(4) by simp
  moreover have "es @ entries_in scan d = entries_in scan (take m c)"
    unfolding d_def by (rule before [symmetric]) (use assms(3,4) in simp_all)
  moreover have "u + used_of scan d \<le> m" using used len u(1) assms(3) by simp
  ultimately show ?thesis unfolding step caught_up_def prod.case by blast
qed

lemma reads_catch_up:
  assumes "grows_by_lines scan c" "sorted (n # ns)" "last (n # ns) \<le> length c" "caught_up scan c n s"
  shows "caught_up scan c (last (n # ns)) (fold (read_step scan c) ns s)"
  using assms(2-)
proof (induction ns arbitrary: n s)
  case (Cons m ns)
  have "m \<le> last (m # ns)" using Cons.prems(1) by (cases ns rule: rev_cases) (auto simp: sorted_append)
  then have "caught_up scan c m (read_step scan c m s)"
    using Cons.prems by (intro read_step_catches_up [OF assms(1)]) auto
  then show ?case using Cons.IH [of m "read_step scan c m s"] Cons.prems by simp
qed simp

lemma caught_up_start: "caught_up scan c 0 ([], 0)"
  by (simp add: caught_up_def mid_line_def entries_in_def after_last_break_def parse_lines_def List.map_filter_simps parse_blank)

text \<open>
  A log that is read while it is written is read exactly once: however the reads cut the file,
  mid-line ones included, an entry taken before its line feed arrived and one left for later, the
  reads up to the whole file give the entry of every line, once and in order. (A line of the writers
  holds no line break, and no proper prefix of it but for blanks is a JSON object of its own.)
\<close>

theorem tail_reads_each_line_once:
  assumes "\<forall>l \<in> set ls. whole_line scan l" "sorted ns" "ns \<noteq> []" "last ns = length (written ls)"
  shows "fst (fold (read_step scan (written ls)) ns ([], 0)) = List.map_filter (parse_json_line scan) ls"
proof -
  have "caught_up scan (written ls) (last (0 # ns)) (fold (read_step scan (written ls)) ns ([], 0))"
    using assms(2-4) by (intro reads_catch_up [OF written_grows [OF assms(1)]] caught_up_start) auto
  then have "fst (fold (read_step scan (written ls)) ns ([], 0)) = entries_in scan (take (last (0 # ns)) (written ls))"
    unfolding caught_up_def case_prod_unfold by blast
  then show ?thesis using assms(3,4) by (simp add: entries_of_written [OF assms(1)])
qed

text \<open>A scanner of the one kind of object that the demonstration writes.\<close>

definition demo_scan :: scanner where
  "demo_scan s = (if starts_with ''{'' s \<and> ends_with ''}'' s \<and> length s = 3 then Some [(''n'', SStr [s ! 1])] else None)"

theorem tail_reads_each_line_once_witness:
  "fst (fold (read_step demo_scan (written [''{1}'', ''oops'', ''{2} ''])) [2, 3, 7, 12, 14] ([], 0))
    = [[(''n'', SStr ''1'')], [(''n'', SStr ''2'')]]"
proof -
  have "fst (fold (read_step demo_scan (written [''{1}'', ''oops'', ''{2} ''])) [2, 3, 7, 12, 14] ([], 0))
      = List.map_filter (parse_json_line demo_scan) [''{1}'', ''oops'', ''{2} '']"
  proof (rule tail_reads_each_line_once)
    show "\<forall>l \<in> set [''{1}'', ''oops'', ''{2} '']. whole_line demo_scan l" by code_simp
  qed (simp_all add: written_def)
  then show ?thesis by (simp add: List.map_filter_simps parse_json_line_def demo_scan_def str_strip_def strip_left_def
        strip_right_def is_space_def ends_with_def)
qed

end
