(* ===== verification/Log_Files.thy ===== *)
theory Log_Files
imports Prelude "HOL-Library.Char_ord" "HOL-Library.List_Lexorder" "HOL-Library.Product_Lexorder"
begin

text \<open>
  Names of a run's log files, from core/logfiles.py: a writer's file, its segments, and the objects
  that compaction merges them into. What a reader sees among the files it lists covers every segment
  once, although a merged object is listed next to the files it replaced.
\<close>

section \<open>Names\<close>

definition LOG_PREFIX :: string where "LOG_PREFIX = ''log/''"

definition LOG_SUFFIX :: string where "LOG_SUFFIX = ''.jsonl''"

definition is_log_file :: "string \<Rightarrow> bool" where
  "is_log_file name = (starts_with LOG_PREFIX name \<and> ends_with LOG_SUFFIX name \<and> CHR ''/'' \<notin> set (drop (length LOG_PREFIX) name))"

type_synonym span = "nat \<times> nat"

definition writer_and_span :: "string \<Rightarrow> string \<times> span" where
  "writer_and_span name =
     (let stem = take (length name - length LOG_PREFIX - length LOG_SUFFIX) (drop (length LOG_PREFIX) name)
      in case partition_char (CHR ''@'') stem of (writer, at_sign, seq) \<Rightarrow>
         (case partition_char (CHR ''-'') seq of (first, dash, last_seq) \<Rightarrow>
            if all_digits first \<and> all_digits last_seq then (writer, (str_nat first, str_nat last_seq))
            else (let n = (if all_digits seq then str_nat seq else 0) in (writer, (n, n)))))"

definition log_writer_and_seq :: "string \<Rightarrow> string \<times> nat" where
  "log_writer_and_seq name = (case writer_and_span name of (writer, span) \<Rightarrow> (writer, snd span))"

definition next_seq :: "(string \<times> 'a) list \<Rightarrow> nat" where
  "next_seq objects = (case map (\<lambda>(name, size). snd (log_writer_and_seq name)) objects of
     [] \<Rightarrow> 0 | n # ns \<Rightarrow> Max (set (n # ns)) + 1)"

definition padded :: "nat \<Rightarrow> string" where
  \<comment> \<open>\<open>f"{n:06d}"\<close>\<close>
  "padded n = replicate (6 - length (nat_str n)) (CHR ''0'') @ nat_str n"

definition log_object_name :: "string \<Rightarrow> nat \<Rightarrow> string" where
  "log_object_name writer seq =
     LOG_PREFIX @ writer @ (if seq = 0 then [] else ''@'' @ padded seq) @ LOG_SUFFIX"

definition compacted_log_name :: "string \<Rightarrow> nat \<Rightarrow> string" where
  "compacted_log_name writer last_seq = LOG_PREFIX @ writer @ ''@'' @ padded 0 @ ''-'' @ padded last_seq @ LOG_SUFFIX"

section \<open>What a reader sees\<close>

definition visible_spans :: "(span \<times> string) list \<Rightarrow> (span \<times> string) list" where
  "visible_spans spans =
     (case filter (\<lambda>s. fst (fst s) < snd (fst s)) spans of
        [] \<Rightarrow> sort spans
      | m # ms \<Rightarrow>
          (let merged = Max (set (m # ms))
           in sort_key (\<lambda>s. snd (fst s))
                (filter (\<lambda>s. s = merged \<or> \<not> (fst (fst merged) \<le> fst (fst s) \<and> fst (fst s) \<le> snd (fst merged))) spans)))"

definition add_span :: "string \<Rightarrow> span \<times> string \<Rightarrow> (string \<times> (span \<times> string) list) list \<Rightarrow> (string \<times> (span \<times> string) list) list" where
  "add_span w s groups = od_put w ((case map_of groups w of None \<Rightarrow> [] | Some ss \<Rightarrow> ss) @ [s]) groups"

definition group_log_names :: "string list \<Rightarrow> (string \<times> string list) list" where
  "group_log_names names =
     map (\<lambda>(w, spans). (w, map snd (visible_spans spans)))
       (fold (\<lambda>name groups. case writer_and_span name of (w, span) \<Rightarrow> add_span w (span, name) groups)
          (filter is_log_file names) [])"

section \<open>Signatures\<close>

type_synonym 'a log_sig = "nat \<times> 'a list"          \<comment> \<open>the size, and the rest\<close>

definition append_identity :: "'a log_sig \<Rightarrow> 'a list option" where
  "append_identity sig = (if length (snd sig) = 3 then Some (tl (snd sig)) else None)"

definition appended :: "'a log_sig \<Rightarrow> 'a log_sig \<Rightarrow> bool" where
  "appended old_sig new_sig = (fst new_sig > fst old_sig \<and> append_identity new_sig = append_identity old_sig)"

section \<open>Names tell writer and segment\<close>

lemma partition_char_at: "c \<notin> set h \<Longrightarrow> partition_char c (h @ c # t) = (h, True, t)"
proof -
  assume "c \<notin> set h"
  then have "takeWhile (\<lambda>x. x \<noteq> c) (h @ c # t) = h" "dropWhile (\<lambda>x. x \<noteq> c) (h @ c # t) = c # t"
    by (induction h) auto
  then show ?thesis by (simp add: partition_char_def)
qed

lemma partition_char_none: "c \<notin> set s \<Longrightarrow> partition_char c s = (s, False, [])"
proof -
  assume "c \<notin> set s"
  then have "dropWhile (\<lambda>x. x \<noteq> c) s = []" by (induction s) auto
  then show ?thesis by (simp only: partition_char_def Let_def list.case)
qed

lemma stem_of_name: "take (length (LOG_PREFIX @ x @ LOG_SUFFIX) - length LOG_PREFIX - length LOG_SUFFIX)
    (drop (length LOG_PREFIX) (LOG_PREFIX @ x @ LOG_SUFFIX)) = x"
  by simp

lemma digit_zero: "is_digit (CHR ''0'')" "digit_val (CHR ''0'') = 0"
  by (simp_all add: is_digit_def digit_val_def)

lemma str_nat_zeros: "str_nat (replicate k (CHR ''0'') @ s) = str_nat s"
  by (induction k) (simp_all add: str_nat_def digit_zero)

lemma padded_number: "str_nat (padded n) = n" "all_digits (padded n)" "CHR ''-'' \<notin> set (padded n)"
proof -
  show "str_nat (padded n) = n" by (simp add: padded_def str_nat_zeros)
  have digits: "\<forall>c \<in> set (padded n). is_digit c"
    using nat_str_digits [of n] digit_zero by (auto simp: padded_def list_all_iff)
  then show "all_digits (padded n)" by (auto simp: all_digits_def list_all_iff padded_def)
  show "CHR ''-'' \<notin> set (padded n)" using digits by (auto simp: is_digit_def)
qed

definition plain_writer :: "string \<Rightarrow> bool" where
  "plain_writer w = (CHR ''@'' \<notin> set w \<and> CHR ''/'' \<notin> set w)"

lemma span_of_object: "plain_writer w \<Longrightarrow> writer_and_span (log_object_name w n) = (w, (n, n))"
proof (cases "n = 0")
  case True
  assume "plain_writer w"
  then show ?thesis unfolding True log_object_name_def writer_and_span_def
    by (simp add: partition_char_none plain_writer_def all_digits_def)
next
  case False
  assume w: "plain_writer w"
  have name: "log_object_name w n = LOG_PREFIX @ (w @ CHR ''@'' # padded n) @ LOG_SUFFIX"
    using False by (simp add: log_object_name_def)
  show ?thesis using w padded_number [of n] unfolding name writer_and_span_def stem_of_name
    by (simp add: partition_char_at partition_char_none plain_writer_def Let_def, simp add: all_digits_def)
qed

lemma span_of_compacted: "plain_writer w \<Longrightarrow> writer_and_span (compacted_log_name w n) = (w, (0, n))"
proof -
  assume w: "plain_writer w"
  have name: "compacted_log_name w n = LOG_PREFIX @ (w @ CHR ''@'' # padded 0 @ CHR ''-'' # padded n) @ LOG_SUFFIX"
    by (simp add: compacted_log_name_def)
  show ?thesis using w unfolding name writer_and_span_def stem_of_name
    by (simp add: partition_char_at padded_number plain_writer_def Let_def)
qed

lemma names_are_log_files: "plain_writer w \<Longrightarrow> is_log_file (log_object_name w n)" "plain_writer w \<Longrightarrow> is_log_file (compacted_log_name w n)"
proof -
  have "CHR ''/'' \<notin> set (padded k)" for k
    using padded_number(2) [of k] by (auto simp: all_digits_def list_all_iff is_digit_def)
  then show "plain_writer w \<Longrightarrow> is_log_file (log_object_name w n)" "plain_writer w \<Longrightarrow> is_log_file (compacted_log_name w n)"
    by (auto simp: is_log_file_def log_object_name_def compacted_log_name_def plain_writer_def ends_with_iff LOG_PREFIX_def
        LOG_SUFFIX_def)
qed

section \<open>Every segment once\<close>

definition covers :: "span \<Rightarrow> nat \<Rightarrow> bool" where
  "covers s n = (fst s \<le> n \<and> n \<le> snd s)"

definition stored_span :: "span \<Rightarrow> bool" where
  \<comment> \<open>a segment, or what was merged from the first on\<close>
  "stored_span s = (fst s = snd s \<or> fst s = 0)"

lemma sorted_strictly:
  assumes "distinct ys" "\<And>s t. s \<in> set ys \<Longrightarrow> t \<in> set ys \<Longrightarrow> s \<noteq> t \<Longrightarrow> f s \<le> f t \<Longrightarrow> P s t"
  shows "sorted_wrt P (sort_key (f :: 'b \<Rightarrow> 'c :: linorder) ys)"
  unfolding sorted_wrt_iff_nth_less
proof (intro allI impI)
  fix i j assume ij: "i < j" "j < length (sort_key f ys)"
  have "sorted (map f (sort_key f ys))" by simp
  then have "f (sort_key f ys ! i) \<le> f (sort_key f ys ! j)" using ij by (simp add: sorted_iff_nth_mono)
  moreover have "distinct (sort_key f ys)" using assms(1) by simp
  then have "sort_key f ys ! i \<noteq> sort_key f ys ! j" using ij by (simp add: nth_eq_iff_index_eq)
  moreover have "sort_key f ys ! i \<in> set ys" "sort_key f ys ! j \<in> set ys"
    using ij nth_mem [of i "sort_key f ys"] nth_mem [of j "sort_key f ys"] by simp_all
  ultimately show "P (sort_key f ys ! i) (sort_key f ys ! j)" using assms(2) by blast
qed

definition spans_once :: "(span \<times> string) list \<Rightarrow> (span \<times> string) list \<Rightarrow> bool" where
  \<comment> \<open>ascending and disjoint, and together holding what all the spans hold\<close>
  "spans_once shown spans =
     (sorted_wrt (\<lambda>s t. snd (fst s) < fst (fst t)) shown
      \<and> (\<forall>n. (\<exists>s \<in> set shown. covers (fst s) n) \<longleftrightarrow> (\<exists>s \<in> set spans. covers (fst s) n)))"

lemma distinct_spans:
  assumes "distinct (map fst spans)"
  shows "distinct spans" "\<And>s t. s \<in> set spans \<Longrightarrow> t \<in> set spans \<Longrightarrow> s \<noteq> t \<Longrightarrow> fst s \<noteq> fst t"
  using assms by (auto simp: distinct_map inj_on_def)

lemma unmerged_spans_once:
  assumes stored: "\<forall>s \<in> set spans. stored_span (fst s)" and "distinct (map fst spans)"
    and Nil: "filter (\<lambda>s. fst (fst s) < snd (fst s)) spans = []"
  shows "spans_once (visible_spans spans) spans"
proof -
  note dist = distinct_spans [OF assms(2)]
  have single: "fst (fst s) = snd (fst s)" if "s \<in> set spans" for s
    using that Nil stored by (force simp: filter_empty_conv stored_span_def)
  have vis: "visible_spans spans = sort_key (\<lambda>s. s) spans" by (simp add: visible_spans_def Nil)
  have "sorted_wrt (\<lambda>s t. snd (fst s) < fst (fst t)) (sort_key (\<lambda>s. s) spans)"
  proof (rule sorted_strictly [OF dist(1)])
    fix s t assume st: "s \<in> set spans" "t \<in> set spans" "s \<noteq> t" "s \<le> t"
    then have "fst s \<noteq> fst t" using dist(2) by blast
    moreover have "fst s \<le> fst t" using st(4) by (auto simp only: less_eq_prod_def less_le)
    ultimately have "fst s \<le> fst t \<and> fst s \<noteq> fst t" by simp
    then show "snd (fst s) < fst (fst t)" using single [OF st(1)] single [OF st(2)]
      by (cases "fst s"; cases "fst t") (auto simp: less_eq_prod_def)
  qed
  then show ?thesis by (simp add: spans_once_def vis)
qed

lemma merged_spans_once:
  assumes stored: "\<forall>s \<in> set spans. stored_span (fst s)" and "distinct (map fst spans)"
    and Cons: "filter (\<lambda>s. fst (fst s) < snd (fst s)) spans = m # ms"
  shows "spans_once (visible_spans spans) spans"
proof -
  note dist = distinct_spans [OF assms(2)]
  define M where "M = Max (set (m # ms))"
  have merged: "set (m # ms) = {s \<in> set spans. fst (fst s) < snd (fst s)}" using arg_cong [OF Cons, of set] by auto
  have "M \<in> set (m # ms)" unfolding M_def by (rule Max_in) auto
  then have "M \<in> {s \<in> set spans. fst (fst s) < snd (fst s)}" unfolding merged .
  then have M: "M \<in> set spans" "fst (fst M) = 0" "0 < snd (fst M)"
    using stored by (auto simp: stored_span_def)
  have greatest: "snd (fst s) \<le> snd (fst M)" if "s \<in> set spans" "fst (fst s) < snd (fst s)" for s
  proof -
    have "s \<le> M" unfolding M_def using that merged by (intro Max_ge) auto
    moreover have "fst (fst s) = 0" using that stored by (auto simp: stored_span_def)
    ultimately show ?thesis using M(2) by (cases s; cases M) (auto simp: less_eq_prod_def less_prod_def)
  qed
  define kept where "kept = filter (\<lambda>s. s = M \<or> \<not> (fst (fst M) \<le> fst (fst s) \<and> fst (fst s) \<le> snd (fst M))) spans"
  have vis: "visible_spans spans = sort_key (\<lambda>s. snd (fst s)) kept"
    by (simp add: visible_spans_def Cons M_def kept_def Let_def)
  have late: "fst (fst s) = snd (fst s)" "snd (fst M) < fst (fst s)" if "s \<in> set kept" "s \<noteq> M" for s
  proof -
    show "snd (fst M) < fst (fst s)" using that M(2) by (auto simp: kept_def)
    then show "fst (fst s) = snd (fst s)" using that stored M(3) by (auto simp: kept_def stored_span_def)
  qed
  have "sorted_wrt (\<lambda>s t. snd (fst s) < fst (fst t)) (sort_key (\<lambda>s. snd (fst s)) kept)"
  proof (rule sorted_strictly)
    show "distinct kept" using dist(1) by (simp add: kept_def)
    fix s t assume st: "s \<in> set kept" "t \<in> set kept" "s \<noteq> t" "snd (fst s) \<le> snd (fst t)"
    have "fst s \<noteq> fst t" using st dist(2) by (auto simp: kept_def)
    then show "snd (fst s) < fst (fst t)" using st late [of s] late [of t]
      by (cases "s = M"; cases "t = M"; cases "fst s"; cases "fst t") auto
  qed
  moreover have "(\<exists>s \<in> set kept. covers (fst s) n) \<longleftrightarrow> (\<exists>s \<in> set spans. covers (fst s) n)" for n
  proof
    assume "\<exists>s \<in> set spans. covers (fst s) n"
    then obtain s where s: "s \<in> set spans" "covers (fst s) n" by blast
    show "\<exists>s \<in> set kept. covers (fst s) n"
    proof (cases "n \<le> snd (fst M)")
      case True
      then show ?thesis using M by (intro bexI [of _ M]) (auto simp: covers_def kept_def)
    next
      case False
      then have "fst (fst s) = snd (fst s)"
        using s greatest [of s] stored by (force simp: covers_def stored_span_def)
      then show ?thesis using s False by (intro bexI [of _ s]) (auto simp: covers_def kept_def)
    qed
  next
    have "set kept \<subseteq> set spans" by (auto simp: kept_def)
    then show "\<exists>s \<in> set kept. covers (fst s) n \<Longrightarrow> \<exists>s \<in> set spans. covers (fst s) n" by blast
  qed
  ultimately show ?thesis by (simp add: spans_once_def vis)
qed

text \<open>
  Among the files listed for a writer, whatever merged objects lie next to the segments they
  replaced, the visible ones come in ascending order, no two of them hold the same segment, and every
  segment that some listed file holds is in a visible one.
\<close>

theorem visible_spans_once:
  assumes "\<forall>s \<in> set spans. stored_span (fst s)" "distinct (map fst spans)"
  shows "sorted_wrt (\<lambda>s t. snd (fst s) < fst (fst t)) (visible_spans spans)
    \<and> (\<forall>n. (\<exists>s \<in> set (visible_spans spans). covers (fst s) n) \<longleftrightarrow> (\<exists>s \<in> set spans. covers (fst s) n))"
proof (cases "filter (\<lambda>s. fst (fst s) < snd (fst s)) spans")
  case Nil
  then show ?thesis using unmerged_spans_once [OF assms] by (simp add: spans_once_def)
next
  case (Cons m ms)
  then show ?thesis using merged_spans_once [OF assms Cons] by (simp add: spans_once_def)
qed

definition demo_spans :: "(span \<times> string) list" where
  "demo_spans = map (\<lambda>name. (snd (writer_and_span name), name))
     [log_object_name ''w'' 0, log_object_name ''w'' 1, compacted_log_name ''w'' 1, log_object_name ''w'' 3, log_object_name ''w'' 2]"

lemma demo_spans_value:
  "map fst demo_spans = [(0, 0), (1, 1), (0, 1), (3, 3), (2, 2)]"
proof -
  have "plain_writer ''w''" by (simp add: plain_writer_def)
  then show ?thesis by (simp add: demo_spans_def span_of_object span_of_compacted)
qed

theorem visible_spans_once_witness:
  "sorted_wrt (\<lambda>s t. snd (fst s) < fst (fst t)) (visible_spans demo_spans) \<and> (\<exists>s \<in> set (visible_spans demo_spans). covers (fst s) 3)"
proof -
  have stored: "\<forall>s \<in> set demo_spans. stored_span (fst s)"
  proof
    fix s assume "s \<in> set demo_spans"
    then have "fst s \<in> set (map fst demo_spans)" by simp
    then show "stored_span (fst s)" by (auto simp: demo_spans_value stored_span_def)
  qed
  have "distinct (map fst demo_spans)" by (simp add: demo_spans_value)
  note once = visible_spans_once [OF stored this]
  have "(3, 3) \<in> set (map fst demo_spans)" by (simp add: demo_spans_value)
  then have "\<exists>s \<in> set demo_spans. covers (fst s) 3" by (force simp: covers_def)
  then show ?thesis using once by blast
qed

end
