(* ===== verification/Log_Index.thy ===== *)
theory Log_Index
imports Log_Arrival Jsonl_Tail Log_Files "HOL-Library.Sublist"
begin

text \<open>
  Keeping a run's fold current with its log files, from core/index_logs.py: what only grew is read
  from where the last read stopped, anything else is folded from scratch. The store's reads, its own
  listing of a record's logs and the JSON scanner are parameters; metric streams, which have their own
  objects, are left out.
\<close>

section \<open>The record of a run\<close>

record 'a log_record =
  rec_fold :: "sort_key log_fold"
  rec_counts :: "string \<Rightarrow> nat"                         \<comment> \<open>entries of a writer folded so far\<close>
  rec_logs :: "(string \<times> 'a log_sig \<times> nat) list"       \<comment> \<open>by file: its signature, and what was consumed\<close>

record reader =
  rd_ops :: text_ops
  rd_scan :: scanner
  rd_read :: "string \<Rightarrow> nat \<Rightarrow> string option"           \<comment> \<open>\<open>read_file_from\<close>\<close>
  rd_load :: "(string \<times> sv list) list"                 \<comment> \<open>\<open>load_logs_by_writer\<close>, its own listing\<close>

definition sig_of :: "'a log_record \<Rightarrow> string \<Rightarrow> 'a log_sig option" where
  "sig_of r name = map_option fst (map_of (rec_logs r) name)"

definition consumed_of :: "'a log_record \<Rightarrow> string \<Rightarrow> nat" where
  "consumed_of r name = (case map_of (rec_logs r) name of None \<Rightarrow> 0 | Some (sig, n) \<Rightarrow> n)"

fun only_grown :: "(string \<Rightarrow> 'a log_sig option) \<Rightarrow> (string \<Rightarrow> 'a log_sig option) \<Rightarrow> bool \<Rightarrow> string list \<Rightarrow> bool" where
  "only_grown old new grown [] = True"
| "only_grown old new grown (name # names) =
     (if old name = None \<or> old name \<noteq> new name then
        (case (old name, new name) of
           (Some s, Some t) \<Rightarrow> appended s t \<and> only_grown old new True names
         | _ \<Rightarrow> only_grown old new True names)
      else \<not> grown \<and> only_grown old new grown names)"

definition appends_only :: "'a log_record \<Rightarrow> (string \<times> 'a log_sig) list \<Rightarrow> bool" where
  "appends_only r sigs =
     (list_all (\<lambda>(name, s). map_of sigs name \<noteq> None) (rec_logs r)
      \<and> list_all (\<lambda>(w, names). only_grown (sig_of r) (map_of sigs) False names) (group_log_names (map fst sigs)))"

definition writer_of :: "string \<Rightarrow> string" where
  "writer_of name = fst (log_writer_and_seq name)"

definition take_lines :: "reader \<Rightarrow> string \<Rightarrow> log_entry list \<Rightarrow> nat \<Rightarrow> 'a log_record \<Rightarrow> 'a log_record" where
  "take_lines rd name es used r =
     (let w = writer_of name
      in r\<lparr>rec_fold := apply_entries (rd_ops rd) (rec_fold r) w (rec_counts r w) (map SMap es),
           rec_counts := (rec_counts r)(w := rec_counts r w + length es),
           rec_logs := (case map_of (rec_logs r) name of None \<Rightarrow> rec_logs r
                        | Some (sig, n) \<Rightarrow> od_put name (sig, n + used) (rec_logs r))\<rparr>)"

fun read_tails :: "reader \<Rightarrow> string list \<Rightarrow> 'a log_record \<Rightarrow> bool \<times> 'a log_record" where
  \<comment> \<open>false if a file vanished\<close>
  "read_tails rd [] r = (True, r)"
| "read_tails rd (name # names) r =
     (case rd_read rd name (consumed_of r name) of
        None \<Rightarrow> (False, r)
      | Some data \<Rightarrow>
          (case complete_lines (rd_scan rd) True data of
             Lines es used \<Rightarrow> read_tails rd names (take_lines rd name es used r)
           | Unterminated_Entry \<Rightarrow> (False, r)))"

definition all_names :: "(string \<times> 'b) list \<Rightarrow> string list" where
  "all_names sigs = concat (map snd (group_log_names (map fst sigs)))"

definition log_signatures :: "(string \<times> 'a log_sig) list \<Rightarrow> (string \<times> 'a log_sig) list" where
  \<comment> \<open>of the log files\<close>
  "log_signatures listed = filter (\<lambda>(name, s). name \<in> set (all_names listed)) listed"

definition refold_direct :: "reader \<Rightarrow> (float_val \<times> sort_key) list \<Rightarrow> (string \<times> 'a log_sig) list \<Rightarrow> bool \<times> 'a log_record" where
  "refold_direct rd rewinds sigs =
     read_tails rd (all_names sigs)
       \<lparr>rec_fold = new_fold rewinds, rec_counts = (\<lambda>_. 0),
        rec_logs = map (\<lambda>name. (name, the (map_of sigs name), 0)) (all_names sigs)\<rparr>"

definition note_sig :: "(string \<times> 'a log_sig) list \<Rightarrow> string \<Rightarrow> (string \<times> 'a log_sig \<times> nat) list \<Rightarrow> (string \<times> 'a log_sig \<times> nat) list" where
  "note_sig sigs name logs =
     od_put name (the (map_of sigs name), case map_of logs name of None \<Rightarrow> 0 | Some (sig, n) \<Rightarrow> n) logs"

definition changed_names :: "'a log_record \<Rightarrow> (string \<times> 'a log_sig) list \<Rightarrow> string list" where
  "changed_names r sigs = filter (\<lambda>name. sig_of r name \<noteq> map_of sigs name) (all_names sigs)"

definition refold_merged :: "reader \<Rightarrow> (string \<times> 'a log_sig) list \<Rightarrow> (float_val \<times> sort_key) list \<Rightarrow> 'a log_record" where
  "refold_merged rd sigs rewinds =
     \<lparr>rec_fold = fold (\<lambda>(w, es) f. apply_entries (rd_ops rd) f w 0 es) (sort_key fst (rd_load rd)) (new_fold rewinds),
      rec_counts = (\<lambda>_. 0),
      rec_logs = map (\<lambda>(name, s). (name, s, fst s)) sigs\<rparr>"

definition refold :: "reader \<Rightarrow> (string \<times> 'a log_sig) list \<Rightarrow> (float_val \<times> sort_key) list \<Rightarrow> 'a log_record" where
  "refold rd sigs rewinds =
     (case refold_direct rd rewinds sigs of (ok, r) \<Rightarrow> if ok then r else refold_merged rd sigs rewinds)"

definition refold_relisted :: "reader \<Rightarrow> (string \<times> 'a log_sig) list \<Rightarrow> 'a log_record" where
  "refold_relisted rd sigs =
     (let r = refold_merged rd sigs []
      in if needs_refold (rec_fold r) then refold_merged rd sigs (fd_rewinds (rec_fold r)) else r)"

definition update_logs :: "reader \<Rightarrow> (string \<times> 'a log_sig) list \<Rightarrow> 'a log_record \<Rightarrow> bool \<times> 'a log_record" where
  "update_logs rd sigs r =
     (if set (map (\<lambda>(name, s, n). (name, s)) (rec_logs r)) = set sigs then (False, r)
      else if appends_only r sigs then
        (let names = changed_names r sigs
         in case read_tails rd names (r\<lparr>rec_logs := fold (note_sig sigs) names (rec_logs r)\<rparr>) of (ok, r') \<Rightarrow>
              (True, if ok then r' else refold_relisted rd sigs))
      else (True, refold rd sigs []))"

definition update_folds :: "reader \<Rightarrow> (string \<times> 'a log_sig) list \<Rightarrow> 'a log_record \<Rightarrow> 'a log_record" where
  "update_folds rd sigs r =
     (case update_logs rd sigs r of (changed, r') \<Rightarrow>
        if changed \<and> needs_refold (rec_fold r') then refold rd sigs (fd_rewinds (rec_fold r')) else r')"

section \<open>What a record has read\<close>

lemma received_append: "received (a @ b) w = received a w @ received b w"
  by (induction a w rule: received.induct) auto

lemma in_order_append:
  "in_order pos (arr @ [(w, p, vs)]) \<longleftrightarrow> in_order pos arr \<and> p = pos w + length (received arr w)"
proof (induction pos arr rule: in_order.induct)
  case (2 pos writer q vsa arr)
  show ?case
  proof (cases "q = pos writer")
    case True
    then show ?thesis using 2 by (cases "writer = w") (auto simp del: fun_upd_apply simp: fun_upd_same fun_upd_other)
  qed simp
qed simp

definition holds :: "reader \<Rightarrow> (float_val \<times> sort_key) list \<Rightarrow> (string \<Rightarrow> sv list) \<Rightarrow> 'a log_record \<Rightarrow> bool" where
  \<comment> \<open>the record is the fold of chunks that deliver these entries of each writer\<close>
  "holds rd rw got r =
     (\<exists>arr. rec_fold r = fold_arrivals (rd_ops rd) (new_fold rw) arr \<and> in_order (\<lambda>_. 0) arr
        \<and> received arr = got \<and> rec_counts r = (\<lambda>w. length (got w)))"

lemma holds_new: "holds rd rw (\<lambda>_. []) \<lparr>rec_fold = new_fold rw, rec_counts = (\<lambda>_. 0), rec_logs = l\<rparr>"
  unfolding holds_def by (rule exI [of _ "[]"]) (auto simp: fold_arrivals_def fun_eq_iff)

lemma holds_take_lines:
  assumes "holds rd rw got r"
  shows "holds rd rw (got(writer_of name := got (writer_of name) @ map SMap es)) (take_lines rd name es used r)"
proof -
  obtain arr where arr: "rec_fold r = fold_arrivals (rd_ops rd) (new_fold rw) arr" "in_order (\<lambda>_. 0) arr" "received arr = got"
    "rec_counts r = (\<lambda>w. length (got w))"
    using assms by (auto simp: holds_def)
  define arr' where "arr' = arr @ [(writer_of name, length (got (writer_of name)), map SMap es)]"
  have "rec_fold (take_lines rd name es used r) = fold_arrivals (rd_ops rd) (new_fold rw) arr'"
    using arr(1,4) by (simp add: take_lines_def Let_def arr'_def fold_arrivals_def)
  moreover have "in_order (\<lambda>_. 0) arr'" using arr(2,3) by (simp add: arr'_def in_order_append)
  moreover have "received arr' = got(writer_of name := got (writer_of name) @ map SMap es)"
    using arr(3) by (auto simp: arr'_def received_append fun_eq_iff)
  moreover have "rec_counts (take_lines rd name es used r)
      = (\<lambda>w. length ((got(writer_of name := got (writer_of name) @ map SMap es)) w))"
    using arr(4) by (auto simp: take_lines_def Let_def fun_eq_iff)
  ultimately show ?thesis unfolding holds_def by blast
qed

lemma consumed_take_lines:
  "consumed_of (take_lines rd name es used r) other
    = (if other = name \<and> map_of (rec_logs r) name \<noteq> None then consumed_of r name + used else consumed_of r other)"
  by (auto simp: consumed_of_def take_lines_def Let_def split: option.split)

lemma names_take_lines: "(map_of (rec_logs (take_lines rd name es used r)) other = None) = (map_of (rec_logs r) other = None)"
  "sig_of (take_lines rd name es used r) = sig_of r"
  by (auto simp: take_lines_def Let_def sig_of_def fun_eq_iff split: option.split)

section \<open>The files of a listing\<close>

definition files_of :: "(string \<times> 'b) list \<Rightarrow> string \<Rightarrow> string list" where
  "files_of sigs w = (case map_of (group_log_names (map fst sigs)) w of None \<Rightarrow> [] | Some names \<Rightarrow> names)"

lemma visible_among: "mset (visible_spans spans) \<subseteq># mset spans"
  by (auto simp: visible_spans_def Let_def split: list.split)

lemma distinct_map_sort: "distinct (map g (sort_key f xs)) = distinct (map g xs)"
  by (rule mset_eq_imp_distinct_iff) simp

lemma visible_distinct: "distinct (map snd ss) \<Longrightarrow> distinct (map snd (visible_spans ss))"
  by (auto simp: visible_spans_def Let_def distinct_map_sort distinct_map_filter split: list.split)

lemma grouped_spans:
  assumes "distinct names"
  shows "distinct (map fst (fold (\<lambda>name groups. case writer_and_span name of (w, sp) \<Rightarrow> add_span w (sp, name) groups) names []))
    \<and> (\<forall>w ss. map_of (fold (\<lambda>name groups. case writer_and_span name of (w, sp) \<Rightarrow> add_span w (sp, name) groups) names []) w = Some ss
        \<longrightarrow> distinct (map snd ss) \<and> (\<forall>(sp, name) \<in> set ss. writer_and_span name = (w, sp) \<and> name \<in> set names))"
  using assms
proof (induction names rule: rev_induct)
  case (snoc name names)
  obtain w sp where ws: "writer_and_span name = (w, sp)" by (cases "writer_and_span name")
  show ?case using snoc
    by (auto simp: ws add_span_def distinct_od_put split: option.split if_splits) fastforce+
qed simp

lemma files_of_group:
  assumes "distinct (map fst sigs)" "map_of (group_log_names (map fst sigs)) w = Some names"
  shows "distinct names" "set names \<subseteq> fst ` set sigs" "\<forall>name \<in> set names. writer_of name = w"
proof -
  let ?raw = "fold (\<lambda>name groups. case writer_and_span name of (w, sp) \<Rightarrow> add_span w (sp, name) groups)
    (filter is_log_file (map fst sigs)) []"
  obtain ss where ss: "map_of ?raw w = Some ss" "names = map snd (visible_spans ss)"
    using assms(2) by (auto simp: group_log_names_def map_of_map)
  note grouped = grouped_spans [of "filter is_log_file (map fst sigs)"]
  have ok: "distinct (map snd ss)" "\<forall>(sp, name) \<in> set ss. writer_and_span name = (w, sp) \<and> name \<in> fst ` set sigs"
    using grouped assms(1) ss(1) by (fastforce simp: distinct_filter)+
  have sub: "set (visible_spans ss) \<subseteq> set ss" using visible_among [of ss] by (auto dest: mset_subset_eqD)
  show "distinct names" unfolding ss(2) using ok(1) by (rule visible_distinct)
  show "set names \<subseteq> fst ` set sigs" "\<forall>name \<in> set names. writer_of name = w"
    using ok(2) sub by (fastforce simp: ss(2) writer_of_def log_writer_and_seq_def)+
qed

section \<open>Reading tails\<close>

definition read_entries :: "scanner \<Rightarrow> (string \<Rightarrow> string) \<Rightarrow> (string \<Rightarrow> nat) \<Rightarrow> string list \<Rightarrow> sv list" where
  "read_entries scan c n names = map SMap (concat (map (\<lambda>x. entries_in scan (take (n x) (c x))) names))"

definition current :: "reader \<Rightarrow> (float_val \<times> sort_key) list \<Rightarrow> (string \<Rightarrow> string list) \<Rightarrow> (string \<Rightarrow> string) \<Rightarrow> (string \<Rightarrow> nat)
    \<Rightarrow> 'a log_record \<Rightarrow> bool" where
  \<comment> \<open>the record has read \<open>n x\<close> bytes of each file \<open>x\<close>, whose content is \<open>c x\<close>\<close>
  "current rd rw files c n r =
     (holds rd rw (\<lambda>w. read_entries (rd_scan rd) c n (files w)) r
      \<and> (\<forall>x. caught_up (rd_scan rd) (c x) (n x) (entries_in (rd_scan rd) (take (n x) (c x)), consumed_of r x)))"

definition readable :: "reader \<Rightarrow> (string \<Rightarrow> string) \<Rightarrow> (string \<Rightarrow> nat) \<Rightarrow> string \<Rightarrow> bool" where
  "readable rd c m x = (m x \<le> length (c x) \<and> grows_by_lines (rd_scan rd) (c x)
     \<and> (\<forall>off. rd_read rd x off = Some (drop off (take (m x) (c x)))))"

definition before :: "string list \<Rightarrow> string \<Rightarrow> string \<Rightarrow> bool" where
  "before names x y = (\<exists>a b. names = a @ x # b \<and> y \<in> set b)"

definition by_writer :: "(string \<Rightarrow> string list) \<Rightarrow> bool" where
  "by_writer files = (\<forall>w. distinct (files w) \<and> (\<forall>x \<in> set (files w). writer_of x = w))"

lemma entries_in_Nil: "entries_in scan [] = []"
  by (simp add: entries_in_def after_last_break_def parse_lines_def List.map_filter_simps parse_blank)

lemma read_entries_same: "x \<notin> set names \<Longrightarrow> read_entries scan c (n(x := k)) names = read_entries scan c n names"
  by (auto simp: read_entries_def intro!: arg_cong [where f = "\<lambda>l. map SMap (concat l)"] map_cong)

lemma read_entries_split:
  "read_entries scan c n (a @ x # b) = read_entries scan c n a @ map SMap (entries_in scan (take (n x) (c x))) @ read_entries scan c n b"
  by (simp add: read_entries_def)

lemma read_entries_unread: "\<forall>y \<in> set names. n y = 0 \<Longrightarrow> read_entries scan c n names = []"
  by (simp add: read_entries_def entries_in_Nil)

lemma read_entries_extend:
  assumes "names = a @ x # b" "distinct names" "\<forall>y \<in> set b. n y = 0"
    and "entries_in scan (take k (c x)) = entries_in scan (take (n x) (c x)) @ es"
  shows "read_entries scan c (n(x := k)) names = read_entries scan c n names @ map SMap es"
  using assms(2-4) unfolding assms(1) read_entries_split by (simp add: read_entries_same read_entries_unread)

lemma current_take_lines:
  assumes cur: "current rd rw files c n r" and x: "map_of (rec_logs r) x \<noteq> None" "readable rd c m x" "n x \<le> m x"
    and files: "by_writer files" "x \<in> set (files (writer_of x))" "\<forall>y. before (files (writer_of x)) x y \<longrightarrow> n y = 0"
  defines "d \<equiv> drop (consumed_of r x) (take (m x) (c x))"
  shows "current rd rw files c (n(x := m x)) (take_lines rd x (entries_in (rd_scan rd) d) (used_of (rd_scan rd) d) r)"
    and "\<forall>w. prefix (read_entries (rd_scan rd) c n (files w)) (read_entries (rd_scan rd) c (n(x := m x)) (files w))"
proof -
  let ?scan = "rd_scan rd"
  have up: "caught_up ?scan (c y) (n y) (entries_in ?scan (take (n y) (c y)), consumed_of r y)" for y
    using cur by (simp add: current_def)
  have "caught_up ?scan (c x) (m x) (read_step ?scan (c x) (m x) (entries_in ?scan (take (n x) (c x)), consumed_of r x))"
    using x(2,3) by (intro read_step_catches_up [OF _ up]) (auto simp: readable_def)
  then have up': "caught_up ?scan (c x) (m x) (entries_in ?scan (take (n x) (c x)) @ entries_in ?scan d, consumed_of r x + used_of ?scan d)"
    by (simp add: read_step_def complete_lines_parts d_def)
  then have new: "entries_in ?scan (take (m x) (c x)) = entries_in ?scan (take (n x) (c x)) @ entries_in ?scan d"
    by (simp add: caught_up_def)
  obtain a b where ab: "files (writer_of x) = a @ x # b" using files(2) by (meson split_list)
  have ents: "read_entries ?scan c (n(x := m x)) (files w) =
    ((\<lambda>w. read_entries ?scan c n (files w))(writer_of x := read_entries ?scan c n (files (writer_of x)) @ map SMap (entries_in ?scan d))) w" for w
  proof (cases "w = writer_of x")
    case True
    have "distinct (files (writer_of x))" using files(1) by (simp add: by_writer_def)
    moreover have "\<forall>y \<in> set b. n y = 0" using files(3) ab unfolding before_def by blast
    ultimately have tail: "distinct (files (writer_of x))" "\<forall>y \<in> set b. n y = 0" by simp_all
    from read_entries_extend [OF ab tail, of ?scan "m x" c, OF new] show ?thesis by (simp add: True)
  next
    case False
    then have "x \<notin> set (files w)" using files(1) by (auto simp: by_writer_def)
    then show ?thesis using False by (simp add: read_entries_same)
  qed
  show "\<forall>w. prefix (read_entries ?scan c n (files w)) (read_entries ?scan c (n(x := m x)) (files w))"
    unfolding ents by simp
  have "holds rd rw (\<lambda>w. read_entries ?scan c (n(x := m x)) (files w)) (take_lines rd x (entries_in ?scan d) (used_of ?scan d) r)"
    using holds_take_lines [of rd rw "\<lambda>w. read_entries ?scan c n (files w)" r x "entries_in ?scan d" "used_of ?scan d"] cur ents
    by (simp add: current_def fun_upd_def)
  moreover have "caught_up ?scan (c y) ((n(x := m x)) y) (entries_in ?scan (take ((n(x := m x)) y) (c y)),
      consumed_of (take_lines rd x (entries_in ?scan d) (used_of ?scan d) r) y)" for y
    using up [of y] up' new x(1) by (cases "y = x") (simp_all add: consumed_take_lines)
  ultimately show "current rd rw files c (n(x := m x)) (take_lines rd x (entries_in ?scan d) (used_of ?scan d) r)"
    by (simp add: current_def)
qed

lemma read_tails_current:
  assumes "current rd rw files c n r" "by_writer files" "distinct names"
    and "sorted_wrt (\<lambda>x y. \<not> before (files (writer_of y)) y x) names"
    and "\<forall>x \<in> set names. map_of (rec_logs r) x \<noteq> None \<and> readable rd c m x \<and> n x \<le> m x \<and> x \<in> set (files (writer_of x))
          \<and> (\<forall>y. before (files (writer_of x)) x y \<longrightarrow> n y = 0)"
  shows "\<exists>r'. read_tails rd names r = (True, r') \<and> sig_of r' = sig_of r
      \<and> current rd rw files c (\<lambda>x. if x \<in> set names then m x else n x) r'
      \<and> (\<forall>w. prefix (read_entries (rd_scan rd) c n (files w))
             (read_entries (rd_scan rd) c (\<lambda>x. if x \<in> set names then m x else n x) (files w)))"
  using assms(1,3-)
proof (induction names arbitrary: n r)
  case Nil
  then show ?case by simp
next
  case (Cons x names)
  define d where "d = drop (consumed_of r x) (take (m x) (c x))"
  define r1 where "r1 = take_lines rd x (entries_in (rd_scan rd) d) (used_of (rd_scan rd) d) r"
  have read: "read_tails rd (x # names) r = read_tails rd names r1"
    using Cons.prems(4) by (simp add: readable_def complete_lines_parts d_def r1_def)
  have x: "map_of (rec_logs r) x \<noteq> None" "readable rd c m x" "n x \<le> m x" "x \<in> set (files (writer_of x))"
      "\<forall>y. before (files (writer_of x)) x y \<longrightarrow> n y = 0"
    using Cons.prems(4) unfolding list.set by blast+
  have cur: "current rd rw files c (n(x := m x)) r1"
    and grown: "\<forall>w. prefix (read_entries (rd_scan rd) c n (files w)) (read_entries (rd_scan rd) c (n(x := m x)) (files w))"
    unfolding r1_def d_def by (rule current_take_lines [OF Cons.prems(1) x(1-3) assms(2) x(4,5)])+
  have ready: "\<forall>y \<in> set names. map_of (rec_logs r1) y \<noteq> None \<and> readable rd c m y \<and> (n(x := m x)) y \<le> m y
      \<and> y \<in> set (files (writer_of y)) \<and> (\<forall>z. before (files (writer_of y)) y z \<longrightarrow> (n(x := m x)) z = 0)"
    using Cons.prems(2,3,4) by (auto simp: r1_def names_take_lines)
  have read_on: "(\<lambda>y. if y \<in> set names then m y else (n(x := m x)) y) = (\<lambda>y. if y \<in> set (x # names) then m y else n y)"
    by (auto simp: fun_eq_iff)
  have "distinct names" "sorted_wrt (\<lambda>x y. \<not> before (files (writer_of y)) y x) names"
    using Cons.prems(2,3) by simp_all
  from Cons.IH [OF cur this ready, unfolded read_on] obtain r' where r': "read_tails rd names r1 = (True, r')"
      "sig_of r' = sig_of r1" "current rd rw files c (\<lambda>y. if y \<in> set (x # names) then m y else n y) r'"
    and later: "\<forall>w. prefix (read_entries (rd_scan rd) c (n(x := m x)) (files w))
      (read_entries (rd_scan rd) c (\<lambda>y. if y \<in> set (x # names) then m y else n y) (files w))" by blast
  have "\<forall>w. prefix (read_entries (rd_scan rd) c n (files w))
      (read_entries (rd_scan rd) c (\<lambda>y. if y \<in> set (x # names) then m y else n y) (files w))"
    using grown later prefix_order.trans by blast
  moreover have "sig_of r1 = sig_of r" by (simp add: r1_def names_take_lines)
  ultimately show ?case using r' unfolding read by simp
qed

section \<open>Files in listing order\<close>

lemma keys_kept: "map fst (map (\<lambda>(w, x). (w, f x)) xs) = map fst xs"
  by (induction xs) auto

lemma od_wf_groups: "distinct names \<Longrightarrow> distinct (map fst (group_log_names names))"
proof -
  assume "distinct names"
  then have "distinct (filter is_log_file names)" by (rule distinct_filter)
  note grouped = grouped_spans [OF this, THEN conjunct1]
  show ?thesis unfolding group_log_names_def by (subst keys_kept) (rule grouped)
qed

lemma by_writer_listing: "distinct (map fst sigs) \<Longrightarrow> by_writer (files_of sigs)"
  unfolding by_writer_def
proof (intro allI)
  fix w assume "distinct (map fst sigs)"
  note group = files_of_group [OF this, of w]
  show "distinct (files_of sigs w) \<and> (\<forall>x \<in> set (files_of sigs w). writer_of x = w)"
  proof (cases "map_of (group_log_names (map fst sigs)) w")
    case (Some names)
    then show ?thesis using group [OF Some] by (simp add: files_of_def)
  qed (simp add: files_of_def)
qed

lemma listed_in_order:
  assumes "distinct (map fst gs)" "\<And>w names. (w, names) \<in> set gs \<Longrightarrow> distinct names \<and> (\<forall>x \<in> set names. writer_of x = w \<and> files w = names)"
  shows "distinct (concat (map snd gs)) \<and> sorted_wrt (\<lambda>x y. \<not> before (files (writer_of y)) y x) (concat (map snd gs))"
  using assms
proof (induction gs)
  case (Cons g gs)
  obtain w names where g: "g = (w, names)" by (cases g)
  have rest: "distinct (concat (map snd gs)) \<and> sorted_wrt (\<lambda>x y. \<not> before (files (writer_of y)) y x) (concat (map snd gs))"
    using Cons.prems by (intro Cons.IH) auto
  have own: "distinct names" "\<forall>x \<in> set names. writer_of x = w \<and> files w = names"
    using Cons.prems(2) [of w names] by (simp_all add: g)
  have others: "writer_of y \<noteq> w \<and> set (files (writer_of y)) \<inter> set names = {}" if y: "y \<in> set (concat (map snd gs))" for y
  proof -
    obtain v l where v: "(v, l) \<in> set gs" "y \<in> set l" using y by auto
    then have "writer_of y = v" "files v = l" "v \<noteq> w" "\<forall>x \<in> set l. writer_of x = v"
      using Cons.prems by (force simp: g)+
    then show ?thesis using own(2) by auto
  qed
  have "sorted_wrt (\<lambda>x y. \<not> before (files (writer_of y)) y x) names"
    unfolding sorted_wrt_iff_nth_less
  proof (intro allI impI notI)
    fix i j assume ij: "i < j" "j < length names" "before (files (writer_of (names ! j))) (names ! j) (names ! i)"
    then have "before names (names ! j) (names ! i)" using own(2) by (metis nth_mem)
    then obtain a b where ab: "names = a @ names ! j # b" "names ! i \<in> set b" by (auto simp: before_def)
    then have "names ! length a = names ! j" by (metis nth_append_length)
    moreover have "length a < length names" using arg_cong [OF ab(1), of length] by simp
    ultimately have "length a = j" using own(1) ij(2) by (simp add: nth_eq_iff_index_eq)
    then have "names ! i \<in> set a" using ij(1) ab(1) by (metis nth_append nth_mem)
    then show False using own(1) ab by (metis disjoint_iff distinct_append set_ConsD set_subset_Cons subsetD)
  qed
  moreover have "before (files (writer_of y)) y x \<Longrightarrow> x \<in> set (files (writer_of y))" for x y
    by (auto simp: before_def)
  moreover have "set names \<inter> set (concat (map snd gs)) = {}" using others own(2) by blast
  ultimately show ?case using rest own(1) others unfolding g by (simp add: sorted_wrt_append) blast
qed simp

section \<open>Updating a record\<close>

definition listing :: "(string \<times> 'a log_sig) list \<Rightarrow> bool" where
  \<comment> \<open>what \<open>log_signatures\<close> gives: log files, each once, and none that a merged object covers\<close>
  "listing sigs = (distinct (map fst sigs) \<and> fst ` set sigs = set (all_names sigs))"

definition all_readable :: "reader \<Rightarrow> (string \<times> 'a log_sig) list \<Rightarrow> (string \<Rightarrow> string) \<Rightarrow> (string \<Rightarrow> nat) \<Rightarrow> bool" where
  "all_readable rd sigs c m =
     (list_all (readable rd c m) (all_names sigs) \<and> (\<forall>x. x \<notin> set (all_names sigs) \<longrightarrow> m x = 0))"

lemma listing_order:
  assumes "listing sigs"
  shows "distinct (all_names sigs)" "sorted_wrt (\<lambda>x y. \<not> before (files_of sigs (writer_of y)) y x) (all_names sigs)"
    and "x \<in> set (all_names sigs) \<Longrightarrow> x \<in> set (files_of sigs (writer_of x))"
proof -
  have dist: "distinct (map fst sigs)" using assms by (simp add: listing_def)
  note keys = od_wf_groups [OF dist]
  have group: "distinct names \<and> (\<forall>x \<in> set names. writer_of x = w \<and> files_of sigs w = names)"
    if "(w, names) \<in> set (group_log_names (map fst sigs))" for w names
  proof -
    have *: "map_of (group_log_names (map fst sigs)) w = Some names" using that keys by simp
    show ?thesis using files_of_group [OF dist *] by (simp add: files_of_def *)
  qed
  have "distinct (all_names sigs) \<and> sorted_wrt (\<lambda>x y. \<not> before (files_of sigs (writer_of y)) y x) (all_names sigs)"
    unfolding all_names_def by (rule listed_in_order [OF keys]) (rule group)
  then show "distinct (all_names sigs)" "sorted_wrt (\<lambda>x y. \<not> before (files_of sigs (writer_of y)) y x) (all_names sigs)"
    by simp_all
  show "x \<in> set (all_names sigs) \<Longrightarrow> x \<in> set (files_of sigs (writer_of x))"
  proof -
    assume "x \<in> set (all_names sigs)"
    then obtain w names where "(w, names) \<in> set (group_log_names (map fst sigs))" "x \<in> set names"
      by (auto simp: all_names_def)
    then show ?thesis using group [of w names] by auto
  qed
qed

lemma sorted_before: "sorted_wrt P l \<Longrightarrow> before l x y \<Longrightarrow> P x y"
  by (auto simp: before_def sorted_wrt_append)

lemma refold_current:
  assumes "listing sigs" "all_readable rd sigs c m"
  shows "current rd rw (files_of sigs) c m (refold rd sigs rw) \<and> sig_of (refold rd sigs rw) = map_of sigs"
proof -
  let ?names = "all_names sigs"
  define r0 where "r0 = \<lparr>rec_fold = new_fold rw, rec_counts = (\<lambda>_. 0), rec_logs = map (\<lambda>x. (x, the (map_of sigs x), 0)) ?names\<rparr>"
  have logs: "map_of (rec_logs r0) x = (if x \<in> set ?names then Some (the (map_of sigs x), 0) else None)" for x
    by (simp add: r0_def map_of_map_restrict restrict_map_def)
  have start: "current rd rw (files_of sigs) c (\<lambda>_. 0) r0"
    unfolding current_def
  proof (intro conjI allI)
    show "holds rd rw (\<lambda>w. read_entries (rd_scan rd) c (\<lambda>_. 0) (files_of sigs w)) r0"
      using holds_new by (simp add: read_entries_unread r0_def)
    have "consumed_of r0 x = 0" for x by (simp add: consumed_of_def logs)
    then show "caught_up (rd_scan rd) (c x) 0 (entries_in (rd_scan rd) (take 0 (c x)), consumed_of r0 x)" for x
      using caught_up_start by (simp add: entries_in_Nil)
  qed
  have sigs: "sig_of r0 = map_of sigs"
  proof
    fix x
    have "x \<in> set ?names \<longleftrightarrow> map_of sigs x \<noteq> None" using assms(1) by (simp add: listing_def map_of_eq_None_iff)
    then show "sig_of r0 x = map_of sigs x" by (cases "map_of sigs x") (auto simp: sig_of_def logs)
  qed
  have ready: "\<forall>x \<in> set ?names. map_of (rec_logs r0) x \<noteq> None \<and> readable rd c m x \<and> 0 \<le> m x \<and> x \<in> set (files_of sigs (writer_of x))
      \<and> (\<forall>y. before (files_of sigs (writer_of x)) x y \<longrightarrow> (0 :: nat) = 0)"
    using assms(2) listing_order(3) [OF assms(1)] by (auto simp: logs all_readable_def list_all_iff)
  have "by_writer (files_of sigs)" using assms(1) by (simp add: listing_def by_writer_listing)
  from read_tails_current [OF start this listing_order(1,2) [OF assms(1)] ready] obtain r' where
    "read_tails rd ?names r0 = (True, r')" "sig_of r' = sig_of r0"
    "current rd rw (files_of sigs) c (\<lambda>x. if x \<in> set ?names then m x else 0) r'" by blast
  moreover have "(\<lambda>x. if x \<in> set ?names then m x else 0) = m"
    using assms(2) by (auto simp: all_readable_def fun_eq_iff)
  ultimately show ?thesis using sigs by (simp add: refold_def refold_direct_def r0_def)
qed

lemma note_sigs:
  "consumed_of (r\<lparr>rec_logs := fold (note_sig sigs) names (rec_logs r)\<rparr>) = consumed_of r"
  "sig_of (r\<lparr>rec_logs := fold (note_sig sigs) names (rec_logs r)\<rparr>) x
    = (if x \<in> set names then Some (the (map_of sigs x)) else sig_of r x)"
proof -
  have "consumed_of (r\<lparr>rec_logs := fold (note_sig sigs) names l\<rparr>) = consumed_of (r\<lparr>rec_logs := l\<rparr>)
      \<and> sig_of (r\<lparr>rec_logs := fold (note_sig sigs) names l\<rparr>) x
        = (if x \<in> set names then Some (the (map_of sigs x)) else sig_of (r\<lparr>rec_logs := l\<rparr>) x)" for l
  proof (induction names arbitrary: l)
    case (Cons y names)
    have "consumed_of (r\<lparr>rec_logs := note_sig sigs y l\<rparr>) = consumed_of (r\<lparr>rec_logs := l\<rparr>)"
      by (auto simp: consumed_of_def note_sig_def fun_eq_iff split: option.split)
    moreover have "sig_of (r\<lparr>rec_logs := note_sig sigs y l\<rparr>) x = (if x = y then Some (the (map_of sigs y)) else sig_of (r\<lparr>rec_logs := l\<rparr>) x)"
      by (simp add: sig_of_def note_sig_def)
    ultimately show ?case using Cons [of "note_sig sigs y l"] by auto
  qed simp
  from this [of "rec_logs r"] show "consumed_of (r\<lparr>rec_logs := fold (note_sig sigs) names (rec_logs r)\<rparr>) = consumed_of r"
    "sig_of (r\<lparr>rec_logs := fold (note_sig sigs) names (rec_logs r)\<rparr>) x
      = (if x \<in> set names then Some (the (map_of sigs x)) else sig_of r x)" by simp_all
qed

section \<open>What the logs hold\<close>

definition log_chunks :: "scanner \<Rightarrow> (string \<Rightarrow> string) \<Rightarrow> (string \<Rightarrow> nat) \<Rightarrow> (string \<times> 'a log_sig) list \<Rightarrow> arrivals" where
  \<comment> \<open>the logs by writer, whole\<close>
  "log_chunks scan c m sigs = map (\<lambda>(w, names). (w, 0, read_entries scan c m names)) (group_log_names (map fst sigs))"

lemma received_whole:
  "distinct (map fst gs) \<Longrightarrow> received (map (\<lambda>(w, names). (w, 0, f names)) gs) w = (case map_of gs w of None \<Rightarrow> [] | Some names \<Rightarrow> f names)"
proof (induction gs)
  case (Cons g gs)
  have "fst g \<notin> fst ` set gs" using Cons.prems by simp
  then have "map_of gs (fst g) = None" by (simp add: map_of_eq_None_iff)
  then show ?case using Cons by (cases g) (auto split: option.split)
qed simp

lemma in_order_whole:
  "distinct (map fst gs) \<Longrightarrow> \<forall>w \<in> fst ` set gs. pos w = 0 \<Longrightarrow> in_order pos (map (\<lambda>(w, names). (w, 0, f names)) gs)"
proof (induction gs arbitrary: pos)
  case (Cons g gs)
  obtain w names where g: "g = (w, names)" by (cases g)
  have "in_order (pos(w := length (f names))) (map (\<lambda>(w, names). (w, 0, f names)) gs)"
    using Cons.prems by (intro Cons.IH) (auto simp: g)
  then show ?case using Cons.prems(2) by (simp add: g)
qed simp

lemma log_chunks_deliver:
  assumes "listing sigs"
  shows "in_order (\<lambda>_. 0) (log_chunks scan c m sigs)"
    and "received (log_chunks scan c m sigs) = (\<lambda>w. read_entries scan c m (files_of sigs w))"
proof -
  have keys: "distinct (map fst (group_log_names (map fst sigs)))"
    using assms by (simp add: listing_def od_wf_groups)
  then show "in_order (\<lambda>_. 0) (log_chunks scan c m sigs)"
    unfolding log_chunks_def by (rule in_order_whole) simp
  show "received (log_chunks scan c m sigs) = (\<lambda>w. read_entries scan c m (files_of sigs w))"
    by (rule ext) (simp add: log_chunks_def received_whole [OF keys] files_of_def read_entries_def split: option.split)
qed

lemma merged_log_eq:
  assumes "in_order (\<lambda>_. 0) arr" "in_order (\<lambda>_. 0) arr'" "received arr = received arr'"
  shows "merged_log arr = merged_log arr'" "set (arrived arr) = set (arrived arr')"
proof -
  have same: "mset (arrived arr) = mset (arrived arr')" by (rule mset_arrived [OF assms])
  then show "set (arrived arr) = set (arrived arr')" by (rule mset_eq_setD)
  have "sort_key fst (arrived arr) = sort_key fst (arrived arr')"
    using distinct_arrived [OF assms(1)] same by (intro sort_key_inj_key_eq) (auto simp: distinct_map)
  then show "merged_log arr = merged_log arr'" by (simp add: merged_log_def)
qed

lemma received_grows:
  assumes "in_order (\<lambda>_. 0) arr" "in_order (\<lambda>_. 0) arr'" "\<forall>w. prefix (received arr w) (received arr' w)"
  shows "set (arrived arr) \<subseteq> set (arrived arr')"
proof
  fix x assume x: "x \<in> set (arrived arr)"
  define w where "w = fst (snd (fst x))"
  have "x \<in> set (filter (\<lambda>(k, e). fst (snd k) = w) (arrived arr))" using x by (auto simp: w_def)
  then have "x \<in> set (keyed_chunk w 0 (received arr w))" by (simp only: arrived_of_writer [OF assms(1)])
  then have "x \<in> set (keyed_chunk w 0 (received arr' w))" using assms(3) [rule_format, of w] by (auto simp: prefix_def keyed_chunk_append)
  then have "x \<in> set (filter (\<lambda>(k, e). fst (snd k) = w) (arrived arr'))" by (simp only: arrived_of_writer [OF assms(2)])
  then show "x \<in> set (arrived arr')" by simp
qed

lemma same_said: "set kes \<subseteq> set kes' \<Longrightarrow> set (said f kes) \<subseteq> set (said f kes')"
  by (auto simp: set_said) blast

lemma same_signatures:
  assumes "set kes = set kes'"
  shows "few_signatures ops kes = few_signatures ops kes'"
proof -
  have "set (said (said_note ops) kes) = set (said (said_note ops) kes')"
    using same_said [of kes kes'] same_said [of kes' kes] assms by blast
  then show ?thesis by (simp add: few_signatures_def signatures_def)
qed

lemma current_view:
  fixes sigs :: "(string \<times> 'b log_sig) list" and r :: "'a log_record"
  assumes cur: "current rd rw (files_of sigs) c m r" and "listing sigs" "\<not> needs_refold (rec_fold r)"
  defines "chunks \<equiv> log_chunks (rd_scan rd) c m sigs"
  assumes "set rw \<subseteq> set (said rewind_step (arrived chunks))"
    and stored: "\<forall>(k, e) \<in> set (arrived chunks). stored_entry e" "few_signatures (rd_ops rd) (arrived chunks)"
  shows "view_of (rec_fold r) = view_of (fold_log (rd_ops rd) (merged_log chunks) (new_fold []) 0)"
proof -
  note whole = log_chunks_deliver [OF assms(2), of "rd_scan rd" c m, folded chunks_def]
  obtain arr where arr: "rec_fold r = fold_arrivals (rd_ops rd) (new_fold rw) arr" "in_order (\<lambda>_. 0) arr" "received arr = received chunks"
    using cur whole(2) by (auto simp: current_def holds_def)
  note same = merged_log_eq [OF arr(2) whole(1) arr(3)]
  have ok: "\<forall>(k, e) \<in> set (arrived arr). stored_entry e" "few_signatures (rd_ops rd) (arrived arr)"
    using stored same(2) same_signatures [OF same(2)] by simp_all
  have "set rw \<subseteq> set (said rewind_step (arrived arr))"
    using assms(5) same(2) same_said [of "arrived chunks" "arrived arr"] by blast
  then have "view_of (rec_fold r) = view_spec (rd_ops rd) (counted (said rewind_step (arrived arr)) (arrived arr))"
    unfolding arr(1) using assms(3) arr(1) by (intro settled_view [OF arr(2) ok]) simp_all
  also have "\<dots> = view_of (fold_log (rd_ops rd) (merged_log arr) (new_fold []) 0)"
    unfolding merged_log_def by (rule fold_of_merged [OF distinct_arrived [OF arr(2)] ok, symmetric])
  finally show ?thesis by (simp add: same(1))
qed

lemma refold_knows:
  fixes sigs :: "(string \<times> 'b log_sig) list" and r :: "'a log_record"
  assumes "current rd rw (files_of sigs) c m r" "listing sigs"
  defines "seen \<equiv> set (said rewind_step (arrived (log_chunks (rd_scan rd) c m sigs)))"
  shows "set (fd_rewinds (rec_fold r)) = set rw \<union> seen \<and> (needs_refold (rec_fold r) \<longleftrightarrow> \<not> seen \<subseteq> set rw)"
proof -
  note whole = log_chunks_deliver [OF assms(2), of "rd_scan rd" c m]
  obtain arr where arr: "rec_fold r = fold_arrivals (rd_ops rd) (new_fold rw) arr" "in_order (\<lambda>_. 0) arr"
      "received arr = received (log_chunks (rd_scan rd) c m sigs)"
    using assms(1) whole(2) by (auto simp: current_def holds_def)
  have "set (said rewind_step (arrived arr)) = seen"
    unfolding seen_def using merged_log_eq(2) [OF arr(2) whole(1) arr(3)] same_said by blast
  then show ?thesis
    using rewinds_grow [of "rd_ops rd" "arrived arr" "new_fold rw"]
    by (simp add: arr(1) fold_arrivals_arrived needs_refold_def new_fold_def)
qed

section \<open>Up to date\<close>

definition followed :: "reader \<Rightarrow> (string \<times> 'b log_sig) list \<Rightarrow> (string \<Rightarrow> string) \<Rightarrow> (string \<Rightarrow> nat) \<Rightarrow> 'a log_record \<Rightarrow> bool" where
  \<comment> \<open>the record has folded \<open>n x\<close> bytes of every file \<open>x\<close>, and knew every rewind of theirs\<close>
  "followed rd sigs c n r =
     (\<not> needs_refold (rec_fold r) \<and> (\<forall>x. sig_of r x = None \<longrightarrow> n x = 0)
      \<and> (\<exists>rw. current rd rw (files_of sigs) c n r
             \<and> set rw \<subseteq> set (said rewind_step (arrived (log_chunks (rd_scan rd) c n sigs)))))"

definition grown_at_end :: "'a log_record \<Rightarrow> (string \<times> 'a log_sig) list \<Rightarrow> bool" where
  \<comment> \<open>past a file that changed come only new ones\<close>
  "grown_at_end r sigs =
     list_all (\<lambda>(w, names). sorted_wrt (\<lambda>x y. sig_of r x \<noteq> map_of sigs x \<longrightarrow> sig_of r y = None) names)
       (group_log_names (map fst sigs))"

definition unshrunk :: "'a log_record \<Rightarrow> (string \<times> 'a log_sig) list \<Rightarrow> (string \<Rightarrow> nat) \<Rightarrow> (string \<Rightarrow> nat) \<Rightarrow> bool" where
  \<comment> \<open>the listed files have not shrunk, and those of the same signature are the same\<close>
  "unshrunk r sigs n m =
     list_all (\<lambda>x. n x \<le> m x \<and> (sig_of r x = map_of sigs x \<longrightarrow> n x = m x)) (all_names sigs)"

lemma only_grown_unchanged: "\<forall>x \<in> set names. old x \<noteq> None \<and> old x = new x \<Longrightarrow> only_grown old new False names"
proof (induction names)
  case (Cons x names)
  have all: "old x \<noteq> None" "old x = new x" "\<forall>y \<in> set names. old y \<noteq> None \<and> old y = new y"
    using Cons.prems unfolding list.set by blast+
  then show ?case using Cons.IH [OF all(3)] by auto
qed simp

lemma same_listing:
  assumes "listing sigs" "set (map (\<lambda>(name, s, n). (name, s)) (rec_logs r)) = set sigs"
  shows "sig_of r = map_of sigs" "appends_only r sigs"
proof -
  have dist: "distinct (map fst sigs)" using assms(1) by (simp add: listing_def)
  have listed: "(x, s) \<in> set sigs \<longleftrightarrow> map_of sigs x = Some s" for x s using dist by simp
  show sig: "sig_of r = map_of sigs"
  proof
    fix x
    show "sig_of r x = map_of sigs x"
    proof (cases "map_of (rec_logs r) x")
      case None
      then have "x \<notin> fst ` set sigs" unfolding assms(2) [symmetric] by (force simp: map_of_eq_None_iff)
      then have "map_of sigs x = None" by (simp add: map_of_eq_None_iff)
      then show ?thesis using None by (simp add: sig_of_def)
    next
      case (Some sn)
      then have "(x, fst sn) \<in> set sigs" unfolding assms(2) [symmetric] using map_of_SomeD [OF Some]
        by (cases sn) (auto intro!: rev_image_eqI)
      then show ?thesis using Some listed by (simp add: sig_of_def)
    qed
  qed
  have all_listed: "map_of sigs x \<noteq> None" if "x \<in> set (all_names sigs)" for x
    using that assms(1) by (simp add: listing_def map_of_eq_None_iff)
  have "only_grown (sig_of r) (map_of sigs) False names" if "(w, names) \<in> set (group_log_names (map fst sigs))" for w names
  proof (rule only_grown_unchanged, intro ballI conjI)
    fix x assume "x \<in> set names"
    then have "x \<in> set (all_names sigs)" using that unfolding all_names_def by force
    then show "sig_of r x \<noteq> None" unfolding sig by (rule all_listed)
    show "sig_of r x = map_of sigs x" by (simp only: sig)
  qed
  moreover have "map_of sigs name \<noteq> None" if "(name, s) \<in> set (rec_logs r)" for name s
  proof -
    have "(name, fst s) \<in> set sigs" unfolding assms(2) [symmetric] using that by (cases s) (auto intro!: rev_image_eqI)
    then show ?thesis using listed by simp
  qed
  ultimately show "appends_only r sigs" by (fastforce simp: appends_only_def list_all_iff)
qed

lemma tails_follow:
  assumes "listing sigs" "all_readable rd sigs c m" "appends_only r sigs"
    and "followed rd sigs c n r" "grown_at_end r sigs" "unshrunk r sigs n m"
  defines "names \<equiv> changed_names r sigs"
  shows "\<exists>rw r'. read_tails rd names (r\<lparr>rec_logs := fold (note_sig sigs) names (rec_logs r)\<rparr>) = (True, r')
      \<and> sig_of r' = map_of sigs \<and> current rd rw (files_of sigs) c m r'
      \<and> set rw \<subseteq> set (said rewind_step (arrived (log_chunks (rd_scan rd) c m sigs)))"
proof -
  define r0 where "r0 = r\<lparr>rec_logs := fold (note_sig sigs) names (rec_logs r)\<rparr>"
  let ?files = "files_of sigs"
  obtain rw where rw: "current rd rw ?files c n r"
      "set rw \<subseteq> set (said rewind_step (arrived (log_chunks (rd_scan rd) c n sigs)))"
    and unseen: "\<And>x. sig_of r x = None \<Longrightarrow> n x = 0"
    using assms(4) by (auto simp: followed_def)
  have names: "names = filter (\<lambda>x. sig_of r x \<noteq> map_of sigs x) (all_names sigs)" by (simp add: names_def changed_names_def)
  have in_names: "x \<in> set names \<longleftrightarrow> x \<in> set (all_names sigs) \<and> sig_of r x \<noteq> map_of sigs x" for x by (auto simp: names)
  have listed: "x \<in> set (all_names sigs) \<longleftrightarrow> map_of sigs x \<noteq> None" for x
    using assms(1) by (simp add: listing_def map_of_eq_None_iff)
  have gone: "sig_of r x = None" if "x \<notin> set (all_names sigs)" for x
    using that assms(3) map_of_SomeD [of "rec_logs r" x]
    by (fastforce simp: listed appends_only_def list_all_iff sig_of_def map_option_case split: option.split)
  have sig: "sig_of r0 = map_of sigs"
  proof
    fix x
    show "sig_of r0 x = map_of sigs x"
      using gone [of x] listed [of x] by (cases "map_of sigs x") (auto simp: r0_def note_sigs in_names)
  qed
  have cur: "current rd rw ?files c n r0"
    using rw(1) by (simp add: current_def holds_def r0_def note_sigs(1))
  have ready: "\<forall>x \<in> set names. map_of (rec_logs r0) x \<noteq> None \<and> readable rd c m x \<and> n x \<le> m x \<and> x \<in> set (?files (writer_of x))
      \<and> (\<forall>y. before (?files (writer_of x)) x y \<longrightarrow> n y = 0)"
  proof
    fix x assume x: "x \<in> set names"
    then have "sig_of r0 x \<noteq> None" using in_names listed by (simp add: sig)
    then have "map_of (rec_logs r0) x \<noteq> None" by (auto simp: sig_of_def)
    moreover have "readable rd c m x" "n x \<le> m x" "x \<in> set (?files (writer_of x))"
      using x in_names assms(2,6) listing_order(3) [OF assms(1)] by (auto simp: all_readable_def unshrunk_def list_all_iff)
    moreover have "n y = 0" if "before (?files (writer_of x)) x y" for y
    proof (cases "map_of (group_log_names (map fst sigs)) (writer_of x)")
      case (Some l)
      then have ends: "sorted_wrt (\<lambda>x y. sig_of r x \<noteq> map_of sigs x \<longrightarrow> sig_of r y = None) l"
        using assms(5) map_of_SomeD [OF Some] by (auto simp: grown_at_end_def list_all_iff)
      have "before l x y" using that Some by (simp add: files_of_def)
      from sorted_before [OF ends this] have "sig_of r y = None" using x in_names by simp
      then show ?thesis by (rule unseen)
    next
      case None
      then show ?thesis using that by (simp add: files_of_def before_def)
    qed
    ultimately show "map_of (rec_logs r0) x \<noteq> None \<and> readable rd c m x \<and> n x \<le> m x \<and> x \<in> set (?files (writer_of x))
      \<and> (\<forall>y. before (?files (writer_of x)) x y \<longrightarrow> n y = 0)" by blast
  qed
  have "by_writer ?files" using assms(1) by (simp add: listing_def by_writer_listing)
  moreover have "distinct names" "sorted_wrt (\<lambda>x y. \<not> before (?files (writer_of y)) y x) names"
    using listing_order(1,2) [OF assms(1)] by (simp_all add: names sorted_wrt_filter)
  moreover have "(\<lambda>x. if x \<in> set names then m x else n x) = m"
    using assms(2,6) unseen gone by (auto simp: in_names fun_eq_iff all_readable_def unshrunk_def list_all_iff)
  ultimately obtain r' where r': "read_tails rd names r0 = (True, r')" "sig_of r' = sig_of r0" "current rd rw ?files c m r'"
    and more: "\<forall>w. prefix (read_entries (rd_scan rd) c n (?files w)) (read_entries (rd_scan rd) c m (?files w))"
    using read_tails_current [OF cur _ _ _ ready] by auto
  have "set (arrived (log_chunks (rd_scan rd) c n sigs)) \<subseteq> set (arrived (log_chunks (rd_scan rd) c m sigs))"
    using more by (intro received_grows log_chunks_deliver(1) assms(1)) (simp add: log_chunks_deliver(2) [OF assms(1)])
  then have "set rw \<subseteq> set (said rewind_step (arrived (log_chunks (rd_scan rd) c m sigs)))"
    using rw(2) same_said by blast
  then show ?thesis using r' sig unfolding r0_def by (intro exI [of _ rw] exI [of _ r']) simp
qed

lemma update_logs_current:
  assumes "listing sigs" "all_readable rd sigs c m"
    and appended: "appends_only r sigs \<longrightarrow> followed rd sigs c n r \<and> grown_at_end r sigs \<and> unshrunk r sigs n m"
    and upd: "update_logs rd sigs r = (changed, r')"
  shows "(\<exists>rw. current rd rw (files_of sigs) c m r' \<and> set rw \<subseteq> set (said rewind_step (arrived (log_chunks (rd_scan rd) c m sigs))))
    \<and> sig_of r' = map_of sigs \<and> (changed \<or> \<not> needs_refold (rec_fold r'))"
proof -
  consider (same) "set (map (\<lambda>(name, s, n). (name, s)) (rec_logs r)) = set sigs"
    | (tails) "set (map (\<lambda>(name, s, n). (name, s)) (rec_logs r)) \<noteq> set sigs" "appends_only r sigs"
    | (other) "set (map (\<lambda>(name, s, n). (name, s)) (rec_logs r)) \<noteq> set sigs" "\<not> appends_only r sigs" by blast
  then show ?thesis
  proof cases
    case same
    note here = same_listing [OF assms(1) same]
    have ok: "followed rd sigs c n r" "unshrunk r sigs n m" using appended here(2) by simp_all
    have "n x = m x" for x
      using ok assms(1,2) here(1)
      by (cases "x \<in> set (all_names sigs)")
        (auto simp: unshrunk_def list_all_iff followed_def all_readable_def listing_def map_of_eq_None_iff)
    then have "n = m" by (rule ext)
    then show ?thesis using ok(1) here(1) upd same by (auto simp: update_logs_def followed_def)
  next
    case tails
    then have "followed rd sigs c n r" "grown_at_end r sigs" "unshrunk r sigs n m" using appended by simp_all
    from tails_follow [OF assms(1,2) tails(2) this] obtain rw r1 where r1:
      "read_tails rd (changed_names r sigs) (r\<lparr>rec_logs := fold (note_sig sigs) (changed_names r sigs) (rec_logs r)\<rparr>) = (True, r1)"
      "sig_of r1 = map_of sigs" "current rd rw (files_of sigs) c m r1"
      "set rw \<subseteq> set (said rewind_step (arrived (log_chunks (rd_scan rd) c m sigs)))" by blast
    moreover have "changed" "r' = r1" using upd tails r1(1) by (simp_all add: update_logs_def Let_def)
    ultimately show ?thesis by blast
  next
    case other
    then show ?thesis using refold_current [OF assms(1,2), of "[]"] upd by (auto simp: update_logs_def)
  qed
qed

text \<open>
  C9. A record kept current by reading only what its log files grew by shows what folding all of its
  logs from scratch shows, under these conditions: the listing names each log file once, every listed
  file reads the same from any offset, line by line, no file it had read has shrunk and one of the same
  signature is unchanged, and where it is read incrementally (no file went, growth only) the record was
  current for the files as they were and, in each writer's files, past a file that changed come only new
  ones; the entries have the stored shape, with at most eight note signatures. Then after the update it
  has folded every listed file as far as it was readable, asks for no refold, and its view is that of
  the merged log. Growth of an earlier file of a writer beside a later one is outside
  (both_grown_accepted), and so is a file begun again at the same moment and size
  (same_moment_restarted).
\<close>

theorem index_follows_files:
  assumes "listing sigs" "all_readable rd sigs c m"
    and appended: "appends_only r sigs \<longrightarrow> followed rd sigs c n r \<and> grown_at_end r sigs \<and> unshrunk r sigs n m"
  defines "chunks \<equiv> log_chunks (rd_scan rd) c m sigs"
  assumes stored: "\<forall>(k, e) \<in> set (arrived chunks). stored_entry e" "few_signatures (rd_ops rd) (arrived chunks)"
  shows "followed rd sigs c m (update_folds rd sigs r) \<and> sig_of (update_folds rd sigs r) = map_of sigs
    \<and> view_of (rec_fold (update_folds rd sigs r)) = view_of (fold_log (rd_ops rd) (merged_log chunks) (new_fold []) 0)"
proof -
  obtain changed r1 where upd: "update_logs rd sigs r = (changed, r1)" by (cases "update_logs rd sigs r")
  have unlisted: "sig_of r' x = None \<Longrightarrow> m x = 0" if "sig_of r' = map_of sigs" for r' :: "'a log_record" and x
    using that assms(1,2) by (simp add: all_readable_def listing_def map_of_eq_None_iff)
  obtain rw where one: "current rd rw (files_of sigs) c m r1" "sig_of r1 = map_of sigs" "set rw \<subseteq> set (said rewind_step (arrived chunks))"
    and settled: "\<not> changed \<Longrightarrow> \<not> needs_refold (rec_fold r1)"
    using update_logs_current [OF assms(1,2) appended upd] by (auto simp: chunks_def)
  note known = refold_knows [OF one(1) assms(1), folded chunks_def]
  define r2 where "r2 = update_folds rd sigs r"
  obtain rw2 where two: "current rd rw2 (files_of sigs) c m r2" "sig_of r2 = map_of sigs"
      "set rw2 \<subseteq> set (said rewind_step (arrived chunks))" "\<not> needs_refold (rec_fold r2)"
  proof (cases "needs_refold (rec_fold r1)")
    case True
    then have "r2 = refold rd sigs (fd_rewinds (rec_fold r1))" using settled by (auto simp: r2_def update_folds_def upd)
    then have "current rd (fd_rewinds (rec_fold r1)) (files_of sigs) c m r2 \<and> sig_of r2 = map_of sigs"
      using refold_current [OF assms(1,2)] by simp
    moreover have "\<not> needs_refold (rec_fold r2)"
      using refold_knows [OF calculation [THEN conjunct1] assms(1), folded chunks_def] known by simp
    ultimately show thesis using that [of "fd_rewinds (rec_fold r1)"] known one(3) by simp
  next
    case False
    then have "r2 = r1" by (simp add: r2_def update_folds_def upd)
    then show thesis using that [of rw] one False by simp
  qed
  then have "followed rd sigs c m r2" using unlisted [OF two(2)] unfolding followed_def chunks_def by blast
  then show ?thesis
    using two current_view [OF two(1) assms(1) two(4), folded chunks_def, OF two(3) stored] by (simp add: r2_def)
qed

section \<open>A record that is read twice\<close>

definition new_record :: "'a log_record" where
  \<comment> \<open>the state \<open>update_record\<close> starts a record from\<close>
  "new_record = \<lparr>rec_fold = new_fold [], rec_counts = (\<lambda>_. 0), rec_logs = []\<rparr>"

lemma followed_new: "followed rd sigs c (\<lambda>_. 0) new_record"
  unfolding followed_def current_def
proof (intro conjI exI [of _ "[]"] allI impI)
  show "\<not> needs_refold (rec_fold new_record)" by (simp add: new_record_def needs_refold_def new_fold_def)
  show "holds rd [] (\<lambda>w. read_entries (rd_scan rd) c (\<lambda>_. 0) (files_of sigs w)) new_record"
    using holds_new by (simp add: read_entries_unread new_record_def)
  show "caught_up (rd_scan rd) (c x) 0 (entries_in (rd_scan rd) (take 0 (c x)), consumed_of new_record x)" for x
    using caught_up_start by (simp add: entries_in_Nil consumed_of_def new_record_def)
qed simp_all

lemma followed_again:
  "rd_ops rd = rd_ops rd' \<Longrightarrow> rd_scan rd = rd_scan rd' \<Longrightarrow> map fst sigs = map fst sigs' \<Longrightarrow>
    followed rd sigs c n r = followed rd' sigs' c n r"
  by (simp add: followed_def current_def holds_def files_of_def log_chunks_def)

definition loss_scan :: scanner where
  \<comment> \<open>\<open>{3}\<close> for a loss of 3 at step 3\<close>
  "loss_scan s = (if length s = 3 \<and> starts_with ''{'' s
     then (let d = int (code (s ! 1)) - 48 in dict_of (loss_at [s ! 1] d (of_int d))) else None)"

definition loss_log :: "string \<Rightarrow> string" where
  "loss_log x = (if x = ''log/w.jsonl'' then written [''{1}'', ''{2}''] else [])"

definition bytes_at :: "nat \<Rightarrow> string \<Rightarrow> nat" where
  "bytes_at n x = (if x = ''log/w.jsonl'' then n else 0)"

definition loss_sigs :: "nat \<Rightarrow> (string \<times> nat log_sig) list" where
  "loss_sigs n = [(''log/w.jsonl'', (n, []))]"

definition loss_reader :: "nat \<Rightarrow> reader" where
  "loss_reader n = \<lparr>rd_ops = demo_ops, rd_scan = loss_scan, rd_read = (\<lambda>x off. Some (drop off (take (bytes_at n x) (loss_log x)))), rd_load = []\<rparr>"

lemma loss_names: "map fst (loss_sigs n) = [''log/w.jsonl'']"
  by (simp add: loss_sigs_def)

lemma loss_groups: "group_log_names [''log/w.jsonl''] = [(''w'', [''log/w.jsonl''])]"
  by code_simp

lemma loss_listed: "listing (loss_sigs n)" "all_names (loss_sigs n) = [''log/w.jsonl'']"
  by (simp_all add: listing_def all_names_def loss_names loss_groups, simp add: loss_sigs_def)

lemma loss_readable: "n \<le> 8 \<Longrightarrow> all_readable (loss_reader n) (loss_sigs n) loss_log (bytes_at n)"
proof -
  have "\<forall>l \<in> set [''{1}'', ''{2}'']. whole_line loss_scan l" by code_simp
  from written_grows [OF this] show "n \<le> 8 \<Longrightarrow> ?thesis"
    by (simp add: all_readable_def loss_listed readable_def loss_reader_def loss_log_def bytes_at_def, simp add: written_def)
qed

lemma loss_at_end: "grown_at_end r (loss_sigs n)"
  by (simp add: grown_at_end_def loss_names loss_groups)

lemma loss_stored:
  "n \<in> {4, 8} \<Longrightarrow> (\<forall>(k, e) \<in> set (arrived (log_chunks loss_scan loss_log (bytes_at n) (loss_sigs n))). stored_entry e)
    \<and> few_signatures demo_ops (arrived (log_chunks loss_scan loss_log (bytes_at n) (loss_sigs n)))"
proof -
  have "(\<forall>(k, e) \<in> set (arrived (log_chunks loss_scan loss_log (bytes_at 4) (loss_sigs 4))). stored_entry e)
    \<and> few_signatures demo_ops (arrived (log_chunks loss_scan loss_log (bytes_at 4) (loss_sigs 4)))" by code_simp
  moreover have "(\<forall>(k, e) \<in> set (arrived (log_chunks loss_scan loss_log (bytes_at 8) (loss_sigs 8))). stored_entry e)
    \<and> few_signatures demo_ops (arrived (log_chunks loss_scan loss_log (bytes_at 8) (loss_sigs 8)))" by code_simp
  ultimately show "n \<in> {4, 8} \<Longrightarrow> ?thesis" by auto
qed

theorem index_follows_files_witness:
  "vw_metrics (view_of (rec_fold (update_folds (loss_reader 8) (loss_sigs 8)
     (update_folds (loss_reader 4) (loss_sigs 4) new_record)))) ''loss'' = Some (Fin 2)"
proof -
  define r1 where "r1 = update_folds (loss_reader 4) (loss_sigs 4) new_record"
  have ops: "rd_ops (loss_reader n) = demo_ops" "rd_scan (loss_reader n) = loss_scan" for n by (simp_all add: loss_reader_def)
  have fresh: "appends_only new_record (loss_sigs 4) \<longrightarrow> followed (loss_reader 4) (loss_sigs 4) loss_log (\<lambda>_. 0) new_record
      \<and> grown_at_end (new_record :: nat log_record) (loss_sigs 4) \<and> unshrunk new_record (loss_sigs 4) (\<lambda>_. 0) (bytes_at 4)"
    by (simp add: followed_new loss_at_end unshrunk_def loss_listed, simp add: sig_of_def new_record_def loss_sigs_def)
  have stored: "\<forall>(k, e) \<in> set (arrived (log_chunks (rd_scan (loss_reader n)) loss_log (bytes_at n) (loss_sigs n))). stored_entry e"
      "few_signatures (rd_ops (loss_reader n)) (arrived (log_chunks (rd_scan (loss_reader n)) loss_log (bytes_at n) (loss_sigs n)))"
    if "n \<in> {4, 8}" for n using loss_stored [OF that] by (simp_all add: ops)
  have first: "followed (loss_reader 4) (loss_sigs 4) loss_log (bytes_at 4) r1" "sig_of r1 = map_of (loss_sigs 4)"
    unfolding r1_def using index_follows_files [OF loss_listed(1) loss_readable fresh stored] by simp_all
  have "followed (loss_reader 8) (loss_sigs 8) loss_log (bytes_at 4) r1"
    by (subst followed_again [of _ "loss_reader 4" _ "loss_sigs 4"]) (simp_all add: ops loss_names first(1))
  moreover have "unshrunk r1 (loss_sigs 8) (bytes_at 4) (bytes_at 8)"
    unfolding unshrunk_def loss_listed first(2) by (simp add: bytes_at_def loss_sigs_def)
  ultimately have again: "appends_only r1 (loss_sigs 8) \<longrightarrow> followed (loss_reader 8) (loss_sigs 8) loss_log (bytes_at 4) r1
      \<and> grown_at_end r1 (loss_sigs 8) \<and> unshrunk r1 (loss_sigs 8) (bytes_at 4) (bytes_at 8)"
    using loss_at_end by blast
  have "view_of (rec_fold (update_folds (loss_reader 8) (loss_sigs 8) r1))
      = view_of (fold_log demo_ops (merged_log (log_chunks loss_scan loss_log (bytes_at 8) (loss_sigs 8))) (new_fold []) 0)"
    using index_follows_files [OF loss_listed(1) loss_readable again stored] by (simp add: ops)
  moreover have "vw_metrics (view_of (fold_log demo_ops (merged_log (log_chunks loss_scan loss_log (bytes_at 8) (loss_sigs 8)))
      (new_fold []) 0)) ''loss'' = Some (Fin 2)" by code_simp
  ultimately show ?thesis by (simp add: r1_def)
qed

section \<open>Where it differs from a refold\<close>

text \<open>
  The module says that a file which grew before a later segment makes it refold; but it is taken for an
  append when that segment grew as well, and the entries of the first file then get positions past the
  segment's first ones.
\<close>

lemma both_grown_accepted:
  "appends_only (\<lparr>rec_fold = new_fold [], rec_counts = (\<lambda>_. 2),
      rec_logs = [(''log/w.jsonl'', (4, []), 4), (''log/w@000001.jsonl'', (4, []), 4)]\<rparr> :: nat log_record)
     [(''log/w.jsonl'', (8, [])), (''log/w@000001.jsonl'', (8, []))]"
  by code_simp

text \<open>
  After the reading of a vanished listing, the entries that were folded are forgotten as positions but
  consumed as bytes: what the writer appends next is folded at position 0 again, and of two entries
  with the same timestamp the earlier wins.
\<close>

lemma relisted_positions_restart:
  "rec_counts (refold_merged rd sigs rw) w = 0"
  "(name, s) \<in> set sigs \<Longrightarrow> distinct (map fst sigs) \<Longrightarrow> consumed_of (refold_merged rd sigs rw) name = fst s"
proof -
  show "rec_counts (refold_merged rd sigs rw) w = 0" by (simp add: refold_merged_def)
  assume "(name, s) \<in> set sigs" "distinct (map fst sigs)"
  moreover have "map_of (map (\<lambda>(name, s). (name, s, fst s)) sigs) name = map_option (\<lambda>s. (s, fst s)) (map_of sigs name)" for sigs :: "(string \<times> 'a log_sig) list"
    by (induction sigs) auto
  ultimately show "consumed_of (refold_merged rd sigs rw) name = fst s"
    by (simp add: consumed_of_def refold_merged_def)
qed

lemma same_moment_restarted:
  "s_get e ''timestamp'' = s_get e' ''timestamp'' \<Longrightarrow> sort_key_of e' w 0 < sort_key_of e w (Suc n)"
  by (simp add: sort_key_of_def less_prod_def)

end
