(* ===== verification/Metric_Columns.thy ===== *)
theory Metric_Columns
imports Prelude "HOL-Library.Word"
begin

text \<open>
  The columns of a metric key and their packing, from core/metric_columns.py: steps and timestamps as
  little-endian 64-bit integers, each the difference to the one before, and values as the 64-bit
  patterns of floats. The arithmetic on floats (the summaries of a block's header) is not here.
\<close>

section \<open>Bytes\<close>

type_synonym byte = "8 word"
type_synonym int64 = "64 word"
type_synonym float64 = "64 word"        \<comment> \<open>the bits of a float\<close>

fun le_bytes :: "nat \<Rightarrow> nat \<Rightarrow> byte list" where
  "le_bytes 0 n = []"
| "le_bytes (Suc k) n = word_of_nat n # le_bytes k (n div 256)"

definition le_value :: "byte list \<Rightarrow> nat" where
  "le_value bs = foldr (\<lambda>b n. unat b + 256 * n) bs 0"

definition in_int64 :: "int \<Rightarrow> bool" where
  "in_int64 n = (- (2 ^ 63) \<le> n \<and> n < 2 ^ 63)"

definition int64_array :: "int list \<Rightarrow> int64 list res" where
  \<comment> \<open>\<open>array("q", ns)\<close>\<close>
  "int64_array ns = (if list_all in_int64 ns then Inr (map word_of_int ns) else Inl OverflowErr)"

definition to_bytes :: "int64 list \<Rightarrow> byte list" where
  "to_bytes ws = concat (map (\<lambda>w. le_bytes 8 (unat w)) ws)"

fun words_of :: "byte list \<Rightarrow> int64 list" where
  "words_of (a # b # c # d # e # f # g # h # bs) = word_of_nat (le_value [a, b, c, d, e, f, g, h]) # words_of bs"
| "words_of _ = []"

definition from_bytes :: "byte list \<Rightarrow> int64 list res" where
  "from_bytes bs = (if length bs mod 8 = 0 then Inr (words_of bs) else Inl ValueErr)"

section \<open>Columns\<close>

record columns =
  col_steps :: "int list option"
  col_ts :: "int list"
  col_values :: "float64 list"

definition has_step :: "columns \<Rightarrow> bool" where
  "has_step cols = (col_steps cols \<noteq> None)"

definition deltas :: "int list \<Rightarrow> int list" where
  "deltas ns = take 1 ns @ map2 (\<lambda>a b. b - a) ns (tl ns)"

fun accumulate :: "int \<Rightarrow> int list \<Rightarrow> int list" where
  "accumulate s [] = []"
| "accumulate s (n # ns) = (s + n) # accumulate (s + n) ns"

definition pack_deltas :: "int list \<Rightarrow> byte list res" where
  "pack_deltas ns = bind_res (int64_array (deltas ns)) (\<lambda>ws. Inr (to_bytes ws))"

definition unpack_deltas :: "byte list \<Rightarrow> int list res" where
  "unpack_deltas bs =
     bind_res (from_bytes bs) (\<lambda>ws. bind_res (int64_array (accumulate 0 (map sint ws))) (\<lambda>vs. Inr (map sint vs)))"

definition pack_floats :: "float64 list \<Rightarrow> byte list" where
  "pack_floats vs = to_bytes vs"

definition unpack_floats :: "byte list \<Rightarrow> float64 list res" where
  "unpack_floats bs = from_bytes bs"

section \<open>Reading back\<close>

lemma length_le_bytes [simp]: "length (le_bytes k n) = k"
  by (induction k arbitrary: n) simp_all

lemma le_value_simps [simp]: "le_value [] = 0" "le_value (b # bs) = unat b + 256 * le_value bs"
  by (simp_all add: le_value_def)

lemma le_value_bytes: "n < 256 ^ k \<Longrightarrow> le_value (le_bytes k n) = n"
proof (induction k arbitrary: n)
  case (Suc k)
  then have "n div 256 < 256 ^ k" by (simp add: less_mult_imp_div_less)
  then show ?case using Suc.IH by (simp add: unat_of_nat take_bit_eq_mod)
qed simp

lemma length_to_bytes [simp]: "length (to_bytes ws) = 8 * length ws"
  by (induction ws) (simp_all add: to_bytes_def)

lemma to_bytes_simps [simp]: "to_bytes [] = []" "to_bytes (w # ws) = le_bytes 8 (unat w) @ to_bytes ws"
  by (simp_all add: to_bytes_def)

lemma words_of_eight: "length bs = 8 \<Longrightarrow> words_of (bs @ cs) = word_of_nat (le_value bs) # words_of cs"
proof -
  assume "length bs = 8"
  then have "length bs = Suc (Suc (Suc (Suc (Suc (Suc (Suc (Suc 0)))))))" by simp
  then obtain a b c d e f g h where "bs = [a, b, c, d, e, f, g, h]" unfolding length_Suc_conv length_0_conv by blast
  then show ?thesis by (simp only: append_Cons append_Nil words_of.simps)
qed

lemma words_of_to_bytes: "words_of (to_bytes ws) = ws"
proof (induction ws)
  case (Cons w ws)
  have "unat w < 256 ^ 8" using unsigned_less [of w] by simp
  then have "le_value (le_bytes 8 (unat w)) = unat w" by (rule le_value_bytes)
  then show ?case using Cons words_of_eight [of "le_bytes 8 (unat w)"] by simp
qed simp

lemma from_to_bytes: "from_bytes (to_bytes ws) = Inr ws"
  by (simp add: from_bytes_def words_of_to_bytes)

lemma sint_in_range: "in_int64 n \<Longrightarrow> sint (word_of_int n :: int64) = n"
proof -
  assume "in_int64 n"
  then have "signed_take_bit 63 n = n" unfolding in_int64_def by (intro signed_take_bit_int_eq_self) simp_all
  then show ?thesis by (simp add: signed_of_int)
qed

lemma int64_array_sint: "int64_array ns = Inr ws \<Longrightarrow> map sint ws = ns"
  by (auto simp: int64_array_def list_all_iff sint_in_range map_idI split: if_splits)

lemma accumulate_deltas: "accumulate a (map2 (\<lambda>a b. b - a) (a # ns) ns) = ns"
  by (induction ns arbitrary: a) simp_all

lemma undo_deltas: "accumulate 0 (deltas ns) = ns"
  using accumulate_deltas by (cases ns) (simp_all add: deltas_def)

lemma length_deltas: "length (deltas ns) = length ns"
  by (cases ns) (simp_all add: deltas_def)

lemma pack_deltas_length: "pack_deltas ns = Inr bs \<Longrightarrow> length bs = 8 * length ns"
  by (auto simp: pack_deltas_def int64_array_def length_deltas split: if_splits)

lemma unpack_deltas_pack: "pack_deltas ns = Inr bs \<Longrightarrow> list_all in_int64 ns \<Longrightarrow> unpack_deltas bs = Inr ns"
proof -
  assume "pack_deltas ns = Inr bs" "list_all in_int64 ns"
  moreover from this obtain ws where ws: "int64_array (deltas ns) = Inr ws" "bs = to_bytes ws"
    by (auto simp: pack_deltas_def)
  moreover have "accumulate 0 (map sint ws) = ns" using int64_array_sint [OF ws(1)] undo_deltas by simp
  moreover have "int64_array ns = Inr (map word_of_int ns)" using calculation(2) by (simp add: int64_array_def)
  ultimately show ?thesis using int64_array_sint [of ns] by (simp add: unpack_deltas_def from_to_bytes)
qed

lemma unpack_floats_pack: "unpack_floats (pack_floats vs) = Inr vs"
  by (simp add: unpack_floats_def pack_floats_def from_to_bytes)

section \<open>What packs\<close>

lemma pack_deltas_ok_iff: "(\<exists>bs. pack_deltas ns = Inr bs) \<longleftrightarrow> list_all in_int64 (deltas ns)"
  by (auto simp: pack_deltas_def int64_array_def)

text \<open>Counting up from 0, or any numbers of one sign, never overflows a difference.\<close>

lemma pack_deltas_one_sign: "list_all (\<lambda>n. 0 \<le> n \<and> n < 2 ^ 63) ns \<Longrightarrow> \<exists>bs. pack_deltas ns = Inr bs"
proof -
  assume ns: "list_all (\<lambda>n. 0 \<le> n \<and> n < 2 ^ 63) ns"
  have "in_int64 (b - a)" if "(a, b) \<in> set (zip ns (tl ns))" for a b
  proof -
    have "a \<in> set ns" "b \<in> set (tl ns)" using that by (auto dest: set_zip_leftD set_zip_rightD)
    moreover from this(2) have "b \<in> set ns" by (cases ns) simp_all
    ultimately have "0 \<le> a" "a < 2 ^ 63" "0 \<le> b" "b < 2 ^ 63" using ns unfolding list_all_iff by blast+
    then show ?thesis unfolding in_int64_def by linarith
  qed
  moreover have "\<forall>n \<in> set (take 1 ns). in_int64 n"
    using ns by (fastforce simp: list_all_iff in_int64_def dest: in_set_takeD)
  ultimately have "list_all in_int64 (deltas ns)" by (auto simp: deltas_def list_all_iff)
  then show ?thesis by (simp add: pack_deltas_ok_iff)
qed

text \<open>Two steps that each fit, but not their difference.\<close>

lemma pack_deltas_overflow: "pack_deltas [- (2 ^ 62), 2 ^ 62 + 2 ^ 62 - 1] = Inl OverflowErr"
  by (simp add: pack_deltas_def int64_array_def deltas_def in_int64_def)

end
