(* ===== verification/Metric_Block.thy ===== *)
theory Metric_Block
imports Metric_Columns
begin

text \<open>
  Blocks of a metric stream, from core/metric_block.py: a prefix of lengths and a checksum, a header
  that sums up the keys, and a body of their packed columns. The JSON of the header, zlib and the float
  arithmetic of the summaries are parameters.
\<close>

unbundle bit_operations_syntax

section \<open>The checksum\<close>

definition crc_bit :: "32 word \<Rightarrow> 32 word" where
  "crc_bit c = (if c AND 1 = 1 then drop_bit 1 c XOR 0xEDB88320 else drop_bit 1 c)"

definition crc_byte :: "32 word \<Rightarrow> byte \<Rightarrow> 32 word" where
  "crc_byte c b = (crc_bit ^^ 8) (c XOR ucast b)"

definition crc32 :: "byte list \<Rightarrow> 32 word" where
  "crc32 bs = NOT (foldl crc_byte (NOT 0) bs)"

section \<open>Headers and blocks\<close>

record 's key_entry =
  ke_name :: string
  ke_n :: nat
  ke_has_step :: bool
  ke_s :: "(int \<times> int) option"        \<comment> \<open>the first and the last step\<close>
  ke_t :: "int \<times> int"
  ke_sum :: 's
  ke_first :: "float64 \<times> int option \<times> int"
  ke_last :: "float64 \<times> int option \<times> int"

record 's block_header =
  bh_keys :: "'s key_entry list"
  bh_inherited :: bool

record 's block =
  bl_header :: "'s block_header"
  bl_keys :: "(string \<times> columns) list"

record 's codec =
  summarize :: "columns \<Rightarrow> 's"                       \<comment> \<open>\<open>finite_summary\<close>\<close>
  dumps :: "'s block_header \<Rightarrow> byte list"             \<comment> \<open>\<open>json.dumps(...).encode()\<close>\<close>
  loads :: "byte list \<Rightarrow> 's block_header res"
  compress :: "byte list \<Rightarrow> byte list"
  decompress :: "byte list \<Rightarrow> byte list res"

definition point :: "columns \<Rightarrow> nat \<Rightarrow> float64 \<times> int option \<times> int" where
  "point cols i = (col_values cols ! i, map_option (\<lambda>ns. ns ! i) (col_steps cols), col_ts cols ! i)"

definition key_summary :: "'s codec \<Rightarrow> string \<Rightarrow> columns \<Rightarrow> 's key_entry" where
  \<comment> \<open>of columns that are not empty\<close>
  "key_summary cd name cols =
     (let n = length (col_ts cols); l = n - 1 in
      \<lparr>ke_name = name, ke_n = n, ke_has_step = has_step cols,
       ke_s = map_option (\<lambda>ns. (ns ! 0, ns ! l)) (col_steps cols), ke_t = (col_ts cols ! 0, col_ts cols ! l),
       ke_sum = summarize cd cols, ke_first = point cols 0, ke_last = point cols l\<rparr>)"

definition header_of :: "'s codec \<Rightarrow> bool \<Rightarrow> (string \<times> columns) list \<Rightarrow> 's block_header" where
  "header_of cd inherited ks = \<lparr>bh_keys = map (\<lambda>(name, cols). key_summary cd name cols) ks, bh_inherited = inherited\<rparr>"

definition pack_key :: "columns \<Rightarrow> byte list res" where
  "pack_key cols =
     bind_res (case col_steps cols of None \<Rightarrow> Inr [] | Some ns \<Rightarrow> pack_deltas ns) (\<lambda>steps.
     bind_res (pack_deltas (col_ts cols)) (\<lambda>ts. Inr (steps @ ts @ pack_floats (col_values cols))))"

fun pack_keys :: "(string \<times> columns) list \<Rightarrow> byte list res" where
  "pack_keys [] = Inr []"
| "pack_keys ((name, cols) # ks) = bind_res (pack_key cols) (\<lambda>bs. bind_res (pack_keys ks) (\<lambda>rest. Inr (bs @ rest)))"

definition MAGIC :: "byte list" where "MAGIC = [86, 77, 83, 66]"

definition BLOCK_VERSION :: byte where "BLOCK_VERSION = 1"

definition PREFIX_SIZE :: nat where "PREFIX_SIZE = 17"

definition frame :: "byte list \<Rightarrow> byte list \<Rightarrow> byte list" where
  \<comment> \<open>\<open>struct.pack("<4sBIII", ...)\<close> and what follows\<close>
  "frame header body =
     MAGIC @ BLOCK_VERSION # le_bytes 4 (length header) @ le_bytes 4 (length body) @ le_bytes 4 (unat (crc32 (header @ body)))
     @ header @ body"

definition encode_block :: "'s codec \<Rightarrow> (string \<times> columns) list \<Rightarrow> bool \<Rightarrow> byte list res" where
  "encode_block cd ks inherited =
     (if list_ex (\<lambda>(name, cols). col_ts cols = [] \<or> col_steps cols = Some []) ks then Inl IndexErr      \<comment> \<open>in \<open>key_summary\<close>\<close>
      else bind_res (pack_keys ks) (\<lambda>raw.
        let header = dumps cd (header_of cd inherited ks); body = compress cd raw
        in if length header < 2 ^ 32 \<and> length body < 2 ^ 32 then Inr (frame header body) else Inl StructErr))"

section \<open>Reading blocks\<close>

function frames :: "nat \<Rightarrow> byte list \<Rightarrow> (nat \<times> byte list \<times> byte list) list" where
  "frames offset data =
     (if length data < PREFIX_SIZE then []
      else
        let header_len = le_value (take 4 (drop 5 data)); body_len = le_value (take 4 (drop 9 data));
            crc = le_value (take 4 (drop 13 data));
            header = take header_len (drop 17 data); body = take body_len (drop (17 + header_len) data)
        in if take 4 data \<noteq> MAGIC \<or> data ! 4 \<noteq> BLOCK_VERSION then []
           else if length header < header_len \<or> length body < body_len then []
           else if unat (crc32 (header @ body)) \<noteq> crc then []
           else (offset, header, body) # frames (offset + 17 + header_len + body_len) (drop (17 + header_len + body_len) data))"
  by auto
termination by (relation "measure (\<lambda>(offset, data). length data)") (auto simp: PREFIX_SIZE_def)

declare frames.simps [simp del]

definition take_width :: "nat \<Rightarrow> byte list \<Rightarrow> byte list \<times> byte list" where
  "take_width n bs = (take n bs, drop n bs)"

fun unpack_keys :: "'s key_entry list \<Rightarrow> byte list \<Rightarrow> (string \<times> columns) list \<Rightarrow> (string \<times> columns) list res" where
  "unpack_keys [] bs acc = Inr acc"
| "unpack_keys (e # es) bs acc =
     (let w = 8 * ke_n e; (sb, bs1) = (if ke_has_step e then take_width w bs else ([], bs));
          (tb, bs2) = take_width w bs1; (vb, bs3) = take_width w bs2
      in bind_res (if ke_has_step e then bind_res (unpack_deltas sb) (\<lambda>ns. Inr (Some ns)) else Inr None) (\<lambda>steps.
         bind_res (unpack_deltas tb) (\<lambda>ts.
         bind_res (unpack_floats vb) (\<lambda>vs.
           unpack_keys es bs3 (od_put (ke_name e) \<lparr>col_steps = steps, col_ts = ts, col_values = vs\<rparr> acc)))))"

definition decode_frame :: "'s codec \<Rightarrow> nat \<times> byte list \<times> byte list \<Rightarrow> 's block res" where
  "decode_frame cd f = (case f of (offset, header, body) \<Rightarrow>
     bind_res (loads cd header) (\<lambda>h. bind_res (decompress cd body) (\<lambda>raw.
     bind_res (unpack_keys (bh_keys h) raw []) (\<lambda>ks. Inr \<lparr>bl_header = h, bl_keys = ks\<rparr>))))"

fun all_res :: "'a res list \<Rightarrow> 'a list res" where
  "all_res [] = Inr []"
| "all_res (r # rs) = bind_res r (\<lambda>x. bind_res (all_res rs) (\<lambda>xs. Inr (x # xs)))"

definition decode_blocks :: "'s codec \<Rightarrow> byte list \<Rightarrow> 's block list res" where
  "decode_blocks cd data = all_res (map (decode_frame cd) (frames 0 data))"

definition read_headers :: "'s codec \<Rightarrow> byte list \<Rightarrow> 's block_header list res" where
  "read_headers cd data = all_res (map (\<lambda>(offset, header, body). loads cd header) (frames 0 data))"

definition intact_length :: "byte list \<Rightarrow> nat" where
  "intact_length data =
     (case rev (frames 0 data) of [] \<Rightarrow> 0 | (offset, header, body) # _ \<Rightarrow> offset + PREFIX_SIZE + length header + length body)"

definition header_at :: "'s codec \<Rightarrow> byte list \<Rightarrow> nat \<Rightarrow> ('s block_header \<times> nat) option res" where
  \<comment> \<open>of an object whose bytes are \<open>data\<close>\<close>
  "header_at cd data offset =
     (if offset + PREFIX_SIZE > length data then Inr None
      else
        let prefix_bytes = take PREFIX_SIZE (drop offset data);
            header_len = le_value (take 4 (drop 5 prefix_bytes)); body_len = le_value (take 4 (drop 9 prefix_bytes));
            total_len = PREFIX_SIZE + header_len + body_len
        in if take 4 prefix_bytes \<noteq> MAGIC \<or> prefix_bytes ! 4 \<noteq> BLOCK_VERSION \<or> offset + total_len > length data then Inr None
           else bind_res (loads cd (take header_len (drop (offset + PREFIX_SIZE) data))) (\<lambda>h. Inr (Some (h, total_len))))"

section \<open>Frames\<close>

definition prefix_of :: "nat \<Rightarrow> nat \<Rightarrow> nat \<Rightarrow> byte list" where
  "prefix_of header_len body_len crc = MAGIC @ BLOCK_VERSION # le_bytes 4 header_len @ le_bytes 4 body_len @ le_bytes 4 crc"

lemma frame_prefix: "frame header body = prefix_of (length header) (length body) (unat (crc32 (header @ body))) @ header @ body"
  by (simp add: frame_def prefix_of_def)

lemma length_prefix_of [simp]: "length (prefix_of h b c) = PREFIX_SIZE"
  by (simp add: prefix_of_def MAGIC_def PREFIX_SIZE_def)

lemma length_frame: "length (frame header body) = PREFIX_SIZE + length header + length body"
  by (simp add: frame_prefix)

lemma prefix_parts:
  "take 4 (prefix_of h b c @ t) = MAGIC" "(prefix_of h b c @ t) ! 4 = BLOCK_VERSION"
  "take 4 (drop 5 (prefix_of h b c @ t)) = le_bytes 4 h" "take 4 (drop 9 (prefix_of h b c @ t)) = le_bytes 4 b"
  "take 4 (drop 13 (prefix_of h b c @ t)) = le_bytes 4 c"
  by (simp_all add: prefix_of_def MAGIC_def)

lemma drop_prefix: "drop 17 (prefix_of h b c @ t) = t" "drop (17 + n) (prefix_of h b c @ t) = drop n t"
proof -
  have "length (prefix_of h b c) = 17" by (simp add: PREFIX_SIZE_def)
  then show "drop 17 (prefix_of h b c @ t) = t" by simp
  then show "drop (17 + n) (prefix_of h b c @ t) = drop n t" by (metis add.commute drop_drop)
qed

lemma frames_prefix:
  assumes "h < 2 ^ 32" "b < 2 ^ 32" "c < 2 ^ 32"
  shows "frames offset (prefix_of h b c @ t) =
    (if length t < h + b \<or> unat (crc32 (take h t @ take b (drop h t))) \<noteq> c then []
     else (offset, take h t, take b (drop h t)) # frames (offset + 17 + h + b) (drop (h + b) t))"
proof -
  have lens: "le_value (le_bytes 4 h) = h" "le_value (le_bytes 4 b) = b" "le_value (le_bytes 4 c) = c"
    using assms by (simp_all add: le_value_bytes)
  have size: "\<not> length (prefix_of h b c @ t) < PREFIX_SIZE" by simp
  have rest: "drop (17 + h + b) (prefix_of h b c @ t) = drop (h + b) t"
    using drop_prefix(2) [of "h + b"] by (simp only: add.assoc)
  have short: "length (take h t) < h \<or> length (take b (drop h t)) < b \<longleftrightarrow> length t < h + b" by auto
  show ?thesis
    unfolding frames.simps [of offset "prefix_of h b c @ t"] Let_def prefix_parts lens rest
    unfolding drop_prefix short using size by (simp del: length_take)
qed

lemma crc_below: "unat (crc32 bs) < 2 ^ 32"
  using unsigned_less [of "crc32 bs"] by simp

definition framed :: "byte list \<times> byte list \<Rightarrow> byte list" where
  "framed f = frame (fst f) (snd f)"

definition fits :: "byte list \<times> byte list \<Rightarrow> bool" where
  "fits f = (length (fst f) < 2 ^ 32 \<and> length (snd f) < 2 ^ 32)"

lemma frames_framed: "fits f \<Longrightarrow> frames offset (framed f @ t) = (offset, f) # frames (offset + length (framed f)) t"
  using frames_prefix [of "length (fst f)" "length (snd f)" "unat (crc32 (fst f @ snd f))" offset "fst f @ snd f @ t"] crc_below
  by (simp add: fits_def framed_def frame_prefix PREFIX_SIZE_def add.assoc)

lemma frames_torn:
  assumes "fits f" "n < length (framed f)"
  shows "frames offset (take n (framed f)) = []"
proof (cases "n < PREFIX_SIZE")
  case True
  then have "length (take n (framed f)) < PREFIX_SIZE" by simp
  then show ?thesis by (subst frames.simps) (simp only: if_True)
next
  case False
  define t where "t = take (n - PREFIX_SIZE) (fst f @ snd f)"
  have torn: "take n (framed f) = prefix_of (length (fst f)) (length (snd f)) (unat (crc32 (fst f @ snd f))) @ t"
    using False by (simp add: framed_def frame_prefix t_def)
  have "length t < length (fst f) + length (snd f)"
    using assms(2) False by (simp add: t_def framed_def length_frame)
  then show ?thesis
    using frames_prefix [of "length (fst f)" "length (snd f)" "unat (crc32 (fst f @ snd f))" offset t] assms(1) crc_below
    unfolding torn fits_def by (simp only: simp_thms if_True)
qed

fun placed :: "nat \<Rightarrow> (byte list \<times> byte list) list \<Rightarrow> (nat \<times> byte list \<times> byte list) list" where
  "placed offset [] = []"
| "placed offset (f # fs) = (offset, f) # placed (offset + length (framed f)) fs"

lemma map_snd_placed: "map snd (placed offset fs) = fs"
  by (induction fs arbitrary: offset) simp_all

lemma frames_concat:
  "\<forall>f \<in> set fs. fits f \<Longrightarrow> frames offset (concat (map framed fs) @ t) = placed offset fs @ frames (offset + length (concat (map framed fs))) t"
  by (induction fs arbitrary: offset) (simp_all add: frames_framed add.assoc)

lemma frames_Nil: "frames offset [] = []"
  by (subst frames.simps) (simp add: PREFIX_SIZE_def)

text \<open>A stream as it is found on a disk: whole frames, and a tail in which none begins.\<close>

definition stream_of :: "(byte list \<times> byte list) list \<Rightarrow> byte list \<Rightarrow> byte list" where
  "stream_of fs torn = concat (map framed fs) @ torn"

definition torn_tail :: "byte list \<Rightarrow> bool" where
  "torn_tail t = (\<forall>offset. frames offset t = [])"

lemma frames_stream: "\<forall>f \<in> set fs. fits f \<Longrightarrow> torn_tail t \<Longrightarrow> frames offset (stream_of fs t) = placed offset fs"
  by (simp add: stream_of_def frames_concat torn_tail_def)

lemma placed_snoc: "placed offset (fs @ [f]) = placed offset fs @ [(offset + length (concat (map framed fs)), f)]"
  by (induction fs arbitrary: offset) (simp_all add: add.assoc)

lemma intact_length_stream:
  assumes "\<forall>f \<in> set fs. fits f" "torn_tail t"
  shows "intact_length (stream_of fs t) = length (concat (map framed fs))"
proof (cases fs rule: rev_cases)
  case Nil
  then show ?thesis using frames_stream [OF assms] by (simp add: intact_length_def)
next
  case (snoc fs' f)
  then show ?thesis using frames_stream [OF assms, of 0]
    by (simp add: intact_length_def placed_snoc framed_def length_frame split: prod.split)
qed

lemma decode_stream:
  "\<forall>f \<in> set fs. fits f \<Longrightarrow> torn_tail t \<Longrightarrow> decode_blocks cd (stream_of fs t) = all_res (map (\<lambda>f. decode_frame cd (0, f)) fs)"
proof -
  assume "\<forall>f \<in> set fs. fits f" "torn_tail t"
  then have "decode_blocks cd (stream_of fs t) = all_res (map (decode_frame cd) (placed 0 fs))"
    by (simp add: decode_blocks_def frames_stream)
  also have "map (decode_frame cd) (placed 0 fs) = map (\<lambda>f. decode_frame cd (0, f)) (map snd (placed 0 fs))"
    by (simp add: decode_frame_def case_prod_unfold)
  finally show ?thesis by (simp add: map_snd_placed)
qed

section \<open>Keys\<close>

definition wf_columns :: "columns \<Rightarrow> bool" where
  \<comment> \<open>arrays of one length\<close>
  "wf_columns cols =
     (length (col_values cols) = length (col_ts cols) \<and> list_all in_int64 (col_ts cols)
      \<and> (case col_steps cols of None \<Rightarrow> True | Some ns \<Rightarrow> length ns = length (col_ts cols) \<and> list_all in_int64 ns))"

lemma pack_key_parts:
  assumes "pack_key cols = Inr bs" "wf_columns cols"
  obtains sb tb where "bs = sb @ tb @ pack_floats (col_values cols)"
    and "length sb = (if has_step cols then 8 * length (col_ts cols) else 0)" "length tb = 8 * length (col_ts cols)"
    and "has_step cols \<Longrightarrow> unpack_deltas sb = Inr (the (col_steps cols))" "unpack_deltas tb = Inr (col_ts cols)"
proof -
  obtain sb tb where b: "(case col_steps cols of None \<Rightarrow> Inr [] | Some ns \<Rightarrow> pack_deltas ns) = Inr sb" "pack_deltas (col_ts cols) = Inr tb"
    "bs = sb @ tb @ pack_floats (col_values cols)" using assms(1) by (auto simp: pack_key_def)
  show thesis
  proof (rule that [OF b(3)])
    show "length sb = (if has_step cols then 8 * length (col_ts cols) else 0)"
      using b(1) assms(2) by (auto simp: has_step_def wf_columns_def pack_deltas_length split: option.splits)
    show "has_step cols \<Longrightarrow> unpack_deltas sb = Inr (the (col_steps cols))"
      using b(1) assms(2) by (auto simp: has_step_def wf_columns_def unpack_deltas_pack)
  qed (use b(2) assms(2) in \<open>auto simp: wf_columns_def pack_deltas_length unpack_deltas_pack\<close>)
qed

lemma unpack_keys_packed:
  assumes "pack_keys ks = Inr bs" "\<forall>(name, cols) \<in> set ks. wf_columns cols"
  shows "unpack_keys (bh_keys (header_of cd inherited ks)) (bs @ rest) acc = Inr (fold (\<lambda>(name, cols). od_put name cols) ks acc)"
  using assms
proof (induction ks arbitrary: bs acc)
  case (Cons k ks)
  obtain name cols where k: "k = (name, cols)" by (cases k)
  obtain kb kbs where b: "pack_key cols = Inr kb" "pack_keys ks = Inr kbs" "bs = kb @ kbs"
    using Cons.prems(1) by (auto simp: k)
  have wf: "wf_columns cols" using Cons.prems(2) by (simp add: k)
  obtain sb tb where p: "kb = sb @ tb @ pack_floats (col_values cols)"
    "length sb = (if has_step cols then 8 * length (col_ts cols) else 0)" "length tb = 8 * length (col_ts cols)"
    "has_step cols \<Longrightarrow> unpack_deltas sb = Inr (the (col_steps cols))" "unpack_deltas tb = Inr (col_ts cols)"
    using pack_key_parts [OF b(1) wf] by blast
  have vals: "length (pack_floats (col_values cols)) = 8 * length (col_ts cols)"
    using wf by (simp add: pack_floats_def wf_columns_def)
  have cols: "\<lparr>col_steps = (if has_step cols then Some (the (col_steps cols)) else None), col_ts = col_ts cols, col_values = col_values cols\<rparr> = cols"
    by (auto simp: has_step_def)
  have later: "unpack_keys (bh_keys (header_of cd inherited ks)) (kbs @ rest) (od_put name cols acc)
      = Inr (fold (\<lambda>(name, cols). od_put name cols) ks (od_put name cols acc))"
    using Cons.prems(2) by (intro Cons.IH b(2)) simp
  have names: "bh_keys (header_of cd inherited (k # ks)) = key_summary cd name cols # bh_keys (header_of cd inherited ks)"
    by (simp add: header_of_def k)
  show ?case
  proof (cases "has_step cols")
    case True
    then show ?thesis using p vals cols later
      unfolding names by (simp add: key_summary_def Let_def take_width_def b(3) k unpack_floats_pack)
  next
    case False
    then show ?thesis using p vals cols later
      unfolding names by (simp add: key_summary_def Let_def take_width_def b(3) k unpack_floats_pack)
  qed
qed (simp add: header_of_def)

lemma fold_od_put_new: "distinct (map fst (acc @ ks)) \<Longrightarrow> fold (\<lambda>(name, cols). od_put name cols) ks acc = acc @ ks"
proof (induction ks arbitrary: acc)
  case (Cons k ks)
  obtain name cols where k: "k = (name, cols)" by (cases k)
  have "od_put name cols acc = acc @ [k]"
    using Cons.prems by (induction acc) (auto simp: k)
  then show ?case using Cons.IH [of "acc @ [k]"] Cons.prems by (simp add: k)
qed simp

definition storable :: "'s codec \<Rightarrow> (string \<times> columns) list \<times> bool \<Rightarrow> bool" where
  \<comment> \<open>a block the writer builds, whose header and body JSON and zlib give back\<close>
  "storable cd b = (case b of (ks, inherited) \<Rightarrow>
     distinct (map fst ks) \<and> list_all (\<lambda>(name, cols). wf_columns cols) ks
      \<and> loads cd (dumps cd (header_of cd inherited ks)) = Inr (header_of cd inherited ks)
      \<and> (case pack_keys ks of Inl e \<Rightarrow> True | Inr raw \<Rightarrow> decompress cd (compress cd raw) = Inr raw))"

definition read_back :: "'s codec \<Rightarrow> (string \<times> columns) list \<times> bool \<Rightarrow> 's block" where
  "read_back cd b = (case b of (ks, inherited) \<Rightarrow> \<lparr>bl_header = header_of cd inherited ks, bl_keys = ks\<rparr>)"

definition encoded :: "'s codec \<Rightarrow> (string \<times> columns) list \<times> bool \<Rightarrow> byte list res" where
  "encoded cd b = (case b of (ks, inherited) \<Rightarrow> encode_block cd ks inherited)"

lemma encoded_frame:
  assumes "encoded cd b = Inr data" "storable cd b"
  obtains f where "data = framed f" "fits f" "\<And>offset. decode_frame cd (offset, f) = Inr (read_back cd b)"
proof -
  obtain ks inherited where b: "b = (ks, inherited)" by (cases b)
  obtain raw where raw: "pack_keys ks = Inr raw" using assms(1) by (auto simp: encoded_def b encode_block_def split: if_splits)
  define f where "f = (dumps cd (header_of cd inherited ks), compress cd raw)"
  have "data = framed f" "fits f"
    using assms(1) by (auto simp: encoded_def b encode_block_def raw framed_def f_def fits_def Let_def split: if_splits)
  moreover have "unpack_keys (bh_keys (header_of cd inherited ks)) raw [] = Inr ks"
    using unpack_keys_packed [OF raw, of cd inherited "[]" "[]"] assms(2) fold_od_put_new [of "[]" ks]
    by (simp add: storable_def b list_all_iff)
  then have "decode_frame cd (offset, f) = Inr (read_back cd b)" for offset
    using assms(2) by (simp add: decode_frame_def f_def storable_def b raw read_back_def)
  ultimately show thesis using that by blast
qed

lemma encoded_frames:
  assumes "map (encoded cd) bs = map Inr datas" "\<forall>b \<in> set bs. storable cd b"
  obtains fs where "concat datas = concat (map framed fs)" "\<forall>f \<in> set fs. fits f"
    "map (\<lambda>f. decode_frame cd (0, f)) fs = map (\<lambda>b. Inr (read_back cd b)) bs"
proof -
  have "\<exists>fs. concat datas = concat (map framed fs) \<and> (\<forall>f \<in> set fs. fits f)
      \<and> map (\<lambda>f. decode_frame cd (0, f)) fs = map (\<lambda>b. Inr (read_back cd b)) bs"
    using assms
  proof (induction bs arbitrary: datas)
    case (Cons b bs)
    then obtain d ds where d: "datas = d # ds" "encoded cd b = Inr d" "map (encoded cd) bs = map Inr ds"
      by (cases datas) auto
    obtain f where f: "d = framed f" "fits f" "decode_frame cd (0, f) = Inr (read_back cd b)"
      using encoded_frame [OF d(2)] Cons.prems(2) by (metis list.set_intros(1))
    obtain fs where "concat ds = concat (map framed fs) \<and> (\<forall>f \<in> set fs. fits f)
      \<and> map (\<lambda>f. decode_frame cd (0, f)) fs = map (\<lambda>b. Inr (read_back cd b)) bs"
      using Cons.IH [OF d(3)] Cons.prems(2) by auto
    then show ?case using d(1) f by (intro exI [of _ "f # fs"]) simp
  qed simp
  then show thesis using that by blast
qed

lemma all_res_Inr: "all_res (map (\<lambda>x. Inr (g x)) xs) = Inr (map g xs)"
  by (induction xs) simp_all

lemma torn_frame: "fits f \<Longrightarrow> n < length (framed f) \<Longrightarrow> torn_tail (take n (framed f))"
  by (simp add: torn_tail_def frames_torn)

text \<open>
  C12. A metric stream reads back what was written to it: the blocks whole, steps, timestamps and values
  of every key bit for bit, whatever part of a further block was left at its end; and the length a
  writer truncates to is exactly where that part begins.
\<close>

theorem stream_decodes:
  assumes "map (encoded cd) bs = map Inr datas" "\<forall>b \<in> set bs. storable cd b"
    and "encoded cd cut_short = Inr data" "storable cd cut_short" "n < length data"
  shows "decode_blocks cd (concat datas @ take n data) = Inr (map (read_back cd) bs)
    \<and> intact_length (concat datas @ take n data) = length (concat datas)"
proof -
  obtain fs where fs: "concat datas = concat (map framed fs)" "\<forall>f \<in> set fs. fits f"
    "map (\<lambda>f. decode_frame cd (0, f)) fs = map (\<lambda>b. Inr (read_back cd b)) bs"
    using encoded_frames [OF assms(1,2)] by blast
  obtain f where f: "data = framed f" "fits f" using encoded_frame [OF assms(3,4)] by blast
  have torn: "torn_tail (take n data)" using torn_frame f assms(5) by simp
  have "concat datas @ take n data = stream_of fs (take n data)" by (simp add: stream_of_def fs(1))
  then show ?thesis
    using decode_stream [OF fs(2) torn, of cd] intact_length_stream [OF fs(2) torn] fs(1,3) by (simp add: all_res_Inr)
qed

text \<open>One key of three points, in a block that is whole and in one that is cut off.\<close>

definition demo_keys :: "(string \<times> columns) list" where
  "demo_keys = [(''loss'', \<lparr>col_steps = Some [1, 2, 3], col_ts = [100, 105, 103], col_values = [7, 8, 9]\<rparr>)]"

definition bare_codec :: "unit codec" where
  \<comment> \<open>for the two headers of the demonstration\<close>
  "bare_codec =
     \<lparr>summarize = (\<lambda>_. ()), dumps = (\<lambda>h. if bh_inherited h then [1] else [0]),
      loads = (\<lambda>b. Inr (header_of \<lparr>summarize = (\<lambda>_. ()), dumps = (\<lambda>h. []), loads = (\<lambda>_. Inl ValueErr), compress = id, decompress = Inr\<rparr>
                  (b = [1]) demo_keys)),
      compress = id, decompress = Inr\<rparr>"

lemma demo_packs: "\<exists>raw. pack_keys demo_keys = Inr raw \<and> length raw = 72"
  by (auto simp: demo_keys_def pack_key_def pack_deltas_def int64_array_def deltas_def in_int64_def pack_floats_def)

lemma demo_storable: "storable bare_codec (demo_keys, inherited)"
  by (auto simp: storable_def bare_codec_def header_of_def key_summary_def wf_columns_def in_int64_def demo_keys_def split: sum.split)

lemma demo_encodes: "\<exists>data. encoded bare_codec (demo_keys, inherited) = Inr data \<and> length data = 90"
proof -
  obtain raw where raw: "pack_keys demo_keys = Inr raw" "length raw = 72" using demo_packs by blast
  have "length (dumps bare_codec h) = 1" "compress bare_codec raw = raw" for h by (simp_all add: bare_codec_def)
  then show ?thesis using raw(2) by (simp add: encoded_def encode_block_def raw(1) length_frame PREFIX_SIZE_def, simp add: demo_keys_def)
qed

theorem stream_decodes_witness:
  "\<exists>whole cut_off. encoded bare_codec (demo_keys, False) = Inr whole \<and> encoded bare_codec (demo_keys, True) = Inr cut_off
     \<and> decode_blocks bare_codec (whole @ take 60 cut_off) = Inr [read_back bare_codec (demo_keys, False)]"
proof -
  obtain whole where whole: "encoded bare_codec (demo_keys, False) = Inr whole" using demo_encodes by blast
  obtain cut_off where cut_off: "encoded bare_codec (demo_keys, True) = Inr cut_off" "length cut_off = 90" using demo_encodes by blast
  have "decode_blocks bare_codec (concat [whole] @ take 60 cut_off) = Inr (map (read_back bare_codec) [(demo_keys, False)])"
    using stream_decodes [of bare_codec "[(demo_keys, False)]" "[whole]" "(demo_keys, True)" cut_off 60]
    by (simp add: whole cut_off demo_storable)
  then show ?thesis using whole cut_off by auto
qed

end
