(* ===== verification/Metric_Stream.thy ===== *)
theory Metric_Stream
imports Metric_Block "HOL-Library.Multiset"
begin

text \<open>
  Writing metric streams: the writer's buffers from core/metric_stream.py, the appends of
  storage/local_metrics.py with processes that die while they write, and the log entries a stream's
  points are shown as, from core/metric_entries.py. Retired streams and orphaned records, of which a
  write is refused, are a parameter.
\<close>

section \<open>Names\<close>

definition TWIN_SUFFIX :: string where "TWIN_SUFFIX = ''@nostep''"

definition INHERITED_SUFFIX :: string where "INHERITED_SUFFIX = ''@inherited''"

definition stepless_twin :: "string \<Rightarrow> string" where
  "stepless_twin key = key @ TWIN_SUFFIX"

definition inherited_twin :: "string \<Rightarrow> string" where
  "inherited_twin name = name @ INHERITED_SUFFIX"

definition is_inherited :: "string \<Rightarrow> bool" where
  "is_inherited name = ends_with INHERITED_SUFFIX name"

definition base_key :: "string \<Rightarrow> string" where
  "base_key name =
     (let name = if is_inherited name then take (length name - length INHERITED_SUFFIX) name else name
      in if ends_with TWIN_SUFFIX name then take (length name - length TWIN_SUFFIX) name else name)"

section \<open>The writer\<close>

record buffer =
  bf_steps :: "int list"
  bf_ts :: "int list"
  bf_values :: "float64 list"

definition new_buffer :: buffer where
  "new_buffer = \<lparr>bf_steps = [], bf_ts = [], bf_values = []\<rparr>"

definition buffer_add :: "buffer \<Rightarrow> int option \<Rightarrow> int \<Rightarrow> float64 \<Rightarrow> unit res \<times> buffer" where
  \<comment> \<open>an array takes 64-bit integers only\<close>
  "buffer_add b step ts v =
     (if step \<noteq> None \<and> \<not> in_int64 (the step) then (Inl OverflowErr, b)
      else
        let b = (case step of None \<Rightarrow> b | Some s \<Rightarrow> b\<lparr>bf_steps := bf_steps b @ [s]\<rparr>)
        in if \<not> in_int64 ts then (Inl OverflowErr, b)
           else (Inr (), b\<lparr>bf_ts := bf_ts b @ [ts], bf_values := bf_values b @ [v]\<rparr>))"

definition buffer_columns :: "bool \<Rightarrow> buffer \<Rightarrow> columns" where
  "buffer_columns stepped b =
     (let order = sort_key (\<lambda>i. bf_ts b ! i) [0..<length (bf_ts b)]
      in if order = [0..<length (bf_ts b)]
         then \<lparr>col_steps = if stepped then Some (bf_steps b) else None, col_ts = bf_ts b, col_values = bf_values b\<rparr>
         else \<lparr>col_steps = if stepped then Some (map (\<lambda>i. bf_steps b ! i) order) else None,
               col_ts = map (\<lambda>i. bf_ts b ! i) order, col_values = map (\<lambda>i. bf_values b ! i) order\<rparr>)"

record metric_writer =
  mw_stepped :: "(string \<times> buffer) list"
  mw_stepless :: "(string \<times> buffer) list"
  mw_has_steps :: "string set"

definition new_writer :: metric_writer where
  "new_writer = \<lparr>mw_stepped = [], mw_stepless = [], mw_has_steps = {}\<rparr>"

definition put_point :: "string \<Rightarrow> int option \<Rightarrow> int \<Rightarrow> float64 \<Rightarrow> (string \<times> buffer) list \<Rightarrow> unit res \<times> (string \<times> buffer) list" where
  "put_point key step ts v bufs =
     (case buffer_add (case map_of bufs key of None \<Rightarrow> new_buffer | Some b \<Rightarrow> b) step ts v of (r, b) \<Rightarrow>
        (r, od_put key b bufs))"

definition writer_add :: "string \<Rightarrow> float64 \<Rightarrow> int option \<Rightarrow> int \<Rightarrow> metric_writer \<Rightarrow> unit res \<times> metric_writer" where
  "writer_add key v step ts w =
     (if step = None
      then (case put_point key step ts v (mw_stepless w) of (r, bufs) \<Rightarrow> (r, w\<lparr>mw_stepless := bufs\<rparr>))
      else (case put_point key step ts v (mw_stepped w) of (r, bufs) \<Rightarrow> (r, w\<lparr>mw_stepped := bufs\<rparr>)))"

definition block_keys :: "metric_writer \<Rightarrow> (string \<times> columns) list" where
  "block_keys w =
     fold (\<lambda>(key, b) ks.
             let split_off = key \<in> fst ` set (mw_stepped w) \<or> key \<in> mw_has_steps w
             in od_put (if split_off then stepless_twin key else key) (buffer_columns False b) ks)
       (mw_stepless w) (map (\<lambda>(key, b). (key, buffer_columns True b)) (mw_stepped w))"

definition writer_flush :: "'s codec \<Rightarrow> (byte list \<Rightarrow> bool) \<Rightarrow> bool \<Rightarrow> metric_writer \<Rightarrow> bool res \<times> metric_writer" where
  \<comment> \<open>\<open>took\<close> answers whether the storage took the block\<close>
  "writer_flush cd took inherited w =
     (if block_keys w = [] then (Inr True, w)
      else (case encode_block cd (block_keys w) inherited of
              Inl e \<Rightarrow> (Inl e, w)
            | Inr data \<Rightarrow>
                if \<not> took data then (Inr False, w)
                else (Inr True, w\<lparr>mw_has_steps := mw_has_steps w \<union> fst ` set (mw_stepped w), mw_stepped := [], mw_stepless := []\<rparr>)))"

section \<open>Appending to the file\<close>

record stream_file =
  sf_bytes :: "byte list"
  sf_checked :: bool             \<comment> \<open>the running process has looked at the file's end\<close>

definition truncate_torn_tail :: "byte list \<Rightarrow> byte list" where
  "truncate_torn_tail bytes = (if length bytes > intact_length bytes then take (intact_length bytes) bytes else bytes)"

definition checked_file :: "stream_file \<Rightarrow> stream_file" where
  "checked_file f = (if sf_checked f then f else \<lparr>sf_bytes = truncate_torn_tail (sf_bytes f), sf_checked = True\<rparr>)"

definition append_metric_block :: "bool \<Rightarrow> byte list \<Rightarrow> stream_file \<Rightarrow> bool \<times> stream_file" where
  "append_metric_block refused data f =
     (if refused then (False, f) else (let f = checked_file f in (True, f\<lparr>sf_bytes := sf_bytes f @ data\<rparr>)))"

datatype file_event =
    Appended "(string \<times> columns) list \<times> bool"
  | Died "(string \<times> columns) list \<times> bool" nat     \<comment> \<open>the process, after that many bytes of the block\<close>
  | Restarted

fun file_step :: "'s codec \<Rightarrow> file_event \<Rightarrow> stream_file \<Rightarrow> stream_file" where
  "file_step cd (Appended b) f =
     (case encoded cd b of Inl e \<Rightarrow> f | Inr data \<Rightarrow> snd (append_metric_block False data f))"
| "file_step cd (Died b n) f =
     (case encoded cd b of
        Inl e \<Rightarrow> f
      | Inr data \<Rightarrow> (snd (append_metric_block False (take n data) f))\<lparr>sf_checked := False\<rparr>)"
| "file_step cd Restarted f = f\<lparr>sf_checked := False\<rparr>"

definition written_whole :: "'s codec \<Rightarrow> file_event \<Rightarrow> ((string \<times> columns) list \<times> bool) list" where
  "written_whole cd ev = (case ev of
     Appended b \<Rightarrow> (case encoded cd b of Inl e \<Rightarrow> [] | Inr data \<Rightarrow> [b])
   | Died b n \<Rightarrow> (case encoded cd b of Inl e \<Rightarrow> [] | Inr data \<Rightarrow> if length data \<le> n then [b] else [])
   | Restarted \<Rightarrow> [])"

fun event_block :: "file_event \<Rightarrow> ((string \<times> columns) list \<times> bool) list" where
  "event_block (Appended b) = [b]"
| "event_block (Died b n) = [b]"
| "event_block Restarted = []"

section \<open>A stream survives its writers\<close>

definition holds_blocks :: "'s codec \<Rightarrow> ((string \<times> columns) list \<times> bool) list \<Rightarrow> stream_file \<Rightarrow> bool" where
  "holds_blocks cd bs f =
     (\<exists>fs t. sf_bytes f = stream_of fs t \<and> (\<forall>x \<in> set fs. fits x) \<and> torn_tail t \<and> (sf_checked f \<longrightarrow> t = [])
       \<and> map (\<lambda>x. decode_frame cd (0, x)) fs = map (\<lambda>b. Inr (read_back cd b)) bs)"

lemma torn_Nil: "torn_tail []"
  by (simp add: torn_tail_def frames_Nil)

lemma truncate_stream: "\<forall>x \<in> set fs. fits x \<Longrightarrow> torn_tail t \<Longrightarrow> truncate_torn_tail (stream_of fs t) = stream_of fs []"
  unfolding truncate_torn_tail_def intact_length_stream by (auto simp: stream_of_def)

lemma holds_checked: "holds_blocks cd bs f \<Longrightarrow> \<exists>fs. sf_bytes (checked_file f) = stream_of fs [] \<and> (\<forall>x \<in> set fs. fits x)
    \<and> map (\<lambda>x. decode_frame cd (0, x)) fs = map (\<lambda>b. Inr (read_back cd b)) bs"
  by (auto simp: holds_blocks_def checked_file_def truncate_stream)

lemma file_step_holds:
  assumes "holds_blocks cd bs f" "\<forall>b \<in> set (event_block ev). storable cd b"
  shows "holds_blocks cd (bs @ written_whole cd ev) (file_step cd ev f)"
proof (cases ev)
  case Restarted
  then show ?thesis using assms(1) by (auto simp: holds_blocks_def written_whole_def)
next
  case (Appended b)
  obtain fs where fs: "sf_bytes (checked_file f) = stream_of fs []" "\<forall>x \<in> set fs. fits x"
    "map (\<lambda>x. decode_frame cd (0, x)) fs = map (\<lambda>b. Inr (read_back cd b)) bs" using holds_checked [OF assms(1)] by blast
  show ?thesis
  proof (cases "encoded cd b")
    case (Inr data)
    obtain x where x: "data = framed x" "fits x" "decode_frame cd (0, x) = Inr (read_back cd b)"
      using encoded_frame [OF Inr] assms(2) Appended by (metis event_block.simps(1) list.set_intros(1))
    have "sf_bytes (file_step cd ev f) = stream_of (fs @ [x]) []"
      using fs(1) x(1) by (simp add: Appended Inr append_metric_block_def Let_def stream_of_def)
    then show ?thesis using fs(2,3) x(2,3) torn_Nil unfolding holds_blocks_def
      by (intro exI [of _ "fs @ [x]"] exI [of _ "[]"]) (simp add: written_whole_def Appended Inr)
  qed (use assms(1) in \<open>simp add: Appended written_whole_def\<close>)
next
  case (Died b n)
  obtain fs where fs: "sf_bytes (checked_file f) = stream_of fs []" "\<forall>x \<in> set fs. fits x"
    "map (\<lambda>x. decode_frame cd (0, x)) fs = map (\<lambda>b. Inr (read_back cd b)) bs" using holds_checked [OF assms(1)] by blast
  show ?thesis
  proof (cases "encoded cd b")
    case (Inr data)
    obtain x where x: "data = framed x" "fits x" "decode_frame cd (0, x) = Inr (read_back cd b)"
      using encoded_frame [OF Inr] assms(2) Died by (metis event_block.simps(2) list.set_intros(1))
    have bytes: "sf_bytes (file_step cd ev f) = stream_of fs (take n data)"
      using fs(1) by (simp add: Died Inr append_metric_block_def Let_def stream_of_def)
    show ?thesis
    proof (cases "length data \<le> n")
      case True
      then have "sf_bytes (file_step cd ev f) = stream_of (fs @ [x]) []" using bytes x(1) by (simp add: stream_of_def)
      then show ?thesis using fs(2,3) x(2,3) torn_Nil True unfolding holds_blocks_def
        by (intro exI [of _ "fs @ [x]"] exI [of _ "[]"]) (simp add: written_whole_def Died Inr)
    next
      case False
      then have "torn_tail (take n data)" using torn_frame [OF x(2)] x(1) by simp
      then show ?thesis using fs(2,3) bytes False unfolding holds_blocks_def
        by (intro exI [of _ fs] exI [of _ "take n data"]) (simp add: written_whole_def Died Inr append_metric_block_def)
    qed
  qed (use assms(1) in \<open>simp add: Died written_whole_def\<close>)
qed

lemma file_steps_hold:
  "holds_blocks cd bs f \<Longrightarrow> \<forall>ev \<in> set evs. \<forall>b \<in> set (event_block ev). storable cd b \<Longrightarrow>
    holds_blocks cd (bs @ concat (map (written_whole cd) evs)) (fold (file_step cd) evs f)"
proof (induction evs arbitrary: bs f)
  case (Cons ev evs)
  have "holds_blocks cd (bs @ written_whole cd ev) (file_step cd ev f)" using Cons.prems by (intro file_step_holds) simp_all
  from Cons.IH [OF this] Cons.prems(2) show ?case by simp
qed simp

lemma decode_holds: "holds_blocks cd bs f \<Longrightarrow> decode_blocks cd (sf_bytes f) = Inr (map (read_back cd) bs)"
  by (auto simp: holds_blocks_def decode_stream all_res_Inr)

text \<open>
  C13. A metric stream loses no block to a process that dies while it appends: after any sequence of
  appends, deaths at any byte of a block and restarts, the stream reads back exactly the blocks that
  were written whole, in order, for the next process cuts off what a dead one left before it appends.
\<close>

theorem append_survives_deaths:
  assumes "\<forall>ev \<in> set evs. \<forall>b \<in> set (event_block ev). storable cd b"
  shows "decode_blocks cd (sf_bytes (fold (file_step cd) evs \<lparr>sf_bytes = [], sf_checked = False\<rparr>))
    = Inr (map (read_back cd) (concat (map (written_whole cd) evs)))"
proof -
  have "holds_blocks cd [] \<lparr>sf_bytes = [], sf_checked = False\<rparr>"
    unfolding holds_blocks_def using torn_Nil by (intro exI [of _ "[]"]) (simp add: stream_of_def)
  from decode_holds [OF file_steps_hold [OF this assms]] show ?thesis by simp
qed

theorem append_survives_deaths_witness:
  "decode_blocks bare_codec (sf_bytes (fold (file_step bare_codec)
      [Appended (demo_keys, False), Died (demo_keys, True) 60, Appended (demo_keys, True)] \<lparr>sf_bytes = [], sf_checked = False\<rparr>))
    = Inr [read_back bare_codec (demo_keys, False), read_back bare_codec (demo_keys, True)]"
proof -
  obtain a b where "encoded bare_codec (demo_keys, False) = Inr a" "encoded bare_codec (demo_keys, True) = Inr b" "length b = 90"
    using demo_encodes by blast
  then have "concat (map (written_whole bare_codec) [Appended (demo_keys, False), Died (demo_keys, True) 60, Appended (demo_keys, True)])
      = [(demo_keys, False), (demo_keys, True)]" by (simp add: written_whole_def)
  then show ?thesis
    using append_survives_deaths [of "[Appended (demo_keys, False), Died (demo_keys, True) 60, Appended (demo_keys, True)]" bare_codec]
    by (simp add: demo_storable del: file_step.simps)
qed

end
