(* ===== verification/Metric_Points.thy ===== *)
theory Metric_Points
imports Metric_Stream
begin

text \<open>
  What the metric writer keeps: every point that is logged is in exactly one block or still buffered,
  whatever flushes fail; and showing a stream's points as log entries merges none of them away.
\<close>

section \<open>Points of buffers and columns\<close>

type_synonym mpoint = "int option \<times> int \<times> float64"        \<comment> \<open>step, timestamp, value\<close>

definition points_of :: "columns \<Rightarrow> mpoint list" where
  "points_of cols = map (\<lambda>i. case point cols i of (v, step, ts) \<Rightarrow> (step, ts, v)) [0..<length (col_ts cols)]"

definition buffer_points :: "bool \<Rightarrow> buffer \<Rightarrow> mpoint list" where
  "buffer_points stepped b =
     map (\<lambda>i. (if stepped then Some (bf_steps b ! i) else None, bf_ts b ! i, bf_values b ! i)) [0..<length (bf_ts b)]"

definition wf_buffer :: "bool \<Rightarrow> buffer \<Rightarrow> bool" where
  "wf_buffer stepped b =
     (length (bf_values b) = length (bf_ts b) \<and> bf_ts b \<noteq> [] \<and> list_all in_int64 (bf_ts b) \<and> list_all in_int64 (bf_steps b)
      \<and> length (bf_steps b) = (if stepped then length (bf_ts b) else 0))"

definition ts_order :: "buffer \<Rightarrow> nat list" where
  "ts_order b = sort_key (\<lambda>i. bf_ts b ! i) [0..<length (bf_ts b)]"

lemma ts_order_perm [simp]: "mset (ts_order b) = mset [0..<length (bf_ts b)]" "length (ts_order b) = length (bf_ts b)"
  by (simp_all add: ts_order_def)

lemma set_ts_order [simp]: "set (ts_order b) = {0..<length (bf_ts b)}"
  by (simp add: ts_order_def)

lemma columns_ordered:
  assumes "wf_buffer stepped b"
  shows "buffer_columns stepped b = \<lparr>col_steps = if stepped then Some (map (\<lambda>i. bf_steps b ! i) (ts_order b)) else None,
    col_ts = map (\<lambda>i. bf_ts b ! i) (ts_order b), col_values = map (\<lambda>i. bf_values b ! i) (ts_order b)\<rparr>"
proof (cases "ts_order b = [0..<length (bf_ts b)]")
  case True
  have "map ((!) xs) [0..<length xs] = xs" for xs :: "'x list" by (rule map_nth)
  then show ?thesis using True assms map_nth [of "bf_ts b"] map_nth [of "bf_values b"] map_nth [of "bf_steps b"]
    by (auto simp: buffer_columns_def Let_def ts_order_def wf_buffer_def split: if_splits)
qed (simp add: buffer_columns_def Let_def ts_order_def)

lemma columns_points:
  assumes "wf_buffer stepped b"
  shows "mset (points_of (buffer_columns stepped b)) = mset (buffer_points stepped b)"
proof -
  have "points_of (buffer_columns stepped b)
      = map (\<lambda>i. (if stepped then Some (bf_steps b ! i) else None, bf_ts b ! i, bf_values b ! i)) (ts_order b)"
    by (rule nth_equalityI) (simp_all add: points_of_def columns_ordered [OF assms] point_def)
  then have "mset (points_of (buffer_columns stepped b))
      = image_mset (\<lambda>i. (if stepped then Some (bf_steps b ! i) else None, bf_ts b ! i, bf_values b ! i)) (mset (ts_order b))"
    by simp
  also have "\<dots> = mset (buffer_points stepped b)"
    unfolding buffer_points_def mset_map ts_order_perm ..
  finally show ?thesis .
qed

lemma columns_wf: "wf_buffer stepped b \<Longrightarrow> wf_columns (buffer_columns stepped b) \<and> sorted (col_ts (buffer_columns stepped b))"
  by (auto simp: columns_ordered wf_columns_def wf_buffer_def list_all_iff) (simp add: ts_order_def)

section \<open>Keys\<close>

definition plain_key :: "string \<Rightarrow> bool" where
  "plain_key k = (\<not> ends_with TWIN_SUFFIX k \<and> \<not> ends_with INHERITED_SUFFIX k)"

lemma ends_with_append: "ends_with t (s @ t)"
  by (simp add: ends_with_iff)

lemma base_key_plain: "plain_key k \<Longrightarrow> base_key k = k"
  by (simp add: base_key_def plain_key_def is_inherited_def)

lemma base_key_twin: "base_key (stepless_twin k) = k"
proof -
  have "\<not> ends_with INHERITED_SUFFIX (k @ TWIN_SUFFIX)"
    by (simp add: ends_with_def INHERITED_SUFFIX_def TWIN_SUFFIX_def)
  then show ?thesis by (simp add: base_key_def stepless_twin_def is_inherited_def ends_with_append)
qed

definition stored_name :: "metric_writer \<Rightarrow> string \<Rightarrow> string" where
  "stored_name w k = (if k \<in> fst ` set (mw_stepped w) \<or> k \<in> mw_has_steps w then stepless_twin k else k)"

lemma base_stored_name: "plain_key k \<Longrightarrow> base_key (stored_name w k) = k"
  by (simp add: stored_name_def base_key_twin base_key_plain)

definition wf_writer :: "metric_writer \<Rightarrow> bool" where
  "wf_writer w =
     (distinct (map fst (mw_stepped w)) \<and> distinct (map fst (mw_stepless w))
      \<and> list_all (\<lambda>(k, b). plain_key k \<and> wf_buffer True b) (mw_stepped w)
      \<and> list_all (\<lambda>(k, b). plain_key k \<and> wf_buffer False b) (mw_stepless w))"

lemma block_keys_eq:
  assumes "wf_writer w"
  shows "block_keys w = map (\<lambda>(k, b). (k, buffer_columns True b)) (mw_stepped w)
      @ map (\<lambda>(k, b). (stored_name w k, buffer_columns False b)) (mw_stepless w)"
    and "distinct (map fst (block_keys w))"
proof -
  let ?S = "map (\<lambda>(k, b). (k, buffer_columns True b)) (mw_stepped w)"
  let ?L = "map (\<lambda>(k, b). (stored_name w k, buffer_columns False b)) (mw_stepless w)"
  have plain: "plain_key k" if "k \<in> fst ` set (mw_stepped w) \<or> k \<in> fst ` set (mw_stepless w)" for k
    using that assms by (auto simp: wf_writer_def list_all_iff)
  have "inj_on (stored_name w) (fst ` set (mw_stepless w))"
    by (rule inj_on_inverseI [where g = base_key]) (use plain base_stored_name in auto)
  then have "distinct (map (stored_name w) (map fst (mw_stepless w)))"
    using assms by (subst distinct_map) (simp add: wf_writer_def)
  moreover have apart: "stored_name w k \<notin> fst ` set (mw_stepped w)" if "k \<in> fst ` set (mw_stepless w)" for k
  proof
    assume at: "stored_name w k \<in> fst ` set (mw_stepped w)"
    show False
    proof (cases "k \<in> fst ` set (mw_stepped w) \<or> k \<in> mw_has_steps w")
      case True
      then have "\<not> plain_key (stored_name w k)" by (simp add: stored_name_def stepless_twin_def plain_key_def ends_with_append)
      then show False using plain at by blast
    next
      case False
      then show False using at by (simp add: stored_name_def)
    qed
  qed
  moreover have "map fst (?S @ ?L) = map fst (mw_stepped w) @ map (stored_name w) (map fst (mw_stepless w))"
    by (simp add: comp_def case_prod_unfold)
  moreover have "set (map fst (mw_stepped w)) \<inter> set (map (stored_name w) (map fst (mw_stepless w))) = {}"
    using apart unfolding set_map disjoint_iff by (metis (no_types) imageE)
  ultimately have dist: "distinct (map fst (?S @ ?L))"
    using assms unfolding wf_writer_def by (simp only: distinct_append simp_thms)
  have "block_keys w = fold (\<lambda>(n, c). od_put n c) ?L ?S"
    by (simp add: block_keys_def stored_name_def Let_def fold_map comp_def case_prod_unfold)
  then show eq: "block_keys w = ?S @ ?L" using fold_od_put_new [OF dist] by simp
  show "distinct (map fst (block_keys w))" unfolding eq by (rule dist)
qed

definition block_points :: "(string \<times> columns) list \<Rightarrow> (string \<times> mpoint) list" where
  "block_points ks = concat (map (\<lambda>(name, cols). map (Pair (base_key name)) (points_of cols)) ks)"

definition kept_points :: "bool \<Rightarrow> (string \<times> buffer) list \<Rightarrow> (string \<times> mpoint) list" where
  "kept_points stepped bufs = concat (map (\<lambda>(k, b). map (Pair k) (buffer_points stepped b)) bufs)"

definition pending :: "metric_writer \<Rightarrow> (string \<times> mpoint) list" where
  "pending w = kept_points True (mw_stepped w) @ kept_points False (mw_stepless w)"

lemma mset_concat_map: "(\<And>x. x \<in> set xs \<Longrightarrow> mset (f x) = mset (g x)) \<Longrightarrow> mset (concat (map f xs)) = mset (concat (map g xs))"
  by (induction xs) auto

lemma block_points_append: "block_points (a @ b) = block_points a @ block_points b"
  by (simp add: block_points_def)

lemma block_points_pending: "wf_writer w \<Longrightarrow> mset (block_points (block_keys w)) = mset (pending w)"
proof -
  assume wf: "wf_writer w"
  have keyed: "mset (block_points (map (\<lambda>(k, b). (f k, buffer_columns st b)) bufs)) = mset (kept_points st bufs)"
    if "\<forall>(k, b) \<in> set bufs. base_key (f k) = k \<and> wf_buffer st b" for f st bufs
  proof -
    have "mset (map (Pair (base_key (f k))) (points_of (buffer_columns st b))) = mset (map (Pair k) (buffer_points st b))"
      if "(k, b) \<in> set bufs" for k b
      using that columns_points [of st b] \<open>\<forall>(k, b) \<in> set bufs. base_key (f k) = k \<and> wf_buffer st b\<close> by auto
    then show ?thesis unfolding block_points_def kept_points_def map_map
      by (intro mset_concat_map) (auto simp: comp_def case_prod_unfold)
  qed
  have "\<forall>(k, b) \<in> set (mw_stepped w). base_key k = k \<and> wf_buffer True b"
    "\<forall>(k, b) \<in> set (mw_stepless w). base_key (stored_name w k) = k \<and> wf_buffer False b"
    using wf base_key_plain base_stored_name by (auto simp: wf_writer_def list_all_iff)
  from keyed [OF this(1)] keyed [OF this(2)] show ?thesis
    by (simp add: block_keys_eq(1) [OF wf] block_points_append pending_def)
qed

section \<open>Logging\<close>

lemma buffer_points_simps:
  "buffer_points stepped new_buffer = []"
  "length (bf_values b) = length (bf_ts b) \<Longrightarrow> length (bf_steps b) = length (bf_ts b) \<Longrightarrow>
    buffer_points True (b\<lparr>bf_steps := bf_steps b @ [s], bf_ts := bf_ts b @ [ts], bf_values := bf_values b @ [v]\<rparr>)
      = buffer_points True b @ [(Some s, ts, v)]"
  "length (bf_values b) = length (bf_ts b) \<Longrightarrow>
    buffer_points False (b\<lparr>bf_ts := bf_ts b @ [ts], bf_values := bf_values b @ [v]\<rparr>) = buffer_points False b @ [(None, ts, v)]"
  by (auto simp: buffer_points_def new_buffer_def nth_append)

lemma buffer_add_point:
  assumes "b = new_buffer \<or> wf_buffer (step \<noteq> None) b" "in_int64 ts" "step \<noteq> None \<longrightarrow> in_int64 (the step)"
  shows "\<exists>b'. buffer_add b step ts v = (Inr (), b') \<and> wf_buffer (step \<noteq> None) b'
    \<and> buffer_points (step \<noteq> None) b' = buffer_points (step \<noteq> None) b @ [(step, ts, v)]"
proof -
  have lens: "length (bf_values b) = length (bf_ts b)" "length (bf_steps b) = (if step \<noteq> None then length (bf_ts b) else 0)"
    "list_all in_int64 (bf_ts b)" "list_all in_int64 (bf_steps b)"
    using assms(1) by (auto simp: wf_buffer_def new_buffer_def split: if_splits)
  show ?thesis
  proof (cases step)
    case None
    then show ?thesis using lens assms(2) by (simp add: buffer_add_def wf_buffer_def buffer_points_simps)
  next
    case (Some s)
    then show ?thesis using lens assms(2,3) by (simp add: buffer_add_def wf_buffer_def buffer_points_simps)
  qed
qed

lemma set_od_put_cases: "distinct (map fst bufs) \<Longrightarrow> (k', b) \<in> set (od_put k v bufs) \<Longrightarrow> (k', b) = (k, v) \<or> (k', b) \<in> set bufs"
  by (induction k v bufs rule: od_put.induct) (auto split: if_splits)

lemma kept_put:
  assumes "distinct (map fst bufs)"
    and "buffer_points st b' = buffer_points st (case map_of bufs k of None \<Rightarrow> new_buffer | Some b \<Rightarrow> b) @ [p]"
  shows "mset (kept_points st (od_put k b' bufs)) = add_mset (k, p) (mset (kept_points st bufs))"
  using assms
proof (induction bufs)
  case Nil
  then show ?case by (simp add: kept_points_def buffer_points_simps)
next
  case (Cons x bufs)
  obtain k0 b0 where x: "x = (k0, b0)" by (cases x)
  show ?case
  proof (cases "k0 = k")
    case True
    then show ?thesis using Cons.prems(2) by (simp add: x kept_points_def)
  next
    case False
    then have "mset (kept_points st (od_put k b' bufs)) = add_mset (k, p) (mset (kept_points st bufs))"
      using Cons by (simp add: x)
    then show ?thesis using False by (simp add: x kept_points_def)
  qed
qed

lemma od_put_keys: "distinct (map fst bufs) \<Longrightarrow> distinct (map fst (od_put k v bufs))"
  using od_wf_put [of bufs k v] by (simp add: od_wf_def)

lemma wf_put:
  assumes "distinct (map fst bufs)" "list_all (\<lambda>(k, b). plain_key k \<and> wf_buffer st b) bufs" "plain_key key" "wf_buffer st b'"
  shows "list_all (\<lambda>(k, b). plain_key k \<and> wf_buffer st b) (od_put key b' bufs)"
  using assms set_od_put_cases [OF assms(1)] by (fastforce simp: list_all_iff)

lemma put_point_keeps:
  assumes "distinct (map fst bufs)" "list_all (\<lambda>(k, b). plain_key k \<and> wf_buffer (step \<noteq> None) b) bufs"
    and "plain_key key" "in_int64 ts" "step \<noteq> None \<longrightarrow> in_int64 (the step)"
  shows "\<exists>bufs'. put_point key step ts v bufs = (Inr (), bufs') \<and> distinct (map fst bufs')
    \<and> list_all (\<lambda>(k, b). plain_key k \<and> wf_buffer (step \<noteq> None) b) bufs'
    \<and> mset (kept_points (step \<noteq> None) bufs') = add_mset (key, (step, ts, v)) (mset (kept_points (step \<noteq> None) bufs))"
proof -
  define b where "b = (case map_of bufs key of None \<Rightarrow> new_buffer | Some b \<Rightarrow> b)"
  have "b = new_buffer \<or> wf_buffer (step \<noteq> None) b"
  proof (cases "map_of bufs key")
    case (Some b0)
    then show ?thesis using assms(2) map_of_SomeD [OF Some] by (auto simp: b_def list_all_iff)
  qed (simp add: b_def)
  from buffer_add_point [OF this assms(4,5)] obtain b' where b': "buffer_add b step ts v = (Inr (), b')"
    "wf_buffer (step \<noteq> None) b'" "buffer_points (step \<noteq> None) b' = buffer_points (step \<noteq> None) b @ [(step, ts, v)]" by blast
  have "put_point key step ts v bufs = (Inr (), od_put key b' bufs)"
    using b'(1) by (simp add: put_point_def b_def)
  then show ?thesis
    using od_put_keys [OF assms(1)] wf_put [OF assms(1-3) b'(2)] kept_put [OF assms(1) b'(3) [unfolded b_def]] by blast
qed

lemma writer_add_keeps:
  assumes "wf_writer w" "plain_key key" "in_int64 ts" "step \<noteq> None \<longrightarrow> in_int64 (the step)"
  shows "\<exists>w'. writer_add key v step ts w = (Inr (), w') \<and> wf_writer w' \<and> mset (pending w') = add_mset (key, (step, ts, v)) (mset (pending w))"
proof (cases step)
  case None
  then show ?thesis
    using put_point_keeps [of "mw_stepless w" step key ts v] assms
    by (auto simp: writer_add_def wf_writer_def pending_def)
next
  case (Some s)
  then show ?thesis
    using put_point_keeps [of "mw_stepped w" step key ts v] assms
    by (auto simp: writer_add_def wf_writer_def pending_def)
qed

datatype writer_event =
    Logged string float64 "int option" int
  | Flushed bool                              \<comment> \<open>whether the storage takes the block\<close>

fun writer_step :: "'s codec \<Rightarrow> bool \<Rightarrow> writer_event \<Rightarrow> metric_writer \<times> (string \<times> columns) list list
    \<Rightarrow> metric_writer \<times> (string \<times> columns) list list" where
  "writer_step cd inherited (Logged key v step ts) (w, out) = (snd (writer_add key v step ts w), out)"
| "writer_step cd inherited (Flushed took) (w, out) =
     (case writer_flush cd (\<lambda>_. took) inherited w of (r, w') \<Rightarrow>
        (w', if r = Inr True \<and> block_keys w \<noteq> [] then out @ [block_keys w] else out))"

fun loggable :: "writer_event \<Rightarrow> bool" where
  "loggable (Logged key v step ts) = (plain_key key \<and> in_int64 ts \<and> (step \<noteq> None \<longrightarrow> in_int64 (the step)))"
| "loggable (Flushed took) = True"

fun logged_points :: "writer_event list \<Rightarrow> (string \<times> mpoint) list" where
  "logged_points [] = []"
| "logged_points (Logged key v step ts # evs) = (key, (step, ts, v)) # logged_points evs"
| "logged_points (Flushed took # evs) = logged_points evs"

definition sound_block :: "(string \<times> columns) list \<Rightarrow> bool" where
  "sound_block ks =
     (distinct (map fst ks) \<and> list_all (\<lambda>(name, cols). wf_columns cols \<and> sorted (col_ts cols) \<and> col_ts cols \<noteq> []) ks)"

lemma block_keys_sound: "wf_writer w \<Longrightarrow> sound_block (block_keys w)"
proof -
  assume wf: "wf_writer w"
  have cols: "wf_columns (buffer_columns st b) \<and> sorted (col_ts (buffer_columns st b)) \<and> col_ts (buffer_columns st b) \<noteq> []"
    if "wf_buffer st b" for st b
  proof -
    have "length (col_ts (buffer_columns st b)) = length (bf_ts b)" by (simp add: columns_ordered [OF that])
    moreover have "bf_ts b \<noteq> []" using that by (simp add: wf_buffer_def)
    ultimately show ?thesis using columns_wf [OF that] by auto
  qed
  have "list_all (\<lambda>(name, cols). wf_columns cols \<and> sorted (col_ts cols) \<and> col_ts cols \<noteq> []) (block_keys w)"
    unfolding block_keys_eq(1) [OF wf] list_all_iff using wf cols by (auto simp: wf_writer_def list_all_iff)
  then show ?thesis using block_keys_eq(2) [OF wf] by (simp add: sound_block_def)
qed

lemma writer_flush_cases:
  obtains (took) w' where "writer_flush cd took inherited w = (Inr True, w')" "block_keys w \<noteq> []" "mw_stepped w' = []" "mw_stepless w' = []"
  | (kept) r where "writer_flush cd took inherited w = (r, w)" "r = Inr True \<Longrightarrow> block_keys w = []"
proof (cases "block_keys w = []")
  case True
  then show thesis using kept [of "Inr True"] by (simp add: writer_flush_def)
next
  case False
  show thesis
  proof (cases "encode_block cd (block_keys w) inherited")
    case (Inl e)
    then show thesis using kept [of "Inl e"] False by (simp add: writer_flush_def)
  next
    case (Inr data)
    show thesis
    proof (cases "took data")
      case True
      then show thesis
        using False Inr took [of "w\<lparr>mw_has_steps := mw_has_steps w \<union> fst ` set (mw_stepped w), mw_stepped := [], mw_stepless := []\<rparr>"]
        by (simp add: writer_flush_def)
    next
      case refused: False
      then show thesis using False Inr kept [of "Inr False"] by (simp add: writer_flush_def)
    qed
  qed
qed

lemma writer_step_keeps:
  assumes "wf_writer w" "\<forall>ks \<in> set out. sound_block ks" "loggable ev" "writer_step cd inherited ev (w, out) = (w', out')"
  shows "wf_writer w' \<and> (\<forall>ks \<in> set out'. sound_block ks)
    \<and> mset (concat (map block_points out')) + mset (pending w')
      = mset (concat (map block_points out)) + mset (pending w) + mset (logged_points [ev])"
proof (cases ev)
  case (Logged key v step ts)
  then show ?thesis using writer_add_keeps [OF assms(1), of key ts step v] assms(2-4) by auto
next
  case (Flushed took)
  show ?thesis
  proof (cases rule: writer_flush_cases [of cd "\<lambda>_. took" inherited w])
    case (took w1)
    then have "w' = w1" and out: "out' = out @ [block_keys w]" using assms(4) by (simp_all add: Flushed)
    then have "wf_writer w'" "pending w' = []" using took(3,4) by (simp_all add: wf_writer_def pending_def kept_points_def)
    then show ?thesis
      using assms(2) block_keys_sound [OF assms(1)] block_points_pending [OF assms(1)] by (simp add: Flushed out)
  next
    case (kept r)
    then have "w' = w" "out' = out" using assms(4) by (auto simp: Flushed split: if_splits)
    then show ?thesis using assms(1,2) by (simp add: Flushed)
  qed
qed

lemma writer_steps_keep:
  assumes "wf_writer w" "\<forall>ks \<in> set out. sound_block ks" "list_all loggable evs" "fold (writer_step cd inherited) evs (w, out) = (w', out')"
  shows "wf_writer w' \<and> (\<forall>ks \<in> set out'. sound_block ks)
    \<and> mset (concat (map block_points out')) + mset (pending w')
      = mset (concat (map block_points out)) + mset (pending w) + mset (logged_points evs)"
  using assms
proof (induction evs arbitrary: w out)
  case (Cons ev evs)
  obtain w1 out1 where one: "writer_step cd inherited ev (w, out) = (w1, out1)" by (cases "writer_step cd inherited ev (w, out)")
  note step = writer_step_keeps [OF Cons.prems(1,2) _ one]
  have "logged_points (ev # evs) = logged_points [ev] @ logged_points evs" by (cases ev) simp_all
  then show ?case using step Cons.IH [of w1 out1] Cons.prems(3,4) one by (simp add: union_ac)
qed simp

text \<open>
  C14. The metric writer loses no point and stores none twice, when every metric is logged under a plain
  key (one that does not end like the step-less twin or the inherited name the writer derives from
  another key) with its timestamp, and its step if any, within 64 bits: whatever is logged, with steps
  or without, in any order, and however many flushes the storage refuses, every point is in exactly one
  stored block or still buffered, under its own key; and every block that is stored has distinct keys
  whose columns are of one length, in timestamp order and not empty, so that it reads back.
\<close>

theorem writer_keeps_points:
  assumes "list_all loggable evs" "fold (writer_step cd inherited) evs (new_writer, []) = (w, out)"
  shows "mset (concat (map block_points out)) + mset (pending w) = mset (logged_points evs) \<and> (\<forall>ks \<in> set out. sound_block ks)"
proof -
  have "wf_writer new_writer" by (simp add: wf_writer_def new_writer_def)
  from writer_steps_keep [OF this _ assms] show ?thesis by (simp add: pending_def kept_points_def new_writer_def)
qed

definition demo_events :: "writer_event list" where
  "demo_events = [Logged ''loss'' 7 (Some 1) 100, Logged ''loss'' 8 None 90, Flushed False, Logged ''loss'' 9 (Some 2) 80, Flushed True]"

theorem writer_keeps_points_witness:
  "\<exists>w out. fold (writer_step bare_codec False) demo_events (new_writer, []) = (w, out)
     \<and> mset (concat (map block_points out)) + mset (pending w)
        = {#(''loss'', (Some 1, 100, 7)), (''loss'', (None, 90, 8)), (''loss'', (Some 2, 80, 9))#}"
proof -
  obtain w out where run: "fold (writer_step bare_codec False) demo_events (new_writer, []) = (w, out)" by fastforce
  have "list_all loggable demo_events"
    by (simp add: demo_events_def in_int64_def plain_key_def ends_with_def TWIN_SUFFIX_def INHERITED_SUFFIX_def)
  from writer_keeps_points [OF this run] run show ?thesis by (simp add: demo_events_def)
qed

section \<open>What the writer cannot take\<close>

text \<open>
  A step past 64 bits is refused, but leaves an empty buffer behind: from then on no flush of the
  writer succeeds. And a metric named like the twin of another one is stored over the other's points.
\<close>

lemma overflow_blocks_writer:
  "writer_add key v (Some (2 ^ 63)) ts new_writer = (Inl OverflowErr, w) \<Longrightarrow> writer_flush cd took inherited w = (Inl IndexErr, w)"
  by (auto simp: writer_add_def put_point_def buffer_add_def in_int64_def new_writer_def writer_flush_def block_keys_def
      encode_block_def buffer_columns_def new_buffer_def)

definition twin_writer :: metric_writer where
  "twin_writer = snd (writer_add ''a'' 9 None 3 (snd (writer_add ''a'' 8 (Some 1) 2 (snd (writer_add ''a@nostep'' 7 (Some 1) 1 new_writer)))))"

lemma twin_named_metric_lost:
  "pending twin_writer = [(''a@nostep'', Some 1, 1, 7), (''a'', Some 1, 2, 8), (''a'', None, 3, 9)]"
  "block_points (block_keys twin_writer) = [(''a'', None, 3, 9), (''a'', Some 1, 2, 8)]"
  by (simp_all add: twin_writer_def writer_add_def put_point_def buffer_add_def in_int64_def new_writer_def new_buffer_def pending_def
      kept_points_def buffer_points_def block_keys_def stepless_twin_def TWIN_SUFFIX_def buffer_columns_def block_points_def points_of_def
      point_def base_key_def is_inherited_def ends_with_def INHERITED_SUFFIX_def)

section \<open>Points as log entries\<close>

record metric_entry =
  me_ts :: int
  me_step :: "int option"
  me_values :: "(string \<times> float64) list"
  me_inherited :: bool

type_synonym series_point = "int \<times> int option \<times> string \<times> float64"

fun merge_point :: "series_point \<Rightarrow> metric_entry list \<Rightarrow> metric_entry list option" where
  \<comment> \<open>into the open entry of its step and time, the newest entry first; not if the key is there\<close>
  "merge_point (ts, step, key, v) [] = None"
| "merge_point (ts, step, key, v) (e # es) =
     (if me_ts e = ts \<and> me_step e = step
      then (if key \<in> fst ` set (me_values e) then None else Some (e\<lparr>me_values := me_values e @ [(key, v)]\<rparr> # es))
      else map_option (\<lambda>es. e # es) (merge_point (ts, step, key, v) es))"

definition add_series_point :: "bool \<Rightarrow> metric_entry list \<Rightarrow> series_point \<Rightarrow> metric_entry list" where
  "add_series_point inherited es p =
     (case merge_point p es of
        Some es' \<Rightarrow> es'
      | None \<Rightarrow> (case p of (ts, step, key, v) \<Rightarrow>
          \<lparr>me_ts = ts, me_step = step, me_values = [(key, v)], me_inherited = inherited\<rparr> # es))"

definition points_to_entries :: "bool \<Rightarrow> series_point list \<Rightarrow> metric_entry list" where
  "points_to_entries inherited ps = sort_key me_ts (rev (foldl (add_series_point inherited) [] ps))"

definition entry_points :: "metric_entry \<Rightarrow> series_point list" where
  "entry_points e = map (\<lambda>(key, v). (me_ts e, me_step e, key, v)) (me_values e)"

definition entries_points :: "metric_entry list \<Rightarrow> series_point multiset" where
  "entries_points es = mset (concat (map entry_points es))"

lemma merge_point_keeps: "merge_point p es = Some es' \<Longrightarrow> entries_points es' = add_mset p (entries_points es)"
  by (induction p es arbitrary: es' rule: merge_point.induct)
    (auto simp: entries_points_def entry_points_def split: if_splits)

lemma merge_point_distinct:
  "merge_point p es = Some es' \<Longrightarrow> \<forall>e \<in> set es. distinct (map fst (me_values e)) \<Longrightarrow> \<forall>e \<in> set es'. distinct (map fst (me_values e))"
  by (induction p es arbitrary: es' rule: merge_point.induct) (auto split: if_splits)

lemma add_series_point_keeps:
  assumes "\<forall>e \<in> set es. distinct (map fst (me_values e))"
  shows "entries_points (add_series_point inherited es p) = add_mset p (entries_points es)
    \<and> (\<forall>e \<in> set (add_series_point inherited es p). distinct (map fst (me_values e)))"
proof (cases "merge_point p es")
  case None
  then show ?thesis using assms by (cases p) (simp add: add_series_point_def entries_points_def entry_points_def)
next
  case (Some es')
  then show ?thesis using merge_point_keeps [OF Some] merge_point_distinct [OF Some assms] by (simp add: add_series_point_def)
qed

lemma add_points_keep:
  "\<forall>e \<in> set es. distinct (map fst (me_values e)) \<Longrightarrow>
    entries_points (foldl (add_series_point inherited) es ps) = entries_points es + mset ps
    \<and> (\<forall>e \<in> set (foldl (add_series_point inherited) es ps). distinct (map fst (me_values e)))"
proof (induction ps arbitrary: es)
  case (Cons p ps)
  show ?case using add_series_point_keeps [OF Cons.prems, of inherited p] Cons.IH [of "add_series_point inherited es p"] by simp
qed simp

lemma entries_points_perm: "mset es = mset es' \<Longrightarrow> entries_points es = entries_points es'"
  unfolding entries_points_def mset_concat sum_mset_sum_list [symmetric] mset_map by simp

text \<open>
  Showing metric points as log entries merges none away: the entries hold exactly the points, each
  at its own step and time, no key twice in one entry, and come in timestamp order.
\<close>

theorem entries_keep_points:
  "entries_points (points_to_entries inherited ps) = mset ps
   \<and> sorted (map me_ts (points_to_entries inherited ps))
   \<and> (\<forall>e \<in> set (points_to_entries inherited ps). distinct (map fst (me_values e)))"
proof -
  have "entries_points (points_to_entries inherited ps) = entries_points (foldl (add_series_point inherited) [] ps)"
    by (rule entries_points_perm) (simp add: points_to_entries_def)
  then show ?thesis using add_points_keep [of "[]" inherited ps] by (simp add: points_to_entries_def entries_points_def)
qed

theorem entries_keep_points_example:
  "map me_values (points_to_entries False [(1, Some 0, ''a'', 5), (1, Some 0, ''b'', 6), (1, Some 0, ''a'', 7), (0, None, ''c'', 8)])
    = [[(''c'', 8)], [(''a'', 5), (''b'', 6)], [(''a'', 7)]]"
  by (simp add: points_to_entries_def add_series_point_def)

end
