(* ===== verification/Log_Buffer.thy ===== *)
theory Log_Buffer
imports Metric_Points
begin

text \<open>
  The path of what a run logs to its record: the step counter of sdk/steps.py, the queue of
  sdk/log_buffer.py, and \<open>append_entries_to_log\<close> of core/writer.py, which stores the metrics of a batch as
  one block of the metric stream and its other entries in the log. How the storage answers each write
  is a parameter.
\<close>

section \<open>Steps\<close>

definition take_step :: "int option \<Rightarrow> bool \<Rightarrow> int \<Rightarrow> int \<times> int" where
  \<comment> \<open>\<open>StepCounter.take\<close>: the step to record, and the next one\<close>
  "take_step given_step commit next_step =
     (let step = (case given_step of None \<Rightarrow> next_step | Some s \<Rightarrow> s)
      in (step, max next_step (step + (if commit then 1 else 0))))"

fun take_steps :: "(int option \<times> bool) list \<Rightarrow> int \<Rightarrow> int list" where
  "take_steps [] n = []"
| "take_steps ((given_step, commit) # cs) n = (case take_step given_step commit n of (step, n') \<Rightarrow> step # take_steps cs n')"

lemma auto_steps_grow: "sorted_wrt (<) (take_steps (replicate k (None, True)) n) \<and> (\<forall>s \<in> set (take_steps (replicate k (None, True)) n). n \<le> s)"
  by (induction k arbitrary: n) (force simp: take_step_def Let_def)+

section \<open>Writing a batch\<close>

datatype storage_answer = Took | Refused | Raised

datatype 'e log_item = Metrics metric_entry | Other 'e

record 'e run_store =
  rs_blocks :: "(string \<times> columns) list list"
  rs_log :: "'e list"

definition split_metric_entries :: "'e log_item list \<Rightarrow> metric_entry list \<times> 'e list" where
  "split_metric_entries items =
     (List.map_filter (\<lambda>i. case i of Metrics m \<Rightarrow> Some m | Other e \<Rightarrow> None) items,
      List.map_filter (\<lambda>i. case i of Metrics m \<Rightarrow> None | Other e \<Rightarrow> Some e) items)"

fun add_values :: "int \<Rightarrow> int option \<Rightarrow> (string \<times> float64) list \<Rightarrow> metric_writer \<Rightarrow> unit res \<times> metric_writer" where
  "add_values ts step [] w = (Inr (), w)"
| "add_values ts step ((key, v) # kvs) w =
     (case writer_add key v step ts w of (Inl e, w') \<Rightarrow> (Inl e, w') | (Inr u, w') \<Rightarrow> add_values ts step kvs w')"

fun add_metric_entries :: "metric_entry list \<Rightarrow> metric_writer \<Rightarrow> unit res \<times> metric_writer" where
  "add_metric_entries [] w = (Inr (), w)"
| "add_metric_entries (m # ms) w =
     (case add_values (me_ts m) (me_step m) (me_values m) w of (Inl e, w') \<Rightarrow> (Inl e, w') | (Inr u, w') \<Rightarrow> add_metric_entries ms w')"

definition append_metric_entries :: "'s codec \<Rightarrow> storage_answer \<Rightarrow> metric_entry list \<Rightarrow> 'e run_store \<Rightarrow> bool res \<times> 'e run_store" where
  "append_metric_entries cd ans ms st =
     (case add_metric_entries ms new_writer of
        (Inl e, w) \<Rightarrow> (Inl e, st)
      | (Inr u, w) \<Rightarrow>
          if block_keys w = [] then (Inr True, st)
          else case encode_block cd (block_keys w) False of
                 Inl e \<Rightarrow> (Inl e, st)
               | Inr data \<Rightarrow> (case ans of
                     Raised \<Rightarrow> (Inl OSErr, st)
                   | Refused \<Rightarrow> (Inr False, st)
                   | Took \<Rightarrow> (Inr True, st\<lparr>rs_blocks := rs_blocks st @ [block_keys w]\<rparr>)))"

definition append_log_entries :: "storage_answer \<Rightarrow> 'e list \<Rightarrow> 'e run_store \<Rightarrow> bool res \<times> 'e run_store" where
  "append_log_entries ans es st =
     (case ans of Raised \<Rightarrow> (Inl OSErr, st) | Refused \<Rightarrow> (Inr False, st) | Took \<Rightarrow> (Inr True, st\<lparr>rs_log := rs_log st @ es\<rparr>))"

definition append_entries_to_log :: "'s codec \<Rightarrow> storage_answer \<times> storage_answer \<Rightarrow> 'e log_item list \<Rightarrow> 'e run_store \<Rightarrow> bool res \<times> 'e run_store" where
  "append_entries_to_log cd ans items st =
     (case split_metric_entries items of (ms, es) \<Rightarrow>
        (case (if ms = [] then (Inr True, st) else append_metric_entries cd (fst ans) ms st) of
           (Inl e, st') \<Rightarrow> (Inl e, st')
         | (Inr ok, st') \<Rightarrow>
             if \<not> ok then (Inr False, st') else if es = [] then (Inr True, st') else append_log_entries (snd ans) es st'))"

section \<open>The queue\<close>

definition MAX_PENDING_ENTRIES :: nat where "MAX_PENDING_ENTRIES = 1000"

record 'e log_buffer =
  lb_pending :: "'e log_item list"
  lb_closed :: bool
  lb_discarded :: bool

type_synonym 'e logging = "'e log_buffer \<times> 'e run_store"

definition buffer_flush :: "'s codec \<Rightarrow> storage_answer \<times> storage_answer \<Rightarrow> 'e logging \<Rightarrow> unit res \<times> 'e logging" where
  "buffer_flush cd ans s = (case s of (b, st) \<Rightarrow>
     if lb_pending b = [] then (Inr (), b, st)
     else (case append_entries_to_log cd ans (lb_pending b) st of
             (Inl e, st') \<Rightarrow> (Inl e, b, st')                        \<comment> \<open>the batch is put back\<close>
           | (Inr ok, st') \<Rightarrow> (Inr (), b\<lparr>lb_pending := []\<rparr>, st')))"

definition buffer_append :: "'s codec \<Rightarrow> bool \<Rightarrow> storage_answer \<times> storage_answer \<Rightarrow> 'e log_item \<Rightarrow> 'e logging \<Rightarrow> unit res \<times> 'e logging" where
  \<comment> \<open>in the process that owns the run; an eager flush, when the gate is open, hides its exception\<close>
  "buffer_append cd gate_open ans i s = (case s of (b, st) \<Rightarrow>
     if lb_discarded b then (Inr (), b, st)
     else if lb_closed b then
       (case append_entries_to_log cd ans [i] st of (Inl e, st') \<Rightarrow> (Inl e, b, st') | (Inr ok, st') \<Rightarrow> (Inr (), b, st'))
     else
       (let b' = b\<lparr>lb_pending := lb_pending b @ [i]\<rparr>
        in if MAX_PENDING_ENTRIES \<le> length (lb_pending b') \<and> gate_open then (Inr (), snd (buffer_flush cd ans (b', st)))
           else (Inr (), b', st)))"

definition buffer_close :: "'s codec \<Rightarrow> storage_answer \<times> storage_answer \<Rightarrow> 'e logging \<Rightarrow> unit res \<times> 'e logging" where
  "buffer_close cd ans s = (case s of (b, st) \<Rightarrow> buffer_flush cd ans (b\<lparr>lb_closed := True\<rparr>, st))"

definition buffer_discard :: "'e logging \<Rightarrow> 'e logging" where
  "buffer_discard s = (case s of (b, st) \<Rightarrow> (b\<lparr>lb_discarded := True, lb_closed := True, lb_pending := []\<rparr>, st))"

definition new_logging :: "'e logging" where
  "new_logging = (\<lparr>lb_pending = [], lb_closed = False, lb_discarded = False\<rparr>, \<lparr>rs_blocks = [], rs_log = []\<rparr>)"

section \<open>Nothing that is queued is lost\<close>

datatype 'e log_event =
    Append bool "storage_answer \<times> storage_answer" "'e log_item"
  | Flush "storage_answer \<times> storage_answer"
  | Close "storage_answer \<times> storage_answer"

fun log_step :: "'s codec \<Rightarrow> 'e log_event \<Rightarrow> 'e logging \<Rightarrow> 'e logging" where
  "log_step cd (Append gate_open ans i) s = snd (buffer_append cd gate_open ans i s)"
| "log_step cd (Flush ans) s = snd (buffer_flush cd ans s)"
| "log_step cd (Close ans) s = snd (buffer_close cd ans s)"

definition others :: "'e log_item list \<Rightarrow> 'e list" where
  "others items = snd (split_metric_entries items)"

definition metrics_in :: "'e log_item list \<Rightarrow> metric_entry list" where
  "metrics_in items = fst (split_metric_entries items)"

definition measured :: "metric_entry list \<Rightarrow> (string \<times> mpoint) multiset" where
  "measured ms = mset (concat (map (\<lambda>m. map (\<lambda>(key, v). (key, (me_step m, me_ts m, v))) (me_values m)) ms))"

definition loggable_entry :: "metric_entry \<Rightarrow> bool" where
  "loggable_entry m =
     (list_all (\<lambda>(key, v). plain_key key) (me_values m) \<and> in_int64 (me_ts m) \<and> (me_step m \<noteq> None \<longrightarrow> in_int64 (the (me_step m))))"

definition stored_points :: "'e run_store \<Rightarrow> (string \<times> mpoint) multiset" where
  "stored_points st = mset (concat (map block_points (rs_blocks st)))"

lemma items_append: "others (a @ b) = others a @ others b" "metrics_in (a @ b) = metrics_in a @ metrics_in b"
  by (simp_all add: others_def metrics_in_def split_metric_entries_def List.map_filter_def)

lemma items_one:
  "others [Metrics m] = []" "others [Other e] = [e]" "metrics_in [Metrics m] = [m]" "metrics_in [Other e] = []"
  "others [] = []" "metrics_in [] = []"
  by (simp_all add: others_def metrics_in_def split_metric_entries_def List.map_filter_simps)

lemma measured_append: "measured (a @ b) = measured a + measured b"
  by (simp add: measured_def)

lemma measured_Nil: "measured [] = {#}"
  by (simp add: measured_def)

lemma add_values_keep:
  assumes "wf_writer w" "list_all (\<lambda>(key, v). plain_key key) kvs" "in_int64 ts" "step \<noteq> None \<longrightarrow> in_int64 (the step)"
  shows "\<exists>w'. add_values ts step kvs w = (Inr (), w') \<and> wf_writer w'
    \<and> mset (pending w') = mset (map (\<lambda>(key, v). (key, (step, ts, v))) kvs) + mset (pending w)"
  using assms(1,2)
proof (induction kvs arbitrary: w)
  case (Cons kv kvs)
  obtain key v where kv: "kv = (key, v)" by (cases kv)
  obtain w1 where w1: "writer_add key v step ts w = (Inr (), w1)" "wf_writer w1"
    "mset (pending w1) = add_mset (key, (step, ts, v)) (mset (pending w))"
    using writer_add_keeps [OF Cons.prems(1) _ assms(3,4), of key v] Cons.prems(2) by (auto simp: kv)
  then show ?case using Cons.IH [OF w1(2)] Cons.prems(2) by (auto simp: kv)
qed simp

lemma add_metric_entries_keep:
  "wf_writer w \<Longrightarrow> list_all loggable_entry ms \<Longrightarrow>
    \<exists>w'. add_metric_entries ms w = (Inr (), w') \<and> wf_writer w' \<and> mset (pending w') = measured ms + mset (pending w)"
proof (induction ms arbitrary: w)
  case (Cons m ms)
  obtain w1 where w1: "add_values (me_ts m) (me_step m) (me_values m) w = (Inr (), w1)" "wf_writer w1"
    "mset (pending w1) = mset (map (\<lambda>(key, v). (key, (me_step m, me_ts m, v))) (me_values m)) + mset (pending w)"
    using add_values_keep [OF Cons.prems(1), of "me_values m" "me_ts m" "me_step m"] Cons.prems(2)
    by (auto simp: loggable_entry_def)
  then show ?case using Cons.IH [OF w1(2)] Cons.prems(2) by (auto simp: measured_def)
qed (simp add: measured_Nil)

lemma append_metric_entries_effect:
  assumes "append_metric_entries cd ans ms st = (r, st')" "list_all loggable_entry ms" "ans \<noteq> Refused"
  shows "rs_log st' = rs_log st \<and> r \<noteq> Inr False
    \<and> (if is_ok r then stored_points st' = stored_points st + measured ms else st' = st)"
proof -
  have "wf_writer new_writer" by (simp add: wf_writer_def new_writer_def)
  from add_metric_entries_keep [OF this assms(2)] obtain w where w: "add_metric_entries ms new_writer = (Inr (), w)" "wf_writer w"
    "mset (pending w) = measured ms" by (auto simp: pending_def kept_points_def new_writer_def)
  have points: "mset (block_points (block_keys w)) = measured ms" using block_points_pending [OF w(2)] w(3) by simp
  show ?thesis
  proof (cases "block_keys w = []")
    case True
    then show ?thesis using assms(1) points by (auto simp: append_metric_entries_def w(1) block_points_def)
  next
    case False
    then show ?thesis using assms(1,3) points
      by (cases "encode_block cd (block_keys w) False"; cases ans)
        (auto simp: append_metric_entries_def w(1) stored_points_def)
  qed
qed

lemma append_entries_effect:
  assumes "append_entries_to_log cd ans items st = (r, st')" "list_all loggable_entry (metrics_in items)"
    and "fst ans \<noteq> Refused" "snd ans \<noteq> Refused"
  shows "(if is_ok r then rs_log st' = rs_log st @ others items \<and> stored_points st' = stored_points st + measured (metrics_in items)
     else rs_log st' = rs_log st \<and> (stored_points st' = stored_points st \<or> stored_points st' = stored_points st + measured (metrics_in items)))"
proof -
  obtain r1 st1 where one: "(if metrics_in items = [] then (Inr True, st) else append_metric_entries cd (fst ans) (metrics_in items) st) = (r1, st1)"
    by fastforce
  have mid: "rs_log st1 = rs_log st" "r1 \<noteq> Inr False" "is_ok r1 \<Longrightarrow> stored_points st1 = stored_points st + measured (metrics_in items)"
    "\<not> is_ok r1 \<Longrightarrow> st1 = st"
    using append_metric_entries_effect [of cd "fst ans" "metrics_in items" st r1 st1] one assms(2,3)
    by (auto simp: measured_Nil split: if_splits)
  have split_eq: "split_metric_entries items = (metrics_in items, others items)"
    by (simp add: metrics_in_def others_def)
  show ?thesis
  proof (cases r1)
    case (Inl e)
    then show ?thesis using assms(1) mid one by (auto simp: append_entries_to_log_def split_eq)
  next
    case (Inr ok)
    then have "ok" using mid(2) by (cases ok) simp_all
    then show ?thesis
      using assms(1,4) mid(1) mid(3) one Inr
      by (cases "snd ans"; cases "others items = []")
        (auto simp: append_entries_to_log_def split_eq append_log_entries_def stored_points_def)
  qed
qed

fun accepted :: "'s codec \<Rightarrow> 'e log_event list \<Rightarrow> 'e logging \<Rightarrow> 'e log_item list" where
  \<comment> \<open>what was appended without an exception\<close>
  "accepted cd [] s = []"
| "accepted cd (ev # evs) s =
     (case ev of Append gate_open ans i \<Rightarrow> (if is_ok (fst (buffer_append cd gate_open ans i s)) then [i] else []) | _ \<Rightarrow> [])
     @ accepted cd evs (log_step cd ev s)"

fun event_fits :: "'e log_event \<Rightarrow> bool" where
  "event_fits (Append gate_open ans i) = (fst ans \<noteq> Refused \<and> snd ans \<noteq> Refused \<and> list_all loggable_entry (metrics_in [i]))"
| "event_fits (Flush ans) = (fst ans \<noteq> Refused \<and> snd ans \<noteq> Refused)"
| "event_fits (Close ans) = (fst ans \<noteq> Refused \<and> snd ans \<noteq> Refused)"

definition log_keeps :: "'e log_item list \<Rightarrow> 'e logging \<Rightarrow> 'e logging \<Rightarrow> bool" where
  \<comment> \<open>from the first state to the second, having taken in some items\<close>
  "log_keeps items s s' = (case (s, s') of ((b, st), (b', st')) \<Rightarrow>
     mset (rs_log st' @ others (lb_pending b')) = mset (rs_log st @ others (lb_pending b) @ others items)
      \<and> (lb_closed b \<longrightarrow> lb_closed b')
      \<and> (\<not> lb_closed b' \<longrightarrow> rs_log st' @ others (lb_pending b') = rs_log st @ others (lb_pending b) @ others items)
      \<and> stored_points st + measured (metrics_in (lb_pending b)) + measured (metrics_in items)
        \<subseteq># stored_points st' + measured (metrics_in (lb_pending b')))"

lemma buffer_flush_keeps:
  assumes "fst ans \<noteq> Refused" "snd ans \<noteq> Refused" "list_all loggable_entry (metrics_in (lb_pending b))"
  shows "log_keeps [] (b, st) (snd (buffer_flush cd ans (b, st)))
    \<and> list_all loggable_entry (metrics_in (lb_pending (fst (snd (buffer_flush cd ans (b, st))))))
    \<and> lb_discarded (fst (snd (buffer_flush cd ans (b, st)))) = lb_discarded b"
proof (cases "lb_pending b = []")
  case True
  then show ?thesis by (simp add: buffer_flush_def log_keeps_def items_one measured_Nil)
next
  case False
  obtain r st' where w: "append_entries_to_log cd ans (lb_pending b) st = (r, st')" by fastforce
  note effect = append_entries_effect [OF w assms(3,1,2)]
  show ?thesis
  proof (cases r)
    case (Inl e)
    then show ?thesis using False w effect assms(3)
      by (auto simp: buffer_flush_def log_keeps_def items_one measured_Nil subset_mset.add_increasing2)
  next
    case (Inr ok)
    then show ?thesis using False w effect by (simp add: buffer_flush_def log_keeps_def items_one measured_Nil)
  qed
qed

lemma keeps_trans:
  assumes "log_keeps xs s s'" "log_keeps ys s' s''"
  shows "log_keeps (xs @ ys) s s''"
proof -
  obtain b st b' st' b'' st'' where s: "s = (b, st)" "s' = (b', st')" "s'' = (b'', st'')" by (cases s; cases s'; cases s'')
  note one = assms(1) [unfolded log_keeps_def s prod.case] and two = assms(2) [unfolded log_keeps_def s prod.case]
  have "stored_points st + measured (metrics_in (lb_pending b)) + measured (metrics_in xs) + measured (metrics_in ys)
      \<subseteq># stored_points st' + measured (metrics_in (lb_pending b')) + measured (metrics_in ys)"
    using one by simp
  also have "\<dots> \<subseteq># stored_points st'' + measured (metrics_in (lb_pending b''))" using two by simp
  finally have points: "stored_points st + measured (metrics_in (lb_pending b)) + measured (metrics_in (xs @ ys))
      \<subseteq># stored_points st'' + measured (metrics_in (lb_pending b''))"
    by (simp add: items_append measured_append add.assoc)
  have all: "mset (rs_log st'' @ others (lb_pending b'')) = mset (rs_log st @ others (lb_pending b) @ others (xs @ ys))"
    using one two by (simp add: items_append)
  have "rs_log st'' @ others (lb_pending b'') = rs_log st @ others (lb_pending b) @ others (xs @ ys)" if "\<not> lb_closed b''"
  proof -
    have "rs_log st'' @ others (lb_pending b'') = (rs_log st' @ others (lb_pending b')) @ others ys" using two that by simp
    also have "rs_log st' @ others (lb_pending b') = rs_log st @ others (lb_pending b) @ others xs" using one two that by blast
    finally show ?thesis by (simp add: items_append)
  qed
  then show ?thesis using points all one two unfolding log_keeps_def s prod.case by blast
qed

lemma buffer_append_keeps:
  assumes "fst ans \<noteq> Refused" "snd ans \<noteq> Refused" "list_all loggable_entry (metrics_in [i])"
    and "list_all loggable_entry (metrics_in (lb_pending b))" "\<not> lb_discarded b"
    and out: "buffer_append cd gate_open ans i (b, st) = (r, b', st')"
  shows "log_keeps (if is_ok r then [i] else []) (b, st) (b', st')
    \<and> list_all loggable_entry (metrics_in (lb_pending b')) \<and> \<not> lb_discarded b'"
proof (cases "lb_closed b")
  case True
  obtain q st1 where w: "append_entries_to_log cd ans [i] st = (q, st1)" by fastforce
  note effect = append_entries_effect [OF w assms(3,1,2)]
  have ends: "b' = b" "st' = st1" "is_ok r = is_ok q"
    using out assms(5) True w by (auto simp: buffer_append_def split: sum.splits)
  show ?thesis
  proof (cases "is_ok q")
    case ok: True
    then show ?thesis using effect ends assms(4,5) True by (simp add: log_keeps_def items_one)
  next
    case failed: False
    then show ?thesis using effect ends assms(4,5)
      by (auto simp: log_keeps_def items_one measured_Nil subset_mset.add_increasing2)
  qed
next
  case False
  define b1 where "b1 = b\<lparr>lb_pending := lb_pending b @ [i]\<rparr>"
  have queued: "log_keeps [i] (b, st) (b1, st)" "list_all loggable_entry (metrics_in (lb_pending b1))" "\<not> lb_discarded b1"
    using assms(3-5) by (simp_all add: log_keeps_def b1_def items_append measured_append)
  show ?thesis
  proof (cases "MAX_PENDING_ENTRIES \<le> length (lb_pending b1) \<and> gate_open")
    case True
    then have r: "r = Inr ()" and flushed: "snd (buffer_flush cd ans (b1, st)) = (b', st')"
      using out assms(5) False by (auto simp: buffer_append_def b1_def Let_def split: if_splits)
    show ?thesis
      using buffer_flush_keeps [OF assms(1,2) queued(2), of st cd] keeps_trans [OF queued(1), of "[]" "(b', st')"] queued(3)
      unfolding flushed r by simp
  next
    case False
    then have "r = Inr ()" "b' = b1" "st' = st"
      using out assms(5) \<open>\<not> lb_closed b\<close> by (auto simp: buffer_append_def b1_def Let_def split: if_splits)
    then show ?thesis using queued by simp
  qed
qed

lemma log_steps_keep:
  assumes "list_all event_fits evs" "\<not> lb_discarded (fst s)" "list_all loggable_entry (metrics_in (lb_pending (fst s)))"
  shows "log_keeps (accepted cd evs s) s (fold (log_step cd) evs s)"
  using assms
proof (induction evs arbitrary: s)
  case Nil
  then show ?case by (cases s) (simp add: log_keeps_def items_one measured_Nil)
next
  case (Cons ev evs)
  obtain b st where s: "s = (b, st)" by (cases s)
  have later: "log_keeps xs s s' \<Longrightarrow> list_all loggable_entry (metrics_in (lb_pending (fst s'))) \<Longrightarrow> \<not> lb_discarded (fst s')
      \<Longrightarrow> log_keeps (xs @ accepted cd evs s') s (fold (log_step cd) evs s')" for xs s'
    by (rule keeps_trans, assumption, rule Cons.IH) (use Cons.prems(1) in simp_all)
  show ?case
  proof (cases ev)
    case (Append gate_open ans i)
    obtain r b' st' where out: "buffer_append cd gate_open ans i (b, st) = (r, b', st')"
      by (cases "buffer_append cd gate_open ans i (b, st)") auto
    note one = buffer_append_keeps [OF _ _ _ _ _ out]
    have "log_keeps (if is_ok r then [i] else []) (b, st) (b', st') \<and> list_all loggable_entry (metrics_in (lb_pending b')) \<and> \<not> lb_discarded b'"
      by (rule one) (use Cons.prems in \<open>auto simp: s Append\<close>)
    then show ?thesis using later [of "if is_ok r then [i] else []" "(b', st')"] by (simp add: Append s out)
  next
    case (Flush ans)
    have "log_keeps [] (b, st) (snd (buffer_flush cd ans (b, st)))
      \<and> list_all loggable_entry (metrics_in (lb_pending (fst (snd (buffer_flush cd ans (b, st))))))
      \<and> lb_discarded (fst (snd (buffer_flush cd ans (b, st)))) = lb_discarded b"
      by (rule buffer_flush_keeps) (use Cons.prems in \<open>auto simp: s Flush\<close>)
    then show ?thesis using later [of "[]" "snd (buffer_flush cd ans (b, st))"] Cons.prems(2) by (simp add: Flush s)
  next
    case (Close ans)
    let ?b = "b\<lparr>lb_closed := True\<rparr>"
    have closed: "log_keeps [] (b, st) (?b, st)" by (simp add: log_keeps_def items_one measured_Nil)
    have "log_keeps [] (?b, st) (snd (buffer_flush cd ans (?b, st)))
      \<and> list_all loggable_entry (metrics_in (lb_pending (fst (snd (buffer_flush cd ans (?b, st))))))
      \<and> lb_discarded (fst (snd (buffer_flush cd ans (?b, st)))) = lb_discarded ?b"
      by (rule buffer_flush_keeps) (use Cons.prems in \<open>auto simp: s Close\<close>)
    then show ?thesis using later [of "[]" "snd (buffer_flush cd ans (?b, st))"] keeps_trans [OF closed, of "[]"] Cons.prems(2)
      by (simp add: Close s buffer_close_def)
  qed
qed


definition at_step :: "int \<Rightarrow> float64 \<Rightarrow> 'e log_item" where
  "at_step step v = Metrics \<lparr>me_ts = step, me_step = Some step, me_values = [(''loss'', v)], me_inherited = False\<rparr>"

definition demo_logging :: "string log_event list" where
  "demo_logging = [Append True (Took, Took) (Other ''a''), Append True (Took, Took) (Other ''b''), Flush (Took, Raised),
     Append True (Took, Took) (Other ''c''), Flush (Took, Took)]"


section \<open>What a failing batch does\<close>

text \<open>
  The queue puts the whole batch back when its second half fails: the metrics, which are in the stream
  already, are stored a second time. And an entry the writer cannot take fails its batch for ever:
  nothing the run logs from then on is stored.
\<close>

lemma retried_metrics_doubled:
  assumes "append_entries_to_log cd (Took, Raised) items st = (Inl OSErr, st')" "append_entries_to_log cd (Took, Took) items st' = (Inr True, st'')"
    and "list_all loggable_entry (metrics_in items)" "others items \<noteq> []" "stored_points st' \<noteq> stored_points st"
  shows "stored_points st'' = stored_points st + measured (metrics_in items) + measured (metrics_in items)"
  using append_entries_effect [OF assms(1,3)] append_entries_effect [OF assms(2,3)] assms(5) by auto

lemma add_values_overflow: "\<not> in_int64 s \<Longrightarrow> kvs \<noteq> [] \<Longrightarrow> fst (add_values ts (Some s) kvs w) = Inl OverflowErr"
proof -
  assume "\<not> in_int64 s" "kvs \<noteq> []"
  then obtain key v kvs' where kvs: "kvs = (key, v) # kvs'" by (cases kvs) auto
  have "fst (writer_add key v (Some s) ts w) = Inl OverflowErr"
    using \<open>\<not> in_int64 s\<close> by (simp add: writer_add_def put_point_def buffer_add_def split: prod.split)
  then show ?thesis by (simp add: kvs split: prod.split sum.split) fastforce
qed

definition unstorable :: "metric_entry \<Rightarrow> bool" where
  "unstorable m = (me_values m \<noteq> [] \<and> (\<exists>s. me_step m = Some s \<and> \<not> in_int64 s))"

lemma add_metric_entries_fail: "\<exists>m \<in> set ms. unstorable m \<Longrightarrow> \<exists>e. fst (add_metric_entries ms w) = Inl e"
proof (induction ms arbitrary: w)
  case (Cons m ms)
  show ?case
  proof (cases "fst (add_values (me_ts m) (me_step m) (me_values m) w)")
    case (Inl e)
    then show ?thesis by (auto split: prod.split)
  next
    case (Inr u)
    then have "\<not> unstorable m"
      using add_values_overflow [where kvs = "me_values m" and ts = "me_ts m" and w = w] by (fastforce simp: unstorable_def)
    then show ?thesis using Cons Inr by (auto split: prod.split)
  qed
qed simp

lemma poisoned_flush:
  assumes "\<exists>m \<in> set (metrics_in (lb_pending b)). unstorable m"
  shows "snd (buffer_flush cd ans (b, st)) = (b, st)"
proof -
  have "lb_pending b \<noteq> []" "metrics_in (lb_pending b) \<noteq> []" using assms by (auto simp: items_one)
  moreover obtain e where "fst (add_metric_entries (metrics_in (lb_pending b)) new_writer) = Inl e"
    using add_metric_entries_fail [OF assms] by blast
  then have "append_metric_entries cd (fst ans) (metrics_in (lb_pending b)) st = (Inl e, st)"
    by (auto simp: append_metric_entries_def split: prod.split)
  moreover have "split_metric_entries (lb_pending b) = (metrics_in (lb_pending b), others (lb_pending b))"
    by (simp add: metrics_in_def others_def)
  ultimately show ?thesis by (simp add: buffer_flush_def append_entries_to_log_def)
qed

end
