(* ===== verification/Journal_Keys.thy ===== *)
theory Journal_Keys
imports Url_Quote "HOL-Library.Char_ord" "HOL-Library.List_Lexorder"
begin

text \<open>
  Keys of the change journal, from core/journal_keys.py: minute partitions named by the calendar, and
  keys whose fields are percent-encoded so that an underscore separates them. Keys sort by time, and
  the bound a listing starts from keeps exactly the keys from its millisecond on. Strings are their
  UTF-8 bytes (what unquoting makes of bytes that are not UTF-8 is left out), digits are ASCII, and
  times are milliseconds after 1970.
\<close>

section \<open>Keys\<close>

definition JOURNAL_PREFIX :: string where "JOURNAL_PREFIX = ''journal/''"

definition MINUTE_MS :: nat where "MINUTE_MS = 60000"

record journal_key =
  unix_ms :: nat
  area :: string
  app_key :: string
  writer_id :: string
  seq :: nat
  key_name :: string

definition scope :: "journal_key \<Rightarrow> string \<times> string" where
  "scope k = (area k, app_key k)"

definition enc :: "string \<Rightarrow> string" where
  "enc v = concat (map (\<lambda>c. if c = CHR ''_'' then ''%5F'' else [c]) (quote_bytes v))"

definition zero_padded :: "nat \<Rightarrow> nat \<Rightarrow> string" where
  \<comment> \<open>\<open>format(n, '0<k>d')\<close>\<close>
  "zero_padded k n = replicate (k - length (nat_str n)) (CHR ''0'') @ nat_str n"

subsection \<open>The calendar of \<open>datetime.fromtimestamp\<close>\<close>

definition leap_year :: "nat \<Rightarrow> bool" where
  "leap_year y = (4 dvd y \<and> (\<not> 100 dvd y \<or> 400 dvd y))"

definition year_days :: "nat \<Rightarrow> nat" where
  "year_days y = (if leap_year y then 366 else 365)"

lemma year_days_pos [simp]: "0 < year_days y"
  by (simp add: year_days_def)

function year_of :: "nat \<Rightarrow> nat \<Rightarrow> nat \<times> nat" where
  \<comment> \<open>the year a day is in and its number there, counted from the first day of the year \<open>y\<close>\<close>
  "year_of y d = (if d < year_days y then (y, d) else year_of (Suc y) (d - year_days y))"
  by pat_completeness auto
termination
  by (relation "measure snd") (auto simp: year_days_def leap_year_def)

declare year_of.simps [simp del]

definition month_lengths :: "nat \<Rightarrow> nat list" where
  "month_lengths y = [31, if leap_year y then 29 else 28, 31, 30, 31, 30, 31, 31, 30, 31, 30, 31]"

fun month_of :: "nat list \<Rightarrow> nat \<Rightarrow> nat \<times> nat" where
  \<comment> \<open>the month, counted from 0, and the day in it\<close>
  "month_of (l # ls) d = (if d < l then (0, d) else (case month_of ls (d - l) of (m, r) \<Rightarrow> (Suc m, r)))"
| "month_of [] d = (0, d)"

definition partition_of :: "nat \<Rightarrow> string" where
  \<comment> \<open>\<open>strftime('%Y%m%d%H%M')\<close> in UTC\<close>
  "partition_of ms =
     (let minutes = ms div MINUTE_MS;
          (y, d) = year_of 1970 (minutes div 1440);
          (mo, r) = month_of (month_lengths y) d
      in zero_padded 4 y @ zero_padded 2 (mo + 1) @ zero_padded 2 (r + 1)
           @ zero_padded 2 (minutes mod 1440 div 60) @ zero_padded 2 (minutes mod 60))"

definition partition_prefix :: "nat \<Rightarrow> string" where
  "partition_prefix ms = JOURNAL_PREFIX @ partition_of ms @ ''/''"

definition partition_prefixes :: "nat \<Rightarrow> nat \<Rightarrow> string list" where
  "partition_prefixes start_ms end_ms =
     (let first = start_ms - start_ms mod MINUTE_MS
      in map (\<lambda>i. partition_prefix (first + i * MINUTE_MS))
           [0..<(if end_ms + 1 \<le> first then 0 else (end_ms + 1 - first + MINUTE_MS - 1) div MINUTE_MS)])"

definition time_floor_key :: "nat \<Rightarrow> string" where
  "time_floor_key ms = partition_prefix ms @ zero_padded 13 ms"

definition encode_key :: "journal_key \<Rightarrow> string" where
  "encode_key k = partition_prefix (unix_ms k) @
     str_join ''_'' (map enc [zero_padded 13 (unix_ms k), area k, app_key k, writer_id k, nat_str (seq k), key_name k])"

definition decode_key :: "string \<Rightarrow> journal_key option" where
  "decode_key full_key =
     (case split_char (CHR ''/'') full_key of
        [a, b, c] \<Rightarrow>
          if a @ ''/'' \<noteq> JOURNAL_PREFIX then None
          else (case map unquote_bytes (split_char (CHR ''_'') c) of
                  [ms, ar, app, writer, n, nm] \<Rightarrow>
                    if all_digits ms \<and> all_digits n
                    then Some \<lparr>unix_ms = str_nat ms, area = ar, app_key = app, writer_id = writer,
                               seq = str_nat n, key_name = nm\<rparr>
                    else None
                | _ \<Rightarrow> None)
      | _ \<Rightarrow> None)"

section \<open>Encoding and decoding\<close>

lemma enc_set: "x \<in> set (enc v) \<Longrightarrow> x \<noteq> CHR ''_'' \<and> x \<noteq> CHR ''/''"
proof -
  assume "x \<in> set (enc v)"
  then obtain c where c: "c \<in> set (quote_bytes v)" "x \<in> set (if c = CHR ''_'' then ''%5F'' else [c])"
    unfolding enc_def set_concat set_map by blast
  have "\<not> unreserved CHR ''/''" by code_simp
  then show ?thesis using c quote_bytes_set [OF c(1)] by (auto split: if_splits)
qed

lemma enc_append: "enc (u @ v) = enc u @ enc v"
  by (simp add: enc_def quote_bytes_def)

lemma hex_digit_no_underscore: "n < 16 \<Longrightarrow> hex_digit n \<noteq> CHR ''_''"
  by (auto simp: hex_digit_def code_inject [symmetric])

lemma enc_char: "enc [c] = (if c = CHR ''_'' then ''%5F'' else quote_byte c)"
proof -
  have u: "unreserved CHR ''_''" by code_simp
  have "code c div 16 < 16" "code c mod 16 < 16" using code_less [of c] by auto
  then show ?thesis using u hex_digit_no_underscore by (auto simp: enc_def quote_bytes_def quote_byte_def percent_def)
qed

lemma unquote_enc_char: "unquote_bytes (enc [c] @ s) = c # unquote_bytes s"
proof (cases "c = CHR ''_''")
  case True
  have "code (CHR ''_'') = 95" by code_simp
  moreover have "percent 95 = ''%5F''" by code_simp
  moreover have "char_of (95 :: nat) = CHR ''_''" by code_simp
  ultimately show ?thesis using True unquote_percent [of 95 s] by (simp add: enc_char)
qed (simp add: enc_char unquote_quote_byte)

lemma unquote_enc: "unquote_bytes (enc v) = v"
proof -
  have "unquote_bytes (enc v @ s) = v @ unquote_bytes s" for s
  proof (induction v)
    case (Cons c v)
    have "enc (c # v) = enc [c] @ enc v" using enc_append [of "[c]" v] by simp
    then show ?case using Cons by (simp add: unquote_enc_char)
  qed (simp add: enc_def quote_bytes_def)
  from this [of "[]"] show ?thesis by simp
qed

lemma split_joined: "xs \<noteq> [] \<Longrightarrow> \<forall>x \<in> set xs. c \<notin> set x \<Longrightarrow> split_char c (str_join [c] xs) = xs"
proof (induction xs rule: induct_list012)
  case (3 x y zs)
  then show ?case using split_char_append [of c x "str_join [c] (y # zs)"] by simp
qed (simp_all add: split_char_notin)

section \<open>The calendar is in order\<close>

lemma year_of_here: "d < year_days y \<Longrightarrow> year_of y d = (y, d)"
  by (simp add: year_of.simps)

lemma year_of_later: "year_days y \<le> d \<Longrightarrow> year_of y d = year_of (Suc y) (d - year_days y)"
  by (subst year_of.simps) simp

lemma year_of_in: "fst (year_of y d) \<ge> y \<and> snd (year_of y d) < year_days (fst (year_of y d))"
proof (induction y d rule: year_of.induct)
  case (1 y d)
  show ?case
  proof (cases "d < year_days y")
    case False
    then show ?thesis using 1 [OF False] year_of_later [of y d] by simp
  qed (simp add: year_of_here)
qed

lemma year_of_mono:
  "d < e \<Longrightarrow> fst (year_of y d) < fst (year_of y e)
     \<or> fst (year_of y d) = fst (year_of y e) \<and> snd (year_of y d) < snd (year_of y e)"
proof (induction y d arbitrary: e rule: year_of.induct)
  case (1 y d)
  show ?case
  proof (cases "d < year_days y")
    case True
    show ?thesis
    proof (cases "e < year_days y")
      case False
      then show ?thesis
        using year_of_in [of "Suc y" "e - year_days y"] year_of_later [of y e] True by (simp add: year_of_here)
    qed (use 1(2) True in \<open>simp add: year_of_here\<close>)
  next
    case False
    have "d - year_days y < e - year_days y" using 1(2) False by simp
    then show ?thesis using 1(1) [OF False] 1(2) False year_of_later [of y d] year_of_later [of y e] by simp
  qed
qed

lemma month_of_in: "d < sum_list ls \<Longrightarrow> fst (month_of ls d) < length ls
    \<and> snd (month_of ls d) < ls ! fst (month_of ls d)"
proof (induction ls arbitrary: d)
  case (Cons l ls)
  show ?case
  proof (cases "d < l")
    case False
    then have "d - l < sum_list ls" using Cons.prems by auto
    then show ?thesis using Cons.IH [of "d - l"] False by (simp split: prod.split) auto
  qed simp
qed simp

lemma month_of_mono:
  "d < e \<Longrightarrow> e < sum_list ls \<Longrightarrow> fst (month_of ls d) < fst (month_of ls e)
     \<or> fst (month_of ls d) = fst (month_of ls e) \<and> snd (month_of ls d) < snd (month_of ls e)"
proof (induction ls arbitrary: d e)
  case (Cons l ls)
  show ?case
  proof (cases "d < l")
    case False
    then have "d - l < e - l" "e - l < sum_list ls" using Cons.prems by auto
    then show ?thesis using Cons.IH [of "d - l" "e - l"] False Cons.prems by (auto split: prod.splits)
  qed (use Cons.prems in \<open>auto split: prod.splits\<close>)
qed simp

lemma months_fill_year: "sum_list (month_lengths y) = year_days y" "length (month_lengths y) = 12"
  "\<forall>l \<in> set (month_lengths y). l \<le> 31"
  by (auto simp: month_lengths_def year_days_def)

section \<open>Padded numbers are in order\<close>

primrec digits_of :: "nat \<Rightarrow> nat \<Rightarrow> string" where
  "digits_of 0 n = []"
| "digits_of (Suc k) n = digits_of k (n div 10) @ [digit_char (n mod 10)]"

lemma digits_of_length [simp]: "length (digits_of k n) = k"
  by (induction k arbitrary: n) auto

lemma digits_of_0: "digits_of k 0 = replicate k (CHR ''0'')"
  by (induction k) (auto simp: replicate_append_same)

lemma nat_str_step: "nat_str n = (if n < 10 then [digit_char n] else nat_str (n div 10) @ [digit_char (n mod 10)])"
  by (subst nat_str.simps) simp

lemma zero_padded_digits: "n < 10 ^ k \<Longrightarrow> 0 < k \<Longrightarrow> zero_padded k n = digits_of k n"
proof (induction k arbitrary: n)
  case (Suc k)
  show ?case
  proof (cases "n < 10")
    case True
    then show ?thesis by (simp add: zero_padded_def nat_str_step [of n] digits_of_0)
  next
    case False
    then have k: "0 < k" "n div 10 < 10 ^ k" using Suc.prems by (cases k; simp; fail)+
    then show ?thesis using Suc.IH [OF k(2,1)] False
      by (simp add: zero_padded_def nat_str_step [of n])
  qed
qed simp

lemma append_less_append: "length a = length b \<Longrightarrow> (a @ u < b @ v) = (a < b \<or> a = b \<and> u < (v :: string))"
  by (induction a b rule: list_induct2) auto

lemma digit_char_less: "a < 10 \<Longrightarrow> b < 10 \<Longrightarrow> digit_char a < digit_char b \<longleftrightarrow> a < b"
  by (simp add: less_char_def digit_char_def)

lemma digits_of_less: "n < 10 ^ k \<Longrightarrow> m < 10 ^ k \<Longrightarrow> digits_of k n < digits_of k m \<longleftrightarrow> n < m"
proof (induction k arbitrary: n m)
  case (Suc k)
  have "digits_of k (n div 10) < digits_of k (m div 10) \<longleftrightarrow> n div 10 < m div 10"
    "digits_of k (m div 10) < digits_of k (n div 10) \<longleftrightarrow> m div 10 < n div 10"
    using Suc.IH [of "n div 10" "m div 10"] Suc.IH [of "m div 10" "n div 10"] Suc.prems by auto
  then have "digits_of k (n div 10) = digits_of k (m div 10) \<longleftrightarrow> n div 10 = m div 10"
    by (metis less_irrefl linorder_neqE)
  then show ?case
    using \<open>digits_of k (n div 10) < digits_of k (m div 10) \<longleftrightarrow> n div 10 < m div 10\<close>
    by (auto simp: append_less_append digit_char_less)
       (metis div_le_mono div_mult_mod_eq leD leI nat_neq_iff nat_add_left_cancel_less div_less_mono)+
qed simp

lemma digits_of_append: "b < 10 ^ k \<Longrightarrow> digits_of j a @ digits_of k b = digits_of (j + k) (a * 10 ^ k + b)"
proof (induction k arbitrary: b)
  case (Suc k)
  then have "b div 10 < 10 ^ k" by auto
  moreover have "(a * 10 ^ Suc k + b) div 10 = a * 10 ^ k + b div 10" by simp
  moreover have "(a * 10 ^ Suc k + b) mod 10 = b mod 10"
    using mod_mult_self4 [of 10 "a * 10 ^ k" b] by (simp add: ac_simps)
  ultimately show ?case using Suc.IH [of "b div 10"] by (metis add_Suc_right append_assoc digits_of.simps(2))
qed simp

section \<open>Keys sort by time\<close>

definition minute_number :: "nat \<Rightarrow> nat" where
  \<comment> \<open>the number a partition's name is written as\<close>
  "minute_number minutes =
     (let (y, d) = year_of 1970 (minutes div 1440);
          (mo, r) = month_of (month_lengths y) d
      in ((((y * 100 + (mo + 1)) * 100 + (r + 1)) * 100 + minutes mod 1440 div 60) * 100 + minutes mod 60))"

lemma year_of_bound: "fst (year_of y d) \<le> y + d div 365"
proof (induction y d rule: year_of.induct)
  case (1 y d)
  show ?case
  proof (cases "d < year_days y")
    case False
    then have "365 \<le> d" "d - year_days y \<le> d - 365" by (auto simp: year_days_def split: if_splits)
    moreover from this have "Suc y + (d - year_days y) div 365 \<le> y + d div 365"
      using div_le_mono [of "d - year_days y" "d - 365" 365] by (simp add: le_div_geq)
    ultimately show ?thesis using 1 [OF False] year_of_later [of y d] False by simp
  qed (simp add: year_of_here)
qed

lemma month_and_day:
  assumes "month_of (month_lengths y) d = (mo, r)" "d < year_days y"
  shows "mo < 12" "r < 31"
proof -
  from month_of_in [of d "month_lengths y"] assms months_fill_year [of y]
  have "mo < 12" "r < month_lengths y ! mo" by auto
  moreover from this have "month_lengths y ! mo \<le> 31" using months_fill_year [of y] by auto
  ultimately show "mo < 12" "r < 31" by auto
qed

definition in_millennium :: "nat \<Rightarrow> bool" where
  \<comment> \<open>milliseconds of thirteen digits, up to the year 2286\<close>
  "in_millennium ms = (ms < 10 ^ 13)"

lemma stamp_parts:
  assumes "year_of 1970 (m div 1440) = (y, d)" "month_of (month_lengths y) d = (mo, r)"
  shows "d < year_days y" "mo < 12" "r < 31" "y \<le> 1970 + m div 1440 div 365"
proof -
  show d: "d < year_days y" using year_of_in [of 1970 "m div 1440"] assms by auto
  show "mo < 12" "r < 31" using month_and_day [OF assms(2) d] .
  show "y \<le> 1970 + m div 1440 div 365" using year_of_bound [of 1970 "m div 1440"] assms by auto
qed

lemma partition_of_stamp:
  assumes "in_millennium ms"
  shows "partition_of ms = digits_of 12 (minute_number (ms div MINUTE_MS))" "minute_number (ms div MINUTE_MS) < 10 ^ 12"
proof -
  let ?m = "ms div MINUTE_MS"
  obtain y d mo r where p: "year_of 1970 (?m div 1440) = (y, d)" "month_of (month_lengths y) d = (mo, r)"
    by (metis surj_pair)
  note b = stamp_parts [OF p]
  have "?m div 1440 div 365 < 8000"
    using assms by (simp add: in_millennium_def MINUTE_MS_def div_mult2_eq [symmetric] div_less_iff_less_mult)
  then have y: "y < 10 ^ 4" using b by simp
  have s: "mo + 1 < 10 ^ 2" "r + 1 < 10 ^ 2" "?m mod 1440 div 60 < 10 ^ 2" "?m mod 60 < 10 ^ 2"
    using b by (auto simp: less_mult_imp_div_less)
  have "partition_of ms = digits_of 4 y @ digits_of 2 (mo + 1) @ digits_of 2 (r + 1)
      @ digits_of 2 (?m mod 1440 div 60) @ digits_of 2 (?m mod 60)"
    using y s by (simp add: partition_of_def Let_def p zero_padded_digits)
  also have "\<dots> = digits_of 12 (minute_number ?m)"
    using s by (simp add: minute_number_def p append_assoc [symmetric] digits_of_append del: append_assoc) (simp add: algebra_simps)
  finally show "partition_of ms = digits_of 12 (minute_number ?m)" .
  show "minute_number ?m < 10 ^ 12" using y s by (simp add: minute_number_def p)
qed

lemma div_mod_less: "(a :: nat) < b \<Longrightarrow> a div k < b div k \<or> a div k = b div k \<and> a mod k < b mod k"
  using div_le_mono [of a b k] by (metis div_mult_mod_eq le_neq_implies_less less_imp_le_nat nat_add_left_cancel_less)

lemma parts_less:
  assumes "(y :: nat) < y' \<or> y = y' \<and> (mo < mo' \<or> mo = mo' \<and> r < r')"
    "mo < 12" "mo' < 12" "r < 31" "r' < 31" "h < 24" "i < 60" "h' < 24" "i' < 60"
  shows "(((y * 100 + (mo + 1)) * 100 + (r + 1)) * 100 + h) * 100 + i
    < (((y' * 100 + (mo' + 1)) * 100 + (r' + 1)) * 100 + h') * 100 + i'"
  using assms by auto

lemma stamp_less: "m < n \<Longrightarrow> minute_number m < minute_number n"
proof -
  assume less: "m < n"
  obtain y d mo r where p: "year_of 1970 (m div 1440) = (y, d)" "month_of (month_lengths y) d = (mo, r)"
    by (metis surj_pair)
  obtain y' d' mo' r' where q: "year_of 1970 (n div 1440) = (y', d')" "month_of (month_lengths y') d' = (mo', r')"
    by (metis surj_pair)
  note b = stamp_parts [OF p] and c = stamp_parts [OF q]
  have t: "m mod 1440 div 60 < 24" "n mod 1440 div 60 < 24" "m mod 60 < 60" "n mod 60 < 60"
    by (auto simp: less_mult_imp_div_less)
  show ?thesis
  proof (cases "m div 1440 = n div 1440")
    case True
    then have "m mod 1440 < n mod 1440" using less by (metis div_mult_mod_eq nat_add_left_cancel_less)
    moreover have "m mod 60 = m mod 1440 mod 60" "n mod 60 = n mod 1440 mod 60"
      by (simp_all add: mod_mod_cancel)
    ultimately have "m mod 1440 div 60 < n mod 1440 div 60 \<or>
        m mod 1440 div 60 = n mod 1440 div 60 \<and> m mod 60 < n mod 60" using div_mod_less by metis
    then have "(m mod 1440 div 60) * 100 + m mod 60 < (n mod 1440 div 60) * 100 + n mod 60" using t by (elim disjE; linarith)
    then show ?thesis using True p q by (simp add: minute_number_def)
  next
    case False
    then have "m div 1440 < n div 1440" using less div_le_mono [of m n 1440] by simp
    from year_of_mono [OF this, of 1970] p q
    have "y < y' \<or> y = y' \<and> d < d'" by simp
    moreover have "mo < mo' \<or> mo = mo' \<and> r < r'" if "y = y'" "d < d'"
      using month_of_mono [OF that(2), of "month_lengths y"] that p q c months_fill_year [of y] by simp
    ultimately have "y < y' \<or> y = y' \<and> (mo < mo' \<or> mo = mo' \<and> r < r')" by blast
    then show ?thesis
      using parts_less [of y y' mo mo' r r' "m mod 1440 div 60" "m mod 60" "n mod 1440 div 60" "n mod 60"] b c t
      by (simp add: minute_number_def p q)
  qed
qed

lemma partition_less:
  assumes "a div MINUTE_MS < b div MINUTE_MS" "in_millennium a" "in_millennium b"
  shows "partition_of a < partition_of b"
  using stamp_less [OF assms(1)] partition_of_stamp [OF assms(2)] partition_of_stamp [OF assms(3)]
  by (simp add: digits_of_less)

lemma partition_same: "a div MINUTE_MS = b div MINUTE_MS \<Longrightarrow> partition_of a = partition_of b"
  by (simp add: partition_of_def)

lemma partition_length: "in_millennium a \<Longrightarrow> length (partition_of a) = 12"
  by (simp add: partition_of_stamp)

lemma partition_eq_iff:
  "in_millennium a \<Longrightarrow> in_millennium b \<Longrightarrow> partition_of a = partition_of b \<longleftrightarrow> a div MINUTE_MS = b div MINUTE_MS"
  by (metis partition_less partition_same less_irrefl linorder_neqE_nat)

lemma zero_padded_13: "in_millennium ms \<Longrightarrow> zero_padded 13 ms = digits_of 13 ms"
  by (simp add: zero_padded_digits in_millennium_def)

lemma digits_of_digits: "c \<in> set (digits_of k n) \<Longrightarrow> is_digit c"
  by (induction k arbitrary: n) (auto simp: digit_char_digit)

lemma digit_unreserved: "is_digit c \<Longrightarrow> unreserved c \<and> c \<noteq> CHR ''_'' \<and> c \<noteq> CHR ''/''"
  by (auto simp: unreserved_def is_digit_def)

lemma enc_digits: "list_all is_digit v \<Longrightarrow> enc v = v"
  by (induction v) (auto simp: enc_def quote_bytes_def quote_byte_def digit_unreserved)

definition key_tail :: "journal_key \<Rightarrow> string" where
  "key_tail k = str_join ''_'' (map enc [area k, app_key k, writer_id k, nat_str (seq k), key_name k])"

lemma encode_key_parts:
  "in_millennium (unix_ms k) \<Longrightarrow>
     encode_key k = JOURNAL_PREFIX @ partition_of (unix_ms k) @ ''/'' @ digits_of 13 (unix_ms k) @ ''_'' @ key_tail k"
  using enc_digits [of "digits_of 13 (unix_ms k)"] digits_of_digits
  by (simp add: encode_key_def partition_prefix_def key_tail_def zero_padded_13 list_all_iff)

theorem key_above_floor_iff:
  assumes "in_millennium (unix_ms k)" "in_millennium s"
  shows "encode_key k > time_floor_key s \<longleftrightarrow> s \<le> unix_ms k"
proof -
  let ?t = "unix_ms k"
  have e: "encode_key k = (JOURNAL_PREFIX @ partition_of ?t @ ''/'') @ digits_of 13 ?t @ ''_'' @ key_tail k"
    using encode_key_parts [OF assms(1)] by simp
  have f: "time_floor_key s = (JOURNAL_PREFIX @ partition_of s @ ''/'') @ digits_of 13 s"
    using assms by (simp add: time_floor_key_def partition_prefix_def zero_padded_13)
  have cut: "(u :: string) @ v < u @ w \<longleftrightarrow> v < w" for u v w by (induction u) auto
  consider "s div MINUTE_MS < ?t div MINUTE_MS" | "?t div MINUTE_MS < s div MINUTE_MS" | "?t div MINUTE_MS = s div MINUTE_MS"
    by linarith
  then show ?thesis
  proof cases
    case 1
    have "partition_of s @ u < partition_of ?t @ v" for u v
      using partition_less [OF 1 assms(2,1)] assms by (simp add: append_less_append partition_length)
    moreover have "s \<le> ?t" using 1 by (metis div_le_mono leD nat_le_linear)
    ultimately show ?thesis unfolding e f append_assoc cut by simp
  next
    case 2
    have "partition_of ?t @ u < partition_of s @ v" for u v
      using partition_less [OF 2 assms] assms by (simp add: append_less_append partition_length)
    then have "\<not> partition_of s @ u < partition_of ?t @ v" for u v using less_asym by blast
    moreover have "\<not> s \<le> ?t" using 2 by (metis div_le_mono leD)
    ultimately show ?thesis unfolding e f append_assoc cut by simp
  next
    case 3
    have "digits_of 13 s < digits_of 13 ?t \<longleftrightarrow> s < ?t" "digits_of 13 ?t < digits_of 13 s \<longleftrightarrow> ?t < s"
      using assms digits_of_less [of s 13 ?t] digits_of_less [of ?t 13 s] by (simp_all add: in_millennium_def)
    then have "digits_of 13 s < digits_of 13 ?t \<or> digits_of 13 s = digits_of 13 ?t \<longleftrightarrow> s \<le> ?t"
      using linorder_less_linear [of "digits_of 13 s" "digits_of 13 ?t"] by (metis leD le_neq_implies_less less_irrefl linorder_linear)
    then have "digits_of 13 s @ [] < digits_of 13 ?t @ ''_'' @ key_tail k \<longleftrightarrow> s \<le> ?t"
      by (subst append_less_append) simp_all
    then show ?thesis unfolding e f partition_same [OF 3] append_assoc cut by simp
  qed
qed

section \<open>Round trip\<close>

lemma split_key: "in_millennium (unix_ms k) \<Longrightarrow> split_char (CHR ''/'') (encode_key k)
    = [''journal'', partition_of (unix_ms k), digits_of 13 (unix_ms k) @ ''_'' @ key_tail k]"
proof -
  assume m: "in_millennium (unix_ms k)"
  let ?t = "unix_ms k"
  have no: "CHR ''/'' \<notin> set (partition_of ?t)" "CHR ''/'' \<notin> set (digits_of 13 ?t)"
    using digits_of_digits digit_unreserved by (auto simp: partition_of_stamp [OF m])
  have "x \<noteq> CHR ''/''" if "x \<in> set (str_join ''_'' (map enc vs))" for x vs
    using that by (induction vs rule: induct_list012) (auto dest: enc_set)
  then have "CHR ''/'' \<notin> set (key_tail k)" unfolding key_tail_def by blast
  then have "CHR ''/'' \<notin> set (digits_of 13 ?t @ ''_'' @ key_tail k)" using no by simp
  moreover have "encode_key k = ''journal'' @ CHR ''/'' # partition_of ?t @ CHR ''/'' # digits_of 13 ?t @ ''_'' @ key_tail k"
    using encode_key_parts [OF m] by (simp add: JOURNAL_PREFIX_def)
  ultimately show ?thesis
    using no split_char_append [of "CHR ''/''" "''journal''" "partition_of ?t @ CHR ''/'' # digits_of 13 ?t @ ''_'' @ key_tail k"]
      split_char_append [of "CHR ''/''" "partition_of ?t" "digits_of 13 ?t @ ''_'' @ key_tail k"]
    by (simp add: split_char_notin)
qed

lemma split_fields: "split_char (CHR ''_'') (digits_of 13 t @ ''_'' @ str_join ''_'' (map enc vs))
    = digits_of 13 t # map enc vs" if "vs \<noteq> []"
proof -
  have "CHR ''_'' \<notin> set (digits_of 13 t)" using digits_of_digits digit_unreserved by blast
  moreover have "split_char (CHR ''_'') (str_join ''_'' (map enc vs)) = map enc vs"
    using that enc_set by (intro split_joined) auto
  ultimately show ?thesis by (simp add: split_char_append)
qed

lemma str_nat_digits: "n < 10 ^ k \<Longrightarrow> 0 < k \<Longrightarrow> str_nat (digits_of k n) = n"
proof -
  assume a: "n < 10 ^ k" "0 < k"
  have zeros: "str_nat (replicate j (CHR ''0'') @ s) = str_nat s" for j s
    by (induction j) (simp_all add: str_nat_def digit_val_def)
  show ?thesis using zero_padded_digits [OF a] by (simp add: zero_padded_def zeros flip: zero_padded_digits [OF a])
qed

lemma unquote_digits: "list_all is_digit v \<Longrightarrow> unquote_bytes v = v"
  using unquote_enc [of v] by (simp add: enc_digits)

theorem journal_key_roundtrip:
  assumes "in_millennium (unix_ms k)"
  shows "decode_key (encode_key k) = Some k"
proof -
  let ?d = "digits_of 13 (unix_ms k)"
  have d: "list_all is_digit ?d" using digits_of_digits by (auto simp: list_all_iff)
  have nonempty: "?d \<noteq> []" using digits_of_length [of 13 "unix_ms k"] by (metis length_0_conv zero_neq_numeral)
  have ms: "all_digits ?d" "str_nat ?d = unix_ms k"
    using d nonempty str_nat_digits [of "unix_ms k" 13] assms by (simp_all add: all_digits_def in_millennium_def)
  have "decode_key (encode_key k) =
    (case map unquote_bytes (?d # map enc [area k, app_key k, writer_id k, nat_str (seq k), key_name k]) of
       [ms, ar, app, writer, n, nm] \<Rightarrow>
         if all_digits ms \<and> all_digits n
         then Some \<lparr>unix_ms = str_nat ms, area = ar, app_key = app, writer_id = writer, seq = str_nat n, key_name = nm\<rparr>
         else None | _ \<Rightarrow> None)"
    unfolding decode_key_def split_key [OF assms] key_tail_def
    by (simp only: split_fields list.case list.distinct not_False_eq_True if_False) (simp add: JOURNAL_PREFIX_def)
  also have "\<dots> = Some k" by (simp add: unquote_enc unquote_digits [OF d] ms)
  finally show ?thesis .
qed

section \<open>Partitions of a window\<close>

lemma partition_prefix_in:
  assumes "start \<le> t" "t div MINUTE_MS \<le> now div MINUTE_MS"
  shows "partition_prefix t \<in> set (partition_prefixes start now)"
proof -
  let ?first = "start - start mod MINUTE_MS"
  let ?i = "t div MINUTE_MS - start div MINUTE_MS"
  have first: "?first = start div MINUTE_MS * MINUTE_MS" by (simp add: minus_mod_eq_div_mult)
  have le: "start div MINUTE_MS \<le> t div MINUTE_MS" using assms(1) by (rule div_le_mono)
  have pos: "0 < MINUTE_MS" by (simp add: MINUTE_MS_def)
  have upto: "?first + ?i * MINUTE_MS = t div MINUTE_MS * MINUTE_MS"
    using le unfolding first by (metis add_mult_distrib le_add_diff_inverse)
  then have ms: "(?first + ?i * MINUTE_MS) div MINUTE_MS = t div MINUTE_MS" using pos by simp
  have "?first + ?i * MINUTE_MS \<le> now"
    unfolding upto using assms(2) by (metis div_times_less_eq_dividend mult_le_mono1 order_trans)
  then have n: "(?i + 1) * MINUTE_MS \<le> now + 1 - ?first + MINUTE_MS - 1" "?first \<le> now" using pos by auto
  from n(1) have "?i + 1 \<le> (now + 1 - ?first + MINUTE_MS - 1) div MINUTE_MS"
    using pos by (simp add: less_eq_div_iff_mult_less_eq)
  then have i: "?i < (if now + 1 \<le> ?first then 0 else (now + 1 - ?first + MINUTE_MS - 1) div MINUTE_MS)"
    using n(2) by simp
  have "partition_prefix (?first + ?i * MINUTE_MS) = partition_prefix t"
    using partition_same [OF ms] by (simp add: partition_prefix_def)
  then show ?thesis using i unfolding partition_prefixes_def Let_def set_map
    by (intro image_eqI [where x = ?i]) simp_all
qed

lemma encode_key_in_partition:
  "in_millennium (unix_ms k) \<Longrightarrow> starts_with (partition_prefix (unix_ms k)) (encode_key k)"
  by (simp add: encode_key_def)

lemma encode_key_inject:
  "in_millennium (unix_ms k) \<Longrightarrow> in_millennium (unix_ms l) \<Longrightarrow> encode_key k = encode_key l \<longleftrightarrow> k = l"
  by (metis journal_key_roundtrip option.inject)

end
