(* ===== verification/Journal_Reader.thy ===== *)
theory Journal_Reader
imports Journal_Keys
begin

text \<open>
  Reading the change journal, from core/journal_reader.py, over the local sink of
  storage/journal_sinks.py: what each tick lists, which keys it takes as new, and how it groups them.
  A resumed reader keeps only the keys at or after its last tick. The sink is known to the reader
  through two laws of its listings (locale \<open>journal_listing\<close>). Listing many partitions in threads is
  listing them one after the other; clock readings are whole milliseconds.
\<close>

section \<open>The local sink\<close>

type_synonym sink = "string list"   \<comment> \<open>the keys of the files under the root\<close>

definition sink_put :: "string \<Rightarrow> sink \<Rightarrow> sink" where
  "sink_put key keys = (if key \<in> set keys then keys else keys @ [key])"

definition dir_names :: "sink \<Rightarrow> string \<Rightarrow> string list" where
  \<comment> \<open>\<open>os.listdir\<close> of the directory a prefix names\<close>
  "dir_names keys pre =
     remdups (map (\<lambda>k. takeWhile (\<lambda>c. c \<noteq> CHR ''/'') (drop (length pre) k)) (filter (starts_with pre) keys))"

definition sink_list :: "sink \<Rightarrow> string \<Rightarrow> string option \<Rightarrow> string list" where
  "sink_list keys pre start_after =
     filter (\<lambda>k. case start_after of None \<Rightarrow> True | Some a \<Rightarrow> k > a) (map (\<lambda>n. pre @ n) (sort (dir_names keys pre)))"

definition sink_partitions :: "sink \<Rightarrow> string list" where
  "sink_partitions keys = map (\<lambda>key. key @ ''/'') (sink_list keys JOURNAL_PREFIX None)"

definition sink_delete_prefix :: "string \<Rightarrow> sink \<Rightarrow> sink" where
  "sink_delete_prefix pre keys = filter (\<lambda>k. \<not> starts_with pre k) keys"

section \<open>A tick\<close>

record reader_conf =
  skew_ms :: nat
  max_per_scope :: nat
  rescan_ms :: nat
  lookback_ms :: "nat option"

record journal_reader =
  last_seen_ms :: "nat option"
  seen :: "(string \<times> nat) list"
  rescanned_ms :: "nat option"

record tick_result =
  entries :: "((string \<times> string) \<times> journal_key list) list"
  overflow :: "(string \<times> string) list"
  overflow_names :: "((string \<times> string) \<times> string set) list"

definition new_reader :: "nat option \<Rightarrow> string list \<Rightarrow> journal_reader" where
  "new_reader last_ms boundary =
     \<lparr>last_seen_ms = last_ms, seen = map (\<lambda>k. (k, case last_ms of None \<Rightarrow> 0 | Some t \<Rightarrow> t)) boundary, rescanned_ms = None\<rparr>"

definition cursor :: "journal_reader \<Rightarrow> nat option \<times> string list" where
  "cursor r =
     (last_seen_ms r,
      sort (map fst (filter (\<lambda>(k, ms). ms \<ge> (case last_seen_ms r of None \<Rightarrow> 0 | Some t \<Rightarrow> t)) (seen r))))"

definition from_cursor :: "nat option \<times> string list \<Rightarrow> journal_reader" where
  "from_cursor c = new_reader (fst c) (snd c)"

definition last_or :: "nat option \<Rightarrow> nat \<Rightarrow> nat" where
  \<comment> \<open>\<open>last_seen_ms or now_ms\<close>\<close>
  "last_or t now = (case t of None \<Rightarrow> now | Some s \<Rightarrow> if s = 0 then now else s)"

definition window_start :: "reader_conf \<Rightarrow> nat \<Rightarrow> journal_reader \<Rightarrow> nat" where
  "window_start conf now r =
     (let start = min (last_or (last_seen_ms r) now) now - skew_ms conf
      in case lookback_ms conf of None \<Rightarrow> start | Some b \<Rightarrow> max start (now - b))"

definition rescan_due :: "reader_conf \<Rightarrow> nat \<Rightarrow> journal_reader \<Rightarrow> bool" where
  "rescan_due conf now r = (case rescanned_ms r of None \<Rightarrow> True | Some t \<Rightarrow> \<not> (t \<le> now \<and> now - t < rescan_ms conf))"

definition listed_from :: "reader_conf \<Rightarrow> nat \<Rightarrow> nat \<Rightarrow> journal_reader \<Rightarrow> nat" where
  "listed_from conf start now r = (if rescan_due conf now r then start else max start (now - 60000))"

definition forget_before :: "nat \<Rightarrow> (string \<times> nat) list \<Rightarrow> (string \<times> nat) list" where
  "forget_before start s = filter (\<lambda>(k, ms). ms \<ge> start) s"

definition listed :: "(string \<Rightarrow> string option \<Rightarrow> string list) \<Rightarrow> string list \<Rightarrow> string \<Rightarrow> string list" where
  "listed lst prefixes floor_key =
     concat (map (\<lambda>p. lst p (if starts_with p floor_key then Some floor_key else None)) prefixes)"

definition accept :: "string \<Rightarrow> string \<Rightarrow> (string \<times> nat) list \<Rightarrow> journal_key option \<times> (string \<times> nat) list" where
  "accept floor_key raw s =
     (if raw \<le> floor_key \<or> raw \<in> fst ` set s then (None, s)
      else (case decode_key raw of None \<Rightarrow> (None, s) | Some k \<Rightarrow> (Some k, od_put raw (unix_ms k) s)))"

fun accept_all :: "string \<Rightarrow> string list \<Rightarrow> (string \<times> nat) list \<Rightarrow> journal_key list \<times> (string \<times> nat) list" where
  "accept_all floor_key [] s = ([], s)"
| "accept_all floor_key (raw # raws) s =
     (case accept floor_key raw s of (found, s1) \<Rightarrow>
        (case accept_all floor_key raws s1 of (ks, s2) \<Rightarrow> (case found of None \<Rightarrow> ks | Some k \<Rightarrow> k # ks, s2)))"

definition new_keys :: "(string \<Rightarrow> string option \<Rightarrow> string list) \<Rightarrow> nat \<Rightarrow> nat \<Rightarrow> (string \<times> nat) list
    \<Rightarrow> journal_key list \<times> (string \<times> nat) list" where
  "new_keys lst start now s =
     (case accept_all (time_floor_key start) (listed lst (partition_prefixes start now) (time_floor_key start)) s of
        (found, s') \<Rightarrow> (sort_key unix_ms found, s'))"

definition add_entry :: "journal_key \<Rightarrow> ((string \<times> string) \<times> journal_key list) list
    \<Rightarrow> ((string \<times> string) \<times> journal_key list) list" where
  "add_entry k es = od_put (scope k) ((case map_of es (scope k) of None \<Rightarrow> [] | Some ks \<Rightarrow> ks) @ [k]) es"

definition group_keys :: "reader_conf \<Rightarrow> journal_key list \<Rightarrow> tick_result" where
  "group_keys conf keys =
     (let es = fold add_entry keys [];
          over = filter (\<lambda>(s, ks). length ks > max_per_scope conf) es
      in \<lparr>entries = filter (\<lambda>(s, ks). \<not> length ks > max_per_scope conf) es, overflow = map fst over,
          overflow_names = map (\<lambda>(s, ks). (s, key_name ` set ks)) over\<rparr>)"

definition tick :: "reader_conf \<Rightarrow> (string \<Rightarrow> string option \<Rightarrow> string list) \<Rightarrow> nat \<Rightarrow> journal_reader
    \<Rightarrow> tick_result \<times> journal_reader" where
  "tick conf lst now r =
     (let start = window_start conf now r;
          s = forget_before start (seen r);
          from_ms = listed_from conf start now r
      in case new_keys lst from_ms now s of (found, s') \<Rightarrow>
        (group_keys conf found,
         \<lparr>last_seen_ms = Some (max (last_or (last_seen_ms r) now) now), seen = s',
          rescanned_ms = (if rescan_due conf now r then Some now else rescanned_ms r)\<rparr>))"

section \<open>A run of a reader\<close>

datatype 's reader_event = Tick nat 's | Resume

fun run_reader :: "('s \<Rightarrow> string \<Rightarrow> string option \<Rightarrow> string list) \<Rightarrow> reader_conf \<Rightarrow> 's reader_event list \<Rightarrow> journal_reader
    \<Rightarrow> tick_result list \<times> journal_reader" where
  \<comment> \<open>ticks at their times over the store as it is then, and restarts from the reader's cursor\<close>
  "run_reader lst conf [] r = ([], r)"
| "run_reader lst conf (Tick now s # es) r =
     (case tick conf (lst s) now r of (res, r1) \<Rightarrow>
        (case run_reader lst conf es r1 of (rs, r2) \<Rightarrow> (res # rs, r2)))"
| "run_reader lst conf (Resume # es) r = run_reader lst conf es (from_cursor (cursor r))"

definition result_keys :: "tick_result \<Rightarrow> journal_key list" where
  "result_keys res = concat (map snd (entries res))"

definition announced :: "tick_result \<Rightarrow> journal_key \<Rightarrow> bool" where
  \<comment> \<open>the key is among its scope's entries, or its scope overflowed and names its record\<close>
  "announced res k \<longleftrightarrow>
     (\<exists>ks. map_of (entries res) (scope k) = Some ks \<and> k \<in> set ks)
     \<or> scope k \<in> set (overflow res) \<and> (\<exists>ns. map_of (overflow_names res) (scope k) = Some ns \<and> key_name k \<in> ns)"

section \<open>Grouping\<close>

lemma add_entry_map: "map_of (add_entry k es) s =
    (if s = scope k then Some ((case map_of es s of None \<Rightarrow> [] | Some ks \<Rightarrow> ks) @ [k]) else map_of es s)"
  by (simp add: add_entry_def)

lemma fold_add_entry:
  "map_of (fold add_entry keys es) s =
     (if filter (\<lambda>k. scope k = s) keys = [] then map_of es s
      else Some ((case map_of es s of None \<Rightarrow> [] | Some ks \<Rightarrow> ks) @ filter (\<lambda>k. scope k = s) keys))"
  by (induction keys arbitrary: es) (auto simp: add_entry_map)

lemma fold_add_entry_wf: "od_wf es \<Longrightarrow> od_wf (fold add_entry keys es)"
  by (induction keys arbitrary: es) (auto simp: add_entry_def intro: od_wf_put)

lemma map_of_filter_wf: "od_wf gs \<Longrightarrow>
    map_of (filter Q gs) s = Option.bind (map_of gs s) (\<lambda>ks. if Q (s, ks) then Some ks else None)"
  by (induction gs) (auto simp: od_wf_def map_of_eq_None_iff rev_image_eqI split: bind_splits)

lemma group_announces: "announced (group_keys conf keys) k" if "k \<in> set keys"
proof -
  let ?es = "fold add_entry keys []" and ?ks = "filter (\<lambda>l. scope l = scope k) keys"
  have wf: "od_wf ?es" by (simp add: fold_add_entry_wf)
  have ks: "map_of ?es (scope k) = Some ?ks" "k \<in> set ?ks"
    using that by (auto simp: fold_add_entry filter_empty_conv)
  show ?thesis
  proof (cases "length ?ks > max_per_scope conf")
    case True
    let ?over = "filter (\<lambda>(s, ks). length ks > max_per_scope conf) ?es"
    have "map_of ?over (scope k) = Some ?ks" using True ks by (simp add: map_of_filter_wf [OF wf])
    then have "scope k \<in> set (map fst ?over)"
      "map_of (map (\<lambda>(s, ks). (s, key_name ` set ks)) ?over) (scope k) = Some (key_name ` set ?ks)"
      by (auto simp: map_of_map dest!: map_of_SomeD intro: rev_image_eqI)
    then show ?thesis using ks(2) by (auto simp: announced_def group_keys_def Let_def)
  next
    case False
    then show ?thesis using ks by (auto simp: announced_def group_keys_def Let_def map_of_filter_wf [OF wf])
  qed
qed

lemma od_put_fresh: "k \<notin> fst ` set xs \<Longrightarrow> set (od_put k v xs) = insert (k, v) (set xs)"
  by (induction k v xs rule: od_put.induct) auto

lemma group_result:
  "set (result_keys (group_keys conf keys)) \<subseteq> set keys"
  "distinct keys \<Longrightarrow> distinct (result_keys (group_keys conf keys))"
proof -
  let ?es = "fold add_entry keys []"
  let ?f = "filter (\<lambda>(s, ks). \<not> length ks > max_per_scope conf) ?es"
  have wf: "distinct (map fst ?es)" using fold_add_entry_wf [of "[]" keys] by (simp add: od_wf_def)
  have val: "ks = filter (\<lambda>k. scope k = s) keys" if "(s, ks) \<in> set ?es" for s ks
    using map_of_is_SomeI [OF wf that] by (auto simp: fold_add_entry split: if_splits)
  have r: "result_keys (group_keys conf keys) = concat (map snd ?f)"
    by (simp add: result_keys_def group_keys_def Let_def)
  show "set (result_keys (group_keys conf keys)) \<subseteq> set keys" unfolding r using val by fastforce
  show "distinct (result_keys (group_keys conf keys))" if d: "distinct keys"
  proof -
    have "distinct (concat (map snd gs))" if "distinct (map fst gs)"
      "\<forall>(s, ks) \<in> set gs. ks = filter (\<lambda>k. scope k = s) keys" for gs
      using that by (induction gs) (auto simp: d rev_image_eqI)
    moreover have "distinct (map fst ?f)" using wf by (simp add: distinct_map_filter)
    moreover have "\<forall>(s, ks) \<in> set ?f. ks = filter (\<lambda>k. scope k = s) keys" using val by auto
    ultimately show ?thesis unfolding r by blast
  qed
qed

section \<open>What a listing promises\<close>

locale journal_listing =
  fixes lst :: "'s \<Rightarrow> string \<Rightarrow> string option \<Rightarrow> string list"
    and stored :: "'s \<Rightarrow> journal_key set"
    and intact :: "'s \<Rightarrow> bool"
  assumes listed_stored: "intact s \<Longrightarrow> in_millennium t \<Longrightarrow> x \<in> set (lst s (partition_prefix t) a) \<Longrightarrow> x \<in> encode_key ` stored s"
    and stored_listed: "k \<in> stored s \<Longrightarrow> in_millennium t \<Longrightarrow> starts_with (partition_prefix t) (encode_key k) \<Longrightarrow>
      (case a of None \<Rightarrow> True | Some f \<Rightarrow> encode_key k > f) \<Longrightarrow> encode_key k \<in> set (lst s (partition_prefix t) a)"
    and stored_time: "k \<in> stored s \<Longrightarrow> in_millennium (unix_ms k)"
begin

lemma accept_all_spec:
  assumes "set raws \<subseteq> encode_key ` stored s" "accept_all floor_key raws sn = (ks, sn')"
  shows "distinct ks \<and> set ks \<subseteq> stored s
    \<and> (\<forall>k \<in> set ks. encode_key k > floor_key \<and> encode_key k \<notin> fst ` set sn)
    \<and> set sn' = set sn \<union> (\<lambda>k. (encode_key k, unix_ms k)) ` set ks
    \<and> (\<forall>raw \<in> set raws. raw > floor_key \<longrightarrow> raw \<in> fst ` set sn')"
  using assms
proof (induction raws arbitrary: sn ks sn')
  case (Cons raw raws)
  from Cons.prems(1) obtain k where k: "k \<in> stored s" "raw = encode_key k" by auto
  have dec: "decode_key raw = Some k" using k stored_time journal_key_roundtrip by simp
  have rest: "set raws \<subseteq> encode_key ` stored s" using Cons.prems(1) by simp
  show ?case
  proof (cases "raw \<le> floor_key \<or> raw \<in> fst ` set sn")
    case True
    then have "accept_all floor_key raws sn = (ks, sn')"
      using Cons.prems(2) by (auto simp: accept_def split: prod.splits)
    from Cons.IH [OF rest this] show ?thesis using True by (auto simp: not_le [symmetric])
  next
    case False
    let ?sn = "od_put raw (unix_ms k) sn"
    obtain ks1 where ks: "accept_all floor_key raws ?sn = (ks1, sn')" "ks = k # ks1"
      using Cons.prems(2) False by (auto simp: accept_def dec split: prod.splits)
    have sn: "set ?sn = insert (raw, unix_ms k) (set sn)" using False by (intro od_put_fresh) simp
    from Cons.IH [OF rest ks(1)] show ?thesis using False k sn ks(2) by auto
  qed
qed simp

lemma window_times:
  assumes "in_millennium now" "p \<in> set (partition_prefixes start now)" "start \<le> now"
  obtains t where "in_millennium t" "p = partition_prefix t"
proof -
  from assms(2) obtain i where i: "p = partition_prefix (start - start mod MINUTE_MS + i * MINUTE_MS)"
    "i < (now + 1 - (start - start mod MINUTE_MS) + MINUTE_MS - 1) div MINUTE_MS"
    by (auto simp: partition_prefixes_def Let_def split: if_splits)
  have "start - start mod MINUTE_MS \<le> now" using assms(3) by simp
  moreover have "(i + 1) * MINUTE_MS \<le> now + 1 - (start - start mod MINUTE_MS) + MINUTE_MS - 1"
    using i(2) by (metis Suc_eq_plus1 Suc_leI div_times_less_eq_dividend mult_le_mono1 order_trans)
  ultimately have "start - start mod MINUTE_MS + i * MINUTE_MS \<le> now"
    by (simp add: MINUTE_MS_def)
  then have "in_millennium (start - start mod MINUTE_MS + i * MINUTE_MS)"
    using assms(1) unfolding in_millennium_def by (rule le_less_trans)
  then show ?thesis using that i(1) by blast
qed

lemma new_keys_spec:
  assumes "intact s" "in_millennium now" "start \<le> now" "new_keys (lst s) start now sn = (found, sn')"
  shows "distinct found" "set found \<subseteq> stored s"
    "\<And>k. k \<in> set found \<Longrightarrow> start \<le> unix_ms k \<and> encode_key k \<notin> fst ` set sn"
    "set sn' = set sn \<union> (\<lambda>k. (encode_key k, unix_ms k)) ` set found"
    "\<And>k. k \<in> stored s \<Longrightarrow> start \<le> unix_ms k \<Longrightarrow> unix_ms k div MINUTE_MS \<le> now div MINUTE_MS
       \<Longrightarrow> encode_key k \<in> fst ` set sn'"
proof -
  let ?f = "time_floor_key start"
  let ?raws = "listed (lst s) (partition_prefixes start now) ?f"
  obtain ks where ks: "accept_all ?f ?raws sn = (ks, sn')" "found = sort_key unix_ms ks"
    using assms(4) by (auto simp: new_keys_def split: prod.splits)
  have "set ?raws \<subseteq> encode_key ` stored s"
  proof
    fix x assume "x \<in> set ?raws"
    then obtain p a where p: "p \<in> set (partition_prefixes start now)" "x \<in> set (lst s p a)"
      unfolding listed_def set_concat set_map by blast
    from window_times [OF assms(2) p(1) assms(3)] obtain t where "in_millennium t" "p = partition_prefix t" .
    then show "x \<in> encode_key ` stored s" using listed_stored [OF assms(1)] p(2) by blast
  qed
  note spec = accept_all_spec [OF this ks(1)]
  have start: "in_millennium start" using assms(2,3) by (simp add: in_millennium_def)
  show "distinct found" "set found \<subseteq> stored s" using spec ks(2) by auto
  show "set sn' = set sn \<union> (\<lambda>k. (encode_key k, unix_ms k)) ` set found" using spec ks(2) by auto
  show "start \<le> unix_ms k \<and> encode_key k \<notin> fst ` set sn" if "k \<in> set found" for k
  proof -
    have "k \<in> stored s" "encode_key k > ?f" "encode_key k \<notin> fst ` set sn" using that spec ks(2) by auto
    then show ?thesis using key_above_floor_iff [OF stored_time start] by auto
  qed
  show "encode_key k \<in> fst ` set sn'" if k: "k \<in> stored s" "start \<le> unix_ms k"
    "unix_ms k div MINUTE_MS \<le> now div MINUTE_MS" for k
  proof -
    have above: "encode_key k > ?f" using key_above_floor_iff [OF stored_time [OF k(1)] start] k(2) by simp
    have part: "partition_prefix (unix_ms k) \<in> set (partition_prefixes start now)"
      using k by (intro partition_prefix_in)
    have "encode_key k \<in> set (lst s (partition_prefix (unix_ms k)) (if starts_with (partition_prefix (unix_ms k)) ?f then Some ?f else None))"
      using above encode_key_in_partition [OF stored_time [OF k(1)]] by (intro stored_listed stored_time [OF k(1)] k(1)) auto
    then have "encode_key k \<in> set ?raws" using part unfolding listed_def set_concat set_map by blast
    then show ?thesis using spec above by blast
  qed
qed

definition genuine :: "journal_reader \<Rightarrow> bool" where
  \<comment> \<open>what is remembered is remembered with its own time\<close>
  "genuine r \<longleftrightarrow> (\<forall>(x, ms) \<in> set (seen r). \<forall>k. in_millennium (unix_ms k) \<longrightarrow> x = encode_key k \<longrightarrow> ms = unix_ms k)"

definition told :: "reader_conf \<Rightarrow> journal_key set \<Rightarrow> nat \<Rightarrow> journal_reader \<Rightarrow> bool" where
  \<comment> \<open>what was reported is remembered with its own time, or is before every later window\<close>
  "told conf ks now r \<longleftrightarrow> (\<forall>k \<in> ks. in_millennium (unix_ms k) \<and>
     (\<forall>ms. (encode_key k, ms) \<in> set (seen r) \<longrightarrow> ms = unix_ms k) \<and>
     (encode_key k \<in> fst ` set (seen r) \<or> (\<forall>t \<ge> now. unix_ms k < window_start conf t r)))"

lemma window_start_le: "window_start conf now r \<le> now"
  by (auto simp: window_start_def Let_def split: option.split)

lemma listed_from_bounds: "window_start conf now r \<le> listed_from conf (window_start conf now r) now r
    \<and> listed_from conf (window_start conf now r) now r \<le> now"
  using window_start_le [of conf now r] by (simp add: listed_from_def)

lemma window_moves_on:
  assumes "now \<le> t" "last_seen_ms r' = Some (max (last_or (last_seen_ms r) now) now)"
  shows "window_start conf now r \<le> window_start conf t r'"
proof -
  have "min (last_or (last_seen_ms r) now) now \<le> min (last_or (last_seen_ms r') t) t"
    using assms by (auto simp: last_or_def split: option.splits)
  then show ?thesis using assms(1) unfolding window_start_def Let_def
    by (auto split: option.split intro: diff_le_mono max.mono)
qed

lemma window_start_mono: "t \<le> u \<Longrightarrow> window_start conf t r \<le> window_start conf u r"
proof -
  assume "t \<le> u"
  then have "min (last_or (last_seen_ms r) t) t \<le> min (last_or (last_seen_ms r) u) u"
    by (auto simp: last_or_def split: option.splits)
  then show ?thesis using \<open>t \<le> u\<close> unfolding window_start_def Let_def
    by (auto split: option.split intro: diff_le_mono max.mono)
qed

lemma tick_reports_new:
  assumes "intact s" "in_millennium now" "tick conf (lst s) now r = (res, r')"
    "t \<le> now" "told conf ks t r"
  obtains found where "res = group_keys conf found" "distinct found" "set found \<subseteq> stored s" "set found \<inter> ks = {}"
    "genuine r \<Longrightarrow> genuine r'" "told conf (ks \<union> set found) now r'"
proof -
  let ?w = "window_start conf now r" and ?l = "listed_from conf (window_start conf now r) now r"
  obtain found sn' where f: "new_keys (lst s) ?l now (forget_before ?w (seen r)) = (found, sn')"
    by (metis surj_pair)
  have r': "res = group_keys conf found" "seen r' = sn'" "last_seen_ms r' = Some (max (last_or (last_seen_ms r) now) now)"
    using assms(3) f by (auto simp: tick_def Let_def)
  note spec = new_keys_spec [OF assms(1,2) _ f]
  have bounds: "?w \<le> ?l" "?l \<le> now" using listed_from_bounds by auto
  have kept: "(x, ms) \<in> set (seen r)" "?w \<le> ms" if "(x, ms) \<in> set (forget_before ?w (seen r))" for x ms
    using that by (auto simp: forget_before_def)
  have forget_sub: "set (forget_before ?w (seen r)) \<subseteq> set (seen r)" by (auto simp: forget_before_def)
  have own: "k = l" if "encode_key k = encode_key l" "in_millennium (unix_ms k)" "l \<in> stored s" for k l
    using that encode_key_inject stored_time by blast
  have gen: "genuine r'" if "genuine r"
    using that kept(1) own stored_time unfolding genuine_def r'(2) spec(4) [OF bounds(2)]
    by (fastforce dest: spec(2) [OF bounds(2), THEN subsetD] simp: encode_key_inject)
  have later: "told conf (ks \<union> set found) now r'"
    unfolding told_def
  proof (intro ballI conjI)
    fix k assume k: "k \<in> ks \<union> set found"
    show m: "in_millennium (unix_ms k)"
      using k assms(5) spec(2) [OF bounds(2)] stored_time unfolding told_def by blast
    show "\<forall>ms. (encode_key k, ms) \<in> set (seen r') \<longrightarrow> ms = unix_ms k"
    proof (intro allI impI)
      fix ms assume in_seen: "(encode_key k, ms) \<in> set (seen r')"
      then consider (kept) "(encode_key k, ms) \<in> set (forget_before ?w (seen r))"
        | (new) j where "j \<in> set found" "encode_key k = encode_key j" "ms = unix_ms j"
        unfolding r'(2) spec(4) [OF bounds(2)] by auto
      then show "ms = unix_ms k"
      proof cases
        case kept
        have "k \<notin> set found" using imageI [OF kept, of fst] spec(3) [OF bounds(2)] by auto
        then have "k \<in> ks" using k by blast
        then show ?thesis using assms(5) kept(1) forget_sub unfolding told_def by blast
      next
        case new
        then show ?thesis using own [OF new(2) m] spec(2) [OF bounds(2)] by blast
      qed
    qed
    show "encode_key k \<in> fst ` set (seen r') \<or> (\<forall>u \<ge> now. unix_ms k < window_start conf u r')"
    proof (cases "encode_key k \<in> fst ` set sn'")
      case False
      then have "k \<notin> set found" using spec(4) [OF bounds(2)] by force
      then have "k \<in> ks" using k by blast
      have "unix_ms k < ?w"
      proof (cases "encode_key k \<in> fst ` set (seen r)")
        case True
        then obtain ms where ms: "(encode_key k, ms) \<in> set (seen r)" by auto
        then have "ms = unix_ms k" using \<open>k \<in> ks\<close> assms(5) unfolding told_def by blast
        moreover have "(encode_key k, ms) \<notin> set (forget_before ?w (seen r))"
          using False spec(4) [OF bounds(2)] by force
        ultimately show ?thesis using ms by (simp add: forget_before_def)
      next
        case False
        then show ?thesis using \<open>k \<in> ks\<close> assms(4,5) unfolding told_def by blast
      qed
      then show ?thesis using window_moves_on [OF _ r'(3)] by (meson less_le_trans)
    qed (simp add: r'(2))
  qed
  have new: "k \<notin> ks" if "k \<in> set found" for k
  proof
    assume "k \<in> ks"
    note k = spec(3) [OF bounds(2) that]
    have m: "in_millennium (unix_ms k)" using \<open>k \<in> ks\<close> assms(5) by (auto simp: told_def)
    from \<open>k \<in> ks\<close> assms(4,5) have "encode_key k \<in> fst ` set (seen r) \<or> unix_ms k < ?w" unfolding told_def by blast
    then show False
    proof
      assume "encode_key k \<in> fst ` set (seen r)"
      then obtain ms where ms: "(encode_key k, ms) \<in> set (seen r)" by auto
      then have "ms = unix_ms k" using \<open>k \<in> ks\<close> assms(5) unfolding told_def by blast
      then have "(encode_key k, ms) \<in> set (forget_before ?w (seen r))"
        using ms k bounds by (simp add: forget_before_def)
      then show False using k by force
    qed (use k bounds in simp)
  qed
  show ?thesis
    by (rule that [OF r'(1) spec(1) [OF bounds(2)] spec(2) [OF bounds(2)] _ gen later]) (use new in blast)
qed

lemma run_reports_once:
  assumes "run_reader lst conf (map (\<lambda>(now, s). Tick now s) ts) r = (rs, r')"
    "sorted (t # map fst ts)" "\<forall>(now, s) \<in> set ts. in_millennium now \<and> intact s"
    "told conf ks t r"
  shows "distinct (concat (map result_keys rs)) \<and> set (concat (map result_keys rs)) \<inter> ks = {}
    \<and> length rs = length ts \<and> (\<forall>i < length ts. set (result_keys (rs ! i)) \<subseteq> stored (snd (ts ! i)))"
  using assms
proof (induction ts arbitrary: r rs t ks)
  case (Cons e ts)
  obtain now s where e: "e = (now, s)" by (metis surj_pair)
  obtain res r1 rs1 where run: "tick conf (lst s) now r = (res, r1)"
    "run_reader lst conf (map (\<lambda>(now, s). Tick now s) ts) r1 = (rs1, r')" "rs = res # rs1"
    using Cons.prems(1) by (auto simp: e split: prod.splits)
  have h: "intact s" "in_millennium now" "t \<le> now" using Cons.prems(2,3) by (auto simp: e)
  obtain found where f: "res = group_keys conf found" "distinct found" "set found \<subseteq> stored s" "set found \<inter> ks = {}"
    "told conf (ks \<union> set found) now r1"
    using tick_reports_new [OF h(1,2) run(1) h(3) Cons.prems(4)] .
  have "sorted (now # map fst ts)" "\<forall>(now, s) \<in> set ts. in_millennium now \<and> intact s"
    using Cons.prems(2,3) by (auto simp: e)
  from Cons.IH [OF run(2) this f(5)]
  have ih: "distinct (concat (map result_keys rs1))" "set (concat (map result_keys rs1)) \<inter> (ks \<union> set found) = {}"
    "length rs1 = length ts" "\<forall>i < length ts. set (result_keys (rs1 ! i)) \<subseteq> stored (snd (ts ! i))"
    by auto
  have keys: "set (result_keys res) \<subseteq> set found" "distinct (result_keys res)"
    using group_result f(1,2) by auto
  have "set (result_keys (rs ! i)) \<subseteq> stored (snd ((e # ts) ! i))" if "i < length (e # ts)" for i
    using that ih(4) keys(1) f(3) by (cases i) (auto simp: run(3) e)
  moreover have "distinct (concat (map result_keys rs))" "set (concat (map result_keys rs)) \<inter> ks = {}"
    using ih(1,2) keys f(4) by (auto simp: run(3))
  ultimately show ?case using ih(3) by (simp add: run(3))
qed simp

lemma resume_forgets: "fst ` set (seen (from_cursor (cursor r))) \<subseteq> fst ` set (seen r)"
  by (auto simp: from_cursor_def cursor_def new_reader_def image_iff) force

lemma tick_announces:
  assumes "tick conf (lst s) now r = (res, r1)" "intact s" "in_millennium now"
    "k \<in> stored s" "encode_key k \<in> fst ` set (seen r1)" "encode_key k \<notin> fst ` set (seen r)"
  shows "announced res k"
proof -
  let ?w = "window_start conf now r" and ?l = "listed_from conf (window_start conf now r) now r"
  obtain found sn' where f: "new_keys (lst s) ?l now (forget_before ?w (seen r)) = (found, sn')"
    by (metis surj_pair)
  have r: "res = group_keys conf found" "seen r1 = sn'" using assms(1) f by (auto simp: tick_def Let_def)
  have l: "?l \<le> now" using listed_from_bounds by blast
  have "encode_key k \<in> encode_key ` set found"
    using assms(5,6) new_keys_spec(4) [OF assms(2,3) l f] by (auto simp: r forget_before_def)
  then obtain j where j: "j \<in> set found" "encode_key k = encode_key j" by auto
  then have "k = j"
    using new_keys_spec(2) [OF assms(2,3) l f] encode_key_inject [OF stored_time [OF assms(4)]] stored_time by blast
  then show ?thesis using j(1) group_announces r(1) by simp
qed

lemma rescan_remembers:
  assumes "tick conf (lst s) now r = (res, r1)" "intact s" "in_millennium now" "k \<in> stored s"
    "rescan_due conf now r" "window_start conf now r \<le> unix_ms k" "unix_ms k \<le> now"
  shows "encode_key k \<in> fst ` set (seen r1)"
proof -
  let ?w = "window_start conf now r"
  obtain found sn' where f: "new_keys (lst s) ?w now (forget_before ?w (seen r)) = (found, sn')"
    by (metis surj_pair)
  have "seen r1 = sn'" using assms(1,5) f by (auto simp: tick_def Let_def listed_from_def)
  then show ?thesis
    using new_keys_spec(5) [OF assms(2,3) window_start_le f assms(4,6)] assms(7) by (simp add: div_le_mono)
qed

definition awaits :: "journal_key \<Rightarrow> nat \<Rightarrow> nat \<Rightarrow> 's reader_event \<Rightarrow> bool" where
  "awaits k lo hi e = (case e of Tick now s \<Rightarrow> lo \<le> now \<and> now \<le> hi \<and> in_millennium now \<and> intact s \<and> k \<in> stored s | Resume \<Rightarrow> True)"

lemma run_announces:
  assumes "run_reader lst conf es r = (rs, r')" "\<forall>e \<in> set es. awaits k lo hi e" "es \<noteq> []" "last es = Tick hi s2"
    "case rescanned_ms r of None \<Rightarrow> True | Some t \<Rightarrow> t \<le> lo" "lo + rescan_ms conf \<le> hi"
    "unix_ms k \<le> lo" "hi \<le> unix_ms k + skew_ms conf"
    "case lookback_ms conf of None \<Rightarrow> True | Some b \<Rightarrow> hi \<le> unix_ms k + b"
    "encode_key k \<notin> fst ` set (seen r)"
  shows "\<exists>res \<in> set rs. announced res k"
  using assms
proof (induction es arbitrary: r rs)
  case (Cons e es)
  show ?case
  proof (cases e)
    case (Tick now s)
    obtain res r1 rs1 where run: "tick conf (lst s) now r = (res, r1)" "run_reader lst conf es r1 = (rs1, r')" "rs = res # rs1"
      using Cons.prems(1) Tick by (auto split: prod.splits)
    have t: "lo \<le> now" "now \<le> hi" "in_millennium now" "intact s" "k \<in> stored s"
      using Cons.prems(2) Tick by (auto simp: awaits_def)
    have w: "window_start conf now r \<le> unix_ms k"
    proof -
      have "min (last_or (last_seen_ms r) now) now - skew_ms conf \<le> unix_ms k" using t(2) Cons.prems(8) by auto
      moreover have "now - b \<le> unix_ms k" if "lookback_ms conf = Some b" for b using that t(2) Cons.prems(9) by auto
      ultimately show ?thesis by (auto simp: window_start_def Let_def split: option.split)
    qed
    show ?thesis
    proof (cases "encode_key k \<in> fst ` set (seen r1)")
      case True
      then show ?thesis using tick_announces [OF run(1) t(4,3,5) True Cons.prems(10)] run(3) by simp
    next
      case False
      have nd: "\<not> rescan_due conf now r"
        using False rescan_remembers [OF run(1) t(4,3,5) _ w] t(1) Cons.prems(7) by auto
      then have same: "rescanned_ms r1 = rescanned_ms r" using run(1) by (auto simp: tick_def Let_def split: prod.splits)
      have "es \<noteq> []"
      proof
        assume "es = []"
        then have "now = hi" using Cons.prems(4) Tick by simp
        then show False using nd Cons.prems(5,6) by (auto simp: rescan_due_def split: option.splits)
      qed
      then have "\<exists>res \<in> set rs1. announced res k"
        using Cons.IH [OF run(2) _ _ _ _ Cons.prems(6-9) False] Cons.prems(2,4,5) same by simp
      then show ?thesis using run(3) by auto
    qed
  next
    case Resume
    let ?r = "from_cursor (cursor r)"
    have "es \<noteq> []" using Cons.prems(4) Resume by auto
    moreover have "rescanned_ms ?r = None" by (simp add: from_cursor_def new_reader_def)
    moreover have "encode_key k \<notin> fst ` set (seen ?r)" using resume_forgets Cons.prems(10) by blast
    ultimately show ?thesis using Cons.IH [OF _ _ _ _ _ Cons.prems(6-9), of ?r rs] Cons.prems(1,2,4) Resume by simp
  qed
qed simp

lemma run_append: "run_reader lst conf (es @ fs) r =
    (case run_reader lst conf es r of (rs, r1) \<Rightarrow> case run_reader lst conf fs r1 of (ss, r2) \<Rightarrow> (rs @ ss, r2))"
  by (induction lst conf es r rule: run_reader.induct) (auto split: prod.splits)

definition readable_event :: "nat \<Rightarrow> 's reader_event \<Rightarrow> bool" where
  "readable_event hi e = (case e of Tick now s \<Rightarrow> now \<le> hi \<and> in_millennium now \<and> intact s | Resume \<Rightarrow> True)"

lemma run_remembers:
  assumes "run_reader lst conf es r = (rs, r')" "\<forall>e \<in> set es. readable_event lo e" "in_millennium (unix_ms k)"
    "case rescanned_ms r of None \<Rightarrow> True | Some t \<Rightarrow> t \<le> lo"
  shows "(case rescanned_ms r' of None \<Rightarrow> True | Some t \<Rightarrow> t \<le> lo)
    \<and> (encode_key k \<in> fst ` set (seen r') \<longrightarrow> encode_key k \<in> fst ` set (seen r) \<or> (\<exists>res \<in> set rs. announced res k))"
  using assms
proof (induction es arbitrary: r rs)
  case (Cons e es)
  show ?case
  proof (cases e)
    case (Tick now s)
    obtain res r1 rs1 where run: "tick conf (lst s) now r = (res, r1)" "run_reader lst conf es r1 = (rs1, r')" "rs = res # rs1"
      using Cons.prems(1) Tick by (auto split: prod.splits)
    have t: "now \<le> lo" "in_millennium now" "intact s" using Cons.prems(2) Tick by (auto simp: readable_event_def)
    have b: "case rescanned_ms r1 of None \<Rightarrow> True | Some t \<Rightarrow> t \<le> lo"
      using run(1) Cons.prems(4) t(1) by (auto simp: tick_def Let_def split: prod.splits option.splits if_splits)
    have "encode_key k \<in> fst ` set (seen r) \<or> announced res k" if "encode_key k \<in> fst ` set (seen r1)"
    proof (rule ccontr)
      assume no: "\<not> ?thesis"
      let ?l = "listed_from conf (window_start conf now r) now r"
      obtain found sn' where f: "new_keys (lst s) ?l now (forget_before (window_start conf now r) (seen r)) = (found, sn')"
        by (metis surj_pair)
      have l: "?l \<le> now" using listed_from_bounds by blast
      have "seen r1 = sn'" using run(1) f by (auto simp: tick_def Let_def)
      then have "encode_key k \<in> encode_key ` set found"
        using that no new_keys_spec(4) [OF t(3,2) l f] by (auto simp: forget_before_def)
      then obtain j where "j \<in> stored s" "encode_key k = encode_key j" using new_keys_spec(2) [OF t(3,2) l f] by blast
      then have "k \<in> stored s" using encode_key_inject [OF Cons.prems(3)] stored_time by metis
      then show False using tick_announces [OF run(1) t(3,2) _ that] no by blast
    qed
    moreover have "\<forall>e \<in> set es. readable_event lo e" using Cons.prems(2) by simp
    ultimately show ?thesis using Cons.IH [OF run(2) _ Cons.prems(3) b] run(3) by auto
  next
    case Resume
    let ?r = "from_cursor (cursor r)"
    have "rescanned_ms ?r = None" by (simp add: from_cursor_def new_reader_def)
    then show ?thesis using Cons.IH [of ?r rs] Cons.prems Resume resume_forgets [of r] by auto
  qed
qed simp

lemma entry_arrives:
  assumes "run_reader lst conf (es @ fs) (new_reader None []) = (rs, r')"
    "\<forall>e \<in> set es. readable_event lo e" "\<forall>e \<in> set fs. awaits k lo hi e" "fs \<noteq> []" "last fs = Tick hi s2"
    "lo + rescan_ms conf \<le> hi" "unix_ms k \<le> lo" "hi \<le> unix_ms k + skew_ms conf"
    "case lookback_ms conf of None \<Rightarrow> True | Some b \<Rightarrow> hi \<le> unix_ms k + b"
  shows "\<exists>res \<in> set rs. announced res k"
proof -
  obtain rs1 r1 rs2 where run: "run_reader lst conf es (new_reader None []) = (rs1, r1)"
    "run_reader lst conf fs r1 = (rs2, r')" "rs = rs1 @ rs2"
    using assms(1) by (auto simp: run_append split: prod.splits)
  have "awaits k lo hi (Tick hi s2)" using assms(3-5) by (metis last_in_set)
  then have "k \<in> stored s2" by (simp add: awaits_def)
  from run_remembers [OF run(1) assms(2) stored_time [OF this]]
  have "case rescanned_ms r1 of None \<Rightarrow> True | Some t \<Rightarrow> t \<le> lo"
    "encode_key k \<in> fst ` set (seen r1) \<longrightarrow> (\<exists>res \<in> set rs1. announced res k)"
    by (auto simp: new_reader_def)
  then show ?thesis using run_announces [OF run(2) assms(3-5) _ assms(6-9)] run(3) by auto
qed

end

section \<open>The local sink keeps the promise\<close>

definition sink_keys :: "sink \<Rightarrow> journal_key set" where
  "sink_keys keys = {k. in_millennium (unix_ms k) \<and> encode_key k \<in> set keys}"

definition journal_only :: "sink \<Rightarrow> bool" where
  \<comment> \<open>below \<open>journal/\<close> there are journal entries only\<close>
  "journal_only keys \<longleftrightarrow> (\<forall>x \<in> set keys. starts_with JOURNAL_PREFIX x \<longrightarrow> x \<in> encode_key ` sink_keys keys)"

lemma partition_name:
  assumes "in_millennium t" "in_millennium (unix_ms k)" "starts_with (partition_prefix t) (encode_key k)"
  shows "partition_prefix t @ takeWhile (\<lambda>c. c \<noteq> CHR ''/'') (drop (length (partition_prefix t)) (encode_key k)) = encode_key k"
proof -
  let ?rest = "digits_of 13 (unix_ms k) @ ''_'' @ key_tail k"
  have e: "encode_key k = partition_prefix (unix_ms k) @ ?rest"
    using encode_key_parts [OF assms(2)] by (simp add: partition_prefix_def)
  have len: "length (partition_prefix t) = length (partition_prefix (unix_ms k))"
    using assms(1,2) by (simp add: partition_prefix_def partition_length)
  have "CHR ''/'' \<notin> set ?rest" by (rule set_split_char [of _ _ "encode_key k"]) (simp add: split_key [OF assms(2)])
  then have "takeWhile (\<lambda>c. c \<noteq> CHR ''/'') ?rest = ?rest" unfolding takeWhile_eq_all_conv by blast
  moreover have "partition_prefix t = partition_prefix (unix_ms k)"
    using assms(3) len unfolding e starts_with_iff by (metis append_eq_append_conv)
  ultimately show ?thesis unfolding e by simp
qed

lemma sink_listing:
  assumes "in_millennium t"
  shows "k \<in> sink_keys keys \<Longrightarrow> starts_with (partition_prefix t) (encode_key k) \<Longrightarrow>
      (case a of None \<Rightarrow> True | Some f \<Rightarrow> encode_key k > f) \<Longrightarrow> encode_key k \<in> set (sink_list keys (partition_prefix t) a)"
    and "journal_only keys \<Longrightarrow> x \<in> set (sink_list keys (partition_prefix t) a) \<Longrightarrow> x \<in> encode_key ` sink_keys keys"
proof -
  let ?p = "partition_prefix t"
  show "encode_key k \<in> set (sink_list keys ?p a)" if k: "k \<in> sink_keys keys" "starts_with ?p (encode_key k)"
    "case a of None \<Rightarrow> True | Some f \<Rightarrow> encode_key k > f"
  proof -
    let ?n = "takeWhile (\<lambda>c. c \<noteq> CHR ''/'') (drop (length ?p) (encode_key k))"
    have "?n \<in> set (dir_names keys ?p)"
      using k by (auto simp: dir_names_def sink_keys_def)
    then have "?p @ ?n \<in> set (map (\<lambda>n. ?p @ n) (sort (dir_names keys ?p)))" by simp
    moreover have "?p @ ?n = encode_key k"
      using partition_name [OF assms _ k(2)] k(1) by (simp add: sink_keys_def)
    ultimately show ?thesis using k(3) unfolding sink_list_def set_filter by (auto split: option.splits)
  qed
  show "x \<in> encode_key ` sink_keys keys" if x: "journal_only keys" "x \<in> set (sink_list keys ?p a)"
  proof -
    obtain y where y: "y \<in> set keys" "starts_with ?p y"
      "x = ?p @ takeWhile (\<lambda>c. c \<noteq> CHR ''/'') (drop (length ?p) y)"
      using x(2) by (auto simp: sink_list_def dir_names_def)
    then have "starts_with JOURNAL_PREFIX y" by (auto simp: partition_prefix_def starts_with_iff)
    then obtain k where "y = encode_key k" "k \<in> sink_keys keys" using x(1) y(1) by (auto simp: journal_only_def)
    then show ?thesis using partition_name [OF assms, of k] y by (auto simp: sink_keys_def)
  qed
qed

interpretation local_sink: journal_listing sink_list sink_keys journal_only
proof
  show "x \<in> encode_key ` sink_keys s" if "journal_only s" "in_millennium t" "x \<in> set (sink_list s (partition_prefix t) a)" for s t x a
    using sink_listing(2) [OF that(2,1,3)] .
  show "encode_key k \<in> set (sink_list s (partition_prefix t) a)"
    if "k \<in> sink_keys s" "in_millennium t" "starts_with (partition_prefix t) (encode_key k)"
      "case a of None \<Rightarrow> True | Some f \<Rightarrow> encode_key k > f" for k s t a
    using sink_listing(1) [OF that(2,1,3,4)] .
  show "in_millennium (unix_ms k)" if "k \<in> sink_keys s" for k s using that by (simp add: sink_keys_def)
qed

section \<open>What a reader reports\<close>

text \<open>
  C35. A reader's lifetime: started fresh (the empty cursor) or from any other cursor, whatever its
  ticks list of a journal that changes between them, while its clock does not run backwards it reports
  no entry twice and only entries that were in the journal at that tick. Below journal/ there are
  journal entries only, and the clock is before the year 2286. (Across a restart entries may be reported
  again, since the cursor keeps only the keys at or after the last tick: lemma resume_repeats.)
\<close>

theorem journal_reported_once:
  assumes "run_reader sink_list conf (map (\<lambda>(now, s). Tick now s) ts) (from_cursor c) = (rs, r')"
    "sorted (map fst ts)" "\<forall>(now, s) \<in> set ts. in_millennium now \<and> journal_only s"
  shows "distinct (concat (map result_keys rs)) \<and> length rs = length ts
    \<and> (\<forall>i < length ts. set (result_keys (rs ! i)) \<subseteq> sink_keys (snd (ts ! i)))"
  using local_sink.run_reports_once [OF assms(1) _ assms(3), of 0 "{}"] assms(2)
  by (auto simp: local_sink.told_def)

text \<open>
  C34. An entry that is in the journal from some moment on, at or after its own time, is announced by a
  reader that ticks again after the rescan interval and still within the skew window, whatever the
  ticks before and between and however often the reader is restarted from its cursor. Announced is an
  entry among those of its scope, or its record among the names of a scope with too many.
\<close>

theorem journal_entry_arrives:
  assumes "run_reader sink_list conf (es @ fs) (new_reader None []) = (rs, r')"
    "\<forall>e \<in> set es. case e of Tick now s \<Rightarrow> now \<le> lo \<and> in_millennium now \<and> journal_only s | Resume \<Rightarrow> True"
    "\<forall>e \<in> set fs. case e of Tick now s \<Rightarrow> lo \<le> now \<and> now \<le> hi \<and> in_millennium now \<and> journal_only s \<and> k \<in> sink_keys s
       | Resume \<Rightarrow> True"
    "fs \<noteq> []" "last fs = Tick hi s2" "lo + rescan_ms conf \<le> hi" "unix_ms k \<le> lo" "hi \<le> unix_ms k + skew_ms conf"
    "case lookback_ms conf of None \<Rightarrow> True | Some b \<Rightarrow> hi \<le> unix_ms k + b"
  shows "\<exists>res \<in> set rs. announced res k"
  using local_sink.entry_arrives [OF assms(1) _ _ assms(4-9)] assms(2,3)
  unfolding local_sink.readable_event_def local_sink.awaits_def by blast

definition first_key :: journal_key where
  "first_key = \<lparr>unix_ms = 1000, area = ''runs'', app_key = ''app'', writer_id = ''w'', seq = 0, key_name = ''r1''\<rparr>"

definition default_conf :: reader_conf where
  "default_conf = \<lparr>skew_ms = 300000, max_per_scope = 10000, rescan_ms = 30000, lookback_ms = None\<rparr>"

lemma first_key_stored: "journal_only [encode_key first_key]" "first_key \<in> sink_keys [encode_key first_key]"
  "journal_only []"
proof -
  show k: "first_key \<in> sink_keys [encode_key first_key]"
    by (simp add: sink_keys_def in_millennium_def first_key_def)
  show "journal_only [encode_key first_key]" using k by (simp add: journal_only_def)
qed (simp add: journal_only_def)

definition first_ticks :: "(nat \<times> sink) list" where
  "first_ticks = [(500, []), (1000, [encode_key first_key]), (31000, [encode_key first_key])]"

theorem journal_reported_once_witness:
  "distinct (concat (map result_keys (fst (run_reader sink_list default_conf
     (map (\<lambda>(now, s). Tick now s) first_ticks) (from_cursor (Some 900, []))))))"
proof -
  obtain rs r' where run: "run_reader sink_list default_conf
     (map (\<lambda>(now, s). Tick now s) first_ticks) (from_cursor (Some 900, [])) = (rs, r')"
    by (metis surj_pair)
  have "sorted (map fst first_ticks)" "\<forall>(now, s) \<in> set first_ticks. in_millennium now \<and> journal_only s"
    by (simp_all add: first_ticks_def first_key_stored in_millennium_def)
  from journal_reported_once [OF run this] show ?thesis unfolding run by simp
qed

theorem journal_entry_arrives_witness:
  "\<exists>res \<in> set (fst (run_reader sink_list default_conf
     ([Tick 500 []] @ [Tick 1000 [encode_key first_key], Resume, Tick 31000 [encode_key first_key]]) (new_reader None []))).
     announced res first_key"
proof -
  obtain rs r' where run: "run_reader sink_list default_conf
     ([Tick 500 []] @ [Tick 1000 [encode_key first_key], Resume, Tick 31000 [encode_key first_key]]) (new_reader None []) = (rs, r')"
    by (metis surj_pair)
  have "\<exists>res \<in> set rs. announced res first_key"
  proof (rule journal_entry_arrives [OF run, of 1000 31000])
    show "1000 + rescan_ms default_conf \<le> 31000" "31000 \<le> unix_ms first_key + skew_ms default_conf"
      "unix_ms first_key \<le> 1000" "case lookback_ms default_conf of None \<Rightarrow> True | Some b \<Rightarrow> 31000 \<le> unix_ms first_key + b"
      by (simp_all add: default_conf_def first_key_def)
  qed (simp_all add: first_key_stored in_millennium_def)
  then show ?thesis unfolding run by simp
qed

section \<open>Where entries are reported again\<close>

lemma resume_repeats:
  assumes "journal_listing.genuine r" "last_seen_ms r = Some t" "unix_ms k < t" "k \<in> sink_keys s" "journal_only s"
    "in_millennium now" "window_start conf now (from_cursor (cursor r)) \<le> unix_ms k" "unix_ms k \<le> now"
  shows "announced (fst (tick conf (sink_list s) now (from_cursor (cursor r)))) k"
proof -
  let ?r = "from_cursor (cursor r)"
  obtain res r1 where run: "tick conf (sink_list s) now ?r = (res, r1)" by (metis surj_pair)
  have "\<not> t \<le> ms" if "(encode_key k, ms) \<in> set (seen r)" for ms
    using assms(1,3,4) that by (auto simp: local_sink.genuine_def sink_keys_def)
  then have "encode_key k \<notin> fst ` set (seen ?r)"
    using assms(2) by (auto simp: from_cursor_def cursor_def new_reader_def)
  moreover have "rescan_due conf now ?r" by (simp add: rescan_due_def from_cursor_def new_reader_def)
  ultimately show ?thesis
    using local_sink.tick_announces [OF run assms(5,6,4)] local_sink.rescan_remembers [OF run assms(5,6,4) _ assms(7,8)] run
    by simp
qed

lemma clock_back_repeats:
  assumes "tick conf (sink_list s) now r = (res, r1)" "journal_listing.genuine r" "unix_ms k < window_start conf now r"
    "rescan_due conf now r" "earlier < now" "k \<in> sink_keys s" "journal_only s" "in_millennium now"
    "window_start conf earlier r1 \<le> unix_ms k" "unix_ms k \<le> earlier"
  shows "announced (fst (tick conf (sink_list s) earlier r1)) k"
proof -
  obtain res2 r2 where run: "tick conf (sink_list s) earlier r1 = (res2, r2)" by (metis surj_pair)
  let ?w = "window_start conf now r"
  obtain found sn' where f: "new_keys (sink_list s) ?w now (forget_before ?w (seen r)) = (found, sn')"
    by (metis surj_pair)
  have r1: "seen r1 = sn'" "rescanned_ms r1 = Some now"
    using assms(1,4) f by (auto simp: tick_def Let_def listed_from_def)
  note spec = local_sink.new_keys_spec [OF assms(7,8) local_sink.window_start_le f]
  have e: "in_millennium earlier" using assms(5,8) by (simp add: in_millennium_def)
  have "(encode_key k, ms) \<notin> set sn'" for ms
  proof
    assume "(encode_key k, ms) \<in> set sn'"
    then consider "(encode_key k, ms) \<in> set (seen r)" "?w \<le> ms" | j where "j \<in> set found" "encode_key k = encode_key j"
      unfolding spec(4) by (auto simp: forget_before_def)
    then show False
    proof cases
      case 1
      then show False using assms(2,3,6) by (auto simp: local_sink.genuine_def sink_keys_def)
    next
      case 2
      then have "k = j" using spec(2) assms(6) encode_key_inject by (auto simp: sink_keys_def)
      then show False using spec(3) [OF 2(1)] assms(3) by simp
    qed
  qed
  then have "encode_key k \<notin> fst ` set (seen r1)" using r1 by auto
  moreover have "rescan_due conf earlier r1" using assms(5) by (simp add: rescan_due_def r1)
  ultimately show ?thesis
    using local_sink.tick_announces [OF run assms(7) e assms(6)]
      local_sink.rescan_remembers [OF run assms(7) e assms(6) _ assms(9,10)] run by simp
qed

end
