(* ===== verification/Journal_Writer.thy ===== *)
theory Journal_Writer
imports Journal_Reader Data_Values
begin

text \<open>
  The write side of the change journal, from storage/journal.py: which calls of a store put an entry,
  the queue that keeps what could not be put, shared by the threads of a process, and pruning. The
  sink's answers are a parameter; forked children, which start with a queue of their own, are other
  instances.
\<close>

section \<open>Which calls are journaled\<close>

definition is_heartbeat :: "(string \<Rightarrow> yv option) \<Rightarrow> string \<Rightarrow> string \<Rightarrow> bool res" where
  \<comment> \<open>the parser is \<open>yaml.safe_load\<close>, nothing when it raises\<close>
  "is_heartbeat yaml filename data =
     (if filename \<noteq> ''run_state.yml'' then Inr False
      else (case yaml data of
              None \<Rightarrow> Inr False
            | Some v \<Rightarrow>
                (let state = (if truthy v then v else YMap [])
                 in if \<not> is_map state then Inl AttributeErr
                    else Inr ((yfind state ''exit_code'' = None \<or> yfind state ''exit_code'' = Some YNull)
                              \<and> yfind state ''state'' \<noteq> Some (YStr ''finished'')))))"

datatype write_method =
    Save | Create_Exclusive | Update_Metadata | Update_Note | Save_File | Save_File_If_Match
  | Save_Artifact_File | Append_Log_Entry | Append_Log_Entries | Put_Log_Segment | Append_Metric_Block
  | Create_Log_Segment | Put_Metric_Segment | Create_Metric_Segment | Put_Indexed | Delete

definition first_item :: "yv \<Rightarrow> yv res" where
  \<comment> \<open>\<open>r[0]\<close> of a result\<close>
  "first_item v = (case v of YList (x # _) \<Rightarrow> Inr x | YList [] \<Rightarrow> Inl IndexErr | _ \<Rightarrow> Inl TypeErr)"

definition journaled_when :: "(string \<Rightarrow> yv option) \<Rightarrow> write_method \<Rightarrow> yv \<Rightarrow> string \<Rightarrow> string \<Rightarrow> bool res" where
  "journaled_when yaml m result filename data =
     (case m of
        Create_Exclusive \<Rightarrow> Inr (truthy result)
      | Update_Metadata \<Rightarrow> Inr (result \<noteq> YBool False)
      | Save_File \<Rightarrow> map_sum id Not (is_heartbeat yaml filename data)
      | Save_File_If_Match \<Rightarrow>
          bind_res (first_item result) (\<lambda>w. if truthy w then map_sum id Not (is_heartbeat yaml filename data) else Inr False)
      | Append_Metric_Block \<Rightarrow> Inr (truthy result)
      | Create_Log_Segment \<Rightarrow> Inr (truthy result)
      | Create_Metric_Segment \<Rightarrow> Inr (truthy result)
      | Put_Indexed \<Rightarrow> Inr (truthy result)
      | _ \<Rightarrow> Inr True)"

record write_call =
  call_app :: string
  call_record :: string
  call_method :: write_method
  call_file :: string     \<comment> \<open>the first two arguments after the record, where the method has them\<close>
  call_data :: string

datatype call_tree = Call write_call "yv res" "call_tree list"
  \<comment> \<open>a call, what the backend's method returned or raised, and the journaled methods it called\<close>

fun journaled_calls :: "(string \<Rightarrow> yv option) \<Rightarrow> nat \<Rightarrow> call_tree \<Rightarrow> write_call list" where
  \<comment> \<open>the calls that put an entry, in order, from the thread's nesting depth on\<close>
  "journaled_calls yaml depth (Call c result inner) =
     concat (map (journaled_calls yaml (depth + 1)) inner)
     @ (case result of Inl e \<Rightarrow> []
        | Inr v \<Rightarrow> if depth = 0 \<and> journaled_when yaml (call_method c) v (call_file c) (call_data c) = Inr True then [c] else [])"

lemma nested_calls_silent: "0 < depth \<Longrightarrow> journaled_calls yaml depth t = []"
proof (induction yaml depth t rule: journaled_calls.induct)
  case (1 yaml depth c result inner)
  then have "concat (map (journaled_calls yaml (depth + 1)) inner) = []" by simp
  then show ?case using 1(2) by (simp split: sum.split)
qed

lemma outer_call_once: "journaled_calls yaml 0 (Call c result inner) =
    (case result of Inl e \<Rightarrow> [] | Inr v \<Rightarrow>
       if journaled_when yaml (call_method c) v (call_file c) (call_data c) = Inr True then [c] else [])"
  by (simp add: nested_calls_silent split: sum.split)

section \<open>The queue\<close>

definition app_key_of :: "string \<Rightarrow> string" where
  \<comment> \<open>\<open>app_key\<close> of storage/areas.py\<close>
  "app_key_of app_name = replace_char (CHR ''/'') (CHR ''-'') app_name"

datatype put_answer = Put_Stored | Put_Lost | Put_Failed
  \<comment> \<open>the put returned, raised after the entry was stored, or raised without storing it\<close>

record journal_store =
  journal_sink :: sink
  puts_done :: nat        \<comment> \<open>how many puts were tried: the answers are by number\<close>

fun put_key :: "(nat \<Rightarrow> put_answer) \<Rightarrow> nat \<Rightarrow> string \<Rightarrow> journal_store \<Rightarrow> bool \<times> journal_store" where
  "put_key answer 0 key st = (False, st)"
| "put_key answer (Suc attempts) key st =
     (let st1 = st\<lparr>puts_done := puts_done st + 1\<rparr>
      in case answer (puts_done st) of
           Put_Stored \<Rightarrow> (True, st1\<lparr>journal_sink := sink_put key (journal_sink st)\<rparr>)
         | Put_Lost \<Rightarrow> put_key answer attempts key (st1\<lparr>journal_sink := sink_put key (journal_sink st)\<rparr>)
         | Put_Failed \<Rightarrow> put_key answer attempts key st1)"

fun put_keys :: "(nat \<Rightarrow> put_answer) \<Rightarrow> nat \<Rightarrow> string list \<Rightarrow> journal_store \<Rightarrow> string list \<times> journal_store" where
  \<comment> \<open>the keys whose put failed\<close>
  "put_keys answer retries [] st = ([], st)"
| "put_keys answer retries (key # keys) st =
     (case put_key answer retries key st of (ok, st1) \<Rightarrow>
        case put_keys answer retries keys st1 of (failed, st2) \<Rightarrow> (if ok then failed else key # failed, st2))"

definition flush_journal :: "(nat \<Rightarrow> put_answer) \<Rightarrow> nat \<Rightarrow> string list \<times> journal_store \<Rightarrow> string list \<times> journal_store" where
  \<comment> \<open>\<open>_JournalState.flush\<close> of one thread alone: the queue before and after\<close>
  "flush_journal answer retries s =
     (case s of (pending, st) \<Rightarrow>
        case put_keys answer retries pending st of (failed, st1) \<Rightarrow> (failed, st1))"

definition record_change :: "(nat \<Rightarrow> put_answer) \<Rightarrow> nat \<Rightarrow> nat \<Rightarrow> string \<Rightarrow> string \<Rightarrow> string \<Rightarrow> nat \<Rightarrow> string
    \<Rightarrow> string list \<times> journal_store \<Rightarrow> string list \<times> journal_store" where
  \<comment> \<open>\<open>_JournalState.record\<close> at a time, by a writer, with the next number of the process\<close>
  "record_change answer retries now ar app writer n nm s =
     (case s of (pending, st) \<Rightarrow>
        flush_journal answer retries
          (pending @ [encode_key \<lparr>unix_ms = now, area = ar, app_key = app_key_of app, writer_id = writer, seq = n, key_name = nm\<rparr>], st))"

subsection \<open>Threads\<close>

record journal_queue =
  pending :: "string list"
  in_hand :: "nat \<Rightarrow> string list"     \<comment> \<open>per thread: taken from the queue and still to put\<close>
  refused :: "nat \<Rightarrow> string list"     \<comment> \<open>per thread: taken, and their puts failed\<close>
  store :: journal_store

datatype queue_step = Record string | Take nat | Put_Next nat | Put_Back nat

fun do_queue_step :: "(nat \<Rightarrow> put_answer) \<Rightarrow> nat \<Rightarrow> queue_step \<Rightarrow> journal_queue \<Rightarrow> journal_queue option" where
  \<comment> \<open>what a thread does between two points where another can run: queue an entry, take the queue,
      put one key with its retries, put the failed ones back in front; nothing when it cannot\<close>
  "do_queue_step answer retries (Record key) q = Some (q\<lparr>pending := pending q @ [key]\<rparr>)"
| "do_queue_step answer retries (Take t) q =
     (if in_hand q t = [] \<and> refused q t = []
      then Some (q\<lparr>in_hand := (in_hand q)(t := pending q), pending := []\<rparr>) else None)"
| "do_queue_step answer retries (Put_Next t) q =
     (case in_hand q t of [] \<Rightarrow> None
      | key # keys \<Rightarrow>
          (case put_key answer retries key (store q) of (ok, st) \<Rightarrow>
             Some (q\<lparr>in_hand := (in_hand q)(t := keys), store := st,
                     refused := (if ok then refused q else (refused q)(t := refused q t @ [key]))\<rparr>)))"
| "do_queue_step answer retries (Put_Back t) q =
     (if in_hand q t = [] \<and> refused q t \<noteq> []
      then Some (q\<lparr>pending := refused q t @ pending q, refused := (refused q)(t := [])\<rparr>) else None)"

fun queue_run :: "(nat \<Rightarrow> put_answer) \<Rightarrow> nat \<Rightarrow> queue_step list \<Rightarrow> journal_queue \<Rightarrow> journal_queue option" where
  "queue_run answer retries [] q = Some q"
| "queue_run answer retries (a # as) q =
     (case do_queue_step answer retries a q of None \<Rightarrow> None | Some q1 \<Rightarrow> queue_run answer retries as q1)"

definition new_queue :: "journal_store \<Rightarrow> journal_queue" where
  "new_queue st = \<lparr>pending = [], in_hand = (\<lambda>t. []), refused = (\<lambda>t. []), store = st\<rparr>"

section \<open>Pruning\<close>

definition prune_journal :: "nat \<Rightarrow> nat \<Rightarrow> sink \<Rightarrow> sink" where
  \<comment> \<open>of one sink, at \<open>now_ms\<close>; strings below the cutoff are older partitions\<close>
  "prune_journal now_ms max_age_ms keys =
     fold (\<lambda>pre s. if takeWhile (\<lambda>c. c \<noteq> CHR ''/'') (drop (length JOURNAL_PREFIX) pre) < partition_of (now_ms - max_age_ms)
                    then sink_delete_prefix pre s else s)
       (sink_partitions keys) keys"

lemma fold_delete: "set (fold (\<lambda>pre s. if P pre then sink_delete_prefix pre s else s) ps keys)
    = {k \<in> set keys. \<forall>pre \<in> set ps. P pre \<longrightarrow> \<not> starts_with pre k}"
  by (induction ps arbitrary: keys) (auto simp: sink_delete_prefix_def)

lemma partition_plain: "in_millennium t \<Longrightarrow> CHR ''/'' \<notin> set (partition_of t)"
  using digits_of_digits digit_unreserved by (auto simp: partition_of_stamp)

lemma sink_partitions_in:
  assumes "journal_only keys" "pre \<in> set (sink_partitions keys)"
  obtains k where "k \<in> sink_keys keys" "pre = partition_prefix (unix_ms k)"
proof -
  obtain y where y: "y \<in> set keys" "starts_with JOURNAL_PREFIX y"
    "pre = JOURNAL_PREFIX @ takeWhile (\<lambda>c. c \<noteq> CHR ''/'') (drop (length JOURNAL_PREFIX) y) @ ''/''"
    using assms(2) by (auto simp: sink_partitions_def sink_list_def dir_names_def)
  then obtain k where k: "y = encode_key k" "k \<in> sink_keys keys" using assms(1) by (auto simp: journal_only_def)
  then have m: "in_millennium (unix_ms k)" by (simp add: sink_keys_def)
  have "takeWhile (\<lambda>c. c \<noteq> CHR ''/'') (drop (length JOURNAL_PREFIX) y) = partition_of (unix_ms k)"
    using partition_plain [OF m] by (simp add: k(1) encode_key_def partition_prefix_def takeWhile_append)
  then show ?thesis using that k(2) y(3) by (simp add: partition_prefix_def)
qed

lemma partition_listed:
  assumes "k \<in> sink_keys keys"
  shows "partition_prefix (unix_ms k) \<in> set (sink_partitions keys)"
proof -
  have m: "in_millennium (unix_ms k)" "encode_key k \<in> set keys" using assms by (auto simp: sink_keys_def)
  have s: "starts_with JOURNAL_PREFIX (encode_key k)" by (simp add: encode_key_def partition_prefix_def)
  have "takeWhile (\<lambda>c. c \<noteq> CHR ''/'') (drop (length JOURNAL_PREFIX) (encode_key k)) = partition_of (unix_ms k)"
    using partition_plain [OF m(1)] by (simp add: encode_key_def partition_prefix_def takeWhile_append)
  then have "partition_of (unix_ms k) \<in> set (dir_names keys JOURNAL_PREFIX)"
    using m(2) s unfolding dir_names_def set_remdups set_map set_filter by (metis (mono_tags, lifting) image_eqI mem_Collect_eq)
  then show ?thesis by (auto simp: sink_partitions_def sink_list_def partition_prefix_def)
qed

lemma prefix_of_key:
  assumes "in_millennium t" "in_millennium (unix_ms k)"
  shows "starts_with (partition_prefix t) (encode_key k) \<longleftrightarrow> partition_of t = partition_of (unix_ms k)"
proof -
  have "length (partition_of t) = length (partition_of (unix_ms k))" using assms by (simp add: partition_length)
  then show ?thesis
    by (auto simp: encode_key_def partition_prefix_def starts_with_iff)
qed

text \<open>
  Pruning keeps every journal entry younger than the maximal age, and removes every entry of a
  minute before the one the age begins in.
\<close>

theorem prune_by_age:
  assumes "journal_only keys" "in_millennium now_ms" "k \<in> sink_keys keys"
  shows "(now_ms - max_age_ms \<le> unix_ms k \<longrightarrow> k \<in> sink_keys (prune_journal now_ms max_age_ms keys))
    \<and> (unix_ms k div MINUTE_MS < (now_ms - max_age_ms) div MINUTE_MS \<longrightarrow> k \<notin> sink_keys (prune_journal now_ms max_age_ms keys))"
proof -
  let ?cut = "now_ms - max_age_ms"
  have m: "in_millennium (unix_ms k)" "in_millennium ?cut" "encode_key k \<in> set keys"
    using assms(2,3) by (auto simp: in_millennium_def sink_keys_def)
  have name: "takeWhile (\<lambda>c. c \<noteq> CHR ''/'') (drop (length JOURNAL_PREFIX) (partition_prefix t)) = partition_of t"
    if "in_millennium t" for t
    using partition_plain [OF that] by (simp add: partition_prefix_def takeWhile_append)
  have kept: "set (prune_journal now_ms max_age_ms keys) =
    {x \<in> set keys. \<forall>pre \<in> set (sink_partitions keys).
       takeWhile (\<lambda>c. c \<noteq> CHR ''/'') (drop (length JOURNAL_PREFIX) pre) < partition_of ?cut \<longrightarrow> \<not> starts_with pre x}"
    unfolding prune_journal_def fold_delete ..
  have "k \<in> sink_keys (prune_journal now_ms max_age_ms keys)" if young: "?cut \<le> unix_ms k"
  proof -
    have "\<not> starts_with pre (encode_key k)" if pre: "pre \<in> set (sink_partitions keys)"
      "takeWhile (\<lambda>c. c \<noteq> CHR ''/'') (drop (length JOURNAL_PREFIX) pre) < partition_of ?cut" for pre
    proof
      assume st: "starts_with pre (encode_key k)"
      obtain j where j: "j \<in> sink_keys keys" "pre = partition_prefix (unix_ms j)"
        using sink_partitions_in [OF assms(1) pre(1)] .
      then have mj: "in_millennium (unix_ms j)" by (simp add: sink_keys_def)
      have "partition_of (unix_ms k) < partition_of ?cut"
        using st pre(2) name [OF mj] prefix_of_key [OF mj m(1)] by (simp add: j(2))
      moreover have "?cut div MINUTE_MS \<le> unix_ms k div MINUTE_MS" using young by (rule div_le_mono)
      ultimately show False
        using partition_less [OF _ m(2,1)] partition_same [of ?cut "unix_ms k"] by (metis le_neq_implies_less less_asym less_irrefl)
    qed
    then show ?thesis using m by (auto simp: sink_keys_def kept)
  qed
  moreover have "k \<notin> sink_keys (prune_journal now_ms max_age_ms keys)" if old: "unix_ms k div MINUTE_MS < ?cut div MINUTE_MS"
  proof -
    have "partition_of (unix_ms k) < partition_of ?cut" by (rule partition_less [OF old m(1,2)])
    then have "encode_key k \<notin> set (prune_journal now_ms max_age_ms keys)"
      unfolding kept using partition_listed [OF assms(3)] name [OF m(1)] encode_key_in_partition [OF m(1)] by force
    then show ?thesis by (simp add: sink_keys_def)
  qed
  ultimately show ?thesis by blast
qed

section \<open>No entry is lost\<close>

definition recorded_keys :: "queue_step list \<Rightarrow> string list" where
  "recorded_keys as = concat (map (\<lambda>a. case a of Record k \<Rightarrow> [k] | _ \<Rightarrow> []) as)"

definition waiting :: "journal_queue \<Rightarrow> string set" where
  "waiting q = set (pending q) \<union> (\<Union>t. set (in_hand q t) \<union> set (refused q t))"

lemma sink_put_set [simp]: "set (sink_put k s) = insert k (set s)"
  by (auto simp: sink_put_def)

lemma put_key_spec:
  "put_key answer n key st = (ok, st1) \<Longrightarrow>
     set (journal_sink st) \<subseteq> set (journal_sink st1) \<and> set (journal_sink st1) \<subseteq> insert key (set (journal_sink st))
     \<and> (ok \<longrightarrow> key \<in> set (journal_sink st1))"
proof (induction answer n key st rule: put_key.induct)
  case (2 answer n key st)
  then show ?case by (cases "answer (puts_done st)") (fastforce simp: Let_def)+
qed auto

lemma union_at: "(\<Union>u. set (f u)) = set (f t) \<union> (\<Union>u \<in> - {t}. set (f u))"
  by blast

lemma union_upd: "(\<Union>u. set ((f(t := xs)) u)) = set xs \<union> (\<Union>u \<in> - {t}. set (f u))"
  by (auto split: if_splits)

lemma waiting_split: "waiting q = set (pending q) \<union> (\<Union>u. set (in_hand q u)) \<union> (\<Union>u. set (refused q u))"
  by (auto simp: waiting_def)

lemma queue_step_keeps:
  assumes "do_queue_step answer retries a q = Some q1"
  shows "set (journal_sink (store q1)) \<union> waiting q1
    = set (journal_sink (store q)) \<union> waiting q \<union> set (recorded_keys [a])"
proof (cases a)
  case (Put_Next t)
  obtain key keys where h: "in_hand q t = key # keys" using assms Put_Next by (auto split: list.splits)
  obtain ok st where p: "put_key answer retries key (store q) = (ok, st)" by (metis surj_pair)
  have q1: "q1 = q\<lparr>in_hand := (in_hand q)(t := keys), store := st,
      refused := (if ok then refused q else (refused q)(t := refused q t @ [key]))\<rparr>"
    using assms Put_Next h p by simp
  have hand: "(\<Union>u. set (in_hand q u)) = insert key (\<Union>u. set (((in_hand q)(t := keys)) u))"
    using union_at [of "in_hand q" t] union_upd [of "in_hand q" t keys] h by simp
  have "(\<Union>u. set (((refused q)(t := refused q t @ [key])) u)) = insert key (\<Union>u. set (refused q u))"
    by (auto split: if_splits)
  then have w: "waiting q1 \<union> (if ok then {key} else {}) = waiting q" "ok \<or> key \<in> waiting q1"
    using hand by (auto simp: waiting_def q1 UN_Un_distrib split: if_splits)
  show ?thesis using put_key_spec [OF p] w by (auto simp: q1 recorded_keys_def Put_Next split: if_splits)
next
  case (Take t)
  then have "q1 = q\<lparr>in_hand := (in_hand q)(t := pending q), pending := []\<rparr>" "in_hand q t = []"
    using assms by (auto split: if_splits)
  then show ?thesis
    using union_at [of "in_hand q" t] union_upd [of "in_hand q" t "pending q"]
    by (simp add: waiting_split recorded_keys_def Take del: fun_upd_apply)
next
  case (Put_Back t)
  then have "q1 = q\<lparr>pending := refused q t @ pending q, refused := (refused q)(t := [])\<rparr>"
    using assms by (auto split: if_splits)
  then show ?thesis
    using union_at [of "refused q" t] union_upd [of "refused q" t "[]"]
    by (simp add: waiting_split recorded_keys_def Put_Back del: fun_upd_apply) blast
qed (use assms in \<open>auto simp: waiting_def recorded_keys_def\<close>)

lemma queue_run_keeps:
  "queue_run answer retries as q = Some q1 \<Longrightarrow>
     set (journal_sink (store q1)) \<union> waiting q1 = set (journal_sink (store q)) \<union> waiting q \<union> set (recorded_keys as)"
proof (induction as arbitrary: q)
  case (Cons a as)
  then obtain q2 where q: "do_queue_step answer retries a q = Some q2" "queue_run answer retries as q2 = Some q1"
    by (auto split: option.splits)
  have "set (recorded_keys (a # as)) = set (recorded_keys [a]) \<union> set (recorded_keys as)" by (simp add: recorded_keys_def)
  then show ?case using Cons.IH [OF q(2)] queue_step_keeps [OF q(1)] by blast
qed (simp add: recorded_keys_def)

text \<open>
  C36. However threads interleave, and whatever puts fail or fail after having stored, every journal
  entry that was recorded is in the sink or waiting in the queue or with a thread, and the sink gains
  nothing else; so once no thread holds any and the queue is empty, all of them are in the sink.
\<close>

theorem journal_loses_nothing:
  assumes "queue_run answer retries as (new_queue st) = Some q"
  shows "set (journal_sink (store q)) \<union> waiting q = set (journal_sink st) \<union> set (recorded_keys as)
    \<and> (waiting q = {} \<longrightarrow> set (recorded_keys as) \<subseteq> set (journal_sink (store q)))"
proof -
  have "waiting (new_queue st) = {}" by (simp add: waiting_def new_queue_def)
  moreover have "store (new_queue st) = st" by (simp add: new_queue_def)
  ultimately have "set (journal_sink (store q)) \<union> waiting q = set (journal_sink st) \<union> set (recorded_keys as)"
    using queue_run_keeps [OF assms] by simp
  then show ?thesis by blast
qed

definition two_threads :: "queue_step list" where
  \<comment> \<open>the second thread's put fails, and goes out with the first one's flush\<close>
  "two_threads = [Record ''a'', Take 0, Record ''b'', Take 1, Put_Next 1, Put_Back 1, Put_Next 0, Take 0, Put_Next 0]"

definition first_fails :: "nat \<Rightarrow> put_answer" where
  "first_fails n = (if n = 0 then Put_Failed else Put_Stored)"

lemma two_threads_run:
  "\<exists>q. queue_run first_fails 1 two_threads (new_queue \<lparr>journal_sink = [], puts_done = 0\<rparr>) = Some q
     \<and> waiting q = {} \<and> journal_sink (store q) = [''a'', ''b'']"
  by (simp add: two_threads_def new_queue_def first_fails_def sink_put_def waiting_def Let_def)

theorem journal_loses_nothing_witness:
  "\<exists>q. queue_run first_fails 1 two_threads (new_queue \<lparr>journal_sink = [], puts_done = 0\<rparr>) = Some q
     \<and> set (recorded_keys two_threads) \<subseteq> set (journal_sink (store q)) \<and> recorded_keys two_threads = [''a'', ''b'']"
proof -
  obtain q where q: "queue_run first_fails 1 two_threads (new_queue \<lparr>journal_sink = [], puts_done = 0\<rparr>) = Some q"
    "waiting q = {}" using two_threads_run by blast
  from journal_loses_nothing [OF q(1)] q show ?thesis by (simp add: recorded_keys_def two_threads_def)
qed

section \<open>A flush goes out\<close>

definition answers :: "(nat \<Rightarrow> put_answer) \<Rightarrow> nat \<Rightarrow> nat \<Rightarrow> bool" where
  \<comment> \<open>from the put number \<open>n\<close> on, one of any \<open>retries\<close> puts in a row is stored\<close>
  "answers answer retries n \<longleftrightarrow> (\<forall>i \<ge> n. \<exists>j < retries. answer (i + j) = Put_Stored)"

lemma put_key_ok:
  "j < r \<Longrightarrow> answer (puts_done st + j) = Put_Stored \<Longrightarrow>
     \<exists>st1. put_key answer r key st = (True, st1) \<and> puts_done st \<le> puts_done st1"
proof (induction answer r key st arbitrary: j rule: put_key.induct)
  case (2 answer r key st)
  let ?st = "\<lambda>s. st\<lparr>puts_done := puts_done st + 1, journal_sink := s\<rparr>"
  show ?case
  proof (cases j)
    case 0
    then show ?thesis using 2(4) by (simp add: Let_def)
  next
    case (Suc i)
    then have i: "i < r" "answer (puts_done (st\<lparr>puts_done := puts_done st + 1\<rparr>) + i) = Put_Stored"
      using 2(3,4) by simp_all
    show ?thesis
    proof (cases "answer (puts_done st)")
      case Put_Lost
      from 2(1) [OF refl Put_Lost, of i] i show ?thesis using Put_Lost by (force simp: Let_def)
    next
      case Put_Failed
      from 2(2) [OF refl Put_Failed, of i] i show ?thesis using Put_Failed by (force simp: Let_def)
    qed (simp add: Let_def)
  qed
qed simp

lemma put_keys_ok:
  "answers answer retries (puts_done st) \<Longrightarrow>
     \<exists>st1. put_keys answer retries keys st = ([], st1) \<and> set keys \<union> set (journal_sink st) \<subseteq> set (journal_sink st1)"
proof (induction keys arbitrary: st)
  case (Cons key keys)
  obtain j where "j < retries" "answer (puts_done st + j) = Put_Stored"
    using Cons.prems unfolding answers_def by blast
  from put_key_ok [of j retries answer st key] this
  obtain st1 where p: "put_key answer retries key st = (True, st1)" "puts_done st \<le> puts_done st1" by blast
  then have "answers answer retries (puts_done st1)" using Cons.prems unfolding answers_def by (meson order_trans)
  from Cons.IH [OF this] obtain st2 where
    k: "put_keys answer retries keys st1 = ([], st2)" "set keys \<union> set (journal_sink st1) \<subseteq> set (journal_sink st2)"
    by blast
  then show ?case using p(1) put_key_spec [OF p(1)] by auto
qed simp

text \<open>
  Once one of any \<open>retries\<close> puts in a row is stored again, the next recorded change empties the
  queue: its own entry and all that had been waiting are in the sink.
\<close>

theorem recording_drains_queue:
  assumes "answers answer retries (puts_done st)"
  shows "\<exists>st1. record_change answer retries now ar app writer n nm (waited, st) = ([], st1)
    \<and> insert (encode_key \<lparr>unix_ms = now, area = ar, app_key = app_key_of app, writer_id = writer, seq = n, key_name = nm\<rparr>)
        (set waited) \<subseteq> set (journal_sink st1)"
  using put_keys_ok [OF assms, of "waited @ [encode_key \<lparr>unix_ms = now, area = ar, app_key = app_key_of app,
    writer_id = writer, seq = n, key_name = nm\<rparr>]"]
  by (auto simp: record_change_def flush_journal_def)

theorem recording_drains_queue_witness:
  "\<exists>st1. record_change first_fails 2 7 ''runs'' ''a/b'' ''w'' 0 ''r1'' ([''old''], \<lparr>journal_sink = [], puts_done = 0\<rparr>) = ([], st1)
    \<and> ''old'' \<in> set (journal_sink st1)"
proof -
  have "answers first_fails 2 (puts_done \<lparr>journal_sink = [], puts_done = 0\<rparr>)"
    unfolding answers_def first_fails_def by (metis add_is_0 one_less_numeral_iff semiring_norm(76) zero_neq_one)
  from recording_drains_queue [OF this, of 7 "''runs''" "''a/b''" "''w''" 0 "''r1''" "[''old'']"]
  show ?thesis by auto
qed

subsection \<open>A thread alone\<close>

lemma put_steps:
  "put_keys answer retries keys st = (failed, st1) \<Longrightarrow> in_hand q t = keys \<Longrightarrow> store q = st \<Longrightarrow>
     queue_run answer retries (replicate (length keys) (Put_Next t)) q
       = Some (q\<lparr>in_hand := (in_hand q)(t := []), refused := (refused q)(t := refused q t @ failed), store := st1\<rparr>)"
proof (induction keys arbitrary: q st failed)
  case (Cons key keys)
  obtain ok st2 failed2 where p: "put_key answer retries key st = (ok, st2)"
    "put_keys answer retries keys st2 = (failed2, st1)" "failed = (if ok then failed2 else key # failed2)"
    using Cons.prems(1) by (auto split: prod.splits)
  let ?q = "q\<lparr>in_hand := (in_hand q)(t := keys), store := st2,
      refused := (if ok then refused q else (refused q)(t := refused q t @ [key]))\<rparr>"
  have "do_queue_step answer retries (Put_Next t) q = Some ?q" using Cons.prems p(1) by simp
  moreover have "in_hand ?q t = keys" "store ?q = st2" by simp_all
  ultimately show ?case
    using Cons.IH [OF p(2), of ?q] p(3) by (cases ok) (simp_all del: fun_upd_apply do_queue_step.simps add: fun_upd_same)
qed (auto simp: fun_upd_idem intro!: journal_queue.equality)

theorem flush_is_steps:
  assumes "flush_journal answer retries (keys, st) = (failed, st1)" "in_hand q t = []" "refused q t = []"
    "pending q = keys" "store q = st"
  shows "queue_run answer retries
      (Take t # replicate (length keys) (Put_Next t) @ (if failed = [] then [] else [Put_Back t])) q
    = Some (q\<lparr>pending := failed, store := st1\<rparr>)"
proof -
  have run_append: "queue_run answer retries (as @ bs) q
      = (case queue_run answer retries as q of None \<Rightarrow> None | Some q1 \<Rightarrow> queue_run answer retries bs q1)" for as bs q
    by (induction as arbitrary: q) (auto split: option.split)
  have p: "put_keys answer retries keys st = (failed, st1)" using assms(1) by (simp add: flush_journal_def split: prod.splits)
  let ?q = "q\<lparr>in_hand := (in_hand q)(t := keys), pending := []\<rparr>"
  have "in_hand ?q t = keys" "store ?q = st" using assms by simp_all
  from put_steps [OF p this] assms show ?thesis by (simp add: run_append fun_upd_idem)
qed

end
