(* ===== verification/Journal_Follow.thy ===== *)
theory Journal_Follow
imports Journal_Reader Core_Utils
begin

text \<open>
  Following a store's journal, from ui/journal_follow.py: the entries of every tick become hints to the
  watched indexes, a scope with too many is caught up by name or listed in full, a new watch replays
  the journal from its index's mark, and a leading replica relays what it routes to the others. What a
  tick does is the list of its effects, in order. A listing that raises, and threads that watch while a
  tick runs, are left out.
\<close>

section \<open>Routing\<close>

record index =
  index_id :: nat
  takes_overflow :: bool      \<comment> \<open>it has \<open>overflowed\<close>\<close>
  keeps_mark :: bool          \<comment> \<open>it has \<open>journal_at\<close>\<close>

type_synonym scope_key = "string \<times> string"

datatype effect =
    Hint scope_key string
  | Overflowed scope_key "string set"
  | Reconcile scope_key
  | Relayed string
  | Journal_At scope_key nat
  | Settings_Changed string
  | Fed "(scope_key \<times> string set) list" "scope_key list" "(nat option \<times> string list) option"

definition REPORT_AREAS :: "string list" where "REPORT_AREAS = [''reports'', ''comments'']"

definition SETTINGS :: string where "SETTINGS = ''settings''"

definition route :: "tick_result \<Rightarrow> (scope_key \<times> index) list \<Rightarrow> (scope_key \<Rightarrow> string \<Rightarrow> effect list) \<Rightarrow> effect list" where
  "route result indexes send =
     concat (map (\<lambda>(s, ks). concat (map (\<lambda>k.
         (if map_of indexes s \<noteq> None then [Hint s (key_name k)] else []) @ send s (key_name k)) ks)) (entries result))
     @ concat (map (\<lambda>s.
         (case map_of indexes s of None \<Rightarrow> []
          | Some i \<Rightarrow> if takes_overflow i
                    then [Overflowed s (case map_of (overflow_names result) s of None \<Rightarrow> {} | Some ns \<Rightarrow> ns)]
                    else [Reconcile s]) @ send s []) (overflow result))"

definition no_send :: "scope_key \<Rightarrow> string \<Rightarrow> effect list" where
  "no_send s nm = []"

definition relay :: "string \<Rightarrow> scope_key \<Rightarrow> string \<Rightarrow> effect list" where
  \<comment> \<open>\<open>_send\<close> with a relay\<close>
  "relay journal_scope s nm = [Relayed (journal_scope @ ''/'' @ fst s @ ''/'' @ snd s @ ''|'' @ nm)]"

section \<open>A workspace's journal\<close>

record workspace =
  reader :: journal_reader
  indexes :: "(scope_key \<times> index) list"
  replays :: "(scope_key \<times> nat) list"
  saved_cursor :: "nat option \<times> string list"
  leading :: bool

record follow_conf =
  reader_conf :: reader_conf
  journal_scope :: string
  elected :: bool           \<comment> \<open>there is an election\<close>
  relays :: bool            \<comment> \<open>there is a relay\<close>
  retain_ms :: int
  has_reports :: bool
  has_settings :: bool

definition new_workspace :: "nat option \<times> string list \<Rightarrow> workspace" where
  "new_workspace saved = \<lparr>reader = from_cursor saved, indexes = [], replays = [], saved_cursor = saved, leading = False\<rparr>"

definition REPLAY_MARGIN_MS :: int where "REPLAY_MARGIN_MS = 3600000"

definition resumable :: "follow_conf \<Rightarrow> int \<Rightarrow> (int \<Rightarrow> nat option) option \<Rightarrow> nat option" where
  \<comment> \<open>\<open>resume\<close> is the index's \<open>resume_journal\<close>, when it has one\<close>
  "resumable conf now resume =
     (case resume of None \<Rightarrow> None
      | Some f \<Rightarrow> if elected conf then None
                else f (now - retain_ms conf + REPLAY_MARGIN_MS + int (skew_ms (reader_conf conf))))"

definition watch :: "follow_conf \<Rightarrow> nat \<Rightarrow> scope_key \<Rightarrow> index \<Rightarrow> (int \<Rightarrow> nat option) option \<Rightarrow> workspace
    \<Rightarrow> effect list \<times> workspace" where
  "watch conf now s i resume w =
     (if map_of (indexes w) s = Some i then ([], w)
      else (let w1 = w\<lparr>indexes := od_put s i (indexes w)\<rparr>
            in case resumable conf (int now) resume of
                 None \<Rightarrow> ([Reconcile s], w1)
               | Some since \<Rightarrow> ([], w1\<lparr>replays := od_put s since (replays w)\<rparr>)))"

definition unwatch :: "scope_key \<Rightarrow> index \<Rightarrow> workspace \<Rightarrow> workspace" where
  "unwatch s i w = (if map_of (indexes w) s = Some i then w\<lparr>indexes := od_del s (indexes w)\<rparr> else w)"

definition feed :: "follow_conf \<Rightarrow> (scope_key \<times> string set) list \<Rightarrow> scope_key list \<Rightarrow> (nat option \<times> string list) option
    \<Rightarrow> effect list" where
  "feed conf es over c = (if has_reports conf then [Fed es over c] else [])"

definition settings_changed :: "follow_conf \<Rightarrow> string list \<Rightarrow> effect list" where
  "settings_changed conf keys = (if has_settings conf then map Settings_Changed (remdups keys) else [])"

definition feed_tick :: "follow_conf \<Rightarrow> tick_result \<Rightarrow> nat option \<times> string list \<Rightarrow> effect list" where
  "feed_tick conf result c =
     feed conf (map (\<lambda>(s, ks). (s, key_name ` set ks)) (filter (\<lambda>(s, ks). fst s \<in> set REPORT_AREAS) (entries result)))
       (filter (\<lambda>s. fst s \<in> set REPORT_AREAS) (overflow result)) (Some c)"

definition replay :: "follow_conf \<Rightarrow> (string \<Rightarrow> string option \<Rightarrow> string list) \<Rightarrow> nat \<Rightarrow> workspace \<Rightarrow> effect list" where
  "replay conf lst now w =
     concat (map (\<lambda>(s, since). case map_of (indexes w) s of None \<Rightarrow> []
       | Some i \<Rightarrow> route (fst (tick (reader_conf conf) lst now (from_cursor (Some since, [])))) [(s, i)] no_send) (replays w))"

definition lead :: "follow_conf \<Rightarrow> bool \<Rightarrow> workspace \<Rightarrow> bool \<times> workspace" where
  \<comment> \<open>\<open>won\<close> is the election's answer\<close>
  "lead conf won w =
     (if \<not> elected conf then (True, w)
      else (won, w\<lparr>reader := (if won \<and> \<not> leading w then from_cursor (saved_cursor w) else reader w), leading := won\<rparr>))"

definition follow_tick :: "follow_conf \<Rightarrow> (string \<Rightarrow> string option \<Rightarrow> string list) \<Rightarrow> nat \<Rightarrow> bool \<Rightarrow> workspace
    \<Rightarrow> effect list \<times> workspace" where
  "follow_tick conf lst now won w =
     (case lead conf won w of (leads, w1) \<Rightarrow>
        if \<not> leads then (feed conf [] [] None, w1)
        else (let first = last_seen_ms (reader w1) = None;
                  replayed = replay conf lst now w1;
                  (result, r) = tick (reader_conf conf) lst now (reader w1);
                  reached = (case last_seen_ms r of None \<Rightarrow> 0 | Some t \<Rightarrow> t);
                  save = (first \<or> entries result \<noteq> [] \<or> overflow result \<noteq> [])
              in (replayed
                  @ route result (indexes w1) (if relays conf then relay (journal_scope conf) else no_send)
                  @ map (\<lambda>(s, i). Journal_At s reached) (filter (\<lambda>(s, i). keeps_mark i) (indexes w1))
                  @ feed_tick conf result (cursor r)
                  @ settings_changed conf (map snd (filter (\<lambda>s. fst s = SETTINGS) (map fst (entries result) @ overflow result))),
                  w1\<lparr>reader := r, replays := [], saved_cursor := (if save then cursor r else saved_cursor w1)\<rparr>)))"

definition rpartition_at :: "char \<Rightarrow> string \<Rightarrow> (string \<times> string) option" where
  \<comment> \<open>\<open>s.rsplit(c, 1)\<close>, when it has two parts\<close>
  "rpartition_at c s = (case rpartition_char c s of (a, found, b) \<Rightarrow> if found then Some (a, b) else None)"

definition receive :: "follow_conf \<Rightarrow> string \<Rightarrow> workspace \<Rightarrow> effect list res" where
  \<comment> \<open>unpacking too few parts raises\<close>
  "receive conf payload w =
     (case rpartition_at (CHR ''|'') payload of
        None \<Rightarrow> Inl ValueErr
      | Some (where_part, nm) \<Rightarrow>
          (case rpartition_at (CHR ''/'') where_part of
             None \<Rightarrow> Inl ValueErr
           | Some (rest, key) \<Rightarrow>
               (case rpartition_at (CHR ''/'') rest of
                  None \<Rightarrow> Inl ValueErr
                | Some (js, ar) \<Rightarrow>
                    Inr (if js \<noteq> journal_scope conf then []
                         else if ar = SETTINGS then settings_changed conf [key]
                         else if ar \<in> set REPORT_AREAS
                         then (if nm \<noteq> [] then feed conf [((ar, key), {nm})] [] None else feed conf [] [(ar, key)] None)
                         else (if map_of (indexes w) (ar, key) = None then []
                               else if nm \<noteq> [] then [Hint (ar, key) nm] else [Reconcile (ar, key)])))))"

section \<open>What an index hears\<close>

definition heard :: "effect list \<Rightarrow> scope_key \<Rightarrow> string \<Rightarrow> bool" where
  \<comment> \<open>the index of the scope is told of the record: by name, among the names it catches up on, or by a
      full listing\<close>
  "heard fx s nm \<longleftrightarrow> Hint s nm \<in> set fx \<or> (\<exists>ns. Overflowed s ns \<in> set fx \<and> nm \<in> ns) \<or> Reconcile s \<in> set fx"

lemma heard_append [simp]: "heard (a @ b) s nm \<longleftrightarrow> heard a s nm \<or> heard b s nm"
  by (auto simp: heard_def)

lemma route_heard:
  assumes "announced result k" "map_of ixs (scope k) = Some i"
  shows "heard (route result ixs send) (scope k) (key_name k)"
  using assms(1) unfolding announced_def
proof (elim disjE conjE exE)
  fix ks assume ks: "map_of (entries result) (scope k) = Some ks" "k \<in> set ks"
  then have "Hint (scope k) (key_name k) \<in> set (route result ixs send)"
    using assms(2) unfolding route_def set_append set_concat set_map
    by (intro UnI1 UN_I [of "(scope k, ks)"] UN_I) (auto dest: map_of_SomeD intro!: bexI [of _ k])
  then show ?thesis by (simp add: heard_def)
next
  fix ns assume o: "scope k \<in> set (overflow result)" "map_of (overflow_names result) (scope k) = Some ns" "key_name k \<in> ns"
  then have "(if takes_overflow i then Overflowed (scope k) ns else Reconcile (scope k)) \<in> set (route result ixs send)"
    using assms(2) unfolding route_def by (auto intro!: bexI [of _ "scope k"])
  then show ?thesis using o(3) by (auto simp: heard_def split: if_splits)
qed

lemma od_put_member: "(k, v) \<in> set (od_put k v xs)"
  by (induction k v xs rule: od_put.induct) auto

lemma replay_heard:
  assumes "(s, since) \<in> set (replays w)" "map_of (indexes w) s = Some i" "journal_only keys" "in_millennium now"
    "k \<in> sink_keys keys" "scope k = s" "unix_ms k \<le> now"
    "window_start (reader_conf conf) now (from_cursor (Some since, [])) \<le> unix_ms k"
  shows "heard (replay conf (sink_list keys) now w) s (key_name k)"
proof -
  let ?r = "from_cursor (Some since, [])"
  obtain res r1 where run: "tick (reader_conf conf) (sink_list keys) now ?r = (res, r1)" by (metis surj_pair)
  have fresh: "rescan_due (reader_conf conf) now ?r" "encode_key k \<notin> fst ` set (seen ?r)"
    by (simp_all add: rescan_due_def from_cursor_def new_reader_def)
  have "announced res k"
    using local_sink.tick_announces [OF run assms(3,4,5)] fresh
      local_sink.rescan_remembers [OF run assms(3,4,5) fresh(1) assms(8,7)] by blast
  then have "heard (route res [(s, i)] no_send) s (key_name k)"
    using route_heard [of res k "[(s, i)]" i no_send] assms(6) by simp
  moreover have "set (route res [(s, i)] no_send) \<subseteq> set (replay conf (sink_list keys) now w)"
    unfolding replay_def set_concat set_map
    by (rule subsetI, rule UN_I [OF imageI [OF assms(1)]]) (simp add: assms(2) run)
  ultimately show ?thesis unfolding heard_def by blast
qed

text \<open>
  C37. A newly watched index hears of every change after its mark: it is told to list everything when it
  watches, or the next tick names the record of each entry of its scope in the journal from the skew
  window before the mark on (no further back than the lookback), by a hint, among the names of an
  overflow, or by asking for a listing.
\<close>

theorem watched_index_hears:
  assumes "watch conf now0 (scope k) i resume w = (fx0, w1)" "map_of (indexes w) (scope k) \<noteq> Some i" "\<not> elected conf"
    "follow_tick conf (sink_list keys) now won w1 = (fx, w2)" "journal_only keys" "in_millennium now"
    "k \<in> sink_keys keys" "unix_ms k \<le> now"
    "\<And>since. resumable conf (int now0) resume = Some since \<Longrightarrow>
       window_start (reader_conf conf) now (from_cursor (Some since, [])) \<le> unix_ms k"
  shows "heard (fx0 @ fx) (scope k) (key_name k)"
proof (cases "resumable conf (int now0) resume")
  case None
  then show ?thesis using assms(1,2) by (auto simp: watch_def Let_def heard_def)
next
  case (Some since)
  then have w1: "(scope k, since) \<in> set (replays w1)" "map_of (indexes w1) (scope k) = Some i"
    using assms(1,2) by (auto simp: watch_def Let_def od_put_member)
  have "lead conf won w1 = (True, w1)" using assms(3) by (simp add: lead_def)
  then have "\<exists>gx. fx = replay conf (sink_list keys) now w1 @ gx"
    using assms(4) by (auto simp: follow_tick_def Let_def split: prod.splits)
  then show ?thesis
    using replay_heard [OF w1 assms(5,6,7) refl assms(8) assms(9) [OF Some]] by auto
qed

definition sample_follow :: follow_conf where
  "sample_follow = \<lparr>reader_conf = default_conf, journal_scope = ''store'', elected = False, relays = True,
     retain_ms = 172800000, has_reports = False, has_settings = False\<rparr>"

definition sample_index :: index where
  "sample_index = \<lparr>index_id = 0, takes_overflow = True, keeps_mark = True\<rparr>"

theorem watched_index_hears_witness:
  "\<exists>fx0 w1. watch sample_follow 20000 (scope first_key) sample_index (Some (\<lambda>oldest. Some 15000)) (new_workspace (None, [])) = (fx0, w1)
     \<and> fx0 = [] \<and> heard (fst (follow_tick sample_follow (sink_list [encode_key first_key]) 31000 True w1)) (scope first_key) ''r1''"
proof -
  obtain fx0 w1 where w: "watch sample_follow 20000 (scope first_key) sample_index (Some (\<lambda>oldest. Some 15000))
      (new_workspace (None, [])) = (fx0, w1)" by (metis surj_pair)
  obtain fx w2 where t: "follow_tick sample_follow (sink_list [encode_key first_key]) 31000 True w1 = (fx, w2)" by (metis surj_pair)
  have "heard (fx0 @ fx) (scope first_key) (key_name first_key)"
  proof (rule watched_index_hears [OF w _ _ t])
    show "unix_ms first_key \<le> 31000" by (simp add: first_key_def)
    show "window_start (reader_conf sample_follow) 31000 (from_cursor (Some since, [])) \<le> unix_ms first_key"
      if "resumable sample_follow (int 20000) (Some (\<lambda>oldest. Some 15000)) = Some since" for since
      using that by (simp add: resumable_def sample_follow_def window_start_def from_cursor_def new_reader_def
          last_or_def default_conf_def)
  qed (simp_all add: new_workspace_def sample_follow_def first_key_stored in_millennium_def)
  moreover have "fx0 = []" using w by (simp add: watch_def new_workspace_def resumable_def sample_follow_def Let_def)
  ultimately show ?thesis using w t by (simp add: first_key_def)
qed

section \<open>What a replica hears\<close>

definition plain_scope :: "scope_key \<Rightarrow> bool" where
  "plain_scope s = (CHR ''/'' \<notin> set (fst s) \<and> CHR ''/'' \<notin> set (snd s) \<and> fst s \<notin> set REPORT_AREAS \<and> fst s \<noteq> SETTINGS)"

lemma rpartition_at_last: "c \<notin> set b \<Longrightarrow> rpartition_at c (a @ c # b) = Some (a, b)"
  by (simp add: rpartition_at_def rpartition_char_at)

lemma relay_received:
  assumes "plain_scope s" "CHR ''|'' \<notin> set nm"
  shows "receive conf (journal_scope conf @ ''/'' @ fst s @ ''/'' @ snd s @ ''|'' @ nm) w =
    Inr (if map_of (indexes w) s = None then [] else if nm \<noteq> [] then [Hint s nm] else [Reconcile s])"
  using assms rpartition_at_last [of "CHR ''|''" nm "journal_scope conf @ ''/'' @ fst s @ ''/'' @ snd s"]
    rpartition_at_last [of "CHR ''/''" "snd s" "journal_scope conf @ ''/'' @ fst s"]
    rpartition_at_last [of "CHR ''/''" "fst s" "journal_scope conf"]
  by (simp add: receive_def plain_scope_def)

definition received_effects :: "follow_conf \<Rightarrow> workspace \<Rightarrow> effect list \<Rightarrow> effect list" where
  "received_effects conf w fx = concat (map (\<lambda>e. case e of Relayed p \<Rightarrow> (case receive conf p w of Inl _ \<Rightarrow> [] | Inr es \<Rightarrow> es) | _ \<Rightarrow> []) fx)"

definition relayable :: "tick_result \<Rightarrow> bool" where
  "relayable result \<longleftrightarrow> (\<forall>(s, ks) \<in> set (entries result). plain_scope s \<and> (\<forall>k \<in> set ks. key_name k \<noteq> [] \<and> CHR ''|'' \<notin> set (key_name k)))
     \<and> (\<forall>s \<in> set (overflow result). plain_scope s)"

lemma received_effects_append: "received_effects conf w (a @ b) = received_effects conf w a @ received_effects conf w b"
  by (simp add: received_effects_def)

lemma received_effects_concat: "set (received_effects conf w (concat xs)) = (\<Union>x \<in> set xs. set (received_effects conf w x))"
  by (induction xs) (simp_all add: received_effects_append, simp add: received_effects_def)

text \<open>
  A replica hears what the leader's own index hears: receiving what the leader relays of a tick, the
  replica's index of a scope gets exactly the leader's hints, and is asked for a listing exactly when
  the scope overflowed.
\<close>

theorem replica_hears_leader:
  assumes "relayable result" "map_of (indexes w) s \<noteq> None" "map_of ixs s \<noteq> None"
  shows "(Hint s nm \<in> set (received_effects conf w (route result ixs (relay (journal_scope conf))))
      \<longleftrightarrow> Hint s nm \<in> set (route result ixs (relay (journal_scope conf))))
    \<and> (Reconcile s \<in> set (received_effects conf w (route result ixs (relay (journal_scope conf)))) \<longleftrightarrow> s \<in> set (overflow result))"
proof -
  let ?send = "relay (journal_scope conf)"
  have own: "received_effects conf w (xs @ ?send t n) = received_effects conf w xs @
      (if map_of (indexes w) t = None then [] else if n \<noteq> [] then [Hint t n] else [Reconcile t])"
    if "plain_scope t" "CHR ''|'' \<notin> set n" for xs t n
    using relay_received [OF that, of conf w] by (simp add: received_effects_def relay_def)
  have notin_Nil: "CHR ''|'' \<notin> set []" by simp
  have hint: "received_effects conf w (if b then [Hint t n] else []) = []" for b t n by (simp add: received_effects_def)
  have over: "received_effects conf w (case map_of ixs t of None \<Rightarrow> [] | Some i \<Rightarrow> if takes_overflow i then [Overflowed t ns] else [Reconcile t]) = []"
    for t ns by (cases "map_of ixs t") (simp_all add: received_effects_def)
  have es: "plain_scope t" "key_name k \<noteq> []" "CHR ''|'' \<notin> set (key_name k)" if "(t, ks) \<in> set (entries result)" "k \<in> set ks" for t ks k
    using assms(1) that by (auto simp: relayable_def)
  have os: "plain_scope t" if "t \<in> set (overflow result)" for t using assms(1) that by (auto simp: relayable_def)
  let ?h = "\<lambda>(s, ks). concat (map (\<lambda>k. (if map_of ixs s \<noteq> None then [Hint s (key_name k)] else []) @ ?send s (key_name k)) ks)"
  let ?o = "\<lambda>s. (case map_of ixs s of None \<Rightarrow> []
      | Some i \<Rightarrow> if takes_overflow i
                then [Overflowed s (case map_of (overflow_names result) s of None \<Rightarrow> {} | Some ns \<Rightarrow> ns)]
                else [Reconcile s]) @ ?send s []"
  let ?hint = "\<lambda>(t, ks). \<Union>k \<in> set ks. if map_of (indexes w) t = None then {} else {Hint t (key_name k)}"
  have h: "set (received_effects conf w (?h e)) = ?hint e" if e: "e \<in> set (entries result)" for e
  proof -
    obtain t ks where t: "e = (t, ks)" by (metis surj_pair)
    have "set (received_effects conf w ((if map_of ixs t \<noteq> None then [Hint t (key_name k)] else []) @ ?send t (key_name k)))
        = (if map_of (indexes w) t = None then {} else {Hint t (key_name k)})" if "k \<in> set ks" for k
      using es [of t ks k] e that unfolding t own [OF es(1) es(3), OF e [unfolded t] that e [unfolded t] that] hint by simp
    then show ?thesis unfolding t prod.case received_effects_concat set_map by (simp add: image_image)
  qed
  have o: "set (received_effects conf w (?o t)) = (if map_of (indexes w) t = None then {} else {Reconcile t})"
    if "t \<in> set (overflow result)" for t
    unfolding own [OF os [OF that] notin_Nil] over by simp
  have got: "set (received_effects conf w (route result ixs ?send)) =
    (\<Union>e \<in> set (entries result). ?hint e)
    \<union> (\<Union>t \<in> set (overflow result). if map_of (indexes w) t = None then {} else {Reconcile t})"
  proof -
    have "set (received_effects conf w (concat (map ?h (entries result)))) = (\<Union>e \<in> set (entries result). ?hint e)"
      unfolding received_effects_concat set_map image_image by (rule SUP_cong [OF refl h])
    moreover have "set (received_effects conf w (concat (map ?o (overflow result))))
        = (\<Union>t \<in> set (overflow result). if map_of (indexes w) t = None then {} else {Reconcile t})"
      unfolding received_effects_concat set_map image_image by (rule SUP_cong [OF refl o])
    moreover have "route result ixs ?send = concat (map ?h (entries result)) @ concat (map ?o (overflow result))"
      by (simp only: route_def)
    ultimately show ?thesis by (simp only: received_effects_append set_append)
  qed
  have sent: "Hint s nm \<in> set (route result ixs ?send)
      \<longleftrightarrow> (\<exists>e \<in> set (entries result). fst e = s \<and> (\<exists>k \<in> set (snd e). key_name k = nm))"
  proof -
    have h1: "Hint s nm \<in> set (?h e) \<longleftrightarrow> fst e = s \<and> (\<exists>k \<in> set (snd e). key_name k = nm)" for e
      using assms(3) by (cases e) (auto simp: relay_def split: if_splits)
    have o1: "Hint s nm \<in> set (?o t) \<longleftrightarrow> False" for t by (cases "map_of ixs t") (simp_all add: relay_def)
    have "set (route result ixs ?send) = (\<Union>e \<in> set (entries result). set (?h e)) \<union> (\<Union>t \<in> set (overflow result). set (?o t))"
      by (simp only: route_def set_append set_concat set_map image_image)
    then show ?thesis by (simp only: Un_iff UN_iff h1 o1) simp
  qed
  have h2: "Hint s nm \<in> ?hint e \<longleftrightarrow> fst e = s \<and> (\<exists>k \<in> set (snd e). key_name k = nm)" for e
    using assms(2) by (cases e) (auto split: if_splits)
  have r2: "Reconcile s \<in> ?hint e \<longleftrightarrow> False" for e by (cases e) (auto split: if_splits)
  have "Hint s nm \<in> set (received_effects conf w (route result ixs ?send)) \<longleftrightarrow> Hint s nm \<in> set (route result ixs ?send)"
    unfolding sent unfolding got Un_iff UN_iff h2 by (auto split: if_splits)
  moreover have "Reconcile s \<in> set (received_effects conf w (route result ixs ?send)) \<longleftrightarrow> s \<in> set (overflow result)"
    unfolding got Un_iff UN_iff r2 using assms(2) by (auto split: if_splits)
  ultimately show ?thesis ..
qed

theorem replica_hears_leader_witness:
  "Hint (scope first_key) ''r1'' \<in> set (received_effects sample_follow (new_workspace (None, [])\<lparr>indexes := [(scope first_key, sample_index)]\<rparr>)
     (route (group_keys default_conf [first_key]) [(scope first_key, sample_index)] (relay (journal_scope sample_follow))))"
proof -
  have r: "entries (group_keys default_conf [first_key]) = [(scope first_key, [first_key])]" "overflow (group_keys default_conf [first_key]) = []"
    by (simp_all add: group_keys_def add_entry_def default_conf_def Let_def)
  have ok: "relayable (group_keys default_conf [first_key])"
    unfolding relayable_def r by (simp add: plain_scope_def scope_def first_key_def REPORT_AREAS_def SETTINGS_def)
  have "Hint (scope first_key) ''r1'' \<in> set (route (group_keys default_conf [first_key]) [(scope first_key, sample_index)] (relay (journal_scope sample_follow)))"
    unfolding route_def r by (simp add: first_key_def)
  then show ?thesis using replica_hears_leader [OF ok, of "new_workspace (None, [])\<lparr>indexes := [(scope first_key, sample_index)]\<rparr>"
      "scope first_key" "[(scope first_key, sample_index)]" "''r1''" sample_follow] by simp
qed

end
