(* ===== verification/Sweep_Stop.thy ===== *)
theory Sweep_Stop
imports Sweep_Spec Log_Entry
begin

text \<open>
  Stopping a sweep's trial early, from core/sweep/early_stop.py: the median rule, when it is checked,
  and the cache of the peers' points of core/sweep/peer_points.py. Steps and values are rationals, and
  the mean of the two middle values is not rounded.
\<close>

section \<open>The median rule\<close>

type_synonym points = "(rat \<times> rat) list"     \<comment> \<open>step and value\<close>

fun step_points_from :: "nat \<Rightarrow> (rat option \<times> sv) list \<Rightarrow> points" where
  "step_points_from i [] = []"
| "step_points_from i ((step, v) # ps) =
     (case Option.bind (as_number v) finite_of of
        None \<Rightarrow> step_points_from (i + 1) ps
      | Some x \<Rightarrow> (case step of None \<Rightarrow> of_nat i | Some s \<Rightarrow> s, x) # step_points_from (i + 1) ps)"

definition step_points :: "(rat option \<times> sv) list \<Rightarrow> points" where
  \<comment> \<open>a point without a step counts as its position, from 1\<close>
  "step_points ps = step_points_from 1 ps"

definition last_step :: "points \<Rightarrow> rat" where
  "last_step ps = Max (set (map fst ps))"

definition best_until :: "points \<Rightarrow> rat \<Rightarrow> goal \<Rightarrow> rat" where
  "best_until ps step g =
     (let values = map snd (filter (\<lambda>p. fst p \<le> step) ps) in if g = Minimize then Min (set values) else Max (set values))"

definition median :: "rat list \<Rightarrow> rat" where
  \<comment> \<open>\<open>statistics.median\<close> of a list that is not empty\<close>
  "median xs =
     (let s = sort xs; n = length xs
      in if odd n then s ! (n div 2) else (s ! (n div 2 - 1) + s ! (n div 2)) / 2)"

definition peer_bests :: "points \<Rightarrow> points list \<Rightarrow> goal \<Rightarrow> rat list" where
  "peer_bests own others g =
     (let step = last_step own
      in map (\<lambda>ps. best_until ps step g) (filter (\<lambda>ps. ps \<noteq> [] \<and> last_step ps \<ge> step) others))"

definition median_should_stop :: "points \<Rightarrow> points list \<Rightarrow> goal \<Rightarrow> int \<Rightarrow> int \<Rightarrow> bool" where
  "median_should_stop own others g least_iter least_trials =
     (if own = [] then False
      else if last_step own < of_int least_iter then False
      else (let peers = peer_bests own others g
            in if int (length peers) < least_trials then False
               else (let own_best = best_until own (last_step own) g
                     in if g = Minimize then own_best > median peers else own_best < median peers)))"

definition past_min_iter :: "early_rule \<Rightarrow> points \<Rightarrow> bool" where
  "past_min_iter rule own = (own \<noteq> [] \<and> last_step own \<ge> of_int (min_iter rule))"

definition should_stop :: "early_rule \<Rightarrow> goal \<Rightarrow> points \<Rightarrow> points list \<Rightarrow> bool" where
  "should_stop rule g own others = median_should_stop own others g (min_iter rule) (min_trials rule)"

definition due :: "rat \<Rightarrow> rat \<Rightarrow> rat option \<Rightarrow> bool \<times> rat option" where
  \<comment> \<open>whether a check runs now, and when the next one may; the first is an interval after the start\<close>
  "due interval now nxt =
     (let t = (case nxt of None \<Rightarrow> now + interval | Some t \<Rightarrow> t)
      in if now < t then (False, Some t) else (True, Some (now + interval)))"

section \<open>The middle of a list\<close>

lemma front_counts:
  assumes "i < length (xs :: rat list)" "\<forall>j \<le> i. xs ! j < c"
  shows "i + 1 \<le> length (filter (\<lambda>x. x < c) xs)"
proof -
  have "filter (\<lambda>x. x < c) xs = filter (\<lambda>x. x < c) (take (i + 1) xs) @ filter (\<lambda>x. x < c) (drop (i + 1) xs)"
    by (metis append_take_drop_id filter_append)
  moreover have "filter (\<lambda>x. x < c) (take (i + 1) xs) = take (i + 1) xs"
    using assms by (auto simp: filter_id_conv in_set_conv_nth)
  ultimately show ?thesis using assms(1) by simp
qed

lemma below_median:
  assumes "xs \<noteq> []" "median xs < c"
  shows "length xs \<le> 2 * length (filter (\<lambda>x. x < c) xs)"
proof -
  let ?s = "sort xs" and ?n = "length xs"
  have n: "0 < ?n" using assms(1) by simp
  have less: "?s ! j < c" if "j \<le> (?n - 1) div 2" for j
  proof -
    have i: "(?n - 1) div 2 < length ?s" using n unfolding length_sort by linarith
    then have le: "?s ! j \<le> ?s ! ((?n - 1) div 2)" using that by (intro sorted_nth_mono) simp_all
    have "?s ! ((?n - 1) div 2) < c"
    proof (cases "odd ?n")
      case True
      then have "?n div 2 = (?n - 1) div 2" by presburger
      then show ?thesis using assms(2) True by (simp add: median_def Let_def)
    next
      case False
      then have p: "?n div 2 - 1 = (?n - 1) div 2" "?n div 2 < ?n" using n by presburger+
      have "?s ! (?n div 2 - 1) \<le> ?s ! (?n div 2)" using p(2) by (intro sorted_nth_mono) simp_all
      then show ?thesis using assms(2) False p(1) by (simp add: median_def Let_def)
    qed
    then show ?thesis using le by simp
  qed
  have "(?n - 1) div 2 + 1 \<le> length (filter (\<lambda>x. x < c) ?s)"
    using n less by (intro front_counts) (unfold length_sort, linarith, blast)
  moreover have "length (filter (\<lambda>x. x < c) ?s) = length (filter (\<lambda>x. x < c) xs)"
    by (simp add: filter_sort)
  ultimately show ?thesis by presburger
qed

lemma back_counts:
  assumes "\<forall>j. i \<le> j \<longrightarrow> j < length (xs :: rat list) \<longrightarrow> c < xs ! j"
  shows "length xs - i \<le> length (filter (\<lambda>x. c < x) xs)"
proof -
  have "filter (\<lambda>x. c < x) xs = filter (\<lambda>x. c < x) (take i xs) @ filter (\<lambda>x. c < x) (drop i xs)"
    by (metis append_take_drop_id filter_append)
  moreover have "filter (\<lambda>x. c < x) (drop i xs) = drop i xs"
    using assms by (auto simp: filter_id_conv in_set_conv_nth)
  ultimately show ?thesis by simp
qed

lemma above_median:
  assumes "xs \<noteq> []" "c < median xs"
  shows "length xs \<le> 2 * length (filter (\<lambda>x. c < x) xs)"
proof -
  let ?s = "sort xs" and ?n = "length xs"
  have n: "0 < ?n" using assms(1) by simp
  have mid: "?n div 2 < ?n" using n by simp
  have "c < ?s ! (?n div 2)"
  proof (cases "odd ?n")
    case False
    have "?s ! (?n div 2 - 1) \<le> ?s ! (?n div 2)" using mid by (intro sorted_nth_mono) simp_all
    then show ?thesis using assms(2) False by (simp add: median_def Let_def)
  qed (use assms(2) in \<open>simp add: median_def Let_def\<close>)
  moreover have "?s ! (?n div 2) \<le> ?s ! j" if "?n div 2 \<le> j" "j < ?n" for j
    using that by (intro sorted_nth_mono) simp_all
  ultimately have "length ?s - ?n div 2 \<le> length (filter (\<lambda>x. c < x) ?s)"
    by (intro back_counts) (auto intro: less_le_trans)
  moreover have "length (filter (\<lambda>x. c < x) ?s) = length (filter (\<lambda>x. c < x) xs)"
    by (simp add: filter_sort)
  ultimately show ?thesis by simp
qed

section \<open>Who is stopped\<close>

definition better :: "goal \<Rightarrow> rat \<Rightarrow> rat \<Rightarrow> bool" where
  "better g x y = (if g = Minimize then x < y else y < x)"

lemma stopped_trails:
  assumes "median_should_stop own others g least_iter least_trials" "0 < least_trials"
  shows "own \<noteq> [] \<and> of_int least_iter \<le> last_step own \<and> least_trials \<le> int (length (peer_bests own others g))
    \<and> length (peer_bests own others g)
      \<le> 2 * length (filter (\<lambda>b. better g b (best_until own (last_step own) g)) (peer_bests own others g))"
proof -
  let ?p = "peer_bests own others g" and ?b = "best_until own (last_step own) g"
  have a: "own \<noteq> []" "of_int least_iter \<le> last_step own" "least_trials \<le> int (length ?p)"
    "if g = Minimize then median ?p < ?b else ?b < median ?p"
    using assms(1) by (auto simp: median_should_stop_def Let_def split: if_splits)
  have "?p \<noteq> []" using a(3) assms(2) by auto
  then have "length ?p \<le> 2 * length (filter (\<lambda>b. better g b ?b) ?p)"
    using a(4) below_median [of ?p ?b] above_median [of ?p ?b] by (cases g) (simp_all add: better_def)
  then show ?thesis using a by blast
qed

lemma best_trial_runs_on:
  assumes "0 < least_trials" "\<forall>b \<in> set (peer_bests own others g). \<not> better g b (best_until own (last_step own) g)"
  shows "\<not> median_should_stop own others g least_iter least_trials"
proof
  assume stop: "median_should_stop own others g least_iter least_trials"
  note t = stopped_trails [OF this assms(1)]
  have "filter (\<lambda>b. better g b (best_until own (last_step own) g)) (peer_bests own others g) = []"
    using assms(2) by (simp add: filter_empty_conv)
  then show False using t assms(1) by auto
qed

text \<open>
  C38. The median rule stops a trial only once it reached the least step, with at least the asked number
  of peers that reached its step too, and only when at least half of those peers are strictly better
  than it was so far.
\<close>

theorem stopped_trial_trails:
  assumes "median_should_stop own others g least_iter least_trials" "0 < least_trials"
  shows "own \<noteq> [] \<and> of_int least_iter \<le> last_step own \<and> least_trials \<le> int (length (peer_bests own others g))
    \<and> length (peer_bests own others g)
      \<le> 2 * length (filter (\<lambda>b. better g b (best_until own (last_step own) g)) (peer_bests own others g))"
  using stopped_trails [OF assms] .

definition own_points :: points where "own_points = [(1, 5), (2, 4)]"

definition peer_points :: "points list" where
  "peer_points = [[(1, 3), (2, 1)], [(1, 9), (3, 9)], [(2, 2)]]"

lemma stop_example: "median_should_stop own_points peer_points Minimize 2 1"
  "peer_bests own_points peer_points Minimize = [1, 9, 2]" "best_until own_points (last_step own_points) Minimize = 4"
  by code_simp+

theorem stopped_trial_trails_witness:
  "median_should_stop own_points peer_points Minimize 2 1 \<and> 3 \<le> 2 * length (filter (\<lambda>b. better Minimize b 4) [1, 9, 2])"
  using stopped_trial_trails [OF stop_example(1)] stop_example by simp

section \<open>When it is checked\<close>

lemma checks_apart:
  assumes "due interval now nxt = (True, nxt1)" "due interval later nxt1 = (True, nxt2)"
  shows "now + interval \<le> later"
  using assms by (auto simp: due_def Let_def split: if_splits)

section \<open>The cache of points\<close>

datatype 'g signature = Final | Grown 'g

definition peer_points_of :: "(string \<Rightarrow> points) \<Rightarrow> (string \<Rightarrow> (string \<times> nat) list) \<Rightarrow> string \<Rightarrow> bool
    \<Rightarrow> (string \<times> (string \<times> nat) list signature \<times> points) list \<Rightarrow> points \<times> (string \<times> (string \<times> nat) list signature \<times> points) list" where
  \<comment> \<open>\<open>PeerPoints.of\<close>: what the logs show now, and the sizes of their files now\<close>
  "peer_points_of load sizes v finished cache =
     (let fresh = (let sig = (if finished then Final else Grown (sizes v))
                   in (load v, od_put v (sig, load v) cache))
      in case map_of cache v of
           None \<Rightarrow> fresh
         | Some (Final, ps) \<Rightarrow> (ps, cache)
         | Some (Grown old, ps) \<Rightarrow> if \<not> finished \<and> sizes v \<noteq> [] \<and> old = sizes v then (ps, cache) else fresh)"

definition cached_right :: "(string \<Rightarrow> points) \<Rightarrow> (string \<Rightarrow> (string \<times> nat) list)
    \<Rightarrow> (string \<times> (string \<times> nat) list signature \<times> points) list \<Rightarrow> bool" where
  "cached_right load sizes cache \<longleftrightarrow>
     (\<forall>v sig ps. map_of cache v = Some (sig, ps) \<longrightarrow> sig = Final \<or> sig = Grown (sizes v) \<longrightarrow> ps = load v)"

theorem points_are_current:
  assumes "cached_right load sizes cache"
  shows "fst (peer_points_of load sizes v finished cache) = load v \<and> cached_right load sizes (snd (peer_points_of load sizes v finished cache))"
  using assms by (auto simp: peer_points_of_def cached_right_def Let_def split: option.split signature.split)

end
