(* ===== verification/Sweep_Trials.thy ===== *)
theory Sweep_Trials
imports Sweep_Claims Sweep_Stop Run_Annotate "HOL-Library.Product_Lexorder"
begin

text \<open>
  A sweep's trials as rows, from core/sweep/summary.py and core/sweep/view.py: the run a trial's metric
  comes from, its latest attempts, the failed ones to retry, the summary; and the next claim of an
  agent, from cli/sweep/agent.py. Rows carry their status already; the tags that number a trial are
  read with \<open>int\<close>.
\<close>

section \<open>Rows\<close>

record trial_run =
  tr_verstr :: string
  tr_parent :: "string option"
  tr_name :: "string option"
  tr_status :: run_status
  tr_end :: "string option"
  tr_tags :: "(string \<times> string) list"
  tr_metrics :: "(string \<times> sv) list"
  tr_params :: "(string \<times> sv) list"
  tr_source :: "string option"      \<comment> \<open>\<open>metric_source\<close>\<close>

definition RETRYABLE :: "run_status list" where "RETRYABLE = [Failed, Stuck]"

definition int_tag :: "string \<Rightarrow> int \<Rightarrow> trial_run \<Rightarrow> int res" where
  "int_tag k d r =
     (case map_of (tr_tags r) k of None \<Rightarrow> Inr d
      | Some t \<Rightarrow> (case int_of_text t of None \<Rightarrow> Inl ValueErr | Some i \<Rightarrow> Inr i))"

definition trial_of :: "trial_run \<Rightarrow> (int \<times> int) res" where
  "trial_of r = bind_res (int_tag ''sweep_trial'' (-1) r) (\<lambda>t. bind_res (int_tag ''sweep_attempt'' 0 r) (\<lambda>a. Inr (t, a)))"

definition slot_of_run :: "trial_run \<Rightarrow> int \<times> int" where
  "slot_of_run r = (case trial_of r of Inr s \<Rightarrow> s | Inl _ \<Rightarrow> (-1, 0))"

definition numbered :: "trial_run list \<Rightarrow> bool" where
  "numbered rows = list_all (\<lambda>r. is_ok (trial_of r)) rows"

definition latest_attempts :: "trial_run list \<Rightarrow> (int \<times> trial_run) list res" where
  "latest_attempts rows =
     (if \<not> numbered rows then Inl ValueErr
      else Inr (fold (\<lambda>r m. od_put (fst (slot_of_run r)) r m) (sort_key slot_of_run rows) []))"

definition stopped_early :: "trial_run \<Rightarrow> bool" where
  "stopped_early r = (tr_end r = Some ''stopped'')"

definition metric_value :: "string \<Rightarrow> trial_run \<Rightarrow> rat option" where
  "metric_value nm r = Option.bind (map_of (tr_metrics r) nm) (\<lambda>v. Option.bind (as_number v) finite_of)"

fun pick_first :: "goal \<Rightarrow> rat \<Rightarrow> 'a \<Rightarrow> (rat \<times> 'a) list \<Rightarrow> rat \<times> 'a" where
  \<comment> \<open>\<open>min\<close> and \<open>max\<close> keep the first of equal ones\<close>
  "pick_first g x r [] = (x, r)"
| "pick_first g x r ((y, s) # rest) = (if better g y x then pick_first g y s rest else pick_first g x r rest)"

definition scored :: "string \<Rightarrow> trial_run list \<Rightarrow> (rat \<times> trial_run) list" where
  "scored nm rows = List.map_filter (\<lambda>r. map_option (\<lambda>v. (v, r)) (metric_value nm r)) rows"

definition best_trial :: "goal \<Rightarrow> string \<Rightarrow> trial_run list \<Rightarrow> trial_run option" where
  "best_trial g nm rows = (case scored nm rows of [] \<Rightarrow> None | (x, r) # rest \<Rightarrow> Some (snd (pick_first g x r rest)))"

section \<open>Where a trial's metric comes from\<close>

definition rows_by_verstr :: "trial_run list \<Rightarrow> (string \<times> trial_run) list" where
  "rows_by_verstr rows = fold (\<lambda>r. od_put (tr_verstr r) r) rows []"

definition run_links :: "trial_run list \<Rightarrow> children_map" where
  "run_links rows = children_by_parent (map (\<lambda>r. (tr_verstr r, tr_parent r)) rows)"

definition descendants_of :: "trial_run list \<Rightarrow> trial_run \<Rightarrow> trial_run list" where
  "descendants_of rows t =
     List.map_filter (map_of (rows_by_verstr rows)) (filter (\<lambda>v. v \<noteq> tr_verstr t) (subtree_verstrs (tr_verstr t) (run_links rows)))"

definition metric_source :: "goal \<Rightarrow> string \<Rightarrow> trial_run list \<Rightarrow> trial_run \<Rightarrow> trial_run" where
  "metric_source g nm rows t =
     (if metric_value nm t \<noteq> None then t
      else (case best_trial g nm (descendants_of rows t) of None \<Rightarrow> t | Some r \<Rightarrow> r))"

definition metric_json :: "rat option \<Rightarrow> sv" where
  \<comment> \<open>a metric's value again; an integer's type is not kept\<close>
  "metric_json v = (case v of None \<Rightarrow> SNull | Some x \<Rightarrow> SFloat (Fin x))"

definition attribute_metric :: "goal \<Rightarrow> string \<Rightarrow> trial_run list \<Rightarrow> trial_run list \<Rightarrow> trial_run list" where
  "attribute_metric g nm trials rows =
     map (\<lambda>t. let src = metric_source g nm rows t;
                  row = t\<lparr>tr_source := Some (tr_verstr src)\<rparr>
              in if metric_value nm t \<noteq> None \<or> best_trial g nm (descendants_of rows t) = None then row
                 else row\<lparr>tr_metrics := od_put nm (metric_json (metric_value nm src)) (tr_metrics t)\<rparr>) trials"

section \<open>Retries, history and the summary\<close>

definition history :: "string \<Rightarrow> trial_run list \<Rightarrow> ((string \<times> sv) list \<times> rat) list" where
  "history nm rows =
     List.map_filter (\<lambda>r. if tr_status r = Succeeded then map_option (\<lambda>v. (tr_params r, v)) (metric_value nm r) else None) rows"

definition retry_slots :: "trial_run list \<Rightarrow> (int \<times> int) list res" where
  "retry_slots rows =
     map_sum id (\<lambda>latest. sort (map (\<lambda>(t, r). (t, snd (slot_of_run r) + 1))
         (filter (\<lambda>(t, r). tr_status r \<in> set RETRYABLE \<and> \<not> stopped_early r) latest))) (latest_attempts rows)"

record best_summary =
  bs_verstr :: string
  bs_name :: "string option"
  bs_trial :: int
  bs_value :: "rat option"
  bs_source :: string
  bs_params :: "(string \<times> sv) list"

record sweep_summary =
  ss_trials :: nat
  ss_claimed :: nat
  ss_unstarted :: nat
  ss_counts :: "(run_status \<times> nat) list"
  ss_stopped :: nat
  ss_best :: "best_summary option"

definition sweep_summary_of :: "goal \<Rightarrow> string \<Rightarrow> nat list \<Rightarrow> (int \<times> trial_run) list \<Rightarrow> sweep_summary" where
  "sweep_summary_of g nm claimed latest =
     (let runs = map snd latest; taken = remdups (map int claimed)
      in \<lparr>ss_trials = length latest, ss_claimed = length taken,
          ss_unstarted = length (filter (\<lambda>t. t \<notin> fst ` set latest) taken),
          ss_counts = count_statuses (map tr_status runs),
          ss_stopped = length (filter stopped_early runs),
          ss_best = map_option (\<lambda>b. \<lparr>bs_verstr = tr_verstr b, bs_name = tr_name b, bs_trial = fst (slot_of_run b),
              bs_value = metric_value nm b, bs_source = (case tr_source b of None \<Rightarrow> tr_verstr b | Some s \<Rightarrow> s),
              bs_params = tr_params b\<rparr>) (best_trial g nm runs)\<rparr>)"

definition summarize :: "goal \<Rightarrow> string \<Rightarrow> trial_run list \<Rightarrow> nat list \<Rightarrow> sweep_summary res" where
  "summarize g nm rows claimed = map_sum id (sweep_summary_of g nm claimed) (latest_attempts rows)"

record trial_entry =
  te_verstr :: string
  te_name :: "string option"
  te_trial :: int
  te_attempt :: int
  te_status :: run_status
  te_params :: "(string \<times> sv) list"
  te_value :: "rat option"
  te_source :: string
  te_stopped :: bool

definition trial_entry_of :: "string \<Rightarrow> trial_run \<Rightarrow> trial_entry" where
  "trial_entry_of nm r =
     \<lparr>te_verstr = tr_verstr r, te_name = tr_name r, te_trial = fst (slot_of_run r), te_attempt = snd (slot_of_run r),
      te_status = tr_status r, te_params = tr_params r, te_value = metric_value nm r,
      te_source = (case tr_source r of None \<Rightarrow> tr_verstr r | Some s \<Rightarrow> s), te_stopped = stopped_early r\<rparr>"

definition sweep_view :: "goal \<Rightarrow> string \<Rightarrow> trial_run list \<Rightarrow> nat list \<Rightarrow> (sweep_summary \<times> trial_entry list) res" where
  "sweep_view g nm trials claimed =
     map_sum id (\<lambda>s. (s, map (trial_entry_of nm) (sort_key slot_of_run trials))) (summarize g nm trials claimed)"

section \<open>The next claim of an agent\<close>

fun claim_retries :: "(nat \<Rightarrow> area \<Rightarrow> string list) \<Rightarrow> (nat \<Rightarrow> area \<Rightarrow> area) \<Rightarrow> string \<Rightarrow> (int \<times> int) list \<Rightarrow> area
    \<Rightarrow> area \<times> claim option res" where
  \<comment> \<open>the claim of trial -1, a row without the tag, is never there\<close>
  "claim_retries listing others who [] a = (a, Inr None)"
| "claim_retries listing others who ((t, n) # ss) a =
     (if t < 0 \<or> n < 0 then claim_retries listing others who ss a
      else (case claim_retry listing others (nat t) who (Some (nat n)) a of
              (a', Inl e) \<Rightarrow> (a', Inl e)
            | (a', Inr (Some c)) \<Rightarrow> (a', Inr (Some c))
            | (a', Inr None) \<Rightarrow> claim_retries listing others who ss a'))"

definition next_claim :: "(nat \<Rightarrow> area \<Rightarrow> string list) \<Rightarrow> (nat \<Rightarrow> area \<Rightarrow> area) \<Rightarrow> nat option \<Rightarrow> (nat \<Rightarrow> yv) \<Rightarrow> string
    \<Rightarrow> bool \<Rightarrow> trial_run list \<Rightarrow> area \<Rightarrow> area \<times> claim option res" where
  "next_claim listing others limit suggest who retry_failed rows a =
     (case (if retry_failed then retry_slots rows else Inr []) of
        Inl e \<Rightarrow> (a, Inl e)
      | Inr ss \<Rightarrow>
          (case claim_retries listing others who ss a of
             (a', Inl e) \<Rightarrow> (a', Inl e)
           | (a', Inr (Some c)) \<Rightarrow> (a', Inr (Some c))
           | (a', Inr None) \<Rightarrow> claim_next_trial listing others limit suggest who a'))"

section \<open>The best of some rows\<close>

lemma not_better_trans: "\<not> better g x y \<Longrightarrow> \<not> better g y z \<Longrightarrow> \<not> better g x z"
  by (auto simp: better_def split: if_splits)

lemma better_asym: "better g x y \<Longrightarrow> \<not> better g y x"
  by (auto simp: better_def split: if_splits)

lemma pick_first_best:
  "pick_first g x r rest \<in> set ((x, r) # rest) \<and> (\<forall>p \<in> set ((x, r) # rest). \<not> better g (fst p) (fst (pick_first g x r rest)))"
proof (induction g x r rest rule: pick_first.induct)
  case (2 g x r y s rest)
  show ?case
  proof (cases "better g y x")
    case True
    have "\<not> better g y (fst (pick_first g y s rest))" using 2(1) [OF True] by simp
    from not_better_trans [OF better_asym [OF True] this] show ?thesis using 2(1) [OF True] True by simp
  next
    case False
    have "\<not> better g x (fst (pick_first g x r rest))" using 2(2) [OF False] by simp
    from not_better_trans [OF False this] show ?thesis using 2(2) [OF False] False by auto
  qed
qed (simp add: better_def)

lemma scored_set: "set (scored nm rows) = {(v, r). r \<in> set rows \<and> metric_value nm r = Some v}"
  by (induction rows) (auto simp: scored_def map_filter_simps split: option.splits)

lemma best_trial_spec:
  assumes "best_trial g nm rows = Some r"
  shows "\<exists>v. r \<in> set rows \<and> metric_value nm r = Some v
    \<and> (\<forall>d \<in> set rows. \<forall>w. metric_value nm d = Some w \<longrightarrow> \<not> better g w v)"
proof -
  obtain x r0 rest where s: "scored nm rows = (x, r0) # rest" using assms by (auto simp: best_trial_def split: list.splits)
  let ?p = "pick_first g x r0 rest"
  have r: "r = snd ?p" using assms s by (simp add: best_trial_def)
  have p: "?p \<in> set (scored nm rows)" "\<forall>q \<in> set (scored nm rows). \<not> better g (fst q) (fst ?p)"
    unfolding s using pick_first_best [of g x r0 rest] by (rule conjunct1, rule conjunct2)
  have "r \<in> set rows \<and> metric_value nm r = Some (fst ?p)" using p(1) unfolding r scored_set by (cases ?p; simp)
  moreover have "\<forall>d \<in> set rows. \<forall>w. metric_value nm d = Some w \<longrightarrow> \<not> better g w (fst ?p)"
    using p(2) unfolding scored_set by auto
  ultimately show ?thesis by blast
qed

lemma best_trial_None: "best_trial g nm rows = None \<longleftrightarrow> (\<forall>r \<in> set rows. metric_value nm r = None)"
proof -
  have "best_trial g nm rows = None \<longleftrightarrow> set (scored nm rows) = {}"
    by (auto simp: best_trial_def split: list.splits)
  then show ?thesis unfolding scored_set by auto (metis option.exhaust)
qed

text \<open>
  A trial is judged by a run's own value of the target metric: its own when it logged one, otherwise
  the best finite one among the runs below it, and by none when there is none; and the run named as
  its metric's source has exactly that value.
\<close>

theorem attributed_metric_is_a_runs:
  assumes "i < length trials"
  shows "let t = trials ! i; t' = attribute_metric g nm trials rows ! i; src = metric_source g nm rows t
    in tr_verstr t' = tr_verstr t \<and> tr_source t' = Some (tr_verstr src)
       \<and> metric_value nm t' = metric_value nm src
       \<and> (src = t \<or> src \<in> set (descendants_of rows t))
       \<and> (metric_value nm t \<noteq> None \<longrightarrow> src = t)
       \<and> (metric_value nm t = None \<longrightarrow>
            (\<forall>d \<in> set (descendants_of rows t). \<forall>w. metric_value nm d = Some w \<longrightarrow>
               (\<exists>v. metric_value nm t' = Some v \<and> \<not> better g w v)))"
proof -
  let ?t = "trials ! i" and ?d = "descendants_of rows (trials ! i)"
  have nth: "attribute_metric g nm trials rows ! i =
      (let src = metric_source g nm rows ?t; row = ?t\<lparr>tr_source := Some (tr_verstr src)\<rparr>
       in if metric_value nm ?t \<noteq> None \<or> best_trial g nm ?d = None then row
          else row\<lparr>tr_metrics := od_put nm (metric_json (metric_value nm src)) (tr_metrics ?t)\<rparr>)"
    using assms by (simp add: attribute_metric_def)
  show ?thesis
  proof (cases "metric_value nm ?t = None")
    case False
    then show ?thesis using nth by (auto simp: Let_def metric_source_def metric_value_def)
  next
    case True
    show ?thesis
    proof (cases "best_trial g nm ?d")
      case None
      then have "\<forall>r \<in> set ?d. metric_value nm r = None" by (simp add: best_trial_None)
      then show ?thesis using nth True None by (auto simp: Let_def metric_source_def metric_value_def)
    next
      case (Some r)
      obtain v where v: "r \<in> set ?d" "metric_value nm r = Some v"
        "\<forall>d \<in> set ?d. \<forall>w. metric_value nm d = Some w \<longrightarrow> \<not> better g w v"
        using best_trial_spec [OF Some] by blast
      have src: "metric_source g nm rows ?t = r" using True Some by (simp add: metric_source_def)
      have "metric_value nm (attribute_metric g nm trials rows ! i) = Some v"
        using nth True Some v(2) src
        by (simp add: Let_def) (simp add: metric_value_def metric_json_def as_number_def finite_of_def)
      moreover have "tr_verstr (attribute_metric g nm trials rows ! i) = tr_verstr ?t"
        "tr_source (attribute_metric g nm trials rows ! i) = Some (tr_verstr r)"
        using nth True Some src by (simp_all add: Let_def)
      ultimately show ?thesis using True v src by (simp add: Let_def)
    qed
  qed
qed

section \<open>The latest attempts\<close>

lemma fold_latest_attempt:
  "sorted (map slot_of_run ys) \<Longrightarrow>
     (case map_of (fold (\<lambda>r m. od_put (fst (slot_of_run r)) r m) ys []) t of
        None \<Rightarrow> \<forall>r \<in> set ys. fst (slot_of_run r) \<noteq> t
      | Some r \<Rightarrow> r \<in> set ys \<and> fst (slot_of_run r) = t \<and> (\<forall>s \<in> set ys. fst (slot_of_run s) = t \<longrightarrow> slot_of_run s \<le> slot_of_run r))"
proof (induction ys rule: rev_induct)
  case (snoc y ys)
  then have "sorted (map slot_of_run ys)" "\<forall>s \<in> set ys. slot_of_run s \<le> slot_of_run y"
    by (auto simp: sorted_append)
  then show ?case using snoc(1) by (auto split: option.splits)
qed simp

lemma latest_wf: "od_wf (fold (\<lambda>r m. od_put (f r) r m) ys m)" if "od_wf m"
  using that by (induction ys arbitrary: m) (auto intro: od_wf_put)

lemma latest_attempts_spec:
  assumes "latest_attempts rows = Inr latest"
  shows "distinct (map fst latest)"
    "(t, r) \<in> set latest \<Longrightarrow> r \<in> set rows \<and> trial_of r = Inr (slot_of_run r) \<and> fst (slot_of_run r) = t
       \<and> (\<forall>s \<in> set rows. fst (slot_of_run s) = t \<longrightarrow> snd (slot_of_run s) \<le> snd (slot_of_run r))"
    "s \<in> set rows \<Longrightarrow> fst (slot_of_run s) \<in> fst ` set latest"
proof -
  let ?ys = "sort_key slot_of_run rows"
  have l: "numbered rows" "latest = fold (\<lambda>r m. od_put (fst (slot_of_run r)) r m) ?ys []"
    using assms by (auto simp: latest_attempts_def split: if_splits)
  show d: "distinct (map fst latest)" using latest_wf [of "[]" "\<lambda>r. fst (slot_of_run r)" ?ys] unfolding l(2) od_wf_def by simp
  note f = fold_latest_attempt [of ?ys, simplified sorted_sort_key, folded l(2)]
  show "r \<in> set rows \<and> trial_of r = Inr (slot_of_run r) \<and> fst (slot_of_run r) = t
       \<and> (\<forall>s \<in> set rows. fst (slot_of_run s) = t \<longrightarrow> snd (slot_of_run s) \<le> snd (slot_of_run r))"
    if "(t, r) \<in> set latest"
  proof -
    have m: "map_of latest t = Some r" using d that by simp
    have "r \<in> set rows" "fst (slot_of_run r) = t" "\<forall>s \<in> set rows. fst (slot_of_run s) = t \<longrightarrow> slot_of_run s \<le> slot_of_run r"
      using f [of t] m by auto
    moreover have "trial_of r = Inr (slot_of_run r)"
      using l(1) \<open>r \<in> set rows\<close> by (auto simp: numbered_def list_all_iff is_ok_iff slot_of_run_def split: sum.split)
    ultimately show ?thesis by (auto simp: less_eq_prod_def)
  qed
  show "fst (slot_of_run s) \<in> fst ` set latest" if "s \<in> set rows"
    using f [of "fst (slot_of_run s)"] that by (auto split: option.splits dest!: map_of_SomeD intro: rev_image_eqI)
qed

definition to_retry :: "trial_run list \<Rightarrow> trial_run \<Rightarrow> bool" where
  \<comment> \<open>the latest attempt of its trial, failed or stuck and not stopped early\<close>
  "to_retry rows r \<longleftrightarrow> r \<in> set rows \<and> (tr_status r = Failed \<or> tr_status r = Stuck) \<and> tr_end r \<noteq> Some ''stopped''
     \<and> (\<forall>s \<in> set rows. fst (slot_of_run s) = fst (slot_of_run r) \<longrightarrow> snd (slot_of_run s) \<le> snd (slot_of_run r))"

lemma retry_slots_spec:
  assumes "retry_slots rows = Inr ss"
  shows "distinct (map fst ss)"
    "(t, n) \<in> set ss \<Longrightarrow> \<exists>r. to_retry rows r \<and> trial_of r = Inr (t, n - 1)"
proof -
  obtain latest where l: "latest_attempts rows = Inr latest"
    "ss = sort (map (\<lambda>(t, r). (t, snd (slot_of_run r) + 1))
         (filter (\<lambda>(t, r). tr_status r \<in> set RETRYABLE \<and> \<not> stopped_early r) latest))"
    using assms by (cases "latest_attempts rows") (auto simp: retry_slots_def)
  note spec = latest_attempts_spec [OF l(1)]
  have "distinct (map fst (map (\<lambda>(t, r). (t, snd (slot_of_run r) + 1))
         (filter (\<lambda>(t, r). tr_status r \<in> set RETRYABLE \<and> \<not> stopped_early r) latest)))"
    using spec(1) by (simp add: case_prod_unfold comp_def distinct_map_filter)
  then show "distinct (map fst ss)" unfolding l(2)
    by (metis (no_types, lifting) distinct_map distinct_sort set_sort)
  show "\<exists>r. to_retry rows r \<and> trial_of r = Inr (t, n - 1)" if "(t, n) \<in> set ss"
  proof -
    obtain r where r: "(t, r) \<in> set latest" "n = snd (slot_of_run r) + 1" "tr_status r \<in> set RETRYABLE" "\<not> stopped_early r"
    proof -
      have "(t, n) \<in> (\<lambda>(t, r). (t, snd (slot_of_run r) + 1)) ` {p \<in> set latest. case p of (t, r) \<Rightarrow> tr_status r \<in> set RETRYABLE \<and> \<not> stopped_early r}"
        using \<open>(t, n) \<in> set ss\<close> by (simp add: l(2))
      then show ?thesis using that by (auto split: prod.splits)
    qed
    from spec(2) [OF r(1)] have s: "r \<in> set rows" "trial_of r = Inr (slot_of_run r)" "fst (slot_of_run r) = t"
      "\<forall>s \<in> set rows. fst (slot_of_run s) = t \<longrightarrow> snd (slot_of_run s) \<le> snd (slot_of_run r)" by auto
    have "trial_of r = Inr (t, n - 1)" using s(2,3) r(2) by (metis add_diff_cancel_right' prod.collapse)
    then show ?thesis using s r(3,4) by (auto simp: to_retry_def RETRYABLE_def stopped_early_def)
  qed
qed

lemma claim_retry_exact:
  assumes "claim_retry listing others t who (Some n) a = (a', Inr (Some c))"
  shows "trial c = t \<and> attempt c = n \<and> map_of a (record_name t n) = None \<and> a' = a @ [(record_name t n, c)]"
proof -
  obtain o1 :: claim where r: "claim_slot a t n (params o1) who = (a', Some c)"
    using assms that by (auto simp: claim_retry_def split: option.splits prod.splits)
  from claim_slot_cases [OF r] show ?thesis by (auto simp: in_area_def)
qed

lemma claim_retries_sound:
  "claim_retries listing others who ss a = (a', Inr (Some c)) \<Longrightarrow> (int (trial c), int (attempt c)) \<in> set ss"
proof (induction listing others who ss a rule: claim_retries.induct)
  case (2 listing others who t n ss a)
  show ?case
  proof (cases "t < 0 \<or> n < 0")
    case False
    obtain a1 r where r: "claim_retry listing others (nat t) who (Some (nat n)) a = (a1, r)" by (metis surj_pair)
    show ?thesis
    proof (cases r)
      case (Inr x)
      show ?thesis
      proof (cases x)
        case None
        then show ?thesis using 2 False r Inr by (auto simp: split: if_splits)
      next
        case (Some d)
        then have "d = c" using 2(3) False r Inr by simp
        then show ?thesis using claim_retry_exact [of listing others "nat t" who "nat n" a a1 d] r Inr Some False by simp
      qed
    qed (use 2(3) False r in simp)
  qed (use 2 in auto)
qed simp

lemma claim_rounds_bound:
  "claim_rounds listing others limit suggest who k n a = (a', Inr (Some c)) \<Longrightarrow> attempt c = 0 \<and> \<not> at_limit limit (trial c)"
proof (induction k arbitrary: n a)
  case (Suc k)
  let ?n = "max (next_free (claimed_trials (listing k a))) n"
  obtain a1 r where r: "claim_slot (others k a) ?n 0 (suggest ?n) who = (a1, r)" by (metis surj_pair)
  from claim_slot_cases [OF r] show ?case using Suc r by (auto simp: Let_def split: if_splits)
qed simp

lemma claim_retries_new:
  "only_adds others \<Longrightarrow> claim_retries listing others who ss a = (a', r) \<Longrightarrow> claims_new who a a' r"
proof (induction listing others who ss a rule: claim_retries.induct)
  case (2 listing others who t n ss a)
  show ?case
  proof (cases "t < 0 \<or> n < 0")
    case False
    obtain a1 x where x: "claim_retry listing others (nat t) who (Some (nat n)) a = (a1, x)" by (metis surj_pair)
    note new = claim_retry_new [OF "2.prems"(1) x]
    show ?thesis
    proof (cases "x = Inr None")
      case True
      have "claim_retries listing others who ss a1 = (a', r)" using 2(4) False x True by simp
      then have "claims_new who a1 a' r" using 2 False x True by simp
      then show ?thesis using claims_new_retry new True by blast
    next
      case stop: False
      then have "(a', r) = (a1, x)" using 2(4) False x by (auto split: sum.splits option.splits)
      then show ?thesis using new by simp
    qed
  qed (use 2 in auto)
qed (auto simp: claims_new_none)

lemma next_claim_new:
  assumes "only_adds others" "next_claim listing others limit suggest who retry_failed rows a = (a', r)"
  shows "claims_new who a a' r"
proof (cases "if retry_failed then retry_slots rows else Inr []")
  case (Inr ss)
  obtain a1 x where x: "claim_retries listing others who ss a = (a1, x)" by (metis surj_pair)
  note new = claim_retries_new [OF assms(1) x]
  show ?thesis
  proof (cases "x = Inr None")
    case True
    then have "claim_next_trial listing others limit suggest who a1 = (a', r)"
      using assms(2) Inr x unfolding next_claim_def by simp
    from claim_next_trial_new [OF assms(1) this] show ?thesis using claims_new_retry new True by blast
  next
    case False
    then have "(a', r) = (a1, x)"
      using assms(2) Inr x unfolding next_claim_def by (auto split: sum.splits option.splits)
    then show ?thesis using new by simp
  qed
qed (use assms(2) in \<open>auto simp: next_claim_def claims_new_none\<close>)

text \<open>
  C39. What an agent is given, when other agents only add records: a claim of its own, in a slot that
  held no record when it asked and that holds exactly this claim afterwards. It is the first attempt of
  a trial below the limit, or, when the agent retries failed trials, the next attempt of one whose
  latest attempt among the rows failed or got stuck and was not stopped early; no row has that attempt.
\<close>

theorem agent_claims_new_or_failed:
  assumes "only_adds others"
    and "next_claim listing others limit suggest who retry_failed rows a = (a', Inr (Some c))"
  shows "agent c = who \<and> map_of a (record_name (trial c) (attempt c)) = None
    \<and> map_of a' (record_name (trial c) (attempt c)) = Some c
    \<and> ((attempt c = 0 \<and> \<not> at_limit limit (trial c))
       \<or> retry_failed \<and> (\<exists>r. to_retry rows r \<and> trial_of r = Inr (int (trial c), int (attempt c) - 1)
            \<and> (\<forall>s \<in> set rows. slot_of_run s \<noteq> (int (trial c), int (attempt c)))))"
proof -
  have new: "agent c = who" "map_of a (record_name (trial c) (attempt c)) = None"
    "map_of a' (record_name (trial c) (attempt c)) = Some c"
    using next_claim_new [OF assms] by (simp_all add: claims_new_def in_area_def)
  obtain ss where ss: "(if retry_failed then retry_slots rows else Inr []) = Inr ss"
    using assms unfolding next_claim_def by (cases "if retry_failed then retry_slots rows else Inr []") auto
  obtain a1 x where r: "claim_retries listing others who ss a = (a1, Inr x)"
    using assms(2) ss unfolding next_claim_def by (cases "claim_retries listing others who ss a") (auto split: sum.splits)
  show ?thesis
  proof (cases x)
    case None
    then have "claim_next_trial listing others limit suggest who a1 = (a', Inr (Some c))"
      using assms(2) ss r unfolding next_claim_def by simp
    then have "attempt c = 0 \<and> \<not> at_limit limit (trial c)"
      using claim_rounds_bound unfolding claim_next_trial_def by blast
    then show ?thesis using new by blast
  next
    case (Some d)
    then have "d = c" using assms(2) ss r unfolding next_claim_def by simp
    then have mem: "(int (trial c), int (attempt c)) \<in> set ss" using claim_retries_sound r Some by blast
    then have f: "retry_failed" "retry_slots rows = Inr ss" using ss by (auto split: if_splits)
    from retry_slots_spec(2) [OF f(2) mem] obtain t where
      t: "to_retry rows t" "trial_of t = Inr (int (trial c), int (attempt c) - 1)" by blast
    then have "slot_of_run t = (int (trial c), int (attempt c) - 1)" by (simp add: slot_of_run_def)
    then have "\<forall>s \<in> set rows. slot_of_run s \<noteq> (int (trial c), int (attempt c))"
      using t(1) by (auto simp: to_retry_def)
    then show ?thesis using f(1) t new by blast
  qed
qed

section \<open>The summary\<close>

theorem summary_adds_up:
  assumes "summarize g nm rows claimed = Inr s"
  shows "sum_list (map snd (ss_counts s)) = ss_trials s
    \<and> ss_stopped s \<le> ss_trials s \<and> ss_unstarted s \<le> ss_claimed s
    \<and> (\<forall>r \<in> set rows. (\<forall>q \<in> set rows. fst (slot_of_run q) = fst (slot_of_run r) \<longrightarrow> q = r) \<longrightarrow>
         (\<forall>w. metric_value nm r = Some w \<longrightarrow>
           (\<exists>b v. ss_best s = Some b \<and> bs_value b = Some v \<and> \<not> better g w v)))"
proof -
  obtain latest where l: "latest_attempts rows = Inr latest" and s: "s = sweep_summary_of g nm claimed latest"
    using assms by (cases "latest_attempts rows") (simp_all add: summarize_def)
  have sizes: "sum_list (map snd (ss_counts s)) = ss_trials s" "ss_stopped s \<le> ss_trials s" "ss_unstarted s \<le> ss_claimed s"
    unfolding s sweep_summary_of_def Let_def using length_filter_le [of stopped_early "map snd latest"]
    by (simp_all add: sum_count_statuses)
  moreover have "\<exists>b v. ss_best s = Some b \<and> bs_value b = Some v \<and> \<not> better g w v"
    if r: "r \<in> set rows" "\<forall>q \<in> set rows. fst (slot_of_run q) = fst (slot_of_run r) \<longrightarrow> q = r" "metric_value nm r = Some w" for r w
  proof -
    obtain q where q: "(fst (slot_of_run r), q) \<in> set latest" using latest_attempts_spec(3) [OF l r(1)] by auto
    have "q = r" using latest_attempts_spec(2) [OF l q] r(2) by auto
    then have mem: "r \<in> set (map snd latest)" using q by force
    then obtain b where b: "best_trial g nm (map snd latest) = Some b"
      using r(3) best_trial_None [of g nm "map snd latest"] by (cases "best_trial g nm (map snd latest)") auto
    obtain v where "b \<in> set (map snd latest)" "metric_value nm b = Some v"
      "\<forall>d \<in> set (map snd latest). \<forall>w. metric_value nm d = Some w \<longrightarrow> \<not> better g w v"
      using best_trial_spec [OF b] by blast
    then show ?thesis using mem r(3) b unfolding s sweep_summary_of_def Let_def by auto
  qed
  ultimately show ?thesis by blast
qed

section \<open>The check of a running trial\<close>

definition early_stop_check :: "early_rule \<Rightarrow> goal \<Rightarrow> string \<Rightarrow> trial_run list \<Rightarrow> (string \<Rightarrow> points) \<Rightarrow> bool" where
  "early_stop_check rule g own_verstr rows load =
     (let source = (\<lambda>r. case tr_source r of None \<Rightarrow> tr_verstr r | Some s \<Rightarrow> s);
          own = load (case find (\<lambda>r. tr_verstr r = own_verstr) rows of None \<Rightarrow> own_verstr | Some r \<Rightarrow> source r)
      in if \<not> past_min_iter rule own then False
         else should_stop rule g own (map (\<lambda>r. load (source r)) (filter (\<lambda>r. tr_verstr r \<noteq> own_verstr) rows)))"

section \<open>Samples\<close>

definition sample_run :: "string \<Rightarrow> string \<Rightarrow> string \<Rightarrow> run_status \<Rightarrow> trial_run" where
  "sample_run v t a st = \<lparr>tr_verstr = v, tr_parent = Some ''s'', tr_name = None, tr_status = st, tr_end = None,
     tr_tags = [(''sweep_trial'', t), (''sweep_attempt'', a)], tr_metrics = [], tr_params = [], tr_source = Some v\<rparr>"

lemma sample_slot: "slot_of_run (sample_run v ''0'' ''0'' st) = (0, 0)" "trial_of (sample_run v ''0'' ''0'' st) = Inr (0, 0)"
  by (simp_all add: slot_of_run_def trial_of_def int_tag_def sample_run_def) code_simp+

definition nested_trials :: "trial_run list" where
  \<comment> \<open>a trial that logged nothing of its own, and a run below it that did\<close>
  "nested_trials = [sample_run ''a'' ''0'' ''0'' Failed,
     (sample_run ''b'' ''0'' ''0'' Succeeded)\<lparr>tr_parent := Some ''a'', tr_metrics := [(''loss'', SInt 3)]\<rparr>]"

lemma nested_source: "descendants_of nested_trials (sample_run ''a'' ''0'' ''0'' Failed) = [nested_trials ! 1]"
  by code_simp

theorem attributed_metric_is_a_runs_witness:
  "tr_source (attribute_metric Minimize ''loss'' [sample_run ''a'' ''0'' ''0'' Failed] nested_trials ! 0) = Some ''b''"
proof -
  have "metric_source Minimize ''loss'' nested_trials (sample_run ''a'' ''0'' ''0'' Failed) = nested_trials ! 1"
    unfolding metric_source_def nested_source by code_simp
  then show ?thesis
    using attributed_metric_is_a_runs [of 0 "[sample_run ''a'' ''0'' ''0'' Failed]" Minimize "''loss''" nested_trials]
    by (simp add: Let_def) (simp add: nested_trials_def sample_run_def)
qed

definition claimed_area :: area where
  "claimed_area = [(''t0'', \<lparr>trial = 0, attempt = 0, params = YNull, agent = ''a''\<rparr>)]"

theorem agent_claims_new_or_failed_witness:
  "\<exists>a' c. next_claim (\<lambda>k a. map fst a) (\<lambda>k a. a) (Some 5) (\<lambda>n. YNull) ''b'' True [sample_run ''v'' ''0'' ''0'' Failed] claimed_area = (a', Inr (Some c))
     \<and> trial c = 0 \<and> attempt c = 1 \<and> map_of a' (record_name 0 1) = Some c \<and> to_retry [sample_run ''v'' ''0'' ''0'' Failed] (sample_run ''v'' ''0'' ''0'' Failed)"
proof -
  have slots: "retry_slots [sample_run ''v'' ''0'' ''0'' Failed] = Inr [(0, 1)]"
    by (simp add: retry_slots_def latest_attempts_def numbered_def sample_slot)
       (simp add: RETRYABLE_def stopped_early_def sample_run_def)
  have n: "record_name 0 0 = ''t0''" "record_name 0 1 = ''t0.a1''" by code_simp+
  have run: "next_claim (\<lambda>k a. map fst a) (\<lambda>k a. a) (Some 5) (\<lambda>n. YNull) ''b'' True [sample_run ''v'' ''0'' ''0'' Failed] claimed_area
    = (claimed_area @ [(''t0.a1'', \<lparr>trial = 0, attempt = 1, params = YNull, agent = ''b''\<rparr>)],
       Inr (Some \<lparr>trial = 0, attempt = 1, params = YNull, agent = ''b''\<rparr>))"
    by (simp add: next_claim_def slots claim_retry_def n n [unfolded One_nat_def] claimed_area_def claim_slot_def create_exclusive_def Let_def)
  have "only_adds (\<lambda>k a. a)" by (simp add: only_adds_def)
  from agent_claims_new_or_failed [OF this run] run show ?thesis by (auto simp: sample_slot to_retry_def)
qed

text \<open>
  The rows hold every attempt, so a retried trial is compared with its own earlier attempts: a sweep's
  only trial is stopped in its second attempt because the first one, which failed, had been better.
\<close>

lemma retry_competes_with_itself:
  "early_stop_check \<lparr>min_iter = 1, min_trials = 1, check_interval = Fin 10\<rparr> Minimize ''b''
     [sample_run ''a'' ''0'' ''0'' Failed, sample_run ''b'' ''0'' ''1'' Running]
     (\<lambda>v. if v = ''a'' then [(1, 1)] else [(1, 2)])"
  by (simp add: early_stop_check_def sample_run_def past_min_iter_def last_step_def should_stop_def
      median_should_stop_def peer_bests_def best_until_def median_def Let_def)


end
