(* ===== verification/Alerts.thy ===== *)
theory Alerts
imports Run_Status
begin

text \<open>
  Alerts on status transitions, from core/alerts/transitions.py and the delivery of core/alerts/dispatch.py:
  the key of a transition, the marks of those delivered, and a watch over an application's runs. What
  each sink answers, whether the file of marks can be read and written, and the clocks read on the way
  are parameters; the texts of alerts and the configuration are left out.
\<close>

section \<open>Delivery\<close>

definition alerter_send :: "bool list \<Rightarrow> bool" where
  \<comment> \<open>every sink is tried; whether one took it\<close>
  "alerter_send answers = foldl (\<lambda>delivered ok. delivered \<or> ok) False answers"

definition admit :: "rat \<Rightarrow> rat \<Rightarrow> string \<Rightarrow> (string \<times> rat) list \<Rightarrow> bool \<times> (string \<times> rat) list" where
  "admit wait now title last_sent =
     (case map_of last_sent title of
        Some t \<Rightarrow> if now - t < wait then (False, last_sent) else (True, od_put title now last_sent)
      | None \<Rightarrow> (True, od_put title now last_sent))"

section \<open>Transitions\<close>

datatype transition = Failed_At "stamp option" | Stuck_At "instant option"
  \<comment> \<open>\<open>failed@...\<close> and \<open>stuck@...\<close>\<close>

definition transition_key :: "run_status \<Rightarrow> run_state \<Rightarrow> instant \<Rightarrow> instant option \<Rightarrow> transition" where
  \<comment> \<open>the clock is its own, not the watch's; a stamp stands for its text\<close>
  "transition_key status rs clock observed_at =
     (if status = Failed then Failed_At (finished_at rs) else Stuck_At (last_alive_at rs clock observed_at))"

definition transition_time :: "run_status \<Rightarrow> run_state \<Rightarrow> instant \<Rightarrow> instant option \<Rightarrow> instant option" where
  "transition_time status rs now observed_at =
     (if status = Failed then parse_iso (finished_at rs) else last_alive_at rs now observed_at)"

record alert_world =
  marks :: "(string \<times> (transition \<times> instant) list) list"   \<comment> \<open>\<open>alerts_sent.yml\<close> of each run\<close>
  delivered :: "(string \<times> transition) list"                  \<comment> \<open>what sinks took, in order\<close>

datatype save_answer = Save_Done | Save_Refused | Save_Unanswered
  \<comment> \<open>\<open>save_file\<close> returns; it raises and nothing is written; it raises and the file is written\<close>

record alert_io =                                           \<comment> \<open>what an alert meets on its way\<close>
  key_clock :: instant                                      \<comment> \<open>read by \<open>transition_key\<close>\<close>
  readable :: bool                                          \<comment> \<open>the marks load, as a mapping\<close>
  answers :: "bool list"                                    \<comment> \<open>of the sinks\<close>
  mark_clock :: instant                                     \<comment> \<open>\<open>now_iso\<close>\<close>
  save_mark :: save_answer

definition load_sent :: "bool \<Rightarrow> alert_world \<Rightarrow> string \<Rightarrow> (transition \<times> instant) list" where
  \<comment> \<open>unreadable marks read as none\<close>
  "load_sent ok w v = (if ok then (case map_of (marks w) v of None \<Rightarrow> [] | Some sent \<Rightarrow> sent) else [])"

definition mark_sent :: "save_answer \<Rightarrow> string \<Rightarrow> (transition \<times> instant) list \<Rightarrow> transition \<Rightarrow> instant
    \<Rightarrow> alert_world \<Rightarrow> unit res \<times> alert_world" where
  "mark_sent answer v sent key clock w =
     (case answer of
        Save_Refused \<Rightarrow> (Inl OSErr, w)
      | Save_Unanswered \<Rightarrow> (Inl OSErr, w\<lparr>marks := od_put v (od_put key clock sent) (marks w)\<rparr>)
      | Save_Done \<Rightarrow> (Inr (), w\<lparr>marks := od_put v (od_put key clock sent) (marks w)\<rparr>))"

definition alert_transition :: "string \<Rightarrow> run_state \<Rightarrow> run_status \<Rightarrow> instant option \<Rightarrow> alert_io
    \<Rightarrow> alert_world \<Rightarrow> bool res \<times> alert_world" where
  "alert_transition v rs status observed_at io w =
     (let key = transition_key status rs (key_clock io) observed_at; sent = load_sent (readable io) w v
      in if key \<in> fst ` set sent then (Inr False, w)
         else if \<not> alerter_send (answers io) then (Inr False, w)
         else (case mark_sent (save_mark io) v sent key (mark_clock io) (w\<lparr>delivered := delivered w @ [(v, key)]\<rparr>) of
                 (Inl e, w') \<Rightarrow> (Inl e, w')
               | (Inr _, w') \<Rightarrow> (Inr True, w')))"

definition alert_if_failed :: "rat option \<Rightarrow> bool \<Rightarrow> string \<Rightarrow> run_state option \<Rightarrow> instant \<Rightarrow> alert_io
    \<Rightarrow> alert_world \<Rightarrow> bool res \<times> alert_world" where
  "alert_if_failed env wants_failed v state clock io w =
     (case state of
        None \<Rightarrow> (Inr False, w)
      | Some rs \<Rightarrow>
          if \<not> wants_failed \<or> derive_status env state clock None \<noteq> Failed then (Inr False, w)
          else alert_transition v rs Failed None io w)"

section \<open>A watch\<close>

record watched_run =
  wr_verstr :: string
  wr_state :: "run_state option"
  wr_observed :: "instant option"

definition candidates :: "rat option \<Rightarrow> run_status set \<Rightarrow> rat \<Rightarrow> instant \<Rightarrow> watched_run list
    \<Rightarrow> (string \<times> run_state \<times> run_status \<times> instant option) list" where
  "candidates env wanted within_sec now runs =
     List.map_filter (\<lambda>r. case wr_state r of
         None \<Rightarrow> None
       | Some rs \<Rightarrow>
           (let status = derive_status env (Some rs) now (wr_observed r)
            in if status \<notin> wanted then None
               else (case transition_time status rs now (wr_observed r) of
                       None \<Rightarrow> None
                     | Some since \<Rightarrow> if seconds (now - since) \<le> within_sec then Some (wr_verstr r, rs, status, wr_observed r)
                                   else None))) runs"

fun alert_each :: "(string \<Rightarrow> alert_io) \<Rightarrow> (string \<times> run_state \<times> run_status \<times> instant option) list
    \<Rightarrow> alert_world \<Rightarrow> (string \<times> run_status) list \<times> alert_world" where
  \<comment> \<open>what an alert raises is caught, and the run is not among those fired\<close>
  "alert_each io [] w = ([], w)"
| "alert_each io ((v, rs, status, obs) # cs) w =
     (case alert_transition v rs status obs (io v) w of (sent, w1) \<Rightarrow>
        case alert_each io cs w1 of (fired, w2) \<Rightarrow> (if sent = Inr True then (v, status) # fired else fired, w2))"

definition watch_app :: "rat option \<Rightarrow> run_status set \<Rightarrow> rat \<Rightarrow> instant \<Rightarrow> (string \<Rightarrow> alert_io) \<Rightarrow> watched_run list
    \<Rightarrow> alert_world \<Rightarrow> (string \<times> run_status) list \<times> alert_world" where
  "watch_app env wants within_sec now io runs w =
     (let wanted = {Failed, Stuck} \<inter> wants
      in if wanted = {} then ([], w) else alert_each io (candidates env wanted within_sec now runs) w)"

record watch_round =
  at_time :: instant
  io_of :: "string \<Rightarrow> alert_io"
  snapshot :: "watched_run list"

fun watches :: "rat option \<Rightarrow> run_status set \<Rightarrow> rat \<Rightarrow> watch_round list \<Rightarrow> alert_world \<Rightarrow> alert_world" where
  "watches env wants within_sec [] w = w"
| "watches env wants within_sec (r # rs) w =
     watches env wants within_sec rs (snd (watch_app env wants within_sec (at_time r) (io_of r) (snapshot r) w))"

section \<open>Once per transition\<close>

definition io_faulty :: "alert_io \<Rightarrow> bool" where
  "io_faulty io \<longleftrightarrow> \<not> readable io \<or> save_mark io = Save_Refused"

definition faults :: "string \<Rightarrow> watch_round list \<Rightarrow> nat" where
  \<comment> \<open>the rounds in which the marks of a run could not be read or written\<close>
  "faults v rounds = length (filter (\<lambda>r. io_faulty (io_of r v)) rounds)"

definition mark_keys :: "alert_world \<Rightarrow> string \<Rightarrow> transition set" where
  "mark_keys w v = fst ` set (load_sent True w v)"

definition deliveries :: "alert_world \<Rightarrow> string \<Rightarrow> transition \<Rightarrow> nat" where
  "deliveries w v k = count_list (delivered w) (v, k)"

definition accounted :: "(string \<Rightarrow> nat) \<Rightarrow> alert_world \<Rightarrow> bool" where
  \<comment> \<open>only deliveries are marked, and one that is not marked has a fault of its run to answer for it\<close>
  "accounted bound w \<longleftrightarrow> (\<forall>v k. deliveries w v k \<le> bound v + (if k \<in> mark_keys w v then 1 else 0)
     \<and> (k \<in> mark_keys w v \<longrightarrow> (v, k) \<in> set (delivered w)))"

lemma alert_transition_world:
  fixes rs st obs io
  defines "k \<equiv> transition_key st rs (key_clock io) obs"
  shows "snd (alert_transition v rs st obs io w)
     = (if (readable io \<and> k \<in> mark_keys w v) \<or> \<not> alerter_send (answers io) then w
        else if save_mark io = Save_Refused then w\<lparr>delivered := delivered w @ [(v, k)]\<rparr>
        else w\<lparr>marks := od_put v (od_put k (mark_clock io) (load_sent (readable io) w v)) (marks w),
               delivered := delivered w @ [(v, k)]\<rparr>)"
  by (cases "readable io"; cases "save_mark io")
     (simp_all add: alert_transition_def mark_sent_def load_sent_def mark_keys_def k_def Let_def)

lemma mark_keys_put:
  "mark_keys (w\<lparr>marks := od_put v (od_put k t (load_sent ok w v)) (marks w)\<rparr>) u
     = (if u = v then insert k (if ok then mark_keys w v else {}) else mark_keys w u)"
  by (cases ok) (simp_all add: mark_keys_def load_sent_def fst_od_put)

lemma mark_keys_delivered [simp]: "mark_keys (w\<lparr>delivered := d\<rparr>) u = mark_keys w u"
  by (simp add: mark_keys_def load_sent_def)

lemma alert_transition_accounted:
  assumes "accounted bound w"
  shows "accounted (\<lambda>u. bound u + (if u = v \<and> io_faulty io then 1 else 0)) (snd (alert_transition v rs st obs io w))"
proof -
  have old: "deliveries w u k \<le> bound u + (if k \<in> mark_keys w u then 1 else 0)"
    "k \<in> mark_keys w u \<Longrightarrow> (u, k) \<in> set (delivered w)" for u k
    using assms unfolding accounted_def by blast+
  have le: "deliveries w u k \<le> Suc (bound u)" for u k using old(1) [of u k] by (simp split: if_splits)
  have sharp: "k \<notin> mark_keys w u \<Longrightarrow> deliveries w u k \<le> bound u" for u k using old(1) [of u k] by simp
  show ?thesis unfolding accounted_def alert_transition_world
    using old(2) le sharp by (auto simp: mark_keys_put deliveries_def io_faulty_def intro: le_SucI split: if_splits)
qed

lemma alert_transition_grows: "set (delivered w) \<subseteq> set (delivered (snd (alert_transition v rs st obs io w)))"
  unfolding alert_transition_world by auto

lemma alert_transition_attempts:
  assumes "accounted bound w" "alerter_send (answers io)"
  shows "(v, transition_key st rs (key_clock io) obs) \<in> set (delivered (snd (alert_transition v rs st obs io w)))"
  using assms unfolding alert_transition_world by (auto simp: accounted_def)

lemma alert_each_Cons: "snd (alert_each io ((v, rs, st, obs) # cs) w)
    = snd (alert_each io cs (snd (alert_transition v rs st obs (io v) w)))"
  by (simp split: prod.split)

definition faults_in :: "(string \<Rightarrow> alert_io) \<Rightarrow> (string \<times> 'c) list \<Rightarrow> string \<Rightarrow> nat" where
  "faults_in io cs v = (if io_faulty (io v) then count_list (map fst cs) v else 0)"

lemma faults_in_Nil [simp]: "faults_in io [] v = 0"
  by (simp add: faults_in_def)

lemma faults_in_Cons: "faults_in io ((u, c) # cs) v = (if v = u \<and> io_faulty (io u) then 1 else 0) + faults_in io cs v"
  by (simp add: faults_in_def)

lemma alert_each_accounted:
  "accounted bound w \<Longrightarrow> accounted (\<lambda>v. bound v + faults_in io cs v) (snd (alert_each io cs w))"
proof (induction cs arbitrary: w bound)
  case (Cons c cs)
  obtain v rs st obs where c: "c = (v, rs, st, obs)" by (cases c)
  have "accounted (\<lambda>u. bound u + faults_in io (c # cs) u) (snd (alert_each io cs (snd (alert_transition v rs st obs (io v) w))))"
    using Cons.IH [OF alert_transition_accounted [OF Cons.prems]] by (simp add: c faults_in_Cons add.assoc)
  then show ?case unfolding c alert_each_Cons .
qed simp

lemma alert_each_grows: "set (delivered w) \<subseteq> set (delivered (snd (alert_each io cs w)))"
proof (induction cs arbitrary: w)
  case (Cons c cs)
  obtain v rs st obs where c: "c = (v, rs, st, obs)" by (cases c)
  show ?case unfolding c alert_each_Cons using alert_transition_grows Cons.IH by (rule subset_trans)
qed simp

lemma alert_each_attempts:
  "accounted bound w \<Longrightarrow> (v, rs, st, obs) \<in> set cs \<Longrightarrow> alerter_send (answers (io v)) \<Longrightarrow>
     (v, transition_key st rs (key_clock (io v)) obs) \<in> set (delivered (snd (alert_each io cs w)))"
proof (induction cs arbitrary: w bound)
  case (Cons c cs)
  obtain v1 rs1 st1 obs1 where c: "c = (v1, rs1, st1, obs1)" by (cases c)
  show ?case
  proof (cases "(v, rs, st, obs) = c")
    case True
    have "(v, transition_key st rs (key_clock (io v)) obs) \<in> set (delivered (snd (alert_transition v rs st obs (io v) w)))"
      by (rule alert_transition_attempts [OF Cons.prems(1,3)])
    then show ?thesis using True subsetD [OF alert_each_grows] unfolding c alert_each_Cons by simp
  next
    case False
    then have "(v, rs, st, obs) \<in> set cs" using Cons.prems(2) by simp
    then show ?thesis unfolding c alert_each_Cons
      by (rule Cons.IH [OF alert_transition_accounted [OF Cons.prems(1)] _ Cons.prems(3)])
  qed
qed simp

lemma candidates_once:
  "distinct (map wr_verstr runs) \<Longrightarrow> count_list (map fst (candidates env wanted within_sec now runs)) v \<le> 1"
proof -
  have sub: "count_list (map fst (candidates env wanted within_sec now runs)) v \<le> count_list (map wr_verstr runs) v"
    by (induction runs) (auto simp: candidates_def map_filter_simps Let_def le_SucI split: option.splits)
  moreover assume "distinct (map wr_verstr runs)"
  then have "count_list (map wr_verstr runs) v \<le> 1" by (induction runs) (auto simp: count_notin)
  ultimately show ?thesis by simp
qed

lemma accounted_mono: "accounted b w \<Longrightarrow> (\<And>v. b v \<le> c v) \<Longrightarrow> accounted c w"
  unfolding accounted_def by (meson add_le_mono1 order_trans)

lemma watch_accounted:
  assumes "accounted bound w" "distinct (map wr_verstr (snapshot r))"
  shows "accounted (\<lambda>v. bound v + faults v [r]) (snd (watch_app env wants within_sec (at_time r) (io_of r) (snapshot r) w))"
proof (cases "{Failed, Stuck} \<inter> wants = {}")
  case True
  then show ?thesis using accounted_mono [OF assms(1)] by (simp add: watch_app_def)
next
  case False
  let ?c = "candidates env ({Failed, Stuck} \<inter> wants) within_sec (at_time r) (snapshot r)"
  have "faults_in (io_of r) ?c v \<le> faults v [r]" for v
    using candidates_once [OF assms(2)] by (simp add: faults_in_def faults_def)
  then have "accounted (\<lambda>v. bound v + faults v [r]) (snd (alert_each (io_of r) ?c w))"
    by (intro accounted_mono [OF alert_each_accounted [OF assms(1)]]) simp
  then show ?thesis unfolding watch_app_def Let_def by (simp only: False if_False)
qed

lemma watches_accounted:
  "accounted bound w \<Longrightarrow> \<forall>r \<in> set rounds. distinct (map wr_verstr (snapshot r)) \<Longrightarrow>
     accounted (\<lambda>v. bound v + faults v rounds) (watches env wants within_sec rounds w)"
proof (induction rounds arbitrary: w bound)
  case (Cons r rounds)
  have "faults v (r # rounds) = faults v [r] + faults v rounds" for v by (simp add: faults_def)
  then show ?case using Cons.IH [OF watch_accounted [OF Cons.prems(1)]] Cons.prems(2) by (simp add: add.assoc)
qed (simp add: faults_def)

lemma watches_grow: "set (delivered w) \<subseteq> set (delivered (watches env wants within_sec rounds w))"
proof (induction rounds arbitrary: w)
  case (Cons r rounds)
  have "set (delivered w) \<subseteq> set (delivered (snd (watch_app env wants within_sec (at_time r) (io_of r) (snapshot r) w)))"
    by (simp add: watch_app_def Let_def alert_each_grows)
  then show ?case using Cons by simp (rule subset_trans)
qed simp

lemma watches_append: "watches env wants within_sec (as @ bs) w
    = watches env wants within_sec bs (watches env wants within_sec as w)"
  by (induction as arbitrary: w) simp_all

lemma candidates_wanted: "c \<in> set (candidates env wanted within_sec now runs) \<Longrightarrow> wanted \<noteq> {}"
  by (induction runs) (auto simp: candidates_def map_filter_simps Let_def split: option.splits if_splits)

text \<open>
  C40. Over any watches of an application made one after another by one watcher, starting without marks,
  whatever the sinks answered: a transition of a run is delivered at most once more than there were
  watches in which that run's marks could not be read or their save failed; with marks that load and
  save it is delivered at most once. And a transition a watch finds in its window, wanted and with a
  sink that takes the alert, has been delivered when the watches are over, faults or not. (A snapshot
  has one row per run. Two watchers at a time are outside the claim: they deliver twice.)
\<close>

theorem transitions_alerted_once:
  assumes "w0 = \<lparr>marks = [], delivered = []\<rparr>" "w = watches env wants within_sec (rs1 @ r # rs2) w0"
    and "\<forall>q \<in> set (rs1 @ r # rs2). distinct (map wr_verstr (snapshot q))"
  shows "(\<forall>v k. count_list (delivered w) (v, k) \<le> 1 + faults v (rs1 @ r # rs2))
    \<and> (\<forall>(v, st, status, obs) \<in> set (candidates env ({Failed, Stuck} \<inter> wants) within_sec (at_time r) (snapshot r)).
         alerter_send (answers (io_of r v)) \<longrightarrow> (v, transition_key status st (key_clock (io_of r v)) obs) \<in> set (delivered w))"
proof -
  have start: "accounted (\<lambda>v. 0) w0"
    using assms(1) by (simp add: accounted_def mark_keys_def load_sent_def deliveries_def)
  have "accounted (\<lambda>v. 0 + faults v (rs1 @ r # rs2)) w"
    unfolding assms(2) by (rule watches_accounted [OF start assms(3)])
  then have "deliveries w v k \<le> faults v (rs1 @ r # rs2) + (if k \<in> mark_keys w v then 1 else 0)" for v k
    unfolding accounted_def by simp
  moreover have "(if b then 1 else 0) \<le> (1::nat)" for b by simp
  ultimately have once: "count_list (delivered w) (v, k) \<le> 1 + faults v (rs1 @ r # rs2)" for v k
    unfolding deliveries_def by (metis add.commute add_left_mono order_trans)
  let ?c = "candidates env ({Failed, Stuck} \<inter> wants) within_sec (at_time r) (snapshot r)"
  let ?w1 = "watches env wants within_sec rs1 w0"
  let ?w2 = "snd (watch_app env wants within_sec (at_time r) (io_of r) (snapshot r) ?w1)"
  have w1: "accounted (\<lambda>v. 0 + faults v rs1) ?w1" using assms(3) by (intro watches_accounted [OF start]) simp
  have "(v, transition_key status st (key_clock (io_of r v)) obs) \<in> set (delivered w)"
    if c: "(v, st, status, obs) \<in> set ?c" "alerter_send (answers (io_of r v))" for v st status obs
  proof -
    have "(v, transition_key status st (key_clock (io_of r v)) obs) \<in> set (delivered ?w2)"
      using alert_each_attempts [where io = "io_of r", OF w1 c] candidates_wanted [OF c(1)]
      unfolding watch_app_def Let_def by (simp only: if_False)
    moreover have "w = watches env wants within_sec rs2 ?w2" unfolding assms(2) watches_append by simp
    ultimately show ?thesis using watches_grow by blast
  qed
  then show ?thesis using once by blast
qed

definition failed_state :: run_state where
  "failed_state = \<lparr>exit_code = Some 1, end_reason = None, state_name = Some ''finished'', heartbeat = None,
     started_at = Some (At 0), finished_at = Some (At 5), duration_sec = None, heartbeat_interval = None\<rparr>"

definition plain_io :: "bool list \<Rightarrow> save_answer \<Rightarrow> alert_io" where
  "plain_io ans saved = \<lparr>key_clock = 9, readable = True, answers = ans, mark_clock = 9, save_mark = saved\<rparr>"

definition failed_round :: "bool \<Rightarrow> save_answer \<Rightarrow> watch_round" where
  "failed_round taken saved = \<lparr>at_time = 9, io_of = (\<lambda>v. plain_io [False, taken] saved),
     snapshot = [\<lparr>wr_verstr = ''r'', wr_state = Some failed_state, wr_observed = None\<rparr>]\<rparr>"

theorem transitions_alerted_once_witness:
  "let w = watches None {Failed} 60 ([failed_round False Save_Done] @ failed_round True Save_Refused # [failed_round True Save_Done])
       \<lparr>marks = [], delivered = []\<rparr>
   in (''r'', Failed_At (Some (At 5))) \<in> set (delivered w) \<and> count_list (delivered w) (''r'', Failed_At (Some (At 5))) \<le> 2"
proof -
  have c: "candidates None ({Failed, Stuck} \<inter> {Failed}) 60 9 (snapshot (failed_round True Save_Refused)) = [(''r'', failed_state, Failed, None)]"
    by (simp add: candidates_def failed_round_def failed_state_def derive_status_def transition_time_def parse_iso_def
        map_filter_simps seconds_def)
  have "faults ''r'' ([failed_round False Save_Done] @ failed_round True Save_Refused # [failed_round True Save_Done]) = 1"
    by (simp add: faults_def io_faulty_def failed_round_def plain_io_def)
  moreover have "\<forall>q \<in> set ([failed_round False Save_Done] @ failed_round True Save_Refused # [failed_round True Save_Done]).
      distinct (map wr_verstr (snapshot q))"
    by (simp add: failed_round_def)
  moreover have "at_time (failed_round True Save_Refused) = 9" "alerter_send (answers (io_of (failed_round True Save_Refused) ''r''))"
    "transition_key Failed failed_state t None = Failed_At (Some (At 5))" for t
    by (simp_all add: failed_round_def plain_io_def alerter_send_def transition_key_def failed_state_def)
  ultimately show ?thesis
    using transitions_alerted_once [OF refl refl, of "[failed_round False Save_Done]" "failed_round True Save_Refused"
        "[failed_round True Save_Done]" None "{Failed}" 60] c
    unfolding Let_def by (metis (no_types, lifting) case_prod_conv list.set_intros(1) one_add_one)
qed

text \<open>
  The faults do repeat an alert: a mark that could not be saved, and marks that could not be read once and
  are then overwritten. Two watchers that both read the marks before either writes do so without any fault.
\<close>

lemma refused_mark_alerts_twice:
  "delivered (watches None {Failed} 60 [failed_round True Save_Refused, failed_round True Save_Done] \<lparr>marks = [], delivered = []\<rparr>)
     = [(''r'', Failed_At (Some (At 5))), (''r'', Failed_At (Some (At 5)))]"
  by (simp add: watch_app_def candidates_def failed_round_def failed_state_def derive_status_def transition_time_def parse_iso_def
        map_filter_simps seconds_def plain_io_def alert_transition_def mark_sent_def load_sent_def alerter_send_def transition_key_def Let_def)

definition racing_alerts :: "string \<Rightarrow> run_state \<Rightarrow> run_status \<Rightarrow> instant option \<Rightarrow> alert_world \<Rightarrow> alert_world" where
  \<comment> \<open>the second one's delivery and write on what it had read\<close>
  "racing_alerts v rs status obs w =
     (let w1 = snd (alert_transition v rs status obs (plain_io [True] Save_Done) w);
          own = snd (alert_transition v rs status obs (plain_io [True] Save_Done) w)
      in w1\<lparr>marks := marks own, delivered := delivered w1 @ drop (length (delivered w)) (delivered own)\<rparr>)"

lemma racing_watchers_alert_twice:
  "delivered (racing_alerts ''r'' failed_state Failed None \<lparr>marks = [], delivered = []\<rparr>)
     = [(''r'', Failed_At (Some (At 5))), (''r'', Failed_At (Some (At 5)))]"
  by (simp add: racing_alerts_def alert_transition_def mark_sent_def plain_io_def Let_def load_sent_def alerter_send_def
      transition_key_def failed_state_def)

end
