(* ===== verification/Log_Objects.thy ===== *)
theory Log_Objects
imports Log_Files
begin

text \<open>
  A stream's log in an object store: core/streams.py (whose stream it is), storage/s3_logs.py (its
  objects listed, a segment created unless it exists, its segments merged into one object) and
  core/log_compact.py. A stream's objects are held against the pieces its owner shipped: whatever
  request fails, is repeated or is never answered, the visible objects are those pieces, once each.
\<close>

section \<open>Streams\<close>

definition STREAM_SEP :: char where "STREAM_SEP = CHR ''~''"

definition stream_key :: "string \<Rightarrow> string \<Rightarrow> string" where
  "stream_key writer owner = writer @ STREAM_SEP # owner"

definition display_writer :: "string \<Rightarrow> string" where
  "display_writer stream = fst (partition_char STREAM_SEP stream)"

definition owner_of :: "string \<Rightarrow> string" where
  "owner_of stream = snd (snd (partition_char STREAM_SEP stream))"

definition owned_by :: "string list \<Rightarrow> string \<Rightarrow> bool" where
  "owned_by owners stream = (owner_of stream = [] \<or> owner_of stream \<in> set owners)"

definition clean_writer_id :: "string \<Rightarrow> string" where
  "clean_writer_id writer = replace_char STREAM_SEP (CHR ''-'') writer"

lemma clean_stream_parts:
  "display_writer (stream_key (clean_writer_id writer) owner) = clean_writer_id writer
   \<and> owner_of (stream_key (clean_writer_id writer) owner) = owner"
proof -
  have "STREAM_SEP \<notin> set (clean_writer_id writer)" by (simp add: clean_writer_id_def STREAM_SEP_def set_replace_char)
  then show ?thesis by (simp add: display_writer_def owner_of_def stream_key_def partition_char_at)
qed

section \<open>Objects of a record\<close>

type_synonym objects = "(string, string) odict"      \<comment> \<open>the log objects under the record's prefix, by name\<close>
type_synonym log_listing = "(string \<times> (string \<times> nat) list) list"

definition log_object_groups :: "objects \<Rightarrow> log_listing" where
  "log_object_groups store =
     map (\<lambda>(w, names). (w, map (\<lambda>n. (n, length (the (map_of store n)))) names)) (group_log_names (map fst store))"

definition objects_listed :: "log_listing \<Rightarrow> string \<Rightarrow> (string \<times> nat) list" where
  \<comment> \<open>\<open>groups.get(stream, [])\<close>\<close>
  "objects_listed groups stream = (case map_of groups stream of None \<Rightarrow> [] | Some objects \<Rightarrow> objects)"

definition log_objects :: "objects \<Rightarrow> string \<Rightarrow> (string \<times> nat) list" where
  "log_objects store stream = objects_listed (log_object_groups store) stream"

definition log_sizes_of :: "objects \<Rightarrow> (string \<times> nat) list" where
  "log_sizes_of store =
     map (\<lambda>(w, names). (w, sum_list (map (\<lambda>n. length (the (map_of store n))) names))) (group_log_names (map fst store))"

definition read_stream :: "objects \<Rightarrow> string \<Rightarrow> string" where
  \<comment> \<open>the bodies \<open>load_logs_by_writer\<close> fetches for one stream, in order\<close>
  "read_stream store stream = concat (map (\<lambda>(n, size). the (map_of store n)) (log_objects store stream))"

section \<open>Requests that may fail\<close>

datatype put_fault =
    Answered
  | Answer_repeated      \<comment> \<open>the answer was lost and the client's own retry found the object there\<close>
  | Lost_landed          \<comment> \<open>an error, or the process died; the upload had landed\<close>
  | Lost_dropped         \<comment> \<open>an error before anything was stored\<close>

datatype created = Created | Taken | Raised

definition create_object :: "put_fault \<Rightarrow> string \<Rightarrow> string \<Rightarrow> objects \<Rightarrow> objects \<times> created" where
  \<comment> \<open>\<open>_create\<close>: a put under \<open>If-None-Match: *\<close>\<close>
  "create_object f name data store =
     (if od_has store name
      then (store, (case f of Answered \<Rightarrow> Taken | Answer_repeated \<Rightarrow> Taken | Lost_landed \<Rightarrow> Raised | Lost_dropped \<Rightarrow> Raised))
      else (case f of
              Answered \<Rightarrow> (od_put name data store, Created)
            | Answer_repeated \<Rightarrow> (od_put name data store, Taken)
            | Lost_landed \<Rightarrow> (od_put name data store, Raised)
            | Lost_dropped \<Rightarrow> (store, Raised)))"

definition create_log_segment :: "put_fault \<Rightarrow> string \<Rightarrow> nat \<Rightarrow> string \<Rightarrow> objects \<Rightarrow> objects \<times> created" where
  "create_log_segment f stream seq data store = create_object f (log_object_name stream seq) data store"

section \<open>Compaction\<close>

record compact_fault =
  cf_read :: bool                       \<comment> \<open>every body could be read\<close>
  cf_put :: put_fault
  cf_deleted :: "string list option"    \<comment> \<open>None: all of them; else the only ones deleted before the failure\<close>

definition delete_objects :: "string list \<Rightarrow> objects \<Rightarrow> objects" where
  "delete_objects names store = filter (\<lambda>(n, d). n \<notin> set names) store"

definition compact_log_segments :: "compact_fault \<Rightarrow> string \<Rightarrow> objects \<Rightarrow> objects \<times> bool option" where
  \<comment> \<open>None: it raised\<close>
  "compact_log_segments f stream store =
     (let objects = log_objects store stream; names = map fst objects; bodies = map (map_of store) names
      in if length objects < 2 then (store, Some False)
         else if \<not> cf_read f then (store, None)
         else if None \<in> set bodies then (store, Some False)
         else (let last_seq = snd (log_writer_and_seq (last names))
               in case create_object (cf_put f) (compacted_log_name stream last_seq) (concat (map the bodies)) store of
                    (store', Taken) \<Rightarrow> (store', Some False)
                  | (store', Raised) \<Rightarrow> (store', None)
                  | (store', Created) \<Rightarrow>
                      (case cf_deleted f of
                         None \<Rightarrow> (delete_objects names store', Some True)
                       | Some ns \<Rightarrow> (delete_objects (filter (\<lambda>n. n \<in> set ns) names) store', None))))"

fun compact_all :: "(string \<Rightarrow> compact_fault) \<Rightarrow> string list \<Rightarrow> objects \<Rightarrow> objects \<times> string list option" where
  "compact_all f [] store = (store, Some [])"
| "compact_all f (stream # rest) store =
     (case compact_log_segments (f stream) stream store of
        (store', None) \<Rightarrow> (store', None)
      | (store', Some merged) \<Rightarrow>
          (case compact_all f rest store' of
             (store'', done_of) \<Rightarrow> (store'', map_option (\<lambda>ss. if merged then stream # ss else ss) done_of)))"

definition compact_record_logs :: "(string \<Rightarrow> compact_fault) \<Rightarrow> objects \<Rightarrow> objects \<times> string list option" where
  "compact_record_logs f store =
     (let groups = log_object_groups store
      in compact_all f (filter (\<lambda>s. 1 < length (objects_listed groups s)) (sort (map fst groups))) store)"

section \<open>A stream's own objects\<close>

definition own_name :: "string \<Rightarrow> string \<Rightarrow> bool" where
  "own_name stream name = (is_log_file name \<and> fst (writer_and_span name) = stream)"

definition own_objects :: "objects \<Rightarrow> string \<Rightarrow> objects" where
  "own_objects store stream = filter (\<lambda>(n, d). own_name stream n) store"

definition name_spans :: "string list \<Rightarrow> (span \<times> string) list" where
  "name_spans names = map (\<lambda>n. (snd (writer_and_span n), n)) names"

lemma group_step:
  "map_of (add_span u s groups) w = (if u = w then Some (case map_of groups w of None \<Rightarrow> [s] | Some ss \<Rightarrow> ss @ [s]) else map_of groups w)"
  by (simp add: add_span_def split: option.split)

lemma grouped_names:
  "map_of (fold (\<lambda>name groups. case writer_and_span name of (u, span) \<Rightarrow> add_span u (span, name) groups) names groups) w =
     (let mine = name_spans (filter (\<lambda>n. fst (writer_and_span n) = w) names)
      in if mine = [] then map_of groups w else Some ((case map_of groups w of None \<Rightarrow> [] | Some ss \<Rightarrow> ss) @ mine))"
proof (induction names arbitrary: groups)
  case Nil
  then show ?case by (simp add: name_spans_def)
next
  case (Cons name names)
  obtain u span where ws: "writer_and_span name = (u, span)" by (cases "writer_and_span name")
  have mine: "name_spans (filter (\<lambda>n. fst (writer_and_span n) = w) (name # names)) =
      (if u = w then [(span, name)] else []) @ name_spans (filter (\<lambda>n. fst (writer_and_span n) = w) names)"
    by (simp add: name_spans_def ws)
  show ?case
    unfolding fold_Cons o_apply Cons.IH ws prod.case group_step mine Let_def
    by (cases "u = w"; cases "map_of groups w") simp_all
qed

lemma map_of_apply: "map_of (map (\<lambda>(k, v). (k, g k v)) ps) w = map_option (g w) (map_of ps w)"
  by (induction ps) auto

lemma own_names_listed: "filter (\<lambda>n. fst (writer_and_span n) = w) (filter is_log_file (map fst store)) = map fst (own_objects store w)"
  unfolding own_objects_def own_name_def filter_map filter_filter o_def case_prod_unfold ..

lemma groups_at:
  "map_of (group_log_names (map fst store)) w =
     (if own_objects store w = [] then None else Some (map snd (visible_spans (name_spans (map fst (own_objects store w))))))"
  unfolding group_log_names_def map_of_apply grouped_names own_names_listed
  by (simp add: name_spans_def Let_def)

lemma no_visible_spans: "visible_spans [] = []"
  by (simp add: visible_spans_def)

lemma log_objects_own:
  "log_objects store w = map (\<lambda>n. (n, length (the (map_of store n)))) (map snd (visible_spans (name_spans (map fst (own_objects store w)))))"
  unfolding log_objects_def objects_listed_def log_object_groups_def map_of_apply groups_at
  by (simp add: name_spans_def no_visible_spans)

lemma visible_subset: "set (visible_spans spans) \<subseteq> set spans"
proof (cases "filter (\<lambda>s. fst (fst s) < snd (fst s)) spans")
  case Nil
  then show ?thesis by (simp add: visible_spans_def)
next
  case (Cons m ms)
  then show ?thesis by (auto simp: visible_spans_def Let_def)
qed

lemma own_visible: "s \<in> set (visible_spans (name_spans (map fst (own_objects store w)))) \<Longrightarrow>
    fst s = snd (writer_and_span (snd s)) \<and> snd s \<in> fst ` set (own_objects store w)"
proof -
  assume "s \<in> set (visible_spans (name_spans (map fst (own_objects store w))))"
  then have "s \<in> set (name_spans (map fst (own_objects store w)))" by (rule subsetD [OF visible_subset])
  then show ?thesis unfolding name_spans_def set_map by (elim imageE) simp
qed

lemma own_object_iff: "od_wf store \<Longrightarrow> (n, d) \<in> set (own_objects store w) \<longleftrightarrow> map_of store n = Some d \<and> own_name w n"
  by (auto simp: own_objects_def od_wf_def)

section \<open>What a request changes\<close>

lemma own_objects_put_other: "\<not> own_name w n \<Longrightarrow> own_objects (od_put n d store) w = own_objects store w"
  unfolding own_objects_def by (induction n d store rule: od_put.induct) auto

lemma own_objects_put_new: "n \<notin> fst ` set store \<Longrightarrow> own_name w n \<Longrightarrow> own_objects (od_put n d store) w = own_objects store w @ [(n, d)]"
  unfolding own_objects_def by (induction n d store rule: od_put.induct) auto

lemma own_objects_delete_other: "\<forall>n \<in> set names. \<not> own_name w n \<Longrightarrow> own_objects (delete_objects names store) w = own_objects store w"
  by (auto simp: own_objects_def delete_objects_def intro!: filter_cong)

lemma own_objects_delete: "own_objects (delete_objects names store) w = filter (\<lambda>(n, d). n \<notin> set names) (own_objects store w)"
  by (simp add: own_objects_def delete_objects_def conj_commute case_prod_unfold)

lemma od_wf_delete: "od_wf store \<Longrightarrow> od_wf (delete_objects names store)"
  by (simp add: od_wf_def delete_objects_def case_prod_unfold distinct_map_filter)

lemma map_of_delete: "map_of (delete_objects names store) n = (if n \<in> set names then None else map_of store n)"
  by (induction store) (auto simp: delete_objects_def)

lemma created_object:
  assumes "od_wf store" "create_object f n d store = (store', c)"
  shows "od_wf store'" "\<not> own_name w n \<Longrightarrow> own_objects store' w = own_objects store w"
    "store' = store \<or> n \<notin> fst ` set store \<and> store' = od_put n d store"
    "c = Created \<Longrightarrow> n \<notin> fst ` set store \<and> store' = od_put n d store"
  using assms by (auto simp: create_object_def od_has_def od_wf_put own_objects_put_other map_of_eq_None_iff split: if_splits put_fault.splits)

lemma own_names:
  assumes "plain_writer w"
  shows "own_name u (log_object_name w k) \<longleftrightarrow> u = w" "own_name u (compacted_log_name w k) \<longleftrightarrow> u = w"
  using span_of_object [OF assms] span_of_compacted [OF assms] names_are_log_files [OF assms] by (auto simp: own_name_def)

section \<open>Objects against the pieces shipped\<close>

definition piece_data :: "string list \<Rightarrow> span \<Rightarrow> string" where
  "piece_data ps s = concat (take (Suc (snd s) - fst s) (drop (fst s) ps))"

definition object_span :: "string \<Rightarrow> span \<Rightarrow> string \<Rightarrow> bool" where
  "object_span w s n = (fst s = snd s \<and> n = log_object_name w (snd s) \<or> fst s = 0 \<and> 0 < snd s \<and> n = compacted_log_name w (snd s))"

definition holds_pieces :: "string list \<Rightarrow> string \<Rightarrow> objects \<Rightarrow> bool" where
  \<comment> \<open>every object is what its name says, and no piece is missing\<close>
  "holds_pieces ps w own =
     ((\<forall>(n, d) \<in> set own. \<exists>s. object_span w s n \<and> snd s < length ps \<and> d = piece_data ps s)
      \<and> (\<forall>k < length ps. \<exists>n \<in> fst ` set own. covers (snd (writer_and_span n)) k))"

lemma held_piece:
  assumes "holds_pieces ps w own" "(n, d) \<in> set own"
  shows "\<exists>s. object_span w s n \<and> snd s < length ps \<and> d = piece_data ps s"
  using assms(1) bspec [OF _ assms(2), of "\<lambda>(n, d). \<exists>s. object_span w s n \<and> snd s < length ps \<and> d = piece_data ps s"]
  by (simp add: holds_pieces_def)

lemma span_of_own:
  assumes "plain_writer w" "object_span w s n"
  shows "snd (writer_and_span n) = s" "stored_span s" "fst s \<le> snd s" "own_name w n"
proof -
  show "snd (writer_and_span n) = s"
    using assms span_of_object [OF assms(1)] span_of_compacted [OF assms(1)] by (auto simp: object_span_def prod_eq_iff)
  show "stored_span s" "fst s \<le> snd s" using assms(2) by (auto simp: object_span_def stored_span_def)
  show "own_name w n" using assms(2) own_names [OF assms(1)] by (auto simp: object_span_def)
qed

lemma span_names_object: "object_span w s n \<Longrightarrow> object_span w s m \<Longrightarrow> n = m"
  by (auto simp: object_span_def)

lemma spans_tile:
  assumes "sorted_wrt (\<lambda>s t. snd s < fst t) ss" "\<forall>s \<in> set ss. fst s \<le> snd s \<and> m \<le> fst s \<and> snd s < length ps"
    "\<forall>k. m \<le> k \<and> k < length ps \<longrightarrow> (\<exists>s \<in> set ss. covers s k)"
  shows "concat (map (piece_data ps) ss) = concat (drop m ps)"
  using assms
proof (induction ss arbitrary: m)
  case Nil
  then have "length ps \<le> m" using not_le by auto
  then show ?case by simp
next
  case (Cons s ss)
  have s: "fst s \<le> snd s" "m \<le> fst s" "snd s < length ps" using Cons.prems(2) by auto
  have first_of: "fst s = m"
  proof (rule ccontr)
    assume "fst s \<noteq> m"
    then have "m < fst s" "m < length ps" using s by auto
    then have "\<exists>t \<in> set (s # ss). covers t m" using Cons.prems(3) by blast
    then obtain t where "t \<in> set (s # ss)" "covers t m" by (rule bexE)
    then show False using Cons.prems(1) s \<open>m < fst s\<close> by (auto simp: covers_def)
  qed
  have "concat (map (piece_data ps) ss) = concat (drop (Suc (snd s)) ps)"
  proof (rule Cons.IH)
    show "sorted_wrt (\<lambda>s t. snd s < fst t) ss" using Cons.prems(1) by simp
    show "\<forall>t \<in> set ss. fst t \<le> snd t \<and> Suc (snd s) \<le> fst t \<and> snd t < length ps"
      using Cons.prems(1,2) by auto
    show "\<forall>k. Suc (snd s) \<le> k \<and> k < length ps \<longrightarrow> (\<exists>t \<in> set ss. covers t k)"
    proof (intro allI impI)
      fix k assume k: "Suc (snd s) \<le> k \<and> k < length ps"
      then obtain t where "t \<in> set (s # ss)" "covers t k" using Cons.prems(3) s by (meson Suc_leD le_trans)
      then show "\<exists>t \<in> set ss. covers t k" using k by (auto simp: covers_def)
    qed
  qed
  moreover have "drop m ps = take (Suc (snd s) - m) (drop m ps) @ drop (Suc (snd s)) ps"
    using s first_of append_take_drop_id [of "Suc (snd s) - m" "drop m ps"] by (simp add: Suc_diff_le)
  then have "concat (drop m ps) = concat (take (Suc (snd s) - m) (drop m ps)) @ concat (drop (Suc (snd s)) ps)"
    by (metis concat_append)
  moreover have "piece_data ps s = concat (take (Suc (snd s) - m) (drop m ps))" by (simp add: piece_data_def first_of)
  ultimately show ?case by simp
qed

lemma spans_shown_once:
  assumes "\<forall>s \<in> set spans. stored_span (fst s)" "distinct (map fst spans)"
  shows "spans_once (visible_spans spans) spans"
proof (cases "filter (\<lambda>s. fst (fst s) < snd (fst s)) spans")
  case Nil
  then show ?thesis by (rule unmerged_spans_once [OF assms])
next
  case (Cons m ms)
  then show ?thesis by (rule merged_spans_once [OF assms])
qed

lemma own_spans_distinct:
  assumes "plain_writer w" "od_wf store" "holds_pieces ps w (own_objects store w)"
  shows "\<forall>s \<in> set (name_spans (map fst (own_objects store w))). stored_span (fst s)"
    "distinct (map fst (name_spans (map fst (own_objects store w))))"
proof -
  have named: "\<exists>s. object_span w s n" if "n \<in> fst ` set (own_objects store w)" for n
  proof -
    have "\<exists>d. (n, d) \<in> set (own_objects store w)" using that by force
    then show ?thesis using held_piece [OF assms(3)] by blast
  qed
  show "\<forall>s \<in> set (name_spans (map fst (own_objects store w))). stored_span (fst s)"
    using named span_of_own [OF assms(1)] by (fastforce simp: name_spans_def)
  have "inj_on (\<lambda>n. snd (writer_and_span n)) (fst ` set (own_objects store w))"
  proof (rule inj_onI)
    fix n m assume nm: "n \<in> fst ` set (own_objects store w)" "m \<in> fst ` set (own_objects store w)"
      "snd (writer_and_span n) = snd (writer_and_span m)"
    obtain s t where "object_span w s n" "object_span w t m" using named nm(1,2) by meson
    then show "n = m" using nm(3) span_of_own(1) [OF assms(1)] span_names_object by metis
  qed
  moreover have "distinct (map fst (own_objects store w))"
    using assms(2) by (simp add: od_wf_def own_objects_def case_prod_unfold distinct_map_filter)
  ultimately show "distinct (map fst (name_spans (map fst (own_objects store w))))"
    by (simp add: name_spans_def o_def distinct_map inj_on_def)
qed

definition shown_spans :: "objects \<Rightarrow> string \<Rightarrow> (span \<times> string) list" where
  "shown_spans store w = visible_spans (name_spans (map fst (own_objects store w)))"

lemma log_objects_shown: "log_objects store w = map (\<lambda>v. (snd v, length (the (map_of store (snd v))))) (shown_spans store w)"
  by (simp add: log_objects_own shown_spans_def)

lemma shown_once:
  assumes "plain_writer w" "od_wf store" "holds_pieces ps w (own_objects store w)"
  shows "spans_once (shown_spans store w) (name_spans (map fst (own_objects store w)))"
  unfolding shown_spans_def by (rule spans_shown_once [OF own_spans_distinct [OF assms]])

lemma shown_each:
  assumes "plain_writer w" "od_wf store" "holds_pieces ps w (own_objects store w)" "v \<in> set (shown_spans store w)"
  shows "map_of store (snd v) = Some (piece_data ps (fst v))" "object_span w (fst v) (snd v)" "snd (fst v) < length ps"
    "fst (fst v) \<le> snd (fst v)" "snd (writer_and_span (snd v)) = fst v"
proof -
  have v: "fst v = snd (writer_and_span (snd v))" "snd v \<in> fst ` set (own_objects store w)"
    using own_visible assms(4) unfolding shown_spans_def by blast+
  have "\<exists>d. (snd v, d) \<in> set (own_objects store w)" using v(2) by force
  then obtain d where d: "(snd v, d) \<in> set (own_objects store w)" by blast
  then obtain s where s: "object_span w s (snd v)" "snd s < length ps" "d = piece_data ps s"
    using held_piece [OF assms(3)] by blast
  then have "s = fst v" using span_of_own(1) [OF assms(1) s(1)] v(1) by simp
  then show "map_of store (snd v) = Some (piece_data ps (fst v))" "object_span w (fst v) (snd v)" "snd (fst v) < length ps"
    "fst (fst v) \<le> snd (fst v)" "snd (writer_and_span (snd v)) = fst v"
    using s d own_object_iff [OF assms(2)] span_of_own(3) [OF assms(1) s(1)] v(1) by simp_all
qed

lemma shown_covers:
  assumes "plain_writer w" "od_wf store" "holds_pieces ps w (own_objects store w)"
  shows "(\<exists>v \<in> set (shown_spans store w). covers (fst v) k) \<longleftrightarrow> k < length ps"
proof
  assume "\<exists>v \<in> set (shown_spans store w). covers (fst v) k"
  then obtain v where "v \<in> set (shown_spans store w)" "covers (fst v) k" by blast
  then show "k < length ps" using shown_each(3) [OF assms] by (fastforce simp: covers_def)
next
  assume "k < length ps"
  then have "\<exists>n \<in> fst ` set (own_objects store w). covers (snd (writer_and_span n)) k"
    using assms(3) by (simp only: holds_pieces_def)
  then have "\<exists>v \<in> set (name_spans (map fst (own_objects store w))). covers (fst v) k"
    unfolding name_spans_def by simp
  then show "\<exists>v \<in> set (shown_spans store w). covers (fst v) k" using shown_once [OF assms] unfolding spans_once_def by blast
qed

lemma visible_whole:
  assumes "plain_writer w" "od_wf store" "holds_pieces ps w (own_objects store w)"
  shows "read_stream store w = concat ps" "sum_list (map snd (log_objects store w)) = length (concat ps)"
proof -
  define vis where "vis = shown_spans store w"
  note each = shown_each [OF assms, folded vis_def]
  have "concat (map (piece_data ps) (map fst vis)) = concat (drop 0 ps)"
  proof (rule spans_tile)
    show "sorted_wrt (\<lambda>s t. snd s < fst t) (map fst vis)"
      using shown_once [OF assms] by (simp add: spans_once_def sorted_wrt_map vis_def)
    show "\<forall>s \<in> set (map fst vis). fst s \<le> snd s \<and> 0 \<le> fst s \<and> snd s < length ps" using each(3,4) by simp
    show "\<forall>k. 0 \<le> k \<and> k < length ps \<longrightarrow> (\<exists>s \<in> set (map fst vis). covers s k)"
      using shown_covers [OF assms] by (simp add: vis_def)
  qed
  moreover have "read_stream store w = concat (map (\<lambda>v. the (map_of store (snd v))) vis)"
    by (simp add: read_stream_def log_objects_shown o_def vis_def)
  moreover have "map (\<lambda>v. the (map_of store (snd v))) vis = map (piece_data ps) (map fst vis)" using each(1) by simp
  ultimately show "read_stream store w = concat ps" by simp
  moreover have "sum_list (map snd (log_objects store w)) = length (read_stream store w)"
    by (simp add: read_stream_def log_objects_shown o_def length_concat)
  ultimately show "sum_list (map snd (log_objects store w)) = length (concat ps)" by simp
qed

lemma shown_last:
  assumes "plain_writer w" "od_wf store" "holds_pieces ps w (own_objects store w)" "ps \<noteq> []"
  shows "shown_spans store w \<noteq> []" "snd (fst (last (shown_spans store w))) = length ps - 1"
proof -
  define vis where "vis = shown_spans store w"
  note each = shown_each [OF assms(1-3), folded vis_def]
  obtain u where u: "u \<in> set vis" "covers (fst u) (length ps - 1)"
    using shown_covers [OF assms(1-3), of "length ps - 1"] assms(4) by (auto simp: vis_def)
  then have nonempty: "vis \<noteq> []" by auto
  then have l: "last vis \<in> set vis" by simp
  have "sorted_wrt (\<lambda>s t. snd (fst s) < fst (fst t)) (butlast vis @ [last vis])"
    using shown_once [OF assms(1-3)] nonempty by (simp add: spans_once_def vis_def)
  then have before: "v \<in> set (butlast vis) \<Longrightarrow> snd (fst v) < fst (fst (last vis))" for v by (simp add: sorted_wrt_append)
  have "set vis = insert (last vis) (set (butlast vis))"
    using arg_cong [OF append_butlast_last_id [OF nonempty], of set] by simp
  then have "u = last vis \<or> u \<in> set (butlast vis)" using u(1) by simp
  then have "length ps - 1 \<le> snd (fst (last vis))" using before [of u] each(4) [OF l] u(2) by (auto simp: covers_def)
  then show "shown_spans store w \<noteq> []" "snd (fst (last (shown_spans store w))) = length ps - 1"
    using each(3) [OF l] nonempty by (simp_all add: vis_def)
qed

lemma visible_next_seq:
  assumes "plain_writer w" "od_wf store" "holds_pieces ps w (own_objects store w)"
  shows "next_seq (log_objects store w) = length ps"
proof -
  define vis where "vis = shown_spans store w"
  note each = shown_each [OF assms, folded vis_def]
  have seqs: "map (\<lambda>(name, size). snd (log_writer_and_seq name)) (log_objects store w) = map (\<lambda>v. snd (fst v)) vis"
    using each(5) by (simp add: log_objects_shown log_writer_and_seq_def case_prod_unfold vis_def)
  show ?thesis
  proof (cases "ps = []")
    case True
    then have "vis = []" using each(3) by (cases vis) auto
    then show ?thesis by (simp add: next_seq_def seqs True)
  next
    case False
    note l = shown_last [OF assms False, folded vis_def]
    have "Max (set (map (\<lambda>v. snd (fst v)) vis)) = length ps - 1"
    proof (rule Max_eqI)
      show "y \<le> length ps - 1" if "y \<in> set (map (\<lambda>v. snd (fst v)) vis)" for y
      proof -
        have "snd (fst v) \<le> length ps - 1" if "v \<in> set vis" for v using each(3) [OF that] by simp
        then show ?thesis using that unfolding set_map by blast
      qed
      show "length ps - 1 \<in> set (map (\<lambda>v. snd (fst v)) vis)" unfolding set_map
        using l by (intro image_eqI [of _ _ "last vis"]) simp_all
    qed simp
    then show ?thesis using l(1) False unfolding next_seq_def seqs by (cases vis) simp_all
  qed
qed

lemma visible_last:
  assumes "plain_writer w" "od_wf store" "holds_pieces ps w (own_objects store w)" "ps \<noteq> []"
  shows "snd (log_writer_and_seq (last (map fst (log_objects store w)))) = length ps - 1"
proof -
  note l = shown_last [OF assms]
  then have "last (map fst (log_objects store w)) = snd (last (shown_spans store w))"
    by (simp add: log_objects_shown last_map o_def)
  then show ?thesis using l shown_each(5) [OF assms(1-3) last_in_set [OF l(1)]]
    by (simp add: log_writer_and_seq_def case_prod_unfold)
qed

section \<open>What keeps the pieces\<close>

lemma pieces_extended: "snd s < length ps \<Longrightarrow> piece_data (ps @ qs) s = piece_data ps s"
  by (cases "fst s \<le> length ps") (simp_all add: piece_data_def Suc_diff_le)

lemma piece_data_last: "ps \<noteq> [] \<Longrightarrow> piece_data ps (0, length ps - 1) = concat ps" "piece_data (ps @ [p]) (length ps, length ps) = p"
  by (simp_all add: piece_data_def)

lemma fresh_segment:
  assumes "plain_writer w" "holds_pieces ps w own"
  shows "log_object_name w (length ps) \<notin> fst ` set own"
proof
  assume "log_object_name w (length ps) \<in> fst ` set own"
  then have "\<exists>d. (log_object_name w (length ps), d) \<in> set own" by force
  then obtain s where s: "object_span w s (log_object_name w (length ps))" "snd s < length ps"
    using held_piece [OF assms(2)] by blast
  have "s = (length ps, length ps)" using span_of_own(1) [OF assms(1) s(1)] span_of_object [OF assms(1)] by simp
  then show False using s(2) by simp
qed

lemma segment_put_pieces:
  assumes "plain_writer w" "holds_pieces ps w own"
  shows "holds_pieces (ps @ [p]) w (own @ [(log_object_name w (length ps), p)])"
proof -
  let ?n = "log_object_name w (length ps)"
  have "\<exists>s. object_span w s n \<and> snd s < length (ps @ [p]) \<and> d = piece_data (ps @ [p]) s"
    if nd: "(n, d) \<in> set (own @ [(?n, p)])" for n d
  proof (cases "(n, d) \<in> set own")
    case True
    then obtain s where "object_span w s n" "snd s < length ps" "d = piece_data ps s"
      using held_piece [OF assms(2)] by blast
    then show ?thesis by (intro exI [of _ s]) (simp add: pieces_extended)
  next
    case False
    then have "n = ?n" "d = p" using nd by auto
    then show ?thesis by (intro exI [of _ "(length ps, length ps)"]) (simp add: object_span_def piece_data_last)
  qed
  moreover have "\<exists>n \<in> fst ` set (own @ [(?n, p)]). covers (snd (writer_and_span n)) k" if k: "k < length (ps @ [p])" for k
  proof (cases "k < length ps")
    case True
    then have "\<exists>n \<in> fst ` set own. covers (snd (writer_and_span n)) k" using assms(2) by (simp only: holds_pieces_def)
    then show ?thesis by auto
  next
    case False
    then show ?thesis using k span_of_object [OF assms(1)] by (intro bexI [of _ ?n]) (auto simp: covers_def)
  qed
  ultimately show ?thesis unfolding holds_pieces_def by blast
qed

lemma merged_put_pieces:
  assumes "plain_writer w" "holds_pieces ps w own" "2 \<le> length ps"
  shows "holds_pieces ps w (own @ [(compacted_log_name w (length ps - 1), concat ps)])"
proof -
  let ?n = "compacted_log_name w (length ps - 1)"
  have "ps \<noteq> []" using assms(3) by auto
  then have "object_span w (0, length ps - 1) ?n" "concat ps = piece_data ps (0, length ps - 1)"
    using assms(3) piece_data_last(1) [of ps] by (auto simp: object_span_def simp del: split_paired_Ex)
  then have "\<exists>s. object_span w s n \<and> snd s < length ps \<and> d = piece_data ps s"
    if "(n, d) \<in> set (own @ [(?n, concat ps)])" for n d
    using that assms(3) held_piece [OF assms(2), of n d] by (cases "(n, d) \<in> set own") force+
  moreover have "\<exists>n \<in> fst ` set (own @ [(?n, concat ps)]). covers (snd (writer_and_span n)) k" if "k < length ps" for k
    using that span_of_compacted [OF assms(1)] by (intro bexI [of _ ?n]) (auto simp: covers_def)
  ultimately show ?thesis unfolding holds_pieces_def by blast
qed

lemma superseded_deleted:
  assumes "plain_writer w" "holds_pieces ps w own" "n \<in> fst ` set own" "n \<notin> set names" "snd (writer_and_span n) = (0, length ps - 1)"
  shows "holds_pieces ps w (filter (\<lambda>(m, d). m \<notin> set names) own)"
proof -
  have "n \<in> fst ` set (filter (\<lambda>(m, d). m \<notin> set names) own)" using assms(3,4) by force
  then have "\<exists>m \<in> fst ` set (filter (\<lambda>(m, d). m \<notin> set names) own). covers (snd (writer_and_span m)) k" if "k < length ps" for k
    using that assms(5) by (intro bexI [of _ n]) (auto simp: covers_def)
  moreover have "\<exists>s. object_span w s m \<and> snd s < length ps \<and> d = piece_data ps s"
    if "(m, d) \<in> set (filter (\<lambda>(m, d). m \<notin> set names) own)" for m d
    using that held_piece [OF assms(2)] by simp
  ultimately show ?thesis unfolding holds_pieces_def by blast
qed

lemma listed_own: "n \<in> set (map fst (log_objects store w)) \<Longrightarrow> own_name w n \<and> n \<in> fst ` set store"
proof -
  assume "n \<in> set (map fst (log_objects store w))"
  then have "n \<in> fst ` set (own_objects store w)"
    using own_visible unfolding log_objects_own set_map image_image by fastforce
  then show ?thesis by (auto simp: own_objects_def)
qed

lemma own_name_unique: "own_name u n \<Longrightarrow> own_name w n \<Longrightarrow> u = w"
  by (auto simp: own_name_def)

lemma two_objects_two_pieces:
  assumes "plain_writer w" "od_wf store" "holds_pieces ps w (own_objects store w)" "2 \<le> length (log_objects store w)"
  shows "2 \<le> length ps"
proof -
  have two: "1 < length (shown_spans store w)" using assms(4) by (simp add: log_objects_shown)
  then have "snd (fst (shown_spans store w ! 0)) < fst (fst (shown_spans store w ! 1))"
    using shown_once [OF assms(1-3)] by (simp add: spans_once_def sorted_wrt_iff_nth_less)
  moreover have "shown_spans store w ! 1 \<in> set (shown_spans store w)" using two by simp
  ultimately show ?thesis using shown_each(3,4) [OF assms(1-3), of "shown_spans store w ! 1"] by simp
qed

lemma merge_of_pieces:
  assumes "plain_writer w" "od_wf store" "holds_pieces ps w (own_objects store w)" "2 \<le> length (log_objects store w)"
  shows "None \<notin> set (map (map_of store) (map fst (log_objects store w)))"
    "concat (map the (map (map_of store) (map fst (log_objects store w)))) = concat ps"
    "compacted_log_name w (snd (log_writer_and_seq (last (map fst (log_objects store w))))) = compacted_log_name w (length ps - 1)"
proof -
  show "None \<notin> set (map (map_of store) (map fst (log_objects store w)))"
    using shown_each(1) [OF assms(1-3)] by (auto simp: log_objects_shown)
  show "concat (map the (map (map_of store) (map fst (log_objects store w)))) = concat ps"
    using visible_whole(1) [OF assms(1-3)] by (simp add: read_stream_def o_def case_prod_unfold)
  have "ps \<noteq> []" using two_objects_two_pieces [OF assms] by auto
  then show "compacted_log_name w (snd (log_writer_and_seq (last (map fst (log_objects store w))))) = compacted_log_name w (length ps - 1)"
    using visible_last [OF assms(1-3)] by simp
qed

lemma merged_keeps_pieces:
  assumes "plain_writer w" "od_wf store" "holds_pieces ps w (own_objects store w)" "2 \<le> length ps"
    and "create_object f (compacted_log_name w (length ps - 1)) (concat ps) store = (store', c)"
    and "set names \<subseteq> fst ` set store" "c \<noteq> Created \<Longrightarrow> names = []"
  shows "holds_pieces ps w (own_objects (delete_objects names store') w)"
proof (cases "store' = store")
  case True
  have "c \<noteq> Created"
  proof
    assume "c = Created"
    note put = created_object(4) [OF assms(2,5) this]
    then have "compacted_log_name w (length ps - 1) \<in> fst ` set store'" by (simp add: fst_od_put)
    then show False using put True by simp
  qed
  then have "names = []" by (rule assms(7))
  then show ?thesis using True assms(3) by (simp add: delete_objects_def case_prod_unfold)
next
  case False
  let ?n = "compacted_log_name w (length ps - 1)"
  have fresh: "?n \<notin> fst ` set store" and put: "store' = od_put ?n (concat ps) store"
    using created_object(3) [OF assms(2,5)] False by auto
  have own: "own_objects store' w = own_objects store w @ [(?n, concat ps)]"
    unfolding put by (rule own_objects_put_new [OF fresh]) (simp add: own_names [OF assms(1)])
  have "holds_pieces ps w (filter (\<lambda>(m, d). m \<notin> set names) (own_objects store' w))"
  proof (rule superseded_deleted [OF assms(1), of ps "own_objects store' w" ?n])
    show "holds_pieces ps w (own_objects store' w)" unfolding own by (rule merged_put_pieces [OF assms(1,3,4)])
    show "?n \<in> fst ` set (own_objects store' w)" by (simp add: own)
    show "?n \<notin> set names" using fresh assms(6) by blast
    show "snd (writer_and_span ?n) = (0, length ps - 1)" by (simp add: span_of_compacted [OF assms(1)])
  qed
  then show ?thesis by (simp add: own_objects_delete)
qed

lemma delete_nothing: "delete_objects [] store = store"
  by (simp add: delete_objects_def case_prod_unfold)

text \<open>Whatever a compaction does, it is one create and some deletes of what it lists.\<close>

lemma compaction_cases:
  assumes "compact_log_segments f u store = (store', r)"
  obtains "store' = store"
  | names c store1 where "2 \<le> length (log_objects store u)"
      "create_object (cf_put f) (compacted_log_name u (snd (log_writer_and_seq (last (map fst (log_objects store u))))))
         (concat (map the (map (map_of store) (map fst (log_objects store u))))) store = (store1, c)"
      "set names \<subseteq> set (map fst (log_objects store u))" "c \<noteq> Created \<Longrightarrow> names = []" "store' = delete_objects names store1"
proof -
  let ?objects = "log_objects store u"
  obtain store1 c where create: "create_object (cf_put f) (compacted_log_name u (snd (log_writer_and_seq (last (map fst ?objects)))))
      (concat (map the (map (map_of store) (map fst ?objects)))) store = (store1, c)" by (meson surj_pair)
  note r = assms [unfolded compact_log_segments_def Let_def create prod.case]
  show thesis
  proof (cases "length ?objects < 2 \<or> \<not> cf_read f \<or> None \<in> set (map (map_of store) (map fst ?objects))")
    case True
    then have "store' = store" using r by (auto split: if_splits)
    then show thesis by (rule that(1))
  next
    case False
    then have two: "2 \<le> length ?objects" by simp
    have r': "(case c of Created \<Rightarrow> (case cf_deleted f of None \<Rightarrow> (delete_objects (map fst ?objects) store1, Some True)
        | Some ns \<Rightarrow> (delete_objects (filter (\<lambda>n. n \<in> set ns) (map fst ?objects)) store1, None))
        | Taken \<Rightarrow> (store1, Some False) | Raised \<Rightarrow> (store1, None)) = (store', r)"
      using r False by simp
    show thesis
    proof (cases "c = Created")
      case True
      then show thesis
        using r' that(2) [OF two create, of "map fst ?objects"] that(2) [OF two create, of "filter (\<lambda>n. n \<in> set (the (cf_deleted f))) (map fst ?objects)"]
        by (cases "cf_deleted f") auto
    next
      case no: False
      then have "store' = store1" using r' by (cases c) auto
      then show thesis using that(2) [OF two create, of "[]"] by (simp add: delete_nothing)
    qed
  qed
qed

lemma compact_keeps:
  assumes "plain_writer u" "od_wf store" "compact_log_segments f u store = (store', r)"
  shows "od_wf store'" "w \<noteq> u \<Longrightarrow> own_objects store' w = own_objects store w"
    "holds_pieces ps u (own_objects store u) \<Longrightarrow> holds_pieces ps u (own_objects store' u)"
proof -
  show "od_wf store'"
    using assms(2,3) by (elim compaction_cases) (auto dest!: created_object(1) [rotated] simp: od_wf_delete)
  show "own_objects store' w = own_objects store w" if "w \<noteq> u"
    using assms(3)
  proof (rule compaction_cases)
    fix names c store1
    assume c: "create_object (cf_put f) (compacted_log_name u (snd (log_writer_and_seq (last (map fst (log_objects store u))))))
         (concat (map the (map (map_of store) (map fst (log_objects store u))))) store = (store1, c)"
      "set names \<subseteq> set (map fst (log_objects store u))" "store' = delete_objects names store1"
    have "own_objects store1 w = own_objects store w"
      using created_object(2) [OF assms(2) c(1)] own_names(2) [OF assms(1)] that by simp
    moreover have "\<forall>n \<in> set names. \<not> own_name w n" using listed_own own_name_unique that c(2) by blast
    ultimately show ?thesis by (simp add: c(3) own_objects_delete_other)
  qed simp
  show "holds_pieces ps u (own_objects store' u)" if held: "holds_pieces ps u (own_objects store u)"
    using assms(3)
  proof (rule compaction_cases)
    fix names c store1
    assume two: "2 \<le> length (log_objects store u)"
      and c: "create_object (cf_put f) (compacted_log_name u (snd (log_writer_and_seq (last (map fst (log_objects store u))))))
         (concat (map the (map (map_of store) (map fst (log_objects store u))))) store = (store1, c)"
      "set names \<subseteq> set (map fst (log_objects store u))" "c \<noteq> Created \<Longrightarrow> names = []" "store' = delete_objects names store1"
    note merge = merge_of_pieces [OF assms(1,2) held two]
    show ?thesis unfolding c(4)
    proof (rule merged_keeps_pieces [OF assms(1,2) held two_objects_two_pieces [OF assms(1,2) held two]])
      show "create_object (cf_put f) (compacted_log_name u (length ps - 1)) (concat ps) store = (store1, c)"
        using c(1) unfolding merge(2,3) .
      show "set names \<subseteq> fst ` set store" using c(2) listed_own by blast
      show "c \<noteq> Created \<Longrightarrow> names = []" by (rule c(3))
    qed
  qed (simp add: held)
qed

section \<open>A record's streams\<close>

lemma partition_head: "fst (partition_char c s) = takeWhile (\<lambda>x. x \<noteq> c) s"
proof (cases "dropWhile (\<lambda>x. x \<noteq> c) s")
  case Nil
  have "takeWhile (\<lambda>x. x \<noteq> c) s @ dropWhile (\<lambda>x. x \<noteq> c) s = s" by (rule takeWhile_dropWhile_id)
  then have "takeWhile (\<lambda>x. x \<noteq> c) s = s" unfolding Nil by simp
  then show ?thesis unfolding partition_char_def Let_def Nil list.case fst_conv by (rule sym)
next
  case (Cons x r)
  show ?thesis unfolding partition_char_def Cons by simp
qed

lemma writer_plain: "is_log_file name \<Longrightarrow> plain_writer (fst (writer_and_span name))"
proof -
  assume f: "is_log_file name"
  define stem where "stem = take (length name - length LOG_PREFIX - length LOG_SUFFIX) (drop (length LOG_PREFIX) name)"
  have "fst (writer_and_span name) = takeWhile (\<lambda>x. x \<noteq> CHR ''@'') stem"
    by (simp add: writer_and_span_def Let_def case_prod_unfold stem_def partition_head)
  moreover have "set (takeWhile (\<lambda>x. x \<noteq> CHR ''@'') stem) \<subseteq> set (drop (length LOG_PREFIX) name)"
    using set_takeWhileD in_set_takeD unfolding stem_def by fastforce
  moreover have "CHR ''@'' \<notin> set (takeWhile (\<lambda>x. x \<noteq> CHR ''@'') stem)" by (auto dest: set_takeWhileD)
  ultimately show ?thesis using f by (auto simp: plain_writer_def is_log_file_def)
qed

lemma own_name_plain: "own_name w n \<Longrightarrow> plain_writer w"
  using writer_plain by (auto simp: own_name_def)

lemma group_plain: "u \<in> fst ` set (log_object_groups store) \<Longrightarrow> plain_writer u"
proof -
  assume "u \<in> fst ` set (log_object_groups store)"
  then have "map_of (log_object_groups store) u \<noteq> None" by (simp add: map_of_eq_None_iff)
  then have "own_objects store u \<noteq> []" unfolding log_object_groups_def map_of_apply groups_at by auto
  then have "\<exists>n. own_name u n" unfolding own_objects_def filter_empty_conv by fastforce
  then show ?thesis using own_name_plain by blast
qed

lemma compact_all_keeps:
  assumes "\<forall>u \<in> set streams. plain_writer u" "od_wf store"
  shows "od_wf (fst (compact_all f streams store))"
    "holds_pieces ps w (own_objects store w) \<Longrightarrow> holds_pieces ps w (own_objects (fst (compact_all f streams store)) w)"
proof -
  have "od_wf (fst (compact_all f streams store))
      \<and> (holds_pieces ps w (own_objects store w) \<longrightarrow> holds_pieces ps w (own_objects (fst (compact_all f streams store)) w))"
    using assms
  proof (induction streams arbitrary: store)
    case (Cons u rest)
    obtain store1 r where one: "compact_log_segments (f u) u store = (store1, r)" by (meson surj_pair)
    have u: "plain_writer u" using Cons.prems(1) by simp
    have "holds_pieces ps w (own_objects store w) \<longrightarrow> holds_pieces ps w (own_objects store1 w)"
      using compact_keeps(2,3) [OF u Cons.prems(2) one] by (cases "w = u") auto
    moreover have "od_wf store1" by (rule compact_keeps(1) [OF u Cons.prems(2) one])
    ultimately show ?case using Cons.IH [of store1] Cons.prems(1)
      by (auto simp: one case_prod_unfold split: option.split)
  qed simp
  then show "od_wf (fst (compact_all f streams store))"
    "holds_pieces ps w (own_objects store w) \<Longrightarrow> holds_pieces ps w (own_objects (fst (compact_all f streams store)) w)" by blast+
qed

lemma compact_record_keeps:
  assumes "od_wf store"
  shows "od_wf (fst (compact_record_logs f store))"
    "holds_pieces ps w (own_objects store w) \<Longrightarrow> holds_pieces ps w (own_objects (fst (compact_record_logs f store)) w)"
  unfolding compact_record_logs_def Let_def
  by (rule compact_all_keeps [OF _ assms], auto intro: group_plain)+

end
