(* ===== verification/Log_Ship.thy ===== *)
theory Log_Ship
imports Log_Objects
begin

text \<open>
  Shipping a record copy's logs to a remote: storage/cached_logs.py with the ship state of
  storage/ship_state.py, and core/push_logs.py. Only a stream's owner appends to its local file and
  ships it. Whatever uploads fail, land without an answer or are repeated, whatever compactions stop
  halfway and whatever state is forgotten, the remote copy stays a prefix of the local file made of
  whole lines, and a sync that returns has shipped every line that was complete when it began. A push
  that ships behind the back of the ship state breaks this.
\<close>

section \<open>A record copy and its remote\<close>

definition LINE_END :: char where "LINE_END = CHR 0x0A"

definition whole_lines :: "string \<Rightarrow> string" where
  \<comment> \<open>\<open>data[: data.rfind(b"\n") + 1]\<close>\<close>
  "whole_lines data = rev (dropWhile (\<lambda>c. c \<noteq> LINE_END) (rev data))"

record shipping =
  sp_logs :: "(string, string) odict"             \<comment> \<open>the copy's local log files, by stream\<close>
  sp_remote :: objects
  sp_state :: "(string, nat \<times> nat) odict"         \<comment> \<open>\<open>.ship/log.json\<close>: stream, (bytes, next seq)\<close>
  sp_compacted :: "string list"                   \<comment> \<open>of this process\<close>

definition local_log :: "shipping \<Rightarrow> string \<Rightarrow> string" where
  "local_log wd stream = (case map_of (sp_logs wd) stream of None \<Rightarrow> [] | Some data \<Rightarrow> data)"

definition append_local :: "string \<Rightarrow> string \<Rightarrow> shipping \<Rightarrow> shipping" where
  "append_local stream data wd =
     (if data = [] then wd else wd\<lparr>sp_logs := od_put stream (local_log wd stream @ data) (sp_logs wd)\<rparr>)"

definition state_get :: "shipping \<Rightarrow> string \<Rightarrow> (nat \<times> nat) option" where
  "state_get wd stream = map_of (sp_state wd) stream"

definition state_put :: "string \<Rightarrow> nat \<times> nat \<Rightarrow> shipping \<Rightarrow> shipping" where
  "state_put stream held wd = wd\<lparr>sp_state := od_put stream held (sp_state wd)\<rparr>"

definition state_forget :: "string \<Rightarrow> shipping \<Rightarrow> shipping" where
  "state_forget stream wd = wd\<lparr>sp_state := od_del stream (sp_state wd)\<rparr>"

definition forget_streams :: "(string \<Rightarrow> bool) \<Rightarrow> shipping \<Rightarrow> shipping" where
  "forget_streams which wd = wd\<lparr>sp_state := filter (\<lambda>(s, v). \<not> which s) (sp_state wd)\<rparr>"

datatype source = LOCAL | REMOTE

definition log_source :: "(string \<times> nat) list \<Rightarrow> (string \<times> nat) list \<Rightarrow> string \<Rightarrow> source" where
  "log_source remote_sizes local_sizes writer =
     (case map_of local_sizes writer of
        None \<Rightarrow> REMOTE
      | Some sz \<Rightarrow>
          (if (case map_of remote_sizes writer of None \<Rightarrow> 0 | Some n \<Rightarrow> n) \<le> sz then LOCAL else REMOTE))"

definition pick_log_sources :: "(string \<times> nat) list \<Rightarrow> (string \<times> nat) list \<Rightarrow> (string \<times> source) list" where
  "pick_log_sources remote_sizes local_sizes =
     map (\<lambda>w. (w, log_source remote_sizes local_sizes w)) (remdups (map fst remote_sizes @ map fst local_sizes))"

section \<open>Shipping a stream\<close>

definition SHIP_ATTEMPTS :: nat where "SHIP_ATTEMPTS = 5"

definition LIVE_ROLLUP_SEGMENTS :: nat where "LIVE_ROLLUP_SEGMENTS = 64"

definition LIVE_ROLLUP_MAX_BYTES :: nat where "LIVE_ROLLUP_MAX_BYTES = 8 * 1024 * 1024"

definition state_of :: "(string \<times> nat) list \<Rightarrow> nat \<times> nat" where
  "state_of objects = (sum_list (map snd objects), next_seq objects)"

definition groups_now :: "shipping \<Rightarrow> log_listing option \<Rightarrow> log_listing" where
  \<comment> \<open>\<open>_Listing.objects\<close>: taken when first needed\<close>
  "groups_now wd taken = (case taken of None \<Rightarrow> log_object_groups (sp_remote wd) | Some groups \<Rightarrow> groups)"

definition held_of :: "shipping \<Rightarrow> log_listing option \<Rightarrow> string \<Rightarrow> (nat \<times> nat) \<times> log_listing option" where
  \<comment> \<open>\<open>state.get(stream) or _state_of(listing.objects(stream))\<close>\<close>
  "held_of wd taken stream =
     (case state_get wd stream of
        Some held \<Rightarrow> (held, taken)
      | None \<Rightarrow> (state_of (objects_listed (groups_now wd taken) stream), Some (groups_now wd taken)))"

datatype shipped = Up_to_date | Shipped nat nat | Ship_failed | Could_not_ship

text \<open>
  What happens at each attempt is given: the bytes another process of the copy appended before the
  file is read, and how the upload goes.
\<close>

fun ship_stream :: "nat \<Rightarrow> (nat \<Rightarrow> string \<times> put_fault) \<Rightarrow> string \<Rightarrow> nat \<Rightarrow> log_listing option \<Rightarrow> shipping
    \<Rightarrow> shipped \<times> log_listing option \<times> shipping" where
  "ship_stream 0 happens stream sz taken wd = (Could_not_ship, taken, wd)"
| "ship_stream (Suc n) happens stream sz taken wd0 =
     (let wd = append_local stream (fst (happens n)) wd0
      in case held_of wd taken stream of (held, taken') \<Rightarrow>
        (let chunk = whole_lines (drop (fst held) (local_log wd stream))
         in if sz \<le> fst held \<or> chunk = [] then (Up_to_date, taken', state_put stream held wd)
            else (case create_log_segment (snd (happens n)) stream (snd held) chunk (sp_remote wd) of
                    (store, Created) \<Rightarrow>
                      (Shipped (snd held) (fst held + length chunk), taken',
                       state_put stream (fst held + length chunk, snd held + 1) ((state_forget stream wd)\<lparr>sp_remote := store\<rparr>))
                  | (store, Taken) \<Rightarrow> ship_stream n happens stream sz None ((state_forget stream wd)\<lparr>sp_remote := store\<rparr>)
                  | (store, Raised) \<Rightarrow> (Ship_failed, taken', (state_forget stream wd)\<lparr>sp_remote := store\<rparr>))))"

definition live_rollup_due :: "nat \<Rightarrow> nat \<Rightarrow> nat \<Rightarrow> nat \<Rightarrow> bool \<Rightarrow> bool \<Rightarrow> bool" where
  "live_rollup_due seq shipped_bytes every max_bytes final_flush finalizing =
     (0 < seq \<and> seq mod every = 0 \<and> shipped_bytes \<le> max_bytes \<and> \<not> final_flush \<and> \<not> finalizing)"

definition compact_stream :: "compact_fault \<Rightarrow> string \<Rightarrow> shipping \<Rightarrow> bool \<times> shipping" where
  "compact_stream f stream wd =
     (case compact_log_segments f stream (sp_remote wd) of (store, r) \<Rightarrow> (r \<noteq> None, wd\<lparr>sp_remote := store\<rparr>))"

definition compact_once :: "compact_fault \<Rightarrow> string \<Rightarrow> shipping \<Rightarrow> shipping" where
  "compact_once f stream wd =
     (if stream \<in> set (sp_compacted wd) then wd
      else (case compact_stream f stream wd of
              (ok, wd') \<Rightarrow> (if ok then wd'\<lparr>sp_compacted := stream # sp_compacted wd'\<rparr> else wd')))"

section \<open>A sync\<close>

record sync_run =
  sy_happens :: "string \<Rightarrow> nat \<Rightarrow> string \<times> put_fault"
  sy_compact :: "string \<Rightarrow> compact_fault"
  sy_finished :: bool           \<comment> \<open>the run has finished\<close>
  sy_final_flush :: bool
  sy_finalizing :: bool

definition after_ship :: "sync_run \<Rightarrow> string \<Rightarrow> shipped \<Rightarrow> shipping \<Rightarrow> shipping" where
  "after_ship sy stream outcome wd =
     (if sy_finished sy then compact_once (sy_compact sy stream) stream wd
      else (case outcome of
              Shipped seq bytes \<Rightarrow>
                (if live_rollup_due seq bytes LIVE_ROLLUP_SEGMENTS LIVE_ROLLUP_MAX_BYTES (sy_final_flush sy) (sy_finalizing sy)
                 then snd (compact_stream (sy_compact sy stream) stream wd) else wd)
            | _ \<Rightarrow> wd))"

fun sync_streams :: "sync_run \<Rightarrow> (string \<times> nat) list \<Rightarrow> log_listing option \<Rightarrow> shipping \<Rightarrow> bool \<times> shipping" where
  \<comment> \<open>False: it raised\<close>
  "sync_streams sy [] taken wd = (True, wd)"
| "sync_streams sy ((stream, sz) # rest) taken wd =
     (case ship_stream SHIP_ATTEMPTS (sy_happens sy stream) stream sz taken wd of
        (outcome, taken', wd') \<Rightarrow>
          (if outcome \<in> {Ship_failed, Could_not_ship} then (False, wd')
           else sync_streams sy rest taken' (after_ship sy stream outcome wd')))"

definition own_sizes :: "string list \<Rightarrow> shipping \<Rightarrow> (string \<times> nat) list" where
  "own_sizes owners wd =
     sort (map (\<lambda>(s, data). (s, length data)) (filter (\<lambda>(s, data). owned_by owners s) (sp_logs wd)))"

definition sync_log_to_remote :: "sync_run \<Rightarrow> bool \<Rightarrow> string list \<Rightarrow> shipping \<Rightarrow> bool \<times> shipping" where
  "sync_log_to_remote sy has_remote owners wd =
     (if \<not> has_remote then (True, wd)
      else if own_sizes owners wd = [] then (True, wd)
      else sync_streams sy (own_sizes owners wd) None wd)"

section \<open>A push\<close>

record push_fault =
  pf_read :: bool                \<comment> \<open>every body could be read\<close>
  pf_put :: put_fault
  pf_compact :: compact_fault

datatype pushed = Pushed nat | Prefix_mismatch | Changed_while_pushing | Push_failed

definition push_stream :: "push_fault \<Rightarrow> nat option \<Rightarrow> bool \<Rightarrow> string \<Rightarrow> shipping \<Rightarrow> pushed \<times> shipping" where
  "push_stream f ledger finished stream wd =
     (let objects = log_objects (sp_remote wd) stream;
          remote_size = sum_list (map snd objects);
          to_verify = (remote_size \<noteq> 0 \<and> ledger \<noteq> Some remote_size);
          remote_bytes = concat (map (\<lambda>(n, sz). case map_of (sp_remote wd) n of None \<Rightarrow> [] | Some d \<Rightarrow> d) objects);
          chunk = whole_lines (drop remote_size (local_log wd stream))
      in if to_verify \<and> \<not> pf_read f then (Push_failed, wd)
         else if to_verify \<and> (length remote_bytes \<noteq> remote_size \<or> remote_bytes \<noteq> take remote_size (local_log wd stream))
         then (Prefix_mismatch, wd)
         else (case (if chunk = [] then (sp_remote wd, Created)
                     else create_log_segment (pf_put f) stream (next_seq objects) chunk (sp_remote wd)) of
                 (store, Taken) \<Rightarrow> (Changed_while_pushing, wd\<lparr>sp_remote := store\<rparr>)
               | (store, Raised) \<Rightarrow> (Push_failed, wd\<lparr>sp_remote := store\<rparr>)
               | (store, Created) \<Rightarrow>
                   (if finished \<and> 1 < length objects + (if chunk = [] then 0 else 1)
                    then (case compact_log_segments (pf_compact f) stream store of
                            (store', None) \<Rightarrow> (Push_failed, wd\<lparr>sp_remote := store'\<rparr>)
                          | (store', Some merged) \<Rightarrow> (Pushed (remote_size + length chunk), wd\<lparr>sp_remote := store'\<rparr>))
                    else (Pushed (remote_size + length chunk), wd\<lparr>sp_remote := store\<rparr>))))"

fun push_streams :: "(string \<Rightarrow> push_fault) \<Rightarrow> (string \<times> nat) list \<Rightarrow> bool \<Rightarrow> string list \<Rightarrow> shipping
    \<Rightarrow> (string \<times> nat) list option \<times> shipping" where
  "push_streams f ledger finished [] wd = (Some [], wd)"
| "push_streams f ledger finished (stream # rest) wd =
     (case push_stream (f stream) (map_of ledger stream) finished stream wd of
        (Pushed n, wd') \<Rightarrow>
          (case push_streams f ledger finished rest wd' of (sizes, wd'') \<Rightarrow> (map_option (\<lambda>ss. (stream, n) # ss) sizes, wd''))
      | (_, wd') \<Rightarrow> (None, wd'))"

definition push_logs :: "(string \<Rightarrow> push_fault) \<Rightarrow> (string \<times> nat) list \<Rightarrow> bool \<Rightarrow> string list \<Rightarrow> shipping
    \<Rightarrow> (string \<times> nat) list option \<times> shipping" where
  "push_logs f ledger finished owners wd =
     push_streams f ledger finished (sort (filter (owned_by owners) (map fst (sp_logs wd)))) wd"

section \<open>Whole lines\<close>

definition line_ended :: "string \<Rightarrow> bool" where
  "line_ended s = (s = [] \<or> last s = LINE_END)"

lemma whole_lines_split: "\<exists>t. data = whole_lines data @ t \<and> LINE_END \<notin> set t"
proof -
  have "rev data = takeWhile (\<lambda>c. c \<noteq> LINE_END) (rev data) @ dropWhile (\<lambda>c. c \<noteq> LINE_END) (rev data)" by simp
  then have "data = whole_lines data @ rev (takeWhile (\<lambda>c. c \<noteq> LINE_END) (rev data))"
    unfolding whole_lines_def by (metis rev_append rev_rev_ident)
  moreover have "LINE_END \<notin> set (rev (takeWhile (\<lambda>c. c \<noteq> LINE_END) (rev data)))" by (auto dest: set_takeWhileD)
  ultimately show ?thesis by blast
qed

lemma whole_lines_ended: "line_ended (whole_lines data)"
proof (cases "dropWhile (\<lambda>c. c \<noteq> LINE_END) (rev data)")
  case (Cons c cs)
  then have "c = LINE_END" using hd_dropWhile [of "\<lambda>c. c \<noteq> LINE_END" "rev data"] by simp
  then show ?thesis by (simp add: line_ended_def whole_lines_def Cons)
qed (simp add: line_ended_def whole_lines_def)

lemma whole_lines_unique:
  assumes "a @ t = b @ u" "line_ended a" "LINE_END \<notin> set u"
  shows "length a \<le> length b"
proof (rule ccontr)
  assume longer: "\<not> length a \<le> length b"
  then have "a = b @ take (length a - length b) u" using arg_cong [OF assms(1), of "take (length a)"] by simp
  moreover have "take (length a - length b) u \<noteq> []" using longer calculation by auto
  ultimately have "last a \<in> set u" by (metis last_appendR last_in_set in_set_takeD)
  moreover have "a \<noteq> []" using longer by auto
  ultimately show False using assms(2,3) by (simp add: line_ended_def)
qed

lemma line_ended_join: "line_ended a \<Longrightarrow> line_ended b \<Longrightarrow> line_ended (a @ b)"
  by (cases "b = []") (simp_all add: line_ended_def)

lemma whole_lines_after: "line_ended a \<Longrightarrow> whole_lines (a @ t) = a @ whole_lines t"
proof -
  assume a: "line_ended a"
  obtain u where u: "t = whole_lines t @ u" "LINE_END \<notin> set u" using whole_lines_split by blast
  obtain v where v: "a @ t = whole_lines (a @ t) @ v" "LINE_END \<notin> set v" using whole_lines_split by blast
  have eq: "(a @ whole_lines t) @ u = whole_lines (a @ t) @ v" using u(1) v(1) by simp
  have "line_ended (a @ whole_lines t)" by (rule line_ended_join [OF a whole_lines_ended])
  then have "length (a @ whole_lines t) = length (whole_lines (a @ t))"
    using whole_lines_unique [OF eq _ v(2)] whole_lines_unique [OF eq [symmetric] whole_lines_ended u(2)] by simp
  then show ?thesis using eq by (metis append_eq_append_conv)
qed

lemma whole_lines_mono: "length (whole_lines a) \<le> length (whole_lines (a @ b))"
proof -
  obtain t where t: "a = whole_lines a @ t" using whole_lines_split by blast
  obtain u where u: "a @ b = whole_lines (a @ b) @ u" "LINE_END \<notin> set u" using whole_lines_split by blast
  show ?thesis
  proof (rule whole_lines_unique [OF _ whole_lines_ended u(2)])
    show "whole_lines a @ t @ b = whole_lines (a @ b) @ u" using t u(1) by (metis append.assoc)
  qed
qed

lemma whole_lines_length: "length (whole_lines a) \<le> length a"
  using whole_lines_split [of a] by (metis length_append le_add1)

section \<open>The remote copy of a stream\<close>

definition replica :: "string list \<Rightarrow> string \<Rightarrow> shipping \<Rightarrow> bool" where
  \<comment> \<open>the remote holds the pieces \<open>ps\<close>, the first whole lines of the local file, and what is remembered is right\<close>
  "replica ps w wd =
     (od_wf (sp_remote wd) \<and> holds_pieces ps w (own_objects (sp_remote wd) w)
      \<and> (\<forall>p \<in> set ps. line_ended p) \<and> (\<exists>t. local_log wd w = concat ps @ t)
      \<and> (\<forall>held. state_get wd w = Some held \<longrightarrow> held = (length (concat ps), length ps)))"

definition untouched :: "string \<Rightarrow> shipping \<Rightarrow> shipping \<Rightarrow> bool" where
  "untouched w wd wd' =
     (own_objects (sp_remote wd') w = own_objects (sp_remote wd) w \<and> local_log wd' w = local_log wd w
      \<and> state_get wd' w = state_get wd w)"

lemma untouched_trans: "untouched w a b \<Longrightarrow> untouched w b c \<Longrightarrow> untouched w a c"
  by (simp add: untouched_def)

lemma replica_untouched: "replica ps w wd \<Longrightarrow> untouched w wd wd' \<Longrightarrow> od_wf (sp_remote wd') \<Longrightarrow> replica ps w wd'"
  by (simp add: replica_def untouched_def)

lemma pieces_ended: "\<forall>p \<in> set ps. line_ended p \<Longrightarrow> line_ended (concat ps)"
  by (induction ps) (simp_all add: line_ended_join, simp add: line_ended_def)

lemma replica_read:
  assumes "plain_writer w" "replica ps w wd"
  shows "read_stream (sp_remote wd) w = concat ps" "state_of (log_objects (sp_remote wd) w) = (length (concat ps), length ps)"
  using visible_whole [OF assms(1), of "sp_remote wd" ps] visible_next_seq [OF assms(1), of "sp_remote wd" ps] assms(2)
  by (simp_all add: replica_def state_of_def)

lemma local_append: "local_log (append_local u data wd) w = (if u = w then local_log wd w @ data else local_log wd w)"
  by (simp add: append_local_def local_log_def)

lemma append_local_rest [simp]:
  "sp_remote (append_local u data wd) = sp_remote wd" "state_get (append_local u data wd) w = state_get wd w"
  by (simp_all add: append_local_def state_get_def)

lemma state_simps [simp]:
  "sp_remote (state_put u held wd) = sp_remote wd" "sp_remote (state_forget u wd) = sp_remote wd"
  "local_log (state_put u held wd) w = local_log wd w" "local_log (state_forget u wd) w = local_log wd w"
  "local_log (wd\<lparr>sp_remote := store\<rparr>) w = local_log wd w" "state_get (wd\<lparr>sp_remote := store\<rparr>) w = state_get wd w"
  "state_get (state_put u held wd) w = (if w = u then Some held else state_get wd w)"
  "state_get (state_forget u wd) w = (if w = u then None else state_get wd w)"
  "local_log (wd\<lparr>sp_compacted := ss\<rparr>) w = local_log wd w" "state_get (wd\<lparr>sp_compacted := ss\<rparr>) w = state_get wd w"
  by (simp_all add: state_put_def state_forget_def state_get_def local_log_def)

lemma append_replica: "replica ps w wd \<Longrightarrow> replica ps w (append_local u data wd)"
  by (auto simp: replica_def local_append)

lemma shipped_segment:
  assumes w: "plain_writer w" and held: "replica ps w wd"
    and chunk: "chunk = whole_lines (drop (length (concat ps)) (local_log wd w))"
    and create: "create_log_segment f w (length ps) chunk (sp_remote wd) = (store, c)"
  defines "wd1 \<equiv> (state_forget w wd)\<lparr>sp_remote := store\<rparr>"
  shows "c = Created \<Longrightarrow> replica (ps @ [chunk]) w wd1"
    "replica ps w wd1 \<or> replica (ps @ [chunk]) w wd1"
    "u \<noteq> w \<Longrightarrow> untouched u wd wd1" "od_wf (sp_remote wd1)"
proof -
  let ?n = "log_object_name w (length ps)"
  have store_wf: "od_wf (sp_remote wd)" using held by (simp add: replica_def)
  have create': "create_object f ?n chunk (sp_remote wd) = (store, c)" using create by (simp add: create_log_segment_def)
  note made = created_object [OF store_wf create']
  obtain t where t: "local_log wd w = concat ps @ t" using held by (auto simp: replica_def)
  then obtain t' where t': "local_log wd w = concat (ps @ [chunk]) @ t'" using chunk whole_lines_split [of t] by auto
  have longer: "replica (ps @ [chunk]) w wd1" if put: "?n \<notin> fst ` set (sp_remote wd) \<and> store = od_put ?n chunk (sp_remote wd)"
  proof -
    have "own_objects store w = own_objects (sp_remote wd) w @ [(?n, chunk)]"
      using own_objects_put_new own_names(1) [OF w] put by simp
    then have "holds_pieces (ps @ [chunk]) w (own_objects store w)"
      using segment_put_pieces [OF w] held by (simp add: replica_def)
    moreover have "\<forall>p \<in> set (ps @ [chunk]). line_ended p" using held chunk whole_lines_ended by (auto simp: replica_def)
    moreover have "\<exists>t. local_log wd w = concat (ps @ [chunk]) @ t" using t' by blast
    ultimately show ?thesis using made(1) by (simp add: replica_def wd1_def)
  qed
  show "c = Created \<Longrightarrow> replica (ps @ [chunk]) w wd1" using longer made(4) by blast
  show "replica ps w wd1 \<or> replica (ps @ [chunk]) w wd1"
  proof (cases "store = sp_remote wd")
    case True
    then have "replica ps w wd1" using held by (simp add: replica_def wd1_def)
    then show ?thesis ..
  next
    case False
    then show ?thesis using longer made(3) by blast
  qed
  show "untouched u wd wd1" if "u \<noteq> w"
    using made(2) own_names(1) [OF w] that by (simp add: untouched_def wd1_def)
  show "od_wf (sp_remote wd1)" using made(1) by (simp add: wd1_def)
qed

text \<open>What a ship of one stream keeps, whatever happens during its attempts.\<close>

definition listing_right :: "log_listing option \<Rightarrow> string \<Rightarrow> shipping \<Rightarrow> bool" where
  "listing_right taken w wd = (case taken of None \<Rightarrow> True | Some groups \<Rightarrow> objects_listed groups w = log_objects (sp_remote wd) w)"

lemma own_objects_same_listing:
  assumes "od_wf store" "od_wf store'" "own_objects store' w = own_objects store w"
  shows "log_objects store' w = log_objects store w"
proof -
  have "map_of store' n = map_of store n" if "n \<in> fst ` set (own_objects store w)" for n
  proof -
    have "\<exists>d. (n, d) \<in> set (own_objects store w)" using that by force
    then obtain d where d: "(n, d) \<in> set (own_objects store w)" by blast
    then have "(n, d) \<in> set (own_objects store' w)" using assms(3) by simp
    then show ?thesis using d own_object_iff assms(1,2) by metis
  qed
  then show ?thesis unfolding log_objects_own assms(3)
    using own_visible [of _ store w] by (intro map_cong refl) auto
qed

lemma listing_untouched:
  "listing_right taken w wd \<Longrightarrow> untouched w wd wd' \<Longrightarrow> od_wf (sp_remote wd) \<Longrightarrow> od_wf (sp_remote wd') \<Longrightarrow> listing_right taken w wd'"
  using own_objects_same_listing [of "sp_remote wd" "sp_remote wd'" w]
  by (cases taken) (simp_all add: listing_right_def untouched_def)

lemma held_right:
  assumes "plain_writer w" "replica ps w wd" "listing_right taken w wd" "held_of wd taken w = (held, taken')"
  shows "held = (length (concat ps), length ps)"
proof (cases "state_get wd w")
  case None
  then have "held = state_of (log_objects (sp_remote wd) w)"
    using assms(3,4) by (auto simp: held_of_def groups_now_def listing_right_def log_objects_def split: option.splits)
  then show ?thesis using replica_read(2) [OF assms(1,2)] by simp
next
  case (Some h)
  then show ?thesis using assms(2,4) by (simp add: replica_def held_of_def)
qed

lemma listing_after:
  "held_of wd taken w = (held, taken') \<Longrightarrow> listing_right taken u wd \<Longrightarrow> listing_right taken' u wd"
  by (auto simp: held_of_def groups_now_def listing_right_def log_objects_def split: option.splits)

lemma untouched_step:
  "u \<noteq> w \<Longrightarrow> untouched u wd (append_local w data wd)" "u \<noteq> w \<Longrightarrow> untouched u wd (state_put w held wd)"
  "untouched u wd wd"
  by (simp_all add: untouched_def local_append)

definition ship_kept :: "string \<Rightarrow> nat \<Rightarrow> string list \<Rightarrow> log_listing option \<times> shipping \<Rightarrow> shipped \<times> log_listing option \<times> shipping \<Rightarrow> bool" where
  "ship_kept w sz ps start outcome =
     (case start of (taken, wd) \<Rightarrow> (case outcome of (result, taken', wd') \<Rightarrow>
       (\<exists>qs. replica (ps @ qs) w wd') \<and> (\<exists>more. local_log wd' w = local_log wd w @ more)
       \<and> (result \<notin> {Ship_failed, Could_not_ship} \<longrightarrow>
            length (whole_lines (take sz (local_log wd' w))) \<le> length (read_stream (sp_remote wd') w))
       \<and> (\<forall>u. u \<noteq> w \<longrightarrow> untouched u wd wd' \<and> (listing_right taken u wd \<longrightarrow> listing_right taken' u wd'))))"

lemma shipped_so_far:
  assumes "plain_writer w" "replica ps w wd" "whole_lines (local_log wd w) = concat ps \<or> sz \<le> length (concat ps)"
  shows "length (whole_lines (take sz (local_log wd w))) \<le> length (read_stream (sp_remote wd) w)"
proof -
  have "length (whole_lines (take sz (local_log wd w))) \<le> length (concat ps)"
    using assms(3)
  proof
    assume "whole_lines (local_log wd w) = concat ps"
    then show ?thesis using whole_lines_mono [of "take sz (local_log wd w)" "drop sz (local_log wd w)"] by simp
  next
    assume "sz \<le> length (concat ps)"
    then show ?thesis using whole_lines_length [of "take sz (local_log wd w)"] by simp
  qed
  then show ?thesis by (simp add: replica_read(1) [OF assms(1,2)])
qed

lemma all_lines_shipped:
  assumes "replica ps w wd"
  shows "whole_lines (local_log wd w) = concat ps @ whole_lines (drop (length (concat ps)) (local_log wd w))"
proof -
  obtain t where "local_log wd w = concat ps @ t" using assms by (auto simp: replica_def)
  then show ?thesis using whole_lines_after [OF pieces_ended, of ps t] assms by (simp add: replica_def)
qed

lemma listing_state_put: "listing_right taken u (state_put w held wd) = listing_right taken u wd"
  by (cases taken) (simp_all add: listing_right_def)

lemma ship_nothing:
  assumes "plain_writer w" "replica ps w wd1" "wd1 = append_local w data wd"
    "sz \<le> length (concat ps) \<or> whole_lines (drop (length (concat ps)) (local_log wd1 w)) = []"
    "\<forall>u. listing_right taken u wd \<longrightarrow> listing_right taken' u wd1"
  shows "ship_kept w sz ps (taken, wd) (Up_to_date, taken', state_put w (length (concat ps), length ps) wd1)"
proof -
  let ?wd' = "state_put w (length (concat ps), length ps) wd1"
  have rep: "replica ps w ?wd'" using assms(2) by (simp add: replica_def)
  have "length (whole_lines (take sz (local_log ?wd' w))) \<le> length (read_stream (sp_remote ?wd') w)"
    using shipped_so_far [OF assms(1) rep] assms(4) all_lines_shipped [OF assms(2)] by auto
  moreover have "u \<noteq> w \<longrightarrow> untouched u wd ?wd'" for u
    unfolding assms(3) using untouched_step untouched_trans by blast
  moreover have "listing_right taken u wd \<longrightarrow> listing_right taken' u ?wd'" for u
    using assms(5) by (simp add: listing_right_def split: option.splits)
  moreover have "\<exists>qs. replica (ps @ qs) w ?wd'" using rep by (intro exI [of _ "[]"]) simp
  ultimately show ?thesis by (simp add: ship_kept_def assms(3) local_append)
qed

lemma ship_created:
  assumes "plain_writer w" "replica ps w wd1" "replica (ps @ [chunk]) w wd2" "local_log wd2 w = local_log wd1 w"
    "chunk = whole_lines (drop (length (concat ps)) (local_log wd1 w))" "\<exists>more. local_log wd1 w = local_log wd w @ more"
    "\<forall>u. u \<noteq> w \<longrightarrow> untouched u wd wd2 \<and> (listing_right taken u wd \<longrightarrow> listing_right taken' u wd2)"
  shows "ship_kept w sz ps (taken, wd) (Shipped k b, taken', state_put w (length (concat ps) + length chunk, length ps + 1) wd2)"
proof -
  let ?wd' = "state_put w (length (concat ps) + length chunk, length ps + 1) wd2"
  have rep: "replica (ps @ [chunk]) w ?wd'" using assms(3) by (simp add: replica_def)
  have "whole_lines (local_log ?wd' w) = concat (ps @ [chunk])"
    using all_lines_shipped [OF assms(2)] by (simp add: assms(4,5))
  then have "length (whole_lines (take sz (local_log ?wd' w))) \<le> length (read_stream (sp_remote ?wd') w)"
    using shipped_so_far [OF assms(1) rep] by simp
  moreover have "u \<noteq> w \<longrightarrow> untouched u wd ?wd' \<and> (listing_right taken u wd \<longrightarrow> listing_right taken' u ?wd')" for u
    using assms(7) untouched_trans [OF _ untouched_step(2), of u wd wd2 w] unfolding listing_state_put by blast
  moreover have "\<exists>qs. replica (ps @ qs) w ?wd'" using rep by blast
  ultimately show ?thesis using assms(4,6) by (simp add: ship_kept_def)
qed

lemma ship_again:
  assumes "ship_kept w sz (ps @ qs) (None, wd2) outcome" "\<forall>u. u \<noteq> w \<longrightarrow> untouched u wd wd2"
    "\<exists>more. local_log wd2 w = local_log wd w @ more"
  shows "ship_kept w sz ps (taken, wd) outcome"
proof -
  obtain result taken' wd' where out: "outcome = (result, taken', wd')" by (cases outcome)
  have "\<exists>rs. replica (ps @ rs) w wd'" using assms(1) by (auto simp: ship_kept_def out)
  moreover have "\<exists>more. local_log wd' w = local_log wd w @ more"
    using assms(1,3) by (auto simp: ship_kept_def out)
  moreover have "untouched u wd wd' \<and> listing_right taken' u wd'" if "u \<noteq> w" for u
    using assms(1,2) that untouched_trans by (fastforce simp: ship_kept_def out listing_right_def)
  ultimately show ?thesis using assms(1) by (simp add: ship_kept_def out)
qed

lemma ship_stream_keeps:
  assumes "plain_writer w" "replica ps w wd" "listing_right taken w wd"
  shows "ship_kept w sz ps (taken, wd) (ship_stream n happens w sz taken wd)"
  using assms(2,3)
proof (induction n arbitrary: ps taken wd)
  case 0
  then show ?case by (auto simp: ship_kept_def untouched_step intro: exI [of _ "[]"])
next
  case (Suc n)
  define wd1 where "wd1 = append_local w (fst (happens n)) wd"
  have rep1: "replica ps w wd1" unfolding wd1_def by (rule append_replica [OF Suc.prems(1)])
  have list1: "listing_right taken u wd \<Longrightarrow> listing_right taken u wd1" for u
    by (simp add: wd1_def listing_right_def split: option.splits)
  obtain held t1 where h: "held_of wd1 taken w = (held, t1)" by (meson surj_pair)
  have held: "held = (length (concat ps), length ps)" by (rule held_right [OF assms(1) rep1 list1 [OF Suc.prems(2)] h])
  define chunk where "chunk = whole_lines (drop (length (concat ps)) (local_log wd1 w))"
  have more1: "\<exists>more. local_log wd1 w = local_log wd w @ more" by (simp add: wd1_def local_append)
  have listing1: "listing_right taken u wd \<Longrightarrow> listing_right t1 u wd1" for u
    using listing_after [OF h list1] .
  note result = ship_stream.simps(2) [of n happens w sz taken wd, unfolded Let_def wd1_def [symmetric] h prod.case held fst_conv snd_conv
      chunk_def [symmetric]]
  show ?case
  proof (cases "sz \<le> length (concat ps) \<or> chunk = []")
    case True
    then show ?thesis unfolding result using ship_nothing [OF assms(1) rep1 wd1_def] listing1 by (simp add: chunk_def)
  next
    case False
    obtain store c where create: "create_log_segment (snd (happens n)) w (length ps) chunk (sp_remote wd1) = (store, c)"
      by (meson surj_pair)
    define wd2 where "wd2 = (state_forget w wd1)\<lparr>sp_remote := store\<rparr>"
    note step = shipped_segment [OF assms(1) rep1 chunk_def create, folded wd2_def]
    have log2: "local_log wd2 w = local_log wd1 w" by (simp add: wd2_def)
    have un2: "u \<noteq> w \<Longrightarrow> untouched u wd wd2" for u
      using step(3) [of u] untouched_step(1) [of u w wd "fst (happens n)"] untouched_trans unfolding wd1_def by blast
    have list2: "u \<noteq> w \<Longrightarrow> listing_right taken u wd \<Longrightarrow> listing_right t1 u wd2" for u
      using listing_untouched [OF listing1 step(3) _ step(4)] rep1 by (simp add: replica_def)
    obtain qs where rep2: "replica (ps @ qs) w wd2" using step(2) by (metis append_Nil2)
    show ?thesis
    proof (cases c)
      case Created
      then show ?thesis using ship_created [OF assms(1) rep1 step(1) log2 chunk_def more1] un2 list2 False
        unfolding result by (simp add: create wd2_def)
    next
      case Raised
      then have "ship_stream (Suc n) happens w sz taken wd = (Ship_failed, t1, wd2)"
        using False unfolding result by (simp add: create wd2_def)
      then show ?thesis using rep2 un2 list2 more1 log2 by (auto simp: ship_kept_def)
    next
      case Taken
      have "ship_kept w sz (ps @ qs) (None, wd2) (ship_stream n happens w sz None wd2)"
        by (rule Suc.IH [OF rep2]) (simp add: listing_right_def)
      then show ?thesis using ship_again un2 more1 log2 False Taken unfolding result by (simp add: create wd2_def)
    qed
  qed
qed

section \<open>A sync keeps every stream\<close>

lemma compact_stream_keeps:
  assumes "plain_writer u" "od_wf (sp_remote wd)" "compact_stream f u wd = (ok, wd')"
  shows "od_wf (sp_remote wd')" "w \<noteq> u \<Longrightarrow> untouched w wd wd'" "replica ps u wd \<Longrightarrow> replica ps u wd'" "local_log wd' w = local_log wd w"
proof -
  obtain store r where c: "compact_log_segments f u (sp_remote wd) = (store, r)" by (meson surj_pair)
  have wd': "wd' = wd\<lparr>sp_remote := store\<rparr>" using assms(3) by (simp add: compact_stream_def c)
  note keeps = compact_keeps [OF assms(1,2) c]
  show "od_wf (sp_remote wd')" "w \<noteq> u \<Longrightarrow> untouched w wd wd'" "replica ps u wd \<Longrightarrow> replica ps u wd'" "local_log wd' w = local_log wd w"
    using keeps by (simp_all add: wd' untouched_def replica_def)
qed

lemma after_ship_cases:
  obtains "after_ship sy u outcome wd = wd"
  | ok wd1 ss where "compact_stream (sy_compact sy u) u wd = (ok, wd1)" "after_ship sy u outcome wd = wd1\<lparr>sp_compacted := ss\<rparr>"
proof -
  obtain ok wd1 where c: "compact_stream (sy_compact sy u) u wd = (ok, wd1)" by (meson surj_pair)
  have "after_ship sy u outcome wd = wd \<or> after_ship sy u outcome wd = wd1
      \<or> after_ship sy u outcome wd = wd1\<lparr>sp_compacted := u # sp_compacted wd1\<rparr>"
    by (simp add: after_ship_def compact_once_def c split: shipped.split)
  moreover have "wd1 = wd1\<lparr>sp_compacted := sp_compacted wd1\<rparr>" by simp
  ultimately show thesis using that(1) that(2) [OF c] by metis
qed

lemma replica_compacted: "replica ps w (wd\<lparr>sp_compacted := ss\<rparr>) = replica ps w wd" "untouched w a (wd\<lparr>sp_compacted := ss\<rparr>) = untouched w a wd"
  by (simp_all add: replica_def untouched_def)

lemma after_ship_keeps:
  assumes "plain_writer u" "od_wf (sp_remote wd)"
  shows "od_wf (sp_remote (after_ship sy u outcome wd))" "w \<noteq> u \<Longrightarrow> untouched w wd (after_ship sy u outcome wd)"
    "replica ps u wd \<Longrightarrow> replica ps u (after_ship sy u outcome wd)" "local_log (after_ship sy u outcome wd) w = local_log wd w"
proof -
  have "od_wf (sp_remote (after_ship sy u outcome wd)) \<and> (w \<noteq> u \<longrightarrow> untouched w wd (after_ship sy u outcome wd))
    \<and> (replica ps u wd \<longrightarrow> replica ps u (after_ship sy u outcome wd)) \<and> local_log (after_ship sy u outcome wd) w = local_log wd w"
  proof (rule after_ship_cases [of sy u outcome wd])
    fix ok wd1 ss
    assume "compact_stream (sy_compact sy u) u wd = (ok, wd1)" and a: "after_ship sy u outcome wd = wd1\<lparr>sp_compacted := ss\<rparr>"
    note c = compact_stream_keeps [OF assms this(1)]
    show ?thesis unfolding a using c by (simp add: replica_compacted)
  qed (simp add: untouched_step assms(2))
  then show "od_wf (sp_remote (after_ship sy u outcome wd))" "w \<noteq> u \<Longrightarrow> untouched w wd (after_ship sy u outcome wd)"
    "replica ps u wd \<Longrightarrow> replica ps u (after_ship sy u outcome wd)" "local_log (after_ship sy u outcome wd) w = local_log wd w"
    by blast+
qed

definition delivered :: "string \<Rightarrow> nat \<Rightarrow> shipping \<Rightarrow> bool" where
  "delivered w sz wd = (length (whole_lines (take sz (local_log wd w))) \<le> length (read_stream (sp_remote wd) w))"

definition sync_kept :: "string list \<Rightarrow> string \<Rightarrow> (string \<times> nat) list \<Rightarrow> shipping \<Rightarrow> bool \<times> shipping \<Rightarrow> bool" where
  "sync_kept ps w todo wd outcome =
     (case outcome of (ok, wd') \<Rightarrow>
       (\<exists>qs. replica (ps @ qs) w wd') \<and> (\<exists>more. local_log wd' w = local_log wd w @ more)
       \<and> (w \<notin> fst ` set todo \<longrightarrow> local_log wd' w = local_log wd w)
       \<and> (ok \<longrightarrow> (\<forall>sz. (w, sz) \<in> set todo \<longrightarrow> delivered w sz wd')))"

lemma replica_same_log: "replica ps w wd \<Longrightarrow> replica (ps @ qs) w wd' \<Longrightarrow> plain_writer w \<Longrightarrow> local_log wd' w = local_log wd w
    \<Longrightarrow> delivered w sz wd \<Longrightarrow> delivered w sz wd'"
  using replica_read(1) [of w ps wd] replica_read(1) [of w "ps @ qs" wd'] by (simp add: delivered_def)

lemma ship_any:
  assumes "plain_writer u" "listing_right taken u wd" "\<exists>qs. replica qs u wd" "replica ps w wd"
    "ship_stream n happens u s taken wd = (outcome, taken1, wd1)"
  shows "od_wf (sp_remote wd1)" "v \<noteq> u \<Longrightarrow> untouched v wd wd1" "v \<noteq> u \<Longrightarrow> listing_right taken v wd \<Longrightarrow> listing_right taken1 v wd1"
    "\<exists>more. local_log wd1 w = local_log wd w @ more" "\<exists>ws. replica (ps @ ws) w wd1"
    "outcome \<notin> {Ship_failed, Could_not_ship} \<Longrightarrow> delivered u s wd1"
proof -
  obtain us where us: "replica us u wd" "w = u \<Longrightarrow> us = ps" using assms(3,4) by (cases "w = u") auto
  have kept: "ship_kept u s us (taken, wd) (outcome, taken1, wd1)"
    using ship_stream_keeps [OF assms(1) us(1) assms(2), of s n happens] unfolding assms(5) .
  then obtain vs where vs: "replica (us @ vs) u wd1" by (auto simp: ship_kept_def)
  show wf1: "od_wf (sp_remote wd1)" using vs by (simp add: replica_def)
  show other: "v \<noteq> u \<Longrightarrow> untouched v wd wd1" "v \<noteq> u \<Longrightarrow> listing_right taken v wd \<Longrightarrow> listing_right taken1 v wd1" for v
    using kept by (auto simp: ship_kept_def)
  show "\<exists>more. local_log wd1 w = local_log wd w @ more"
    using kept other(1) [of w] by (cases "w = u") (auto simp: ship_kept_def untouched_def)
  show "\<exists>ws. replica (ps @ ws) w wd1"
  proof (cases "w = u")
    case False
    then have "replica (ps @ []) w wd1" using replica_untouched [OF assms(4) other(1) wf1] by simp
    then show ?thesis by blast
  qed (use vs us(2) in auto)
  show "outcome \<notin> {Ship_failed, Could_not_ship} \<Longrightarrow> delivered u s wd1" using kept by (simp add: ship_kept_def delivered_def)
qed

lemma after_ship_any:
  assumes "plain_writer u" "od_wf (sp_remote wd)" "replica ps w wd"
  shows "replica ps w (after_ship sy u outcome wd)"
  using after_ship_keeps(3) [OF assms(1,2)] replica_untouched [OF assms(3) after_ship_keeps(2) [OF assms(1,2)] after_ship_keeps(1) [OF assms(1,2)]]
    assms(3) by (cases "w = u") auto

lemma sync_streams_keeps:
  assumes "plain_writer w" "\<forall>u \<in> fst ` set todo. plain_writer u \<and> listing_right taken u wd \<and> (\<exists>qs. replica qs u wd)"
    "distinct (map fst todo)" "replica ps w wd"
  shows "sync_kept ps w todo wd (sync_streams sy todo taken wd)"
  using assms(2-4)
proof (induction todo arbitrary: ps taken wd)
  case Nil
  then show ?case by (auto simp: sync_kept_def intro: exI [of _ "[]"])
next
  case (Cons item rest)
  obtain u s where item: "item = (u, s)" by (cases item)
  have u: "plain_writer u" "listing_right taken u wd" "\<exists>qs. replica qs u wd" and rest: "u \<notin> fst ` set rest" "distinct (map fst rest)"
    using Cons.prems(1,2) item by auto
  obtain outcome taken1 wd1 where ship: "ship_stream SHIP_ATTEMPTS (sy_happens sy u) u s taken wd = (outcome, taken1, wd1)"
    by (metis prod_cases3)
  note shipped = ship_any [OF u Cons.prems(3) ship]
  obtain ws where ws: "replica (ps @ ws) w wd1" using shipped(5) by blast
  show ?case
  proof (cases "outcome \<in> {Ship_failed, Could_not_ship}")
    case True
    then have failed: "sync_streams sy (item # rest) taken wd = (False, wd1)" by (auto simp: item ship)
    have "w \<notin> fst ` set (item # rest) \<longrightarrow> local_log wd1 w = local_log wd w"
      using shipped(2) [of w] by (auto simp: item untouched_def)
    then show ?thesis using ws shipped(4) unfolding failed sync_kept_def prod.case by blast
  next
    case False
    define wd2 where "wd2 = after_ship sy u outcome wd1"
    note after = after_ship_keeps [OF u(1) shipped(1), where sy = sy and outcome = outcome, folded wd2_def]
    have ready: "plain_writer v \<and> listing_right taken1 v wd2 \<and> (\<exists>qs. replica qs v wd2)" if v: "v \<in> fst ` set rest" for v
    proof -
      have "v \<noteq> u" using v rest(1) by blast
      moreover obtain qs where "replica qs v wd" "plain_writer v" "listing_right taken v wd" using Cons.prems(1) v by auto
      ultimately show ?thesis
        using replica_untouched shipped(1-3) after(1,2) listing_untouched by (metis untouched_trans)
    qed
    have ws2: "replica (ps @ ws) w wd2" unfolding wd2_def by (rule after_ship_any [OF u(1) shipped(1) ws])
    obtain ok wd3 where end_of: "sync_streams sy rest taken1 wd2 = (ok, wd3)" by (meson surj_pair)
    have IH: "sync_kept (ps @ ws) w rest wd2 (ok, wd3)" using Cons.IH [OF _ rest(2) ws2, of taken1] ready by (simp add: end_of)
    obtain zs where zs: "replica ((ps @ ws) @ zs) w wd3" using IH by (auto simp: sync_kept_def)
    have "delivered w sz wd3" if here: "(w, sz) \<in> set (item # rest)" "ok" for sz
    proof (cases "w = u")
      case True
      then have "sz = s" "w \<notin> fst ` set rest" using here(1) rest(1) item by force+
      moreover have "local_log wd3 w = local_log wd1 w" using IH calculation(2) after(4) by (simp add: sync_kept_def)
      ultimately show ?thesis using replica_same_log [OF ws zs assms(1)] shipped(6) [OF False] True by simp
    next
      case False
      then show ?thesis using IH here item by (auto simp: sync_kept_def)
    qed
    moreover have "\<exists>more. local_log wd3 w = local_log wd w @ more" using IH shipped(4) after(4) by (auto simp: sync_kept_def)
    moreover have "w \<notin> fst ` set (item # rest) \<longrightarrow> local_log wd3 w = local_log wd w"
      using IH shipped(2) [of w] after(4) by (auto simp: sync_kept_def item untouched_def)
    moreover have "sync_streams sy (item # rest) taken wd = (ok, wd3)" using False by (simp add: item ship wd2_def [symmetric] end_of)
    ultimately show ?thesis using zs unfolding sync_kept_def by (simp only: prod.case) (metis append.assoc)
  qed
qed

section \<open>A push keeps a stream the ship state does not know\<close>

definition push_kept :: "string \<Rightarrow> string list \<Rightarrow> shipping \<Rightarrow> pushed \<times> shipping \<Rightarrow> bool" where
  "push_kept u ps wd outcome =
     (case outcome of (r, wd') \<Rightarrow>
       (\<exists>qs. replica (ps @ qs) u wd') \<and> r \<noteq> Prefix_mismatch \<and> (\<forall>w. w \<noteq> u \<longrightarrow> untouched w wd wd')
       \<and> (\<forall>w. local_log wd' w = local_log wd w \<and> state_get wd' w = state_get wd w)
       \<and> (\<forall>n. r = Pushed n \<longrightarrow> n = length (whole_lines (local_log wd u)) \<and> read_stream (sp_remote wd') u = whole_lines (local_log wd u)))"

lemma listed_bodies:
  assumes "plain_writer w" "replica ps w wd"
  shows "concat (map (\<lambda>(n, sz). case map_of (sp_remote wd) n of None \<Rightarrow> [] | Some d \<Rightarrow> d) (log_objects (sp_remote wd) w)) = concat ps"
proof -
  have wf: "od_wf (sp_remote wd)" and held: "holds_pieces ps w (own_objects (sp_remote wd) w)"
    using assms(2) by (simp_all add: replica_def)
  have "(case map_of (sp_remote wd) n of None \<Rightarrow> [] | Some d \<Rightarrow> d) = the (map_of (sp_remote wd) n)"
    if "(n, sz) \<in> set (log_objects (sp_remote wd) w)" for n sz
    using that shown_each(1) [OF assms(1) wf held] by (auto simp: log_objects_shown)
  then have eq: "map (\<lambda>(n, sz). case map_of (sp_remote wd) n of None \<Rightarrow> [] | Some d \<Rightarrow> d) (log_objects (sp_remote wd) w)
      = map (\<lambda>(n, sz). the (map_of (sp_remote wd) n)) (log_objects (sp_remote wd) w)" by (intro map_cong) auto
  show ?thesis unfolding eq using replica_read(1) [OF assms] by (simp only: read_stream_def)
qed

lemma push_end:
  assumes "plain_writer u" "replica (ps @ qs) u (wd\<lparr>sp_remote := store\<rparr>)" "\<forall>w. w \<noteq> u \<longrightarrow> untouched w wd (wd\<lparr>sp_remote := store\<rparr>)"
    "\<forall>n. r = Pushed n \<longrightarrow> n = length (whole_lines (local_log wd u)) \<and> concat (ps @ qs) = whole_lines (local_log wd u)"
    "r \<noteq> Prefix_mismatch"
  shows "push_kept u ps wd (r, wd\<lparr>sp_remote := store\<rparr>)"
  using assms replica_read(1) [OF assms(1,2)] unfolding push_kept_def by auto

lemma push_compacts:
  assumes "plain_writer u" "replica (ps @ qs) u (wd\<lparr>sp_remote := store\<rparr>)" "\<forall>w. w \<noteq> u \<longrightarrow> untouched w wd (wd\<lparr>sp_remote := store\<rparr>)"
    "concat (ps @ qs) = whole_lines (local_log wd u)" "n = length (whole_lines (local_log wd u))"
  shows "push_kept u ps wd
    (if merging
     then (case compact_log_segments f u store of
             (store', None) \<Rightarrow> (Push_failed, wd\<lparr>sp_remote := store'\<rparr>)
           | (store', Some merged) \<Rightarrow> (Pushed n, wd\<lparr>sp_remote := store'\<rparr>))
     else (Pushed n, wd\<lparr>sp_remote := store\<rparr>))"
proof (cases merging)
  case True
  obtain store' r where c: "compact_log_segments f u store = (store', r)" by (meson surj_pair)
  have wf: "od_wf store" using assms(2) by (simp add: replica_def)
  note keeps = compact_keeps [OF assms(1) wf c]
  have rep: "replica (ps @ qs) u (wd\<lparr>sp_remote := store'\<rparr>)" using assms(2) keeps by (simp add: replica_def)
  have "\<forall>w. w \<noteq> u \<longrightarrow> untouched w wd (wd\<lparr>sp_remote := store'\<rparr>)" using assms(3) keeps(2) by (simp add: untouched_def)
  then show ?thesis using push_end [OF assms(1) rep] assms(4,5) True c by (cases r) simp_all
next
  case False
  then show ?thesis using push_end [OF assms(1,2,3)] assms(4,5) by simp
qed

lemma push_stream_keeps:
  assumes "plain_writer u" "replica ps u wd" "state_get wd u = None"
  shows "push_kept u ps wd (push_stream f ledger finished u wd)"
proof -
  define objects where "objects = log_objects (sp_remote wd) u"
  have listed: "sum_list (map snd objects) = length (concat ps)" "next_seq objects = length ps"
    using replica_read(2) [OF assms(1,2)] by (simp_all add: state_of_def objects_def)
  note bodies = listed_bodies [OF assms(1,2), folded objects_def]
  obtain t where "local_log wd u = concat ps @ t" using assms(2) by (auto simp: replica_def)
  then have verified: "concat ps = take (length (concat ps)) (local_log wd u)" by simp
  define chunk where "chunk = whole_lines (drop (length (concat ps)) (local_log wd u))"
  have lines: "whole_lines (local_log wd u) = concat ps @ chunk" unfolding chunk_def by (rule all_lines_shipped [OF assms(2)])
  have same: "push_kept u ps wd (Push_failed, wd)"
    using push_end [OF assms(1), where ps = ps and qs = "[]" and wd = wd and store = "sp_remote wd" and r = Push_failed] assms(2) by (simp add: untouched_step)
  obtain store c where create: "create_log_segment (pf_put f) u (length ps) chunk (sp_remote wd) = (store, c)" by (meson surj_pair)
  note step = shipped_segment [OF assms(1,2) chunk_def create]
  have remote_only: "replica qs u ((state_forget u wd)\<lparr>sp_remote := store\<rparr>) = replica qs u (wd\<lparr>sp_remote := store\<rparr>)"
    "untouched w wd ((state_forget u wd)\<lparr>sp_remote := store\<rparr>) \<Longrightarrow> untouched w wd (wd\<lparr>sp_remote := store\<rparr>)" for qs w
    using assms(3) by (simp_all add: replica_def untouched_def)
  note step' = step [unfolded remote_only(1)]
  have others: "\<forall>w. w \<noteq> u \<longrightarrow> untouched w wd (wd\<lparr>sp_remote := store\<rparr>)" using step(3) remote_only(2) by blast
  obtain qs where qs: "replica (ps @ qs) u (wd\<lparr>sp_remote := store\<rparr>)" using step'(2) by (metis append_Nil2)
  note push = push_stream_def [of f ledger finished u wd, unfolded Let_def objects_def [symmetric] listed bodies chunk_def [symmetric] create]
  let ?ends = "\<lambda>store n. if finished \<and> 1 < length objects + (if chunk = [] then 0 else 1)
      then (case compact_log_segments (pf_compact f) u store of
              (store', None) \<Rightarrow> (Push_failed, wd\<lparr>sp_remote := store'\<rparr>)
            | (store', Some merged) \<Rightarrow> (Pushed n, wd\<lparr>sp_remote := store'\<rparr>))
      else (Pushed n, wd\<lparr>sp_remote := store\<rparr>)"
  have n: "length (concat ps) + length chunk = length (whole_lines (local_log wd u))" by (simp add: lines)
  consider "push_stream f ledger finished u wd = (Push_failed, wd)"
    | "chunk = []" "push_stream f ledger finished u wd = ?ends (sp_remote wd) (length (concat ps) + length chunk)"
    | "c = Created" "push_stream f ledger finished u wd = ?ends store (length (concat ps) + length chunk)"
    | r where "r \<in> {Push_failed, Changed_while_pushing}" "push_stream f ledger finished u wd = (r, wd\<lparr>sp_remote := store\<rparr>)"
  proof (cases "(length (concat ps) \<noteq> 0 \<and> ledger \<noteq> Some (length (concat ps))) \<and> \<not> pf_read f")
    case True
    then show thesis using that(1) unfolding push by simp
  next
    case False
    then show thesis using that(2-4) verified unfolding push by (cases "chunk = []"; cases c) (auto split del: if_split)
  qed
  then show ?thesis
  proof cases
    case 1
    then show ?thesis using same by simp
  next
    case 2
    have rep: "replica (ps @ []) u (wd\<lparr>sp_remote := sp_remote wd\<rparr>)" using assms(2) by simp
    have un: "\<forall>w. w \<noteq> u \<longrightarrow> untouched w wd (wd\<lparr>sp_remote := sp_remote wd\<rparr>)" by (simp add: untouched_step)
    have eq: "concat (ps @ []) = whole_lines (local_log wd u)" using lines 2(1) by simp
    show ?thesis unfolding 2(2) by (rule push_compacts [OF assms(1) rep un eq n])
  next
    case 3
    have "concat (ps @ [chunk]) = whole_lines (local_log wd u)" using lines by simp
    then show ?thesis unfolding 3(2) by (rule push_compacts [OF assms(1) step'(1) [OF 3(1)] others _ n])
  next
    case (4 r)
    then show ?thesis using push_end [OF assms(1) qs others, of r] by auto
  qed
qed

definition push_all_kept :: "string list \<Rightarrow> string \<Rightarrow> string list \<Rightarrow> shipping \<Rightarrow> (string \<times> nat) list option \<times> shipping \<Rightarrow> bool" where
  "push_all_kept ps w streams wd outcome =
     (case outcome of (sizes, wd') \<Rightarrow>
       (\<exists>qs. replica (ps @ qs) w wd') \<and> (\<forall>u. local_log wd' u = local_log wd u \<and> state_get wd' u = state_get wd u)
       \<and> (w \<notin> set streams \<longrightarrow> read_stream (sp_remote wd') w = read_stream (sp_remote wd) w)
       \<and> (sizes \<noteq> None \<and> w \<in> set streams \<longrightarrow> read_stream (sp_remote wd') w = whole_lines (local_log wd w)))"

lemma untouched_read: "untouched w wd wd' \<Longrightarrow> plain_writer w \<Longrightarrow> replica ps w wd \<Longrightarrow> od_wf (sp_remote wd')
    \<Longrightarrow> read_stream (sp_remote wd') w = read_stream (sp_remote wd) w"
  using replica_untouched [of ps w wd wd'] replica_read(1) by simp

lemma push_streams_keeps:
  assumes "plain_writer w" "\<forall>u \<in> set streams. plain_writer u \<and> state_get wd u = None \<and> (\<exists>qs. replica qs u wd)"
    "distinct streams" "replica ps w wd"
  shows "push_all_kept ps w streams wd (push_streams f ledger finished streams wd)"
  using assms(2-4)
proof (induction streams arbitrary: ps wd)
  case Nil
  then show ?case by (auto simp: push_all_kept_def intro: exI [of _ "[]"])
next
  case (Cons u rest)
  obtain us where us: "replica us u wd" "w = u \<Longrightarrow> us = ps" using Cons.prems(1,3) by (cases "w = u") force+
  have u: "plain_writer u" "state_get wd u = None" "u \<notin> set rest" "distinct rest" using Cons.prems(1,2) by auto
  obtain r wd1 where push: "push_stream (f u) (map_of ledger u) finished u wd = (r, wd1)" by (meson surj_pair)
  have kept: "push_kept u us wd (r, wd1)" using push_stream_keeps [OF u(1) us(1) u(2), of "f u" "map_of ledger u" finished] by (simp add: push)
  then obtain vs where vs: "replica (us @ vs) u wd1" by (auto simp: push_kept_def)
  have wf1: "od_wf (sp_remote wd1)" using vs by (simp add: replica_def)
  have same: "local_log wd1 v = local_log wd v" "state_get wd1 v = state_get wd v" "v \<noteq> u \<Longrightarrow> untouched v wd wd1" for v
    using kept by (simp_all add: push_kept_def)
  have "\<exists>ws. replica (ps @ ws) w wd1"
  proof (cases "w = u")
    case True
    then show ?thesis using vs us(2) by blast
  next
    case False
    then have "replica (ps @ []) w wd1" using replica_untouched [OF Cons.prems(3) same(3) wf1] by simp
    then show ?thesis by blast
  qed
  then obtain ws where ws: "replica (ps @ ws) w wd1" by blast
  have other_read: "w \<noteq> u \<Longrightarrow> read_stream (sp_remote wd1) w = read_stream (sp_remote wd) w"
    using untouched_read [OF same(3) assms(1) Cons.prems(3) wf1] .
  show ?case
  proof (cases "\<exists>n. r = Pushed n")
    case False
    then have "push_streams f ledger finished (u # rest) wd = (None, wd1)" by (cases r) (simp_all add: push)
    then show ?thesis using ws same(1,2) other_read by (auto simp: push_all_kept_def)
  next
    case True
    then obtain n where r: "r = Pushed n" by blast
    have ready: "\<forall>v \<in> set rest. plain_writer v \<and> state_get wd1 v = None \<and> (\<exists>qs. replica qs v wd1)"
    proof
      fix v assume v: "v \<in> set rest"
      then have "v \<noteq> u" using u(3) by blast
      moreover obtain qs where "replica qs v wd" using Cons.prems(1) v by auto
      ultimately have "replica qs v wd1" using replica_untouched same(3) wf1 by blast
      then show "plain_writer v \<and> state_get wd1 v = None \<and> (\<exists>qs. replica qs v wd1)" using Cons.prems(1) v same(2) by auto
    qed
    obtain sizes wd2 where rest: "push_streams f ledger finished rest wd1 = (sizes, wd2)" by (meson surj_pair)
    have IH: "push_all_kept (ps @ ws) w rest wd1 (sizes, wd2)" using Cons.IH [OF ready u(4) ws] by (simp add: rest)
    have "w = u \<Longrightarrow> read_stream (sp_remote wd1) w = whole_lines (local_log wd w)" using kept r by (simp add: push_kept_def)
    then show ?thesis using IH u(3) other_read same by (auto simp: push_all_kept_def push r rest)
  qed
qed

section \<open>A copy's life\<close>

text \<open>
  A stream without an owner's name has no other owner: it counts as the copy's. A push is a step when
  the ship state knows nothing of the streams pushed, as for a run recorded offline.
\<close>

inductive ship_step :: "string list \<Rightarrow> shipping \<Rightarrow> shipping \<Rightarrow> bool" for owners :: "string list" where
  appended: "plain_writer u \<Longrightarrow> ship_step owners wd (append_local u data wd)"
| synced: "ship_step owners wd (snd (sync_log_to_remote sy has_remote owners wd))"
| pushed: "\<forall>u. owned_by owners u \<longrightarrow> state_get wd u = None \<Longrightarrow> ship_step owners wd (snd (push_logs f ledger finished owners wd))"
| compacted: "ship_step owners wd (wd\<lparr>sp_remote := fst (compact_record_logs g (sp_remote wd))\<rparr>)"
| forgotten: "ship_step owners wd (forget_streams which wd)"
| restarted: "ship_step owners wd (wd\<lparr>sp_compacted := []\<rparr>)"
| elsewhere: "od_wf store \<Longrightarrow> \<forall>u. owned_by owners u \<longrightarrow> own_objects store u = own_objects (sp_remote wd) u \<Longrightarrow>
    ship_step owners wd (wd\<lparr>sp_remote := store\<rparr>)"

definition never_shipped :: "string list \<Rightarrow> shipping \<Rightarrow> bool" where
  "never_shipped owners wd =
     (od_wf (sp_remote wd) \<and> od_wf (sp_logs wd) \<and> (\<forall>u \<in> fst ` set (sp_logs wd). plain_writer u)
      \<and> (\<forall>u. owned_by owners u \<longrightarrow> own_objects (sp_remote wd) u = [] \<and> state_get wd u = None))"

definition replicas_ok :: "string list \<Rightarrow> shipping \<Rightarrow> bool" where
  "replicas_ok owners wd =
     (od_wf (sp_logs wd) \<and> (\<forall>u \<in> fst ` set (sp_logs wd). plain_writer u) \<and> od_wf (sp_remote wd)
      \<and> (\<forall>u. plain_writer u \<and> owned_by owners u \<longrightarrow> (\<exists>ps. replica ps u wd)))"

lemma never_shipped_ok: "never_shipped owners wd \<Longrightarrow> replicas_ok owners wd"
proof -
  assume "never_shipped owners wd"
  then have "replica [] u wd" if "owned_by owners u" for u
    using that by (simp add: never_shipped_def replica_def holds_pieces_def)
  then show ?thesis using \<open>never_shipped owners wd\<close> by (auto simp: replicas_ok_def never_shipped_def)
qed

lemma own_sizes_props:
  assumes "od_wf (sp_logs wd)"
  shows "set (own_sizes owners wd) = {(u, length data) | u data. map_of (sp_logs wd) u = Some data \<and> owned_by owners u}"
    "distinct (map fst (own_sizes owners wd))"
proof -
  show "set (own_sizes owners wd) = {(u, length data) | u data. map_of (sp_logs wd) u = Some data \<and> owned_by owners u}"
    using assms by (auto simp: own_sizes_def od_wf_def)
  have "distinct (map fst (map (\<lambda>(s, data). (s, length data)) (filter (\<lambda>(s, data). owned_by owners s) (sp_logs wd))))"
    using assms by (simp add: od_wf_def o_def case_prod_unfold distinct_map_filter)
  then show "distinct (map fst (own_sizes owners wd))"
    unfolding own_sizes_def by (simp only: distinct_map distinct_sort set_sort)
qed

lemma own_sizes_ready:
  assumes "replicas_ok owners wd"
  shows "\<forall>u \<in> fst ` set (own_sizes owners wd). plain_writer u \<and> listing_right None u wd \<and> (\<exists>qs. replica qs u wd)"
proof
  fix u assume "u \<in> fst ` set (own_sizes owners wd)"
  then obtain data where u: "map_of (sp_logs wd) u = Some data" "owned_by owners u"
    using own_sizes_props(1) [of wd owners] assms by (auto simp: replicas_ok_def)
  then have "plain_writer u" using assms map_of_SomeD [OF u(1)] by (force simp: replicas_ok_def)
  then show "plain_writer u \<and> listing_right None u wd \<and> (\<exists>qs. replica qs u wd)"
    using assms u(2) by (simp add: replicas_ok_def listing_right_def)
qed

lemma sync_keeps:
  assumes "replicas_ok owners wd" "plain_writer w" "replica ps w wd"
  shows "sync_kept ps w (if has_remote then own_sizes owners wd else []) wd (sync_log_to_remote sy has_remote owners wd)"
proof -
  have "sync_kept ps w (own_sizes owners wd) wd (sync_streams sy (own_sizes owners wd) None wd)"
    using sync_streams_keeps [OF assms(2) own_sizes_ready [OF assms(1)] own_sizes_props(2) assms(3)] assms(1)
    by (simp add: replicas_ok_def)
  moreover have "sync_kept ps w [] wd (True, wd)" using assms(3) by (auto simp: sync_kept_def intro: exI [of _ "[]"])
  ultimately show ?thesis by (simp add: sync_log_to_remote_def)
qed

lemma push_logs_keeps:
  assumes "replicas_ok owners wd" "plain_writer w" "replica ps w wd" "\<forall>u. owned_by owners u \<longrightarrow> state_get wd u = None"
  shows "push_all_kept ps w (sort (filter (owned_by owners) (map fst (sp_logs wd)))) wd (push_logs f ledger finished owners wd)"
  unfolding push_logs_def
proof (rule push_streams_keeps [OF assms(2) _ _ assms(3)])
  show "\<forall>u \<in> set (sort (filter (owned_by owners) (map fst (sp_logs wd)))).
      plain_writer u \<and> state_get wd u = None \<and> (\<exists>qs. replica qs u wd)"
    using assms(1,4) by (auto simp: replicas_ok_def)
  show "distinct (sort (filter (owned_by owners) (map fst (sp_logs wd))))"
    using assms(1) by (simp add: replicas_ok_def od_wf_def)
qed

text \<open>The local files only get appended to, and stay distinct and plainly named.\<close>

definition logs_ok :: "shipping \<Rightarrow> bool" where
  "logs_ok wd = (od_wf (sp_logs wd) \<and> (\<forall>u \<in> fst ` set (sp_logs wd). plain_writer u))"

lemma logs_ok_append: "plain_writer u \<Longrightarrow> logs_ok wd \<Longrightarrow> logs_ok (append_local u data wd)"
proof (cases "data = []")
  case False
  assume u: "plain_writer u" "logs_ok wd"
  have logs: "sp_logs (append_local u data wd) = od_put u (local_log wd u @ data) (sp_logs wd)"
    using False by (simp add: append_local_def)
  show ?thesis using u unfolding logs_ok_def logs fst_od_put by (blast intro: od_wf_put)
qed (simp add: append_local_def)

lemma logs_ok_same: "sp_logs wd' = sp_logs wd \<Longrightarrow> logs_ok wd \<Longrightarrow> logs_ok wd'"
  by (simp add: logs_ok_def)

lemma ship_stream_logs: "plain_writer u \<Longrightarrow> logs_ok wd \<Longrightarrow> logs_ok (snd (snd (ship_stream n happens u sz taken wd)))"
proof (induction n arbitrary: taken wd)
  case (Suc n)
  define wd1 where "wd1 = append_local u (fst (happens n)) wd"
  have ok1: "logs_ok wd1" unfolding wd1_def by (rule logs_ok_append [OF Suc.prems])
  have rest: "logs_ok (state_put u held wd1)" "logs_ok ((state_forget u wd1)\<lparr>sp_remote := store\<rparr>)"
    "logs_ok (state_put u held ((state_forget u wd1)\<lparr>sp_remote := store\<rparr>))" for held store
    using ok1 by (simp_all add: logs_ok_def state_put_def state_forget_def)
  show ?case
    using Suc.IH [OF Suc.prems(1) rest(2)] rest
    by (simp add: wd1_def [symmetric] Let_def split: prod.split created.split)
qed simp

lemma after_ship_logs: "sp_logs (after_ship sy u outcome wd) = sp_logs wd"
  by (simp add: after_ship_def compact_once_def compact_stream_def case_prod_unfold split: shipped.split)

lemma sync_streams_logs: "\<forall>u \<in> fst ` set todo. plain_writer u \<Longrightarrow> logs_ok wd \<Longrightarrow> logs_ok (snd (sync_streams sy todo taken wd))"
proof (induction todo arbitrary: taken wd)
  case (Cons item rest)
  obtain u s where item: "item = (u, s)" by (cases item)
  have "plain_writer u" using Cons.prems(1) item by simp
  then have "logs_ok (snd (snd (ship_stream SHIP_ATTEMPTS (sy_happens sy u) u s taken wd)))"
    using ship_stream_logs Cons.prems(2) by blast
  then show ?case using Cons.IH Cons.prems(1) logs_ok_same [OF after_ship_logs]
    by (auto simp: item split: prod.split)
qed simp

lemma push_streams_logs: "sp_logs (snd (push_streams f ledger finished streams wd)) = sp_logs wd"
proof (induction streams arbitrary: wd)
  case (Cons u rest)
  have one: "sp_logs (snd (push_stream (f u) (map_of ledger u) finished u wd)) = sp_logs wd"
    by (simp add: push_stream_def Let_def split: prod.split created.split option.split)
  obtain r wd1 where push: "push_stream (f u) (map_of ledger u) finished u wd = (r, wd1)" by (meson surj_pair)
  show ?case using one Cons.IH [of wd1] by (cases r) (simp_all add: push case_prod_unfold)
qed simp

section \<open>The laws\<close>

lemma replicas_ok_keep:
  assumes "replicas_ok owners wd" "logs_ok wd'" "od_wf (sp_remote wd')"
    "\<And>w ps. plain_writer w \<Longrightarrow> owned_by owners w \<Longrightarrow> replica ps w wd \<Longrightarrow> \<exists>qs. replica qs w wd'"
  shows "replicas_ok owners wd'"
  using assms by (auto simp: replicas_ok_def logs_ok_def)

lemma some_replica: "replicas_ok owners wd \<Longrightarrow> \<exists>ps. replica ps [] wd"
  by (simp add: replicas_ok_def plain_writer_def owned_by_def owner_of_def partition_char_def)

lemma replicas_ok_from:
  assumes "replicas_ok owners wd" "logs_ok wd'" "\<And>w ps. plain_writer w \<Longrightarrow> replica ps w wd \<Longrightarrow> \<exists>qs. replica (ps @ qs) w wd'"
  shows "replicas_ok owners wd'"
proof -
  obtain ps where "replica ps [] wd" using some_replica [OF assms(1)] by blast
  then have "\<exists>qs. replica (ps @ qs) [] wd'" by (intro assms(3)) (simp_all add: plain_writer_def)
  then have "od_wf (sp_remote wd')" by (auto simp: replica_def)
  then show ?thesis using replicas_ok_keep [OF assms(1,2)] assms(3) by blast
qed

lemma replicas_ok_logs: "replicas_ok owners wd \<Longrightarrow> logs_ok wd"
  by (simp add: replicas_ok_def logs_ok_def)

lemma synced_ok:
  assumes ok: "replicas_ok owners wd"
  shows "replicas_ok owners (snd (sync_log_to_remote sy has_remote owners wd))"
proof (rule replicas_ok_from [OF ok])
  show "logs_ok (snd (sync_log_to_remote sy has_remote owners wd))"
    unfolding sync_log_to_remote_def
    using sync_streams_logs [OF _ replicas_ok_logs [OF ok], of "own_sizes owners wd" sy None] own_sizes_ready [OF ok]
      replicas_ok_logs [OF ok] by simp
  show "\<exists>qs. replica (ps @ qs) w (snd (sync_log_to_remote sy has_remote owners wd))" if "plain_writer w" "replica ps w wd" for w ps
    using sync_keeps [OF ok that, where sy = sy and has_remote = has_remote] by (auto simp: sync_kept_def split: prod.splits)
qed

lemma pushed_ok:
  assumes ok: "replicas_ok owners wd" and unknown: "\<forall>u. owned_by owners u \<longrightarrow> state_get wd u = None"
  shows "replicas_ok owners (snd (push_logs f ledger finished owners wd))"
proof (rule replicas_ok_from [OF ok])
  show "logs_ok (snd (push_logs f ledger finished owners wd))"
    unfolding push_logs_def by (rule logs_ok_same [OF push_streams_logs replicas_ok_logs [OF ok]])
  show "\<exists>qs. replica (ps @ qs) w (snd (push_logs f ledger finished owners wd))" if "plain_writer w" "replica ps w wd" for w ps
    using push_logs_keeps [OF ok that unknown, where f = f and ledger = ledger and finished = finished]
    by (auto simp: push_all_kept_def split: prod.splits)
qed

lemma forgotten_replica: "replica ps w wd \<Longrightarrow> replica ps w (forget_streams which wd)"
proof -
  have "map_of (filter (\<lambda>(s, v). \<not> which s) st) w = (if which w then None else map_of st w)" for st :: "(string, nat \<times> nat) odict"
    by (induction st) auto
  then have "state_get (forget_streams which wd) w \<in> {None, state_get wd w}"
    by (simp add: forget_streams_def state_get_def)
  then show "replica ps w wd \<Longrightarrow> replica ps w (forget_streams which wd)"
    by (auto simp: replica_def forget_streams_def local_log_def)
qed

lemma replicas_ok_step: "ship_step owners wd wd' \<Longrightarrow> replicas_ok owners wd \<Longrightarrow> replicas_ok owners wd'"
proof -
  assume step: "ship_step owners wd wd'" and ok: "replicas_ok owners wd"
  note logs = replicas_ok_logs [OF ok]
  have wf: "od_wf (sp_remote wd)" using ok by (simp add: replicas_ok_def)
  from step show ?thesis
  proof cases
    case (appended u data)
    have "logs_ok wd'" "od_wf (sp_remote wd')" using logs_ok_append [OF appended(2) logs] wf by (simp_all add: appended(1))
    then show ?thesis using replicas_ok_keep [OF ok] append_replica unfolding appended(1) by blast
  next
    case (synced sy has_remote)
    then show ?thesis using synced_ok [OF ok] by simp
  next
    case (pushed f ledger finished)
    then show ?thesis using pushed_ok [OF ok] by simp
  next
    case (compacted g)
    note c = compact_record_keeps [OF wf, where f = g]
    show ?thesis unfolding compacted
      by (rule replicas_ok_keep [OF ok]) (use c logs in \<open>auto simp: logs_ok_def replica_def\<close>)
  next
    case (forgotten which)
    have "logs_ok wd'" "od_wf (sp_remote wd')" using logs wf by (simp_all add: forgotten forget_streams_def logs_ok_def)
    then show ?thesis using replicas_ok_keep [OF ok] forgotten_replica unfolding forgotten by blast
  next
    case restarted
    show ?thesis unfolding restarted
      by (rule replicas_ok_keep [OF ok]) (use wf logs in \<open>auto simp: logs_ok_def replica_compacted\<close>)
  next
    case (elsewhere store)
    have "replica ps w wd'" if "owned_by owners w" "replica ps w wd" for w ps
      using that elsewhere(2,3) by (simp add: elsewhere(1) replica_def)
    moreover have "logs_ok wd'" "od_wf (sp_remote wd')" using logs elsewhere by (simp_all add: logs_ok_def)
    ultimately show ?thesis using replicas_ok_keep [OF ok] by blast
  qed
qed

lemma replicas_ok_run: "(ship_step owners)\<^sup>*\<^sup>* wd wd' \<Longrightarrow> replicas_ok owners wd \<Longrightarrow> replicas_ok owners wd'"
  by (induction rule: rtranclp_induct) (auto intro: replicas_ok_step)

text \<open>
  C10. Consider the states of a copy that never shipped, reached by appending to it, syncing, compacting
  (by anyone), restarting, forgetting what it shipped, and by pushing, the last only while the ship
  state knows none of the copy's streams, as in a copy whose only shipper is the push (a push after a
  sync can hide a later sync: push_hides_next_sync); whatever uploads and compactions fail, land without
  an answer or are repeated. In every such state what a reader of the remote sees of a stream of the
  copy is the beginning of the copy's local file, and ends with a whole line.
\<close>

theorem remote_log_is_local_prefix:
  assumes "never_shipped owners wd0" "(ship_step owners)\<^sup>*\<^sup>* wd0 wd" "plain_writer w" "owned_by owners w"
  shows "(\<exists>t. local_log wd w = read_stream (sp_remote wd) w @ t) \<and> line_ended (read_stream (sp_remote wd) w)"
proof -
  have "replicas_ok owners wd" using replicas_ok_run [OF assms(2) never_shipped_ok [OF assms(1)]] .
  then obtain ps where ps: "replica ps w wd" using assms(3,4) by (auto simp: replicas_ok_def)
  then show ?thesis using replica_read(1) [OF assms(3) ps] pieces_ended by (auto simp: replica_def)
qed


section \<open>A push behind the ship state's back\<close>

definition demo_stream :: string where "demo_stream = ''h~a''"

definition demo_line :: "char \<Rightarrow> string" where "demo_line c = [c, LINE_END]"

definition demo_copy :: shipping where
  "demo_copy = \<lparr>sp_logs = [(demo_stream, demo_line (CHR ''a''))], sp_remote = [], sp_state = [], sp_compacted = []\<rparr>"

definition calm_compaction :: compact_fault where "calm_compaction = \<lparr>cf_read = True, cf_put = Answered, cf_deleted = None\<rparr>"

definition calm_sync :: "bool \<Rightarrow> sync_run" where
  "calm_sync finished = \<lparr>sy_happens = \<lambda>s n. ([], Answered), sy_compact = \<lambda>s. calm_compaction, sy_finished = finished,
     sy_final_flush = False, sy_finalizing = False\<rparr>"

definition calm_push :: push_fault where "calm_push = \<lparr>pf_read = True, pf_put = Answered, pf_compact = calm_compaction\<rparr>"

lemma demo_plain: "plain_writer demo_stream" "owned_by [''a''] demo_stream"
  by (simp_all add: demo_stream_def plain_writer_def owned_by_def owner_of_def partition_char_def STREAM_SEP_def)

lemma demo_lines: "whole_lines [c, LINE_END] = [c, LINE_END]" "whole_lines [c, LINE_END, d, LINE_END] = [c, LINE_END, d, LINE_END]" "whole_lines [] = []"
  by (simp_all add: whole_lines_def)

lemma newline_not: "CHR ''a'' \<noteq> LINE_END" "CHR ''b'' \<noteq> LINE_END" "CHR ''c'' \<noteq> LINE_END"
  by (simp_all add: LINE_END_def)

lemma nothing_listed: "log_object_groups [] = []" "log_objects [] w = []" "objects_listed [] w = []"
  by (simp_all add: log_object_groups_def group_log_names_def log_objects_def objects_listed_def)

lemma calm_ship:
  assumes "held_of wd taken w = ((off, seq), taken')" "off < sz" "whole_lines (drop off (local_log wd w)) = chunk" "chunk \<noteq> []"
    "map_of (sp_remote wd) (log_object_name w seq) = None"
  shows "ship_stream SHIP_ATTEMPTS (\<lambda>n. ([], Answered)) w sz taken wd =
    (Shipped seq (off + length chunk), taken',
     state_put w (off + length chunk, seq + 1) ((state_forget w wd)\<lparr>sp_remote := od_put (log_object_name w seq) chunk (sp_remote wd)\<rparr>))"
proof -
  have five: "SHIP_ATTEMPTS = Suc 4" by (simp add: SHIP_ATTEMPTS_def)
  have same: "append_local w [] wd = wd" by (simp add: append_local_def)
  show ?thesis unfolding five ship_stream.simps(2) Let_def fst_conv snd_conv same assms(1) prod.case assms(3)
    using assms(2,4,5) by (simp add: create_log_segment_def create_object_def od_has_def)
qed

lemma demo_own_sizes: "map_of (sp_logs wd) demo_stream = Some data \<Longrightarrow> sp_logs wd = [(demo_stream, data)] \<Longrightarrow>
    own_sizes [''a''] wd = [(demo_stream, length data)]"
  using demo_plain(2) by (simp add: own_sizes_def)

lemma demo_shipped:
  "sync_log_to_remote (calm_sync False) True [''a''] demo_copy =
     (True, demo_copy\<lparr>sp_remote := [(log_object_name demo_stream 0, demo_line (CHR ''a''))], sp_state := [(demo_stream, (2, 1))]\<rparr>)"
proof -
  have sizes: "own_sizes [''a''] demo_copy = [(demo_stream, 2)]"
    using demo_own_sizes [of demo_copy "demo_line (CHR ''a'')"] by (simp add: demo_copy_def demo_line_def)
  have held: "held_of demo_copy None demo_stream = ((0, 0), Some [])"
    by (simp add: held_of_def state_get_def groups_now_def demo_copy_def nothing_listed state_of_def next_seq_def)
  have chunk: "whole_lines (drop 0 (local_log demo_copy demo_stream)) = demo_line (CHR ''a'')"
    by (simp add: demo_copy_def local_log_def demo_line_def demo_lines)
  have "map_of (sp_remote demo_copy) (log_object_name demo_stream 0) = None" by (simp add: demo_copy_def)
  note ship = calm_ship [OF held, of 2, OF _ chunk _ this]
  show ?thesis unfolding sync_log_to_remote_def sizes sync_streams.simps
    using ship by (simp add: calm_sync_def demo_line_def after_ship_def live_rollup_due_def demo_copy_def state_put_def state_forget_def od_del_def)
qed

definition demo_pushed :: shipping where
  "demo_pushed = \<lparr>sp_logs = [(demo_stream, demo_line (CHR ''a'') @ demo_line (CHR ''b''))],
     sp_remote = [(compacted_log_name demo_stream 1, demo_line (CHR ''a'') @ demo_line (CHR ''b''))],
     sp_state = [(demo_stream, (2, 1))], sp_compacted = []\<rparr>"

lemma demo_spans_of:
  "snd (writer_and_span (log_object_name demo_stream n)) = (n, n)" "snd (writer_and_span (compacted_log_name demo_stream n)) = (0, n)"
  "own_name demo_stream (log_object_name demo_stream n)" "own_name demo_stream (compacted_log_name demo_stream n)"
  using span_of_object [OF demo_plain(1), of n] span_of_compacted [OF demo_plain(1), of n] own_names [OF demo_plain(1)] by simp_all

lemma demo_names: "log_object_name demo_stream m = log_object_name demo_stream n \<longleftrightarrow> m = n"
  "0 < n \<Longrightarrow> log_object_name demo_stream m \<noteq> compacted_log_name demo_stream n"
  using demo_spans_of(1,2) by (metis prod.inject less_irrefl)+

lemma demo_first_object:
  "log_objects [(log_object_name demo_stream 0, d)] demo_stream = [(log_object_name demo_stream 0, length d)]"
  by (simp add: log_objects_own own_objects_def demo_spans_of name_spans_def visible_spans_def)

lemma demo_two_objects:
  "log_objects [(log_object_name demo_stream 0, d), (log_object_name demo_stream 1, e)] demo_stream =
     [(log_object_name demo_stream 0, length d), (log_object_name demo_stream 1, length e)]"
  by (simp add: log_objects_own own_objects_def demo_spans_of name_spans_def visible_spans_def demo_names less_eq_prod_def less_prod_def)

lemma demo_superseded:
  "log_objects [(compacted_log_name demo_stream 1, d), (log_object_name demo_stream 1, e)] demo_stream =
     [(compacted_log_name demo_stream 1, length d)]"
  by (simp add: log_objects_own own_objects_def demo_spans_of name_spans_def visible_spans_def demo_names)

lemma demo_push:
  "push_logs (\<lambda>s. calm_push) [] True [''a'']
     (append_local demo_stream (demo_line (CHR ''b'')) (snd (sync_log_to_remote (calm_sync False) True [''a''] demo_copy)))
   = (Some [(demo_stream, 4)], demo_pushed)"
proof -
  let ?n0 = "log_object_name demo_stream 0" and ?n1 = "log_object_name demo_stream 1"
  let ?a = "demo_line (CHR ''a'')" and ?b = "demo_line (CHR ''b'')"
  define wd where "wd = \<lparr>sp_logs = [(demo_stream, ?a @ ?b)], sp_remote = [(?n0, ?a)], sp_state = [(demo_stream, (2, 1))], sp_compacted = []\<rparr>"
  have start: "append_local demo_stream ?b (snd (sync_log_to_remote (calm_sync False) True [''a''] demo_copy)) = wd"
    unfolding demo_shipped snd_conv by (simp add: append_local_def demo_copy_def local_log_def wd_def demo_line_def)
  have compacted: "compact_log_segments calm_compaction demo_stream [(?n0, ?a), (?n1, ?b)] =
      ([(compacted_log_name demo_stream 1, ?a @ ?b)], Some True)"
    unfolding compact_log_segments_def demo_two_objects
    by (simp add: demo_names calm_compaction_def log_writer_and_seq_def case_prod_unfold demo_spans_of create_object_def od_has_def
        delete_objects_def demo_names(2) [symmetric] demo_names(2))
  have listed: "log_objects (sp_remote wd) demo_stream = [(?n0, 2)]" by (simp add: wd_def demo_first_object demo_line_def)
  have seq: "next_seq [(?n0, 2)] = 1" by (simp add: next_seq_def log_writer_and_seq_def case_prod_unfold demo_spans_of)
  have chunk: "whole_lines (drop 2 (local_log wd demo_stream)) = ?b" by (simp add: wd_def local_log_def demo_line_def demo_lines)
  have body: "map_of (sp_remote wd) ?n0 = Some ?a" "take 2 (local_log wd demo_stream) = ?a" "length ?a = 2" "length ?b = 2" "?b \<noteq> []"
    by (simp_all add: wd_def local_log_def demo_line_def)
  have create: "create_log_segment Answered demo_stream 1 ?b (sp_remote wd) = ([(?n0, ?a), (?n1, ?b)], Created)"
    by (simp add: wd_def create_log_segment_def create_object_def od_has_def demo_names)
  have merged: "wd\<lparr>sp_remote := [(compacted_log_name demo_stream 1, ?a @ ?b)]\<rparr> = demo_pushed" by (simp add: wd_def demo_pushed_def)
  have sums: "sum_list (map snd [(?n0, 2)]) = (2 :: nat)" by simp
  have one: "push_stream calm_push None True demo_stream wd = (Pushed 4, demo_pushed)"
    unfolding push_stream_def listed Let_def sums seq chunk
    by (simp add: body create [simplified] compacted [simplified] merged [simplified] calm_push_def)
  have "filter (owned_by [''a'']) (map fst (sp_logs wd)) = [demo_stream]" by (simp add: wd_def demo_plain)
  then show ?thesis unfolding start push_logs_def by (simp add: one)
qed

text \<open>
  A push ships without the ship state, and merges what it shipped once the run has finished. A
  copy that had shipped before then still remembers the old end: its next sync creates the segment the
  push has merged away, next to the merged object that supersedes it. The sync returns, the state says
  everything was shipped, and no reader of the remote ever sees the new line.
\<close>

theorem push_hides_next_sync:
  "\<exists>wd1 wd2 wd3. sync_log_to_remote (calm_sync False) True [''a''] demo_copy = (True, wd1)
    \<and> push_logs (\<lambda>s. calm_push) [] True [''a''] (append_local demo_stream (demo_line (CHR ''b'')) wd1) = (Some [(demo_stream, 4)], wd2)
    \<and> sync_log_to_remote (calm_sync True) True [''a''] (append_local demo_stream (demo_line (CHR ''c'')) wd2) = (True, wd3)
    \<and> local_log wd3 demo_stream = demo_line (CHR ''a'') @ demo_line (CHR ''b'') @ demo_line (CHR ''c'')
    \<and> read_stream (sp_remote wd3) demo_stream = demo_line (CHR ''a'') @ demo_line (CHR ''b'')
    \<and> state_get wd3 demo_stream = Some (6, 2)"
proof -
  let ?m = "compacted_log_name demo_stream 1" and ?n1 = "log_object_name demo_stream 1"
  let ?a = "demo_line (CHR ''a'')" and ?b = "demo_line (CHR ''b'')" and ?c = "demo_line (CHR ''c'')"
  have "?n1 \<noteq> ?m" using demo_names(2) [of 1 1] by simp
  then have ne: "?n1 \<noteq> ?m" "?m \<noteq> ?n1" by metis+
  define wd where "wd = append_local demo_stream ?c demo_pushed"
  have wd: "wd = \<lparr>sp_logs = [(demo_stream, ?a @ ?b @ ?c)], sp_remote = [(?m, ?a @ ?b)], sp_state = [(demo_stream, (2, 1))], sp_compacted = []\<rparr>"
    by (simp add: wd_def append_local_def demo_pushed_def local_log_def demo_line_def)
  define wd' where "wd' = \<lparr>sp_logs = [(demo_stream, ?a @ ?b @ ?c)], sp_remote = [(?m, ?a @ ?b), (?n1, ?b @ ?c)],
      sp_state = [(demo_stream, (6, 2))], sp_compacted = []\<rparr>"
  have sizes: "own_sizes [''a''] wd = [(demo_stream, 6)]"
    using demo_own_sizes [of wd "?a @ ?b @ ?c"] by (simp add: wd demo_line_def)
  have held: "held_of wd None demo_stream = ((2, 1), None)" by (simp add: held_of_def state_get_def wd)
  have chunk: "whole_lines (drop 2 (local_log wd demo_stream)) = ?b @ ?c"
    by (simp add: wd local_log_def demo_line_def demo_lines)
  have "map_of (sp_remote wd) ?n1 = None" using ne by (simp add: wd)
  note ship = calm_ship [OF held, of 6, OF _ chunk _ this]
  have shipped: "ship_stream SHIP_ATTEMPTS (\<lambda>n. ([], Answered)) demo_stream 6 None wd = (Shipped 1 6, None, wd')"
    using ship ne by (simp add: demo_line_def wd wd'_def state_put_def state_forget_def od_del_def)
  have remote: "sp_remote wd' = [(?m, ?a @ ?b), (?n1, ?b @ ?c)]" by (simp add: wd'_def)
  have listed: "log_objects (sp_remote wd') demo_stream = [(?m, 4)]"
    unfolding remote demo_superseded by (simp add: demo_line_def)
  have "compact_stream calm_compaction demo_stream wd' = (True, wd')"
    by (simp add: compact_stream_def compact_log_segments_def listed del: not_None_eq)
  then have "sync_log_to_remote (calm_sync True) True [''a''] wd = (True, wd'\<lparr>sp_compacted := [demo_stream]\<rparr>)"
    unfolding sync_log_to_remote_def sizes sync_streams.simps
    by (simp add: calm_sync_def shipped [simplified] after_ship_def compact_once_def, simp add: wd'_def)
  moreover have "read_stream (sp_remote wd') demo_stream = ?a @ ?b"
    unfolding read_stream_def listed by (simp add: wd'_def)
  moreover have "local_log wd' demo_stream = ?a @ ?b @ ?c" "state_get wd' demo_stream = Some (6, 2)"
    by (simp_all add: wd'_def local_log_def state_get_def)
  moreover have "read_stream (sp_remote (wd'\<lparr>sp_compacted := [demo_stream]\<rparr>)) demo_stream = read_stream (sp_remote wd') demo_stream" by simp
  ultimately show ?thesis
    unfolding wd_def
    by (intro exI [of _ "snd (sync_log_to_remote (calm_sync False) True [''a''] demo_copy)"] exI [of _ demo_pushed]
        exI [of _ "wd'\<lparr>sp_compacted := [demo_stream]\<rparr>"] conjI)
      (simp_all only: demo_shipped snd_conv demo_push [unfolded demo_shipped snd_conv] state_simps refl)
qed

section \<open>At a concrete copy\<close>

lemma demo_never_shipped: "never_shipped [''a''] demo_copy"
  using demo_plain by (simp add: never_shipped_def demo_copy_def own_objects_def state_get_def od_wf_def)

theorem remote_log_is_local_prefix_witness:
  "\<exists>wd. (ship_step [''a''])\<^sup>*\<^sup>* demo_copy wd \<and> read_stream (sp_remote wd) demo_stream = demo_line (CHR ''a'')
    \<and> (\<exists>t. local_log wd demo_stream = read_stream (sp_remote wd) demo_stream @ t) \<and> line_ended (read_stream (sp_remote wd) demo_stream)"
proof -
  let ?wd = "snd (sync_log_to_remote (calm_sync False) True [''a''] demo_copy)"
  have run: "(ship_step [''a''])\<^sup>*\<^sup>* demo_copy ?wd" by (intro r_into_rtranclp synced)
  have "read_stream (sp_remote ?wd) demo_stream = demo_line (CHR ''a'')"
    by (simp add: demo_shipped read_stream_def demo_first_object)
  then show ?thesis using run remote_log_is_local_prefix [OF demo_never_shipped run demo_plain] by blast
qed


section \<open>What a copy reads, and what a push returns\<close>

lemma log_sizes_at: "map_of (log_sizes_of store) w = (if own_objects store w = [] then None else Some (sum_list (map snd (log_objects store w))))"
  unfolding log_sizes_of_def map_of_apply groups_at by (simp add: log_objects_own o_def)

text \<open>The copy reads its own streams from its local files: the remote's are never the bigger ones.\<close>

theorem own_streams_read_locally:
  assumes "replicas_ok owners wd" "owned_by owners w" "w \<in> fst ` set (sp_logs wd)"
  shows "map_of (pick_log_sources (log_sizes_of (sp_remote wd)) (map (\<lambda>(s, data). (s, length data)) (sp_logs wd))) w = Some LOCAL"
proof -
  have w: "plain_writer w" using assms(1,3) by (auto simp: replicas_ok_def)
  obtain ps where ps: "replica ps w wd" using assms(1,2) w by (auto simp: replicas_ok_def)
  obtain data where "map_of (sp_logs wd) w = Some data" using assms(3) by (metis map_of_eq_None_iff option.exhaust)
  moreover have "sum_list (map snd (log_objects (sp_remote wd) w)) \<le> length (local_log wd w)"
    using replica_read(2) [OF w ps] ps by (auto simp: state_of_def replica_def)
  ultimately have "log_source (log_sizes_of (sp_remote wd)) (map (\<lambda>(s, data). (s, length data)) (sp_logs wd)) w = LOCAL"
    by (simp add: log_source_def log_sizes_at local_log_def map_of_apply [of "\<lambda>s. length"])
  moreover have "w \<in> set (remdups (map fst (log_sizes_of (sp_remote wd)) @ map fst (map (\<lambda>(s, data). (s, length data)) (sp_logs wd))))"
    using assms(3) by force
  ultimately show ?thesis unfolding pick_log_sources_def by (simp add: map_of_map_restrict)
qed

text \<open>A push of streams the ship state does not know leaves the remote with exactly the whole lines of the local files.\<close>

theorem push_ships_whole_lines:
  assumes "replicas_ok owners wd" "\<forall>u. owned_by owners u \<longrightarrow> state_get wd u = None" "owned_by owners w" "w \<in> fst ` set (sp_logs wd)"
    "push_logs f ledger finished owners wd = (Some sizes, wd')"
  shows "read_stream (sp_remote wd') w = whole_lines (local_log wd w)"
proof -
  have w: "plain_writer w" using assms(1,4) by (auto simp: replicas_ok_def)
  obtain ps where ps: "replica ps w wd" using assms(1,3) w by (auto simp: replicas_ok_def)
  then show ?thesis using push_logs_keeps [OF assms(1) w ps assms(2), of f ledger finished] assms(3-5)
    by (auto simp: push_all_kept_def)
qed

end
