(* ===== verification/Spec2Isabelle.thy ===== *)
theory Spec2Isabelle
imports Publish_Laws Version_Properties Advance_Laws Stamp_Command Git_Push
  Run_Annotate State_CAS Registry_Log Query_Eval Query_Print Log_Row Log_Append
  Log_Index Log_Buffer Journal_Writer Journal_Follow Sweep_Trials Alerts Log_Ship
begin

text \<open>
  A verification of vmn, a version stamper for git repositories (packages/vmn, Python package
  \<open>version_stamp\<close>), and of the experiment store built on it (packages/vmn-exp-sdk and packages/vmn-exp,
  package \<open>vmn_exp\<close>).

  \<^bold>\<open>The program.\<close> \<open>vmn stamp\<close> reads the tags of a repository (backends/), takes the version of an
  application and the state of its root application out of their messages, advances the version by a
  release mode (stamping/base.py), writes the version and changelog files, commits, tags and pushes,
  and undoes all of it when a step fails (stamping/publisher.py), trying again when another stamp was
  faster (cli/commands.py). \<open>vmn-exp\<close> records experiment runs: a run is an append-only log folded into
  a row, a state file that several processes may want to end, and a place in a tree of runs; a sweep
  hands its trials to agents that share nothing but the store; a registry of models is a log of alias
  moves and status changes; and listings are filtered by a query language. All of them are written by
  several machines that only share an object store, so most of the laws are about orders and races.

  \<^bold>\<open>Shared theories.\<close> Prelude: exceptions as values, Python strings, decimal numbers, ordered
  dictionaries. Effects: actions that return a value or an exception with the state they leave.
  Py_Regex: a backtracking matcher of the \<open>re\<close> subset the sources use, with the language it accepts.
  Data_Values: YAML values and reading along a path.

  \<^bold>\<open>Versions.\<close> Version_Grammar and Version_Math are core/constants.py, core/models.py and
  core/version_math.py; Version_Laws and Version_Properties show what parses, that printing and
  parsing are inverse and where they are not. Core_Utils is core/utils.py: credentials in URLs,
  application paths, managed blocks of a file. Changelog is core/changelog.py with the changelog file
  and release notes of the publisher.

  \<^bold>\<open>Stamping.\<close> Git_Tags is backends/git_tags.py, git_tag_parse.py and the lookups of the local
  backend; Stamp_Advance and Advance_Laws are the version arithmetic of stamping/base.py with the
  theorem that an advanced version is new when it advances over all tags; Stamping and Publish are stamping/publisher.py, Publish_Laws
  the rollback of a failed publish; Repo_Status is stamping/repo_status.py and dep_pins.py; Git_Push is
  backends/git_ops.py; Stamp_Command is cli/commands.py: release modes and the retry loop.

  \<^bold>\<open>Runs.\<close> Run_Status is core/status.py; Run_Tree, Run_Rollup, Run_Settle and Run_Annotate are
  core/tree.py and core/settle.py: rollups over trees with loops, settling, and the agreement of the
  whole-application passes with the readings of one run. State_CAS is core/state_cas.py and
  run_finish.py over the conditional writes of storage/local.py, as a step relation of interleaved
  processes: a final state gives way only to its own attempt, to a publisher resuming it, or to force. Log_Entry, Log_Fold, Log_Metrics and Log_Row are core/fold.py with core/rewind.py,
  fold_facts.py, metric_summary.py and values.py: the fold of a run's log into a row. Log_Slots,
  Log_Laws, Log_View and Log_Arrival show what its fields hold, whatever order the log arrives in,
  and Log_Append what appending to it does. Log_Files, Jsonl_Tail and Log_Index are core/logfiles.py,
  jsonl_tail.py and index_logs.py: names of segments and merged files, reading a growing file by its
  complete lines, and keeping a record's fold current by what its files grew by. Metric_Columns,
  Metric_Block, Metric_Stream and Metric_Points are core/metric_columns.py, metric_block.py,
  metric_stream.py and metric_entries.py with the appends of storage/local_metrics.py: metric points
  in packed blocks, and what dying writers leave; Log_Buffer is sdk/log_buffer.py with the batch write
  of core/writer.py: what a run logs on its way to the store. Alerts is core/alerts/transitions.py: one
  alert per transition of a run's status, up to marks that cannot be read or saved. Log_Objects and Log_Ship are storage/s3_logs.py,
  storage/cached_logs.py, storage/ship_state.py, core/streams.py, core/push_logs.py and
  core/log_compact.py: a stream's objects in a remote, and what shipping a local log to them keeps
  (\<open>replica\<close>) whatever requests fail, land unanswered or are repeated; a push that ships without the
  ship state breaks it (\<open>push_hides_next_sync\<close>).

  \<^bold>\<open>Change journal.\<close> Url_Quote is the percent encoding the keys and the push targets share. Journal_Keys,
  Journal_Reader and Journal_Writer are core/journal_keys.py, core/journal_reader.py and
  storage/journal.py over the local sink of storage/journal_sinks.py: keys that sort by time, through
  the calendar that names their minute partitions; what a reader's ticks list, take as new and group;
  the writer's queue under interleaved threads and failing puts. Journal_Follow is ui/journal_follow.py:
  how ticks reach the watched indexes and the other replicas.

  \<^bold>\<open>Sweeps.\<close> Sweep_Claims is core/sweep/claims.py: trials claimed by exclusive creation under
  lagging listings. Sweep_Spec and Sweep_Grid are core/sweep/spec.py and the grid of suggest.py, with
  the composition that agents claiming until nothing is left have run the whole grid. Sweep_Stop is
  core/sweep/early_stop.py and peer_points.py, the median rule; Sweep_Trials is core/sweep/summary.py,
  view.py and the agent's choice of its next claim (cli/sweep/agent.py).

  \<^bold>\<open>Registry and queries.\<close> Registry_Names, Registry_Fold and Registry_Log are registry/.
  Query_Lexer, Query_Parser, Query_Eval, Query_Laws and Query_Print are core/query.py, query_up.py and
  query_ago.py: tokens with offsets, the parser, evaluation over rows, well-formedness of what parses,
  and the round trip from a tree through any text that a grammar of tokens (\<open>writes\<close>, stated without
  the lexer) writes for it.

  \<^bold>\<open>State and effects.\<close> Objects are records, dictionaries association lists in insertion order (or
  maps where no order is observable), exceptions values of a sum type. Git, the file system, clocks
  and the store are records of functions or arguments; what the code relies on is a hypothesis of the
  theorems that need it, or a locale: \<open>tag_index\<close> (listing tags by a prefix), \<open>versioned_file\<close>
  (conditional writes), \<open>exclusive_area\<close> (exclusive creation), \<open>keyed_slot\<close> (the entry a field
  of a fold keeps) and \<open>journal_listing\<close> (listing a partition of the change journal), each interpreted on the model of the
  provider the repository has.

  \<^bold>\<open>Bounds.\<close> The walk to the last stamped commit keeps the code's bound
  \<open>MAX_COMMIT_SEARCH_ITERATIONS\<close>; a stamp publishes at most three times, a compare-and-save runs eight
  rounds, a claim a thousand, a registration two hundred, and the theorems say what exhausts them. The
  query parser counts levels down from \<open>MAX_NESTING\<close>, as the code counts them up, and its chains
  take the number of remaining tokens as fuel, of which each round uses one; \<open>parsed_outcome\<close> shows
  that the fuel never runs out. Loops over parent links are recursions on measures.

  \<^bold>\<open>Not modelled.\<close> Input and output themselves: running git, the object stores (S3), files, the web
  server and its TypeScript client, the terminal interface, argument parsing and completion, logging,
  the upload worker and the SQL caches. Texts of error and log messages. Character classes are those of
  code points below 256, \<open>str.format\<close> has plain field names only. Floats are rationals, infinities or
  not a number, unrounded. Entity tags of a file are injective images of its content;
  memoizing caches are left out. The manifest lists every part with what is missing of it.
\<close>

end
